(* ===== verification/Prelude.thy ===== *)
theory Prelude
  imports Main "HOL-Library.Multiset"
begin

text \<open>
  The shared base of the development: the error values every fallible operation returns
  (\<^verbatim>\<open>src-tauri/src/error.rs\<close>), the sequencing of fallible steps, a few list facts, and two
  interfaces the components are checked against:
  \<^item> \<open>invariant_system\<close>: a step relation and a state predicate that every step keeps;
  \<^item> \<open>settle_store\<close>: a table whose rows move out of their live status at most once.
  The collections \<open>model_defs\<close> and \<open>inv_intros\<close> carry the component proofs.
\<close>

named_theorems model_defs "definitions that evaluate a concrete input"
named_theorems inv_intros "invariant preservation, one fact per operation"

section \<open>Errors\<close>

text \<open>\<^verbatim>\<open>InvalidInputIssue\<close> and \<^verbatim>\<open>ArgmaxError\<close> with its four variants.\<close>

record input_issue =
  issue_path :: "string list"
  issue_code :: string
  issue_message :: string

datatype argmax_error =
    InvalidInput "input_issue list"
  | RecordNotFound string string
  | MigrationDrift string
  | ServiceError string string

definition invalid :: "input_issue \<Rightarrow> argmax_error" where
  "invalid issue = InvalidInput [issue]"

definition record_not_found :: "string \<Rightarrow> string \<Rightarrow> argmax_error" where
  "record_not_found kind ident = RecordNotFound kind ident"

definition service :: "string \<Rightarrow> string \<Rightarrow> argmax_error" where
  "service sub_code message = ServiceError sub_code message"

text \<open>Rust's \<^verbatim>\<open>?\<close>: an error returns at once, a value goes on.\<close>

definition and_then :: "'e + 'a \<Rightarrow> ('a \<Rightarrow> 'e + 'b) \<Rightarrow> 'e + 'b" where
  "and_then r f = (case r of Inl e \<Rightarrow> Inl e | Inr x \<Rightarrow> f x)"

lemma and_then_simps [simp]:
  "and_then (Inl e) f = Inl e"
  "and_then (Inr x) f = f x"
  by (simp_all add: and_then_def)

lemma and_then_Inr_iff: "and_then r f = Inr y \<longleftrightarrow> (\<exists>x. r = Inr x \<and> f x = Inr y)"
  by (cases r) auto

lemma and_then_split: "P (and_then r f) \<longleftrightarrow> (\<forall>e. r = Inl e \<longrightarrow> P (Inl e)) \<and> (\<forall>x. r = Inr x \<longrightarrow> P (f x))"
  by (cases r) auto

definition is_ok :: "'e + 'a \<Rightarrow> bool" where
  "is_ok r = (case r of Inl _ \<Rightarrow> False | Inr _ \<Rightarrow> True)"

lemma is_ok_simps [simp]: "is_ok (Inr x)" "\<not> is_ok (Inl e)"
  by (simp_all add: is_ok_def)

text \<open>A loop whose body may return an error: the first error ends it.\<close>

fun fold_res :: "('a \<Rightarrow> 's \<Rightarrow> 'e + 's) \<Rightarrow> 'a list \<Rightarrow> 's \<Rightarrow> 'e + 's" where
  "fold_res f [] s = Inr s"
| "fold_res f (x # xs) s = and_then (f x s) (fold_res f xs)"

lemma fold_res_append: "fold_res f (xs @ ys) s = and_then (fold_res f xs s) (fold_res f ys)"
  by (induction xs arbitrary: s) (auto simp: and_then_def split: sum.splits)

text \<open>What every successful turn of the loop keeps, the loop keeps.\<close>

lemma fold_res_keeps:
  assumes "fold_res f xs s = Inr t" and "P s"
    and "\<And>x s t. x \<in> set xs \<Longrightarrow> P s \<Longrightarrow> f x s = Inr t \<Longrightarrow> P t"
  shows "P t"
  using assms by (induction xs arbitrary: s) (auto simp: and_then_Inr_iff)

section \<open>Step relations and their invariants\<close>

text \<open>
  A component with state is a step relation. What every step keeps holds after any
  number of steps; components interpret this locale and read off \<open>runs\<close>.
\<close>

locale invariant_system =
  fixes step :: "'s \<Rightarrow> 's \<Rightarrow> bool"
    and inv :: "'s \<Rightarrow> bool"
  assumes step_keeps: "inv s \<Longrightarrow> step s t \<Longrightarrow> inv t"
begin

lemma runs: "step\<^sup>*\<^sup>* s t \<Longrightarrow> inv s \<Longrightarrow> inv t"
  by (induction rule: rtranclp_induct) (auto intro: step_keeps)

end

section \<open>Tables whose rows settle once\<close>

text \<open>
  Goals and approvals share one contract: a row is live until the first settlement
  that reaches it, a settlement touches only live rows, and a settled row is never
  changed by a later one. \<open>ident\<close> reads a row's id, \<open>live\<close> its status, and
  \<open>settle v i\<close> is the \<^verbatim>\<open>UPDATE ... WHERE id = ? AND <live>\<close> of the component.
\<close>

locale settle_store =
  fixes ident :: "'r \<Rightarrow> 'i"
    and live :: "'r \<Rightarrow> bool"
    and terminal :: "'v \<Rightarrow> bool"
    and settle :: "'v \<Rightarrow> 'i \<Rightarrow> 'r list \<Rightarrow> 'r list"
    and settled_row :: "'v \<Rightarrow> 'r \<Rightarrow> 'r"
  assumes settle_map: "settle v i rows = map (\<lambda>r. if ident r = i \<and> live r then settled_row v r else r) rows"
    and settled_ident: "ident (settled_row v r) = ident r"
    and settled_not_live: "terminal v \<Longrightarrow> \<not> live (settled_row v r)"
begin

fun settle_all :: "('v \<times> 'i) list \<Rightarrow> 'r list \<Rightarrow> 'r list" where
  "settle_all [] rows = rows"
| "settle_all ((v, i) # vs) rows = settle_all vs (settle v i rows)"

lemma settle_idents: "map ident (settle v i rows) = map ident rows"
  by (simp add: settle_map settled_ident)

lemma settle_keeps_settled: "r \<in> set rows \<Longrightarrow> \<not> live r \<Longrightarrow> r \<in> set (settle v i rows)"
  by (auto simp: settle_map image_iff intro: bexI [where x = r])

lemma settle_keeps_others: "r \<in> set rows \<Longrightarrow> ident r \<noteq> i \<Longrightarrow> r \<in> set (settle v i rows)"
  by (auto simp: settle_map image_iff intro: bexI [where x = r])

lemma settle_all_keeps_settled: "r \<in> set rows \<Longrightarrow> \<not> live r \<Longrightarrow> r \<in> set (settle_all vs rows)"
  by (induction vs rows rule: settle_all.induct) (auto simp: settle_keeps_settled)

lemma settle_idle: "\<forall>r \<in> set rows. ident r = i \<longrightarrow> \<not> live r \<Longrightarrow> settle v i rows = rows"
  unfolding settle_map by (rule map_idI) auto

lemma settle_settles: "terminal v \<Longrightarrow> r \<in> set (settle v i rows) \<Longrightarrow> ident r = i \<Longrightarrow> \<not> live r"
  by (auto simp: settle_map settled_not_live split: if_splits)

lemma settle_no_new_live: "terminal v \<Longrightarrow> r \<in> set (settle v i rows) \<Longrightarrow> live r \<Longrightarrow> r \<in> set rows"
  by (auto simp: settle_map settled_not_live split: if_splits)

lemma first_settlement_wins: "terminal v \<Longrightarrow> settle v' i (settle v i rows) = settle v i rows"
  by (rule settle_idle) (blast dest: settle_settles)

end

section \<open>List facts\<close>

lemma find_Some_mem: "find P xs = Some x \<Longrightarrow> x \<in> set xs \<and> P x"
  by (induction xs) (auto split: if_splits)

lemma find_None_all: "find P xs = None \<longleftrightarrow> (\<forall>x \<in> set xs. \<not> P x)"
  by (auto simp: find_None_iff)

lemma find_map_key: "find (\<lambda>r. f r = k) (map g xs) = map_option g (find (\<lambda>r. f (g r) = k) xs)"
  by (induction xs) auto

text \<open>Rust's \<^verbatim>\<open>Iterator::max_by_key\<close>: the last element of the greatest key.\<close>

fun max_by_key :: "('a \<Rightarrow> 'b::linorder) \<Rightarrow> 'a list \<Rightarrow> 'a option" where
  "max_by_key f [] = None"
| "max_by_key f (x # xs) =
     (case max_by_key f xs of
        None \<Rightarrow> Some x
      | Some y \<Rightarrow> if f x \<le> f y then Some y else Some x)"

lemma max_by_key_None [simp]: "max_by_key f xs = None \<longleftrightarrow> xs = []"
  by (cases xs) (auto split: option.splits)

lemma max_by_key_mem: "max_by_key f xs = Some x \<Longrightarrow> x \<in> set xs"
  by (induction xs arbitrary: x) (auto split: option.splits if_splits)

lemma max_by_key_ge: "max_by_key f xs = Some x \<Longrightarrow> y \<in> set xs \<Longrightarrow> f y \<le> f x"
proof (induction xs arbitrary: x y)
  case Nil
  then show ?case by simp
next
  case (Cons a xs)
  show ?case
  proof (cases "max_by_key f xs")
    case None
    with Cons.prems show ?thesis by simp
  next
    case (Some z)
    then have "\<And>w. w \<in> set xs \<Longrightarrow> f w \<le> f z" by (rule Cons.IH)
    with Cons.prems Some show ?thesis by (fastforce split: if_splits)
  qed
qed

end
