(* ===== verification/Lifecycle.thy ===== *)
theory Lifecycle
  imports Prelude
begin

text \<open>
  \<^verbatim>\<open>src-tauri/src/workspaces/lifecycle.rs\<close>: the admission gate of a workspace. Every service
  that starts a child process in a workspace is admitted first; archiving closes the
  gate before it cancels children. The gate is a map from workspace ids to entries. An
  admission is an owned guard released on drop, an archive lease an owned guard that
  reopens the gate when it is dropped unfinished: both are the \<open>tokens\<close> and \<open>leases\<close>
  of the state \<open>gate_sys\<close>, the guards that are alive. \<open>holder_step\<close> has one rule per call a
  guard holder or a service makes; \<open>gate_step\<close> adds \<^verbatim>\<open>reopen\<close>, the explicit recovery.
\<close>

section \<open>The gate and its operations\<close>

datatype lifecycle_state = Open | Archiving | Failed | Archived

datatype archive_outcome = OutArchived | OutReopened | OutFailed

record entry =
  entry_state :: lifecycle_state
  admissions :: nat

type_synonym gate = "string \<rightharpoonup> entry"

definition default_entry :: entry where
  "default_entry = \<lparr>entry_state = Open, admissions = 0\<rparr>"

text \<open>\<^verbatim>\<open>entries.entry(id).or_default()\<close>.\<close>

definition or_default :: "gate \<Rightarrow> string \<Rightarrow> entry" where
  "or_default g w = (case g w of None \<Rightarrow> default_entry | Some e \<Rightarrow> e)"

definition admit :: "gate \<Rightarrow> string \<Rightarrow> (argmax_error + unit) \<times> gate" where
  "admit g w =
     (let e = or_default g w; g' = g(w \<mapsto> e)
      in case entry_state e of
           Archiving \<Rightarrow> (Inl (service ''WORKSPACE_ARCHIVING''
             ''Workspace archive is in progress; no new process can be started.''), g')
         | Failed \<Rightarrow> (Inl (service ''WORKSPACE_ARCHIVE_FAILED''
             ''Workspace archive requires explicit recovery before new processes can start.''), g')
         | Archived \<Rightarrow> (Inl (service ''WORKSPACE_ARCHIVE_FAILED''
             ''Workspace archive requires explicit recovery before new processes can start.''), g')
         | Open \<Rightarrow> (Inr (), g'(w \<mapsto> e\<lparr>admissions := admissions e + 1\<rparr>)))"

definition begin_archive :: "gate \<Rightarrow> string \<Rightarrow> (argmax_error + unit) \<times> gate" where
  "begin_archive g w =
     (let e = or_default g w; g' = g(w \<mapsto> e)
      in if entry_state e = Archiving \<or> entry_state e = Archived
         then (Inl (service ''WORKSPACE_ARCHIVE_IN_PROGRESS''
                ''Workspace archive is already in progress or has completed.''), g')
         else (Inr (), g'(w \<mapsto> e\<lparr>entry_state := Archiving\<rparr>)))"

text \<open>The inner option is the lease: \<open>None\<close> for a workspace that is already archived.\<close>

definition begin_cleanup :: "gate \<Rightarrow> string \<Rightarrow> (argmax_error + unit option) \<times> gate" where
  "begin_cleanup g w =
     (let e = or_default g w; g' = g(w \<mapsto> e)
      in case entry_state e of
           Open \<Rightarrow> (Inr (Some ()), g'(w \<mapsto> e\<lparr>entry_state := Archiving\<rparr>))
         | Archived \<Rightarrow> (Inr None, g')
         | Archiving \<Rightarrow> (Inl (service ''WORKSPACE_CLEANUP_BLOCKED''
             ''Workspace lifecycle work is still in progress.''), g')
         | Failed \<Rightarrow> (Inl (service ''WORKSPACE_CLEANUP_BLOCKED''
             ''Workspace lifecycle work is still in progress.''), g'))"

text \<open>The test of one poll of \<^verbatim>\<open>wait_for_admissions\<close>.\<close>

definition admissions_drained :: "gate \<Rightarrow> string \<Rightarrow> bool" where
  "admissions_drained g w = (case g w of None \<Rightarrow> True | Some e \<Rightarrow> admissions e = 0)"

text \<open>
  \<^verbatim>\<open>wait_for_admissions\<close> polls until the gate has drained or the bound elapses. The list
  holds the gate as each poll within the bound finds it.
\<close>

fun wait_for_admissions :: "gate list \<Rightarrow> string \<Rightarrow> bool" where
  "wait_for_admissions [] w = False"
| "wait_for_admissions (g # gs) w = (if admissions_drained g w then True else wait_for_admissions gs w)"

text \<open>\<^verbatim>\<open>saturating_sub\<close> is subtraction on \<^typ>\<open>nat\<close>.\<close>

definition release_admission :: "gate \<Rightarrow> string \<Rightarrow> gate" where
  "release_admission g w =
     (case g w of
        None \<Rightarrow> g
      | Some e \<Rightarrow>
          (let e' = e\<lparr>admissions := admissions e - 1\<rparr>
           in if admissions e' = 0 \<and> entry_state e' = Open then g(w := None) else g(w \<mapsto> e')))"

definition finish_archive :: "gate \<Rightarrow> string \<Rightarrow> archive_outcome \<Rightarrow> gate" where
  "finish_archive g w outcome =
     (case g w of
        None \<Rightarrow> g
      | Some e \<Rightarrow>
          (let e' = e\<lparr>entry_state := (case outcome of OutArchived \<Rightarrow> Archived
                                       | OutFailed \<Rightarrow> Failed | OutReopened \<Rightarrow> Open)\<rparr>
           in if outcome = OutReopened \<and> admissions e' = 0 then g(w := None) else g(w \<mapsto> e')))"

definition reopen :: "gate \<Rightarrow> string \<Rightarrow> gate" where
  "reopen g w =
     (case g w of
        None \<Rightarrow> g
      | Some e \<Rightarrow>
          (let e' = e\<lparr>entry_state := Open\<rparr>
           in if admissions e' = 0 then g(w := None) else g(w \<mapsto> e')))"

text \<open>\<^verbatim>\<open>Drop\<close> of an admission, \<^verbatim>\<open>finish\<close> and \<^verbatim>\<open>Drop\<close> of a lease.\<close>

definition drop_admission :: "gate \<Rightarrow> string \<Rightarrow> gate" where
  "drop_admission g w = release_admission g w"

definition drop_lease :: "gate \<Rightarrow> string \<Rightarrow> bool \<Rightarrow> gate" where
  "drop_lease g w finished = (if finished then g else finish_archive g w OutReopened)"

definition finish_lease :: "gate \<Rightarrow> string \<Rightarrow> archive_outcome \<Rightarrow> gate" where
  "finish_lease g w outcome = drop_lease (finish_archive g w outcome) w True"

lemmas gate_defs = or_default_def default_entry_def admit_def begin_archive_def begin_cleanup_def
  admissions_drained_def release_admission_def finish_archive_def reopen_def
  drop_admission_def drop_lease_def finish_lease_def

section \<open>Guards and steps\<close>

record gate_sys =
  sys_gate :: gate
  tokens :: "string multiset"
  leases :: "string multiset"

definition init_gate :: gate_sys where
  "init_gate = \<lparr>sys_gate = Map.empty, tokens = {#}, leases = {#}\<rparr>"

inductive holder_step :: "gate_sys \<Rightarrow> gate_sys \<Rightarrow> bool" where
  admitted: "admit (sys_gate s) w = (Inr (), g) \<Longrightarrow>
     holder_step s (s\<lparr>sys_gate := g, tokens := add_mset w (tokens s)\<rparr>)"
| refused: "admit (sys_gate s) w = (Inl e, g) \<Longrightarrow> holder_step s (s\<lparr>sys_gate := g\<rparr>)"
| released: "w \<in># tokens s \<Longrightarrow>
     holder_step s (s\<lparr>sys_gate := drop_admission (sys_gate s) w, tokens := tokens s - {#w#}\<rparr>)"
| archive_begun: "begin_archive (sys_gate s) w = (Inr (), g) \<Longrightarrow>
     holder_step s (s\<lparr>sys_gate := g, leases := add_mset w (leases s)\<rparr>)"
| archive_refused: "begin_archive (sys_gate s) w = (Inl e, g) \<Longrightarrow> holder_step s (s\<lparr>sys_gate := g\<rparr>)"
| cleanup_begun: "begin_cleanup (sys_gate s) w = (Inr (Some ()), g) \<Longrightarrow>
     holder_step s (s\<lparr>sys_gate := g, leases := add_mset w (leases s)\<rparr>)"
| cleanup_other: "begin_cleanup (sys_gate s) w = (r, g) \<Longrightarrow> r \<noteq> Inr (Some ()) \<Longrightarrow>
     holder_step s (s\<lparr>sys_gate := g\<rparr>)"
| lease_finished: "w \<in># leases s \<Longrightarrow>
     holder_step s (s\<lparr>sys_gate := finish_lease (sys_gate s) w outcome, leases := leases s - {#w#}\<rparr>)"
| lease_dropped: "w \<in># leases s \<Longrightarrow>
     holder_step s (s\<lparr>sys_gate := drop_lease (sys_gate s) w False, leases := leases s - {#w#}\<rparr>)"

inductive gate_step :: "gate_sys \<Rightarrow> gate_sys \<Rightarrow> bool" where
  holder: "holder_step s t \<Longrightarrow> gate_step s t"
| recovered: "gate_step s (s\<lparr>sys_gate := reopen (sys_gate s) w\<rparr>)"

section \<open>Counting admissions\<close>

text \<open>The number an entry books is the number of admission guards that are alive.\<close>

definition booked :: "gate \<Rightarrow> string \<Rightarrow> nat" where
  "booked g w = (case g w of None \<Rightarrow> 0 | Some e \<Rightarrow> admissions e)"

definition counts_tokens :: "gate_sys \<Rightarrow> bool" where
  "counts_tokens s \<longleftrightarrow> (\<forall>w. booked (sys_gate s) w = count (tokens s) w)"

lemma booked_admit:
  "booked (snd (admit g w)) v = booked g v + (if v = w \<and> is_ok (fst (admit g w)) then 1 else 0)"
  by (auto simp: booked_def gate_defs Let_def split: option.splits lifecycle_state.splits)

lemma booked_begin_archive [simp]: "booked (snd (begin_archive g w)) v = booked g v"
  by (auto simp: booked_def gate_defs Let_def split: option.splits)

lemma booked_begin_cleanup [simp]: "booked (snd (begin_cleanup g w)) v = booked g v"
  by (auto simp: booked_def gate_defs Let_def split: option.splits lifecycle_state.splits)

lemma booked_release [simp]:
  "booked (drop_admission g w) v = booked g v - (if v = w then 1 else 0)"
  by (auto simp: booked_def gate_defs Let_def split: option.splits)

lemma booked_finish [simp]: "booked (finish_archive g w out) v = booked g v"
  by (auto simp: booked_def gate_defs Let_def split: option.splits)

lemma booked_reopen [simp]: "booked (reopen g w) v = booked g v"
  by (auto simp: booked_def gate_defs Let_def split: option.splits)

lemma holder_counts_tokens: "holder_step s t \<Longrightarrow> counts_tokens s \<Longrightarrow> counts_tokens t"
proof (induction rule: holder_step.induct)
  case (admitted s w g)
  then show ?case using booked_admit [of "sys_gate s" w] by (auto simp: counts_tokens_def)
next
  case (refused s w e g)
  then show ?case using booked_admit [of "sys_gate s" w] by (auto simp: counts_tokens_def)
next
  case (archive_begun s w g)
  then show ?case using booked_begin_archive [of "sys_gate s" w] by (simp add: counts_tokens_def)
next
  case (archive_refused s w e g)
  then show ?case using booked_begin_archive [of "sys_gate s" w] by (simp add: counts_tokens_def)
next
  case (cleanup_begun s w g)
  then show ?case using booked_begin_cleanup [of "sys_gate s" w] by (simp add: counts_tokens_def)
next
  case (cleanup_other s w r g)
  then show ?case using booked_begin_cleanup [of "sys_gate s" w] by (simp add: counts_tokens_def)
qed (auto simp: counts_tokens_def finish_lease_def drop_lease_def)

lemma gate_counts_tokens [inv_intros]: "counts_tokens s \<Longrightarrow> gate_step s t \<Longrightarrow> counts_tokens t"
  by (erule gate_step.cases) (auto simp: holder_counts_tokens, simp add: counts_tokens_def)

interpretation counting: invariant_system gate_step counts_tokens
  by unfold_locales (rule gate_counts_tokens)

section \<open>Leases keep the gate closed\<close>

text \<open>
  Without an explicit recovery, a workspace has at most one live lease, it has one
  exactly while it is being archived, and an entry books no more than that.
\<close>

definition entry_status :: "gate \<Rightarrow> string \<Rightarrow> lifecycle_state" where
  "entry_status g w = (case g w of None \<Rightarrow> Open | Some e \<Rightarrow> entry_state e)"

definition leases_close :: "gate_sys \<Rightarrow> bool" where
  "leases_close s \<longleftrightarrow>
     (\<forall>w. count (leases s) w = (if entry_status (sys_gate s) w = Archiving then 1 else 0))"

lemma status_admit [simp]: "entry_status (snd (admit g w)) v = entry_status g v"
  by (auto simp: entry_status_def gate_defs Let_def split: option.splits lifecycle_state.splits)

lemma status_begin_archive:
  "entry_status (snd (begin_archive g w)) v =
     (if v = w \<and> is_ok (fst (begin_archive g w)) then Archiving else entry_status g v)"
  by (auto simp: entry_status_def gate_defs Let_def split: option.splits)

lemma begin_archive_status: "is_ok (fst (begin_archive g w)) \<Longrightarrow> entry_status g w \<noteq> Archiving"
  by (auto simp: entry_status_def gate_defs Let_def split: option.splits if_splits)

lemma status_begin_cleanup:
  "entry_status (snd (begin_cleanup g w)) v =
     (if v = w \<and> fst (begin_cleanup g w) = Inr (Some ()) then Archiving else entry_status g v)"
  by (auto simp: entry_status_def gate_defs Let_def split: option.splits lifecycle_state.splits)

lemma begin_cleanup_status: "fst (begin_cleanup g w) = Inr (Some ()) \<Longrightarrow> entry_status g w = Open"
  by (auto simp: entry_status_def gate_defs Let_def split: option.splits lifecycle_state.splits)

lemma status_release [simp]: "entry_status (drop_admission g w) v = entry_status g v"
  by (auto simp: entry_status_def gate_defs Let_def split: option.splits)

lemma status_finish:
  "entry_status (finish_archive g w out) v =
     (if v = w \<and> g w \<noteq> None
      then (case out of OutArchived \<Rightarrow> Archived | OutFailed \<Rightarrow> Failed | OutReopened \<Rightarrow> Open)
      else entry_status g v)"
  by (auto simp: entry_status_def gate_defs Let_def split: option.splits archive_outcome.splits)

lemma status_finish_not_archiving:
  assumes "entry_status g w = Archiving"
  shows "entry_status (finish_archive g w out) w \<noteq> Archiving"
proof -
  have "g w \<noteq> None" using assms by (cases "g w") (auto simp: entry_status_def)
  then show ?thesis by (simp add: status_finish split: archive_outcome.splits)
qed

lemma status_finish_other: "v \<noteq> w \<Longrightarrow> entry_status (finish_archive g w out) v = entry_status g v"
  by (simp add: status_finish)

lemma lease_end_keeps:
  "leases_close s \<Longrightarrow> w \<in># leases s \<Longrightarrow>
   leases_close (s\<lparr>sys_gate := finish_archive (sys_gate s) w out, leases := leases s - {#w#}\<rparr>)"
proof -
  assume inv: "leases_close s" and mem: "w \<in># leases s"
  have one: "count (leases s) w = 1"
    using inv mem unfolding leases_close_def
    by (metis count_greater_zero_iff less_numeral_extra(3))
  then have arch: "entry_status (sys_gate s) w = Archiving"
    using inv unfolding leases_close_def by (metis zero_neq_one)
  show ?thesis
    unfolding leases_close_def
  proof
    fix v
    show "count (leases (s\<lparr>sys_gate := finish_archive (sys_gate s) w out, leases := leases s - {#w#}\<rparr>)) v =
      (if entry_status (sys_gate (s\<lparr>sys_gate := finish_archive (sys_gate s) w out,
          leases := leases s - {#w#}\<rparr>)) v = Archiving then 1 else 0)"
      using inv one status_finish_not_archiving [OF arch, of out]
      by (cases "v = w") (auto simp: leases_close_def status_finish_other)
  qed
qed

lemma holder_leases_close [inv_intros]: "leases_close s \<Longrightarrow> holder_step s t \<Longrightarrow> leases_close t"
proof (erule holder_step.cases; clarsimp)
  fix w g
  assume inv: "leases_close s" and eq: "admit (sys_gate s) w = (Inr (), g)"
  show "leases_close (s\<lparr>sys_gate := g, tokens := add_mset w (tokens s)\<rparr>)"
    using inv status_admit [of "sys_gate s" w] eq by (simp add: leases_close_def)
next
  fix w e g
  assume inv: "leases_close s" and eq: "admit (sys_gate s) w = (Inl e, g)"
  show "leases_close (s\<lparr>sys_gate := g\<rparr>)"
    using inv status_admit [of "sys_gate s" w] eq by (simp add: leases_close_def)
next
  fix w
  assume "leases_close s"
  then show "leases_close (s\<lparr>sys_gate := drop_admission (sys_gate s) w, tokens := tokens s - {#w#}\<rparr>)"
    by (simp add: leases_close_def)
next
  fix w g
  assume inv: "leases_close s" and eq: "begin_archive (sys_gate s) w = (Inr (), g)"
  have "entry_status (sys_gate s) w \<noteq> Archiving"
    using eq begin_archive_status [of "sys_gate s" w] by simp
  then show "leases_close (s\<lparr>sys_gate := g, leases := add_mset w (leases s)\<rparr>)"
    using inv status_begin_archive [of "sys_gate s" w] eq by (auto simp: leases_close_def)
next
  fix w e g
  assume inv: "leases_close s" and eq: "begin_archive (sys_gate s) w = (Inl e, g)"
  show "leases_close (s\<lparr>sys_gate := g\<rparr>)"
    using inv status_begin_archive [of "sys_gate s" w] eq by (simp add: leases_close_def)
next
  fix w g
  assume inv: "leases_close s" and eq: "begin_cleanup (sys_gate s) w = (Inr (Some ()), g)"
  have "entry_status (sys_gate s) w = Open"
    using eq begin_cleanup_status [of "sys_gate s" w] by simp
  then show "leases_close (s\<lparr>sys_gate := g, leases := add_mset w (leases s)\<rparr>)"
    using inv status_begin_cleanup [of "sys_gate s" w] eq by (auto simp: leases_close_def)
next
  fix w r g
  assume inv: "leases_close s" and eq: "begin_cleanup (sys_gate s) w = (r, g)" and "r \<noteq> Inr (Some ())"
  then show "leases_close (s\<lparr>sys_gate := g\<rparr>)"
    using status_begin_cleanup [of "sys_gate s" w] by (simp add: leases_close_def)
qed (simp_all add: finish_lease_def drop_lease_def lease_end_keeps)

interpretation closing: invariant_system holder_step leases_close
  by unfold_locales (rule holder_leases_close)

section \<open>Properties\<close>

lemma init_counts_tokens: "counts_tokens init_gate"
  by (simp add: counts_tokens_def init_gate_def booked_def)

lemma init_leases_close: "leases_close init_gate"
  by (simp add: leases_close_def init_gate_def entry_status_def)

text \<open>C1: the number of admissions the gate books for a workspace is, after any interleaving of
  admissions, releases, archives, cleanups and recoveries, the number of admission guards
  alive; the saturating decrement never saturates on a live guard.\<close>

theorem admissions_are_live_guards:
  assumes "gate_step\<^sup>*\<^sup>* init_gate s"
  shows "booked (sys_gate s) w = count (tokens s) w \<and>
    (w \<in># tokens s \<longrightarrow> booked (drop_admission (sys_gate s) w) w + 1 = booked (sys_gate s) w)"
proof -
  have "counts_tokens s" by (rule counting.runs [OF assms init_counts_tokens])
  then have eq: "booked (sys_gate s) w = count (tokens s) w" by (simp add: counts_tokens_def)
  moreover have "0 < booked (sys_gate s) w" if "w \<in># tokens s" using that eq by simp
  ultimately show ?thesis by simp
qed

theorem admissions_are_live_guards_witness:
  "booked [''w'' \<mapsto> \<lparr>entry_state = Open, admissions = 1\<rparr>] ''w'' = 1 \<and>
   booked (drop_admission [''w'' \<mapsto> \<lparr>entry_state = Open, admissions = 1\<rparr>] ''w'') ''w'' + 1 = 1"
proof -
  let ?g = "[''w'' \<mapsto> \<lparr>entry_state = Open, admissions = 1\<rparr>]"
  let ?s = "\<lparr>sys_gate = ?g, tokens = {#''w''#}, leases = {#}\<rparr>"
  have "holder_step init_gate (init_gate\<lparr>sys_gate := ?g, tokens := add_mset ''w'' (tokens init_gate)\<rparr>)"
    by (rule holder_step.admitted) (simp add: gate_defs init_gate_def)
  then have "holder_step init_gate ?s" by (simp add: init_gate_def)
  then have "gate_step\<^sup>*\<^sup>* init_gate ?s" by (blast intro: gate_step.holder)
  from admissions_are_live_guards [OF this, of "''w''"] show ?thesis by simp
qed

lemma archiving_refuses: "entry_status g w = Archiving \<Longrightarrow> \<not> is_ok (fst (admit g w))"
  by (auto simp: entry_status_def gate_defs Let_def split: option.splits)

lemma live_lease_archiving: "leases_close s \<Longrightarrow> w \<in># leases s \<Longrightarrow> entry_status (sys_gate s) w = Archiving"
  unfolding leases_close_def by (metis count_greater_zero_iff less_numeral_extra(3))



text \<open>The steps of one archive: those after which its lease is still alive.\<close>

definition under_lease :: "string \<Rightarrow> gate_sys \<Rightarrow> gate_sys \<Rightarrow> bool" where
  "under_lease w s t \<longleftrightarrow> holder_step s t \<and> w \<in># leases t"

lemma holder_step_no_new_token:
  assumes "holder_step s t" and "entry_status (sys_gate s) w = Archiving"
  shows "count (tokens t) w \<le> count (tokens s) w"
  using assms
proof (induction rule: holder_step.induct)
  case (admitted s v g)
  then have "v \<noteq> w" using archiving_refuses [of "sys_gate s" w] by auto
  then show ?case by simp
qed auto

lemma under_lease_drained:
  "(under_lease w)\<^sup>*\<^sup>* s t \<Longrightarrow> leases_close s \<Longrightarrow> w \<in># leases s \<Longrightarrow> count (tokens s) w = 0 \<Longrightarrow>
   leases_close t \<and> w \<in># leases t \<and> count (tokens t) w = 0"
proof (induction rule: rtranclp_induct)
  case base
  then show ?case by simp
next
  case (step t u)
  then have t: "leases_close t" "w \<in># leases t" "count (tokens t) w = 0" by auto
  have hs: "holder_step t u" and wu: "w \<in># leases u" using step.hyps(2) by (simp_all add: under_lease_def)
  have "count (tokens u) w \<le> count (tokens t) w"
    by (rule holder_step_no_new_token [OF hs live_lease_archiving [OF t(1,2)]])
  with t wu holder_leases_close [OF t(1) hs] show ?case by simp
qed

text \<open>Once the wait for admissions has reported a drained gate under a live archive lease,
  no process is admitted to that workspace for as long as the lease lives: the worktree that
  is being removed has no admitted process in any later state.\<close>

lemma drained_archive_stays_drained:
  assumes "holder_step\<^sup>*\<^sup>* init_gate s" and "w \<in># leases s"
    and "wait_for_admissions (polls @ [sys_gate s]) w" and "\<not> wait_for_admissions polls w"
    and "(under_lease w)\<^sup>*\<^sup>* s t"
  shows "count (tokens t) w = 0 \<and> booked (sys_gate t) w = 0"
proof -
  have holder_gate: "gate_step\<^sup>*\<^sup>* a b" if "holder_step\<^sup>*\<^sup>* a b" for a b
    using that by (induction rule: rtranclp_induct) (auto intro: gate_step.holder rtranclp.rtrancl_into_rtrancl)
  have lease_gate: "gate_step\<^sup>*\<^sup>* a b" if "(under_lease w)\<^sup>*\<^sup>* a b" for a b
    using that by (induction rule: rtranclp_induct)
      (auto simp: under_lease_def intro: gate_step.holder rtranclp.rtrancl_into_rtrancl)
  have cs: "counts_tokens s"
    by (rule counting.runs [OF holder_gate [OF assms(1)] init_counts_tokens])
  have "admissions_drained (sys_gate s) w"
    using assms(3,4) by (induction polls) (auto split: if_splits)
  then have "booked (sys_gate s) w = 0"
    by (simp add: admissions_drained_def booked_def split: option.splits)
  then have zero: "count (tokens s) w = 0" using cs by (simp add: counts_tokens_def)
  have "leases_close s" by (rule closing.runs [OF assms(1) init_leases_close])
  with under_lease_drained [OF assms(5)] assms(2) zero have t: "count (tokens t) w = 0" by blast
  have "counts_tokens t" by (rule counting.runs [OF lease_gate [OF assms(5)] cs])
  with t show ?thesis by (simp add: counts_tokens_def)
qed

lemma drained_archive_stays_drained_witness:
  "booked [''w'' \<mapsto> \<lparr>entry_state = Archiving, admissions = 0\<rparr>] ''w'' = 0"
proof -
  let ?g = "[''w'' \<mapsto> \<lparr>entry_state = Archiving, admissions = 0\<rparr>]"
  let ?s = "\<lparr>sys_gate = ?g, tokens = {#}, leases = {#''w''#}\<rparr>"
  have "holder_step init_gate (init_gate\<lparr>sys_gate := ?g, leases := add_mset ''w'' (leases init_gate)\<rparr>)"
    by (rule holder_step.archive_begun) (simp add: gate_defs init_gate_def)
  then have run: "holder_step\<^sup>*\<^sup>* init_gate ?s" by (simp add: init_gate_def r_into_rtranclp)
  have drained: "wait_for_admissions ([] @ [sys_gate ?s]) ''w''"
    by (simp add: admissions_drained_def)
  have "\<not> wait_for_admissions [] ''w''" by simp
  from drained_archive_stays_drained [OF run _ drained this rtranclp.rtrancl_refl] show ?thesis by simp
qed

end
