(* ===== verification/Routing_Table.thy ===== *)
theory Routing_Table
  imports Prelude "HOL-Library.Product_Lexorder"
begin

text \<open>
  \<^verbatim>\<open>src-tauri/src/routing/table.rs\<close>: the Auto routing grid. A task's kind, a tier and a
  difficulty select a model and the effort it runs at; follow-ups select inside the
  chat's provider. The model constants, the grid, the clamp of an effort to a model's
  supported levels and the capability order are translated arm by arm. \<^verbatim>\<open>max_by_key\<close> is
  the one of the prelude.
\<close>

section \<open>Tiers, tasks, providers, efforts\<close>

datatype auto_tier = Cost | Economy | Balanced | Intelligence

datatype task_kind = Coding | Mechanical | Research | Review | Question

datatype difficulty = Light | Standard | Heavy

datatype column = Cheap | Value | Frontier

datatype provider_id = Claude | Codex | Cursor | Opencode | Grok

datatype reasoning_effort = Low | Medium | High | Xhigh | MaxEffort | Ultra

fun rank :: "reasoning_effort \<Rightarrow> nat" where
  "rank Low = 0"
| "rank Medium = 1"
| "rank High = 2"
| "rank Xhigh = 3"
| "rank MaxEffort = 4"
| "rank Ultra = 5"

lemma rank_inject [simp]: "rank a = rank b \<longleftrightarrow> a = b"
  by (cases a; cases b) simp_all

text \<open>Efforts are ordered by rank, so the library's order lemmas apply to them.\<close>

instantiation reasoning_effort :: linorder
begin

definition less_eq_reasoning_effort :: "reasoning_effort \<Rightarrow> reasoning_effort \<Rightarrow> bool" where
  "less_eq_reasoning_effort a b \<longleftrightarrow> rank a \<le> rank b"

definition less_reasoning_effort :: "reasoning_effort \<Rightarrow> reasoning_effort \<Rightarrow> bool" where
  "less_reasoning_effort a b \<longleftrightarrow> rank a < rank b"

instance
  by standard (auto simp: less_eq_reasoning_effort_def less_reasoning_effort_def)

end

text \<open>\<^verbatim>\<open>Difficulty\<close> derives its order from the order of its variants.\<close>

fun difficulty_rank :: "difficulty \<Rightarrow> nat" where
  "difficulty_rank Light = 0"
| "difficulty_rank Standard = 1"
| "difficulty_rank Heavy = 2"

instantiation difficulty :: linorder
begin

definition less_eq_difficulty :: "difficulty \<Rightarrow> difficulty \<Rightarrow> bool" where
  "less_eq_difficulty a b \<longleftrightarrow> difficulty_rank a \<le> difficulty_rank b"

definition less_difficulty :: "difficulty \<Rightarrow> difficulty \<Rightarrow> bool" where
  "less_difficulty a b \<longleftrightarrow> difficulty_rank a < difficulty_rank b"

instance
proof
  fix a b :: difficulty
  assume "a \<le> b" and "b \<le> a"
  then show "a = b" by (cases a; cases b) (simp_all add: less_eq_difficulty_def)
qed (auto simp: less_eq_difficulty_def less_difficulty_def)

end

lemma all_efforts: "(\<forall>e. P e) \<longleftrightarrow> P Low \<and> P Medium \<and> P High \<and> P Xhigh \<and> P MaxEffort \<and> P Ultra"
  by (metis reasoning_effort.exhaust)

section \<open>Models\<close>

record route_model =
  provider :: provider_id
  model_id :: string
  label :: string
  efforts :: "reasoning_effort list"

definition CLAUDE_EFFORTS :: "reasoning_effort list" where
  "CLAUDE_EFFORTS = [Low, Medium, High, Xhigh, MaxEffort]"

definition CODEX_EFFORTS :: "reasoning_effort list" where
  "CODEX_EFFORTS = [Low, Medium, High, Xhigh, MaxEffort, Ultra]"

definition OPUS :: route_model where
  "OPUS = \<lparr>provider = Claude, model_id = ''claude-opus-5-5'', label = ''Opus 5.5'',
     efforts = CLAUDE_EFFORTS\<rparr>"

definition SONNET :: route_model where
  "SONNET = \<lparr>provider = Claude, model_id = ''claude-sonnet-5-5'', label = ''Sonnet 5.5'',
     efforts = CLAUDE_EFFORTS\<rparr>"

definition FABLE :: route_model where
  "FABLE = \<lparr>provider = Claude, model_id = ''claude-fable-5-1'', label = ''Fable 5.1'',
     efforts = CLAUDE_EFFORTS\<rparr>"

definition SOL :: route_model where
  "SOL = \<lparr>provider = Codex, model_id = ''gpt-6.1-sol'', label = ''GPT-6.1 Sol'',
     efforts = CODEX_EFFORTS\<rparr>"

definition LUNA :: route_model where
  "LUNA = \<lparr>provider = Codex, model_id = ''gpt-6-luna'', label = ''GPT-6 Luna'',
     efforts = [Low, Medium, High, Xhigh, MaxEffort]\<rparr>"

definition ASTRA :: route_model where
  "ASTRA = \<lparr>provider = Codex, model_id = ''gpt-6-astra'', label = ''GPT-6 Astra'',
     efforts = CODEX_EFFORTS\<rparr>"

definition DEEPSEEK :: route_model where
  "DEEPSEEK = \<lparr>provider = Opencode, model_id = ''openrouter/deepseek/deepseek-v4.1-flash-1017'',
     label = ''DeepSeek V4.1 Flash 1017'', efforts = [Low, High, MaxEffort]\<rparr>"

definition COMPOSER :: route_model where
  "COMPOSER = \<lparr>provider = Cursor, model_id = ''composer-2.5'', label = ''Composer 2.5 (Cursor)'',
     efforts = []\<rparr>"

definition CURSOR_OPUS :: route_model where
  "CURSOR_OPUS = \<lparr>provider = Cursor, model_id = ''claude-opus-5-5-medium'',
     label = ''Claude Opus 5.5 (Cursor)'', efforts = CLAUDE_EFFORTS\<rparr>"

definition GROK :: route_model where
  "GROK = \<lparr>provider = Grok, model_id = ''grok-4.7'', label = ''Grok 4.7'',
     efforts = [Low, Medium, High, Xhigh]\<rparr>"

definition ROUTE_MODELS :: "route_model list" where
  "ROUTE_MODELS = [OPUS, SONNET, FABLE, SOL, LUNA, ASTRA, DEEPSEEK, COMPOSER, CURSOR_OPUS, GROK]"

record routed_model =
  routed_to :: route_model
  routed_effort :: "reasoning_effort option"

lemmas model_consts = OPUS_def SONNET_def FABLE_def SOL_def LUNA_def ASTRA_def DEEPSEEK_def
  COMPOSER_def CURSOR_OPUS_def GROK_def

text \<open>The fields of the constants, for proofs that keep the constants folded.\<close>

lemma model_fields [simp]:
  "provider OPUS = Claude" "provider SONNET = Claude" "provider FABLE = Claude"
  "provider SOL = Codex" "provider LUNA = Codex" "provider ASTRA = Codex"
  "provider DEEPSEEK = Opencode" "provider COMPOSER = Cursor"
  "provider CURSOR_OPUS = Cursor" "provider GROK = Grok"
  "model_id OPUS = ''claude-opus-5-5''" "model_id SONNET = ''claude-sonnet-5-5''"
  "model_id FABLE = ''claude-fable-5-1''" "model_id SOL = ''gpt-6.1-sol''"
  "model_id LUNA = ''gpt-6-luna''" "model_id ASTRA = ''gpt-6-astra''"
  "model_id DEEPSEEK = ''openrouter/deepseek/deepseek-v4.1-flash-1017''"
  "model_id COMPOSER = ''composer-2.5''" "model_id CURSOR_OPUS = ''claude-opus-5-5-medium''"
  "model_id GROK = ''grok-4.7''"
  "efforts OPUS = CLAUDE_EFFORTS" "efforts SONNET = CLAUDE_EFFORTS" "efforts FABLE = CLAUDE_EFFORTS"
  "efforts SOL = CODEX_EFFORTS" "efforts LUNA = [Low, Medium, High, Xhigh, MaxEffort]"
  "efforts ASTRA = CODEX_EFFORTS" "efforts DEEPSEEK = [Low, High, MaxEffort]"
  "efforts COMPOSER = []" "efforts CURSOR_OPUS = CLAUDE_EFFORTS"
  "efforts GROK = [Low, Medium, High, Xhigh]"
  by (simp_all add: model_consts)

lemma model_neq: "model_id a \<noteq> model_id b \<Longrightarrow> a \<noteq> b"
  by auto

section \<open>The grid\<close>

fun cell :: "task_kind \<Rightarrow> column \<Rightarrow> route_model" where
  "cell Coding Cheap = SONNET"
| "cell Coding _ = OPUS"
| "cell Mechanical Cheap = DEEPSEEK"
| "cell Mechanical Value = DEEPSEEK"
| "cell Mechanical Frontier = OPUS"
| "cell Research Cheap = SONNET"
| "cell Research _ = OPUS"
| "cell Review Cheap = OPUS"
| "cell Review Value = OPUS"
| "cell Review Frontier = ASTRA"
| "cell Question Cheap = SONNET"
| "cell Question _ = OPUS"

fun column_and_effort :: "auto_tier \<Rightarrow> difficulty \<Rightarrow> column \<times> reasoning_effort" where
  "column_and_effort Economy Light = (Cheap, Medium)"
| "column_and_effort Economy Standard = (Cheap, Medium)"
| "column_and_effort Economy Heavy = (Value, High)"
| "column_and_effort Cost Light = (Cheap, Low)"
| "column_and_effort Cost Standard = (Cheap, Medium)"
| "column_and_effort Cost Heavy = (Value, Medium)"
| "column_and_effort Balanced Light = (Cheap, Medium)"
| "column_and_effort Balanced Standard = (Value, Medium)"
| "column_and_effort Balanced Heavy = (Value, High)"
| "column_and_effort Intelligence Light = (Value, Medium)"
| "column_and_effort Intelligence Standard = (Frontier, High)"
| "column_and_effort Intelligence Heavy = (Frontier, High)"

fun difficulty_effort :: "difficulty \<Rightarrow> reasoning_effort" where
  "difficulty_effort Light = Low"
| "difficulty_effort Standard = Medium"
| "difficulty_effort Heavy = High"

fun cost_route :: "task_kind \<Rightarrow> difficulty \<Rightarrow> routed_model" where
  "cost_route Review d = \<lparr>routed_to = SONNET, routed_effort = Some (difficulty_effort d)\<rparr>"
| "cost_route Mechanical d = \<lparr>routed_to = LUNA, routed_effort = Some Medium\<rparr>"
| "cost_route k Light = \<lparr>routed_to = LUNA, routed_effort = Some Medium\<rparr>"
| "cost_route Question Standard = \<lparr>routed_to = LUNA, routed_effort = Some Medium\<rparr>"
| "cost_route k Standard = \<lparr>routed_to = SOL, routed_effort = Some Medium\<rparr>"
| "cost_route k Heavy = \<lparr>routed_to = SOL, routed_effort = Some High\<rparr>"

definition clamp_effort :: "reasoning_effort \<Rightarrow> route_model \<Rightarrow> reasoning_effort option" where
  "clamp_effort effort model =
     (if efforts model = [] then None
      else if effort \<in> set (efforts model) then Some effort
      else (case max_by_key rank (filter (\<lambda>c. rank c < rank effort) (efforts model)) of
              Some e \<Rightarrow> Some e
            | None \<Rightarrow> (case efforts model of [] \<Rightarrow> None | e # _ \<Rightarrow> Some e)))"

text \<open>
  The \<^verbatim>\<open>match (tier, difficulty, kind)\<close> of \<open>route\<close>: the first component is the model, the
  second the effort, which some arms change; \<open>column\<close> feeds the last arm.
\<close>

definition route_cell ::
  "auto_tier \<Rightarrow> difficulty \<Rightarrow> task_kind \<Rightarrow> column \<Rightarrow> reasoning_effort \<Rightarrow> route_model \<times> reasoning_effort"
where
  "route_cell tier d kind column effort =
     (if tier = Intelligence \<and> d = Heavy \<and> (kind = Research \<or> kind = Question) then (FABLE, effort)
      else if tier = Intelligence \<and> d = Light \<and> kind = Mechanical then (SONNET, effort)
      else if tier = Cost \<and> kind = Review then (SONNET, difficulty_effort d)
      else if tier = Cost \<and> d = Light \<and> (kind = Research \<or> kind = Question) then (DEEPSEEK, High)
      else if tier = Cost \<and> d = Heavy \<and> (kind = Coding \<or> kind = Research \<or> kind = Question)
        then (SONNET, effort)
      else if tier = Balanced \<and> (d = Standard \<or> d = Heavy) \<and> kind = Mechanical then (SONNET, effort)
      else if tier = Balanced \<and> d = Standard \<and> (kind = Coding \<or> kind = Research)
        then (SONNET, High)
      else (cell kind column, effort))"

definition route :: "auto_tier \<Rightarrow> task_kind \<Rightarrow> difficulty \<Rightarrow> bool \<Rightarrow> routed_model" where
  "route tier kind d ui =
     (if tier = Economy then cost_route kind d
      else
        let (column, effort) = column_and_effort tier d;
            effort = (if kind = Mechanical \<and> rank effort > rank Medium then Medium else effort);
            effort = (if kind = Review \<and> column = Cheap then Low else effort);
            (model, effort) = route_cell tier d kind column effort;
            (model, effort) = (if tier = Balanced \<and> ui \<and> model = DEEPSEEK then (OPUS, Low) else (model, effort))
        in \<lparr>routed_to = model, routed_effort = clamp_effort effort model\<rparr>)"

section \<open>Follow-ups\<close>

text \<open>The Cost branch of \<open>follow_up_target\<close>, which only Codex and Claude take.\<close>

definition economy_follow_up :: "provider_id \<Rightarrow> task_kind \<Rightarrow> difficulty \<Rightarrow> routed_model option" where
  "economy_follow_up p kind d =
     (let target = cost_route kind d
      in case p of
           Codex \<Rightarrow> Some \<lparr>routed_to = (if provider (routed_to target) = Codex then routed_to target else SOL),
                          routed_effort = routed_effort target\<rparr>
         | Claude \<Rightarrow>
             (let heavy = (d = Heavy \<and> \<not> (kind = Mechanical \<or> kind = Review))
              in Some \<lparr>routed_to = (if heavy then OPUS else SONNET), routed_effort = routed_effort target\<rparr>)
         | _ \<Rightarrow> None)"

text \<open>The model and effort of the provider \<^verbatim>\<open>match\<close>; \<open>None\<close> is its early return.\<close>

definition provider_follow_up ::
  "provider_id \<Rightarrow> auto_tier \<Rightarrow> task_kind \<Rightarrow> difficulty \<Rightarrow> bool \<Rightarrow> reasoning_effort \<Rightarrow>
   (route_model \<times> reasoning_effort) option"
where
  "provider_follow_up p tier kind d ui effort =
     (case p of
        Claude \<Rightarrow>
          (if tier = Intelligence \<and> d = Heavy \<and> (kind = Question \<or> kind = Research) then Some (FABLE, effort)
           else if tier = Cost
             then Some (SONNET, if kind = Review then difficulty_effort d else effort)
           else Some (OPUS, effort))
      | Codex \<Rightarrow>
          (if (d = Heavy \<and> \<not> (kind = Coding \<or> kind = Mechanical))
              \<or> (tier = Intelligence \<and> d = Standard \<and> (kind = Review \<or> kind = Research))
           then Some (ASTRA, effort) else Some (SOL, effort))
      | Cursor \<Rightarrow>
          (if kind = Review \<or> d = Heavy \<or> (d = Standard \<and> tier \<noteq> Cost) \<or> tier = Intelligence
              \<or> (tier = Balanced \<and> ui)
           then Some (CURSOR_OPUS, effort) else Some (COMPOSER, effort))
      | Opencode \<Rightarrow> None
      | Grok \<Rightarrow> Some (GROK, difficulty_effort d))"

definition follow_up_target ::
  "provider_id \<Rightarrow> auto_tier \<Rightarrow> task_kind \<Rightarrow> difficulty \<Rightarrow> bool \<Rightarrow> routed_model option"
where
  "follow_up_target p tier kind d ui =
     (case (if tier = Economy then economy_follow_up p kind d else None) of
        Some r \<Rightarrow> Some r
      | None \<Rightarrow>
          (let effort = snd (column_and_effort tier d);
               effort = (if d = Light \<and> tier \<noteq> Intelligence then Low else effort);
               effort = (if kind = Mechanical then (if d = Light then Low else Medium) else effort)
           in case provider_follow_up p tier kind d ui effort of
                None \<Rightarrow> None
              | Some (model, effort) \<Rightarrow>
                  Some \<lparr>routed_to = model, routed_effort = clamp_effort effort model\<rparr>))"

section \<open>Capabilities and stored ids\<close>

definition capability :: "string \<Rightarrow> nat option" where
  "capability m =
     (if m \<in> {''composer-2.5'', ''openrouter/deepseek/deepseek-v4.1-flash'',
              ''openrouter/deepseek/deepseek-v4.1-flash-1017'', ''grok-4.7'',
              ''claude-sonnet-5-5'', ''gpt-6-luna''} then Some 0
      else if m \<in> {''claude-opus-5-5'', ''claude-opus-5-5-medium'', ''gpt-6.1-sol'', ''gpt-6-sol''} then Some 1
      else if m \<in> {''claude-fable-5-1'', ''gpt-6-astra''} then Some 2
      else None)"

fun fallback :: "auto_tier \<Rightarrow> routed_model" where
  "fallback Economy = \<lparr>routed_to = SOL, routed_effort = Some Medium\<rparr>"
| "fallback Cost = \<lparr>routed_to = SONNET, routed_effort = Some Medium\<rparr>"
| "fallback Balanced = \<lparr>routed_to = OPUS, routed_effort = Some Medium\<rparr>"
| "fallback Intelligence = \<lparr>routed_to = OPUS, routed_effort = Some Medium\<rparr>"

definition current_model_id :: "string \<Rightarrow> string" where
  "current_model_id m =
     (if m = ''gpt-6-sol'' then ''gpt-6.1-sol''
      else if m = ''openrouter/deepseek/deepseek-v4.1-flash'' then model_id DEEPSEEK
      else m)"

definition route_model :: "string \<Rightarrow> route_model option" where
  "route_model m = find (\<lambda>x. model_id x = current_model_id m) ROUTE_MODELS"

section \<open>Evaluation of the grid\<close>

lemma all_tiers: "(\<forall>t. P t) \<longleftrightarrow> P Cost \<and> P Economy \<and> P Balanced \<and> P Intelligence"
  by (metis auto_tier.exhaust)

lemma all_kinds: "(\<forall>k. P k) \<longleftrightarrow> P Coding \<and> P Mechanical \<and> P Research \<and> P Review \<and> P Question"
  by (metis task_kind.exhaust)

lemma all_difficulties: "(\<forall>d. P d) \<longleftrightarrow> P Light \<and> P Standard \<and> P Heavy"
  by (metis difficulty.exhaust)

lemma all_providers: "(\<forall>p. P p) \<longleftrightarrow> P Claude \<and> P Codex \<and> P Cursor \<and> P Opencode \<and> P Grok"
  by (metis provider_id.exhaust)

lemma all_bools: "(\<forall>b. P b) \<longleftrightarrow> P True \<and> P False"
  by (metis (full_types))

lemmas finite_cases = all_tiers all_kinds all_difficulties all_providers all_bools

lemma model_distinct [simp]:
  "DEEPSEEK \<noteq> OPUS" "DEEPSEEK \<noteq> SONNET" "DEEPSEEK \<noteq> FABLE" "DEEPSEEK \<noteq> ASTRA"
  "OPUS \<noteq> DEEPSEEK" "SONNET \<noteq> DEEPSEEK" "FABLE \<noteq> DEEPSEEK" "ASTRA \<noteq> DEEPSEEK"
  by (rule model_neq, simp)+

lemmas effort_lists = CLAUDE_EFFORTS_def CODEX_EFFORTS_def

lemma clamp_cases:
  "clamp_effort e m =
     (if efforts m = [] then None
      else if e \<in> set (efforts m) then Some e
      else case max_by_key rank (filter (\<lambda>c. c < e) (efforts m)) of
             Some x \<Rightarrow> Some x | None \<Rightarrow> Some (hd (efforts m)))"
  by (auto simp: clamp_effort_def less_reasoning_effort_def split: option.splits list.splits)

lemma clamp_supported: "clamp_effort e m = Some c \<Longrightarrow> c \<in> set (efforts m)"
  by (auto simp: clamp_cases dest!: max_by_key_mem split: if_splits option.splits)

lemma clamp_None: "clamp_effort e m = None \<longleftrightarrow> efforts m = []"
  by (auto simp: clamp_cases split: option.splits)

lemmas grid_simps = route_def route_cell_def follow_up_target_def economy_follow_up_def
  provider_follow_up_def clamp_effort_def effort_lists Let_def

section \<open>Properties\<close>

text \<open>The clamp of an effort to a model is what its comment says: nothing exactly for a
  model without levels; otherwise a supported level, the greatest one that does not exceed
  the effort asked for when there is one, and the model's first level when every supported
  level is above it.\<close>

lemma clamp_effort_spec:
  "case clamp_effort e m of
     None \<Rightarrow> efforts m = []
   | Some c \<Rightarrow> c \<in> set (efforts m) \<and>
       (if list_ex (\<lambda>x. x \<le> e) (efforts m)
        then c \<le> e \<and> list_all (\<lambda>x. x \<le> c) (filter (\<lambda>x. x \<le> e) (efforts m))
        else c = hd (efforts m))"
proof (cases "clamp_effort e m")
  case None
  then have "efforts m = []" by (simp only: clamp_None)
  with None show ?thesis by (simp only: option.simps)
next
  case (Some c)
  have mem: "c \<in> set (efforts m)" using Some by (rule clamp_supported)
  show ?thesis
  proof (cases "e \<in> set (efforts m)")
    case True
    then have "c = e" using Some by (auto simp: clamp_cases split: if_splits)
    then show ?thesis using Some mem by (auto simp: list_ex_iff list_all_iff)
  next
    case absent: False
    then have le: "x \<le> e \<longleftrightarrow> x < e" if "x \<in> set (efforts m)" for x
      using that by (auto simp: le_less)
    let ?below = "filter (\<lambda>c. c < e) (efforts m)"
    show ?thesis
    proof (cases "max_by_key rank ?below")
      case None
      then have "c = hd (efforts m)" and "\<not> list_ex (\<lambda>x. x \<le> e) (efforts m)"
        using Some absent le by (auto simp: clamp_cases list_ex_iff filter_empty_conv split: if_splits)
      then show ?thesis using Some mem by simp
    next
      case (Some y)
      then have "c = y" using \<open>clamp_effort e m = Some c\<close> absent by (auto simp: clamp_cases split: if_splits)
      moreover have "y < e" using max_by_key_mem [OF Some] by simp
      moreover have "x \<le> y" if "x \<in> set (efforts m)" "x < e" for x
        using max_by_key_ge [OF Some, of x] that by (simp add: less_eq_reasoning_effort_def)
      ultimately show ?thesis using mem le \<open>clamp_effort e m = Some c\<close>
        by (auto simp: list_ex_iff list_all_iff)
    qed
  qed
qed

text \<open>The routed pair a launch or a follow-up may use: a model of the table at one of its levels.\<close>

definition routable :: "routed_model \<Rightarrow> bool" where
  "routable r \<longleftrightarrow> routed_to r \<in> set ROUTE_MODELS \<and>
     (case routed_effort r of None \<Rightarrow> efforts (routed_to r) = []
      | Some e \<Rightarrow> e \<in> set (efforts (routed_to r)) \<and> e \<le> High)"

text \<open>The grid in order: with the other inputs fixed, \<open>a\<close> is no stronger than \<open>b\<close>.\<close>

definition no_stronger :: "routed_model \<Rightarrow> routed_model \<Rightarrow> bool" where
  "no_stronger a b \<longleftrightarrow> (case (capability (model_id (routed_to a)), capability (model_id (routed_to b))) of
     (Some x, Some y) \<Rightarrow> x \<le> y | _ \<Rightarrow> False)"

lemma route_models_mem [simp]:
  "{OPUS, SONNET, FABLE, SOL, LUNA, ASTRA, DEEPSEEK, COMPOSER, CURSOR_OPUS, GROK} \<subseteq> set ROUTE_MODELS"
  by (simp add: ROUTE_MODELS_def)

lemma capability_simps [simp]:
  "capability ''claude-opus-5-5'' = Some 1"
  "capability ''claude-sonnet-5-5'' = Some 0"
  "capability ''claude-fable-5-1'' = Some 2"
  "capability ''gpt-6.1-sol'' = Some 1"
  "capability ''gpt-6-luna'' = Some 0"
  "capability ''gpt-6-astra'' = Some 2"
  "capability ''openrouter/deepseek/deepseek-v4.1-flash-1017'' = Some 0"
  "capability ''composer-2.5'' = Some 0"
  "capability ''claude-opus-5-5-medium'' = Some 1"
  "capability ''grok-4.7'' = Some 0"
  by (simp_all add: capability_def)

lemma route_routable: "routable (route tier kind d ui)"
proof -
  have "\<forall>tier kind d ui. routable (route tier kind d ui)"
    by (simp add: finite_cases routable_def ROUTE_MODELS_def grid_simps less_eq_reasoning_effort_def)
  then show ?thesis by blast
qed

lemma follow_up_exists: "follow_up_target p tier kind d ui = None \<longleftrightarrow> p = Opencode"
  by (cases p) (simp_all add: follow_up_target_def economy_follow_up_def provider_follow_up_def Let_def
      split: option.splits if_splits)

lemma follow_up_sound:
  assumes "follow_up_target p tier kind d ui = Some r"
  shows "provider (routed_to r) = p" and "routable r"
proof -
  have "\<forall>p tier kind d ui. case follow_up_target p tier kind d ui of
     None \<Rightarrow> True | Some r \<Rightarrow> provider (routed_to r) = p \<and> routable r"
    by (simp add: finite_cases routable_def ROUTE_MODELS_def grid_simps less_eq_reasoning_effort_def)
  then have "case follow_up_target p tier kind d ui of
     None \<Rightarrow> True | Some r \<Rightarrow> provider (routed_to r) = p \<and> routable r" by blast
  with assms show "provider (routed_to r) = p" and "routable r" by simp_all
qed

text \<open>Every launch of the grid and every fallback is a model of the table at an effort that
  model supports, never above high; outside UI work on Balanced, a harder task of the same
  kind on the same tier never gets a less capable model.\<close>

lemma route_well_formed:
  "routable (route tier kind d ui) \<and> routable (fallback tier) \<and>
   no_stronger (route tier kind Light False) (route tier kind Standard False) \<and>
   no_stronger (route tier kind Standard False) (route tier kind Heavy False)"
proof -
  have "\<forall>tier. routable (fallback tier)"
    by (simp add: finite_cases routable_def ROUTE_MODELS_def effort_lists less_eq_reasoning_effort_def)
  moreover have "\<forall>tier kind. no_stronger (route tier kind Light False) (route tier kind Standard False)
      \<and> no_stronger (route tier kind Standard False) (route tier kind Heavy False)"
    by (simp add: finite_cases no_stronger_def grid_simps)
  ultimately show ?thesis using route_routable by blast
qed

text \<open>A follow-up target exists exactly for the providers other than OpenCode; it stays
  inside the provider the chat runs on and names a model of the table at a supported effort.\<close>

lemma follow_up_stays_in_provider:
  "case follow_up_target p tier kind d ui of
     None \<Rightarrow> p = Opencode
   | Some r \<Rightarrow> p \<noteq> Opencode \<and> provider (routed_to r) = p \<and> routable r"
  using follow_up_exists [of p tier kind d ui] follow_up_sound [of p tier kind d ui]
  by (auto split: option.splits)

lemma resolved_id [simp]:
  "route_model ''claude-opus-5-5'' = Some OPUS"
  "route_model ''claude-sonnet-5-5'' = Some SONNET"
  "route_model ''claude-fable-5-1'' = Some FABLE"
  "route_model ''gpt-6.1-sol'' = Some SOL"
  "route_model ''gpt-6-luna'' = Some LUNA"
  "route_model ''gpt-6-astra'' = Some ASTRA"
  "route_model ''openrouter/deepseek/deepseek-v4.1-flash-1017'' = Some DEEPSEEK"
  "route_model ''composer-2.5'' = Some COMPOSER"
  "route_model ''claude-opus-5-5-medium'' = Some CURSOR_OPUS"
  "route_model ''grok-4.7'' = Some GROK"
  by (simp_all add: route_model_def ROUTE_MODELS_def current_model_id_def)

lemma route_model_mem: "route_model m = Some x \<Longrightarrow> x \<in> set ROUTE_MODELS \<and> model_id x = current_model_id m"
  unfolding route_model_def by (drule find_Some_mem) simp

lemma route_model_incapable: "capability m = None \<Longrightarrow> route_model m = None"
proof (rule ccontr)
  assume none: "capability m = None" and "route_model m \<noteq> None"
  then obtain x where "x \<in> set ROUTE_MODELS" and "model_id x = current_model_id m"
    using route_model_mem by blast
  with none show False
    by (auto simp: ROUTE_MODELS_def current_model_id_def capability_def split: if_splits)
qed

lemma route_model_capable:
  "capability m = Some c \<Longrightarrow> \<exists>x. route_model m = Some x \<and> capability (model_id x) = Some c"
  by (auto simp: capability_def route_model_def ROUTE_MODELS_def current_model_id_def split: if_splits)

text \<open>Every stored model id that has a capability still names a model of the table, of the
  same capability: a chat saved on a retired id resolves to its successor, so the follow-up
  path's lookups of a known model's capability always succeed.\<close>

lemma capable_ids_resolve:
  "case capability m of
     None \<Rightarrow> route_model m = None
   | Some c \<Rightarrow> (\<exists>x. route_model m = Some x \<and> capability (model_id x) = Some c)"
  using route_model_incapable [of m] route_model_capable [of m] by (auto split: option.splits)

end
