(* ===== verification/Rust_Text.thy ===== *)
theory Rust_Text
  imports Complex_Main Prelude
begin

text \<open>
  What the program uses of Rust's strings and number formatting. A Rust \<^verbatim>\<open>String\<close> is a list of
  bytes (\<^typ>\<open>char\<close>) holding UTF-8; a source literal with a non-ASCII character is spelled
  with its bytes. \<^verbatim>\<open>f64\<close> values are reals: rounding of the arithmetic is not modelled.
\<close>

section \<open>Numbers as text\<close>

definition digit_char :: "nat \<Rightarrow> char" where
  "digit_char d = char_of (48 + d)"

fun nat_text :: "nat \<Rightarrow> string" where
  "nat_text n = (if n < 10 then [digit_char n] else nat_text (n div 10) @ [digit_char (n mod 10)])"

declare nat_text.simps [simp del]

definition int_text :: "int \<Rightarrow> string" where
  "int_text i = (if i < 0 then ''-'' @ nat_text (nat (- i)) else nat_text (nat i))"

text \<open>\<^verbatim>\<open>{byte:02x}\<close>.\<close>

definition hex_digit :: "nat \<Rightarrow> char" where
  "hex_digit d = (if d < 10 then char_of (48 + d) else char_of (87 + d))"

definition hex_byte :: "char \<Rightarrow> string" where
  "hex_byte c = (let b = (of_char c :: nat) in [hex_digit (b div 16), hex_digit (b mod 16)])"

lemma hex_digit_inject:
  assumes "a < 16" and "b < 16" and "hex_digit a = hex_digit b"
  shows "a = b"
proof -
  have "(of_char (hex_digit a) :: nat) = of_char (hex_digit b)" using assms(3) by simp
  then show ?thesis using assms(1,2) by (simp add: hex_digit_def split: if_splits)
qed

lemma hex_byte_inject: "hex_byte c = hex_byte d \<longleftrightarrow> c = d"
proof
  assume eq: "hex_byte c = hex_byte d"
  have lt: "(of_char x :: nat) div 16 < 16" for x :: char
    by (rule less_mult_imp_div_less) simp
  have "(of_char c :: nat) div 16 = of_char d div 16"
    by (rule hex_digit_inject) (use eq lt in \<open>auto simp: hex_byte_def Let_def\<close>)
  moreover have "(of_char c :: nat) mod 16 = of_char d mod 16"
    by (rule hex_digit_inject) (use eq in \<open>auto simp: hex_byte_def Let_def\<close>)
  ultimately have "(of_char c :: nat) = of_char d" by (metis div_mult_mod_eq)
  then show "c = d" by simp
qed simp

text \<open>The hexadecimal text of a digest.\<close>

definition hex_text :: "char list \<Rightarrow> string" where
  "hex_text bs = concat (map hex_byte bs)"

lemma hex_text_inject: "hex_text xs = hex_text ys \<longleftrightarrow> xs = ys"
proof (induction xs arbitrary: ys)
  case Nil
  then show ?case by (cases ys) (auto simp: hex_text_def hex_byte_def Let_def)
next
  case (Cons x xs)
  show ?case
  proof (cases ys)
    case Nil
    then show ?thesis by (simp add: hex_text_def hex_byte_def Let_def)
  next
    case (Cons y zs)
    have len: "length (hex_byte x) = length (hex_byte y)" by (simp add: hex_byte_def Let_def)
    have "hex_text (x # xs) = hex_text (y # zs) \<longleftrightarrow> hex_byte x = hex_byte y \<and> hex_text xs = hex_text zs"
      using len by (simp add: hex_text_def)
    then show ?thesis using Cons.IH [of zs] by (simp add: Cons hex_byte_inject)
  qed
qed

text \<open>Rounding of \<^verbatim>\<open>{:.0}\<close>: to the nearest integer, ties to even.\<close>

definition round_half_even :: "real \<Rightarrow> int" where
  "round_half_even x =
     (let f = \<lfloor>x\<rfloor>; r = x - of_int f
      in if r < 1 / 2 then f else if r > 1 / 2 then f + 1 else if even f then f else f + 1)"

text \<open>\<^verbatim>\<open>f64::round\<close>: ties away from zero.\<close>

definition round_away :: "real \<Rightarrow> int" where
  "round_away x = (if x < 0 then - \<lfloor>- x + 1 / 2\<rfloor> else \<lfloor>x + 1 / 2\<rfloor>)"

definition f64_whole :: "real \<Rightarrow> string" where
  "f64_whole x = (if x < 0 then ''-'' @ int_text (round_half_even (- x)) else int_text (round_half_even x))"

section \<open>Joining and prefixes\<close>

fun join :: "string \<Rightarrow> string list \<Rightarrow> string" where
  "join sep [] = []"
| "join sep [x] = x"
| "join sep (x # y # xs) = x @ sep @ join sep (y # xs)"

definition starts_with :: "string \<Rightarrow> string \<Rightarrow> bool" where
  "starts_with s p \<longleftrightarrow> take (length p) s = p"

lemma starts_with_append [simp]: "starts_with (p @ s) p"
  by (simp add: starts_with_def)

lemma starts_with_iff: "starts_with s p \<longleftrightarrow> (\<exists>t. s = p @ t)"
  by (metis append_eq_conv_conj append_take_drop_id starts_with_def)

text \<open>\<^verbatim>\<open>u8::is_ascii_digit\<close>.\<close>

definition ascii_digit :: "char \<Rightarrow> bool" where
  "ascii_digit c \<longleftrightarrow> 48 \<le> (of_char c :: nat) \<and> (of_char c :: nat) \<le> 57"

section \<open>Trimming\<close>

text \<open>The UTF-8 bytes of the characters of Unicode's \<^verbatim>\<open>White_Space\<close> property.\<close>

definition whitespace_bytes :: "nat list list" where
  "whitespace_bytes =
     [[9], [10], [11], [12], [13], [32], [194, 133], [194, 160], [225, 154, 128],
      [226, 128, 128], [226, 128, 129], [226, 128, 130], [226, 128, 131], [226, 128, 132],
      [226, 128, 133], [226, 128, 134], [226, 128, 135], [226, 128, 136], [226, 128, 137],
      [226, 128, 138], [226, 128, 168], [226, 128, 169], [226, 128, 175], [226, 129, 159],
      [227, 128, 128]]"

definition bytes_of :: "string \<Rightarrow> nat list" where
  "bytes_of s = map of_char s"

text \<open>How many bytes of whitespace character the (possibly reversed) text starts with.\<close>

definition leading_space :: "nat list list \<Rightarrow> string \<Rightarrow> nat" where
  "leading_space seqs s =
     (case find (\<lambda>w. take (length w) (bytes_of s) = w) seqs of None \<Rightarrow> 0 | Some w \<Rightarrow> length w)"

function strip_leading :: "nat list list \<Rightarrow> string \<Rightarrow> string" where
  "strip_leading seqs s =
     (let n = leading_space seqs s
      in if n = 0 \<or> s = [] then s else strip_leading seqs (drop n s))"
  by auto
termination
  by (relation "measure (\<lambda>(_, s). length s)") auto

declare strip_leading.simps [simp del]

definition trim_start :: "string \<Rightarrow> string" where
  "trim_start s = strip_leading whitespace_bytes s"

definition trim_end :: "string \<Rightarrow> string" where
  "trim_end s = rev (strip_leading (map rev whitespace_bytes) (rev s))"

definition trim :: "string \<Rightarrow> string" where
  "trim s = trim_end (trim_start s)"

text \<open>\<^verbatim>\<open>s.trim().is_empty()\<close>.\<close>

definition is_blank :: "string \<Rightarrow> bool" where
  "is_blank s \<longleftrightarrow> trim s = []"

lemma strip_leading_length: "length (strip_leading seqs s) \<le> length s"
proof (induction seqs s rule: strip_leading.induct)
  case (1 seqs s)
  show ?case
  proof (cases "leading_space seqs s = 0 \<or> s = []")
    case True
    then show ?thesis by (auto simp: strip_leading.simps [of seqs s] Let_def)
  next
    case False
    then have "length (strip_leading seqs (drop (leading_space seqs s) s)) \<le>
        length (drop (leading_space seqs s) s)" using 1 by simp
    also have "\<dots> \<le> length s" by simp
    finally show ?thesis using False by (simp add: strip_leading.simps [of seqs s] Let_def)
  qed
qed

lemma trim_length: "length (trim s) \<le> length s"
proof -
  have "length (trim s) \<le> length (trim_start s)"
    using strip_leading_length [of "map rev whitespace_bytes" "rev (trim_start s)"]
    by (simp add: trim_def trim_end_def)
  also have "\<dots> \<le> length s" by (simp add: trim_start_def strip_leading_length)
  finally show ?thesis .
qed

lemma trim_Nil [simp]: "trim [] = []"
  using trim_length [of "[]"] by simp

text \<open>\<^verbatim>\<open>str::chars\<close> on UTF-8: a byte that is not a continuation byte starts a character.\<close>

definition char_start :: "char \<Rightarrow> bool" where
  "char_start c \<longleftrightarrow> (let b = (of_char c :: nat) in b < 128 \<or> 192 \<le> b)"

definition char_count :: "string \<Rightarrow> nat" where
  "char_count s = length (filter char_start s)"

lemma char_count_append: "char_count (a @ b) = char_count a + char_count b"
  by (simp add: char_count_def)

text \<open>\<^verbatim>\<open>s.chars().take(n).collect()\<close>: everything before the character number \<open>n\<close>.\<close>

fun take_chars :: "nat \<Rightarrow> string \<Rightarrow> string" where
  "take_chars n [] = []"
| "take_chars n (c # cs) =
     (if char_start c then (case n of 0 \<Rightarrow> [] | Suc m \<Rightarrow> c # take_chars m cs)
      else c # take_chars n cs)"

lemma take_chars_count: "char_count (take_chars n s) \<le> n"
  by (induction n s rule: take_chars.induct) (auto simp: char_count_def split: nat.splits)

lemma take_chars_all: "char_count s \<le> n \<Longrightarrow> take_chars n s = s"
  by (induction n s rule: take_chars.induct) (auto simp: char_count_def split: nat.splits if_splits)

lemma take_chars_prefix: "\<exists>t. s = take_chars n s @ t"
  by (induction n s rule: take_chars.induct) (auto split: nat.splits)

text \<open>\<^verbatim>\<open>s.contains(t)\<close>.\<close>

fun str_contains :: "string \<Rightarrow> string \<Rightarrow> bool" where
  "str_contains [] t = (t = [])"
| "str_contains (c # cs) t = (starts_with (c # cs) t \<or> str_contains cs t)"

section \<open>Lines\<close>

text \<open>\<^verbatim>\<open>s.split('\n')\<close>: one piece more than there are separators.\<close>

fun split_on :: "char \<Rightarrow> string \<Rightarrow> string list" where
  "split_on d [] = [[]]"
| "split_on d (c # cs) =
     (if c = d then [] # split_on d cs
      else (case split_on d cs of [] \<Rightarrow> [[c]] | p # ps \<Rightarrow> (c # p) # ps))"

definition newline :: char where
  "newline = CHR 0x0A"

definition carriage_return :: char where
  "carriage_return = CHR 0x0D"

definition strip_cr :: "string \<Rightarrow> string" where
  "strip_cr s = (if s \<noteq> [] \<and> last s = carriage_return then butlast s else s)"

text \<open>\<^verbatim>\<open>s.lines()\<close>: the pieces before each line feed, a final piece only when it is not empty.\<close>

definition str_lines :: "string \<Rightarrow> string list" where
  "str_lines s =
     (let ps = split_on newline s
      in map strip_cr (butlast ps) @ (if last ps = [] then [] else [last ps]))"

lemma split_on_not_Nil [simp]: "split_on d s \<noteq> []"
  by (induction s) (auto split: list.splits)

lemma split_on_join: "join [d] (split_on d s) = s"
proof (induction s)
  case (Cons c s)
  then show ?case by (cases "split_on d s"; cases "tl (split_on d s)") auto
qed simp

lemma split_on_no_sep: "p \<in> set (split_on d s) \<Longrightarrow> d \<notin> set p"
  by (induction s arbitrary: p) (auto split: list.splits if_splits)

end
