(* ===== verification/Json.thy ===== *)
theory Json
  imports Rust_Text "HOL-Library.Char_ord" "HOL-Library.List_Lexorder"
begin

text \<open>
  \<^verbatim>\<open>serde_json::Value\<close> as the program uses it. An object is \<^verbatim>\<open>serde_json::Map\<close> without the
  \<^verbatim>\<open>preserve_order\<close> feature, a map sorted by key: an association list with strictly
  increasing keys, which \<open>object_insert\<close> keeps.
\<close>

datatype json_number = PosInt nat | NegInt int | JFloat real

datatype json =
    JNull
  | JBool bool
  | JNumber json_number
  | JString string
  | JArray "json list"
  | JObject "(string \<times> json) list"

type_synonym object = "(string \<times> json) list"

section \<open>Objects\<close>

fun object_insert :: "string \<Rightarrow> json \<Rightarrow> object \<Rightarrow> object" where
  "object_insert k v [] = [(k, v)]"
| "object_insert k v ((k', v') # kvs) =
     (if k < k' then (k, v) # (k', v') # kvs
      else if k = k' then (k, v) # kvs
      else (k', v') # object_insert k v kvs)"

fun object_remove :: "string \<Rightarrow> object \<Rightarrow> object" where
  "object_remove k [] = []"
| "object_remove k ((k', v') # kvs) = (if k = k' then kvs else (k', v') # object_remove k kvs)"

text \<open>\<^verbatim>\<open>json!({..})\<close>: the pairs are inserted in order.\<close>

definition json_object :: "(string \<times> json) list \<Rightarrow> json" where
  "json_object kvs = JObject (fold (\<lambda>(k, v). object_insert k v) kvs [])"

abbreviation sorted_object :: "object \<Rightarrow> bool" where
  "sorted_object kvs \<equiv> sorted_wrt (<) (map fst kvs)"

lemma object_insert_keys: "set (map fst (object_insert k v kvs)) = insert k (set (map fst kvs))"
  by (induction k v kvs rule: object_insert.induct) auto

lemma object_insert_sorted: "sorted_object kvs \<Longrightarrow> sorted_object (object_insert k v kvs)"
proof (induction k v kvs rule: object_insert.induct)
  case (2 k v k' v' kvs)
  have keys: "set (map fst (object_insert k v kvs)) = insert k (set (map fst kvs))"
    by (rule object_insert_keys)
  show ?case
  proof (cases "k < k'")
    case True
    then show ?thesis using 2 by fastforce
  next
    case False
    then show ?thesis using 2 keys by (auto simp: not_less less_le)
  qed
qed simp

lemma sorted_object_distinct: "sorted_object kvs \<Longrightarrow> distinct (map fst kvs)"
  by (simp add: strict_sorted_iff)

lemma object_insert_lookup:
  "sorted_object kvs \<Longrightarrow> map_of (object_insert k v kvs) = (map_of kvs)(k \<mapsto> v)"
proof (induction k v kvs rule: object_insert.induct)
  case (2 k v k' v' kvs)
  then show ?case by (cases "k < k'"; cases "k = k'") (auto simp: fun_upd_twist)
qed simp

lemma object_remove_keys: "set (map fst (object_remove k kvs)) \<subseteq> set (map fst kvs)"
  by (induction k kvs rule: object_remove.induct) auto

lemma object_remove_sorted: "sorted_object kvs \<Longrightarrow> sorted_object (object_remove k kvs)"
proof (induction k kvs rule: object_remove.induct)
  case (2 k k' v' kvs)
  then show ?case using object_remove_keys [of k kvs] by (cases "k = k'") fastforce+
qed simp

lemma object_remove_lookup:
  "sorted_object kvs \<Longrightarrow> map_of (object_remove k kvs) = (map_of kvs)(k := None)"
proof (induction k kvs rule: object_remove.induct)
  case (2 k k' v' kvs)
  show ?case
  proof (cases "k = k'")
    case True
    then have "k \<notin> set (map fst kvs)" using 2 by auto
    then have "map_of kvs k = None" by (metis map_of_eq_None_iff set_map)
    then show ?thesis using True by (auto simp: fun_eq_iff)
  next
    case False
    then show ?thesis using 2 by (auto simp: fun_eq_iff)
  qed
qed simp

text \<open>Two sorted objects with the same lookups are equal.\<close>

lemma sorted_object_eq:
  "sorted_object a \<Longrightarrow> sorted_object b \<Longrightarrow> map_of a = map_of b \<Longrightarrow> a = b"
proof -
  assume a: "sorted_object a" and b: "sorted_object b" and eq: "map_of a = map_of b"
  have "set a = set b"
    using map_of_inject_set [OF sorted_object_distinct [OF a] sorted_object_distinct [OF b]] eq by simp
  then have "set (map fst a) = set (map fst b)" by simp
  then have keys: "map fst a = map fst b" using a b by (metis strict_sorted_equal)
  show ?thesis
  proof (rule nth_equalityI)
    show "length a = length b" using keys by (metis length_map)
    fix i assume i: "i < length a"
    then have ib: "i < length b" using \<open>length a = length b\<close> by simp
    have "fst (a ! i) = fst (b ! i)" using keys i ib by (metis nth_map)
    moreover have "map_of a (fst (a ! i)) = Some (snd (a ! i))"
      using i sorted_object_distinct [OF a] by simp
    moreover have "map_of b (fst (b ! i)) = Some (snd (b ! i))"
      using ib sorted_object_distinct [OF b] by simp
    ultimately show "a ! i = b ! i" using eq by (simp add: prod_eq_iff)
  qed
qed

section \<open>Reading a value\<close>

text \<open>\<^verbatim>\<open>value.get(key)\<close>, \<^verbatim>\<open>as_str\<close>, \<^verbatim>\<open>as_u64\<close>, \<^verbatim>\<open>as_array\<close>, \<^verbatim>\<open>as_bool\<close>.\<close>

fun json_get :: "string \<Rightarrow> json \<Rightarrow> json option" where
  "json_get k (JObject kvs) = map_of kvs k"
| "json_get k _ = None"

fun as_str :: "json \<Rightarrow> string option" where
  "as_str (JString s) = Some s"
| "as_str _ = None"

fun as_u64 :: "json \<Rightarrow> nat option" where
  "as_u64 (JNumber (PosInt n)) = Some n"
| "as_u64 _ = None"

fun as_array :: "json \<Rightarrow> json list option" where
  "as_array (JArray xs) = Some xs"
| "as_array _ = None"

fun as_bool :: "json \<Rightarrow> bool option" where
  "as_bool (JBool b) = Some b"
| "as_bool _ = None"

lemma fold_insert_lookup:
  "sorted_object acc \<Longrightarrow> map_of (fold (\<lambda>(k, v). object_insert k v) kvs acc) k =
     (case map_of (rev kvs) k of None \<Rightarrow> map_of acc k | Some v \<Rightarrow> Some v)"
proof (induction kvs arbitrary: acc)
  case (Cons kv kvs)
  obtain k' v' where kv: "kv = (k', v')" by (cases kv)
  have "map_of (rev (kv # kvs)) k = (case map_of (rev kvs) k of None \<Rightarrow> map_of [kv] k | Some v \<Rightarrow> Some v)"
    by (simp add: map_add_def split: option.splits)
  then show ?case using Cons.IH [OF object_insert_sorted [OF Cons.prems]] Cons.prems
    by (auto simp: kv object_insert_lookup split: option.splits)
qed simp

lemma json_get_object [simp]: "json_get k (json_object kvs) = map_of (rev kvs) k"
  by (simp add: json_object_def fold_insert_lookup split: option.splits)

end
