(* ===== verification/Jev.thy ===== *)
theory Jev
  imports Routing_Table Json
begin

text \<open>
  \<^verbatim>\<open>src-tauri/src/routing/jev.rs\<close>: the classifier's answers. The HTTP call is outside; the
  decoding of a response (\<^verbatim>\<open>Answers\<close>), the checks that turn it into a \<open>classification\<close>, and
  the readings the router makes of one are modelled. A JSON response is a value of \<^typ>\<open>json\<close>;
  probabilities and scores are reals, so every \<^verbatim>\<open>is_finite\<close> test holds.
\<close>

section \<open>Classifications\<close>

datatype follow_up_scope = Continuation | NewTask | FinishingStep

record classification =
  cl_kind :: task_kind
  kind_confidence :: real
  kind_probabilities :: "real list option"
  difficulty_score :: real
  difficulty_confidence :: real
  level_probabilities :: "real list option"
  correction :: "real option"
  cl_scope :: "follow_up_scope option"
  scope_confidence :: "real option"
  simpler_task :: "real option"
  resume_route :: "string option"
  resume_confidence :: "real option"
  ui_weight :: "real option"

definition TASK_KINDS :: "task_kind list" where
  "TASK_KINDS = [Coding, Mechanical, Research, Review, Question]"

fun kind_label :: "task_kind \<Rightarrow> string" where
  "kind_label Coding = ''coding''"
| "kind_label Mechanical = ''mechanical''"
| "kind_label Research = ''research''"
| "kind_label Review = ''review''"
| "kind_label Question = ''question''"

fun difficulty_label :: "difficulty \<Rightarrow> string" where
  "difficulty_label Light = ''light''"
| "difficulty_label Standard = ''standard''"
| "difficulty_label Heavy = ''heavy''"

definition cl_difficulty :: "classification \<Rightarrow> difficulty" where
  "cl_difficulty c =
     (let level = round_away (difficulty_score c)
      in if level \<le> 1 then Light else if level = 2 then Standard else Heavy)"

definition probability_at_least :: "classification \<Rightarrow> nat \<Rightarrow> real option" where
  "probability_at_least c level = map_option (\<lambda>ps. sum_list (drop (min level 4) ps)) (level_probabilities c)"

definition probability_at_least_bucket :: "classification \<Rightarrow> difficulty \<Rightarrow> real" where
  "probability_at_least_bucket c d =
     (case d of
        Light \<Rightarrow> 1
      | Standard \<Rightarrow> (case probability_at_least c 2 of None \<Rightarrow> difficulty_confidence c | Some p \<Rightarrow> p)
      | Heavy \<Rightarrow> (case probability_at_least c 3 of None \<Rightarrow> difficulty_confidence c | Some p \<Rightarrow> p))"

definition probability_at_most_bucket :: "classification \<Rightarrow> difficulty \<Rightarrow> real" where
  "probability_at_most_bucket c d =
     (case d of
        Light \<Rightarrow> (case probability_at_least c 2 of None \<Rightarrow> difficulty_confidence c | Some p \<Rightarrow> 1 - p)
      | Standard \<Rightarrow> (case probability_at_least c 3 of None \<Rightarrow> difficulty_confidence c | Some p \<Rightarrow> 1 - p)
      | Heavy \<Rightarrow> 1)"

fun position :: "'a \<Rightarrow> 'a list \<Rightarrow> nat option" where
  "position x [] = None"
| "position x (y # ys) = (if y = x then Some 0 else map_option Suc (position x ys))"

definition kind_probability :: "classification \<Rightarrow> task_kind \<Rightarrow> real option" where
  "kind_probability c k =
     (case position k TASK_KINDS of
        None \<Rightarrow> None
      | Some i \<Rightarrow> map_option (\<lambda>ps. ps ! i) (kind_probabilities c))"

definition is_ui :: "classification \<Rightarrow> bool" where
  "is_ui c = (case ui_weight c of None \<Rightarrow> False | Some u \<Rightarrow> u \<ge> 7 / 10)"

section \<open>The stored signals\<close>

definition json_real :: "real \<Rightarrow> json" where
  "json_real x = JNumber (JFloat x)"

definition json_opt :: "('a \<Rightarrow> json) \<Rightarrow> 'a option \<Rightarrow> json" where
  "json_opt f v = (case v of None \<Rightarrow> JNull | Some x \<Rightarrow> f x)"

fun scope_label :: "follow_up_scope \<Rightarrow> string" where
  "scope_label Continuation = ''continuation''"
| "scope_label NewTask = ''new_task''"
| "scope_label FinishingStep = ''finishing_step''"

text \<open>The JSON value that \<^verbatim>\<open>signals_json\<close> prints.\<close>

definition signals_json :: "classification \<Rightarrow> json" where
  "signals_json c = json_object
     [(''kind'', json_opt (\<lambda>ps. json_object (zip (map kind_label TASK_KINDS) (map json_real ps)))
                   (kind_probabilities c)),
      (''kindConfidence'', json_real (kind_confidence c)),
      (''difficultyScore'', json_real (difficulty_score c)),
      (''difficultyConfidence'', json_real (difficulty_confidence c)),
      (''levels'', json_opt (\<lambda>ps. JArray (map json_real ps)) (level_probabilities c)),
      (''correction'', json_opt json_real (correction c)),
      (''scope'', json_opt (\<lambda>s. JString (scope_label s)) (cl_scope c)),
      (''scopeConfidence'', json_opt json_real (scope_confidence c)),
      (''simpler'', json_opt json_real (simpler_task c)),
      (''resume'', json_opt JString (resume_route c)),
      (''resumeConfidence'', json_opt json_real (resume_confidence c)),
      (''ui'', json_opt json_real (ui_weight c))]"

section \<open>Decoding a response\<close>

record answer =
  choice :: "string option"
  score :: "real option"
  noul :: "real option"
  confidence :: "real option"
  probabilities :: "(string \<times> real) list option"

type_synonym answers = "(string \<times> answer) list"

fun number_real :: "json_number \<Rightarrow> real" where
  "number_real (PosInt n) = real n"
| "number_real (NegInt i) = of_int i"
| "number_real (JFloat x) = x"

text \<open>
  The derived \<^verbatim>\<open>Deserialize\<close>: an absent or null optional field is \<open>None\<close>, a field of another
  type fails the whole response, fields the struct does not name are ignored.
\<close>

fun decode_f64 :: "json \<Rightarrow> real option" where
  "decode_f64 (JNumber n) = Some (number_real n)"
| "decode_f64 _ = None"

fun decode_all :: "('a \<Rightarrow> 'b option) \<Rightarrow> (string \<times> 'a) list \<Rightarrow> (string \<times> 'b) list option" where
  "decode_all f [] = Some []"
| "decode_all f ((k, v) # kvs) =
     (case (f v, decode_all f kvs) of
        (Some x, Some xs) \<Rightarrow> Some ((k, x) # xs)
      | _ \<Rightarrow> None)"

fun decode_map :: "(json \<Rightarrow> 'b option) \<Rightarrow> json \<Rightarrow> (string \<times> 'b) list option" where
  "decode_map f (JObject kvs) = decode_all f kvs"
| "decode_map f _ = None"

definition decode_field :: "(json \<Rightarrow> 'b option) \<Rightarrow> string \<Rightarrow> json \<Rightarrow> 'b option option" where
  "decode_field f k v =
     (case json_get k v of
        None \<Rightarrow> Some None
      | Some JNull \<Rightarrow> Some None
      | Some x \<Rightarrow> map_option Some (f x))"

definition decode_answer :: "json \<Rightarrow> answer option" where
  "decode_answer v =
     (case v of
        JObject _ \<Rightarrow>
          (case (decode_field as_str ''choice'' v, decode_field decode_f64 ''score'' v,
                 decode_field decode_f64 ''noul'' v, decode_field decode_f64 ''confidence'' v,
                 decode_field (decode_map decode_f64) ''probabilities'' v) of
             (Some c, Some s, Some n, Some f, Some p) \<Rightarrow>
               Some \<lparr>choice = c, score = s, noul = n, confidence = f, probabilities = p\<rparr>
           | _ \<Rightarrow> None)
      | _ \<Rightarrow> None)"

definition decode_answers :: "json \<Rightarrow> answers option" where
  "decode_answers body =
     (case json_get ''answers'' body of None \<Rightarrow> None | Some v \<Rightarrow> decode_map decode_answer v)"

definition valid_probability :: "real \<Rightarrow> real option" where
  "valid_probability x = (if 0 \<le> x \<and> x \<le> 1 then Some x else None)"

definition jev_error :: "string \<Rightarrow> argmax_error" where
  "jev_error detail = service ''ROUTING_JEV_FAILED'' (''Jev '' @ detail)"

definition opt_bind :: "'a option \<Rightarrow> ('a \<Rightarrow> 'b option) \<Rightarrow> 'b option" where
  "opt_bind v f = (case v of None \<Rightarrow> None | Some x \<Rightarrow> f x)"

definition or_zero :: "real option \<Rightarrow> real" where
  "or_zero v = (case v of None \<Rightarrow> 0 | Some x \<Rightarrow> x)"

fun parse_kind :: "string option \<Rightarrow> task_kind option" where
  "parse_kind None = None"
| "parse_kind (Some s) = find (\<lambda>k. kind_label k = s) TASK_KINDS"

definition parse_scope :: "string option \<Rightarrow> follow_up_scope option" where
  "parse_scope s =
     (if s = Some ''continuation'' then Some Continuation
      else if s = Some ''new_task'' then Some NewTask
      else if s = Some ''finishing_step'' then Some FinishingStep
      else None)"

text \<open>A label \<^verbatim>\<open>R<digits>\<close>.\<close>

definition resume_label :: "string \<Rightarrow> bool" where
  "resume_label s \<longleftrightarrow> starts_with s ''R'' \<and> length s > 1 \<and> list_all ascii_digit (drop 1 s)"

definition weight_of :: "(string \<times> real) list \<Rightarrow> string \<Rightarrow> real" where
  "weight_of ps k = or_zero (opt_bind (map_of ps k) valid_probability)"

text \<open>
  \<open>serde_error\<close> is the text of serde's message for a body of the wrong shape, \<open>debug\<close> the text
  \<^verbatim>\<open>{:?}\<close> prints for an unknown kind: both only reach the message of the error.
\<close>

definition parse_response ::
  "string \<Rightarrow> (string option \<Rightarrow> string) \<Rightarrow> json \<Rightarrow> argmax_error + classification"
where
  "parse_response serde_error debug body =
     (case decode_answers body of
        None \<Rightarrow> Inl (jev_error (''unexpected response shape: '' @ serde_error))
      | Some as \<Rightarrow>
     (case map_of as ''kind'' of
        None \<Rightarrow> Inl (jev_error ''response has no kind answer'')
      | Some ka \<Rightarrow>
     (case parse_kind (choice ka) of
        None \<Rightarrow> Inl (jev_error (''unknown kind '' @ debug (choice ka)))
      | Some kind \<Rightarrow>
     (case map_of as ''difficulty'' of
        None \<Rightarrow> Inl (jev_error ''response has no difficulty answer'')
      | Some da \<Rightarrow>
     (case score da of
        None \<Rightarrow> Inl (jev_error ''difficulty answer has no score'')
      | Some level \<Rightarrow> Inr
          \<lparr>cl_kind = kind,
           kind_confidence = or_zero (opt_bind (confidence ka) valid_probability),
           kind_probabilities =
             map_option (\<lambda>ps. map (\<lambda>k. weight_of ps (kind_label k)) TASK_KINDS) (probabilities ka),
           difficulty_score = level,
           difficulty_confidence = or_zero (opt_bind (confidence da) valid_probability),
           level_probabilities =
             map_option (\<lambda>ps. map (\<lambda>l. weight_of ps (nat_text l)) [0, 1, 2, 3, 4]) (probabilities da),
           correction = opt_bind (map_of as ''correction'') (\<lambda>a. opt_bind (noul a) valid_probability),
           cl_scope = opt_bind (map_of as ''scope'') (\<lambda>a. parse_scope (choice a)),
           scope_confidence = opt_bind (map_of as ''scope'') (\<lambda>a. opt_bind (confidence a) valid_probability),
           simpler_task = opt_bind (map_of as ''simpler'') (\<lambda>a. opt_bind (noul a) valid_probability),
           resume_route = opt_bind (map_of as ''resume'')
             (\<lambda>a. opt_bind (choice a) (\<lambda>r. if resume_label r then Some r else None)),
           resume_confidence = opt_bind (map_of as ''resume'') (\<lambda>a. opt_bind (confidence a) valid_probability),
           ui_weight = opt_bind (map_of as ''ui'') (\<lambda>a. opt_bind (noul a) valid_probability)\<rparr>)))))"

section \<open>What a parsed classification satisfies\<close>

definition probability :: "real \<Rightarrow> bool" where
  "probability x \<longleftrightarrow> 0 \<le> x \<and> x \<le> 1"

definition well_formed :: "classification \<Rightarrow> bool" where
  "well_formed c \<longleftrightarrow>
     probability (kind_confidence c) \<and> probability (difficulty_confidence c) \<and>
     pred_option (\<lambda>ps. length ps = 5 \<and> list_all probability ps) (kind_probabilities c) \<and>
     pred_option (\<lambda>ps. length ps = 5 \<and> list_all probability ps) (level_probabilities c) \<and>
     pred_option probability (correction c) \<and> pred_option probability (scope_confidence c) \<and>
     pred_option probability (simpler_task c) \<and> pred_option probability (resume_confidence c) \<and>
     pred_option probability (ui_weight c) \<and> pred_option resume_label (resume_route c)"

lemma valid_probability_ok: "pred_option probability (opt_bind v valid_probability)"
  by (cases v) (auto simp: opt_bind_def valid_probability_def probability_def)

lemma valid_in_answer: "pred_option probability (opt_bind v (\<lambda>a. opt_bind (g a) valid_probability))"
  by (cases v) (auto simp: opt_bind_def valid_probability_def probability_def split: option.splits)

lemma or_zero_probability: "pred_option probability v \<Longrightarrow> probability (or_zero v)"
  by (cases v) (auto simp: or_zero_def probability_def)

lemma weight_of_probability: "probability (weight_of ps k)"
  by (simp add: weight_of_def or_zero_probability valid_probability_ok)

lemma weights_ok:
  "pred_option (\<lambda>ps. length ps = 5 \<and> list_all probability ps)
     (map_option (\<lambda>ps. [weight_of ps a, weight_of ps b, weight_of ps c, weight_of ps d, weight_of ps e]) v)"
  by (cases v) (simp_all add: weight_of_probability)

lemma resume_ok:
  "pred_option resume_label (opt_bind v (\<lambda>a. opt_bind (g a) (\<lambda>r. if resume_label r then Some r else None)))"
  by (cases v) (auto simp: opt_bind_def split: option.splits)

lemma parsed_well_formed: "parse_response e d body = Inr c \<Longrightarrow> well_formed c"
  unfolding parse_response_def TASK_KINDS_def
  by (simp split: option.splits; clarsimp simp only: well_formed_def classification.simps
      or_zero_probability valid_probability_ok valid_in_answer weights_ok resume_ok simp_thms)

text \<open>C7: whatever the service answers, a response is either refused with the routing error or
  read as a classification whose every probability lies between 0 and 1, with five kind
  weights and five level weights when it sent any, and whose resume label is an R followed
  by digits.\<close>

theorem parse_response_sound:
  "case parse_response e d body of
     Inl err \<Rightarrow> (\<exists>msg. err = ServiceError ''ROUTING_JEV_FAILED'' (''Jev '' @ msg))
   | Inr c \<Rightarrow> well_formed c"
proof (cases "parse_response e d body")
  case (Inl err)
  then show ?thesis
    by (auto simp: parse_response_def jev_error_def service_def split: option.splits)
next
  case (Inr c)
  then show ?thesis by (simp add: parsed_well_formed)
qed

text \<open>The buckets partition the weight of the levels, as the two readings of them use it.\<close>

lemma buckets_complement:
  assumes "level_probabilities c = Some ps"
  shows "probability_at_most_bucket c Light + probability_at_least_bucket c Standard = 1"
    and "probability_at_most_bucket c Standard + probability_at_least_bucket c Heavy = 1"
  using assms by (simp_all add: probability_at_most_bucket_def probability_at_least_bucket_def
      probability_at_least_def)

end
