(* ===== verification/Routing_Decide.thy ===== *)
theory Routing_Decide
  imports Jev
begin

text \<open>
  \<^verbatim>\<open>src-tauri/src/routing/mod.rs\<close> and \<^verbatim>\<open>routing/directive.rs\<close>: what an Auto launch runs on.
  \<open>settle\<close> applies the confidence rules, \<open>decide\<close> looks the grid up, \<open>parse_directive\<close> honours a
  request in the prompt, \<open>resolve_route\<close> puts them together and \<open>with_available_provider\<close> moves
  the result onto an installed provider (\<open>provider_defaults\<close> is that of \<^verbatim>\<open>lib.rs\<close>). The
  classifier's answer and the regular expression's captures are arguments.
\<close>

section \<open>Decisions\<close>

datatype route_decision_kind = LaunchDecision | Reroute | Escalate | Kept | Fallback | Pinned

fun decision_kind_label :: "route_decision_kind \<Rightarrow> string" where
  "decision_kind_label LaunchDecision = ''launch''"
| "decision_kind_label Reroute = ''reroute''"
| "decision_kind_label Escalate = ''escalate''"
| "decision_kind_label Kept = ''kept''"
| "decision_kind_label Fallback = ''fallback''"
| "decision_kind_label Pinned = ''pinned''"

record route_decision =
  rd_tier :: auto_tier
  rd_provider :: provider_id
  rd_model_id :: string
  rd_model_label :: string
  rd_effort :: "reasoning_effort option"
  rd_kind :: "task_kind option"
  rd_difficulty :: "difficulty option"
  rd_kind_confidence :: "real option"
  rd_difficulty_confidence :: "real option"
  rd_decision :: route_decision_kind
  rd_reason :: string
  rd_signals :: "json option"

fun provider_str :: "provider_id \<Rightarrow> string" where
  "provider_str Claude = ''claude''"
| "provider_str Codex = ''codex''"
| "provider_str Cursor = ''cursor''"
| "provider_str Opencode = ''opencode''"
| "provider_str Grok = ''grok''"

fun effort_str :: "reasoning_effort \<Rightarrow> string" where
  "effort_str Low = ''low''"
| "effort_str Medium = ''medium''"
| "effort_str High = ''high''"
| "effort_str Xhigh = ''xhigh''"
| "effort_str MaxEffort = ''max''"
| "effort_str Ultra = ''ultra''"

fun tier_label :: "auto_tier \<Rightarrow> string" where
  "tier_label Economy = ''economy''"
| "tier_label Cost = ''cost''"
| "tier_label Balanced = ''balanced''"
| "tier_label Intelligence = ''intelligence''"

definition parse_tier :: "string \<Rightarrow> auto_tier option" where
  "parse_tier s =
     (if s = ''economy'' then Some Economy
      else if s = ''cost'' then Some Cost
      else if s = ''balanced'' then Some Balanced
      else if s = ''intelligence'' then Some Intelligence
      else None)"

text \<open>The middle dot between spaces that reasons are built with, in UTF-8.\<close>

definition middot :: string where
  "middot = [CHR 0x20, CHR 0xC2, CHR 0xB7, CHR 0x20]"

definition decision_from ::
  "auto_tier \<Rightarrow> routed_model \<Rightarrow> classification option \<Rightarrow> (task_kind \<times> difficulty) option \<Rightarrow>
   route_decision_kind \<Rightarrow> string \<Rightarrow> route_decision"
where
  "decision_from tier routed c settled decision reason =
     \<lparr>rd_tier = tier,
      rd_provider = provider (routed_to routed),
      rd_model_id = model_id (routed_to routed),
      rd_model_label = label (routed_to routed),
      rd_effort = routed_effort routed,
      rd_kind = map_option fst settled,
      rd_difficulty = map_option snd settled,
      rd_kind_confidence = map_option kind_confidence c,
      rd_difficulty_confidence = map_option difficulty_confidence c,
      rd_decision = decision,
      rd_reason = reason,
      rd_signals = map_option signals_json c\<rparr>"

section \<open>Confidence rules\<close>

definition coding_trails :: "classification \<Rightarrow> bool" where
  "coding_trails c =
     (case (kind_probability c Coding, kind_probability c (cl_kind c)) of
        (Some coding, Some best) \<Rightarrow> best - coding > 15 / 100
      | _ \<Rightarrow> False)"

definition settle_kind :: "classification \<Rightarrow> task_kind \<times> string list" where
  "settle_kind c =
     (if kind_confidence c \<ge> 1 / 2 then (cl_kind c, [])
      else if coding_trails c then (cl_kind c, [''unsure of kind, kept the likeliest''])
      else (Coding, [''unsure of kind, treated as coding'']))"

definition settle_difficulty :: "classification \<Rightarrow> difficulty \<times> string list" where
  "settle_difficulty c =
     (let d = cl_difficulty c
      in if difficulty_confidence c < 1 / 2 then
           let (rounded, lowest) = (case d of Light \<Rightarrow> (Standard, 2) | Standard \<Rightarrow> (Heavy, 3) | Heavy \<Rightarrow> (Heavy, 3));
               upper = probability_at_least c lowest
           in if rounded \<noteq> d \<and> (case upper of None \<Rightarrow> True | Some p \<Rightarrow> p \<ge> 1 / 2)
              then (rounded, [''unsure of difficulty, rounded up'']) else (d, [])
         else (d, []))"

definition settle :: "classification \<Rightarrow> task_kind \<times> difficulty \<times> string list" where
  "settle c = (fst (settle_kind c), fst (settle_difficulty c),
     snd (settle_kind c) @ snd (settle_difficulty c))"

section \<open>Launch decisions\<close>

definition decide :: "auto_tier \<Rightarrow> classification \<Rightarrow> route_decision" where
  "decide tier c =
     (let (kind, d, notes) = settle c;
          unsure = (tier = Balanced \<and> d = Heavy \<and> probability_at_least_bucket c Heavy < 6 / 10);
          grid = (if unsure then Standard else d);
          notes = (if unsure then notes @ [''not sure it is hard, medium effort''] else notes);
          routed = route tier kind grid (is_ui c);
          routed = (if grid \<noteq> d \<and> (case routed_effort routed of None \<Rightarrow> False | Some e \<Rightarrow> rank e > rank Medium)
                    then routed\<lparr>routed_effort := Some Medium\<rparr> else routed);
          reason = kind_label kind @ middot @ difficulty_label d;
          reason = (if is_ui c then reason @ middot @ ''UI'' else reason);
          reason = (if notes \<noteq> [] then reason @ '' ('' @ join ''; '' notes @ '')'' else reason)
      in decision_from tier routed (Some c) (Some (kind, d)) LaunchDecision reason)"

definition fallback_decision :: "auto_tier \<Rightarrow> string \<Rightarrow> route_decision" where
  "fallback_decision tier why =
     decision_from tier (fallback tier) None None Fallback (''unrouted: '' @ why)"

section \<open>Requests in the prompt\<close>

datatype directive = NoDirective | RouteDirective routed_model | Refused string

text \<open>
  What the pattern captures on a line: the end of the match, the model word and the effort
  word. \<open>word_lower\<close> is \<^verbatim>\<open>to_lowercase\<close> on what the case-insensitive words can match: ASCII letters, the
  Kelvin sign (U+212A, which becomes k) and the long s (U+017F, which is lower case already).
\<close>

record request =
  request_end :: nat
  model_word :: string
  effort_word :: "string option"

fun word_lower :: "string \<Rightarrow> string" where
  "word_lower (a # b # c # cs) =
     (if a = CHR 0xE2 \<and> b = CHR 0x84 \<and> c = CHR 0xAA then CHR ''k'' # word_lower cs
      else (if 65 \<le> (of_char a :: nat) \<and> (of_char a :: nat) \<le> 90 then char_of ((of_char a :: nat) + 32) else a)
           # word_lower (b # c # cs))"
| "word_lower (a # cs) =
     (if 65 \<le> (of_char a :: nat) \<and> (of_char a :: nat) \<le> 90 then char_of ((of_char a :: nat) + 32) else a)
     # word_lower cs"
| "word_lower [] = []"

fun parse_effort_word :: "string \<Rightarrow> reasoning_effort" where
  "parse_effort_word w =
     (if w = ''low'' then Low
      else if w = ''medium'' \<or> w = ''med'' then Medium
      else if w = ''high'' then High
      else if w = ''xhigh'' then Xhigh
      else if w = ''max'' then MaxEffort
      else Ultra)"

definition find_request ::
  "(string \<Rightarrow> request option) \<Rightarrow> string \<Rightarrow> (string \<times> reasoning_effort option) option"
where
  "find_request captures prompt =
     (case str_lines (trim prompt) of
        [] \<Rightarrow> None
      | first # rest \<Rightarrow>
          (let last_line = last (first # rest);
               found = (case captures first of
                          Some r \<Rightarrow> Some r
                        | None \<Rightarrow>
                            (case captures last_line of
                               None \<Rightarrow> None
                             | Some r \<Rightarrow>
                                 if list_all (\<lambda>c. c = CHR ''.'' \<or> c = CHR ''!'')
                                      (trim (drop (request_end r) last_line))
                                 then Some r else None))
           in map_option (\<lambda>r. (word_lower (model_word r),
                               map_option (\<lambda>w. parse_effort_word (word_lower w)) (effort_word r))) found))"

definition DIFFICULTIES :: "difficulty list" where
  "DIFFICULTIES = [Light, Standard, Heavy]"

text \<open>The launches of a tier, in the order of the three loops.\<close>

definition tier_launches :: "auto_tier \<Rightarrow> routed_model list" where
  "tier_launches tier =
     concat (map (\<lambda>kind. concat (map (\<lambda>d. map (\<lambda>ui. route tier kind d ui) [False, True]) DIFFICULTIES))
       TASK_KINDS)"

definition reachable :: "auto_tier \<Rightarrow> route_model \<Rightarrow> reasoning_effort list" where
  "reachable tier model =
     remdups_adj (sort_key rank
       (concat (map (\<lambda>r. if routed_to r = model
                         then (case routed_effort r of None \<Rightarrow> [] | Some e \<Rightarrow> [e]) else [])
          (tier_launches tier))))"

definition default_effort :: "reasoning_effort list \<Rightarrow> reasoning_effort" where
  "default_effort es = (case find (\<lambda>e. rank e \<ge> rank Medium) es of Some e \<Rightarrow> e | None \<Rightarrow> last es)"

definition directive_model :: "string \<Rightarrow> route_model option" where
  "directive_model w = map_of
     [(''deepseek'', DEEPSEEK), (''astra'', ASTRA), (''sol'', SOL), (''luna'', LUNA),
      (''opus'', OPUS), (''sonnet'', SONNET), (''fable'', FABLE)] w"

text \<open>\<open>None\<close> is the panic of \<^verbatim>\<open>unreachable!\<close>.\<close>

definition parse_directive :: "(string \<Rightarrow> request option) \<Rightarrow> string \<Rightarrow> auto_tier \<Rightarrow> directive option" where
  "parse_directive captures prompt tier =
     (case find_request captures prompt of
        None \<Rightarrow> Some NoDirective
      | Some (word, asked) \<Rightarrow>
     (case directive_model word of
        None \<Rightarrow> None
      | Some model \<Rightarrow>
          (let efforts = reachable tier model
           in if efforts = [] then
                Some (Refused (label model @ '' is not routable on '' @ tier_label tier))
              else (case asked of
                      Some e \<Rightarrow>
                        if e \<in> set efforts
                        then Some (RouteDirective \<lparr>routed_to = model, routed_effort = Some e\<rparr>)
                        else Some (Refused (label model @ '' '' @ effort_str e
                               @ '' is not routable on '' @ tier_label tier))
                    | None \<Rightarrow>
                        Some (RouteDirective \<lparr>routed_to = model, routed_effort = Some (default_effort efforts)\<rparr>)))))"

text \<open>\<^verbatim>\<open>resolve_route\<close>: the classifier's answer is \<open>Inl\<close> of its error's text.\<close>

definition resolve_route ::
  "(string \<Rightarrow> request option) \<Rightarrow> string \<Rightarrow> auto_tier \<Rightarrow> string + classification \<Rightarrow> route_decision option"
where
  "resolve_route captures prompt tier answer =
     (case parse_directive captures prompt tier of
        None \<Rightarrow> None
      | Some (RouteDirective routed) \<Rightarrow>
          Some (decision_from tier routed None None LaunchDecision (''asked for '' @ label (routed_to routed)))
      | Some d \<Rightarrow>
          (let found = (case answer of Inr c \<Rightarrow> decide tier c | Inl e \<Rightarrow> fallback_decision tier e)
           in Some (case d of
                      Refused why \<Rightarrow> found\<lparr>rd_reason := rd_reason found @ '' (ignored the request: '' @ why @ '')''\<rparr>
                    | _ \<Rightarrow> found)))"

section \<open>Installed providers\<close>

definition AVAILABLE_PROVIDER_ORDER :: "provider_id list" where
  "AVAILABLE_PROVIDER_ORDER = [Claude, Codex, Cursor, Grok, Opencode]"

record provider_defaults =
  default_label :: string
  default_model_id :: string
  default_reasoning :: "string option"

definition provider_defaults :: "string \<Rightarrow> provider_defaults" where
  "provider_defaults p =
     (if p = ''codex'' then \<lparr>default_label = ''GPT-6.1 Sol'', default_model_id = ''gpt-6.1-sol'',
        default_reasoning = Some ''medium''\<rparr>
      else if p = ''cursor'' then \<lparr>default_label = ''Grok 4.7 (Cursor)'', default_model_id = ''grok-4.7-medium'',
        default_reasoning = Some ''medium''\<rparr>
      else if p = ''opencode'' then \<lparr>default_label = ''GLM-5.3-Flash'',
        default_model_id = ''openrouter/z-ai/glm-5.3-flash'', default_reasoning = Some ''high''\<rparr>
      else if p = ''grok'' then \<lparr>default_label = ''Grok 4.7'', default_model_id = ''grok-4.7'',
        default_reasoning = Some ''medium''\<rparr>
      else \<lparr>default_label = ''Opus 5.5'', default_model_id = ''claude-opus-5-5'',
        default_reasoning = Some ''medium''\<rparr>)"

definition parse_effort :: "string \<Rightarrow> reasoning_effort option" where
  "parse_effort s = find (\<lambda>e. effort_str e = s) [Low, Medium, High, Xhigh, MaxEffort, Ultra]"

definition substitute :: "route_decision \<Rightarrow> provider_id \<Rightarrow> routed_model option" where
  "substitute r p =
     (if rd_tier r = Economy \<and> p = Claude \<and> rd_kind r \<noteq> Some Review then
        (let heavy = (rd_difficulty r = Some Heavy \<and> rd_kind r \<noteq> Some Mechanical)
         in Some \<lparr>routed_to = (if heavy then OPUS else SONNET), routed_effort = rd_effort r\<rparr>)
      else (case (rd_kind r, rd_difficulty r) of
              (Some kind, Some d) \<Rightarrow> follow_up_target p (rd_tier r) kind d False
            | _ \<Rightarrow> None))"

definition with_available_provider :: "route_decision \<Rightarrow> provider_id list \<Rightarrow> route_decision" where
  "with_available_provider r available =
     (if available = [] \<or> rd_provider r \<in> set available then r
      else (case find (\<lambda>p. p \<in> set available) AVAILABLE_PROVIDER_ORDER of
              None \<Rightarrow> r
            | Some p \<Rightarrow>
                (let previous = rd_provider r;
                     r1 = (case substitute r p of
                             None \<Rightarrow> r
                           | Some t \<Rightarrow> r\<lparr>rd_provider := provider (routed_to t),
                                         rd_model_id := model_id (routed_to t),
                                         rd_model_label := label (routed_to t),
                                         rd_effort := routed_effort t\<rparr>);
                     r2 = (if rd_provider r1 = previous then
                             (let ds = provider_defaults (provider_str p)
                              in r1\<lparr>rd_provider := p,
                                    rd_model_id := default_model_id ds,
                                    rd_model_label := default_label ds,
                                    rd_effort := opt_bind (default_reasoning ds) parse_effort\<rparr>)
                           else r1)
                 in r2\<lparr>rd_reason := rd_reason r2 @ '' ('' @ provider_str previous @ '' unavailable)''\<rparr>)))"

section \<open>Properties\<close>

lemma tier_round_trip: "parse_tier (tier_label t) = Some t"
  by (cases t) (simp_all add: parse_tier_def)

lemma parse_tier_Some: "parse_tier s = Some t \<Longrightarrow> s = tier_label t"
  by (auto simp: parse_tier_def split: if_splits)

lemma parse_effort_str: "parse_effort (effort_str e) = Some e"
  by (cases e) (simp_all add: parse_effort_def)

lemma settle_kind_or_coding: "fst (settle_kind c) = cl_kind c \<or> fst (settle_kind c) = Coding"
  by (simp add: settle_kind_def)

lemma settle_difficulty_rounds_up:
  "fst (settle_difficulty c) = cl_difficulty c \<or>
   difficulty_rank (fst (settle_difficulty c)) = difficulty_rank (cl_difficulty c) + 1"
  by (cases "cl_difficulty c") (auto simp: settle_difficulty_def Let_def split: option.splits)

lemma settled_difficulty:
  "cl_difficulty c \<le> fst (settle_difficulty c)"
  "difficulty_confidence c \<ge> 1 / 2 \<Longrightarrow> fst (settle_difficulty c) = cl_difficulty c"
  using settle_difficulty_rounds_up [of c]
  by (auto simp: less_eq_difficulty_def settle_difficulty_def Let_def)

text \<open>The launch of a decision as a routed pair.\<close>

definition launches_as :: "route_decision \<Rightarrow> routed_model \<Rightarrow> bool" where
  "launches_as r m \<longleftrightarrow> rd_provider r = provider (routed_to m) \<and> rd_model_id r = model_id (routed_to m) \<and>
     rd_model_label r = label (routed_to m) \<and> rd_effort r = routed_effort m"

lemma decision_from_launches: "launches_as (decision_from t m c st k reason) m"
  by (simp add: launches_as_def decision_from_def)

lemma decision_from_simps [simp]:
  "rd_tier (decision_from t m c st k reason) = t"
  "rd_provider (decision_from t m c st k reason) = provider (routed_to m)"
  "rd_model_id (decision_from t m c st k reason) = model_id (routed_to m)"
  "rd_effort (decision_from t m c st k reason) = routed_effort m"
  "rd_kind (decision_from t m c st k reason) = map_option fst st"
  "rd_difficulty (decision_from t m c st k reason) = map_option snd st"
  "rd_decision (decision_from t m c st k reason) = k"
  by (simp_all add: decision_from_def)

lemma balanced_standard_medium:
  "Medium \<in> set (efforts (routed_to (route Balanced kind Standard ui)))"
proof -
  have "\<forall>kind ui. Medium \<in> set (efforts (routed_to (route Balanced kind Standard ui)))"
    by (simp add: finite_cases grid_simps)
  then show ?thesis by blast
qed

lemma routable_medium:
  "routable r \<Longrightarrow> Medium \<in> set (efforts (routed_to r)) \<Longrightarrow> routable (r\<lparr>routed_effort := Some Medium\<rparr>)"
  by (simp add: routable_def less_eq_reasoning_effort_def)


lemma tier_launches_mem:
  "r \<in> set (tier_launches tier) \<longleftrightarrow> (\<exists>kind d ui. r = route tier kind d ui)"
proof
  assume "r \<in> set (tier_launches tier)"
  then show "\<exists>kind d ui. r = route tier kind d ui" by (auto simp: tier_launches_def)
next
  assume "\<exists>kind d ui. r = route tier kind d ui"
  then obtain kind d ui where r: "r = route tier kind d ui" by blast
  have "kind \<in> set TASK_KINDS" by (cases kind) (simp_all add: TASK_KINDS_def)
  moreover have "d \<in> set DIFFICULTIES" by (cases d) (simp_all add: DIFFICULTIES_def)
  ultimately show "r \<in> set (tier_launches tier)" unfolding r tier_launches_def by (cases ui) auto
qed

lemma reachable_mem:
  "e \<in> set (reachable tier model) \<longleftrightarrow>
   (\<exists>kind d ui. route tier kind d ui = \<lparr>routed_to = model, routed_effort = Some e\<rparr>)"
proof -
  have "e \<in> set (reachable tier model) \<longleftrightarrow>
      (\<exists>r \<in> set (tier_launches tier). routed_to r = model \<and> routed_effort r = Some e)"
  proof -
    have "e \<in> set (if routed_to r = model then (case routed_effort r of None \<Rightarrow> [] | Some x \<Rightarrow> [x]) else [])
        \<longleftrightarrow> routed_to r = model \<and> routed_effort r = Some e" for r :: routed_model
      by (cases "routed_effort r"; cases "routed_to r = model"; simp add: eq_commute)
    moreover have "set (reachable tier model) = (\<Union>r \<in> set (tier_launches tier).
        set (if routed_to r = model then (case routed_effort r of None \<Rightarrow> [] | Some x \<Rightarrow> [x]) else []))"
      by (simp only: reachable_def remdups_adj_set set_sort set_concat set_map image_image)
    ultimately show ?thesis by (simp only: UN_iff)
  qed
  also have "\<dots> \<longleftrightarrow> (\<exists>kind d ui. route tier kind d ui = \<lparr>routed_to = model, routed_effort = Some e\<rparr>)"
    unfolding Bex_def tier_launches_mem
    by (metis routed_model.select_convs routed_model.surjective unit.exhaust)
  finally show ?thesis .
qed

lemma default_effort_mem: "es \<noteq> [] \<Longrightarrow> default_effort es \<in> set es"
  by (auto simp: default_effort_def dest: find_Some_mem split: option.splits)

text \<open>A prompt steers the router only to what its tier's grid launches by itself: every route
  a request is granted is the grid's route for some kind, difficulty and UI case of that tier.\<close>

lemma directive_stays_in_grid:
  assumes "parse_directive captures prompt tier = Some (RouteDirective r)"
  shows "\<exists>kind d ui. route tier kind d ui = r"
proof -
  from assms obtain word asked model where "find_request captures prompt = Some (word, asked)"
    and model: "directive_model word = Some model"
    by (auto simp: parse_directive_def split: option.splits prod.splits)
  with assms have ne: "reachable tier model \<noteq> []"
    and "\<exists>e \<in> set (reachable tier model). r = \<lparr>routed_to = model, routed_effort = Some e\<rparr>"
    by (auto simp: parse_directive_def Let_def default_effort_mem split: if_splits option.splits)
  then show ?thesis using reachable_mem by fastforce
qed

text \<open>The captures of the pattern on one line, as the regular expression yields them.\<close>

definition captures_on :: "string \<Rightarrow> request \<Rightarrow> string \<Rightarrow> request option" where
  "captures_on line r s = (if s = line then Some r else None)"

lemma directive_stays_in_grid_witness:
  "\<exists>kind d ui. route Intelligence kind d ui = \<lparr>routed_to = ASTRA, routed_effort = Some High\<rparr>"
proof (rule directive_stays_in_grid)
  show "parse_directive (captures_on ''use astra''
      \<lparr>request_end = 9, model_word = ''astra'', effort_word = None\<rparr>) ''use astra'' Intelligence
    = Some (RouteDirective \<lparr>routed_to = ASTRA, routed_effort = Some High\<rparr>)"
    by code_simp
qed

text \<open>
  The pattern is case-insensitive over Unicode, so its s also matches the long s (U+017F),
  which \<^verbatim>\<open>to_lowercase\<close> keeps: on \<^verbatim>\<open>use <U+017F>ol\<close> the match of the model word reaches its
  \<^verbatim>\<open>unreachable!\<close> arm.
\<close>

lemma long_s_request_panics:
  "parse_directive (captures_on (''use '' @ [CHR 0xC5, CHR 0xBF] @ ''ol'')
      \<lparr>request_end = 8, model_word = [CHR 0xC5, CHR 0xBF] @ ''ol'', effort_word = None\<rparr>)
    (''use '' @ [CHR 0xC5, CHR 0xBF] @ ''ol'') tier = None"
  by code_simp

lemma order_complete: "available \<noteq> [] \<Longrightarrow> \<exists>p. find (\<lambda>p. p \<in> set available) AVAILABLE_PROVIDER_ORDER = Some p"
proof (rule ccontr)
  assume ne: "available \<noteq> []" and "\<nexists>p. find (\<lambda>p. p \<in> set available) AVAILABLE_PROVIDER_ORDER = Some p"
  then have none: "find (\<lambda>p. p \<in> set available) AVAILABLE_PROVIDER_ORDER = None" by simp
  have "hd available \<in> set AVAILABLE_PROVIDER_ORDER"
    by (cases "hd available") (simp_all add: AVAILABLE_PROVIDER_ORDER_def)
  with none ne show False by (auto simp: find_None_all)
qed

lemma substitute_provider: "substitute r p = Some t \<Longrightarrow> provider (routed_to t) = p"
  by (auto simp: substitute_def Let_def follow_up_sound split: if_splits option.splits)

text \<open>C6: as soon as discovery knows an installed provider, the launch goes to an installed one,
  keeping the grid's tier, kind and difficulty; a route whose provider is installed, or an
  empty discovery, is left exactly as it was.\<close>

theorem launch_on_installed_provider:
  "(if available = [] \<or> rd_provider r \<in> set available then with_available_provider r available = r
    else rd_provider (with_available_provider r available) \<in> set available) \<and>
   rd_tier (with_available_provider r available) = rd_tier r \<and>
   rd_kind (with_available_provider r available) = rd_kind r \<and>
   rd_difficulty (with_available_provider r available) = rd_difficulty r"
proof (cases "available = [] \<or> rd_provider r \<in> set available")
  case True
  then show ?thesis by (simp add: with_available_provider_def)
next
  case False
  then obtain p where p: "find (\<lambda>p. p \<in> set available) AVAILABLE_PROVIDER_ORDER = Some p"
    using order_complete by blast
  then have mem: "p \<in> set available" using find_Some_mem by fastforce
  show ?thesis
  proof (cases "substitute r p")
    case None
    then show ?thesis using False p mem by (simp add: with_available_provider_def Let_def)
  next
    case (Some t)
    then have "provider (routed_to t) = p" by (rule substitute_provider)
    moreover have "p \<noteq> rd_provider r" using mem False by auto
    ultimately show ?thesis using False p mem Some by (simp add: with_available_provider_def Let_def)
  qed
qed

end
