(* ===== verification/Pricing.thy ===== *)
theory Pricing
  imports Rust_Text
begin

text \<open>
  \<^verbatim>\<open>src-tauri/src/providers/pricing.rs\<close>: the list prices, in dollars per million tokens, and
  what a turn costs by them. The two \<^verbatim>\<open>phf\<close> maps are association lists with distinct keys;
  the log of unknown model ids, which no result depends on, is left out. Token counts are
  naturals (\<^verbatim>\<open>u64\<close>) or, in usage records, integers (\<^verbatim>\<open>i64\<close>), dollars reals.
\<close>

section \<open>Prices\<close>

record model_pricing =
  price_input :: real
  price_output :: real
  price_cache_read :: real
  price_cache_write :: real

abbreviation pricing :: "real \<Rightarrow> real \<Rightarrow> real \<Rightarrow> real \<Rightarrow> model_pricing" where
  "pricing i out r w \<equiv>
     \<lparr>price_input = i, price_output = out, price_cache_read = r, price_cache_write = w\<rparr>"

record usage_counts =
  use_input :: nat
  use_output :: nat
  use_cache_read :: nat
  use_cache_write :: nat

record usage_record_tokens =
  input_uncached :: int
  rec_cache_read :: int
  cache_write_5m :: int
  cache_write_1h :: int
  rec_output :: int
  reasoning :: int

definition MODEL_PRICING :: "(string \<times> model_pricing) list" where
  "MODEL_PRICING =
  [(''claude-fable-5-1'', pricing (10) (50) (25 / 100) (125 / 10)),
   (''claude-opus-5-5'', pricing (4) (20) (2 / 10) (5)),
   (''claude-opus-5'', pricing (5) (25) (5 / 10) (625 / 100)),
   (''claude-sonnet-5-5'', pricing (2) (10) (2 / 10) (25 / 10)),
   (''claude-haiku-5-5'', pricing (1 / 10) (5 / 10) (1 / 100) (125 / 1000)),
   (''claude-haiku-4-5'', pricing (1) (5) (1 / 10) (125 / 100)),
   (''gpt-6-astra'', pricing (10) (50) (1) (125 / 10)),
   (''gpt-6.1-sol'', pricing (2) (10) (2 / 10) (25 / 10)),
   (''gpt-6-sol'', pricing (2) (10) (2 / 10) (25 / 10)),
   (''gpt-6-luna'', pricing (1 / 10) (5 / 10) (1 / 100) (125 / 1000)),
   (''gpt-5.6-sol'', pricing (4) (20) (4 / 10) (5)),
   (''gpt-5.6-terra'', pricing (2) (12) (2 / 10) (25 / 10)),
   (''gpt-5.6-luna'', pricing (2 / 10) (12 / 10) (2 / 100) (25 / 100)),
   (''auto-smart[optimize_for=cost]'', pricing (0) (0) (0) (0)),
   (''auto-smart[optimize_for=balanced]'', pricing (0) (0) (0) (0)),
   (''auto-smart[optimize_for=intelligence]'', pricing (0) (0) (0) (0)),
   (''composer-2.5'', pricing (0) (0) (0) (0)),
   (''grok-4.7-medium'', pricing (0) (0) (0) (0)),
   (''cursor-grok-4.6-medium'', pricing (0) (0) (0) (0)),
   (''gemini-3.8-flash-medium'', pricing (0) (0) (0) (0)),
   (''gpt-5.6-luna-medium'', pricing (0) (0) (0) (0)),
   (''gpt-5.6-terra-medium'', pricing (0) (0) (0) (0)),
   (''gpt-5.6-sol-medium'', pricing (0) (0) (0) (0)),
   (''claude-opus-5-5-medium'', pricing (0) (0) (0) (0)),
   (''claude-sonnet-5-5-medium'', pricing (0) (0) (0) (0)),
   (''claude-opus-5-thinking-medium'', pricing (0) (0) (0) (0)),
   (''openrouter/z-ai/glm-5.3-flash'', pricing (15 / 100) (5 / 10) (3 / 100) (15 / 100)),
   (''openrouter/z-ai/glm-5.3'', pricing (14 / 10) (44 / 10) (26 / 100) (14 / 10)),
   (''openrouter/deepseek/deepseek-v4.1-flash-1017'', pricing (15 / 100) (6 / 10) (3 / 1000) (15 / 100)),
   (''openrouter/deepseek/deepseek-v4-pro-0813'', pricing (66 / 100) (198 / 100) (22 / 1000) (66 / 100)),
   (''openrouter/moonshotai/kimi-k3'', pricing (3) (15) (3 / 10) (3)),
   (''openrouter/qwen/qwen3.8-max-0902'', pricing (2) (6) (25 / 100) (25 / 10)),
   (''openrouter/qwen/qwen3.8-flash'', pricing (15 / 100) (47 / 100) (16 / 1000) (2 / 10)),
   (''openrouter/meta/muse-spark-1.3-contributor'', pricing (1 / 10) (2 / 10) (2 / 1000) (1 / 10)),
   (''openrouter/meta/muse-wonder'', pricing (4) (20) (2 / 10) (4)),
   (''grok-4.7'', pricing (68 / 100) (204 / 100) (17 / 100) (0)),
   (''grok-4.6'', pricing (68 / 100) (204 / 100) (17 / 100) (0)),
   (''grok-4.5'', pricing (68 / 100) (204 / 100) (102 / 1000) (0)),
   (''grok-4.7-build'', pricing (68 / 100) (204 / 100) (17 / 100) (0)),
   (''grok-4.7-build-fast'', pricing (136 / 100) (408 / 100) (34 / 100) (0)),
   (''grok-4.6-build'', pricing (68 / 100) (204 / 100) (17 / 100) (0)),
   (''grok-4.5-build'', pricing (68 / 100) (204 / 100) (102 / 1000) (0))]"

definition STORED_MODEL_PRICING_ALIASES :: "(string \<times> model_pricing) list" where
  "STORED_MODEL_PRICING_ALIASES =
  [(''openrouter/deepseek/deepseek-v4.1-flash'', pricing (15 / 100) (6 / 10) (3 / 1000) (15 / 100)),
   (''claude-fable-5'', pricing (10) (50) (1) (125 / 10)),
   (''claude-sonnet-5'', pricing (2) (10) (2 / 10) (25 / 10)),
   (''claude-opus-4-8'', pricing (5) (25) (5 / 10) (625 / 100)),
   (''claude-opus-4-7'', pricing (5) (25) (5 / 10) (625 / 100)),
   (''claude-opus-4-6'', pricing (5) (25) (5 / 10) (625 / 100)),
   (''claude-opus-4-5'', pricing (5) (25) (5 / 10) (625 / 100)),
   (''claude-opus-4-1'', pricing (15) (75) (15 / 10) (1875 / 100)),
   (''claude-opus-4'', pricing (15) (75) (15 / 10) (1875 / 100)),
   (''claude-sonnet-4-6'', pricing (3) (15) (3 / 10) (375 / 100)),
   (''claude-sonnet-4-5'', pricing (3) (15) (3 / 10) (375 / 100)),
   (''claude-sonnet-4'', pricing (3) (15) (3 / 10) (375 / 100)),
   (''claude-3-7-sonnet'', pricing (3) (15) (3 / 10) (375 / 100)),
   (''claude-3-5-haiku'', pricing (8 / 10) (4) (8 / 100) (1)),
   (''claude-3-opus'', pricing (15) (75) (15 / 10) (1875 / 100)),
   (''claude-3-haiku'', pricing (25 / 100) (125 / 100) (3 / 100) (3 / 10)),
   (''gpt-5'', pricing (125 / 100) (10) (125 / 1000) (0)),
   (''gpt-5-codex'', pricing (125 / 100) (10) (125 / 1000) (0)),
   (''gpt-5-codex-mini'', pricing (25 / 100) (2) (25 / 1000) (0)),
   (''gpt-5.1'', pricing (175 / 100) (14) (175 / 1000) (0)),
   (''gpt-5.1-codex-max'', pricing (175 / 100) (14) (175 / 1000) (0)),
   (''gpt-5.1-codex-mini'', pricing (25 / 100) (2) (25 / 1000) (0)),
   (''gpt-5.2'', pricing (175 / 100) (14) (175 / 1000) (0)),
   (''gpt-5.2-codex'', pricing (175 / 100) (14) (175 / 1000) (0)),
   (''gpt-5.3'', pricing (175 / 100) (14) (175 / 1000) (0)),
   (''gpt-5.3-codex'', pricing (175 / 100) (14) (175 / 1000) (0)),
   (''gpt-5.3-chat-latest'', pricing (175 / 100) (14) (175 / 1000) (0)),
   (''gpt-5.4'', pricing (25 / 10) (15) (25 / 100) (0)),
   (''gpt-5.4-codex'', pricing (25 / 10) (15) (25 / 100) (0)),
   (''gpt-5.4-mini'', pricing (75 / 100) (45 / 10) (75 / 1000) (0)),
   (''gpt-5.4-nano'', pricing (2 / 10) (125 / 100) (2 / 100) (0)),
   (''gpt-5.4-pro'', pricing (30) (180) (0) (0)),
   (''gpt-5.5'', pricing (5) (30) (5 / 10) (0)),
   (''gpt-5.5-pro'', pricing (30) (180) (0) (0)),
   (''o4-mini'', pricing (11 / 10) (44 / 10) (275 / 1000) (0)),
   (''claude-opus-4-8-medium'', pricing (0) (0) (0) (0)),
   (''claude-opus-4-7-medium'', pricing (0) (0) (0) (0)),
   (''gpt-5.5-medium'', pricing (0) (0) (0) (0)),
   (''gemini-3.5-flash'', pricing (0) (0) (0) (0)),
   (''gemini-3.6-flash-medium'', pricing (0) (0) (0) (0)),
   (''gemini-3.7-flash-medium'', pricing (0) (0) (0) (0)),
   (''cursor-grok-4.5-medium'', pricing (0) (0) (0) (0))]"

section \<open>Lookups and costs\<close>

text \<open>A trailing \<^verbatim>\<open>-YYYYMMDD\<close> is dropped; \<open>drop (n - 9)\<close> is the suffix of nine bytes.\<close>

definition normalize_model_id :: "string \<Rightarrow> string" where
  "normalize_model_id m =
     (let n = length m
      in if n > 9 \<and> m ! (n - 9) = CHR ''-'' \<and> list_all ascii_digit (drop (n - 8) m)
         then take (n - 9) m else m)"

definition list_price :: "string \<Rightarrow> model_pricing option" where
  "list_price m =
     (let key = normalize_model_id m
      in case map_of MODEL_PRICING key of
           Some p \<Rightarrow> Some p
         | None \<Rightarrow> map_of STORED_MODEL_PRICING_ALIASES key)"

definition cost_of :: "usage_counts \<Rightarrow> string \<Rightarrow> real" where
  "cost_of usage m =
     (let key = normalize_model_id m
      in case (case map_of MODEL_PRICING key of
                 Some p \<Rightarrow> Some p
               | None \<Rightarrow> map_of STORED_MODEL_PRICING_ALIASES key) of
           None \<Rightarrow> 0
         | Some p \<Rightarrow>
             real (use_input usage) * price_input p / 1000000
             + real (use_output usage) * price_output p / 1000000
             + real (use_cache_read usage) * price_cache_read p / 1000000
             + real (use_cache_write usage) * price_cache_write p / 1000000)"

definition opencode_cost_is_billed :: "string \<Rightarrow> bool" where
  "opencode_cost_is_billed m = (\<not> starts_with m ''openrouter/'')"

definition cache_write_1h_rate :: "model_pricing \<Rightarrow> real" where
  "cache_write_1h_rate p = price_input p * 2"

definition price_record :: "usage_record_tokens \<Rightarrow> string \<Rightarrow> real option" where
  "price_record t m =
     (case list_price m of
        None \<Rightarrow> None
      | Some p \<Rightarrow> Some
          ((of_int (input_uncached t) * price_input p
            + of_int (rec_cache_read t) * price_cache_read p
            + of_int (cache_write_5m t) * price_cache_write p
            + of_int (cache_write_1h t) * cache_write_1h_rate p
            + of_int (rec_output t) * price_output p) / 1000000))"

definition cache_savings :: "usage_record_tokens \<Rightarrow> model_pricing \<Rightarrow> real" where
  "cache_savings t p = max (of_int (rec_cache_read t) * (price_input p - price_cache_read p) / 1000000) 0"

section \<open>The tables\<close>

text \<open>No price is negative; the keys of the tables are the keys \<open>normalize_model_id\<close> leaves alone.\<close>

definition priced_sensibly :: "model_pricing \<Rightarrow> bool" where
  "priced_sensibly p \<longleftrightarrow> 0 \<le> price_input p \<and> 0 \<le> price_output p \<and> 0 \<le> price_cache_read p \<and>
     0 \<le> price_cache_write p \<and> price_cache_read p \<le> price_input p \<and> price_input p \<le> price_output p"

lemma tables_sensible:
  "list_all (\<lambda>(k, p). priced_sensibly p) MODEL_PRICING"
  "list_all (\<lambda>(k, p). priced_sensibly p) STORED_MODEL_PRICING_ALIASES"
  by (simp_all add: MODEL_PRICING_def STORED_MODEL_PRICING_ALIASES_def priced_sensibly_def)

lemma list_price_sensible: "list_price m = Some p \<Longrightarrow> priced_sensibly p"
  using tables_sensible
  by (auto simp: list_price_def Let_def list_all_iff dest!: map_of_SomeD split: option.splits)

lemma cost_of_list_price:
  "cost_of u m = (case list_price m of None \<Rightarrow> 0 | Some p \<Rightarrow>
     (real (use_input u) * price_input p + real (use_output u) * price_output p
      + real (use_cache_read u) * price_cache_read p + real (use_cache_write u) * price_cache_write p) / 1000000)"
  by (simp add: cost_of_def list_price_def Let_def add_divide_distrib split: option.splits)

lemma cost_of_nonneg: "0 \<le> cost_of u m"
proof (cases "list_price m")
  case None
  then show ?thesis by (simp add: cost_of_list_price)
next
  case (Some p)
  then show ?thesis using list_price_sensible [OF Some]
    by (simp add: cost_of_list_price priced_sensibly_def)
qed

lemma normalize_idem: "length m \<le> 9 \<Longrightarrow> normalize_model_id m = m"
  by (simp add: normalize_model_id_def)

section \<open>Properties\<close>

text \<open>A date as the providers append it.\<close>

definition dated :: "string \<Rightarrow> string \<Rightarrow> string" where
  "dated m date = m @ ''-'' @ date"

lemma normalize_dated:
  assumes "m \<noteq> []" and "length date = 8" and "list_all ascii_digit date"
  shows "normalize_model_id (dated m date) = m"
proof -
  have n: "length (dated m date) = length m + 9" using assms(2) by (simp add: dated_def)
  have "dated m date ! length m = CHR ''-''" by (simp add: dated_def nth_append)
  moreover have "drop (Suc (length m)) (dated m date) = date" by (simp add: dated_def)
  moreover have "take (length m) (dated m date) = m" by (simp add: dated_def)
  ultimately show ?thesis using assms n by (simp add: normalize_model_id_def Let_def)
qed

text \<open>A dated snapshot of a model (its id, a dash, eight digits) costs what the model costs,
  for a turn and for a usage record, whenever the model's own id carries no date.\<close>

lemma dated_model_costs_the_same:
  assumes "m \<noteq> []" and "length date = 8" and "list_all ascii_digit date"
    and "normalize_model_id m = m"
  shows "list_price (dated m date) = list_price m \<and> cost_of u (dated m date) = cost_of u m \<and>
    price_record t (dated m date) = price_record t m"
  using assms normalize_dated [OF assms(1-3)]
  by (simp add: list_price_def cost_of_list_price price_record_def)

lemma dated_model_costs_the_same_witness:
  "list_price ''claude-haiku-4-5-20251001'' = Some (pricing 1 5 (1 / 10) (5 / 4))"
proof -
  have "list_price (dated ''claude-haiku-4-5'' ''20251001'') = list_price ''claude-haiku-4-5''"
    using dated_model_costs_the_same [of "''claude-haiku-4-5''" "''20251001''"]
    by (simp add: ascii_digit_def normalize_model_id_def)
  also have "\<dots> = Some (pricing 1 5 (1 / 10) (5 / 4))"
    by (simp add: list_price_def normalize_model_id_def ascii_digit_def MODEL_PRICING_def)
  finally show ?thesis by (simp add: dated_def)
qed

lemma cache_savings_exact:
  assumes "list_price m = Some p" and "0 \<le> rec_cache_read t"
  shows "cache_savings t p =
    (of_int (rec_cache_read t) * price_input p - of_int (rec_cache_read t) * price_cache_read p) / 1000000"
proof -
  have "0 \<le> real_of_int (rec_cache_read t) * (price_input p - price_cache_read p)"
    using assms list_price_sensible [OF assms(1)] by (simp add: priced_sensibly_def)
  then show ?thesis by (simp add: cache_savings_def algebra_simps)
qed

text \<open>The cost of a turn is never negative and never falls when any of its four token counts
  grows, whatever the model, known or not.\<close>

lemma cost_monotone:
  assumes "use_input u \<le> use_input v" and "use_output u \<le> use_output v"
    and "use_cache_read u \<le> use_cache_read v" and "use_cache_write u \<le> use_cache_write v"
  shows "0 \<le> cost_of u m \<and> cost_of u m \<le> cost_of v m"
proof (intro conjI)
  show "0 \<le> cost_of u m" by (rule cost_of_nonneg)
  show "cost_of u m \<le> cost_of v m"
  proof (cases "list_price m")
    case None
    then show ?thesis by (simp add: cost_of_list_price)
  next
    case (Some q)
    then show ?thesis using assms list_price_sensible [OF Some]
      by (auto simp: cost_of_list_price priced_sensibly_def intro!: divide_right_mono add_mono mult_right_mono)
  qed
qed

lemma cost_monotone_witness:
  "cost_of \<lparr>use_input = 1, use_output = 0, use_cache_read = 0, use_cache_write = 0\<rparr> ''gpt-5.5''
   \<le> cost_of \<lparr>use_input = 2, use_output = 0, use_cache_read = 0, use_cache_write = 0\<rparr> ''gpt-5.5''"
  using cost_monotone [of "\<lparr>use_input = 1, use_output = 0, use_cache_read = 0, use_cache_write = 0\<rparr>"
      "\<lparr>use_input = 2, use_output = 0, use_cache_read = 0, use_cache_write = 0\<rparr>" "''gpt-5.5''"]
  by simp

end
