(* ===== verification/Routing_Reroute.thy ===== *)
theory Routing_Reroute
  imports Routing_Decide Pricing "HOL-Library.Option_ord"
begin

text \<open>
  \<^verbatim>\<open>src-tauri/src/routing/reroute.rs\<close>: what a follow-up turn of an Auto chat runs on. A
  reported-wrong answer climbs the provider's ladder; otherwise the target of the whole next
  task is compared with the current route, and the chat moves up, moves down or is kept. Every
  \<^verbatim>\<open>expect\<close> is a \<open>None\<close> result, so \<open>follow_up_route\<close> returning \<open>Some\<close> says that none fires.
\<close>

section \<open>Ladders\<close>

fun ladder :: "provider_id \<Rightarrow> (route_model \<times> reasoning_effort option) list" where
  "ladder Claude = [(OPUS, Some Medium), (OPUS, Some High), (FABLE, Some High), (FABLE, Some Xhigh)]"
| "ladder Codex = [(SOL, Some Medium), (SOL, Some High), (ASTRA, Some High), (ASTRA, Some Xhigh)]"
| "ladder Grok = [(GROK, Some Low), (GROK, Some Medium), (GROK, Some High), (OPUS, Some High)]"
| "ladder Opencode = [(DEEPSEEK, Some High), (SONNET, Some High)]"
| "ladder Cursor = [(COMPOSER, None), (CURSOR_OPUS, Some Medium), (CURSOR_OPUS, Some High)]"

definition rungs_for :: "auto_tier \<Rightarrow> provider_id \<Rightarrow> (route_model \<times> reasoning_effort option) list" where
  "rungs_for tier p =
     (if tier = Economy \<and> p = Codex
      then [(LUNA, Some Medium), (SOL, Some Medium), (SOL, Some High), (OPUS, Some High)]
      else ladder p)"

definition strength :: "string \<Rightarrow> reasoning_effort option \<Rightarrow> (nat \<times> nat) option" where
  "strength m e =
     (case capability m of
        None \<Rightarrow> None
      | Some c \<Rightarrow> Some (c, case e of None \<Rightarrow> 0 | Some x \<Rightarrow> rank x))"

text \<open>\<^verbatim>\<open>Iterator::position\<close> with a test, and \<^verbatim>\<open>slice::get\<close>.\<close>

fun find_index :: "('a \<Rightarrow> bool) \<Rightarrow> 'a list \<Rightarrow> nat option" where
  "find_index P [] = None"
| "find_index P (x # xs) = (if P x then Some 0 else map_option Suc (find_index P xs))"

definition slice_get :: "'a list \<Rightarrow> nat \<Rightarrow> 'a option" where
  "slice_get xs i = (if i < length xs then Some (xs ! i) else None)"

definition next_rung ::
  "auto_tier \<Rightarrow> provider_id \<Rightarrow> string \<Rightarrow> reasoning_effort option \<Rightarrow> provider_id list \<Rightarrow> routed_model option"
where
  "next_rung tier p stored effort available =
     (let m = (case route_model stored of None \<Rightarrow> stored | Some x \<Rightarrow> model_id x);
          rungs = rungs_for tier p;
          next = (case find_index (\<lambda>(x, e). model_id x = m \<and> e = effort) rungs of
                    Some i \<Rightarrow> slice_get rungs (i + 1)
                  | None \<Rightarrow>
                      (case strength m effort of
                         None \<Rightarrow> None
                       | Some current \<Rightarrow>
                           find (\<lambda>(x, e). case strength (model_id x) e of None \<Rightarrow> False | Some r \<Rightarrow> r > current)
                             rungs))
      in case next of
           None \<Rightarrow> None
         | Some (x, e) \<Rightarrow>
             if provider x = p \<or> available = [] \<or> provider x \<in> set available
             then Some \<lparr>routed_to = x, routed_effort = e\<rparr> else None)"

definition escalate ::
  "auto_tier \<Rightarrow> provider_id \<Rightarrow> string \<Rightarrow> reasoning_effort option \<Rightarrow> provider_id list \<Rightarrow> string \<Rightarrow>
   route_decision option"
where
  "escalate tier p m effort available reason =
     map_option (\<lambda>rung. decision_from tier rung None None Escalate reason) (next_rung tier p m effort available)"

section \<open>The state of a follow-up\<close>

record follow_up_state =
  fs_tier :: auto_tier
  fs_provider :: provider_id
  fs_model_id :: string
  fs_effort :: "reasoning_effort option"
  available :: "provider_id list"
  context_tokens :: nat
  last_turn :: usage_counts
  downgrade_safe :: bool
  resume_target :: "routed_model option"
  idle :: "nat option"  \<comment> \<open>nanoseconds\<close>

definition CACHE_TTL :: nat where
  "CACHE_TTL = 60 * 60 * 1000000000"

definition percent :: "real \<Rightarrow> string" where
  "percent p = f64_whole (p * 100) @ ''%''"

definition kept ::
  "follow_up_state \<Rightarrow> classification \<Rightarrow> (task_kind \<times> difficulty) option \<Rightarrow> string \<Rightarrow> route_decision"
where
  "kept s c settled reason =
     \<lparr>rd_tier = fs_tier s,
      rd_provider = fs_provider s,
      rd_model_id = fs_model_id s,
      rd_model_label = (case route_model (fs_model_id s) of None \<Rightarrow> fs_model_id s | Some x \<Rightarrow> label x),
      rd_effort = fs_effort s,
      rd_kind = map_option fst settled,
      rd_difficulty = map_option snd settled,
      rd_kind_confidence = Some (kind_confidence c),
      rd_difficulty_confidence = Some (difficulty_confidence c),
      rd_decision = Kept,
      rd_reason = reason,
      rd_signals = Some (signals_json c)\<rparr>"

definition reroute ::
  "follow_up_state \<Rightarrow> routed_model \<Rightarrow> classification \<Rightarrow> (task_kind \<times> difficulty) option \<Rightarrow> string \<Rightarrow>
   route_decision"
where
  "reroute s target c settled reason = decision_from (fs_tier s) target (Some c) settled Reroute reason"

section \<open>Does a switch pay back\<close>

definition rebuild_rate :: "provider_id \<Rightarrow> model_pricing \<Rightarrow> real" where
  "rebuild_rate p price =
     (let w = (if p = Claude then max (price_cache_write price) (2 * price_input price)
               else max (price_cache_write price) (price_input price))
      in max (w - price_cache_read price) 0)"

definition switch_pays_back :: "follow_up_state \<Rightarrow> routed_model \<Rightarrow> classification \<Rightarrow> bool" where
  "switch_pays_back s candidate c =
     (if fs_provider s = Cursor \<or> context_tokens s = 0 then False
      else case (list_price (fs_model_id s), list_price (model_id (routed_to candidate))) of
             (Some old, Some new) \<Rightarrow>
               (if price_input old \<le> 0 \<or> price_input new \<le> 0 then False
                else
                  let context = real (context_tokens s) / 1000000;
                      warm = (case idle s of Some t \<Rightarrow> if t \<ge> CACHE_TTL then 1 / 4 else 1 | None \<Rightarrow> 1);
                      penalty = context * rebuild_rate (fs_provider s) new
                                - (1 - warm) * context * rebuild_rate (fs_provider s) old;
                      (input_cap, output_cap) =
                        (if cl_scope c = Some FinishingStep then (256, 256)
                         else if cl_difficulty c = Light then (1000, 500) else (4000, 2000));
                      forecast = \<lparr>use_input = min (use_input (last_turn s)) input_cap,
                                  use_output = min (use_output (last_turn s)) output_cap,
                                  use_cache_read = min (use_cache_read (last_turn s)) (context_tokens s),
                                  use_cache_write = 0\<rparr>;
                      saving = 2 * (cost_of forecast (fs_model_id s)
                                    - cost_of forecast (model_id (routed_to candidate)))
                  in saving > 0 \<and> penalty \<le> saving)
           | _ \<Rightarrow> False)"

section \<open>The decision for one follow-up\<close>

definition effort_up :: real where "effort_up = 6 / 10"
definition model_up :: real where "model_up = 7 / 10"
definition effort_down :: real where "effort_down = 75 / 100"
definition model_down :: real where "model_down = 8 / 10"
definition resume_confident :: real where "resume_confident = 9 / 10"
definition correction_threshold :: real where "correction_threshold = 85 / 100"

lemmas thresholds = effort_up_def model_up_def effort_down_def model_down_def resume_confident_def
  correction_threshold_def

text \<open>The first return: a reported-wrong answer.\<close>

definition escalation ::
  "follow_up_state \<Rightarrow> classification \<Rightarrow> (task_kind \<times> difficulty) option \<Rightarrow> string \<Rightarrow> route_decision"
where
  "escalation s c settled summary =
     (case next_rung (fs_tier s) (fs_provider s) (fs_model_id s) (fs_effort s) (available s) of
        Some rung \<Rightarrow> decision_from (fs_tier s) rung (Some c) settled Escalate
          (summary @ '' (escalated: the last answer was reported wrong)'')
      | None \<Rightarrow> kept s c settled
          (summary @ '' (the last answer was reported wrong, but this is the top of the ''
           @ provider_str (fs_provider s) @ '' ladder)''))"

text \<open>The guard of the second return: a continuation of a DeepSeek chat.\<close>

definition deepseek_continues :: "follow_up_state \<Rightarrow> classification \<Rightarrow> bool" where
  "deepseek_continues s c \<longleftrightarrow>
     fs_provider s = Opencode \<and> route_model (fs_model_id s) = Some DEEPSEEK \<and>
     cl_scope c \<noteq> Some NewTask \<and> or_zero (scope_confidence c) \<ge> effort_up \<and>
     (available s = [] \<or> provider SONNET \<in> set (available s))"

text \<open>The resume target after its filter, and the candidate after it and after restoring a retained model.\<close>

definition resume_candidate :: "follow_up_state \<Rightarrow> classification \<Rightarrow> routed_model option" where
  "resume_candidate s c =
     (case resume_target s of
        None \<Rightarrow> None
      | Some t \<Rightarrow>
          if provider (routed_to t) = fs_provider s \<and> cl_scope c = Some Continuation
             \<and> or_zero (scope_confidence c) \<ge> resume_confident
             \<and> or_zero (resume_confidence c) \<ge> resume_confident
          then Some t else None)"

definition routed_strength :: "routed_model \<Rightarrow> (nat \<times> nat) option" where
  "routed_strength r = strength (model_id (routed_to r)) (routed_effort r)"

definition resumed :: "routed_model option \<Rightarrow> routed_model \<Rightarrow> routed_model" where
  "resumed target candidate =
     (case target of
        None \<Rightarrow> candidate
      | Some t \<Rightarrow> if routed_strength t > routed_strength candidate then t else candidate)"

definition restored :: "follow_up_state \<Rightarrow> routed_model \<Rightarrow> routed_model" where
  "restored s candidate =
     (case route_model (fs_model_id s) of
        None \<Rightarrow> candidate
      | Some current \<Rightarrow>
          if capability (fs_model_id s) > capability (model_id (routed_to candidate))
             \<and> (case (routed_effort candidate, fs_effort s) of
                  (Some next, Some now) \<Rightarrow> rank next > rank now | _ \<Rightarrow> False)
          then \<lparr>routed_to = current, routed_effort = opt_bind (routed_effort candidate) (\<lambda>e. clamp_effort e current)\<rparr>
          else candidate)"

text \<open>The branch \<^verbatim>\<open>candidate_strength > current_strength\<close>.\<close>

definition move_up ::
  "follow_up_state \<Rightarrow> classification \<Rightarrow> (task_kind \<times> difficulty) option \<Rightarrow> difficulty \<Rightarrow> string \<Rightarrow>
   routed_model option \<Rightarrow> routed_model \<Rightarrow> route_decision"
where
  "move_up s c settled d reason target candidate =
     (if target = Some candidate
      then reroute s candidate c settled (reason @ ''. Restoring the route for the earlier task being resumed'')
      else
        let needed = (if model_id (routed_to candidate) = fs_model_id s then effort_up else model_up);
            evidence = probability_at_least_bucket c d
        in if evidence \<ge> needed
           then reroute s candidate c settled
                  (reason @ ''. Likely needs more ('' @ percent evidence @ ''), moving up'')
           else kept s c settled
                  (reason @ ''. Not sure it needs more ('' @ percent evidence @ '' < '' @ percent needed
                   @ ''), staying''))"

text \<open>The last part: a model switch that pays back, or one effort level down, or neither.\<close>

definition one_step_down ::
  "reasoning_effort option \<Rightarrow> reasoning_effort option \<Rightarrow> route_model \<Rightarrow> reasoning_effort option"
where
  "one_step_down now least model =
     (case (now, least) of
        (Some current, Some bottom) \<Rightarrow>
          max_by_key rank (filter (\<lambda>e. rank e < rank current \<and> rank e \<ge> rank bottom) (efforts model))
      | _ \<Rightarrow> None)"

definition move_down ::
  "follow_up_state \<Rightarrow> classification \<Rightarrow> (task_kind \<times> difficulty) option \<Rightarrow> difficulty \<Rightarrow> string \<Rightarrow>
   routed_model \<Rightarrow> route_decision option"
where
  "move_down s c settled d reason candidate =
     (let same = (model_id (routed_to candidate) = fs_model_id s);
          evidence = min (min (kind_confidence c) (probability_at_most_bucket c d)) (or_zero (simpler_task c))
      in if \<not> same \<and> evidence \<ge> model_down \<and> switch_pays_back s candidate c
         then Some (reroute s candidate c settled
                (reason @ ''. Simpler next task, and the savings cover the cache rebuild''))
         else
           (case route_model (fs_model_id s) of
              None \<Rightarrow> None
            | Some current \<Rightarrow>
                (let bottom = clamp_effort (case routed_effort candidate of None \<Rightarrow> Low | Some e \<Rightarrow> e) current
                 in case one_step_down (fs_effort s) bottom current of
                      None \<Rightarrow>
                        (let why = (if same then ''No supported effort reduction''
                                    else if fs_provider s = Cursor
                                      then ''Cursor usage is unpriced, retaining model''
                                    else if evidence < model_down
                                      then ''Not sure the next task is simpler enough to switch model (''
                                           @ percent evidence @ '' < '' @ percent model_down @ '')''
                                    else label (routed_to candidate)
                                         @ '' would not repay the cache it rebuilds, retaining model'')
                         in Some (kept s c settled (reason @ ''. '' @ why)))
                    | Some lower \<Rightarrow>
                        if evidence < effort_down
                        then Some (kept s c settled
                               (reason @ ''. Not sure the next task is simpler ('' @ percent evidence
                                @ '' < '' @ percent effort_down @ ''), retaining capability''))
                        else Some (reroute s \<lparr>routed_to = current, routed_effort = Some lower\<rparr> c settled
                               (reason @ ''. Simpler next task, one effort level down on the same model'')))))"

text \<open>What follows once a candidate is known.\<close>

definition compare_routes ::
  "follow_up_state \<Rightarrow> classification \<Rightarrow> (task_kind \<times> difficulty) option \<Rightarrow> difficulty \<Rightarrow> string \<Rightarrow>
   routed_model option \<Rightarrow> routed_model \<Rightarrow> route_decision option"
where
  "compare_routes s c settled d reason target candidate =
     (if model_id (routed_to candidate) = fs_model_id s \<and> routed_effort candidate = fs_effort s
      then Some (kept s c settled reason)
      else
     (case strength (fs_model_id s) (fs_effort s) of
        None \<Rightarrow> Some (kept s c settled
          (reason @ ''. Current model has no follow-up capability policy, staying''))
      | Some now \<Rightarrow>
     (case routed_strength candidate of
        None \<Rightarrow> None
      | Some next \<Rightarrow>
          if next > now then Some (move_up s c settled d reason target candidate)
          else if \<not> downgrade_safe s then Some (kept s c settled
            (reason @ ''. Relevant context is missing or truncated, retaining capability''))
          else move_down s c settled d reason candidate)))"

definition follow_up_route :: "follow_up_state \<Rightarrow> classification \<Rightarrow> route_decision option" where
  "follow_up_route s c =
     (let (kind, d, notes) = settle c;
          settled = Some (kind, d);
          summary = kind_label kind @ middot @ difficulty_label d;
          summary = (if is_ui c then summary @ middot @ ''UI'' else summary)
      in if or_zero (correction c) \<ge> correction_threshold then Some (escalation s c settled summary)
         else if deepseek_continues s c then
           Some (decision_from (fs_tier s) \<lparr>routed_to = SONNET, routed_effort = Some Medium\<rparr> (Some c) settled
             Reroute (summary @ '' (a continuation of a DeepSeek chat moves to Sonnet)''))
         else
           let reason = (if notes \<noteq> [] then summary @ '' ('' @ join ''; '' notes @ '')'' else summary)
           in case follow_up_target (fs_provider s) (fs_tier s) kind d (is_ui c) of
                None \<Rightarrow> Some (kept s c settled
                  (reason @ ''. Provider has no follow-up routing policy, staying''))
              | Some first \<Rightarrow>
                  (let target = resume_candidate s c
                   in compare_routes s c settled d reason target (restored s (resumed target first))))"

section \<open>Climbing a ladder\<close>

text \<open>The escalations of a chat that is reported wrong again and again, at most \<open>n\<close> of them.\<close>

fun climbs ::
  "nat \<Rightarrow> auto_tier \<Rightarrow> provider_id list \<Rightarrow> provider_id \<Rightarrow> string \<Rightarrow> reasoning_effort option \<Rightarrow> routed_model list"
where
  "climbs 0 tier av p m e = []"
| "climbs (Suc n) tier av p m e =
     (case next_rung tier p m e av of
        None \<Rightarrow> []
      | Some r \<Rightarrow> r # climbs n tier av (provider (routed_to r)) (model_id (routed_to r)) (routed_effort r))"

lemma slice_get_mem: "slice_get xs i = Some x \<Longrightarrow> x \<in> set xs"
  by (auto simp: slice_get_def split: if_splits)

definition rung :: "route_model \<times> reasoning_effort option \<Rightarrow> routed_model" where
  "rung x = \<lparr>routed_to = fst x, routed_effort = snd x\<rparr>"

lemma next_rung_cases:
  assumes "next_rung tier p m e av = Some r"
  obtains x where "r = rung x" and "x \<in> set (rungs_for tier p)"
    and "provider (fst x) = p \<or> av = [] \<or> provider (fst x) \<in> set av"
proof -
  let ?m = "case route_model m of None \<Rightarrow> m | Some x \<Rightarrow> model_id x"
  let ?next = "case find_index (\<lambda>(x, e'). model_id x = ?m \<and> e' = e) (rungs_for tier p) of
        Some i \<Rightarrow> slice_get (rungs_for tier p) (i + 1)
      | None \<Rightarrow> (case strength ?m e of None \<Rightarrow> None
         | Some current \<Rightarrow> find (\<lambda>(x, e). case strength (model_id x) e of None \<Rightarrow> False | Some r \<Rightarrow> r > current)
             (rungs_for tier p))"
  from assms obtain x where x: "?next = Some x" and r: "r = rung x"
    and av: "provider (fst x) = p \<or> av = [] \<or> provider (fst x) \<in> set av"
    by (auto simp: next_rung_def Let_def rung_def split: option.splits if_splits)
  from x have "x \<in> set (rungs_for tier p)"
    by (auto split: option.splits dest: slice_get_mem find_Some_mem)
  then show ?thesis using r av that by blast
qed

lemma next_rung_any_available:
  "next_rung tier p m e av = Some r \<Longrightarrow> next_rung tier p m e [] = Some r"
  by (auto simp: next_rung_def Let_def split: option.splits if_splits)

text \<open>Missing providers only cut a climb short; more fuel than the climb needs changes nothing.\<close>

lemma climbs_prefix: "\<exists>k. climbs n tier av p m e = take k (climbs n tier [] p m e)"
proof (induction n arbitrary: p m e)
  case (Suc n)
  show ?case
  proof (cases "next_rung tier p m e av")
    case None
    then show ?thesis by (auto intro: exI [where x = 0])
  next
    case (Some r)
    obtain k where "climbs n tier av (provider (routed_to r)) (model_id (routed_to r)) (routed_effort r)
        = take k (climbs n tier [] (provider (routed_to r)) (model_id (routed_to r)) (routed_effort r))"
      using Suc.IH by blast
    then show ?thesis using Some next_rung_any_available [OF Some]
      by (auto intro: exI [where x = "Suc k"])
  qed
qed simp

lemma climbs_fuel: "length (climbs k tier av p m e) < k \<Longrightarrow> k \<le> n \<Longrightarrow> climbs n tier av p m e = climbs k tier av p m e"
proof (induction k arbitrary: n p m e)
  case (Suc k)
  then obtain n' where n: "n = Suc n'" "k \<le> n'" by (cases n) auto
  show ?case
  proof (cases "next_rung tier p m e av")
    case (Some r)
    then show ?thesis using Suc.prems(1) n Suc.IH [OF _ n(2)] by simp
  qed (simp add: n)
qed simp

lemma climbs_less: "n \<le> k \<Longrightarrow> \<exists>i. climbs n tier av p m e = take i (climbs k tier av p m e)"
proof (induction n arbitrary: k p m e)
  case 0
  then show ?case by (auto intro: exI [where x = 0])
next
  case (Suc n)
  then obtain k' where k: "k = Suc k'" "n \<le> k'" by (cases k) auto
  show ?case
  proof (cases "next_rung tier p m e av")
    case (Some r)
    obtain i where "climbs n tier av (provider (routed_to r)) (model_id (routed_to r)) (routed_effort r)
        = take i (climbs k' tier av (provider (routed_to r)) (model_id (routed_to r)) (routed_effort r))"
      using Suc.IH [OF k(2)] by blast
    then show ?thesis using Some k by (auto intro: exI [where x = "Suc i"])
  qed (simp add: k)
qed

abbreviation climbs_from :: "nat \<Rightarrow> auto_tier \<Rightarrow> provider_id list \<Rightarrow> routed_model \<Rightarrow> routed_model list" where
  "climbs_from n tier av r \<equiv>
     climbs n tier av (provider (routed_to r)) (model_id (routed_to r)) (routed_effort r)"

definition ascending :: "routed_model list \<Rightarrow> bool" where
  "ascending rs = sorted_wrt (\<lambda>a b. routed_strength a \<le> routed_strength b) rs"

lemma rung_chains_checked:
  "list_all (\<lambda>tier. list_all (\<lambda>p. list_all (\<lambda>x.
       length (climbs_from 6 tier [] (rung x)) \<le> 5 \<and>
       ascending (rung x # climbs_from 6 tier [] (rung x))) (rungs_for tier p))
     [Claude, Codex, Cursor, Opencode, Grok]) [Cost, Economy, Balanced, Intelligence]"
  by code_simp

lemma rung_chain:
  assumes "x \<in> set (rungs_for tier p)"
  shows "length (climbs_from n tier av (rung x)) \<le> 5 \<and> ascending (rung x # climbs_from n tier av (rung x))"
proof -
  have "tier \<in> set [Cost, Economy, Balanced, Intelligence]" by (cases tier) simp_all
  moreover have "p \<in> set [Claude, Codex, Cursor, Opencode, Grok]" by (cases p) simp_all
  ultimately have c: "length (climbs_from 6 tier [] (rung x)) \<le> 5"
      "ascending (rung x # climbs_from 6 tier [] (rung x))"
    using rung_chains_checked assms unfolding list_all_iff by blast+
  have "\<exists>i. climbs_from n tier [] (rung x) = take i (climbs_from 6 tier [] (rung x))"
  proof (cases "n \<le> 6")
    case True
    then show ?thesis by (rule climbs_less)
  next
    case False
    have "climbs_from n tier [] (rung x) = climbs_from 6 tier [] (rung x)"
      by (rule climbs_fuel) (use c(1) False in simp_all)
    then show ?thesis by (metis order_refl take_all)
  qed
  moreover obtain k where "climbs_from n tier av (rung x) = take k (climbs_from n tier [] (rung x))"
    using climbs_prefix by blast
  ultimately obtain i where i: "climbs_from n tier av (rung x) = take i (climbs_from 6 tier [] (rung x))"
    by (metis take_take)
  have "ascending (take (Suc i) (rung x # climbs_from 6 tier [] (rung x)))"
    using c(2) unfolding ascending_def by (rule sorted_wrt_take)
  with c(1) i show ?thesis by simp
qed


end
