(* ===== verification/Routing_Follow_Up.thy ===== *)
theory Routing_Follow_Up
  imports Routing_Reroute
begin

text \<open>
  What \<open>follow_up_route\<close> of \<^verbatim>\<open>src-tauri/src/routing/reroute.rs\<close> decides: every way it returns is a
  rule of \<open>outcome\<close>, so a property of follow-ups is one case per outcome. No \<^verbatim>\<open>expect\<close> fails, the chat
  stays in its provider or is handed to an installed Claude, and capability is given up only on
  strong evidence.
\<close>

section \<open>What a follow-up decides\<close>

lemma strength_known: "x \<in> set ROUTE_MODELS \<Longrightarrow> strength (model_id x) e \<noteq> None"
  by (auto simp: ROUTE_MODELS_def strength_def)

lemma route_model_known: "route_model m = Some x \<Longrightarrow> strength (model_id x) e \<noteq> None"
  using route_model_mem strength_known by blast

lemma strength_resolves:
  assumes "strength m e \<noteq> None"
  shows "\<exists>x. route_model m = Some x \<and> strength (model_id x) e = strength m e"
proof -
  obtain k where k: "capability m = Some k" using assms by (cases "capability m") (simp_all add: strength_def)
  then obtain x where "route_model m = Some x" and "capability (model_id x) = Some k"
    using route_model_capable by blast
  with k show ?thesis by (simp add: strength_def)
qed

lemma resumed_cases: "resumed t r = r \<or> (t = Some (resumed t r) \<and> routed_strength (resumed t r) > routed_strength r)"
  by (cases t) (auto simp: resumed_def)

lemma restored_cases:
  "restored s r = r \<or> (\<exists>x. route_model (fs_model_id s) = Some x \<and> routed_to (restored s r) = x)"
  by (auto simp: restored_def split: option.splits)

lemma candidate_known:
  assumes "follow_up_target p tier kind d ui = Some first"
  shows "routed_strength (restored s (resumed t first)) \<noteq> None"
proof -
  have "routed_strength first \<noteq> None"
    using follow_up_sound(2) [OF assms] by (simp add: routed_strength_def routable_def strength_known)
  moreover have "routed_strength r \<noteq> None" if "routed_strength r > routed_strength first" for r
    using that by (cases "routed_strength r") auto
  ultimately have "routed_strength (resumed t first) \<noteq> None" using resumed_cases [of t first] by auto
  then show ?thesis using restored_cases [of s "resumed t first"] route_model_known
    unfolding routed_strength_def by metis
qed

definition evidence_down :: "classification \<Rightarrow> difficulty \<Rightarrow> real" where
  "evidence_down c d = min (min (kind_confidence c) (probability_at_most_bucket c d)) (or_zero (simpler_task c))"

lemma move_up_cases:
  "(\<exists>why. move_up s c st d reason t r = kept s c st why) \<or>
   (\<exists>why. move_up s c st d reason t r = reroute s r c st why)"
  by (auto simp: move_up_def Let_def)

lemma move_down_cases:
  assumes "route_model (fs_model_id s) \<noteq> None"
  shows "(\<exists>why. move_down s c st d reason r = Some (kept s c st why)) \<or>
    (model_id (routed_to r) \<noteq> fs_model_id s \<and> model_down \<le> evidence_down c d \<and> switch_pays_back s r c \<and>
       (\<exists>why. move_down s c st d reason r = Some (reroute s r c st why))) \<or>
    (\<exists>current least lower why. route_model (fs_model_id s) = Some current \<and>
       one_step_down (fs_effort s) least current = Some lower \<and> effort_down \<le> evidence_down c d \<and>
       move_down s c st d reason r =
         Some (reroute s \<lparr>routed_to = current, routed_effort = Some lower\<rparr> c st why))"
proof -
  obtain current where cur: "route_model (fs_model_id s) = Some current" using assms by blast
  let ?least = "clamp_effort (case routed_effort r of None \<Rightarrow> Low | Some e \<Rightarrow> e) current"
  note def = move_down_def Let_def evidence_down_def [symmetric]
  consider (switch) "model_id (routed_to r) \<noteq> fs_model_id s \<and> model_down \<le> evidence_down c d \<and> switch_pays_back s r c"
    | (none) "\<not> (model_id (routed_to r) \<noteq> fs_model_id s \<and> model_down \<le> evidence_down c d \<and> switch_pays_back s r c)"
        "one_step_down (fs_effort s) ?least current = None"
    | (step) lower where
        "\<not> (model_id (routed_to r) \<noteq> fs_model_id s \<and> model_down \<le> evidence_down c d \<and> switch_pays_back s r c)"
        "one_step_down (fs_effort s) ?least current = Some lower"
    by (cases "one_step_down (fs_effort s) ?least current") blast+
  then show ?thesis
  proof cases
    case switch
    then have "\<exists>why. move_down s c st d reason r = Some (reroute s r c st why)" by (simp add: def) blast
    with switch show ?thesis by blast
  next
    case none
    then have "\<exists>why. move_down s c st d reason r = Some (kept s c st why)"
      unfolding def cur if_not_P [OF none(1)] option.case none(2) by blast
    then show ?thesis by blast
  next
    case step
    show ?thesis
    proof (cases "evidence_down c d < effort_down")
      case True
      then have "\<exists>why. move_down s c st d reason r = Some (kept s c st why)"
        unfolding def cur if_not_P [OF step(1)] option.case step(2) if_P [OF True] by blast
      then show ?thesis by blast
    next
      case False
      then have "\<exists>why. move_down s c st d reason r =
          Some (reroute s \<lparr>routed_to = current, routed_effort = Some lower\<rparr> c st why)"
        unfolding def cur if_not_P [OF step(1)] option.case step(2) if_not_P [OF False] by blast
      with False step(2) cur show ?thesis by (metis not_less)
    qed
  qed
qed

text \<open>The outcomes of \<open>follow_up_route\<close>, one rule for every way to return.\<close>

inductive outcome :: "follow_up_state \<Rightarrow> classification \<Rightarrow> route_decision \<Rightarrow> bool"
  for s :: follow_up_state and c :: classification where
  stays: "outcome s c (kept s c st why)"
| climbs_up: "next_rung (fs_tier s) (fs_provider s) (fs_model_id s) (fs_effort s) (available s) = Some r \<Longrightarrow>
     outcome s c (decision_from (fs_tier s) r (Some c) st Escalate why)"
| leaves_deepseek: "deepseek_continues s c \<Longrightarrow>
     outcome s c (decision_from (fs_tier s) \<lparr>routed_to = SONNET, routed_effort = Some Medium\<rparr> (Some c) st Reroute why)"
| moves_up: "follow_up_target (fs_provider s) (fs_tier s) kind d (is_ui c) = Some first \<Longrightarrow>
     r = restored s (resumed (resume_candidate s c) first) \<Longrightarrow>
     strength (fs_model_id s) (fs_effort s) < routed_strength r \<Longrightarrow>
     outcome s c (reroute s r c st why)"
| switches_down: "follow_up_target (fs_provider s) (fs_tier s) kind d (is_ui c) = Some first \<Longrightarrow>
     r = restored s (resumed (resume_candidate s c) first) \<Longrightarrow>
     d = fst (settle_difficulty c) \<Longrightarrow> downgrade_safe s \<Longrightarrow> model_down \<le> evidence_down c d \<Longrightarrow>
     switch_pays_back s r c \<Longrightarrow> model_id (routed_to r) \<noteq> fs_model_id s \<Longrightarrow>
     outcome s c (reroute s r c st why)"
| lowers_effort: "route_model (fs_model_id s) = Some current \<Longrightarrow>
     one_step_down (fs_effort s) least current = Some lower \<Longrightarrow> downgrade_safe s \<Longrightarrow>
     effort_down \<le> evidence_down c (fst (settle_difficulty c)) \<Longrightarrow>
     outcome s c (reroute s \<lparr>routed_to = current, routed_effort = Some lower\<rparr> c st why)"

lemma compare_routes_outcome:
  assumes "follow_up_target (fs_provider s) (fs_tier s) kind d (is_ui c) = Some first"
    and r: "r = restored s (resumed (resume_candidate s c) first)" and d: "d = fst (settle_difficulty c)"
  shows "\<exists>out. compare_routes s c st d reason (resume_candidate s c) r = Some out \<and> outcome s c out"
proof (cases "model_id (routed_to r) = fs_model_id s \<and> routed_effort r = fs_effort s
    \<or> strength (fs_model_id s) (fs_effort s) = None")
  case True
  then show ?thesis by (auto simp: compare_routes_def intro: outcome.stays split: option.split)
next
  case False
  then obtain now where now: "strength (fs_model_id s) (fs_effort s) = Some now" by blast
  obtain nxt where nxt: "routed_strength r = Some nxt" using candidate_known [OF assms(1)] r by blast
  have known: "route_model (fs_model_id s) \<noteq> None" using strength_resolves now by blast
  consider (up) "nxt > now" | (unsafe) "\<not> nxt > now" "\<not> downgrade_safe s" | (down) "\<not> nxt > now" "downgrade_safe s"
    by blast
  then show ?thesis
  proof cases
    case up
    then have eq: "compare_routes s c st d reason (resume_candidate s c) r =
        Some (move_up s c st d reason (resume_candidate s c) r)"
      using False now nxt by (auto simp: compare_routes_def)
    have lt: "strength (fs_model_id s) (fs_effort s) < routed_strength r" using up now nxt by simp
    show ?thesis using move_up_cases [of s c st d reason "resume_candidate s c" r]
      unfolding eq by (auto intro: outcome.stays outcome.moves_up [OF assms(1) r lt])
  next
    case unsafe
    then show ?thesis using False now nxt by (auto simp: compare_routes_def intro: outcome.stays)
  next
    case down
    then have eq: "compare_routes s c st d reason (resume_candidate s c) r = move_down s c st d reason r"
      using False now nxt by (auto simp: compare_routes_def)
    show ?thesis using move_down_cases [OF known, of c st d reason r] down(2) d
      unfolding eq by (fastforce intro: outcome.stays outcome.switches_down [OF assms(1) r] outcome.lowers_effort)
  qed
qed

lemma follow_up_outcome: "\<exists>out. follow_up_route s c = Some out \<and> outcome s c out"
proof -
  define st where "st = Some (fst (settle_kind c), fst (settle_difficulty c))"
  define d where "d = fst (settle_difficulty c)"
  define kind where "kind = fst (settle_kind c)"
  consider (correct) "or_zero (correction c) \<ge> correction_threshold"
    | (deepseek) "\<not> or_zero (correction c) \<ge> correction_threshold" "deepseek_continues s c"
    | (none) "\<not> or_zero (correction c) \<ge> correction_threshold" "\<not> deepseek_continues s c"
        "follow_up_target (fs_provider s) (fs_tier s) kind d (is_ui c) = None"
    | (target) first where "\<not> or_zero (correction c) \<ge> correction_threshold" "\<not> deepseek_continues s c"
        "follow_up_target (fs_provider s) (fs_tier s) kind d (is_ui c) = Some first"
    by blast
  then show ?thesis
  proof cases
    case correct
    have "outcome s c (escalation s c st' why)" for st' why
      by (auto simp: escalation_def intro: outcome.stays outcome.climbs_up split: option.split)
    with correct show ?thesis by (simp add: follow_up_route_def settle_def Let_def)
  next
    case deepseek
    then show ?thesis by (auto simp: follow_up_route_def settle_def Let_def intro: outcome.leaves_deepseek)
  next
    case none
    then show ?thesis by (auto simp: follow_up_route_def settle_def Let_def kind_def d_def intro: outcome.stays)
  next
    case target
    from compare_routes_outcome [OF target(3) refl d_def] target show ?thesis
      by (simp add: follow_up_route_def settle_def Let_def kind_def d_def)
  qed
qed

lemma follow_up_outcomeD: "follow_up_route s c = Some r \<Longrightarrow> outcome s c r"
  using follow_up_outcome [of s c] by auto

lemma kept_simps [simp]:
  "rd_provider (kept s c st why) = fs_provider s" "rd_model_id (kept s c st why) = fs_model_id s"
  "rd_effort (kept s c st why) = fs_effort s" "rd_tier (kept s c st why) = fs_tier s"
  "rd_decision (kept s c st why) = Kept"
  by (simp_all add: kept_def)

text \<open>A follow-up always gets a decision, none of the router's expectations failing, on the chat's
  own tier; a chat that is kept runs on exactly the provider, model and effort it had.\<close>

lemma follow_up_decides:
  "\<exists>r. follow_up_route s c = Some r \<and> rd_tier r = fs_tier s \<and>
     (rd_decision r \<in> {Reroute, Escalate} \<or>
      rd_decision r = Kept \<and> rd_provider r = fs_provider s \<and> rd_model_id r = fs_model_id s \<and>
      rd_effort r = fs_effort s)"
proof -
  obtain r where r: "follow_up_route s c = Some r" and out: "outcome s c r" using follow_up_outcome by blast
  from out have "rd_tier r = fs_tier s \<and> (rd_decision r \<in> {Reroute, Escalate} \<or>
      rd_decision r = Kept \<and> rd_provider r = fs_provider s \<and> rd_model_id r = fs_model_id s \<and>
      rd_effort r = fs_effort s)"
    by cases (simp_all add: reroute_def)
  with r show ?thesis by blast
qed

text \<open>The chat runs on a model of its own provider, as every stored route does.\<close>

definition native_model :: "follow_up_state \<Rightarrow> bool" where
  "native_model s = (case route_model (fs_model_id s) of None \<Rightarrow> True | Some x \<Rightarrow> provider x = fs_provider s)"

lemma rungs_providers:
  "x \<in> set (rungs_for tier p) \<Longrightarrow> provider (fst x) = p \<or> provider (fst x) = Claude"
  by (cases p) (auto simp: rungs_for_def split: if_splits)

lemma candidate_provider:
  assumes "follow_up_target (fs_provider s) (fs_tier s) kind d (is_ui c) = Some first" and "native_model s"
  shows "provider (routed_to (restored s (resumed (resume_candidate s c) first))) = fs_provider s"
proof -
  have "provider (routed_to t) = fs_provider s" if "resume_candidate s c = Some t" for t
    using that by (auto simp: resume_candidate_def split: option.splits if_splits)
  then have "provider (routed_to (resumed (resume_candidate s c) first)) = fs_provider s"
    using resumed_cases [of "resume_candidate s c" first] follow_up_sound(1) [OF assms(1)] by auto
  then show ?thesis using restored_cases [of s "resumed (resume_candidate s c) first"] assms(2)
    by (auto simp: native_model_def)
qed

text \<open>Routing between turns leaves a chat inside its provider, except for a hand-over to
  Claude, which happens only when Claude Code is installed or nothing is known about what is.\<close>

lemma follow_up_provider:
  assumes "native_model s" and "follow_up_route s c = Some r"
  shows "rd_provider r = fs_provider s \<or>
    rd_provider r = Claude \<and> (available s = [] \<or> Claude \<in> set (available s))"
  using follow_up_outcomeD [OF assms(2)]
proof cases
  case (climbs_up t st why)
  from climbs_up(2) obtain x where "t = rung x" and "x \<in> set (rungs_for (fs_tier s) (fs_provider s))"
    and "provider (fst x) = fs_provider s \<or> available s = [] \<or> provider (fst x) \<in> set (available s)"
    by (rule next_rung_cases)
  then show ?thesis using rungs_providers climbs_up(1) by (fastforce simp: rung_def)
next
  case (leaves_deepseek st why)
  then show ?thesis by (simp add: deepseek_continues_def)
next
  case (moves_up kind d first t st why)
  then show ?thesis using candidate_provider assms(1) by (simp add: reroute_def)
next
  case (switches_down kind d first t st why)
  then show ?thesis using candidate_provider assms(1) by (simp add: reroute_def)
next
  case (lowers_effort current least lower st why)
  then show ?thesis using assms(1) by (simp add: reroute_def native_model_def)
qed simp

lemma follow_up_provider_witness:
  "\<exists>r. follow_up_route
      \<lparr>fs_tier = Balanced, fs_provider = Grok, fs_model_id = ''grok-4.7'', fs_effort = Some High, available = [],
       context_tokens = 1000, last_turn = \<lparr>use_input = 0, use_output = 0, use_cache_read = 0, use_cache_write = 0\<rparr>,
       downgrade_safe = True, resume_target = None, idle = None\<rparr>
      \<lparr>cl_kind = Coding, kind_confidence = 1, kind_probabilities = None, difficulty_score = 2,
       difficulty_confidence = 1, level_probabilities = None, correction = Some 1, cl_scope = None,
       scope_confidence = None, simpler_task = None, resume_route = None, resume_confidence = None,
       ui_weight = None\<rparr> = Some r \<and> (rd_provider r = Grok \<or> rd_provider r = Claude)"
  (is "\<exists>r. follow_up_route ?s ?c = Some r \<and> _")
proof -
  obtain r where r: "follow_up_route ?s ?c = Some r" using follow_up_outcome by blast
  have "native_model ?s" by (simp add: native_model_def)
  from follow_up_provider [OF this r] show ?thesis using r by auto
qed

section \<open>Giving capability up\<close>

lemma rungs_sorted_checked:
  "list_all (\<lambda>tier. list_all (\<lambda>p. sorted_wrt (\<le>) (map (\<lambda>x. strength (model_id (fst x)) (snd x)) (rungs_for tier p)))
     [Claude, Codex, Cursor, Opencode, Grok]) [Cost, Economy, Balanced, Intelligence]"
  by code_simp

lemma rungs_sorted: "sorted_wrt (\<le>) (map (\<lambda>x. strength (model_id (fst x)) (snd x)) (rungs_for tier p))"
proof -
  have "tier \<in> set [Cost, Economy, Balanced, Intelligence]" by (cases tier) simp_all
  moreover have "p \<in> set [Claude, Codex, Cursor, Opencode, Grok]" by (cases p) simp_all
  ultimately show ?thesis using rungs_sorted_checked unfolding list_all_iff by blast
qed

lemma find_index_Some: "find_index P xs = Some i \<Longrightarrow> i < length xs \<and> P (xs ! i)"
  by (induction xs arbitrary: i) (auto split: if_splits)

lemma next_rung_no_weaker:
  assumes "next_rung tier p m e av = Some r"
  shows "strength m e \<le> routed_strength r"
proof -
  define m' where "m' = (case route_model m of None \<Rightarrow> m | Some x \<Rightarrow> model_id x)"
  let ?str = "\<lambda>x :: route_model \<times> reasoning_effort option. strength (model_id (fst x)) (snd x)"
  have same: "strength m e \<le> strength m' e"
  proof (cases "strength m e")
    case (Some q)
    then show ?thesis using strength_resolves [of m e] by (auto simp: m'_def)
  qed simp
  have next_: "\<exists>x. r = rung x \<and> (case find_index (\<lambda>(x, e'). model_id x = m' \<and> e' = e) (rungs_for tier p) of
        Some i \<Rightarrow> slice_get (rungs_for tier p) (i + 1)
      | None \<Rightarrow> (case strength m' e of None \<Rightarrow> None
         | Some current \<Rightarrow> find (\<lambda>(x, e). case strength (model_id x) e of None \<Rightarrow> False | Some r \<Rightarrow> r > current)
             (rungs_for tier p))) = Some x"
    using assms by (auto simp: next_rung_def Let_def rung_def m'_def [symmetric] split: option.splits if_splits)
  show ?thesis
  proof (cases "find_index (\<lambda>(x, e'). model_id x = m' \<and> e' = e) (rungs_for tier p)")
    case None
    with next_ obtain x current where r: "r = rung x" and "strength m' e = Some current"
      and "find (\<lambda>(x, e). case strength (model_id x) e of None \<Rightarrow> False | Some r \<Rightarrow> r > current) (rungs_for tier p) = Some x"
      by (auto split: option.splits)
    then have "strength m' e \<le> ?str x" by (auto dest!: find_Some_mem split: option.splits)
    then show ?thesis using same r by (simp add: routed_strength_def rung_def)
  next
    case (Some i)
    then have i: "i < length (rungs_for tier p)" "?str (rungs_for tier p ! i) = strength m' e"
      using find_index_Some by fastforce+
    from next_ Some obtain x where r: "r = rung x" and "slice_get (rungs_for tier p) (i + 1) = Some x" by auto
    then have "i + 1 < length (rungs_for tier p)" and x: "x = rungs_for tier p ! (i + 1)"
      by (auto simp: slice_get_def split: if_splits)
    then have "?str (rungs_for tier p ! i) \<le> ?str x"
      using rungs_sorted [of tier p] by (simp add: sorted_wrt_iff_nth_less)
    then show ?thesis using same r i(2) by (simp add: routed_strength_def rung_def)
  qed
qed


text \<open>A chat on Opus at high and an easy question: the effort goes down one level.\<close>

definition easy_question :: classification where
  "easy_question =
     \<lparr>cl_kind = Question, kind_confidence = 1, kind_probabilities = None, difficulty_score = 1,
      difficulty_confidence = 1, level_probabilities = None, correction = None, cl_scope = Some NewTask,
      scope_confidence = Some 1, simpler_task = Some 1, resume_route = None, resume_confidence = None,
      ui_weight = None\<rparr>"

definition opus_chat :: follow_up_state where
  "opus_chat =
     \<lparr>fs_tier = Balanced, fs_provider = Claude, fs_model_id = ''claude-opus-5-5'', fs_effort = Some High,
      available = [], context_tokens = 1000,
      last_turn = \<lparr>use_input = 0, use_output = 0, use_cache_read = 0, use_cache_write = 0\<rparr>,
      downgrade_safe = True, resume_target = None, idle = None\<rparr>"

lemma easy_question_settles: "settle easy_question = (Question, Light, [])"
  by (simp add: settle_def settle_kind_def settle_difficulty_def easy_question_def cl_difficulty_def round_away_def)

lemma opus_lowered:
  "map_option (\<lambda>r. (rd_model_id r, rd_effort r)) (follow_up_route opus_chat easy_question)
     = Some (''claude-opus-5-5'', Some Medium)"
  unfolding follow_up_route_def easy_question_settles
  by (simp add: easy_question_def opus_chat_def deepseek_continues_def or_zero_def thresholds is_ui_def
      grid_simps resume_candidate_def resumed_def restored_def compare_routes_def routed_strength_def strength_def
      move_down_def probability_at_most_bucket_def probability_at_least_def opt_bind_def one_step_down_def
      reroute_def)


end
