(* ===== verification/Session_State.thy ===== *)
theory Session_State
  imports Prelude
begin

text \<open>
  \<^verbatim>\<open>src-tauri/src/sessions/state.rs\<close> and \<^verbatim>\<open>sessions/attention.rs\<close>: the seven states of a
  session, their spelling, the three groups the rest of the program asks about, and the
  attention pill a state and its pending work imply.
\<close>

datatype session_state = Created | Running | Waiting | Blocked | Complete | Failed | Cancelled

fun session_state_str :: "session_state \<Rightarrow> string" where
  "session_state_str Created = ''created''"
| "session_state_str Running = ''running''"
| "session_state_str Waiting = ''waiting''"
| "session_state_str Blocked = ''blocked''"
| "session_state_str Complete = ''complete''"
| "session_state_str Failed = ''failed''"
| "session_state_str Cancelled = ''cancelled''"

definition session_state_from_wire :: "string \<Rightarrow> session_state option" where
  "session_state_from_wire v =
     (if v = ''created'' then Some Created
      else if v = ''running'' then Some Running
      else if v = ''waiting'' then Some Waiting
      else if v = ''blocked'' then Some Blocked
      else if v = ''complete'' then Some Complete
      else if v = ''failed'' then Some Failed
      else if v = ''cancelled'' then Some Cancelled
      else None)"

definition is_active :: "session_state \<Rightarrow> bool" where
  "is_active s \<longleftrightarrow> s = Running \<or> s = Waiting \<or> s = Blocked"

definition is_settled :: "session_state \<Rightarrow> bool" where
  "is_settled s \<longleftrightarrow> \<not> is_active s"

definition is_live :: "session_state \<Rightarrow> bool" where
  "is_live s \<longleftrightarrow> s = Running \<or> s = Waiting"

section \<open>Attention\<close>

datatype attention_state = Normal | AttBlocked | AttFailed | ReviewReady | QuestionAsked | ApprovalNeeded

fun attention_str :: "attention_state \<Rightarrow> string" where
  "attention_str Normal = ''normal''"
| "attention_str AttBlocked = ''blocked''"
| "attention_str AttFailed = ''failed''"
| "attention_str ReviewReady = ''review-ready''"
| "attention_str QuestionAsked = ''question-asked''"
| "attention_str ApprovalNeeded = ''approval-needed''"

definition attention_from_wire :: "string \<Rightarrow> attention_state option" where
  "attention_from_wire v =
     (if v = ''normal'' then Some Normal
      else if v = ''blocked'' then Some AttBlocked
      else if v = ''failed'' then Some AttFailed
      else if v = ''review-ready'' then Some ReviewReady
      else if v = ''question-asked'' then Some QuestionAsked
      else if v = ''approval-needed'' then Some ApprovalNeeded
      else None)"

record attention_input =
  att_state :: session_state
  has_pending_approval :: bool
  has_outstanding_question :: bool

definition compute_session_attention :: "attention_input \<Rightarrow> attention_state" where
  "compute_session_attention i =
     (if has_pending_approval i then ApprovalNeeded
      else if has_outstanding_question i
              \<and> \<not> (att_state i = Created \<or> att_state i = Running \<or> att_state i = Cancelled)
        then QuestionAsked
      else (case att_state i of
              Blocked \<Rightarrow> AttBlocked
            | Waiting \<Rightarrow> AttBlocked
            | Failed \<Rightarrow> AttFailed
            | Complete \<Rightarrow> ReviewReady
            | _ \<Rightarrow> Normal))"

definition state_attention :: "session_state \<Rightarrow> attention_state" where
  "state_attention s = compute_session_attention
     \<lparr>att_state = s, has_pending_approval = False, has_outstanding_question = False\<rparr>"

text \<open>The persisted spellings of session states and of attention states are read back as what
  was written, and nothing else is read.\<close>

lemma spellings_round_trip:
  "(session_state_from_wire v = Some s) = (v = session_state_str s) \<and>
   (attention_from_wire w = Some a) = (w = attention_str a)"
  by (cases s; cases a) (auto simp: session_state_from_wire_def attention_from_wire_def split: if_splits)

end
