(* ===== verification/Goals.thy ===== *)
theory Goals
  imports Session_State Rust_Text "HOL-Library.Char_ord" "HOL-Library.List_Lexorder"
begin

text \<open>
  Goals (\<^verbatim>\<open>src-tauri/src/goals/mod.rs\<close>, \<^verbatim>\<open>goals/service.rs\<close>, \<^verbatim>\<open>persistence/goals.rs\<close>): a free-text
  condition attached to a chat, and the driver that keeps the chat working at it.
  The table is the list of its rows in insertion order; every SQL statement is one function
  on it, with its constraints as errors. Clocks, UUIDs, the evaluator and the provider are
  arguments. The driver is a function on the list of rounds it lives through: a round holds
  what the world answers, including what others do to the table while the driver waits.
  Notifications (\<^verbatim>\<open>publish_goal_changed\<close>) and I/O errors of SQLite are not modelled.
\<close>

section \<open>Rows\<close>

datatype goal_state = Active | Achieved | Impossible | Stopped

fun goal_state_str :: "goal_state \<Rightarrow> string" where
  "goal_state_str Active = ''active''"
| "goal_state_str Achieved = ''achieved''"
| "goal_state_str Impossible = ''impossible''"
| "goal_state_str Stopped = ''stopped''"

definition goal_state_from_wire :: "string \<Rightarrow> goal_state option" where
  "goal_state_from_wire v =
     (if v = ''active'' then Some Active
      else if v = ''achieved'' then Some Achieved
      else if v = ''impossible'' then Some Impossible
      else if v = ''stopped'' then Some Stopped
      else None)"

record goal =
  goal_id :: string
  goal_workspace :: string
  goal_session :: string
  goal_condition :: string
  goal_state :: goal_state
  goal_turns :: nat
  goal_max_turns :: nat
  goal_reason :: "string option"
  goal_created :: string
  goal_updated :: string

datatype goal_verdict = Met | NotYet | VerdictImpossible

definition goal_active :: "goal \<Rightarrow> bool" where
  "goal_active g \<longleftrightarrow> goal_state g = Active"

definition sqlite_error :: "string \<Rightarrow> argmax_error" where
  "sqlite_error message = service ''SQLITE'' message"

definition find_goal :: "goal list \<Rightarrow> string \<Rightarrow> argmax_error + goal" where
  "find_goal rows i =
     (case find (\<lambda>g. goal_id g = i) rows of
        Some g \<Rightarrow> Inr g
      | None \<Rightarrow> Inl (record_not_found ''goal'' i))"

text \<open>
  The primary key, the partial unique index of active goals and the two foreign keys;
  \<open>workspaces\<close> and \<open>sessions\<close> are the ids those tables hold.
\<close>

definition insert_goal ::
  "string list \<Rightarrow> string list \<Rightarrow> goal \<Rightarrow> goal list \<Rightarrow> (argmax_error + goal) \<times> goal list"
where
  "insert_goal workspaces sessions g rows =
     (if goal_id g \<in> goal_id ` set rows then (Inl (sqlite_error ''UNIQUE constraint failed: goals.id''), rows)
      else if goal_active g \<and> list_ex (\<lambda>r. goal_session r = goal_session g \<and> goal_active r) rows
        then (Inl (sqlite_error ''UNIQUE constraint failed: goals.session_id''), rows)
      else if goal_workspace g \<notin> set workspaces \<or> goal_session g \<notin> set sessions
        then (Inl (sqlite_error ''FOREIGN KEY constraint failed''), rows)
      else (find_goal (rows @ [g]) (goal_id g), rows @ [g]))"

definition find_active_goal_for_session :: "goal list \<Rightarrow> string \<Rightarrow> goal option" where
  "find_active_goal_for_session rows session = find (\<lambda>g. goal_session g = session \<and> goal_active g) rows"

definition list_goals :: "goal list \<Rightarrow> string option \<Rightarrow> goal list" where
  "list_goals rows workspace =
     rev (sort_key goal_updated (sort_key goal_id
       (filter (\<lambda>g. case workspace of None \<Rightarrow> True | Some w \<Rightarrow> goal_workspace g = w) rows)))"

text \<open>\<^verbatim>\<open>UPDATE ... WHERE id=? AND state='active'\<close>: the count of changed rows and the rows.\<close>

definition update_active :: "(goal \<Rightarrow> goal) \<Rightarrow> string \<Rightarrow> goal list \<Rightarrow> goal list" where
  "update_active f i rows = map (\<lambda>g. if goal_id g = i \<and> goal_active g then f g else g) rows"

definition active_rows :: "string \<Rightarrow> goal list \<Rightarrow> nat" where
  "active_rows i rows = length (filter (\<lambda>g. goal_id g = i \<and> goal_active g) rows)"

definition after_update :: "string \<Rightarrow> goal list \<Rightarrow> goal list \<Rightarrow> argmax_error + goal option" where
  "after_update i before rows =
     (if active_rows i before = 0 then Inr None
      else (case find_goal rows i of Inl e \<Rightarrow> Inl e | Inr g \<Rightarrow> Inr (Some g)))"

definition progressed :: "nat \<Rightarrow> string option \<Rightarrow> string \<Rightarrow> goal \<Rightarrow> goal" where
  "progressed turns reason now g = g\<lparr>goal_turns := turns, goal_reason := reason, goal_updated := now\<rparr>"

definition update_goal_progress ::
  "string \<Rightarrow> nat \<Rightarrow> string option \<Rightarrow> string \<Rightarrow> goal list \<Rightarrow> (argmax_error + goal option) \<times> goal list"
where
  "update_goal_progress i turns reason now rows =
     (let rows' = update_active (progressed turns reason now) i rows
      in (after_update i rows rows', rows'))"

definition settled_goal :: "goal_state \<times> string option \<times> string \<Rightarrow> goal \<Rightarrow> goal" where
  "settled_goal v g =
     (case v of (st, reason, now) \<Rightarrow>
        g\<lparr>goal_state := st, goal_reason := (case reason of None \<Rightarrow> goal_reason g | Some r \<Rightarrow> Some r),
          goal_updated := now\<rparr>)"

definition settle_rows :: "goal_state \<times> string option \<times> string \<Rightarrow> string \<Rightarrow> goal list \<Rightarrow> goal list" where
  "settle_rows v i rows = update_active (settled_goal v) i rows"

definition settle_goal ::
  "string \<Rightarrow> goal_state \<Rightarrow> string option \<Rightarrow> string \<Rightarrow> goal list \<Rightarrow> (argmax_error + goal option) \<times> goal list"
where
  "settle_goal i st reason now rows =
     (let rows' = settle_rows (st, reason, now) i rows in (after_update i rows rows', rows'))"

definition stop_orphaned_goals :: "string \<Rightarrow> goal list \<Rightarrow> goal list" where
  "stop_orphaned_goals now rows =
     map (\<lambda>g. if goal_active g
              then g\<lparr>goal_state := Stopped, goal_reason := Some ''Argmax restarted while this goal was running.'',
                    goal_updated := now\<rparr>
              else g) rows"

definition active_goal :: "string \<Rightarrow> goal list \<Rightarrow> argmax_error + goal option" where
  "active_goal i rows =
     (case find_goal rows i of
        Inl e \<Rightarrow> Inl e
      | Inr g \<Rightarrow> Inr (if goal_state g = Active then Some g else None))"

section \<open>The service\<close>

definition MAX_CONDITION_BYTES :: nat where "MAX_CONDITION_BYTES = 8 * 1024"
definition MAX_TURNS_CEILING :: nat where "MAX_TURNS_CEILING = 100"
definition DEFAULT_MAX_TURNS :: nat where "DEFAULT_MAX_TURNS = 20"
definition MAX_IDLE_TURNS :: nat where "MAX_IDLE_TURNS = 3"
definition MAX_EVALUATOR_FAILURES :: nat where "MAX_EVALUATOR_FAILURES = 3"

record goal_config =
  config_condition :: string
  config_max_turns :: nat

definition validate_config :: "string \<Rightarrow> nat option \<Rightarrow> argmax_error + goal_config" where
  "validate_config condition max_turns =
     (let condition = trim condition
      in if condition = [] \<or> length condition > MAX_CONDITION_BYTES
         then Inl (service ''GOAL_INVALID_CONDITION''
                ''A goal needs a completion condition of at most 8 KiB.'')
         else
           let turns = (case max_turns of None \<Rightarrow> DEFAULT_MAX_TURNS | Some n \<Rightarrow> n)
           in if turns = 0 \<or> turns > MAX_TURNS_CEILING
              then Inl (service ''GOAL_INVALID_MAX_TURNS''
                     (''maxTurns must be between 1 and '' @ nat_text MAX_TURNS_CEILING @ ''.''))
              else Inr \<lparr>config_condition = condition, config_max_turns = turns\<rparr>)"

definition new_goal :: "string \<Rightarrow> string \<Rightarrow> string \<Rightarrow> goal_config \<Rightarrow> string \<Rightarrow> goal" where
  "new_goal uuid workspace session config now =
     \<lparr>goal_id = uuid, goal_workspace = workspace, goal_session = session,
      goal_condition = config_condition config, goal_state = Active, goal_turns = 0,
      goal_max_turns = config_max_turns config, goal_reason = None,
      goal_created = now, goal_updated = now\<rparr>"

text \<open>The service: the table and, by goal id, the generation of the driver task that owns the slot.\<close>

record goal_service =
  goals :: "goal list"
  goal_tasks :: "string \<rightharpoonup> string"

definition remove_current_driver :: "(string \<rightharpoonup> string) \<Rightarrow> string \<Rightarrow> string \<Rightarrow> bool \<times> (string \<rightharpoonup> string)" where
  "remove_current_driver tasks i generation =
     (let is_current = (tasks i = Some generation)
      in (is_current, if is_current then tasks(i := None) else tasks))"

definition new_service :: "string \<Rightarrow> goal list \<Rightarrow> goal_service" where
  "new_service now rows = \<lparr>goals = stop_orphaned_goals now rows, goal_tasks = Map.empty\<rparr>"

definition insert_initial_goal ::
  "string list \<Rightarrow> string list \<Rightarrow> string \<Rightarrow> string \<Rightarrow> string \<Rightarrow> goal_config \<Rightarrow> string \<Rightarrow> goal_service \<Rightarrow>
   (argmax_error + goal) \<times> goal_service"
where
  "insert_initial_goal ws ss uuid workspace session config now svc =
     (let (r, rows) = insert_goal ws ss (new_goal uuid workspace session config now) (goals svc)
      in (r, svc\<lparr>goals := rows\<rparr>))"

definition spawn_driver :: "string \<Rightarrow> string \<Rightarrow> goal_service \<Rightarrow> goal_service" where
  "spawn_driver i generation svc =
     (if goal_tasks svc i \<noteq> None then svc
      else svc\<lparr>goal_tasks := (goal_tasks svc)(i \<mapsto> generation)\<rparr>)"

definition settle_service ::
  "string \<Rightarrow> goal_state \<Rightarrow> string option \<Rightarrow> string \<Rightarrow> goal_service \<Rightarrow> (argmax_error + goal option) \<times> goal_service"
where
  "settle_service i st reason now svc =
     (let (r, rows) = settle_goal i st reason now (goals svc) in (r, svc\<lparr>goals := rows\<rparr>))"

definition clear_goal :: "string \<Rightarrow> string \<Rightarrow> goal_service \<Rightarrow> (argmax_error + goal option) \<times> goal_service" where
  "clear_goal session now svc =
     (case find_active_goal_for_session (goals svc) session of
        None \<Rightarrow> (Inr None, svc)
      | Some g \<Rightarrow>
          (case settle_service (goal_id g) Stopped (Some ''Goal cleared.'') now svc of
             (Inl e, svc1) \<Rightarrow> (Inl e, svc1)
           | (Inr settled, svc1) \<Rightarrow> (Inr settled, svc1\<lparr>goal_tasks := (goal_tasks svc1)(goal_id g := None)\<rparr>)))"

definition opening_prompt :: "string \<Rightarrow> string" where
  "opening_prompt condition =
     ''Work toward this goal, and keep working until it holds:'' @ [newline, newline] @ condition
     @ [newline, newline]
     @ ''Run whatever checks prove it. When you believe it holds, state that and show the evidence.''"

definition follow_up_prompt :: "string \<Rightarrow> string option \<Rightarrow> string" where
  "follow_up_prompt condition reason =
     ''The goal is not met yet: ''
     @ (case reason of None \<Rightarrow> ''the evidence so far does not show it holds'' | Some r \<Rightarrow> r)
     @ [newline, newline] @ ''Keep working toward it:'' @ [newline, newline] @ condition"

text \<open>
  What the world answers to one call of \<open>goal_set\<close>: the workspace and session lookups, the
  session's state when the goal is in the table, and the provider's answer to the opening
  turn; \<open>display\<close> is the text of an error.
\<close>

record set_world =
  sw_workspaces :: "string list"
  sw_sessions :: "string list"
  sw_workspace :: "argmax_error + unit"
  sw_session :: "argmax_error + string"  \<comment> \<open>the session's workspace id\<close>
  sw_state :: "argmax_error + session_state"
  sw_send :: "argmax_error + unit"
  sw_uuid :: string
  sw_generation :: string
  sw_display :: "argmax_error \<Rightarrow> string"

definition goal_set ::
  "string \<Rightarrow> string \<Rightarrow> string \<Rightarrow> nat option \<Rightarrow> string \<Rightarrow> set_world \<Rightarrow> goal_service \<Rightarrow>
   (argmax_error + goal) \<times> goal_service"
where
  "goal_set workspace session condition max_turns now w svc =
     (case validate_config condition max_turns of Inl e \<Rightarrow> (Inl e, svc) | Inr config \<Rightarrow>
     (case sw_workspace w of Inl e \<Rightarrow> (Inl e, svc) | Inr _ \<Rightarrow>
     (case sw_session w of Inl e \<Rightarrow> (Inl e, svc) | Inr session_workspace \<Rightarrow>
     (if session_workspace \<noteq> workspace
      then (Inl (service ''GOAL_SESSION_WORKSPACE_MISMATCH''
              ''The goal's chat does not belong to the selected workspace.''), svc)
      else
     (case clear_goal session now svc of (Inl e, svc1) \<Rightarrow> (Inl e, svc1) | (Inr _, svc1) \<Rightarrow>
     (case insert_initial_goal (sw_workspaces w) (sw_sessions w) (sw_uuid w) session_workspace session config now svc1 of
        (Inl e, svc2) \<Rightarrow> (Inl e, svc2)
      | (Inr g, svc2) \<Rightarrow>
     (case sw_state w of Inl e \<Rightarrow> (Inl e, svc2) | Inr st \<Rightarrow>
        (if is_settled st then
           (case sw_send w of
              Inl e \<Rightarrow>
                (case settle_service (goal_id g) Stopped (Some (sw_display w e)) now svc2 of
                   (Inl e', svc3) \<Rightarrow> (Inl e', svc3)
                 | (Inr _, svc3) \<Rightarrow> (Inl e, svc3))
            | Inr _ \<Rightarrow> (Inr g, spawn_driver (goal_id g) (sw_generation w) svc2))
         else (Inr g, spawn_driver (goal_id g) (sw_generation w) svc2)))))))))"

section \<open>The driver\<close>

text \<open>What others may do to the table while the driver waits: settle a goal, or insert one.\<close>

datatype goal_op =
    OpSettle string goal_state "string option" string
  | OpInsert "string list" "string list" goal

fun apply_op :: "goal_op \<Rightarrow> goal list \<Rightarrow> goal list" where
  "apply_op (OpSettle i st reason now) rows = snd (settle_goal i st reason now rows)"
| "apply_op (OpInsert ws ss g) rows = snd (insert_goal ws ss g rows)"

definition apply_ops :: "goal_op list \<Rightarrow> goal list \<Rightarrow> goal list" where
  "apply_ops ops rows = fold apply_op ops rows"

text \<open>
  One round of the loop as the world answers it: what happens while the driver waits for the
  session and how that wait ends; the transcript tail with its count of tool calls; what
  happens while the evaluator runs and its answer (\<open>None\<close> is a failed call); the ladder
  lookup, whether it found a rung; the answer to the send and to recording the route, and what
  happens meanwhile.
\<close>

record round =
  while_waiting :: "goal_op list"
  settled_as :: "argmax_error + session_state"
  tail_calls :: "argmax_error + nat"
  while_judging :: "goal_op list"
  judged :: "(goal_verdict \<times> string) option"
  escalation_for :: "argmax_error + bool"
  sent :: "argmax_error + unit"
  route_recorded :: "argmax_error + unit"
  while_sending :: "goal_op list"
  round_now :: string

record driver =
  idle_turns :: nat
  evaluator_failures :: nat
  not_yet_streak :: nat

datatype driver_result = Running driver | Returned "argmax_error + unit"

definition start_driver :: driver where
  "start_driver = \<lparr>idle_turns = 0, evaluator_failures = 0, not_yet_streak = 0\<rparr>"

definition interrupted :: "session_state \<Rightarrow> string option" where
  "interrupted st =
     (if st = Cancelled then Some ''Stopped: the turn was cancelled.''
      else if st = Failed then Some ''Stopped: the turn failed.''
      else None)"

text \<open>\<^verbatim>\<open>self.settle(..)?; return Ok(())\<close>.\<close>

definition settle_and_return ::
  "string \<Rightarrow> goal_state \<Rightarrow> string option \<Rightarrow> string \<Rightarrow> goal list \<Rightarrow> driver_result \<times> goal list"
where
  "settle_and_return i st reason now rows =
     (case settle_goal i st reason now rows of
        (Inl e, rows') \<Rightarrow> (Returned (Inl e), rows')
      | (Inr _, rows') \<Rightarrow> (Returned (Inr ()), rows'))"

definition TURN_IN_FLIGHT :: string where
  "TURN_IN_FLIGHT = ''SESSION_TURN_IN_FLIGHT''"

fun turn_in_flight :: "argmax_error \<Rightarrow> bool" where
  "turn_in_flight (ServiceError sub_code message) = (sub_code = TURN_IN_FLIGHT)"
| "turn_in_flight _ = False"

text \<open>The last part of a round: the next turn of a chat whose goal is not met yet.\<close>

definition send_next_turn :: "round \<Rightarrow> driver \<Rightarrow> driver_result" where
  "send_next_turn w d =
     (case (if not_yet_streak d \<ge> 2 then (escalation_for w, d\<lparr>not_yet_streak := 0\<rparr>) else (Inr False, d)) of
        (Inl e, _) \<Rightarrow> Returned (Inl e)
      | (Inr escalated, d') \<Rightarrow>
          (case sent w of
             Inr _ \<Rightarrow>
               (if escalated then (case route_recorded w of Inl e \<Rightarrow> Returned (Inl e) | Inr _ \<Rightarrow> Running d')
                else Running d')
           | Inl e \<Rightarrow> if turn_in_flight e then Running d' else Returned (Inl e)))"

text \<open>The part of a round after the verdict is recorded.\<close>

definition act_on_verdict ::
  "goal \<Rightarrow> goal_verdict \<Rightarrow> string option \<Rightarrow> nat \<Rightarrow> nat \<Rightarrow> round \<Rightarrow> driver \<Rightarrow> goal list \<Rightarrow> driver_result \<times> goal list"
where
  "act_on_verdict g verdict reason turns calls w d rows =
     (case verdict of
        Met \<Rightarrow> settle_and_return (goal_id g) Achieved reason (round_now w) rows
      | VerdictImpossible \<Rightarrow> settle_and_return (goal_id g) Impossible reason (round_now w) rows
      | NotYet \<Rightarrow>
          (let d = d\<lparr>not_yet_streak := not_yet_streak d + 1\<rparr>;
               d = d\<lparr>idle_turns := (if calls = 0 then idle_turns d + 1 else 0)\<rparr>
           in if idle_turns d \<ge> MAX_IDLE_TURNS then
                settle_and_return (goal_id g) Stopped
                  (Some ''Stopped: the agent went several turns without doing any work.'') (round_now w) rows
              else if turns \<ge> goal_max_turns g then
                settle_and_return (goal_id g) Stopped
                  (Some (''Stopped after '' @ nat_text turns @ '' turns without meeting the goal.''))
                  (round_now w) rows
              else (send_next_turn w d, rows)))"

text \<open>The part of a round from the evaluator's answer on.\<close>

definition judge_turn :: "goal \<Rightarrow> nat \<Rightarrow> round \<Rightarrow> driver \<Rightarrow> goal list \<Rightarrow> driver_result \<times> goal list" where
  "judge_turn g calls w d rows =
     (case judged w of
        None \<Rightarrow>
          (let d = d\<lparr>evaluator_failures := evaluator_failures d + 1\<rparr>
           in if evaluator_failures d \<ge> MAX_EVALUATOR_FAILURES then
                settle_and_return (goal_id g) Stopped
                  (Some ''Stopped: the evaluator could not be reached to judge the goal.'') (round_now w) rows
              else (Running d, rows))
      | Some (verdict, text) \<Rightarrow>
          (let d = d\<lparr>evaluator_failures := 0\<rparr>;
               reason = (if text = [] then None else Some text);
               turns = goal_turns g + 1
           in case update_goal_progress (goal_id g) turns reason (round_now w) rows of
                (Inl e, rows') \<Rightarrow> (Returned (Inl e), rows')
              | (Inr None, rows') \<Rightarrow> (Returned (Inr ()), rows')
              | (Inr (Some _), rows') \<Rightarrow> act_on_verdict g verdict reason turns calls w d rows'))"

definition driver_round :: "string \<Rightarrow> round \<Rightarrow> driver \<Rightarrow> goal list \<Rightarrow> driver_result \<times> goal list" where
  "driver_round i w d rows =
     (case active_goal i rows of
        Inl e \<Rightarrow> (Returned (Inl e), rows)
      | Inr None \<Rightarrow> (Returned (Inr ()), rows)
      | Inr (Some _) \<Rightarrow>
          (let rows1 = apply_ops (while_waiting w) rows
           in case settled_as w of
                Inl e \<Rightarrow> (Returned (Inl e), rows1)
              | Inr st \<Rightarrow>
                  (case active_goal i rows1 of
                     Inl e \<Rightarrow> (Returned (Inl e), rows1)
                   | Inr None \<Rightarrow> (Returned (Inr ()), rows1)
                   | Inr (Some g) \<Rightarrow>
                       (case interrupted st of
                          Some reason \<Rightarrow> settle_and_return (goal_id g) Stopped (Some reason) (round_now w) rows1
                        | None \<Rightarrow>
                            (case tail_calls w of
                               Inl e \<Rightarrow> (Returned (Inl e), rows1)
                             | Inr calls \<Rightarrow> judge_turn g calls w d (apply_ops (while_judging w) rows1))))))"

text \<open>The loop, as long as the list of rounds lasts.\<close>

fun run_driver :: "string \<Rightarrow> round list \<Rightarrow> driver \<Rightarrow> goal list \<Rightarrow> driver_result \<times> goal list" where
  "run_driver i [] d rows = (Running d, rows)"
| "run_driver i (w # ws) d rows =
     (case driver_round i w d rows of
        (Returned r, rows') \<Rightarrow> (Returned r, rows')
      | (Running d', rows') \<Rightarrow> run_driver i ws d' (apply_ops (while_sending w) rows'))"

text \<open>The task around the driver: an error settles the goal, when the task still owns its slot.\<close>

definition finish_task ::
  "string \<Rightarrow> string \<Rightarrow> (argmax_error \<Rightarrow> string) \<Rightarrow> string \<Rightarrow> argmax_error + unit \<Rightarrow> goal_service \<Rightarrow> goal_service"
where
  "finish_task i generation display now result svc =
     (let (owns, tasks) = remove_current_driver (goal_tasks svc) i generation;
          svc1 = svc\<lparr>goal_tasks := tasks\<rparr>
      in if owns then
           (case result of
              Inl e \<Rightarrow> snd (settle_service i Stopped (Some (display e)) now svc1)
            | Inr _ \<Rightarrow> svc1)
         else svc1)"

section \<open>The table settles each goal once\<close>

definition terminal_verdict :: "goal_state \<times> string option \<times> string \<Rightarrow> bool" where
  "terminal_verdict v \<longleftrightarrow> fst v \<noteq> Active"

interpretation goal_rows: settle_store goal_id goal_active terminal_verdict settle_rows settled_goal
  by unfold_locales
    (auto simp: settle_rows_def update_active_def settled_goal_def goal_active_def terminal_verdict_def split: prod.splits)

lemma update_active_ids: "(\<And>g. goal_id (f g) = goal_id g) \<Longrightarrow> map goal_id (update_active f i rows) = map goal_id rows"
  by (simp add: update_active_def)

text \<open>The constraints of the table: ids are unique, and a session has at most one active goal.\<close>

definition goals_ok :: "goal list \<Rightarrow> bool" where
  "goals_ok rows \<longleftrightarrow> distinct (map goal_id rows) \<and> distinct (map goal_session (filter goal_active rows))"

lemma filter_update_active:
  assumes "\<And>g. goal_active g \<Longrightarrow> goal_session (f g) = goal_session g"
  shows "map goal_session (filter goal_active (update_active f i rows)) =
    map goal_session (filter (\<lambda>g. goal_active g \<and> (goal_id g = i \<longrightarrow> goal_active (f g))) rows)"
  using assms by (induction rows) (auto simp: update_active_def)

lemma distinct_map_filter_sub:
  "distinct (map f (filter P xs)) \<Longrightarrow> (\<And>x. Q x \<Longrightarrow> P x) \<Longrightarrow> distinct (map f (filter Q xs))"
  by (induction xs) (auto split: if_splits)

lemma goals_ok_update_active:
  assumes "goals_ok rows" and "\<And>g. goal_id (f g) = goal_id g" and "\<And>g. goal_session (f g) = goal_session g"
  shows "goals_ok (update_active f i rows)"
  using assms
  by (auto simp: goals_ok_def update_active_ids filter_update_active intro: distinct_map_filter_sub)

lemma settled_goal_fields [simp]:
  "goal_id (settled_goal v g) = goal_id g" "goal_session (settled_goal v g) = goal_session g"
  "goal_turns (settled_goal v g) = goal_turns g" "goal_max_turns (settled_goal v g) = goal_max_turns g"
  "goal_state (settled_goal v g) = fst v"
  by (simp_all add: settled_goal_def split: prod.splits)

lemma settle_goal_ok [inv_intros]: "goals_ok rows \<Longrightarrow> goals_ok (snd (settle_goal i st reason now rows))"
  by (simp add: settle_goal_def settle_rows_def Let_def goals_ok_update_active)

lemma progress_ok [inv_intros]: "goals_ok rows \<Longrightarrow> goals_ok (snd (update_goal_progress i turns reason now rows))"
  by (simp add: update_goal_progress_def progressed_def Let_def goals_ok_update_active)

lemma insert_goal_ok [inv_intros]: "goals_ok rows \<Longrightarrow> goals_ok (snd (insert_goal ws ss g rows))"
  by (auto simp: insert_goal_def goals_ok_def list_ex_iff)

lemma apply_op_ok [inv_intros]: "goals_ok rows \<Longrightarrow> goals_ok (apply_op op rows)"
  by (cases op) (auto intro: inv_intros)

lemma apply_ops_ok [inv_intros]: "goals_ok rows \<Longrightarrow> goals_ok (apply_ops ops rows)"
  unfolding apply_ops_def by (induction ops arbitrary: rows) (auto intro: inv_intros)

section \<open>Runs of the driver\<close>

text \<open>What others and the driver do to the row of goal \<open>i\<close>: its budget never changes.\<close>

definition goal_row :: "string \<Rightarrow> goal list \<Rightarrow> goal option" where
  "goal_row i rows = find (\<lambda>g. goal_id g = i) rows"

lemma find_goal_row: "find_goal rows i = (case goal_row i rows of Some g \<Rightarrow> Inr g | None \<Rightarrow> Inl (record_not_found ''goal'' i))"
  by (simp add: find_goal_def goal_row_def)

lemma goal_row_mem: "goal_row i rows = Some g \<Longrightarrow> g \<in> set rows \<and> goal_id g = i"
  unfolding goal_row_def by (rule find_Some_mem)

lemma goal_row_unique: "goals_ok rows \<Longrightarrow> goal_row i rows = Some g \<Longrightarrow> h \<in> set rows \<Longrightarrow> goal_id h = i \<Longrightarrow> h = g"
  using goal_row_mem [of i rows g] by (auto simp: goals_ok_def distinct_map inj_on_def)

lemma goal_row_update:
  assumes "\<And>g. goal_id (f g) = goal_id g"
  shows "goal_row i (update_active f j rows) =
    map_option (\<lambda>g. if i = j \<and> goal_active g then f g else g) (goal_row i rows)"
  using assms by (induction rows) (auto simp: goal_row_def update_active_def)

lemma goal_row_insert: "goal_row i rows = Some g \<Longrightarrow> goal_row i (snd (insert_goal ws ss h rows)) = Some g"
proof -
  have "find P xs = Some g \<Longrightarrow> find P (xs @ ys) = Some g" for P and xs ys :: "goal list"
    by (induction xs) auto
  then show "goal_row i rows = Some g \<Longrightarrow> goal_row i (snd (insert_goal ws ss h rows)) = Some g"
    by (simp add: insert_goal_def goal_row_def)
qed

definition same_budget :: "goal \<Rightarrow> goal \<Rightarrow> bool" where
  "same_budget g h \<longleftrightarrow> goal_turns h = goal_turns g \<and> goal_max_turns h = goal_max_turns g"

lemma goal_row_settle:
  "goal_row i rows = Some g \<Longrightarrow> \<exists>h. goal_row i (snd (settle_goal j st reason now rows)) = Some h \<and> same_budget g h"
  by (auto simp: settle_goal_def settle_rows_def Let_def goal_row_update same_budget_def)

lemma goal_row_op: "goal_row i rows = Some g \<Longrightarrow> \<exists>h. goal_row i (apply_op op rows) = Some h \<and> same_budget g h"
proof (cases op)
  case (OpSettle j st reason now)
  then show "goal_row i rows = Some g \<Longrightarrow> \<exists>h. goal_row i (apply_op op rows) = Some h \<and> same_budget g h"
    by (simp add: goal_row_settle)
qed (simp add: goal_row_insert same_budget_def)

lemma goal_row_ops: "goal_row i rows = Some g \<Longrightarrow> \<exists>h. goal_row i (apply_ops ops rows) = Some h \<and> same_budget g h"
proof (induction ops arbitrary: rows g)
  case (Cons op ops)
  obtain h where "goal_row i (apply_op op rows) = Some h" and "same_budget g h"
    using goal_row_op [OF Cons.prems] by blast
  then show ?case using Cons.IH by (fastforce simp: apply_ops_def same_budget_def)
qed (simp add: apply_ops_def same_budget_def)

text \<open>No row of goal \<open>i\<close> is active.\<close>

definition inactive :: "string \<Rightarrow> goal list \<Rightarrow> bool" where
  "inactive i rows \<longleftrightarrow> (\<forall>g \<in> set rows. goal_id g = i \<longrightarrow> \<not> goal_active g)"

lemma active_goal_Some: "active_goal i rows = Inr (Some g) \<longleftrightarrow> goal_row i rows = Some g \<and> goal_active g"
  by (auto simp: active_goal_def find_goal_row goal_active_def split: option.splits)

lemma active_goal_None: "goals_ok rows \<Longrightarrow> active_goal i rows = Inr None \<Longrightarrow> inactive i rows"
  by (auto simp: active_goal_def find_goal_row goal_active_def inactive_def dest: goal_row_unique
      split: option.splits if_splits)

lemma settle_goal_inactive: "st \<noteq> Active \<Longrightarrow> inactive i (snd (settle_goal i st reason now rows))"
  using goal_rows.settle_settles [of "(st, reason, now)" _ i rows]
  by (auto simp: settle_goal_def Let_def inactive_def terminal_verdict_def)

lemma active_rows_0: "active_rows i rows = 0 \<longleftrightarrow> inactive i rows"
  by (auto simp: active_rows_def inactive_def filter_empty_conv)

lemma update_active_idle: "inactive i rows \<Longrightarrow> update_active f i rows = rows"
  unfolding update_active_def inactive_def by (rule map_idI) auto

lemma settle_and_return_Returned:
  assumes "settle_and_return i st reason now rows = (d, rows')"
  shows "\<exists>r. d = Returned r" and "rows' = snd (settle_goal i st reason now rows)"
  using assms by (auto simp: settle_and_return_def split: prod.splits sum.splits)

text \<open>
  The invariant of a run: the row is there, the budget is not spent, the evaluator has failed
  less often in a row than it may; and what a round leaves behind, \<open>fuel\<close> being the rounds
  the goal can still live through.
\<close>

definition fuel :: "goal \<Rightarrow> driver \<Rightarrow> nat" where
  "fuel g d = 3 * (goal_max_turns g - goal_turns g) - evaluator_failures d"

definition within_budget :: "string \<Rightarrow> goal list \<Rightarrow> driver \<Rightarrow> goal \<Rightarrow> bool" where
  "within_budget i rows d g \<longleftrightarrow>
     goals_ok rows \<and> goal_row i rows = Some g \<and> goal_turns g < goal_max_turns g \<and> evaluator_failures d < 3"

definition round_effect ::
  "string \<Rightarrow> goal \<Rightarrow> driver \<Rightarrow> driver_result \<times> goal list \<Rightarrow> bool" where
  "round_effect i g d out \<longleftrightarrow>
     (case out of (res, rows') \<Rightarrow>
        goals_ok rows' \<and>
        (\<exists>h. goal_row i rows' = Some h \<and> goal_max_turns h = goal_max_turns g \<and> goal_turns h \<le> goal_max_turns h \<and>
           (case res of
              Running d' \<Rightarrow> within_budget i rows' d' h \<and> fuel h d' < fuel g d
            | Returned r \<Rightarrow> is_ok r \<longrightarrow> inactive i rows')))"

lemma settle_effect:
  assumes "goals_ok rows" and "goal_row i rows = Some h" and "goal_max_turns h = goal_max_turns g"
    and "goal_turns h \<le> goal_max_turns h" and "st \<noteq> Active"
  shows "round_effect i g d (settle_and_return i st reason now rows)"
proof -
  obtain res rows' where eq: "settle_and_return i st reason now rows = (res, rows')" by fastforce
  obtain h' where "goal_row i rows' = Some h'" and "same_budget h h'"
    using goal_row_settle [OF assms(2)] settle_and_return_Returned(2) [OF eq] by blast
  moreover have "inactive i rows'" "goals_ok rows'"
    using settle_and_return_Returned(2) [OF eq] settle_goal_inactive assms(1,5) by (auto intro: inv_intros)
  moreover obtain r where "res = Returned r" using settle_and_return_Returned(1) [OF eq] by blast
  ultimately show ?thesis using assms eq by (auto simp: round_effect_def same_budget_def)
qed

lemma send_next_turn_driver:
  "send_next_turn w d = Running d' \<Longrightarrow> evaluator_failures d' = evaluator_failures d"
  by (auto simp: send_next_turn_def split: if_splits sum.splits prod.splits)

lemma send_next_turn_Returned: "send_next_turn w d = Returned r \<Longrightarrow> \<not> is_ok r"
  by (auto simp: send_next_turn_def is_ok_def split: if_splits sum.splits prod.splits)

lemma act_on_verdict_effect:
  assumes ok: "goals_ok rows" and row: "goal_row i rows = Some h"
    and h: "goal_max_turns h = goal_max_turns g" "goal_turns h = turns" "goal_id g = i"
    and turns: "turns = goal_turns g + 1" "goal_turns g < goal_max_turns g"
    and fails: "evaluator_failures d' = 0" "evaluator_failures d < 3"
  shows "round_effect i g d (act_on_verdict g verdict reason turns calls w d' rows)"
proof -
  have settle: "round_effect i g d (settle_and_return (goal_id g) st why now rows)" if "st \<noteq> Active" for st why now
    using settle_effect [OF ok row _ _ that, of g] h turns by simp
  have sends: "round_effect i g d (send_next_turn w d'', rows)"
    if less: "turns < goal_max_turns g" and zero: "evaluator_failures d'' = 0" for d''
  proof (cases "send_next_turn w d''")
    case (Running e)
    then have "evaluator_failures e = 0" using send_next_turn_driver zero by metis
    moreover from this have "fuel h e < fuel g d" using turns h fails(2) by (simp add: fuel_def)
    ultimately show ?thesis using ok row h less Running by (simp add: round_effect_def within_budget_def)
  next
    case (Returned r)
    then have "\<not> is_ok r" by (rule send_next_turn_Returned)
    then show ?thesis using ok row h less Returned by (simp add: round_effect_def)
  qed
  show ?thesis
    using settle sends fails(1) by (cases verdict) (auto simp: act_on_verdict_def Let_def)
qed

lemma judge_turn_effect:
  assumes ok: "goals_ok rows" and row: "goal_row i rows = Some h" and same: "same_budget g h" and id: "goal_id g = i"
    and turns: "goal_turns g < goal_max_turns g" and fails: "evaluator_failures d < 3"
  shows "round_effect i g d (judge_turn g calls w d rows)"
proof (cases "judged w")
  case None
  have "round_effect i g d (settle_and_return (goal_id g) Stopped why now rows)" for why now
    using settle_effect [OF ok row, of g Stopped] same turns id by (simp add: same_budget_def)
  moreover have "round_effect i g d (Running (d\<lparr>evaluator_failures := evaluator_failures d + 1\<rparr>), rows)"
    if "evaluator_failures d + 1 < 3"
    using that ok row same turns by (auto simp: round_effect_def within_budget_def same_budget_def fuel_def)
  ultimately show ?thesis using None by (auto simp: judge_turn_def Let_def MAX_EVALUATOR_FAILURES_def)
next
  case (Some v)
  obtain verdict answer where v: "v = (verdict, answer)" by fastforce
  define reason where "reason = (if answer = [] then None else Some answer)"
  obtain x rows' where out: "update_goal_progress i (goal_turns g + 1) reason (round_now w) rows = (x, rows')"
    by fastforce
  have turn: "judge_turn g calls w d rows =
      (case x of Inl e \<Rightarrow> (Returned (Inl e), rows')
       | Inr None \<Rightarrow> (Returned (Inr ()), rows')
       | Inr (Some _) \<Rightarrow>
           act_on_verdict g verdict reason (goal_turns g + 1) calls w (d\<lparr>evaluator_failures := 0\<rparr>) rows')"
    unfolding judge_turn_def Some v option.case prod.case Let_def id reason_def [symmetric] out by (rule refl)
  have rows': "rows' = update_active (progressed (goal_turns g + 1) reason (round_now w)) i rows"
    and x: "x = after_update i rows rows'"
    using out by (auto simp: update_goal_progress_def Let_def)
  have row': "goal_row i rows' = Some (if goal_active h
      then progressed (goal_turns g + 1) reason (round_now w) h else h)"
    using row by (simp add: rows' goal_row_update progressed_def)
  have ok': "goals_ok rows'" using progress_ok [OF ok, of i "goal_turns g + 1" reason "round_now w"] out by simp
  have stops: "round_effect i g d (Returned r, rows')" if "is_ok r \<longrightarrow> inactive i rows'" for r
    using that row' ok' same turns by (auto simp: round_effect_def same_budget_def progressed_def)
  show ?thesis
  proof (cases x)
    case (Inl e)
    then show ?thesis using stops [of "Inl e"] by (simp add: turn)
  next
    case (Inr changed)
    show ?thesis
    proof (cases changed)
      case None
      then have "inactive i rows" using x Inr
        by (auto simp: after_update_def active_rows_0 split: if_splits sum.splits)
      then have "inactive i rows'" unfolding rows' by (simp only: update_active_idle)
      then show ?thesis using stops [of "Inr ()"] Inr None by (simp add: turn)
    next
      case changed: (Some h')
      then have "\<not> inactive i rows" using x Inr
        by (auto simp: after_update_def active_rows_0 split: if_splits)
      then have "goal_active h" using goal_row_unique [OF ok row] by (auto simp: inactive_def)
      then have row'': "goal_row i rows' = Some (progressed (goal_turns g + 1) reason (round_now w) h)"
        using row' by simp
      have "round_effect i g d (act_on_verdict g verdict reason (goal_turns g + 1) calls w
          (d\<lparr>evaluator_failures := 0\<rparr>) rows')"
        by (rule act_on_verdict_effect [OF ok' row''])
          (use same id turns fails in \<open>simp_all add: same_budget_def progressed_def\<close>)
      then show ?thesis using Inr changed by (simp add: turn)
    qed
  qed
qed

lemma round_effect_cong: "same_budget g h \<Longrightarrow> round_effect i h d out = round_effect i g d out"
proof -
  assume "same_budget g h"
  then have "fuel h d = fuel g d" and "goal_max_turns h = goal_max_turns g"
    by (simp_all add: same_budget_def fuel_def)
  then show ?thesis by (simp only: round_effect_def)
qed

lemma driver_round_effect:
  assumes "within_budget i rows d g"
  shows "round_effect i g d (driver_round i w d rows)"
proof -
  have ok: "goals_ok rows" and row: "goal_row i rows = Some g" and turns: "goal_turns g < goal_max_turns g"
    and fails: "evaluator_failures d < 3"
    using assms by (simp_all add: within_budget_def)
  let ?rows1 = "apply_ops (while_waiting w) rows"
  obtain h where h: "goal_row i ?rows1 = Some h" and same: "same_budget g h" using goal_row_ops [OF row] by blast
  have ok1: "goals_ok ?rows1" using ok by (rule apply_ops_ok)
  let ?rows2 = "apply_ops (while_judging w) ?rows1"
  obtain k where k: "goal_row i ?rows2 = Some k" and same2: "same_budget h k" using goal_row_ops [OF h] by blast
  have ok2: "goals_ok ?rows2" using ok1 by (rule apply_ops_ok)
  have id: "goal_id h = i" using goal_row_mem [OF h] by simp
  have stops: "round_effect i g d (Returned r, rows')"
    if "goals_ok rows'" "goal_row i rows' = Some x" "same_budget g x" "is_ok r \<longrightarrow> inactive i rows'" for r rows' x
    using that turns by (simp add: round_effect_def same_budget_def)
  have settle: "round_effect i g d (settle_and_return i Stopped why now ?rows1)" for why now
    using settle_effect [OF ok1 h, of g Stopped] same turns by (simp add: same_budget_def)
  have judge: "round_effect i g d (judge_turn h calls w d ?rows2)" for calls
    using judge_turn_effect [OF ok2 k same2 id _ fails] same turns round_effect_cong [OF same]
    by (simp add: same_budget_def)
  have same0: "same_budget g g" by (simp add: same_budget_def)
  consider (gone) "active_goal i rows = Inr None" | (here) "goal_active g"
    using row by (cases "goal_active g") (simp_all add: active_goal_def find_goal_row goal_active_def)
  then show ?thesis
  proof cases
    case gone
    then show ?thesis using stops [OF ok row same0] active_goal_None [OF ok gone]
      by (simp add: driver_round_def)
  next
    case here
    then have first: "active_goal i rows = Inr (Some g)" using row by (simp add: active_goal_Some)
    show ?thesis
    proof (cases "settled_as w")
      case (Inl e)
      then show ?thesis using stops [OF ok1 h same] first by (simp add: driver_round_def Let_def)
    next
      case settled: (Inr st)
      show ?thesis
      proof (cases "goal_active h")
        case False
        then have second: "active_goal i ?rows1 = Inr None"
          using h by (simp add: active_goal_def find_goal_row goal_active_def)
        then show ?thesis using stops [OF ok1 h same] active_goal_None [OF ok1 second] first settled
          by (simp add: driver_round_def Let_def)
      next
        case True
        then have second: "active_goal i ?rows1 = Inr (Some h)" using h by (simp add: active_goal_Some)
        then show ?thesis using stops [OF ok1 h same] settle judge first settled id
          by (auto simp: driver_round_def Let_def split: option.splits sum.splits)
      qed
    qed
  qed
qed

lemma run_driver_ends:
  assumes "within_budget i rows d g" and "fuel g d \<le> length ws"
  shows "\<exists>r rows' h. run_driver i ws d rows = (Returned r, rows') \<and> goals_ok rows' \<and> goal_row i rows' = Some h \<and>
    goal_max_turns h = goal_max_turns g \<and> goal_turns h \<le> goal_max_turns g \<and> (is_ok r \<longrightarrow> inactive i rows')"
  using assms
proof (induction ws arbitrary: rows d g)
  case Nil
  then have "0 < goal_max_turns g - goal_turns g" and "evaluator_failures d < 3"
    by (simp_all add: within_budget_def)
  then have "0 < fuel g d" unfolding fuel_def by linarith
  with Nil show ?case by simp
next
  case (Cons w ws)
  obtain res rows' where out: "driver_round i w d rows = (res, rows')" by fastforce
  from driver_round_effect [OF Cons.prems(1), of w] obtain h
    where h: "goal_row i rows' = Some h" "goal_max_turns h = goal_max_turns g" "goal_turns h \<le> goal_max_turns h"
      and ok: "goals_ok rows'"
      and res: "case res of Running d' \<Rightarrow> within_budget i rows' d' h \<and> fuel h d' < fuel g d
        | Returned r \<Rightarrow> is_ok r \<longrightarrow> inactive i rows'"
    by (auto simp: out round_effect_def)
  show ?case
  proof (cases res)
    case (Returned r)
    then show ?thesis using out h ok res by simp
  next
    case (Running d')
    let ?rows2 = "apply_ops (while_sending w) rows'"
    obtain k where k: "goal_row i ?rows2 = Some k" and same: "same_budget h k" using goal_row_ops [OF h(1)] by blast
    have "within_budget i ?rows2 d' k"
      using res Running k same apply_ops_ok by (auto simp: within_budget_def same_budget_def)
    moreover have "fuel k d' \<le> length ws"
      using res Running Cons.prems(2) same by (simp add: fuel_def same_budget_def)
    ultimately show ?thesis using Cons.IH [of ?rows2 d' k] out Running h(2) same by (simp add: same_budget_def)
  qed
qed

section \<open>Settled rows never change\<close>

lemma update_active_keeps: "r \<in> set rows \<Longrightarrow> \<not> goal_active r \<Longrightarrow> r \<in> set (update_active f i rows)"
  by (auto simp: update_active_def image_iff intro: bexI [where x = r])

lemma settle_goal_keeps:
  "r \<in> set rows \<Longrightarrow> \<not> goal_active r \<Longrightarrow> r \<in> set (snd (settle_goal i st reason now rows))"
  by (simp add: settle_goal_def Let_def goal_rows.settle_keeps_settled)

lemma insert_goal_keeps: "r \<in> set rows \<Longrightarrow> r \<in> set (snd (insert_goal ws ss g rows))"
  by (simp add: insert_goal_def)

lemma apply_ops_keeps: "r \<in> set rows \<Longrightarrow> \<not> goal_active r \<Longrightarrow> r \<in> set (apply_ops ops rows)"
proof (induction ops arbitrary: rows)
  case (Cons op ops)
  have "r \<in> set (apply_op op rows)"
    using Cons.prems by (cases op) (simp_all add: settle_goal_keeps insert_goal_keeps)
  then show ?case using Cons.IH Cons.prems(2) by (simp add: apply_ops_def)
qed (simp add: apply_ops_def)

lemma settle_and_return_keeps:
  "r \<in> set rows \<Longrightarrow> \<not> goal_active r \<Longrightarrow> r \<in> set (snd (settle_and_return i st reason now rows))"
  using settle_goal_keeps [of r rows i st reason now]
  by (auto simp: settle_and_return_def split: prod.splits sum.splits)

lemma act_on_verdict_keeps:
  "r \<in> set rows \<Longrightarrow> \<not> goal_active r \<Longrightarrow> r \<in> set (snd (act_on_verdict g v reason turns calls w d rows))"
  by (cases v) (auto simp: act_on_verdict_def Let_def settle_and_return_keeps)

lemma judge_turn_keeps:
  assumes "r \<in> set rows" and "\<not> goal_active r"
  shows "r \<in> set (snd (judge_turn g calls w d rows))"
proof -
  have "r \<in> set (snd (update_goal_progress j turns reason now rows))" for j turns reason now
    using assms by (simp add: update_goal_progress_def Let_def update_active_keeps)
  then have "r \<in> set rows'" if "update_goal_progress j turns reason now rows = (x, rows')" for j turns reason now x rows'
    using that by (metis snd_conv)
  with assms show ?thesis
    by (auto simp: judge_turn_def Let_def settle_and_return_keeps act_on_verdict_keeps
        split: option.splits prod.splits sum.splits)
qed

lemma driver_round_keeps:
  assumes "r \<in> set rows" and "\<not> goal_active r"
  shows "r \<in> set (snd (driver_round i w d rows))"
  using assms
  by (auto simp: driver_round_def Let_def apply_ops_keeps settle_and_return_keeps judge_turn_keeps
      split: option.splits sum.splits)

lemma run_driver_keeps:
  "r \<in> set rows \<Longrightarrow> \<not> goal_active r \<Longrightarrow> r \<in> set (snd (run_driver i ws d rows))"
proof (induction ws arbitrary: d rows)
  case (Cons w ws)
  obtain res rows' where out: "driver_round i w d rows = (res, rows')" by fastforce
  then have "r \<in> set rows'" using driver_round_keeps [OF Cons.prems, of i w d] by simp
  then show ?case using out Cons.IH Cons.prems(2) by (cases res) (simp_all add: apply_ops_keeps)
qed simp

section \<open>Setting and clearing\<close>

lemma clear_goal_spec:
  assumes "goals_ok (goals svc)" and "clear_goal session now svc = (r, svc')"
  shows "goals_ok (goals svc') \<and> (\<forall>g \<in> set (goals svc'). goal_session g = session \<longrightarrow> \<not> goal_active g) \<and>
    (\<forall>g \<in> set (goals svc). \<not> goal_active g \<longrightarrow> g \<in> set (goals svc'))"
proof (cases "find_active_goal_for_session (goals svc) session")
  case None
  then have "svc' = svc" using assms(2) by (simp add: clear_goal_def)
  moreover have "\<forall>g \<in> set (goals svc). goal_session g = session \<longrightarrow> \<not> goal_active g"
    using None unfolding find_active_goal_for_session_def find_None_all by blast
  ultimately show ?thesis using assms(1) by simp
next
  case (Some g)
  then have g: "g \<in> set (goals svc)" "goal_session g = session" "goal_active g"
    unfolding find_active_goal_for_session_def by (auto dest!: find_Some_mem)
  let ?rows = "snd (settle_goal (goal_id g) Stopped (Some ''Goal cleared.'') now (goals svc))"
  have rows: "goals svc' = ?rows" using assms(2) Some
    by (auto simp: clear_goal_def settle_service_def split: prod.splits sum.splits)
  have "\<not> goal_active h" if h: "h \<in> set ?rows" "goal_session h = session" for h
  proof
    assume act: "goal_active h"
    have "h \<in> set (goals svc)"
      using goal_rows.settle_no_new_live [of "(Stopped, Some ''Goal cleared.'', now)" h "goal_id g" "goals svc"] h(1) act
      by (simp add: settle_goal_def Let_def terminal_verdict_def)
    then have "h = g" using assms(1) g h(2) act
      by (auto simp: goals_ok_def distinct_map inj_on_def)
    moreover have "inactive (goal_id g) ?rows" by (rule settle_goal_inactive) simp
    ultimately show False using act h(1) by (auto simp: inactive_def)
  qed
  then show ?thesis using rows assms(1) by (simp add: settle_goal_ok settle_goal_keeps)
qed

lemma spawn_driver_goals [simp]: "goals (spawn_driver i gen svc) = goals svc"
  by (simp add: spawn_driver_def)

lemma insert_goal_Inr:
  assumes "insert_goal ws ss g rows = (Inr g', rows')"
  shows "g' = g \<and> rows' = rows @ [g]"
proof -
  have "find (\<lambda>x. goal_id x = goal_id g) (rows @ [g]) = Some g" if "goal_id g \<notin> goal_id ` set rows"
    using that by (induction rows) auto
  then show ?thesis using assms by (auto simp: insert_goal_def find_goal_def split: if_splits)
qed

section \<open>Properties\<close>

text \<open>C8: whatever the evaluator, the provider and concurrent operations on the table do, the driver
  of a goal returns after at most three rounds for every turn left in the goal's budget; the
  goal is never judged more often than its budget; and when the task that owns the slot ends,
  the goal is settled, by the driver itself or by the task on its error, and the slot free.\<close>

theorem goal_task_ends:
  assumes "goals_ok (goals svc)" and "find_goal (goals svc) i = Inr g" and "goal_turns g < goal_max_turns g"
    and "goal_tasks svc i = Some generation" and "3 * (goal_max_turns g - goal_turns g) \<le> length ws"
  shows "\<exists>r rows h. run_driver i ws start_driver (goals svc) = (Returned r, rows) \<and> find_goal rows i = Inr h \<and>
    goal_turns h \<le> goal_max_turns g \<and>
    inactive i (goals (finish_task i generation display now r (svc\<lparr>goals := rows\<rparr>))) \<and>
    goal_tasks (finish_task i generation display now r (svc\<lparr>goals := rows\<rparr>)) i = None"
proof -
  have "within_budget i (goals svc) start_driver g"
    using assms(1-3) by (simp add: within_budget_def start_driver_def find_goal_row split: option.splits)
  moreover have "fuel g start_driver \<le> length ws" using assms(5) by (simp add: fuel_def start_driver_def)
  ultimately obtain r rows h where run: "run_driver i ws start_driver (goals svc) = (Returned r, rows)"
    and h: "goal_row i rows = Some h" "goal_turns h \<le> goal_max_turns g" and ok: "is_ok r \<longrightarrow> inactive i rows"
    using run_driver_ends by blast
  have "inactive i (goals (finish_task i generation display now r (svc\<lparr>goals := rows\<rparr>)))"
  proof (cases r)
    case (Inl e)
    then show ?thesis using assms(4)
      by (simp add: finish_task_def remove_current_driver_def settle_service_def split_beta settle_goal_inactive)
  next
    case (Inr u)
    then show ?thesis using assms(4) ok by (simp add: finish_task_def remove_current_driver_def)
  qed
  moreover have "goal_tasks (finish_task i generation display now r (svc\<lparr>goals := rows\<rparr>)) i = None"
    using assms(4)
    by (cases r) (simp_all add: finish_task_def remove_current_driver_def settle_service_def split_beta Let_def)
  ultimately show ?thesis using run h by (auto simp: find_goal_row)
qed

definition sample_goal :: goal where
  "sample_goal = \<lparr>goal_id = ''g'', goal_workspace = ''w'', goal_session = ''s'', goal_condition = ''tests pass'',
     goal_state = Active, goal_turns = 0, goal_max_turns = 1, goal_reason = None,
     goal_created = ''2026'', goal_updated = ''2026''\<rparr>"

definition sample_service :: goal_service where
  "sample_service = \<lparr>goals = [sample_goal], goal_tasks = [''g'' \<mapsto> ''gen'']\<rparr>"

definition sample_round :: round where
  "sample_round = \<lparr>while_waiting = [], settled_as = Inr Complete, tail_calls = Inr 2, while_judging = [],
     judged = Some (NotYet, ''one test fails''), escalation_for = Inr False, sent = Inr (), route_recorded = Inr (),
     while_sending = [], round_now = ''2027''\<rparr>"

definition sample_display :: "argmax_error \<Rightarrow> string" where
  "sample_display e = ''failed''"

theorem goal_task_ends_witness:
  "\<exists>r rows. run_driver ''g'' (replicate 3 sample_round) start_driver [sample_goal] = (Returned r, rows) \<and>
     inactive ''g'' (goals (finish_task ''g'' ''gen'' sample_display ''2027'' r (sample_service\<lparr>goals := rows\<rparr>)))"
proof -
  have "goals_ok (goals sample_service)" by (simp add: goals_ok_def sample_service_def sample_goal_def)
  moreover have "find_goal (goals sample_service) ''g'' = Inr sample_goal"
    by (simp add: find_goal_def sample_service_def sample_goal_def)
  moreover have "goal_turns sample_goal < goal_max_turns sample_goal" by (simp add: sample_goal_def)
  moreover have "goal_tasks sample_service ''g'' = Some ''gen''" by (simp add: sample_service_def)
  moreover have "3 * (goal_max_turns sample_goal - goal_turns sample_goal) \<le> length (replicate 3 sample_round)"
    by (simp add: sample_goal_def)
  ultimately show ?thesis
    using goal_task_ends [of sample_service "''g''" sample_goal "''gen''" "replicate 3 sample_round" sample_display "''2027''"]
    by (auto simp: sample_service_def)
qed

text \<open>A goal that has settled is never changed again: its row survives, as it is, every run of
  every driver with everything that happens meanwhile, every end of a task, and every clearing
  and setting of goals, so a driver that raced a clear cannot resurrect it.\<close>

lemma settled_goal_is_final:
  assumes "r \<in> set (goals svc)" and "\<not> goal_active r" and "goals_ok (goals svc)"
  shows "r \<in> set (snd (run_driver i ws d (goals svc))) \<and>
    r \<in> set (goals (finish_task i generation display now result svc)) \<and>
    r \<in> set (goals (snd (clear_goal session now svc))) \<and>
    r \<in> set (goals (snd (goal_set workspace session condition max_turns now w svc)))"
proof (intro conjI)
  show "r \<in> set (snd (run_driver i ws d (goals svc)))" using assms by (simp add: run_driver_keeps)
  show "r \<in> set (goals (finish_task i generation display now result svc))"
    using assms by (cases result)
      (simp_all add: finish_task_def remove_current_driver_def settle_service_def settle_goal_keeps split_beta Let_def)
  have clear: "r \<in> set (goals svc1)" if "clear_goal session now svc = (x, svc1)" for x svc1
    using clear_goal_spec [OF assms(3) that] assms by blast
  then show "r \<in> set (goals (snd (clear_goal session now svc)))" by (metis surjective_pairing)
  have ins: "r \<in> set (goals svc2)"
    if "insert_initial_goal a b u ws' session config now svc1 = (y, svc2)" "r \<in> set (goals svc1)"
    for a b u ws' config y svc1 svc2
    using that insert_goal_keeps [of r "goals svc1" a b "new_goal u ws' session config now"]
    by (auto simp: insert_initial_goal_def split: prod.splits)
  have settle: "r \<in> set (goals svc3)" if "settle_service j Stopped why now svc2 = (z, svc3)" "r \<in> set (goals svc2)"
    for j why z svc2 svc3
    using that settle_goal_keeps [OF that(2) assms(2), of j Stopped why now]
    by (auto simp: settle_service_def split: prod.splits)
  show "r \<in> set (goals (snd (goal_set workspace session condition max_turns now w svc)))"
    unfolding goal_set_def
    by (auto simp: assms(1) split: sum.splits prod.splits dest!: clear intro: ins settle)
qed

lemma settled_goal_is_final_witness:
  "(sample_goal\<lparr>goal_state := Stopped\<rparr>) \<in> set (snd (run_driver ''g'' [sample_round] start_driver [sample_goal\<lparr>goal_state := Stopped\<rparr>]))"
  using settled_goal_is_final [of "sample_goal\<lparr>goal_state := Stopped\<rparr>"
      "sample_service\<lparr>goals := [sample_goal\<lparr>goal_state := Stopped\<rparr>]\<rparr>"]
  by (simp add: goals_ok_def goal_active_def del: run_driver.simps)

text \<open>Setting a goal leaves the chat with exactly one active goal, the new one, with the trimmed
  condition and a budget between one and a hundred turns; every goal the chat pursued before is
  settled, and the table's constraints hold again.\<close>

lemma goal_set_replaces:
  assumes "goals_ok (goals svc)" and "goal_set workspace session condition max_turns now w svc = (Inr g, svc')"
  shows "goals_ok (goals svc') \<and> find_active_goal_for_session (goals svc') session = Some g \<and>
    filter (\<lambda>h. goal_session h = session \<and> goal_active h) (goals svc') = [g] \<and>
    goal_condition g = trim condition \<and> 1 \<le> goal_max_turns g \<and> goal_max_turns g \<le> 100 \<and> goal_turns g = 0"
proof -
  from assms(2) obtain config ws' x svc1 svc2 where config: "validate_config condition max_turns = Inr config"
    and clear: "clear_goal session now svc = (x, svc1)"
    and ins: "insert_initial_goal (sw_workspaces w) (sw_sessions w) (sw_uuid w) ws' session config now svc1 = (Inr g, svc2)"
    and svc': "goals svc' = goals svc2"
    by (auto simp: goal_set_def split: sum.splits prod.splits if_splits)
  have spec: "goals_ok (goals svc1)" "\<forall>h \<in> set (goals svc1). goal_session h = session \<longrightarrow> \<not> goal_active h"
    using clear_goal_spec [OF assms(1) clear] by blast+
  obtain rows where inserted: "insert_goal (sw_workspaces w) (sw_sessions w)
      (new_goal (sw_uuid w) ws' session config now) (goals svc1) = (Inr g, rows)" and rows: "goals svc2 = rows"
    using ins by (auto simp: insert_initial_goal_def split: prod.splits)
  then have g: "g = new_goal (sw_uuid w) ws' session config now" and app: "goals svc' = goals svc1 @ [g]"
    using insert_goal_Inr [OF inserted] svc' by simp_all
  have ok: "goals_ok (goals svc')"
    using insert_goal_ok [OF spec(1), of "sw_workspaces w" "sw_sessions w" g] inserted rows svc' g by simp
  have none: "filter (\<lambda>h. goal_session h = session \<and> goal_active h) (goals svc1) = []"
    using spec(2) by (auto simp: filter_empty_conv)
  have only: "filter (\<lambda>h. goal_session h = session \<and> goal_active h) (goals svc') = [g]"
    using none by (simp add: app g new_goal_def goal_active_def)
  moreover have "find P xs = (case filter P xs of [] \<Rightarrow> None | y # _ \<Rightarrow> Some y)" for P and xs :: "goal list"
    by (induction xs) auto
  ultimately have "find_active_goal_for_session (goals svc') session = Some g"
    by (simp add: find_active_goal_for_session_def)
  moreover have "config_condition config = trim condition \<and> 1 \<le> config_max_turns config \<and> config_max_turns config \<le> 100"
    using config by (auto simp: validate_config_def Let_def MAX_TURNS_CEILING_def split: if_splits)
  ultimately show ?thesis using ok only by (simp add: g new_goal_def)
qed

definition sample_world :: set_world where
  "sample_world = \<lparr>sw_workspaces = [''w''], sw_sessions = [''s''], sw_workspace = Inr (), sw_session = Inr ''w'',
     sw_state = Inr session_state.Running, sw_send = Inr (), sw_uuid = ''h'', sw_generation = ''gen2'', sw_display = (\<lambda>_. ''error'')\<rparr>"

lemma sample_set:
  "goal_set ''w'' ''s'' ''ship it'' None ''2027'' sample_world sample_service =
     (Inr (new_goal ''h'' ''w'' ''s'' \<lparr>config_condition = ''ship it'', config_max_turns = 20\<rparr> ''2027''),
      \<lparr>goals = [sample_goal\<lparr>goal_state := Stopped, goal_reason := Some ''Goal cleared.'', goal_updated := ''2027''\<rparr>,
                new_goal ''h'' ''w'' ''s'' \<lparr>config_condition = ''ship it'', config_max_turns = 20\<rparr> ''2027''],
       goal_tasks = [''h'' \<mapsto> ''gen2'']\<rparr>)"
proof -
  have "trim ''ship it'' = ''ship it''" by code_simp
  then have "validate_config ''ship it'' None = Inr \<lparr>config_condition = ''ship it'', config_max_turns = 20\<rparr>"
    by (simp add: validate_config_def MAX_CONDITION_BYTES_def MAX_TURNS_CEILING_def DEFAULT_MAX_TURNS_def)
  then show ?thesis
    by (simp add: goal_set_def sample_world_def sample_service_def sample_goal_def clear_goal_def goal_active_def
        find_active_goal_for_session_def settle_service_def settle_goal_def settle_rows_def update_active_def
        after_update_def active_rows_def settled_goal_def find_goal_def insert_initial_goal_def insert_goal_def
        new_goal_def is_settled_def is_active_def spawn_driver_def Let_def fun_upd_twist)
qed

lemma goal_set_replaces_witness:
  "goals_ok (goals (snd (goal_set ''w'' ''s'' ''ship it'' None ''2027'' sample_world sample_service)))"
proof -
  have "goals_ok (goals sample_service)" by (simp add: goals_ok_def sample_service_def sample_goal_def)
  from goal_set_replaces [OF this sample_set] show ?thesis by (simp add: sample_set)
qed

end
