(* ===== verification/Store.thy ===== *)
theory Store
  imports Session_State Json
begin

text \<open>
  The tables that approvals and questions share, as lists of rows in insertion order:
  sessions (\<^verbatim>\<open>persistence/sessions.rs\<close>), approvals (\<^verbatim>\<open>persistence/approvals.rs\<close>) and timeline
  events (\<^verbatim>\<open>persistence/events.rs\<close>). Each SQL statement is a function; a violated constraint is
  the \<^verbatim>\<open>SQLITE\<close> error, I/O errors are not modelled. A transaction that fails leaves the store
  as it was. \<open>card_ask\<close> stands for \<^verbatim>\<open>has_outstanding_card_ask\<close>, a reading of the transcript.
\<close>

section \<open>Rows\<close>

record session_row =
  sess_id :: string
  sess_workspace :: string
  sess_state :: session_state
  sess_attention :: attention_state
  sess_completed :: "string option"
  sess_last_activity :: string
  sess_attention_changed :: string
  sess_branch_active :: "string option"

record event_row =
  ev_id :: string
  ev_session :: string
  ev_type :: string
  ev_message :: string
  ev_payload :: json
  ev_created :: string

record approval_row =
  app_id :: string
  app_session :: string
  app_command :: string
  app_cwd :: string
  app_provider :: string
  app_invocation :: "string option"
  app_request :: "string option"
  app_risk :: string
  app_status :: string
  app_created :: string
  app_resolved :: "string option"

record store =
  sessions :: "session_row list"
  events :: "event_row list"
  approvals :: "approval_row list"
  branches :: "(string \<times> string) list"  \<comment> \<open>workspace id and branch\<close>

type_synonym card_ask = "event_row list \<Rightarrow> string \<Rightarrow> bool"

definition sqlite :: "string \<Rightarrow> argmax_error" where
  "sqlite message = service ''SQLITE'' message"

section \<open>Session states\<close>

record session_state_input =
  si_state :: session_state
  si_attention :: attention_state
  si_completed :: "string option"
  si_activity :: "string option"

definition transition :: "session_state \<Rightarrow> session_state_input" where
  "transition s = \<lparr>si_state = s, si_attention = state_attention s, si_completed = None, si_activity = None\<rparr>"

definition with_pending_approval :: "session_state_input \<Rightarrow> session_state_input" where
  "with_pending_approval i = i\<lparr>si_attention := compute_session_attention
     \<lparr>att_state = si_state i, has_pending_approval = True, has_outstanding_question = False\<rparr>\<rparr>"

definition with_blocking_question :: "session_state_input \<Rightarrow> session_state_input" where
  "with_blocking_question i = i\<lparr>si_attention := compute_session_attention
     \<lparr>att_state = si_state i, has_pending_approval = False, has_outstanding_question = True\<rparr>\<rparr>"

definition with_outstanding_question :: "session_state_input \<Rightarrow> session_state_input" where
  "with_outstanding_question i = i\<lparr>si_attention := compute_session_attention
     \<lparr>att_state = si_state i, has_pending_approval = False, has_outstanding_question = True\<rparr>\<rparr>"

definition may_carry_question :: "session_state_input \<Rightarrow> bool" where
  "may_carry_question i \<longleftrightarrow> si_attention i \<noteq> ApprovalNeeded \<and>
     \<not> (si_state i = Created \<or> si_state i = Running \<or> si_state i = Cancelled)"

definition finished_at :: "string \<Rightarrow> session_state_input \<Rightarrow> session_state_input" where
  "finished_at t i = i\<lparr>si_completed := Some t, si_activity := Some t\<rparr>"

definition active_at :: "string \<Rightarrow> session_state_input \<Rightarrow> session_state_input" where
  "active_at t i = i\<lparr>si_activity := Some t\<rparr>"

definition find_session :: "store \<Rightarrow> string \<Rightarrow> argmax_error + session_row" where
  "find_session db i =
     (case find (\<lambda>s. sess_id s = i) (sessions db) of
        Some s \<Rightarrow> Inr s
      | None \<Rightarrow> Inl (record_not_found ''session'' i))"

text \<open>The \<^verbatim>\<open>UPDATE sessions\<close> of \<open>update_session_state\<close> on one row.\<close>

definition write_session ::
  "(string \<times> string) list \<Rightarrow> session_state_input \<Rightarrow> string \<Rightarrow> session_row \<Rightarrow> session_row"
where
  "write_session brs i time s =
     s\<lparr>sess_state := si_state i,
       sess_completed := si_completed i,
       sess_last_activity := time,
       sess_attention_changed := (if sess_attention s = si_attention i then sess_attention_changed s else time),
       sess_attention := si_attention i,
       sess_branch_active :=
         (if is_active (si_state i)
          then (case map_of brs (sess_workspace s) of
                  Some b \<Rightarrow> if b = [] then sess_branch_active s else Some b
                | None \<Rightarrow> sess_branch_active s)
          else sess_branch_active s)\<rparr>"

definition update_session_state ::
  "card_ask \<Rightarrow> string \<Rightarrow> string \<Rightarrow> session_state_input \<Rightarrow> store \<Rightarrow> argmax_error + session_row \<times> store"
where
  "update_session_state ask now i input db =
     (let input = (if may_carry_question input \<and> ask (events db) i
                   then with_outstanding_question input else input);
          time = (case si_activity input of Some t \<Rightarrow> t | None \<Rightarrow> now);
          db' = db\<lparr>sessions := map (\<lambda>s. if sess_id s = i then write_session (branches db) input time s else s)
                                (sessions db)\<rparr>
      in case find_session db' i of Inl e \<Rightarrow> Inl e | Inr s \<Rightarrow> Inr (s, db'))"

section \<open>Events\<close>

text \<open>The payloads persisted here have no \<^verbatim>\<open>parent_tool_use_id\<close>, so the enrichment returns them as they are.\<close>

definition persist_event :: "event_row \<Rightarrow> store \<Rightarrow> argmax_error + event_row \<times> store" where
  "persist_event ev db =
     (if ev_id ev \<in> ev_id ` set (events db) then Inl (sqlite ''UNIQUE constraint failed: events.id'')
      else if ev_session ev \<notin> sess_id ` set (sessions db) then Inl (sqlite ''FOREIGN KEY constraint failed'')
      else Inr (ev, db\<lparr>events := events db @ [ev]\<rparr>))"

section \<open>Approvals\<close>

definition find_approval :: "store \<Rightarrow> string \<Rightarrow> argmax_error + approval_row" where
  "find_approval db i =
     (case find (\<lambda>a. app_id a = i) (approvals db) of
        Some a \<Rightarrow> Inr a
      | None \<Rightarrow> Inl (record_not_found ''approval'' i))"

text \<open>The unique index on provider requests covers the rows where both ids are present.\<close>

definition same_provider_request :: "approval_row \<Rightarrow> approval_row \<Rightarrow> bool" where
  "same_provider_request a b \<longleftrightarrow>
     app_invocation a \<noteq> None \<and> app_request a \<noteq> None \<and> app_session a = app_session b \<and>
     app_provider a = app_provider b \<and> app_invocation a = app_invocation b \<and> app_request a = app_request b"

definition persist_approval :: "approval_row \<Rightarrow> store \<Rightarrow> argmax_error + approval_row \<times> store" where
  "persist_approval a db =
     (if app_id a \<in> app_id ` set (approvals db) then Inl (sqlite ''UNIQUE constraint failed: approvals.id'')
      else if list_ex (same_provider_request a) (approvals db)
        then Inl (sqlite (''UNIQUE constraint failed: approvals.session_id, approvals.provider, ''
               @ ''approvals.provider_invocation_id, approvals.provider_request_id''))
      else if app_session a \<notin> sess_id ` set (sessions db) then Inl (sqlite ''FOREIGN KEY constraint failed'')
      else let db' = db\<lparr>approvals := approvals db @ [a]\<rparr>
           in case find_approval db' (app_id a) of Inl e \<Rightarrow> Inl e | Inr r \<Rightarrow> Inr (r, db'))"

definition find_by_provider_request ::
  "store \<Rightarrow> string \<Rightarrow> string \<Rightarrow> string \<Rightarrow> string \<Rightarrow> approval_row option"
where
  "find_by_provider_request db session provider invocation request =
     find (\<lambda>a. app_session a = session \<and> app_provider a = provider \<and>
       app_invocation a = Some invocation \<and> app_request a = Some request) (approvals db)"

definition find_pending_approval ::
  "store \<Rightarrow> string \<Rightarrow> string \<Rightarrow> string \<Rightarrow> string \<Rightarrow> approval_row option"
where
  "find_pending_approval db session command cwd provider =
     find (\<lambda>a. app_session a = session \<and> app_command a = command \<and> app_cwd a = cwd \<and>
       app_provider a = provider \<and> app_status a = ''pending'') (approvals db)"

definition pending :: "approval_row \<Rightarrow> bool" where
  "pending a \<longleftrightarrow> app_status a = ''pending''"

text \<open>\<^verbatim>\<open>ORDER BY created_at DESC, id DESC\<close>.\<close>

definition newest_first :: "approval_row list \<Rightarrow> approval_row list" where
  "newest_first as = rev (sort_key app_created (sort_key app_id as))"

definition list_for_session :: "store \<Rightarrow> string \<Rightarrow> string \<Rightarrow> approval_row list" where
  "list_for_session db session status =
     newest_first (filter (\<lambda>a. app_session a = session \<and> app_status a = status) (approvals db))"

definition list_for_workspace :: "store \<Rightarrow> string \<Rightarrow> string \<Rightarrow> approval_row list" where
  "list_for_workspace db workspace status =
     newest_first (filter (\<lambda>a. app_status a = status \<and>
       list_ex (\<lambda>s. sess_id s = app_session a \<and> sess_workspace s = workspace) (sessions db)) (approvals db))"

definition list_pending :: "store \<Rightarrow> nat \<Rightarrow> approval_row list" where
  "list_pending db limit = take limit (newest_first (filter pending (approvals db)))"

text \<open>\<^verbatim>\<open>UPDATE approvals SET status, resolved_at WHERE <P> AND status = 'pending'\<close>.\<close>

definition settled_approval :: "string \<times> string \<Rightarrow> approval_row \<Rightarrow> approval_row" where
  "settled_approval v a = a\<lparr>app_status := fst v, app_resolved := Some (snd v)\<rparr>"

definition settle_where :: "(approval_row \<Rightarrow> bool) \<Rightarrow> string \<times> string \<Rightarrow> approval_row list \<Rightarrow> approval_row list" where
  "settle_where P v as = map (\<lambda>a. if P a \<and> pending a then settled_approval v a else a) as"

definition resolve_approval :: "string \<Rightarrow> string \<Rightarrow> string \<Rightarrow> store \<Rightarrow> argmax_error + approval_row \<times> store" where
  "resolve_approval i status now db =
     (case find_approval db i of Inl e \<Rightarrow> Inl e | Inr existing \<Rightarrow>
      if pending existing \<and> app_request existing \<noteq> None \<and> app_invocation existing = None
      then Inl (service ''APPROVAL_LEGACY_UNSUPPORTED''
             (''Approval '' @ app_id existing @ '' belongs to a provider invocation that cannot be resumed safely.''))
      else
        let db' = db\<lparr>approvals := settle_where (\<lambda>a. app_id a = i) (status, now) (approvals db)\<rparr>
        in if filter (\<lambda>a. app_id a = i \<and> pending a) (approvals db) = [] then
             (case find_approval db' i of Inl e \<Rightarrow> Inl e | Inr a \<Rightarrow>
                Inl (service ''APPROVAL_NOT_PENDING''
                  (''Approval '' @ app_id a @ '' is already '' @ app_status a @ '' and cannot be resolved again.'')))
           else (case find_approval db' i of Inl e \<Rightarrow> Inl e | Inr a \<Rightarrow> Inr (a, db')))"

section \<open>Each approval is settled once\<close>

definition terminal_status :: "string \<times> string \<Rightarrow> bool" where
  "terminal_status v \<longleftrightarrow> fst v \<noteq> ''pending''"

interpretation approval_rows:
  settle_store app_id pending terminal_status "\<lambda>v i. settle_where (\<lambda>a. app_id a = i) v" settled_approval
  by unfold_locales (auto simp: settle_where_def settled_approval_def pending_def terminal_status_def)

lemma settle_where_mem:
  "a \<in> set (settle_where P v as) \<longleftrightarrow> (\<exists>b \<in> set as. a = (if P b \<and> pending b then settled_approval v b else b))"
  by (auto simp: settle_where_def)

lemma settle_where_ids [simp]: "map app_id (settle_where P v as) = map app_id as"
  by (simp add: settle_where_def settled_approval_def)

lemma settle_where_keeps: "a \<in> set as \<Longrightarrow> \<not> pending a \<Longrightarrow> a \<in> set (settle_where P v as)"
  by (auto simp: settle_where_mem intro: bexI [where x = a])

lemma settled_approval_fields [simp]:
  "app_id (settled_approval v a) = app_id a" "app_session (settled_approval v a) = app_session a"
  "app_status (settled_approval v a) = fst v" "app_request (settled_approval v a) = app_request a"
  "app_invocation (settled_approval v a) = app_invocation a" "app_provider (settled_approval v a) = app_provider a"
  by (simp_all add: settled_approval_def)

lemma newest_first_set [simp]: "set (newest_first as) = set as"
  by (simp add: newest_first_def)

lemma newest_first_Nil [simp]: "newest_first as = [] \<longleftrightarrow> as = []"
  by (metis newest_first_set set_empty)

lemma find_approval_mem: "find_approval db i = Inr a \<Longrightarrow> a \<in> set (approvals db) \<and> app_id a = i"
  unfolding find_approval_def by (auto split: option.splits dest!: find_Some_mem)

lemma find_session_mem: "find_session db i = Inr s \<Longrightarrow> s \<in> set (sessions db) \<and> sess_id s = i"
  unfolding find_session_def by (auto split: option.splits dest!: find_Some_mem)

lemma same_request_settled [simp]:
  "same_provider_request (settled_approval v a) b = same_provider_request a b"
  "same_provider_request a (settled_approval v b) = same_provider_request a b"
  by (simp_all add: same_provider_request_def)

lemma same_request_sym: "same_provider_request a b \<Longrightarrow> same_provider_request b a"
  by (auto simp: same_provider_request_def)

lemma persist_approval_Inr:
  assumes "persist_approval a d = Inr (r, d')"
  shows "r = a \<and> approvals d' = approvals d @ [a] \<and> app_id a \<notin> app_id ` set (approvals d) \<and>
    \<not> list_ex (same_provider_request a) (approvals d)"
proof -
  have "find (\<lambda>x. app_id x = app_id a) (as @ [a]) = Some a" if "app_id a \<notin> app_id ` set as" for as
    using that by (induction as) auto
  then show ?thesis using assms
    by (auto simp: persist_approval_def find_approval_def Let_def split: if_splits)
qed

section \<open>The session that a write leaves behind\<close>

lemma update_session_state_other:
  "update_session_state ask now i input d = Inr (s, d') \<Longrightarrow>
     approvals d' = approvals d \<and> events d' = events d \<and> map sess_id (sessions d') = map sess_id (sessions d)"
  by (auto simp: update_session_state_def Let_def write_session_def split: sum.splits)

lemma persist_event_other:
  "persist_event ev d = Inr (e, d') \<Longrightarrow> approvals d' = approvals d \<and> sessions d' = sessions d \<and> events d' = events d @ [ev]"
  by (auto simp: persist_event_def split: if_splits)

lemma update_session_state_Inr:
  assumes "update_session_state ask now i input d = Inr (s', d')"
  obtains t where "find_session d' i = Inr s'"
    and "sessions d' = map (\<lambda>s. if sess_id s = i then write_session (branches d)
        (if may_carry_question input \<and> ask (events d) i then with_outstanding_question input else input) t s else s)
        (sessions d)"
proof -
  define inp where "inp = (if may_carry_question input \<and> ask (events d) i then with_outstanding_question input else input)"
  define t where "t = (case si_activity inp of Some t \<Rightarrow> t | None \<Rightarrow> now)"
  have "find_session d' i = Inr s'"
    and "sessions d' = map (\<lambda>s. if sess_id s = i then write_session (branches d) inp t s else s) (sessions d)"
    using assms unfolding update_session_state_def Let_def inp_def [symmetric] t_def [symmetric]
    by (auto split: sum.splits)
  then show ?thesis using that unfolding inp_def by blast
qed

lemma find_session_write:
  assumes "update_session_state ask now i input d = Inr (s', d')"
  shows "find_session d' i = Inr s' \<and> (\<forall>j. j \<noteq> i \<longrightarrow> find_session d' j = find_session d j)"
proof -
  have other: "find (\<lambda>s. sess_id s = j) (map (\<lambda>s. if sess_id s = i then write_session b inp t s else s) ss)
      = find (\<lambda>s. sess_id s = j) ss" if "j \<noteq> i" for j b inp t ss
    using that by (induction ss) (auto simp: write_session_def)
  from assms obtain t where "find_session d' i = Inr s'"
    and rows: "sessions d' = map (\<lambda>s. if sess_id s = i then write_session (branches d)
        (if may_carry_question input \<and> ask (events d) i then with_outstanding_question input else input) t s else s)
        (sessions d)"
    by (rule update_session_state_Inr)
  moreover have "find_session d' j = find_session d j" if "j \<noteq> i" for j
    unfolding find_session_def rows other [OF that] by (rule refl)
  ultimately show ?thesis by blast
qed

lemma written_session:
  assumes "update_session_state ask now i input d = Inr (s', d')"
  shows "sess_state s' = si_state input \<and>
    (sess_attention s' = si_attention input \<or>
     may_carry_question input \<and> sess_attention s' = si_attention (with_outstanding_question input))"
proof -
  let ?input = "if may_carry_question input \<and> ask (events d) i then with_outstanding_question input else input"
  have st: "si_state (with_outstanding_question input) = si_state input" by (simp add: with_outstanding_question_def)
  have "\<exists>b t s. s' = write_session b ?input t s"
  proof -
    from assms obtain t where f: "find_session d' i = Inr s'"
      and rows: "sessions d' = map (\<lambda>s. if sess_id s = i then write_session (branches d) ?input t s else s) (sessions d)"
      by (rule update_session_state_Inr)
    then obtain s where "s \<in> set (sessions d)"
      and s: "s' = (if sess_id s = i then write_session (branches d) ?input t s else s)"
      using find_session_mem [OF f] by auto
    moreover have "sess_id s = i" using find_session_mem [OF f] s by (auto split: if_splits)
    ultimately show ?thesis by auto
  qed
  then have "sess_state s' = si_state ?input" and "sess_attention s' = si_attention ?input"
    by (auto simp: write_session_def)
  then show ?thesis using st by (simp split: if_splits)
qed

end
