(* ===== verification/Questions_Pending.thy ===== *)
theory Questions_Pending
  imports Store
begin

text \<open>
  The durable side of blocking questions (\<^verbatim>\<open>src-tauri/src/questions/service.rs\<close>, the SQL readings): a question is
  a \<^verbatim>\<open>command.started\<close> event, pending until a \<^verbatim>\<open>command.completed\<close> event of the same session
  carries the same card id, invocation and provider request.
\<close>

text \<open>\<^verbatim>\<open>json_extract\<close> along a path of keys; SQL equality is false on a missing or null value.\<close>

fun json_path :: "string list \<Rightarrow> json \<Rightarrow> json option" where
  "json_path [] v = Some v"
| "json_path (k # ks) v = (case json_get k v of None \<Rightarrow> None | Some w \<Rightarrow> json_path ks w)"

definition sql_eq :: "json option \<Rightarrow> json option \<Rightarrow> bool" where
  "sql_eq a b \<longleftrightarrow> a \<noteq> None \<and> a \<noteq> Some JNull \<and> a = b"

definition completes :: "event_row \<Rightarrow> event_row \<Rightarrow> bool" where
  "completes completed requested \<longleftrightarrow>
     ev_session completed = ev_session requested \<and> ev_type completed = ''command.completed'' \<and>
     sql_eq (json_path [''id''] (ev_payload completed)) (json_path [''id''] (ev_payload requested)) \<and>
     sql_eq (json_path [''providerInvocationId''] (ev_payload completed))
       (json_path [''providerInvocationId''] (ev_payload requested)) \<and>
     sql_eq (json_path [''providerRequestId''] (ev_payload completed))
       (json_path [''providerRequestId''] (ev_payload requested))"

definition blocking_question :: "string \<Rightarrow> event_row \<Rightarrow> bool" where
  "blocking_question session ev \<longleftrightarrow> ev_session ev = session \<and> ev_type ev = ''command.started'' \<and>
     json_path [''input'', ''delivery''] (ev_payload ev) = Some (JString ''blocking'')"

definition list_durable_pending :: "store \<Rightarrow> string \<Rightarrow> json list" where
  "list_durable_pending db session =
     map ev_payload (filter (\<lambda>r. blocking_question session r \<and> \<not> list_ex (\<lambda>c. completes c r) (events db)) (events db))"

definition has_durable_pending :: "store \<Rightarrow> string \<Rightarrow> bool" where
  "has_durable_pending db session = (list_durable_pending db session \<noteq> [])"

definition has_durable_request :: "store \<Rightarrow> string \<Rightarrow> string \<Rightarrow> string \<Rightarrow> bool" where
  "has_durable_request db session invocation request =
     (filter (\<lambda>e. ev_session e = session \<and> ev_type e = ''command.started'' \<and>
        json_path [''providerInvocationId''] (ev_payload e) = Some (JString invocation) \<and>
        json_path [''providerRequestId''] (ev_payload e) = Some (JString request)) (events db) \<noteq> [])"

lemma list_durable_pending_append:
  assumes "\<not> list_ex (\<lambda>r. completes ev r) (events db)" and "\<not> blocking_question session ev"
  shows "list_durable_pending (db\<lparr>events := events db @ [ev]\<rparr>) session = list_durable_pending db session"
proof -
  have "filter (\<lambda>r. blocking_question session r \<and> \<not> list_ex (\<lambda>c. completes c r) (events db @ [ev])) (events db)
      = filter (\<lambda>r. blocking_question session r \<and> \<not> list_ex (\<lambda>c. completes c r) (events db)) (events db)"
    by (rule filter_cong) (use assms(1) in \<open>auto simp: list_ex_iff\<close>)
  then show ?thesis using assms(2) by (simp add: list_durable_pending_def)
qed

end
