(* ===== verification/Approvals.thy ===== *)
theory Approvals
  imports Questions_Pending
begin

text \<open>
  \<^verbatim>\<open>src-tauri/src/approvals/service.rs\<close>: provider requests that wait for a decision. The service
  keeps, beside the tables, the live responders: by approval id the session and whether the
  provider still listens. \<open>delivered\<close> logs what the responders were told. Every operation runs
  under the service's lock, so it is one step; a failed transaction leaves the store as it
  was. The risk label of a command (\<^verbatim>\<open>dangerous_action_policy.rs\<close>) is an argument, as are
  UUIDs and the clock. Published deltas are notifications and are not modelled.
\<close>

section \<open>The service\<close>

datatype resolve_status = Approved | Rejected

fun resolve_status_str :: "resolve_status \<Rightarrow> string" where
  "resolve_status_str Approved = ''approved''"
| "resolve_status_str Rejected = ''rejected''"

record approval_service =
  db :: store
  native :: "string \<rightharpoonup> string \<times> bool"
  delivered :: "(string \<times> bool) list"

record native_request =
  nr_session :: string
  nr_invocation :: string
  nr_request :: string
  nr_command :: string
  nr_cwd :: string
  nr_provider :: string
  nr_risk :: string
  nr_approval_uuid :: string
  nr_event_uuid :: string
  nr_now :: string

definition requested_approval :: "native_request \<Rightarrow> approval_row" where
  "requested_approval r =
     \<lparr>app_id = nr_approval_uuid r, app_session = nr_session r, app_command = nr_command r, app_cwd = nr_cwd r,
      app_provider = nr_provider r, app_invocation = Some (nr_invocation r), app_request = Some (nr_request r),
      app_risk = nr_risk r, app_status = ''pending'', app_created = nr_now r, app_resolved = None\<rparr>"

definition requested_event :: "native_request \<Rightarrow> event_row" where
  "requested_event r =
     \<lparr>ev_id = nr_event_uuid r, ev_session = nr_session r, ev_type = ''approval.requested'',
      ev_message = ''The provider needs your approval to continue'',
      ev_payload = json_object [(''approvalId'', JString (nr_approval_uuid r)), (''command'', JString (nr_command r)),
                                (''cwd'', JString (nr_cwd r)), (''provider'', JString (nr_provider r))],
      ev_created = nr_now r\<rparr>"

definition register_native ::
  "card_ask \<Rightarrow> native_request \<Rightarrow> approval_service \<Rightarrow> (argmax_error + unit) \<times> approval_service"
where
  "register_native ask r svc =
     (case find_session (db svc) (nr_session r) of Inl e \<Rightarrow> (Inl e, svc) | Inr s \<Rightarrow>
      if \<not> (sess_state s = Running \<or> sess_state s = Waiting)
      then (Inl (service ''APPROVAL_CANCELLED'' ''The provider turn has ended''), svc)
      else if find_by_provider_request (db svc) (nr_session r) (nr_provider r) (nr_invocation r) (nr_request r) \<noteq> None
      then (Inl (service ''APPROVAL_DUPLICATE'' ''This provider request was already received''), svc)
      else
     (case persist_approval (requested_approval r) (db svc) of Inl e \<Rightarrow> (Inl e, svc) | Inr (a, db1) \<Rightarrow>
     (case update_session_state ask (nr_now r) (nr_session r) (with_pending_approval (transition Waiting)) db1 of
        Inl e \<Rightarrow> (Inl e, svc) | Inr (_, db2) \<Rightarrow>
     (case persist_event (requested_event r) db2 of Inl e \<Rightarrow> (Inl e, svc) | Inr (_, db3) \<Rightarrow>
        (Inr (), svc\<lparr>db := db3, native := (native svc)(app_id a \<mapsto> (nr_session r, True))\<rparr>)))))"

text \<open>The provider stops listening: the receiver of a responder is dropped.\<close>

definition drop_receiver :: "string \<Rightarrow> approval_service \<Rightarrow> approval_service" where
  "drop_receiver i svc =
     (case native svc i of
        None \<Rightarrow> svc
      | Some (session, _) \<Rightarrow> svc\<lparr>native := (native svc)(i \<mapsto> (session, False))\<rparr>)"

text \<open>\<^verbatim>\<open>sender.send(..)\<close> of a responder that is taken out of the map.\<close>

definition respond :: "string \<Rightarrow> bool \<Rightarrow> approval_service \<Rightarrow> approval_service" where
  "respond i decision svc =
     (case native svc i of
        None \<Rightarrow> svc
      | Some (_, listening) \<Rightarrow>
          svc\<lparr>native := (native svc)(i := None),
              delivered := (if listening then delivered svc @ [(i, decision)] else delivered svc)\<rparr>)"

text \<open>The session write of \<open>resolve\<close>, made only while the session waits.\<close>

definition next_state_input ::
  "resolve_status \<Rightarrow> bool \<Rightarrow> bool \<Rightarrow> bool \<Rightarrow> session_state_input"
where
  "next_state_input status is_native still_approval still_question =
     (let next = (if still_approval \<or> still_question then Waiting
                  else if is_native then Running
                  else case status of Approved \<Rightarrow> Running | Rejected \<Rightarrow> Blocked)
      in if next = Waiting \<and> still_approval then with_pending_approval (transition next)
         else if next = Waiting then with_blocking_question (transition next)
         else transition next)"

definition resolved_event :: "string \<Rightarrow> string \<Rightarrow> resolve_status \<Rightarrow> approval_row \<Rightarrow> event_row" where
  "resolved_event uuid now status a =
     \<lparr>ev_id = uuid, ev_session = app_session a, ev_type = ''approval.resolved'',
      ev_message = (case status of Approved \<Rightarrow> ''Approval granted'' | Rejected \<Rightarrow> ''Approval denied''),
      ev_payload = json_object [(''approvalId'', JString (app_id a)), (''status'', JString (resolve_status_str status)),
                                (''command'', JString (app_command a))],
      ev_created = now\<rparr>"

definition resolve ::
  "card_ask \<Rightarrow> string \<Rightarrow> resolve_status \<Rightarrow> string \<Rightarrow> string \<Rightarrow> approval_service \<Rightarrow>
   (argmax_error + approval_row) \<times> approval_service"
where
  "resolve ask i status uuid now svc =
     (case find_approval (db svc) i of Inl e \<Rightarrow> (Inl e, svc) | Inr current \<Rightarrow>
      if app_request current \<noteq> None
         \<and> (case native svc i of None \<Rightarrow> True | Some (_, listening) \<Rightarrow> \<not> listening)
      then (Inl (service ''APPROVAL_CANCELLED'' ''This approval is no longer connected to a running provider''), svc)
      else
     (case resolve_approval i (resolve_status_str status) now (db svc) of Inl e \<Rightarrow> (Inl e, svc) | Inr (a, db1) \<Rightarrow>
     (case find_session db1 (app_session a) of Inl e \<Rightarrow> (Inl e, svc) | Inr s \<Rightarrow>
     (case (if sess_state s = Waiting
            then update_session_state ask now (app_session a)
                   (next_state_input status (app_request current \<noteq> None)
                      (list_for_session db1 (app_session a) ''pending'' \<noteq> [])
                      (has_durable_pending db1 (app_session a))) db1
            else Inr (s, db1)) of Inl e \<Rightarrow> (Inl e, svc) | Inr (_, db2) \<Rightarrow>
     (case persist_event (resolved_event uuid now status a) db2 of Inl e \<Rightarrow> (Inl e, svc) | Inr (_, db3) \<Rightarrow>
        (Inr a, respond i (status = Approved) (svc\<lparr>db := db3\<rparr>)))))))"

text \<open>The responders of cancelled requests are dropped even when the transaction fails later.\<close>

definition cancel_native_request ::
  "card_ask \<Rightarrow> string \<Rightarrow> string \<Rightarrow> string \<Rightarrow> string \<Rightarrow> approval_service \<Rightarrow> (argmax_error + unit) \<times> approval_service"
where
  "cancel_native_request ask session invocation request now svc =
     (let matching = (\<lambda>a. app_invocation a = Some invocation \<and> app_request a = Some request);
          cancelled = filter matching (list_for_session (db svc) session ''pending'');
          svc1 = svc\<lparr>native := native svc |` (- app_id ` set cancelled)\<rparr>;
          db1 = (db svc)\<lparr>approvals := settle_where (\<lambda>a. app_id a \<in> app_id ` set cancelled) (''cancelled'', now)
                                        (approvals (db svc))\<rparr>
      in case find_session db1 session of Inl e \<Rightarrow> (Inl e, svc1) | Inr s \<Rightarrow>
         if cancelled \<noteq> [] \<and> sess_state s = Waiting \<and> list_for_session db1 session ''pending'' = []
            \<and> \<not> has_durable_pending db1 session
         then (case update_session_state ask now session (transition Running) db1 of
                 Inl e \<Rightarrow> (Inl e, svc1) | Inr (_, db2) \<Rightarrow> (Inr (), svc1\<lparr>db := db2\<rparr>))
         else (Inr (), svc1\<lparr>db := db1\<rparr>))"

definition cancel_workspace_pending :: "string \<Rightarrow> string \<Rightarrow> approval_service \<Rightarrow> approval_service" where
  "cancel_workspace_pending workspace now svc =
     (let found = list_for_workspace (db svc) workspace ''pending''
      in if found = [] then svc
         else svc\<lparr>db := (db svc)\<lparr>approvals := settle_where
                    (\<lambda>a. list_ex (\<lambda>s. sess_id s = app_session a \<and> sess_workspace s = workspace) (sessions (db svc)))
                    (''cancelled'', now) (approvals (db svc))\<rparr>,
                  native := native svc |` (- app_id ` set found)\<rparr>)"

definition cancel_session_pending :: "string \<Rightarrow> string \<Rightarrow> approval_service \<Rightarrow> approval_service" where
  "cancel_session_pending session now svc =
     (let svc1 = svc\<lparr>native := (\<lambda>i. case native svc i of
                                 None \<Rightarrow> None | Some (s, l) \<Rightarrow> if s \<noteq> session then Some (s, l) else None)\<rparr>;
          found = list_for_session (db svc) session ''pending''
      in if found = [] then svc1
         else svc1\<lparr>db := (db svc)\<lparr>approvals := settle_where (\<lambda>a. app_session a = session) (''cancelled'', now)
                                                (approvals (db svc))\<rparr>,
                   native := native svc1 |` (- app_id ` set found)\<rparr>)"

section \<open>Steps\<close>

inductive approval_step :: "approval_service \<Rightarrow> approval_service \<Rightarrow> bool" where
  registers: "approval_step svc (snd (register_native ask r svc))"
| drops: "approval_step svc (drop_receiver i svc)"
| resolves: "approval_step svc (snd (resolve ask i status uuid now svc))"
| cancels_request: "approval_step svc (snd (cancel_native_request ask s invocation req now svc))"
| cancels_workspace: "approval_step svc (cancel_workspace_pending w now svc)"
| cancels_session: "approval_step svc (cancel_session_pending s now svc)"

text \<open>
  The invariant: ids are unique; no two rows carry the same provider request; a responder
  belongs to a pending row of its session; what was delivered is what its row records, and no
  approval is delivered twice.
\<close>

definition told :: "approval_service \<Rightarrow> bool" where
  "told svc \<longleftrightarrow>
     distinct (map fst (delivered svc)) \<and>
     (\<forall>(i, decision) \<in> set (delivered svc). \<exists>a \<in> set (approvals (db svc)). app_id a = i \<and>
        app_status a = (if decision then ''approved'' else ''rejected''))"

definition responders_pending :: "approval_service \<Rightarrow> bool" where
  "responders_pending svc \<longleftrightarrow> (\<forall>i s l. native svc i = Some (s, l) \<longrightarrow>
     (\<exists>a \<in> set (approvals (db svc)). app_id a = i \<and> app_session a = s \<and> pending a))"

definition rows_unique :: "store \<Rightarrow> bool" where
  "rows_unique d \<longleftrightarrow> distinct (map app_id (approvals d)) \<and>
     (\<forall>a \<in> set (approvals d). \<forall>b \<in> set (approvals d). same_provider_request a b \<longrightarrow> a = b)"

definition approvals_inv :: "approval_service \<Rightarrow> bool" where
  "approvals_inv svc \<longleftrightarrow> rows_unique (db svc) \<and> responders_pending svc \<and> told svc"

section \<open>What the statements leave alone\<close>

lemma resolve_approval_Inr:
  assumes "resolve_approval i status now d = Inr (a, d')" and "rows_unique d"
  shows "approvals d' = settle_where (\<lambda>a. app_id a = i) (status, now) (approvals d) \<and>
    a \<in> set (approvals d') \<and> app_id a = i \<and> app_status a = status \<and>
    (\<exists>b \<in> set (approvals d). app_id b = i \<and> pending b)"
proof -
  from assms(1) have d': "d' = d\<lparr>approvals := settle_where (\<lambda>a. app_id a = i) (status, now) (approvals d)\<rparr>"
    and found: "find_approval d' i = Inr a" and some: "filter (\<lambda>a. app_id a = i \<and> pending a) (approvals d) \<noteq> []"
    by (auto simp: resolve_approval_def Let_def split: sum.splits if_splits)
  from some obtain b where b: "b \<in> set (approvals d)" "app_id b = i" "pending b"
    by (auto simp: filter_empty_conv)
  have a: "a \<in> set (approvals d')" "app_id a = i" using find_approval_mem [OF found] by simp_all
  then obtain c where "c \<in> set (approvals d)" and ac: "a = (if app_id c = i \<and> pending c then settled_approval (status, now) c else c)"
    by (auto simp: d' settle_where_mem)
  moreover have "app_id c = i" using a(2) ac by (auto split: if_splits)
  ultimately have "c = b" using assms(2) b by (auto simp: rows_unique_def distinct_map inj_on_def)
  then have "app_status a = status" using ac b by simp
  with a b d' show ?thesis by auto
qed

section \<open>The invariant is kept\<close>

lemma rows_unique_settle: "rows_unique d \<Longrightarrow> approvals d' = settle_where P v (approvals d) \<Longrightarrow> rows_unique d'"
proof -
  assume u: "rows_unique d" and d': "approvals d' = settle_where P v (approvals d)"
  have "a = b" if mem: "a \<in> set (approvals d')" "b \<in> set (approvals d')" and same: "same_provider_request a b" for a b
  proof -
    obtain a0 b0 where "a0 \<in> set (approvals d)" and a: "a = (if P a0 \<and> pending a0 then settled_approval v a0 else a0)"
      and "b0 \<in> set (approvals d)" and b: "b = (if P b0 \<and> pending b0 then settled_approval v b0 else b0)"
      using mem by (auto simp: d' settle_where_mem)
    moreover have "same_provider_request a0 b0"
      using same by (auto simp: a b split: if_splits)
    ultimately show ?thesis using u by (metis rows_unique_def)
  qed
  moreover have "distinct (map app_id (approvals d'))" using u by (simp add: d' rows_unique_def)
  ultimately show ?thesis by (auto simp: rows_unique_def)
qed

lemma rows_unique_append:
  "rows_unique d \<Longrightarrow> approvals d' = approvals d @ [a] \<Longrightarrow> app_id a \<notin> app_id ` set (approvals d) \<Longrightarrow>
   \<not> list_ex (same_provider_request a) (approvals d) \<Longrightarrow> rows_unique d'"
  by (auto simp: rows_unique_def list_ex_iff dest: same_request_sym)

text \<open>Settling rows and dropping at least their responders keeps the invariant.\<close>

lemma inv_settle:
  assumes inv: "approvals_inv svc" and d': "approvals (db svc') = settle_where P v (approvals (db svc))"
    and native: "\<And>i s l. native svc' i = Some (s, l) \<Longrightarrow> \<exists>l'. native svc i = Some (s, l')"
    and apart: "\<And>a s l. a \<in> set (approvals (db svc)) \<Longrightarrow> pending a \<Longrightarrow> P a \<Longrightarrow> native svc' (app_id a) = Some (s, l) \<Longrightarrow>
        app_session a = s \<Longrightarrow> False"
    and told: "delivered svc' = delivered svc"
  shows "approvals_inv svc'"
  unfolding approvals_inv_def
proof (intro conjI)
  have u: "rows_unique (db svc)" and r: "responders_pending svc" and t: "told svc"
    using inv by (simp_all add: approvals_inv_def)
  show "rows_unique (db svc')" using u d' by (rule rows_unique_settle)
  show "responders_pending svc'"
    unfolding responders_pending_def
  proof (intro allI impI)
    fix i s l
    assume n: "native svc' i = Some (s, l)"
    then obtain l' where "native svc i = Some (s, l')" using native by blast
    then obtain a where a: "a \<in> set (approvals (db svc))" "app_id a = i" "app_session a = s" "pending a"
      using r by (auto simp: responders_pending_def)
    then have "\<not> P a" using apart n by blast
    then have "a \<in> set (approvals (db svc'))" using a(1) by (auto simp: d' settle_where_mem intro: bexI [where x = a])
    with a show "\<exists>a \<in> set (approvals (db svc')). app_id a = i \<and> app_session a = s \<and> pending a" by blast
  qed
  have kept: "\<exists>a \<in> set (approvals (db svc')). app_id a = i \<and> app_status a = (if decision then ''approved'' else ''rejected'')"
    if mem: "(i, decision) \<in> set (delivered svc)" for i decision
  proof -
    obtain a where a: "a \<in> set (approvals (db svc))" "app_id a = i"
      and status: "app_status a = (if decision then ''approved'' else ''rejected'')"
      using t mem by (fastforce simp: told_def)
    have "\<not> pending a" using status by (cases decision) (simp_all add: pending_def)
    then have "a \<in> set (approvals (db svc'))" unfolding d' using a(1) by (intro settle_where_keeps)
    with a status show ?thesis by blast
  qed
  show "told svc'"
    unfolding told_def told
  proof (intro conjI ballI)
    show "distinct (map fst (delivered svc))" using t by (simp add: told_def)
    fix p
    assume "p \<in> set (delivered svc)"
    then show "case p of (i, decision) \<Rightarrow> \<exists>a \<in> set (approvals (db svc')). app_id a = i \<and>
        app_status a = (if decision then ''approved'' else ''rejected'')"
      using kept [of "fst p" "snd p"] by (simp add: case_prod_beta)
  qed
qed

lemma inv_same_rows:
  assumes inv: "approvals_inv svc" and rows: "approvals (db svc') = approvals (db svc)"
    and told: "delivered svc' = delivered svc"
    and native: "\<And>i s l. native svc' i = Some (s, l) \<Longrightarrow> \<exists>l'. native svc i = Some (s, l')"
  shows "approvals_inv svc'"
  unfolding approvals_inv_def
proof (intro conjI)
  show "rows_unique (db svc')" "told svc'"
    using inv by (simp_all add: approvals_inv_def rows_unique_def told_def rows told)
  show "responders_pending svc'"
    using inv native unfolding approvals_inv_def responders_pending_def rows by blast
qed

lemma register_inv [inv_intros]: "approvals_inv svc \<Longrightarrow> approvals_inv (snd (register_native ask r svc))"
proof (cases "snd (register_native ask r svc) = svc")
  case False
  assume inv: "approvals_inv svc"
  from False obtain a db1 db2 db3 s e where pa: "persist_approval (requested_approval r) (db svc) = Inr (a, db1)"
    and us: "update_session_state ask (nr_now r) (nr_session r) (with_pending_approval (transition Waiting)) db1 = Inr (s, db2)"
    and pe: "persist_event (requested_event r) db2 = Inr (e, db3)"
    and eq: "snd (register_native ask r svc) = svc\<lparr>db := db3, native := (native svc)(app_id a \<mapsto> (nr_session r, True))\<rparr>"
    by (auto simp: register_native_def split: sum.splits if_splits prod.splits)
  have a: "a = requested_approval r" and new: "app_id a \<notin> app_id ` set (approvals (db svc))"
    and uniq: "\<not> list_ex (same_provider_request a) (approvals (db svc))"
    and rows: "approvals db3 = approvals (db svc) @ [a]"
    using persist_approval_Inr [OF pa] update_session_state_other [OF us] persist_event_other [OF pe] by auto
  have "rows_unique db3" using inv rows new uniq by (auto simp: approvals_inv_def intro: rows_unique_append)
  moreover have "pending a" "app_session a = nr_session r" by (simp_all add: a requested_approval_def pending_def)
  ultimately show ?thesis using inv rows
    by (auto simp: eq approvals_inv_def responders_pending_def told_def)
qed simp

lemma drop_receiver_inv [inv_intros]: "approvals_inv svc \<Longrightarrow> approvals_inv (drop_receiver i svc)"
proof -
  assume inv: "approvals_inv svc"
  show ?thesis
    by (rule inv_same_rows [OF inv]) (auto simp: drop_receiver_def split: option.splits if_splits)
qed

text \<open>A resolution that does not fail went through every step.\<close>

lemma resolve_steps:
  assumes "\<nexists>e. resolve ask i status uuid now svc = (Inl e, svc)"
  obtains current :: approval_row and a db1 s s' db2 ev db3
  where "resolve_approval i (resolve_status_str status) now (db svc) = Inr (a, db1)"
    and "find_session db1 (app_session a) = Inr s"
    and "(if sess_state s = Waiting
          then update_session_state ask now (app_session a)
                 (next_state_input status (app_request current \<noteq> None)
                    (list_for_session db1 (app_session a) ''pending'' \<noteq> [])
                    (has_durable_pending db1 (app_session a))) db1
          else Inr (s, db1)) = Inr (s', db2)"
    and "persist_event (resolved_event uuid now status a) db2 = Inr (ev, db3)"
    and "resolve ask i status uuid now svc = (Inr a, respond i (status = Approved) (svc\<lparr>db := db3\<rparr>))"
proof -
  obtain current where f: "find_approval (db svc) i = Inr current"
    using assms by (cases "find_approval (db svc) i") (auto simp: resolve_def)
  have open': "\<not> (app_request current \<noteq> None \<and> (case native svc i of None \<Rightarrow> True | Some (_, listening) \<Rightarrow> \<not> listening))"
    using assms f by (auto simp: resolve_def)
  obtain a db1 where ra: "resolve_approval i (resolve_status_str status) now (db svc) = Inr (a, db1)"
    using assms f open' by (cases "resolve_approval i (resolve_status_str status) now (db svc)") (auto simp: resolve_def)
  obtain s where fs: "find_session db1 (app_session a) = Inr s"
    using assms f open' ra by (cases "find_session db1 (app_session a)") (auto simp: resolve_def)
  let ?written = "if sess_state s = Waiting
            then update_session_state ask now (app_session a)
                   (next_state_input status (app_request current \<noteq> None)
                      (list_for_session db1 (app_session a) ''pending'' \<noteq> [])
                      (has_durable_pending db1 (app_session a))) db1
            else Inr (s, db1)"
  have eq: "resolve ask i status uuid now svc = (case ?written of Inl e \<Rightarrow> (Inl e, svc) | Inr (_, db2) \<Rightarrow>
     (case persist_event (resolved_event uuid now status a) db2 of Inl e \<Rightarrow> (Inl e, svc) | Inr (_, db3) \<Rightarrow>
        (Inr a, respond i (status = Approved) (svc\<lparr>db := db3\<rparr>))))"
    unfolding resolve_def f sum.case if_not_P [OF open'] ra prod.case fs by (rule refl)
  obtain s' db2 where w: "?written = Inr (s', db2)"
    using assms unfolding eq by (cases ?written) auto
  obtain ev db3 where p: "persist_event (resolved_event uuid now status a) db2 = Inr (ev, db3)"
    using assms unfolding eq w by (cases "persist_event (resolved_event uuid now status a) db2") auto
  show ?thesis by (rule that [OF ra fs w p]) (simp only: eq w p sum.case prod.case)
qed

lemma resolve_cases:
  assumes "snd (resolve ask i status uuid now svc) \<noteq> svc"
  obtains a db1 db3 where "resolve_approval i (resolve_status_str status) now (db svc) = Inr (a, db1)"
    and "approvals db3 = approvals db1"
    and "snd (resolve ask i status uuid now svc) = respond i (status = Approved) (svc\<lparr>db := db3\<rparr>)"
proof -
  have "\<nexists>e. resolve ask i status uuid now svc = (Inl e, svc)" using assms by auto
  then obtain current :: approval_row and a db1 s s' db2 ev db3
    where ra: "resolve_approval i (resolve_status_str status) now (db svc) = Inr (a, db1)"
      and w: "(if sess_state s = Waiting
          then update_session_state ask now (app_session a)
                 (next_state_input status (app_request current \<noteq> None)
                    (list_for_session db1 (app_session a) ''pending'' \<noteq> [])
                    (has_durable_pending db1 (app_session a))) db1
          else Inr (s, db1)) = Inr (s', db2)"
      and p: "persist_event (resolved_event uuid now status a) db2 = Inr (ev, db3)"
      and eq: "resolve ask i status uuid now svc = (Inr a, respond i (status = Approved) (svc\<lparr>db := db3\<rparr>))"
    by (rule resolve_steps)
  have "approvals db2 = approvals db1"
    using w update_session_state_other by (auto split: if_splits)
  then have "approvals db3 = approvals db1" using persist_event_other [OF p] by simp
  then show ?thesis using ra that eq by simp
qed

lemma resolve_inv [inv_intros]: "approvals_inv svc \<Longrightarrow> approvals_inv (snd (resolve ask i status uuid now svc))"
proof (cases "snd (resolve ask i status uuid now svc) = svc")
  case False
  assume inv: "approvals_inv svc"
  from False obtain a db1 db3 where ra: "resolve_approval i (resolve_status_str status) now (db svc) = Inr (a, db1)"
    and rows3: "approvals db3 = approvals db1"
    and eq: "snd (resolve ask i status uuid now svc) = respond i (status = Approved) (svc\<lparr>db := db3\<rparr>)"
    by (rule resolve_cases)
  have u: "rows_unique (db svc)" using inv by (simp add: approvals_inv_def)
  have rows: "approvals db3 = settle_where (\<lambda>a. app_id a = i) (resolve_status_str status, now) (approvals (db svc))"
    and a: "a \<in> set (approvals db3)" "app_id a = i" "app_status a = resolve_status_str status"
    and was: "\<exists>b \<in> set (approvals (db svc)). app_id b = i \<and> pending b"
    using resolve_approval_Inr [OF ra u] rows3 by auto
  define svc0 where "svc0 = svc\<lparr>db := db3, native := (native svc)(i := None)\<rparr>"
  have inv0: "approvals_inv svc0"
    by (rule inv_settle [OF inv, of _ "\<lambda>a. app_id a = i"]) (auto simp: svc0_def rows split: if_splits)
  have "(i, b) \<notin> set (delivered svc)" for b
  proof
    assume "(i, b) \<in> set (delivered svc)"
    then obtain c where "c \<in> set (approvals (db svc))" "app_id c = i" "\<not> pending c"
      using inv by (fastforce simp: approvals_inv_def told_def pending_def split: if_splits)
    then show False using was u by (auto simp: rows_unique_def distinct_map inj_on_def)
  qed
  then have fresh: "i \<notin> fst ` set (delivered svc)" by auto
  have "svc0\<lparr>delivered := delivered svc @ [(i, status = Approved)]\<rparr> = 
      svc\<lparr>db := db3, native := (native svc)(i := None), delivered := delivered svc @ [(i, status = Approved)]\<rparr>"
    by (simp add: svc0_def)
  have "approvals_inv (svc0\<lparr>delivered := delivered svc @ [(i, status = Approved)]\<rparr>)"
    using inv0 fresh a by (cases status) (auto simp: approvals_inv_def responders_pending_def told_def svc0_def)
  moreover have "approvals_inv (svc\<lparr>db := db3\<rparr>)" if "native svc i = None"
    using inv0 that by (simp add: svc0_def fun_upd_idem approvals_inv_def responders_pending_def told_def)
  ultimately show ?thesis using inv0
    by (auto simp: eq respond_def svc0_def split: option.splits)
qed simp

lemma cancel_native_inv [inv_intros]:
  assumes inv: "approvals_inv svc"
  shows "approvals_inv (snd (cancel_native_request ask s invocation req now svc))"
proof -
  define cancelled where "cancelled = filter (\<lambda>a. app_invocation a = Some invocation \<and> app_request a = Some req)
    (list_for_session (db svc) s ''pending'')"
  define rows where "rows = settle_where (\<lambda>a. app_id a \<in> app_id ` set cancelled) (''cancelled'', now) (approvals (db svc))"
  have success: "approvals_inv (svc\<lparr>native := native svc |` (- app_id ` set cancelled), db := d\<rparr>)"
    if "approvals d = rows" for d
    by (rule inv_settle [OF inv, of _ "\<lambda>a. app_id a \<in> app_id ` set cancelled"])
      (use that in \<open>auto simp: rows_def restrict_map_def split: if_splits\<close>)
  have failed: "approvals_inv (svc\<lparr>native := native svc |` (- app_id ` set cancelled)\<rparr>)"
    by (rule inv_same_rows [OF inv]) (auto simp: restrict_map_def split: if_splits)
  show ?thesis
    using success failed
    by (auto simp: cancel_native_request_def Let_def cancelled_def [symmetric] rows_def [symmetric]
        dest!: update_session_state_other split: sum.splits prod.splits)
qed

lemma cancel_workspace_inv [inv_intros]: "approvals_inv svc \<Longrightarrow> approvals_inv (cancel_workspace_pending w now svc)"
proof (cases "list_for_workspace (db svc) w ''pending'' = []")
  case False
  let ?P = "\<lambda>a. list_ex (\<lambda>s. sess_id s = app_session a \<and> sess_workspace s = w) (sessions (db svc))"
  assume inv: "approvals_inv svc"
  show ?thesis
    by (rule inv_settle [OF inv, of _ ?P "(''cancelled'', now)"])
      (use False in \<open>auto simp: cancel_workspace_pending_def Let_def restrict_map_def list_for_workspace_def pending_def
        split: if_splits\<close>)
qed (simp add: cancel_workspace_pending_def)

lemma cancel_session_inv [inv_intros]: "approvals_inv svc \<Longrightarrow> approvals_inv (cancel_session_pending s now svc)"
proof (cases "list_for_session (db svc) s ''pending'' = []")
  case True
  assume inv: "approvals_inv svc"
  show ?thesis
    by (rule inv_same_rows [OF inv]) (auto simp: cancel_session_pending_def True Let_def split: option.splits if_splits)
next
  case False
  assume inv: "approvals_inv svc"
  show ?thesis
    by (rule inv_settle [OF inv, of _ "\<lambda>a. app_session a = s" "(''cancelled'', now)"])
      (use False in \<open>auto simp: cancel_session_pending_def Let_def restrict_map_def split: option.splits if_splits\<close>)
qed

interpretation approving: invariant_system approval_step approvals_inv
  by unfold_locales (erule approval_step.cases, auto intro: inv_intros)

lemma settled_rows_stay:
  assumes "approval_step svc svc'" and "a \<in> set (approvals (db svc))" and "\<not> pending a" and inv: "approvals_inv svc"
  shows "a \<in> set (approvals (db svc'))"
  using assms(1)
proof cases
  case (registers ask r)
  then show ?thesis using assms(2)
    by (auto simp: register_native_def split: sum.splits if_splits prod.splits
        dest!: persist_event_other update_session_state_other persist_approval_Inr)
next
  case (drops i)
  then show ?thesis using assms(2) by (simp add: drop_receiver_def split: option.splits prod.splits)
next
  case (resolves ask i status uuid now)
  show ?thesis
  proof (cases "svc' = svc")
    case False
    then have "snd (resolve ask i status uuid now svc) \<noteq> svc" using resolves by simp
    then obtain x db1 db3 where ra: "resolve_approval i (resolve_status_str status) now (db svc) = Inr (x, db1)"
      and "approvals db3 = approvals db1" and "svc' = respond i (status = Approved) (svc\<lparr>db := db3\<rparr>)"
      using resolve_cases resolves by metis
    moreover have "approvals db1 = settle_where (\<lambda>a. app_id a = i) (resolve_status_str status, now) (approvals (db svc))"
      using resolve_approval_Inr [OF ra] inv by (simp add: approvals_inv_def)
    ultimately show ?thesis using assms(2,3)
      by (simp add: respond_def settle_where_keeps split: option.splits prod.splits)
  qed (use assms in simp)
next
  case (cancels_request ask s invocation req now)
  then show ?thesis using assms(2,3)
    by (auto simp: cancel_native_request_def Let_def settle_where_keeps dest!: update_session_state_other
        split: sum.splits prod.splits if_splits)
next
  case (cancels_workspace w now)
  then show ?thesis using assms(2,3)
    by (auto simp: cancel_workspace_pending_def Let_def settle_where_keeps)
next
  case (cancels_session s now)
  then show ?thesis using assms(2,3)
    by (auto simp: cancel_session_pending_def Let_def settle_where_keeps)
qed

section \<open>Properties\<close>

definition start_approvals :: "store \<Rightarrow> approval_service" where
  "start_approvals d = \<lparr>db = d, native = Map.empty, delivered = []\<rparr>"

text \<open>C9: however requests, decisions, disconnections and cancellations interleave, a provider is
  told each decision at most once, and what it was told is what the approval's row records; a
  responder is only ever kept for a request that is still pending, and a provider request is
  recorded once.\<close>

theorem provider_told_what_is_recorded:
  assumes "rows_unique d" and "approval_step\<^sup>*\<^sup>* (start_approvals d) svc"
  shows "distinct (map fst (delivered svc)) \<and>
    (\<forall>(i, decision) \<in> set (delivered svc). \<exists>a \<in> set (approvals (db svc)). app_id a = i \<and>
       app_status a = (if decision then ''approved'' else ''rejected'')) \<and>
    (\<forall>i s l. native svc i = Some (s, l) \<longrightarrow>
       (\<exists>a \<in> set (approvals (db svc)). app_id a = i \<and> app_session a = s \<and> pending a)) \<and>
    rows_unique (db svc)"
proof -
  have "approvals_inv (start_approvals d)"
    using assms(1) by (simp add: start_approvals_def approvals_inv_def responders_pending_def told_def)
  then have "approvals_inv svc" by (rule approving.runs [OF assms(2)])
  then show ?thesis unfolding approvals_inv_def told_def responders_pending_def by blast
qed

text \<open>C10: an approval is settled once: after its first resolution or cancellation no later operation
  changes its row, a second resolution is refused, and the refusal changes nothing.\<close>

theorem approval_settles_once:
  assumes "approvals_inv svc" and "a \<in> set (approvals (db svc))" and "\<not> pending a" and "approval_step\<^sup>*\<^sup>* svc svc'"
  shows "a \<in> set (approvals (db svc')) \<and>
    (\<exists>e. resolve ask (app_id a) status uuid now svc' = (Inl e, svc'))"
proof -
  have "a \<in> set (approvals (db svc')) \<and> approvals_inv svc'"
    using assms(4)
  proof (induction rule: rtranclp_induct)
    case (step t u)
    then show ?case using settled_rows_stay [OF step.hyps(2) _ assms(3)] approving.step_keeps by blast
  qed (use assms in simp)
  then have mem: "a \<in> set (approvals (db svc'))" and inv: "approvals_inv svc'" by auto
  have "\<nexists>x d'. resolve_approval (app_id a) st now (db svc') = Inr (x, d')" for st
  proof
    assume "\<exists>x d'. resolve_approval (app_id a) st now (db svc') = Inr (x, d')"
    then obtain b where "b \<in> set (approvals (db svc'))" "app_id b = app_id a" "pending b"
      using resolve_approval_Inr inv unfolding approvals_inv_def by blast
    then have "b = a" using inv mem by (auto simp: approvals_inv_def rows_unique_def distinct_map inj_on_def)
    with \<open>pending b\<close> assms(3) show False by simp
  qed
  then obtain e where "resolve_approval (app_id a) (resolve_status_str status) now (db svc') = Inl e"
    by (metis old.sum.exhaust surj_pair)
  then have "\<exists>e. resolve ask (app_id a) status uuid now svc' = (Inl e, svc')"
    by (auto simp: resolve_def split: sum.splits)
  with mem show ?thesis by blast
qed

text \<open>A store with one waiting session and one approval, pending or settled.\<close>

definition sample_approval :: "string \<Rightarrow> approval_row" where
  "sample_approval status =
     \<lparr>app_id = ''a'', app_session = ''s'', app_command = ''ls'', app_cwd = ''/'', app_provider = ''codex'',
      app_invocation = Some ''i'', app_request = Some ''r'', app_risk = ''low'', app_status = status,
      app_created = ''2026'', app_resolved = None\<rparr>"

definition sample_store :: "string \<Rightarrow> store" where
  "sample_store status =
     \<lparr>sessions = [\<lparr>sess_id = ''s'', sess_workspace = ''w'', sess_state = Waiting, sess_attention = ApprovalNeeded,
        sess_completed = None, sess_last_activity = ''2026'', sess_attention_changed = ''2026'', sess_branch_active = None\<rparr>],
      events = [], approvals = [sample_approval status], branches = []\<rparr>"

lemma sample_rows_unique: "rows_unique (sample_store status)"
  by (simp add: rows_unique_def sample_store_def)

lemma start_approvals_inv: "rows_unique d \<Longrightarrow> approvals_inv (start_approvals d)"
  by (simp add: start_approvals_def approvals_inv_def responders_pending_def told_def)

definition sample_request :: native_request where
  "sample_request = \<lparr>nr_session = ''s'', nr_invocation = ''i2'', nr_request = ''r2'', nr_command = ''make'', nr_cwd = ''/tmp'',
     nr_provider = ''codex'', nr_risk = ''low'', nr_approval_uuid = ''a2'', nr_event_uuid = ''e2'', nr_now = ''2026''\<rparr>"

theorem provider_told_what_is_recorded_witness:
  "rows_unique (db (snd (register_native (\<lambda>_ _. False) sample_request (start_approvals (sample_store ''pending'')))))"
proof -
  have "approval_step\<^sup>*\<^sup>* (start_approvals (sample_store ''pending''))
      (snd (register_native (\<lambda>_ _. False) sample_request (start_approvals (sample_store ''pending''))))"
    by (blast intro: approval_step.registers)
  from provider_told_what_is_recorded [OF sample_rows_unique this] show ?thesis by blast
qed

theorem approval_settles_once_witness:
  "\<exists>e. resolve (\<lambda>_ _. False) ''a'' Approved ''u'' ''2027'' (start_approvals (sample_store ''rejected'')) =
     (Inl e, start_approvals (sample_store ''rejected''))"
proof -
  let ?svc = "start_approvals (sample_store ''rejected'')"
  have inv: "approvals_inv ?svc" using sample_rows_unique by (rule start_approvals_inv)
  have mem: "sample_approval ''rejected'' \<in> set (approvals (db ?svc))"
    by (simp add: start_approvals_def sample_store_def)
  have np: "\<not> pending (sample_approval ''rejected'')" by (simp add: pending_def sample_approval_def)
  from approval_settles_once [OF inv mem np rtranclp.rtrancl_refl, of "\<lambda>_ _. False" Approved "''u''" "''2027''"]
  show ?thesis by (simp add: sample_approval_def)
qed

text \<open>The session that \<open>resolve\<close> leaves behind.\<close>

lemma next_state_session:
  assumes "update_session_state ask now i (next_state_input status isn still_a still_q) d = Inr (s', d')"
  shows "(sess_state s' = Waiting \<longleftrightarrow> still_a \<or> still_q) \<and> (sess_attention s' = ApprovalNeeded \<longleftrightarrow> still_a)"
  using written_session [OF assms]
  by (cases still_a; cases still_q; cases isn; cases status)
    (auto simp: next_state_input_def transition_def with_pending_approval_def with_blocking_question_def
      with_outstanding_question_def state_attention_def compute_session_attention_def may_carry_question_def)

lemma respond_db [simp]: "db (respond i b svc) = db svc"
  by (simp add: respond_def split: option.splits prod.splits)

lemma has_durable_pending_resolved:
  "events d' = events d @ [resolved_event uuid now status a] \<Longrightarrow> has_durable_pending d' s = has_durable_pending d s"
proof -
  assume ev: "events d' = events d @ [resolved_event uuid now status a]"
  have "list_durable_pending d' s = list_durable_pending (d\<lparr>events := events d @ [resolved_event uuid now status a]\<rparr>) s"
    by (simp add: list_durable_pending_def ev)
  also have "\<dots> = list_durable_pending d s"
    by (rule list_durable_pending_append)
      (auto simp: list_ex_iff completes_def blocking_question_def resolved_event_def)
  finally show ?thesis by (simp add: has_durable_pending_def)
qed

text \<open>Resolving an approval moves only the session it belongs to, and only while that session
  waits: it goes on waiting exactly when another approval or a blocking question of the session
  is still pending, and shows the approval pill exactly when an approval is. A session that has
  ended meanwhile is not revived.\<close>

lemma resolve_moves_waiting_session:
  assumes "resolve ask i status uuid now svc = (Inr a, svc')"
    and "find_session (db svc) (app_session a) = Inr s"
  shows "(\<exists>s'. find_session (db svc') (app_session a) = Inr s' \<and>
      (if sess_state s = Waiting
       then (sess_state s' = Waiting \<longleftrightarrow> list_for_session (db svc') (app_session a) ''pending'' \<noteq> [] \<or>
               has_durable_pending (db svc') (app_session a)) \<and>
            (sess_attention s' = ApprovalNeeded \<longleftrightarrow> list_for_session (db svc') (app_session a) ''pending'' \<noteq> [])
       else s' = s)) \<and>
    (\<forall>j. j \<noteq> app_session a \<longrightarrow> find_session (db svc') j = find_session (db svc) j)"
proof -
  let ?i = "app_session a"
  have "\<nexists>e. resolve ask i status uuid now svc = (Inl e, svc)" using assms(1) by simp
  then obtain current :: approval_row and a' db1 s1 s2 db2 ev db3
    where ra': "resolve_approval i (resolve_status_str status) now (db svc) = Inr (a', db1)"
      and fs': "find_session db1 (app_session a') = Inr s1"
      and w': "(if sess_state s1 = Waiting then update_session_state ask now (app_session a')
           (next_state_input status (app_request current \<noteq> None) (list_for_session db1 (app_session a') ''pending'' \<noteq> [])
             (has_durable_pending db1 (app_session a'))) db1 else Inr (s1, db1)) = Inr (s2, db2)"
      and p': "persist_event (resolved_event uuid now status a') db2 = Inr (ev, db3)"
      and eq: "resolve ask i status uuid now svc = (Inr a', respond i (status = Approved) (svc\<lparr>db := db3\<rparr>))"
    by (rule resolve_steps)
  have same: "a' = a" and svc': "db svc' = db3" using eq assms(1) by auto
  note ra = ra' [unfolded same] and fs = fs' [unfolded same] and w = w' [unfolded same] and p = p' [unfolded same]
  have db1: "sessions db1 = sessions (db svc)"
    using ra by (auto simp: resolve_approval_def Let_def split: sum.splits if_splits)
  then have find1: "find_session db1 j = find_session (db svc) j" for j by (simp add: find_session_def)
  then have s1: "s1 = s" using fs assms(2) by simp
  have find3: "find_session (db svc') j = find_session db2 j" for j
    using persist_event_other [OF p] svc' by (simp add: find_session_def)
  have q: "has_durable_pending (db svc') ?i = has_durable_pending db2 ?i"
    using persist_event_other [OF p] svc' by (simp add: has_durable_pending_resolved)
  have apps: "list_for_session (db svc') ?i ''pending'' = list_for_session db2 ?i ''pending''"
    using persist_event_other [OF p] svc' by (simp add: list_for_session_def)
  show ?thesis
  proof (cases "sess_state s = Waiting")
    case True
    then have u: "update_session_state ask now ?i
           (next_state_input status (app_request current \<noteq> None) (list_for_session db1 ?i ''pending'' \<noteq> [])
             (has_durable_pending db1 ?i)) db1 = Inr (s2, db2)" using w s1 by simp
    have same: "approvals db2 = approvals db1" "events db2 = events db1"
      using update_session_state_other [OF u] by simp_all
    then have "list_for_session db2 ?i ''pending'' = list_for_session db1 ?i ''pending''"
      "has_durable_pending db2 ?i = has_durable_pending db1 ?i"
      by (simp_all add: list_for_session_def has_durable_pending_def list_durable_pending_def)
    then show ?thesis using next_state_session [OF u] find_session_write [OF u] True
      by (simp add: find3 q apps find1)
  next
    case False
    then have "db2 = db1" using w s1 by simp
    then show ?thesis using False assms(2) by (simp add: find3 find1)
  qed
qed

lemma resolve_moves_waiting_session_witness:
  "\<exists>a svc' s'. resolve (\<lambda>_ _. False) ''a'' Approved ''u'' ''2027''
       ((start_approvals (sample_store ''pending''))\<lparr>native := [''a'' \<mapsto> (''s'', True)]\<rparr>) = (Inr a, svc') \<and>
     find_session (db svc') ''s'' = Inr s' \<and> sess_state s' \<noteq> Waiting"
proof -
  let ?svc = "(start_approvals (sample_store ''pending''))\<lparr>native := [''a'' \<mapsto> (''s'', True)]\<rparr>"
  obtain a svc' where r: "resolve (\<lambda>_ _. False) ''a'' Approved ''u'' ''2027'' ?svc = (Inr a, svc')"
    and a: "app_session a = ''s''" and none: "list_for_session (db svc') ''s'' ''pending'' = []"
    and noq: "\<not> has_durable_pending (db svc') ''s''"
    by (simp add: resolve_def start_approvals_def sample_store_def sample_approval_def find_approval_def
        resolve_approval_def pending_def settle_where_def settled_approval_def find_session_def update_session_state_def
        next_state_input_def list_for_session_def newest_first_def has_durable_pending_def list_durable_pending_def
        write_session_def transition_def may_carry_question_def is_active_def persist_event_def resolved_event_def
        respond_def blocking_question_def Let_def)
  have "\<exists>s. find_session (db ?svc) (app_session a) = Inr s \<and> sess_state s = Waiting"
    by (simp add: a start_approvals_def sample_store_def find_session_def)
  then obtain s where s: "find_session (db ?svc) (app_session a) = Inr s" "sess_state s = Waiting" by blast
  from resolve_moves_waiting_session [OF r s(1)] s(2) a none noq r show ?thesis by auto
qed

end
