(* ===== verification/Questions.thy ===== *)
theory Questions
  imports Questions_Pending
begin

text \<open>
  \<^verbatim>\<open>src-tauri/src/questions/service.rs\<close>: blocking questions of a provider. A request is parsed
  and checked, stored as a timeline event, and its responder kept by session and public request
  id; an answer is checked against the request, closes the event and goes to the provider.
  \<open>replies\<close> logs what the responders were sent. \<^verbatim>\<open>BTreeMap\<close> answers are an association list with
  increasing keys. Operations run under the service's lock; a failed transaction leaves the
  store as it was. UUIDs and the clock are arguments.
\<close>

section \<open>Requests\<close>

datatype question_status = Answered | Dismissed

record question_definition =
  q_id :: string
  is_secret :: bool

record parsed_request =
  pr_provider :: string
  pr_blocking :: bool
  pr_item :: string
  pr_thread :: string
  pr_turn :: string
  pr_normalized :: "json list"
  pr_questions :: "question_definition list"

definition MAX_QUESTIONS :: nat where "MAX_QUESTIONS = 3"
definition MAX_OPTIONS :: nat where "MAX_OPTIONS = 4"
definition MAX_TEXT_BYTES :: nat where "MAX_TEXT_BYTES = 8 * 1024"

definition invalid_request :: "string \<Rightarrow> argmax_error" where
  "invalid_request message = service ''QUESTION_REQUEST_INVALID'' message"

definition invalid_answer :: "string \<Rightarrow> argmax_error" where
  "invalid_answer message = service ''QUESTION_ANSWER_INVALID'' message"

definition nul :: char where
  "nul = CHR 0x00"

definition required_text :: "json \<Rightarrow> string \<Rightarrow> argmax_error + string" where
  "required_text v field =
     (case (case json_get field v of None \<Rightarrow> None | Some x \<Rightarrow> as_str x) of
        None \<Rightarrow> Inl (invalid_request (''The question has no '' @ field))
      | Some t \<Rightarrow>
          if is_blank t then Inl (invalid_request (''The question has no '' @ field))
          else if length t > MAX_TEXT_BYTES \<or> nul \<in> set t
            then Inl (invalid_request (''The question '' @ field @ '' is invalid''))
          else Inr t)"

definition flag :: "string \<Rightarrow> json \<Rightarrow> bool" where
  "flag k v = (case (case json_get k v of None \<Rightarrow> None | Some x \<Rightarrow> as_bool x) of None \<Rightarrow> False | Some b \<Rightarrow> b)"

definition parse_option :: "json \<Rightarrow> argmax_error + json" where
  "parse_option raw =
     (case required_text raw ''label'' of Inl e \<Rightarrow> Inl e | Inr text \<Rightarrow>
     (if json_get ''description'' raw = None \<or> json_get ''description'' raw = Some JNull
      then Inr (json_object [(''label'', JString text)])
      else (case required_text raw ''description'' of Inl e \<Rightarrow> Inl e | Inr d \<Rightarrow>
              Inr (json_object [(''label'', JString text), (''description'', JString d)]))))"

fun parse_options :: "json list \<Rightarrow> argmax_error + json list" where
  "parse_options [] = Inr []"
| "parse_options (raw # raws) =
     and_then (parse_option raw) (\<lambda>x. and_then (parse_options raws) (\<lambda>xs. Inr (x # xs)))"

text \<open>The options of a question: none, or at most four.\<close>

definition raw_options :: "json \<Rightarrow> argmax_error + json list" where
  "raw_options raw =
     (case json_get ''options'' raw of
        None \<Rightarrow> Inr []
      | Some JNull \<Rightarrow> Inr []
      | Some (JArray options) \<Rightarrow>
          if length options \<le> MAX_OPTIONS then Inr options
          else Inl (invalid_request ''Each question may contain at most four options'')
      | _ \<Rightarrow> Inl (invalid_request ''Each question may contain at most four options''))"

text \<open>One turn of the loop over the questions; \<open>ids\<close> are the ids already seen.\<close>

definition parse_question :: "string list \<Rightarrow> json \<Rightarrow> argmax_error + json \<times> question_definition" where
  "parse_question ids raw =
     and_then (required_text raw ''id'') (\<lambda>i.
       if i \<in> set ids then Inl (invalid_request ''Question ids must be unique'')
       else and_then (required_text raw ''header'') (\<lambda>header.
         and_then (required_text raw ''question'') (\<lambda>question.
         and_then (raw_options raw) (\<lambda>raws.
         and_then (parse_options raws) (\<lambda>options.
           Inr (json_object [(''id'', JString i), (''header'', JString header), (''question'', JString question),
                             (''options'', JArray options), (''multiSelect'', JBool (flag ''multiSelect'' raw)),
                             (''isOther'', JBool (flag ''isOther'' raw)), (''isSecret'', JBool (flag ''isSecret'' raw))],
                \<lparr>q_id = i, is_secret = flag ''isSecret'' raw\<rparr>))))))"

fun parse_questions :: "string list \<Rightarrow> json list \<Rightarrow> argmax_error + (json list \<times> question_definition list)" where
  "parse_questions ids [] = Inr ([], [])"
| "parse_questions ids (raw # raws) =
     and_then (parse_question ids raw) (\<lambda>(n, q).
       and_then (parse_questions (ids @ [q_id q]) raws) (\<lambda>(ns, qs). Inr (n # ns, q # qs)))"

definition parse_request :: "json \<Rightarrow> argmax_error + parsed_request" where
  "parse_request params =
     (let prov = (case (case json_get ''provider'' params of None \<Rightarrow> None | Some x \<Rightarrow> as_str x) of
                        None \<Rightarrow> ''codex'' | Some p \<Rightarrow> p)
      in case (case json_get ''isBlocking'' params of None \<Rightarrow> None | Some x \<Rightarrow> as_bool x) of
           None \<Rightarrow> Inl (invalid_request ''The question has no isBlocking flag'')
         | Some blocking \<Rightarrow>
             and_then (required_text params ''itemId'') (\<lambda>item.
             and_then (required_text params ''threadId'') (\<lambda>thread.
             and_then (required_text params ''turnId'') (\<lambda>turn.
               case (case json_get ''questions'' params of None \<Rightarrow> None | Some x \<Rightarrow> as_array x) of
                 None \<Rightarrow> Inl (invalid_request ''A question request must contain one to three questions'')
               | Some raws \<Rightarrow>
                   if raws = [] \<or> length raws > MAX_QUESTIONS
                   then Inl (invalid_request ''A question request must contain one to three questions'')
                   else and_then (parse_questions [] raws) (\<lambda>(ns, qs).
                          Inr \<lparr>pr_provider = prov, pr_blocking = blocking, pr_item = item, pr_thread = thread,
                               pr_turn = turn, pr_normalized = ns, pr_questions = qs\<rparr>)))))"

section \<open>Answers\<close>

type_synonym answer_map = "(string \<times> string list) list"

definition bad_answer :: "string \<Rightarrow> bool" where
  "bad_answer a \<longleftrightarrow> is_blank a \<or> length a > MAX_TEXT_BYTES \<or> nul \<in> set a"

fun check_questions :: "answer_map \<Rightarrow> question_definition list \<Rightarrow> argmax_error + unit" where
  "check_questions answers [] = Inr ()"
| "check_questions answers (q # qs) =
     (case map_of answers (q_id q) of
        None \<Rightarrow> Inl (invalid_answer (''Question '' @ q_id q @ '' has no answer''))
      | Some vs \<Rightarrow>
          if vs = [] \<or> list_ex bad_answer vs
          then Inl (invalid_answer (''Question '' @ q_id q @ '' has an invalid answer''))
          else if is_secret q \<and> length vs \<noteq> 1
          then Inl (invalid_answer ''Secret questions require exactly one answer'')
          else check_questions answers qs)"

definition validate_answers :: "question_definition list \<Rightarrow> answer_map \<Rightarrow> bool \<Rightarrow> argmax_error + unit" where
  "validate_answers qs answers dismissed =
     (if dismissed then
        (if answers = [] then Inr () else Inl (invalid_answer ''Dismissed questions cannot include answers''))
      else if length answers \<noteq> length qs then Inl (invalid_answer ''Every question requires an answer'')
      else and_then (check_questions answers qs) (\<lambda>_.
             if list_ex (\<lambda>k. \<not> list_ex (\<lambda>q. q_id q = k) qs) (map fst answers)
             then Inl (invalid_answer ''Answers contain an unknown question id'')
             else Inr ()))"

definition typed_answer_text :: "string \<Rightarrow> string" where
  "typed_answer_text a =
     (if starts_with a ''user_note: '' then drop (length ''user_note: '') a else a)"

section \<open>Card payloads\<close>

definition question_started_payload :: "parsed_request \<Rightarrow> string \<Rightarrow> string \<Rightarrow> string \<Rightarrow> json" where
  "question_started_payload r invocation request provider_request = json_object
     [(''id'', JString (pr_item r)), (''type'', JString ''AskUserQuestion''), (''name'', JString ''AskUserQuestion''),
      (''status'', JString ''running''), (''provider'', JString (pr_provider r)), (''requestId'', JString request),
      (''providerRequestId'', JString provider_request), (''providerInvocationId'', JString invocation),
      (''threadId'', JString (pr_thread r)), (''turnId'', JString (pr_turn r)),
      (''input'', json_object [(''delivery'', JString ''blocking''), (''requestId'', JString request),
                               (''questions'', JArray (pr_normalized r))])]"

definition async_question_started_payload :: "parsed_request \<Rightarrow> string \<Rightarrow> string \<Rightarrow> json" where
  "async_question_started_payload r invocation provider_request = json_object
     [(''id'', JString (pr_item r)), (''type'', JString ''AskUserQuestion''), (''name'', JString ''AskUserQuestion''),
      (''status'', JString ''running''), (''provider'', JString (pr_provider r)),
      (''providerRequestId'', JString provider_request), (''providerInvocationId'', JString invocation),
      (''threadId'', JString (pr_thread r)), (''turnId'', JString (pr_turn r)),
      (''input'', json_object [(''delivery'', JString ''async''), (''questions'', JArray (pr_normalized r))])]"

definition async_question_completed_payload :: "parsed_request \<Rightarrow> string \<Rightarrow> string \<Rightarrow> json" where
  "async_question_completed_payload r invocation provider_request = json_object
     [(''id'', JString (pr_item r)), (''type'', JString ''AskUserQuestion''), (''name'', JString ''AskUserQuestion''),
      (''status'', JString ''completed''), (''provider'', JString (pr_provider r)),
      (''providerRequestId'', JString provider_request), (''providerInvocationId'', JString invocation)]"

record pending_question =
  pq_invocation :: string
  pq_request :: string
  pq_provider_request :: string
  pq_item :: string
  pq_provider :: string
  pq_questions :: "question_definition list"
  pq_listening :: bool  \<comment> \<open>the receiver of its sender is alive\<close>

definition question_completed_payload :: "pending_question \<Rightarrow> string \<Rightarrow> json" where
  "question_completed_payload p status = json_object
     [(''id'', JString (pq_item p)), (''type'', JString ''AskUserQuestion''), (''name'', JString ''AskUserQuestion''),
      (''status'', JString status), (''provider'', JString (pq_provider p)), (''requestId'', JString (pq_request p)),
      (''providerRequestId'', JString (pq_provider_request p)), (''providerInvocationId'', JString (pq_invocation p))]"

definition or_null :: "json option \<Rightarrow> json" where
  "or_null v = (case v of None \<Rightarrow> JNull | Some x \<Rightarrow> x)"

definition cancelled_payload :: "json \<Rightarrow> json" where
  "cancelled_payload p = json_object
     [(''id'', or_null (json_get ''id'' p)), (''type'', JString ''AskUserQuestion''),
      (''name'', JString ''AskUserQuestion''), (''status'', JString ''cancelled''),
      (''provider'', (case json_get ''provider'' p of None \<Rightarrow> JString ''codex'' | Some x \<Rightarrow> x)),
      (''requestId'', or_null (json_get ''requestId'' p)),
      (''providerRequestId'', or_null (json_get ''providerRequestId'' p)),
      (''providerInvocationId'', or_null (json_get ''providerInvocationId'' p))]"

section \<open>The service\<close>

record question_service =
  qdb :: store
  qpending :: "((string \<times> string) \<times> pending_question) list"
  replies :: "((string \<times> string) \<times> json) list"

definition card_event :: "string \<Rightarrow> string \<Rightarrow> string \<Rightarrow> json \<Rightarrow> string \<Rightarrow> event_row" where
  "card_event uuid session typ payload now =
     \<lparr>ev_id = uuid, ev_session = session, ev_type = typ, ev_message = ''AskUserQuestion'',
      ev_payload = payload, ev_created = now\<rparr>"

text \<open>The hash map of the live questions, as an association list with distinct keys.\<close>

definition put_pending :: "string \<times> string \<Rightarrow> pending_question \<Rightarrow> question_service \<Rightarrow> question_service" where
  "put_pending k p svc = svc\<lparr>qpending := (k, p) # filter (\<lambda>e. fst e \<noteq> k) (qpending svc)\<rparr>"

text \<open>The two checks that registering and recording share.\<close>

definition admit_question :: "store \<Rightarrow> string \<Rightarrow> string \<Rightarrow> string \<Rightarrow> argmax_error + session_row" where
  "admit_question d session invocation request =
     (case find_session d session of Inl e \<Rightarrow> Inl e | Inr s \<Rightarrow>
      if \<not> (sess_state s = Running \<or> sess_state s = Waiting)
      then Inl (service ''QUESTION_CANCELLED'' ''The provider turn has ended'')
      else if has_durable_request d session invocation request
      then Inl (service ''QUESTION_DUPLICATE'' ''This provider question was already received'')
      else Inr s)"

definition register_question ::
  "card_ask \<Rightarrow> string \<Rightarrow> string \<Rightarrow> string \<Rightarrow> parsed_request \<Rightarrow> string \<Rightarrow> string \<Rightarrow> string \<Rightarrow> question_service \<Rightarrow>
   (argmax_error + unit) \<times> question_service"
where
  "register_question ask session invocation request r public_id event_uuid now svc =
     (case admit_question (qdb svc) session invocation request of Inl e \<Rightarrow> (Inl e, svc) | Inr _ \<Rightarrow>
     (case persist_event (card_event event_uuid session ''command.started''
             (question_started_payload r invocation public_id request) now) (qdb svc) of
        Inl e \<Rightarrow> (Inl e, svc) | Inr (_, db1) \<Rightarrow>
     (case update_session_state ask now session
             (if list_for_session db1 session ''pending'' \<noteq> [] then with_pending_approval (transition Waiting)
              else with_blocking_question (transition Waiting)) db1 of
        Inl e \<Rightarrow> (Inl e, svc) | Inr (_, db2) \<Rightarrow>
          (Inr (), put_pending (session, public_id)
             \<lparr>pq_invocation = invocation, pq_request = public_id, pq_provider_request = request,
              pq_item = pr_item r, pq_provider = pr_provider r, pq_questions = pr_questions r,
              pq_listening = True\<rparr> (svc\<lparr>qdb := db2\<rparr>)))))"

definition record_async ::
  "string \<Rightarrow> string \<Rightarrow> string \<Rightarrow> parsed_request \<Rightarrow> string \<Rightarrow> string \<Rightarrow> string \<Rightarrow> question_service \<Rightarrow>
   (argmax_error + json) \<times> question_service"
where
  "record_async session invocation request r uuid1 uuid2 now svc =
     (case admit_question (qdb svc) session invocation request of Inl e \<Rightarrow> (Inl e, svc) | Inr _ \<Rightarrow>
     (case persist_event (card_event uuid1 session ''command.started''
             (async_question_started_payload r invocation request) now) (qdb svc) of
        Inl e \<Rightarrow> (Inl e, svc) | Inr (_, db1) \<Rightarrow>
     (case persist_event (card_event uuid2 session ''command.completed''
             (async_question_completed_payload r invocation request) now) db1 of
        Inl e \<Rightarrow> (Inl e, svc) | Inr (_, db2) \<Rightarrow>
          (Inr (json_object [(''answers'', json_object [])]), svc\<lparr>qdb := db2\<rparr>))))"

text \<open>A provider's question: refused, answered at once (\<open>Some\<close>), or waiting for its responder.\<close>

definition request_native_question ::
  "card_ask \<Rightarrow> string \<Rightarrow> string \<Rightarrow> string \<Rightarrow> json \<Rightarrow> string \<Rightarrow> string \<Rightarrow> string \<Rightarrow> string \<Rightarrow> question_service \<Rightarrow>
   (argmax_error + json option) \<times> question_service"
where
  "request_native_question ask session invocation request params public_id uuid1 uuid2 now svc =
     (case parse_request params of Inl e \<Rightarrow> (Inl e, svc) | Inr r \<Rightarrow>
      if \<not> pr_blocking r
      then (case record_async session invocation request r uuid1 uuid2 now svc of
              (Inl e, svc') \<Rightarrow> (Inl e, svc') | (Inr v, svc') \<Rightarrow> (Inr (Some v), svc'))
      else (case register_question ask session invocation request r public_id uuid1 now svc of
              (Inl e, svc') \<Rightarrow> (Inl e, svc') | (Inr _, svc') \<Rightarrow> (Inr None, svc')))"

text \<open>The provider drops the receiver of a question.\<close>

definition drop_question_receiver :: "string \<times> string \<Rightarrow> question_service \<Rightarrow> question_service" where
  "drop_question_receiver k svc =
     svc\<lparr>qpending := map (\<lambda>(k', p). (k', if k' = k then p\<lparr>pq_listening := False\<rparr> else p)) (qpending svc)\<rparr>"

definition answers_json :: "answer_map \<Rightarrow> bool \<Rightarrow> json" where
  "answers_json answers dismissed =
     json_object [(''answers'',
       if dismissed then json_object []
       else json_object (map (\<lambda>(i, vs). (i, json_object [(''answers'', JArray (map JString vs))])) answers))]"

definition resolve_question ::
  "card_ask \<Rightarrow> string \<Rightarrow> string \<Rightarrow> answer_map \<Rightarrow> bool \<Rightarrow> string \<Rightarrow> string \<Rightarrow>
   question_service \<Rightarrow> (argmax_error + question_status) \<times> question_service"
where
  "resolve_question ask session request answers dismissed uuid now svc =
     (case map_of (qpending svc) (session, request) of
        None \<Rightarrow> (Inl (service ''QUESTION_NOT_PENDING'' ''This question is no longer waiting for an answer''), svc)
      | Some p \<Rightarrow>
      if \<not> pq_listening p
      then (Inl (service ''QUESTION_CANCELLED'' ''This question is no longer connected to a running provider''), svc)
      else
     (case validate_answers (pq_questions p) answers dismissed of Inl e \<Rightarrow> (Inl e, svc) | Inr _ \<Rightarrow>
     (case find_session (qdb svc) session of Inl e \<Rightarrow> (Inl e, svc) | Inr s \<Rightarrow>
      if \<not> (sess_state s = Running \<or> sess_state s = Waiting)
      then (Inl (service ''QUESTION_CANCELLED'' ''The provider turn has ended''), svc)
      else
     (case persist_event (card_event uuid session ''command.completed''
             (question_completed_payload p (if dismissed then ''dismissed'' else ''completed'')) now) (qdb svc) of
        Inl e \<Rightarrow> (Inl e, svc) | Inr (_, db1) \<Rightarrow>
        let other_question = list_ex (\<lambda>k. k \<noteq> (session, request) \<and> fst k = session) (map fst (qpending svc));
            has_approval = (list_for_session db1 session ''pending'' \<noteq> [])
        in (case (if sess_state s = Waiting \<and> \<not> other_question \<and> \<not> has_approval
                  then update_session_state ask now session (transition Running) db1
                  else Inr (s, db1)) of
              Inl e \<Rightarrow> (Inl e, svc)
            | Inr (_, db2) \<Rightarrow>
                (Inr (if dismissed then Dismissed else Answered),
                 svc\<lparr>qdb := db2, qpending := filter (\<lambda>e. fst e \<noteq> (session, request)) (qpending svc),
                     replies := replies svc @ [((session, request), answers_json answers dismissed)]\<rparr>))))))"

fun cancel_cards :: "string \<Rightarrow> string \<Rightarrow> (json \<times> string) list \<Rightarrow> store \<Rightarrow> argmax_error + store" where
  "cancel_cards session now [] d = Inr d"
| "cancel_cards session now ((payload, uuid) # rest) d =
     (case persist_event (card_event uuid session ''command.completed'' (cancelled_payload payload) now) d of
        Inl e \<Rightarrow> Inl e
      | Inr (_, d') \<Rightarrow> cancel_cards session now rest d')"

definition cancel_session_questions ::
  "card_ask \<Rightarrow> string \<Rightarrow> (nat \<Rightarrow> string) \<Rightarrow> string \<Rightarrow> question_service \<Rightarrow> (argmax_error + unit) \<times> question_service"
where
  "cancel_session_questions ask session uuids now svc =
     (let svc1 = svc\<lparr>qpending := filter (\<lambda>e. fst (fst e) \<noteq> session) (qpending svc)\<rparr>;
          durable = list_durable_pending (qdb svc) session
      in if durable = [] then (Inr (), svc1)
         else
           (case cancel_cards session now (zip durable (map uuids [0..<length durable])) (qdb svc) of
              Inl e \<Rightarrow> (Inl e, svc1) | Inr db1 \<Rightarrow>
           (case find_session db1 session of Inl e \<Rightarrow> (Inl e, svc1) | Inr s \<Rightarrow>
           (case update_session_state ask now session
                   (case sess_completed s of
                      None \<Rightarrow> transition (sess_state s)
                    | Some t \<Rightarrow> finished_at t (transition (sess_state s))) db1 of
              Inl e \<Rightarrow> (Inl e, svc1) | Inr (_, db2) \<Rightarrow> (Inr (), svc1\<lparr>qdb := db2\<rparr>)))))"

section \<open>What an accepted request looks like\<close>

definition good_text :: "string \<Rightarrow> bool" where
  "good_text t \<longleftrightarrow> \<not> is_blank t \<and> length t \<le> MAX_TEXT_BYTES \<and> nul \<notin> set t"

lemma bad_answer_iff [simp]: "bad_answer t \<longleftrightarrow> \<not> good_text t"
  by (auto simp: bad_answer_def good_text_def)

lemma required_text_Inr: "required_text v f = Inr t \<Longrightarrow> good_text t"
  by (auto simp: required_text_def good_text_def split: option.splits if_splits)

definition describes :: "json \<Rightarrow> question_definition \<Rightarrow> bool" where
  "describes n q \<longleftrightarrow> json_get ''id'' n = Some (JString (q_id q)) \<and>
     json_get ''isSecret'' n = Some (JBool (is_secret q)) \<and>
     (\<exists>os. json_get ''options'' n = Some (JArray os) \<and> length os \<le> MAX_OPTIONS)"

lemma parse_options_length: "parse_options raws = Inr xs \<Longrightarrow> length xs = length raws"
  by (induction raws arbitrary: xs) (auto simp: and_then_Inr_iff)

lemma raw_options_length: "raw_options raw = Inr xs \<Longrightarrow> length xs \<le> MAX_OPTIONS"
  by (auto simp: raw_options_def split: option.splits json.splits if_splits)

lemma parse_question_Inr:
  assumes "parse_question ids raw = Inr (n, q)"
  shows "q_id q \<notin> set ids \<and> good_text (q_id q) \<and> describes n q"
proof -
  obtain i h t ro os where i: "required_text raw ''id'' = Inr i" and new: "i \<notin> set ids"
    and ro: "raw_options raw = Inr ro" and os: "parse_options ro = Inr os"
    and n: "n = json_object [(''id'', JString i), (''header'', JString h), (''question'', JString t),
              (''options'', JArray os), (''multiSelect'', JBool (flag ''multiSelect'' raw)),
              (''isOther'', JBool (flag ''isOther'' raw)), (''isSecret'', JBool (flag ''isSecret'' raw))]"
    and q: "q = \<lparr>q_id = i, is_secret = flag ''isSecret'' raw\<rparr>"
    using assms by (auto simp: parse_question_def and_then_Inr_iff split: if_splits)
  show ?thesis
    using required_text_Inr [OF i] new parse_options_length [OF os] raw_options_length [OF ro]
    by (simp add: q n describes_def)
qed

lemma parse_questions_Inr:
  "parse_questions ids raws = Inr (ns, qs) \<Longrightarrow>
     length qs = length raws \<and> list_all2 describes ns qs \<and> distinct (map q_id qs) \<and>
     set ids \<inter> set (map q_id qs) = {} \<and> (\<forall>q \<in> set qs. good_text (q_id q))"
proof (induction ids raws arbitrary: ns qs rule: parse_questions.induct)
  case (2 ids raw raws)
  obtain n q ns' qs' where pq: "parse_question ids raw = Inr (n, q)"
    and rest: "parse_questions (ids @ [q_id q]) raws = Inr (ns', qs')" and eq: "ns = n # ns'" "qs = q # qs'"
    using "2.prems" by (auto simp: and_then_Inr_iff)
  show ?case using parse_question_Inr [OF pq] "2.IH" [OF rest] by (auto simp: eq)
qed simp

lemma parse_request_Inr:
  assumes "parse_request params = Inr r"
  shows "1 \<le> length (pr_questions r) \<and> length (pr_questions r) \<le> MAX_QUESTIONS \<and>
    list_all2 describes (pr_normalized r) (pr_questions r) \<and> distinct (map q_id (pr_questions r)) \<and>
    (\<forall>q \<in> set (pr_questions r). good_text (q_id q)) \<and>
    good_text (pr_item r) \<and> good_text (pr_thread r) \<and> good_text (pr_turn r)"
proof -
  obtain item thread turn raws ns qs b p where
    t: "required_text params ''itemId'' = Inr item" "required_text params ''threadId'' = Inr thread"
      "required_text params ''turnId'' = Inr turn"
    and n: "raws \<noteq> []" "length raws \<le> MAX_QUESTIONS" and pq: "parse_questions [] raws = Inr (ns, qs)"
    and r: "r = \<lparr>pr_provider = p, pr_blocking = b, pr_item = item, pr_thread = thread,
               pr_turn = turn, pr_normalized = ns, pr_questions = qs\<rparr>"
    using assms unfolding parse_request_def Let_def
    by (auto simp: and_then_Inr_iff split: option.splits if_splits)
  show ?thesis using parse_questions_Inr [OF pq] n t [THEN required_text_Inr]
    by (cases raws) (auto simp: r)
qed

section \<open>What a validated answer looks like\<close>

definition answers_question :: "answer_map \<Rightarrow> question_definition \<Rightarrow> bool" where
  "answers_question answers q \<longleftrightarrow>
     (\<exists>vs. map_of answers (q_id q) = Some vs \<and> vs \<noteq> [] \<and> (\<forall>v \<in> set vs. good_text v) \<and>
           (is_secret q \<longrightarrow> length vs = 1))"

lemma check_questions_Inr: "check_questions answers qs = Inr u \<longleftrightarrow> (\<forall>q \<in> set qs. answers_question answers q)"
  by (induction answers qs rule: check_questions.induct)
    (auto simp: answers_question_def list_ex_iff split: option.splits)

lemma validate_answers_Inr:
  assumes "distinct (map q_id qs)" and "distinct (map fst answers)"
  shows "validate_answers qs answers dismissed = Inr u \<longleftrightarrow>
    (if dismissed then answers = []
     else set (map fst answers) = q_id ` set qs \<and> (\<forall>q \<in> set qs. answers_question answers q))"
proof (cases dismissed)
  case False
  have sub: "q_id ` set qs \<subseteq> set (map fst answers)" if "\<forall>q \<in> set qs. answers_question answers q"
  proof
    fix i assume "i \<in> q_id ` set qs"
    then have "map_of answers i \<noteq> None" using that by (auto simp: answers_question_def)
    then show "i \<in> set (map fst answers)" by (simp add: map_of_eq_None_iff)
  qed
  have len: "length answers = length qs" if "set (map fst answers) = q_id ` set qs"
    using distinct_card [OF assms(1)] distinct_card [OF assms(2)] that by simp
  have known: "\<not> list_ex (\<lambda>k. \<not> list_ex (\<lambda>q. q_id q = k) qs) (map fst answers) \<longleftrightarrow> set (map fst answers) \<subseteq> q_id ` set qs"
    unfolding list_ex_iff subset_iff image_iff by metis
  show ?thesis
    using False sub len known
    by (auto simp: validate_answers_def and_then_Inr_iff check_questions_Inr split: if_splits)
qed (simp add: validate_answers_def)

section \<open>The service's invariant\<close>

text \<open>A card's ids, by which its completion is found, are strings.\<close>

definition card_of :: "json \<Rightarrow> string \<times> string \<times> string \<Rightarrow> bool" where
  "card_of v k \<longleftrightarrow> json_get ''id'' v = Some (JString (fst k)) \<and>
     json_get ''providerInvocationId'' v = Some (JString (fst (snd k))) \<and>
     json_get ''providerRequestId'' v = Some (JString (snd (snd k)))"

definition keyed_cards :: "store \<Rightarrow> bool" where
  "keyed_cards d \<longleftrightarrow> (\<forall>ev \<in> set (events d). blocking_question (ev_session ev) ev \<longrightarrow> (\<exists>k. card_of (ev_payload ev) k))"

definition card_on_record :: "store \<Rightarrow> string \<Rightarrow> pending_question \<Rightarrow> event_row \<Rightarrow> bool" where
  "card_on_record d session p ev \<longleftrightarrow> ev \<in> set (events d) \<and> blocking_question session ev \<and>
     card_of (ev_payload ev) (pq_item p, pq_invocation p, pq_provider_request p) \<and>
     json_get ''requestId'' (ev_payload ev) = Some (JString (pq_request p))"

definition questions_inv :: "question_service \<Rightarrow> bool" where
  "questions_inv svc \<longleftrightarrow>
     distinct (map fst (qpending svc) @ map fst (replies svc)) \<and> keyed_cards (qdb svc) \<and>
     (\<forall>(k, p) \<in> set (qpending svc). pq_request p = snd k \<and> distinct (map q_id (pq_questions p)) \<and>
        (\<exists>ev. card_on_record (qdb svc) (fst k) p ev))"

lemma completes_card:
  assumes "card_of (ev_payload r) k" and "card_of (ev_payload c) k"
    and "ev_session c = ev_session r" and "ev_type c = ''command.completed''"
  shows "completes c r"
  using assms by (simp add: completes_def sql_eq_def card_of_def)

lemma card_payloads:
  "card_of (question_started_payload r i pub req) (pr_item r, i, req)"
  "card_of (async_question_started_payload r i req) (pr_item r, i, req)"
  "card_of (question_completed_payload p st) (pq_item p, pq_invocation p, pq_provider_request p)"
  "card_of v k \<Longrightarrow> card_of (cancelled_payload v) k"
  by (simp_all add: card_of_def question_started_payload_def async_question_started_payload_def
      question_completed_payload_def cancelled_payload_def or_null_def)

lemma blocking_card:
  "blocking_question s (card_event u s ''command.started'' (question_started_payload r i pub req) now)"
  "\<not> blocking_question s (card_event u s' ''command.started'' (async_question_started_payload r i req) now)"
  "\<not> blocking_question s (card_event u s' ''command.completed'' v now)"
  by (simp_all add: blocking_question_def card_event_def question_started_payload_def
      async_question_started_payload_def)

lemma keyed_append:
  assumes "keyed_cards d" and "events d' = events d @ evs"
    and "\<forall>ev \<in> set evs. blocking_question (ev_session ev) ev \<longrightarrow> (\<exists>k. card_of (ev_payload ev) k)"
  shows "keyed_cards d'"
  using assms by (auto simp: keyed_cards_def)

lemma card_event_fields [simp]:
  "ev_session (card_event u s t v now) = s" "ev_type (card_event u s t v now) = t"
  "ev_payload (card_event u s t v now) = v"
  by (simp_all add: card_event_def)

text \<open>The invariant when the pending questions shrink, replies move over and events are appended.\<close>

lemma questions_inv_grow:
  assumes "questions_inv svc" and "events (qdb svc') = events (qdb svc) @ evs"
    and "\<forall>ev \<in> set evs. blocking_question (ev_session ev) ev \<longrightarrow> (\<exists>k. card_of (ev_payload ev) k)"
    and "distinct (map fst (qpending svc') @ map fst (replies svc'))"
    and "\<forall>(k, p) \<in> set (qpending svc'). \<exists>p0 b. (k, p0) \<in> set (qpending svc) \<and> p = p0\<lparr>pq_listening := b\<rparr>"
  shows "questions_inv svc'"
proof -
  have "pq_request p = snd k \<and> distinct (map q_id (pq_questions p)) \<and> (\<exists>ev. card_on_record (qdb svc') (fst k) p ev)"
    if kp: "(k, p) \<in> set (qpending svc')" for k p
  proof -
    obtain p0 b where p0: "(k, p0) \<in> set (qpending svc)" and p: "p = p0\<lparr>pq_listening := b\<rparr>"
      using bspec [OF assms(5) kp] by auto
    have fields: "pq_request p = pq_request p0" "pq_questions p = pq_questions p0" "pq_item p = pq_item p0"
      "pq_invocation p = pq_invocation p0" "pq_provider_request p = pq_provider_request p0"
      by (simp_all add: p)
    have "pq_request p0 = snd k \<and> distinct (map q_id (pq_questions p0)) \<and> (\<exists>ev. card_on_record (qdb svc) (fst k) p0 ev)"
      using assms(1) p0 by (auto simp: questions_inv_def)
    then show ?thesis using assms(2) by (auto simp: fields card_on_record_def)
  qed
  moreover have "keyed_cards (qdb svc')" using assms(1-3) by (auto simp: questions_inv_def intro: keyed_append)
  ultimately show ?thesis using assms(4) by (auto simp: questions_inv_def)
qed

lemma pending_subset:
  "set ps' \<subseteq> set ps \<Longrightarrow> \<forall>(k, p :: pending_question) \<in> set ps'. \<exists>p0 b. (k, p0) \<in> set ps \<and> p = p0\<lparr>pq_listening := b\<rparr>"
proof (rule ballI)
  fix e assume "set ps' \<subseteq> set ps" and "e \<in> set ps'"
  moreover obtain k p where e: "e = (k, p)" by (cases e)
  ultimately have "(k, p) \<in> set ps \<and> p = p\<lparr>pq_listening := pq_listening p\<rparr>" by auto
  then show "case e of (k, p) \<Rightarrow> \<exists>p0 b. (k, p0) \<in> set ps \<and> p = p0\<lparr>pq_listening := b\<rparr>"
    unfolding e prod.case by (intro exI)
qed

lemma questions_inv_events:
  assumes "questions_inv svc" and "events (qdb svc') = events (qdb svc) @ evs"
    and "\<forall>ev \<in> set evs. blocking_question (ev_session ev) ev \<longrightarrow> (\<exists>k. card_of (ev_payload ev) k)"
    and "qpending svc' = qpending svc" and "replies svc' = replies svc"
  shows "questions_inv svc'"
proof (rule questions_inv_grow [OF assms(1-3)])
  show "distinct (map fst (qpending svc') @ map fst (replies svc'))"
    using assms(1,4,5) by (simp add: questions_inv_def)
qed (rule pending_subset, simp add: assms(4))

lemma questions_inv_put:
  assumes inv: "questions_inv svc" and new: "k \<notin> set (map fst (qpending svc) @ map fst (replies svc))"
    and p: "pq_request p = snd k" "distinct (map q_id (pq_questions p))" "card_on_record (qdb svc) (fst k) p ev"
  shows "questions_inv (put_pending k p svc)"
proof -
  have same: "filter (\<lambda>e. fst e \<noteq> k) (qpending svc) = qpending svc"
    using new by (intro filter_True) (force simp: image_iff)
  have "\<exists>ev. card_on_record (qdb svc) (fst k) p ev" using p(3) by blast
  then show ?thesis using inv new p(1,2) by (simp add: questions_inv_def put_pending_def same)
qed

section \<open>What each operation does to the invariant\<close>

lemma register_question_cases:
  assumes "register_question ask session invocation request r pub uuid now svc = (res, svc')"
  obtains "svc' = svc" "\<exists>e. res = Inl e"
  | db1 db2 where
      "persist_event (card_event uuid session ''command.started'' (question_started_payload r invocation pub request) now)
         (qdb svc) = Inr (card_event uuid session ''command.started'' (question_started_payload r invocation pub request) now, db1)"
      "events db2 = events db1" "res = Inr ()"
      "svc' = put_pending (session, pub)
             \<lparr>pq_invocation = invocation, pq_request = pub, pq_provider_request = request,
              pq_item = pr_item r, pq_provider = pr_provider r, pq_questions = pr_questions r,
              pq_listening = True\<rparr> (svc\<lparr>qdb := db2\<rparr>)"
proof (cases res)
  case (Inl e)
  then have "svc' = svc" using assms
    by (auto simp: register_question_def split: sum.splits prod.splits if_splits)
  then show ?thesis using that(1) Inl by blast
next
  case (Inr u)
  then obtain ev db1 inp s db2 where
    pe: "persist_event (card_event uuid session ''command.started'' (question_started_payload r invocation pub request) now)
         (qdb svc) = Inr (ev, db1)"
    and u: "update_session_state ask now session inp db1 = Inr (s, db2)"
    and eq: "svc' = put_pending (session, pub)
             \<lparr>pq_invocation = invocation, pq_request = pub, pq_provider_request = request,
              pq_item = pr_item r, pq_provider = pr_provider r, pq_questions = pr_questions r,
              pq_listening = True\<rparr> (svc\<lparr>qdb := db2\<rparr>)"
    using assms by (auto simp: register_question_def split: sum.splits prod.splits)
  have "ev = card_event uuid session ''command.started'' (question_started_payload r invocation pub request) now"
    using pe by (auto simp: persist_event_def split: if_splits)
  then show ?thesis
    using pe update_session_state_other [OF u] eq Inr by (intro that(2) [of db1 db2]) simp_all
qed

lemma register_question_inv:
  assumes "questions_inv svc" and "distinct (map q_id (pr_questions r))"
    and "(session, pub) \<notin> set (map fst (qpending svc) @ map fst (replies svc))"
  shows "questions_inv (snd (register_question ask session invocation request r pub uuid now svc))"
proof -
  obtain res svc' where eq: "register_question ask session invocation request r pub uuid now svc = (res, svc')"
    by (cases "register_question ask session invocation request r pub uuid now svc")
  from eq have "questions_inv svc'"
  proof (rule register_question_cases)
    assume "svc' = svc" then show ?thesis using assms(1) by simp
  next
    fix db1 db2 :: store
    let ?ev = "card_event uuid session ''command.started'' (question_started_payload r invocation pub request) now"
    let ?p = "\<lparr>pq_invocation = invocation, pq_request = pub, pq_provider_request = request,
              pq_item = pr_item r, pq_provider = pr_provider r, pq_questions = pr_questions r,
              pq_listening = True\<rparr>"
    assume pe: "persist_event ?ev (qdb svc) = Inr (?ev, db1)" and db2: "events db2 = events db1"
      and svc': "svc' = put_pending (session, pub) ?p (svc\<lparr>qdb := db2\<rparr>)"
    have ev: "events db2 = events (qdb svc) @ [?ev]" using persist_event_other [OF pe] db2 by simp
    have card: "\<exists>k. card_of (question_started_payload r invocation pub request) k"
      using card_payloads(1) by blast
    have inv: "questions_inv (svc\<lparr>qdb := db2\<rparr>)"
      by (rule questions_inv_events [OF assms(1), where evs = "[?ev]"]) (use ev card in auto)
    have rec: "card_on_record db2 session ?p ?ev"
      using ev card_payloads(1) [of r invocation pub request] blocking_card(1) [of session uuid r invocation pub request now]
      by (simp add: card_on_record_def question_started_payload_def)
    have "questions_inv (put_pending (session, pub) ?p (svc\<lparr>qdb := db2\<rparr>))"
      by (rule questions_inv_put [OF inv, where ev = ?ev]) (use assms(2,3) rec in simp_all)
    then show ?thesis unfolding svc' .
  qed
  then show ?thesis using eq by simp
qed

lemma record_async_Inr:
  assumes "record_async session invocation request r u1 u2 now svc = (res, svc')"
  shows "qpending svc' = qpending svc \<and> replies svc' = replies svc \<and>
    (\<exists>evs. events (qdb svc') = events (qdb svc) @ evs \<and> (\<forall>ev \<in> set evs. \<not> blocking_question (ev_session ev) ev))"
proof (cases res)
  case (Inl e)
  then show ?thesis using assms by (auto simp: record_async_def split: sum.splits prod.splits if_splits)
next
  case (Inr v)
  then obtain e1 db1 e2 db2 where
    p1: "persist_event (card_event u1 session ''command.started'' (async_question_started_payload r invocation request) now)
          (qdb svc) = Inr (e1, db1)"
    and p2: "persist_event (card_event u2 session ''command.completed'' (async_question_completed_payload r invocation request) now)
          db1 = Inr (e2, db2)"
    and eq: "svc' = svc\<lparr>qdb := db2\<rparr>"
    using assms by (auto simp: record_async_def split: sum.splits prod.splits)
  then show ?thesis using persist_event_other [OF p1] persist_event_other [OF p2] blocking_card(2,3) by simp
qed

lemma request_question_inv:
  assumes "questions_inv svc" and "(session, pub) \<notin> set (map fst (qpending svc) @ map fst (replies svc))"
  shows "questions_inv (snd (request_native_question ask session invocation request params pub u1 u2 now svc))"
proof (cases "parse_request params")
  case (Inl e)
  then show ?thesis using assms(1) by (simp add: request_native_question_def)
next
  case (Inr r)
  have reg: "questions_inv (snd (register_question ask session invocation request r pub u1 now svc))"
    using register_question_inv assms parse_request_Inr [OF Inr] by simp
  have "questions_inv svc'" if async: "record_async session invocation request r u1 u2 now svc = (res, svc')" for res svc'
  proof -
    from record_async_Inr [OF async] obtain evs where same: "qpending svc' = qpending svc" "replies svc' = replies svc"
      and "events (qdb svc') = events (qdb svc) @ evs" "\<forall>ev \<in> set evs. \<not> blocking_question (ev_session ev) ev" by blast
    then show ?thesis by (intro questions_inv_events [OF assms(1)]) auto
  qed
  then show ?thesis using reg
    by (auto simp: request_native_question_def Inr split: prod.splits sum.splits)
qed

text \<open>An answer that is accepted: what was checked, what is written, what is sent.\<close>

lemma resolve_question_Inr:
  assumes "resolve_question ask session request answers dismissed uuid now svc = (Inr st, svc')"
  obtains p db1 where "map_of (qpending svc) (session, request) = Some p" "pq_listening p"
    "validate_answers (pq_questions p) answers dismissed = Inr ()"
    "st = (if dismissed then Dismissed else Answered)"
    "events (qdb svc') = events (qdb svc) @ [card_event uuid session ''command.completed''
       (question_completed_payload p (if dismissed then ''dismissed'' else ''completed'')) now]"
    "qpending svc' = filter (\<lambda>e. fst e \<noteq> (session, request)) (qpending svc)"
    "replies svc' = replies svc @ [((session, request), answers_json answers dismissed)]"
proof -
  from assms obtain p where p: "map_of (qpending svc) (session, request) = Some p"
    by (auto simp: resolve_question_def split: option.splits)
  from assms p have lis: "pq_listening p" by (auto simp: resolve_question_def split: if_splits)
  from assms p lis have v: "validate_answers (pq_questions p) answers dismissed = Inr ()"
    by (auto simp: resolve_question_def split: sum.splits)
  let ?ev = "card_event uuid session ''command.completed''
       (question_completed_payload p (if dismissed then ''dismissed'' else ''completed'')) now"
  obtain s e1 db1 s2 db2 where pe: "persist_event ?ev (qdb svc) = Inr (e1, db1)"
    and w: "update_session_state ask now session (transition Running) db1 = Inr (s2, db2) \<or> db2 = db1"
    and st: "st = (if dismissed then Dismissed else Answered)"
    and svc': "svc' = svc\<lparr>qdb := db2, qpending := filter (\<lambda>e. fst e \<noteq> (session, request)) (qpending svc),
                     replies := replies svc @ [((session, request), answers_json answers dismissed)]\<rparr>"
    using assms unfolding resolve_question_def p option.case Let_def
    by (auto simp: lis v split: sum.splits prod.splits if_splits)
  have "events db2 = events db1" using w update_session_state_other by blast
  then have "events (qdb svc') = events (qdb svc) @ [?ev]" using persist_event_other [OF pe] by (simp add: svc')
  then show ?thesis using that p lis v st svc' by simp
qed

lemma resolve_question_Inl:
  "resolve_question ask session request answers dismissed uuid now svc = (Inl e, svc') \<Longrightarrow> svc' = svc"
  unfolding resolve_question_def Let_def by (auto split: option.splits sum.splits prod.splits if_splits)

lemma resolve_question_inv:
  assumes "questions_inv svc"
  shows "questions_inv (snd (resolve_question ask session request answers dismissed uuid now svc))"
proof -
  obtain res svc' where eq: "resolve_question ask session request answers dismissed uuid now svc = (res, svc')"
    by (cases "resolve_question ask session request answers dismissed uuid now svc")
  show ?thesis
  proof (cases res)
    case (Inl e)
    then show ?thesis using resolve_question_Inl [of ask session request answers dismissed uuid now svc e svc'] eq assms by simp
  next
    case (Inr st)
    with eq have "resolve_question ask session request answers dismissed uuid now svc = (Inr st, svc')" by simp
    then obtain p where p: "map_of (qpending svc) (session, request) = Some p"
      and ev: "events (qdb svc') = events (qdb svc) @ [card_event uuid session ''command.completed''
        (question_completed_payload p (if dismissed then ''dismissed'' else ''completed'')) now]"
      and q: "qpending svc' = filter (\<lambda>e. fst e \<noteq> (session, request)) (qpending svc)"
      and r: "replies svc' = replies svc @ [((session, request), answers_json answers dismissed)]"
      by (rule resolve_question_Inr)
    have sub: "set (qpending svc') \<subseteq> set (qpending svc)" by (auto simp: q)
    have d: "distinct (map fst (qpending svc))" "distinct (map fst (replies svc))"
      "set (map fst (qpending svc)) \<inter> set (map fst (replies svc)) = {}"
      using assms by (auto simp: questions_inv_def)
    have "(session, request) \<in> set (map fst (qpending svc))" using map_of_SomeD [OF p] by force
    then have new: "(session, request) \<notin> set (map fst (replies svc))" using d(3) by blast
    have "map fst (qpending svc') = filter (\<lambda>k. k \<noteq> (session, request)) (map fst (qpending svc))"
      by (simp add: q filter_map comp_def)
    then have "distinct (map fst (qpending svc') @ map fst (replies svc'))" using d new by (auto simp: r)
    then have "questions_inv svc'"
      by (intro questions_inv_grow [OF assms ev _ _ pending_subset [OF sub]]) (simp_all add: blocking_card)
    then show ?thesis using eq by simp
  qed
qed

lemma cancel_cards_Inr:
  "cancel_cards session now cards d = Inr d' \<Longrightarrow>
     events d' = events d @ map (\<lambda>(v, u). card_event u session ''command.completed'' (cancelled_payload v) now) cards \<and>
     sessions d' = sessions d"
proof (induction cards arbitrary: d)
  case (Cons c cards)
  obtain v u where c: "c = (v, u)" by (cases c)
  then obtain e d1 where
    pe: "persist_event (card_event u session ''command.completed'' (cancelled_payload v) now) d = Inr (e, d1)"
    and rest: "cancel_cards session now cards d1 = Inr d'"
    using Cons.prems by (auto split: sum.splits prod.splits)
  then show ?case using persist_event_other [OF pe] Cons.IH [OF rest] by (simp add: c)
qed simp

lemma cancel_questions_Inr:
  assumes "cancel_session_questions ask session uuids now svc = (Inr u, svc')"
    and some: "list_durable_pending (qdb svc) session \<noteq> []"
  obtains db1 s s2 t where
    "cancel_cards session now (zip (list_durable_pending (qdb svc) session)
       (map uuids [0..<length (list_durable_pending (qdb svc) session)])) (qdb svc) = Inr db1"
    "find_session db1 session = Inr s"
    "update_session_state ask now session (t (transition (sess_state s))) db1 = Inr (s2, qdb svc')"
    "t = (case sess_completed s of None \<Rightarrow> id | Some c \<Rightarrow> finished_at c)"
proof -
  from assms obtain db1 s s2 db2 where
    c: "cancel_cards session now (zip (list_durable_pending (qdb svc) session)
       (map uuids [0..<length (list_durable_pending (qdb svc) session)])) (qdb svc) = Inr db1"
    and f: "find_session db1 session = Inr s"
    and w: "update_session_state ask now session (case sess_completed s of
        None \<Rightarrow> transition (sess_state s) | Some c \<Rightarrow> finished_at c (transition (sess_state s))) db1 = Inr (s2, db2)"
    and svc': "qdb svc' = db2"
    by (auto simp: cancel_session_questions_def Let_def split: sum.splits prod.splits)
  have "(case sess_completed s of None \<Rightarrow> transition (sess_state s) | Some c \<Rightarrow> finished_at c (transition (sess_state s)))
      = (case sess_completed s of None \<Rightarrow> id | Some c \<Rightarrow> finished_at c) (transition (sess_state s))"
    by (cases "sess_completed s") simp_all
  then show ?thesis using that c f w svc' by simp
qed

text \<open>Cancelling closes every card of the session.\<close>

lemma cancelled_cards_complete:
  assumes keyed: "keyed_cards d" and rows: "events d' = events d @
      map (\<lambda>(v, u). card_event u session ''command.completed'' (cancelled_payload v) now)
        (zip (list_durable_pending d session) us)"
    and us: "length us = length (list_durable_pending d session)"
  shows "list_durable_pending d' session = []"
proof -
  have "list_ex (\<lambda>c. completes c r) (events d')" if r: "r \<in> set (events d')" "blocking_question session r" for r
  proof (cases "list_ex (\<lambda>c. completes c r) (events d)")
    case True
    then show ?thesis by (simp add: rows)
  next
    case False
    have rd: "r \<in> set (events d)" using r by (auto simp: rows blocking_card)
    then have "ev_payload r \<in> set (list_durable_pending d session)"
      using False r(2) by (auto simp: list_durable_pending_def)
    then obtain i where i: "i < length (list_durable_pending d session)" "list_durable_pending d session ! i = ev_payload r"
      by (auto simp: in_set_conv_nth)
    let ?c = "card_event (us ! i) session ''command.completed'' (cancelled_payload (ev_payload r)) now"
    have "(ev_payload r, us ! i) \<in> set (zip (list_durable_pending d session) us)"
      using i us by (metis in_set_zip fst_conv snd_conv)
    then have "?c \<in> set (events d')" by (force simp: rows)
    moreover have "ev_session r = session" using r(2) by (simp add: blocking_question_def)
    moreover obtain k where "card_of (ev_payload r) k"
      using keyed rd r(2) \<open>ev_session r = session\<close> by (auto simp: keyed_cards_def)
    ultimately show ?thesis using completes_card [of r k ?c] card_payloads(4) by (auto simp: list_ex_iff)
  qed
  then show ?thesis by (auto simp: list_durable_pending_def)
qed

lemma cancel_questions_idle:
  "cancel_session_questions ask session uuids now svc = (res, svc') \<Longrightarrow>
     (\<exists>e. res = Inl e) \<or> list_durable_pending (qdb svc) session = [] \<Longrightarrow> qdb svc' = qdb svc"
  unfolding cancel_session_questions_def Let_def by (auto split: sum.splits prod.splits if_splits)

lemma cancel_questions_events:
  "\<exists>evs. events (qdb (snd (cancel_session_questions ask session uuids now svc))) = events (qdb svc) @ evs \<and>
     (\<forall>ev \<in> set evs. \<not> blocking_question (ev_session ev) ev)"
proof (cases "fst (cancel_session_questions ask session uuids now svc) = Inr () \<and> list_durable_pending (qdb svc) session \<noteq> []")
  case True
  then have eq: "cancel_session_questions ask session uuids now svc =
      (Inr (), snd (cancel_session_questions ask session uuids now svc))" by (metis prod.collapse)
  from True have ne: "list_durable_pending (qdb svc) session \<noteq> []" by simp
  from eq ne obtain db1 s s2 t where
    c: "cancel_cards session now (zip (list_durable_pending (qdb svc) session)
       (map uuids [0..<length (list_durable_pending (qdb svc) session)])) (qdb svc) = Inr db1"
    and w: "update_session_state ask now session (t (transition (sess_state s))) db1 =
       Inr (s2, qdb (snd (cancel_session_questions ask session uuids now svc)))" by (rule cancel_questions_Inr)
  show ?thesis using cancel_cards_Inr [OF c] update_session_state_other [OF w] by (auto simp: blocking_card)
next
  case False
  moreover obtain res svc' where eq: "cancel_session_questions ask session uuids now svc = (res, svc')"
    by (cases "cancel_session_questions ask session uuids now svc")
  ultimately have "qdb svc' = qdb svc" by (intro cancel_questions_idle [OF eq]) (cases res; auto)
  then have "qdb (snd (cancel_session_questions ask session uuids now svc)) = qdb svc" using eq by simp
  then show ?thesis by simp
qed

lemma cancel_questions_pending:
  "qpending (snd (cancel_session_questions ask session uuids now svc)) =
     filter (\<lambda>e. fst (fst e) \<noteq> session) (qpending svc) \<and>
   replies (snd (cancel_session_questions ask session uuids now svc)) = replies svc"
  by (auto simp: cancel_session_questions_def Let_def split: sum.splits prod.splits)

lemma cancel_questions_inv:
  assumes "questions_inv svc"
  shows "questions_inv (snd (cancel_session_questions ask session uuids now svc))"
proof -
  let ?svc = "snd (cancel_session_questions ask session uuids now svc)"
  have q: "qpending ?svc = filter (\<lambda>e. fst (fst e) \<noteq> session) (qpending svc)" "replies ?svc = replies svc"
    using cancel_questions_pending by blast+
  then have "map fst (qpending ?svc) = filter (\<lambda>k. fst k \<noteq> session) (map fst (qpending svc))"
    by (simp add: filter_map comp_def)
  then have d: "distinct (map fst (qpending ?svc) @ map fst (replies ?svc))"
    using assms q by (auto simp: questions_inv_def)
  obtain evs where ev: "events (qdb ?svc) = events (qdb svc) @ evs" "\<forall>ev \<in> set evs. \<not> blocking_question (ev_session ev) ev"
    using cancel_questions_events by blast
  have sub: "set (qpending ?svc) \<subseteq> set (qpending svc)" by (auto simp: q)
  show ?thesis by (rule questions_inv_grow [OF assms ev(1) _ d pending_subset [OF sub]]) (use ev(2) in auto)
qed

section \<open>Interleavings\<close>

text \<open>
  The operations in any order. \<open>elsewhere\<close> is what the rest of the program writes to the same
  store: sessions, approvals, and events that are not blocking cards. The public id of a request
  is a fresh UUID.
\<close>

inductive question_step :: "card_ask \<Rightarrow> question_service \<Rightarrow> question_service \<Rightarrow> bool" for ask where
  asks: "(session, pub) \<notin> set (map fst (qpending svc) @ map fst (replies svc)) \<Longrightarrow>
    question_step ask svc (snd (request_native_question ask session invocation request params pub u1 u2 now svc))"
| answers: "question_step ask svc (snd (resolve_question ask session request ans dismissed uuid now svc))"
| cancels: "question_step ask svc (snd (cancel_session_questions ask session uuids now svc))"
| hangs_up: "question_step ask svc (drop_question_receiver k svc)"
| elsewhere: "events d = events (qdb svc) @ evs \<Longrightarrow> \<forall>ev \<in> set evs. \<not> blocking_question (ev_session ev) ev \<Longrightarrow>
    question_step ask svc (svc\<lparr>qdb := d\<rparr>)"

definition start_questions :: "store \<Rightarrow> question_service" where
  "start_questions d = \<lparr>qdb = d, qpending = [], replies = []\<rparr>"

lemma start_questions_inv: "keyed_cards d \<Longrightarrow> questions_inv (start_questions d)"
  by (simp add: start_questions_def questions_inv_def)

lemma drop_question_receiver_inv: "questions_inv svc \<Longrightarrow> questions_inv (drop_question_receiver k svc)"
proof (rule questions_inv_grow [where evs = "[]"])
  have "map fst (qpending (drop_question_receiver k svc)) = map fst (qpending svc)"
    by (simp add: drop_question_receiver_def comp_def case_prod_unfold)
  moreover have "replies (drop_question_receiver k svc) = replies svc" by (simp add: drop_question_receiver_def)
  moreover assume "questions_inv svc"
  ultimately show "distinct (map fst (qpending (drop_question_receiver k svc)) @ map fst (replies (drop_question_receiver k svc)))"
    by (simp add: questions_inv_def)
  have eq: "(if c then p\<lparr>pq_listening := False\<rparr> else p) = p\<lparr>pq_listening := pq_listening p \<and> \<not> c\<rparr>"
    for c and p :: pending_question by (cases c) simp_all
  show "\<forall>(k', p) \<in> set (qpending (drop_question_receiver k svc)).
      \<exists>p0 b. (k', p0) \<in> set (qpending svc) \<and> p = p0\<lparr>pq_listening := b\<rparr>"
  proof (rule ballI)
    fix e assume "e \<in> set (qpending (drop_question_receiver k svc))"
    then obtain k' p0 where "(k', p0) \<in> set (qpending svc)" "e = (k', p0\<lparr>pq_listening := pq_listening p0 \<and> \<not> k' = k\<rparr>)"
      unfolding drop_question_receiver_def eq by auto
    then show "case e of (k', p) \<Rightarrow> \<exists>p0 b. (k', p0) \<in> set (qpending svc) \<and> p = p0\<lparr>pq_listening := b\<rparr>"
      by (simp only: prod.case) (rule exI [where x = p0], auto)
  qed
qed (simp_all add: drop_question_receiver_def)

interpretation questioning: invariant_system "question_step ask" questions_inv for ask
proof unfold_locales
  fix svc svc' assume inv: "questions_inv svc" and step: "question_step ask svc svc'"
  from step show "questions_inv svc'"
  proof cases
    case (elsewhere d evs)
    then show ?thesis by (intro questions_inv_events [OF inv]) auto
  qed (use inv request_question_inv resolve_question_inv cancel_questions_inv drop_question_receiver_inv in auto)
qed

section \<open>Properties\<close>

text \<open>An accepted request has one to three questions with distinct, non-blank, bounded ids, its
  cards describe exactly these questions with at most four options each, and it can be answered:
  some answer with increasing keys passes the validation.\<close>

lemma accepted_request_is_answerable:
  assumes "parse_request params = Inr r"
  shows "1 \<le> length (pr_questions r) \<and> length (pr_questions r) \<le> 3 \<and>
    distinct (map q_id (pr_questions r)) \<and> (\<forall>q \<in> set (pr_questions r). good_text (q_id q)) \<and>
    list_all2 describes (pr_normalized r) (pr_questions r) \<and>
    (\<exists>answers. sorted_wrt (<) (map fst answers) \<and> validate_answers (pr_questions r) answers False = Inr ())"
proof -
  let ?ids = "sort (map q_id (pr_questions r))"
  let ?answers = "map (\<lambda>i. (i, [''yes''])) ?ids"
  have p: "1 \<le> length (pr_questions r)" "length (pr_questions r) \<le> MAX_QUESTIONS"
    "list_all2 describes (pr_normalized r) (pr_questions r)" "distinct (map q_id (pr_questions r))"
    "\<forall>q \<in> set (pr_questions r). good_text (q_id q)"
    using parse_request_Inr [OF assms] by blast+
  have keys: "map fst ?answers = ?ids" by (simp add: comp_def)
  have sorted: "sorted_wrt (<) (map fst ?answers)"
    using p(4) unfolding keys by (simp add: strict_sorted_iff)
  have yes: "good_text ''yes''" by code_simp
  have "answers_question ?answers q" if "q \<in> set (pr_questions r)" for q
  proof -
    have "(q_id q, [''yes'']) \<in> set ?answers" using that by auto
    moreover have "distinct (map fst ?answers)" using p(4) unfolding keys by simp
    ultimately have "map_of ?answers (q_id q) = Some [''yes'']" by (rule map_of_is_SomeI [rotated])
    then show ?thesis using yes by (simp add: answers_question_def)
  qed
  then have "validate_answers (pr_questions r) ?answers False = Inr ()"
    using p(4) validate_answers_Inr [OF p(4), of ?answers False "()"] unfolding keys by simp
  then have "\<exists>answers. sorted_wrt (<) (map fst answers) \<and> validate_answers (pr_questions r) answers False = Inr ()"
    using sorted by (intro exI [where x = ?answers] conjI)
  then show ?thesis using p by (simp add: MAX_QUESTIONS_def)
qed

text \<open>However questions, answers, cancellations and disconnections interleave, no responder is
  sent more than one reply, and a question that was replied to is no longer pending.\<close>

lemma question_answered_at_most_once:
  assumes "keyed_cards d" and "(question_step ask)\<^sup>*\<^sup>* (start_questions d) svc"
  shows "distinct (map fst (replies svc)) \<and> (\<forall>k \<in> fst ` set (replies svc). map_of (qpending svc) k = None)"
proof -
  have "questions_inv svc" by (rule questioning.runs [OF assms(2) start_questions_inv [OF assms(1)]])
  then show ?thesis by (auto simp: questions_inv_def map_of_eq_None_iff)
qed

text \<open>C11: an answer that the service accepts was for a pending question whose provider still listened;
  it answers every question of the request and nothing else, each with non-blank bounded texts, a
  secret with exactly one (a dismissal carries none); exactly one reply is sent, the
  responder is gone, and the card on record is completed.\<close>

theorem accepted_answer_closes_its_card:
  assumes "keyed_cards d" and "(question_step ask)\<^sup>*\<^sup>* (start_questions d) svc"
    and "distinct (map fst ans)"
    and "resolve_question ask session request ans dismissed uuid now svc = (Inr st, svc')"
  shows "\<exists>p card. map_of (qpending svc) (session, request) = Some p \<and> pq_listening p \<and>
    (if dismissed then st = Dismissed \<and> ans = []
     else st = Answered \<and> set (map fst ans) = q_id ` set (pq_questions p) \<and>
       (\<forall>q \<in> set (pq_questions p). answers_question ans q)) \<and>
    replies svc' = replies svc @ [((session, request), answers_json ans dismissed)] \<and>
    map_of (qpending svc') (session, request) = None \<and>
    card_on_record (qdb svc) session p card \<and> list_ex (\<lambda>c. completes c card) (events (qdb svc'))"
proof -
  have inv: "questions_inv svc" by (rule questioning.runs [OF assms(2) start_questions_inv [OF assms(1)]])
  from assms(4) obtain p where p: "map_of (qpending svc) (session, request) = Some p" "pq_listening p"
    and v: "validate_answers (pq_questions p) ans dismissed = Inr ()"
    and st: "st = (if dismissed then Dismissed else Answered)"
    and ev: "events (qdb svc') = events (qdb svc) @ [card_event uuid session ''command.completed''
       (question_completed_payload p (if dismissed then ''dismissed'' else ''completed'')) now]"
    and q: "qpending svc' = filter (\<lambda>e. fst e \<noteq> (session, request)) (qpending svc)"
    and r: "replies svc' = replies svc @ [((session, request), answers_json ans dismissed)]"
    by (rule resolve_question_Inr)
  from inv map_of_SomeD [OF p(1)] obtain card where d: "distinct (map q_id (pq_questions p))"
    and card: "card_on_record (qdb svc) session p card" by (auto simp: questions_inv_def)
  let ?c = "card_event uuid session ''command.completed''
       (question_completed_payload p (if dismissed then ''dismissed'' else ''completed'')) now"
  have "ev_session card = session" using card by (simp add: card_on_record_def blocking_question_def)
  then have "completes ?c card"
    using card card_payloads(3) by (intro completes_card) (auto simp: card_on_record_def)
  then have "list_ex (\<lambda>c. completes c card) (events (qdb svc'))" by (simp add: ev)
  moreover have "map_of (qpending svc') (session, request) = None" by (auto simp: q map_of_eq_None_iff)
  ultimately show ?thesis using p validate_answers_Inr [OF d assms(3), of dismissed "()"] v st r card
    by (intro exI [where x = p] exI [where x = card]) (simp split: if_splits)
qed

text \<open>When the cancellation of a session's questions succeeds, nothing of the session is left
  open: no responder, and no card of the transcript pending, those left behind by a restart of the
  app included. The session keeps its state, and the questions of other sessions theirs.\<close>

lemma cancel_leaves_nothing_open:
  assumes "keyed_cards d" and "(question_step ask)\<^sup>*\<^sup>* (start_questions d) svc"
    and "cancel_session_questions ask session uuids now svc = (Inr (), svc')"
  shows "\<not> has_durable_pending (qdb svc') session \<and> (\<forall>request. map_of (qpending svc') (session, request) = None) \<and>
    (\<forall>other request. other \<noteq> session \<longrightarrow> map_of (qpending svc') (other, request) = map_of (qpending svc) (other, request)) \<and>
    (\<forall>s s'. find_session (qdb svc) session = Inr s \<and> find_session (qdb svc') session = Inr s' \<longrightarrow>
       sess_state s' = sess_state s)"
proof -
  have inv: "questions_inv svc" by (rule questioning.runs [OF assms(2) start_questions_inv [OF assms(1)]])
  have q: "qpending svc' = filter (\<lambda>e. fst (fst e) \<noteq> session) (qpending svc)"
    using cancel_questions_pending [of ask session uuids now svc] assms(3) by simp
  have kept: "map_of (filter (\<lambda>e. fst (fst e) \<noteq> session) ps) (other, request) =
      (if other = session then None else map_of ps (other, request))"
    for ps :: "((string \<times> string) \<times> pending_question) list" and other request
    by (induction ps) auto
  have store: "\<not> has_durable_pending (qdb svc') session \<and>
    (\<forall>s s'. find_session (qdb svc) session = Inr s \<and> find_session (qdb svc') session = Inr s' \<longrightarrow>
       sess_state s' = sess_state s)"
  proof (cases "list_durable_pending (qdb svc) session = []")
    case True
    then have "qdb svc' = qdb svc" using cancel_questions_idle [OF assms(3)] by blast
    then show ?thesis using True by (auto simp: has_durable_pending_def)
  next
    case False
    with assms(3) obtain db1 s s2 t where
      c: "cancel_cards session now (zip (list_durable_pending (qdb svc) session)
        (map uuids [0..<length (list_durable_pending (qdb svc) session)])) (qdb svc) = Inr db1"
      and f: "find_session db1 session = Inr s"
      and w: "update_session_state ask now session (t (transition (sess_state s))) db1 = Inr (s2, qdb svc')"
      and t: "t = (case sess_completed s of None \<Rightarrow> id | Some c \<Rightarrow> finished_at c)"
      by (rule cancel_questions_Inr)
    have "list_durable_pending (qdb svc') session = []"
      by (rule cancelled_cards_complete [where d = "qdb svc" and now = now])
        (use inv cancel_cards_Inr [OF c] update_session_state_other [OF w] in \<open>auto simp: questions_inv_def\<close>)
    moreover have "sess_state s2 = sess_state s"
      using written_session [OF w] by (cases "sess_completed s") (simp_all add: t transition_def finished_at_def)
    moreover have "find_session (qdb svc) session = Inr s"
      using f cancel_cards_Inr [OF c] by (simp add: find_session_def)
    moreover have "find_session (qdb svc') session = Inr s2" using find_session_write [OF w] by blast
    ultimately show ?thesis unfolding has_durable_pending_def by auto
  qed
  have pend: "map_of (qpending svc') (session, request) = None"
    "other \<noteq> session \<Longrightarrow> map_of (qpending svc') (other, request) = map_of (qpending svc) (other, request)"
    for other request by (simp_all add: q kept)
  show ?thesis by (intro conjI allI impI) (use store pend in blast)+
qed

section \<open>Witnesses\<close>

definition sample_params :: json where
  "sample_params = json_object
     [(''isBlocking'', JBool True), (''itemId'', JString ''item''), (''threadId'', JString ''thread''),
      (''turnId'', JString ''turn''),
      (''questions'', JArray [json_object [(''id'', JString ''q''), (''header'', JString ''Plan''),
         (''question'', JString ''Which one?'')]])]"

definition asking_store :: store where
  "asking_store = \<lparr>sessions = [\<lparr>sess_id = ''s'', sess_workspace = ''w'', sess_state = Running, sess_attention = Normal,
       sess_completed = None, sess_last_activity = ''2026'', sess_attention_changed = ''2026'', sess_branch_active = None\<rparr>],
     events = [], approvals = [], branches = []\<rparr>"

definition asked_service :: question_service where
  "asked_service = snd (request_native_question (\<lambda>_ _. False) ''s'' ''i'' ''r'' sample_params ''pub'' ''u1'' ''u2'' ''2027''
     (start_questions asking_store))"

definition answered_service :: question_service where
  "answered_service = snd (resolve_question (\<lambda>_ _. False) ''s'' ''pub'' [(''q'', [''yes''])] False ''u3'' ''2028'' asked_service)"

lemma asked_reachable: "(question_step (\<lambda>_ _. False))\<^sup>*\<^sup>* (start_questions asking_store) asked_service"
  unfolding asked_service_def by (intro r_into_rtranclp question_step.asks) (simp add: start_questions_def)

lemma answered_reachable: "(question_step (\<lambda>_ _. False))\<^sup>*\<^sup>* (start_questions asking_store) answered_service"
  using asked_reachable question_step.answers unfolding answered_service_def by (rule rtranclp.rtrancl_into_rtrancl)

lemma asking_keyed: "keyed_cards asking_store"
  by (simp add: keyed_cards_def asking_store_def)

lemma answered_replies: "map fst (replies answered_service) = [(''s'', ''pub'')]"
  by code_simp

lemma answer_runs:
  "is_ok (fst (resolve_question (\<lambda>_ _. False) ''s'' ''pub'' [(''q'', [''yes''])] False ''u3'' ''2028'' asked_service))"
  by code_simp

lemma cancel_runs:
  "is_ok (fst (cancel_session_questions (\<lambda>_ _. False) ''s'' (\<lambda>n. ''u4'') ''2028'' asked_service))"
  by code_simp

lemma is_ok_run: "is_ok (fst r) \<Longrightarrow> \<exists>v s. r = (Inr v, s)"
  by (cases r; cases "fst r") auto

lemma accepted_request_is_answerable_witness:
  "\<exists>r. parse_request sample_params = Inr r \<and> distinct (map q_id (pr_questions r))"
proof -
  have "is_ok (parse_request sample_params)" by code_simp
  then obtain r where r: "parse_request sample_params = Inr r" by (cases "parse_request sample_params") auto
  then show ?thesis using accepted_request_is_answerable [OF r] by blast
qed

lemma question_answered_at_most_once_witness:
  "distinct (map fst (replies answered_service)) \<and> map fst (replies answered_service) = [(''s'', ''pub'')]"
  using question_answered_at_most_once [OF asking_keyed answered_reachable] answered_replies by blast

theorem accepted_answer_closes_its_card_witness:
  "\<exists>st svc'. resolve_question (\<lambda>_ _. False) ''s'' ''pub'' [(''q'', [''yes''])] False ''u3'' ''2028'' asked_service =
      (Inr st, svc') \<and> map_of (qpending svc') (''s'', ''pub'') = None"
proof -
  obtain st svc' where run: "resolve_question (\<lambda>_ _. False) ''s'' ''pub'' [(''q'', [''yes''])] False ''u3'' ''2028'' asked_service =
      (Inr st, svc')" using is_ok_run [OF answer_runs] by blast
  have keys: "distinct (map fst [(''q'', [''yes''])])" by simp
  show ?thesis using accepted_answer_closes_its_card [OF asking_keyed asked_reachable keys run] run by blast
qed

lemma cancel_leaves_nothing_open_witness:
  "\<exists>svc'. cancel_session_questions (\<lambda>_ _. False) ''s'' (\<lambda>n. ''u4'') ''2028'' asked_service = (Inr (), svc') \<and>
     \<not> has_durable_pending (qdb svc') ''s''"
proof -
  obtain svc' where run: "cancel_session_questions (\<lambda>_ _. False) ''s'' (\<lambda>n. ''u4'') ''2028'' asked_service = (Inr (), svc')"
    using is_ok_run [OF cancel_runs] by auto
  show ?thesis using cancel_leaves_nothing_open [OF asking_keyed asked_reachable run] run by blast
qed

end
