(* ===== verification/Usage.thy ===== *)
theory Usage
  imports Complex_Main Prelude "HOL-Library.Char_ord" "HOL-Library.List_Lexorder"
begin

text \<open>
  Token accounting (\<^verbatim>\<open>src-tauri/src/persistence/usage.rs\<close>): the rows of \<^verbatim>\<open>usage_events\<close> in id order and the
  counters that the session rows keep. Counters are integers, costs reals; the 64-bit
  overflow of a counter and the rounding of \<^verbatim>\<open>f64\<close> sums are not modelled. The savepoint makes an
  insert all or nothing.
\<close>

section \<open>The tables\<close>

record token_counts =
  tc_input :: int
  tc_output :: int
  tc_cache_read :: int
  tc_cache_write :: int

record usage_row =
  ur_session :: string
  ur_event :: "string option"
  ur_model :: string
  ur_tokens :: token_counts
  ur_cost :: real
  ur_created :: string

record session_usage =
  su_session :: string
  su_tokens :: token_counts
  su_cost :: real
  su_context_tokens :: "int option"
  su_context_window :: "int option"
  su_last_model :: "string option"

record usage_db =
  usage_rows :: "usage_row list"
  usage_sessions :: "session_usage list"

record usage_input =
  ui_session :: string
  ui_event :: "string option"
  ui_model :: string
  ui_tokens :: token_counts
  ui_cost :: real
  ui_context_tokens :: "int option"
  ui_context_window :: "int option"
  ui_created :: "string option"

definition add_tokens :: "token_counts \<Rightarrow> token_counts \<Rightarrow> token_counts" where
  "add_tokens a b = \<lparr>tc_input = tc_input a + tc_input b, tc_output = tc_output a + tc_output b,
     tc_cache_read = tc_cache_read a + tc_cache_read b, tc_cache_write = tc_cache_write a + tc_cache_write b\<rparr>"

definition coalesce :: "'a option \<Rightarrow> 'a option \<Rightarrow> 'a option" where
  "coalesce a b = (case a of None \<Rightarrow> b | Some x \<Rightarrow> Some x)"

section \<open>Recording a usage report\<close>

definition usage_row_of :: "usage_input \<Rightarrow> string \<Rightarrow> usage_row" where
  "usage_row_of i now =
     \<lparr>ur_session = ui_session i, ur_event = ui_event i, ur_model = ui_model i, ur_tokens = ui_tokens i,
      ur_cost = ui_cost i, ur_created = (case ui_created i of None \<Rightarrow> now | Some t \<Rightarrow> t)\<rparr>"

definition count_usage :: "usage_input \<Rightarrow> session_usage \<Rightarrow> session_usage" where
  "count_usage i s =
     (let s = s\<lparr>su_tokens := add_tokens (su_tokens s) (ui_tokens i), su_cost := su_cost s + ui_cost i,
                su_context_tokens := coalesce (ui_context_tokens i) (su_context_tokens s),
                su_context_window := coalesce (ui_context_window i) (su_context_window s)\<rparr>
      in if ui_model i \<noteq> [] then s\<lparr>su_last_model := Some (ui_model i)\<rparr> else s)"

definition usage_seen :: "usage_input \<Rightarrow> usage_db \<Rightarrow> bool" where
  "usage_seen i d \<longleftrightarrow> ui_event i \<noteq> None \<and>
     list_ex (\<lambda>r. ur_session r = ui_session i \<and> ur_event r = ui_event i) (usage_rows d)"

definition insert_usage_event :: "usage_input \<Rightarrow> string \<Rightarrow> usage_db \<Rightarrow> argmax_error + usage_db" where
  "insert_usage_event i now d =
     (if usage_seen i d then Inr d
      else if ui_session i \<notin> su_session ` set (usage_sessions d)
      then Inl (service ''SQLITE'' ''FOREIGN KEY constraint failed'')
      else Inr (d\<lparr>usage_rows := usage_rows d @ [usage_row_of i now],
                  usage_sessions := map (\<lambda>s. if su_session s = ui_session i then count_usage i s else s)
                                        (usage_sessions d)\<rparr>))"

section \<open>The cost summary of a session\<close>

record cost_summary =
  cs_session :: string
  cs_model :: "string option"
  cs_tokens :: token_counts
  cs_cost :: real

text \<open>\<^verbatim>\<open>ORDER BY created_at DESC, id DESC LIMIT 1\<close>: the last row of the greatest time.\<close>

definition get_session_cost_summary :: "usage_db \<Rightarrow> string \<Rightarrow> argmax_error + cost_summary" where
  "get_session_cost_summary d session =
     (case find (\<lambda>s. su_session s = session) (usage_sessions d) of
        None \<Rightarrow> Inl (record_not_found ''session'' session)
      | Some s \<Rightarrow>
          let latest = max_by_key ur_created (filter (\<lambda>r. ur_session r = session) (usage_rows d))
          in Inr \<lparr>cs_session = session, cs_model = coalesce (map_option ur_model latest) (su_last_model s),
                  cs_tokens = su_tokens s, cs_cost = su_cost s\<rparr>)"

section \<open>The counters are the sums of the rows\<close>

definition rows_of :: "usage_db \<Rightarrow> string \<Rightarrow> usage_row list" where
  "rows_of d session = filter (\<lambda>r. ur_session r = session) (usage_rows d)"

definition message_keys :: "usage_db \<Rightarrow> (string \<times> string option) list" where
  "message_keys d = filter (\<lambda>k. snd k \<noteq> None) (map (\<lambda>r. (ur_session r, ur_event r)) (usage_rows d))"

definition counts_rows :: "token_counts \<Rightarrow> real \<Rightarrow> usage_row list \<Rightarrow> bool" where
  "counts_rows t c rows \<longleftrightarrow>
     tc_input t = (\<Sum>r\<leftarrow>rows. tc_input (ur_tokens r)) \<and> tc_output t = (\<Sum>r\<leftarrow>rows. tc_output (ur_tokens r)) \<and>
     tc_cache_read t = (\<Sum>r\<leftarrow>rows. tc_cache_read (ur_tokens r)) \<and>
     tc_cache_write t = (\<Sum>r\<leftarrow>rows. tc_cache_write (ur_tokens r)) \<and> c = (\<Sum>r\<leftarrow>rows. ur_cost r)"

definition usage_exact :: "usage_db \<Rightarrow> bool" where
  "usage_exact d \<longleftrightarrow> distinct (message_keys d) \<and>
     (\<forall>s \<in> set (usage_sessions d). counts_rows (su_tokens s) (su_cost s) (rows_of d (su_session s)))"

definition record_usage :: "usage_input \<times> string \<Rightarrow> usage_db \<Rightarrow> usage_db" where
  "record_usage r d = (case insert_usage_event (fst r) (snd r) d of Inl _ \<Rightarrow> d | Inr d' \<Rightarrow> d')"

lemma count_usage_fields:
  "su_session (count_usage i s) = su_session s" "su_tokens (count_usage i s) = add_tokens (su_tokens s) (ui_tokens i)"
  "su_cost (count_usage i s) = su_cost s + ui_cost i"
  by (simp_all add: count_usage_def Let_def)

lemma usage_row_fields:
  "ur_session (usage_row_of i now) = ui_session i" "ur_event (usage_row_of i now) = ui_event i"
  "ur_tokens (usage_row_of i now) = ui_tokens i" "ur_cost (usage_row_of i now) = ui_cost i"
  by (simp_all add: usage_row_of_def)

lemma usage_seen_key: "usage_seen i d \<longleftrightarrow> ui_event i \<noteq> None \<and> (ui_session i, ui_event i) \<in> set (message_keys d)"
  unfolding usage_seen_def list_ex_iff message_keys_def by force

lemma counts_rows_snoc:
  "counts_rows t c rows \<Longrightarrow> counts_rows (add_tokens t (ui_tokens i)) (c + ui_cost i) (rows @ [usage_row_of i now])"
  by (simp add: counts_rows_def add_tokens_def usage_row_fields)

lemma record_usage_cases:
  obtains "record_usage (i, now) d = d" "usage_seen i d \<or> ui_session i \<notin> su_session ` set (usage_sessions d)"
  | "\<not> usage_seen i d" "ui_session i \<in> su_session ` set (usage_sessions d)"
    "record_usage (i, now) d = d\<lparr>usage_rows := usage_rows d @ [usage_row_of i now],
       usage_sessions := map (\<lambda>s. if su_session s = ui_session i then count_usage i s else s) (usage_sessions d)\<rparr>"
proof (cases "usage_seen i d \<or> ui_session i \<notin> su_session ` set (usage_sessions d)")
  case True
  then have "record_usage (i, now) d = d" by (auto simp: record_usage_def insert_usage_event_def)
  then show ?thesis using that(1) True by blast
next
  case False
  then show ?thesis by (intro that(2)) (simp_all add: record_usage_def insert_usage_event_def)
qed

lemma record_usage_exact: "usage_exact d \<Longrightarrow> usage_exact (record_usage (i, now) d)"
proof (cases rule: record_usage_cases [of i now d])
  case 2
  assume exact: "usage_exact d"
  let ?d = "record_usage (i, now) d"
  have keys: "message_keys ?d = message_keys d @ (if ui_event i = None then [] else [(ui_session i, ui_event i)])"
    by (simp add: 2(3) message_keys_def usage_row_fields)
  have rows: "rows_of ?d session = rows_of d session @ (if session = ui_session i then [usage_row_of i now] else [])" for session
    by (simp add: 2(3) rows_of_def usage_row_fields)
  have "distinct (message_keys ?d)" using exact 2(1) by (auto simp: keys usage_exact_def usage_seen_key)
  moreover have "counts_rows (su_tokens s') (su_cost s') (rows_of ?d (su_session s'))"
    if "s' \<in> set (usage_sessions ?d)" for s'
  proof -
    obtain s where s: "s \<in> set (usage_sessions d)" and s': "s' = (if su_session s = ui_session i then count_usage i s else s)"
      using \<open>s' \<in> set (usage_sessions ?d)\<close> unfolding 2(3) by auto
    then have "counts_rows (su_tokens s) (su_cost s) (rows_of d (su_session s))"
      using exact by (simp add: usage_exact_def)
    then show ?thesis by (auto simp: s' rows count_usage_fields counts_rows_snoc)
  qed
  ultimately show "usage_exact ?d" by (simp add: usage_exact_def)
qed simp

lemma record_usage_mono:
  "set (message_keys d) \<subseteq> set (message_keys (record_usage r d)) \<and>
   su_session ` set (usage_sessions (record_usage r d)) = su_session ` set (usage_sessions d)"
proof (cases r)
  case (Pair i now)
  show ?thesis
  proof (cases rule: record_usage_cases [of i now d])
    case 2
    have "map su_session (map (\<lambda>s. if su_session s = ui_session i then count_usage i s else s) (usage_sessions d)) =
        map su_session (usage_sessions d)" by (simp add: count_usage_fields)
    then have "su_session ` set (map (\<lambda>s. if su_session s = ui_session i then count_usage i s else s) (usage_sessions d)) =
        su_session ` set (usage_sessions d)" by (metis list.set_map)
    then show ?thesis unfolding Pair 2(3) by (auto simp: message_keys_def)
  qed (simp add: Pair)
qed

lemma fold_record_mono:
  "set (message_keys d) \<subseteq> set (message_keys (fold record_usage rs d)) \<and>
   su_session ` set (usage_sessions (fold record_usage rs d)) = su_session ` set (usage_sessions d)"
proof (induction rs arbitrary: d)
  case (Cons r rs)
  show ?case using record_usage_mono [of d r] Cons.IH [of "record_usage r d"] by (simp, blast)
qed simp

lemma fold_record_exact: "usage_exact d \<Longrightarrow> usage_exact (fold record_usage rs d)"
  by (induction rs arbitrary: d) (auto simp: record_usage_exact split_paired_all)

lemma recorded_key:
  "ui_event i \<noteq> None \<Longrightarrow> usage_seen i (record_usage (i, now) d) \<or> ui_session i \<notin> su_session ` set (usage_sessions d)"
  by (cases rule: record_usage_cases [of i now d]) (auto simp: usage_seen_key message_keys_def usage_row_fields)

text \<open>C13: after any sequence of usage reports the cost summary of a session is the sum of the rows
  recorded for it, and a message is billed once: reporting any message of the sequence again,
  at whatever time, changes nothing.\<close>

theorem usage_counts_each_message_once:
  assumes "usage_exact d" and "d' = fold record_usage reports d"
  shows "(\<forall>session c. get_session_cost_summary d' session = Inr c \<longrightarrow>
      counts_rows (cs_tokens c) (cs_cost c) (rows_of d' session)) \<and>
    (\<forall>(i, now) \<in> set reports. \<forall>later. ui_event i \<noteq> None \<longrightarrow> record_usage (i, later) d' = d')"
proof (intro conjI allI impI ballI)
  fix session c assume c: "get_session_cost_summary d' session = Inr c"
  then obtain s where s: "find (\<lambda>s. su_session s = session) (usage_sessions d') = Some s"
    and "cs_tokens c = su_tokens s" "cs_cost c = su_cost s"
    by (auto simp: get_session_cost_summary_def Let_def split: option.splits)
  then show "counts_rows (cs_tokens c) (cs_cost c) (rows_of d' session)"
    using find_Some_mem [OF s] fold_record_exact [OF assms(1)] assms(2) by (auto simp: usage_exact_def)
next
  fix r assume r: "r \<in> set reports"
  obtain i now where i: "r = (i, now)" by (cases r)
  obtain before later where split: "reports = before @ (i, now) # later" using split_list r i by metis
  have "record_usage (i, t) d' = d'" if "ui_event i \<noteq> None" for t
  proof -
    let ?d1 = "record_usage (i, now) (fold record_usage before d)"
    have d': "d' = fold record_usage later ?d1" using assms(2) split by simp
    have ids: "su_session ` set (usage_sessions d') = su_session ` set (usage_sessions (fold record_usage before d))"
      using fold_record_mono [of ?d1 later] record_usage_mono [of "fold record_usage before d" "(i, now)"]
      unfolding d' by simp
    have keys: "set (message_keys ?d1) \<subseteq> set (message_keys d')"
      using fold_record_mono [of ?d1 later] unfolding d' by simp
    have "usage_seen i d' \<or> ui_session i \<notin> su_session ` set (usage_sessions d')"
      using recorded_key [OF that, of now "fold record_usage before d"] keys
      unfolding ids usage_seen_key by (elim disjE) auto
    then show ?thesis by (auto simp: record_usage_def insert_usage_event_def)
  qed
  then show "case r of (i, now) \<Rightarrow> \<forall>later. ui_event i \<noteq> None \<longrightarrow> record_usage (i, later) d' = d'" by (simp add: i)
qed

definition sample_usage_db :: usage_db where
  "sample_usage_db = \<lparr>usage_rows = [], usage_sessions = [\<lparr>su_session = ''s'', su_tokens = \<lparr>tc_input = 0, tc_output = 0,
     tc_cache_read = 0, tc_cache_write = 0\<rparr>, su_cost = 0, su_context_tokens = None, su_context_window = None,
     su_last_model = None\<rparr>]\<rparr>"

definition sample_usage :: usage_input where
  "sample_usage = \<lparr>ui_session = ''s'', ui_event = Some ''m'', ui_model = ''opus'', ui_tokens = \<lparr>tc_input = 10, tc_output = 5,
     tc_cache_read = 0, tc_cache_write = 0\<rparr>, ui_cost = 1, ui_context_tokens = None, ui_context_window = None, ui_created = None\<rparr>"

theorem usage_counts_each_message_once_witness:
  "usage_rows (record_usage (sample_usage, ''2026'') sample_usage_db) \<noteq> [] \<and>
   record_usage (sample_usage, ''2027'') (record_usage (sample_usage, ''2026'') sample_usage_db) =
     record_usage (sample_usage, ''2026'') sample_usage_db"
proof -
  have "usage_exact sample_usage_db"
    by (simp add: usage_exact_def sample_usage_db_def message_keys_def counts_rows_def rows_of_def)
  from usage_counts_each_message_once [OF this, of _ "[(sample_usage, ''2026'')]"]
  have "record_usage (sample_usage, ''2027'') (record_usage (sample_usage, ''2026'') sample_usage_db) =
     record_usage (sample_usage, ''2026'') sample_usage_db" by (simp add: sample_usage_def)
  then show ?thesis
    by (simp add: record_usage_def insert_usage_event_def usage_seen_def sample_usage_def sample_usage_db_def)
qed

end
