(* ===== verification/Flush_Store.thy ===== *)
theory Flush_Store
  imports Store Usage Pricing Routing_Table "HOL-Library.Word"
begin

text \<open>
  What one flush of provider output writes (\<^verbatim>\<open>providers/flush_queue.rs\<close>, \<^verbatim>\<open>persistence/events.rs\<close>,
  \<^verbatim>\<open>persistence/workspaces.rs\<close>): the shared tables, raw output, token accounting and workspace
  states, and the delta that reports the written rows to the dashboard. Rows that the code only
  carries (projects, queued messages) are kept as their JSON. \<open>enrich\<close> stands for
  \<^verbatim>\<open>enrich_native_agent_event\<close>, which reads the transcript and completes a payload.
\<close>

section \<open>Rows\<close>

record raw_row =
  rr_id :: string
  rr_session :: string
  rr_stream :: string
  rr_content :: string
  rr_created :: string

record workspace_row =
  ws_id :: string
  ws_state :: string

record flush_db =
  tables :: store
  accounts :: usage_db
  raw_outputs :: "raw_row list"
  workspaces :: "workspace_row list"

record timeline_input =
  ti_id :: string
  ti_session :: string
  ti_type :: string
  ti_message :: string
  ti_payload :: json
  ti_created :: "string option"

section \<open>Deltas for the dashboard\<close>

record dashboard_delta =
  d_projects :: "json list"
  d_workspaces :: "workspace_row list"
  d_sessions :: "session_row list"
  d_events :: "event_row list"
  d_raw_outputs :: "raw_row list"
  d_approvals :: "approval_row list"
  d_pending_messages :: "(string \<rightharpoonup> json list) option"
  d_removed_session_ids :: "string list"
  d_removed_workspace_ids :: "string list"
  d_changed_session_ids :: "string list"
  d_goal_changed_ids :: "string list"
  d_dashboard_changed :: bool
  d_resync_required :: bool

definition empty_delta :: dashboard_delta where
  "empty_delta = \<lparr>d_projects = [], d_workspaces = [], d_sessions = [], d_events = [], d_raw_outputs = [],
     d_approvals = [], d_pending_messages = None, d_removed_session_ids = [], d_removed_workspace_ids = [],
     d_changed_session_ids = [], d_goal_changed_ids = [], d_dashboard_changed = False, d_resync_required = False\<rparr>"

definition delta_is_empty :: "dashboard_delta \<Rightarrow> bool" where
  "delta_is_empty d \<longleftrightarrow> d_projects d = [] \<and> d_workspaces d = [] \<and> d_sessions d = [] \<and> d_events d = [] \<and>
     d_raw_outputs d = [] \<and> d_approvals d = [] \<and> d_pending_messages d = None \<and> d_removed_session_ids d = [] \<and>
     d_removed_workspace_ids d = [] \<and> d_changed_session_ids d = [] \<and> d_goal_changed_ids d = [] \<and>
     \<not> d_dashboard_changed d \<and> \<not> d_resync_required d"

text \<open>\<^verbatim>\<open>sort_unstable\<close> and \<^verbatim>\<open>dedup\<close> on ids.\<close>

definition sort_dedup :: "string list \<Rightarrow> string list" where
  "sort_dedup xs = remdups_adj (sort xs)"

definition merge_from :: "dashboard_delta \<Rightarrow> dashboard_delta \<Rightarrow> dashboard_delta" where
  "merge_from a b =
     \<lparr>d_projects = d_projects a @ d_projects b, d_workspaces = d_workspaces a @ d_workspaces b,
      d_sessions = d_sessions a @ d_sessions b, d_events = d_events a @ d_events b,
      d_raw_outputs = d_raw_outputs a @ d_raw_outputs b, d_approvals = d_approvals a @ d_approvals b,
      d_pending_messages =
        (case d_pending_messages b of
           None \<Rightarrow> d_pending_messages a
         | Some incoming \<Rightarrow>
             Some ((case d_pending_messages a of None \<Rightarrow> Map.empty | Some m \<Rightarrow> m) ++ incoming)),
      d_removed_session_ids = d_removed_session_ids a @ d_removed_session_ids b,
      d_removed_workspace_ids = d_removed_workspace_ids a @ d_removed_workspace_ids b,
      d_changed_session_ids = sort_dedup (d_changed_session_ids a @ d_changed_session_ids b),
      d_goal_changed_ids = sort_dedup (d_goal_changed_ids a @ d_goal_changed_ids b),
      d_dashboard_changed = (d_dashboard_changed a \<or> d_dashboard_changed b),
      d_resync_required = (d_resync_required a \<or> d_resync_required b)\<rparr>"

section \<open>Statements\<close>

definition persist_raw_output :: "raw_row \<Rightarrow> flush_db \<Rightarrow> argmax_error + raw_row \<times> flush_db" where
  "persist_raw_output r d =
     (if rr_id r \<in> rr_id ` set (raw_outputs d) then Inl (sqlite ''UNIQUE constraint failed: raw_outputs.id'')
      else if rr_session r \<notin> sess_id ` set (sessions (tables d)) then Inl (sqlite ''FOREIGN KEY constraint failed'')
      else Inr (r, d\<lparr>raw_outputs := raw_outputs d @ [r]\<rparr>))"

definition persist_timeline_event ::
  "(store \<Rightarrow> timeline_input \<Rightarrow> argmax_error + json) \<Rightarrow> string \<Rightarrow> timeline_input \<Rightarrow> flush_db \<Rightarrow>
   argmax_error + event_row \<times> flush_db"
where
  "persist_timeline_event enrich now i d =
     (case enrich (tables d) i of Inl e \<Rightarrow> Inl e | Inr payload \<Rightarrow>
     (case persist_event
             \<lparr>ev_id = ti_id i, ev_session = ti_session i, ev_type = ti_type i, ev_message = ti_message i,
              ev_payload = payload, ev_created = (case ti_created i of None \<Rightarrow> now | Some t \<Rightarrow> t)\<rparr> (tables d) of
        Inl e \<Rightarrow> Inl e
      | Inr (ev, t) \<Rightarrow> Inr (ev, d\<lparr>tables := t\<rparr>)))"

text \<open>\<^verbatim>\<open>json_extract\<close> of a top-level key, compared with a text.\<close>

definition payload_text :: "string \<Rightarrow> json \<Rightarrow> string option" where
  "payload_text k v = (case json_get k v of None \<Rightarrow> None | Some x \<Rightarrow> as_str x)"

definition has_provider_permission_event :: "store \<Rightarrow> string \<Rightarrow> string \<Rightarrow> string \<Rightarrow> string \<Rightarrow> bool" where
  "has_provider_permission_event t session prov invocation request =
     list_ex (\<lambda>e. ev_session e = session \<and>
       (ev_type e = ''approval.requested'' \<or> ev_type e = ''permission.blocked'') \<and>
       payload_text ''provider'' (ev_payload e) = Some prov \<and>
       payload_text ''providerInvocationId'' (ev_payload e) = Some invocation \<and>
       payload_text ''providerRequestId'' (ev_payload e) = Some request) (events t)"

definition find_workspace :: "flush_db \<Rightarrow> string \<Rightarrow> argmax_error + workspace_row" where
  "find_workspace d i =
     (case find (\<lambda>w. ws_id w = i) (workspaces d) of
        None \<Rightarrow> Inl (record_not_found ''workspace'' i) | Some w \<Rightarrow> Inr w)"

definition update_workspace_state :: "string \<Rightarrow> string \<Rightarrow> flush_db \<Rightarrow> argmax_error + workspace_row \<times> flush_db" where
  "update_workspace_state i st d =
     (if filter (\<lambda>w. ws_id w = i) (workspaces d) = [] then Inl (record_not_found ''workspace'' i)
      else
        let d' = d\<lparr>workspaces := map (\<lambda>w. if ws_id w = i then w\<lparr>ws_state := st\<rparr> else w) (workspaces d)\<rparr>
        in (case find_workspace d' i of Inl e \<Rightarrow> Inl e | Inr w \<Rightarrow> Inr (w, d')))"

text \<open>A waiting or blocked turn moves its session, and its workspace unless that is being archived;
  a session that is not live is left alone.\<close>

definition transition_session_attention ::
  "card_ask \<Rightarrow> string \<Rightarrow> string \<Rightarrow> session_state \<Rightarrow> bool \<Rightarrow> flush_db \<times> dashboard_delta \<Rightarrow>
   argmax_error + flush_db \<times> dashboard_delta"
where
  "transition_session_attention ask now session st pending_approval s =
     (case s of (d, delta) \<Rightarrow>
     (case find_session (tables d) session of Inl e \<Rightarrow> Inl e | Inr current \<Rightarrow>
      if \<not> is_live (sess_state current) then Inr (d, delta)
      else
        let input = (if pending_approval then with_pending_approval (transition st) else transition st)
        in (case update_session_state ask now session input (tables d) of Inl e \<Rightarrow> Inl e | Inr (row, t) \<Rightarrow>
              let d1 = d\<lparr>tables := t\<rparr>; delta1 = delta\<lparr>d_sessions := d_sessions delta @ [row]\<rparr>
              in (case find_workspace d1 (sess_workspace row) of Inl e \<Rightarrow> Inl e | Inr w \<Rightarrow>
                    if ws_state w \<in> {''archiving'', ''archive-failed'', ''archived''} then Inr (d1, delta1)
                    else (case update_workspace_state (sess_workspace row) (session_state_str st) d1 of
                            Inl e \<Rightarrow> Inl e
                          | Inr (w', d2) \<Rightarrow> Inr (d2, delta1\<lparr>d_workspaces := d_workspaces delta1 @ [w']\<rparr>)))))) "

text \<open>\<^verbatim>\<open>as i64\<close> of a \<^verbatim>\<open>u64\<close> count.\<close>

definition as_i64 :: "nat \<Rightarrow> int" where
  "as_i64 n = sint (of_nat n :: 64 word)"

end
