(* ===== verification/Flush_Queue.thy ===== *)
theory Flush_Queue
  imports Flush_Store
begin

text \<open>
  \<^verbatim>\<open>src-tauri/src/providers/flush_queue.rs\<close>: the queue between a provider's output streams and the
  database. Output is cut into complete lines, normalized into events, usage reports and
  approval requests, batched, and written in one transaction; a failed transaction puts the
  batch back. The provider's normalizer, with its context, and the JSON parser are arguments, as
  are UUIDs, the clock and whether SQLite takes the transaction. \<open>fs_fed\<close> and \<open>fs_queued\<close> are ghosts:
  the chunks handed to the normalizer and the raw output queued.
\<close>

section \<open>The batch of a session\<close>

datatype output_stream = Stdout | Stderr | Pty | System

fun stream_str :: "output_stream \<Rightarrow> string" where
  "stream_str Stdout = ''stdout''"
| "stream_str Stderr = ''stderr''"
| "stream_str Pty = ''pty''"
| "stream_str System = ''system''"

record output_event =
  oe_session :: string
  oe_stream :: output_stream
  oe_message :: string
  oe_created :: string

record normalized_usage =
  nu_model :: string
  nu_tokens :: usage_counts
  nu_cost :: real
  nu_event :: "string option"
  nu_context_tokens :: "nat option"
  nu_context_window :: "nat option"

record normalized_approval =
  na_session :: string
  na_command :: string
  na_cwd :: string
  na_provider :: string
  na_risk :: string
  na_request :: "string option"

record normalized_result =
  nr_events :: "timeline_input list"
  nr_usages :: "normalized_usage list"
  nr_approvals :: "normalized_approval list"
  nr_permission_blocked :: bool
  nr_conversation_id :: "string option"

record flush_buffer =
  fb_sequence :: nat
  fb_events :: "(nat \<times> timeline_input) list"
  fb_raws :: "raw_row list"
  fb_usages :: "normalized_usage list"
  fb_approvals :: "approval_row list"
  fb_permission_blocked :: bool

definition new_buffer :: flush_buffer where
  "new_buffer = \<lparr>fb_sequence = 0, fb_events = [], fb_raws = [], fb_usages = [], fb_approvals = [],
     fb_permission_blocked = False\<rparr>"

definition buffer_is_empty :: "flush_buffer \<Rightarrow> bool" where
  "buffer_is_empty b \<longleftrightarrow> fb_events b = [] \<and> fb_raws b = [] \<and> fb_usages b = [] \<and> fb_approvals b = [] \<and>
     \<not> fb_permission_blocked b"

definition queue_timeline_event :: "timeline_input \<Rightarrow> flush_buffer \<Rightarrow> flush_buffer" where
  "queue_timeline_event i b =
     b\<lparr>fb_sequence := fb_sequence b + 1, fb_events := fb_events b @ [(fb_sequence b + 1, i)]\<rparr>"

definition queue_raw_output :: "raw_row \<Rightarrow> flush_buffer \<Rightarrow> flush_buffer" where
  "queue_raw_output r b = b\<lparr>fb_raws := fb_raws b @ [r]\<rparr>"

definition queue_usage :: "normalized_usage \<Rightarrow> flush_buffer \<Rightarrow> flush_buffer" where
  "queue_usage u b = b\<lparr>fb_usages := fb_usages b @ [u]\<rparr>"

definition queue_approval_for_invocation ::
  "string \<Rightarrow> string \<Rightarrow> normalized_approval \<times> string \<Rightarrow> flush_buffer \<Rightarrow> flush_buffer"
where
  "queue_approval_for_invocation invocation now au b =
     (case au of (a, uuid) \<Rightarrow>
        b\<lparr>fb_approvals := fb_approvals b @
            [\<lparr>app_id = uuid, app_session = na_session a, app_command = na_command a, app_cwd = na_cwd a,
              app_provider = na_provider a, app_invocation = Some invocation, app_request = na_request a,
              app_risk = na_risk a, app_status = ''pending'', app_created = now, app_resolved = None\<rparr>]\<rparr>)"

definition mark_permission_blocked :: "flush_buffer \<Rightarrow> flush_buffer" where
  "mark_permission_blocked b = b\<lparr>fb_permission_blocked := True\<rparr>"

section \<open>One flush\<close>

record flush_env =
  fe_ask :: card_ask
  fe_enrich :: "store \<Rightarrow> timeline_input \<Rightarrow> argmax_error + json"
  fe_now :: string
  fe_begin :: "argmax_error option"  \<comment> \<open>why SQLite refuses to open the transaction\<close>
  fe_commit :: "argmax_error option"  \<comment> \<open>why SQLite refuses to commit it\<close>

type_synonym flush_run = "flush_db \<times> dashboard_delta"

definition flush_raw :: "raw_row \<Rightarrow> flush_run \<Rightarrow> argmax_error + flush_run" where
  "flush_raw r s =
     (case s of (d, delta) \<Rightarrow>
        and_then (persist_raw_output r d) (\<lambda>(row, d').
          Inr (d', delta\<lparr>d_raw_outputs := d_raw_outputs delta @ [row]\<rparr>)))"

text \<open>The identity under which a provider's request is recorded once.\<close>

definition provider_request_of :: "timeline_input \<Rightarrow> (string \<times> string \<times> string) option" where
  "provider_request_of i =
     (if ti_type i = ''approval.requested'' \<or> ti_type i = ''permission.blocked'' then
        (case payload_text ''providerInvocationId'' (ti_payload i) of None \<Rightarrow> None | Some invocation \<Rightarrow>
        (case payload_text ''providerRequestId'' (ti_payload i) of None \<Rightarrow> None | Some request \<Rightarrow>
           Some ((case payload_text ''provider'' (ti_payload i) of None \<Rightarrow> '''' | Some p \<Rightarrow> p), invocation, request)))
      else None)"

definition already_recorded :: "store \<Rightarrow> string \<Rightarrow> timeline_input \<Rightarrow> string \<times> string \<times> string \<Rightarrow> bool" where
  "already_recorded t session i k =
     (case k of (prov, invocation, request) \<Rightarrow>
        find_by_provider_request t session prov invocation request \<noteq> None \<or>
        ti_type i = ''permission.blocked'' \<and> has_provider_permission_event t session prov invocation request)"

definition identity_key :: "string \<Rightarrow> string \<times> string \<times> string \<Rightarrow> string" where
  "identity_key session k =
     (case k of (prov, invocation, request) \<Rightarrow>
        session @ [CHR 0x00] @ prov @ [CHR 0x00] @ invocation @ [CHR 0x00] @ request)"

definition record_event :: "flush_env \<Rightarrow> timeline_input \<Rightarrow> flush_run \<Rightarrow> argmax_error + flush_run" where
  "record_event env i s =
     (case s of (d, delta) \<Rightarrow>
        and_then (persist_timeline_event (fe_enrich env) (fe_now env) i d) (\<lambda>(ev, d').
          Inr (d', delta\<lparr>d_events := d_events delta @ [ev]\<rparr>)))"

definition flush_event ::
  "flush_env \<Rightarrow> string \<Rightarrow> nat \<times> timeline_input \<Rightarrow> flush_run \<times> string set \<Rightarrow> argmax_error + flush_run \<times> string set"
where
  "flush_event env session p s =
     (case s of (run, seen) \<Rightarrow>
      case provider_request_of (snd p) of
        None \<Rightarrow> and_then (record_event env (snd p) run) (\<lambda>run'. Inr (run', seen))
      | Some k \<Rightarrow>
          let seen' = insert (identity_key session k) seen
          in if identity_key session k \<in> seen \<or> already_recorded (tables (fst run)) session (snd p) k
             then Inr (run, seen')
             else and_then (record_event env (snd p) run) (\<lambda>run'. Inr (run', seen')))"

definition usage_input_of :: "string \<Rightarrow> normalized_usage \<Rightarrow> usage_input" where
  "usage_input_of session u =
     \<lparr>ui_session = session, ui_event = nu_event u, ui_model = nu_model u,
      ui_tokens = \<lparr>tc_input = as_i64 (use_input (nu_tokens u)), tc_output = as_i64 (use_output (nu_tokens u)),
                   tc_cache_read = as_i64 (use_cache_read (nu_tokens u)),
                   tc_cache_write = as_i64 (use_cache_write (nu_tokens u))\<rparr>,
      ui_cost = nu_cost u, ui_context_tokens = map_option as_i64 (nu_context_tokens u),
      ui_context_window = map_option as_i64 (nu_context_window u), ui_created = None\<rparr>"

definition flush_usage :: "flush_env \<Rightarrow> string \<Rightarrow> normalized_usage \<Rightarrow> flush_run \<Rightarrow> argmax_error + flush_run" where
  "flush_usage env session u s =
     (case s of (d, delta) \<Rightarrow>
        and_then (insert_usage_event (usage_input_of session u) (fe_now env) (accounts d)) (\<lambda>a.
          Inr (d\<lparr>accounts := a\<rparr>, delta)))"

definition existing_approval :: "store \<Rightarrow> approval_row \<Rightarrow> approval_row option" where
  "existing_approval t a =
     (case (app_invocation a, app_request a) of
        (Some invocation, Some request) \<Rightarrow>
          find_by_provider_request t (app_session a) (app_provider a) invocation request
      | _ \<Rightarrow> find_pending_approval t (app_session a) (app_command a) (app_cwd a) (app_provider a))"

text \<open>A request that is on record already, in whatever state, is not inserted and moves nothing.\<close>

definition flush_approval :: "flush_env \<Rightarrow> approval_row \<Rightarrow> flush_run \<Rightarrow> argmax_error + flush_run" where
  "flush_approval env a s =
     (case s of (d, delta) \<Rightarrow>
      case existing_approval (tables d) a of
        Some _ \<Rightarrow> Inr (d, delta)
      | None \<Rightarrow>
          and_then (persist_approval a (tables d)) (\<lambda>(row, t).
            if app_status row \<noteq> ''pending'' then Inr (d\<lparr>tables := t\<rparr>, delta)
            else
              and_then (transition_session_attention (fe_ask env) (fe_now env) (app_session a) Waiting True
                          (d\<lparr>tables := t\<rparr>, delta)) (\<lambda>(d', delta').
                Inr (d', delta'\<lparr>d_approvals := d_approvals delta' @ [row]\<rparr>))))"

definition flush_transaction ::
  "flush_env \<Rightarrow> string \<Rightarrow> flush_buffer \<Rightarrow> flush_db \<Rightarrow> argmax_error + flush_run"
where
  "flush_transaction env session b d =
     (case fe_begin env of Some e \<Rightarrow> Inl e | None \<Rightarrow>
      and_then (fold_res flush_raw (fb_raws b) (d, empty_delta)) (\<lambda>s1.
      and_then (fold_res (flush_event env session) (sort_key fst (fb_events b)) (s1, {})) (\<lambda>(s2, _).
      and_then (fold_res (flush_usage env session) (fb_usages b) s2) (\<lambda>s3.
      and_then (fold_res (flush_approval env) (fb_approvals b) s3) (\<lambda>s4.
      and_then (if fb_permission_blocked b
                then transition_session_attention (fe_ask env) (fe_now env) session Blocked False s4
                else Inr s4) (\<lambda>s5.
        case fe_commit env of Some e \<Rightarrow> Inl e | None \<Rightarrow> Inr s5))))))"

definition flush_session_buffer ::
  "flush_env \<Rightarrow> string \<Rightarrow> flush_buffer \<Rightarrow> flush_db \<Rightarrow> (argmax_error + dashboard_delta) \<times> flush_buffer \<times> flush_db"
where
  "flush_session_buffer env session b d =
     (if buffer_is_empty b then (Inr empty_delta, b, d)
      else
        case flush_transaction env session b d of
          Inl e \<Rightarrow> (Inl e, b\<lparr>fb_events := sort_key fst (fb_events b)\<rparr>, d)
        | Inr (d', delta) \<Rightarrow>
            (Inr delta,
             b\<lparr>fb_events := [], fb_raws := [], fb_usages := [], fb_approvals := [], fb_permission_blocked := False\<rparr>,
             d'))"

section \<open>The queue\<close>

record 'c flush_session =
  fs_provider :: provider_id
  fs_invocation :: string
  fs_context :: 'c
  fs_streams :: "(output_stream \<times> string) list"
  fs_buffer :: flush_buffer
  fs_fed :: "output_event list"  \<comment> \<open>ghost\<close>
  fs_queued :: "raw_row list"  \<comment> \<open>ghost\<close>

type_synonym 'c flush_queue = "string \<rightharpoonup> 'c flush_session"

type_synonym 'c normalizer = "provider_id \<Rightarrow> output_event \<Rightarrow> 'c \<Rightarrow> normalized_result \<times> 'c"

record queue_output_result =
  qo_delta :: "dashboard_delta option"
  qo_conversation_id :: "string option"
  qo_pending_batch :: bool
  qo_trailing_fragment :: bool

definition initialize_session :: "string \<Rightarrow> provider_id \<Rightarrow> string \<Rightarrow> 'c \<Rightarrow> 'c flush_queue \<Rightarrow> 'c flush_queue" where
  "initialize_session session p invocation c q =
     q(session \<mapsto> \<lparr>fs_provider = p, fs_invocation = invocation, fs_context = c, fs_streams = [],
                   fs_buffer = new_buffer, fs_fed = [], fs_queued = []\<rparr>)"

definition delete_session :: "string \<Rightarrow> 'c flush_queue \<Rightarrow> 'c flush_queue" where
  "delete_session session q = q(session := None)"

definition is_current_invocation :: "'c flush_queue \<Rightarrow> string \<Rightarrow> string \<Rightarrow> bool" where
  "is_current_invocation q session invocation =
     (case q session of None \<Rightarrow> False | Some s \<Rightarrow> fs_invocation s = invocation)"

text \<open>The hash map of stream fragments, as an association list with distinct keys.\<close>

definition stream_text :: "(output_stream \<times> string) list \<Rightarrow> output_stream \<Rightarrow> string" where
  "stream_text ss st = (case map_of ss st of None \<Rightarrow> [] | Some t \<Rightarrow> t)"

definition put_stream :: "output_stream \<Rightarrow> string \<Rightarrow> (output_stream \<times> string) list \<Rightarrow> (output_stream \<times> string) list" where
  "put_stream st t ss = filter (\<lambda>e. fst e \<noteq> st) ss @ [(st, t)]"

definition line_break :: "char \<Rightarrow> bool" where
  "line_break c \<longleftrightarrow> c = CHR 0x0A \<or> c = CHR 0x0D"

text \<open>The text up to the last line break, and the rest.\<close>

definition split_complete :: "string \<Rightarrow> (string \<times> string) option" where
  "split_complete s =
     (let trailing = rev (takeWhile (\<lambda>c. \<not> line_break c) (rev s))
      in if length trailing = length s then None
         else Some (take (length s - length trailing) s, trailing))"

definition attach_provider_invocation_id :: "string \<Rightarrow> timeline_input \<Rightarrow> timeline_input" where
  "attach_provider_invocation_id invocation i =
     (case ti_payload i of
        JObject kvs \<Rightarrow> i\<lparr>ti_payload := JObject (object_insert ''providerInvocationId'' (JString invocation) kvs)\<rparr>
      | _ \<Rightarrow> i)"

definition requires_immediate_flush :: "normalized_result \<Rightarrow> bool" where
  "requires_immediate_flush r \<longleftrightarrow> nr_permission_blocked r \<or> nr_approvals r \<noteq> [] \<or>
     list_ex (\<lambda>i. ti_type i \<in> {''approval.requested'', ''permission.blocked'', ''error'', ''session.completed''})
       (nr_events r)"

text \<open>\<open>uuids n\<close> is the id of the n-th approval.\<close>

definition ingest_normalized_result ::
  "string \<Rightarrow> (nat \<Rightarrow> string) \<Rightarrow> string \<Rightarrow> normalized_result \<Rightarrow> flush_buffer \<Rightarrow> flush_buffer"
where
  "ingest_normalized_result invocation uuids now r b =
     (let b = fold (\<lambda>i. queue_timeline_event (attach_provider_invocation_id invocation i)) (nr_events r) b;
          b = fold queue_usage (nr_usages r) b;
          b = (if nr_permission_blocked r then mark_permission_blocked b else b)
      in fold (queue_approval_for_invocation invocation now)
           (zip (nr_approvals r) (map uuids [0..<length (nr_approvals r)])) b)"

text \<open>Handing a chunk to the normalizer and its result to the batch.\<close>

definition feed ::
  "'c normalizer \<Rightarrow> (nat \<Rightarrow> string) \<Rightarrow> string \<Rightarrow> output_event \<Rightarrow> 'c flush_session \<Rightarrow>
   normalized_result \<times> 'c flush_session"
where
  "feed nrm uuids now ev s =
     (let (r, c) = nrm (fs_provider s) ev (fs_context s)
      in (r, s\<lparr>fs_context := c, fs_fed := fs_fed s @ [ev],
               fs_buffer := ingest_normalized_result (fs_invocation s) uuids now r (fs_buffer s)\<rparr>))"

definition flush_session ::
  "flush_env \<Rightarrow> string \<Rightarrow> 'c flush_session \<Rightarrow> flush_db \<Rightarrow>
   (argmax_error + dashboard_delta) \<times> 'c flush_session \<times> flush_db"
where
  "flush_session env session s d =
     (case flush_session_buffer env session (fs_buffer s) d of (r, b, d') \<Rightarrow> (r, s\<lparr>fs_buffer := b\<rparr>, d'))"

definition some_delta :: "dashboard_delta \<Rightarrow> dashboard_delta option" where
  "some_delta delta = (if delta_is_empty delta then None else Some delta)"

definition ignored_output :: queue_output_result where
  "ignored_output = \<lparr>qo_delta = None, qo_conversation_id = None, qo_pending_batch = False, qo_trailing_fragment = False\<rparr>"

text \<open>The raw output is kept as it came, whether or not a line is complete.\<close>

definition queue_raw :: "string \<Rightarrow> output_event \<Rightarrow> 'c flush_session \<Rightarrow> 'c flush_session" where
  "queue_raw uuid ev s =
     (let raw = \<lparr>rr_id = uuid, rr_session = oe_session ev, rr_stream = stream_str (oe_stream ev),
                 rr_content = oe_message ev, rr_created = oe_created ev\<rparr>
      in s\<lparr>fs_buffer := queue_raw_output raw (fs_buffer s), fs_queued := fs_queued s @ [raw]\<rparr>)"

definition queue_output_event ::
  "'c normalizer \<Rightarrow> flush_env \<Rightarrow> string \<Rightarrow> (nat \<Rightarrow> string) \<Rightarrow> string \<Rightarrow> output_event \<Rightarrow> 'c flush_queue \<Rightarrow> flush_db \<Rightarrow>
   (argmax_error + queue_output_result) \<times> 'c flush_queue \<times> flush_db"
where
  "queue_output_event nrm env raw_uuid uuids invocation ev q d =
     (case q (oe_session ev) of
        None \<Rightarrow> (Inr ignored_output, q, d)
      | Some s0 \<Rightarrow>
          if fs_invocation s0 \<noteq> invocation then (Inr ignored_output, q, d)
          else
            (let s = queue_raw raw_uuid ev s0;
                 text = stream_text (fs_streams s) (oe_stream ev) @ oe_message ev
             in case split_complete text of
                  None \<Rightarrow>
                    (Inr (ignored_output\<lparr>qo_pending_batch := True, qo_trailing_fragment := True\<rparr>),
                     q(oe_session ev \<mapsto> s\<lparr>fs_streams := put_stream (oe_stream ev) text (fs_streams s)\<rparr>), d)
                | Some (completed, trailing) \<Rightarrow>
                    (case feed nrm uuids (fe_now env) (ev\<lparr>oe_message := completed\<rparr>)
                            (s\<lparr>fs_streams := put_stream (oe_stream ev) trailing (fs_streams s)\<rparr>) of (r, s1) \<Rightarrow>
                     case (if requires_immediate_flush r then flush_session env (oe_session ev) s1 d
                           else (Inr empty_delta, s1, d)) of
                       (Inl e, s2, d') \<Rightarrow> (Inl e, q(oe_session ev \<mapsto> s2), d')
                     | (Inr delta, s2, d') \<Rightarrow>
                         (Inr \<lparr>qo_delta = some_delta delta, qo_conversation_id = nr_conversation_id r,
                               qo_pending_batch = \<not> buffer_is_empty (fs_buffer s2),
                               qo_trailing_fragment = \<not> is_blank trailing\<rparr>, q(oe_session ev \<mapsto> s2), d'))))"

definition flush_pending_output ::
  "flush_env \<Rightarrow> string \<Rightarrow> 'c flush_queue \<Rightarrow> flush_db \<Rightarrow>
   (argmax_error + dashboard_delta option) \<times> 'c flush_queue \<times> flush_db"
where
  "flush_pending_output env session q d =
     (case q session of None \<Rightarrow> (Inr None, q, d) | Some s \<Rightarrow>
      (case flush_session env session s d of
         (Inl e, s', d') \<Rightarrow> (Inl e, q(session \<mapsto> s'), d')
       | (Inr delta, s', d') \<Rightarrow> (Inr (some_delta delta), q(session \<mapsto> s'), d')))"

definition JSON_PARSE_LINE_CAP :: nat where
  "JSON_PARSE_LINE_CAP = 4194304"

text \<open>\<open>parses\<close> is \<^verbatim>\<open>serde_json::from_str\<close> returning a value.\<close>

definition is_incomplete_json_line :: "(string \<Rightarrow> bool) \<Rightarrow> string \<Rightarrow> bool" where
  "is_incomplete_json_line parses fragment =
     (let trimmed = trim fragment
      in if \<not> starts_with trimmed ''{'' \<or> length fragment > JSON_PARSE_LINE_CAP then False
         else \<not> starts_with (rev trimmed) ''}'' \<or> \<not> parses trimmed)"

text \<open>One stream of the loop of \<open>flush_trailing_fragments\<close>; the streams were taken out before.\<close>

definition flush_fragment ::
  "'c normalizer \<Rightarrow> (string \<Rightarrow> bool) \<Rightarrow> bool \<Rightarrow> string \<Rightarrow> string \<Rightarrow> string \<Rightarrow> (output_stream \<Rightarrow> nat \<Rightarrow> string) \<Rightarrow>
   output_stream \<times> string \<Rightarrow> 'c flush_session \<Rightarrow> 'c flush_session"
where
  "flush_fragment nrm parses gone session created now uuids e s =
     (case e of (st, fragment) \<Rightarrow>
        if is_blank fragment then s
        else if is_incomplete_json_line parses fragment \<and> \<not> gone
        then s\<lparr>fs_streams := put_stream st fragment (fs_streams s)\<rparr>
        else snd (feed nrm (uuids st) now
                    \<lparr>oe_session = session, oe_stream = st, oe_message = fragment @ [newline], oe_created = created\<rparr> s))"

text \<open>A Cursor turn whose process is gone is completed from the normalizer's context.\<close>

definition synthesize_exit ::
  "(output_event \<Rightarrow> 'c \<Rightarrow> timeline_input option \<times> 'c) \<Rightarrow> string \<Rightarrow> string \<Rightarrow> 'c flush_session \<Rightarrow> 'c flush_session"
where
  "synthesize_exit synthesize session created s =
     (case synthesize \<lparr>oe_session = session, oe_stream = Stdout, oe_message = [], oe_created = created\<rparr>
             (fs_context s) of
        (None, c) \<Rightarrow> s\<lparr>fs_context := c\<rparr>
      | (Some i, c) \<Rightarrow> s\<lparr>fs_context := c, fs_buffer := queue_timeline_event i (fs_buffer s)\<rparr>)"

definition flush_trailing_fragments ::
  "'c normalizer \<Rightarrow> (output_event \<Rightarrow> 'c \<Rightarrow> timeline_input option \<times> 'c) \<Rightarrow> (string \<Rightarrow> bool) \<Rightarrow> flush_env \<Rightarrow>
   (output_stream \<Rightarrow> nat \<Rightarrow> string) \<Rightarrow> string \<Rightarrow> string \<Rightarrow> bool \<Rightarrow> 'c flush_queue \<Rightarrow> flush_db \<Rightarrow>
   (argmax_error + dashboard_delta option) \<times> 'c flush_queue \<times> flush_db"
where
  "flush_trailing_fragments nrm synthesize parses env uuids session created gone q d =
     (case q session of None \<Rightarrow> (Inr None, q, d) | Some s0 \<Rightarrow>
      (let s = (if gone \<and> fs_provider s0 = Cursor then synthesize_exit synthesize session created s0 else s0);
           s = fold (flush_fragment nrm parses gone session created (fe_now env) uuids) (fs_streams s)
                 (s\<lparr>fs_streams := []\<rparr>)
       in case flush_session env session s d of
            (Inl e, s', d') \<Rightarrow> (Inl e, q(session \<mapsto> s'), d')
          | (Inr delta, s', d') \<Rightarrow> (Inr (some_delta delta), q(session \<mapsto> s'), d')))"

end
