(* ===== verification/Flush_Delivery.thy ===== *)
theory Flush_Delivery
  imports Flush_Queue
begin

text \<open>
  What the flush queue promises: between the provider's pipe and the normalizer no byte is lost,
  repeated or reordered, and between the queue and the database every piece of raw output is
  written exactly once, whatever transactions fail in between; a flush only adds approvals and never moves
  a session that has ended.
\<close>

section \<open>Cutting output into lines\<close>

lemma split_complete_Some:
  assumes "split_complete s = Some (completed, trailing)"
  shows "s = completed @ trailing \<and> completed \<noteq> [] \<and> line_break (last completed) \<and>
    (\<forall>c \<in> set trailing. \<not> line_break c)"
proof -
  let ?t = "takeWhile (\<lambda>c. \<not> line_break c) (rev s)" and ?d = "dropWhile (\<lambda>c. \<not> line_break c) (rev s)"
  have rs: "rev s = ?t @ ?d" by simp
  then have s: "s = rev ?d @ rev ?t" by (metis rev_append rev_rev_ident)
  have t: "trailing = rev ?t" and len: "length (rev ?t) \<noteq> length s"
    and c: "completed = take (length s - length (rev ?t)) s"
    using assms by (auto simp: split_complete_def Let_def split: if_splits)
  have "length (rev s) = length ?t + length ?d" by (metis takeWhile_dropWhile_id length_append)
  then have lens: "length s = length ?d + length ?t" by simp
  then have "completed = take (length ?d) s" unfolding c by simp
  then have c': "completed = rev ?d" by (subst (asm) s) simp
  have "?d \<noteq> []" using len lens by auto
  then have "completed \<noteq> []" "line_break (last completed)"
    using hd_dropWhile [of "\<lambda>c. \<not> line_break c" "rev s"] by (simp_all add: c' last_rev)
  then show ?thesis using s t c' set_takeWhileD [of _ "\<lambda>c. \<not> line_break c" "rev s"] by auto
qed

lemma split_complete_None: "split_complete s = None \<Longrightarrow> \<forall>c \<in> set s. \<not> line_break c"
proof -
  assume none: "split_complete s = None"
  let ?t = "takeWhile (\<lambda>c. \<not> line_break c) (rev s)"
  have "length ?t = length (rev s)" using none by (auto simp: split_complete_def Let_def split: if_splits)
  then have "?t = rev s" by (metis takeWhile_eq_take take_all order_refl)
  then have "\<forall>c \<in> set (rev s). \<not> line_break c" by (metis set_takeWhileD)
  then show ?thesis by simp
qed

section \<open>Streams\<close>

lemma stream_text_put [simp]:
  "stream_text (put_stream st t ss) st' = (if st' = st then t else stream_text ss st')"
proof -
  have "map_of (filter (\<lambda>e. fst e \<noteq> st) ss @ [(st, t)]) st' = (if st' = st then Some t else map_of ss st')"
    by (induction ss) auto
  then show ?thesis by (simp add: stream_text_def put_stream_def)
qed

lemma put_stream_keys:
  "distinct (map fst ss) \<Longrightarrow> distinct (map fst (put_stream st t ss))"
  "set (map fst (put_stream st t ss)) = insert st (set (map fst ss))"
  by (auto simp: put_stream_def distinct_map intro: inj_on_subset)

lemma stream_text_Cons: "stream_text ((st0, f) # ss) st = (if st = st0 then f else stream_text ss st)"
  by (simp add: stream_text_def)

lemma stream_text_absent: "st \<notin> fst ` set ss \<Longrightarrow> stream_text ss st = []"
  by (metis stream_text_def map_of_eq_None_iff option.simps(4))

lemma stream_text_append:
  "stream_text (xs @ ys) st = (if st \<in> fst ` set xs then stream_text xs st else stream_text ys st)"
  by (induction xs) (auto simp: stream_text_def)

definition fed_text :: "'c flush_session \<Rightarrow> output_stream \<Rightarrow> string" where
  "fed_text s st = concat (map oe_message (filter (\<lambda>e. oe_stream e = st) (fs_fed s)))"

definition queued_text :: "'c flush_session \<Rightarrow> output_stream \<Rightarrow> string" where
  "queued_text s st = concat (map rr_content (filter (\<lambda>r. rr_stream r = stream_str st) (fs_queued s)))"

lemma stream_str_inject [simp]: "stream_str a = stream_str b \<longleftrightarrow> a = b"
  by (cases a; cases b) simp_all

text \<open>What may happen to text between the pipe and the normalizer: nothing, but for a line break
  added after a fragment that had to be emitted, and blank fragments dropped.\<close>

inductive delivers :: "string \<Rightarrow> string \<Rightarrow> bool" where
  start: "delivers [] []"
| more: "delivers sent got \<Longrightarrow> delivers (sent @ m) (got @ m)"
| line: "delivers sent got \<Longrightarrow> delivers sent (got @ [newline])"
| blank: "delivers sent (got @ f) \<Longrightarrow> is_blank f \<Longrightarrow> delivers sent got"

section \<open>The buffers of a session\<close>

text \<open>\<open>rest\<close> are streams taken out of the session and not yet handled.\<close>

definition streams_left :: "(output_stream \<times> string) list \<Rightarrow> 'c flush_session \<Rightarrow> bool" where
  "streams_left rest s \<longleftrightarrow> distinct (map fst (rest @ fs_streams s)) \<and>
     (\<forall>st. \<forall>c \<in> set (stream_text (rest @ fs_streams s) st). \<not> line_break c) \<and>
     (\<forall>e \<in> set (fs_fed s). oe_message e \<noteq> [] \<and> line_break (last (oe_message e))) \<and>
     (\<forall>st. delivers (queued_text s st) (fed_text s st @ stream_text (rest @ fs_streams s) st))"

abbreviation streams_ok :: "'c flush_session \<Rightarrow> bool" where
  "streams_ok \<equiv> streams_left []"

lemmas streams_ok_def = streams_left_def

lemma feed_fields:
  assumes "feed nrm uuids now ev s = (r, s')"
  shows "fs_fed s' = fs_fed s @ [ev] \<and> fs_streams s' = fs_streams s \<and> fs_queued s' = fs_queued s \<and>
    fs_invocation s' = fs_invocation s \<and> fb_raws (fs_buffer s') = fb_raws (fs_buffer s)"
proof -
  have raws: "fb_raws (ingest_normalized_result i u n r' b) = fb_raws b" for i u n r' b
  proof -
    have ev: "fb_raws (fold (\<lambda>i. queue_timeline_event (f i)) xs b) = fb_raws b" for f xs b
      by (induction xs arbitrary: b) (auto simp: queue_timeline_event_def)
    have us: "fb_raws (fold queue_usage xs b) = fb_raws b" for xs b
      by (induction xs arbitrary: b) (auto simp: queue_usage_def)
    have ap: "fb_raws (fold (queue_approval_for_invocation i n) xs b) = fb_raws b" for xs b
      by (induction xs arbitrary: b) (auto simp: queue_approval_for_invocation_def)
    show ?thesis by (simp add: ingest_normalized_result_def Let_def ap us ev mark_permission_blocked_def)
  qed
  show ?thesis using assms by (auto simp: feed_def raws split: prod.splits)
qed

lemma snd_feed_fields:
  "fs_fed (snd (feed nrm uuids now ev s)) = fs_fed s @ [ev]" "fs_streams (snd (feed nrm uuids now ev s)) = fs_streams s"
  "fs_queued (snd (feed nrm uuids now ev s)) = fs_queued s"
  "fs_invocation (snd (feed nrm uuids now ev s)) = fs_invocation s"
  "fb_raws (fs_buffer (snd (feed nrm uuids now ev s))) = fb_raws (fs_buffer s)"
  using feed_fields [of nrm uuids now ev s] by (metis prod.collapse)+

lemma flush_session_fields:
  assumes "flush_session env x s d = (r, s', d')"
  shows "fs_fed s' = fs_fed s \<and> fs_streams s' = fs_streams s \<and> fs_queued s' = fs_queued s \<and>
    fs_invocation s' = fs_invocation s"
  using assms by (auto simp: flush_session_def split: prod.splits)

lemma streams_ok_cong:
  "fs_fed s' = fs_fed s \<Longrightarrow> fs_streams s' = fs_streams s \<Longrightarrow> fs_queued s' = fs_queued s \<Longrightarrow>
     streams_ok s' = streams_ok s"
  by (simp add: streams_ok_def queued_text_def fed_text_def)

text \<open>Output that does not complete a line, and output that does.\<close>

lemma streams_ok_raw:
  assumes ok: "streams_ok s" and s1: "s1 = queue_raw uuid ev s"
    and whole: "text = stream_text (fs_streams s1) (oe_stream ev) @ oe_message ev"
  shows "split_complete text = None \<Longrightarrow> streams_ok (s1\<lparr>fs_streams := put_stream (oe_stream ev) text (fs_streams s1)\<rparr>)"
    and "split_complete text = Some (completed, trailing) \<Longrightarrow>
      feed nrm uuids now (ev\<lparr>oe_message := completed\<rparr>)
        (s1\<lparr>fs_streams := put_stream (oe_stream ev) trailing (fs_streams s1)\<rparr>) = (r, s2) \<Longrightarrow> streams_ok s2"
proof -
  have same: "fs_streams s1 = fs_streams s" "fs_fed s1 = fs_fed s"
    and queued: "queued_text s1 st = queued_text s st @ (if st = oe_stream ev then oe_message ev else [])" for st
    by (auto simp: s1 queue_raw_def Let_def queued_text_def)
  have dist: "distinct (map fst (put_stream (oe_stream ev) t (fs_streams s)))" for t
    using ok by (simp add: streams_ok_def put_stream_keys)
  have old: "delivers (queued_text s st) (fed_text s st @ stream_text (fs_streams s) st)" for st
    using ok by (simp add: streams_ok_def)
  have new: "delivers (queued_text s1 st) (fed_text s st @ stream_text (fs_streams s) st @
      (if st = oe_stream ev then oe_message ev else []))" for st
    using delivers.more [OF old [of st], of "if st = oe_stream ev then oe_message ev else []"] by (simp add: queued)
  show "streams_ok (s1\<lparr>fs_streams := put_stream (oe_stream ev) text (fs_streams s1)\<rparr>)" if none: "split_complete text = None"
  proof -
    let ?s = "s1\<lparr>fs_streams := put_stream (oe_stream ev) text (fs_streams s1)\<rparr>"
    have fields: "queued_text ?s st = queued_text s1 st" "fed_text ?s st = fed_text s st"
      "stream_text (fs_streams ?s) st = (if st = oe_stream ev then text else stream_text (fs_streams s) st)" for st
      by (simp_all add: queued_text_def fed_text_def same)
    have "delivers (queued_text ?s st) (fed_text ?s st @ stream_text (fs_streams ?s) st)" for st
      using new [of st] unfolding fields by (cases "st = oe_stream ev") (simp_all add: whole same)
    moreover have "\<forall>c \<in> set (stream_text (fs_streams ?s) st). \<not> line_break c" for st
      using ok split_complete_None [OF none] unfolding fields by (simp add: streams_ok_def)
    ultimately show ?thesis using ok dist unfolding streams_ok_def by (simp add: same)
  qed
  show "streams_ok s2" if some: "split_complete text = Some (completed, trailing)"
    and f: "feed nrm uuids now (ev\<lparr>oe_message := completed\<rparr>)
        (s1\<lparr>fs_streams := put_stream (oe_stream ev) trailing (fs_streams s1)\<rparr>) = (r, s2)"
  proof -
    have cut: "text = completed @ trailing" "completed \<noteq> []" "line_break (last completed)"
      "\<forall>c \<in> set trailing. \<not> line_break c" using split_complete_Some [OF some] by blast+
    have s2: "fs_fed s2 = fs_fed s @ [ev\<lparr>oe_message := completed\<rparr>]"
      "fs_streams s2 = put_stream (oe_stream ev) trailing (fs_streams s)" "fs_queued s2 = fs_queued s1"
      using feed_fields [OF f] by (simp_all add: same)
    have q: "queued_text s2 st = queued_text s1 st" for st by (simp add: queued_text_def s2)
    have fed: "fed_text s2 st = fed_text s st @ (if st = oe_stream ev then completed else [])" for st
      by (simp add: fed_text_def s2)
    have text2: "stream_text (fs_streams s2) st = (if st = oe_stream ev then trailing else stream_text (fs_streams s) st)"
      for st by (simp add: s2)
    have "delivers (queued_text s2 st) (fed_text s2 st @ stream_text (fs_streams s2) st)" for st
      using new [of st] cut(1) unfolding q fed text2 by (cases "st = oe_stream ev") (simp_all add: whole same)
    moreover have "\<forall>c \<in> set (stream_text (fs_streams s2) st). \<not> line_break c" for st
      using ok cut(4) unfolding text2 by (simp add: streams_ok_def)
    moreover have "\<forall>e \<in> set (fs_fed s2). oe_message e \<noteq> [] \<and> line_break (last (oe_message e))"
      using ok cut(2,3) by (simp add: s2 streams_ok_def)
    ultimately show ?thesis using dist unfolding streams_ok_def by (simp add: s2)
  qed
qed

section \<open>Fragments without a line break\<close>

lemma put_stream_absent: "st \<notin> fst ` set ss \<Longrightarrow> put_stream st t ss = ss @ [(st, t)]"
proof -
  assume "st \<notin> fst ` set ss"
  then have "filter (\<lambda>e. fst e \<noteq> st) ss = ss" by (intro filter_True) auto
  then show ?thesis by (simp add: put_stream_def)
qed

lemma stream_text_snoc:
  "k \<notin> fst ` set ss \<Longrightarrow> stream_text (ss @ [(k, f)]) st = (if st = k then f else stream_text ss st)"
  by (auto simp: stream_text_append stream_text_Cons stream_text_absent)

lemma newline_breaks [simp]: "line_break newline"
  by (simp add: line_break_def newline_def)

lemma flush_fragment_left:
  assumes "streams_left ((st0, f) # rest) s"
  shows "streams_left rest (flush_fragment nrm parses gone x created now uuids (st0, f) s)"
proof -
  have fresh: "st0 \<notin> fst ` set (rest @ fs_streams s)" "distinct (map fst (rest @ fs_streams s))"
    using assms by (auto simp: streams_left_def)
  have old: "delivers (queued_text s st)
      (fed_text s st @ (if st = st0 then f else stream_text (rest @ fs_streams s) st))" for st
    using assms by (simp add: streams_left_def stream_text_Cons)
  have both: "\<forall>c \<in> set (if st = st0 then f else stream_text (rest @ fs_streams s) st). \<not> line_break c" for st
    using assms by (simp add: streams_left_def stream_text_Cons)
  have plain: "\<forall>c \<in> set (stream_text (rest @ fs_streams s) st). \<not> line_break c" for st
    using both [of st] stream_text_absent [OF fresh(1)] by (cases "st = st0") simp_all
  have shape: "\<forall>e \<in> set (fs_fed s). oe_message e \<noteq> [] \<and> line_break (last (oe_message e))"
    using assms by (simp add: streams_left_def)
  have f: "\<forall>c \<in> set f. \<not> line_break c" using both [of st0] by simp
  consider "is_blank f" | "\<not> is_blank f" "is_incomplete_json_line parses f \<and> \<not> gone"
    | "\<not> is_blank f" "\<not> (is_incomplete_json_line parses f \<and> \<not> gone)" by blast
  then show ?thesis
  proof cases
    case 1
    have "delivers (queued_text s st) (fed_text s st @ stream_text (rest @ fs_streams s) st)" for st
      using old [of st] stream_text_absent [OF fresh(1)] delivers.blank [OF _ 1]
      by (cases "st = st0") auto
    then show ?thesis using 1 fresh(2) plain shape by (simp add: streams_left_def flush_fragment_def)
  next
    case 2
    moreover have put: "put_stream st0 f (fs_streams s) = fs_streams s @ [(st0, f)]"
      by (rule put_stream_absent) (use fresh(1) in auto)
    ultimately have eq: "flush_fragment nrm parses gone x created now uuids (st0, f) s =
        s\<lparr>fs_streams := fs_streams s @ [(st0, f)]\<rparr>" (is "_ = ?s")
      by (simp add: flush_fragment_def put)
    have t: "stream_text (rest @ fs_streams ?s) st = (if st = st0 then f else stream_text (rest @ fs_streams s) st)" for st
      using stream_text_snoc [OF fresh(1), of f st] by simp
    have "queued_text ?s st = queued_text s st" "fed_text ?s st = fed_text s st" for st
      by (simp_all add: queued_text_def fed_text_def)
    then show ?thesis using old plain f shape fresh
      unfolding eq streams_left_def t by (auto simp del: append_assoc)
  next
    case 3
    obtain r s' where feed: "feed nrm (uuids st0) now \<lparr>oe_session = x, oe_stream = st0, oe_message = f @ [newline],
        oe_created = created\<rparr> s = (r, s')" by (cases "feed nrm (uuids st0) now \<lparr>oe_session = x, oe_stream = st0,
        oe_message = f @ [newline], oe_created = created\<rparr> s")
    have eq: "flush_fragment nrm parses gone x created now uuids (st0, f) s = s'"
      unfolding flush_fragment_def prod.case if_not_P [OF 3(1)] if_not_P [OF 3(2)] feed by simp
    note fields = feed_fields [OF feed]
    have fed: "fed_text s' st = fed_text s st @ (if st = st0 then f @ [newline] else [])" for st
      using fields by (simp add: fed_text_def)
    have "queued_text s' st = queued_text s st" for st using fields by (simp add: queued_text_def)
    then have "delivers (queued_text s' st) (fed_text s' st @ stream_text (rest @ fs_streams s) st)" for st
      using old [of st] stream_text_absent [OF fresh(1)] delivers.line [OF old [of st0]]
      by (cases "st = st0") (auto simp: fed)
    then show ?thesis using fields shape plain fresh(2) unfolding eq streams_left_def by auto
  qed
qed

lemma flush_fragments_left:
  "streams_left rest s \<Longrightarrow> streams_ok (fold (flush_fragment nrm parses gone x created now uuids) rest s)"
proof (induction rest arbitrary: s)
  case (Cons e rest)
  obtain st0 f where e: "e = (st0, f)" by (cases e)
  show ?case using Cons.IH [OF flush_fragment_left] Cons.prems by (simp add: e)
qed simp

lemma flush_fragment_keeps:
  "fs_queued (flush_fragment nrm parses gone x created now uuids e s) = fs_queued s \<and>
   fs_invocation (flush_fragment nrm parses gone x created now uuids e s) = fs_invocation s \<and>
   fb_raws (fs_buffer (flush_fragment nrm parses gone x created now uuids e s)) = fb_raws (fs_buffer s) \<and>
   (gone \<longrightarrow> fs_streams (flush_fragment nrm parses gone x created now uuids e s) = fs_streams s)"
  by (cases e) (simp add: flush_fragment_def snd_feed_fields)

lemma flush_fragments_keep:
  "fs_queued (fold (flush_fragment nrm parses gone x created now uuids) rest s) = fs_queued s \<and>
   fs_invocation (fold (flush_fragment nrm parses gone x created now uuids) rest s) = fs_invocation s \<and>
   fb_raws (fs_buffer (fold (flush_fragment nrm parses gone x created now uuids) rest s)) = fb_raws (fs_buffer s) \<and>
   (gone \<longrightarrow> fs_streams (fold (flush_fragment nrm parses gone x created now uuids) rest s) = fs_streams s)"
  by (induction rest arbitrary: s) (simp_all add: flush_fragment_keeps)

section \<open>What a flush writes\<close>

lemma transition_keeps:
  assumes "transition_session_attention ask now x st pa (d, delta) = Inr (d', delta')"
  shows "raw_outputs d' = raw_outputs d \<and> approvals (tables d') = approvals (tables d) \<and>
    events (tables d') = events (tables d)"
proof (cases "d' = d")
  case False
  then obtain s inp row t where u: "update_session_state ask now x inp (tables d) = Inr (row, t)"
    and d': "tables d' = t" "raw_outputs d' = raw_outputs d"
    using assms unfolding transition_session_attention_def Let_def
    by (auto simp: update_workspace_state_def Let_def split: sum.splits if_splits prod.splits)
  then show ?thesis using update_session_state_other [OF u] by simp
qed simp

lemma flush_raws:
  assumes "fold_res flush_raw rs (d, delta) = Inr (d', delta')"
  shows "raw_outputs d' = raw_outputs d @ rs \<and> tables d' = tables d \<and> d_approvals delta' = d_approvals delta"
  using assms
proof (induction rs arbitrary: d delta)
  case (Cons r rs)
  obtain d1 delta1 where one: "flush_raw r (d, delta) = Inr (d1, delta1)"
    and rest: "fold_res flush_raw rs (d1, delta1) = Inr (d', delta')"
    using Cons.prems by (auto simp: and_then_Inr_iff)
  have "raw_outputs d1 = raw_outputs d @ [r] \<and> tables d1 = tables d \<and> d_approvals delta1 = d_approvals delta"
    using one by (auto simp: flush_raw_def persist_raw_output_def and_then_Inr_iff split: if_splits)
  then show ?case using Cons.IH [OF rest] by simp
qed simp

lemma record_event_keeps:
  "record_event env i (d, delta) = Inr (d', delta') \<Longrightarrow>
     raw_outputs d' = raw_outputs d \<and> approvals (tables d') = approvals (tables d) \<and>
     sessions (tables d') = sessions (tables d) \<and> d_approvals delta' = d_approvals delta"
  by (auto simp: record_event_def persist_timeline_event_def persist_event_def and_then_Inr_iff
      split: sum.splits if_splits)

lemma flush_event_keeps:
  assumes "flush_event env x p ((d, delta), seen) = Inr ((d', delta'), seen')"
  shows "raw_outputs d' = raw_outputs d \<and> approvals (tables d') = approvals (tables d) \<and>
    sessions (tables d') = sessions (tables d) \<and> d_approvals delta' = d_approvals delta"
proof (cases "(d', delta') = (d, delta)")
  case False
  then have "record_event env (snd p) (d, delta) = Inr (d', delta')"
    using assms by (auto simp: flush_event_def and_then_Inr_iff Let_def split: option.splits if_splits)
  then show ?thesis by (rule record_event_keeps)
qed simp

lemma flush_usage_keeps:
  "flush_usage env x u (d, delta) = Inr (d', delta') \<Longrightarrow>
     raw_outputs d' = raw_outputs d \<and> tables d' = tables d \<and> delta' = delta"
  by (auto simp: flush_usage_def and_then_Inr_iff)

lemma flush_approval_keeps:
  assumes "flush_approval env a (d, delta) = Inr (d', delta')"
  shows "raw_outputs d' = raw_outputs d"
proof -
  have "raw_outputs d' = raw_outputs d"
    if "transition_session_attention (fe_ask env) (fe_now env) (app_session a) Waiting True (d\<lparr>tables := t\<rparr>, delta) =
      Inr (d', delta1)" for t delta1
    using transition_keeps [OF that] by simp
  then show ?thesis using assms
    by (auto simp: flush_approval_def and_then_Inr_iff split: option.splits if_splits)
qed

text \<open>A successful transaction, cut into its parts.\<close>

lemma flush_transaction_Inr:
  assumes "flush_transaction env x b d = Inr (d', delta')"
  obtains d1 delta1 d2 delta2 seen d3 delta3 d4 delta4 where
    "fold_res flush_raw (fb_raws b) (d, empty_delta) = Inr (d1, delta1)"
    "fold_res (flush_event env x) (sort_key fst (fb_events b)) ((d1, delta1), {}) = Inr ((d2, delta2), seen)"
    "fold_res (flush_usage env x) (fb_usages b) (d2, delta2) = Inr (d3, delta3)"
    "fold_res (flush_approval env) (fb_approvals b) (d3, delta3) = Inr (d4, delta4)"
    "(if fb_permission_blocked b
      then transition_session_attention (fe_ask env) (fe_now env) x Blocked False (d4, delta4)
      else Inr (d4, delta4)) = Inr (d', delta')"
  using assms unfolding flush_transaction_def
  by (cases "fe_begin env"; cases "fe_commit env") (auto simp: and_then_Inr_iff split_paired_Ex)

lemma flush_transaction_raws:
  assumes "flush_transaction env x b d = Inr (d', delta')"
  shows "raw_outputs d' = raw_outputs d @ fb_raws b"
proof -
  from assms obtain d1 delta1 d2 delta2 seen d3 delta3 d4 delta4 where
    r: "fold_res flush_raw (fb_raws b) (d, empty_delta) = Inr (d1, delta1)"
    and e: "fold_res (flush_event env x) (sort_key fst (fb_events b)) ((d1, delta1), {}) = Inr ((d2, delta2), seen)"
    and u: "fold_res (flush_usage env x) (fb_usages b) (d2, delta2) = Inr (d3, delta3)"
    and a: "fold_res (flush_approval env) (fb_approvals b) (d3, delta3) = Inr (d4, delta4)"
    and p: "(if fb_permission_blocked b
      then transition_session_attention (fe_ask env) (fe_now env) x Blocked False (d4, delta4)
      else Inr (d4, delta4)) = Inr (d', delta')"
    by (rule flush_transaction_Inr)
  have "raw_outputs d1 = raw_outputs d @ fb_raws b" using flush_raws [OF r] by simp
  moreover have "raw_outputs (fst (fst ((d2, delta2), seen))) = raw_outputs d1"
    by (rule fold_res_keeps [OF e]) (auto dest: flush_event_keeps simp: split_paired_all)
  moreover have "raw_outputs (fst (d3, delta3)) = raw_outputs d2"
    by (rule fold_res_keeps [OF u]) (auto dest: flush_usage_keeps)
  moreover have "raw_outputs (fst (d4, delta4)) = raw_outputs d3"
    by (rule fold_res_keeps [OF a]) (auto dest: flush_approval_keeps)
  moreover have "raw_outputs d' = raw_outputs d4" using p transition_keeps by (auto split: if_splits)
  ultimately show ?thesis by simp
qed

lemma flush_session_buffer_cases:
  assumes "flush_session_buffer env x b d = (r, b', d')"
  obtains "d' = d" "fb_raws b' = fb_raws b"
  | delta where "flush_transaction env x b d = Inr (d', delta)" "r = Inr delta" "fb_raws b' = []"
  using assms by (auto simp: flush_session_buffer_def split: if_splits sum.splits prod.splits)

lemma flush_session_raws:
  assumes "flush_session env x s d = (r, s', d')"
  shows "\<exists>w. raw_outputs d' = raw_outputs d @ w \<and> w @ fb_raws (fs_buffer s') = fb_raws (fs_buffer s)"
proof -
  obtain b' where b: "flush_session_buffer env x (fs_buffer s) d = (r, b', d')" and s': "fs_buffer s' = b'"
    using assms by (auto simp: flush_session_def split: prod.splits)
  from b show ?thesis by (rule flush_session_buffer_cases) (auto simp: s' dest: flush_transaction_raws)
qed

section \<open>One operation on one session\<close>

definition session_step :: "string \<Rightarrow> 'c flush_session \<times> flush_db \<Rightarrow> 'c flush_session \<times> flush_db \<Rightarrow> bool" where
  "session_step y a b \<longleftrightarrow>
     fs_invocation (fst b) = fs_invocation (fst a) \<and> (streams_ok (fst a) \<longrightarrow> streams_ok (fst b)) \<and>
     (\<exists>w new. raw_outputs (snd b) = raw_outputs (snd a) @ w \<and>
        w @ fb_raws (fs_buffer (fst b)) = fb_raws (fs_buffer (fst a)) @ new \<and>
        fs_queued (fst b) = fs_queued (fst a) @ new \<and> (\<forall>r \<in> set new. rr_session r = y))"

lemma session_step_flush:
  assumes "session_step y (s0, d) (s, d)" and "flush_session env y s d = (r, s', d')"
  shows "session_step y (s0, d) (s', d')"
proof -
  obtain w where "raw_outputs d' = raw_outputs d @ w" "w @ fb_raws (fs_buffer s') = fb_raws (fs_buffer s)"
    using flush_session_raws [OF assms(2)] by blast
  then show ?thesis
    using assms(1) flush_session_fields [OF assms(2)] streams_ok_cong [of s' s] by (auto simp: session_step_def)
qed

lemma output_step:
  assumes "queue_output_event nrm env raw_uuid uuids invocation ev q d = (r, q', d')"
  shows "(q', d') = (q, d) \<or>
    (\<exists>s s'. q (oe_session ev) = Some s \<and> q' = q(oe_session ev \<mapsto> s') \<and>
       session_step (oe_session ev) (s, d) (s', d'))"
proof (cases "q (oe_session ev)")
  case None
  then show ?thesis using assms by (simp add: queue_output_event_def)
next
  case (Some s0)
  show ?thesis
  proof (cases "fs_invocation s0 = invocation")
    case False
    then show ?thesis using assms Some by (simp add: queue_output_event_def)
  next
    case True
    define s where "s = queue_raw raw_uuid ev s0"
    define t where "t = stream_text (fs_streams s) (oe_stream ev) @ oe_message ev"
    let ?raw = "\<lparr>rr_id = raw_uuid, rr_session = oe_session ev, rr_stream = stream_str (oe_stream ev),
        rr_content = oe_message ev, rr_created = oe_created ev\<rparr>"
    have raw: "fb_raws (fs_buffer s) = fb_raws (fs_buffer s0) @ [?raw]" "fs_queued s = fs_queued s0 @ [?raw]"
      "fs_invocation s = fs_invocation s0" "rr_session ?raw = oe_session ev"
      by (simp_all add: s_def queue_raw_def queue_raw_output_def Let_def)
    show ?thesis
    proof (cases "split_complete t")
      case none: None
      let ?s = "s\<lparr>fs_streams := put_stream (oe_stream ev) t (fs_streams s)\<rparr>"
      have "session_step (oe_session ev) (s0, d) (?s, d)"
        using raw streams_ok_raw(1) [OF _ s_def t_def none] by (auto simp: session_step_def)
      moreover have "q' = q(oe_session ev \<mapsto> ?s)" "d' = d"
        using assms Some True none by (auto simp: queue_output_event_def Let_def s_def [symmetric] t_def [symmetric])
      ultimately show ?thesis using Some by blast
    next
      case (Some cut)
      obtain completed trailing where cut: "split_complete t = Some (completed, trailing)" using Some by (cases cut) auto
      obtain res s1 where fed: "feed nrm uuids (fe_now env) (ev\<lparr>oe_message := completed\<rparr>)
          (s\<lparr>fs_streams := put_stream (oe_stream ev) trailing (fs_streams s)\<rparr>) = (res, s1)" (is "?fed = _")
        by (cases ?fed)
      have one: "session_step (oe_session ev) (s0, d) (s1, d)"
        using raw feed_fields [OF fed] streams_ok_raw(2) [OF _ s_def t_def cut fed] by (auto simp: session_step_def)
      obtain o2 s2 where out: "(if requires_immediate_flush res then flush_session env (oe_session ev) s1 d
          else (Inr empty_delta, s1, d)) = (o2, s2, d')" and q': "q' = q(oe_session ev \<mapsto> s2)"
        using assms \<open>q (oe_session ev) = Some s0\<close> True cut fed
        by (auto simp: queue_output_event_def Let_def s_def [symmetric] t_def [symmetric] split: prod.splits sum.splits)
      have "session_step (oe_session ev) (s0, d) (s2, d')"
        using out one session_step_flush [OF one] by (auto split: if_splits)
      then show ?thesis using \<open>q (oe_session ev) = Some s0\<close> q' by blast
    qed
  qed
qed

lemma batch_step:
  assumes "flush_pending_output env y q d = (r, q', d')"
  shows "(q', d') = (q, d) \<or> (\<exists>s s'. q y = Some s \<and> q' = q(y \<mapsto> s') \<and> session_step y (s, d) (s', d'))"
proof (cases "q y")
  case (Some s)
  obtain o2 s' d2 where f: "flush_session env y s d = (o2, s', d2)" by (cases "flush_session env y s d")
  have "session_step y (s, d) (s', d2)" by (rule session_step_flush [OF _ f]) (simp add: session_step_def)
  then show ?thesis using assms Some f by (auto simp: flush_pending_output_def split: sum.splits)
qed (use assms in \<open>simp add: flush_pending_output_def\<close>)

lemma trailing_step:
  assumes "flush_trailing_fragments nrm syn parses env uuids y created gone q d = (r, q', d')"
  shows "(q', d') = (q, d) \<or> (\<exists>s s'. q y = Some s \<and> q' = q(y \<mapsto> s') \<and> session_step y (s, d) (s', d') \<and>
    (gone \<longrightarrow> fs_streams s' = []))"
proof (cases "q y")
  case (Some s0)
  define s where "s = (if gone \<and> fs_provider s0 = Cursor then synthesize_exit syn y created s0 else s0)"
  have s: "fs_streams s = fs_streams s0" "fs_fed s = fs_fed s0" "fs_queued s = fs_queued s0"
    "fs_invocation s = fs_invocation s0" "fb_raws (fs_buffer s) = fb_raws (fs_buffer s0)"
    by (simp_all add: s_def synthesize_exit_def queue_timeline_event_def split: prod.splits option.splits)
  define s1 where "s1 = fold (flush_fragment nrm parses gone y created (fe_now env) uuids) (fs_streams s) (s\<lparr>fs_streams := []\<rparr>)"
  have "streams_ok s1" if "streams_ok s0"
  proof -
    have "streams_left (fs_streams s) (s\<lparr>fs_streams := []\<rparr>)"
      using that by (simp add: streams_left_def s fed_text_def queued_text_def)
    then show ?thesis unfolding s1_def by (rule flush_fragments_left)
  qed
  moreover have "fs_queued s1 = fs_queued s0 \<and> fs_invocation s1 = fs_invocation s0 \<and>
      fb_raws (fs_buffer s1) = fb_raws (fs_buffer s0) \<and> (gone \<longrightarrow> fs_streams s1 = [])"
    unfolding s1_def using flush_fragments_keep [of nrm parses gone y created "fe_now env" uuids "fs_streams s" "s\<lparr>fs_streams := []\<rparr>"]
    by (simp add: s)
  ultimately have one: "session_step y (s0, d) (s1, d)" and gone: "gone \<longrightarrow> fs_streams s1 = []"
    by (auto simp: session_step_def)
  obtain o2 s2 d2 where f: "flush_session env y s1 d = (o2, s2, d2)" by (cases "flush_session env y s1 d")
  have "session_step y (s0, d) (s2, d2)" by (rule session_step_flush [OF one f])
  moreover have "q' = q(y \<mapsto> s2)" "d' = d2"
    using assms Some f by (auto simp: flush_trailing_fragments_def Let_def s_def [symmetric] s1_def [symmetric] split: sum.splits)
  ultimately show ?thesis using Some gone flush_session_fields [OF f] by auto
qed (use assms in \<open>simp add: flush_trailing_fragments_def\<close>)

section \<open>A turn and everything around it\<close>

text \<open>
  The life of one turn of session \<open>x\<close>: output, batch and trailing flushes of every session, with any
  outcome of their transactions; other sessions start and end turns, and other writers of the
  database leave its raw output alone. The normalizer, the synthesis of Cursor's exit and the
  JSON parser are fixed.
\<close>

inductive flush_step ::
  "'c normalizer \<Rightarrow> (output_event \<Rightarrow> 'c \<Rightarrow> timeline_input option \<times> 'c) \<Rightarrow> (string \<Rightarrow> bool) \<Rightarrow> string \<Rightarrow>
   'c flush_queue \<times> flush_db \<Rightarrow> 'c flush_queue \<times> flush_db \<Rightarrow> bool"
  for nrm syn parses x
where
  outputs: "flush_step nrm syn parses x (q, d) (snd (queue_output_event nrm env uuid uuids invocation ev q d))"
| batches: "flush_step nrm syn parses x (q, d) (snd (flush_pending_output env y q d))"
| trails: "flush_step nrm syn parses x (q, d)
    (snd (flush_trailing_fragments nrm syn parses env suuids y created gone q d))"
| starts: "y \<noteq> x \<Longrightarrow> flush_step nrm syn parses x (q, d) (initialize_session y p invocation c q, d)"
| ends: "y \<noteq> x \<Longrightarrow> flush_step nrm syn parses x (q, d) (delete_session y q, d)"
| elsewhere: "raw_outputs d' = raw_outputs d \<Longrightarrow> flush_step nrm syn parses x (q, d) (q, d')"

definition own_rows :: "'c flush_queue \<Rightarrow> bool" where
  "own_rows q \<longleftrightarrow> (\<forall>y s. q y = Some s \<longrightarrow> (\<forall>r \<in> set (fb_raws (fs_buffer s)). rr_session r = y))"

definition rows_for :: "string \<Rightarrow> raw_row list \<Rightarrow> raw_row list" where
  "rows_for x rs = filter (\<lambda>r. rr_session r = x) rs"

definition turn_inv :: "string \<Rightarrow> string \<Rightarrow> raw_row list \<Rightarrow> 'c flush_queue \<times> flush_db \<Rightarrow> bool" where
  "turn_inv x invocation before w \<longleftrightarrow> own_rows (fst w) \<and>
     (\<exists>s. fst w x = Some s \<and> fs_invocation s = invocation \<and> streams_ok s \<and>
        rows_for x (raw_outputs (snd w)) @ fb_raws (fs_buffer s) = before @ fs_queued s)"

lemma rows_for_own: "\<forall>r \<in> set rs. rr_session r = y \<Longrightarrow> rows_for x rs = (if x = y then rs else [])"
  by (induction rs) (auto simp: rows_for_def)

lemma turn_inv_step:
  assumes inv: "turn_inv x i before (q, d)" and y: "q y = Some s" and step: "session_step y (s, d) (s', d')"
  shows "turn_inv x i before (q(y \<mapsto> s'), d')"
proof -
  obtain w new where w: "raw_outputs d' = raw_outputs d @ w" "w @ fb_raws (fs_buffer s') = fb_raws (fs_buffer s) @ new"
    "fs_queued s' = fs_queued s @ new" "\<forall>r \<in> set new. rr_session r = y"
    and keep: "fs_invocation s' = fs_invocation s" "streams_ok s \<Longrightarrow> streams_ok s'"
    using step by (auto simp: session_step_def)
  have own: "\<forall>r \<in> set (fb_raws (fs_buffer s)). rr_session r = y" using inv y by (auto simp: turn_inv_def own_rows_def)
  have "set w \<union> set (fb_raws (fs_buffer s')) = set (fb_raws (fs_buffer s)) \<union> set new"
    using arg_cong [OF w(2), of set] by simp
  then have mine: "\<forall>r \<in> set w. rr_session r = y" "\<forall>r \<in> set (fb_raws (fs_buffer s')). rr_session r = y"
    using own w(4) by blast+
  have ows: "own_rows (q(y \<mapsto> s'))" using inv mine(2) by (auto simp: turn_inv_def own_rows_def)
  have rows: "rows_for x (raw_outputs d') = rows_for x (raw_outputs d) @ (if x = y then w else [])"
    using rows_for_own [OF mine(1), of x] by (simp add: w(1) rows_for_def)
  show ?thesis
  proof (cases "x = y")
    case True
    then show ?thesis using inv y keep ows rows w(2,3) by (auto simp: turn_inv_def)
  next
    case False
    then show ?thesis using inv ows rows by (auto simp: turn_inv_def)
  qed
qed

interpretation turns: invariant_system "flush_step nrm syn parses x" "turn_inv x invocation before"
  for nrm syn parses x invocation before
proof unfold_locales
  fix v w assume inv: "turn_inv x invocation before v" and step: "flush_step nrm syn parses x v w"
  from step show "turn_inv x invocation before w"
  proof cases
    case (outputs q d env uuid uuids i ev)
    then show ?thesis using inv turn_inv_step output_step [of nrm env uuid uuids i ev q d]
      by (metis prod.collapse)
  next
    case (batches q d env y)
    then show ?thesis using inv turn_inv_step batch_step [of env y q d] by (metis prod.collapse)
  next
    case (trails q d env suuids y created gone)
    then show ?thesis using inv turn_inv_step trailing_step [of nrm syn parses env suuids y created gone q d]
      by (metis prod.collapse)
  next
    case (starts y q d p i c)
    then show ?thesis using inv by (auto simp: turn_inv_def initialize_session_def own_rows_def new_buffer_def)
  next
    case (ends y q d)
    then show ?thesis using inv by (auto simp: turn_inv_def delete_session_def own_rows_def)
  next
    case (elsewhere d' d q)
    then show ?thesis using inv by (simp add: turn_inv_def)
  qed
qed

lemma start_turn:
  "own_rows q \<Longrightarrow> turn_inv x i (rows_for x (raw_outputs d)) (initialize_session x p i c q, d)"
  by (auto simp: turn_inv_def initialize_session_def own_rows_def new_buffer_def streams_left_def
      queued_text_def fed_text_def stream_text_def intro: delivers.start)


text \<open>Between a provider's stream and its normalizer no byte is lost, repeated or reordered:
  what the normalizer was handed and what waits for a line break are the text received, but for
  line breaks added after fragments that were emitted and blank fragments that were dropped.
  Every chunk handed over ends in a line break, and none waits.\<close>

lemma output_reaches_normalizer:
  assumes "own_rows q0"
    and "(flush_step nrm syn parses x)\<^sup>*\<^sup>* (initialize_session x p invocation c q0, d0) (q, d)"
  shows "\<exists>s. q x = Some s \<and>
    (\<forall>st. delivers (queued_text s st) (fed_text s st @ stream_text (fs_streams s) st)) \<and>
    (\<forall>st. \<forall>ch \<in> set (stream_text (fs_streams s) st). \<not> line_break ch) \<and>
    (\<forall>e \<in> set (fs_fed s). oe_message e \<noteq> [] \<and> line_break (last (oe_message e)))"
  using turns.runs [OF assms(2) start_turn [OF assms(1)]] by (auto simp: turn_inv_def streams_left_def)

section \<open>A flush adds approvals and leaves ended sessions alone\<close>

definition ended_stays :: "store \<Rightarrow> store \<Rightarrow> bool" where
  "ended_stays t t' \<longleftrightarrow> (\<forall>i s. find_session t i = Inr s \<and> \<not> is_live (sess_state s) \<longrightarrow> find_session t' i = Inr s)"

lemma ended_stays_refl [simp]: "ended_stays t t"
  by (simp add: ended_stays_def)

lemma ended_stays_trans: "ended_stays t u \<Longrightarrow> ended_stays u v \<Longrightarrow> ended_stays t v"
  by (auto simp: ended_stays_def)

lemma ended_stays_sessions: "sessions t' = sessions t \<Longrightarrow> ended_stays t t'"
  by (simp add: ended_stays_def find_session_def)

lemma transition_ended:
  assumes "transition_session_attention ask now x st pa (d, delta) = Inr (d', delta')"
  shows "ended_stays (tables d) (tables d') \<and> d_approvals delta' = d_approvals delta"
proof (cases "d' = d")
  case True
  then show ?thesis using assms unfolding transition_session_attention_def Let_def
    by (auto split: sum.splits if_splits prod.splits)
next
  case False
  then obtain s inp row t where f: "find_session (tables d) x = Inr s" "is_live (sess_state s)"
    and u: "update_session_state ask now x inp (tables d) = Inr (row, t)"
    and d': "tables d' = t" "d_approvals delta' = d_approvals delta"
    using assms unfolding transition_session_attention_def Let_def
    by (auto simp: update_workspace_state_def Let_def split: sum.splits if_splits prod.splits)
  then show ?thesis using find_session_write [OF u] unfolding ended_stays_def by (metis sum.inject(2))
qed

lemma flush_approval_adds:
  assumes "flush_approval env a (d, delta) = Inr (d', delta')" and "pending a"
  shows "\<exists>new. approvals (tables d') = approvals (tables d) @ new \<and> d_approvals delta' = d_approvals delta @ new \<and>
    set new \<subseteq> {a} \<and> (new \<noteq> [] \<longrightarrow> existing_approval (tables d) a = None) \<and> ended_stays (tables d) (tables d')"
proof (cases "existing_approval (tables d) a")
  case (Some r)
  then show ?thesis using assms by (auto simp: flush_approval_def)
next
  case None
  obtain row t where p: "persist_approval a (tables d) = Inr (row, t)"
    using assms None by (auto simp: flush_approval_def and_then_Inr_iff)
  have row: "row = a" "approvals t = approvals (tables d) @ [a]" "sessions t = sessions (tables d)"
    using persist_approval_Inr [OF p] p by (auto simp: persist_approval_def Let_def split: if_splits sum.splits)
  obtain d1 delta1 where tr: "transition_session_attention (fe_ask env) (fe_now env) (app_session a) Waiting True
      (d\<lparr>tables := t\<rparr>, delta) = Inr (d1, delta1)"
    and out: "d' = d1" "delta' = delta1\<lparr>d_approvals := d_approvals delta1 @ [row]\<rparr>"
    using assms None p row(1) by (auto simp: flush_approval_def and_then_Inr_iff pending_def)
  have "ended_stays (tables d) t" using row(3) by (rule ended_stays_sessions)
  then have "ended_stays (tables d) (tables d')" using transition_ended [OF tr] ended_stays_trans by (auto simp: out)
  then show ?thesis using transition_keeps [OF tr] transition_ended [OF tr] row(1,2) None by (auto simp: out)
qed

lemma flush_approvals_add:
  assumes "fold_res (flush_approval env) as (d, delta) = Inr (d', delta')" and "\<forall>a \<in> set as. pending a"
  shows "\<exists>new. approvals (tables d') = approvals (tables d) @ new \<and> d_approvals delta' = d_approvals delta @ new \<and>
    set new \<subseteq> set as \<and> (\<forall>a \<in> set new. existing_approval (tables d) a = None) \<and> ended_stays (tables d) (tables d')"
  using assms
proof (induction as arbitrary: d delta)
  case (Cons a as)
  obtain d1 delta1 where one: "flush_approval env a (d, delta) = Inr (d1, delta1)"
    and rest: "fold_res (flush_approval env) as (d1, delta1) = Inr (d', delta')"
    using Cons.prems(1) by (auto simp: and_then_Inr_iff)
  obtain n1 where n1: "approvals (tables d1) = approvals (tables d) @ n1" "d_approvals delta1 = d_approvals delta @ n1"
    "set n1 \<subseteq> {a}" "n1 \<noteq> [] \<longrightarrow> existing_approval (tables d) a = None" "ended_stays (tables d) (tables d1)"
    using flush_approval_adds [OF one] Cons.prems(2) by auto
  obtain n2 where n2: "approvals (tables d') = approvals (tables d1) @ n2" "d_approvals delta' = d_approvals delta1 @ n2"
    "set n2 \<subseteq> set as" "\<forall>a \<in> set n2. existing_approval (tables d1) a = None" "ended_stays (tables d1) (tables d')"
    using Cons.IH [OF rest] Cons.prems(2) by auto
  have older: "existing_approval (tables d) b = None" if "existing_approval (tables d1) b = None" for b
    using that n1(1)
    by (auto simp: existing_approval_def find_by_provider_request_def find_pending_approval_def find_None_all
        split: option.splits)
  show ?case
    by (rule exI [where x = "n1 @ n2"])
      (use n1 n2 older ended_stays_trans [OF n1(5) n2(5)] in \<open>auto; blast\<close>)
qed simp

text \<open>A flush that succeeds only adds approvals: the rows it inserts are pending requests of the
  batch that were not on record, exactly the ones it reports, and every row that was there is
  as it was. A session that is not live keeps its state, whatever the batch asks for.\<close>

lemma flush_only_adds:
  assumes "flush_session_buffer env x b d = (Inr delta, b', d')" and "\<forall>a \<in> set (fb_approvals b). pending a"
  shows "approvals (tables d') = approvals (tables d) @ d_approvals delta \<and>
    set (d_approvals delta) \<subseteq> set (fb_approvals b) \<and>
    (\<forall>a \<in> set (d_approvals delta). existing_approval (tables d) a = None) \<and>
    (\<forall>i s. find_session (tables d) i = Inr s \<longrightarrow> \<not> is_live (sess_state s) \<longrightarrow> find_session (tables d') i = Inr s)"
proof (cases "buffer_is_empty b")
  case True
  then show ?thesis using assms(1) by (auto simp: flush_session_buffer_def empty_delta_def)
next
  case False
  then have "flush_transaction env x b d = Inr (d', delta)"
    using assms(1) by (auto simp: flush_session_buffer_def split: sum.splits prod.splits)
  then obtain d1 delta1 d2 delta2 seen d3 delta3 d4 delta4 where
    r: "fold_res flush_raw (fb_raws b) (d, empty_delta) = Inr (d1, delta1)"
    and e: "fold_res (flush_event env x) (sort_key fst (fb_events b)) ((d1, delta1), {}) = Inr ((d2, delta2), seen)"
    and u: "fold_res (flush_usage env x) (fb_usages b) (d2, delta2) = Inr (d3, delta3)"
    and a: "fold_res (flush_approval env) (fb_approvals b) (d3, delta3) = Inr (d4, delta4)"
    and p: "(if fb_permission_blocked b
      then transition_session_attention (fe_ask env) (fe_now env) x Blocked False (d4, delta4)
      else Inr (d4, delta4)) = Inr (d', delta)"
    by (rule flush_transaction_Inr)
  have r1: "tables d1 = tables d" "d_approvals delta1 = []"
    using flush_raws [OF r] by (simp_all add: empty_delta_def)
  have e0: "approvals (tables (fst (fst ((d2, delta2), seen)))) = approvals (tables d1) \<and>
      sessions (tables (fst (fst ((d2, delta2), seen)))) = sessions (tables d1) \<and>
      d_approvals (snd (fst ((d2, delta2), seen))) = d_approvals delta1"
    by (rule fold_res_keeps [OF e]) (auto dest: flush_event_keeps simp: split_paired_all)
  then have e1: "approvals (tables d2) = approvals (tables d1)" "sessions (tables d2) = sessions (tables d1)"
    "d_approvals delta2 = d_approvals delta1" by simp_all
  have u0: "tables (fst (d3, delta3)) = tables d2 \<and> snd (d3, delta3) = delta2"
    by (rule fold_res_keeps [OF u]) (auto dest: flush_usage_keeps)
  then have u1: "tables d3 = tables d2" "delta3 = delta2" by simp_all
  obtain new where n: "approvals (tables d4) = approvals (tables d3) @ new" "d_approvals delta4 = d_approvals delta3 @ new"
    "set new \<subseteq> set (fb_approvals b)" "\<forall>a \<in> set new. existing_approval (tables d3) a = None"
    "ended_stays (tables d3) (tables d4)"
    using flush_approvals_add [OF a assms(2)] by auto
  have p1: "approvals (tables d') = approvals (tables d4)" "d_approvals delta = d_approvals delta4"
    "ended_stays (tables d4) (tables d')"
    using p transition_keeps transition_ended by (auto split: if_splits)
  have same: "existing_approval (tables d3) a = existing_approval (tables d) a" for a
    by (simp add: existing_approval_def find_by_provider_request_def find_pending_approval_def u1 e1 r1 split: option.splits)
  have "ended_stays (tables d) (tables d3)" by (rule ended_stays_sessions) (simp add: u1 e1 r1)
  then have "ended_stays (tables d) (tables d')" using ended_stays_trans n(5) p1(3) by blast
  then show ?thesis using n p1 r1 e1 u1 same by (auto simp: ended_stays_def)
qed

section \<open>Witnesses\<close>

definition sample_env :: flush_env where
  "sample_env = \<lparr>fe_ask = (\<lambda>_ _. False), fe_enrich = (\<lambda>_ i. Inr (ti_payload i)), fe_now = ''2026'',
     fe_begin = None, fe_commit = None\<rparr>"

definition sample_normalizer :: "unit normalizer" where
  "sample_normalizer p ev c =
     (\<lparr>nr_events = [], nr_usages = [], nr_approvals = [], nr_permission_blocked = False, nr_conversation_id = None\<rparr>, ())"

definition sample_flush_db :: flush_db where
  "sample_flush_db = \<lparr>tables = \<lparr>sessions = [], events = [], approvals = [], branches = []\<rparr>,
     accounts = \<lparr>usage_rows = [], usage_sessions = []\<rparr>, raw_outputs = [], workspaces = []\<rparr>"

definition sample_output :: output_event where
  "sample_output = \<lparr>oe_session = ''s'', oe_stream = Stdout, oe_message = ''done'' @ [newline, CHR ''x''], oe_created = ''2026''\<rparr>"

definition turn_started :: "unit flush_queue \<times> flush_db" where
  "turn_started = (initialize_session ''s'' Codex ''i'' () Map.empty, sample_flush_db)"

definition turn_output :: "unit flush_queue \<times> flush_db" where
  "turn_output = snd (queue_output_event sample_normalizer sample_env ''u'' (\<lambda>n. ''a'') ''i'' sample_output
     (fst turn_started) (snd turn_started))"

lemma turn_output_reachable:
  "(flush_step sample_normalizer (\<lambda>_ c. (None, c)) (\<lambda>_. False) ''s'')\<^sup>*\<^sup>*
     (initialize_session ''s'' Codex ''i'' () Map.empty, sample_flush_db) (fst turn_output, snd turn_output)"
proof -
  have "flush_step sample_normalizer (\<lambda>_ c. (None, c)) (\<lambda>_. False) ''s'' turn_started turn_output"
    unfolding turn_output_def using flush_step.outputs by (metis prod.collapse)
  then show ?thesis unfolding turn_started_def by (simp add: r_into_rtranclp)
qed

lemma no_rows: "own_rows Map.empty"
  by (simp add: own_rows_def)

lemma turn_output_fed: "\<exists>s. fst turn_output ''s'' = Some s \<and> fed_text s Stdout = ''done'' @ [newline] \<and>
    stream_text (fs_streams s) Stdout = ''x'' \<and> length (fs_queued s) = 1"
  by (simp add: turn_output_def turn_started_def queue_output_event_def initialize_session_def sample_output_def
      queue_raw_def split_complete_def line_break_def newline_def stream_text_def put_stream_def feed_def
      sample_normalizer_def requires_immediate_flush_def fed_text_def Let_def)


lemma output_reaches_normalizer_witness:
  "\<exists>s. fst turn_output ''s'' = Some s \<and> delivers (queued_text s Stdout) (''done'' @ [newline] @ ''x'')"
proof -
  obtain s where "fst turn_output ''s'' = Some s" "fed_text s Stdout = ''done'' @ [newline]"
    "stream_text (fs_streams s) Stdout = ''x''" using turn_output_fed by blast
  moreover obtain s' where "fst turn_output ''s'' = Some s'"
    "delivers (queued_text s' Stdout) (fed_text s' Stdout @ stream_text (fs_streams s') Stdout)"
    using output_reaches_normalizer [OF no_rows turn_output_reachable] by blast
  ultimately show ?thesis by simp
qed

definition blocked_buffer :: flush_buffer where
  "blocked_buffer = new_buffer\<lparr>fb_permission_blocked := True\<rparr>"

definition ended_db :: flush_db where
  "ended_db = sample_flush_db\<lparr>tables := \<lparr>sessions = [\<lparr>sess_id = ''s'', sess_workspace = ''w'', sess_state = Complete,
     sess_attention = ReviewReady, sess_completed = Some ''2026'', sess_last_activity = ''2026'',
     sess_attention_changed = ''2026'', sess_branch_active = None\<rparr>], events = [], approvals = [], branches = []\<rparr>\<rparr>"

lemma flush_only_adds_witness:
  "\<exists>delta b' d' s. flush_session_buffer sample_env ''s'' blocked_buffer ended_db = (Inr delta, b', d') \<and>
     find_session (tables d') ''s'' = Inr s \<and> sess_state s = Complete"
proof -
  obtain delta b' d' where run: "flush_session_buffer sample_env ''s'' blocked_buffer ended_db = (Inr delta, b', d')"
    by (simp add: flush_session_buffer_def flush_transaction_def blocked_buffer_def new_buffer_def buffer_is_empty_def
        sample_env_def transition_session_attention_def ended_db_def find_session_def is_live_def)
  have "\<forall>a \<in> set (fb_approvals blocked_buffer). pending a" by (simp add: blocked_buffer_def new_buffer_def)
  note only = flush_only_adds [OF run this]
  have "\<exists>s. find_session (tables ended_db) ''s'' = Inr s \<and> sess_state s = Complete"
    by (simp add: ended_db_def find_session_def)
  then show ?thesis using only run by (auto simp: is_live_def)
qed

end
