(* ===== verification/Inbox.thy ===== *)
theory Inbox
  imports Store Rust_Text "HOL-Library.List_Lexorder" "HOL-Library.Char_ord"
begin

text \<open>
  The inbox of a session (\<^verbatim>\<open>src-tauri/src/persistence/session_messages.rs\<close>): the messages other
  sessions' agents addressed to it and the completion notices of the sessions it launched, as
  rows in insertion order. A row is handed over once, by the turn that carries it or by the agent
  that reads its inbox in the middle of a turn. The hand-over log is not modelled.
\<close>

section \<open>The rows\<close>

record inbox_row =
  im_id :: string
  im_from :: "string option"
  im_to :: string
  im_body :: string
  im_kind :: string
  im_created :: string
  im_delivered :: "string option"
  im_wake_due :: "string option"

record new_message =
  nm_id :: string
  nm_from :: "string option"
  nm_to :: string
  nm_body :: string
  nm_kind :: string

type_synonym inbox = "inbox_row list"

definition undelivered :: "inbox_row \<Rightarrow> bool" where
  "undelivered r \<longleftrightarrow> im_delivered r = None"

section \<open>Bodies are capped\<close>

definition MAX_MESSAGE_BODY_CHARS :: nat where
  "MAX_MESSAGE_BODY_CHARS = 16 * 1024"

definition TRUNCATION_MARKER :: string where
  "TRUNCATION_MARKER = [newline, newline] @ ''(truncated)''"

definition cap_message_body :: "string \<Rightarrow> string" where
  "cap_message_body body =
     (if char_count body \<le> MAX_MESSAGE_BODY_CHARS then body
      else take_chars MAX_MESSAGE_BODY_CHARS body @ TRUNCATION_MARKER)"

section \<open>Statements\<close>

text \<open>\<^verbatim>\<open>INSERT OR IGNORE\<close>: an id that is there already is left as it is. \<open>known\<close> holds the session ids
  \<^verbatim>\<open>from_session_id\<close> may refer to.\<close>

definition insert_session_message ::
  "string set \<Rightarrow> new_message \<Rightarrow> string \<Rightarrow> inbox \<Rightarrow> argmax_error + bool \<times> inbox"
where
  "insert_session_message known m now rows =
     (if nm_id m \<in> im_id ` set rows then Inr (False, rows)
      else if (case nm_from m of None \<Rightarrow> False | Some s \<Rightarrow> s \<notin> known)
      then Inl (service ''SQLITE_ERROR'' ''FOREIGN KEY constraint failed'')
      else Inr (True, rows @ [\<lparr>im_id = nm_id m, im_from = nm_from m, im_to = nm_to m, im_body = cap_message_body (nm_body m),
                               im_kind = nm_kind m, im_created = now, im_delivered = None, im_wake_due = None\<rparr>]))"

definition mark_wake_due :: "string \<Rightarrow> string \<Rightarrow> inbox \<Rightarrow> inbox" where
  "mark_wake_due i now = map (\<lambda>r. if im_id r = i then r\<lparr>im_wake_due := Some now\<rparr> else r)"

definition clear_wake_due :: "string \<Rightarrow> inbox \<Rightarrow> inbox" where
  "clear_wake_due i = map (\<lambda>r. if im_id r = i then r\<lparr>im_wake_due := None\<rparr> else r)"

text \<open>\<open>journal\<close> holds the inbox ids that have a copy in the follow-up journal.\<close>

definition list_due_wakes :: "string set \<Rightarrow> inbox \<Rightarrow> inbox" where
  "list_due_wakes journal rows =
     sort_key im_created (filter (\<lambda>r. im_wake_due r \<noteq> None \<and> undelivered r \<and> im_id r \<notin> journal) rows)"

definition mark_message_delivered :: "string \<Rightarrow> string \<Rightarrow> inbox \<Rightarrow> inbox" where
  "mark_message_delivered i now =
     map (\<lambda>r. if im_id r = i \<and> undelivered r then r\<lparr>im_delivered := Some now\<rparr> else r)"

definition count_undelivered_messages :: "string \<Rightarrow> inbox \<Rightarrow> nat" where
  "count_undelivered_messages to rows = length (filter (\<lambda>r. im_to r = to \<and> undelivered r) rows)"

definition is_message_delivered :: "string \<Rightarrow> inbox \<Rightarrow> bool" where
  "is_message_delivered i rows \<longleftrightarrow> list_ex (\<lambda>r. im_id r = i \<and> \<not> undelivered r) rows"

definition session_message_exists :: "string \<Rightarrow> inbox \<Rightarrow> bool" where
  "session_message_exists i rows \<longleftrightarrow> list_ex (\<lambda>r. im_id r = i) rows"

definition delete_undelivered_session_message :: "string \<Rightarrow> inbox \<Rightarrow> inbox" where
  "delete_undelivered_session_message i = filter (\<lambda>r. \<not> (im_id r = i \<and> undelivered r))"

definition list_undelivered :: "string \<Rightarrow> string option \<Rightarrow> nat \<Rightarrow> inbox \<Rightarrow> inbox" where
  "list_undelivered to kind limit rows =
     take limit (sort_key im_created
       (filter (\<lambda>r. im_to r = to \<and> (case kind of None \<Rightarrow> True | Some k \<Rightarrow> im_kind r = k) \<and> undelivered r) rows))"

definition list_undelivered_messages :: "string \<Rightarrow> nat \<Rightarrow> inbox \<Rightarrow> inbox" where
  "list_undelivered_messages to limit = list_undelivered to None limit"

definition list_undelivered_messages_of_kind :: "string \<Rightarrow> string \<Rightarrow> nat \<Rightarrow> inbox \<Rightarrow> inbox" where
  "list_undelivered_messages_of_kind to kind limit = list_undelivered to (Some kind) limit"

text \<open>The loop over the candidates: it stops at the first body that does not fit any more, but
  never before the first message.\<close>

fun fitting :: "nat \<Rightarrow> nat \<Rightarrow> inbox \<Rightarrow> inbox \<Rightarrow> inbox" where
  "fitting max_bytes spent messages [] = messages"
| "fitting max_bytes spent messages (m # candidates) =
     (if messages \<noteq> [] \<and> spent + length (im_body m) > max_bytes then messages
      else fitting max_bytes (spent + length (im_body m)) (messages @ [m]) candidates)"

definition take_undelivered_messages ::
  "string \<Rightarrow> nat \<Rightarrow> nat \<Rightarrow> string \<Rightarrow> inbox \<Rightarrow> inbox \<times> inbox"
where
  "take_undelivered_messages to limit max_bytes now rows =
     (let messages = fitting max_bytes 0 [] (list_undelivered_messages to limit rows)
      in (map (\<lambda>m. m\<lparr>im_delivered := Some now\<rparr>) messages,
          map (\<lambda>r. if im_id r \<in> im_id ` set messages then r\<lparr>im_delivered := Some now\<rparr> else r) rows))"

section \<open>What a reading of the inbox returns\<close>

text \<open>A stored body is what was sent, or its first characters with the marker.\<close>

lemma cap_message_body_prefix:
  "cap_message_body b = b \<and> char_count b \<le> MAX_MESSAGE_BODY_CHARS \<or>
   (\<exists>kept rest. b = kept @ rest \<and> char_count kept \<le> MAX_MESSAGE_BODY_CHARS \<and> cap_message_body b = kept @ TRUNCATION_MARKER)"
  using take_chars_prefix [of b MAX_MESSAGE_BODY_CHARS] take_chars_count [of MAX_MESSAGE_BODY_CHARS b]
  by (auto simp: cap_message_body_def)

lemma fitting_prefix:
  "\<exists>taken rest. candidates = taken @ rest \<and> fitting b n ms candidates = ms @ taken \<and>
     (taken = [] \<or> (ms = [] \<and> length taken = 1) \<or> n + (\<Sum>m\<leftarrow>taken. length (im_body m)) \<le> b) \<and>
     (ms = [] \<longrightarrow> candidates \<noteq> [] \<longrightarrow> taken \<noteq> []) \<and>
     (case rest of [] \<Rightarrow> True | m # _ \<Rightarrow> n + (\<Sum>m\<leftarrow>taken. length (im_body m)) + length (im_body m) > b)"
proof (induction candidates arbitrary: n ms)
  case (Cons m cs)
  show ?case
  proof (cases "ms \<noteq> [] \<and> n + length (im_body m) > b")
    case True
    then show ?thesis by (intro exI [where x = "[]"] exI [where x = "m # cs"]) auto
  next
    case False
    obtain taken rest where ih: "cs = taken @ rest"
      "fitting b (n + length (im_body m)) (ms @ [m]) cs = (ms @ [m]) @ taken"
      "taken = [] \<or> n + length (im_body m) + (\<Sum>m\<leftarrow>taken. length (im_body m)) \<le> b"
      "case rest of [] \<Rightarrow> True | x # _ \<Rightarrow> n + length (im_body m) + (\<Sum>m\<leftarrow>taken. length (im_body m)) + length (im_body x) > b"
      using Cons.IH [of "n + length (im_body m)" "ms @ [m]"] by auto
    show ?thesis
      using False ih by (intro exI [where x = "m # taken"] exI [where x = rest]) (auto simp: add.assoc split: list.splits)
  qed
qed simp

definition body_bytes :: "inbox \<Rightarrow> nat" where
  "body_bytes ms = (\<Sum>m\<leftarrow>ms. length (im_body m))"

lemma fitting_start:
  "\<exists>rest. candidates = fitting b 0 [] candidates @ rest \<and>
     (fitting b 0 [] candidates = [] \<or> length (fitting b 0 [] candidates) = 1 \<or> body_bytes (fitting b 0 [] candidates) \<le> b) \<and>
     (candidates \<noteq> [] \<longrightarrow> fitting b 0 [] candidates \<noteq> []) \<and>
     (rest \<noteq> [] \<longrightarrow> body_bytes (fitting b 0 [] candidates) + length (im_body (hd rest)) > b)"
proof -
  have "\<exists>taken rest. candidates = taken @ rest \<and> fitting b 0 [] candidates = taken \<and>
      (taken = [] \<or> length taken = 1 \<or> (\<Sum>m\<leftarrow>taken. length (im_body m)) \<le> b) \<and> (candidates \<noteq> [] \<longrightarrow> taken \<noteq> []) \<and>
      (case rest of [] \<Rightarrow> True | m # _ \<Rightarrow> 0 + (\<Sum>m\<leftarrow>taken. length (im_body m)) + length (im_body m) > b)"
    using fitting_prefix [of candidates b 0 "[]"] by simp
  then obtain taken rest where *: "candidates = taken @ rest" "fitting b 0 [] candidates = taken"
    "taken = [] \<or> length taken = 1 \<or> (\<Sum>m\<leftarrow>taken. length (im_body m)) \<le> b" "candidates \<noteq> [] \<longrightarrow> taken \<noteq> []"
    "case rest of [] \<Rightarrow> True | m # _ \<Rightarrow> 0 + (\<Sum>m\<leftarrow>taken. length (im_body m)) + length (im_body m) > b"
    by blast
  show ?thesis unfolding *(2) body_bytes_def
  proof (intro exI [where x = rest] conjI)
    show "rest \<noteq> [] \<longrightarrow> b < (\<Sum>m\<leftarrow>taken. length (im_body m)) + length (im_body (hd rest))"
      using *(5) by (cases rest) simp_all
  qed (fact *(1) *(3) *(4))+
qed

lemma list_undelivered_mem:
  "r \<in> set (list_undelivered to kind limit rows) \<Longrightarrow> r \<in> set rows \<and> im_to r = to \<and> undelivered r"
  by (auto simp: list_undelivered_def dest: in_set_takeD)

lemma taken_mem:
  assumes "m \<in> set (fitting b 0 [] (list_undelivered_messages to limit rows))"
  shows "m \<in> set rows \<and> im_to m = to \<and> undelivered m"
proof -
  obtain rest where "list_undelivered_messages to limit rows = fitting b 0 [] (list_undelivered_messages to limit rows) @ rest"
    using fitting_start by blast
  then have "m \<in> set (list_undelivered_messages to limit rows)" using assms by (metis Un_iff set_append)
  then show ?thesis by (simp add: list_undelivered_messages_def list_undelivered_mem)
qed

text \<open>Everything that waits for a session, in the order it is handed over.\<close>

definition waiting :: "string \<Rightarrow> inbox \<Rightarrow> inbox" where
  "waiting to rows = sort_key im_created (filter (\<lambda>r. im_to r = to \<and> undelivered r) rows)"

lemma list_undelivered_waiting: "list_undelivered_messages to limit rows = take limit (waiting to rows)"
  by (simp add: list_undelivered_messages_def list_undelivered_def waiting_def)

lemma waiting_distinct: "distinct (map im_id rows) \<Longrightarrow> distinct (map im_id (waiting to rows))"
  by (auto simp: waiting_def distinct_map inj_on_def)

lemma waiting_mem: "r \<in> set (waiting to rows) \<longleftrightarrow> r \<in> set rows \<and> im_to r = to \<and> undelivered r"
  by (auto simp: waiting_def)

lemma delivered_rows:
  "undelivered (r\<lparr>im_delivered := Some t\<rparr>) = False" "im_id (r\<lparr>im_delivered := d\<rparr>) = im_id r"
  "im_to (r\<lparr>im_delivered := d\<rparr>) = im_to r"
  by (simp_all add: undelivered_def)

lemma waiting_after_take:
  "waiting to (map (\<lambda>r. if im_id r \<in> ids then r\<lparr>im_delivered := Some now\<rparr> else r) rows) =
   filter (\<lambda>r. im_id r \<notin> ids) (waiting to rows)"
proof -
  have "filter (\<lambda>r. im_to r = to \<and> undelivered r) (map (\<lambda>r. if im_id r \<in> ids then r\<lparr>im_delivered := Some now\<rparr> else r) rows) =
      filter (\<lambda>r. im_id r \<notin> ids) (filter (\<lambda>r. im_to r = to \<and> undelivered r) rows)"
    by (induction rows) (auto simp: delivered_rows)
  then show ?thesis by (simp add: waiting_def filter_sort)
qed

lemma take_result:
  assumes "take_undelivered_messages to limit b now rows = (handed, rows')"
  obtains taken where "handed = map (\<lambda>m. m\<lparr>im_delivered := Some now\<rparr>) taken"
    "rows' = map (\<lambda>r. if im_id r \<in> im_id ` set taken then r\<lparr>im_delivered := Some now\<rparr> else r) rows"
    "taken = fitting b 0 [] (list_undelivered_messages to limit rows)"
    "\<And>m. m \<in> set taken \<Longrightarrow> m \<in> set rows \<and> im_to m = to \<and> undelivered m"
  using assms taken_mem that unfolding take_undelivered_messages_def Let_def by (metis (no_types, lifting) prod.inject)

text \<open>Reading the inbox hands over the oldest waiting messages in order, as many as the limit and
  the byte budget allow and at least one; they are marked with the time, no other row is
  touched, and what did not fit is what waits next.\<close>

lemma inbox_read_takes_what_fits:
  assumes "distinct (map im_id rows)"
    and "take_undelivered_messages to limit b now rows = (handed, rows')"
  shows "\<exists>taken. handed = map (\<lambda>m. m\<lparr>im_delivered := Some now\<rparr>) taken \<and>
    waiting to rows = taken @ waiting to rows' \<and>
    length taken \<le> limit \<and> (length taken \<le> 1 \<or> body_bytes taken \<le> b) \<and>
    (limit > 0 \<and> waiting to rows \<noteq> [] \<longrightarrow> taken \<noteq> []) \<and>
    (length taken < limit \<and> waiting to rows' \<noteq> [] \<longrightarrow>
       body_bytes taken + length (im_body (hd (waiting to rows'))) > b) \<and>
    (\<forall>r \<in> set rows. r \<in> set taken \<or> r \<in> set rows')"
proof -
  obtain taken where t: "handed = map (\<lambda>m. m\<lparr>im_delivered := Some now\<rparr>) taken"
    "rows' = map (\<lambda>r. if im_id r \<in> im_id ` set taken then r\<lparr>im_delivered := Some now\<rparr> else r) rows"
    "taken = fitting b 0 [] (list_undelivered_messages to limit rows)"
    and mem: "\<And>m. m \<in> set taken \<Longrightarrow> m \<in> set rows \<and> im_to m = to \<and> undelivered m"
    using take_result [OF assms(2)] by blast
  obtain rest where split: "take limit (waiting to rows) = taken @ rest"
    and fits: "taken = [] \<or> length taken = 1 \<or> body_bytes taken \<le> b"
    and some: "take limit (waiting to rows) \<noteq> [] \<longrightarrow> taken \<noteq> []"
    and full: "rest \<noteq> [] \<longrightarrow> body_bytes taken + length (im_body (hd rest)) > b"
    using fitting_start [of "take limit (waiting to rows)" b] unfolding t(3) list_undelivered_waiting by blast
  define later where "later = rest @ drop limit (waiting to rows)"
  have all: "waiting to rows = taken @ later"
    using append_take_drop_id [of limit "waiting to rows"] by (simp add: split later_def)
  have "distinct (map im_id (taken @ later))" using waiting_distinct [OF assms(1)] all by metis
  then have later: "waiting to rows' = later" unfolding t(2) waiting_after_take all by (auto simp: filter_id_conv filter_empty_conv)
  have len: "length taken \<le> limit" using split by (metis length_append length_take le_add1 min.bounded_iff)
  have next_one: "length taken < limit \<and> later \<noteq> [] \<longrightarrow> body_bytes taken + length (im_body (hd later)) > b"
  proof (cases "rest = []")
    case True
    then have "take limit (waiting to rows) = taken" using split by simp
    then have "length taken < limit \<longrightarrow> later = []"
      using True by (auto simp: later_def)
    then show ?thesis by blast
  next
    case False
    then show ?thesis using full by (simp add: later_def)
  qed
  have kept: "r \<in> set taken \<or> r \<in> set rows'" if "r \<in> set rows" for r
  proof (cases "im_id r \<in> im_id ` set taken")
    case True
    then obtain m where "m \<in> set taken" "im_id m = im_id r" by auto
    then have "m = r" using mem [of m] assms(1) that by (auto simp: distinct_map inj_on_def)
    then show ?thesis using \<open>m \<in> set taken\<close> by simp
  next
    case False
    then show ?thesis using that unfolding t(2) by (auto simp: image_iff)
  qed
  show ?thesis
  proof (intro exI [where x = taken] conjI)
    show "length taken \<le> 1 \<or> body_bytes taken \<le> b" using fits by (cases taken) auto
    show "0 < limit \<and> waiting to rows \<noteq> [] \<longrightarrow> taken \<noteq> []" using some by simp
    show "waiting to rows = taken @ waiting to rows'" using all later by simp
    show "length taken < limit \<and> waiting to rows' \<noteq> [] \<longrightarrow> b < body_bytes taken + length (im_body (hd (waiting to rows')))"
      using next_one later by simp
    show "\<forall>r \<in> set rows. r \<in> set taken \<or> r \<in> set rows'" using kept by blast
  qed (fact t(1) len)+
qed

section \<open>Each message is handed over once\<close>

datatype inbox_op =
    Send "string set" new_message string
  | Take string nat nat string
  | Turn string string
  | Retract string
  | WakeDue string string
  | WakeDone string

fun inbox_step :: "inbox_op \<Rightarrow> inbox \<Rightarrow> inbox \<times> inbox" where
  "inbox_step (Send known m now) rows =
     ([], case insert_session_message known m now rows of Inl _ \<Rightarrow> rows | Inr (_, rows') \<Rightarrow> rows')"
| "inbox_step (Take to limit b now) rows = take_undelivered_messages to limit b now rows"
| "inbox_step (Turn i now) rows = ([], mark_message_delivered i now rows)"
| "inbox_step (Retract i) rows = ([], delete_undelivered_session_message i rows)"
| "inbox_step (WakeDue i now) rows = ([], mark_wake_due i now rows)"
| "inbox_step (WakeDone i) rows = ([], clear_wake_due i rows)"

text \<open>The messages that the readings returned, and the table at the end.\<close>

fun inbox_run :: "inbox_op list \<Rightarrow> inbox \<Rightarrow> inbox \<times> inbox" where
  "inbox_run [] rows = ([], rows)"
| "inbox_run (op # ops) rows =
     (let (handed, rows1) = inbox_step op rows; (later, rows2) = inbox_run ops rows1 in (handed @ later, rows2))"

definition handed_at :: "inbox \<Rightarrow> string \<Rightarrow> string option" where
  "handed_at rows i = (case find (\<lambda>r. im_id r = i) rows of None \<Rightarrow> None | Some r \<Rightarrow> im_delivered r)"

lemma handed_at_mem: "distinct (map im_id rows) \<Longrightarrow> handed_at rows i = Some t \<longleftrightarrow> (\<exists>r \<in> set rows. im_id r = i \<and> im_delivered r = Some t)"
proof (induction rows)
  case (Cons a rows)
  show ?case
  proof (cases "im_id a = i")
    case True
    then have "\<forall>r \<in> set rows. im_id r \<noteq> i" using Cons.prems by (metis distinct.simps(2) image_eqI list.set_map list.simps(9))
    then show ?thesis using True by (auto simp: handed_at_def)
  next
    case False
    then show ?thesis using Cons.IH Cons.prems by (simp add: handed_at_def)
  qed
qed (simp add: handed_at_def)

lemma updated_row:
  "r \<in> set rows \<Longrightarrow> im_id (g r) = i \<Longrightarrow> im_delivered (g r) = Some t \<Longrightarrow>
   \<exists>r' \<in> set (map g rows). im_id r' = i \<and> im_delivered r' = Some t"
  by auto

lemma updated_ids: "(\<And>r. im_id (g r) = im_id r) \<Longrightarrow> map im_id (map g rows) = map im_id rows"
  by simp

lemma inbox_step_ids:
  assumes "inbox_step op rows = (handed, rows')" and "distinct (map im_id rows)"
  shows "distinct (map im_id rows')"
proof (cases op)
  case (Send known m now)
  then show ?thesis using assms by (auto simp: insert_session_message_def split: sum.splits if_splits)
next
  case (Take to limit b now)
  then have "map im_id rows' = map im_id rows"
    using assms by (auto simp: take_undelivered_messages_def Let_def)
  then show ?thesis using assms by metis
next
  case (Retract i)
  then show ?thesis using assms by (auto simp: delete_undelivered_session_message_def distinct_map inj_on_def)
next
  case (Turn i now)
  then have "map im_id rows' = map im_id rows"
    using assms(1) by (auto simp: mark_message_delivered_def intro: updated_ids)
  then show ?thesis using assms(2) by metis
next
  case (WakeDue i now)
  then have "map im_id rows' = map im_id rows"
    using assms(1) by (auto simp: mark_wake_due_def intro: updated_ids)
  then show ?thesis using assms(2) by metis
next
  case (WakeDone i)
  then have "map im_id rows' = map im_id rows"
    using assms(1) by (auto simp: clear_wake_due_def intro: updated_ids)
  then show ?thesis using assms(2) by metis
qed

lemma inbox_step_keeps_handed:
  assumes "inbox_step op rows = (handed, rows')" and "distinct (map im_id rows)" and "handed_at rows i = Some t"
  shows "handed_at rows' i = Some t"
proof -
  obtain r where r: "r \<in> set rows" "im_id r = i" "im_delivered r = Some t"
    using assms(2,3) by (auto simp: handed_at_mem)
  have same: "a = r" if "a \<in> set rows" "im_id a = im_id r" for a
    using assms(2) r(1) that by (auto simp: distinct_map inj_on_def)
  have "\<exists>r' \<in> set rows'. im_id r' = i \<and> im_delivered r' = Some t"
  proof (cases op)
    case (Send known m now)
    then show ?thesis using assms(1) r by (auto simp: insert_session_message_def split: sum.splits if_splits)
  next
    case (Take to limit b now)
    then obtain taken where t: "rows' = map (\<lambda>r. if im_id r \<in> im_id ` set taken then r\<lparr>im_delivered := Some now\<rparr> else r) rows"
      "\<And>m. m \<in> set taken \<Longrightarrow> m \<in> set rows \<and> im_to m = to \<and> undelivered m"
      using take_result [of to limit b now rows handed rows'] assms(1) by auto
    have "im_id r \<notin> im_id ` set taken" using t(2) same r(3) by (force simp: undelivered_def)
    then show ?thesis using r unfolding t(1) by force
  next
    case (Turn i' now)
    then show ?thesis using assms(1) r by (auto simp: mark_message_delivered_def undelivered_def image_iff intro!: bexI [OF _ r(1)])
  next
    case (Retract i')
    then show ?thesis using assms(1) r by (auto simp: delete_undelivered_session_message_def undelivered_def)
  next
    case (WakeDue j now)
    then have rows': "rows' = map (\<lambda>r. if im_id r = j then r\<lparr>im_wake_due := Some now\<rparr> else r) rows"
      using assms(1) by (simp add: mark_wake_due_def)
    show ?thesis unfolding rows' by (rule updated_row [OF r(1)]) (use r in auto)
  next
    case (WakeDone j)
    then have rows': "rows' = map (\<lambda>r. if im_id r = j then r\<lparr>im_wake_due := None\<rparr> else r) rows"
      using assms(1) by (simp add: clear_wake_due_def)
    show ?thesis unfolding rows' by (rule updated_row [OF r(1)]) (use r in auto)
  qed
  then show ?thesis using inbox_step_ids [OF assms(1,2)] by (simp add: handed_at_mem)
qed

lemma inbox_step_hands:
  assumes "inbox_step op rows = (handed, rows')" and "distinct (map im_id rows)"
  shows "distinct (map im_id handed) \<and> (\<forall>m \<in> set handed. handed_at rows (im_id m) = None \<and> handed_at rows' (im_id m) \<noteq> None)"
proof (cases op)
  case (Take to limit b now)
  then obtain taken where t: "handed = map (\<lambda>m. m\<lparr>im_delivered := Some now\<rparr>) taken"
    "rows' = map (\<lambda>r. if im_id r \<in> im_id ` set taken then r\<lparr>im_delivered := Some now\<rparr> else r) rows"
    "taken = fitting b 0 [] (list_undelivered_messages to limit rows)"
    and mem: "\<And>m. m \<in> set taken \<Longrightarrow> m \<in> set rows \<and> im_to m = to \<and> undelivered m"
    using take_result [of to limit b now rows handed rows'] assms(1) by auto
  obtain rest where "take limit (waiting to rows) = taken @ rest"
    using fitting_start [of "take limit (waiting to rows)" b] unfolding t(3) list_undelivered_waiting by blast
  then have "waiting to rows = taken @ rest @ drop limit (waiting to rows)" by (metis append.assoc append_take_drop_id)
  then have "distinct (map im_id taken)" using waiting_distinct [OF assms(2), of to] by (metis distinct_append map_append)
  then have d: "distinct (map im_id handed)" by (simp add: t(1) comp_def)
  have "handed_at rows (im_id m) = None \<and> handed_at rows' (im_id m) \<noteq> None" if "m \<in> set taken" for m
  proof
    have u: "r = m" if "r \<in> set rows" "im_id r = im_id m" for r
      using assms(2) mem [OF \<open>m \<in> set taken\<close>] that by (auto simp: distinct_map inj_on_def)
    show "handed_at rows (im_id m) = None"
    proof (rule ccontr)
      assume "handed_at rows (im_id m) \<noteq> None"
      then obtain r where r: "r \<in> set rows" "im_id r = im_id m" "im_delivered r \<noteq> None"
        using handed_at_mem [OF assms(2)] by blast
      then show False using u [OF r(1,2)] mem [OF that] by (simp add: undelivered_def)
    qed
    have "m\<lparr>im_delivered := Some now\<rparr> \<in> set rows'" using mem [OF that] that unfolding t(2) by force
    then have "handed_at rows' (im_id m) = Some now"
      using inbox_step_ids [OF assms] by (subst handed_at_mem) (auto intro!: bexI [of _ "m\<lparr>im_delivered := Some now\<rparr>"])
    then show "handed_at rows' (im_id m) \<noteq> None" by simp
  qed
  then show ?thesis using d by (auto simp: t(1))
qed (use assms in auto)

lemma inbox_run_hands:
  assumes "inbox_run ops rows = (handed, rows')" and "distinct (map im_id rows)"
  shows "distinct (map im_id handed) \<and> (\<forall>m \<in> set handed. handed_at rows (im_id m) = None) \<and>
    (\<forall>i t. handed_at rows i = Some t \<longrightarrow> handed_at rows' i = Some t) \<and> (\<forall>m \<in> set handed. handed_at rows' (im_id m) \<noteq> None)"
  using assms
proof (induction ops arbitrary: rows handed)
  case (Cons op ops)
  obtain h1 rows1 where 1: "inbox_step op rows = (h1, rows1)" by (cases "inbox_step op rows")
  obtain h2 rows2 where 2: "inbox_run ops rows1 = (h2, rows2)" by (cases "inbox_run ops rows1")
  have eq: "handed = h1 @ h2" "rows' = rows2" using Cons.prems(1) 1 2 by auto
  note ids = inbox_step_ids [OF 1 Cons.prems(2)]
  note ih = Cons.IH [OF 2 [folded eq(2)] ids]
  note keep = inbox_step_keeps_handed [OF 1 Cons.prems(2)]
  note now = inbox_step_hands [OF 1 Cons.prems(2)]
  have fresh: "handed_at rows (im_id m) = None" if "m \<in> set h2" for m
    using ih that keep by (cases "handed_at rows (im_id m)") auto
  have "im_id ` set h1 \<inter> im_id ` set h2 = {}"
  proof (rule ccontr)
    assume "\<not> ?thesis"
    then obtain a m where "a \<in> set h1" "m \<in> set h2" "im_id a = im_id m" by fastforce
    then show False using ih now by (metis option.distinct(1))
  qed
  moreover have "handed_at rows' (im_id m) \<noteq> None" if "m \<in> set h1" for m
    using now ih that by (metis not_None_eq)
  ultimately show ?case unfolding eq(1) using ih now fresh keep by auto
qed simp


definition sample_note :: "string \<Rightarrow> string \<Rightarrow> inbox_row" where
  "sample_note i body = \<lparr>im_id = i, im_from = None, im_to = ''s'', im_body = body, im_kind = ''message'', im_created = ''2026'',
     im_delivered = None, im_wake_due = None\<rparr>"

lemma inbox_read_takes_what_fits_witness:
  "\<exists>handed rows'. take_undelivered_messages ''s'' 10 3 ''t'' [sample_note ''a'' ''xy'', sample_note ''b'' ''xy''] = (handed, rows') \<and>
     map im_id handed = [''a''] \<and> map im_id (waiting ''s'' rows') = [''b'']"
proof -
  let ?rows = "[sample_note ''a'' ''xy'', sample_note ''b'' ''xy'']"
  obtain handed rows' where run: "take_undelivered_messages ''s'' 10 3 ''t'' ?rows = (handed, rows')" by fastforce
  have ids: "distinct (map im_id ?rows)" by (simp add: sample_note_def)
  obtain taken where "handed = map (\<lambda>m. m\<lparr>im_delivered := Some ''t''\<rparr>) taken" "waiting ''s'' ?rows = taken @ waiting ''s'' rows'"
    using inbox_read_takes_what_fits [OF ids run] by blast
  moreover have "map im_id handed = [''a'']" using run
    by (auto simp: take_undelivered_messages_def list_undelivered_messages_def list_undelivered_def sample_note_def undelivered_def)
  moreover have "waiting ''s'' ?rows = ?rows" by (simp add: waiting_def sample_note_def undelivered_def)
  ultimately show ?thesis using run by (auto simp: sample_note_def)
qed


end
