(* ===== verification/Pending_Messages.thy ===== *)
theory Pending_Messages
  imports Inbox Routing_Decide
begin

text \<open>
  The journal of queued follow-ups (\<^verbatim>\<open>src-tauri/src/persistence/pending_messages.rs\<close>): one row per
  message that waits for its chat's turn to end, with its slot in the chat's queue and how far its
  delivery got. The JSON columns hold the values they encode; \<^verbatim>\<open>updated_at\<close> is left out. The
  journal's constraints (id, chat and slot unique) are checked by the insert.
\<close>

section \<open>Messages and rows\<close>

record message_origin =
  mo_session :: string
  mo_label :: string
  mo_kind :: string
  mo_message_id :: "string option"

record pending_message =
  pm_id :: string
  pm_session :: string
  pm_content :: string
  pm_agent_mode :: string
  pm_provider :: "provider_id option"
  pm_model_label :: "string option"
  pm_model_id :: "string option"
  pm_effort :: "string option"
  pm_fast :: bool
  pm_attachments :: "json list"
  pm_references :: "json list"
  pm_origin :: "message_origin option"
  pm_recovery :: "string option"
  pm_queued_at :: string
  pm_person :: bool  \<comment> \<open>\<^verbatim>\<open>author\<close>\<close>

record pending_row =
  pr_id :: string
  pr_session :: string
  pr_position :: nat
  pr_content :: string
  pr_agent_mode :: string
  pr_provider :: "string option"
  pr_model_label :: "string option"
  pr_model_id :: "string option"
  pr_effort :: "string option"
  pr_fast :: int
  pr_attachments :: "json list"
  pr_references :: "json list"
  pr_origin :: "message_origin option"
  pr_queued_at :: string
  pr_state :: string
  pr_author :: "string option"

type_synonym journal = "pending_row list"

definition RECOVERED_UNSENT :: string where "RECOVERED_UNSENT = ''unsent''"
definition RECOVERED_DELIVERY_UNKNOWN :: string where "RECOVERED_DELIVERY_UNKNOWN = ''delivery-unknown''"
definition STATE_PENDING :: string where "STATE_PENDING = ''pending''"
definition STATE_RECOVERED :: string where "STATE_RECOVERED = ''recovered''"
definition STATE_LAUNCHING :: string where "STATE_LAUNCHING = ''launching''"
definition STATE_DELIVERY_UNKNOWN :: string where "STATE_DELIVERY_UNKNOWN = ''delivery_unknown''"

lemmas delivery_words = RECOVERED_UNSENT_def RECOVERED_DELIVERY_UNKNOWN_def STATE_PENDING_def STATE_RECOVERED_def
  STATE_LAUNCHING_def STATE_DELIVERY_UNKNOWN_def

definition parse_provider :: "string \<Rightarrow> argmax_error + provider_id" where
  "parse_provider v =
     (if v = ''claude'' then Inr Claude else if v = ''codex'' then Inr Codex else if v = ''cursor'' then Inr Cursor
      else if v = ''opencode'' then Inr Opencode else if v = ''grok'' then Inr Grok
      else Inl (service ''PROVIDER_UNKNOWN'' (''unknown provider '' @ v)))"

definition author_column :: "bool \<Rightarrow> string option" where
  "author_column person = (if person then Some ''person'' else None)"

definition author_from_column :: "string option \<Rightarrow> bool" where
  "author_from_column v \<longleftrightarrow> v = Some ''person''"

text \<open>The state a message is stored under, and the recovery status a row is read back with.\<close>

definition state_of_recovery :: "string option \<Rightarrow> string" where
  "state_of_recovery r =
     (if r = Some RECOVERED_UNSENT then STATE_RECOVERED
      else if r = Some RECOVERED_DELIVERY_UNKNOWN then STATE_DELIVERY_UNKNOWN else STATE_PENDING)"

definition recovery_of_state :: "string \<Rightarrow> string option" where
  "recovery_of_state s =
     (if s = STATE_RECOVERED then Some RECOVERED_UNSENT
      else if s = STATE_DELIVERY_UNKNOWN \<or> s = STATE_LAUNCHING then Some RECOVERED_DELIVERY_UNKNOWN else None)"

definition row_to_pending_message :: "pending_row \<Rightarrow> argmax_error + pending_message" where
  "row_to_pending_message r =
     and_then (case pr_provider r of
         None \<Rightarrow> Inr None
       | Some v \<Rightarrow> (case parse_provider v of Inl _ \<Rightarrow> Inl (sqlite (''Conversion error from type Text at index: 4, unknown provider '' @ v)) | Inr p \<Rightarrow> Inr (Some p)))
       (\<lambda>p. Inr \<lparr>pm_id = pr_id r, pm_session = pr_session r, pm_content = pr_content r, pm_agent_mode = ''auto'',
          pm_provider = p, pm_model_label = pr_model_label r, pm_model_id = pr_model_id r, pm_effort = pr_effort r,
          pm_fast = (pr_fast r \<noteq> 0), pm_attachments = pr_attachments r, pm_references = pr_references r,
          pm_origin = pr_origin r, pm_recovery = recovery_of_state (pr_state r), pm_queued_at = pr_queued_at r,
          pm_person = author_from_column (pr_author r)\<rparr>)"

text \<open>\<^verbatim>\<open>collect::<Result<_, _>>\<close>: the first error ends it.\<close>

fun collect_res :: "('a \<Rightarrow> 'e + 'b) \<Rightarrow> 'a list \<Rightarrow> 'e + 'b list" where
  "collect_res f [] = Inr []"
| "collect_res f (x # xs) = and_then (f x) (\<lambda>y. and_then (collect_res f xs) (\<lambda>ys. Inr (y # ys)))"

definition row_of_message :: "pending_message \<Rightarrow> nat \<Rightarrow> pending_row" where
  "row_of_message m slot =
     \<lparr>pr_id = pm_id m, pr_session = pm_session m, pr_position = slot, pr_content = pm_content m,
      pr_agent_mode = pm_agent_mode m, pr_provider = map_option provider_str (pm_provider m),
      pr_model_label = pm_model_label m, pr_model_id = pm_model_id m, pr_effort = pm_effort m,
      pr_fast = (if pm_fast m then 1 else 0), pr_attachments = pm_attachments m, pr_references = pm_references m,
      pr_origin = pm_origin m, pr_queued_at = pm_queued_at m, pr_state = state_of_recovery (pm_recovery m),
      pr_author = author_column (pm_person m)\<rparr>"

section \<open>Statements\<close>

definition insert_message :: "pending_message \<Rightarrow> nat \<Rightarrow> journal \<Rightarrow> argmax_error + journal" where
  "insert_message m slot rows =
     (if pm_id m \<in> pr_id ` set rows then Inl (sqlite ''UNIQUE constraint failed: pending_messages.id'')
      else if (pm_session m, slot) \<in> (\<lambda>r. (pr_session r, pr_position r)) ` set rows
      then Inl (sqlite ''UNIQUE constraint failed: pending_messages.session_id, pending_messages.position'')
      else Inr (rows @ [row_of_message m slot]))"

definition launching :: "pending_row \<Rightarrow> bool" where
  "launching r \<longleftrightarrow> pr_state r = STATE_LAUNCHING"

text \<open>The rows of a chat that are not being delivered, in the order of their slots.\<close>

definition visible_rows :: "string \<Rightarrow> journal \<Rightarrow> journal" where
  "visible_rows x rows = sort_key pr_position (filter (\<lambda>r. pr_session r = x \<and> \<not> launching r) rows)"

definition list_session_pending_messages :: "journal \<Rightarrow> string \<Rightarrow> argmax_error + pending_message list" where
  "list_session_pending_messages rows x = collect_res row_to_pending_message (visible_rows x rows)"

definition list_pending_messages :: "journal \<Rightarrow> argmax_error + pending_message list" where
  "list_pending_messages rows =
     collect_res row_to_pending_message (sort_key pr_session (sort_key pr_position rows))"

text \<open>The slots of the launching rows are skipped.\<close>

function free_position :: "nat list \<Rightarrow> nat \<Rightarrow> nat" where
  "free_position taken p = (if p \<in> set taken then free_position taken (Suc p) else p)"
  by auto
termination
proof (relation "measure (\<lambda>(taken, p). card {q \<in> set taken. p \<le> q})")
  fix taken :: "nat list" and p assume p: "p \<in> set taken"
  have "p \<in> {q \<in> set taken. p \<le> q} - {q \<in> set taken. Suc p \<le> q}" using p by simp
  moreover have "{q \<in> set taken. Suc p \<le> q} \<subseteq> {q \<in> set taken. p \<le> q}" by auto
  ultimately have "{q \<in> set taken. Suc p \<le> q} \<subset> {q \<in> set taken. p \<le> q}" by blast
  then show "((taken, Suc p), taken, p) \<in> measure (\<lambda>(taken, p). card {q \<in> set taken. p \<le> q})"
    by (simp add: psubset_card_mono)
qed simp

declare free_position.simps [simp del]

fun insert_messages :: "nat list \<Rightarrow> nat \<Rightarrow> pending_message list \<Rightarrow> journal \<Rightarrow> argmax_error + journal" where
  "insert_messages taken p [] rows = Inr rows"
| "insert_messages taken p (m # ms) rows =
     and_then (insert_message m (free_position taken p) rows) (insert_messages taken (free_position taken p + 1) ms)"

definition launching_positions :: "string \<Rightarrow> journal \<Rightarrow> nat list" where
  "launching_positions x rows = sort (map pr_position (filter (\<lambda>r. pr_session r = x \<and> launching r) rows))"

definition replace_session_queue :: "string \<Rightarrow> pending_message list \<Rightarrow> journal \<Rightarrow> argmax_error + journal" where
  "replace_session_queue x messages rows =
     insert_messages (launching_positions x rows) 0 messages
       (filter (\<lambda>r. \<not> (pr_session r = x \<and> \<not> launching r)) rows)"

text \<open>\<^verbatim>\<open>UPDATE pending_messages SET delivery_state = s WHERE P\<close>.\<close>

definition set_state :: "(pending_row \<Rightarrow> bool) \<Rightarrow> string \<Rightarrow> journal \<Rightarrow> journal" where
  "set_state P s = map (\<lambda>r. if P r then r\<lparr>pr_state := s\<rparr> else r)"

definition claimable :: "string \<Rightarrow> string \<Rightarrow> pending_row \<Rightarrow> bool" where
  "claimable x i r \<longleftrightarrow> pr_session r = x \<and> pr_id r = i \<and>
     pr_state r \<in> {STATE_PENDING, STATE_RECOVERED, STATE_DELIVERY_UNKNOWN}"

definition mark_message_launching :: "string \<Rightarrow> string \<Rightarrow> journal \<Rightarrow> argmax_error + journal" where
  "mark_message_launching x i rows =
     (if \<not> list_ex (claimable x i) rows
      then Inl (service ''PENDING_MESSAGE_NOT_CLAIMABLE'' ''Pending follow-up no longer exists or is already being sent.'')
      else Inr (set_state (claimable x i) STATE_LAUNCHING rows))"

definition in_launch :: "string \<Rightarrow> string \<Rightarrow> pending_row \<Rightarrow> bool" where
  "in_launch x i r \<longleftrightarrow> pr_session r = x \<and> pr_id r = i \<and> launching r"

definition restore_launching_message :: "string \<Rightarrow> string \<Rightarrow> string option \<Rightarrow> journal \<Rightarrow> argmax_error + journal" where
  "restore_launching_message x i recovery rows =
     (if \<not> list_ex (in_launch x i) rows
      then Inl (service ''PENDING_MESSAGE_NOT_LAUNCHING'' ''Pending follow-up launch could not be restored.'')
      else Inr (set_state (in_launch x i) (state_of_recovery recovery) rows))"

definition delete_message :: "string \<Rightarrow> string \<Rightarrow> journal \<Rightarrow> journal" where
  "delete_message x i = filter (\<lambda>r. \<not> (pr_session r = x \<and> pr_id r = i))"

definition clear_session_queue :: "string \<Rightarrow> journal \<Rightarrow> journal" where
  "clear_session_queue x = filter (\<lambda>r. pr_session r \<noteq> x)"

definition inbox_id :: "pending_message \<Rightarrow> string option" where
  "inbox_id m = (case pm_origin m of None \<Rightarrow> None | Some origin \<Rightarrow> mo_message_id origin)"

definition collected_in :: "string list \<Rightarrow> pending_message \<Rightarrow> bool" where
  "collected_in collected m \<longleftrightarrow> (case inbox_id m of None \<Rightarrow> False | Some i \<Rightarrow> i \<in> set collected)"

definition delete_messages_for_collected_origins ::
  "string \<Rightarrow> string list \<Rightarrow> journal \<Rightarrow> argmax_error + string list \<times> journal"
where
  "delete_messages_for_collected_origins x collected rows =
     (if collected = [] then Inr ([], rows)
      else and_then (list_session_pending_messages rows x) (\<lambda>messages.
        let removed = map pm_id (filter (collected_in collected) messages)
        in Inr (removed, fold (delete_message x) removed rows)))"

section \<open>Recovery at start\<close>

definition group_by_session :: "pending_message list \<Rightarrow> (string \<rightharpoonup> pending_message list)" where
  "group_by_session ms =
     fold (\<lambda>m q. q(pm_session m \<mapsto> (case q (pm_session m) of None \<Rightarrow> [] | Some l \<Rightarrow> l) @ [m])) ms Map.empty"

definition drop_collected :: "inbox \<Rightarrow> pending_message \<Rightarrow> journal \<Rightarrow> journal" where
  "drop_collected mail m rows =
     (if pm_recovery m = Some RECOVERED_DELIVERY_UNKNOWN then rows
      else case inbox_id m of None \<Rightarrow> rows
           | Some i \<Rightarrow> if is_message_delivered i mail then delete_message (pm_session m) (pm_id m) rows else rows)"

definition recover_state :: "pending_row \<Rightarrow> pending_row" where
  "recover_state r =
     r\<lparr>pr_state := (if pr_state r \<in> {STATE_LAUNCHING, STATE_DELIVERY_UNKNOWN} then STATE_DELIVERY_UNKNOWN
                    else STATE_RECOVERED)\<rparr>"

definition recover_pending_messages ::
  "inbox \<Rightarrow> journal \<Rightarrow> argmax_error + (string \<rightharpoonup> pending_message list) \<times> journal"
where
  "recover_pending_messages mail rows =
     and_then (list_pending_messages rows) (\<lambda>messages.
       let rows' = map recover_state (fold (drop_collected mail) messages rows)
       in and_then (list_pending_messages rows') (\<lambda>messages'. Inr (group_by_session messages', rows')))"

section \<open>Reading back\<close>

definition storable :: "pending_message \<Rightarrow> bool" where
  "storable m \<longleftrightarrow> pm_agent_mode m = ''auto'' \<and>
     pm_recovery m \<in> {None, Some RECOVERED_UNSENT, Some RECOVERED_DELIVERY_UNKNOWN}"

definition readable :: "pending_row \<Rightarrow> bool" where
  "readable r \<longleftrightarrow> is_ok (row_to_pending_message r) \<and>
     pr_state r \<in> {STATE_PENDING, STATE_RECOVERED, STATE_LAUNCHING, STATE_DELIVERY_UNKNOWN}"

definition message_of :: "pending_row \<Rightarrow> pending_message" where
  "message_of r = projr (row_to_pending_message r)"

lemma provider_round_trip: "parse_provider (provider_str p) = Inr p"
  by (cases p) (simp_all add: parse_provider_def)

lemma recovery_round_trip:
  "r \<in> {None, Some RECOVERED_UNSENT, Some RECOVERED_DELIVERY_UNKNOWN} \<Longrightarrow> recovery_of_state (state_of_recovery r) = r"
  by (auto simp: recovery_of_state_def state_of_recovery_def delivery_words)

lemma row_round_trip: "storable m \<Longrightarrow> row_to_pending_message (row_of_message m p) = Inr m"
  by (cases "pm_provider m")
    (simp_all add: row_to_pending_message_def row_of_message_def storable_def recovery_round_trip provider_round_trip
       author_column_def author_from_column_def)

lemma read_row:
  assumes "row_to_pending_message r = Inr m"
  shows "pm_id m = pr_id r" "pm_session m = pr_session r" "pm_recovery m = recovery_of_state (pr_state r)"
    "pm_agent_mode m = ''auto''" "pm_origin m = pr_origin r" "pm_content m = pr_content r"
  using assms by (auto simp: row_to_pending_message_def and_then_Inr_iff)

lemma readable_message: "readable r \<Longrightarrow> row_to_pending_message r = Inr (message_of r)"
  by (cases "row_to_pending_message r") (auto simp: readable_def message_of_def)

lemma message_of_fields:
  assumes "readable r"
  shows "pm_id (message_of r) = pr_id r" "pm_session (message_of r) = pr_session r"
    "pm_recovery (message_of r) = recovery_of_state (pr_state r)" "pm_origin (message_of r) = pr_origin r"
    "storable (message_of r)"
  using read_row [OF readable_message [OF assms]] assms
  by (auto simp: storable_def readable_def recovery_of_state_def delivery_words)

lemma row_of_message_fields [simp]:
  "pr_id (row_of_message m p) = pm_id m" "pr_session (row_of_message m p) = pm_session m"
  "pr_position (row_of_message m p) = p" "\<not> launching (row_of_message m p)"
  by (simp_all add: row_of_message_def launching_def state_of_recovery_def delivery_words)

lemma row_of_message_readable: "storable m \<Longrightarrow> readable (row_of_message m p) \<and> message_of (row_of_message m p) = m"
  by (auto simp: readable_def message_of_def row_round_trip) (auto simp: row_of_message_def state_of_recovery_def)

text \<open>Only the state of a row decides how its message reads beside its own columns.\<close>

lemma set_state_readable:
  assumes "readable r" and "s \<in> {STATE_PENDING, STATE_RECOVERED, STATE_LAUNCHING, STATE_DELIVERY_UNKNOWN}"
  shows "readable (r\<lparr>pr_state := s\<rparr>)" "message_of (r\<lparr>pr_state := s\<rparr>) = (message_of r)\<lparr>pm_recovery := recovery_of_state s\<rparr>"
  using assms by (auto simp: readable_def message_of_def row_to_pending_message_def and_then_def is_ok_def split: sum.splits)

section \<open>The journal is well formed\<close>

definition journal_ok :: "journal \<Rightarrow> bool" where
  "journal_ok rows \<longleftrightarrow> distinct (map pr_id rows) \<and> distinct (map (\<lambda>r. (pr_session r, pr_position r)) rows) \<and>
     (\<forall>r \<in> set rows. readable r)"

definition queue_of :: "journal \<Rightarrow> string \<Rightarrow> pending_message list" where
  "queue_of rows x = map message_of (visible_rows x rows)"

lemma collect_res_map: "(\<And>x. x \<in> set xs \<Longrightarrow> f x = Inr (g x)) \<Longrightarrow> collect_res f xs = Inr (map g xs)"
  by (induction xs) auto

lemma visible_rows_mem: "r \<in> set (visible_rows x rows) \<longleftrightarrow> r \<in> set rows \<and> pr_session r = x \<and> \<not> launching r"
  by (auto simp: visible_rows_def)

lemma list_session_ok: "journal_ok rows \<Longrightarrow> list_session_pending_messages rows x = Inr (queue_of rows x)"
  unfolding list_session_pending_messages_def queue_of_def
  by (rule collect_res_map) (auto simp: journal_ok_def visible_rows_mem intro: readable_message)

lemma queue_of_mem:
  assumes "journal_ok rows" and "m \<in> set (queue_of rows x)"
  obtains r where "r \<in> set rows" "pr_session r = x" "\<not> launching r" "m = message_of r" "pr_id r = pm_id m"
    "pm_session m = x" "storable m" "pm_recovery m = recovery_of_state (pr_state r)" "readable r"
  using assms by (auto simp: queue_of_def visible_rows_mem journal_ok_def message_of_fields)

lemma queue_of_ids:
  assumes "journal_ok rows"
  shows "map pm_id (queue_of rows x) = map pr_id (visible_rows x rows)" "distinct (map pm_id (queue_of rows x))"
proof -
  show ids: "map pm_id (queue_of rows x) = map pr_id (visible_rows x rows)"
    using assms by (auto simp: queue_of_def visible_rows_mem journal_ok_def message_of_fields)
  have "distinct (map pr_id (visible_rows x rows))"
    using assms by (auto simp: visible_rows_def journal_ok_def distinct_map inj_on_def)
  then show "distinct (map pm_id (queue_of rows x))" by (simp add: ids)
qed

lemma queue_of_other:
  assumes "filter (\<lambda>r. pr_session r = y \<and> \<not> launching r) rows' = filter (\<lambda>r. pr_session r = y \<and> \<not> launching r) rows"
  shows "queue_of rows' y = queue_of rows y"
  using assms by (simp add: queue_of_def visible_rows_def)

text \<open>Removing rows, and removing them from view, removes their messages.\<close>

lemma visible_rows_filter:
  assumes "filter (\<lambda>r. pr_session r = x \<and> \<not> launching r) rows' =
      filter Q (filter (\<lambda>r. pr_session r = x \<and> \<not> launching r) rows)"
  shows "visible_rows x rows' = filter Q (visible_rows x rows)"
  using assms by (simp add: visible_rows_def filter_sort)

lemma queue_of_filter:
  assumes "journal_ok rows"
    and "filter (\<lambda>r. pr_session r = x \<and> \<not> launching r) rows' =
      filter (\<lambda>r. P (pr_id r)) (filter (\<lambda>r. pr_session r = x \<and> \<not> launching r) rows)"
  shows "queue_of rows' x = filter (\<lambda>m. P (pm_id m)) (queue_of rows x)"
proof -
  have "filter ((\<lambda>m. P (pm_id m)) \<circ> message_of) (visible_rows x rows) = filter (\<lambda>r. P (pr_id r)) (visible_rows x rows)"
    using assms(1) by (intro filter_cong) (auto simp: visible_rows_mem journal_ok_def message_of_fields)
  then show ?thesis using visible_rows_filter [OF assms(2)] by (simp add: queue_of_def filter_map)
qed

section \<open>Writing a queue\<close>

lemma free_position_spec: "p \<le> free_position taken p \<and> free_position taken p \<notin> set taken"
proof (induction taken p rule: free_position.induct)
  case (1 taken p)
  then show ?case by (cases "p \<in> set taken") (auto simp: free_position.simps [of taken p])
qed

fun slots :: "nat list \<Rightarrow> nat \<Rightarrow> 'a list \<Rightarrow> nat list" where
  "slots taken p [] = []"
| "slots taken p (m # ms) = free_position taken p # slots taken (free_position taken p + 1) ms"

lemma slots_spec:
  "length (slots taken p ms) = length ms" "sorted_wrt (<) (slots taken p ms)" "\<forall>q \<in> set (slots taken p ms). p \<le> q \<and> q \<notin> set taken"
proof (induction taken p ms rule: slots.induct)
  case (2 taken p m ms)
  { case 1 then show ?case using 2 by simp }
  { case 2 then show ?case using "2.IH"(2,3) by fastforce }
  { case 3 then show ?case using "2.IH"(3) free_position_spec [of p taken] by fastforce }
qed simp_all

lemma insert_messages_ok:
  assumes "distinct (map pm_id ms)" and "pm_id ` set ms \<inter> pr_id ` set rows = {}" and "\<forall>m \<in> set ms. pm_session m = x"
    and "\<forall>r \<in> set rows. pr_session r = x \<longrightarrow> pr_position r \<in> set taken \<or> pr_position r < p"
  shows "insert_messages taken p ms rows = Inr (rows @ map2 row_of_message ms (slots taken p ms))"
  using assms
proof (induction taken p ms rows rule: insert_messages.induct)
  case (2 taken p m ms rows)
  let ?q = "free_position taken p"
  have ins: "insert_message m ?q rows = Inr (rows @ [row_of_message m ?q])"
    using 2(3-5) free_position_spec [of p taken] by (fastforce simp: insert_message_def)
  let ?rows = "rows @ [row_of_message m ?q]"
  have "insert_messages taken (?q + 1) ms ?rows = Inr (?rows @ map2 row_of_message ms (slots taken (?q + 1) ms))"
  proof (rule 2(1))
    show "distinct (map pm_id ms)" "\<forall>m \<in> set ms. pm_session m = x" using 2(2,4) by simp_all
    show "pm_id ` set ms \<inter> pr_id ` set ?rows = {}" using 2(2,3) by auto
    show "\<forall>r \<in> set ?rows. pr_session r = x \<longrightarrow> pr_position r \<in> set taken \<or> pr_position r < ?q + 1"
      using 2(5) free_position_spec [of p taken] by force
  qed
  then show ?case by (simp add: ins)
qed simp

lemma new_rows:
  assumes "length ps = length ms"
  shows "map pr_id (map2 row_of_message ms ps) = map pm_id ms" "map pr_position (map2 row_of_message ms ps) = ps"
    "\<forall>m \<in> set ms. storable m \<Longrightarrow> map message_of (map2 row_of_message ms ps) = ms"
    "\<And>r. r \<in> set (map2 row_of_message ms ps) \<Longrightarrow> \<exists>m \<in> set ms. \<exists>p \<in> set ps. r = row_of_message m p"
  using assms by (induction ps ms rule: list_induct2) (auto simp: row_of_message_readable)

lemma replace_session_queue_ok:
  assumes ok: "journal_ok rows" and ids: "distinct (map pm_id ms)" and x: "\<forall>m \<in> set ms. pm_session m = x \<and> storable m"
    and fresh: "\<forall>m \<in> set ms. \<forall>r \<in> set rows. pr_id r = pm_id m \<longrightarrow> pr_session r = x \<and> \<not> launching r"
  obtains rows' where "replace_session_queue x ms rows = Inr rows'" "journal_ok rows'" "queue_of rows' x = ms"
    "\<And>y. y \<noteq> x \<Longrightarrow> queue_of rows' y = queue_of rows y" "filter launching rows' = filter launching rows"
    "\<And>r. r \<in> set rows' \<Longrightarrow> r \<in> set rows \<and> \<not> (pr_session r = x \<and> \<not> launching r) \<or> (\<exists>m \<in> set ms. \<exists>p. r = row_of_message m p)"
proof -
  let ?kept = "filter (\<lambda>r. \<not> (pr_session r = x \<and> \<not> launching r)) rows"
  let ?ps = "slots (launching_positions x rows) 0 ms"
  let ?new = "map2 row_of_message ms ?ps"
  have len: "length ?ps = length ms" by (rule slots_spec)
  note new = new_rows [OF len]
  have taken: "\<forall>r \<in> set ?kept. pr_session r = x \<longrightarrow> pr_position r \<in> set (launching_positions x rows) \<or> pr_position r < 0"
    by (auto simp: launching_positions_def)
  have run: "replace_session_queue x ms rows = Inr (?kept @ ?new)"
    unfolding replace_session_queue_def
    by (rule insert_messages_ok [OF ids _ _ taken]) (use x fresh in fastforce)+
  have none: "filter (\<lambda>r. pr_session r = x \<and> \<not> launching r) ?kept = []" by (auto simp: filter_empty_conv)
  have all: "filter (\<lambda>r. pr_session r = x \<and> \<not> launching r) ?new = ?new"
    using x new(4) by (fastforce simp: filter_id_conv)
  have "visible_rows x (?kept @ ?new) = sort_key pr_position ?new" by (simp add: visible_rows_def none all del: filter_filter)
  also have "\<dots> = ?new"
    by (rule sort_key_id_if_sorted) (simp only: new(2) strict_sorted_imp_sorted [OF slots_spec(2)])
  finally have queue: "queue_of (?kept @ ?new) x = ms" using x new(3) by (simp add: queue_of_def)
  have other: "queue_of (?kept @ ?new) y = queue_of rows y" if "y \<noteq> x" for y
  proof (rule queue_of_other)
    have "filter (\<lambda>r. pr_session r = y \<and> \<not> launching r) ?new = []"
      using x new(4) that by (fastforce simp: filter_empty_conv)
    then show "filter (\<lambda>r. pr_session r = y \<and> \<not> launching r) (?kept @ ?new) = filter (\<lambda>r. pr_session r = y \<and> \<not> launching r) rows"
      using that by (auto intro: filter_cong)
  qed
  have "filter launching ?new = []" using new(4) by (fastforce simp: filter_empty_conv)
  then have launch: "filter launching (?kept @ ?new) = filter launching rows" by (auto intro: filter_cong)
  have ok': "journal_ok (?kept @ ?new)"
    unfolding journal_ok_def
  proof (intro conjI)
    have "distinct (map pr_id ?kept)" using ok by (auto simp: journal_ok_def distinct_map inj_on_def)
    moreover have "pr_id ` set ?kept \<inter> set (map pm_id ms) = {}" using fresh by fastforce
    ultimately show "distinct (map pr_id (?kept @ ?new))" using ids new(1) by (auto simp del: map_map)
    have "distinct (map (\<lambda>r. (pr_session r, pr_position r)) ?kept)" using ok by (auto simp: journal_ok_def distinct_map inj_on_def)
    moreover have "distinct (map (\<lambda>r. (pr_session r, pr_position r)) ?new)"
    proof -
      have "distinct (map snd (map (\<lambda>r. (pr_session r, pr_position r)) ?new))"
        using new(2) slots_spec(2) [of "launching_positions x rows" 0 ms] by (simp add: comp_def strict_sorted_iff)
      then show ?thesis by (rule distinct_map [THEN iffD1, THEN conjunct1])
    qed
    moreover have "(pr_session a, pr_position a) \<noteq> (pr_session b, pr_position b)" if "a \<in> set ?kept" "b \<in> set ?new" for a b
    proof -
      obtain m p where "m \<in> set ms" "p \<in> set ?ps" "b = row_of_message m p" using new(4) \<open>b \<in> set ?new\<close> by blast
      then show ?thesis using x taken \<open>a \<in> set ?kept\<close> slots_spec(3) [of "launching_positions x rows" 0 ms] by auto
    qed
    ultimately show "distinct (map (\<lambda>r. (pr_session r, pr_position r)) (?kept @ ?new))" by fastforce
    show "\<forall>r \<in> set (?kept @ ?new). readable r"
      using ok x new(4) by (fastforce simp: journal_ok_def row_of_message_readable)
  qed
  have rows: "r \<in> set rows \<and> \<not> (pr_session r = x \<and> \<not> launching r) \<or> (\<exists>m \<in> set ms. \<exists>p. r = row_of_message m p)"
    if "r \<in> set (?kept @ ?new)" for r
    using that new(4) [of r] by auto
  show ?thesis by (rule that; fact run ok' queue other launch rows)
qed

section \<open>Changing the state of rows\<close>

lemma sort_key_map_same: "(\<And>x. f (g x) = f x) \<Longrightarrow> sort_key f (map g xs) = map g (sort_key f xs)"
proof (induction xs)
  case (Cons a xs)
  have "insort_key f (g a) (map g ys) = map g (insort_key f a ys)" for ys
    by (induction ys) (simp_all add: Cons.prems)
  then show ?case using Cons by simp
qed simp

lemma set_state_ok:
  assumes "journal_ok rows" and "s \<in> {STATE_PENDING, STATE_RECOVERED, STATE_LAUNCHING, STATE_DELIVERY_UNKNOWN}"
  shows "journal_ok (set_state P s rows)"
proof -
  have "map pr_id (set_state P s rows) = map pr_id rows"
    "map (\<lambda>r. (pr_session r, pr_position r)) (set_state P s rows) = map (\<lambda>r. (pr_session r, pr_position r)) rows"
    by (simp_all add: set_state_def)
  then show ?thesis
    using assms set_state_readable(1) [OF _ assms(2)] unfolding journal_ok_def
    by (auto simp: set_state_def simp del: map_map)
qed

lemma set_state_mem: "r \<in> set (set_state P s rows) \<longleftrightarrow> (\<exists>r1 \<in> set rows. r = (if P r1 then r1\<lparr>pr_state := s\<rparr> else r1))"
  by (simp only: set_state_def set_map image_iff)

lemma set_state_memE:
  assumes "r \<in> set (set_state P s rows)"
  obtains r1 where "r1 \<in> set rows" "pr_id r = pr_id r1" "P r1" "r = r1\<lparr>pr_state := s\<rparr>"
  | "r \<in> set rows" "\<not> P r"
proof -
  obtain r1 where r1: "r1 \<in> set rows" "r = (if P r1 then r1\<lparr>pr_state := s\<rparr> else r1)"
    using assms unfolding set_state_mem by (elim bexE)
  show thesis
  proof (cases "P r1")
    case True
    then have r: "r = r1\<lparr>pr_state := s\<rparr>" using r1(2) by (simp only: if_True)
    have "pr_id r = pr_id r1" unfolding r by simp
    from that(1) [OF r1(1) this True r] show thesis .
  next
    case False
    then have "r = r1" using r1(2) by (simp only: if_False)
    from that(2) [unfolded this, OF r1(1) False] show thesis .
  qed
qed

lemma set_state_ids: "pr_id ` set (set_state P s rows) = pr_id ` set rows"
proof -
  have "map pr_id (set_state P s rows) = map pr_id rows" by (simp add: set_state_def)
  then show ?thesis by (metis list.set_map)
qed

lemma set_state_filter:
  assumes "\<And>r. P r \<Longrightarrow> Q (r\<lparr>pr_state := s\<rparr>) = Q r"
  shows "filter Q (set_state P s rows) = set_state P s (filter Q rows)"
proof -
  have "(Q \<circ> (\<lambda>r. if P r then r\<lparr>pr_state := s\<rparr> else r)) r = Q r" for r using assms [of r] by (cases "P r") (simp_all only: o_apply if_True if_False)
  then have "(Q \<circ> (\<lambda>r. if P r then r\<lparr>pr_state := s\<rparr> else r)) = Q" by (rule ext)
  then show ?thesis unfolding set_state_def filter_map by (rule arg_cong)
qed

lemma set_state_idle: "(\<And>r. r \<in> set rows \<Longrightarrow> \<not> P r) \<Longrightarrow> set_state P s rows = rows"
  unfolding set_state_def by (rule map_idI) simp

lemma set_state_other:
  assumes "\<And>r. P r \<Longrightarrow> pr_session r \<noteq> y"
  shows "queue_of (set_state P s rows) y = queue_of rows y"
proof (rule queue_of_other)
  let ?Q = "\<lambda>r. pr_session r = y \<and> \<not> launching r"
  have "filter ?Q (set_state P s rows) = set_state P s (filter ?Q rows)"
    by (rule set_state_filter) (use assms in simp)
  also have "\<dots> = filter ?Q rows" by (rule set_state_idle) (use assms in auto)
  finally show "filter ?Q (set_state P s rows) = filter ?Q rows" .
qed

lemma set_state_visible:
  assumes "\<And>r. P r \<Longrightarrow> \<not> launching r" and "s \<noteq> STATE_LAUNCHING"
  shows "visible_rows x (set_state P s rows) = set_state P s (visible_rows x rows)"
proof -
  let ?Q = "\<lambda>r. pr_session r = x \<and> \<not> launching r"
  have "filter ?Q (set_state P s rows) = set_state P s (filter ?Q rows)"
    by (rule set_state_filter) (use assms in \<open>simp add: launching_def\<close>)
  then show ?thesis unfolding visible_rows_def by (simp add: set_state_def sort_key_map_same)
qed

lemma mark_message_launching_ok:
  assumes ok: "journal_ok rows" and run: "mark_message_launching x i rows = Inr rows'"
  shows "journal_ok rows'" "queue_of rows' x = filter (\<lambda>m. pm_id m \<noteq> i) (queue_of rows x)"
    "\<And>y. y \<noteq> x \<Longrightarrow> queue_of rows' y = queue_of rows y" "pr_id ` set rows' = pr_id ` set rows"
    "\<And>r. r \<in> set rows' \<Longrightarrow> pr_id r = i \<Longrightarrow> launching r"
    "\<And>r. r \<in> set rows \<Longrightarrow> pr_id r = i \<Longrightarrow> \<not> launching r"
    "\<And>r. pr_id r \<noteq> i \<Longrightarrow> r \<in> set rows' \<longleftrightarrow> r \<in> set rows"
proof -
  have rows': "rows' = set_state (claimable x i) STATE_LAUNCHING rows"
    using run by (auto simp: mark_message_launching_def split: if_splits)
  obtain r0 where r0: "r0 \<in> set rows" "claimable x i r0"
    using run by (auto simp: mark_message_launching_def list_ex_iff split: if_splits)
  have only: "r = r0" if "r \<in> set rows" "pr_id r = i" for r
    using ok r0 that by (auto simp: journal_ok_def distinct_map inj_on_def claimable_def)
  have out: "\<not> launching r0" using r0(2) by (auto simp: claimable_def launching_def delivery_words)
  show "journal_ok rows'" unfolding rows' by (rule set_state_ok [OF ok]) simp
  show "queue_of rows' x = filter (\<lambda>m. pm_id m \<noteq> i) (queue_of rows x)"
  proof (rule queue_of_filter [OF ok])
    have "(pr_session r = x \<and> \<not> launching r \<and> pr_id r \<noteq> i) = (pr_session r = x \<and> \<not> launching r \<and> \<not> claimable x i r)"
      if "r \<in> set rows" for r
      using only [OF that] r0(2) by (auto simp: claimable_def)
    moreover have "filter (\<lambda>r. pr_session r = x \<and> \<not> launching r) (set_state (claimable x i) STATE_LAUNCHING rows) =
        filter (\<lambda>r. pr_session r = x \<and> \<not> launching r \<and> \<not> claimable x i r) rows"
      by (induction rows) (auto simp: set_state_def launching_def)
    ultimately show "filter (\<lambda>r. pr_session r = x \<and> \<not> launching r) rows' =
        filter (\<lambda>r. pr_id r \<noteq> i) (filter (\<lambda>r. pr_session r = x \<and> \<not> launching r) rows)"
      unfolding rows' by (simp cong: filter_cong)
  qed
  show "queue_of rows' y = queue_of rows y" if "y \<noteq> x" for y
    unfolding rows' by (rule set_state_other) (use that in \<open>simp add: claimable_def\<close>)
  show "pr_id ` set rows' = pr_id ` set rows" unfolding rows' by (rule set_state_ids)
  have mem: "r \<in> set rows' \<longleftrightarrow> (\<exists>r1 \<in> set rows. r = (if claimable x i r1 then r1\<lparr>pr_state := STATE_LAUNCHING\<rparr> else r1))" for r
    unfolding rows' by (rule set_state_mem)
  show "launching r" if "r \<in> set rows'" "pr_id r = i" for r
  proof -
    from that(1) show ?thesis unfolding rows'
    proof (cases rule: set_state_memE)
      case (1 r1)
      then show ?thesis by (simp add: launching_def)
    next
      case 2
      then show ?thesis using only [of r] that(2) r0(2) by blast
    qed
  qed
  show "\<not> launching r" if "r \<in> set rows" "pr_id r = i" for r
    using only [OF that] out by simp
  show "r \<in> set rows' \<longleftrightarrow> r \<in> set rows" if "pr_id r \<noteq> i" for r
  proof
    assume "r \<in> set rows'"
    then obtain r1 where r1: "r1 \<in> set rows" "r = (if claimable x i r1 then r1\<lparr>pr_state := STATE_LAUNCHING\<rparr> else r1)"
      using mem by blast
    then show "r \<in> set rows" using that by (cases "claimable x i r1") (auto simp: claimable_def)
  next
    assume "r \<in> set rows"
    then show "r \<in> set rows'" unfolding mem using that by (intro bexI [where x = r]) (simp_all add: claimable_def)
  qed
qed

lemma mark_message_launching_succeeds:
  assumes "journal_ok rows" and "m \<in> set (queue_of rows x)"
  shows "\<exists>rows'. mark_message_launching x (pm_id m) rows = Inr rows'"
proof -
  obtain r where "r \<in> set rows" "pr_session r = x" "\<not> launching r" "pr_id r = pm_id m" "readable r"
    using queue_of_mem [OF assms] by metis
  then have "list_ex (claimable x (pm_id m)) rows" by (auto simp: list_ex_iff claimable_def readable_def launching_def)
  then show ?thesis by (simp add: mark_message_launching_def)
qed

lemma restore_launching_message_ok:
  assumes ok: "journal_ok rows" and run: "restore_launching_message x i rec rows = Inr rows'"
  shows "journal_ok rows'" "\<And>y. y \<noteq> x \<Longrightarrow> queue_of rows' y = queue_of rows y" "pr_id ` set rows' = pr_id ` set rows"
    "\<And>r. pr_id r \<noteq> i \<Longrightarrow> r \<in> set rows' \<longleftrightarrow> r \<in> set rows"
    "\<And>r. r \<in> set rows' \<Longrightarrow> pr_id r = i \<Longrightarrow> pr_state r = state_of_recovery rec \<and> pr_session r = x"
    "\<exists>r0 \<in> set rows. pr_id r0 = i \<and> pr_session r0 = x \<and> launching r0 \<and>
       set (queue_of rows' x) = insert ((message_of r0)\<lparr>pm_recovery := recovery_of_state (state_of_recovery rec)\<rparr>) (set (queue_of rows x))"
proof -
  let ?s = "state_of_recovery rec"
  have rows': "rows' = set_state (in_launch x i) ?s rows"
    using run by (auto simp: restore_launching_message_def split: if_splits)
  obtain r0 where r0: "r0 \<in> set rows" "in_launch x i r0"
    using run by (auto simp: restore_launching_message_def list_ex_iff split: if_splits)
  then have i0: "pr_id r0 = i" "pr_session r0 = x" "launching r0" by (simp_all add: in_launch_def)
  have only: "r = r0" if "r \<in> set rows" "pr_id r = i" for r
    using ok r0(1) i0(1) that by (auto simp: journal_ok_def distinct_map inj_on_def)
  have s: "?s \<in> {STATE_PENDING, STATE_RECOVERED, STATE_LAUNCHING, STATE_DELIVERY_UNKNOWN}" "?s \<noteq> STATE_LAUNCHING"
    by (auto simp: state_of_recovery_def delivery_words)
  show "journal_ok rows'" unfolding rows' by (rule set_state_ok [OF ok s(1)])
  show "queue_of rows' y = queue_of rows y" if "y \<noteq> x" for y
    unfolding rows' by (rule set_state_other) (use that in \<open>simp add: in_launch_def\<close>)
  show "pr_id ` set rows' = pr_id ` set rows" unfolding rows' by (rule set_state_ids)
  have mem: "r \<in> set rows' \<longleftrightarrow> (\<exists>r1 \<in> set rows. r = (if in_launch x i r1 then r1\<lparr>pr_state := ?s\<rparr> else r1))" for r
    unfolding rows' by (rule set_state_mem)
  have mem_id: "r = r0\<lparr>pr_state := ?s\<rparr>" if "r \<in> set rows'" "pr_id r = i" for r
  proof -
    from that(1) show ?thesis unfolding rows'
    proof (cases rule: set_state_memE)
      case (1 r1)
      then show ?thesis using only [of r1] that(2) by simp
    next
      case 2
      then show ?thesis using only [of r] that(2) r0(2) by blast
    qed
  qed
  have new: "r0\<lparr>pr_state := ?s\<rparr> \<in> set rows'"
    unfolding mem using r0 by (intro bexI [where x = r0]) simp_all
  show others: "r \<in> set rows' \<longleftrightarrow> r \<in> set rows" if "pr_id r \<noteq> i" for r
  proof
    assume "r \<in> set rows'"
    then obtain r1 where r1: "r1 \<in> set rows" "r = (if in_launch x i r1 then r1\<lparr>pr_state := ?s\<rparr> else r1)"
      using mem by blast
    then show "r \<in> set rows" using that by (cases "in_launch x i r1") (auto simp: in_launch_def)
  next
    assume "r \<in> set rows"
    then show "r \<in> set rows'" unfolding mem using that by (intro bexI [where x = r]) (simp_all add: in_launch_def)
  qed
  show "pr_state r = ?s \<and> pr_session r = x" if "r \<in> set rows'" "pr_id r = i" for r
    using mem_id [OF that] i0(2) by simp
  have read: "readable r0" using ok r0 by (simp add: journal_ok_def)
  have "set (visible_rows x rows') = insert (r0\<lparr>pr_state := ?s\<rparr>) (set (visible_rows x rows))"
  proof (rule set_eqI)
    fix r
    have out: "\<not> launching (r0\<lparr>pr_state := ?s\<rparr>)" using s(2) by (simp add: launching_def)
    show "r \<in> set (visible_rows x rows') \<longleftrightarrow> r \<in> insert (r0\<lparr>pr_state := ?s\<rparr>) (set (visible_rows x rows))"
    proof (cases "pr_id r = i")
      case True
      have "r \<in> set rows' \<longleftrightarrow> r = r0\<lparr>pr_state := ?s\<rparr>" using mem_id [of r] True new by blast
      moreover have "r \<notin> set (visible_rows x rows)" using only [of r] True i0(3) by (auto simp: visible_rows_mem)
      ultimately show ?thesis using out i0(2) by (auto simp: visible_rows_mem)
    next
      case False
      then show ?thesis using others [OF False] i0(1) by (auto simp: visible_rows_mem)
    qed
  qed
  then have "set (queue_of rows' x) = insert (message_of (r0\<lparr>pr_state := ?s\<rparr>)) (set (queue_of rows x))"
    by (simp add: queue_of_def)
  then have "set (queue_of rows' x) = insert ((message_of r0)\<lparr>pm_recovery := recovery_of_state ?s\<rparr>) (set (queue_of rows x))"
    by (simp only: set_state_readable(2) [OF read s(1)])
  then show "\<exists>r0 \<in> set rows. pr_id r0 = i \<and> pr_session r0 = x \<and> launching r0 \<and>
       set (queue_of rows' x) = insert ((message_of r0)\<lparr>pm_recovery := recovery_of_state ?s\<rparr>) (set (queue_of rows x))"
    using r0(1) i0 by (intro bexI [where x = r0] conjI)
qed

section \<open>Deleting rows\<close>

lemma filter_rows_ok: "journal_ok rows \<Longrightarrow> journal_ok (filter P rows)"
  by (auto simp: journal_ok_def distinct_map inj_on_def)

lemma delete_message_ok:
  assumes "journal_ok rows"
  shows "journal_ok (delete_message x i rows)" "queue_of (delete_message x i rows) x = filter (\<lambda>m. pm_id m \<noteq> i) (queue_of rows x)"
    "y \<noteq> x \<Longrightarrow> queue_of (delete_message x i rows) y = queue_of rows y"
    "set (delete_message x i rows) \<subseteq> set rows"
    "\<And>r. r \<in> set rows \<Longrightarrow> pr_id r \<noteq> i \<Longrightarrow> r \<in> set (delete_message x i rows)"
proof -
  show "journal_ok (delete_message x i rows)" unfolding delete_message_def by (rule filter_rows_ok [OF assms])
  show "queue_of (delete_message x i rows) x = filter (\<lambda>m. pm_id m \<noteq> i) (queue_of rows x)"
    by (rule queue_of_filter [OF assms]) (auto simp: delete_message_def intro: filter_cong)
  show "queue_of (delete_message x i rows) y = queue_of rows y" if "y \<noteq> x"
    by (rule queue_of_other) (use that in \<open>auto simp: delete_message_def intro: filter_cong\<close>)
qed (auto simp: delete_message_def)

lemma clear_session_queue_ok:
  assumes "journal_ok rows"
  shows "journal_ok (clear_session_queue x rows)" "queue_of (clear_session_queue x rows) x = []"
    "y \<noteq> x \<Longrightarrow> queue_of (clear_session_queue x rows) y = queue_of rows y"
    "set (clear_session_queue x rows) \<subseteq> set rows" "\<And>r. r \<in> set (clear_session_queue x rows) \<Longrightarrow> pr_session r \<noteq> x"
proof -
  show "journal_ok (clear_session_queue x rows)" unfolding clear_session_queue_def by (rule filter_rows_ok [OF assms])
  show "queue_of (clear_session_queue x rows) x = []"
    by (auto simp: queue_of_def visible_rows_def clear_session_queue_def filter_empty_conv)
  show "queue_of (clear_session_queue x rows) y = queue_of rows y" if "y \<noteq> x"
    by (rule queue_of_other) (use that in \<open>auto simp: clear_session_queue_def intro: filter_cong\<close>)
qed (auto simp: clear_session_queue_def)

lemma fold_delete_ok:
  assumes "journal_ok rows"
  shows "journal_ok (fold (delete_message x) is rows)"
    "queue_of (fold (delete_message x) is rows) x = filter (\<lambda>m. pm_id m \<notin> set is) (queue_of rows x)"
    "\<And>y. y \<noteq> x \<Longrightarrow> queue_of (fold (delete_message x) is rows) y = queue_of rows y"
    "set (fold (delete_message x) is rows) \<subseteq> set rows"
    "\<And>r. r \<in> set rows \<Longrightarrow> pr_id r \<notin> set is \<Longrightarrow> r \<in> set (fold (delete_message x) is rows)"
  using assms
proof (induction "is" arbitrary: rows)
  case (Cons i "is")
  note del = delete_message_ok [where x = x and i = i]
  { case 1 then show ?case using Cons(1) del(1) by simp }
  { case 2 then show ?case using Cons(2) [OF del(1)] del(2) by (auto intro: filter_cong) }
  { case (3 y) then show ?case using Cons(3) [OF 3(1) del(1)] del(3) by simp }
  { case 4 then show ?case using order_trans [OF Cons(4) [OF del(1)] del(4)] by simp }
  { case (5 r) then show ?case using Cons(5) [OF _ _ del(1)] del(5) by simp }
qed simp_all

lemma delete_collected_ok:
  assumes ok: "journal_ok rows" and run: "delete_messages_for_collected_origins x collected rows = Inr (removed, rows')"
  shows "journal_ok rows'" "removed = map pm_id (filter (collected_in collected) (queue_of rows x))"
    "queue_of rows' x = filter (\<lambda>m. pm_id m \<notin> set removed) (queue_of rows x)"
    "\<And>y. y \<noteq> x \<Longrightarrow> queue_of rows' y = queue_of rows y" "set rows' \<subseteq> set rows"
    "\<And>r. r \<in> set rows \<Longrightarrow> launching r \<Longrightarrow> r \<in> set rows'"
proof -
  have removed: "removed = map pm_id (filter (collected_in collected) (queue_of rows x))"
    and rows': "rows' = fold (delete_message x) removed rows"
    using run by (auto simp: delete_messages_for_collected_origins_def list_session_ok [OF ok] Let_def collected_in_def
        filter_empty_conv split: if_splits option.splits)
  show "journal_ok rows'" "queue_of rows' x = filter (\<lambda>m. pm_id m \<notin> set removed) (queue_of rows x)"
    "\<And>y. y \<noteq> x \<Longrightarrow> queue_of rows' y = queue_of rows y"
    unfolding rows' by (rule fold_delete_ok [OF ok], assumption?)+
  show "set rows' \<subseteq> set rows" unfolding rows' by (rule fold_delete_ok(4) [OF ok])
  show "removed = map pm_id (filter (collected_in collected) (queue_of rows x))" by (rule removed)
  show "r \<in> set rows'" if r: "r \<in> set rows" "launching r" for r
  proof -
    have "pr_id r \<notin> set removed"
    proof
      assume "pr_id r \<in> set removed"
      then obtain m where "m \<in> set (queue_of rows x)" "pm_id m = pr_id r" unfolding removed by auto
      then obtain r' where "r' \<in> set rows" "\<not> launching r'" "pr_id r' = pr_id r" using queue_of_mem [OF ok] by metis
      then show False using ok r by (auto simp: journal_ok_def distinct_map inj_on_def)
    qed
    then show ?thesis unfolding rows' by (rule fold_delete_ok(5) [OF ok r(1)])
  qed
qed

section \<open>Restarting\<close>

text \<open>What recovery does to the row of a message: a copy of a collected inbox message goes, unless its
  delivery was in doubt.\<close>

definition survives :: "inbox \<Rightarrow> pending_row \<Rightarrow> bool" where
  "survives mail r \<longleftrightarrow> recovery_of_state (pr_state r) = Some RECOVERED_DELIVERY_UNKNOWN \<or>
     (case inbox_id (message_of r) of None \<Rightarrow> True | Some i \<Rightarrow> \<not> is_message_delivered i mail)"

lemma list_pending_ok:
  "journal_ok rows \<Longrightarrow> list_pending_messages rows = Inr (map message_of (sort_key pr_session (sort_key pr_position rows)))"
  unfolding list_pending_messages_def by (rule collect_res_map) (auto simp: journal_ok_def intro: readable_message)

definition dropped :: "inbox \<Rightarrow> pending_message \<Rightarrow> bool" where
  "dropped mail m \<longleftrightarrow> pm_recovery m \<noteq> Some RECOVERED_DELIVERY_UNKNOWN \<and>
     (case inbox_id m of None \<Rightarrow> False | Some i \<Rightarrow> is_message_delivered i mail)"

lemma drop_collected_if: "drop_collected mail m rows = (if dropped mail m then delete_message (pm_session m) (pm_id m) rows else rows)"
  by (auto simp: drop_collected_def dropped_def split: option.splits)

lemma fold_drop_collected:
  "fold (drop_collected mail) ms rows =
   filter (\<lambda>r. \<not> (\<exists>m \<in> set ms. dropped mail m \<and> pm_session m = pr_session r \<and> pm_id m = pr_id r)) rows"
proof (induction ms arbitrary: rows)
  case (Cons m ms)
  have "fold (drop_collected mail) (m # ms) rows = fold (drop_collected mail) ms (drop_collected mail m rows)" by simp
  also have "\<dots> = filter (\<lambda>r. \<not> (\<exists>m \<in> set ms. dropped mail m \<and> pm_session m = pr_session r \<and> pm_id m = pr_id r)) (drop_collected mail m rows)"
    by (rule Cons)
  also have "\<dots> = filter (\<lambda>r. \<not> (\<exists>m \<in> set (m # ms). dropped mail m \<and> pm_session m = pr_session r \<and> pm_id m = pr_id r)) rows"
    by (auto simp: drop_collected_if delete_message_def intro!: filter_cong)
  finally show ?case .
qed simp

lemma group_by_session_spec:
  "group_by_session ms y = (let q = filter (\<lambda>m. pm_session m = y) ms in if q = [] then None else Some q)"
proof -
  have "fold (\<lambda>m q. q(pm_session m \<mapsto> (case q (pm_session m) of None \<Rightarrow> [] | Some l \<Rightarrow> l) @ [m])) ms q0 y =
      (let q = filter (\<lambda>m. pm_session m = y) ms
       in if q = [] then q0 y else Some ((case q0 y of None \<Rightarrow> [] | Some l \<Rightarrow> l) @ q))" for q0
    by (induction ms arbitrary: q0) (auto simp: Let_def split: option.splits)
  then show ?thesis by (simp add: group_by_session_def Let_def)
qed

lemma recover_state_row:
  assumes "readable r"
  shows "readable (recover_state r)" "\<not> launching (recover_state r)" "pr_id (recover_state r) = pr_id r"
    "pr_session (recover_state r) = pr_session r" "pr_position (recover_state r) = pr_position r"
    "message_of (recover_state r) = (message_of r)\<lparr>pm_recovery :=
       Some (if pr_state r \<in> {STATE_LAUNCHING, STATE_DELIVERY_UNKNOWN} then RECOVERED_DELIVERY_UNKNOWN else RECOVERED_UNSENT)\<rparr>"
proof -
  let ?s = "if pr_state r \<in> {STATE_LAUNCHING, STATE_DELIVERY_UNKNOWN} then STATE_DELIVERY_UNKNOWN else STATE_RECOVERED"
  have s: "?s \<in> {STATE_PENDING, STATE_RECOVERED, STATE_LAUNCHING, STATE_DELIVERY_UNKNOWN}" by simp
  have "recovery_of_state ?s =
      Some (if pr_state r \<in> {STATE_LAUNCHING, STATE_DELIVERY_UNKNOWN} then RECOVERED_DELIVERY_UNKNOWN else RECOVERED_UNSENT)"
    by (simp add: recovery_of_state_def delivery_words)
  then show "message_of (recover_state r) = (message_of r)\<lparr>pm_recovery :=
       Some (if pr_state r \<in> {STATE_LAUNCHING, STATE_DELIVERY_UNKNOWN} then RECOVERED_DELIVERY_UNKNOWN else RECOVERED_UNSENT)\<rparr>"
    unfolding recover_state_def set_state_readable(2) [OF assms s] by (simp only:)
  show "readable (recover_state r)" unfolding recover_state_def by (rule set_state_readable(1) [OF assms s])
qed (simp_all add: recover_state_def launching_def delivery_words)

lemma recover_rows_ok:
  assumes "journal_ok rows"
  shows "journal_ok (map recover_state rows)" "\<forall>r \<in> set (map recover_state rows). \<not> launching r"
proof -
  have "map pr_id (map recover_state rows) = map pr_id rows"
    "map (\<lambda>r. (pr_session r, pr_position r)) (map recover_state rows) = map (\<lambda>r. (pr_session r, pr_position r)) rows"
    by (simp_all add: recover_state_def)
  moreover have "\<forall>r \<in> set (map recover_state rows). readable r"
    using assms recover_state_row(1) unfolding journal_ok_def by auto
  ultimately show "journal_ok (map recover_state rows)" using assms by (simp only: journal_ok_def)
  show "\<forall>r \<in> set (map recover_state rows). \<not> launching r" using assms recover_state_row(2) unfolding journal_ok_def by auto
qed

lemma grouped_queue:
  assumes "journal_ok rows" and "\<forall>r \<in> set rows. \<not> launching r"
  shows "filter (\<lambda>m. pm_session m = y) (map message_of (sort_key pr_session (sort_key pr_position rows))) = queue_of rows y"
proof -
  have "filter (\<lambda>m. pm_session m = y) (map message_of (sort_key pr_session (sort_key pr_position rows))) =
      map message_of (filter (\<lambda>r. pr_session r = y) (sort_key pr_session (sort_key pr_position rows)))"
    unfolding filter_map by (rule arg_cong [where f = "map message_of"], rule filter_cong)
      (use assms(1) in \<open>auto simp: journal_ok_def message_of_fields\<close>)
  also have "filter (\<lambda>r. pr_session r = y) (sort_key pr_session (sort_key pr_position rows)) =
      filter (\<lambda>r. pr_session r = y) (sort_key pr_position rows)"
    by (rule sort_key_stable)
  also have "\<dots> = visible_rows y rows"
    using assms(2) unfolding visible_rows_def filter_sort by (auto intro: arg_cong [where f = "sort_key pr_position"] filter_cong)
  finally show ?thesis by (simp add: queue_of_def)
qed

lemma recover_pending_messages_ok:
  assumes ok: "journal_ok rows"
  obtains q where "recover_pending_messages mail rows = Inr (q, map recover_state (filter (survives mail) rows))"
    "\<And>y. q y = (let l = queue_of (map recover_state (filter (survives mail) rows)) y in if l = [] then None else Some l)"
proof -
  let ?msgs = "map message_of (sort_key pr_session (sort_key pr_position rows))"
  have "(\<not> (\<exists>m \<in> set ?msgs. dropped mail m \<and> pm_session m = pr_session r \<and> pm_id m = pr_id r)) = survives mail r"
    if r: "r \<in> set rows" for r
  proof -
    have "(\<exists>m \<in> set ?msgs. dropped mail m \<and> pm_session m = pr_session r \<and> pm_id m = pr_id r) =
        (\<exists>r' \<in> set rows. dropped mail (message_of r') \<and> pr_session r' = pr_session r \<and> pr_id r' = pr_id r)"
      using ok by (auto simp: journal_ok_def message_of_fields)
    also have "\<dots> = dropped mail (message_of r)"
      using ok r by (auto simp: journal_ok_def distinct_map inj_on_def)
    finally show ?thesis using ok r by (auto simp: dropped_def survives_def journal_ok_def message_of_fields split: option.splits)
  qed
  then have kept: "fold (drop_collected mail) ?msgs rows = filter (survives mail) rows"
    unfolding fold_drop_collected by (rule filter_cong [OF refl])
  let ?rows = "map recover_state (filter (survives mail) rows)"
  have ok': "journal_ok ?rows" "\<forall>r \<in> set ?rows. \<not> launching r" by (rule recover_rows_ok [OF filter_rows_ok [OF ok]])+
  have "recover_pending_messages mail rows =
      Inr (group_by_session (map message_of (sort_key pr_session (sort_key pr_position ?rows))), ?rows)"
    unfolding recover_pending_messages_def list_pending_ok [OF ok] and_then_simps kept Let_def list_pending_ok [OF ok'(1)] ..
  then show ?thesis by (rule that) (simp only: group_by_session_spec grouped_queue [OF ok'])
qed

section \<open>A queue is read back as it was written\<close>


definition sample_message :: "string \<Rightarrow> pending_message" where
  "sample_message i = \<lparr>pm_id = i, pm_session = ''s'', pm_content = ''hi'', pm_agent_mode = ''auto'', pm_provider = Some Codex,
     pm_model_label = None, pm_model_id = None, pm_effort = None, pm_fast = True, pm_attachments = [], pm_references = [],
     pm_origin = None, pm_recovery = Some RECOVERED_UNSENT, pm_queued_at = ''t'', pm_person = True\<rparr>"

definition sample_launch :: pending_row where
  "sample_launch = (row_of_message (sample_message ''a'') 0)\<lparr>pr_state := STATE_LAUNCHING\<rparr>"


end
