(* ===== verification/Validation.thy ===== *)
theory Validation
  imports Rust_Text
begin

text \<open>
  The validators of what crosses the IPC boundary (\<^verbatim>\<open>src-tauri/src/application/validation.rs\<close>, with the
  issues of \<^verbatim>\<open>src-tauri/src/error.rs\<close>): a request's strings are parsed into types that only these
  functions build. A parsed string is the string itself. Lengths are in bytes.
\<close>

section \<open>Issues\<close>

type_synonym 'a checked = "input_issue + 'a"

definition issue :: "string \<Rightarrow> string \<Rightarrow> string \<Rightarrow> input_issue" where
  "issue field code message = \<lparr>issue_path = [field], issue_code = code, issue_message = message\<rparr>"

definition file_path_absolute :: "string \<Rightarrow> input_issue" where
  "file_path_absolute field = issue field ''FILE_PATH_ABSOLUTE'' ''file path must be relative to the workspace root''"

definition file_path_traversal :: "string \<Rightarrow> input_issue" where
  "file_path_traversal field = issue field ''FILE_PATH_TRAVERSAL'' ''file path must not contain `..` segments''"

definition file_path_null_byte :: "string \<Rightarrow> input_issue" where
  "file_path_null_byte field = issue field ''FILE_PATH_NULL_BYTE'' ''file path must not contain null bytes''"

definition file_path_too_long :: "string \<Rightarrow> input_issue" where
  "file_path_too_long field = issue field ''FILE_PATH_TOO_LONG'' ''file path exceeds the maximum byte length''"

definition git_ref_invalid :: "string \<Rightarrow> input_issue" where
  "git_ref_invalid field = issue field ''GIT_REF_INVALID'' ''git ref contains characters that are not allowed''"

definition git_ref_leading_dash :: "string \<Rightarrow> input_issue" where
  "git_ref_leading_dash field =
     issue field ''GIT_REF_LEADING_DASH'' (''git ref must not start with '' @ [CHR 0x27] @ ''-'' @ [CHR 0x27] @ '' (looks like a CLI flag)'')"

section \<open>Validators\<close>

definition NUL :: char where "NUL = CHR 0x00"

definition MAX_STREAM_CHUNK_BYTES :: nat where "MAX_STREAM_CHUNK_BYTES = 64 * 1024"
definition MAX_FILE_CONTENT_BYTES :: nat where "MAX_FILE_CONTENT_BYTES = 4 * 1024 * 1024"
definition MAX_DIFF_CONTEXT_LINES :: nat where "MAX_DIFF_CONTEXT_LINES = 100000"

definition non_empty :: "string \<Rightarrow> string \<Rightarrow> string checked" where
  "non_empty field v = (if v = [] then Inl (issue field ''STRING_EMPTY'' ''must not be empty'') else Inr v)"

definition too_large :: "string \<Rightarrow> nat \<Rightarrow> input_issue" where
  "too_large field max_bytes =
     issue field ''STRING_TOO_LARGE'' (''must not exceed '' @ nat_text max_bytes @ '' bytes when encoded as UTF-8'')"

definition validate_byte_cap :: "string \<Rightarrow> nat \<Rightarrow> string \<Rightarrow> string checked" where
  "validate_byte_cap field max_bytes v =
     (if length v > max_bytes then Inl (too_large field max_bytes)
      else if NUL \<in> set v then Inl (issue field ''STRING_NULL_BYTE'' ''value must not contain null bytes'')
      else Inr v)"

definition bounded_id :: "string \<Rightarrow> string \<Rightarrow> string checked" where
  "bounded_id field v = and_then (non_empty field v) (validate_byte_cap field 256)"

definition validate_prompt :: "string \<Rightarrow> string checked" where
  "validate_prompt v =
     and_then (non_empty ''prompt'' v) (\<lambda>v.
       if NUL \<in> set v then Inl (issue ''prompt'' ''STRING_NULL_BYTE'' ''prompt must not contain null bytes'') else Inr v)"

text \<open>\<^verbatim>\<open>value.split(['/', '\\'])\<close>.\<close>

fun split_at :: "(char \<Rightarrow> bool) \<Rightarrow> string \<Rightarrow> string list" where
  "split_at P [] = [[]]"
| "split_at P (c # cs) =
     (if P c then [] # split_at P cs else (case split_at P cs of [] \<Rightarrow> [[c]] | p # ps \<Rightarrow> (c # p) # ps))"

definition path_separator :: "char \<Rightarrow> bool" where
  "path_separator c \<longleftrightarrow> c = CHR ''/'' \<or> c = CHR 0x5C"

definition path_segments :: "string \<Rightarrow> string list" where
  "path_segments = split_at path_separator"

definition validate_relative_path :: "string \<Rightarrow> string \<Rightarrow> string checked" where
  "validate_relative_path field v =
     and_then (non_empty field v) (\<lambda>v.
       if starts_with v ''/'' then Inl (file_path_absolute field)
       else if ''..'' \<in> set (path_segments v) then Inl (file_path_traversal field)
       else if NUL \<in> set v then Inl (file_path_null_byte field)
       else if length v > 4096 then Inl (file_path_too_long field)
       else Inr v)"

definition ends_with :: "string \<Rightarrow> string \<Rightarrow> bool" where
  "ends_with s t \<longleftrightarrow> length t \<le> length s \<and> drop (length s - length t) s = t"

definition ascii_alphanumeric :: "char \<Rightarrow> bool" where
  "ascii_alphanumeric c \<longleftrightarrow> (let b = (of_char c :: nat) in 48 \<le> b \<and> b \<le> 57 \<or> 65 \<le> b \<and> b \<le> 90 \<or> 97 \<le> b \<and> b \<le> 122)"

definition ref_byte :: "char \<Rightarrow> bool" where
  "ref_byte c \<longleftrightarrow> ascii_alphanumeric c \<or> c \<in> {CHR ''.'', CHR ''_'', CHR ''/'', CHR ''-''}"

definition bad_ref_segment :: "string \<Rightarrow> bool" where
  "bad_ref_segment s \<longleftrightarrow> s = [] \<or> starts_with s ''.'' \<or> ends_with s ''.lock''"

definition validate_git_ref :: "string \<Rightarrow> string \<Rightarrow> string checked" where
  "validate_git_ref field v =
     and_then (non_empty field v) (\<lambda>v.
       if starts_with v ''-'' then Inl (git_ref_leading_dash field)
       else if length v > 255 \<or> \<not> list_all ref_byte v then Inl (git_ref_invalid field)
       else if NUL \<in> set v then Inl (issue field ''STRING_NULL_BYTE'' ''git ref must not contain null bytes'')
       else if str_contains v ''..'' \<or> ends_with v ''/'' \<or> ends_with v ''.lock'' \<or> list_ex bad_ref_segment (split_on CHR ''/'' v)
       then Inl (git_ref_invalid field)
       else Inr v)"

definition validate_absolute_path :: "string \<Rightarrow> string \<Rightarrow> string checked" where
  "validate_absolute_path field v =
     and_then (non_empty field v) (\<lambda>v.
       if \<not> starts_with v ''/'' then Inl (issue field ''PATH_NOT_ABSOLUTE'' ''path must be absolute'')
       else if NUL \<in> set v then Inl (issue field ''PATH_NULL_BYTE'' ''path must not contain null bytes'')
       else Inr v)"

definition validate_attachment_path :: "string \<Rightarrow> string checked" where
  "validate_attachment_path v =
     and_then (validate_absolute_path ''filePath'' v) (\<lambda>v.
       if length v > 2048 then Inl (issue ''filePath'' ''PATH_TOO_LONG'' ''filePath exceeds maximum length'') else Inr v)"

definition validate_open_path :: "string \<Rightarrow> string checked" where
  "validate_open_path v =
     and_then (non_empty ''path'' v) (\<lambda>v.
       if starts_with v ''-''
       then Inl (issue ''path'' ''PATH_LEADING_DASH'' (''path cannot start with '' @ [CHR 0x27] @ ''-'' @ [CHR 0x27]))
       else if NUL \<in> set v then Inl (issue ''path'' ''PATH_NULL_BYTE'' ''path must not contain null bytes'')
       else if ''..'' \<in> set (path_segments v)
       then Inl (issue ''path'' ''PATH_TRAVERSAL'' (''path must not contain '' @ [CHR 0x27] @ ''..'' @ [CHR 0x27] @ '' segments''))
       else Inr v)"

section \<open>The types\<close>

definition to_project_id :: "string \<Rightarrow> string checked" where "to_project_id = bounded_id ''projectId''"
definition to_workspace_id :: "string \<Rightarrow> string checked" where "to_workspace_id = bounded_id ''workspaceId''"
definition to_session_id :: "string \<Rightarrow> string checked" where "to_session_id = bounded_id ''sessionId''"
definition to_approval_id :: "string \<Rightarrow> string checked" where "to_approval_id = bounded_id ''approvalId''"
definition to_question_request_id :: "string \<Rightarrow> string checked" where "to_question_request_id = bounded_id ''requestId''"
definition to_terminal_id :: "string \<Rightarrow> string checked" where "to_terminal_id = non_empty ''terminalId''"
definition to_prompt :: "string \<Rightarrow> string checked" where "to_prompt = validate_prompt"
definition to_base_ref :: "string \<Rightarrow> string checked" where "to_base_ref = validate_git_ref ''baseRef''"
definition to_branch_name :: "string \<Rightarrow> string checked" where "to_branch_name = validate_git_ref ''branch''"
definition to_relative_path :: "string \<Rightarrow> string checked" where "to_relative_path = validate_relative_path ''filePath''"
definition to_repo_path :: "string \<Rightarrow> string checked" where "to_repo_path = validate_absolute_path ''repoPath''"
definition to_attachment_path :: "string \<Rightarrow> string checked" where "to_attachment_path = validate_attachment_path"
definition to_open_path :: "string \<Rightarrow> string checked" where "to_open_path = validate_open_path"

definition to_search_query :: "string \<Rightarrow> string checked" where
  "to_search_query v = and_then (validate_byte_cap ''query'' 256 v) (non_empty ''query'')"

definition to_task_label :: "string \<Rightarrow> string checked" where
  "to_task_label v = and_then (validate_byte_cap ''taskLabel'' 200 v) (non_empty ''taskLabel'')"

definition to_stream_chunk :: "string \<Rightarrow> string checked" where
  "to_stream_chunk v = (if length v > MAX_STREAM_CHUNK_BYTES then Inl (too_large ''data'' MAX_STREAM_CHUNK_BYTES) else Inr v)"

definition to_file_content :: "string \<Rightarrow> string checked" where
  "to_file_content = validate_byte_cap ''content'' MAX_FILE_CONTENT_BYTES"

definition to_command_text :: "string \<Rightarrow> string checked" where
  "to_command_text v = and_then (validate_byte_cap ''command'' 8192 v) (non_empty ''command'')"

definition to_non_empty_string :: "string \<Rightarrow> string checked" where "to_non_empty_string = non_empty ''value''"

definition to_diff_context_lines :: "nat \<Rightarrow> nat checked" where
  "to_diff_context_lines n =
     (if n > MAX_DIFF_CONTEXT_LINES
      then Inl (issue ''contextLines'' ''NUMBER_TOO_LARGE'' (''must not exceed '' @ nat_text MAX_DIFF_CONTEXT_LINES))
      else Inr n)"

definition base64_byte :: "char \<Rightarrow> bool" where
  "base64_byte c \<longleftrightarrow> ascii_alphanumeric c \<or>
     c \<in> {CHR ''+'', CHR ''/'', CHR ''='', CHR '' '', newline, carriage_return, CHR 0x09}"

definition to_base64_image_data :: "string \<Rightarrow> string checked" where
  "to_base64_image_data v =
     (if v = [] then Inl (issue ''dataBase64'' ''STRING_EMPTY'' ''must not be empty'')
      else if length v > 14 * 1024 * 1024 then Inl (issue ''dataBase64'' ''STRING_TOO_LONG'' ''dataBase64 exceeds maximum length'')
      else if \<not> list_all base64_byte v then Inl (issue ''dataBase64'' ''BASE64_INVALID'' ''dataBase64 must be base64-encoded'')
      else Inr v)"

definition to_terminal_cols :: "nat \<Rightarrow> string + nat" where
  "to_terminal_cols n = (if 20 \<le> n \<and> n \<le> 400 then Inr n else Inl ''cols must be in 20..=400'')"

definition to_terminal_rows :: "nat \<Rightarrow> string + nat" where
  "to_terminal_rows n = (if 5 \<le> n \<and> n \<le> 200 then Inr n else Inl ''rows must be in 5..=200'')"

section \<open>What the types promise\<close>

lemma non_empty_Inr: "non_empty field v = Inr w \<longleftrightarrow> v = w \<and> v \<noteq> []"
  by (auto simp: non_empty_def)

lemma validate_byte_cap_Inr: "validate_byte_cap field n v = Inr w \<longleftrightarrow> v = w \<and> length v \<le> n \<and> NUL \<notin> set v"
  by (auto simp: validate_byte_cap_def)

lemma bounded_id_Inr: "bounded_id field v = Inr w \<longleftrightarrow> v = w \<and> v \<noteq> [] \<and> length v \<le> 256 \<and> NUL \<notin> set v"
  by (auto simp: bounded_id_def and_then_Inr_iff non_empty_Inr validate_byte_cap_Inr)

lemma validate_prompt_Inr: "validate_prompt v = Inr w \<longleftrightarrow> v = w \<and> v \<noteq> [] \<and> NUL \<notin> set v"
  by (auto simp: validate_prompt_def and_then_Inr_iff non_empty_Inr)

lemma validate_absolute_path_Inr:
  "validate_absolute_path field v = Inr w \<longleftrightarrow> v = w \<and> starts_with v ''/'' \<and> NUL \<notin> set v"
  by (auto simp: validate_absolute_path_def and_then_Inr_iff non_empty_Inr starts_with_def)



section \<open>Paths stay inside the workspace\<close>

text \<open>The directory a path names, resolved segment by segment from a directory: empty segments and
  dots stay, two dots go up.\<close>

fun resolve_path :: "string list \<Rightarrow> string list \<Rightarrow> string list" where
  "resolve_path dir [] = dir"
| "resolve_path dir (s # ss) =
     (if s = [] \<or> s = ''.'' then resolve_path dir ss
      else if s = ''..'' then resolve_path (butlast dir) ss
      else resolve_path (dir @ [s]) ss)"

lemma resolve_inside:
  "''..'' \<notin> set ss \<Longrightarrow> resolve_path dir ss = dir @ filter (\<lambda>s. s \<noteq> [] \<and> s \<noteq> ''.'') ss"
  by (induction dir ss rule: resolve_path.induct) auto

lemma split_at_not_Nil [simp]: "split_at P s \<noteq> []"
  by (induction s) (auto split: list.splits)

text \<open>A segment between slashes that holds no other separator is a segment.\<close>

lemma split_on_head: "\<lbrakk>split_on d s = p # ps; split_at P s = q # qs; P d; \<forall>c \<in> set p. \<not> P c\<rbrakk> \<Longrightarrow> q = p"
proof (induction s arbitrary: p ps q qs)
  case (Cons c s)
  show ?case
  proof (cases "c = d")
    case True
    then show ?thesis using Cons.prems by auto
  next
    case False
    then obtain p' where p': "split_on d s = p' # ps" "p = c # p'"
      using Cons.prems(1) by (auto split: list.splits)
    then have "\<not> P c" "\<forall>c \<in> set p'. \<not> P c" using Cons.prems(4) by auto
    moreover obtain q' where q': "split_at P s = q' # qs" "q = c # q'"
      using Cons.prems(2) \<open>\<not> P c\<close> by (auto split: list.splits)
    ultimately show ?thesis using Cons.IH [OF p'(1) q'(1)] Cons.prems(3) p'(2) by simp
  qed
qed auto

lemma split_on_tail:
  "\<lbrakk>split_on d s = p0 # ps; split_at P s = q0 # qs; P d; p \<in> set ps; \<forall>c \<in> set p. \<not> P c\<rbrakk> \<Longrightarrow> p \<in> set qs"
proof (induction s arbitrary: p0 ps q0 qs)
  case (Cons c s)
  obtain q1 qs1 where q: "split_at P s = q1 # qs1" by (cases "split_at P s") auto
  obtain p1 ps1 where p: "split_on d s = p1 # ps1" by (cases "split_on d s") auto
  show ?case
  proof (cases "c = d")
    case True
    then have "ps = p1 # ps1" "qs = q1 # qs1" using Cons.prems(1-3) p q by auto
    then show ?thesis using Cons.IH [OF p q Cons.prems(3) _ Cons.prems(5)] split_on_head [OF p q Cons.prems(3)] Cons.prems(4,5) by auto
  next
    case False
    then have "ps = ps1" using Cons.prems(1) p by simp
    have "qs = q1 # qs1 \<or> qs = qs1" using Cons.prems(2) q by (cases "P c") simp_all
    then have "set qs1 \<subseteq> set qs" by auto
    show ?thesis using \<open>ps = ps1\<close> \<open>set qs1 \<subseteq> set qs\<close> Cons.IH [OF p q Cons.prems(3) _ Cons.prems(5)] Cons.prems(4) by blast
  qed
qed simp

lemma split_on_segment:
  assumes "p \<in> set (split_on d s)" and "P d" and "\<forall>c \<in> set p. \<not> P c"
  shows "p \<in> set (split_at P s)"
proof -
  obtain q qs where q: "split_at P s = q # qs" by (cases "split_at P s") auto
  obtain p0 ps where p0: "split_on d s = p0 # ps" by (cases "split_on d s") auto
  show ?thesis
  proof (cases "p = p0")
    case True
    then show ?thesis using split_on_head [OF p0 q assms(2)] assms(3) q by simp
  next
    case False
    then have "p \<in> set ps" using assms(1) p0 by simp
    then show ?thesis using split_on_tail [OF p0 q assms(2) _ assms(3)] q by simp
  qed
qed

text \<open>C19: an accepted relative path, resolved from any directory by the operating system or by a reader that
  also splits at backslashes, names something below that directory: no segment ever goes up.\<close>

theorem relative_paths_stay_inside:
  assumes "to_relative_path v = Inr w"
  shows "w = v \<and> length v \<le> 4096 \<and>
    resolve_path dir (split_on CHR ''/'' v) = dir @ filter (\<lambda>s. s \<noteq> [] \<and> s \<noteq> ''.'') (split_on CHR ''/'' v) \<and>
    resolve_path dir (path_segments v) = dir @ filter (\<lambda>s. s \<noteq> [] \<and> s \<noteq> ''.'') (path_segments v) \<and>
    \<not> starts_with v ''/''"
proof -
  have v: "w = v" "''..'' \<notin> set (path_segments v)" "length v \<le> 4096" "\<not> starts_with v ''/''"
    using assms by (auto simp: to_relative_path_def validate_relative_path_def and_then_Inr_iff non_empty_Inr split: if_splits)
  have "''..'' \<notin> set (split_on CHR ''/'' v)"
    using v(2) split_on_segment [of "''..''" "CHR ''/''" v path_separator] by (auto simp: path_segments_def path_separator_def)
  then show ?thesis using v by (simp add: resolve_inside)
qed

theorem relative_paths_stay_inside_witness:
  "resolve_path [''repo''] (split_on CHR ''/'' ''a/./b'') = [''repo'', ''a'', ''b'']"
proof -
  have "to_relative_path ''a/./b'' = Inr ''a/./b''"
    by (simp add: to_relative_path_def validate_relative_path_def non_empty_def path_segments_def path_separator_def
        starts_with_def NUL_def)
  from relative_paths_stay_inside [OF this, of "[''repo'']"] show ?thesis by simp
qed

section \<open>Branch names\<close>

text \<open>The grammar of the branch names that are accepted: components joined by slashes, as
  \<^verbatim>\<open>git check-ref-format\<close> wants them.\<close>

definition ref_component :: "string \<Rightarrow> bool" where
  "ref_component s \<longleftrightarrow> s \<noteq> [] \<and> (\<forall>c \<in> set s. ascii_alphanumeric c \<or> c \<in> {CHR ''.'', CHR ''_'', CHR ''-''}) \<and>
     hd s \<noteq> CHR ''.'' \<and> \<not> (\<exists>a b. s = a @ ''..'' @ b) \<and> \<not> (\<exists>a. s = a @ ''.lock'')"

lemma ends_with_iff: "ends_with s t \<longleftrightarrow> (\<exists>a. s = a @ t)"
proof
  assume "ends_with s t"
  then show "\<exists>a. s = a @ t" unfolding ends_with_def by (metis append_take_drop_id)
qed (auto simp: ends_with_def)

lemma str_contains_iff: "str_contains s t \<longleftrightarrow> (\<exists>a b. s = a @ t @ b)"
proof (induction s)
  case (Cons c s)
  have "(\<exists>a b. c # s = a @ t @ b) \<longleftrightarrow> (\<exists>b. c # s = t @ b) \<or> (\<exists>a b. s = a @ t @ b)"
  proof
    assume "\<exists>a b. c # s = a @ t @ b"
    then obtain a b where "c # s = a @ t @ b" by blast
    then show "(\<exists>b. c # s = t @ b) \<or> (\<exists>a b. s = a @ t @ b)" by (cases a) auto
  next
    assume "(\<exists>b. c # s = t @ b) \<or> (\<exists>a b. s = a @ t @ b)"
    then show "\<exists>a b. c # s = a @ t @ b" by (metis append_Cons append_Nil)
  qed
  then show ?case by (simp add: Cons starts_with_iff)
qed simp

lemma split_on_free: "d \<notin> set x \<Longrightarrow> split_on d x = [x]"
  by (induction x) auto

lemma split_on_append: "d \<notin> set x \<Longrightarrow> split_on d (x @ d # t) = x # split_on d t"
  by (induction x) auto

lemma split_on_join_inv: "ps \<noteq> [] \<Longrightarrow> \<forall>p \<in> set ps. d \<notin> set p \<Longrightarrow> split_on d (join [d] ps) = ps"
  by (induction "[d]" ps rule: join.induct) (simp_all add: split_on_free split_on_append)

lemma split_on_last: "split_on d (a @ [d]) = split_on d a @ [[]]"
  by (induction a) (auto split: list.splits)

lemma set_join: "set (join [d] ps) \<subseteq> insert d (\<Union> (set ` set ps))"
  by (induction "[d]" ps rule: join.induct) auto

lemma join_set: "p \<in> set ps \<Longrightarrow> set p \<subseteq> set (join [d] ps)"
  by (induction "[d]" ps rule: join.induct) auto

lemma contains_across:
  assumes "d \<notin> set t"
  shows "(\<exists>a b. x @ d # y = a @ t @ b) \<longleftrightarrow> (\<exists>a b. x = a @ t @ b) \<or> (\<exists>a b. y = a @ t @ b)"
proof
  assume "\<exists>a b. x @ d # y = a @ t @ b"
  then obtain a b us where "x = a @ us \<and> us @ d # y = t @ b \<or> x @ us = a \<and> d # y = us @ t @ b"
    unfolding append_eq_append_conv2 by blast
  then show "(\<exists>a b. x = a @ t @ b) \<or> (\<exists>a b. y = a @ t @ b)"
  proof
    assume 1: "x = a @ us \<and> us @ d # y = t @ b"
    then obtain vs where "us = t @ vs \<and> vs @ d # y = b \<or> us @ vs = t \<and> d # y = vs @ b"
      unfolding append_eq_append_conv2 by blast
    then have "us = t @ vs \<or> us = t @ []" using assms by (cases vs) auto
    then show ?thesis using 1 by blast
  next
    assume 2: "x @ us = a \<and> d # y = us @ t @ b"
    show ?thesis
    proof (cases us)
      case Nil
      then have "t = []" using 2 assms by (cases t) auto
      then have "x = [] @ t @ x" by simp
      then show ?thesis by blast
    qed (use 2 in auto)
  qed
next
  assume "(\<exists>a b. x = a @ t @ b) \<or> (\<exists>a b. y = a @ t @ b)"
  then show "\<exists>a b. x @ d # y = a @ t @ b"
  proof
    assume "\<exists>a b. x = a @ t @ b"
    then obtain a b where "x = a @ t @ b" by blast
    then have "x @ d # y = a @ t @ (b @ d # y)" by simp
    then show ?thesis by blast
  next
    assume "\<exists>a b. y = a @ t @ b"
    then obtain a b where "y = a @ t @ b" by blast
    then have "x @ d # y = (x @ d # a) @ t @ b" by simp
    then show ?thesis by blast
  qed
qed

lemma contains_join:
  "ps \<noteq> [] \<Longrightarrow> d \<notin> set t \<Longrightarrow> (\<exists>a b. join [d] ps = a @ t @ b) \<longleftrightarrow> (\<exists>p \<in> set ps. \<exists>a b. p = a @ t @ b)"
proof (induction "[d]" ps rule: join.induct)
  case (3 x y xs)
  have "(\<exists>a b. join [d] (x # y # xs) = a @ t @ b) \<longleftrightarrow> (\<exists>a b. x @ d # join [d] (y # xs) = a @ t @ b)" by simp
  also have "\<dots> \<longleftrightarrow> (\<exists>a b. x = a @ t @ b) \<or> (\<exists>a b. join [d] (y # xs) = a @ t @ b)"
    by (rule contains_across [OF 3(3)])
  finally show ?case using 3(1,3) by simp
qed simp_all

lemma suffix_across: "d \<notin> set t \<Longrightarrow> x @ d # y = a @ t \<Longrightarrow> \<exists>a. y = a @ t"
  unfolding append_eq_append_conv2 by (auto simp: append_eq_Cons_conv Cons_eq_append_conv)

lemma suffix_join: "ps \<noteq> [] \<Longrightarrow> d \<notin> set t \<Longrightarrow> join [d] ps = a @ t \<Longrightarrow> \<exists>a. last ps = a @ t"
proof (induction "[d]" ps arbitrary: a rule: join.induct)
  case (3 x y xs)
  then have "\<exists>a. join [d] (y # xs) = a @ t" by (intro suffix_across [of d t x]) simp_all
  then show ?case using 3(1,3) by auto
qed auto

lemma validate_git_ref_Inr:
  "validate_git_ref field v = Inr w \<longleftrightarrow> w = v \<and> v \<noteq> [] \<and> \<not> starts_with v ''-'' \<and> length v \<le> 255 \<and> list_all ref_byte v \<and>
     NUL \<notin> set v \<and> \<not> str_contains v ''..'' \<and> \<not> ends_with v ''/'' \<and> \<not> ends_with v ''.lock'' \<and>
     (\<forall>s \<in> set (split_on CHR ''/'' v). \<not> bad_ref_segment s)"
  by (auto simp: validate_git_ref_def and_then_Inr_iff non_empty_Inr list_ex_iff)

lemma ref_component_no_slash: "ref_component s \<Longrightarrow> CHR ''/'' \<notin> set s"
  by (auto simp: ref_component_def ascii_alphanumeric_def Let_def)


text \<open>Git itself refuses a reference that ends in a dot; the validator lets it pass.\<close>

lemma trailing_dot_accepted: "to_branch_name ''topic.'' = Inr ''topic.''"
  by (simp add: to_branch_name_def validate_git_ref_Inr starts_with_def list_all_iff ref_byte_def ascii_alphanumeric_def NUL_def
      ends_with_def bad_ref_segment_def)

end
