(* ===== verification/Follow_Up_Queue.thy ===== *)
theory Follow_Up_Queue
  imports Pending_Messages Validation
begin

text \<open>
  The follow-up queue of a chat (\<^verbatim>\<open>src-tauri/src/providers/session_service.rs\<close>): messages sent while a turn
  runs wait in memory and in the journal, and leave both when a turn's end drains them, the user
  sends, steers or multitasks one, or Stop discards them. Each function is what the code does
  while it holds the database writer and the queue lock; the asynchronous operations are
  split where they let go of them (\<open>Follow_Up_Tasks\<close>). The chat's settings, whether a move
  is pending, new ids, the clock and whether SQLite refuses a statement are arguments;
  published deltas are left out, and so is the agent mode of an input, which has one value.
\<close>

section \<open>The state\<close>

record queue_state =
  qs_journal :: journal
  qs_queues :: "string \<rightharpoonup> pending_message list"
  qs_promotions :: "string set"
  qs_mail :: inbox

record chat_settings =
  ch_model :: string
  ch_effort :: "string option"
  ch_permission :: string

record follow_up_input =
  fi_provider :: "provider_id option"
  fi_model_label :: "string option"
  fi_model_id :: "string option"
  fi_effort :: "reasoning_effort option"
  fi_fast :: bool
  fi_attachments :: "json list option"
  fi_references :: "json list option"

definition MAX_PENDING_QUEUE :: nat where
  "MAX_PENDING_QUEUE = 64"

text \<open>A statement that SQLite may refuse.\<close>

definition attempt :: "argmax_error option \<Rightarrow> argmax_error + 'a \<Rightarrow> argmax_error + 'a" where
  "attempt refuse r = (case refuse of Some e \<Rightarrow> Inl e | None \<Rightarrow> r)"

definition queue_at :: "queue_state \<Rightarrow> string \<Rightarrow> pending_message list" where
  "queue_at s x = (case qs_queues s x of None \<Rightarrow> [] | Some l \<Rightarrow> l)"

definition put_queue :: "string \<Rightarrow> pending_message list \<Rightarrow> (string \<rightharpoonup> pending_message list) \<Rightarrow> (string \<rightharpoonup> pending_message list)" where
  "put_queue x l q = (if l = [] then q(x := None) else q(x \<mapsto> l))"

section \<open>Queueing a follow-up\<close>

datatype permission_mode = ProviderDefaults | AutoApprove | AskEachTime

definition parse_permission_mode :: "string \<Rightarrow> argmax_error + permission_mode" where
  "parse_permission_mode v =
     (if v = ''auto-approve'' then Inr AutoApprove else if v = ''ask-each-time'' then Inr AskEachTime
      else if v = ''provider-defaults'' then Inr ProviderDefaults
      else Inl (service ''PERMISSION_MODE_UNKNOWN'' (''unknown permission mode '' @ v)))"

definition parse_reasoning_effort :: "string \<Rightarrow> reasoning_effort option" where
  "parse_reasoning_effort v =
     (if v = ''low'' then Some Low else if v = ''medium'' then Some Medium else if v = ''high'' then Some High
      else if v = ''xhigh'' then Some Xhigh else if v = ''max'' then Some MaxEffort else if v = ''ultra'' then Some Ultra
      else None)"

datatype approval_support = Unsupported | ObservableOnly | Respondable

text \<open>The definitions of the five providers, as far as they are used here.\<close>

fun approval_support_of :: "provider_id \<Rightarrow> approval_support" where
  "approval_support_of Claude = Respondable"
| "approval_support_of Codex = Respondable"
| "approval_support_of Cursor = Respondable"
| "approval_support_of Opencode = Respondable"
| "approval_support_of Grok = Respondable"

fun display_name :: "provider_id \<Rightarrow> string" where
  "display_name Claude = ''Claude Code''"
| "display_name Codex = ''Codex''"
| "display_name Cursor = ''Cursor''"
| "display_name Opencode = ''OpenCode''"
| "display_name Grok = ''Grok Build''"

definition ensure_permission_mode_supported :: "provider_id \<Rightarrow> permission_mode \<Rightarrow> argmax_error + unit" where
  "ensure_permission_mode_supported p mode =
     (if mode = AskEachTime \<and> approval_support_of p \<noteq> Respondable
      then Inl (service ''PROVIDER_APPROVAL_UNSUPPORTED'' (display_name p @
        '' cannot answer live approval requests in this runtime. Update the provider CLI to a version with live approval support.''))
      else Inr ())"

text \<open>The provider, model and effort a follow-up keeps: all that its sender named with a provider, only a model
  or effort that differs from the chat's without one.\<close>

definition picks_model :: "chat_settings \<Rightarrow> follow_up_input \<Rightarrow> bool" where
  "picks_model chat i \<longleftrightarrow>
     (case fi_model_id i of None \<Rightarrow> False | Some m \<Rightarrow> m \<noteq> ch_model chat) \<or>
     (case fi_effort i of None \<Rightarrow> False
      | Some e \<Rightarrow> Some e \<noteq> (case ch_effort chat of None \<Rightarrow> None | Some t \<Rightarrow> parse_reasoning_effort t))"

definition queued_choice ::
  "chat_settings \<Rightarrow> follow_up_input \<Rightarrow>
   argmax_error + provider_id option \<times> string option \<times> string option \<times> string option \<times> bool"
where
  "queued_choice chat i =
     (case fi_provider i of
        Some requested \<Rightarrow>
          (case (fi_model_label i, fi_model_id i) of
             (Some lbl, Some model) \<Rightarrow>
               and_then (parse_permission_mode (ch_permission chat)) (\<lambda>mode.
               and_then (ensure_permission_mode_supported requested mode) (\<lambda>_.
                 Inr (Some requested, Some lbl, Some model, map_option effort_str (fi_effort i), fi_fast i)))
           | _ \<Rightarrow> Inl (service ''SWITCH_PROVIDER_REQUIRES_MODEL'' ''Naming a provider requires a model for it.''))
      | None \<Rightarrow>
          if picks_model chat i
          then Inr (None, fi_model_label i, fi_model_id i, map_option effort_str (fi_effort i), fi_fast i)
          else Inr (None, None, None, None, fi_fast i))"

definition queued_message ::
  "string \<Rightarrow> string \<Rightarrow> string \<Rightarrow> follow_up_input \<Rightarrow> message_origin option \<Rightarrow> bool \<Rightarrow> string \<Rightarrow>
   provider_id option \<times> string option \<times> string option \<times> string option \<times> bool \<Rightarrow> pending_message"
where
  "queued_message uuid x content i origin person now chosen =
     (case chosen of (p, lbl, model, effort, fast) \<Rightarrow>
        \<lparr>pm_id = uuid, pm_session = x, pm_content = content, pm_agent_mode = ''auto'', pm_provider = p,
         pm_model_label = lbl, pm_model_id = model, pm_effort = effort, pm_fast = fast,
         pm_attachments = (case fi_attachments i of None \<Rightarrow> [] | Some l \<Rightarrow> l),
         pm_references = (case fi_references i of None \<Rightarrow> [] | Some l \<Rightarrow> l),
         pm_origin = origin, pm_recovery = None, pm_queued_at = now, pm_person = person\<rparr>)"

text \<open>\<open>chat\<close> is \<^verbatim>\<open>find_session_by_id\<close>, \<open>moving\<close> why \<^verbatim>\<open>ensure_no_pending_after_turn\<close> refuses.\<close>

definition enqueue_pending_message ::
  "argmax_error + chat_settings \<Rightarrow> argmax_error option \<Rightarrow> argmax_error option \<Rightarrow> string \<Rightarrow> string \<Rightarrow>
   string \<Rightarrow> string \<Rightarrow> follow_up_input \<Rightarrow> message_origin option \<Rightarrow> bool \<Rightarrow> queue_state \<Rightarrow>
   argmax_error + pending_message option \<times> queue_state"
where
  "enqueue_pending_message chat moving refuse uuid now x content i origin person s =
     (if (case origin of None \<Rightarrow> False | Some og \<Rightarrow>
            (case mo_message_id og of None \<Rightarrow> False | Some mail_id \<Rightarrow> is_message_delivered mail_id (qs_mail s)))
      then Inr (None, s)
      else
        and_then chat (\<lambda>chat.
        case moving of Some e \<Rightarrow> Inl e | None \<Rightarrow>
        (let queue = queue_at s x
         in if length queue \<ge> MAX_PENDING_QUEUE
            then Inl (service ''PENDING_QUEUE_FULL'' (''Pending follow-up queue is full ('' @ nat_text MAX_PENDING_QUEUE @ '').''))
            else
              and_then (queued_choice chat i) (\<lambda>chosen.
              let m = queued_message uuid x content i origin person now chosen
              in and_then (attempt refuse (replace_session_queue x (queue @ [m]) (qs_journal s))) (\<lambda>j.
                   Inr (Some m, s\<lparr>qs_journal := j, qs_queues := (qs_queues s)(x \<mapsto> queue @ [m])\<rparr>))))))"

section \<open>Cancelling, clearing, pausing\<close>

definition not_cancellable :: argmax_error where
  "not_cancellable = service ''QUEUED_MESSAGE_NOT_CANCELLABLE''
     ''This follow-up has already left the queue. Check the chat before sending another copy.''"

definition cancel_queued_message ::
  "argmax_error option \<Rightarrow> string \<Rightarrow> string \<Rightarrow> queue_state \<Rightarrow> argmax_error + queue_state"
where
  "cancel_queued_message refuse x i s =
     (case qs_queues s x of None \<Rightarrow> Inl not_cancellable | Some current \<Rightarrow>
       (let updated = filter (\<lambda>m. pm_id m \<noteq> i) current
        in if length updated = length current then Inl not_cancellable
           else and_then (attempt refuse (replace_session_queue x updated (qs_journal s))) (\<lambda>j.
                  Inr (s\<lparr>qs_journal := j, qs_queues := put_queue x updated (qs_queues s)\<rparr>))))"

definition clear_queue :: "argmax_error option \<Rightarrow> string \<Rightarrow> queue_state \<Rightarrow> argmax_error + queue_state" where
  "clear_queue refuse x s =
     and_then (attempt refuse (Inr (clear_session_queue x (qs_journal s)))) (\<lambda>j.
       Inr (s\<lparr>qs_journal := j, qs_queues := (qs_queues s)(x := None)\<rparr>))"

definition waits_plainly :: "string \<Rightarrow> pending_row \<Rightarrow> bool" where
  "waits_plainly x r \<longleftrightarrow> pr_session r = x \<and> pr_state r = STATE_PENDING"

definition pause_queue :: "argmax_error option \<Rightarrow> string \<Rightarrow> queue_state \<Rightarrow> argmax_error + queue_state" where
  "pause_queue refuse x s =
     and_then (attempt refuse (Inr (set_state (waits_plainly x) STATE_RECOVERED (qs_journal s)))) (\<lambda>j.
       Inr (s\<lparr>qs_journal := j,
              qs_queues := (case qs_queues s x of None \<Rightarrow> qs_queues s | Some l \<Rightarrow>
                (qs_queues s)(x \<mapsto> map (\<lambda>m. if pm_recovery m = None then m\<lparr>pm_recovery := Some RECOVERED_UNSENT\<rparr> else m) l))\<rparr>))"

definition reconcile_collected_messages ::
  "argmax_error option \<Rightarrow> string \<Rightarrow> string list \<Rightarrow> queue_state \<Rightarrow> argmax_error + queue_state"
where
  "reconcile_collected_messages refuse x collected s =
     and_then (attempt refuse (delete_messages_for_collected_origins x collected (qs_journal s))) (\<lambda>(removed, j).
       if removed = [] then Inr (s\<lparr>qs_journal := j\<rparr>)
       else Inr (s\<lparr>qs_journal := j,
              qs_queues := (case qs_queues s x of None \<Rightarrow> qs_queues s | Some l \<Rightarrow>
                put_queue x (filter (\<lambda>m. pm_id m \<notin> set removed) l) (qs_queues s))\<rparr>))"

section \<open>Taking a follow-up out of the queue\<close>

definition origin_row_is_delivered :: "inbox \<Rightarrow> pending_message \<Rightarrow> bool" where
  "origin_row_is_delivered mail m \<longleftrightarrow>
     (case inbox_id m of None \<Rightarrow> False | Some i \<Rightarrow> is_message_delivered i mail)"

definition message_not_found :: argmax_error where
  "message_not_found = service ''QUEUED_MESSAGE_NOT_FOUND'' ''Queued follow-up no longer exists.''"

text \<open>\<^verbatim>\<open>position\<close> and \<^verbatim>\<open>remove\<close>: the first message that fits, and the queue without it.\<close>

definition remove_first :: "(pending_message \<Rightarrow> bool) \<Rightarrow> pending_message list \<Rightarrow> pending_message list" where
  "remove_first P l = takeWhile (\<lambda>m. \<not> P m) l @ tl (dropWhile (\<lambda>m. \<not> P m) l)"

definition claim_where ::
  "argmax_error option \<Rightarrow> string \<Rightarrow> (pending_message \<Rightarrow> bool) \<Rightarrow> pending_message list \<Rightarrow> pending_message \<Rightarrow> queue_state \<Rightarrow>
   argmax_error + pending_message \<times> queue_state"
where
  "claim_where refuse x P queue m s =
     and_then (attempt refuse (mark_message_launching x (pm_id m) (qs_journal s))) (\<lambda>j.
       Inr (m, s\<lparr>qs_journal := j, qs_queues := put_queue x (remove_first P queue) (qs_queues s)\<rparr>))"

text \<open>The message a drain takes next: the first that is not recovered, unless a promotion is under way.\<close>

definition claim_next ::
  "argmax_error option \<Rightarrow> string \<Rightarrow> queue_state \<Rightarrow> argmax_error + (pending_message \<times> queue_state) option"
where
  "claim_next refuse x s =
     (if x \<in> qs_promotions s then Inr None
      else case qs_queues s x of None \<Rightarrow> Inr None | Some queue \<Rightarrow>
        (case find (\<lambda>m. pm_recovery m = None) queue of
           None \<Rightarrow> Inr None
         | Some m \<Rightarrow> and_then (claim_where refuse x (\<lambda>m. pm_recovery m = None) queue m s) (\<lambda>r. Inr (Some r))))"

text \<open>The named message, for a promotion or a multitask; the guard stays with the claim.\<close>

definition claim_named ::
  "argmax_error option \<Rightarrow> string \<Rightarrow> string \<Rightarrow> queue_state \<Rightarrow> argmax_error + pending_message \<times> queue_state"
where
  "claim_named refuse x i s =
     (if x \<in> qs_promotions s
      then Inl (service ''QUEUED_MESSAGE_SEND_IN_PROGRESS''
                  ''Another queued follow-up is already being sent. Wait for it to finish.'')
      else case qs_queues s x of None \<Rightarrow> Inl message_not_found | Some queue \<Rightarrow>
        (case find (\<lambda>m. pm_id m = i) queue of
           None \<Rightarrow> Inl message_not_found
         | Some m \<Rightarrow> and_then (claim_where refuse x (\<lambda>m. pm_id m = i) queue m s) (\<lambda>(m, s').
             Inr (m, s'\<lparr>qs_promotions := insert x (qs_promotions s')\<rparr>))))"

definition release_promotion :: "string \<Rightarrow> queue_state \<Rightarrow> queue_state" where
  "release_promotion x s = s\<lparr>qs_promotions := qs_promotions s - {x}\<rparr>"

text \<open>The row of a delivery that is over goes; the row of one that failed returns to its slot and
  the queue is read back.\<close>

definition finish_row :: "argmax_error option \<Rightarrow> string \<Rightarrow> pending_message \<Rightarrow> queue_state \<Rightarrow> argmax_error + queue_state" where
  "finish_row refuse x m s =
     and_then (attempt refuse (Inr (delete_message x (pm_id m) (qs_journal s)))) (\<lambda>j. Inr (s\<lparr>qs_journal := j\<rparr>))"

definition restore_row ::
  "argmax_error option \<Rightarrow> string \<Rightarrow> pending_message \<Rightarrow> string option \<Rightarrow> queue_state \<Rightarrow> argmax_error + queue_state"
where
  "restore_row refuse x m recovery s =
     and_then (attempt refuse (restore_launching_message x (pm_id m) recovery (qs_journal s))) (\<lambda>j.
     and_then (list_session_pending_messages j x) (\<lambda>queue.
       Inr (s\<lparr>qs_journal := j, qs_queues := (qs_queues s)(x \<mapsto> queue)\<rparr>)))"

text \<open>What a message becomes after its steering failed: unknown when the provider may have it, plainly waiting
  when nobody watches it, otherwise unsent.\<close>

definition steer_failure_status :: "bool \<Rightarrow> bool \<Rightarrow> string option" where
  "steer_failure_status delivery_unknown requeue =
     (if delivery_unknown then Some RECOVERED_DELIVERY_UNKNOWN
      else if requeue then None else Some RECOVERED_UNSENT)"

text \<open>Steering claims the inbox row before the provider sees the message, and gives it back when the
  provider refused it.\<close>

definition claim_inbox_row :: "string \<Rightarrow> string \<Rightarrow> inbox \<Rightarrow> inbox option" where
  "claim_inbox_row i now mail =
     (if list_ex (\<lambda>r. im_id r = i \<and> undelivered r) mail then Some (mark_message_delivered i now mail) else None)"

definition return_inbox_row :: "string \<Rightarrow> string \<Rightarrow> inbox \<Rightarrow> inbox" where
  "return_inbox_row i now = map (\<lambda>r. if im_id r = i \<and> im_delivered r = Some now then r\<lparr>im_delivered := None\<rparr> else r)"

text \<open>A model name that is empty is dropped, a chat id or a prompt that does not parse is an error.\<close>

definition pending_model_metadata :: "string option \<Rightarrow> string option" where
  "pending_model_metadata v =
     (case v of None \<Rightarrow> None | Some t \<Rightarrow> (case to_non_empty_string t of Inl _ \<Rightarrow> None | Inr t \<Rightarrow> Some t))"

definition pending_message_to_send_input ::
  "string \<Rightarrow> pending_message \<Rightarrow> argmax_error + string \<times> string \<times> follow_up_input"
where
  "pending_message_to_send_input x m =
     (case to_session_id x of Inl e \<Rightarrow> Inl (invalid e) | Inr session \<Rightarrow>
     (case to_prompt (pm_content m) of Inl e \<Rightarrow> Inl (invalid e) | Inr content \<Rightarrow>
        Inr (session, content,
          \<lparr>fi_provider = pm_provider m, fi_model_label = pending_model_metadata (pm_model_label m),
           fi_model_id = pending_model_metadata (pm_model_id m),
           fi_effort = (case pm_effort m of None \<Rightarrow> None | Some t \<Rightarrow> parse_reasoning_effort t), fi_fast = pm_fast m,
           fi_attachments = (if pm_attachments m = [] then None else Some (pm_attachments m)),
           fi_references = (if pm_references m = [] then None else Some (pm_references m))\<rparr>)))"

definition recover_queues :: "queue_state \<Rightarrow> argmax_error + queue_state" where
  "recover_queues s =
     and_then (recover_pending_messages (qs_mail s) (qs_journal s)) (\<lambda>(q, j).
       Inr (s\<lparr>qs_journal := j, qs_queues := q, qs_promotions := {}\<rparr>))"

end
