(* ===== verification/Follow_Up_Tasks.thy ===== *)
theory Follow_Up_Tasks
  imports Follow_Up_Queue
begin

text \<open>
  The asynchronous life of a follow-up: the drains, promotions, steerings and multitasks that hold a
  message between two critical sections of \<^verbatim>\<open>providers/session_service.rs\<close>, interleaved with the
  operations of the queue, the inbox and a restart of the application. What the provider answers
  is free. A step that fails leaves the state it found. Sections that only touch the
  promotion guard are joined with their neighbour; a lost guard is a step of its own.
\<close>

section \<open>Tasks\<close>

datatype purpose = For_Multitask | For_Steer bool | For_Send

datatype task =
    Popped string pending_message  \<comment> \<open>\<^verbatim>\<open>pop_next_undelivered\<close> before the inbox check\<close>
  | Spawned string pending_message  \<comment> \<open>the task of \<^verbatim>\<open>drain_queue_after_complete\<close> before its own check\<close>
  | Sending string pending_message  \<comment> \<open>its \<^verbatim>\<open>send_input\<close>\<close>
  | Claimed string pending_message purpose
  | Multitask string pending_message
  | Steering string pending_message bool string
  | Stopping string pending_message  \<comment> \<open>a promotion waiting for the provider to stop\<close>
  | Resending string pending_message  \<comment> \<open>its \<^verbatim>\<open>send_input\<close>\<close>
  | Steer_Row string string  \<comment> \<open>a row that its sender will steer\<close>

fun held :: "task \<Rightarrow> (string \<times> pending_message) option" where
  "held (Popped x m) = Some (x, m)"
| "held (Spawned x m) = Some (x, m)"
| "held (Sending x m) = Some (x, m)"
| "held (Claimed x m p) = Some (x, m)"
| "held (Multitask x m) = Some (x, m)"
| "held (Steering x m rq t) = Some (x, m)"
| "held (Stopping x m) = Some (x, m)"
| "held (Resending x m) = Some (x, m)"
| "held (Steer_Row x i) = None"

text \<open>A delivery of a message nobody watches, which goes back to the plain queue when it fails.\<close>

fun requeues :: "task \<Rightarrow> bool" where
  "requeues (Claimed x m (For_Steer rq)) = rq"
| "requeues (Steering x m rq t) = rq"
| "requeues _ = False"

definition or_same :: "queue_state \<Rightarrow> argmax_error + queue_state \<Rightarrow> queue_state" where
  "or_same s r = (case r of Inl _ \<Rightarrow> s | Inr s' \<Rightarrow> s')"

definition close_inbox_row :: "string \<Rightarrow> pending_message \<Rightarrow> queue_state \<Rightarrow> queue_state" where
  "close_inbox_row now m s =
     (case inbox_id m of None \<Rightarrow> s | Some i \<Rightarrow> s\<lparr>qs_mail := mark_message_delivered i now (qs_mail s)\<rparr>)"

section \<open>Steps\<close>

text \<open>The steps of a drain: the state, what becomes of the task and whether its delivery was accepted.\<close>

inductive drain_step :: "task \<Rightarrow> queue_state \<Rightarrow> queue_state \<Rightarrow> task list \<Rightarrow> bool \<Rightarrow> bool" where
  popped_collected: "origin_row_is_delivered (qs_mail s) m \<Longrightarrow>
    drain_step (Popped x m) s (or_same s (finish_row r x m s)) [] False"
| popped: "\<not> origin_row_is_delivered (qs_mail s) m \<Longrightarrow> drain_step (Popped x m) s s [Spawned x m] False"
| spawned_collected: "origin_row_is_delivered (qs_mail s) m \<Longrightarrow>
    drain_step (Spawned x m) s (or_same s (finish_row r x m s)) [] False"
| spawned_invalid: "pending_message_to_send_input x m = Inl e \<Longrightarrow>
    drain_step (Spawned x m) s (or_same s (finish_row r x m s)) [] False"
| spawned: "pending_message_to_send_input x m = Inr i \<Longrightarrow> drain_step (Spawned x m) s s [Sending x m] False"
| sent: "drain_step (Sending x m) s (close_inbox_row now m (or_same s (finish_row r x m s))) [] True"
| sent_queued: "drain_step (Sending x m) s (or_same s (finish_row r x m s)) [] True"
| send_failed: "drain_step (Sending x m) s (or_same s (restore_row r x m (pm_recovery m) s)) [] False"

text \<open>A claimed message is dispatched to a sibling chat.\<close>

inductive multitask_step :: "task \<Rightarrow> queue_state \<Rightarrow> queue_state \<Rightarrow> task list \<Rightarrow> bool \<Rightarrow> bool" where
  multitask_collected: "origin_row_is_delivered (qs_mail s) m \<Longrightarrow>
    multitask_step (Claimed x m For_Multitask) s (release_promotion x (or_same s (finish_row r x m s))) [] False"
| claimed_multitask: "\<not> origin_row_is_delivered (qs_mail s) m \<Longrightarrow> multitask_step (Claimed x m For_Multitask) s s [Multitask x m] False"
| multitask_failed:
    "multitask_step (Multitask x m) s (release_promotion x (or_same s (restore_row r x m (pm_recovery m) s))) [] False"
| multitask_done: "multitask_step (Multitask x m) s (release_promotion x (or_same s (finish_row r x m s))) [] True"

text \<open>A claimed message is steered into the running turn. The inbox check may be older than the
  step that relies on it.\<close>

inductive steer_step :: "task \<Rightarrow> queue_state \<Rightarrow> queue_state \<Rightarrow> task list \<Rightarrow> bool \<Rightarrow> bool" where
  steer_row: "claim_named r x i s = Inr (m, s') \<Longrightarrow>
    steer_step (Steer_Row x i) s s' [Claimed x m (For_Steer rq)] False"
| steer_row_gone: "steer_step (Steer_Row x i) s s [] False"
| steer_collected_before: "origin_row_is_delivered (qs_mail s) m \<Longrightarrow>
    steer_step (Claimed x m (For_Steer rq)) s (release_promotion x (or_same s (finish_row r x m s))) [] False"
| steer_refused: "steer_step (Claimed x m (For_Steer rq)) s
    (release_promotion x (or_same s (restore_row r x m (steer_failure_status False rq) s))) [] False"
| steer_collected: "inbox_id m = Some i \<Longrightarrow> claim_inbox_row i now (qs_mail s) = None \<Longrightarrow>
    steer_step (Claimed x m (For_Steer rq)) s (release_promotion x (or_same s (finish_row r x m s))) [] False"
| steer_plain: "inbox_id m = None \<Longrightarrow> steer_step (Claimed x m (For_Steer rq)) s s [Steering x m rq now] False"
| steer_mail: "inbox_id m = Some i \<Longrightarrow> claim_inbox_row i now (qs_mail s) = Some mail \<Longrightarrow>
    steer_step (Claimed x m (For_Steer rq)) s (s\<lparr>qs_mail := mail\<rparr>) [Steering x m rq now] False"
| steering_failed: "s' = (case inbox_id m of None \<Rightarrow> s | Some i \<Rightarrow> s\<lparr>qs_mail := return_inbox_row i now (qs_mail s)\<rparr>) \<Longrightarrow>
    steer_step (Steering x m rq now) s
      (release_promotion x (or_same s' (restore_row r x m (steer_failure_status False rq) s'))) [] False"
| steering_unknown: "steer_step (Steering x m rq now) s
    (release_promotion x (or_same s (restore_row r x m (steer_failure_status True rq) s))) [] False"
| steering_done: "steer_step (Steering x m rq now) s (release_promotion x (or_same s (finish_row None x m s))) [] True"

text \<open>A claimed message is sent now: the turn is stopped first.\<close>

inductive promote_step :: "task \<Rightarrow> queue_state \<Rightarrow> queue_state \<Rightarrow> task list \<Rightarrow> bool \<Rightarrow> bool" where
  send_collected: "origin_row_is_delivered (qs_mail s) m \<Longrightarrow>
    promote_step (Claimed x m For_Send) s (release_promotion x (or_same s (finish_row r x m s))) [] False"
| claimed_send: "\<not> origin_row_is_delivered (qs_mail s) m \<Longrightarrow> promote_step (Claimed x m For_Send) s s [Stopping x m] False"
| claimed_send_failed:
    "\<not> origin_row_is_delivered (qs_mail s) m \<Longrightarrow> promote_step (Claimed x m For_Send) s (or_same (release_promotion x s) (restore_row r x m (pm_recovery m) (release_promotion x s))) [] False"
| stopping_failed:
    "promote_step (Stopping x m) s (or_same (release_promotion x s) (restore_row r x m (pm_recovery m) (release_promotion x s))) [] False"
| stopping_cancelled: "x \<notin> qs_promotions s \<Longrightarrow>
    promote_step (Stopping x m) s (or_same s (restore_row r x m (pm_recovery m) s)) [] False"
| stopping_done: "x \<in> qs_promotions s \<Longrightarrow> pending_message_to_send_input x m = Inr i \<Longrightarrow>
    promote_step (Stopping x m) s s [Resending x m] False"
| resending_failed:
    "promote_step (Resending x m) s (or_same (release_promotion x s) (restore_row r x m (pm_recovery m) (release_promotion x s))) [] False"
| resending_done: "promote_step (Resending x m) s (or_same (release_promotion x s) (finish_row r x m (release_promotion x s))) [] True"

definition task_step :: "task \<Rightarrow> queue_state \<Rightarrow> queue_state \<Rightarrow> task list \<Rightarrow> bool \<Rightarrow> bool" where
  "task_step t s s' new accepted \<longleftrightarrow> drain_step t s s' new accepted \<or> multitask_step t s s' new accepted \<or>
     steer_step t s s' new accepted \<or> promote_step t s s' new accepted"

text \<open>The operations that are no task's, and the tasks they start.\<close>

inductive service_step :: "queue_state \<Rightarrow> queue_state \<Rightarrow> task list \<Rightarrow> bool" where
  op_cancel: "cancel_queued_message r x i s = Inr s' \<Longrightarrow> service_step s s' []"
| op_clear: "clear_queue r x s = Inr s' \<Longrightarrow> service_step s s' []"
| op_pause: "pause_queue r x s = Inr s' \<Longrightarrow> service_step s s' []"
| op_reconcile: "reconcile_collected_messages r x collected s = Inr s' \<Longrightarrow> service_step s s' []"
| op_stop: "service_step s (release_promotion x s) []"
| op_mail: "inbox_step op (qs_mail s) = (handed, mail) \<Longrightarrow> service_step s (s\<lparr>qs_mail := mail\<rparr>) []"
| op_drain: "claim_next r x s = Inr (Some (m, s')) \<Longrightarrow> service_step s s' [Popped x m]"
| op_claim: "claim_named r x i s = Inr (m, s') \<Longrightarrow> p \<noteq> For_Steer True \<Longrightarrow> service_step s s' [Claimed x m p]"

text \<open>The running service: besides its state the tasks, the ids ever given to a message, and the ids whose
  delivery was accepted, in this run of the application and in earlier ones.\<close>

record queue_system =
  sy_state :: queue_state
  sy_tasks :: "task list"
  sy_used :: "string set"
  sy_now :: "string set"
  sy_before :: "string set"

definition accept :: "task \<Rightarrow> bool \<Rightarrow> string set" where
  "accept t accepted = (case held t of Some (_, m) \<Rightarrow> if accepted then {pm_id m} else {} | None \<Rightarrow> {})"

inductive queue_step :: "queue_system \<Rightarrow> queue_system \<Rightarrow> bool" where
  step_enqueue: "enqueue_pending_message chat moving r uuid now x content i origin person (sy_state S) = Inr (mo, s') \<Longrightarrow>
    uuid \<notin> sy_used S \<Longrightarrow> new \<in> {[], [Steer_Row x uuid]} \<Longrightarrow>
    queue_step S (S\<lparr>sy_state := s', sy_tasks := sy_tasks S @ new, sy_used := insert uuid (sy_used S)\<rparr>)"
| step_service: "service_step (sy_state S) s' new \<Longrightarrow>
    queue_step S (S\<lparr>sy_state := s', sy_tasks := sy_tasks S @ new\<rparr>)"
| step_task: "sy_tasks S = before @ t # after \<Longrightarrow> task_step t (sy_state S) s' new accepted \<Longrightarrow>
    queue_step S (S\<lparr>sy_state := s', sy_tasks := before @ new @ after, sy_now := sy_now S \<union> accept t accepted\<rparr>)"
| step_restart: "recover_queues (sy_state S) = Inr s' \<Longrightarrow>
    queue_step S (S\<lparr>sy_state := s', sy_tasks := [], sy_before := sy_before S \<union> sy_now S, sy_now := {}\<rparr>)"

definition start_system :: "inbox \<Rightarrow> queue_system" where
  "start_system mail =
     \<lparr>sy_state = \<lparr>qs_journal = [], qs_queues = Map.empty, qs_promotions = {}, qs_mail = mail\<rparr>,
      sy_tasks = [], sy_used = {}, sy_now = {}, sy_before = {}\<rparr>"

end
