(* ===== verification/Follow_Up_Safety.thy ===== *)
theory Follow_Up_Safety
  imports Follow_Up_Tasks
begin

text \<open>
  What the follow-up queue promises over any interleaving of senders, users, readers of the inbox and
  restarts: the queue in memory is the journal's view, a message is in one place only, one whose
  delivery was accepted never drains again, and a restart loses nothing and sends nothing by itself.
\<close>

section \<open>Memory mirrors the journal\<close>

definition mirror :: "queue_state \<Rightarrow> bool" where
  "mirror s \<longleftrightarrow> journal_ok (qs_journal s) \<and>
     (\<forall>x. qs_queues s x = (let l = queue_of (qs_journal s) x in if l = [] then None else Some l))"

lemma mirrorD:
  assumes "mirror s"
  shows "journal_ok (qs_journal s)" "queue_at s x = queue_of (qs_journal s) x"
    "qs_queues s x = (if queue_of (qs_journal s) x = [] then None else Some (queue_of (qs_journal s) x))"
    "qs_queues s x = Some l \<Longrightarrow> l = queue_of (qs_journal s) x \<and> l \<noteq> []"
  using assms by (auto simp: mirror_def queue_at_def Let_def split: if_splits)

lemma mirrorI:
  assumes "journal_ok j" and "\<And>x. q x = (if queue_of j x = [] then None else Some (queue_of j x))"
    and "qs_journal s = j" and "qs_queues s = q"
  shows "mirror s"
  using assms by (simp add: mirror_def Let_def)

text \<open>What an operation may do to the rows of a message: a launching row stays launching or goes, a row that
  does not plainly wait never waits plainly again.\<close>

definition kept :: "journal \<Rightarrow> journal \<Rightarrow> string \<Rightarrow> bool" where
  "kept j j' i \<longleftrightarrow> (\<forall>r' \<in> set j'. pr_id r' = i \<longrightarrow> (\<exists>r \<in> set j. pr_id r = i \<and>
     (launching r \<longrightarrow> launching r') \<and> (pr_state r \<noteq> STATE_PENDING \<longrightarrow> pr_state r' \<noteq> STATE_PENDING)))"

lemma kept_refl [simp]: "kept j j i"
  by (auto simp: kept_def)

lemma kept_subset: "set j' \<subseteq> set j \<Longrightarrow> kept j j' i"
  by (auto simp: kept_def)

lemma kept_same: "(\<And>r. pr_id r = i \<Longrightarrow> r \<in> set j' \<longleftrightarrow> r \<in> set j) \<Longrightarrow> kept j j' i"
  by (auto simp: kept_def)

lemma attempt_Inr: "attempt refuse r = Inr y \<longleftrightarrow> refuse = None \<and> r = Inr y"
  by (auto simp: attempt_def split: option.splits)

lemma state_of_recovery_pending: "state_of_recovery r = STATE_PENDING \<longleftrightarrow> r \<noteq> Some RECOVERED_UNSENT \<and> r \<noteq> Some RECOVERED_DELIVERY_UNKNOWN"
  by (auto simp: state_of_recovery_def delivery_words)

lemma recovery_of_state_None: "s \<in> {STATE_PENDING, STATE_RECOVERED, STATE_LAUNCHING, STATE_DELIVERY_UNKNOWN} \<Longrightarrow>
  recovery_of_state s = None \<longleftrightarrow> s = STATE_PENDING"
  by (auto simp: recovery_of_state_def delivery_words)

text \<open>Rewriting the queue of a chat with messages it holds, and at most one new one.\<close>

lemma replace_queue_mirror:
  assumes s: "mirror s" and run: "replace_session_queue x (l @ new) (qs_journal s) = Inr j"
    and l: "set l \<subseteq> set (queue_of (qs_journal s) x)" "distinct (map pm_id l)"
    and new: "new = [] \<or> (\<exists>m. new = [m] \<and> storable m \<and> pm_session m = x \<and> pm_id m \<notin> pr_id ` set (qs_journal s))"
  shows "mirror (s\<lparr>qs_journal := j, qs_queues := put_queue x (l @ new) (qs_queues s)\<rparr>)"
    "\<And>i. i \<notin> pm_id ` set new \<Longrightarrow> kept (qs_journal s) j i"
    "pr_id ` set j \<subseteq> pr_id ` set (qs_journal s) \<union> pm_id ` set new"
proof -
  note ok = mirrorD(1) [OF s]
  have l_row: "\<exists>r \<in> set (qs_journal s). pr_session r = x \<and> \<not> launching r \<and> m = message_of r \<and> pr_id r = pm_id m \<and>
      pm_session m = x \<and> storable m \<and> pm_recovery m = recovery_of_state (pr_state r) \<and> readable r" if "m \<in> set l" for m
    using queue_of_mem [OF ok, of m x] l(1) that by blast
  have "pm_id ` set l \<subseteq> pr_id ` set (qs_journal s)"
  proof
    fix i assume "i \<in> pm_id ` set l"
    then show "i \<in> pr_id ` set (qs_journal s)" using l_row by force
  qed
  moreover have "pm_id ` set new \<inter> pr_id ` set (qs_journal s) = {}" using new by auto
  ultimately have "pm_id ` set l \<inter> pm_id ` set new = {}" by blast
  moreover have "distinct (map pm_id new)" using new by auto
  ultimately have ids: "distinct (map pm_id (l @ new))" using l(2) by simp
  have each: "\<forall>m \<in> set (l @ new). pm_session m = x \<and> storable m" using new l_row by fastforce
  have fresh: "\<forall>m \<in> set (l @ new). \<forall>r \<in> set (qs_journal s). pr_id r = pm_id m \<longrightarrow> pr_session r = x \<and> \<not> launching r"
  proof (intro ballI impI)
    fix m r assume "m \<in> set (l @ new)" "r \<in> set (qs_journal s)" "pr_id r = pm_id m"
    then have "m \<in> set l" using new by force
    then obtain r' where "r' \<in> set (qs_journal s)" "pr_session r' = x" "\<not> launching r'" "pr_id r' = pm_id m" using l_row by blast
    moreover have "r = r'" using ok \<open>r \<in> set (qs_journal s)\<close> \<open>pr_id r = pm_id m\<close> calculation
      by (auto simp: journal_ok_def distinct_map inj_on_def)
    ultimately show "pr_session r = x \<and> \<not> launching r" by simp
  qed
  obtain j' where j': "replace_session_queue x (l @ new) (qs_journal s) = Inr j'" "journal_ok j'" "queue_of j' x = l @ new"
    "\<And>y. y \<noteq> x \<Longrightarrow> queue_of j' y = queue_of (qs_journal s) y"
    "\<And>r. r \<in> set j' \<Longrightarrow> r \<in> set (qs_journal s) \<and> \<not> (pr_session r = x \<and> \<not> launching r) \<or> (\<exists>m \<in> set (l @ new). \<exists>p. r = row_of_message m p)"
    using replace_session_queue_ok [OF ok ids each fresh] by metis
  have j: "j' = j" using j'(1) run by simp
  note j' = j'(2-5) [unfolded j]
  show "mirror (s\<lparr>qs_journal := j, qs_queues := put_queue x (l @ new) (qs_queues s)\<rparr>)"
  proof (rule mirrorI [OF j'(1)])
    show "put_queue x (l @ new) (qs_queues s) y = (if queue_of j y = [] then None else Some (queue_of j y))" for y
      using mirrorD(3) [OF s, of y] j'(2) j'(3) [of y] by (cases "y = x") (simp_all add: put_queue_def)
  qed simp_all
  show "kept (qs_journal s) j i" if i: "i \<notin> pm_id ` set new" for i
    unfolding kept_def
  proof (intro ballI impI)
    fix r' assume r': "r' \<in> set j" "pr_id r' = i"
    from j'(4) [OF r'(1)] show "\<exists>r \<in> set (qs_journal s). pr_id r = i \<and> (launching r \<longrightarrow> launching r') \<and>
        (pr_state r \<noteq> STATE_PENDING \<longrightarrow> pr_state r' \<noteq> STATE_PENDING)"
    proof
      assume "r' \<in> set (qs_journal s) \<and> \<not> (pr_session r' = x \<and> \<not> launching r')"
      then show ?thesis using r'(2) by blast
    next
      assume "\<exists>m \<in> set (l @ new). \<exists>p. r' = row_of_message m p"
      then obtain m p where m: "m \<in> set (l @ new)" "r' = row_of_message m p" by blast
      then have "m \<in> set l" using r'(2) i by auto
      then obtain r where r: "r \<in> set (qs_journal s)" "\<not> launching r" "pr_id r = pm_id m" "storable m"
        "pm_recovery m = recovery_of_state (pr_state r)" "readable r" using l_row by blast
      have "pr_state r' \<noteq> STATE_PENDING" if "pr_state r \<noteq> STATE_PENDING"
        using that r(4,5,6) recovery_of_state_None [of "pr_state r"] unfolding m(2)
        by (auto simp: row_of_message_def state_of_recovery_pending storable_def readable_def)
      then show ?thesis using r(1-3) r'(2) m(2) by auto
    qed
  qed
  show "pr_id ` set j \<subseteq> pr_id ` set (qs_journal s) \<union> pm_id ` set new"
  proof
    fix i assume "i \<in> pr_id ` set j"
    then obtain r where r: "r \<in> set j" "pr_id r = i" by blast
    from j'(4) [OF r(1)] show "i \<in> pr_id ` set (qs_journal s) \<union> pm_id ` set new"
    proof
      assume "\<exists>m \<in> set (l @ new). \<exists>p. r = row_of_message m p"
      then obtain m p where m: "m \<in> set (l @ new)" "r = row_of_message m p" by blast
      then have "i = pm_id m" using r(2) by simp
      then show ?thesis using m(1) \<open>pm_id ` set l \<subseteq> pr_id ` set (qs_journal s)\<close> by auto
    qed (use r(2) in blast)
  qed
qed

section \<open>The operations\<close>

lemma cancel_mirror:
  assumes s: "mirror s" and run: "cancel_queued_message r x i s = Inr s'"
  shows "mirror s' \<and> (\<forall>k. kept (qs_journal s) (qs_journal s') k) \<and> pr_id ` set (qs_journal s') \<subseteq> pr_id ` set (qs_journal s)"
proof -
  obtain current where c: "qs_queues s x = Some current"
    using run by (auto simp: cancel_queued_message_def split: option.splits)
  then have current: "current = queue_of (qs_journal s) x" using mirrorD(4) [OF s] by blast
  let ?l = "filter (\<lambda>m. pm_id m \<noteq> i) current"
  obtain j where j: "replace_session_queue x (?l @ []) (qs_journal s) = Inr j"
    and s': "s' = s\<lparr>qs_journal := j, qs_queues := put_queue x (?l @ []) (qs_queues s)\<rparr>"
    using run c by (auto simp: cancel_queued_message_def and_then_Inr_iff attempt_Inr Let_def split: if_splits)
  have "distinct (map pm_id ?l)"
    using queue_of_ids(2) [OF mirrorD(1) [OF s], of x] current by (auto simp: distinct_map inj_on_def)
  note r = replace_queue_mirror [OF s j _ this]
  show ?thesis unfolding s' using r by (auto simp: current)
qed

lemma clear_mirror:
  assumes s: "mirror s" and run: "clear_queue r x s = Inr s'"
  shows "mirror s' \<and> (\<forall>k. kept (qs_journal s) (qs_journal s') k) \<and> pr_id ` set (qs_journal s') \<subseteq> pr_id ` set (qs_journal s)"
proof -
  have s': "s' = s\<lparr>qs_journal := clear_session_queue x (qs_journal s), qs_queues := (qs_queues s)(x := None)\<rparr>"
    using run by (auto simp: clear_queue_def and_then_Inr_iff attempt_Inr)
  note clear = clear_session_queue_ok [OF mirrorD(1) [OF s], where x = x]
  have "mirror s'" unfolding s'
  proof (rule mirrorI [OF clear(1)])
    show "((qs_queues s)(x := None)) y = (if queue_of (clear_session_queue x (qs_journal s)) y = [] then None
        else Some (queue_of (clear_session_queue x (qs_journal s)) y))" for y
      using clear(2) clear(3) [of y] mirrorD(3) [OF s, of y] by (cases "y = x") simp_all
  qed (simp_all add: fun_upd_def)
  then show ?thesis using clear(4) by (auto simp: s' intro: kept_subset)
qed

lemma pause_mirror:
  assumes s: "mirror s" and run: "pause_queue r x s = Inr s'"
  shows "mirror s' \<and> (\<forall>k. kept (qs_journal s) (qs_journal s') k) \<and> pr_id ` set (qs_journal s') \<subseteq> pr_id ` set (qs_journal s)"
proof -
  let ?j = "set_state (waits_plainly x) STATE_RECOVERED (qs_journal s)"
  let ?f = "\<lambda>m. if pm_recovery m = None then m\<lparr>pm_recovery := Some RECOVERED_UNSENT\<rparr> else m"
  let ?q = "case qs_queues s x of None \<Rightarrow> qs_queues s | Some l \<Rightarrow> (qs_queues s)(x \<mapsto> map ?f l)"
  have s': "s' = s\<lparr>qs_journal := ?j, qs_queues := ?q\<rparr>"
    using run by (auto simp: pause_queue_def and_then_Inr_iff attempt_Inr)
  note ok = mirrorD(1) [OF s]
  have plain: "waits_plainly x r \<Longrightarrow> \<not> launching r" for r by (auto simp: waits_plainly_def launching_def delivery_words)
  have vis: "visible_rows x ?j = set_state (waits_plainly x) STATE_RECOVERED (visible_rows x (qs_journal s))"
    by (rule set_state_visible) (auto simp: plain delivery_words)
  have rows: "\<forall>r \<in> set (visible_rows x (qs_journal s)). readable r \<and> pr_session r = x \<and> \<not> launching r"
    using ok by (auto simp: visible_rows_mem journal_ok_def)
  have each: "message_of (if waits_plainly x r then r\<lparr>pr_state := STATE_RECOVERED\<rparr> else r) = ?f (message_of r)"
    if r: "r \<in> set (visible_rows x (qs_journal s))" for r
  proof -
    have ok_r: "readable r" "pr_session r = x" "\<not> launching r" using rows r by blast+
    have "pm_recovery (message_of r) = None \<longleftrightarrow> waits_plainly x r"
      using ok_r recovery_of_state_None [of "pr_state r"] by (auto simp: message_of_fields readable_def waits_plainly_def)
    moreover have "recovery_of_state STATE_RECOVERED = Some RECOVERED_UNSENT" by (simp add: recovery_of_state_def)
    ultimately show ?thesis using set_state_readable(2) [OF ok_r(1), of STATE_RECOVERED] by (cases "waits_plainly x r") simp_all
  qed
  have queue: "queue_of ?j x = map ?f (queue_of (qs_journal s) x)"
  proof -
    have "queue_of ?j x = map message_of (set_state (waits_plainly x) STATE_RECOVERED (visible_rows x (qs_journal s)))"
      by (simp only: queue_of_def vis)
    also have "\<dots> = map (\<lambda>r. ?f (message_of r)) (visible_rows x (qs_journal s))"
      unfolding set_state_def map_map comp_def by (rule map_cong [OF refl]) (rule each)
    finally show ?thesis by (simp add: queue_of_def comp_def)
  qed
  have other: "queue_of ?j y = queue_of (qs_journal s) y" if "y \<noteq> x" for y
    by (rule set_state_other) (use that in \<open>auto simp: waits_plainly_def\<close>)
  have "mirror s'" unfolding s'
  proof (rule mirrorI)
    show "journal_ok ?j" by (rule set_state_ok [OF ok]) simp
    show "?q y = (if queue_of ?j y = [] then None else Some (queue_of ?j y))" for y
      using mirrorD(3) [OF s, of x] mirrorD(3) [OF s, of y] queue other [of y] by (cases "y = x") (auto split: option.splits)
  qed simp_all
  moreover have "kept (qs_journal s) ?j k" for k
    unfolding kept_def
  proof (intro ballI impI)
    fix r' assume "r' \<in> set ?j" "pr_id r' = k"
    from this(1) show "\<exists>r \<in> set (qs_journal s). pr_id r = k \<and> (launching r \<longrightarrow> launching r') \<and>
        (pr_state r \<noteq> STATE_PENDING \<longrightarrow> pr_state r' \<noteq> STATE_PENDING)"
    proof (cases rule: set_state_memE)
      case (1 r)
      then have "pr_state r' \<noteq> STATE_PENDING" "\<not> launching r" by (auto simp: plain delivery_words)
      then show ?thesis using 1 \<open>pr_id r' = k\<close> by metis
    next
      case 2
      then show ?thesis using \<open>pr_id r' = k\<close> by blast
    qed
  qed
  ultimately show ?thesis by (simp add: s' set_state_ids)
qed

lemma reconcile_mirror:
  assumes s: "mirror s" and run: "reconcile_collected_messages r x collected s = Inr s'"
  shows "mirror s' \<and> (\<forall>k. kept (qs_journal s) (qs_journal s') k) \<and> pr_id ` set (qs_journal s') \<subseteq> pr_id ` set (qs_journal s)"
proof -
  obtain removed j where d: "delete_messages_for_collected_origins x collected (qs_journal s) = Inr (removed, j)"
    and s': "s' = (if removed = [] then s\<lparr>qs_journal := j\<rparr> else s\<lparr>qs_journal := j,
              qs_queues := (case qs_queues s x of None \<Rightarrow> qs_queues s | Some l \<Rightarrow>
                put_queue x (filter (\<lambda>m. pm_id m \<notin> set removed) l) (qs_queues s))\<rparr>)"
    using run by (auto simp: reconcile_collected_messages_def and_then_Inr_iff attempt_Inr split: if_splits)
  note del = delete_collected_ok [OF mirrorD(1) [OF s] d]
  have q: "qs_queues s' y = (if queue_of j y = [] then None else Some (queue_of j y))" for y
  proof (cases "y = x")
    case True
    then show ?thesis using mirrorD(3) [OF s, of x] del(3) by (auto simp: s' put_queue_def split: option.splits)
  next
    case False
    then show ?thesis using mirrorD(3) [OF s, of y] del(4) [of y] by (auto simp: s' put_queue_def split: option.splits)
  qed
  have j: "qs_journal s' = j" by (simp add: s')
  have "mirror s'" by (rule mirrorI [OF del(1) q j refl])
  then show ?thesis using del(5) by (auto simp: j intro: kept_subset)
qed

lemma distinct_map_Cons: "distinct (map f (a # l)) \<Longrightarrow> x \<in> set l \<Longrightarrow> f x \<noteq> f a"
  by (simp, metis image_eqI)

lemma remove_first_filter:
  "find P l = Some m \<Longrightarrow> distinct (map pm_id l) \<Longrightarrow> remove_first P l = filter (\<lambda>k. pm_id k \<noteq> pm_id m) l"
proof (induction l)
  case (Cons a l)
  show ?case
  proof (cases "P a")
    case True
    then have "m = a" using Cons.prems(1) by simp
    moreover have "filter (\<lambda>k. pm_id k \<noteq> pm_id a) l = l" using distinct_map_Cons [OF Cons.prems(2)] unfolding filter_id_conv by blast
    ultimately show ?thesis using True by (simp add: remove_first_def)
  next
    case False
    then have "find P l = Some m" using Cons.prems(1) by simp
    moreover have "pm_id m \<noteq> pm_id a" using find_Some_mem [OF calculation] distinct_map_Cons [OF Cons.prems(2)] by blast
    ultimately show ?thesis using Cons False by (simp add: remove_first_def)
  qed
qed simp

text \<open>A claim takes a message that waits out of the queue, and its row is in delivery from then on.\<close>

lemma claim_where_mirror:
  assumes s: "mirror s" and q: "qs_queues s x = Some queue" and m: "find P queue = Some m"
    and run: "claim_where r x P queue m s = Inr (m', s')"
  shows "m' = m" "mirror s'" "\<And>k. k \<noteq> pm_id m \<Longrightarrow> kept (qs_journal s) (qs_journal s') k"
    "pr_id ` set (qs_journal s') = pr_id ` set (qs_journal s)" "\<And>r. r \<in> set (qs_journal s') \<Longrightarrow> pr_id r = pm_id m \<Longrightarrow> launching r"
    "\<exists>r \<in> set (qs_journal s). pr_id r = pm_id m \<and> \<not> launching r \<and> pm_recovery m = recovery_of_state (pr_state r) \<and> readable r"
    "storable m" "pm_session m = x" "qs_mail s' = qs_mail s"
proof -
  have queue: "queue = queue_of (qs_journal s) x" using mirrorD(4) [OF s q] by blast
  obtain j where j: "mark_message_launching x (pm_id m) (qs_journal s) = Inr j"
    and s': "s' = s\<lparr>qs_journal := j, qs_queues := put_queue x (remove_first P queue) (qs_queues s)\<rparr>" and m': "m' = m"
    using run by (auto simp: claim_where_def and_then_Inr_iff attempt_Inr)
  note ok = mirrorD(1) [OF s]
  note mark = mark_message_launching_ok [OF ok j]
  have rest: "remove_first P queue = queue_of j x"
    using remove_first_filter [OF m] queue_of_ids(2) [OF ok, of x] mark(2) by (simp add: queue)
  have "mirror s'"
  proof (rule mirrorI [OF mark(1)])
    show "put_queue x (remove_first P queue) (qs_queues s) y = (if queue_of j y = [] then None else Some (queue_of j y))" for y
      using mirrorD(3) [OF s, of y] mark(3) [of y] rest by (cases "y = x") (simp_all add: put_queue_def)
  qed (simp_all add: s')
  then show "mirror s'" .
  show "m' = m" by (rule m')
  show "kept (qs_journal s) (qs_journal s') k" if "k \<noteq> pm_id m" for k
    using mark(7) that by (auto simp: s' intro: kept_same)
  show "pr_id ` set (qs_journal s') = pr_id ` set (qs_journal s)" using mark(4) by (simp add: s')
  show "launching r" if "r \<in> set (qs_journal s')" "pr_id r = pm_id m" for r using mark(5) that by (simp add: s')
  have mem: "m \<in> set (queue_of (qs_journal s) x)" using find_Some_mem [OF m] by (simp add: queue)
  obtain r where r: "r \<in> set (qs_journal s)" "\<not> launching r" "pr_id r = pm_id m" "pm_session m = x" "storable m"
    "pm_recovery m = recovery_of_state (pr_state r)" "readable r"
    using queue_of_mem [OF ok mem] by metis
  show "\<exists>r \<in> set (qs_journal s). pr_id r = pm_id m \<and> \<not> launching r \<and> pm_recovery m = recovery_of_state (pr_state r) \<and> readable r"
    using r by (intro bexI [where x = r]) simp_all
  show "storable m" "pm_session m = x" using r by simp_all
  show "qs_mail s' = qs_mail s" by (simp add: s')
qed

lemma finish_mirror:
  assumes s: "mirror s" and run: "finish_row r x m s = Inr s'" and out: "\<forall>r \<in> set (qs_journal s). pr_id r = pm_id m \<longrightarrow> launching r"
  shows "mirror s' \<and> (\<forall>k. kept (qs_journal s) (qs_journal s') k) \<and> pr_id ` set (qs_journal s') \<subseteq> pr_id ` set (qs_journal s)"
proof -
  let ?j = "delete_message x (pm_id m) (qs_journal s)"
  have s': "s' = s\<lparr>qs_journal := ?j\<rparr>" using run by (auto simp: finish_row_def and_then_Inr_iff attempt_Inr)
  note ok = mirrorD(1) [OF s]
  note del = delete_message_ok [OF ok, where x = x and i = "pm_id m"]
  have "filter (\<lambda>k. pm_id k \<noteq> pm_id m) (queue_of (qs_journal s) x) = queue_of (qs_journal s) x"
    unfolding filter_id_conv
  proof
    fix k assume "k \<in> set (queue_of (qs_journal s) x)"
    then obtain r where "r \<in> set (qs_journal s)" "\<not> launching r" "pr_id r = pm_id k" using queue_of_mem [OF ok] by metis
    then show "pm_id k \<noteq> pm_id m" using out by auto
  qed
  then have same: "queue_of ?j y = queue_of (qs_journal s) y" for y using del(2) del(3) [of y] by (cases "y = x") simp_all
  have "mirror s'"
    by (rule mirrorI [OF del(1), where q = "qs_queues s"]) (use mirrorD(3) [OF s] in \<open>simp_all add: s' same\<close>)
  then show ?thesis using del(4) by (auto simp: s' intro: kept_subset)
qed

lemma restore_mirror:
  assumes s: "mirror s" and run: "restore_row r x m rec s = Inr s'"
  shows "mirror s'" "\<And>k. k \<noteq> pm_id m \<Longrightarrow> kept (qs_journal s) (qs_journal s') k"
    "pr_id ` set (qs_journal s') = pr_id ` set (qs_journal s)"
    "\<And>r. r \<in> set (qs_journal s') \<Longrightarrow> pr_id r = pm_id m \<Longrightarrow> pr_state r = state_of_recovery rec"
proof -
  obtain j l where j: "restore_launching_message x (pm_id m) rec (qs_journal s) = Inr j"
    and l: "list_session_pending_messages j x = Inr l" and s': "s' = s\<lparr>qs_journal := j, qs_queues := (qs_queues s)(x \<mapsto> l)\<rparr>"
    using run by (auto simp: restore_row_def and_then_Inr_iff attempt_Inr)
  note res = restore_launching_message_ok [OF mirrorD(1) [OF s] j]
  have l: "l = queue_of j x" using l list_session_ok [OF res(1)] by simp
  then have "l \<noteq> []" using res(6) by force
  show "mirror s'"
  proof (rule mirrorI [OF res(1)])
    show "((qs_queues s)(x \<mapsto> l)) y = (if queue_of j y = [] then None else Some (queue_of j y))" for y
      using mirrorD(3) [OF s, of y] res(2) [of y] l \<open>l \<noteq> []\<close> by (cases "y = x") simp_all
  qed (simp_all add: s' fun_upd_def)
  show "kept (qs_journal s) (qs_journal s') k" if "k \<noteq> pm_id m" for k
    using res(4) that by (auto simp: s' intro: kept_same)
  show "pr_id ` set (qs_journal s') = pr_id ` set (qs_journal s)" using res(3) by (simp add: s')
  show "pr_state r = state_of_recovery rec" if "r \<in> set (qs_journal s')" "pr_id r = pm_id m" for r
    using res(5) that by (simp add: s')
qed

lemma enqueue_mirror:
  assumes s: "mirror s" and fresh: "uuid \<notin> pr_id ` set (qs_journal s)"
    and run: "enqueue_pending_message chat moving r uuid now x content i origin person s = Inr (mo, s')"
  shows "mirror s' \<and> (\<forall>k. k \<noteq> uuid \<longrightarrow> kept (qs_journal s) (qs_journal s') k) \<and>
    pr_id ` set (qs_journal s') \<subseteq> insert uuid (pr_id ` set (qs_journal s))"
proof (cases "s' = s")
  case True
  then show ?thesis using s by auto
next
  case False
  then obtain ch c m j where m: "m = queued_message uuid x content i origin person now c"
    and j: "replace_session_queue x (queue_at s x @ [m]) (qs_journal s) = Inr j"
    and s': "s' = s\<lparr>qs_journal := j, qs_queues := (qs_queues s)(x \<mapsto> queue_at s x @ [m])\<rparr>"
    using run by (auto simp: enqueue_pending_message_def and_then_Inr_iff attempt_Inr Let_def split: if_splits option.splits)
  have fields: "pm_id m = uuid" "pm_session m = x" "storable m"
    by (simp_all add: m queued_message_def storable_def split: prod.splits)
  have q: "queue_at s x = queue_of (qs_journal s) x" by (rule mirrorD(2) [OF s])
  have "[m] = [] \<or> (\<exists>k. [m] = [k] \<and> storable k \<and> pm_session k = x \<and> pm_id k \<notin> pr_id ` set (qs_journal s))"
    using fields fresh by simp
  note r = replace_queue_mirror [OF s j _ _ this]
  have "put_queue x (queue_at s x @ [m]) (qs_queues s) = (qs_queues s)(x \<mapsto> queue_at s x @ [m])" by (simp add: put_queue_def)
  then show ?thesis using r queue_of_ids(2) [OF mirrorD(1) [OF s], of x] fields by (auto simp: s' q)
qed

section \<open>The steps of a task\<close>

definition in_delivery :: "journal \<Rightarrow> string set \<Rightarrow> bool" where
  "in_delivery j ids \<longleftrightarrow> (\<forall>r \<in> set j. pr_id r \<in> ids \<longrightarrow> launching r)"

definition not_plain :: "journal \<Rightarrow> string set \<Rightarrow> bool" where
  "not_plain j ids \<longleftrightarrow> (\<forall>r \<in> set j. pr_id r \<in> ids \<longrightarrow> pr_state r \<noteq> STATE_PENDING)"

lemma keptE:
  assumes "kept j j' i" and "r' \<in> set j'" and "pr_id r' = i"
  obtains r where "r \<in> set j" "pr_id r = i" "launching r \<Longrightarrow> launching r'" "pr_state r \<noteq> STATE_PENDING \<Longrightarrow> pr_state r' \<noteq> STATE_PENDING"
  using assms unfolding kept_def by metis

lemma in_delivery_kept:
  assumes "in_delivery j ids" and "\<And>i. i \<in> ids \<Longrightarrow> kept j j' i"
  shows "in_delivery j' ids"
  unfolding in_delivery_def
proof (intro ballI impI)
  fix r' assume r': "r' \<in> set j'" "pr_id r' \<in> ids"
  obtain r where "r \<in> set j" "pr_id r = pr_id r'" "launching r \<Longrightarrow> launching r'"
    using keptE [OF assms(2) [OF r'(2)] r'(1) refl] by metis
  then show "launching r'" using assms(1) r'(2) by (simp add: in_delivery_def)
qed

lemma in_delivery_others:
  assumes "in_delivery j ids" and "\<And>k. k \<noteq> i \<Longrightarrow> kept j j' k" and "i \<notin> ids"
  shows "in_delivery j' ids"
proof (rule in_delivery_kept [OF assms(1)])
  fix k assume "k \<in> ids"
  then have "k \<noteq> i" using assms(3) by metis
  then show "kept j j' k" by (rule assms(2))
qed

lemma not_plain_kept:
  assumes "not_plain j ids" and "\<And>i. i \<in> ids \<Longrightarrow> kept j j' i"
  shows "not_plain j' ids"
  unfolding not_plain_def
proof (intro ballI impI)
  fix r' assume r': "r' \<in> set j'" "pr_id r' \<in> ids"
  obtain r where "r \<in> set j" "pr_id r = pr_id r'" "pr_state r \<noteq> STATE_PENDING \<Longrightarrow> pr_state r' \<noteq> STATE_PENDING"
    using keptE [OF assms(2) [OF r'(2)] r'(1) refl] by metis
  then show "pr_state r' \<noteq> STATE_PENDING" using assms(1) r'(2) by (simp add: not_plain_def)
qed

lemma launching_not_pending: "launching r \<Longrightarrow> pr_state r \<noteq> STATE_PENDING"
  by (simp add: launching_def delivery_words)

lemma in_delivery_not_plain: "in_delivery j ids \<Longrightarrow> not_plain j ids"
  unfolding in_delivery_def not_plain_def using launching_not_pending by blast

lemma same_rows:
  "qs_journal (release_promotion x s) = qs_journal s" "qs_queues (release_promotion x s) = qs_queues s"
  "qs_journal (close_inbox_row now m s) = qs_journal s" "qs_queues (close_inbox_row now m s) = qs_queues s"
  by (simp_all add: release_promotion_def close_inbox_row_def split: option.splits)

lemma mirror_same: "qs_journal s' = qs_journal s \<Longrightarrow> qs_queues s' = qs_queues s \<Longrightarrow> mirror s' \<longleftrightarrow> mirror s"
  by (simp add: mirror_def)

text \<open>What a task leaves behind when it is over: nothing of any other message changes, and the rows of
  its own are still in delivery or in the state the task gave them.\<close>

definition left_as :: "queue_state \<Rightarrow> queue_state \<Rightarrow> pending_message \<Rightarrow> string set \<Rightarrow> bool" where
  "left_as s s' m states \<longleftrightarrow> mirror s' \<and> (\<forall>k. k \<noteq> pm_id m \<longrightarrow> kept (qs_journal s) (qs_journal s') k) \<and>
     pr_id ` set (qs_journal s') \<subseteq> pr_id ` set (qs_journal s) \<and>
     (\<forall>r \<in> set (qs_journal s'). pr_id r = pm_id m \<longrightarrow> launching r \<or> pr_state r \<in> states)"

lemma left_as_same:
  "qs_journal s2 = qs_journal s1 \<Longrightarrow> qs_queues s2 = qs_queues s1 \<Longrightarrow> left_as s s2 m states = left_as s s1 m states"
  "qs_journal s2 = qs_journal s1 \<Longrightarrow> left_as s2 s' m states = left_as s1 s' m states"
proof -
  assume "qs_journal s2 = qs_journal s1"
  then show "left_as s2 s' m states = left_as s1 s' m states" by (simp only: left_as_def)
next
  assume eq: "qs_journal s2 = qs_journal s1" "qs_queues s2 = qs_queues s1"
  show "left_as s s2 m states = left_as s s1 m states" by (simp only: left_as_def mirror_same [OF eq] eq(1))
qed

lemma left_finished:
  assumes "mirror s" and "in_delivery (qs_journal s) {pm_id m}"
  shows "left_as s (or_same s (finish_row r x m s)) m {}"
proof (cases "finish_row r x m s")
  case (Inl e)
  then show ?thesis using assms by (simp add: or_same_def left_as_def in_delivery_def)
next
  case (Inr s')
  have "\<forall>r \<in> set (qs_journal s). pr_id r = pm_id m \<longrightarrow> launching r" using assms(2) by (simp add: in_delivery_def)
  note f = finish_mirror [OF assms(1) Inr this]
  have "in_delivery (qs_journal s') {pm_id m}" by (rule in_delivery_kept [OF assms(2)]) (use f in simp)
  then show ?thesis using f by (simp add: Inr or_same_def left_as_def in_delivery_def)
qed

lemma left_restored:
  assumes "mirror s" and "in_delivery (qs_journal s) {pm_id m}"
  shows "left_as s (or_same s (restore_row r x m rec s)) m {state_of_recovery rec}"
proof (cases "restore_row r x m rec s")
  case (Inl e)
  then show ?thesis using assms by (simp add: or_same_def left_as_def in_delivery_def)
next
  case (Inr s')
  note f = restore_mirror [OF assms(1) Inr]
  have "or_same s (restore_row r x m rec s) = s'" by (simp add: Inr or_same_def)
  then show ?thesis unfolding left_as_def using f by (intro conjI allI impI ballI) (simp_all only: order_refl insert_iff disj_ac simp_thms)
qed

lemma task_step_held:
  assumes step: "task_step t s s' new accepted" and t: "held t = Some (x, m)"
    and s: "mirror s" and out: "in_delivery (qs_journal s) {pm_id m}"
    and storable: "storable m" and old: "old \<longrightarrow> pm_recovery m \<noteq> None \<and> \<not> requeues t"
  shows "(new = [] \<and> left_as s s' m {st. \<not> accepted \<and> (old \<longrightarrow> st \<noteq> STATE_PENDING)}) \<or>
    (\<exists>t'. new = [t'] \<and> held t' = Some (x, m) \<and> (old \<longrightarrow> \<not> requeues t') \<and> \<not> accepted \<and>
       qs_journal s' = qs_journal s \<and> qs_queues s' = qs_queues s)"
proof -
  have mono: "left_as a b m A \<Longrightarrow> A \<subseteq> B \<Longrightarrow> left_as a b m B" for a b A B by (auto simp: left_as_def)
  have finished: "left_as s (or_same s0 (finish_row r x m s0)) m A"
    if "qs_journal s0 = qs_journal s" "qs_queues s0 = qs_queues s" for s0 r A
  proof -
    have "mirror s0" "in_delivery (qs_journal s0) {pm_id m}" using s out that by (simp_all add: mirror_same [OF that])
    then have "left_as s (or_same s0 (finish_row r x m s0)) m {}" using left_finished that(1) by (simp add: left_as_same(2) [OF that(1), symmetric])
    then show ?thesis by (rule mono) simp
  qed
  have restored: "left_as s (or_same s0 (restore_row r x m rec s0)) m {st. old \<longrightarrow> st \<noteq> STATE_PENDING}"
    if "qs_journal s0 = qs_journal s" "qs_queues s0 = qs_queues s" "old \<Longrightarrow> state_of_recovery rec \<noteq> STATE_PENDING" for s0 r rec
  proof -
    have "mirror s0" "in_delivery (qs_journal s0) {pm_id m}" using s out that(1,2) by (simp_all add: mirror_same [OF that(1,2)])
    then have "left_as s (or_same s0 (restore_row r x m rec s0)) m {state_of_recovery rec}"
      using left_restored that(1) by (simp add: left_as_same(2) [OF that(1), symmetric])
    then show ?thesis by (rule mono) (use that(3) in auto)
  qed
  have released: "left_as s (release_promotion y s1) m A = left_as s s1 m A" "left_as s (close_inbox_row now m s1) m A = left_as s s1 m A"
    for y s1 A now by (rule left_as_same(1); simp add: same_rows)+
  note over = finished [OF same_rows(1,2)] finished [OF refl refl] restored [OF same_rows(1,2)] restored [OF refl refl]
  note facts = released steer_failure_status_def state_of_recovery_pending
  have st: "pm_recovery m \<in> {None, Some RECOVERED_UNSENT, Some RECOVERED_DELIVERY_UNKNOWN}" using storable by (simp add: storable_def)
  from step show ?thesis unfolding task_step_def
  proof (elim disjE)
    assume "drain_step t s s' new accepted"
    then show ?thesis using t old st by (cases rule: drain_step.cases) (auto simp: facts intro!: over)
  next
    assume "multitask_step t s s' new accepted"
    then show ?thesis using t old st by (cases rule: multitask_step.cases) (auto simp: facts intro!: over)
  next
    assume "promote_step t s s' new accepted"
    then show ?thesis using t old st by (cases rule: promote_step.cases) (auto simp: facts intro!: over)
  next
    assume "steer_step t s s' new accepted"
    then show ?thesis using t old st
    proof (cases rule: steer_step.cases)
      case (steering_failed s1 m' now x' r rq)
      then have "qs_journal s1 = qs_journal s" "qs_queues s1 = qs_queues s" by (simp_all split: option.splits)
      then show ?thesis using steering_failed t old by (auto simp: facts intro!: restored)
    qed (auto simp: facts intro!: over)
  qed
qed

section \<open>The invariant of the running service\<close>

definition held_ids :: "task list \<Rightarrow> string list" where
  "held_ids ts = map (\<lambda>(_, m). pm_id m) (List.map_filter held ts)"

definition steer_ids :: "task list \<Rightarrow> string set" where
  "steer_ids ts = {i. \<exists>x. Steer_Row x i \<in> set ts}"

definition task_ok :: "string set \<Rightarrow> task \<Rightarrow> bool" where
  "task_ok old t \<longleftrightarrow> (\<forall>x m. held t = Some (x, m) \<longrightarrow> storable m \<and> (pm_id m \<in> old \<longrightarrow> pm_recovery m \<noteq> None \<and> \<not> requeues t))"

definition queue_inv :: "queue_system \<Rightarrow> bool" where
  "queue_inv S \<longleftrightarrow> mirror (sy_state S) \<and>
     pr_id ` set (qs_journal (sy_state S)) \<union> set (held_ids (sy_tasks S)) \<union> steer_ids (sy_tasks S) \<union> sy_now S \<union> sy_before S \<subseteq> sy_used S \<and>
     distinct (held_ids (sy_tasks S)) \<and> set (held_ids (sy_tasks S)) \<inter> sy_now S = {} \<and>
     steer_ids (sy_tasks S) \<inter> sy_before S = {} \<and>
     in_delivery (qs_journal (sy_state S)) (set (held_ids (sy_tasks S)) \<union> sy_now S) \<and>
     not_plain (qs_journal (sy_state S)) (sy_before S) \<and> (\<forall>t \<in> set (sy_tasks S). task_ok (sy_before S) t)"

lemma queue_invI:
  assumes "mirror (sy_state S)"
    and "pr_id ` set (qs_journal (sy_state S)) \<subseteq> sy_used S" "set (held_ids (sy_tasks S)) \<subseteq> sy_used S"
    "steer_ids (sy_tasks S) \<subseteq> sy_used S" "sy_now S \<subseteq> sy_used S" "sy_before S \<subseteq> sy_used S"
    and "distinct (held_ids (sy_tasks S))" "set (held_ids (sy_tasks S)) \<inter> sy_now S = {}" "steer_ids (sy_tasks S) \<inter> sy_before S = {}"
    and "in_delivery (qs_journal (sy_state S)) (set (held_ids (sy_tasks S)) \<union> sy_now S)"
    and "not_plain (qs_journal (sy_state S)) (sy_before S)" "\<forall>t \<in> set (sy_tasks S). task_ok (sy_before S) t"
  shows "queue_inv S"
  using assms unfolding queue_inv_def by blast

lemma queue_invD:
  assumes "queue_inv S"
  shows "mirror (sy_state S)"
    "pr_id ` set (qs_journal (sy_state S)) \<subseteq> sy_used S" "set (held_ids (sy_tasks S)) \<subseteq> sy_used S"
    "steer_ids (sy_tasks S) \<subseteq> sy_used S" "sy_now S \<subseteq> sy_used S" "sy_before S \<subseteq> sy_used S"
    "distinct (held_ids (sy_tasks S))" "set (held_ids (sy_tasks S)) \<inter> sy_now S = {}" "steer_ids (sy_tasks S) \<inter> sy_before S = {}"
    "in_delivery (qs_journal (sy_state S)) (set (held_ids (sy_tasks S)) \<union> sy_now S)"
    "not_plain (qs_journal (sy_state S)) (sy_before S)" "\<forall>t \<in> set (sy_tasks S). task_ok (sy_before S) t"
  using assms unfolding queue_inv_def by blast+

lemma held_ids_simps [simp]:
  "held_ids [] = []" "held_ids (ts @ us) = held_ids ts @ held_ids us"
  "held_ids (t # ts) = (case held t of None \<Rightarrow> [] | Some (x, m) \<Rightarrow> [pm_id m]) @ held_ids ts"
  by (auto simp: held_ids_def map_filter_simps map_filter_def split: option.splits)

lemma steer_ids_simps [simp]:
  "steer_ids [] = {}" "steer_ids (ts @ us) = steer_ids ts \<union> steer_ids us"
  "steer_ids (t # ts) = (case t of Steer_Row x i \<Rightarrow> {i} | _ \<Rightarrow> {}) \<union> steer_ids ts"
  by (auto simp: steer_ids_def split: task.splits)

lemma held_Some_no_steer: "held t = Some y \<Longrightarrow> (case t of Steer_Row x i \<Rightarrow> {i} | _ \<Rightarrow> {}) = {}"
  by (cases t) auto

lemma queue_inv_start: "queue_inv (start_system mail)"
  by (simp add: queue_inv_def start_system_def mirror_def journal_ok_def queue_of_def visible_rows_def in_delivery_def not_plain_def)

text \<open>An operation that leaves every message where it is.\<close>

lemma inv_kept:
  assumes inv: "queue_inv S" and s': "mirror s'" and kept: "\<forall>k. kept (qs_journal (sy_state S)) (qs_journal s') k"
    and ids: "pr_id ` set (qs_journal s') \<subseteq> pr_id ` set (qs_journal (sy_state S))"
  shows "queue_inv (S\<lparr>sy_state := s'\<rparr>)"
proof -
  have "in_delivery (qs_journal s') (set (held_ids (sy_tasks S)) \<union> sy_now S)"
    by (rule in_delivery_kept [where j = "qs_journal (sy_state S)"]) (use inv kept in \<open>simp_all add: queue_inv_def\<close>)
  moreover have "not_plain (qs_journal s') (sy_before S)"
    by (rule not_plain_kept [where j = "qs_journal (sy_state S)"]) (use inv kept in \<open>simp_all add: queue_inv_def\<close>)
  ultimately show ?thesis using inv s' ids by (auto simp: queue_inv_def)
qed

text \<open>A claim: the claimed message was held by nobody and its delivery was never accepted in this run.\<close>

lemma inv_claim:
  assumes inv: "queue_inv S" and q: "qs_queues (sy_state S) x = Some queue" and m: "find P queue = Some m"
    and run: "claim_where r x P queue m (sy_state S) = Inr (m', s1)"
    and s': "qs_journal s' = qs_journal s1" "qs_queues s' = qs_queues s1"
    and t: "held t = Some (x, m)" "pm_id m \<in> sy_before S \<longrightarrow> \<not> requeues t"
    and ts: "sy_tasks S = before @ old @ after" "held_ids old = []"
  shows "queue_inv (S\<lparr>sy_state := s', sy_tasks := before @ t # after\<rparr>)"
    "pm_id m \<notin> set (held_ids (sy_tasks S)) \<union> sy_now S" "pm_id m \<in> sy_before S \<longrightarrow> pm_recovery m \<noteq> None"
proof -
  have mir: "mirror (sy_state S)" using inv by (simp add: queue_inv_def)
  note c = claim_where_mirror [OF mir q m run]
  obtain r0 where r0: "r0 \<in> set (qs_journal (sy_state S))" "pr_id r0 = pm_id m" "\<not> launching r0"
    "pm_recovery m = recovery_of_state (pr_state r0)" "readable r0" using c(6) by blast
  show free: "pm_id m \<notin> set (held_ids (sy_tasks S)) \<union> sy_now S"
  proof
    assume "pm_id m \<in> set (held_ids (sy_tasks S)) \<union> sy_now S"
    then show False using inv r0(1-3) by (auto simp: queue_inv_def in_delivery_def)
  qed
  show warned: "pm_id m \<in> sy_before S \<longrightarrow> pm_recovery m \<noteq> None"
  proof
    assume "pm_id m \<in> sy_before S"
    then have "pr_state r0 \<noteq> STATE_PENDING" using inv r0(1,2) by (simp add: queue_inv_def not_plain_def)
    then show "pm_recovery m \<noteq> None" using r0(4,5) recovery_of_state_None [of "pr_state r0"] by (simp add: readable_def)
  qed
  let ?S = "S\<lparr>sy_state := s', sy_tasks := before @ t # after\<rparr>"
  have ids: "held_ids (before @ t # after) = held_ids before @ pm_id m # held_ids after"
    "held_ids (sy_tasks S) = held_ids before @ held_ids after" using t(1) ts by simp_all
  have steer: "steer_ids (before @ t # after) \<subseteq> steer_ids (sy_tasks S)"
    using held_Some_no_steer [OF t(1)] ts(1) by auto
  have mir': "mirror s'" using c(2) mirror_same [OF s'] by simp
  have out: "in_delivery (qs_journal s') (set (held_ids (before @ t # after)) \<union> sy_now S)"
  proof -
    have "in_delivery (qs_journal s1) (set (held_ids (sy_tasks S)) \<union> sy_now S)"
      by (rule in_delivery_others [OF _ c(3) free]) (use inv in \<open>simp_all add: queue_inv_def\<close>)
    then show ?thesis using c(5) unfolding s'(1) ids by (auto simp: in_delivery_def)
  qed
  have plain: "not_plain (qs_journal s') (sy_before S)"
    unfolding not_plain_def s'(1)
  proof (intro ballI impI)
    fix r' assume r': "r' \<in> set (qs_journal s1)" "pr_id r' \<in> sy_before S"
    show "pr_state r' \<noteq> STATE_PENDING"
    proof (cases "pr_id r' = pm_id m")
      case True
      then show ?thesis using c(5) [OF r'(1)] launching_not_pending by blast
    next
      case False
      obtain r where r: "r \<in> set (qs_journal (sy_state S))" "pr_id r = pr_id r'" "pr_state r \<noteq> STATE_PENDING \<Longrightarrow> pr_state r' \<noteq> STATE_PENDING"
        using keptE [OF c(3) [OF False] r'(1) refl] by metis
      then show ?thesis using inv r'(2) by (simp add: queue_inv_def not_plain_def)
    qed
  qed
  have ok: "task_ok (sy_before S) t" using t c(7) warned by (simp add: task_ok_def)
  have used: "pm_id m \<in> sy_used S" using queue_invD(2) [OF inv] r0(1,2) by (metis image_eqI subsetD)
  have set_ids: "set (held_ids (before @ t # after)) = insert (pm_id m) (set (held_ids (sy_tasks S)))"
    unfolding ids by auto
  note i = queue_invD [OF inv]
  have sel: "sy_state ?S = s'" "sy_tasks ?S = before @ t # after" "sy_used ?S = sy_used S" "sy_now ?S = sy_now S" "sy_before ?S = sy_before S"
    by simp_all
  show "queue_inv ?S"
  proof (rule queue_invI; (simp only: sel)?)
    show "distinct (held_ids (before @ t # after))" using i(7) free unfolding ids by auto
    show "\<forall>u \<in> set (before @ t # after). task_ok (sy_before S) u" using i(12) ok ts(1) by auto
    show "pr_id ` set (qs_journal s') \<subseteq> sy_used S" unfolding s'(1) c(4) by (rule i(2))
    show "set (held_ids (before @ t # after)) \<subseteq> sy_used S" unfolding set_ids using i(3) used by blast
    show "steer_ids (before @ t # after) \<subseteq> sy_used S" using i(4) steer by blast
    show "set (held_ids (before @ t # after)) \<inter> sy_now S = {}" unfolding set_ids using i(8) free by blast
    show "steer_ids (before @ t # after) \<inter> sy_before S = {}" using i(9) steer by blast
  qed (fact mir' i(5) i(6) out plain)+
qed

text \<open>A task that ends or goes on.\<close>

lemma inv_task:
  assumes inv: "queue_inv S" and ts: "sy_tasks S = before @ t # after" and t: "held t = Some (x, m)"
    and step: "task_step t (sy_state S) s' new accepted"
  shows "queue_inv (S\<lparr>sy_state := s', sy_tasks := before @ new @ after, sy_now := sy_now S \<union> accept t accepted\<rparr>)"
proof -
  let ?j = "qs_journal (sy_state S)" and ?old = "pm_id m \<in> sy_before S"
  have mir: "mirror (sy_state S)" and ok: "task_ok (sy_before S) t" using inv ts by (auto simp: queue_inv_def)
  have ids: "held_ids (sy_tasks S) = held_ids before @ pm_id m # held_ids after" using t by (simp add: ts)
  have steer: "steer_ids (sy_tasks S) = steer_ids before \<union> steer_ids after" using held_Some_no_steer [OF t] by (simp add: ts)
  have out: "in_delivery ?j {pm_id m}" using inv ids by (auto simp: queue_inv_def in_delivery_def)
  have storable: "storable m" and old: "?old \<longrightarrow> pm_recovery m \<noteq> None \<and> \<not> requeues t" using ok t by (auto simp: task_ok_def)
  have acc: "accept t accepted = (if accepted then {pm_id m} else {})" by (simp add: accept_def t)
  from task_step_held [OF step t mir out storable old] show ?thesis
  proof (elim disjE exE conjE)
    assume new: "new = []" and left: "left_as (sy_state S) s' m {st. \<not> accepted \<and> (?old \<longrightarrow> st \<noteq> STATE_PENDING)}"
    have l: "mirror s'" "\<And>k. k \<noteq> pm_id m \<Longrightarrow> kept ?j (qs_journal s') k" "pr_id ` set (qs_journal s') \<subseteq> pr_id ` set ?j"
      "\<And>r. r \<in> set (qs_journal s') \<Longrightarrow> pr_id r = pm_id m \<Longrightarrow> launching r \<or> \<not> accepted \<and> (?old \<longrightarrow> pr_state r \<noteq> STATE_PENDING)"
      using left by (auto simp: left_as_def)
    let ?rest = "(set (held_ids before) \<union> set (held_ids after) \<union> sy_now S)"
    have notin: "pm_id m \<notin> ?rest" using inv ids by (auto simp: queue_inv_def)
    have "in_delivery (qs_journal s') ?rest"
    proof (rule in_delivery_others [OF _ l(2) notin])
      show "in_delivery ?j ?rest" using inv ids by (auto simp: queue_inv_def in_delivery_def)
    qed
    then have d: "in_delivery (qs_journal s') (?rest \<union> accept t accepted)"
      using l(4) by (auto simp: in_delivery_def acc)
    have p: "not_plain (qs_journal s') (sy_before S)"
      unfolding not_plain_def
    proof (intro ballI impI)
      fix r' assume r': "r' \<in> set (qs_journal s')" "pr_id r' \<in> sy_before S"
      show "pr_state r' \<noteq> STATE_PENDING"
      proof (cases "pr_id r' = pm_id m")
        case True
        then show ?thesis using l(4) [OF r'(1)] r'(2) launching_not_pending by metis
      next
        case False
        obtain r where "r \<in> set ?j" "pr_id r = pr_id r'" "pr_state r \<noteq> STATE_PENDING \<Longrightarrow> pr_state r' \<noteq> STATE_PENDING"
          using keptE [OF l(2) [OF False] r'(1) refl] by metis
        then show ?thesis using inv r'(2) by (simp add: queue_inv_def not_plain_def)
      qed
    qed
    note i = queue_invD [OF inv]
    have set_ids: "set (held_ids (sy_tasks S)) = insert (pm_id m) (set (held_ids before) \<union> set (held_ids after))" unfolding ids by auto
    have subset: "accept t accepted \<subseteq> sy_used S" "set (held_ids (before @ new @ after)) = set (held_ids before) \<union> set (held_ids after)"
      "steer_ids (before @ new @ after) = steer_ids (sy_tasks S)"
      using i(3) by (auto simp: acc set_ids steer new)
    let ?S = "S\<lparr>sy_state := s', sy_tasks := before @ new @ after, sy_now := sy_now S \<union> accept t accepted\<rparr>"
    have sel: "sy_state ?S = s'" "sy_tasks ?S = before @ new @ after" "sy_used ?S = sy_used S" "sy_now ?S = sy_now S \<union> accept t accepted"
      "sy_before ?S = sy_before S" by simp_all
    show ?thesis
    proof (rule queue_invI; (simp only: sel subset(2,3))?)
      show "pr_id ` set (qs_journal s') \<subseteq> sy_used S" using l(3) i(2) by (rule order_trans)
      show "set (held_ids before) \<union> set (held_ids after) \<subseteq> sy_used S" using i(3) unfolding set_ids by blast
      show "sy_now S \<union> accept t accepted \<subseteq> sy_used S" using i(5) subset(1) by blast
      show "distinct (held_ids (before @ new @ after))" using i(7) unfolding ids by (simp add: new)
      show "(set (held_ids before) \<union> set (held_ids after)) \<inter> (sy_now S \<union> accept t accepted) = {}"
        using i(7,8) unfolding ids acc by auto
      show "in_delivery (qs_journal s') (set (held_ids before) \<union> set (held_ids after) \<union> (sy_now S \<union> accept t accepted))"
        using d by (simp only: Un_assoc)
      show "\<forall>u \<in> set (before @ new @ after). task_ok (sy_before S) u" using i(12) ts new by auto
    qed (fact l(1) i(4) i(6) i(9) p)+
  next
    fix t' assume new: "new = [t']" "held t' = Some (x, m)" "?old \<longrightarrow> \<not> requeues t'" "\<not> accepted"
      and same: "qs_journal s' = ?j" "qs_queues s' = qs_queues (sy_state S)"
    have noacc: "accept t accepted = {}" using acc new(4) by simp
    have "task_ok (sy_before S) t'" using new(2,3) storable old by (auto simp: task_ok_def)
    moreover have "held_ids (before @ t' # after) = held_ids (sy_tasks S)" using new(2) ids by simp
    moreover have "steer_ids (before @ t' # after) = steer_ids (sy_tasks S)" using held_Some_no_steer [OF new(2)] steer by simp
    ultimately show ?thesis
      using inv mir mirror_same [OF same] noacc unfolding queue_inv_def
      by (auto simp: new(1) same(1) ts simp del: held_ids_simps steer_ids_simps)
  qed
qed

lemma inv_enqueue:
  assumes inv: "queue_inv S" and fresh: "uuid \<notin> sy_used S"
    and run: "enqueue_pending_message chat moving r uuid now x content i origin person (sy_state S) = Inr (mo, s')"
    and new: "new \<in> {[], [Steer_Row x uuid]}"
  shows "queue_inv (S\<lparr>sy_state := s', sy_tasks := sy_tasks S @ new, sy_used := insert uuid (sy_used S)\<rparr>)"
proof -
  let ?j = "qs_journal (sy_state S)"
  have mir: "mirror (sy_state S)" using inv by (simp add: queue_inv_def)
  have "uuid \<notin> pr_id ` set ?j" using inv fresh by (auto simp: queue_inv_def)
  note e = enqueue_mirror [OF mir this run]
  have fresh': "uuid \<notin> set (held_ids (sy_tasks S)) \<union> sy_now S" "uuid \<notin> sy_before S"
    using inv fresh unfolding queue_inv_def by blast+
  have d: "in_delivery (qs_journal s') (set (held_ids (sy_tasks S)) \<union> sy_now S)"
    by (rule in_delivery_others [where j = ?j, OF _ _ fresh'(1)]) (use inv e in \<open>auto simp: queue_inv_def\<close>)
  have p: "not_plain (qs_journal s') (sy_before S)"
  proof (rule not_plain_kept [where j = ?j])
    fix k assume "k \<in> sy_before S"
    then have "k \<noteq> uuid" using fresh'(2) by metis
    then show "kept ?j (qs_journal s') k" using e by blast
  qed (use inv in \<open>simp add: queue_inv_def\<close>)
  have "held_ids new = []" "steer_ids new \<subseteq> {uuid}" "\<forall>t \<in> set new. task_ok (sy_before S) t"
    using new by (auto simp: task_ok_def)
  note n = this and i = queue_invD [OF inv]
  let ?S = "S\<lparr>sy_state := s', sy_tasks := sy_tasks S @ new, sy_used := insert uuid (sy_used S)\<rparr>"
  have sel: "sy_state ?S = s'" "sy_tasks ?S = sy_tasks S @ new" "sy_used ?S = insert uuid (sy_used S)" "sy_now ?S = sy_now S"
    "sy_before ?S = sy_before S" by simp_all
  show ?thesis
  proof (rule queue_invI; (simp only: sel held_ids_simps(2) steer_ids_simps(2) n(1) append_Nil2)?)
    show "pr_id ` set (qs_journal s') \<subseteq> insert uuid (sy_used S)" using e i(2) by blast
    show "steer_ids (sy_tasks S) \<union> steer_ids new \<subseteq> insert uuid (sy_used S)" using i(4) n(2) by blast
    show "(steer_ids (sy_tasks S) \<union> steer_ids new) \<inter> sy_before S = {}" using i(9) n(2) fresh'(2) by blast
    show "\<forall>t \<in> set (sy_tasks S @ new). task_ok (sy_before S) t" using i(12) n(3) by auto
    show "set (held_ids (sy_tasks S)) \<subseteq> insert uuid (sy_used S)" "sy_now S \<subseteq> insert uuid (sy_used S)" "sy_before S \<subseteq> insert uuid (sy_used S)"
      using i(3,5,6) by blast+
    show "mirror s'" using e by blast
  qed (fact i(7) i(8) d p)+
qed

text \<open>A restart: every task is gone, every row is recovered.\<close>

lemma recover_queues_ok:
  assumes s: "mirror s"
  obtains s' where "recover_queues s = Inr s'" "mirror s'"
    "qs_journal s' = map recover_state (filter (survives (qs_mail s)) (qs_journal s))" "qs_promotions s' = {}"
proof -
  let ?j = "map recover_state (filter (survives (qs_mail s)) (qs_journal s))"
  obtain q where q: "recover_pending_messages (qs_mail s) (qs_journal s) = Inr (q, ?j)"
    "\<And>y. q y = (let l = queue_of ?j y in if l = [] then None else Some l)"
    using recover_pending_messages_ok [OF mirrorD(1) [OF s], of "qs_mail s"] by metis
  let ?s = "s\<lparr>qs_journal := ?j, qs_queues := q, qs_promotions := {}\<rparr>"
  have "journal_ok ?j" by (rule recover_rows_ok(1) [OF filter_rows_ok [OF mirrorD(1) [OF s]]])
  then have "mirror ?s" by (rule mirrorI) (simp_all add: q(2) Let_def)
  then show ?thesis by (intro that [of ?s]) (simp_all add: recover_queues_def q(1))
qed

lemma recovered_not_pending: "pr_state (recover_state r) \<noteq> STATE_PENDING"
  by (simp add: recover_state_def delivery_words)

lemma inv_restart:
  assumes inv: "queue_inv S" and run: "recover_queues (sy_state S) = Inr s'"
  shows "queue_inv (S\<lparr>sy_state := s', sy_tasks := [], sy_before := sy_before S \<union> sy_now S, sy_now := {}\<rparr>)"
proof -
  note i = queue_invD [OF inv]
  have s': "mirror s'" "qs_journal s' = map recover_state (filter (survives (qs_mail (sy_state S))) (qs_journal (sy_state S)))"
    using recover_queues_ok [OF i(1)] run by (metis Inr_inject)+
  have "pr_id ` set (qs_journal s') \<subseteq> pr_id ` set (qs_journal (sy_state S))"
    unfolding s'(2) by (auto simp: recover_state_def)
  moreover have "not_plain (qs_journal s') (sy_before S \<union> sy_now S)"
    using recovered_not_pending by (auto simp: not_plain_def s'(2))
  ultimately show ?thesis using i(2,5,6) s'(1) by (intro queue_invI) (auto simp: in_delivery_def)
qed

lemma claim_next_where:
  assumes "claim_next r x s = Inr (Some (m, s'))"
  obtains queue where "qs_queues s x = Some queue" "find (\<lambda>m. pm_recovery m = None) queue = Some m" "x \<notin> qs_promotions s"
    "claim_where r x (\<lambda>m. pm_recovery m = None) queue m s = Inr (m, s')" "pm_recovery m = None"
proof -
  obtain queue m0 where q: "qs_queues s x = Some queue" "find (\<lambda>m. pm_recovery m = None) queue = Some m0" "x \<notin> qs_promotions s"
    "claim_where r x (\<lambda>m. pm_recovery m = None) queue m0 s = Inr (m, s')"
    using assms by (auto simp: claim_next_def and_then_Inr_iff split: if_splits option.splits)
  then have m: "m0 = m" by (auto simp: claim_where_def and_then_Inr_iff)
  have "pm_recovery m = None" using find_Some_mem [OF q(2)] by (simp add: m)
  from that [OF q(1) q(2) [unfolded m] q(3) q(4) [unfolded m] this] show ?thesis .
qed

lemma claim_named_where:
  assumes "claim_named r x i s = Inr (m, s')"
  obtains queue s1 where "qs_queues s x = Some queue" "find (\<lambda>m. pm_id m = i) queue = Some m" "x \<notin> qs_promotions s" "pm_id m = i"
    "claim_where r x (\<lambda>m. pm_id m = i) queue m s = Inr (m, s1)" "qs_journal s' = qs_journal s1" "qs_queues s' = qs_queues s1"
proof -
  obtain queue m0 s1 where q: "qs_queues s x = Some queue" "find (\<lambda>m. pm_id m = i) queue = Some m0" "x \<notin> qs_promotions s"
    "claim_where r x (\<lambda>m. pm_id m = i) queue m0 s = Inr (m, s1)" "s' = s1\<lparr>qs_promotions := insert x (qs_promotions s1)\<rparr>"
    using assms by (auto simp: claim_named_def and_then_Inr_iff split: if_splits option.splits)
  then have "m = m0" by (auto simp: claim_where_def and_then_Inr_iff)
  moreover have "pm_id m0 = i" using find_Some_mem [OF q(2)] by simp
  ultimately show ?thesis using q by (intro that [of queue s1]) simp_all
qed

lemma inv_service:
  assumes inv: "queue_inv S" and step: "service_step (sy_state S) s' new"
  shows "queue_inv (S\<lparr>sy_state := s', sy_tasks := sy_tasks S @ new\<rparr>)"
proof -
  have mir: "mirror (sy_state S)" by (rule queue_invD(1) [OF inv])
  have same: "queue_inv (S\<lparr>sy_state := s'\<rparr>)" if "mirror s' \<and> (\<forall>k. kept (qs_journal (sy_state S)) (qs_journal s') k) \<and>
      pr_id ` set (qs_journal s') \<subseteq> pr_id ` set (qs_journal (sy_state S))"
    using that by (intro inv_kept [OF inv]) simp_all
  have alike: "queue_inv (S\<lparr>sy_state := s'\<rparr>)" if "qs_journal s' = qs_journal (sy_state S)" "qs_queues s' = qs_queues (sy_state S)"
    using mirror_same [OF that] mir that(1) by (intro same) simp
  from step show ?thesis
  proof (cases rule: service_step.cases)
    case (op_cancel r x i)
    then show ?thesis using same [OF cancel_mirror [OF mir]] by simp
  next
    case (op_clear r x)
    then show ?thesis using same [OF clear_mirror [OF mir]] by simp
  next
    case (op_pause r x)
    then show ?thesis using same [OF pause_mirror [OF mir]] by simp
  next
    case (op_reconcile r x collected)
    then show ?thesis using same [OF reconcile_mirror [OF mir]] by simp
  next
    case (op_stop x)
    then show ?thesis using alike by (simp add: same_rows)
  next
    case (op_mail opn handed mail)
    then show ?thesis using alike by simp
  next
    case (op_drain r x m)
    obtain queue where q: "qs_queues (sy_state S) x = Some queue" "find (\<lambda>m. pm_recovery m = None) queue = Some m"
      "claim_where r x (\<lambda>m. pm_recovery m = None) queue m (sy_state S) = Inr (m, s')"
      by (rule claim_next_where [OF op_drain(2)], rule that)
    show ?thesis using inv_claim(1) [OF inv q refl refl, of "Popped x m" "sy_tasks S" "[]" "[]"] by (simp add: op_drain(1))
  next
    case (op_claim r x i m p)
    obtain queue s1 where q: "qs_queues (sy_state S) x = Some queue" "find (\<lambda>m. pm_id m = i) queue = Some m"
      "claim_where r x (\<lambda>m. pm_id m = i) queue m (sy_state S) = Inr (m, s1)" "qs_journal s' = qs_journal s1" "qs_queues s' = qs_queues s1"
      by (rule claim_named_where [OF op_claim(2)], rule that)
    have "\<not> requeues (Claimed x m p)" using op_claim(3) by (cases p) simp_all
    then show ?thesis using inv_claim(1) [OF inv q, of "Claimed x m p" "sy_tasks S" "[]" "[]"] by (simp add: op_claim(1))
  qed
qed

lemma inv_step: "queue_inv S \<Longrightarrow> queue_step S S' \<Longrightarrow> queue_inv S'"
proof (erule queue_step.cases, goal_cases)
  case 1
  then show ?case using inv_enqueue by (simp only:)
next
  case 2
  then show ?case using inv_service by (simp only:)
next
  case (3 S0 before t after s' new accepted)
  show ?case
  proof (cases "held t")
    case (Some y)
    then obtain x m where "held t = Some (x, m)" by (cases y) simp
    then show ?thesis using 3 inv_task by (simp only:)
  next
    case None
    then obtain x i where t: "t = Steer_Row x i" by (cases t) simp_all
    have noacc: "accept t accepted = {}" by (simp add: accept_def t)
    note i = queue_invD [OF 3(1)]
    have "i \<notin> sy_before S0" using i(9) by (auto simp: 3 t)
    have "steer_step (Steer_Row x i) (sy_state S0) s' new accepted"
      using 3(5) by (auto simp: t task_step_def elim: drain_step.cases multitask_step.cases promote_step.cases)
    then show ?thesis unfolding t
    proof (cases rule: steer_step.cases)
      case (steer_row r m rq)
      obtain queue s1 where q: "qs_queues (sy_state S0) x = Some queue" "find (\<lambda>m. pm_id m = i) queue = Some m"
        "claim_where r x (\<lambda>m. pm_id m = i) queue m (sy_state S0) = Inr (m, s1)" "qs_journal s' = qs_journal s1"
        "qs_queues s' = qs_queues s1" "pm_id m = i"
        by (rule claim_named_where [OF steer_row(3)], rule that)
      have "queue_inv (S0\<lparr>sy_state := s', sy_tasks := before @ Claimed x m (For_Steer rq) # after\<rparr>)"
        using inv_claim(1) [OF _ q(1-5), of "Claimed x m (For_Steer rq)" before "[t]" after] 3 \<open>i \<notin> sy_before S0\<close> q(6) by (simp add: t)
      then show ?thesis using 3(3) noacc steer_row(1) by (simp add: t)
    next
      case steer_row_gone
      have "queue_inv (S0\<lparr>sy_tasks := before @ after\<rparr>)"
        using i unfolding 3(2) by (intro queue_invI) (auto simp: t 3(4))
      then show ?thesis using 3(3) noacc steer_row_gone by (simp add: t)
    qed
  qed
next
  case 4
  then show ?case using inv_restart by (simp only:)
qed

interpretation follow_ups: invariant_system queue_step queue_inv
  by unfold_locales (rule inv_step)

section \<open>What the queue promises\<close>

lemma reachable: "queue_step\<^sup>*\<^sup>* (start_system mail) S \<Longrightarrow> queue_inv S"
  by (rule follow_ups.runs [OF _ queue_inv_start])



text \<open>C16: a restart loses no follow-up and sends none: recovery succeeds whatever was going on, shows every
  row of the journal again with a status, unsent for those that waited and delivery-unknown for those a
  task held, except the copies of inbox messages the agent has collected, and nothing drains until the
  user acts.\<close>

theorem restart_keeps_follow_ups:
  assumes "queue_step\<^sup>*\<^sup>* (start_system mail) S"
  shows "\<exists>s'. recover_queues (sy_state S) = Inr s' \<and>
    (\<forall>r \<in> set (qs_journal (sy_state S)). survives (qs_mail (sy_state S)) r \<longrightarrow>
       (message_of r)\<lparr>pm_recovery := Some (if launching r \<or> pr_state r = STATE_DELIVERY_UNKNOWN
          then RECOVERED_DELIVERY_UNKNOWN else RECOVERED_UNSENT)\<rparr> \<in> set (queue_at s' (pr_session r))) \<and>
    (\<forall>t \<in> set (sy_tasks S). \<forall>x m. held t = Some (x, m) \<longrightarrow>
       (\<forall>r \<in> set (qs_journal (sy_state S)). pr_id r = pm_id m \<longrightarrow> launching r)) \<and>
    (\<forall>refuse x. claim_next refuse x s' = Inr None)"
proof -
  note inv = reachable [OF assms]
  note i = queue_invD [OF inv]
  obtain s' where s': "recover_queues (sy_state S) = Inr s'" "mirror s'" "qs_promotions s' = {}"
    "qs_journal s' = map recover_state (filter (survives (qs_mail (sy_state S))) (qs_journal (sy_state S)))"
    using recover_queues_ok [OF i(1)] by metis
  have ok: "\<forall>r \<in> set (qs_journal (sy_state S)). readable r" using mirrorD(1) [OF i(1)] by (simp add: journal_ok_def)
  have "(message_of r)\<lparr>pm_recovery := Some (if launching r \<or> pr_state r = STATE_DELIVERY_UNKNOWN
          then RECOVERED_DELIVERY_UNKNOWN else RECOVERED_UNSENT)\<rparr> \<in> set (queue_at s' (pr_session r))"
    if r: "r \<in> set (qs_journal (sy_state S))" "survives (qs_mail (sy_state S)) r" for r
  proof -
    note rec = recover_state_row [OF ok [rule_format, OF r(1)]]
    have "recover_state r \<in> set (visible_rows (pr_session r) (qs_journal s'))"
      using r rec(2,4) by (auto simp: visible_rows_mem s'(4))
    then have "message_of (recover_state r) \<in> set (queue_of (qs_journal s') (pr_session r))" by (auto simp: queue_of_def)
    then show ?thesis unfolding rec(6) mirrorD(2) [OF s'(2)] by (simp add: launching_def)
  qed
  moreover have "launching r"
    if t: "t \<in> set (sy_tasks S)" "held t = Some (x, m)" and r: "r \<in> set (qs_journal (sy_state S))" "pr_id r = pm_id m"
    for t x m r
  proof -
    obtain before after where "sy_tasks S = before @ t # after" using split_list [OF t(1)] by blast
    then have "pm_id m \<in> set (held_ids (sy_tasks S))" using t(2) by simp
    then show ?thesis using i(10) r by (simp add: in_delivery_def)
  qed
  moreover have "claim_next refuse x s' = Inr None" for refuse x
  proof (cases "qs_queues s' x")
    case None
    then show ?thesis by (simp add: claim_next_def)
  next
    case (Some l)
    then have l: "l = queue_of (qs_journal s') x" using mirrorD(4) [OF s'(2)] by blast
    have "pm_recovery m \<noteq> None" if "m \<in> set l" for m
    proof -
      obtain r where "r \<in> set (qs_journal s')" "pm_recovery m = recovery_of_state (pr_state r)"
        using queue_of_mem [OF mirrorD(1) [OF s'(2)], of m x] \<open>m \<in> set l\<close> unfolding l by metis
      then show ?thesis by (auto simp: s'(4) recover_state_def recovery_of_state_def)
    qed
    then have "find (\<lambda>m. pm_recovery m = None) l = None" unfolding find_None_iff by blast
    then show ?thesis using Some by (simp add: claim_next_def)
  qed
  ultimately show ?thesis using s'(1) by blast
qed

section \<open>A run\<close>

definition sample_chat :: chat_settings where
  "sample_chat = \<lparr>ch_model = ''opus'', ch_effort = None, ch_permission = ''auto-approve''\<rparr>"

definition sample_input :: follow_up_input where
  "sample_input = \<lparr>fi_provider = None, fi_model_label = None, fi_model_id = None, fi_effort = None, fi_fast = False,
     fi_attachments = None, fi_references = None\<rparr>"

definition sample_follow_up :: pending_message where
  "sample_follow_up = queued_message ''m1'' ''s'' ''hi'' sample_input None True ''t'' (None, None, None, None, False)"

definition sample_queue :: queue_state where
  "sample_queue = \<lparr>qs_journal = [row_of_message sample_follow_up 0], qs_queues = [''s'' \<mapsto> [sample_follow_up]],
     qs_promotions = {}, qs_mail = []\<rparr>"

definition sample_system :: queue_system where
  "sample_system = \<lparr>sy_state = sample_queue, sy_tasks = [], sy_used = {''m1''}, sy_now = {}, sy_before = {}\<rparr>"

lemma sample_enqueue:
  "enqueue_pending_message (Inr sample_chat) None None ''m1'' ''t'' ''s'' ''hi'' sample_input None True (sy_state (start_system []))
     = Inr (Some sample_follow_up, sample_queue)"
  by (simp add: enqueue_pending_message_def start_system_def queue_at_def MAX_PENDING_QUEUE_def queued_choice_def picks_model_def
      sample_input_def sample_chat_def attempt_def replace_session_queue_def launching_positions_def free_position.simps
      insert_message_def sample_queue_def sample_follow_up_def Let_def)

lemma sample_run: "queue_step\<^sup>*\<^sup>* (start_system []) sample_system"
proof -
  have "queue_step (start_system []) ((start_system [])\<lparr>sy_state := sample_queue, sy_tasks := sy_tasks (start_system []) @ [],
      sy_used := insert ''m1'' (sy_used (start_system []))\<rparr>)"
    by (rule step_enqueue [OF sample_enqueue]) (simp_all add: start_system_def)
  then have "queue_step (start_system []) sample_system" by (simp add: start_system_def sample_system_def)
  then show ?thesis by blast
qed

lemma sample_claim: "\<exists>s'. claim_next None ''s'' sample_queue = Inr (Some (sample_follow_up, s'))"
  by (simp add: claim_next_def sample_queue_def sample_follow_up_def queued_message_def sample_input_def claim_where_def attempt_def
      mark_message_launching_def claimable_def row_of_message_def state_of_recovery_def delivery_words)



theorem restart_keeps_follow_ups_witness:
  "\<exists>s'. recover_queues (sy_state sample_system) = Inr s' \<and>
     sample_follow_up\<lparr>pm_recovery := Some RECOVERED_UNSENT\<rparr> \<in> set (queue_at s' ''s'') \<and> claim_next None ''s'' s' = Inr None"
proof -
  let ?r = "row_of_message sample_follow_up 0"
  have st: "storable sample_follow_up" by (simp add: storable_def sample_follow_up_def queued_message_def)
  have r: "?r \<in> set (qs_journal (sy_state sample_system))" "pr_session ?r = ''s''" "message_of ?r = sample_follow_up"
    using row_of_message_readable [OF st] by (simp_all add: sample_system_def sample_queue_def) (simp add: sample_follow_up_def queued_message_def)
  have u: "pr_state ?r \<noteq> STATE_DELIVERY_UNKNOWN"
    by (simp add: row_of_message_def sample_follow_up_def queued_message_def state_of_recovery_def delivery_words)
  have sv: "survives (qs_mail (sy_state sample_system)) ?r"
    unfolding survives_def r(3) by (simp add: inbox_id_def sample_follow_up_def queued_message_def)
  obtain s' where s': "recover_queues (sy_state sample_system) = Inr s'" "\<forall>refuse x. claim_next refuse x s' = Inr None"
    and shown: "\<forall>r \<in> set (qs_journal (sy_state sample_system)). survives (qs_mail (sy_state sample_system)) r \<longrightarrow>
       (message_of r)\<lparr>pm_recovery := Some (if launching r \<or> pr_state r = STATE_DELIVERY_UNKNOWN
          then RECOVERED_DELIVERY_UNKNOWN else RECOVERED_UNSENT)\<rparr> \<in> set (queue_at s' (pr_session r))"
    using restart_keeps_follow_ups [OF sample_run] by (elim exE conjE) (rule that)
  have "sample_follow_up\<lparr>pm_recovery := Some RECOVERED_UNSENT\<rparr> \<in> set (queue_at s' ''s'')"
    using shown [rule_format, OF r(1) sv] u r(2) by (simp add: r(3))
  then show ?thesis using s' by blast
qed

end
