(* ===== verification/Launch_Receipts.thy ===== *)
theory Launch_Receipts
  imports Follow_Up_Queue
begin

text \<open>
  The receipts that make a retried \<^verbatim>\<open>session_launch\<close> safe
  (\<^verbatim>\<open>src-tauri/src/persistence/launch_receipts.rs\<close>), with the columns of the session table they read and
  repair (\<^verbatim>\<open>persistence/sessions.rs\<close>). The status column holds its enum, which its \<^verbatim>\<open>CHECK\<close> ensures;
  time stamps are left out.
\<close>

section \<open>Tables\<close>

datatype receipt_status = Pending_Launch | Completed_Launch | Failed_Launch | Uncertain_Launch

fun receipt_status_str :: "receipt_status \<Rightarrow> string" where
  "receipt_status_str Pending_Launch = ''pending''"
| "receipt_status_str Completed_Launch = ''completed''"
| "receipt_status_str Failed_Launch = ''failed''"
| "receipt_status_str Uncertain_Launch = ''uncertain''"

definition parse_receipt_status :: "string \<Rightarrow> receipt_status option" where
  "parse_receipt_status v =
     (if v = ''pending'' then Some Pending_Launch else if v = ''completed'' then Some Completed_Launch
      else if v = ''failed'' then Some Failed_Launch else if v = ''uncertain'' then Some Uncertain_Launch else None)"

lemma receipt_status_round_trip: "parse_receipt_status (receipt_status_str s) = Some s"
  by (cases s) (simp_all add: parse_receipt_status_def)

record launch_receipt =
  lr_caller :: string
  lr_request :: string
  lr_hash :: string
  lr_status :: receipt_status
  lr_session :: string
  lr_workspace :: "string option"
  lr_result :: "string option"
  lr_error_code :: "string option"
  lr_error_message :: "string option"

record lineage_row =
  ls_id :: string
  ls_launched_by :: "string option"
  ls_depth :: int
  ls_kind :: string

record launch_db =
  ld_receipts :: "launch_receipt list"
  ld_sessions :: "lineage_row list"

datatype launch_claim = Claimed_Launch launch_receipt | Existing_Launch launch_receipt

definition LAUNCH_KIND_AGENT :: string where "LAUNCH_KIND_AGENT = ''agent''"
definition LAUNCH_KIND_MULTITASK :: string where "LAUNCH_KIND_MULTITASK = ''multitask''"

definition session_ids :: "launch_db \<Rightarrow> string set" where
  "session_ids db = ls_id ` set (ld_sessions db)"

abbreviation lr_key :: "launch_receipt \<Rightarrow> string \<times> string" where
  "lr_key r \<equiv> (lr_caller r, lr_request r)"

section \<open>Sessions\<close>

record launch_lineage =
  ll_depth :: int
  ll_launched :: nat

definition session_launch_lineage :: "launch_db \<Rightarrow> string \<Rightarrow> launch_lineage" where
  "session_launch_lineage db x =
     \<lparr>ll_depth = (case find (\<lambda>s. ls_id s = x) (ld_sessions db) of None \<Rightarrow> 0 | Some s \<Rightarrow> ls_depth s),
      ll_launched = length (filter (\<lambda>s. ls_launched_by s = Some x \<and> ls_kind s = LAUNCH_KIND_AGENT) (ld_sessions db))\<rparr>"

definition record_session_launch :: "string \<Rightarrow> string \<Rightarrow> int \<Rightarrow> string \<Rightarrow> launch_db \<Rightarrow> launch_db" where
  "record_session_launch x launcher depth kind db =
     db\<lparr>ld_sessions := map (\<lambda>s. if ls_id s = x
          then s\<lparr>ls_launched_by := Some launcher, ls_depth := depth, ls_kind := kind\<rparr> else s) (ld_sessions db)\<rparr>"

text \<open>What the session table's keys do when a session goes: its receipts follow, its children lose it.\<close>

definition delete_session_row :: "string \<Rightarrow> launch_db \<Rightarrow> launch_db" where
  "delete_session_row x db =
     \<lparr>ld_receipts = filter (\<lambda>r. lr_caller r \<noteq> x) (ld_receipts db),
      ld_sessions = map (\<lambda>s. if ls_launched_by s = Some x then s\<lparr>ls_launched_by := None\<rparr> else s)
        (filter (\<lambda>s. ls_id s \<noteq> x) (ld_sessions db))\<rparr>"

section \<open>Receipts\<close>

definition find_receipt :: "launch_db \<Rightarrow> string \<Rightarrow> string \<Rightarrow> launch_receipt option" where
  "find_receipt db c k = find (\<lambda>r. lr_key r = (c, k)) (ld_receipts db)"

definition update_receipts :: "(launch_receipt \<Rightarrow> bool) \<Rightarrow> (launch_receipt \<Rightarrow> launch_receipt) \<Rightarrow> launch_db \<Rightarrow> launch_db" where
  "update_receipts P f db = db\<lparr>ld_receipts := map (\<lambda>r. if P r then f r else r) (ld_receipts db)\<rparr>"

definition new_receipt :: "string \<Rightarrow> string \<Rightarrow> string \<Rightarrow> string \<Rightarrow> launch_receipt" where
  "new_receipt c k hash new =
     \<lparr>lr_caller = c, lr_request = k, lr_hash = hash, lr_status = Pending_Launch, lr_session = new, lr_workspace = None,
      lr_result = None, lr_error_code = None, lr_error_message = None\<rparr>"

definition reopened :: "string \<Rightarrow> launch_receipt \<Rightarrow> launch_receipt" where
  "reopened new r =
     r\<lparr>lr_status := Pending_Launch, lr_session := new, lr_workspace := None, lr_error_code := None, lr_error_message := None\<rparr>"

definition claim_receipt ::
  "string \<Rightarrow> string \<Rightarrow> string \<Rightarrow> string \<Rightarrow> launch_db \<Rightarrow> argmax_error + launch_claim \<times> launch_db"
where
  "claim_receipt c k hash new db =
     (case find_receipt db c k of
        None \<Rightarrow>
          if c \<notin> session_ids db then Inl (sqlite ''FOREIGN KEY constraint failed'')
          else Inr (Claimed_Launch (new_receipt c k hash new), db\<lparr>ld_receipts := ld_receipts db @ [new_receipt c k hash new]\<rparr>)
      | Some r \<Rightarrow>
          if lr_status r = Failed_Launch \<and> lr_hash r = hash
          then Inr (Claimed_Launch (reopened new r), update_receipts (\<lambda>r. lr_key r = (c, k)) (reopened new) db)
          else Inr (Existing_Launch r, db))"

definition uncertain_of :: "launch_receipt list \<Rightarrow> string \<Rightarrow> launch_receipt option" where
  "uncertain_of rs x = find (\<lambda>r. lr_session r = x \<and> lr_status r = Uncertain_Launch) rs"

definition count_unrecorded_launches :: "launch_db \<Rightarrow> string \<Rightarrow> nat" where
  "count_unrecorded_launches db c =
     length (filter (\<lambda>r. lr_caller r = c \<and> lr_status r = Uncertain_Launch \<and>
       list_ex (\<lambda>s. ls_id s = lr_session r \<and> ls_launched_by s = None) (ld_sessions db)) (ld_receipts db))"

text \<open>The repair of one session row; SQLite updates the rows one after the other, so a later row reads the
  depth an earlier one was given.\<close>

definition repair_row :: "launch_receipt list \<Rightarrow> lineage_row list \<Rightarrow> lineage_row \<Rightarrow> lineage_row" where
  "repair_row rs ss s =
     (case uncertain_of rs (ls_id s) of
        Some r \<Rightarrow>
          if ls_launched_by s = None
          then s\<lparr>ls_launched_by := Some (lr_caller r),
                 ls_depth := (case find (\<lambda>c. ls_id c = lr_caller r) ss of None \<Rightarrow> 0 | Some c \<Rightarrow> ls_depth c) + 1,
                 ls_kind := LAUNCH_KIND_AGENT\<rparr>
          else s
      | None \<Rightarrow> s)"

definition unrecorded :: "launch_receipt list \<Rightarrow> lineage_row \<Rightarrow> bool" where
  "unrecorded rs s \<longleftrightarrow> ls_launched_by s = None \<and> uncertain_of rs (ls_id s) \<noteq> None"

fun repair_rows :: "launch_receipt list \<Rightarrow> string list \<Rightarrow> lineage_row list \<Rightarrow> lineage_row list" where
  "repair_rows rs [] ss = ss"
| "repair_rows rs (x # xs) ss =
     repair_rows rs xs (map (\<lambda>s. if ls_id s = x then repair_row rs ss s else s) ss)"

definition reconcile_uncertain_lineage :: "launch_db \<Rightarrow> nat \<times> launch_db" where
  "reconcile_uncertain_lineage db =
     (length (filter (unrecorded (ld_receipts db)) (ld_sessions db)),
      db\<lparr>ld_sessions := repair_rows (ld_receipts db) (map ls_id (ld_sessions db)) (ld_sessions db)\<rparr>)"

definition in_flight :: "string \<Rightarrow> string \<Rightarrow> launch_receipt \<Rightarrow> bool" where
  "in_flight c k r \<longleftrightarrow> lr_key r = (c, k) \<and> lr_status r = Pending_Launch"

definition record_workspace :: "string \<Rightarrow> string \<Rightarrow> string \<Rightarrow> launch_db \<Rightarrow> launch_db" where
  "record_workspace c k w = update_receipts (in_flight c k) (\<lambda>r. r\<lparr>lr_workspace := Some w\<rparr>)"

definition settle_row ::
  "string \<Rightarrow> string \<Rightarrow> receipt_status \<Rightarrow> string option \<Rightarrow> (string \<times> string) option \<Rightarrow> launch_db \<Rightarrow> launch_db"
where
  "settle_row c k status json error =
     update_receipts (in_flight c k) (\<lambda>r.
       r\<lparr>lr_status := status, lr_result := json, lr_error_code := map_option fst error, lr_error_message := map_option snd error\<rparr>)"

definition complete_receipt :: "string \<Rightarrow> string \<Rightarrow> string \<Rightarrow> launch_db \<Rightarrow> launch_db" where
  "complete_receipt c k json = settle_row c k Completed_Launch (Some json) None"

definition fail_receipt :: "string \<Rightarrow> string \<Rightarrow> string \<Rightarrow> string \<Rightarrow> launch_db \<Rightarrow> launch_db" where
  "fail_receipt c k code message = settle_row c k Failed_Launch None (Some (code, message))"

definition mark_receipt_uncertain :: "string \<Rightarrow> string \<Rightarrow> launch_db \<Rightarrow> launch_db" where
  "mark_receipt_uncertain c k = settle_row c k Uncertain_Launch None None"

record recovered_receipts =
  rr_failed :: nat
  rr_uncertain :: nat
  rr_repaired :: nat

definition started_nothing :: "launch_db \<Rightarrow> launch_receipt \<Rightarrow> bool" where
  "started_nothing db r \<longleftrightarrow> lr_status r = Pending_Launch \<and> lr_session r \<notin> session_ids db"

definition recover_orphaned_receipts :: "launch_db \<Rightarrow> recovered_receipts \<times> launch_db" where
  "recover_orphaned_receipts db =
     (let db1 = update_receipts (started_nothing db) (\<lambda>r. r\<lparr>lr_status := Failed_Launch,
            lr_error_code := Some ''LAUNCH_INTERRUPTED'',
            lr_error_message := Some ''Argmax stopped before the session was created, so nothing was started.''\<rparr>) db;
          db2 = update_receipts (\<lambda>r. lr_status r = Pending_Launch) (\<lambda>r. r\<lparr>lr_status := Uncertain_Launch\<rparr>) db1;
          (repaired, db3) = reconcile_uncertain_lineage db2
      in (\<lparr>rr_failed = length (filter (started_nothing db) (ld_receipts db)),
           rr_uncertain = length (filter (\<lambda>r. lr_status r = Pending_Launch) (ld_receipts db1)),
           rr_repaired = repaired\<rparr>, db3))"

end
