(* ===== verification/Launch_Agent.thy ===== *)
theory Launch_Agent
  imports Launch_Receipts
begin

text \<open>
  An agent's \<^verbatim>\<open>session_launch\<close> (\<^verbatim>\<open>src-tauri/src/session_control/actions/launch.rs\<close>, with
  \<^verbatim>\<open>application/session_launch.rs\<close>): the key that makes it safe to retry, the budget it is checked against,
  and what the launched chat runs as. \<^verbatim>\<open>serde_json\<close>'s text of a reply and its inverse, the digest of a
  request, the router and whether SQLite refuses a statement are arguments.
\<close>

section \<open>Errors and replies\<close>

record control_error =
  ce_code :: string
  ce_message :: string

definition protocol_error :: "string \<Rightarrow> string \<Rightarrow> control_error" where
  "protocol_error code message = \<lparr>ce_code = code, ce_message = message\<rparr>"

definition argmax_protocol_error :: "argmax_error \<Rightarrow> control_error" where
  "argmax_protocol_error e =
     (case e of
        InvalidInput issues \<Rightarrow>
          (case issues of [] \<Rightarrow> protocol_error ''INVALID_INPUT'' ''Input is invalid.''
           | i # _ \<Rightarrow> protocol_error (issue_code i) (issue_message i))
      | RecordNotFound kind i \<Rightarrow>
          protocol_error ''RECORD_NOT_FOUND'' (kind @ '' '' @ [CHR 0x27] @ i @ [CHR 0x27] @ '' was not found.'')
      | MigrationDrift detail \<Rightarrow> protocol_error ''MIGRATION_DRIFT'' detail
      | ServiceError sub_code message \<Rightarrow> protocol_error sub_code message)"

record project_check =
  pc_decision :: string
  pc_project_id :: string
  pc_project_name :: string
  pc_reasons :: "string list"

record launched_session =
  ln_session :: string
  ln_workspace :: string
  ln_project :: string
  ln_project_name :: string
  ln_path :: string
  ln_branch :: string
  ln_check :: "project_check option"
  ln_permission :: "permission_mode option"
  ln_requested :: "permission_mode option"
  ln_replayed :: bool

section \<open>Taking a key\<close>

definition MAX_CLIENT_REQUEST_ID_CHARS :: nat where "MAX_CLIENT_REQUEST_ID_CHARS = 128"
definition CHECK_IN_MAX_MINUTES :: nat where "CHECK_IN_MAX_MINUTES = 24 * 60"

text \<open>\<^verbatim>\<open>char::is_control\<close>: the C0 controls and delete, and the C1 controls in UTF-8.\<close>

fun has_control :: "string \<Rightarrow> bool" where
  "has_control [] = False"
| "has_control (c # cs) =
     (let b = (of_char c :: nat)
      in b < 32 \<or> b = 127 \<or> (b = 194 \<and> (case cs of [] \<Rightarrow> False | d # _ \<Rightarrow> 128 \<le> (of_char d :: nat) \<and> (of_char d :: nat) < 160))
         \<or> has_control cs)"

definition check_in_minutes :: "nat option \<Rightarrow> control_error + nat option" where
  "check_in_minutes requested =
     (case requested of None \<Rightarrow> Inr None
      | Some m \<Rightarrow>
          if m = 0 \<or> m > CHECK_IN_MAX_MINUTES
          then Inl (protocol_error ''CHECK_IN_OUT_OF_RANGE''
            (''check_in_minutes is 1 to '' @ nat_text CHECK_IN_MAX_MINUTES @ '' minutes; '' @ nat_text m @
             '' is outside it. Omit it for no check-in.''))
          else Inr (Some m))"

definition valid_request_id :: "string \<Rightarrow> bool" where
  "valid_request_id k \<longleftrightarrow> \<not> is_blank k \<and> char_count k \<le> MAX_CLIENT_REQUEST_ID_CHARS \<and> \<not> has_control k"

definition begin_launch ::
  "string \<Rightarrow> string \<Rightarrow> nat option \<Rightarrow> string \<Rightarrow> string \<Rightarrow> launch_db \<Rightarrow> control_error + launch_claim \<times> launch_db"
where
  "begin_launch c k minutes hash new db =
     and_then (check_in_minutes minutes) (\<lambda>_.
       if \<not> valid_request_id k
       then Inl (protocol_error ''INVALID_INPUT''
         (''clientRequestId must be 1 to '' @ nat_text MAX_CLIENT_REQUEST_ID_CHARS @ '' printable characters.''))
       else case claim_receipt c k hash new db of
              Inl e \<Rightarrow> Inl (argmax_protocol_error e)
            | Inr r \<Rightarrow> Inr r)"

section \<open>Settling a receipt\<close>

text \<open>A launch that is over: its reply or its error. \<open>r1\<close> and \<open>r2\<close> say whether SQLite refuses the two statements.\<close>

definition mark_uncertain ::
  "argmax_error option \<Rightarrow> argmax_error option \<Rightarrow> string \<Rightarrow> string \<Rightarrow> launch_db \<Rightarrow> bool \<times> launch_db"
where
  "mark_uncertain r1 r2 c k db =
     (case r1 of Some _ \<Rightarrow> (False, db)
      | None \<Rightarrow>
          (let db1 = mark_receipt_uncertain c k db
           in case r2 of Some _ \<Rightarrow> (False, db1) | None \<Rightarrow> (True, snd (reconcile_uncertain_lineage db1))))"

definition settle_receipt ::
  "(launched_session \<Rightarrow> string option) \<Rightarrow> argmax_error option \<Rightarrow> argmax_error option \<Rightarrow> string \<Rightarrow> string \<Rightarrow> launch_receipt \<Rightarrow>
   control_error + launched_session \<Rightarrow> launch_db \<Rightarrow> bool \<times> launch_db"
where
  "settle_receipt print r1 r2 c k receipt result db =
     (case result of
        Inr launched \<Rightarrow>
          (case print launched of None \<Rightarrow> (False, db)
           | Some json \<Rightarrow> (case r1 of Some _ \<Rightarrow> (False, db) | None \<Rightarrow> (True, complete_receipt c k json db)))
      | Inl e \<Rightarrow>
          if lr_session receipt \<in> session_ids db then mark_uncertain r1 r2 c k db
          else (case r1 of Some _ \<Rightarrow> (False, db) | None \<Rightarrow> (True, fail_receipt c k (ce_code e) (ce_message e) db)))"

text \<open>The end of the call: a receipt that did not settle is marked when its guard is dropped.\<close>

definition end_launch ::
  "(launched_session \<Rightarrow> string option) \<Rightarrow> argmax_error option \<Rightarrow> argmax_error option \<Rightarrow> argmax_error option \<Rightarrow> argmax_error option \<Rightarrow>
   launch_receipt \<Rightarrow> control_error + launched_session \<Rightarrow> launch_db \<Rightarrow> launch_db"
where
  "end_launch print r1 r2 g1 g2 receipt result db =
     (let (settled, db1) = settle_receipt print r1 r2 (lr_caller receipt) (lr_request receipt) receipt result db
      in if settled then db1 else snd (mark_uncertain g1 g2 (lr_caller receipt) (lr_request receipt) db1))"

section \<open>Answering a retry\<close>

text \<open>The loop of the retry: the receipt is read again until it is settled or the wait is over.\<close>

fun retry_loop ::
  "(string \<Rightarrow> string + launched_session) \<Rightarrow> launch_receipt \<Rightarrow> (argmax_error + launch_receipt option) list \<Rightarrow> control_error + launched_session"
where
  "retry_loop parse r polls =
     (case lr_status r of
        Completed_Launch \<Rightarrow>
          (case parse (case lr_result r of None \<Rightarrow> ''{}'' | Some j \<Rightarrow> j) of
             Inl e \<Rightarrow> Inl (protocol_error ''LAUNCH_RECEIPT_UNREADABLE'' (''The first launch'' @ [CHR 0x27] @ ''s answer could not be read: '' @ e))
           | Inr launched \<Rightarrow> Inr (launched\<lparr>ln_replayed := True\<rparr>))
      | Failed_Launch \<Rightarrow>
          Inl (protocol_error (case lr_error_code r of None \<Rightarrow> ''LAUNCH_FAILED'' | Some e \<Rightarrow> e)
                              (case lr_error_message r of None \<Rightarrow> [] | Some m \<Rightarrow> m))
      | Uncertain_Launch \<Rightarrow>
          Inl (protocol_error ''LAUNCH_OUTCOME_UNCERTAIN''
            (''The first launch with this clientRequestId stopped before it reported back, so it may have started session '' @
             lr_session r @ (case lr_workspace r of None \<Rightarrow> [] | Some w \<Rightarrow> '' in workspace '' @ w) @
             ''. It is not repeated. Check it with session_status; if it is not there, launch again with a new clientRequestId.''))
      | Pending_Launch \<Rightarrow>
          (case polls of
             [] \<Rightarrow> Inl (protocol_error ''LAUNCH_IN_PROGRESS''
               (''The first launch with this clientRequestId is still starting session '' @ lr_session r @
                ''. Ask again with the same key in a moment.''))
           | Inl e # _ \<Rightarrow> Inl (argmax_protocol_error e)
           | Inr None # _ \<Rightarrow> Inl (protocol_error ''LAUNCH_RECEIPT_MISSING'' ''The launch receipt was removed.'')
           | Inr (Some r') # polls \<Rightarrow> retry_loop parse r' polls))"

declare retry_loop.simps [simp del]

definition answer_retry ::
  "(string \<Rightarrow> string + launched_session) \<Rightarrow> string \<Rightarrow> launch_receipt \<Rightarrow> (argmax_error + launch_receipt option) list \<Rightarrow>
   control_error + launched_session"
where
  "answer_retry parse hash r polls =
     (if lr_hash r \<noteq> hash
      then Inl (protocol_error ''LAUNCH_REQUEST_ID_MISMATCH''
        (''clientRequestId '' @ [CHR 0x27] @ lr_request r @ [CHR 0x27] @
         '' was already used in this session with different arguments. Use a new key for a different launch.''))
      else retry_loop parse r polls)"

section \<open>The budget\<close>

definition MAX_LAUNCH_DEPTH :: int where "MAX_LAUNCH_DEPTH = 2"
definition MAX_LAUNCHES_PER_SESSION :: nat where "MAX_LAUNCHES_PER_SESSION = 20"

text \<open>The depth of the launched chat; \<open>coordinator\<close> says that the caller coordinates its Arc now.\<close>

definition check_launch_budget :: "launch_db \<Rightarrow> string \<Rightarrow> bool \<Rightarrow> control_error + int" where
  "check_launch_budget db parent coordinator =
     (let lineage = session_launch_lineage db parent;
          depth = ll_depth lineage + 1
      in if depth > MAX_LAUNCH_DEPTH
         then Inl (protocol_error ''LAUNCH_DEPTH_EXCEEDED''
           (''Launched sessions may go '' @ int_text MAX_LAUNCH_DEPTH @ '' levels deep and this session is already at '' @
            int_text (ll_depth lineage) @ ''. Do the work here, or message a session nearer the top to launch it.''))
         else if \<not> coordinator \<and> ll_launched lineage + count_unrecorded_launches db parent \<ge> MAX_LAUNCHES_PER_SESSION
         then Inl (protocol_error ''LAUNCH_LIMIT_REACHED''
           (''This session has already launched '' @ nat_text MAX_LAUNCHES_PER_SESSION @
            '' sessions, which is the per-session cap. Message one of them instead.''))
         else Inr depth)"

fun looseness :: "permission_mode \<Rightarrow> nat" where
  "looseness AskEachTime = 0"
| "looseness ProviderDefaults = 1"
| "looseness AutoApprove = 2"

definition child_permission_mode :: "permission_mode \<Rightarrow> permission_mode option \<Rightarrow> permission_mode" where
  "child_permission_mode parent requested =
     (case requested of Some r \<Rightarrow> if looseness r \<le> looseness parent then r else parent | None \<Rightarrow> parent)"

section \<open>What the chat runs as\<close>

definition auto_tier_from_model :: "string option \<Rightarrow> control_error + auto_tier option" where
  "auto_tier_from_model model =
     (case model of None \<Rightarrow> Inr None
      | Some m \<Rightarrow>
          if m = ''auto'' then Inr (Some Balanced)
          else if starts_with m ''auto:''
          then (case parse_tier (drop 5 m) of Some t \<Rightarrow> Inr (Some t)
                | None \<Rightarrow> Inl (protocol_error ''INVALID_INPUT'' (''Unknown Auto tier `'' @ drop 5 m @
                    ''`. Use auto, auto:cost, auto:economy, auto:balanced or auto:intelligence.'')))
          else Inr None)"

definition launch_auto_tier :: "string option \<Rightarrow> bool \<Rightarrow> string option \<Rightarrow> control_error + auto_tier option" where
  "launch_auto_tier model provider_named parent_tier =
     (if model \<noteq> None \<or> provider_named then auto_tier_from_model model
      else Inr (case parent_tier of None \<Rightarrow> None | Some t \<Rightarrow> parse_tier t))"

definition DEFAULT_TASK_LABEL :: string where "DEFAULT_TASK_LABEL = ''Local agent task''"
definition MAX_TASK_LABEL_CHARS :: nat where "MAX_TASK_LABEL_CHARS = 64"
definition MAX_TASK_LABEL_BYTES :: nat where "MAX_TASK_LABEL_BYTES = 200"

text \<open>The characters of a text, and as many of them as fit a number of bytes.\<close>

fun chars :: "string \<Rightarrow> string list" where
  "chars [] = []"
| "chars (c # cs) =
     (case chars cs of [] \<Rightarrow> [[c]] | p # ps \<Rightarrow> if char_start (hd p) then [c] # p # ps else (c # p) # ps)"

fun fit_bytes :: "nat \<Rightarrow> string \<Rightarrow> string list \<Rightarrow> string" where
  "fit_bytes n acc [] = acc"
| "fit_bytes n acc (c # cs) = (if length acc + length c > n then acc else fit_bytes n (acc @ c) cs)"

definition task_label :: "string \<Rightarrow> string" where
  "task_label prompt =
     (let first_line = trim (case str_lines prompt of [] \<Rightarrow> [] | l # _ \<Rightarrow> l)
      in if first_line = [] then DEFAULT_TASK_LABEL
         else if char_count first_line \<le> MAX_TASK_LABEL_CHARS \<and> length first_line \<le> MAX_TASK_LABEL_BYTES then first_line
         else fit_bytes (MAX_TASK_LABEL_BYTES - 3) [] (take (MAX_TASK_LABEL_CHARS - 3) (chars first_line)) @ ''...'')"

definition ascii_alphabetic :: "char \<Rightarrow> bool" where
  "ascii_alphabetic c \<longleftrightarrow> (let b = (of_char c :: nat) in 65 \<le> b \<and> b \<le> 90 \<or> 97 \<le> b \<and> b \<le> 122)"

definition ascii_upper :: "char \<Rightarrow> char" where
  "ascii_upper c = (let b = (of_char c :: nat) in if 97 \<le> b \<and> b \<le> 122 then char_of (b - 32) else c)"

text \<open>The readable label of a model id; a version segment is one or two digits.\<close>

definition fallback_model_label :: "string \<Rightarrow> string" where
  "fallback_model_label model =
     (if \<not> starts_with model ''claude-'' then model
      else (case split_on CHR ''-'' (drop 7 model) of
              [] \<Rightarrow> model
            | family # parts \<Rightarrow>
                (let version = takeWhile (\<lambda>p. 1 \<le> length p \<and> length p \<le> 2 \<and> list_all ascii_digit p) parts
                 in case family of
                      [] \<Rightarrow> model
                    | c # cs \<Rightarrow>
                        if ascii_alphabetic c
                        then (if version = [] then ascii_upper c # cs else (ascii_upper c # cs) @ '' '' @ join ''.'' version)
                        else model)))"

datatype agent_mode = Auto_Mode

record launch_parent =
  lp_session :: string
  lp_provider :: provider_id
  lp_model_label :: string
  lp_model_id :: string
  lp_effort :: "reasoning_effort option"
  lp_fast :: bool
  lp_permission :: permission_mode
  lp_agent_mode :: agent_mode

record launch_choice =
  lc_provider :: provider_id
  lc_model_label :: string
  lc_model_id :: string
  lc_effort :: "reasoning_effort option"
  lc_fast :: bool

definition default_effort_of :: "provider_id \<Rightarrow> reasoning_effort option" where
  "default_effort_of p =
     (case default_reasoning (provider_defaults (provider_str p)) of None \<Rightarrow> None | Some t \<Rightarrow> parse_effort t)"

definition provider_effort :: "provider_id \<Rightarrow> launch_parent \<Rightarrow> reasoning_effort option" where
  "provider_effort p parent = (if p = lp_provider parent then lp_effort parent else default_effort_of p)"

text \<open>Provider, model and effort of a launch: the route's, or what the call names, the rest from the parent
  or from the provider's defaults.\<close>

definition choose_launch ::
  "route_decision option \<Rightarrow> provider_id option \<Rightarrow> string option \<Rightarrow> reasoning_effort option \<Rightarrow> launch_parent \<Rightarrow> launch_choice"
where
  "choose_launch routed named model reasoning parent =
     (case routed of
        Some r \<Rightarrow>
          \<lparr>lc_provider = rd_provider r, lc_model_label = rd_model_label r, lc_model_id = rd_model_id r,
           lc_effort = (case reasoning of None \<Rightarrow> rd_effort r | Some e \<Rightarrow> Some e), lc_fast = False\<rparr>
      | None \<Rightarrow>
          (let p = (case named of None \<Rightarrow> lp_provider parent | Some p \<Rightarrow> p);
               (lbl, m, e) =
                 (case model of
                    Some m \<Rightarrow> (fallback_model_label m, m, provider_effort p parent)
                  | None \<Rightarrow>
                      if p = lp_provider parent then (lp_model_label parent, lp_model_id parent, lp_effort parent)
                      else (default_label (provider_defaults (provider_str p)), default_model_id (provider_defaults (provider_str p)),
                            default_effort_of p))
           in \<lparr>lc_provider = p, lc_model_label = lbl, lc_model_id = m,
               lc_effort = (case reasoning of None \<Rightarrow> e | Some r \<Rightarrow> Some r), lc_fast = lp_fast parent\<rparr>))"

section \<open>Where it starts\<close>

datatype check_decision = Check_None | Check_Suggest | Check_Switch

text \<open>\<open>'r\<close> is the record of the check that is stored with a switch.\<close>

record 'r launch_check =
  ck_decision :: check_decision
  ck_project_id :: "string option"
  ck_project_name :: "string option"
  ck_repo_path :: "string option"
  ck_reasons :: "string list"
  ck_record :: "'r option"

record 'r aimed_launch =
  al_project :: "string option"
  al_path :: "string option"
  al_branch :: "string option"
  al_check :: "project_check option"
  al_record :: "'r option"

definition or_empty :: "string option \<Rightarrow> string" where
  "or_empty v = (case v of None \<Rightarrow> [] | Some s \<Rightarrow> s)"

text \<open>\<open>checkout\<close> is the path git lists for the project's repository, if it does; a switch without a project
  or a repository would panic, None.\<close>

definition aim_at_check ::
  "(string \<Rightarrow> string \<Rightarrow> string option) \<Rightarrow> string option \<Rightarrow> string option \<Rightarrow> string option \<Rightarrow> bool \<Rightarrow> 'r launch_check \<Rightarrow> 'r aimed_launch option"
where
  "aim_at_check checkout project path branch worktree check =
     (let report = (\<lambda>decision. \<lparr>pc_decision = decision, pc_project_id = or_empty (ck_project_id check),
            pc_project_name = or_empty (ck_project_name check), pc_reasons = ck_reasons check\<rparr>)
      in case ck_decision check of
           Check_Switch \<Rightarrow>
             (case (ck_project_id check, ck_repo_path check) of
                (Some project_id, Some repo) \<Rightarrow>
                  Some \<lparr>al_project = Some project_id,
                        al_path = (if worktree then None else (case path of None \<Rightarrow> None | Some p \<Rightarrow> checkout repo p)),
                        al_branch = None, al_check = Some (report ''switch''), al_record = ck_record check\<rparr>
              | _ \<Rightarrow> None)
         | Check_Suggest \<Rightarrow> Some \<lparr>al_project = project, al_path = path, al_branch = branch, al_check = Some (report ''suggest''), al_record = None\<rparr>
         | Check_None \<Rightarrow> Some \<lparr>al_project = project, al_path = path, al_branch = branch, al_check = None, al_record = None\<rparr>)"

record alongside_checkout =
  ac_path :: string
  ac_branch :: string
  ac_base_ref :: string

text \<open>\<open>'a\<close> is the authorship of the prompt.\<close>

record 'a launch_spec =
  sp_alongside :: "alongside_checkout option"
  sp_path :: "string option"
  sp_branch :: "string option"
  sp_prompt :: string
  sp_worktree :: bool
  sp_provider :: provider_id
  sp_model_label :: string
  sp_model_id :: string
  sp_effort :: "reasoning_effort option"
  sp_fast :: bool
  sp_permission :: permission_mode
  sp_agent_mode :: agent_mode
  sp_label :: "string option"
  sp_arc :: "string option"
  sp_coordinator :: bool
  sp_author :: 'a

record 'a valid_spec =
  vs_spec :: "'a launch_spec"
  vs_prompt :: string
  vs_label :: string
  vs_model_label :: string
  vs_model_id :: string
  vs_cols :: nat
  vs_rows :: nat

definition parsed :: "input_issue + 'a \<Rightarrow> argmax_error + 'a" where
  "parsed r = (case r of Inl i \<Rightarrow> Inl (invalid i) | Inr v \<Rightarrow> Inr v)"

definition terminal_size :: "string \<Rightarrow> string + nat \<Rightarrow> argmax_error + nat" where
  "terminal_size what r =
     (case r of Inl e \<Rightarrow> Inl (service ''INTERNAL_INPUT_INVALID'' (''Could not prepare terminal '' @ what @ '': '' @ e)) | Inr n \<Rightarrow> Inr n)"

definition validate_launch_spec :: "'a launch_spec \<Rightarrow> argmax_error + 'a valid_spec" where
  "validate_launch_spec sp =
     and_then (parsed (to_prompt (sp_prompt sp))) (\<lambda>prompt.
     and_then (parsed (to_task_label (task_label (case sp_label sp of None \<Rightarrow> prompt | Some l \<Rightarrow> l)))) (\<lambda>lbl.
     and_then (parsed (to_non_empty_string (sp_model_label sp))) (\<lambda>model_label.
     and_then (parsed (to_non_empty_string (sp_model_id sp))) (\<lambda>model_id.
     and_then (terminal_size ''columns'' (to_terminal_cols 120)) (\<lambda>cols.
     and_then (terminal_size ''rows'' (to_terminal_rows 32)) (\<lambda>rows.
       if sp_worktree sp \<and> sp_path sp \<noteq> None
       then Inl (service ''LAUNCH_WORKTREE_WITH_PATH''
         ''worktree creates a new worktree; path launches into one that exists. Pass only one.'')
       else if sp_branch sp \<noteq> None \<and> \<not> sp_worktree sp \<and> sp_path sp = None
       then Inl (service ''LAUNCH_BRANCH_NEEDS_DESTINATION''
         (''Pass worktree to fork an isolated worktree from this branch, or path to a checkout that already has it. Launch will not switch another checkout'' @ [CHR 0x27] @ ''s branch.''))
       else and_then (case sp_branch sp of Some b \<Rightarrow> if sp_worktree sp then and_then (parsed (to_base_ref b)) (\<lambda>_. Inr ()) else Inr ()
                      | None \<Rightarrow> Inr ()) (\<lambda>_.
            Inr \<lparr>vs_spec = sp, vs_prompt = prompt, vs_label = lbl, vs_model_label = model_label, vs_model_id = model_id,
                 vs_cols = cols, vs_rows = rows\<rparr>)))))))"

text \<open>The spec of a launch an agent asks for: \<open>preamble\<close> is what its Arc puts before the prompt, \<open>mode\<close> the mode
  its row records.\<close>

record launch_action =
  la_prompt :: string
  la_project :: "string option"
  la_worktree :: bool
  la_path :: "string option"
  la_branch :: "string option"
  la_provider :: "provider_id option"
  la_model :: "string option"
  la_task_label :: "string option"
  la_reasoning :: "reasoning_effort option"
  la_permission :: "permission_mode option"
  la_check_in :: "nat option"
  la_key :: "string option"

definition agent_launch_spec ::
  "'a \<Rightarrow> (string \<times> string) option \<Rightarrow> permission_mode \<Rightarrow> route_decision option \<Rightarrow> launch_parent \<Rightarrow> launch_action \<Rightarrow> 'r aimed_launch \<Rightarrow> 'a launch_spec"
where
  "agent_launch_spec unattested arc mode routed parent action aimed =
     (let c = choose_launch routed (la_provider action) (la_model action) (la_reasoning action) parent
      in \<lparr>sp_alongside = None, sp_path = al_path aimed, sp_branch = al_branch aimed,
          sp_prompt = (case arc of Some (_, preamble) \<Rightarrow> preamble @ [newline, newline] @ la_prompt action | None \<Rightarrow> la_prompt action),
          sp_worktree = la_worktree action, sp_provider = lc_provider c, sp_model_label = lc_model_label c,
          sp_model_id = lc_model_id c, sp_effort = lc_effort c, sp_fast = lc_fast c,
          sp_permission = child_permission_mode mode (la_permission action), sp_agent_mode = lp_agent_mode parent,
          sp_label = la_task_label action, sp_arc = map_option fst arc, sp_coordinator = False, sp_author = unattested\<rparr>)"

section \<open>Labels fit\<close>

lemma set_strip_leading: "set (strip_leading seqs s) \<subseteq> set s"
proof (induction seqs s rule: strip_leading.induct)
  case (1 seqs s)
  show ?case
  proof (cases "leading_space seqs s = 0 \<or> s = []")
    case True
    then show ?thesis by (auto simp: strip_leading.simps [of seqs s] Let_def)
  next
    case False
    then have "set (strip_leading seqs (drop (leading_space seqs s) s)) \<subseteq> set (drop (leading_space seqs s) s)" using 1 by simp
    then show ?thesis using False set_drop_subset [of "leading_space seqs s" s] by (auto simp: strip_leading.simps [of seqs s] Let_def)
  qed
qed

lemma set_trim: "set (trim s) \<subseteq> set s"
  using set_strip_leading [of "map rev whitespace_bytes" "rev (trim_start s)"] set_strip_leading [of whitespace_bytes s]
  by (auto simp: trim_def trim_end_def trim_start_def)

lemma set_split_on: "p \<in> set (split_on d s) \<Longrightarrow> set p \<subseteq> set s"
  by (induction s arbitrary: p) (auto split: list.splits if_splits, blast+)

lemma set_str_lines:
  assumes "l \<in> set (str_lines s)"
  shows "set l \<subseteq> set s"
proof -
  have "l \<in> strip_cr ` set (butlast (split_on newline s)) \<or> l = last (split_on newline s)"
    using assms by (auto simp: str_lines_def Let_def split: if_splits)
  moreover have "last (split_on newline s) \<in> set (split_on newline s)" by (simp add: split_on_not_Nil)
  ultimately obtain p where p: "p \<in> set (split_on newline s)" "l = p \<or> l = strip_cr p"
    by (blast dest: in_set_butlastD)
  have "set (strip_cr p) \<subseteq> set p" by (auto simp: strip_cr_def dest: in_set_butlastD)
  then show ?thesis using p set_split_on [OF p(1)] by blast
qed

lemma chars_pieces: "concat (chars s) = s \<and> (\<forall>p \<in> set (chars s). p \<noteq> [] \<and> (\<forall>d \<in> set (tl p). \<not> char_start d))"
proof (induction s)
  case (Cons c s)
  show ?case
  proof (cases "chars s")
    case (Cons p ps)
    then have "p \<noteq> []" "\<forall>d \<in> set (tl p). \<not> char_start d" using Cons.IH by auto
    then have "\<forall>d \<in> set p. \<not> char_start d" if "\<not> char_start (hd p)" using that by (cases p) auto
    then show ?thesis using Cons.IH Cons by auto
  qed (use Cons in simp)
qed simp

lemma char_count_piece: "\<forall>d \<in> set (tl p). \<not> char_start d \<Longrightarrow> char_count p \<le> 1"
  by (cases p) (auto simp: char_count_def filter_empty_conv)

declare char_count_append [simp]

lemma char_count_concat: "\<forall>p \<in> set ps. char_count p \<le> 1 \<Longrightarrow> char_count (concat ps) \<le> length ps"
  by (induction ps) (auto simp: char_count_def)

lemma fit_bytes_pieces:
  "\<exists>qs rest. ps = qs @ rest \<and> fit_bytes n acc ps = acc @ concat qs \<and> (length acc \<le> n \<longrightarrow> length (fit_bytes n acc ps) \<le> n)"
proof (induction n acc ps rule: fit_bytes.induct)
  case (2 n acc c cs)
  show ?case
  proof (cases "length acc + length c > n")
    case True
    then have acc: "fit_bytes n acc (c # cs) = acc" by simp
    show ?thesis unfolding acc by (rule exI [where x = "[]"]) simp
  next
    case False
    then obtain qs rest where "cs = qs @ rest" "fit_bytes n (acc @ c) cs = (acc @ c) @ concat qs"
      "length (acc @ c) \<le> n \<longrightarrow> length (fit_bytes n (acc @ c) cs) \<le> n" using 2 by auto
    then show ?thesis using False by (intro exI [where x = "c # qs"] exI [where x = rest]) simp
  qed
qed simp

lemma task_label_bounds:
  "task_label p \<noteq> [] \<and> char_count (task_label p) \<le> 64 \<and> length (task_label p) \<le> 200 \<and>
   set (task_label p) \<subseteq> set p \<union> set DEFAULT_TASK_LABEL \<union> {CHR ''.''}"
proof -
  define line where "line = trim (case str_lines p of [] \<Rightarrow> [] | l # _ \<Rightarrow> l)"
  have sub: "set line \<subseteq> set p"
  proof (cases "str_lines p")
    case Nil
    then show ?thesis unfolding line_def using set_trim [of "[]"] by simp
  next
    case (Cons l ls)
    then have "set l \<subseteq> set p" by (intro set_str_lines) simp
    then show ?thesis unfolding line_def Cons list.case using set_trim [of l] by (rule subset_trans [rotated])
  qed
  consider (empty) "line = []" | (fits) "line \<noteq> []" "char_count line \<le> 64" "length line \<le> 200" "task_label p = line"
    | (cut) "line \<noteq> []" "task_label p = fit_bytes 197 [] (take 61 (chars line)) @ ''...''"
  proof -
    have "line = [] \<or> (line \<noteq> [] \<and> char_count line \<le> 64 \<and> length line \<le> 200 \<and> task_label p = line) \<or>
      (line \<noteq> [] \<and> task_label p = fit_bytes 197 [] (take 61 (chars line)) @ ''...'')"
      unfolding task_label_def line_def [symmetric] MAX_TASK_LABEL_CHARS_def MAX_TASK_LABEL_BYTES_def by simp
    then show thesis using that by blast
  qed
  then show ?thesis
  proof cases
    case empty
    then have "task_label p = DEFAULT_TASK_LABEL" unfolding task_label_def line_def [symmetric] by simp
    then show ?thesis by (simp add: DEFAULT_TASK_LABEL_def char_count_def char_start_def)
  next
    case fits
    then show ?thesis using sub by auto
  next
    case cut
    obtain qs rest where q: "take 61 (chars line) = qs @ rest" "fit_bytes 197 [] (take 61 (chars line)) = concat qs"
      "length (fit_bytes 197 [] (take 61 (chars line))) \<le> 197" using fit_bytes_pieces [of "take 61 (chars line)" 197 "[]"] by auto
    have mem: "set qs \<subseteq> set (chars line)" using q(1) set_take_subset [of 61 "chars line"] by auto
    then have "\<forall>c \<in> set qs. char_count c \<le> 1" using chars_pieces [of line] char_count_piece by blast
    then have "char_count (concat qs) \<le> length qs" by (rule char_count_concat)
    moreover have "length qs \<le> 61" using arg_cong [OF q(1), of length] by simp
    moreover have "set (concat qs) \<subseteq> set (concat (chars line))" using mem by auto
    then have "set (concat qs) \<subseteq> set line" using chars_pieces [of line] by simp
    moreover have "char_count ''...'' = 3" by (simp add: char_count_def char_start_def)
    ultimately show ?thesis using q(2,3) sub unfolding cut(2) by auto
  qed
qed

text \<open>So the label is never why a launch is refused.\<close>

lemma task_label_accepted: "NUL \<notin> set p \<Longrightarrow> to_task_label (task_label p) = Inr (task_label p)"
  using task_label_bounds [of p]
  by (auto simp: to_task_label_def and_then_Inr_iff validate_byte_cap_Inr non_empty_Inr DEFAULT_TASK_LABEL_def NUL_def)

text \<open>However deep agents launch agents, no chat runs under a looser mode than the first.\<close>

lemma child_not_looser: "looseness (child_permission_mode parent requested) \<le> looseness parent"
  by (simp add: child_permission_mode_def split: option.splits)

lemma launch_chain_not_looser: "looseness (fold (\<lambda>requested mode. child_permission_mode mode requested) requests mode) \<le> looseness mode"
proof (induction requests arbitrary: mode)
  case (Cons r rs)
  then show ?case using child_not_looser [of mode r] le_trans by fastforce
qed simp

lemma budget_depth: "check_launch_budget db parent coordinator = Inr d \<Longrightarrow> d = ll_depth (session_launch_lineage db parent) + 1 \<and> d \<le> 2"
  by (auto simp: check_launch_budget_def Let_def MAX_LAUNCH_DEPTH_def split: if_splits)

end
