(* ===== verification/Launch_Safety.thy ===== *)
theory Launch_Safety
  imports Launch_Agent
begin

text \<open>
  The life of keyed launches: calls, retries, the launches they own, the rest of the program creating and
  deleting sessions, and restarts, interleaved. A launch writes its session at any moment until it
  returns; when its caller hangs up it may still be writing it.
\<close>

section \<open>The system\<close>

record launch_task =
  lt_receipt :: launch_receipt
  lt_written :: bool
  lt_attached :: bool

abbreviation lt_id :: "launch_task \<Rightarrow> string" where "lt_id t \<equiv> lr_session (lt_receipt t)"
abbreviation lt_key :: "launch_task \<Rightarrow> string \<times> string" where "lt_key t \<equiv> lr_key (lt_receipt t)"

text \<open>Besides the state: every session id ever given out, and the key a launch's id was given out for.\<close>

record launch_system =
  la_db :: launch_db
  la_tasks :: "launch_task list"
  la_used :: "string set"
  la_owner :: "string \<Rightarrow> (string \<times> string) option"

inductive launch_step :: "(launched_session \<Rightarrow> string option) \<Rightarrow> launch_system \<Rightarrow> launch_system \<Rightarrow> bool"
  for print :: "launched_session \<Rightarrow> string option"
where
  call: "begin_launch c k minutes hash new (la_db S) = Inr (Claimed_Launch r, db) \<Longrightarrow> new \<notin> la_used S \<Longrightarrow>
    launch_step print S \<lparr>la_db = db, la_tasks = la_tasks S @ [\<lparr>lt_receipt = r, lt_written = False, lt_attached = True\<rparr>],
      la_used = insert new (la_used S), la_owner = (la_owner S)(new \<mapsto> (c, k))\<rparr>"
| retry: "launch_step print S (S\<lparr>la_db := snd (reconcile_uncertain_lineage (la_db S))\<rparr>)"
| workspace: "la_tasks S = a @ t # b \<Longrightarrow> lt_attached t \<Longrightarrow>
    launch_step print S (S\<lparr>la_db := record_workspace (fst (lt_key t)) (snd (lt_key t)) w (la_db S)\<rparr>)"
| write_session: "la_tasks S = a @ t # b \<Longrightarrow> \<not> lt_written t \<Longrightarrow>
    launch_step print S (S\<lparr>
      la_db := (la_db S)\<lparr>ld_sessions := ld_sessions (la_db S) @
        [\<lparr>ls_id = lt_id t, ls_launched_by = None, ls_depth = 0, ls_kind = LAUNCH_KIND_AGENT\<rparr>]\<rparr>,
      la_tasks := a @ t\<lparr>lt_written := True\<rparr> # b\<rparr>)"
| lineage: "la_tasks S = a @ t # b \<Longrightarrow> lt_attached t \<Longrightarrow> lt_written t \<Longrightarrow>
    launch_step print S (S\<lparr>la_db := record_session_launch (lt_id t) (fst (lt_key t)) depth LAUNCH_KIND_AGENT (la_db S)\<rparr>)"
| finish: "la_tasks S = a @ t # b \<Longrightarrow> lt_attached t \<Longrightarrow>
    launch_step print S (S\<lparr>la_db := end_launch print r1 r2 g1 g2 (lt_receipt t) result (la_db S), la_tasks := a @ b\<rparr>)"
| hang_up: "la_tasks S = a @ t # b \<Longrightarrow> lt_attached t \<Longrightarrow>
    launch_step print S (S\<lparr>la_db := snd (mark_uncertain g1 g2 (fst (lt_key t)) (snd (lt_key t)) (la_db S)),
      la_tasks := a @ t\<lparr>lt_attached := False\<rparr> # b\<rparr>)"
| other_session: "ls_id s \<notin> la_used S \<Longrightarrow>
    launch_step print S (S\<lparr>la_db := (la_db S)\<lparr>ld_sessions := ld_sessions (la_db S) @ [s]\<rparr>, la_used := insert (ls_id s) (la_used S)\<rparr>)"
| delete_session: "launch_step print S (S\<lparr>la_db := delete_session_row x (la_db S)\<rparr>)"
| restart: "db \<in> {la_db S, snd (recover_orphaned_receipts (la_db S))} \<Longrightarrow>
    launch_step print S (S\<lparr>la_db := db, la_tasks := []\<rparr>)"

definition start_launches :: "lineage_row list \<Rightarrow> launch_system" where
  "start_launches existing =
     \<lparr>la_db = \<lparr>ld_receipts = [], ld_sessions = existing\<rparr>, la_tasks = [], la_used = ls_id ` set existing, la_owner = Map.empty\<rparr>"

section \<open>What the operations do to receipts\<close>

lemma session_ids_map: "(\<And>s. ls_id (f s) = ls_id s) \<Longrightarrow> ls_id ` set (map f ss) = ls_id ` set ss"
  by (auto simp: image_image)

lemma repair_row_id [simp]: "ls_id (repair_row rs ss s) = ls_id s"
  by (simp add: repair_row_def split: option.splits)

lemma repair_rows_ids [simp]: "map ls_id (repair_rows rs xs ss) = map ls_id ss"
proof (induction xs arbitrary: ss)
  case (Cons x xs)
  have "map ls_id (map (\<lambda>s. if ls_id s = x then repair_row rs ss s else s) ss) = map ls_id ss" by simp
  then show ?case by (simp only: repair_rows.simps Cons.IH)
qed simp

text \<open>An operation that keeps every session and changes receipts one by one.\<close>

definition edits :: "(launch_receipt \<Rightarrow> launch_receipt) \<Rightarrow> launch_db \<Rightarrow> launch_db \<Rightarrow> bool" where
  "edits f db db' \<longleftrightarrow> ld_receipts db' = map f (ld_receipts db) \<and> map ls_id (ld_sessions db') = map ls_id (ld_sessions db) \<and>
     (\<forall>r. lr_key (f r) = lr_key r \<and> lr_session (f r) = lr_session r \<and> lr_hash (f r) = lr_hash r)"

lemma editsD:
  assumes "edits f db db'"
  shows "ld_receipts db' = map f (ld_receipts db)" and "map ls_id (ld_sessions db') = map ls_id (ld_sessions db)"
    and "lr_key (f r) = lr_key r" and "lr_session (f r) = lr_session r" and "session_ids db' = session_ids db"
proof -
  show "ld_receipts db' = map f (ld_receipts db)" "map ls_id (ld_sessions db') = map ls_id (ld_sessions db)"
    "lr_key (f r) = lr_key r" "lr_session (f r) = lr_session r" using assms by (simp_all add: edits_def)
  then show "session_ids db' = session_ids db" unfolding session_ids_def by (metis list.set_map)
qed

lemma edits_refl: "edits (\<lambda>r. r) db db"
  by (simp add: edits_def)

lemma edits_trans: "edits f db db1 \<Longrightarrow> edits g db1 db2 \<Longrightarrow> edits (\<lambda>r. g (f r)) db db2"
  by (simp add: edits_def)

lemma edits_reconcile: "edits (\<lambda>r. r) db (snd (reconcile_uncertain_lineage db))"
  by (simp add: edits_def reconcile_uncertain_lineage_def)

lemma edits_lineage: "edits (\<lambda>r. r) db (record_session_launch x c d k db)"
  by (simp add: edits_def record_session_launch_def comp_def if_distrib [of ls_id] cong: if_cong)

lemma edits_workspace: "edits (\<lambda>r. if in_flight c k r then r\<lparr>lr_workspace := Some w\<rparr> else r) db (record_workspace c k w db)"
  by (simp add: edits_def record_workspace_def update_receipts_def)

definition settled :: "string \<Rightarrow> string \<Rightarrow> receipt_status \<Rightarrow> string option \<Rightarrow> (string \<times> string) option \<Rightarrow> launch_receipt \<Rightarrow> launch_receipt" where
  "settled c k status json error r =
     (if in_flight c k r
      then r\<lparr>lr_status := status, lr_result := json, lr_error_code := map_option fst error, lr_error_message := map_option snd error\<rparr>
      else r)"

lemma edits_settle: "edits (settled c k status json error) db (settle_row c k status json error db)"
  by (simp add: edits_def settle_row_def update_receipts_def settled_def [abs_def])

lemma settled_other: "lr_key r \<noteq> (c, k) \<or> lr_status r \<noteq> Pending_Launch \<Longrightarrow> settled c k status json error r = r"
  by (auto simp: settled_def in_flight_def)

lemma settled_status: "lr_status (settled c k status json error r) = (if in_flight c k r then status else lr_status r)"
  by (simp add: settled_def)

text \<open>However a launch ends, only its own receipt changes, and it fails only when its session does not exist.\<close>

definition ends_receipt :: "launch_receipt \<Rightarrow> bool \<Rightarrow> launch_db \<Rightarrow> launch_db \<Rightarrow> bool" where
  "ends_receipt receipt may_fail db db' \<longleftrightarrow> (\<exists>f. edits f db db' \<and>
     (\<forall>r. lr_key r \<noteq> lr_key receipt \<or> lr_status r \<noteq> Pending_Launch \<longrightarrow> f r = r) \<and>
     (\<forall>r. lr_status (f r) = Failed_Launch \<longrightarrow> lr_status r = Failed_Launch \<or> may_fail))"

lemma ends_settle:
  assumes "status = Failed_Launch \<Longrightarrow> may_fail"
  shows "ends_receipt receipt may_fail db (settle_row (lr_caller receipt) (lr_request receipt) status json error db)"
  unfolding ends_receipt_def
  by (rule exI [where x = "settled (lr_caller receipt) (lr_request receipt) status json error"])
    (use assms in \<open>auto simp: edits_settle settled_status settled_def in_flight_def\<close>)

lemma ends_refl: "ends_receipt receipt b db db"
  unfolding ends_receipt_def by (rule exI [where x = "\<lambda>r. r"]) (simp add: edits_refl)

lemma ends_trans:
  assumes "ends_receipt receipt b db db1" and "ends_receipt receipt b db1 db2"
  shows "ends_receipt receipt b db db2"
proof -
  obtain f where f: "edits f db db1" "\<forall>r. lr_key r \<noteq> lr_key receipt \<or> lr_status r \<noteq> Pending_Launch \<longrightarrow> f r = r"
    "\<forall>r. lr_status (f r) = Failed_Launch \<longrightarrow> lr_status r = Failed_Launch \<or> b" using assms(1) by (auto simp: ends_receipt_def)
  obtain g where g: "edits g db1 db2" "\<forall>r. lr_key r \<noteq> lr_key receipt \<or> lr_status r \<noteq> Pending_Launch \<longrightarrow> g r = r"
    "\<forall>r. lr_status (g r) = Failed_Launch \<longrightarrow> lr_status r = Failed_Launch \<or> b" using assms(2) by (auto simp: ends_receipt_def)
  show ?thesis unfolding ends_receipt_def
  proof (rule exI [where x = "\<lambda>r. g (f r)"], intro conjI allI impI)
    show "edits (\<lambda>r. g (f r)) db db2" by (rule edits_trans [OF f(1) g(1)])
    show "g (f r) = r" if "lr_key r \<noteq> lr_key receipt \<or> lr_status r \<noteq> Pending_Launch" for r using f(2) g(2) that by metis
    show "lr_status r = Failed_Launch \<or> b" if "lr_status (g (f r)) = Failed_Launch" for r using f(3) g(3) that by blast
  qed
qed

lemma ends_reconcile: "ends_receipt receipt b db (snd (reconcile_uncertain_lineage db))"
  unfolding ends_receipt_def by (rule exI [where x = "\<lambda>r. r"]) (simp add: edits_reconcile)

lemma ends_mark: "ends_receipt receipt b db (snd (mark_uncertain g1 g2 (lr_caller receipt) (lr_request receipt) db))"
proof -
  have 1: "ends_receipt receipt b db (mark_receipt_uncertain (lr_caller receipt) (lr_request receipt) db)"
    unfolding mark_receipt_uncertain_def by (rule ends_settle) simp
  show ?thesis
    using 1 ends_trans [OF 1 ends_reconcile] ends_refl [of receipt b db]
    by (simp add: mark_uncertain_def Let_def split: option.splits)
qed

lemma ends_end_launch:
  "ends_receipt receipt (lr_session receipt \<notin> session_ids db) db (end_launch print r1 r2 g1 g2 receipt result db)"
    (is "ends_receipt _ ?b _ _")
proof -
  let ?c = "lr_caller receipt" and ?k = "lr_request receipt"
  obtain ok db1 where s: "settle_receipt print r1 r2 ?c ?k receipt result db = (ok, db1)" by fastforce
  have 1: "ends_receipt receipt ?b db db1"
  proof (cases result)
    case (Inl e)
    show ?thesis
    proof (cases "lr_session receipt \<in> session_ids db")
      case True
      then have "db1 = snd (mark_uncertain r1 r2 ?c ?k db)" using s Inl by (simp add: settle_receipt_def)
      then show ?thesis by (simp only: ends_mark)
    next
      case False
      then have "db1 = db \<or> db1 = fail_receipt ?c ?k (ce_code e) (ce_message e) db"
        using s Inl by (auto simp: settle_receipt_def split: option.splits)
      then show ?thesis using False ends_refl ends_settle [of Failed_Launch ?b receipt] by (auto simp: fail_receipt_def)
    qed
  next
    case (Inr l)
    then have "db1 = db \<or> (\<exists>json. db1 = complete_receipt ?c ?k json db)"
      using s by (auto simp: settle_receipt_def split: option.splits)
    then show ?thesis using ends_refl ends_settle [of Completed_Launch ?b receipt] by (auto simp: complete_receipt_def)
  qed
  then show ?thesis using ends_trans [OF 1 ends_mark] by (simp add: end_launch_def s)
qed

lemma edits_recover:
  "\<exists>f. edits f db (snd (recover_orphaned_receipts db)) \<and>
     (\<forall>r. lr_status r \<noteq> Pending_Launch \<longrightarrow> f r = r) \<and>
     (\<forall>r. lr_status (f r) = Failed_Launch \<longrightarrow> lr_status r = Failed_Launch \<or> lr_session r \<notin> session_ids db)"
proof -
  let ?f1 = "\<lambda>r. r\<lparr>lr_status := Failed_Launch, lr_error_code := Some ''LAUNCH_INTERRUPTED'',
      lr_error_message := Some ''Argmax stopped before the session was created, so nothing was started.''\<rparr>"
  let ?g1 = "\<lambda>r. if started_nothing db r then ?f1 r else r"
  let ?g2 = "\<lambda>r. if lr_status r = Pending_Launch then r\<lparr>lr_status := Uncertain_Launch\<rparr> else r"
  define db1 where "db1 = update_receipts (started_nothing db) ?f1 db"
  define db2 where "db2 = update_receipts (\<lambda>r. lr_status r = Pending_Launch) (\<lambda>r. r\<lparr>lr_status := Uncertain_Launch\<rparr>) db1"
  have 1: "edits ?g1 db db1" unfolding db1_def by (simp add: edits_def update_receipts_def)
  have 2: "edits ?g2 db1 db2" unfolding db2_def by (simp add: edits_def update_receipts_def)
  have "snd (recover_orphaned_receipts db) = snd (reconcile_uncertain_lineage db2)"
    by (simp add: recover_orphaned_receipts_def Let_def db1_def [symmetric] db2_def [symmetric] split: prod.split)
  then have "edits (\<lambda>r. ?g2 (?g1 r)) db (snd (recover_orphaned_receipts db))"
    using edits_trans [OF edits_trans [OF 1 2] edits_reconcile] by simp
  then show ?thesis
    by (rule exI [where x = "\<lambda>r. ?g2 (?g1 r)", OF conjI]) (auto simp: started_nothing_def)
qed

section \<open>One session per key\<close>

text \<open>The sessions a key has or may still get: those that exist, and those a launch has yet to write.\<close>

definition unwritten_ids :: "launch_system \<Rightarrow> string set" where
  "unwritten_ids S = lt_id ` {t \<in> set (la_tasks S). \<not> lt_written t}"

definition live_ids :: "launch_system \<Rightarrow> string \<times> string \<Rightarrow> string set" where
  "live_ids S k = {i \<in> session_ids (la_db S) \<union> unwritten_ids S. la_owner S i = Some k}"

definition attached :: "launch_system \<Rightarrow> string \<times> string \<Rightarrow> bool" where
  "attached S k \<longleftrightarrow> (\<exists>t \<in> set (la_tasks S). lt_attached t \<and> lt_key t = k)"

definition launch_inv :: "launch_system \<Rightarrow> bool" where
  "launch_inv S \<longleftrightarrow>
     distinct (map lr_key (ld_receipts (la_db S))) \<and>
     (session_ids (la_db S) \<subseteq> la_used S \<and> dom (la_owner S) \<subseteq> la_used S) \<and>
     (distinct (map lt_id (la_tasks S)) \<and> (\<forall>t \<in> set (la_tasks S). la_owner S (lt_id t) = Some (lt_key t)) \<and>
        unwritten_ids S \<inter> session_ids (la_db S) = {}) \<and>
     (\<forall>i k. la_owner S i = Some k \<longrightarrow> fst k \<in> la_used S \<and> fst k \<notin> unwritten_ids S) \<and>
     (\<forall>k i j. i \<in> live_ids S k \<longrightarrow> j \<in> live_ids S k \<longrightarrow> i = j) \<and>
     (\<forall>r \<in> set (ld_receipts (la_db S)). la_owner S (lr_session r) = Some (lr_key r) \<and>
        (\<forall>i \<in> live_ids S (lr_key r). lr_status r \<noteq> Failed_Launch \<and> i = lr_session r)) \<and>
     (\<forall>t \<in> set (la_tasks S). lt_attached t \<longrightarrow> (\<forall>r \<in> set (ld_receipts (la_db S)).
        lr_key r = lt_key t \<longrightarrow> lr_status r = Pending_Launch \<and> lr_session r = lt_id t)) \<and>
     (\<forall>k. (live_ids S k \<noteq> {} \<or> attached S k) \<and> k \<notin> lr_key ` set (ld_receipts (la_db S)) \<longrightarrow> fst k \<notin> session_ids (la_db S))"

lemma launch_invD:
  assumes "launch_inv S"
  shows "distinct (map lr_key (ld_receipts (la_db S)))"
    and "session_ids (la_db S) \<subseteq> la_used S" and "dom (la_owner S) \<subseteq> la_used S"
    and "distinct (map lt_id (la_tasks S))" and "\<And>t. t \<in> set (la_tasks S) \<Longrightarrow> la_owner S (lt_id t) = Some (lt_key t)"
    and "unwritten_ids S \<inter> session_ids (la_db S) = {}"
    and "\<And>i k. la_owner S i = Some k \<Longrightarrow> fst k \<in> la_used S \<and> fst k \<notin> unwritten_ids S"
    and "\<And>k i j. i \<in> live_ids S k \<Longrightarrow> j \<in> live_ids S k \<Longrightarrow> i = j"
    and "\<And>r. r \<in> set (ld_receipts (la_db S)) \<Longrightarrow> la_owner S (lr_session r) = Some (lr_key r)"
    and "\<And>r i. r \<in> set (ld_receipts (la_db S)) \<Longrightarrow> i \<in> live_ids S (lr_key r) \<Longrightarrow> lr_status r \<noteq> Failed_Launch \<and> i = lr_session r"
    and "\<And>t r. t \<in> set (la_tasks S) \<Longrightarrow> lt_attached t \<Longrightarrow> r \<in> set (ld_receipts (la_db S)) \<Longrightarrow> lr_key r = lt_key t \<Longrightarrow>
           lr_status r = Pending_Launch \<and> lr_session r = lt_id t"
    and "\<And>k. live_ids S k \<noteq> {} \<or> attached S k \<Longrightarrow> k \<notin> lr_key ` set (ld_receipts (la_db S)) \<Longrightarrow> fst k \<notin> session_ids (la_db S)"
  using assms unfolding launch_inv_def by (elim conjE, (assumption | rule conjI | blast))+

lemma launch_invI:
  assumes "distinct (map lr_key (ld_receipts (la_db S)))"
    and "session_ids (la_db S) \<subseteq> la_used S" and "dom (la_owner S) \<subseteq> la_used S"
    and "distinct (map lt_id (la_tasks S))" and "\<And>t. t \<in> set (la_tasks S) \<Longrightarrow> la_owner S (lt_id t) = Some (lt_key t)"
    and "unwritten_ids S \<inter> session_ids (la_db S) = {}"
    and "\<And>i k. la_owner S i = Some k \<Longrightarrow> fst k \<in> la_used S \<and> fst k \<notin> unwritten_ids S"
    and "\<And>k i j. i \<in> live_ids S k \<Longrightarrow> j \<in> live_ids S k \<Longrightarrow> i = j"
    and "\<And>r. r \<in> set (ld_receipts (la_db S)) \<Longrightarrow> la_owner S (lr_session r) = Some (lr_key r)"
    and "\<And>r i. r \<in> set (ld_receipts (la_db S)) \<Longrightarrow> i \<in> live_ids S (lr_key r) \<Longrightarrow> lr_status r \<noteq> Failed_Launch \<and> i = lr_session r"
    and "\<And>t r. t \<in> set (la_tasks S) \<Longrightarrow> lt_attached t \<Longrightarrow> r \<in> set (ld_receipts (la_db S)) \<Longrightarrow> lr_key r = lt_key t \<Longrightarrow>
           lr_status r = Pending_Launch \<and> lr_session r = lt_id t"
    and "\<And>k. live_ids S k \<noteq> {} \<or> attached S k \<Longrightarrow> k \<notin> lr_key ` set (ld_receipts (la_db S)) \<Longrightarrow> fst k \<notin> session_ids (la_db S)"
  shows "launch_inv S"
  unfolding launch_inv_def using assms by blast

text \<open>Steps that only edit receipts and let go of tasks.\<close>

lemma launch_inv_edit:
  assumes inv: "launch_inv S" and f: "edits f (la_db S) (la_db S')"
    and same: "la_used S' = la_used S" "la_owner S' = la_owner S"
    and ids: "distinct (map lt_id (la_tasks S'))"
    and tasks: "\<And>t'. t' \<in> set (la_tasks S') \<Longrightarrow>
      \<exists>t \<in> set (la_tasks S). lt_receipt t' = lt_receipt t \<and> lt_written t' = lt_written t \<and> (lt_attached t' \<longrightarrow> lt_attached t)"
    and failing: "\<And>r. r \<in> set (ld_receipts (la_db S)) \<Longrightarrow> lr_status (f r) = Failed_Launch \<Longrightarrow>
      lr_status r = Failed_Launch \<or> live_ids S' (lr_key r) = {}"
    and kept: "\<And>t r. t \<in> set (la_tasks S') \<Longrightarrow> lt_attached t \<Longrightarrow> r \<in> set (ld_receipts (la_db S)) \<Longrightarrow> lr_key r = lt_key t \<Longrightarrow>
      lr_status (f r) = lr_status r"
  shows "launch_inv S'"
proof -
  note i = launch_invD [OF inv] and e = editsD [OF f]
  have sub: "unwritten_ids S' \<subseteq> unwritten_ids S" using tasks by (fastforce simp: unwritten_ids_def)
  then have live: "live_ids S' k \<subseteq> live_ids S k" for k by (auto simp: live_ids_def e(5) same)
  have att: "attached S' k \<Longrightarrow> attached S k" for k using tasks by (fastforce simp: attached_def)
  have keys: "map lr_key (ld_receipts (la_db S')) = map lr_key (ld_receipts (la_db S))" using e(3) by (simp add: e(1))
  have old: "\<exists>r0 \<in> set (ld_receipts (la_db S)). r = f r0 \<and> lr_key r = lr_key r0 \<and> lr_session r = lr_session r0"
    if "r \<in> set (ld_receipts (la_db S'))" for r using that e(3,4) by (auto simp: e(1))
  show ?thesis
  proof (rule launch_invI)
    show "distinct (map lr_key (ld_receipts (la_db S')))" using i(1) by (simp only: keys)
    show "session_ids (la_db S') \<subseteq> la_used S'" "dom (la_owner S') \<subseteq> la_used S'" using i(2,3) by (simp_all add: e(5) same)
    show "distinct (map lt_id (la_tasks S'))" by (rule ids)
    show "la_owner S' (lt_id t) = Some (lt_key t)" if "t \<in> set (la_tasks S')" for t
      using tasks [OF that] i(5) by (auto simp: same)
    show "unwritten_ids S' \<inter> session_ids (la_db S') = {}" using i(6) sub by (auto simp: e(5))
    show "fst k \<in> la_used S' \<and> fst k \<notin> unwritten_ids S'" if "la_owner S' j = Some k" for j k
      using i(7) [of j k] that sub by (auto simp: same)
    show "i = j" if "i \<in> live_ids S' k" "j \<in> live_ids S' k" for k i j using i(8) live that by blast
    show "la_owner S' (lr_session r) = Some (lr_key r)" if "r \<in> set (ld_receipts (la_db S'))" for r
      using old [OF that] i(9) by (auto simp: same)
    show "lr_status r \<noteq> Failed_Launch \<and> j = lr_session r" if r: "r \<in> set (ld_receipts (la_db S'))" "j \<in> live_ids S' (lr_key r)" for r j
    proof -
      obtain r0 where r0: "r0 \<in> set (ld_receipts (la_db S))" "r = f r0" "lr_key r = lr_key r0" "lr_session r = lr_session r0"
        using old [OF r(1)] by blast
      have "j \<in> live_ids S (lr_key r0)" using r(2) live r0(3) by (metis subsetD)
      then have "lr_status r0 \<noteq> Failed_Launch" "j = lr_session r0" using i(10) [OF r0(1)] by blast+
      then show ?thesis using failing [OF r0(1)] r(2) r0 by auto
    qed
    show "lr_status r = Pending_Launch \<and> lr_session r = lt_id t"
      if t: "t \<in> set (la_tasks S')" "lt_attached t" "r \<in> set (ld_receipts (la_db S'))" "lr_key r = lt_key t" for t r
    proof -
      obtain r0 where r0: "r0 \<in> set (ld_receipts (la_db S))" "r = f r0" "lr_key r = lr_key r0" "lr_session r = lr_session r0"
        using old [OF t(3)] by blast
      obtain t0 where t0: "t0 \<in> set (la_tasks S)" "lt_receipt t = lt_receipt t0" "lt_attached t0" using tasks [OF t(1)] t(2) by blast
      have "lr_status r0 = Pending_Launch \<and> lr_session r0 = lt_id t0"
        by (rule i(11) [OF t0(1,3) r0(1)]) (use t(4) r0(3) t0(2) in simp)
      then show ?thesis using kept [OF t(1,2) r0(1)] t(4) r0 t0(2) by simp
    qed
    show "fst k \<notin> session_ids (la_db S')"
      if "live_ids S' k \<noteq> {} \<or> attached S' k" "k \<notin> lr_key ` set (ld_receipts (la_db S'))" for k
    proof -
      have "k \<notin> lr_key ` set (ld_receipts (la_db S))" using that(2) keys by (metis list.set_map)
      moreover have "live_ids S k \<noteq> {} \<or> attached S k" using that(1) live [of k] att [of k] by blast
      ultimately show ?thesis using i(12) [of k] by (simp add: e(5))
    qed
  qed
qed

lemma distinct_others: "distinct (map f (a @ t # b)) \<Longrightarrow> u \<in> set (a @ b) \<Longrightarrow> f u \<noteq> f t"
  by (metis Un_iff distinct.simps(2) distinct_append image_eqI list.simps(9) list.set_map map_append not_distinct_conv_prefix
      set_append in_set_conv_decomp disjoint_iff list.set_intros(1))

text \<open>A call that ends, or whose caller hangs up.\<close>

lemma launch_inv_release:
  assumes inv: "launch_inv S" and t: "la_tasks S = a @ t # b" "lt_attached t"
    and ends: "ends_receipt (lt_receipt t) may_fail (la_db S) db"
    and rest: "ts = a @ b \<or> ts = a @ t\<lparr>lt_attached := False\<rparr> # b \<and> \<not> may_fail"
    and unsaved: "may_fail \<Longrightarrow> lt_id t \<notin> session_ids (la_db S)"
  shows "launch_inv (S\<lparr>la_db := db, la_tasks := ts\<rparr>)" (is "launch_inv ?S")
proof -
  note i = launch_invD [OF inv]
  obtain f where f: "edits f (la_db S) db" "\<forall>r. lr_key r \<noteq> lt_key t \<or> lr_status r \<noteq> Pending_Launch \<longrightarrow> f r = r"
    "\<forall>r. lr_status (f r) = Failed_Launch \<longrightarrow> lr_status r = Failed_Launch \<or> may_fail" using ends by (auto simp: ends_receipt_def)
  have mem: "t \<in> set (la_tasks S)" using t(1) by simp
  have others: "lt_id u \<noteq> lt_id t" if "u \<in> set (a @ b)" for u by (rule distinct_others [OF i(4) [unfolded t(1)] that])
  show ?thesis
  proof (rule launch_inv_edit [OF inv])
    show "edits f (la_db S) (la_db ?S)" using f(1) by simp
    show "distinct (map lt_id (la_tasks ?S))" using i(4) rest unfolding t(1) by auto
    show "\<exists>u \<in> set (la_tasks S). lt_receipt u' = lt_receipt u \<and> lt_written u' = lt_written u \<and> (lt_attached u' \<longrightarrow> lt_attached u)"
      if "u' \<in> set (la_tasks ?S)" for u'
    proof (cases "u' \<in> set (a @ b)")
      case True
      then show ?thesis unfolding t(1) by auto
    next
      case False
      then have "u' = t\<lparr>lt_attached := False\<rparr>" using that rest by auto
      then show ?thesis unfolding t(1) by (intro bexI [where x = t]) simp_all
    qed
    show "lr_status (f r) = lr_status r"
      if u: "u \<in> set (la_tasks ?S)" "lt_attached u" "r \<in> set (ld_receipts (la_db S))" "lr_key r = lt_key u" for u r
    proof (cases "lr_key r = lt_key t")
      case True
      have "u \<in> set (a @ b)" using u(1,2) rest by auto
      moreover from this have "u \<in> set (la_tasks S)" unfolding t(1) by auto
      ultimately have "lt_id t = lt_id u" using i(11) [OF mem t(2) u(3) True] i(11) [OF _ u(2,3,4)] by simp
      then show ?thesis using others \<open>u \<in> set (a @ b)\<close> by metis
    qed (use f(2) in simp)
    show "lr_status r = Failed_Launch \<or> live_ids ?S (lr_key r) = {}"
      if r: "r \<in> set (ld_receipts (la_db S))" "lr_status (f r) = Failed_Launch" for r
    proof (cases "lr_status r = Failed_Launch")
      case False
      then have may: "may_fail" and key: "lr_key r = lt_key t" using f(2,3) r(2) by metis+
      have ids: "lr_session r = lt_id t" using i(11) [OF mem t(2) r(1) key] by simp
      have "False" if "j \<in> live_ids ?S (lr_key r)" for j
      proof -
        have ts: "ts = a @ b" using rest may by blast
        have old: "j \<in> live_ids S (lr_key r)" using that editsD(5) [OF f(1)] ts t(1) by (auto simp: live_ids_def unwritten_ids_def)
        have j: "j = lt_id t" using i(10) [OF r(1) old] ids by simp
        have no: "lt_id t \<notin> session_ids (la_db S)" by (rule unsaved [OF may])
        have "j \<notin> session_ids db" unfolding j editsD(5) [OF f(1)] by (rule no)
        then have "j \<in> unwritten_ids ?S" using that by (simp add: live_ids_def)
        then obtain u where "u \<in> set (a @ b)" "j = lt_id u" using ts by (auto simp: unwritten_ids_def)
        then show False using others j by metis
      qed
      then show ?thesis by blast
    qed simp
  qed simp_all
qed

lemma launch_inv_same_tasks:
  assumes inv: "launch_inv S" and f: "edits f (la_db S) db" and st: "\<And>r. lr_status (f r) = lr_status r"
  shows "launch_inv (S\<lparr>la_db := db\<rparr>)"
  by (rule launch_inv_edit [OF inv, of f]) (use f st launch_invD(4) [OF inv] in auto)

lemma launch_inv_restart:
  assumes inv: "launch_inv S" and db: "db \<in> {la_db S, snd (recover_orphaned_receipts (la_db S))}"
  shows "launch_inv (S\<lparr>la_db := db, la_tasks := []\<rparr>)" (is "launch_inv ?S")
proof -
  note i = launch_invD [OF inv]
  obtain f where f: "edits f (la_db S) db"
    "\<forall>r. lr_status (f r) = Failed_Launch \<longrightarrow> lr_status r = Failed_Launch \<or> lr_session r \<notin> session_ids (la_db S)"
  proof (cases "db = la_db S")
    case True
    then show ?thesis using that [of "\<lambda>r. r"] edits_refl by simp
  next
    case False
    then have "db = snd (recover_orphaned_receipts (la_db S))" using db by blast
    then show ?thesis using edits_recover [of "la_db S"] that by blast
  qed
  show ?thesis
  proof (rule launch_inv_edit [OF inv, of f])
    show "lr_status r = Failed_Launch \<or> live_ids ?S (lr_key r) = {}"
      if r: "r \<in> set (ld_receipts (la_db S))" "lr_status (f r) = Failed_Launch" for r
    proof (cases "lr_status r = Failed_Launch")
      case False
      then have no: "lr_session r \<notin> session_ids (la_db S)" using f(2) r(2) by blast
      have "False" if "j \<in> live_ids ?S (lr_key r)" for j
      proof -
        have j: "j \<in> session_ids (la_db S)" "j \<in> live_ids S (lr_key r)"
          using that editsD(5) [OF f(1)] by (auto simp: live_ids_def unwritten_ids_def)
        then show False using i(10) [OF r(1) j(2)] no by simp
      qed
      then show ?thesis by blast
    qed simp
  qed (use f(1) in simp_all)
qed

text \<open>A launch writes its session.\<close>

lemma launch_inv_write:
  assumes inv: "launch_inv S" and t: "la_tasks S = a @ t # b" "\<not> lt_written t" and s: "ls_id s = lt_id t"
  shows "launch_inv (S\<lparr>la_db := (la_db S)\<lparr>ld_sessions := ld_sessions (la_db S) @ [s]\<rparr>,
    la_tasks := a @ t\<lparr>lt_written := True\<rparr> # b\<rparr>)" (is "launch_inv ?S")
proof -
  note i = launch_invD [OF inv]
  have mem: "t \<in> set (la_tasks S)" using t(1) by simp
  have others: "lt_id u \<noteq> lt_id t" if "u \<in> set (a @ b)" for u by (rule distinct_others [OF i(4) [unfolded t(1)] that])
  have ids: "session_ids (la_db ?S) = insert (lt_id t) (session_ids (la_db S))" by (simp add: session_ids_def s)
  have un': "unwritten_ids ?S = lt_id ` {u \<in> set (a @ b). \<not> lt_written u}" 
  proof -
    have "{u \<in> set (la_tasks ?S). \<not> lt_written u} = {u \<in> set (a @ b). \<not> lt_written u}" by auto
    then show ?thesis by (simp only: unwritten_ids_def)
  qed
  have "{u \<in> set (la_tasks S). \<not> lt_written u} = insert t {u \<in> set (a @ b). \<not> lt_written u}"
    unfolding t(1) using t(2) by (simp add: Collect_disj_eq [symmetric]) blast
  then have "unwritten_ids S = lt_id ` insert t {u \<in> set (a @ b). \<not> lt_written u}" unfolding unwritten_ids_def by (rule arg_cong)
  then have un: "unwritten_ids S = insert (lt_id t) (unwritten_ids ?S)" unfolding un' image_insert .
  have un2: "lt_id t \<notin> unwritten_ids ?S"
  proof
    assume "lt_id t \<in> unwritten_ids ?S"
    then obtain u where "u \<in> set (a @ b)" "lt_id t = lt_id u" unfolding un' image_iff by blast
    then show False using others by metis
  qed
  have live: "live_ids ?S k = live_ids S k" for k using un ids by (auto simp: live_ids_def)
  have att: "attached ?S k = attached S k" for k by (simp add: attached_def t(1))
  have tasks: "\<exists>u \<in> set (la_tasks S). lt_receipt u' = lt_receipt u \<and> lt_attached u' = lt_attached u" if "u' \<in> set (la_tasks ?S)" for u'
    using that unfolding t(1) by auto
  have rs: "ld_receipts (la_db ?S) = ld_receipts (la_db S)" by simp
  show ?thesis
  proof (rule launch_invI)
    show "distinct (map lr_key (ld_receipts (la_db ?S)))" using i(1) by simp
    show "session_ids (la_db ?S) \<subseteq> la_used ?S" using i(2) i(3) i(5) [OF mem] ids by auto
    show "dom (la_owner ?S) \<subseteq> la_used ?S" using i(3) by simp
    show "distinct (map lt_id (la_tasks ?S))" using i(4) unfolding t(1) by simp
    show "la_owner ?S (lt_id u) = Some (lt_key u)" if "u \<in> set (la_tasks ?S)" for u using tasks [OF that] i(5) by auto
    show "unwritten_ids ?S \<inter> session_ids (la_db ?S) = {}" using i(6) un un2 ids by auto
    show "fst k \<in> la_used ?S \<and> fst k \<notin> unwritten_ids ?S" if "la_owner ?S j = Some k" for j k using i(7) [of j k] that un by auto
    show "j = l" if "j \<in> live_ids ?S k" "l \<in> live_ids ?S k" for k j l using i(8) that by (simp add: live)
    show "la_owner ?S (lr_session r) = Some (lr_key r)" if "r \<in> set (ld_receipts (la_db ?S))" for r using i(9) that by simp
    show "lr_status r \<noteq> Failed_Launch \<and> j = lr_session r" if "r \<in> set (ld_receipts (la_db ?S))" "j \<in> live_ids ?S (lr_key r)" for r j
      using i(10) [of r j] that unfolding live rs by blast
    show "lr_status r = Pending_Launch \<and> lr_session r = lt_id u"
      if u: "u \<in> set (la_tasks ?S)" "lt_attached u" "r \<in> set (ld_receipts (la_db ?S))" "lr_key r = lt_key u" for u r
    proof -
      obtain v where v: "v \<in> set (la_tasks S)" "lt_receipt u = lt_receipt v" "lt_attached u = lt_attached v" using tasks [OF u(1)] by blast
      show ?thesis using i(11) [OF v(1), of r] u v rs by simp
    qed
    show "fst k \<notin> session_ids (la_db ?S)"
      if k: "live_ids ?S k \<noteq> {} \<or> attached ?S k" "k \<notin> lr_key ` set (ld_receipts (la_db ?S))" for k
    proof -
      have "fst k \<notin> session_ids (la_db S)" using k unfolding live att rs by (rule i(12))
      moreover have "fst k \<noteq> lt_id t"
      proof -
        have "\<exists>j. la_owner S j = Some k" using k(1) i(5) unfolding live att by (auto simp: live_ids_def attached_def)
        then show ?thesis using i(7) un by blast
      qed
      ultimately show ?thesis by (simp only: ids) simp
    qed
  qed
qed

lemma distinct_map_eq: "distinct (map f xs) \<Longrightarrow> x \<in> set xs \<Longrightarrow> y \<in> set xs \<Longrightarrow> f x = f y \<Longrightarrow> x = y"
  by (auto simp: distinct_map inj_on_def)

text \<open>A call takes a key.\<close>

lemma begin_launch_claims:
  assumes "begin_launch c k minutes hash new db = Inr (Claimed_Launch r, db')"
  obtains (fresh) "c \<in> session_ids db" "(c, k) \<notin> lr_key ` set (ld_receipts db)" "r = new_receipt c k hash new"
      "db' = db\<lparr>ld_receipts := ld_receipts db @ [r]\<rparr>"
  | (again) r0 where "r0 \<in> set (ld_receipts db)" "lr_key r0 = (c, k)" "lr_status r0 = Failed_Launch" "r = reopened new r0"
      "db' = update_receipts (\<lambda>r. lr_key r = (c, k)) (reopened new) db"
proof (cases "find_receipt db c k")
  case None
  then have "(c, k) \<notin> lr_key ` set (ld_receipts db)" by (force simp: find_receipt_def find_None_all)
  then show thesis using assms None fresh by (auto simp: begin_launch_def claim_receipt_def and_then_Inr_iff split: if_splits sum.splits)
next
  case (Some r0)
  then have "r0 \<in> set (ld_receipts db)" "lr_key r0 = (c, k)" by (auto simp: find_receipt_def dest: find_Some_mem)
  then show thesis using assms Some again by (auto simp: begin_launch_def claim_receipt_def and_then_Inr_iff split: if_splits sum.splits)
qed

lemma reopened_simps [simp]:
  "lr_caller (reopened new r) = lr_caller r" "lr_request (reopened new r) = lr_request r" "lr_session (reopened new r) = new" "lr_status (reopened new r) = Pending_Launch"
  by (simp_all add: reopened_def)

lemma launch_inv_call:
  assumes inv: "launch_inv S" and claim: "begin_launch c k minutes hash new (la_db S) = Inr (Claimed_Launch r, db)"
    and new: "new \<notin> la_used S"
  shows "launch_inv \<lparr>la_db = db, la_tasks = la_tasks S @ [\<lparr>lt_receipt = r, lt_written = False, lt_attached = True\<rparr>],
    la_used = insert new (la_used S), la_owner = (la_owner S)(new \<mapsto> (c, k))\<rparr>" (is "launch_inv ?S")
proof -
  note i = launch_invD [OF inv]
  have facts: "lr_session r = new \<and> lr_key r = (c, k) \<and> lr_status r = Pending_Launch \<and> session_ids db = session_ids (la_db S) \<and>
      map lr_key (ld_receipts db) = (if (c, k) \<in> lr_key ` set (ld_receipts (la_db S)) then map lr_key (ld_receipts (la_db S))
        else map lr_key (ld_receipts (la_db S)) @ [(c, k)]) \<and>
      r \<in> set (ld_receipts db) \<and> (\<forall>q \<in> set (ld_receipts db). lr_key q = (c, k) \<longrightarrow> q = r) \<and>
      (\<forall>q \<in> set (ld_receipts db). lr_key q \<noteq> (c, k) \<longrightarrow> q \<in> set (ld_receipts (la_db S))) \<and>
      live_ids S (c, k) = {} \<and> \<not> attached S (c, k) \<and> c \<in> la_used S \<and> c \<notin> unwritten_ids S"
    using claim
  proof (cases rule: begin_launch_claims)
    case fresh
    have "live_ids S (c, k) = {} \<and> \<not> attached S (c, k)" using i(12) [of "(c, k)"] fresh(1,2) by auto
    moreover have "c \<in> la_used S \<and> c \<notin> unwritten_ids S" using i(2,6) fresh(1) by blast
    moreover have "lr_key q \<noteq> (c, k)" if "q \<in> set (ld_receipts (la_db S))" for q using fresh(2) that by force
    moreover have "session_ids db = session_ids (la_db S)" by (simp add: fresh(4) session_ids_def)
    ultimately show ?thesis using fresh(1-3) by (auto simp: fresh(4)) (simp_all add: new_receipt_def)
  next
    case (again r0)
    have n1: "live_ids S (c, k) = {}" using i(10) [OF again(1)] again(2,3) by blast
    have n2: "\<not> attached S (c, k)" 
    proof
      assume "attached S (c, k)"
      then obtain t where t: "t \<in> set (la_tasks S)" "lt_attached t" "lt_key t = (c, k)" unfolding attached_def by blast
      show False using i(11) [OF t(1,2) again(1)] t(3) again(2,3) by simp
    qed
    have n3: "c \<in> la_used S \<and> c \<notin> unwritten_ids S" using i(7) [OF i(9) [OF again(1)]] again(2) by simp
    have only: "q = r0" if "q \<in> set (ld_receipts (la_db S))" "lr_key q = (c, k)" for q
      by (rule distinct_map_eq [OF i(1) that(1) again(1)]) (use that(2) again(2) in simp)
    have n4: "session_ids db = session_ids (la_db S)" by (simp add: again(5) update_receipts_def session_ids_def)
    have n5: "map lr_key (ld_receipts db) = map lr_key (ld_receipts (la_db S))" by (auto simp: again(5) update_receipts_def)
    have n6: "(c, k) \<in> lr_key ` set (ld_receipts (la_db S))" using again(1,2) by force
    have rs: "ld_receipts db = map (\<lambda>q. if lr_key q = (c, k) then reopened new q else q) (ld_receipts (la_db S))"
      by (simp add: again(5) update_receipts_def)
    have n7: "r \<in> set (ld_receipts db)" unfolding rs set_map again(4) by (rule image_eqI [OF _ again(1)]) (simp add: again(2))
    have n8: "q = r" if q: "q \<in> set (ld_receipts db)" "lr_key q = (c, k)" for q
    proof -
      obtain q0 where "q0 \<in> set (ld_receipts (la_db S))" "q = (if lr_key q0 = (c, k) then reopened new q0 else q0)"
        using q(1) unfolding rs set_map image_iff by blast
      then show ?thesis using only q(2) again(4) by (auto split: if_splits)
    qed
    have n9: "q \<in> set (ld_receipts (la_db S))" if q: "q \<in> set (ld_receipts db)" "lr_key q \<noteq> (c, k)" for q
    proof -
      obtain q0 where "q0 \<in> set (ld_receipts (la_db S))" "q = (if lr_key q0 = (c, k) then reopened new q0 else q0)"
        using q(1) unfolding rs set_map image_iff by blast
      then show ?thesis using q(2) by (auto split: if_splits)
    qed
    have n10: "lr_session r = new" "lr_key r = (c, k)" "lr_status r = Pending_Launch" using again(2) by (simp_all add: again(4))
    show ?thesis
      by (intro conjI ballI impI, rule n10(1), rule n10(2), rule n10(3), rule n4, simp only: n5 n6 if_True, rule n7, rule n8,
          assumption, assumption, rule n9, assumption, assumption, rule n1, rule n2, rule n3 [THEN conjunct1], rule n3 [THEN conjunct2])
  qed
  have fresh_new: "new \<notin> session_ids (la_db S)" "new \<notin> unwritten_ids S" "la_owner S new = None"
  proof -
    show owner: "la_owner S new = None" using new i(3) by (meson domIff subsetD)
    show "new \<notin> session_ids (la_db S)" using new i(2) by blast
    show "new \<notin> unwritten_ids S" using i(5) owner by (fastforce simp: unwritten_ids_def)
  qed
  have F: "lr_session r = new" "lr_key r = (c, k)" "lr_status r = Pending_Launch" "session_ids db = session_ids (la_db S)"
      "r \<in> set (ld_receipts db)" "live_ids S (c, k) = {}" "\<not> attached S (c, k)" "c \<in> la_used S" "c \<notin> unwritten_ids S"
      "\<forall>q \<in> set (ld_receipts db). lr_key q = (c, k) \<longrightarrow> q = r"
      "\<forall>q \<in> set (ld_receipts db). lr_key q \<noteq> (c, k) \<longrightarrow> q \<in> set (ld_receipts (la_db S))"
      "map lr_key (ld_receipts db) = (if (c, k) \<in> lr_key ` set (ld_receipts (la_db S)) then map lr_key (ld_receipts (la_db S))
        else map lr_key (ld_receipts (la_db S)) @ [(c, k)])"
    using facts by - (elim conjE, assumption)+
  have "{u \<in> set (la_tasks ?S). \<not> lt_written u} =
      insert \<lparr>lt_receipt = r, lt_written = False, lt_attached = True\<rparr> {u \<in> set (la_tasks S). \<not> lt_written u}" by auto
  then have un: "unwritten_ids ?S = insert new (unwritten_ids S)" by (simp add: unwritten_ids_def F(1))
  have live: "live_ids ?S q = (if q = (c, k) then {new} else live_ids S q)" for q
    using un F(4,6) fresh_new by (auto simp: live_ids_def)
  have att: "q = (c, k) \<or> attached S q" if "attached ?S q" for q using that F(2) by (auto simp: attached_def)
  have old_id: "lt_id u \<noteq> new" if "u \<in> set (la_tasks S)" for u using i(5) [OF that] fresh_new(3) by auto
  show ?thesis
  proof (rule launch_invI)
    show "distinct (map lr_key (ld_receipts (la_db ?S)))" using i(1) by (auto simp: F(12) split: if_splits)
    show "session_ids (la_db ?S) \<subseteq> la_used ?S" "dom (la_owner ?S) \<subseteq> la_used ?S" using i(2,3) F(4) by auto
    have "new \<notin> lt_id ` set (la_tasks S)" using old_id by (metis (no_types) imageE)
    then show "distinct (map lt_id (la_tasks ?S))" using i(4) F(1) by simp
    show "la_owner ?S (lt_id u) = Some (lt_key u)" if "u \<in> set (la_tasks ?S)" for u
      using that F(1,2) i(5) old_id by auto
    show "unwritten_ids ?S \<inter> session_ids (la_db ?S) = {}" using i(6) fresh_new F(4) by (auto simp: un)
    show "fst q \<in> la_used ?S \<and> fst q \<notin> unwritten_ids ?S" if "la_owner ?S j = Some q" for j q
    proof (cases "j = new")
      case True
      then have "fst q = c" using that by auto
      then show ?thesis using F(8,9) new by (auto simp: un)
    next
      case False
      then have "fst q \<in> la_used S \<and> fst q \<notin> unwritten_ids S" using that i(7) by auto
      then show ?thesis using new by (auto simp: un)
    qed
    show "j = l" if "j \<in> live_ids ?S q" "l \<in> live_ids ?S q" for q j l using that i(8) by (auto simp: live split: if_splits)
    show "la_owner ?S (lr_session q) = Some (lr_key q)" if "q \<in> set (ld_receipts (la_db ?S))" for q
    proof (cases "lr_key q = (c, k)")
      case True
      then have "q = r" using that F(10) by simp
      then show ?thesis by (simp add: F(1,2))
    next
      case False
      then have "la_owner S (lr_session q) = Some (lr_key q)" using that F(11) i(9) by simp
      then show ?thesis using fresh_new(3) by auto
    qed
    show "lr_status q \<noteq> Failed_Launch \<and> j = lr_session q"
      if q: "q \<in> set (ld_receipts (la_db ?S))" "j \<in> live_ids ?S (lr_key q)" for q j
    proof (cases "lr_key q = (c, k)")
      case True
      then have "q = r" using q(1) F(10) by simp
      then show ?thesis using q(2) by (simp add: live F(1,2,3))
    next
      case False
      have "q \<in> set (ld_receipts (la_db S))" using q(1) False F(11) by simp
      moreover have "j \<in> live_ids S (lr_key q)" using q(2) False unfolding live by (simp only: if_False)
      ultimately show ?thesis by (rule i(10))
    qed
    show "lr_status q = Pending_Launch \<and> lr_session q = lt_id u"
      if u: "u \<in> set (la_tasks ?S)" "lt_attached u" "q \<in> set (ld_receipts (la_db ?S))" "lr_key q = lt_key u" for u q
    proof (cases "lr_key q = (c, k)")
      case True
      then have "q = r" using u(3) F(10) by simp
      moreover have "lt_receipt u = r" using u(1,2,4) True F(7) by (auto simp: attached_def)
      ultimately show ?thesis by (simp add: F(3))
    next
      case False
      then have "q \<in> set (ld_receipts (la_db S))" "u \<in> set (la_tasks S)" using u F(2,11) by auto
      then show ?thesis using i(11) u(2,4) by blast
    qed
    show "fst q \<notin> session_ids (la_db ?S)"
      if q: "live_ids ?S q \<noteq> {} \<or> attached ?S q" "q \<notin> lr_key ` set (ld_receipts (la_db ?S))" for q
    proof -
      have ne: "q \<noteq> (c, k)" using q(2) F(2,5) by force
      have "live_ids S q \<noteq> {} \<or> attached S q" using q(1) att [of q] ne unfolding live by (simp only: if_False) blast
      moreover have "q \<notin> lr_key ` set (ld_receipts (la_db S))"
      proof
        assume "q \<in> lr_key ` set (ld_receipts (la_db S))"
        then have "q \<in> set (map lr_key (ld_receipts db))" by (auto simp: F(12))
        then show False using q(2) by simp
      qed
      ultimately show ?thesis using i(12) F(4) by simp
    qed
  qed
qed

lemma launch_inv_owned:
  assumes "launch_inv S" and "live_ids S k \<noteq> {} \<or> attached S k"
  shows "fst k \<in> la_used S"
proof -
  obtain j where "la_owner S j = Some k"
    using assms(2) launch_invD(5) [OF assms(1)] by (auto simp: live_ids_def attached_def)
  then show ?thesis using launch_invD(7) [OF assms(1)] by blast
qed

text \<open>The rest of the program creates a session.\<close>

lemma launch_inv_other:
  assumes inv: "launch_inv S" and new: "ls_id s \<notin> la_used S"
  shows "launch_inv (S\<lparr>la_db := (la_db S)\<lparr>ld_sessions := ld_sessions (la_db S) @ [s]\<rparr>, la_used := insert (ls_id s) (la_used S)\<rparr>)"
    (is "launch_inv ?S")
proof -
  note i = launch_invD [OF inv]
  have ids: "session_ids (la_db ?S) = insert (ls_id s) (session_ids (la_db S))" by (simp add: session_ids_def)
  have owner: "la_owner S (ls_id s) = None" using new i(3) by (meson domIff subsetD)
  have un: "unwritten_ids ?S = unwritten_ids S" by (simp add: unwritten_ids_def)
  have live: "live_ids ?S k = live_ids S k" for k using owner unfolding live_ids_def un ids by auto
  have att: "attached ?S k = attached S k" for k by (simp add: attached_def)
  have no: "ls_id s \<notin> unwritten_ids S" using i(5) owner by (fastforce simp: unwritten_ids_def)
  show ?thesis
  proof (rule launch_invI)
    show "unwritten_ids ?S \<inter> session_ids (la_db ?S) = {}" using i(6) no unfolding un ids by simp
    show "session_ids (la_db ?S) \<subseteq> la_used ?S" using i(2) unfolding ids by auto
    show "lr_status r \<noteq> Failed_Launch \<and> j = lr_session r" if "r \<in> set (ld_receipts (la_db ?S))" "j \<in> live_ids ?S (lr_key r)" for r j
      using i(10) [of r j] that unfolding live by simp
    show "j = l" if "j \<in> live_ids ?S k" "l \<in> live_ids ?S k" for k j l using i(8) that unfolding live by blast
    show "fst k \<notin> session_ids (la_db ?S)"
      if k: "live_ids ?S k \<noteq> {} \<or> attached ?S k" "k \<notin> lr_key ` set (ld_receipts (la_db ?S))" for k
    proof -
      have k': "live_ids S k \<noteq> {} \<or> attached S k" using k(1) unfolding live att .
      have "fst k \<notin> session_ids (la_db S)" using k(2) by (intro i(12) [OF k']) simp
      moreover have "fst k \<noteq> ls_id s" using launch_inv_owned [OF inv k'] new by metis
      ultimately show ?thesis unfolding ids by simp
    qed
    show "fst k \<in> la_used ?S \<and> fst k \<notin> unwritten_ids ?S" if "la_owner ?S j = Some k" for j k
      using i(7) [of j k] that by (simp add: un)
    show "lr_status r = Pending_Launch \<and> lr_session r = lt_id t"
      if "t \<in> set (la_tasks ?S)" "lt_attached t" "r \<in> set (ld_receipts (la_db ?S))" "lr_key r = lt_key t" for t r
      using i(11) [of t r] that by simp
  qed (use i(1,3-5,9) in auto)
qed

text \<open>A session is deleted, with the receipts it holds as a caller.\<close>

lemma delete_session_ids: "session_ids (delete_session_row x db) = session_ids db - {x}"
proof -
  have "session_ids (delete_session_row x db) = ls_id ` set (filter (\<lambda>s. ls_id s \<noteq> x) (ld_sessions db))"
    unfolding session_ids_def delete_session_row_def launch_db.simps by (rule session_ids_map) simp
  then show ?thesis by (auto simp: session_ids_def)
qed

lemma launch_inv_delete:
  assumes inv: "launch_inv S"
  shows "launch_inv (S\<lparr>la_db := delete_session_row x (la_db S)\<rparr>)" (is "launch_inv ?S")
proof -
  note i = launch_invD [OF inv]
  have ids: "session_ids (la_db ?S) = session_ids (la_db S) - {x}" by (simp add: delete_session_ids)
  have rs: "ld_receipts (la_db ?S) = filter (\<lambda>r. lr_caller r \<noteq> x) (ld_receipts (la_db S))" by (simp add: delete_session_row_def)
  have un: "unwritten_ids ?S = unwritten_ids S" by (simp add: unwritten_ids_def)
  have live: "live_ids ?S k \<subseteq> live_ids S k" for k unfolding live_ids_def un ids by auto
  have att: "attached ?S k = attached S k" for k by (simp add: attached_def)
  show ?thesis
  proof (rule launch_invI)
    show "distinct (map lr_key (ld_receipts (la_db ?S)))" unfolding rs using i(1) by (rule distinct_map_filter)
    show "session_ids (la_db ?S) \<subseteq> la_used ?S" using i(2) unfolding ids by auto
    show "unwritten_ids ?S \<inter> session_ids (la_db ?S) = {}" using i(6) unfolding un ids by auto
    show "fst k \<in> la_used ?S \<and> fst k \<notin> unwritten_ids ?S" if "la_owner ?S j = Some k" for j k
      using i(7) [of j k] that by (simp add: un)
    show "j = l" if "j \<in> live_ids ?S k" "l \<in> live_ids ?S k" for k j l using i(8) that live by blast
    show "la_owner ?S (lr_session r) = Some (lr_key r)" if "r \<in> set (ld_receipts (la_db ?S))" for r
      using i(9) [of r] that unfolding rs by simp
    show "lr_status r \<noteq> Failed_Launch \<and> j = lr_session r" if r: "r \<in> set (ld_receipts (la_db ?S))" "j \<in> live_ids ?S (lr_key r)" for r j
    proof -
      have "r \<in> set (ld_receipts (la_db S))" using r(1) unfolding rs by simp
      then show ?thesis using subsetD [OF live r(2)] by (rule i(10))
    qed
    show "lr_status r = Pending_Launch \<and> lr_session r = lt_id t"
      if "t \<in> set (la_tasks ?S)" "lt_attached t" "r \<in> set (ld_receipts (la_db ?S))" "lr_key r = lt_key t" for t r
      using i(11) [of t r] that unfolding rs by simp
    show "fst k \<notin> session_ids (la_db ?S)"
      if k: "live_ids ?S k \<noteq> {} \<or> attached ?S k" "k \<notin> lr_key ` set (ld_receipts (la_db ?S))" for k
    proof (cases "fst k = x")
      case False
      have "k \<notin> lr_key ` set (ld_receipts (la_db S))" 
      proof
        assume "k \<in> lr_key ` set (ld_receipts (la_db S))"
        then obtain r where "r \<in> set (ld_receipts (la_db S))" "k = lr_key r" by (rule imageE)
        then have "r \<in> set (ld_receipts (la_db ?S))" using False unfolding rs by simp
        then show False using k(2) \<open>k = lr_key r\<close> by blast
      qed
      moreover have "live_ids S k \<noteq> {} \<or> attached S k" using k(1) live [of k] unfolding att by blast
      ultimately show ?thesis using i(12) unfolding ids by simp
    next
      case True
      then show ?thesis unfolding ids by simp
    qed
  qed (use i(3-5) in auto)
qed

lemma launch_step_keeps: "launch_inv S \<Longrightarrow> launch_step print S S' \<Longrightarrow> launch_inv S'"
proof (erule launch_step.cases, goal_cases)
  case (1 c k minutes hash new S r db)
  then show ?case using launch_inv_call by blast
next
  case (2 S)
  then show ?case using launch_inv_same_tasks [OF _ edits_reconcile] by blast
next
  case (3 S a t b w)
  then show ?case using launch_inv_same_tasks [OF _ edits_workspace, of S] by simp
next
  case (4 S a t b)
  then show ?case using launch_inv_write [of S a t b] by simp
next
  case (5 S a t b depth)
  then show ?case using launch_inv_same_tasks [OF _ edits_lineage, of S] by simp
next
  case (6 S a t b r1 r2 g1 g2 result)
  then show ?case using launch_inv_release [OF _ _ _ ends_end_launch, of S a t b] by blast
next
  case (7 S a t b g1 g2)
  then show ?case using launch_inv_release [OF _ _ _ ends_mark, where may_fail = False and S = S and a = a and t = t and b = b] by auto
next
  case (8 s S)
  then show ?case using launch_inv_other by blast
next
  case (9 S x)
  then show ?case using launch_inv_delete by blast
next
  case (10 db S)
  then show ?case using launch_inv_restart by blast
qed

interpretation launches: invariant_system "launch_step print" launch_inv for print
  by unfold_locales (rule launch_step_keeps)

lemma launch_inv_start: "launch_inv (start_launches existing)"
  by (rule launch_invI) (auto simp: start_launches_def session_ids_def live_ids_def unwritten_ids_def attached_def)

lemma launch_reachable: "(launch_step print)\<^sup>*\<^sup>* (start_launches existing) S \<Longrightarrow> launch_inv S"
  by (rule launches.runs [OF _ launch_inv_start])

section \<open>Settled receipts stay\<close>

lemma reachable_receipt:
  assumes "launch_inv S" and "la_owner S i = Some (c, k)" and "i \<in> session_ids (la_db S)" and "c \<in> session_ids (la_db S)"
  obtains r where "find_receipt (la_db S) c k = Some r" "lr_session r = i" "lr_status r \<noteq> Failed_Launch"
proof -
  note inv = launch_invD [OF assms(1)]
  have live: "i \<in> live_ids S (c, k)" using assms(2,3) by (simp add: live_ids_def)
  have "(c, k) \<in> lr_key ` set (ld_receipts (la_db S))" using inv(12) [of "(c, k)"] live assms(4) by fastforce
  then have "find_receipt (la_db S) c k \<noteq> None" by (auto simp: find_receipt_def find_None_all)
  then obtain r where r: "find_receipt (la_db S) c k = Some r" by blast
  then have mem: "r \<in> set (ld_receipts (la_db S))" "lr_key r = (c, k)" by (auto simp: find_receipt_def dest: find_Some_mem)
  have "i \<in> live_ids S (lr_key r)" using live unfolding mem(2) .
  then show thesis using that [OF r] inv(10) [OF mem(1)] by simp
qed

text \<open>A receipt that says completed or uncertain is there for as long as its caller is.\<close>

definition receipt_kept :: "launch_receipt \<Rightarrow> launch_system \<Rightarrow> bool" where
  "receipt_kept r S \<longleftrightarrow> launch_inv S \<and> lr_status r \<in> {Completed_Launch, Uncertain_Launch} \<and>
     lr_caller r \<in> la_used S \<and> lr_caller r \<notin> unwritten_ids S \<and>
     (r \<in> set (ld_receipts (la_db S)) \<or> lr_caller r \<notin> session_ids (la_db S))"

lemma kept_edit:
  assumes "edits f db db'" and "f r = r" and "r \<in> set (ld_receipts db) \<or> lr_caller r \<notin> session_ids db"
  shows "r \<in> set (ld_receipts db') \<or> lr_caller r \<notin> session_ids db'"
  using assms(2,3) editsD(5) [OF assms(1)] by (force simp: editsD(1) [OF assms(1)])

lemma kept_ends:
  assumes "ends_receipt q b db db'" and "lr_status r \<noteq> Pending_Launch"
    and "r \<in> set (ld_receipts db) \<or> lr_caller r \<notin> session_ids db"
  shows "r \<in> set (ld_receipts db') \<or> lr_caller r \<notin> session_ids db'"
  using assms kept_edit unfolding ends_receipt_def by blast

lemma unwritten_grows:
  assumes "launch_step print S S'" and "j \<in> unwritten_ids S'"
  shows "j \<in> unwritten_ids S \<or> j \<notin> la_used S"
  using assms
proof (cases rule: launch_step.cases)
  case (call c k minutes hash new r db)
  have "lr_session r = new" using call(2) by (cases rule: begin_launch_claims) (simp_all add: new_receipt_def)
  then show ?thesis using assms(2) call(1,3) by (auto simp: unwritten_ids_def)
qed (auto simp: unwritten_ids_def)

lemma used_grows: "launch_step print S S' \<Longrightarrow> la_used S \<subseteq> la_used S'"
  by (erule launch_step.cases) auto

lemma receipt_kept_step:
  assumes kept: "receipt_kept r S" and step: "launch_step print S S'"
  shows "receipt_kept r S'"
proof -
  have k: "launch_inv S" "lr_status r \<in> {Completed_Launch, Uncertain_Launch}" "lr_caller r \<in> la_used S"
    "lr_caller r \<notin> unwritten_ids S" "r \<in> set (ld_receipts (la_db S)) \<or> lr_caller r \<notin> session_ids (la_db S)"
    using kept by (auto simp: receipt_kept_def)
  have st: "lr_status r \<noteq> Pending_Launch" using k(2) by auto
  have "r \<in> set (ld_receipts (la_db S')) \<or> lr_caller r \<notin> session_ids (la_db S')"
    using step
  proof (cases rule: launch_step.cases)
    case (call c key minutes hash new r' db)
    show ?thesis using call(2)
    proof (cases rule: begin_launch_claims)
      case fresh
      then show ?thesis using k(5) call(1) by (auto simp: session_ids_def)
    next
      case (again r0)
      have "r \<in> set (ld_receipts db)" if r: "r \<in> set (ld_receipts (la_db S))"
      proof -
        have "lr_key r \<noteq> (c, key)"
        proof
          assume key: "lr_key r = (c, key)"
          have "r = r0" by (rule distinct_map_eq [OF launch_invD(1) [OF k(1)] r again(1)]) (use key again(2) in simp)
          then show False using again(3) k(2) by simp
        qed
        then show ?thesis unfolding again(5) update_receipts_def using r by (force simp: image_iff)
      qed
      moreover have "session_ids db = session_ids (la_db S)" by (simp add: again(5) update_receipts_def session_ids_def)
      ultimately show ?thesis using k(5) call(1) by auto
    qed
  next
    case retry
    then show ?thesis using kept_edit [OF edits_reconcile _ k(5)] by simp
  next
    case (workspace a t b w)
    have "(if in_flight (fst (lt_key t)) (snd (lt_key t)) r then r\<lparr>lr_workspace := Some w\<rparr> else r) = r"
      using st by (simp add: in_flight_def)
    from kept_edit [OF edits_workspace this k(5)] show ?thesis using workspace(1) by simp
  next
    case (write_session a t b)
    have "lr_caller r \<noteq> lt_id t" using k(4) write_session(2,3) by (auto simp: unwritten_ids_def)
    then show ?thesis using k(5) write_session(1) by (auto simp: session_ids_def)
  next
    case (lineage a t b depth)
    then show ?thesis using kept_edit [OF edits_lineage _ k(5)] by simp
  next
    case (finish a t b r1 r2 g1 g2 result)
    then show ?thesis using kept_ends [OF ends_end_launch st k(5)] by simp
  next
    case (hang_up a t b g1 g2)
    then show ?thesis using kept_ends [OF ends_mark [where b = False and receipt = "lt_receipt t"] st k(5)] by simp
  next
    case (other_session s)
    then have "lr_caller r \<noteq> ls_id s" using k(3) by metis
    then show ?thesis using k(5) other_session(1) by (auto simp: session_ids_def)
  next
    case (delete_session x)
    then show ?thesis using k(5) by (auto simp: delete_session_ids) (auto simp: delete_session_row_def)
  next
    case (restart db)
    obtain f where f: "edits f (la_db S) (snd (recover_orphaned_receipts (la_db S)))" "\<forall>r. lr_status r \<noteq> Pending_Launch \<longrightarrow> f r = r"
      using edits_recover [of "la_db S"] by blast
    show ?thesis
    proof (cases "db = la_db S")
      case True
      then show ?thesis using k(5) restart(1) by simp
    next
      case False
      then have "db = snd (recover_orphaned_receipts (la_db S))" using restart(2) by blast
      then show ?thesis using kept_edit [OF f(1) _ k(5)] f(2) st restart(1) by simp
    qed
  qed
  moreover have "launch_inv S'" by (rule launch_step_keeps [OF k(1) step])
  moreover have "lr_caller r \<in> la_used S'" "lr_caller r \<notin> unwritten_ids S'"
    using used_grows [OF step] unwritten_grows [OF step] k(3,4) by auto
  ultimately show ?thesis using k(2) by (simp add: receipt_kept_def)
qed

interpretation keeping: invariant_system "launch_step print" "receipt_kept r" for print r
  by unfold_locales (rule receipt_kept_step)

text \<open>C22: a key that its caller retries starts one session, whatever is interleaved: calls and retries
  with the same key, failing and dropped launches, launches whose caller hung up and that go on
  writing, refused database writes, deletions and restarts. All sessions that exist for a key are one; as
  long as its caller exists, a receipt that is not failed names it; and a call is given the key only
  when no session of it exists or can still come to exist.\<close>

theorem retried_launch_starts_one_session:
  assumes "(launch_step print)\<^sup>*\<^sup>* (start_launches existing) S"
  shows "(i \<in> session_ids (la_db S) \<and> j \<in> session_ids (la_db S) \<and> la_owner S i = Some k \<and> la_owner S j = Some k \<longrightarrow> i = j) \<and>
    (i \<in> session_ids (la_db S) \<and> la_owner S i = Some k \<and> fst k \<in> session_ids (la_db S) \<longrightarrow>
      (\<exists>r. find_receipt (la_db S) (fst k) (snd k) = Some r \<and> lr_session r = i \<and> lr_status r \<noteq> Failed_Launch)) \<and>
    (begin_launch (fst k) (snd k) minutes hash new (la_db S) = Inr (Claimed_Launch r, db) \<longrightarrow>
      (\<forall>x \<in> session_ids (la_db S) \<union> unwritten_ids S. la_owner S x \<noteq> Some k))"
proof (intro conjI impI)
  note inv = launch_reachable [OF assms]
  note i = launch_invD [OF inv]
  show "i = j" if "i \<in> session_ids (la_db S) \<and> j \<in> session_ids (la_db S) \<and> la_owner S i = Some k \<and> la_owner S j = Some k"
    using i(8) [of i k j] that by (simp add: live_ids_def)
  show "\<exists>r. find_receipt (la_db S) (fst k) (snd k) = Some r \<and> lr_session r = i \<and> lr_status r \<noteq> Failed_Launch"
    if "i \<in> session_ids (la_db S) \<and> la_owner S i = Some k \<and> fst k \<in> session_ids (la_db S)"
    using reachable_receipt [OF inv, of i "fst k" "snd k"] that by (metis prod.collapse)
  show "\<forall>x \<in> session_ids (la_db S) \<union> unwritten_ids S. la_owner S x \<noteq> Some k"
    if "begin_launch (fst k) (snd k) minutes hash new (la_db S) = Inr (Claimed_Launch r, db)"
    using that
  proof (cases rule: begin_launch_claims)
    case fresh
    then have "live_ids S k = {}" using i(12) [of k] by auto
    then show ?thesis by (auto simp: live_ids_def)
  next
    case (again r0)
    then have "live_ids S k = {}" using i(10) [OF again(1)] by force
    then show ?thesis by (auto simp: live_ids_def)
  qed
qed

text \<open>Once a launch has been answered and its answer recorded, every later retry of its key with the
  same arguments is answered with that same session, marked as replayed, and changes nothing, after whatever
  other launches, deletions and restarts, for as long as the caller exists.\<close>

lemma completed_launch_is_replayed:
  assumes "(launch_step print)\<^sup>*\<^sup>* (start_launches existing) S"
    and "la_tasks S = a @ t # b" and "lt_attached t"
    and "find_receipt (la_db S) (lr_caller (lt_receipt t)) (lr_request (lt_receipt t)) = Some r"
    and "print launched = Some json" and "parse json = Inr launched"
    and "(launch_step print)\<^sup>*\<^sup>* (S\<lparr>la_db := end_launch print None None g1 g2 (lt_receipt t) (Inr launched) (la_db S),
      la_tasks := a @ b\<rparr>) S'"
    and "lr_caller r \<in> session_ids (la_db S')" and "valid_request_id (lr_request r)" and "check_in_minutes minutes = Inr m"
  shows "\<exists>r'. begin_launch (lr_caller r) (lr_request r) minutes (lr_hash r) new (la_db S') = Inr (Existing_Launch r', la_db S') \<and>
    lr_session r' = lt_id t \<and> answer_retry parse (lr_hash r) r' polls = Inr (launched\<lparr>ln_replayed := True\<rparr>)"
proof -
  let ?S = "S\<lparr>la_db := end_launch print None None g1 g2 (lt_receipt t) (Inr launched) (la_db S), la_tasks := a @ b\<rparr>"
  note inv = launch_reachable [OF assms(1)]
  note i = launch_invD [OF inv]
  have r: "r \<in> set (ld_receipts (la_db S))" "lr_key r = lt_key t" using assms(4) by (auto simp: find_receipt_def dest: find_Some_mem)
  have st: "lr_status r = Pending_Launch" "lr_session r = lt_id t" using i(11) [OF _ assms(3) r] assms(2) by auto
  let ?f = "settled (lr_caller (lt_receipt t)) (lr_request (lt_receipt t)) Completed_Launch (Some json) None"
  have db: "end_launch print None None g1 g2 (lt_receipt t) (Inr launched) (la_db S) =
      settle_row (lr_caller (lt_receipt t)) (lr_request (lt_receipt t)) Completed_Launch (Some json) None (la_db S)"
    using assms(5) by (simp add: end_launch_def settle_receipt_def complete_receipt_def)
  have step: "launch_step print S ?S" by (rule finish [OF assms(2,3)])
  have f: "?f r = r\<lparr>lr_status := Completed_Launch, lr_result := Some json, lr_error_code := None, lr_error_message := None\<rparr>"
    using r(2) st(1) by (simp add: settled_def in_flight_def)
  let ?r = "?f r"
  have fr: "lr_key ?r = lr_key r" "lr_hash ?r = lr_hash r" "lr_session ?r = lr_session r" "lr_status ?r = Completed_Launch"
    "lr_result ?r = Some json" unfolding f by simp_all
  have "?r \<in> set (ld_receipts (la_db ?S))" using r(1) editsD(1) [OF edits_settle] by (simp add: db)
  moreover have "lr_caller r \<in> la_used S" "lr_caller r \<notin> unwritten_ids S" using i(7) [OF i(9) [OF r(1)]] by simp_all
  ultimately have "receipt_kept ?r ?S"
    using launch_step_keeps [OF inv step] used_grows [OF step] unwritten_grows [OF step, of "lr_caller r"] fr
    by (auto simp: receipt_kept_def)
  then have "receipt_kept ?r S'" by (rule keeping.runs [OF assms(7)])
  then have kept: "?r \<in> set (ld_receipts (la_db S'))" "launch_inv S'" using assms(8) fr(1) by (auto simp: receipt_kept_def)
  have "find_receipt (la_db S') (lr_caller r) (lr_request r) = Some ?r"
  proof -
    obtain q where q: "find_receipt (la_db S') (lr_caller r) (lr_request r) = Some q"
      using kept(1) fr(1) by (fastforce simp: find_receipt_def find_None_all dest: not_None_eq [THEN iffD1])
    then have "q \<in> set (ld_receipts (la_db S'))" "lr_key q = lr_key r" by (auto simp: find_receipt_def dest: find_Some_mem)
    then have "q = ?r" using distinct_map_eq [OF launch_invD(1) [OF kept(2)] _ kept(1)] fr(1) by simp
    then show ?thesis using q by simp
  qed
  then have "begin_launch (lr_caller r) (lr_request r) minutes (lr_hash r) new (la_db S') = Inr (Existing_Launch ?r, la_db S')"
    using assms(9,10) fr(4) by (simp add: begin_launch_def claim_receipt_def)
  moreover have "answer_retry parse (lr_hash r) ?r polls = Inr (launched\<lparr>ln_replayed := True\<rparr>)"
    using fr assms(6) by (simp add: answer_retry_def retry_loop.simps)
  ultimately show ?thesis using fr(3) st(2) by auto
qed

section \<open>A sample run\<close>

definition sample_launched :: launched_session where
  "sample_launched =
     \<lparr>ln_session = ''n'', ln_workspace = ''w'', ln_project = ''p'', ln_project_name = ''p'', ln_path = ''/p'', ln_branch = ''main'',
      ln_check = None, ln_permission = Some AskEachTime, ln_requested = None, ln_replayed = False\<rparr>"

definition sample_written :: launch_system where
  "sample_written =
     \<lparr>la_db = \<lparr>ld_receipts = [new_receipt ''c'' ''k'' ''h'' ''n''],
        ld_sessions = [\<lparr>ls_id = ''c'', ls_launched_by = None, ls_depth = 0, ls_kind = LAUNCH_KIND_AGENT\<rparr>,
          \<lparr>ls_id = ''n'', ls_launched_by = None, ls_depth = 0, ls_kind = LAUNCH_KIND_AGENT\<rparr>]\<rparr>,
      la_tasks = [\<lparr>lt_receipt = new_receipt ''c'' ''k'' ''h'' ''n'', lt_written = True, lt_attached = True\<rparr>],
      la_used = insert ''n'' {''c''}, la_owner = [''n'' \<mapsto> (''c'', ''k'')]\<rparr>"

lemma sample_key: "valid_request_id ''k''" "check_in_minutes None = Inr None"
  by (code_simp, simp add: check_in_minutes_def)

lemma sample_written_reachable:
  "(launch_step print)\<^sup>*\<^sup>* (start_launches [\<lparr>ls_id = ''c'', ls_launched_by = None, ls_depth = 0, ls_kind = LAUNCH_KIND_AGENT\<rparr>])
     sample_written"
proof -
  let ?start = "start_launches [\<lparr>ls_id = ''c'', ls_launched_by = None, ls_depth = 0, ls_kind = LAUNCH_KIND_AGENT\<rparr>]"
  let ?r = "new_receipt ''c'' ''k'' ''h'' ''n''"
  let ?db = "(la_db ?start)\<lparr>ld_receipts := [?r]\<rparr>"
  let ?called = "\<lparr>la_db = ?db, la_tasks = la_tasks ?start @ [\<lparr>lt_receipt = ?r, lt_written = False, lt_attached = True\<rparr>],
      la_used = insert ''n'' (la_used ?start), la_owner = (la_owner ?start)(''n'' \<mapsto> (''c'', ''k''))\<rparr>"
  have "begin_launch ''c'' ''k'' None ''h'' ''n'' (la_db ?start) = Inr (Claimed_Launch ?r, ?db)"
    by (simp add: begin_launch_def sample_key claim_receipt_def find_receipt_def start_launches_def session_ids_def)
  then have 1: "launch_step print ?start ?called" by (rule call) (simp add: start_launches_def)
  have "launch_step print ?called sample_written"
    using write_session [of ?called "[]" "\<lparr>lt_receipt = ?r, lt_written = False, lt_attached = True\<rparr>" "[]" print]
    by (simp add: sample_written_def start_launches_def new_receipt_def)
  then show ?thesis using 1 by (meson converse_rtranclp_into_rtranclp rtranclp.rtrancl_refl)
qed

theorem retried_launch_starts_one_session_witness:
  "\<exists>r. find_receipt (la_db sample_written) ''c'' ''k'' = Some r \<and> lr_session r = ''n'' \<and> lr_status r \<noteq> Failed_Launch"
proof -
  have "''n'' \<in> session_ids (la_db sample_written) \<and> la_owner sample_written ''n'' = Some (''c'', ''k'') \<and>
      fst (''c'', ''k'') \<in> session_ids (la_db sample_written)"
    by (simp add: sample_written_def session_ids_def)
  then show ?thesis
    using retried_launch_starts_one_session [OF sample_written_reachable [of "\<lambda>_. None"], of "''n''" "''n''" "(''c'', ''k'')"] by simp
qed

lemma completed_launch_is_replayed_witness:
  "\<exists>db r. begin_launch ''c'' ''k'' None ''h'' ''m'' db = Inr (Existing_Launch r, db) \<and> lr_session r = ''n'' \<and>
     answer_retry (\<lambda>_. Inr sample_launched) ''h'' r [] = Inr (sample_launched\<lparr>ln_replayed := True\<rparr>)"
proof -
  let ?print = "\<lambda>_. Some ''json''"
  let ?r = "new_receipt ''c'' ''k'' ''h'' ''n''"
  let ?t = "\<lparr>lt_receipt = ?r, lt_written = True, lt_attached = True\<rparr>"
  let ?S = "sample_written\<lparr>la_db := end_launch ?print None None None None (lt_receipt ?t) (Inr sample_launched) (la_db sample_written),
      la_tasks := [] @ []\<rparr>"
  have there: "lr_caller ?r \<in> session_ids (la_db ?S)"
    by (simp add: end_launch_def settle_receipt_def complete_receipt_def settle_row_def update_receipts_def sample_written_def
        session_ids_def new_receipt_def)
  have f: "lr_caller ?r = ''c''" "lr_request ?r = ''k''" "lr_hash ?r = ''h''" "lr_session ?r = ''n''" by (simp_all add: new_receipt_def)
  have "\<exists>r'. begin_launch (lr_caller ?r) (lr_request ?r) None (lr_hash ?r) ''m'' (la_db ?S) = Inr (Existing_Launch r', la_db ?S) \<and>
      lr_session r' = lt_id ?t \<and> answer_retry (\<lambda>_. Inr sample_launched) (lr_hash ?r) r' [] = Inr (sample_launched\<lparr>ln_replayed := True\<rparr>)"
  proof (rule completed_launch_is_replayed [OF sample_written_reachable,
        where print = ?print and a = "[]" and b = "[]" and t = ?t and json = "''json''"])
    show "find_receipt (la_db sample_written) (lr_caller (lt_receipt ?t)) (lr_request (lt_receipt ?t)) = Some ?r"
      by (simp add: sample_written_def find_receipt_def)
    show "valid_request_id (lr_request ?r)" by (simp add: f sample_key)
    show "check_in_minutes None = Inr None" by (rule sample_key(2))
    show "lr_caller ?r \<in> session_ids (la_db ?S)" by (rule there)
    show "(launch_step ?print)\<^sup>*\<^sup>* ?S ?S" by (rule rtranclp.rtrancl_refl)
    show "la_tasks sample_written = [] @ ?t # []" by (simp add: sample_written_def)
  qed simp_all
  then obtain r' where r': "begin_launch ''c'' ''k'' None ''h'' ''m'' (la_db ?S) = Inr (Existing_Launch r', la_db ?S)"
    "lr_session r' = ''n''" "answer_retry (\<lambda>_. Inr sample_launched) ''h'' r' [] = Inr (sample_launched\<lparr>ln_replayed := True\<rparr>)"
    by (auto simp: f)
  then show ?thesis by (intro exI conjI)
qed

end
