(* ===== verification/Routine_Store.thy ===== *)
theory Routine_Store
  imports Launch_Agent
begin

text \<open>
  Scheduled tasks: their schedules (\<^verbatim>\<open>routines/schedule.rs\<close>), their table (\<^verbatim>\<open>persistence/routines.rs\<close>) and
  the calls that edit it, from the panel (\<^verbatim>\<open>ipc/routines.rs\<close>) and from an agent
  (\<^verbatim>\<open>session_control/actions/project_tools.rs\<close>). The crates \<^verbatim>\<open>chrono\<close> and \<^verbatim>\<open>cron\<close> are the argument
  \<open>ch\<close>; instants are nanoseconds since 1970. Stored times are the strings the code stores, and are compared as strings.
\<close>

section \<open>Dates\<close>

text \<open>What is used of the two crates: a canonical time, reading a time and the text of its error, the two formats of a local time,
  the first instant of a local time, and a cron expression with its next match.\<close>

record chrono =
  ch_format :: "int \<Rightarrow> string"
  ch_parse :: "string \<Rightarrow> int option"
  ch_parse_error :: "string \<Rightarrow> string"
  ch_naive :: "string \<Rightarrow> string \<Rightarrow> int option"
  ch_local :: "int \<Rightarrow> int option"
  ch_cron :: "string \<Rightarrow> (int \<Rightarrow> int option) option"

definition MILLI :: int where "MILLI = 1000000"
definition SECOND :: int where "SECOND = 1000 * MILLI"
definition RETRY_BACKOFF_MINUTES :: int where "RETRY_BACKOFF_MINUTES = 15"

text \<open>The years from 1970 to 9999, whose canonical times have one length.\<close>

definition dated :: "int \<Rightarrow> bool" where "dated t \<longleftrightarrow> 0 \<le> t \<and> t < 253402300800 * SECOND"

text \<open>Documented behaviour: in those years canonical times sort by their milliseconds and are read back to the
  millisecond; a cron expression matches whole seconds, after the instant it is asked from.\<close>

definition format_ok :: "chrono \<Rightarrow> bool" where
  "format_ok ch \<longleftrightarrow>
     (\<forall>s t. dated s \<and> dated t \<and> s div MILLI < t div MILLI \<longrightarrow> ch_format ch s < ch_format ch t) \<and>
     (\<forall>t. dated t \<longrightarrow> ch_parse ch (ch_format ch t) = Some (t div MILLI * MILLI))"

definition cron_ok :: "chrono \<Rightarrow> bool" where
  "cron_ok ch \<longleftrightarrow> (\<forall>e next t u. ch_cron ch e = Some next \<and> next t = Some u \<longrightarrow> t < u \<and> u mod SECOND = 0)"

section \<open>Schedules\<close>

definition schedule_issue :: "string \<Rightarrow> string \<Rightarrow> argmax_error" where
  "schedule_issue code message = invalid \<lparr>issue_path = [''schedule''], issue_code = code, issue_message = message\<rparr>"

definition parse_cron :: "chrono \<Rightarrow> string \<Rightarrow> argmax_error + (int \<Rightarrow> int option)" where
  "parse_cron ch e =
     (case ch_cron ch e of Some next \<Rightarrow> Inr next
      | None \<Rightarrow> Inl (schedule_issue ''SCHEDULE_INVALID''
          ''not a valid cron expression (expected: sec min hour day month weekday)''))"

definition parse_once_at :: "chrono \<Rightarrow> string \<Rightarrow> argmax_error + int" where
  "parse_once_at ch v =
     (case ch_parse ch v of Some t \<Rightarrow> Inr t
      | None \<Rightarrow> Inl (schedule_issue ''SCHEDULE_INVALID'' ''one-shot time is not a valid timestamp''))"

definition validate_schedule :: "chrono \<Rightarrow> string option \<Rightarrow> string option \<Rightarrow> argmax_error + unit" where
  "validate_schedule ch cron_expr run_once_at =
     (case (cron_expr, run_once_at) of
        (Some cron, None) \<Rightarrow> and_then (parse_cron ch cron) (\<lambda>_. Inr ())
      | (None, Some _) \<Rightarrow> Inr ()
      | (Some _, Some _) \<Rightarrow> Inl (schedule_issue ''SCHEDULE_BOTH'' ''provide either a cron expression or a one-shot time, not both'')
      | (None, None) \<Rightarrow> Inl (schedule_issue ''SCHEDULE_MISSING'' ''provide a cron expression or a one-shot time''))"

definition next_occurrence :: "chrono \<Rightarrow> string option \<Rightarrow> string option \<Rightarrow> int \<Rightarrow> argmax_error + int option" where
  "next_occurrence ch cron_expr run_once_at after =
     (case (cron_expr, run_once_at) of
        (Some cron, _) \<Rightarrow> and_then (parse_cron ch cron) (\<lambda>next. Inr (next after))
      | (None, Some due) \<Rightarrow> and_then (parse_once_at ch due) (\<lambda>t. Inr (if t > after then Some t else None))
      | (None, None) \<Rightarrow> Inl (schedule_issue ''SCHEDULE_MISSING'' ''routine has no schedule''))"

definition normalize_once_input :: "chrono \<Rightarrow> string \<Rightarrow> argmax_error + string" where
  "normalize_once_input ch v =
     (let local = (\<lambda>n. case ch_local ch n of
            Some t \<Rightarrow> Inr (ch_format ch t)
          | None \<Rightarrow> Inl (schedule_issue ''SCHEDULE_INVALID'' ''time does not exist in the local timezone''))
      in case ch_parse ch v of
           Some t \<Rightarrow> Inr (ch_format ch t)
         | None \<Rightarrow>
             (case ch_naive ch ''%Y-%m-%dT%H:%M:%S'' v of
                Some n \<Rightarrow> local n
              | None \<Rightarrow>
                  (case ch_naive ch ''%Y-%m-%dT%H:%M'' v of
                     Some n \<Rightarrow> local n
                   | None \<Rightarrow> Inl (schedule_issue ''SCHEDULE_INVALID''
                       ''one-shot time must be an RFC 3339 timestamp or a local datetime''))))"

definition retry_after :: "int \<Rightarrow> int" where
  "retry_after now = now + RETRY_BACKOFF_MINUTES * 60 * SECOND"

section \<open>The table\<close>

datatype routine_run_target = New_Session | Same_Session | Worktree_Target | Arc_Coordinator

fun run_target_str :: "routine_run_target \<Rightarrow> string" where
  "run_target_str New_Session = ''new_session''"
| "run_target_str Same_Session = ''same_session''"
| "run_target_str Worktree_Target = ''worktree''"
| "run_target_str Arc_Coordinator = ''arc_coordinator''"

definition parse_run_target :: "string \<Rightarrow> routine_run_target option" where
  "parse_run_target v =
     (if v \<in> {''new_session'', ''new_thread''} then Some New_Session
      else if v \<in> {''same_session'', ''existing_thread''} then Some Same_Session
      else if v = ''worktree'' then Some Worktree_Target
      else if v = ''arc_coordinator'' then Some Arc_Coordinator
      else None)"

datatype routine_author = User_Author | Agent_Author

fun routine_author_str :: "routine_author \<Rightarrow> string" where
  "routine_author_str User_Author = ''user''"
| "routine_author_str Agent_Author = ''agent''"

definition parse_routine_author :: "string \<Rightarrow> routine_author option" where
  "parse_routine_author v = (if v = ''user'' then Some User_Author else if v = ''agent'' then Some Agent_Author else None)"

lemma run_target_round_trip: "parse_run_target (run_target_str t) = Some t"
  by (cases t) (simp_all add: parse_run_target_def)

lemma routine_author_round_trip: "parse_routine_author (routine_author_str a) = Some a"
  by (cases a) (simp_all add: parse_routine_author_def)

record routine =
  ro_id :: string
  ro_name :: string
  ro_project :: string
  ro_prompt :: string
  ro_provider :: string
  ro_model_label :: string
  ro_model_id :: string
  ro_worktree :: bool
  ro_target :: routine_run_target
  ro_last_session :: "string option"
  ro_arc :: "string option"
  ro_cron :: "string option"
  ro_once :: "string option"
  ro_enabled :: bool
  ro_last_run :: "string option"
  ro_next_run :: "string option"
  ro_last_error :: "string option"
  ro_author :: routine_author
  ro_created :: string
  ro_updated :: string

record routine_fields =
  rf_id :: string
  rf_name :: string
  rf_project :: string
  rf_prompt :: string
  rf_provider :: string
  rf_model_label :: string
  rf_model_id :: string
  rf_target :: routine_run_target
  rf_last_session :: "string option"
  rf_arc :: "string option"
  rf_cron :: "string option"
  rf_once :: "string option"
  rf_enabled :: bool
  rf_updated :: string
  rf_author :: routine_author

definition routine_launch_fields :: "routine \<Rightarrow> routine_fields" where
  "routine_launch_fields r =
     \<lparr>rf_id = ro_id r, rf_name = ro_name r, rf_project = ro_project r, rf_prompt = ro_prompt r,
      rf_provider = ro_provider r, rf_model_label = ro_model_label r, rf_model_id = ro_model_id r,
      rf_target = ro_target r, rf_last_session = ro_last_session r, rf_arc = ro_arc r, rf_cron = ro_cron r,
      rf_once = ro_once r, rf_enabled = ro_enabled r, rf_updated = ro_updated r, rf_author = ro_author r\<rparr>"

record upsert_routine_input =
  ui_id :: string
  ui_name :: string
  ui_project :: string
  ui_prompt :: string
  ui_provider :: string
  ui_model_label :: string
  ui_model_id :: string
  ui_target :: routine_run_target
  ui_arc :: "string option"
  ui_cron :: "string option"
  ui_once :: "string option"
  ui_enabled :: bool
  ui_author :: routine_author

text \<open>The database: the tasks, and of the tables they name the columns read here.\<close>

datatype arc_state = Arc_Active | Arc_Paused | Arc_Done

record arc_row =
  aw_id :: string
  aw_state :: arc_state
  aw_home :: string
  aw_coordinator :: "string option"

record routine_db =
  rd_routines :: "routine list"
  rd_projects :: "string list"
  rd_arcs :: "arc_row list"
  rd_workspace_state :: "string \<Rightarrow> string option"

definition find_routine_by_id :: "routine_db \<Rightarrow> string \<Rightarrow> argmax_error + routine" where
  "find_routine_by_id db i =
     (case find (\<lambda>r. ro_id r = i) (rd_routines db) of Some r \<Rightarrow> Inr r | None \<Rightarrow> Inl (record_not_found ''routine'' i))"

definition update_routines :: "(routine \<Rightarrow> bool) \<Rightarrow> (routine \<Rightarrow> routine) \<Rightarrow> routine_db \<Rightarrow> routine_db" where
  "update_routines P f db = db\<lparr>rd_routines := map (\<lambda>r. if P r then f r else r) (rd_routines db)\<rparr>"

text \<open>The token a write gives the row: the time, or a millisecond past the token it has.\<close>

definition next_routine_updated_at :: "chrono \<Rightarrow> string \<Rightarrow> routine_db \<Rightarrow> string \<Rightarrow> string" where
  "next_routine_updated_at ch now db i =
     (case find (\<lambda>r. ro_id r = i) (rd_routines db) of
        Some r \<Rightarrow>
          if ro_updated r \<ge> now
          then (case ch_parse ch (ro_updated r) of Some t \<Rightarrow> ch_format ch (t + MILLI) | None \<Rightarrow> now)
          else now
      | None \<Rightarrow> now)"

definition set_routine_last_session ::
  "chrono \<Rightarrow> string \<Rightarrow> string \<Rightarrow> string option \<Rightarrow> routine_db \<Rightarrow> argmax_error + routine_db"
where
  "set_routine_last_session ch now i session db =
     (let token = next_routine_updated_at ch now db i
      in if \<exists>r \<in> set (rd_routines db). ro_id r = i
         then Inr (update_routines (\<lambda>r. ro_id r = i) (\<lambda>r. r\<lparr>ro_last_session := session, ro_updated := token\<rparr>) db)
         else Inl (record_not_found ''routine'' i))"

text \<open>The insert fails on a project or an Arc that is not there, and on an Arc without the target that takes one.\<close>

definition new_routine :: "string \<Rightarrow> upsert_routine_input \<Rightarrow> string option \<Rightarrow> routine" where
  "new_routine now input next_run =
     \<lparr>ro_id = ui_id input, ro_name = ui_name input, ro_project = ui_project input, ro_prompt = ui_prompt input,
      ro_provider = ui_provider input, ro_model_label = ui_model_label input, ro_model_id = ui_model_id input,
      ro_worktree = (ui_target input = Worktree_Target), ro_target = ui_target input, ro_last_session = None,
      ro_arc = ui_arc input, ro_cron = ui_cron input, ro_once = ui_once input, ro_enabled = ui_enabled input,
      ro_last_run = None, ro_next_run = next_run, ro_last_error = None, ro_author = ui_author input,
      ro_created = now, ro_updated = now\<rparr>"

definition edited_routine :: "string \<Rightarrow> upsert_routine_input \<Rightarrow> string option \<Rightarrow> routine \<Rightarrow> routine" where
  "edited_routine now input next_run r =
     (new_routine now input next_run)\<lparr>ro_last_session := ro_last_session r, ro_last_run := ro_last_run r, ro_created := ro_created r\<rparr>"

definition upsert_routine ::
  "chrono \<Rightarrow> string \<Rightarrow> string \<Rightarrow> upsert_routine_input \<Rightarrow> string option \<Rightarrow> routine_db \<Rightarrow> argmax_error + routine \<times> routine_db"
where
  "upsert_routine ch now later input next_run db =
     (let token = next_routine_updated_at ch now db (ui_id input)
      in if ui_project input \<notin> set (rd_projects db) \<or> \<not> list_all (\<lambda>a. a \<in> aw_id ` set (rd_arcs db)) (case ui_arc input of None \<Rightarrow> [] | Some a \<Rightarrow> [a])
         then Inl (sqlite ''FOREIGN KEY constraint failed'')
         else if (ui_target input = Arc_Coordinator) \<noteq> (ui_arc input \<noteq> None)
         then Inl (sqlite (''CHECK constraint failed: (run_target = '' @ [CHR 0x27] @ ''arc_coordinator'' @ [CHR 0x27] @ '') = (arc_id IS NOT NULL)''))
         else
           (let db1 = (if \<exists>r \<in> set (rd_routines db). ro_id r = ui_id input
                       then update_routines (\<lambda>r. ro_id r = ui_id input) (edited_routine token input next_run) db
                       else db\<lparr>rd_routines := rd_routines db @ [new_routine token input next_run]\<rparr>)
            in and_then (if ui_target input \<noteq> Same_Session then set_routine_last_session ch later (ui_id input) None db1 else Inr db1)
                 (\<lambda>db2. and_then (find_routine_by_id db2 (ui_id input)) (\<lambda>r. Inr (r, db2)))))"

definition delete_routine :: "string \<Rightarrow> routine_db \<Rightarrow> argmax_error + routine_db" where
  "delete_routine i db =
     (if \<exists>r \<in> set (rd_routines db). ro_id r = i
      then Inr (db\<lparr>rd_routines := filter (\<lambda>r. ro_id r \<noteq> i) (rd_routines db)\<rparr>)
      else Inl (record_not_found ''routine'' i))"

definition delete_spent_routine :: "string \<Rightarrow> string \<Rightarrow> routine_db \<Rightarrow> bool \<times> routine_db" where
  "delete_spent_routine i token db =
     (list_ex (\<lambda>r. ro_id r = i \<and> ro_updated r = token) (rd_routines db),
      db\<lparr>rd_routines := filter (\<lambda>r. \<not> (ro_id r = i \<and> ro_updated r = token)) (rd_routines db)\<rparr>)"

definition set_routine_enabled ::
  "chrono \<Rightarrow> string \<Rightarrow> string \<Rightarrow> bool \<Rightarrow> string option \<Rightarrow> routine_db \<Rightarrow> argmax_error + routine \<times> routine_db"
where
  "set_routine_enabled ch now i enabled next_run db =
     (let token = next_routine_updated_at ch now db i
      in if \<exists>r \<in> set (rd_routines db). ro_id r = i
         then
           (let db1 = update_routines (\<lambda>r. ro_id r = i)
                  (\<lambda>r. r\<lparr>ro_enabled := enabled, ro_next_run := next_run, ro_last_error := None, ro_updated := token\<rparr>) db
            in and_then (find_routine_by_id db1 i) (\<lambda>r. Inr (r, db1)))
         else Inl (record_not_found ''routine'' i))"

definition routine_due :: "string \<Rightarrow> routine \<Rightarrow> bool" where
  "routine_due now r \<longleftrightarrow> ro_enabled r \<and> (case ro_next_run r of None \<Rightarrow> False | Some due \<Rightarrow> due \<le> now)"

definition due_routines :: "string \<Rightarrow> routine_db \<Rightarrow> routine_fields list" where
  "due_routines now db =
     map routine_launch_fields
       (sort_key (\<lambda>r. case ro_next_run r of None \<Rightarrow> [] | Some due \<Rightarrow> due)
         (sort_key ro_id (filter (routine_due now) (rd_routines db))))"

text \<open>\<open>lower\<close> folds the ASCII letters, as the collation does.\<close>

definition ascii_lower :: "char \<Rightarrow> char" where
  "ascii_lower c = (let b = (of_char c :: nat) in if 65 \<le> b \<and> b \<le> 90 then char_of (b + 32) else c)"

definition list_routines :: "routine_db \<Rightarrow> routine list" where
  "list_routines db =
     sort_key (\<lambda>r. \<not> ro_enabled r)
       (sort_key (\<lambda>r. ro_next_run r = None)
         (sort_key (\<lambda>r. case ro_next_run r of None \<Rightarrow> [] | Some due \<Rightarrow> due)
           (sort_key (\<lambda>r. map ascii_lower (ro_name r)) (rd_routines db))))"

definition mark_routine_run ::
  "chrono \<Rightarrow> string \<Rightarrow> routine_fields \<Rightarrow> string \<Rightarrow> string option \<Rightarrow> string option \<Rightarrow> bool \<Rightarrow> string option \<Rightarrow> routine_db \<Rightarrow> bool \<times> routine_db"
where
  "mark_routine_run ch now f last_run next_run last_error enabled launched db =
     (let token = next_routine_updated_at ch now db (rf_id f)
      in (list_ex (\<lambda>r. ro_id r = rf_id f \<and> ro_updated r = rf_updated f) (rd_routines db),
          update_routines (\<lambda>r. ro_id r = rf_id f \<and> ro_updated r = rf_updated f)
            (\<lambda>r. r\<lparr>ro_last_run := Some last_run, ro_next_run := next_run, ro_last_error := last_error, ro_enabled := enabled,
                   ro_last_session := (case launched of None \<Rightarrow> ro_last_session r | Some s \<Rightarrow> Some s), ro_updated := token\<rparr>) db))"

definition retire_fired_one_shot ::
  "chrono \<Rightarrow> string \<Rightarrow> string \<Rightarrow> string \<Rightarrow> string \<Rightarrow> routine_db \<Rightarrow> bool \<times> routine_db"
where
  "retire_fired_one_shot ch now i due last_run db =
     (let token = next_routine_updated_at ch now db i
      in (list_ex (\<lambda>r. ro_id r = i \<and> ro_cron r = None \<and> ro_once r = Some due) (rd_routines db),
          update_routines (\<lambda>r. ro_id r = i \<and> ro_cron r = None \<and> ro_once r = Some due)
            (\<lambda>r. r\<lparr>ro_enabled := False, ro_next_run := None, ro_last_run := Some last_run, ro_updated := token\<rparr>) db))"

text \<open>Deleting a project or an Arc deletes its tasks with it.\<close>

definition delete_project_rows :: "string \<Rightarrow> routine_db \<Rightarrow> routine_db" where
  "delete_project_rows p db =
     (let gone = aw_id ` set (filter (\<lambda>a. aw_home a = p) (rd_arcs db))
      in db\<lparr>rd_projects := filter (\<lambda>q. q \<noteq> p) (rd_projects db),
            rd_arcs := filter (\<lambda>a. aw_home a \<noteq> p) (rd_arcs db),
            rd_routines := filter (\<lambda>r. ro_project r \<noteq> p \<and> (case ro_arc r of None \<Rightarrow> True | Some a \<Rightarrow> a \<notin> gone)) (rd_routines db)\<rparr>)"

definition delete_arc_rows :: "string \<Rightarrow> routine_db \<Rightarrow> routine_db" where
  "delete_arc_rows a db =
     db\<lparr>rd_arcs := filter (\<lambda>x. aw_id x \<noteq> a) (rd_arcs db), rd_routines := filter (\<lambda>r. ro_arc r \<noteq> Some a) (rd_routines db)\<rparr>"

end
