(* ===== verification/Routine_Edits.thy ===== *)
theory Routine_Edits
  imports Routine_Store
begin

text \<open>
  The calls that edit scheduled tasks: the panel's (\<^verbatim>\<open>ipc/routines.rs\<close>), an agent's wakes, cancels and resumes
  (\<^verbatim>\<open>session_control/actions/project_tools.rs\<close>), and the check-in of a launch (\<^verbatim>\<open>session_control/actions/launch.rs\<close>).
  Each instant a call reads is an argument, in the order it is read.
\<close>

definition now_iso :: "chrono \<Rightarrow> int \<Rightarrow> string" where "now_iso ch t = ch_format ch t"

definition SCRATCH_PROJECT_ID :: string where "SCRATCH_PROJECT_ID = ''scratch-side-chats''"

definition next_run_from_now :: "chrono \<Rightarrow> routine \<Rightarrow> int \<Rightarrow> argmax_error + string option" where
  "next_run_from_now ch r now =
     (case ro_once r of
        Some time \<Rightarrow> Inr (Some time)
      | None \<Rightarrow> and_then (next_occurrence ch (ro_cron r) None now) (\<lambda>n. Inr (map_option (ch_format ch) n)))"

section \<open>The panel\<close>

record save_input =
  sv_id :: string
  sv_name :: string
  sv_project :: string
  sv_prompt :: string
  sv_provider :: provider_id
  sv_model_label :: string
  sv_model_id :: string
  sv_worktree :: bool
  sv_target :: "routine_run_target option"
  sv_arc :: "string option"
  sv_cron :: "string option"
  sv_once :: "string option"
  sv_enabled :: "bool option"

text \<open>A field that is blank counts as absent.\<close>

definition trimmed :: "string option \<Rightarrow> string option" where
  "trimmed v = (case v of None \<Rightarrow> None | Some s \<Rightarrow> if trim s = [] then None else Some (trim s))"

definition routine_arc_invalid :: "string \<Rightarrow> argmax_error" where
  "routine_arc_invalid message = invalid \<lparr>issue_path = [''arcId''], issue_code = ''ROUTINE_ARC_INVALID'', issue_message = message\<rparr>"

definition resolve_arc_coordinator_target ::
  "routine_db \<Rightarrow> routine_run_target \<Rightarrow> string option \<Rightarrow> string \<Rightarrow> argmax_error + string option"
where
  "resolve_arc_coordinator_target db target arc project =
     (if target \<noteq> Arc_Coordinator then Inr None
      else case trimmed arc of
             None \<Rightarrow> Inl (routine_arc_invalid ''an arc-coordinator task must name an Arc'')
           | Some a \<Rightarrow>
               (case find (\<lambda>x. aw_id x = a) (rd_arcs db) of
                  None \<Rightarrow> Inl (routine_arc_invalid ''that Arc does not exist'')
                | Some row \<Rightarrow>
                    if aw_home row \<noteq> project
                    then Inl (routine_arc_invalid (''the Arc'' @ [CHR 0x27] @ ''s home project must match this task'' @ [CHR 0x27] @ ''s project''))
                    else Inr (Some a)))"

definition routines_upsert :: "chrono \<Rightarrow> int \<Rightarrow> int \<Rightarrow> int \<Rightarrow> save_input \<Rightarrow> routine_db \<Rightarrow> argmax_error + routine \<times> routine_db" where
  "routines_upsert ch now now1 now2 input db =
     (let cron_expr = trimmed (sv_cron input)
      in and_then (validate_schedule ch cron_expr (trimmed (sv_once input))) (\<lambda>_.
         and_then (case trimmed (sv_once input) of None \<Rightarrow> Inr None
                   | Some v \<Rightarrow> and_then (normalize_once_input ch v) (\<lambda>t. Inr (Some t))) (\<lambda>run_once_at.
         if sv_project input = SCRATCH_PROJECT_ID
         then Inl (invalid \<lparr>issue_path = [''projectId''], issue_code = ''PROJECT_NOT_ALLOWED'',
           issue_message = ''scheduled tasks must target a registered repository, not the side-chats project''\<rparr>)
         else
           (let enabled = (case sv_enabled input of None \<Rightarrow> True | Some b \<Rightarrow> b);
                target = (case sv_target input of Some t \<Rightarrow> t | None \<Rightarrow> if sv_worktree input then Worktree_Target else New_Session)
            in and_then (if enabled
                         then (case run_once_at of
                                 Some time \<Rightarrow> Inr (Some time)
                               | None \<Rightarrow> and_then (next_occurrence ch cron_expr None now) (\<lambda>n. Inr (map_option (ch_format ch) n)))
                         else Inr None) (\<lambda>next_run.
               and_then (resolve_arc_coordinator_target db target (sv_arc input) (sv_project input)) (\<lambda>arc.
                 upsert_routine ch (now_iso ch now1) (now_iso ch now2)
                   \<lparr>ui_id = sv_id input, ui_name = sv_name input, ui_project = sv_project input, ui_prompt = sv_prompt input,
                    ui_provider = provider_str (sv_provider input), ui_model_label = sv_model_label input,
                    ui_model_id = sv_model_id input, ui_target = target, ui_arc = arc, ui_cron = cron_expr,
                    ui_once = run_once_at, ui_enabled = enabled, ui_author = User_Author\<rparr>
                   next_run db))))))"

definition routines_set_enabled :: "chrono \<Rightarrow> int \<Rightarrow> int \<Rightarrow> string \<Rightarrow> bool \<Rightarrow> routine_db \<Rightarrow> argmax_error + routine \<times> routine_db" where
  "routines_set_enabled ch now now1 i enabled db =
     and_then (if enabled
               then and_then (find_routine_by_id db i) (\<lambda>existing. next_run_from_now ch existing now)
               else Inr None)
       (\<lambda>next_run. set_routine_enabled ch (now_iso ch now1) i enabled next_run db)"

definition routines_reset_session :: "chrono \<Rightarrow> int \<Rightarrow> string \<Rightarrow> routine_db \<Rightarrow> argmax_error + routine \<times> routine_db" where
  "routines_reset_session ch now i db =
     and_then (find_routine_by_id db i) (\<lambda>existing.
       if ro_target existing \<noteq> Same_Session
       then Inl (invalid \<lparr>issue_path = [''id''], issue_code = ''RUN_TARGET_NOT_SAME_SESSION'',
         issue_message = ''only same-chat tasks can reset their shared chat pointer''\<rparr>)
       else and_then (set_routine_last_session ch (now_iso ch now) i None db) (\<lambda>db1.
            and_then (find_routine_by_id db1 i) (\<lambda>r. Inr (r, db1))))"

section \<open>Wakes of a chat\<close>

record same_session_wake =
  wk_id :: string
  wk_name :: string
  wk_project :: string
  wk_prompt :: string
  wk_run_at :: string

text \<open>A statement of the wake's own is not undone when the second one fails; its error is all that is returned.\<close>

definition schedule_same_session_wake ::
  "chrono \<Rightarrow> int \<Rightarrow> int \<Rightarrow> launch_parent \<Rightarrow> same_session_wake \<Rightarrow> routine_db \<Rightarrow> control_error + routine_db"
where
  "schedule_same_session_wake ch now1 now2 parent wake db =
     (case upsert_routine ch (now_iso ch now1) (now_iso ch now1)
             \<lparr>ui_id = wk_id wake, ui_name = wk_name wake, ui_project = wk_project wake, ui_prompt = wk_prompt wake,
              ui_provider = provider_str (lp_provider parent), ui_model_label = lp_model_label parent,
              ui_model_id = lp_model_id parent, ui_target = Same_Session, ui_arc = None, ui_cron = None,
              ui_once = Some (wk_run_at wake), ui_enabled = True, ui_author = Agent_Author\<rparr>
             (Some (wk_run_at wake)) db of
        Inl e \<Rightarrow> Inl (argmax_protocol_error e)
      | Inr (_, db1) \<Rightarrow>
          (case set_routine_last_session ch (now_iso ch now2) (wk_id wake) (Some (lp_session parent)) db1 of
             Inl e \<Rightarrow> Inl (argmax_protocol_error e)
           | Inr db2 \<Rightarrow> Inr db2))"

definition FOLLOWUP_MAX_SECONDS :: nat where "FOLLOWUP_MAX_SECONDS = 7 * 24 * 60 * 60"
definition FOLLOWUP_MIN_SECONDS :: nat where "FOLLOWUP_MIN_SECONDS = 30"

record followup_action =
  fa_prompt :: string
  fa_in_seconds :: "nat option"
  fa_at :: "string option"
  fa_name :: "string option"

definition followup_too_far :: control_error where
  "followup_too_far = protocol_error ''FOLLOWUP_TOO_FAR''
     (''A follow-up may be at most '' @ nat_text (FOLLOWUP_MAX_SECONDS div 86400) @ '' days out.'')"

definition followup_time :: "chrono \<Rightarrow> followup_action \<Rightarrow> int \<Rightarrow> control_error + string" where
  "followup_time ch action now =
     (case (fa_in_seconds action, fa_at action) of
        (Some _, Some _) \<Rightarrow> Inl (protocol_error ''FOLLOWUP_TIME_AMBIGUOUS'' ''Give either in_seconds or at, not both.'')
      | (None, None) \<Rightarrow> Inl (protocol_error ''FOLLOWUP_TIME_MISSING''
          ''Say when to wake: in_seconds from now, or at an RFC 3339 instant.'')
      | (Some seconds, None) \<Rightarrow>
          if seconds > FOLLOWUP_MAX_SECONDS then Inl followup_too_far
          else Inr (ch_format ch (now + int (max seconds FOLLOWUP_MIN_SECONDS) * SECOND))
      | (None, Some v) \<Rightarrow>
          (case normalize_once_input ch v of
             Inl e \<Rightarrow> Inl (argmax_protocol_error e)
           | Inr normalized \<Rightarrow>
               (case ch_parse ch normalized of
                  None \<Rightarrow> Inl (protocol_error ''FOLLOWUP_TIME_INVALID'' (ch_parse_error ch normalized))
                | Some t \<Rightarrow>
                    if t > now + int FOLLOWUP_MAX_SECONDS * SECOND then Inl followup_too_far
                    else Inr (ch_format ch (max t (now + int FOLLOWUP_MIN_SECONDS * SECOND))))))"

text \<open>\<open>project\<close> is the project of the caller's workspace, or the error that finding it ends in.\<close>

definition schedule_followup ::
  "chrono \<Rightarrow> int \<Rightarrow> int \<Rightarrow> int \<Rightarrow> string \<Rightarrow> control_error + string \<Rightarrow> launch_parent \<Rightarrow> followup_action \<Rightarrow> routine_db \<Rightarrow>
   control_error + routine_db"
where
  "schedule_followup ch now now1 now2 uuid project parent action db =
     (if is_blank (fa_prompt action)
      then Inl (protocol_error ''FOLLOWUP_PROMPT_EMPTY'' ''A follow-up needs a prompt: what this chat should do when it wakes.'')
      else and_then (followup_time ch action now) (\<lambda>run_at.
           and_then project (\<lambda>p.
             if p = SCRATCH_PROJECT_ID
             then Inl (protocol_error ''PROJECT_NOT_ALLOWED'' ''A side chat has no repository to wake up in.'')
             else schedule_same_session_wake ch now1 now2 parent
                    \<lparr>wk_id = uuid, wk_name = task_label (case fa_name action of Some n \<Rightarrow> n | None \<Rightarrow> fa_prompt action),
                     wk_project = p, wk_prompt = fa_prompt action, wk_run_at = run_at\<rparr> db)))"

definition check_in_routine_id :: "string \<Rightarrow> string" where
  "check_in_routine_id session = ''check-in:'' @ session"

definition schedule_check_in ::
  "chrono \<Rightarrow> int \<Rightarrow> int \<Rightarrow> int \<Rightarrow> launch_parent \<Rightarrow> string \<Rightarrow> string \<Rightarrow> string \<Rightarrow> nat \<Rightarrow> routine_db \<Rightarrow> control_error + routine_db"
where
  "schedule_check_in ch now now1 now2 parent project launched name minutes db =
     (if project = SCRATCH_PROJECT_ID then Inr db
      else schedule_same_session_wake ch now1 now2 parent
        \<lparr>wk_id = check_in_routine_id launched, wk_name = task_label (''Check in: '' @ name), wk_project = project,
         wk_prompt = ''Check-in: session '' @ launched @ '' (\"'' @ name @ ''\") was launched '' @ nat_text minutes @
           '' minutes ago and has not reported finishing. Read its state with session_status, its latest answer with session_read, and decide: wait longer, steer it with session_message, or stop it. Argmax drops this wake when the session finishes, so it fired because the session is still running or stalled.'',
         wk_run_at = ch_format ch (now + int minutes * 60 * SECOND)\<rparr> db)"

section \<open>An agent's cancels and resumes\<close>

definition own_project_routine :: "control_error + string \<Rightarrow> string \<Rightarrow> routine_db \<Rightarrow> control_error + routine" where
  "own_project_routine project i db =
     and_then project (\<lambda>own.
       case find_routine_by_id db i of
         Inl e \<Rightarrow> Inl (argmax_protocol_error e)
       | Inr r \<Rightarrow>
           if ro_project r \<noteq> own
           then Inl (protocol_error ''SCHEDULE_OTHER_PROJECT''
             ([CHR 0x27] @ ro_name r @ [CHR 0x27] @ '' is scheduled in another project. schedule_list shows the ones you can change.''))
           else Inr r)"

definition to_control :: "argmax_error + 'a \<Rightarrow> control_error + 'a" where
  "to_control r = (case r of Inl e \<Rightarrow> Inl (argmax_protocol_error e) | Inr v \<Rightarrow> Inr v)"

definition cancel_schedule :: "chrono \<Rightarrow> int \<Rightarrow> control_error + string \<Rightarrow> string \<Rightarrow> bool \<Rightarrow> routine_db \<Rightarrow> control_error + routine_db" where
  "cancel_schedule ch now project i disable db =
     and_then (own_project_routine project i db) (\<lambda>_.
       to_control (if disable
         then and_then (set_routine_enabled ch (now_iso ch now) i False None db) (\<lambda>(_, db1). Inr db1)
         else delete_routine i db))"

definition resume_schedule :: "chrono \<Rightarrow> int \<Rightarrow> int \<Rightarrow> control_error + string \<Rightarrow> string \<Rightarrow> routine_db \<Rightarrow> control_error + routine \<times> routine_db" where
  "resume_schedule ch now now1 project i db =
     and_then (own_project_routine project i db) (\<lambda>r.
       and_then (to_control (next_run_from_now ch r now)) (\<lambda>next_run.
         to_control (set_routine_enabled ch (now_iso ch now1) i True next_run db)))"

end
