(* ===== verification/Routine_Fire.thy ===== *)
theory Routine_Fire
  imports Routine_Edits
begin

text \<open>
  The scheduler of \<^verbatim>\<open>routines/scheduler.rs\<close>: one firing of a task, cut where it waits for a provider. The row
  of an Arc's timeline is not modelled. Each instant a step reads and each database write it may be
  refused are arguments.
\<close>

section \<open>Settling a firing\<close>

definition error_text :: "argmax_error \<Rightarrow> string" where
  "error_text e =
     (case e of InvalidInput issues \<Rightarrow> ''invalid input ('' @ nat_text (length issues) @ '')''
      | RecordNotFound kind i \<Rightarrow> kind @ '' not found: '' @ i
      | MigrationDrift detail \<Rightarrow> ''migration drift detected: '' @ detail
      | ServiceError _ message \<Rightarrow> message)"

datatype fire_outcome = Recorded | Deferred_Fire

text \<open>Whether a firing leaves the row scheduled, \<^verbatim>\<open>StaysScheduled\<close>.\<close>

definition stays_scheduled :: "routine_fields \<Rightarrow> bool" where
  "stays_scheduled f \<longleftrightarrow> rf_enabled f \<and> rf_once f = None"

definition next_run_or_none :: "chrono \<Rightarrow> bool \<Rightarrow> int option \<Rightarrow> string option" where
  "next_run_or_none ch stays next_at = (if stays then map_option (ch_format ch) next_at else None)"

definition next_run_at_or_retry :: "chrono \<Rightarrow> bool \<Rightarrow> int \<Rightarrow> string option" where
  "next_run_at_or_retry ch stays now = (if stays then Some (ch_format ch (retry_after now)) else None)"

text \<open>Which of a settlement's three writes SQLite accepts.\<close>

record settle_writes =
  sw_delete :: bool
  sw_mark :: bool
  sw_retire :: bool

definition mark_run ::
  "chrono \<Rightarrow> bool \<Rightarrow> int \<Rightarrow> routine_fields \<Rightarrow> string \<Rightarrow> string option \<Rightarrow> string option \<Rightarrow> bool \<Rightarrow> string option \<Rightarrow> routine_db \<Rightarrow> bool \<times> routine_db"
where
  "mark_run ch accepted now f last_run next_run last_error enabled launched db =
     (if accepted then mark_routine_run ch (now_iso ch now) f last_run next_run last_error enabled launched db else (False, db))"

definition settle_success ::
  "chrono \<Rightarrow> settle_writes \<Rightarrow> int \<Rightarrow> int \<Rightarrow> routine_fields \<Rightarrow> string \<Rightarrow> int option \<Rightarrow> string option \<Rightarrow> routine_db \<Rightarrow> routine_db"
where
  "settle_success ch w now1 now2 f last_run next_at launched db =
     (let (deleted, db1) =
            (if rf_once f \<noteq> None \<and> rf_author f = Agent_Author \<and> sw_delete w
             then delete_spent_routine (rf_id f) (rf_updated f) db else (False, db))
      in if deleted then db1
         else
           (let (recorded, db2) = mark_run ch (sw_mark w) now1 f last_run
                  (next_run_or_none ch (stays_scheduled f) next_at) None (stays_scheduled f) launched db1
            in case rf_once f of
                 Some due \<Rightarrow>
                   if \<not> recorded \<and> sw_retire w
                   then snd (retire_fired_one_shot ch (now_iso ch now2) (rf_id f) due last_run db2)
                   else db2
               | None \<Rightarrow> db2))"

definition settle_failure :: "chrono \<Rightarrow> settle_writes \<Rightarrow> int \<Rightarrow> routine_fields \<Rightarrow> string \<Rightarrow> int \<Rightarrow> string \<Rightarrow> routine_db \<Rightarrow> routine_db" where
  "settle_failure ch w now1 f last_run now message db =
     snd (mark_run ch (sw_mark w) now1 f last_run (next_run_at_or_retry ch (stays_scheduled f) now)
       (Some message) (stays_scheduled f) None db)"

section \<open>The coordinator of an Arc\<close>

definition arc_is_live :: "routine_db \<Rightarrow> arc_row \<Rightarrow> bool" where
  "arc_is_live db a \<longleftrightarrow>
     aw_state a = Arc_Active \<and>
     (case aw_coordinator a of None \<Rightarrow> False
      | Some s \<Rightarrow> (case rd_workspace_state db s of None \<Rightarrow> False
                  | Some st \<Rightarrow> st \<notin> {''archiving'', ''archived'', ''archive-failed''}))"

datatype arc_coordinator_resolution = Skip_Occurrence | No_Coordinator | Coordinator string

definition resolve_arc_coordinator :: "routine_db \<Rightarrow> string option \<Rightarrow> arc_coordinator_resolution" where
  "resolve_arc_coordinator db arc =
     (case arc of None \<Rightarrow> No_Coordinator
      | Some i \<Rightarrow>
          (case find (\<lambda>a. aw_id a = i) (rd_arcs db) of
             None \<Rightarrow> No_Coordinator
           | Some a \<Rightarrow>
               if aw_state a \<noteq> Arc_Active then Skip_Occurrence
               else if arc_is_live db a
               then (case aw_coordinator a of Some s \<Rightarrow> Coordinator s | None \<Rightarrow> No_Coordinator)
               else No_Coordinator))"

section \<open>The follow-up into a chat\<close>

datatype follow_up_outcome = Follow_Up_Sent | Follow_Up_Busy | Follow_Up_Missing | Follow_Up_Failed string

definition TURN_IN_FLIGHT :: string where "TURN_IN_FLIGHT = ''SESSION_TURN_IN_FLIGHT''"

text \<open>The input of the send, or what a bad id, prompt or model decides before it.\<close>

definition routine_follow_up ::
  "routine_fields \<Rightarrow> provider_id \<Rightarrow> string \<Rightarrow> bool \<Rightarrow> follow_up_outcome + string \<times> string \<times> follow_up_input"
where
  "routine_follow_up f p session carry_model =
     (let failed = (\<lambda>r. case r of Inl i \<Rightarrow> Inl (Follow_Up_Failed (issue_message i)) | Inr v \<Rightarrow> Inr v)
      in case to_session_id session of
           Inl _ \<Rightarrow> Inl Follow_Up_Missing
         | Inr s \<Rightarrow>
             and_then (failed (to_prompt (rf_prompt f))) (\<lambda>prompt.
             and_then (if carry_model
                       then and_then (failed (to_non_empty_string (rf_model_label f))) (\<lambda>l.
                            and_then (failed (to_non_empty_string (rf_model_id f))) (\<lambda>m. Inr (Some p, Some l, Some m)))
                       else Inr (None, None, None)) (\<lambda>(provider, lbl, model).
               Inr (s, prompt, \<lparr>fi_provider = provider, fi_model_label = lbl, fi_model_id = model, fi_effort = None,
                                fi_fast = False, fi_attachments = None, fi_references = None\<rparr>))))"

definition follow_up_outcome_of :: "argmax_error + unit \<Rightarrow> follow_up_outcome" where
  "follow_up_outcome_of r =
     (case r of
        Inr _ \<Rightarrow> Follow_Up_Sent
      | Inl (RecordNotFound _ _) \<Rightarrow> Follow_Up_Missing
      | Inl (ServiceError sub_code message) \<Rightarrow>
          if sub_code = TURN_IN_FLIGHT then Follow_Up_Busy
          else if sub_code = ''WORKSPACE_ARCHIVING'' \<or> sub_code = ''ARCHIVE_ALREADY_PENDING'' then Follow_Up_Missing
          else Follow_Up_Failed (error_text (ServiceError sub_code message))
      | Inl e \<Rightarrow> Follow_Up_Failed (error_text e))"

definition send_routine_follow_up :: "routine_fields \<Rightarrow> provider_id \<Rightarrow> string \<Rightarrow> bool \<Rightarrow> argmax_error + unit \<Rightarrow> follow_up_outcome" where
  "send_routine_follow_up f p session carry_model reply =
     (case routine_follow_up f p session carry_model of Inl decided \<Rightarrow> decided | Inr _ \<Rightarrow> follow_up_outcome_of reply)"

section \<open>One firing\<close>

text \<open>What a firing waits for, and what it has computed before it waits.\<close>

datatype fire_stage = Sending_To_Coordinator string | Sending_To_Chat string | Launching_Chat

record flight =
  fl_fields :: routine_fields
  fl_now :: int
  fl_last_run :: string
  fl_next :: "int option"
  fl_provider :: provider_id
  fl_permission :: permission_mode
  fl_stage :: fire_stage

datatype fire_state = Fired fire_outcome | In_Flight flight

definition fire_routine ::
  "chrono \<Rightarrow> (provider_id \<Rightarrow> permission_mode) \<Rightarrow> settle_writes \<Rightarrow> int \<Rightarrow> int \<Rightarrow> int \<Rightarrow> int \<Rightarrow> routine_fields \<Rightarrow> routine_db \<Rightarrow> fire_state \<times> routine_db"
where
  "fire_routine ch agent w now run now1 now2 f db =
     (let last_run = now_iso ch run
      in case next_occurrence ch (rf_cron f) (rf_once f) now of
           Inl e \<Rightarrow> (Fired Recorded, snd (mark_run ch (sw_mark w) now1 f last_run None (Some (error_text e)) False None db))
         | Inr next_at \<Rightarrow>
             (case parse_provider (rf_provider f) of
                Inl _ \<Rightarrow> (Fired Recorded,
                  snd (mark_run ch (sw_mark w) now1 f last_run None (Some ''stored provider is not recognized'') False None db))
              | Inr p \<Rightarrow>
                  (let flight = (\<lambda>stage. \<lparr>fl_fields = f, fl_now = now, fl_last_run = last_run, fl_next = next_at,
                         fl_provider = p, fl_permission = agent p, fl_stage = stage\<rparr>)
                   in if rf_target f = Arc_Coordinator
                      then (case resolve_arc_coordinator db (rf_arc f) of
                              Skip_Occurrence \<Rightarrow> (Fired Recorded, settle_success ch w now1 now2 f last_run next_at None db)
                            | No_Coordinator \<Rightarrow> (Fired Recorded, settle_failure ch w now1 f last_run now ''Arc has no coordinator'' db)
                            | Coordinator s \<Rightarrow> (In_Flight (flight (Sending_To_Coordinator s)), db))
                      else (case (rf_target f, rf_last_session f) of
                              (Same_Session, Some s) \<Rightarrow> (In_Flight (flight (Sending_To_Chat s)), db)
                            | _ \<Rightarrow> (In_Flight (flight Launching_Chat), db)))))"

text \<open>A coordinator's reply arrives; then a chat's.\<close>

definition coordinator_replied ::
  "chrono \<Rightarrow> settle_writes \<Rightarrow> int \<Rightarrow> int \<Rightarrow> string \<Rightarrow> argmax_error + unit \<Rightarrow> flight \<Rightarrow> routine_db \<Rightarrow> fire_outcome \<times> routine_db"
where
  "coordinator_replied ch w now1 now2 s reply x db =
     (let f = fl_fields x
      in case send_routine_follow_up f (fl_provider x) s False reply of
           Follow_Up_Sent \<Rightarrow> (Recorded, settle_success ch w now1 now2 f (fl_last_run x) (fl_next x) None db)
         | Follow_Up_Busy \<Rightarrow> (Deferred_Fire, db)
         | Follow_Up_Missing \<Rightarrow> (Recorded, settle_failure ch w now1 f (fl_last_run x) (fl_now x) ''Arc has no coordinator'' db)
         | Follow_Up_Failed m \<Rightarrow> (Recorded, settle_failure ch w now1 f (fl_last_run x) (fl_now x) m db))"

text \<open>\<open>reset\<close> says that SQLite accepts the reset of the pointer to a chat that is gone.\<close>

definition chat_replied ::
  "chrono \<Rightarrow> settle_writes \<Rightarrow> bool \<Rightarrow> int \<Rightarrow> int \<Rightarrow> string \<Rightarrow> argmax_error + unit \<Rightarrow> flight \<Rightarrow> routine_db \<Rightarrow> fire_state \<times> routine_db"
where
  "chat_replied ch w reset now1 now2 s reply x db =
     (let f = fl_fields x
      in case send_routine_follow_up f (fl_provider x) s True reply of
           Follow_Up_Sent \<Rightarrow> (Fired Recorded, settle_success ch w now1 now2 f (fl_last_run x) (fl_next x) None db)
         | Follow_Up_Busy \<Rightarrow> (Fired Deferred_Fire, db)
         | Follow_Up_Missing \<Rightarrow>
             (case find_routine_by_id db (rf_id f) of
                Inl _ \<Rightarrow> (Fired Recorded, db)
              | Inr current \<Rightarrow>
                  if ro_updated current \<noteq> rf_updated f \<or> \<not> reset then (Fired Recorded, db)
                  else
                    (case set_routine_last_session ch (now_iso ch now1) (ro_id current) None db of
                       Inl _ \<Rightarrow> (Fired Recorded, db)
                     | Inr db1 \<Rightarrow>
                         (case find_routine_by_id db1 (rf_id f) of
                            Inl _ \<Rightarrow> (Fired Recorded, db1)
                          | Inr current \<Rightarrow>
                              (In_Flight (x\<lparr>fl_fields := routine_launch_fields current, fl_stage := Launching_Chat\<rparr>), db1))))
         | Follow_Up_Failed m \<Rightarrow> (Fired Recorded, settle_failure ch w now1 f (fl_last_run x) (fl_now x) m db))"

text \<open>The launch of a chat of its own: \<open>started\<close> is what the launch comes to when its spec and project are good.\<close>

definition routine_launch_spec :: "'a \<Rightarrow> flight \<Rightarrow> 'a launch_spec" where
  "routine_launch_spec unattested x =
     (let f = fl_fields x
      in \<lparr>sp_alongside = None, sp_path = None, sp_branch = None, sp_prompt = rf_prompt f,
          sp_worktree = (rf_target f = Worktree_Target), sp_provider = fl_provider x, sp_model_label = rf_model_label f,
          sp_model_id = rf_model_id f, sp_effort = None, sp_fast = False, sp_permission = fl_permission x,
          sp_agent_mode = Auto_Mode, sp_label = Some (rf_name f), sp_arc = None, sp_coordinator = False, sp_author = unattested\<rparr>)"

definition routine_launch :: "'a \<Rightarrow> flight \<Rightarrow> argmax_error + string \<Rightarrow> routine_db \<Rightarrow> argmax_error + string" where
  "routine_launch unattested x started db =
     and_then (validate_launch_spec (routine_launch_spec unattested x)) (\<lambda>_.
       if rf_project (fl_fields x) \<in> set (rd_projects db) then started
       else Inl (record_not_found ''project'' (rf_project (fl_fields x))))"

definition launch_returned :: "chrono \<Rightarrow> settle_writes \<Rightarrow> int \<Rightarrow> int \<Rightarrow> argmax_error + string \<Rightarrow> flight \<Rightarrow> routine_db \<Rightarrow> routine_db" where
  "launch_returned ch w now1 now2 result x db =
     (let f = fl_fields x
      in case result of
           Inr session \<Rightarrow> settle_success ch w now1 now2 f (fl_last_run x) (fl_next x)
             (if rf_target f = Same_Session then Some session else None) db
         | Inl e \<Rightarrow> settle_failure ch w now1 f (fl_last_run x) (fl_now x) (error_text e) db)"

section \<open>Claims, ticks and runs on demand\<close>

definition try_start :: "string \<Rightarrow> string set \<Rightarrow> string set option" where
  "try_start i runs = (if i \<in> runs then None else Some (insert i runs))"

definition drop_run :: "string \<Rightarrow> string set \<Rightarrow> string set" where
  "drop_run i runs = runs - {i}"

text \<open>One due entry of a tick: what it claims and fires, if it does.\<close>

definition tick_entry :: "chrono \<Rightarrow> int \<Rightarrow> string \<Rightarrow> string set \<Rightarrow> routine_db \<Rightarrow> (routine_fields \<times> string set) option" where
  "tick_entry ch now i runs db =
     (case try_start i runs of
        None \<Rightarrow> None
      | Some runs' \<Rightarrow>
          (case find_routine_by_id db i of
             Inl _ \<Rightarrow> None
           | Inr current \<Rightarrow>
               if \<not> ro_enabled current \<or> (case ro_next_run current of None \<Rightarrow> True | Some due \<Rightarrow> due > now_iso ch now)
               then None
               else Some (routine_launch_fields current, runs')))"

definition run_now :: "string \<Rightarrow> string set \<Rightarrow> routine_db \<Rightarrow> argmax_error + routine_fields \<times> string set" where
  "run_now i runs db =
     (case try_start i runs of
        None \<Rightarrow> Inl (service ''ROUTINE_ALREADY_RUNNING'' ''This scheduled task is already launching.'')
      | Some runs' \<Rightarrow> and_then (find_routine_by_id db i) (\<lambda>r. Inr (routine_launch_fields r, runs')))"

definition run_now_reply :: "fire_outcome \<Rightarrow> string \<Rightarrow> routine_db \<Rightarrow> argmax_error + routine" where
  "run_now_reply outcome i db =
     (if outcome = Deferred_Fire
      then Inl (service ''ROUTINE_CHAT_BUSY''
        (''This task'' @ [CHR 0x27] @ ''s chat is working on a turn. The task stays due and runs when that turn finishes.''))
      else find_routine_by_id db i)"

end
