(* ===== verification/Routine_Safety.thy ===== *)
theory Routine_Safety
  imports Routine_Fire
begin

text \<open>
  The life of scheduled tasks: firings by the scheduler and on demand, the edits of the panel and of agents that
  fall between a firing's start and its settlement, deletions, cancellations and restarts, interleaved.
\<close>

section \<open>The system\<close>

abbreviation fl_id :: "flight \<Rightarrow> string" where "fl_id x \<equiv> rf_id (fl_fields x)"

text \<open>Besides the state: the one-shot occurrences whose prompt was delivered and settled.\<close>

record routine_system =
  ry_db :: routine_db
  ry_runs :: "string set"
  ry_flights :: "flight list"
  ry_spent :: "(string \<times> string) set"

definition occurrence :: "routine_fields \<Rightarrow> (string \<times> string) set" where
  "occurrence f = (case rf_once f of None \<Rightarrow> {} | Some due \<Rightarrow> {(rf_id f, due)})"

definition start_routines :: "routine_db \<Rightarrow> routine_system" where
  "start_routines db = \<lparr>ry_db = db, ry_runs = {}, ry_flights = [], ry_spent = {}\<rparr>"

text \<open>A stored token: a canonical time of the years the code can name.\<close>

definition good_token :: "chrono \<Rightarrow> string \<Rightarrow> bool" where
  "good_token ch s \<longleftrightarrow> (\<exists>t. dated t \<and> dated (t + MILLI) \<and> s = ch_format ch t)"

text \<open>A firing after its start or its chat's reply: over, or waiting again.\<close>

definition after_stage :: "string \<Rightarrow> string set \<Rightarrow> fire_state \<Rightarrow> flight list \<Rightarrow> flight list \<Rightarrow> routine_db \<Rightarrow> (string \<times> string) set \<Rightarrow> routine_system" where
  "after_stage i runs st a b db spent =
     (case st of
        Fired _ \<Rightarrow> \<lparr>ry_db = db, ry_runs = drop_run i runs, ry_flights = a @ b, ry_spent = spent\<rparr>
      | In_Flight x \<Rightarrow> \<lparr>ry_db = db, ry_runs = runs, ry_flights = a @ x # b, ry_spent = spent\<rparr>)"

text \<open>The id of a task that is saved is there already, or is not that of a firing whose token is as late.\<close>

definition later_id :: "chrono \<Rightarrow> int \<Rightarrow> string \<Rightarrow> routine_system \<Rightarrow> bool" where
  "later_id ch now i S \<longleftrightarrow>
     (\<forall>x \<in> set (ry_flights S). fl_id x = i \<longrightarrow> (\<exists>r \<in> set (rd_routines (ry_db S)). ro_id r = i) \<or> rf_updated (fl_fields x) < now_iso ch now)"

inductive routine_move :: "chrono \<Rightarrow> (provider_id \<Rightarrow> permission_mode) \<Rightarrow> routine_system \<Rightarrow> routine_system \<Rightarrow> bool"
  for ch :: chrono and agent :: "provider_id \<Rightarrow> permission_mode"
where
  save: "routines_upsert ch now now1 now2 input (ry_db S) = Inr (r, db) \<Longrightarrow> later_id ch now1 (sv_id input) S \<Longrightarrow>
    good_token ch (next_routine_updated_at ch (now_iso ch now1) (ry_db S) (sv_id input)) \<Longrightarrow>
    routine_move ch agent S (S\<lparr>ry_db := db, ry_spent := {z \<in> ry_spent S. fst z \<noteq> sv_id input}\<rparr>)"
| enable: "routines_set_enabled ch now now1 i enabled (ry_db S) = Inr (r, db) \<Longrightarrow>
    routine_move ch agent S (S\<lparr>ry_db := db, ry_spent := {z \<in> ry_spent S. fst z \<noteq> i}\<rparr>)"
| reset: "routines_reset_session ch now i (ry_db S) = Inr (r, db) \<Longrightarrow> routine_move ch agent S (S\<lparr>ry_db := db\<rparr>)"
| remove: "delete_routine i (ry_db S) = Inr db \<Longrightarrow> routine_move ch agent S (S\<lparr>ry_db := db\<rparr>)"
| wake: "schedule_same_session_wake ch now1 now2 parent w (ry_db S) = Inr db \<Longrightarrow> later_id ch now1 (wk_id w) S \<Longrightarrow>
    good_token ch (next_routine_updated_at ch (now_iso ch now1) (ry_db S) (wk_id w)) \<Longrightarrow>
    routine_move ch agent S (S\<lparr>ry_db := db, ry_spent := {z \<in> ry_spent S. fst z \<noteq> wk_id w}\<rparr>)"
| world: "rd_routines db = rd_routines (ry_db S) \<Longrightarrow> routine_move ch agent S (S\<lparr>ry_db := db\<rparr>)"
| drop_project: "routine_move ch agent S (S\<lparr>ry_db := delete_project_rows p (ry_db S)\<rparr>)"
| drop_arc: "routine_move ch agent S (S\<lparr>ry_db := delete_arc_rows p (ry_db S)\<rparr>)"
| tick: "tick_entry ch t i (ry_runs S) (ry_db S) = Some (f, runs) \<Longrightarrow>
    fire_routine ch agent w now run now1 now2 f (ry_db S) = (st, db) \<Longrightarrow>
    routine_move ch agent S (after_stage i runs st (ry_flights S) [] db (ry_spent S))"
| demand: "run_now i (ry_runs S) (ry_db S) = Inr (f, runs) \<Longrightarrow>
    fire_routine ch agent w now run now1 now2 f (ry_db S) = (st, db) \<Longrightarrow>
    routine_move ch agent S (after_stage i runs st (ry_flights S) [] db (ry_spent S))"
| coordinator: "ry_flights S = a @ x # b \<Longrightarrow> fl_stage x = Sending_To_Coordinator s \<Longrightarrow>
    coordinator_replied ch w now1 now2 s reply x (ry_db S) = (out, db) \<Longrightarrow>
    routine_move ch agent S (after_stage (fl_id x) (ry_runs S) (Fired out) a b db
      (ry_spent S \<union> (if send_routine_follow_up (fl_fields x) (fl_provider x) s False reply = Follow_Up_Sent \<and> sw_retire w
                    then occurrence (fl_fields x) else {})))"
| chat: "ry_flights S = a @ x # b \<Longrightarrow> fl_stage x = Sending_To_Chat s \<Longrightarrow>
    chat_replied ch w ok now1 now2 s reply x (ry_db S) = (st, db) \<Longrightarrow>
    routine_move ch agent S (after_stage (fl_id x) (ry_runs S) st a b db
      (ry_spent S \<union> (if send_routine_follow_up (fl_fields x) (fl_provider x) s True reply = Follow_Up_Sent \<and> sw_retire w
                    then occurrence (fl_fields x) else {})))"
| launched: "ry_flights S = a @ x # b \<Longrightarrow> fl_stage x = Launching_Chat \<Longrightarrow>
    launch_returned ch w now1 now2 result x (ry_db S) = db \<Longrightarrow>
    routine_move ch agent S (after_stage (fl_id x) (ry_runs S) (Fired Recorded) a b db
      (ry_spent S \<union> (if is_ok result \<and> sw_retire w then occurrence (fl_fields x) else {})))"
| cancelled: "ry_flights S = a @ x # b \<Longrightarrow>
    routine_move ch agent S (after_stage (fl_id x) (ry_runs S) (Fired Recorded) a b (ry_db S) (ry_spent S))"
| restart: "routine_move ch agent S (S\<lparr>ry_runs := {}, ry_flights := []\<rparr>)"

text \<open>Every stored token names a time of the years 1970 to 9999; so do the first tokens of the two steps that write twice.\<close>

definition routine_step :: "chrono \<Rightarrow> (provider_id \<Rightarrow> permission_mode) \<Rightarrow> routine_system \<Rightarrow> routine_system \<Rightarrow> bool" where
  "routine_step ch agent S T \<longleftrightarrow> routine_move ch agent S T \<and> (\<forall>r \<in> set (rd_routines (ry_db T)). good_token ch (ro_updated r))"

section \<open>What every row keeps\<close>

definition routine_ok :: "chrono \<Rightarrow> routine \<Rightarrow> bool" where
  "routine_ok ch r \<longleftrightarrow>
     (ro_cron r = None) \<noteq> (ro_once r = None) \<and>
     (case ro_cron r of None \<Rightarrow> True | Some e \<Rightarrow> ch_cron ch e \<noteq> None) \<and>
     (ro_worktree r \<longleftrightarrow> ro_target r = Worktree_Target) \<and>
     (ro_arc r \<noteq> None \<longleftrightarrow> ro_target r = Arc_Coordinator) \<and>
     (ro_last_session r \<noteq> None \<longrightarrow> ro_target r = Same_Session) \<and>
     (\<not> ro_enabled r \<longrightarrow> ro_next_run r = None) \<and>
     (ro_enabled r \<and> ro_once r \<noteq> None \<longrightarrow> ro_next_run r = ro_once r)"

text \<open>What an edit of one id does to the table: other rows stay, and a row of the id that is not as before has a
  later token.\<close>

definition touches :: "string \<Rightarrow> routine_db \<Rightarrow> routine_db \<Rightarrow> bool" where
  "touches i db db' \<longleftrightarrow>
     filter (\<lambda>r. ro_id r \<noteq> i) (rd_routines db') = filter (\<lambda>r. ro_id r \<noteq> i) (rd_routines db) \<and>
     (distinct (map ro_id (rd_routines db)) \<longrightarrow> distinct (map ro_id (rd_routines db'))) \<and>
     (\<forall>r' \<in> set (rd_routines db'). ro_id r' = i \<longrightarrow>
        r' \<in> set (rd_routines db) \<or> (\<exists>r \<in> set (rd_routines db). ro_id r = i \<and> ro_updated r < ro_updated r'))"

lemma touches_refl: "touches i db db"
  by (simp add: touches_def)

lemma touches_others: "touches i db db' \<Longrightarrow> r \<in> set (rd_routines db') \<Longrightarrow> ro_id r \<noteq> i \<Longrightarrow> r \<in> set (rd_routines db)"
proof -
  assume t: "touches i db db'" and r: "r \<in> set (rd_routines db')" "ro_id r \<noteq> i"
  have "r \<in> set (filter (\<lambda>r. ro_id r \<noteq> i) (rd_routines db'))" using r by simp
  moreover have "filter (\<lambda>r. ro_id r \<noteq> i) (rd_routines db') = filter (\<lambda>r. ro_id r \<noteq> i) (rd_routines db)" using t unfolding touches_def by blast
  ultimately have "r \<in> set (filter (\<lambda>r. ro_id r \<noteq> i) (rd_routines db))" by (simp only:)
  then show ?thesis by simp
qed

lemma touches_own:
  assumes "touches i db db'" and "r' \<in> set (rd_routines db')" and "ro_id r' = i" and "r' \<notin> set (rd_routines db)"
  obtains r where "r \<in> set (rd_routines db)" "ro_id r = i" "ro_updated r < ro_updated r'"
  using assms unfolding touches_def by blast

lemma touches_trans:
  assumes t: "touches i db db1" "touches i db1 db2"
  shows "touches i db db2"
proof -
  have "r' \<in> set (rd_routines db) \<or> (\<exists>r \<in> set (rd_routines db). ro_id r = i \<and> ro_updated r < ro_updated r')"
    if r': "r' \<in> set (rd_routines db2)" "ro_id r' = i" for r'
  proof (cases "r' \<in> set (rd_routines db1)")
    case True
    then show ?thesis using t(1) r'(2) unfolding touches_def by blast
  next
    case False
    then obtain r1 where r1: "r1 \<in> set (rd_routines db1)" "ro_id r1 = i" "ro_updated r1 < ro_updated r'"
      using touches_own [OF t(2) r'] by blast
    show ?thesis
    proof (cases "r1 \<in> set (rd_routines db)")
      case True
      then show ?thesis using r1 by blast
    next
      case False
      then obtain r where "r \<in> set (rd_routines db)" "ro_id r = i" "ro_updated r < ro_updated r1"
        using touches_own [OF t(1) r1(1,2)] by blast
      then show ?thesis using r1(3) less_trans by blast
    qed
  qed
  then show ?thesis using t by (auto simp: touches_def)
qed

lemma touches_filter: "touches i db (db\<lparr>rd_routines := filter (\<lambda>r. \<not> (ro_id r = i \<and> P r)) (rd_routines db)\<rparr>)"
  by (auto simp: touches_def distinct_map intro: inj_on_subset intro!: filter_cong)

text \<open>The token written is later than the one the row had.\<close>

lemma later_token:
  assumes f: "format_ok ch" and d: "distinct (map ro_id (rd_routines db))"
    and g: "\<forall>r \<in> set (rd_routines db). good_token ch (ro_updated r)" and r: "r \<in> set (rd_routines db)" "ro_id r = i"
  shows "ro_updated r < next_routine_updated_at ch now db i"
proof -
  have found: "find (\<lambda>r. ro_id r = i) (rd_routines db) = Some r"
  proof (cases "find (\<lambda>r. ro_id r = i) (rd_routines db)")
    case None
    then show ?thesis using r by (simp add: find_None_all)
  next
    case (Some q)
    then have "q \<in> set (rd_routines db)" "ro_id q = i" using find_Some_mem by fastforce+
    then have "q = r" using d r inj_onD [of ro_id "set (rd_routines db)" q r] by (simp add: distinct_map)
    then show ?thesis using Some by simp
  qed
  obtain t where t: "dated t" "dated (t + MILLI)" "ro_updated r = ch_format ch t" using g r(1) by (auto simp: good_token_def)
  let ?u = "t div MILLI * MILLI + MILLI"
  have M: "0 < MILLI" by (simp add: MILLI_def)
  have "t div MILLI * MILLI + t mod MILLI = t" "0 \<le> t mod MILLI" "0 \<le> t div MILLI * MILLI"
    using M t(1) by (simp_all add: dated_def pos_imp_zdiv_nonneg_iff)
  then have u: "dated ?u" using t(2) M unfolding dated_def by linarith
  have "?u div MILLI = t div MILLI + 1" using M by simp
  then have "ch_format ch t < ch_format ch ?u" using f t(1) u unfolding format_ok_def by (metis less_add_one)
  moreover have "ch_parse ch (ch_format ch t) = Some (t div MILLI * MILLI)" using f t(1) by (simp add: format_ok_def)
  ultimately show ?thesis using t(3) by (simp add: next_routine_updated_at_def found not_le)
qed

lemma filter_update: "(\<And>r. P r \<Longrightarrow> \<not> Q r \<and> \<not> Q (f r)) \<Longrightarrow> filter Q (map (\<lambda>r. if P r then f r else r) rs) = filter Q rs"
  by (induction rs) auto

text \<open>So an update of the rows of one id is an edit of it, whatever it writes besides the token.\<close>

lemma touches_update:
  assumes "format_ok ch" and "distinct (map ro_id (rd_routines db))"
    and "\<forall>r \<in> set (rd_routines db). good_token ch (ro_updated r)"
    and "\<And>r. P r \<Longrightarrow> ro_id (f r) = i" and "\<And>r. P r \<Longrightarrow> ro_id r = i"
    and "\<And>r. ro_updated (f r) = next_routine_updated_at ch now db i"
  shows "touches i db (update_routines P f db)"
proof -
  have ids: "map ro_id (rd_routines (update_routines P f db)) = map ro_id (rd_routines db)"
    using assms(4,5) by (auto simp: update_routines_def)
  have "filter (\<lambda>r. ro_id r \<noteq> i) (rd_routines (update_routines P f db)) = filter (\<lambda>r. ro_id r \<noteq> i) (rd_routines db)"
    unfolding update_routines_def using assms(4,5) by (auto intro!: filter_update)
  moreover have "r' \<in> set (rd_routines db) \<or> (\<exists>r \<in> set (rd_routines db). ro_id r = i \<and> ro_updated r < ro_updated r')"
    if "r' \<in> set (rd_routines (update_routines P f db))" "ro_id r' = i" for r'
  proof -
    have "r' \<in> (\<lambda>r. if P r then f r else r) ` set (rd_routines db)" using that(1) by (simp add: update_routines_def)
    then obtain r where r: "r \<in> set (rd_routines db)" "r' = (if P r then f r else r)" by (rule imageE)
    show ?thesis
    proof (cases "P r")
      case True
      then have "ro_id r = i" by (rule assms(5))
      then show ?thesis using later_token [OF assms(1-3) r(1), of i now] r assms(6) [of r] True by auto
    qed (use r in simp)
  qed
  ultimately show ?thesis unfolding touches_def ids by blast
qed

section \<open>What the statements do\<close>

definition table_ok :: "chrono \<Rightarrow> routine_db \<Rightarrow> bool" where
  "table_ok ch db \<longleftrightarrow> distinct (map ro_id (rd_routines db)) \<and> (\<forall>r \<in> set (rd_routines db). good_token ch (ro_updated r))"

lemma table_okD: "table_ok ch db \<Longrightarrow> distinct (map ro_id (rd_routines db))"
  "table_ok ch db \<Longrightarrow> \<forall>r \<in> set (rd_routines db). good_token ch (ro_updated r)"
  by (simp_all add: table_ok_def)

lemma same_row: "table_ok ch db \<Longrightarrow> r \<in> set (rd_routines db) \<Longrightarrow> q \<in> set (rd_routines db) \<Longrightarrow> ro_id r = ro_id q \<Longrightarrow> r = q"
  using inj_onD [of ro_id "set (rd_routines db)" r q] by (simp add: table_ok_def distinct_map)

lemma find_routine_mem: "find_routine_by_id db i = Inr r \<Longrightarrow> r \<in> set (rd_routines db) \<and> ro_id r = i"
  using find_Some_mem [of "\<lambda>r. ro_id r = i" "rd_routines db"] by (auto simp: find_routine_by_id_def split: option.splits)

lemma update_routines_mem:
  assumes "r' \<in> set (rd_routines (update_routines P f db))"
  obtains r where "r \<in> set (rd_routines db)" "P r" "r' = f r" | "r' \<in> set (rd_routines db)" "\<not> P r'"
proof -
  have "r' \<in> (\<lambda>r. if P r then f r else r) ` set (rd_routines db)" using assms by (simp add: update_routines_def)
  then show thesis using that by (auto split: if_splits)
qed

lemma touches_last_session:
  assumes "format_ok ch" and "table_ok ch db" and "set_routine_last_session ch now i s db = Inr db'"
  shows "touches i db db'"
  using touches_update [OF assms(1) table_okD [OF assms(2)], of
      "\<lambda>r. ro_id r = i" "\<lambda>r. r\<lparr>ro_last_session := s, ro_updated := next_routine_updated_at ch now db i\<rparr>" i now] assms(3)
  by (simp add: set_routine_last_session_def Let_def split: if_splits)

lemma touches_enabled:
  assumes "format_ok ch" and "table_ok ch db" and "set_routine_enabled ch now i e n db = Inr (r, db')"
  shows "touches i db db'"
  using touches_update [OF assms(1) table_okD [OF assms(2)], of
      "\<lambda>r. ro_id r = i" "\<lambda>r. r\<lparr>ro_enabled := e, ro_next_run := n, ro_last_error := None, ro_updated := next_routine_updated_at ch now db i\<rparr>" i now]
    assms(3)
  by (auto simp: set_routine_enabled_def Let_def and_then_Inr_iff split: if_splits)

lemma touches_mark: "format_ok ch \<Longrightarrow> table_ok ch db \<Longrightarrow> touches (rf_id g) db (snd (mark_routine_run ch now g l n err e s db))"
  unfolding mark_routine_run_def Let_def snd_conv by (rule touches_update [where ch = ch]) (auto simp: table_okD)

lemma touches_retire: "format_ok ch \<Longrightarrow> table_ok ch db \<Longrightarrow> touches i db (snd (retire_fired_one_shot ch now i due l db))"
  unfolding retire_fired_one_shot_def Let_def snd_conv by (rule touches_update [where ch = ch]) (auto simp: table_okD)

text \<open>A mark that lost its race changes nothing, so a settlement writes the row once.\<close>

lemma mark_not_recorded: "mark_routine_run ch now f l n err e s db = (False, db') \<Longrightarrow> db' = db"
proof -
  assume m: "mark_routine_run ch now f l n err e s db = (False, db')"
  then have "\<not> list_ex (\<lambda>r. ro_id r = rf_id f \<and> ro_updated r = rf_updated f) (rd_routines db)"
    by (simp add: mark_routine_run_def Let_def)
  then have "map (\<lambda>r. if ro_id r = rf_id f \<and> ro_updated r = rf_updated f then g r else r) (rd_routines db) = rd_routines db" for g
    by (intro map_idI) (auto simp: list_ex_iff)
  then show "db' = db" using m by (auto simp: mark_routine_run_def update_routines_def Let_def)
qed

lemma mark_run_not_recorded: "mark_run ch ok now f l n err e s db = (False, db') \<Longrightarrow> db' = db"
  by (auto simp: mark_run_def mark_not_recorded split: if_splits)

lemma touches_mark_run: "format_ok ch \<Longrightarrow> table_ok ch db \<Longrightarrow> mark_run ch ok now f l n err e s db = (b, db') \<Longrightarrow> touches (rf_id f) db db'"
  using touches_mark [of ch db f "now_iso ch now" l n err e s] touches_refl [of "rf_id f" db] by (auto simp: mark_run_def split: if_splits)

text \<open>The three ways a settlement ends.\<close>

lemma settle_success_cases:
  obtains (deleted) "rf_once f \<noteq> None" "rf_author f = Agent_Author"
      "settle_success ch w now1 now2 f l n s db = snd (delete_spent_routine (rf_id f) (rf_updated f) db)"
      "list_ex (\<lambda>r. ro_id r = rf_id f \<and> ro_updated r = rf_updated f) (rd_routines db)"
  | (marked) b db' where "mark_run ch (sw_mark w) now1 f l (next_run_or_none ch (stays_scheduled f) n) None (stays_scheduled f) s db = (b, db')"
      "settle_success ch w now1 now2 f l n s db = db'" "rf_once f \<noteq> None \<and> sw_retire w \<Longrightarrow> b"
  | (retired) due where "rf_once f = Some due" "sw_retire w"
      "settle_success ch w now1 now2 f l n s db = snd (retire_fired_one_shot ch (now_iso ch now2) (rf_id f) due l db)"
proof (cases "rf_once f \<noteq> None \<and> rf_author f = Agent_Author \<and> sw_delete w \<and>
    list_ex (\<lambda>r. ro_id r = rf_id f \<and> ro_updated r = rf_updated f) (rd_routines db)")
  case True
  then show thesis by (intro deleted) (simp_all add: settle_success_def delete_spent_routine_def)
next
  case False
  have d: "(if rf_once f \<noteq> None \<and> rf_author f = Agent_Author \<and> sw_delete w
      then delete_spent_routine (rf_id f) (rf_updated f) db else (False, db)) = (False, db)"
  proof -
    have "filter (\<lambda>r. \<not> (ro_id r = rf_id f \<and> ro_updated r = rf_updated f)) (rd_routines db) = rd_routines db"
      if "\<not> list_ex (\<lambda>r. ro_id r = rf_id f \<and> ro_updated r = rf_updated f) (rd_routines db)"
      using that by (auto simp: list_ex_iff filter_id_conv)
    then show ?thesis using False by (auto simp: delete_spent_routine_def)
  qed
  obtain b db' where m: "mark_run ch (sw_mark w) now1 f l (next_run_or_none ch (stays_scheduled f) n) None (stays_scheduled f) s db = (b, db')"
    by fastforce
  have e: "settle_success ch w now1 now2 f l n s db =
      (case rf_once f of Some due \<Rightarrow> if \<not> b \<and> sw_retire w then snd (retire_fired_one_shot ch (now_iso ch now2) (rf_id f) due l db') else db' | None \<Rightarrow> db')"
    unfolding settle_success_def d Let_def prod.case m by simp
  show thesis
  proof (cases "rf_once f \<noteq> None \<and> sw_retire w \<and> \<not> b")
    case True
    then obtain due where due: "rf_once f = Some due" by blast
    have "db' = db" using m True by (simp add: mark_run_not_recorded)
    then show thesis using True due e by (intro retired [OF due]) simp_all
  next
    case False
    show thesis by (rule marked [OF m]) (use False e in \<open>auto split: option.splits\<close>)
  qed
qed

text \<open>What a settlement makes of a row: nothing it does turns a task on, moves its schedule or, unless it starts the
  shared chat, points it elsewhere.\<close>

definition settled_from :: "routine_fields \<Rightarrow> routine \<Rightarrow> routine \<Rightarrow> bool" where
  "settled_from f r r' \<longleftrightarrow>
     ro_id r' = ro_id r \<and> ro_cron r' = ro_cron r \<and> ro_once r' = ro_once r \<and> ro_worktree r' = ro_worktree r \<and>
     ro_target r' = ro_target r \<and> ro_arc r' = ro_arc r \<and>
     (ro_last_session r' = ro_last_session r \<or> ro_updated r = rf_updated f \<and> rf_target f = Same_Session) \<and>
     (ro_enabled r' \<longrightarrow> ro_updated r = rf_updated f \<and> rf_enabled f \<and> rf_once f = None) \<and>
     (\<not> ro_enabled r' \<longrightarrow> ro_next_run r' = None)"

definition settles :: "routine_fields \<Rightarrow> routine_db \<Rightarrow> routine_db \<Rightarrow> bool" where
  "settles f db db' \<longleftrightarrow>
     (\<forall>r' \<in> set (rd_routines db'). r' \<in> set (rd_routines db) \<or>
        (\<exists>r \<in> set (rd_routines db). ro_id r = rf_id f \<and> settled_from f r r'))"

lemma settles_refl: "settles f db db"
  by (simp add: settles_def)

lemma mark_settles:
  assumes "mark_run ch ok now f l n err e s db = (b, db')" and "e \<Longrightarrow> rf_enabled f \<and> rf_once f = None"
    and "\<not> e \<Longrightarrow> n = None" and "s \<noteq> None \<Longrightarrow> rf_target f = Same_Session"
  shows "settles f db db'"
proof (cases ok)
  case True
  let ?g = "\<lambda>r. r\<lparr>ro_last_run := Some l, ro_next_run := n, ro_last_error := err, ro_enabled := e,
    ro_last_session := (case s of None \<Rightarrow> ro_last_session r | Some s \<Rightarrow> Some s),
    ro_updated := next_routine_updated_at ch (now_iso ch now) db (rf_id f)\<rparr>"
  have db: "db' = update_routines (\<lambda>r. ro_id r = rf_id f \<and> ro_updated r = rf_updated f) ?g db"
    using assms(1) True by (simp add: mark_run_def mark_routine_run_def Let_def)
  have "settled_from f r (?g r)" if "ro_updated r = rf_updated f" for r
    using assms(2-4) that by (auto simp: settled_from_def split: option.splits)
  then show ?thesis unfolding settles_def db by (blast elim: update_routines_mem)
next
  case False
  then show ?thesis using assms(1) by (simp add: mark_run_def settles_refl)
qed

lemma disable_settles: "settles f db (snd (mark_run ch ok now f l None err False None db))"
  by (rule mark_settles [OF surjective_pairing]) simp_all

lemma retire_settles: "settles f db (snd (retire_fired_one_shot ch now (rf_id f) due l db))"
proof -
  let ?g = "\<lambda>r. r\<lparr>ro_enabled := False, ro_next_run := None, ro_last_run := Some l, ro_updated := next_routine_updated_at ch now db (rf_id f)\<rparr>"
  have "settled_from f r (?g r)" for r by (simp add: settled_from_def)
  then show ?thesis unfolding settles_def retire_fired_one_shot_def Let_def snd_conv by (blast elim: update_routines_mem)
qed

lemma success_settles:
  assumes "s \<noteq> None \<Longrightarrow> rf_target f = Same_Session"
  shows "settles f db (settle_success ch w now1 now2 f l n s db)"
proof (cases rule: settle_success_cases [of f ch w now1 now2 l n s db])
  case deleted
  then show ?thesis by (auto simp: settles_def delete_spent_routine_def)
next
  case (marked b db')
  show ?thesis unfolding marked(2)
    by (rule mark_settles [OF marked(1)]) (use assms in \<open>auto simp: stays_scheduled_def next_run_or_none_def\<close>)
next
  case (retired due)
  show ?thesis unfolding retired(3) by (rule retire_settles)
qed

lemma failure_settles: "settles f db (settle_failure ch w now1 f l now m db)"
  unfolding settle_failure_def
  by (rule mark_settles [OF surjective_pairing]) (auto simp: stays_scheduled_def next_run_at_or_retry_def)

lemma touches_success:
  assumes "format_ok ch" and "table_ok ch db"
  shows "touches (rf_id f) db (settle_success ch w now1 now2 f l n s db)"
proof (cases rule: settle_success_cases [of f ch w now1 now2 l n s db])
  case deleted
  show ?thesis unfolding deleted(3) delete_spent_routine_def snd_conv by (rule touches_filter)
next
  case (marked b db')
  then show ?thesis using touches_mark_run [OF assms] by simp
next
  case (retired due)
  then show ?thesis using touches_retire [OF assms] by simp
qed

lemma touches_failure: "format_ok ch \<Longrightarrow> table_ok ch db \<Longrightarrow> touches (rf_id f) db (settle_failure ch w now1 f l now m db)"
  unfolding settle_failure_def by (rule touches_mark_run [OF _ _ surjective_pairing])

text \<open>A one-shot that was delivered is not left due, whatever was edited meanwhile.\<close>

lemma success_spends:
  assumes "sw_retire w" and "rf_once f = Some due" and "r \<in> set (rd_routines (settle_success ch w now1 now2 f l n s db))"
    and "ro_id r = rf_id f" and "distinct (map ro_id (rd_routines db))"
  shows "\<not> (ro_enabled r \<and> ro_cron r = None \<and> ro_once r = Some due)"
proof (cases rule: settle_success_cases [of f ch w now1 now2 l n s db])
  case deleted
  then obtain q where q: "q \<in> set (rd_routines db)" "ro_id q = rf_id f" "ro_updated q = rf_updated f" by (auto simp: list_ex_iff)
  have "r \<in> set (rd_routines db)" "ro_updated r \<noteq> rf_updated f" using deleted assms(3,4) by (auto simp: delete_spent_routine_def)
  then show ?thesis using q assms(4,5) inj_onD [of ro_id "set (rd_routines db)" q r] by (auto simp: distinct_map)
next
  case (marked b db')
  then have "b" using assms(1,2) by simp
  then have m: "mark_routine_run ch (now_iso ch now1) f l (next_run_or_none ch (stays_scheduled f) n) None False s db = (True, db')"
    using marked(1) assms(2) by (simp add: mark_run_def stays_scheduled_def split: if_splits)
  then obtain q where q: "q \<in> set (rd_routines db)" "ro_id q = rf_id f" "ro_updated q = rf_updated f"
    by (auto simp: mark_routine_run_def Let_def list_ex_iff)
  have only: "p = q" if "p \<in> set (rd_routines db)" "ro_id p = rf_id f" for p
    using that q assms(5) inj_onD [of ro_id "set (rd_routines db)" q p] by (auto simp: distinct_map)
  have "r \<in> set (rd_routines (snd (mark_routine_run ch (now_iso ch now1) f l (next_run_or_none ch (stays_scheduled f) n) None False s db)))"
    using assms(3) marked(2) m by simp
  then have "\<not> ro_enabled r" unfolding mark_routine_run_def Let_def snd_conv
  proof (cases rule: update_routines_mem)
    case 2
    then show ?thesis using only [of r] q assms(4) by simp
  qed simp
  then show ?thesis by simp
next
  case (retired due')
  then have "due' = due" using assms(2) by simp
  then show ?thesis using assms(3,4) unfolding retired(3) by (auto simp: retire_fired_one_shot_def Let_def elim!: update_routines_mem)
qed

section \<open>What the edits do\<close>

text \<open>A row as a save leaves it.\<close>

definition saved_from :: "upsert_routine_input \<Rightarrow> string option \<Rightarrow> routine \<Rightarrow> bool" where
  "saved_from input n r \<longleftrightarrow>
     ro_id r = ui_id input \<and> ro_cron r = ui_cron input \<and> ro_once r = ui_once input \<and>
     ro_worktree r = (ui_target input = Worktree_Target) \<and> ro_target r = ui_target input \<and> ro_arc r = ui_arc input \<and>
     ro_enabled r = ui_enabled input \<and> ro_next_run r = n \<and>
     (ui_target input \<noteq> Same_Session \<longrightarrow> ro_last_session r = None)"

lemma last_session_mem:
  assumes "set_routine_last_session ch now i s db = Inr db'" and "r' \<in> set (rd_routines db')"
  obtains r where "r \<in> set (rd_routines db)" "ro_id r = i" "r' = r\<lparr>ro_last_session := s, ro_updated := next_routine_updated_at ch now db i\<rparr>"
  | "r' \<in> set (rd_routines db)" "ro_id r' \<noteq> i"
proof -
  have "r' \<in> set (rd_routines (update_routines (\<lambda>r. ro_id r = i) (\<lambda>r. r\<lparr>ro_last_session := s, ro_updated := next_routine_updated_at ch now db i\<rparr>) db))"
    using assms by (auto simp: set_routine_last_session_def Let_def split: if_splits)
  then show thesis using that by (auto elim: update_routines_mem)
qed

text \<open>A save in two statements: the row written, then the pointer of the chats it leaves.\<close>

definition written_row :: "string \<Rightarrow> upsert_routine_input \<Rightarrow> string option \<Rightarrow> routine_db \<Rightarrow> routine_db" where
  "written_row token input n db =
     (if \<exists>r \<in> set (rd_routines db). ro_id r = ui_id input
      then update_routines (\<lambda>r. ro_id r = ui_id input) (edited_routine token input n) db
      else db\<lparr>rd_routines := rd_routines db @ [new_routine token input n]\<rparr>)"

lemma upsert_cases:
  assumes "upsert_routine ch now later input n db = Inr (r, db')"
  shows "((ui_target input = Arc_Coordinator) = (ui_arc input \<noteq> None)) \<and>
    (let db1 = written_row (next_routine_updated_at ch now db (ui_id input)) input n db
     in if ui_target input = Same_Session then db' = db1 else set_routine_last_session ch later (ui_id input) None db1 = Inr db')"
  using assms by (auto simp: upsert_routine_def written_row_def [symmetric] Let_def and_then_Inr_iff split: if_splits)

lemma written_mem:
  assumes "r' \<in> set (rd_routines (written_row token input n db))"
  shows "(r' \<in> set (rd_routines db) \<and> ro_id r' \<noteq> ui_id input) \<or>
    (ro_updated r' = token \<and> saved_from input n (r'\<lparr>ro_last_session := None\<rparr>))"
proof (cases "\<exists>r \<in> set (rd_routines db). ro_id r = ui_id input")
  case True
  then have "r' \<in> set (rd_routines (update_routines (\<lambda>r. ro_id r = ui_id input) (edited_routine token input n) db))"
    using assms by (simp add: written_row_def)
  then show ?thesis
    by (cases rule: update_routines_mem) (simp_all add: saved_from_def edited_routine_def new_routine_def)
next
  case False
  then show ?thesis using assms by (auto simp: written_row_def saved_from_def new_routine_def)
qed

lemma upsert_mem:
  assumes "upsert_routine ch now later input n db = Inr (r, db')" and "r' \<in> set (rd_routines db')"
  shows "(r' \<in> set (rd_routines db) \<and> ro_id r' \<noteq> ui_id input) \<or> saved_from input n r'"
proof -
  note u = upsert_cases [OF assms(1), unfolded Let_def]
  show ?thesis
  proof (cases "ui_target input = Same_Session")
    case True
    then have "r' \<in> set (rd_routines (written_row (next_routine_updated_at ch now db (ui_id input)) input n db))" using u assms(2) by simp
    from written_mem [OF this] show ?thesis using True by (auto simp: saved_from_def)
  next
    case False
    then have l: "set_routine_last_session ch later (ui_id input) None (written_row (next_routine_updated_at ch now db (ui_id input)) input n db) = Inr db'"
      using u by simp
    from last_session_mem [OF l assms(2)] show ?thesis
    proof cases
      case (1 q)
      then show ?thesis using written_mem [OF 1(1)] by (auto simp: saved_from_def)
    next
      case 2
      then show ?thesis using written_mem [OF 2(1)] by (auto simp: saved_from_def)
    qed
  qed
qed

text \<open>What a save keeps of the table, and the tokens it writes.\<close>

definition edit_of :: "string \<Rightarrow> string \<Rightarrow> routine_db \<Rightarrow> routine_db \<Rightarrow> bool" where
  "edit_of i low db db' \<longleftrightarrow>
     (if \<exists>r \<in> set (rd_routines db). ro_id r = i then touches i db db'
      else filter (\<lambda>r. ro_id r \<noteq> i) (rd_routines db') = rd_routines db \<and>
        (distinct (map ro_id (rd_routines db)) \<longrightarrow> distinct (map ro_id (rd_routines db'))) \<and>
        (\<forall>r' \<in> set (rd_routines db'). ro_id r' = i \<longrightarrow> low \<le> ro_updated r'))"

lemma edit_of_then_touch:
  assumes "edit_of i low db db1" and "touches i db1 db2"
  shows "edit_of i low db db2"
proof (cases "\<exists>r \<in> set (rd_routines db). ro_id r = i")
  case True
  then show ?thesis using assms touches_trans unfolding edit_of_def by simp
next
  case False
  then have e: "filter (\<lambda>r. ro_id r \<noteq> i) (rd_routines db1) = rd_routines db"
    "distinct (map ro_id (rd_routines db)) \<longrightarrow> distinct (map ro_id (rd_routines db1))"
    "\<forall>r' \<in> set (rd_routines db1). ro_id r' = i \<longrightarrow> low \<le> ro_updated r'" using assms(1) by (simp_all add: edit_of_def)
  have "low \<le> ro_updated r'" if r': "r' \<in> set (rd_routines db2)" "ro_id r' = i" for r'
  proof (cases "r' \<in> set (rd_routines db1)")
    case True
    then show ?thesis using e(3) r'(2) by blast
  next
    case False
    then obtain r where "r \<in> set (rd_routines db1)" "ro_id r = i" "ro_updated r < ro_updated r'" using touches_own [OF assms(2) r'] by blast
    then have "low \<le> ro_updated r" using e(3) by blast
    then show ?thesis using \<open>ro_updated r < ro_updated r'\<close> by simp
  qed
  then show ?thesis using False e assms(2) by (auto simp: edit_of_def touches_def)
qed

lemma edit_of_written:
  assumes "format_ok ch" and "table_ok ch db"
  shows "edit_of (ui_id input) now db (written_row (next_routine_updated_at ch now db (ui_id input)) input n db)"
proof (cases "\<exists>r \<in> set (rd_routines db). ro_id r = ui_id input")
  case True
  have "touches (ui_id input) db (update_routines (\<lambda>r. ro_id r = ui_id input)
      (edited_routine (next_routine_updated_at ch now db (ui_id input)) input n) db)"
    by (rule touches_update [OF assms(1) table_okD [OF assms(2)]]) (simp_all add: edited_routine_def new_routine_def)
  then show ?thesis using True by (simp add: edit_of_def written_row_def)
next
  case False
  then have "find (\<lambda>r. ro_id r = ui_id input) (rd_routines db) = None" by (simp add: find_None_all)
  then show ?thesis using False by (auto simp: edit_of_def written_row_def next_routine_updated_at_def new_routine_def filter_id_conv)
qed

lemma written_table_ok:
  assumes "table_ok ch db" and "good_token ch token"
  shows "table_ok ch (written_row token input n db)"
proof -
  have "distinct (map ro_id (rd_routines (written_row token input n db)))"
  proof (cases "\<exists>r \<in> set (rd_routines db). ro_id r = ui_id input")
    case True
    then have "map ro_id (rd_routines (written_row token input n db)) = map ro_id (rd_routines db)"
      by (auto simp: written_row_def update_routines_def edited_routine_def new_routine_def)
    then show ?thesis using assms(1) by (simp add: table_ok_def)
  next
    case False
    then show ?thesis using assms(1) by (auto simp: written_row_def new_routine_def table_ok_def)
  qed
  moreover have "good_token ch (ro_updated r)" if "r \<in> set (rd_routines (written_row token input n db))" for r
    using written_mem [OF that] assms by (auto simp: table_ok_def)
  ultimately show ?thesis by (simp add: table_ok_def)
qed

lemma edit_of_upsert:
  assumes "format_ok ch" and "table_ok ch db" and "good_token ch (next_routine_updated_at ch now db (ui_id input))"
    and "upsert_routine ch now later input n db = Inr (r, db')"
  shows "edit_of (ui_id input) now db db'"
proof -
  let ?db = "written_row (next_routine_updated_at ch now db (ui_id input)) input n db"
  have e: "edit_of (ui_id input) now db ?db" by (rule edit_of_written [OF assms(1,2)])
  show ?thesis
  proof (cases "ui_target input = Same_Session")
    case True
    then show ?thesis using upsert_cases [OF assms(4)] e by (simp add: Let_def)
  next
    case False
    then have "set_routine_last_session ch later (ui_id input) None ?db = Inr db'" using upsert_cases [OF assms(4)] by (simp add: Let_def)
    then have "touches (ui_id input) ?db db'" by (rule touches_last_session [OF assms(1) written_table_ok [OF assms(2,3)]])
    then show ?thesis by (rule edit_of_then_touch [OF e])
  qed
qed

section \<open>The invariant\<close>

definition routine_inv :: "chrono \<Rightarrow> routine_system \<Rightarrow> bool" where
  "routine_inv ch S \<longleftrightarrow>
     table_ok ch (ry_db S) \<and>
     (\<forall>r \<in> set (rd_routines (ry_db S)). routine_ok ch r) \<and>
     distinct (map fl_id (ry_flights S)) \<and> ry_runs S = fl_id ` set (ry_flights S) \<and>
     (\<forall>x \<in> set (ry_flights S). \<forall>r \<in> set (rd_routines (ry_db S)). ro_id r = fl_id x \<longrightarrow>
        rf_updated (fl_fields x) \<le> ro_updated r \<and>
        (ro_updated r = rf_updated (fl_fields x) \<longrightarrow> routine_launch_fields r = fl_fields x)) \<and>
     (\<forall>z \<in> ry_spent S. \<forall>r \<in> set (rd_routines (ry_db S)). ro_id r = fst z \<longrightarrow>
        \<not> (ro_enabled r \<and> ro_cron r = None \<and> ro_once r = Some (snd z)))"

lemma routine_invD:
  assumes "routine_inv ch S"
  shows "table_ok ch (ry_db S)"
    and "r \<in> set (rd_routines (ry_db S)) \<Longrightarrow> routine_ok ch r"
    and "distinct (map fl_id (ry_flights S))" and "ry_runs S = fl_id ` set (ry_flights S)"
    and "x \<in> set (ry_flights S) \<Longrightarrow> r \<in> set (rd_routines (ry_db S)) \<Longrightarrow> ro_id r = fl_id x \<Longrightarrow> rf_updated (fl_fields x) \<le> ro_updated r"
    and "x \<in> set (ry_flights S) \<Longrightarrow> r \<in> set (rd_routines (ry_db S)) \<Longrightarrow> ro_id r = fl_id x \<Longrightarrow>
      ro_updated r = rf_updated (fl_fields x) \<Longrightarrow> routine_launch_fields r = fl_fields x"
    and "z \<in> ry_spent S \<Longrightarrow> r \<in> set (rd_routines (ry_db S)) \<Longrightarrow> ro_id r = fst z \<Longrightarrow>
      \<not> (ro_enabled r \<and> ro_cron r = None \<and> ro_once r = Some (snd z))"
  using assms unfolding routine_inv_def by blast+

text \<open>A change of the table keeps it when the rows it writes are sound, are later than every firing of their id,
  and bring no spent occurrence back.\<close>

lemma routine_inv_db:
  assumes inv: "routine_inv ch S" and d: "distinct (map ro_id (rd_routines db))"
    and g: "\<forall>r \<in> set (rd_routines db). good_token ch (ro_updated r)"
    and new: "\<And>r. r \<in> set (rd_routines db) \<Longrightarrow> r \<notin> set (rd_routines (ry_db S)) \<Longrightarrow>
      routine_ok ch r \<and> (\<forall>x \<in> set (ry_flights S). fl_id x = ro_id r \<longrightarrow> rf_updated (fl_fields x) < ro_updated r) \<and>
      (\<forall>z \<in> spent. fst z = ro_id r \<longrightarrow> \<not> (ro_enabled r \<and> ro_cron r = None \<and> ro_once r = Some (snd z)))"
    and s: "spent \<subseteq> ry_spent S"
  shows "routine_inv ch (S\<lparr>ry_db := db, ry_spent := spent\<rparr>)"
proof -
  note i = routine_invD [OF inv]
  have "rf_updated (fl_fields x) \<le> ro_updated r \<and> (ro_updated r = rf_updated (fl_fields x) \<longrightarrow> routine_launch_fields r = fl_fields x)"
    if "x \<in> set (ry_flights S)" "r \<in> set (rd_routines db)" "ro_id r = fl_id x" for x r
  proof (cases "r \<in> set (rd_routines (ry_db S))")
    case True
    then show ?thesis using i(5,6) [OF that(1) True that(3)] by blast
  next
    case False
    then have "rf_updated (fl_fields x) < ro_updated r" using new [OF that(2)] that(1,3) by simp
    then show ?thesis by auto
  qed
  moreover have "\<not> (ro_enabled r \<and> ro_cron r = None \<and> ro_once r = Some (snd z))"
    if "z \<in> spent" "r \<in> set (rd_routines db)" "ro_id r = fst z" for z r
    using i(7) [of z r] new [OF that(2)] that s by (cases "r \<in> set (rd_routines (ry_db S))") auto
  moreover have "routine_ok ch r" if "r \<in> set (rd_routines db)" for r
    using i(2) [of r] new [OF that] by (cases "r \<in> set (rd_routines (ry_db S))") auto
  ultimately show ?thesis using i(3,4) d g unfolding routine_inv_def table_ok_def by simp
qed

lemma routine_inv_edit:
  assumes inv: "routine_inv ch S" and e: "edit_of i low (ry_db S) db" and g: "\<forall>r \<in> set (rd_routines db). good_token ch (ro_updated r)"
    and low: "\<forall>x \<in> set (ry_flights S). fl_id x = i \<longrightarrow> (\<exists>r \<in> set (rd_routines (ry_db S)). ro_id r = i) \<or>
      rf_updated (fl_fields x) < low \<or> (\<forall>r \<in> set (rd_routines db). ro_id r \<noteq> i)"
    and ok: "\<And>r. r \<in> set (rd_routines db) \<Longrightarrow> ro_id r = i \<Longrightarrow> r \<notin> set (rd_routines (ry_db S)) \<Longrightarrow> routine_ok ch r"
    and spent: "spent \<subseteq> ry_spent S"
      "\<And>r due. r \<in> set (rd_routines db) \<Longrightarrow> ro_id r = i \<Longrightarrow> r \<notin> set (rd_routines (ry_db S)) \<Longrightarrow> (i, due) \<in> spent \<Longrightarrow>
        \<not> (ro_enabled r \<and> ro_cron r = None \<and> ro_once r = Some due)"
  shows "routine_inv ch (S\<lparr>ry_db := db, ry_spent := spent\<rparr>)"
proof (rule routine_inv_db [OF inv _ g _ spent(1)])
  note i = routine_invD [OF inv]
  show "distinct (map ro_id (rd_routines db))"
    using e table_okD(1) [OF i(1)] by (auto simp: edit_of_def touches_def split: if_splits)
  fix r assume r: "r \<in> set (rd_routines db)" "r \<notin> set (rd_routines (ry_db S))"
  have others: "filter (\<lambda>r. ro_id r \<noteq> i) (rd_routines db) = filter (\<lambda>r. ro_id r \<noteq> i) (rd_routines (ry_db S))"
    using e by (cases "\<exists>r \<in> set (rd_routines (ry_db S)). ro_id r = i") (simp_all add: edit_of_def touches_def filter_id_conv)
  have id: "ro_id r = i"
  proof (rule ccontr)
    assume "ro_id r \<noteq> i"
    then have "r \<in> set (filter (\<lambda>r. ro_id r \<noteq> i) (rd_routines db))" using r(1) by simp
    then show False unfolding others using r(2) by simp
  qed
  have later: "rf_updated (fl_fields x) < ro_updated r" if x: "x \<in> set (ry_flights S)" "fl_id x = i" for x
  proof (cases "\<exists>r \<in> set (rd_routines (ry_db S)). ro_id r = i")
    case True
    then have "touches i (ry_db S) db" using e by (simp add: edit_of_def)
    from touches_own [OF this r(1) id r(2)] obtain q where
      q: "q \<in> set (rd_routines (ry_db S))" "ro_id q = i" "ro_updated q < ro_updated r" .
    then show ?thesis using i(5) [OF x(1) q(1)] x(2) by simp
  next
    case False
    then have "rf_updated (fl_fields x) < low" using low x r(1) id by blast
    moreover have "low \<le> ro_updated r" using False e r(1) id by (simp add: edit_of_def)
    ultimately show ?thesis by simp
  qed
  show "routine_ok ch r \<and> (\<forall>x \<in> set (ry_flights S). fl_id x = ro_id r \<longrightarrow> rf_updated (fl_fields x) < ro_updated r) \<and>
      (\<forall>z \<in> spent. fst z = ro_id r \<longrightarrow> \<not> (ro_enabled r \<and> ro_cron r = None \<and> ro_once r = Some (snd z)))"
  proof (intro conjI ballI impI)
    show "routine_ok ch r" by (rule ok [OF r(1) id r(2)])
    show "rf_updated (fl_fields x) < ro_updated r" if "x \<in> set (ry_flights S)" "fl_id x = ro_id r" for x
      using later that id by simp
    show "\<not> (ro_enabled r \<and> ro_cron r = None \<and> ro_once r = Some (snd z))" if "z \<in> spent" "fst z = ro_id r" for z
      using spent(2) [OF r(1) id r(2), of "snd z"] that id by (metis prod.collapse)
  qed
qed

lemma routine_inv_touch:
  assumes inv: "routine_inv ch S" and t: "touches i (ry_db S) db" and g: "\<forall>r \<in> set (rd_routines db). good_token ch (ro_updated r)"
    and ok: "\<And>r. r \<in> set (rd_routines db) \<Longrightarrow> ro_id r = i \<Longrightarrow> r \<notin> set (rd_routines (ry_db S)) \<Longrightarrow> routine_ok ch r"
    and spent: "spent \<subseteq> ry_spent S"
      "\<And>r due. r \<in> set (rd_routines db) \<Longrightarrow> ro_id r = i \<Longrightarrow> r \<notin> set (rd_routines (ry_db S)) \<Longrightarrow> (i, due) \<in> spent \<Longrightarrow>
        \<not> (ro_enabled r \<and> ro_cron r = None \<and> ro_once r = Some due)"
  shows "routine_inv ch (S\<lparr>ry_db := db, ry_spent := spent\<rparr>)"
proof -
  have none: "\<forall>r \<in> set (rd_routines db). ro_id r \<noteq> i" if "\<not> (\<exists>r \<in> set (rd_routines (ry_db S)). ro_id r = i)"
    using t that by (auto simp: touches_def)
  have e: "edit_of i [] (ry_db S) db"
  proof (cases "\<exists>r \<in> set (rd_routines (ry_db S)). ro_id r = i")
    case False
    then have "filter (\<lambda>r. ro_id r \<noteq> i) (rd_routines (ry_db S)) = rd_routines (ry_db S)" by (auto simp: filter_id_conv)
    moreover have "filter (\<lambda>r. ro_id r \<noteq> i) (rd_routines db) = filter (\<lambda>r. ro_id r \<noteq> i) (rd_routines (ry_db S))"
      "distinct (map ro_id (rd_routines (ry_db S))) \<longrightarrow> distinct (map ro_id (rd_routines db))" using t unfolding touches_def by - (elim conjE, assumption)+
    ultimately show ?thesis using False none [OF False] unfolding edit_of_def by (simp only: if_False) blast
  qed (use t in \<open>simp only: edit_of_def if_True\<close>)
  show ?thesis
  proof (rule routine_inv_edit [OF inv e g])
    show "\<forall>x \<in> set (ry_flights S). fl_id x = i \<longrightarrow> (\<exists>r \<in> set (rd_routines (ry_db S)). ro_id r = i) \<or>
        rf_updated (fl_fields x) < [] \<or> (\<forall>r \<in> set (rd_routines db). ro_id r \<noteq> i)" using none by blast
  qed (fact ok spent)+
qed

text \<open>A settlement of fields that are the row's own, if their tokens agree.\<close>

lemma routine_inv_settle:
  assumes inv: "routine_inv ch S" and t: "touches (rf_id f) (ry_db S) db" and s: "settles f (ry_db S) db"
    and g: "\<forall>r \<in> set (rd_routines db). good_token ch (ro_updated r)"
    and own: "\<And>r. r \<in> set (rd_routines (ry_db S)) \<Longrightarrow> ro_id r = rf_id f \<Longrightarrow> ro_updated r = rf_updated f \<Longrightarrow> routine_launch_fields r = f"
  shows "routine_inv ch (S\<lparr>ry_db := db\<rparr>)"
proof -
  have from_row: "routine_ok ch r' \<and> (ro_enabled r' \<longrightarrow> ro_once r' = None)"
    if mem: "r' \<in> set (rd_routines db)" "r' \<notin> set (rd_routines (ry_db S))" for r'
  proof -
    obtain r where r: "r \<in> set (rd_routines (ry_db S))" "ro_id r = rf_id f" "settled_from f r r'"
      using s [unfolded settles_def, rule_format, OF mem(1)] mem(2) by auto
    have ok: "routine_ok ch r" by (rule routine_invD(2) [OF inv r(1)])
    have same: "ro_target r = rf_target f" "ro_once r = rf_once f" if "ro_updated r = rf_updated f"
      using own [OF r(1,2) that] by (auto simp: routine_launch_fields_def)
    have st: "ro_cron r' = ro_cron r" "ro_once r' = ro_once r" "ro_worktree r' = ro_worktree r" "ro_target r' = ro_target r"
      "ro_arc r' = ro_arc r" "ro_last_session r' = ro_last_session r \<or> ro_updated r = rf_updated f \<and> rf_target f = Same_Session"
      "ro_enabled r' \<Longrightarrow> ro_updated r = rf_updated f \<and> rf_once f = None" "\<not> ro_enabled r' \<Longrightarrow> ro_next_run r' = None"
      using r(3) unfolding settled_from_def by blast+
    have once: "ro_enabled r' \<Longrightarrow> ro_once r' = None" using st(2,7) same(2) by simp
    have "ro_last_session r' \<noteq> None \<longrightarrow> ro_target r' = Same_Session"
      using st(4,6) same(1) ok unfolding routine_ok_def by (metis (no_types))
    moreover have "ro_enabled r' \<and> ro_once r' \<noteq> None \<longrightarrow> ro_next_run r' = ro_once r'" by (auto dest: once)
    ultimately show ?thesis using ok st(1-5,8) once unfolding routine_ok_def by simp
  qed
  have "routine_inv ch (S\<lparr>ry_db := db, ry_spent := ry_spent S\<rparr>)"
    by (rule routine_inv_touch [OF inv t g]) (use from_row in auto)
  then show ?thesis by simp
qed

text \<open>A shrinking table and the firings that end.\<close>

lemma routine_inv_shrink:
  assumes inv: "routine_inv ch S" and "rd_routines db = filter P (rd_routines (ry_db S))"
  shows "routine_inv ch (S\<lparr>ry_db := db\<rparr>)"
proof -
  have t: "table_ok ch (ry_db S)" by (rule routine_invD(1) [OF inv])
  have "routine_inv ch (S\<lparr>ry_db := db, ry_spent := ry_spent S\<rparr>)"
    by (rule routine_inv_db [OF inv]) (use t assms(2) in \<open>auto simp: table_ok_def distinct_map intro: inj_on_subset\<close>)
  then show ?thesis by simp
qed

lemma routine_inv_ends:
  assumes inv: "routine_inv ch S" and "ry_flights S = a @ x # b"
  shows "routine_inv ch \<lparr>ry_db = ry_db S, ry_runs = drop_run (fl_id x) (ry_runs S), ry_flights = a @ b, ry_spent = ry_spent S\<rparr>"
  using inv assms(2) unfolding routine_inv_def drop_run_def by (auto simp: image_Un)

lemma routine_inv_starts:
  assumes inv: "routine_inv ch S" and r: "r \<in> set (rd_routines (ry_db S))" "ro_id r \<notin> ry_runs S"
    and x: "fl_fields x = routine_launch_fields r"
  shows "routine_inv ch \<lparr>ry_db = ry_db S, ry_runs = insert (ro_id r) (ry_runs S), ry_flights = ry_flights S @ [x], ry_spent = ry_spent S\<rparr>"
proof -
  note i = routine_invD [OF inv]
  have id: "fl_id x = ro_id r" by (simp add: x routine_launch_fields_def)
  have "q = r" if "q \<in> set (rd_routines (ry_db S))" "ro_id q = fl_id x" for q
    using same_row [OF i(1) that(1) r(1)] that(2) id by simp
  then have "rf_updated (fl_fields x) \<le> ro_updated q \<and> (ro_updated q = rf_updated (fl_fields x) \<longrightarrow> routine_launch_fields q = fl_fields x)"
    if "q \<in> set (rd_routines (ry_db S))" "ro_id q = fl_id x" for q
    using that x by (auto simp: routine_launch_fields_def)
  moreover have "distinct (map fl_id (ry_flights S @ [x]))" using i(3,4) r(2) id by simp
  ultimately show ?thesis using inv id unfolding routine_inv_def by simp
qed

lemma routine_inv_moves_on:
  assumes inv: "routine_inv ch S" and "ry_flights S = a @ x # b" and r: "r \<in> set (rd_routines (ry_db S))" "ro_id r = fl_id x"
    and y: "fl_fields y = routine_launch_fields r"
  shows "routine_inv ch \<lparr>ry_db = ry_db S, ry_runs = ry_runs S, ry_flights = a @ y # b, ry_spent = ry_spent S\<rparr>"
proof -
  note i = routine_invD [OF inv]
  have id: "fl_id y = fl_id x" using r(2) by (simp add: y routine_launch_fields_def)
  have own: "q = r" if "q \<in> set (rd_routines (ry_db S))" "ro_id q = fl_id y" for q
    using same_row [OF i(1) that(1) r(1)] that(2) id r(2) by simp
  have "rf_updated (fl_fields z) \<le> ro_updated q \<and> (ro_updated q = rf_updated (fl_fields z) \<longrightarrow> routine_launch_fields q = fl_fields z)"
    if z: "z \<in> set (a @ y # b)" "q \<in> set (rd_routines (ry_db S))" "ro_id q = fl_id z" for z q
  proof (cases "z = y")
    case True
    then have "q = r" using own z(2,3) by simp
    then show ?thesis using True y by (simp add: routine_launch_fields_def)
  next
    case False
    then have "z \<in> set (ry_flights S)" using z(1) assms(2) by auto
    then show ?thesis using i(5,6) z(2,3) by blast
  qed
  moreover have "distinct (map fl_id (a @ y # b))" "ry_runs S = fl_id ` set (a @ y # b)" using i(3,4) assms(2) id by simp_all
  ultimately show ?thesis using inv unfolding routine_inv_def by simp
qed

lemma routine_inv_spends:
  assumes "routine_inv ch S" and "\<And>r due. rf_once f = Some due \<Longrightarrow> r \<in> set (rd_routines (ry_db S)) \<Longrightarrow> ro_id r = rf_id f \<Longrightarrow>
    \<not> (ro_enabled r \<and> ro_cron r = None \<and> ro_once r = Some due)"
  shows "routine_inv ch (S\<lparr>ry_spent := ry_spent S \<union> occurrence f\<rparr>)"
  using assms unfolding routine_inv_def occurrence_def by (auto split: option.splits)

section \<open>Every step keeps it\<close>

lemma fire_cases:
  assumes "fire_routine ch agent w now run now1 now2 f db = (st, db')"
  obtains (ended) out where "st = Fired out" "settles f db db'" "format_ok ch \<Longrightarrow> table_ok ch db \<Longrightarrow> touches (rf_id f) db db'"
  | (waiting) x where "st = In_Flight x" "fl_fields x = f" "db' = db"
proof -
  have "(\<exists>out. st = Fired out \<and> settles f db db' \<and> (format_ok ch \<and> table_ok ch db \<longrightarrow> touches (rf_id f) db db')) \<or>
      (\<exists>x. st = In_Flight x \<and> fl_fields x = f \<and> db' = db)"
  proof (cases "next_occurrence ch (rf_cron f) (rf_once f) now")
    case (Inl e)
    then have "st = Fired Recorded" "db' = snd (mark_run ch (sw_mark w) now1 f (now_iso ch run) None (Some (error_text e)) False None db)"
      using assms by (simp_all add: fire_routine_def)
    then show ?thesis
      using disable_settles touches_mark_run [OF _ _ surjective_pairing] by simp
  next
    case next_at: (Inr n)
    show ?thesis
    proof (cases "parse_provider (rf_provider f)")
      case (Inl e)
      then have "st = Fired Recorded"
        "db' = snd (mark_run ch (sw_mark w) now1 f (now_iso ch run) None (Some ''stored provider is not recognized'') False None db)"
        using assms next_at by (simp_all add: fire_routine_def)
      then show ?thesis
        using disable_settles touches_mark_run [OF _ _ surjective_pairing] by simp
    next
      case (Inr p)
      show ?thesis
      proof (cases "rf_target f = Arc_Coordinator")
        case True
        then show ?thesis using assms next_at Inr success_settles [of None f] failure_settles touches_success touches_failure
          by (cases "resolve_arc_coordinator db (rf_arc f)") (auto simp: fire_routine_def Let_def)
      next
        case False
        then show ?thesis using assms next_at Inr
          by (cases "rf_target f"; cases "rf_last_session f") (auto simp: fire_routine_def Let_def)
      qed
    qed
  qed
  then show thesis using ended waiting by blast
qed

lemma fire_keeps:
  assumes f: "format_ok ch" and inv: "routine_inv ch S" and r: "r \<in> set (rd_routines (ry_db S))" "ro_id r \<notin> ry_runs S"
    and fire: "fire_routine ch agent w now run now1 now2 (routine_launch_fields r) (ry_db S) = (st, db)"
    and g: "\<forall>r \<in> set (rd_routines db). good_token ch (ro_updated r)"
  shows "routine_inv ch (after_stage (ro_id r) (insert (ro_id r) (ry_runs S)) st (ry_flights S) [] db (ry_spent S))"
  using fire
proof (cases rule: fire_cases)
  case (ended out)
  note i = routine_invD [OF inv]
  have id: "rf_id (routine_launch_fields r) = ro_id r" by (simp add: routine_launch_fields_def)
  have "routine_inv ch (S\<lparr>ry_db := db\<rparr>)"
    by (rule routine_inv_settle [OF inv ended(3) [OF f i(1)] ended(2) g]) (use same_row [OF i(1) _ r(1)] id in auto)
  moreover have "drop_run (ro_id r) (insert (ro_id r) (ry_runs S)) = ry_runs S" using r(2) by (auto simp: drop_run_def)
  ultimately show ?thesis unfolding ended(1) after_stage_def by (cases S) simp
next
  case (waiting x)
  then show ?thesis using routine_inv_starts [OF inv r, of x] by (simp add: after_stage_def)
qed

text \<open>A firing whose prompt has been answered: settled, and over.\<close>

lemma over_keeps:
  assumes f: "format_ok ch" and inv: "routine_inv ch S" and x: "ry_flights S = a @ x # b"
    and db: "touches (fl_id x) (ry_db S) db" "settles (fl_fields x) (ry_db S) db" "\<forall>r \<in> set (rd_routines db). good_token ch (ro_updated r)"
    and s: "spent = {} \<or> spent = occurrence (fl_fields x) \<and>
      (\<forall>due. \<forall>r \<in> set (rd_routines db). rf_once (fl_fields x) = Some due \<and> ro_id r = fl_id x \<longrightarrow>
        \<not> (ro_enabled r \<and> ro_cron r = None \<and> ro_once r = Some due))"
  shows "routine_inv ch (after_stage (fl_id x) (ry_runs S) (Fired out) a b db (ry_spent S \<union> spent))"
proof -
  have i: "routine_inv ch (S\<lparr>ry_db := db\<rparr>)"
    by (rule routine_inv_settle [OF inv db]) (use routine_invD(6) [OF inv, of x] x in auto)
  have "routine_inv ch (S\<lparr>ry_db := db, ry_spent := ry_spent S \<union> spent\<rparr>)"
    using s
  proof
    assume "spent = occurrence (fl_fields x) \<and> (\<forall>due. \<forall>r \<in> set (rd_routines db). rf_once (fl_fields x) = Some due \<and> ro_id r = fl_id x \<longrightarrow>
        \<not> (ro_enabled r \<and> ro_cron r = None \<and> ro_once r = Some due))"
    then show ?thesis using routine_inv_spends [OF i, of "fl_fields x"] by simp
  qed (use i in simp)
  from routine_inv_ends [OF this, of a x b] show ?thesis using x by (simp add: after_stage_def)
qed

text \<open>What a save accepts: one schedule, of a cron expression that parses, and a next run that fits it.\<close>

definition schedule_valid :: "chrono \<Rightarrow> upsert_routine_input \<Rightarrow> string option \<Rightarrow> bool" where
  "schedule_valid ch u n \<longleftrightarrow>
     (ui_cron u = None) \<noteq> (ui_once u = None) \<and> (case ui_cron u of None \<Rightarrow> True | Some e \<Rightarrow> ch_cron ch e \<noteq> None) \<and>
     (\<not> ui_enabled u \<longrightarrow> n = None) \<and> (ui_enabled u \<and> ui_once u \<noteq> None \<longrightarrow> n = ui_once u)"

lemma validate_schedule_Inr:
  "validate_schedule ch c t = Inr () \<Longrightarrow> (c = None) \<noteq> (t = None) \<and> (case c of None \<Rightarrow> True | Some e \<Rightarrow> ch_cron ch e \<noteq> None)"
  by (auto simp: validate_schedule_def parse_cron_def and_then_Inr_iff split: option.splits)

lemma save_upserts:
  assumes "routines_upsert ch now now1 now2 input db = Inr (r, db')"
  obtains u n where "upsert_routine ch (now_iso ch now1) (now_iso ch now2) u n db = Inr (r, db')" "ui_id u = sv_id input"
    "schedule_valid ch u n" "ui_author u = User_Author"
proof -
  obtain t where t: "validate_schedule ch (trimmed (sv_cron input)) (trimmed (sv_once input)) = Inr ()"
    "(case trimmed (sv_once input) of None \<Rightarrow> Inr None | Some v \<Rightarrow> and_then (normalize_once_input ch v) (\<lambda>t. Inr (Some t))) = Inr t"
    using assms by (auto simp: routines_upsert_def Let_def and_then_Inr_iff)
  have once: "(t = None) = (trimmed (sv_once input) = None)" using t(2) by (auto simp: and_then_Inr_iff split: option.splits)
  define e where "e = (case sv_enabled input of None \<Rightarrow> True | Some b \<Rightarrow> b)"
  obtain n a where n: "(if e then (case t of Some time \<Rightarrow> Inr (Some time)
      | None \<Rightarrow> and_then (next_occurrence ch (trimmed (sv_cron input)) None now) (\<lambda>n. Inr (map_option (ch_format ch) n))) else Inr None) = Inr n"
    "upsert_routine ch (now_iso ch now1) (now_iso ch now2)
       \<lparr>ui_id = sv_id input, ui_name = sv_name input, ui_project = sv_project input, ui_prompt = sv_prompt input,
        ui_provider = provider_str (sv_provider input), ui_model_label = sv_model_label input, ui_model_id = sv_model_id input,
        ui_target = (case sv_target input of Some t \<Rightarrow> t | None \<Rightarrow> if sv_worktree input then Worktree_Target else New_Session),
        ui_arc = a, ui_cron = trimmed (sv_cron input), ui_once = t, ui_enabled = e, ui_author = User_Author\<rparr> n db = Inr (r, db')"
    using assms t unfolding routines_upsert_def Let_def e_def [symmetric] by (auto simp: and_then_Inr_iff split: if_splits)
  have "\<not> e \<longrightarrow> n = None" "e \<and> t \<noteq> None \<longrightarrow> n = t" using n(1) by (auto split: if_splits)
  then show thesis using that [OF n(2)] validate_schedule_Inr [OF t(1)] once by (simp add: schedule_valid_def)
qed

lemma saved_ok:
  assumes "saved_from u n r" and "schedule_valid ch u n" and "(ui_target u = Arc_Coordinator) = (ui_arc u \<noteq> None)"
  shows "routine_ok ch r"
proof -
  have "ro_last_session r \<noteq> None \<longrightarrow> ui_target u = Same_Session" using assms(1) by (auto simp: saved_from_def)
  then show ?thesis using assms unfolding saved_from_def schedule_valid_def routine_ok_def by simp
qed

lemma routine_inv_upsert:
  assumes f: "format_ok ch" and inv: "routine_inv ch S" and u: "upsert_routine ch (now_iso ch now) later u n (ry_db S) = Inr (r, db)"
    and v: "schedule_valid ch u n" and tok: "good_token ch (next_routine_updated_at ch (now_iso ch now) (ry_db S) (ui_id u))"
    and low: "later_id ch now (ui_id u) S" and g: "\<forall>r \<in> set (rd_routines db). good_token ch (ro_updated r)"
    and spent: "spent \<subseteq> {z \<in> ry_spent S. fst z \<noteq> ui_id u}"
  shows "routine_inv ch (S\<lparr>ry_db := db, ry_spent := spent\<rparr>)"
proof (rule routine_inv_edit [OF inv edit_of_upsert [OF f routine_invD(1) [OF inv] tok u] g])
  show "routine_ok ch r" if "r \<in> set (rd_routines db)" "ro_id r = ui_id u" "r \<notin> set (rd_routines (ry_db S))" for r
    using upsert_mem [OF u that(1)] that(2) saved_ok [OF _ v conjunct1 [OF upsert_cases [OF u]]] by blast
qed (use low spent in \<open>auto simp: later_id_def\<close>)

lemma next_run_fits:
  assumes "next_run_from_now ch r now = Inr n" and "ro_once r \<noteq> None"
  shows "n = ro_once r"
  using assms by (auto simp: next_run_from_now_def)

lemma routine_inv_enabled:
  assumes f: "format_ok ch" and inv: "routine_inv ch S" and e: "routines_set_enabled ch now now1 i b (ry_db S) = Inr (r, db)"
    and g: "\<forall>r \<in> set (rd_routines db). good_token ch (ro_updated r)"
  shows "routine_inv ch (S\<lparr>ry_db := db, ry_spent := {z \<in> ry_spent S. fst z \<noteq> i}\<rparr>)"
proof -
  note t = routine_invD(1) [OF inv]
  obtain n where n: "(if b then and_then (find_routine_by_id (ry_db S) i) (\<lambda>existing. next_run_from_now ch existing now) else Inr None) = Inr n"
    "set_routine_enabled ch (now_iso ch now1) i b n (ry_db S) = Inr (r, db)"
    using e by (auto simp: routines_set_enabled_def and_then_Inr_iff)
  let ?g = "\<lambda>r. r\<lparr>ro_enabled := b, ro_next_run := n, ro_last_error := None,
    ro_updated := next_routine_updated_at ch (now_iso ch now1) (ry_db S) i\<rparr>"
  have db: "db = update_routines (\<lambda>r. ro_id r = i) ?g (ry_db S)"
    using n(2) by (auto simp: set_routine_enabled_def Let_def and_then_Inr_iff split: if_splits)
  show ?thesis
  proof (rule routine_inv_touch [OF inv touches_enabled [OF f t n(2)] g])
    fix r' assume r': "r' \<in> set (rd_routines db)" "ro_id r' = i" "r' \<notin> set (rd_routines (ry_db S))"
    obtain q where q: "q \<in> set (rd_routines (ry_db S))" "ro_id q = i" "r' = ?g q"
      using r'(1,3) unfolding db by (blast elim: update_routines_mem)
    have "b \<and> ro_once q \<noteq> None \<longrightarrow> n = ro_once q" "\<not> b \<longrightarrow> n = None"
    proof -
      show "b \<and> ro_once q \<noteq> None \<longrightarrow> n = ro_once q"
      proof (intro impI, elim conjE)
        assume b: b "ro_once q \<noteq> None"
        then obtain p where p: "find_routine_by_id (ry_db S) i = Inr p" "next_run_from_now ch p now = Inr n"
          using n(1) by (auto simp: and_then_Inr_iff)
        have "p = q" using find_routine_mem [OF p(1)] same_row [OF t _ q(1)] q(2) by simp
        then show "n = ro_once q" using next_run_fits [OF p(2)] b(2) by simp
      qed
      show "\<not> b \<longrightarrow> n = None" using n(1) by (cases b) simp_all
    qed
    then show "routine_ok ch r'" using routine_invD(2) [OF inv q(1)] unfolding q(3) routine_ok_def by simp
  qed auto
qed

lemma routine_inv_pointer:
  assumes f: "format_ok ch" and inv: "routine_inv ch S" and e: "set_routine_last_session ch now i s (ry_db S) = Inr db"
    and g: "\<forall>r \<in> set (rd_routines db). good_token ch (ro_updated r)"
    and s: "s \<noteq> None \<Longrightarrow> \<forall>r \<in> set (rd_routines (ry_db S)). ro_id r = i \<longrightarrow> ro_target r = Same_Session"
  shows "routine_inv ch (S\<lparr>ry_db := db\<rparr>)"
proof -
  note t = routine_invD(1) [OF inv]
  have row: "routine_ok ch r' \<and> (\<exists>q \<in> set (rd_routines (ry_db S)). ro_id q = i \<and> ro_enabled q = ro_enabled r' \<and> ro_cron q = ro_cron r' \<and> ro_once q = ro_once r')"
    if r': "r' \<in> set (rd_routines db)" "r' \<notin> set (rd_routines (ry_db S))" for r'
    using e r'(1)
  proof (cases rule: last_session_mem)
    case (1 q)
    then have "s \<noteq> None \<longrightarrow> ro_target q = Same_Session" using s by blast
    then show ?thesis using routine_invD(2) [OF inv 1(1)] 1 unfolding routine_ok_def by (cases s) auto
  qed (use r' in simp)
  have "routine_inv ch (S\<lparr>ry_db := db, ry_spent := ry_spent S\<rparr>)"
  proof (rule routine_inv_touch [OF inv touches_last_session [OF f t e] g])
    fix r' due assume r': "r' \<in> set (rd_routines db)" "ro_id r' = i" "r' \<notin> set (rd_routines (ry_db S))" "(i, due) \<in> ry_spent S"
    show "\<not> (ro_enabled r' \<and> ro_cron r' = None \<and> ro_once r' = Some due)"
    proof -
      obtain q where q: "q \<in> set (rd_routines (ry_db S))" "ro_id q = i" "ro_enabled q = ro_enabled r'" "ro_cron q = ro_cron r'" "ro_once q = ro_once r'"
        using row [OF r'(1,3)] by blast
      then show ?thesis using routine_invD(7) [OF inv r'(4) q(1)] by simp
    qed
  qed (use row in auto)
  then show ?thesis by simp
qed

lemma routine_inv_tables: "rd_routines db = rd_routines (ry_db S) \<Longrightarrow> routine_inv ch S \<Longrightarrow> routine_inv ch (S\<lparr>ry_db := db\<rparr>)"
  by (simp add: routine_inv_def table_ok_def)

lemma routine_inv_wake:
  assumes f: "format_ok ch" and inv: "routine_inv ch S"
    and w: "schedule_same_session_wake ch now1 now2 parent wake (ry_db S) = Inr db" and low: "later_id ch now1 (wk_id wake) S"
    and tok: "good_token ch (next_routine_updated_at ch (now_iso ch now1) (ry_db S) (wk_id wake))"
    and g: "\<forall>r \<in> set (rd_routines db). good_token ch (ro_updated r)"
  shows "routine_inv ch (S\<lparr>ry_db := db, ry_spent := {z \<in> ry_spent S. fst z \<noteq> wk_id wake}\<rparr>)"
proof -
  let ?u = "\<lparr>ui_id = wk_id wake, ui_name = wk_name wake, ui_project = wk_project wake, ui_prompt = wk_prompt wake,
    ui_provider = provider_str (lp_provider parent), ui_model_label = lp_model_label parent, ui_model_id = lp_model_id parent,
    ui_target = Same_Session, ui_arc = None, ui_cron = None, ui_once = Some (wk_run_at wake), ui_enabled = True, ui_author = Agent_Author\<rparr>"
  obtain r db1 where u: "upsert_routine ch (now_iso ch now1) (now_iso ch now1) ?u (Some (wk_run_at wake)) (ry_db S) = Inr (r, db1)"
    and l: "set_routine_last_session ch (now_iso ch now2) (wk_id wake) (Some (lp_session parent)) db1 = Inr db"
    using w by (auto simp: schedule_same_session_wake_def split: sum.splits)
  have "db1 = written_row (next_routine_updated_at ch (now_iso ch now1) (ry_db S) (wk_id wake)) ?u (Some (wk_run_at wake)) (ry_db S)"
    using upsert_cases [OF u] by (simp add: Let_def)
  then have t1: "table_ok ch db1" using written_table_ok [OF routine_invD(1) [OF inv] tok] by simp
  have 1: "routine_inv ch (S\<lparr>ry_db := db1, ry_spent := {z \<in> ry_spent S. fst z \<noteq> wk_id wake}\<rparr>)"
    by (rule routine_inv_upsert [OF f inv u]) (use tok low table_okD(2) [OF t1] in \<open>simp_all add: schedule_valid_def\<close>)
  have "ro_target q = Same_Session" if "q \<in> set (rd_routines db1)" "ro_id q = wk_id wake" for q
    using upsert_mem [OF u that(1)] that(2) by (auto simp: saved_from_def)
  then have "routine_inv ch ((S\<lparr>ry_db := db1, ry_spent := {z \<in> ry_spent S. fst z \<noteq> wk_id wake}\<rparr>)\<lparr>ry_db := db\<rparr>)"
    by (intro routine_inv_pointer [OF f 1]) (use l g in auto)
  then show ?thesis by (cases S) simp
qed

lemma last_session_ids: "set_routine_last_session ch now i s db = Inr db' \<Longrightarrow> map ro_id (rd_routines db') = map ro_id (rd_routines db)"
  by (auto simp: set_routine_last_session_def update_routines_def Let_def split: if_splits)

lemma find_routine_exists: "\<exists>p \<in> set (rd_routines db). ro_id p = i \<Longrightarrow> \<exists>r. find_routine_by_id db i = Inr r"
  by (cases "find (\<lambda>r. ro_id r = i) (rd_routines db)") (auto simp: find_routine_by_id_def find_None_all)

lemma chat_reply_cases:
  assumes "chat_replied ch w ok now1 now2 s reply x db = (st, db')"
  obtains (sent) "send_routine_follow_up (fl_fields x) (fl_provider x) s True reply = Follow_Up_Sent" "st = Fired Recorded"
      "db' = settle_success ch w now1 now2 (fl_fields x) (fl_last_run x) (fl_next x) None db"
  | (over) out where "send_routine_follow_up (fl_fields x) (fl_provider x) s True reply \<noteq> Follow_Up_Sent" "st = Fired out"
      "db' = db \<or> (\<exists>m. db' = settle_failure ch w now1 (fl_fields x) (fl_last_run x) (fl_now x) m db)"
  | (gone) r y where "send_routine_follow_up (fl_fields x) (fl_provider x) s True reply \<noteq> Follow_Up_Sent" "st = In_Flight y"
      "find_routine_by_id db' (fl_id x) = Inr r" "fl_fields y = routine_launch_fields r"
      "set_routine_last_session ch (now_iso ch now1) (fl_id x) None db = Inr db'"
proof (cases "send_routine_follow_up (fl_fields x) (fl_provider x) s True reply")
  case Follow_Up_Missing
  show thesis
  proof (cases "find_routine_by_id db (fl_id x)")
    case (Inl e)
    then show thesis using assms Follow_Up_Missing by (intro over [of Recorded]) (simp_all add: chat_replied_def Let_def)
  next
    case (Inr q)
    show thesis
    proof (cases "ro_updated q \<noteq> rf_updated (fl_fields x) \<or> \<not> ok")
      case True
      then show thesis using assms Follow_Up_Missing Inr by (intro over [of Recorded]) (simp_all add: chat_replied_def Let_def)
    next
      case False
      have id: "ro_id q = fl_id x" using find_routine_mem [OF Inr] by simp
      show thesis
      proof (cases "set_routine_last_session ch (now_iso ch now1) (fl_id x) None db")
        case (Inl e)
        then show thesis using assms Follow_Up_Missing Inr False id by (intro over [of Recorded]) (simp_all add: chat_replied_def Let_def)
      next
        case reset: (Inr db1)
        have "\<exists>p \<in> set (rd_routines db1). ro_id p = fl_id x"
          using find_routine_mem [OF Inr] last_session_ids [OF reset] by (metis in_set_conv_nth length_map nth_map)
        then obtain r where r: "find_routine_by_id db1 (fl_id x) = Inr r" by (metis find_routine_exists)
        show thesis
          by (rule gone [of "x\<lparr>fl_fields := routine_launch_fields r, fl_stage := Launching_Chat\<rparr>" r])
            (use assms Follow_Up_Missing Inr False id reset r in \<open>simp_all add: chat_replied_def Let_def\<close>)
      qed
    qed
  qed
qed (use assms in \<open>auto simp: chat_replied_def Let_def intro: sent over\<close>)

text \<open>A prompt that was delivered, and one that was not.\<close>

lemma delivered_keeps:
  assumes f: "format_ok ch" and inv: "routine_inv ch S" and x: "ry_flights S = a @ x # b"
    and db: "db = settle_success ch w now1 now2 (fl_fields x) l n s (ry_db S)" and s: "s \<noteq> None \<Longrightarrow> rf_target (fl_fields x) = Same_Session"
    and g: "\<forall>r \<in> set (rd_routines db). good_token ch (ro_updated r)"
  shows "routine_inv ch (after_stage (fl_id x) (ry_runs S) (Fired out) a b db
    (ry_spent S \<union> (if sw_retire w then occurrence (fl_fields x) else {})))"
proof (rule over_keeps [OF f inv x])
  note t = routine_invD(1) [OF inv]
  show "touches (fl_id x) (ry_db S) db" unfolding db by (rule touches_success [OF f t])
  show "settles (fl_fields x) (ry_db S) db" unfolding db using s by (rule success_settles)
  have "\<not> (ro_enabled r \<and> ro_cron r = None \<and> ro_once r = Some due)"
    if "sw_retire w" "r \<in> set (rd_routines db)" "rf_once (fl_fields x) = Some due" "ro_id r = fl_id x" for r due
    using success_spends [OF that(1,3) _ that(4) table_okD(1) [OF t]] that(2) unfolding db by blast
  then show "(if sw_retire w then occurrence (fl_fields x) else {}) = {} \<or>
    (if sw_retire w then occurrence (fl_fields x) else {}) = occurrence (fl_fields x) \<and>
      (\<forall>due. \<forall>r \<in> set (rd_routines db). rf_once (fl_fields x) = Some due \<and> ro_id r = fl_id x \<longrightarrow>
        \<not> (ro_enabled r \<and> ro_cron r = None \<and> ro_once r = Some due))"
    by (cases "sw_retire w") auto
qed (rule g)

lemma undelivered_keeps:
  assumes f: "format_ok ch" and inv: "routine_inv ch S" and x: "ry_flights S = a @ x # b"
    and db: "db = ry_db S \<or> (\<exists>m. db = settle_failure ch w now1 (fl_fields x) (fl_last_run x) (fl_now x) m (ry_db S))"
    and g: "\<forall>r \<in> set (rd_routines db). good_token ch (ro_updated r)"
  shows "routine_inv ch (after_stage (fl_id x) (ry_runs S) (Fired out) a b db (ry_spent S))"
proof -
  note t = routine_invD(1) [OF inv]
  have "touches (fl_id x) (ry_db S) db \<and> settles (fl_fields x) (ry_db S) db"
    using db touches_failure [OF f t] failure_settles touches_refl settles_refl by metis
  then show ?thesis using over_keeps [OF f inv x, of db "{}" out] g by simp
qed

lemma routine_inv_coordinator:
  assumes f: "format_ok ch" and inv: "routine_inv ch S" and x: "ry_flights S = a @ x # b"
    and c: "coordinator_replied ch w now1 now2 s reply x (ry_db S) = (out, db)"
    and g: "\<forall>r \<in> set (rd_routines db). good_token ch (ro_updated r)"
  shows "routine_inv ch (after_stage (fl_id x) (ry_runs S) (Fired out) a b db
    (ry_spent S \<union> (if send_routine_follow_up (fl_fields x) (fl_provider x) s False reply = Follow_Up_Sent \<and> sw_retire w
                  then occurrence (fl_fields x) else {})))"
proof (cases "send_routine_follow_up (fl_fields x) (fl_provider x) s False reply = Follow_Up_Sent")
  case True
  then have "db = settle_success ch w now1 now2 (fl_fields x) (fl_last_run x) (fl_next x) None (ry_db S)"
    using c by (simp add: coordinator_replied_def Let_def)
  from delivered_keeps [OF f inv x this _ g, of out] True show ?thesis by simp
next
  case False
  then have "db = ry_db S \<or> (\<exists>m. db = settle_failure ch w now1 (fl_fields x) (fl_last_run x) (fl_now x) m (ry_db S))"
    using c by (auto simp: coordinator_replied_def Let_def split: follow_up_outcome.splits)
  from undelivered_keeps [OF f inv x this g, of out] False show ?thesis by simp
qed

lemma routine_inv_chat:
  assumes f: "format_ok ch" and inv: "routine_inv ch S" and x: "ry_flights S = a @ x # b"
    and c: "chat_replied ch w ok now1 now2 s reply x (ry_db S) = (st, db)"
    and g: "\<forall>r \<in> set (rd_routines db). good_token ch (ro_updated r)"
  shows "routine_inv ch (after_stage (fl_id x) (ry_runs S) st a b db
    (ry_spent S \<union> (if send_routine_follow_up (fl_fields x) (fl_provider x) s True reply = Follow_Up_Sent \<and> sw_retire w
                  then occurrence (fl_fields x) else {})))"
  using c
proof (cases rule: chat_reply_cases)
  case sent
  from delivered_keeps [OF f inv x sent(3) _ g, of Recorded] sent(1,2) show ?thesis by simp
next
  case (over out)
  from undelivered_keeps [OF f inv x over(3) g, of out] over(1,2) show ?thesis by simp
next
  case (gone r y)
  have p: "routine_inv ch (S\<lparr>ry_db := db\<rparr>)" by (rule routine_inv_pointer [OF f inv gone(5) g]) simp
  have r: "r \<in> set (rd_routines (ry_db (S\<lparr>ry_db := db\<rparr>)))" "ro_id r = fl_id x" using find_routine_mem [OF gone(3)] by simp_all
  have e: "after_stage (fl_id x) (ry_runs S) st a b db
      (ry_spent S \<union> (if send_routine_follow_up (fl_fields x) (fl_provider x) s True reply = Follow_Up_Sent \<and> sw_retire w
                    then occurrence (fl_fields x) else {})) =
    \<lparr>ry_db = db, ry_runs = ry_runs S, ry_flights = a @ y # b, ry_spent = ry_spent S\<rparr>"
    using gone(1) unfolding gone(2) after_stage_def by simp
  from routine_inv_moves_on [OF p _ r gone(4), of a b] x show ?thesis unfolding e by simp
qed

lemma routine_inv_launched:
  assumes f: "format_ok ch" and inv: "routine_inv ch S" and x: "ry_flights S = a @ x # b"
    and c: "launch_returned ch w now1 now2 result x (ry_db S) = db"
    and g: "\<forall>r \<in> set (rd_routines db). good_token ch (ro_updated r)"
  shows "routine_inv ch (after_stage (fl_id x) (ry_runs S) (Fired Recorded) a b db
    (ry_spent S \<union> (if is_ok result \<and> sw_retire w then occurrence (fl_fields x) else {})))"
proof (cases result)
  case (Inl e)
  then have "db = settle_failure ch w now1 (fl_fields x) (fl_last_run x) (fl_now x) (error_text e) (ry_db S)"
    using c by (simp add: launch_returned_def Let_def)
  then have "db = ry_db S \<or> (\<exists>m. db = settle_failure ch w now1 (fl_fields x) (fl_last_run x) (fl_now x) m (ry_db S))" by blast
  from undelivered_keeps [OF f inv x this g, of Recorded] Inl show ?thesis by simp
next
  case (Inr session)
  then have "db = settle_success ch w now1 now2 (fl_fields x) (fl_last_run x) (fl_next x)
      (if rf_target (fl_fields x) = Same_Session then Some session else None) (ry_db S)"
    using c by (simp add: launch_returned_def Let_def)
  then have "routine_inv ch (after_stage (fl_id x) (ry_runs S) (Fired Recorded) a b db
      (ry_spent S \<union> (if sw_retire w then occurrence (fl_fields x) else {})))"
    by (rule delivered_keeps [OF f inv x _ _ g]) (simp split: if_splits)
  then show ?thesis using Inr by simp
qed

lemma routine_step_keeps:
  assumes f: "format_ok ch" and inv: "routine_inv ch S" and step: "routine_step ch agent S T"
  shows "routine_inv ch T"
proof -
  have g: "\<forall>r \<in> set (rd_routines (ry_db T)). good_token ch (ro_updated r)" and m: "routine_move ch agent S T"
    using step by (simp_all add: routine_step_def)
  note t = routine_invD(1) [OF inv]
  from m g show ?thesis
  proof (cases rule: routine_move.cases)
    case (save now now1 now2 input r db)
    from save_upserts [OF save(2)] obtain u n where u: "upsert_routine ch (now_iso ch now1) (now_iso ch now2) u n (ry_db S) = Inr (r, db)"
      "ui_id u = sv_id input" "schedule_valid ch u n" by blast
    show ?thesis unfolding save(1)
      by (rule routine_inv_upsert [OF f inv u(1) u(3)]) (use save(1,3,4) g u(2) in simp_all)
  next
    case (enable now now1 i enabled r db)
    show ?thesis unfolding enable(1) by (rule routine_inv_enabled [OF f inv enable(2)]) (use g enable(1) in simp)
  next
    case (reset now i r db)
    then have "set_routine_last_session ch (now_iso ch now) i None (ry_db S) = Inr db"
      by (auto simp: routines_reset_session_def and_then_Inr_iff split: if_splits)
    then show ?thesis unfolding reset(1) by (rule routine_inv_pointer [OF f inv]) (use g reset(1) in simp_all)
  next
    case (remove i db)
    then have "rd_routines db = filter (\<lambda>r. ro_id r \<noteq> i) (rd_routines (ry_db S))" by (auto simp: delete_routine_def split: if_splits)
    then show ?thesis unfolding remove(1) by (rule routine_inv_shrink [OF inv])
  next
    case (wake now1 now2 parent w db)
    show ?thesis unfolding wake(1) by (rule routine_inv_wake [OF f inv wake(2,3,4)]) (use g wake(1) in simp)
  next
    case (world db)
    then show ?thesis using routine_inv_tables [OF _ inv] by simp
  next
    case (drop_project p)
    show ?thesis unfolding drop_project by (rule routine_inv_shrink [OF inv]) (simp add: delete_project_rows_def Let_def)
  next
    case (drop_arc p)
    show ?thesis unfolding drop_arc by (rule routine_inv_shrink [OF inv]) (simp add: delete_arc_rows_def)
  next
    case (tick t' i f' runs w now run now1 now2 st db)
    then obtain r where r: "find_routine_by_id (ry_db S) i = Inr r" "f' = routine_launch_fields r" "i \<notin> ry_runs S" "runs = insert i (ry_runs S)"
      by (auto simp: tick_entry_def try_start_def split: option.splits sum.splits if_splits)
    have db: "ry_db T = db" unfolding tick(1) after_stage_def by (simp split: fire_state.splits)
    from find_routine_mem [OF r(1)] have m: "r \<in> set (rd_routines (ry_db S))" "ro_id r = i" by simp_all
    from fire_keeps [OF f inv m(1) _ tick(3) [unfolded r(2)]] show ?thesis using g db r m(2) unfolding tick(1) by simp
  next
    case (demand i f' runs w now run now1 now2 st db)
    then obtain r where r: "find_routine_by_id (ry_db S) i = Inr r" "f' = routine_launch_fields r" "i \<notin> ry_runs S" "runs = insert i (ry_runs S)"
      by (auto simp: run_now_def try_start_def and_then_Inr_iff split: option.splits if_splits)
    have db: "ry_db T = db" unfolding demand(1) after_stage_def by (simp split: fire_state.splits)
    from find_routine_mem [OF r(1)] have m: "r \<in> set (rd_routines (ry_db S))" "ro_id r = i" by simp_all
    from fire_keeps [OF f inv m(1) _ demand(3) [unfolded r(2)]] show ?thesis using g db r m(2) unfolding demand(1) by simp
  next
    case (coordinator a x b s w now1 now2 reply out db)
    show ?thesis unfolding coordinator(1)
      by (rule routine_inv_coordinator [OF f inv coordinator(2,4)]) (use g coordinator(1) in \<open>simp add: after_stage_def\<close>)
  next
    case (chat a x b s w ok now1 now2 reply st db)
    have db: "ry_db T = db" unfolding chat(1) after_stage_def by (simp split: fire_state.splits)
    show ?thesis unfolding chat(1) by (rule routine_inv_chat [OF f inv chat(2,4)]) (use g db in simp)
  next
    case (launched a x b w now1 now2 result db)
    show ?thesis unfolding launched(1)
      by (rule routine_inv_launched [OF f inv launched(2,4)]) (use g launched(1) in \<open>simp add: after_stage_def\<close>)
  next
    case (cancelled a x b)
    then show ?thesis using routine_inv_ends [OF inv cancelled(2)] by (simp add: after_stage_def)
  next
    case restart
    then show ?thesis using inv by (simp add: routine_inv_def)
  qed
qed

interpretation routines: invariant_system "routine_step ch agent" "\<lambda>S. format_ok ch \<longrightarrow> routine_inv ch S" for ch agent
  by unfold_locales (blast intro: routine_step_keeps)

definition tasks_ok :: "chrono \<Rightarrow> routine_db \<Rightarrow> bool" where
  "tasks_ok ch db \<longleftrightarrow> table_ok ch db \<and> (\<forall>r \<in> set (rd_routines db). routine_ok ch r)"

lemma routine_reachable:
  assumes "format_ok ch" and "tasks_ok ch db" and "(routine_step ch agent)\<^sup>*\<^sup>* (start_routines db) S"
  shows "routine_inv ch S"
  using routines.runs [OF assms(3)] assms(1,2) by (simp add: routine_inv_def start_routines_def tasks_ok_def)

lemma edited_row_survives:
  assumes inv: "routine_inv ch S" and x: "x \<in> set (ry_flights S)" and r: "r \<in> set (rd_routines (ry_db S))" "ro_id r = fl_id x"
    and e: "routine_launch_fields r \<noteq> fl_fields x"
  shows "r \<in> set (rd_routines (settle_failure ch w now1 (fl_fields x) l now m (ry_db S))) \<and>
    (r \<in> set (rd_routines (settle_success ch w now1 now2 (fl_fields x) l n s (ry_db S))) \<or>
     (\<exists>due. rf_once (fl_fields x) = Some due \<and> ro_cron r = None \<and> ro_once r = Some due \<and>
       r\<lparr>ro_enabled := False, ro_next_run := None, ro_last_run := Some l,
         ro_updated := next_routine_updated_at ch (now_iso ch now2) (ry_db S) (fl_id x)\<rparr>
         \<in> set (rd_routines (settle_success ch w now1 now2 (fl_fields x) l n s (ry_db S)))))"
proof
  have token: "ro_updated r \<noteq> rf_updated (fl_fields x)" using routine_invD(6) [OF inv x r] e by blast
  have "p = r" if "p \<in> set (rd_routines (ry_db S))" "ro_id p = fl_id x" for p
    using same_row [OF routine_invD(1) [OF inv] that(1) r(1)] that(2) r(2) by simp
  then have unmarked: "\<not> (ro_id p = fl_id x \<and> ro_updated p = rf_updated (fl_fields x))" if "p \<in> set (rd_routines (ry_db S))" for p
    using that token by blast
  have same: "snd (mark_run ch ok t (fl_fields x) l n' err e s' (ry_db S)) = ry_db S" for ok t n' err e s'
  proof -
    have "fst (mark_run ch ok t (fl_fields x) l n' err e s' (ry_db S)) = False"
      using unmarked by (auto simp: mark_run_def mark_routine_run_def Let_def list_ex_iff)
    then show ?thesis using mark_run_not_recorded [of ch ok t "fl_fields x" l n' err e s' "ry_db S"] by (metis prod.collapse)
  qed
  show "r \<in> set (rd_routines (settle_failure ch w now1 (fl_fields x) l now m (ry_db S)))"
    using r(1) same by (simp add: settle_failure_def)
  show "r \<in> set (rd_routines (settle_success ch w now1 now2 (fl_fields x) l n s (ry_db S))) \<or>
     (\<exists>due. rf_once (fl_fields x) = Some due \<and> ro_cron r = None \<and> ro_once r = Some due \<and>
       r\<lparr>ro_enabled := False, ro_next_run := None, ro_last_run := Some l,
         ro_updated := next_routine_updated_at ch (now_iso ch now2) (ry_db S) (fl_id x)\<rparr>
         \<in> set (rd_routines (settle_success ch w now1 now2 (fl_fields x) l n s (ry_db S))))"
  proof (cases rule: settle_success_cases [of "fl_fields x" ch w now1 now2 l n s "ry_db S"])
    case deleted
    then show ?thesis using unmarked by (auto simp: list_ex_iff)
  next
    case (marked b db')
    then show ?thesis using same r(1) by (metis snd_conv)
  next
    case (retired due)
    show ?thesis unfolding retired(3) retire_fired_one_shot_def update_routines_def Let_def snd_conv
      using r retired(1) by (cases "ro_cron r = None \<and> ro_once r = Some due") force+
  qed
qed

section \<open>Properties\<close>

text \<open>Whatever edits, firings, deletions and restarts the table of tasks goes through, ids stay unique and every
  row keeps one schedule that parses, an Arc exactly when it is for a coordinator, a chat pointer only when it reuses
  a chat, no next run while it is off, and as a one-shot that is on its own time.\<close>

lemma task_rows_stay_well_formed:
  assumes "format_ok ch" and "tasks_ok ch db" and "(routine_step ch agent)\<^sup>*\<^sup>* (start_routines db) S"
  shows "tasks_ok ch (ry_db S)"
  using routine_invD(1,2) [OF routine_reachable [OF assms]] by (simp add: tasks_ok_def)


text \<open>C24: the settlement of a firing leaves a task that was edited since the firing read it exactly as the edit left it,
  except that a delivered one-shot still set to the same time is switched off; and no settlement switches a task on,
  so one that is paused stays paused however it was run.\<close>

theorem edits_survive_a_firing:
  assumes "format_ok ch" and "tasks_ok ch db" and "(routine_step ch agent)\<^sup>*\<^sup>* (start_routines db) S"
    and "x \<in> set (ry_flights S)"
  shows "(r \<in> set (rd_routines (ry_db S)) \<and> ro_id r = fl_id x \<and> routine_launch_fields r \<noteq> fl_fields x \<longrightarrow>
     r \<in> set (rd_routines (settle_failure ch w now1 (fl_fields x) l now m (ry_db S))) \<and>
     (r \<in> set (rd_routines (settle_success ch w now1 now2 (fl_fields x) l n s (ry_db S))) \<or>
      (\<exists>due. rf_once (fl_fields x) = Some due \<and> ro_cron r = None \<and> ro_once r = Some due \<and>
        r\<lparr>ro_enabled := False, ro_next_run := None, ro_last_run := Some l,
          ro_updated := next_routine_updated_at ch (now_iso ch now2) (ry_db S) (fl_id x)\<rparr>
          \<in> set (rd_routines (settle_success ch w now1 now2 (fl_fields x) l n s (ry_db S)))))) \<and>
    (ro_enabled q \<and> (q \<in> set (rd_routines (settle_failure ch w now1 (fl_fields x) l now m (ry_db S))) \<or>
       q \<in> set (rd_routines (settle_success ch w now1 now2 (fl_fields x) l n
         (if rf_target (fl_fields x) = Same_Session then s else None) (ry_db S)))) \<longrightarrow>
     (\<exists>p \<in> set (rd_routines (ry_db S)). ro_id p = ro_id q \<and> ro_enabled p))"
proof (rule conjI; rule impI)
  note inv = routine_reachable [OF assms(1-3)]
  show "r \<in> set (rd_routines (settle_failure ch w now1 (fl_fields x) l now m (ry_db S))) \<and>
     (r \<in> set (rd_routines (settle_success ch w now1 now2 (fl_fields x) l n s (ry_db S))) \<or>
      (\<exists>due. rf_once (fl_fields x) = Some due \<and> ro_cron r = None \<and> ro_once r = Some due \<and>
        r\<lparr>ro_enabled := False, ro_next_run := None, ro_last_run := Some l,
          ro_updated := next_routine_updated_at ch (now_iso ch now2) (ry_db S) (fl_id x)\<rparr>
          \<in> set (rd_routines (settle_success ch w now1 now2 (fl_fields x) l n s (ry_db S)))))"
    if r: "r \<in> set (rd_routines (ry_db S)) \<and> ro_id r = fl_id x \<and> routine_launch_fields r \<noteq> fl_fields x"
    using r edited_row_survives [OF inv assms(4), of r] by simp
  show "\<exists>p \<in> set (rd_routines (ry_db S)). ro_id p = ro_id q \<and> ro_enabled p"
    if q: "ro_enabled q \<and> (q \<in> set (rd_routines (settle_failure ch w now1 (fl_fields x) l now m (ry_db S))) \<or>
      q \<in> set (rd_routines (settle_success ch w now1 now2 (fl_fields x) l n
        (if rf_target (fl_fields x) = Same_Session then s else None) (ry_db S))))"
  proof -
    have "settles (fl_fields x) (ry_db S) (settle_success ch w now1 now2 (fl_fields x) l n
        (if rf_target (fl_fields x) = Same_Session then s else None) (ry_db S))"
      by (rule success_settles) (simp split: if_splits)
    then obtain db' where d: "settles (fl_fields x) (ry_db S) db'" "q \<in> set (rd_routines db')"
      using q failure_settles by blast
    show ?thesis
    proof (cases "q \<in> set (rd_routines (ry_db S))")
      case True
      then show ?thesis using q by blast
    next
      case False
      then obtain p where p: "p \<in> set (rd_routines (ry_db S))" "ro_id p = fl_id x" "settled_from (fl_fields x) p q"
        using d(1) [unfolded settles_def, rule_format, OF d(2)] by auto
      then have "ro_updated p = rf_updated (fl_fields x)" "rf_enabled (fl_fields x)" "ro_id q = ro_id p"
        using q unfolding settled_from_def by blast+
      moreover from this(1) have "routine_launch_fields p = fl_fields x" by (rule routine_invD(6) [OF inv assms(4) p(1,2)])
      then have "ro_enabled p = rf_enabled (fl_fields x)" by (metis routine_launch_fields_def routine_fields.select_convs(13))
      ultimately show ?thesis using p(1) by auto
    qed
  qed
qed

text \<open>A settled firing leaves the task waiting: after a delivery it is not due again before the next time its
  schedule names, which is after the firing, and after a failure not before a quarter of an hour has passed; a task that
  was off, or a one-shot, is not due at all.\<close>

lemma fired_task_waits:
  assumes "format_ok ch" and "cron_ok ch" and "tasks_ok ch db" and "r \<in> set (rd_routines db)"
    and "sw_mark w" and "dated now" and "dated (retry_after now)" and "dated t"
    and "next_occurrence ch (ro_cron r) (ro_once r) now = Inr n" and "list_all dated (case n of None \<Rightarrow> [] | Some u \<Rightarrow> [u])"
    and "ro_id q = ro_id r" and "routine_due (now_iso ch t) q"
  shows "(q \<in> set (rd_routines (settle_success ch w now1 now2 (routine_launch_fields r) l n s db)) \<longrightarrow>
      ro_enabled r \<and> ro_once r = None \<and> (\<exists>u. n = Some u \<and> now < u \<and> u div MILLI \<le> t div MILLI)) \<and>
    (q \<in> set (rd_routines (settle_failure ch w now1 (routine_launch_fields r) l now m db)) \<longrightarrow>
      ro_enabled r \<and> ro_once r = None \<and> retry_after now div MILLI \<le> t div MILLI)"
proof -
  let ?f = "routine_launch_fields r"
  have t: "table_ok ch db" using assms(3) by (simp add: tasks_ok_def)
  have f: "rf_id ?f = ro_id r" "rf_updated ?f = ro_updated r" "rf_enabled ?f = ro_enabled r" "rf_once ?f = ro_once r"
    by (simp_all add: routine_launch_fields_def)
  have due: "ro_enabled q" "\<exists>d. ro_next_run q = Some d \<and> d \<le> now_iso ch t" using assms(12) by (auto simp: routine_due_def split: option.splits)
  have ordered: "u div MILLI \<le> t div MILLI" if "dated u" "ch_format ch u \<le> now_iso ch t" for u
    using assms(1,8) that unfolding format_ok_def now_iso_def by (metis leD leI)
  have only: "p = r" if "p \<in> set (rd_routines db)" "ro_id p = ro_id r" for p using same_row [OF t that(1) assms(4) that(2)] .
  have row: "b \<and> ro_enabled q = e \<and> ro_next_run q = n'"
    if m: "mark_run ch (sw_mark w) t' ?f l n' err e s' db = (b, db')" and q: "q \<in> set (rd_routines db')" for t' n' err e s' b db'
  proof -
    have b: b using m assms(4,5) f by (auto simp: mark_run_def mark_routine_run_def Let_def list_ex_iff)
    have "q \<in> set (rd_routines (snd (mark_routine_run ch (now_iso ch t') ?f l n' err e s' db)))"
      using m q assms(5) by (simp add: mark_run_def)
    then have "ro_enabled q = e \<and> ro_next_run q = n'" unfolding mark_routine_run_def Let_def snd_conv
    proof (cases rule: update_routines_mem)
      case 2
      then show ?thesis using only [of q] assms(11) f by simp
    qed simp
    then show ?thesis using b by simp
  qed
  show ?thesis
  proof (intro conjI impI)
    assume q: "q \<in> set (rd_routines (settle_failure ch w now1 ?f l now m db))"
    obtain b db' where m: "mark_run ch (sw_mark w) now1 ?f l (next_run_at_or_retry ch (stays_scheduled ?f) now) (Some m) (stays_scheduled ?f) None db = (b, db')"
      by fastforce
    have e: "stays_scheduled ?f" "ro_next_run q = Some (ch_format ch (retry_after now))"
      using row [OF m] q m due(1) by (simp_all add: settle_failure_def next_run_at_or_retry_def split: if_splits)
    then show "ro_enabled r" "ro_once r = None" using f by (simp_all add: stays_scheduled_def)
    show "retry_after now div MILLI \<le> t div MILLI" using ordered [OF assms(7)] due(2) e(2) by auto
  next
    assume q: "q \<in> set (rd_routines (settle_success ch w now1 now2 ?f l n s db))"
    have "stays_scheduled ?f \<and> (\<exists>u. n = Some u \<and> ch_format ch u \<le> now_iso ch t)"
    proof (cases rule: settle_success_cases [of ?f ch w now1 now2 l n s db])
      case deleted
      then have "q \<in> set (rd_routines db)" "q \<noteq> r" using q f assms(11) by (auto simp: delete_spent_routine_def)
      then show ?thesis using only assms(11) by blast
    next
      case (marked b db')
      then have e: "ro_enabled q = stays_scheduled ?f" "ro_next_run q = next_run_or_none ch (stays_scheduled ?f) n"
        using row [OF marked(1)] q by simp_all
      then have "stays_scheduled ?f" using due(1) by simp
      then show ?thesis using e(2) due(2) by (auto simp: next_run_or_none_def)
    next
      case (retired d)
      have "q \<in> set (rd_routines (snd (retire_fired_one_shot ch (now_iso ch now2) (rf_id ?f) d l db)))" using q retired(3) by simp
      then have False unfolding retire_fired_one_shot_def Let_def snd_conv
      proof (cases rule: update_routines_mem)
        case 2
        then have "ro_cron r \<noteq> None" "ro_once r = Some d" using only [of q] assms(11) f retired(1) by auto
        then show False using assms(3,4) by (auto simp: tasks_ok_def routine_ok_def)
      qed (use due(1) in simp)
      then show ?thesis ..
    qed
    then obtain u where u: "stays_scheduled ?f" "n = Some u" "ch_format ch u \<le> now_iso ch t" by blast
    then show "ro_enabled r" and once: "ro_once r = None" using f by (simp_all add: stays_scheduled_def)
    obtain e nx where e: "ro_cron r = Some e" "ch_cron ch e = Some nx" "nx now = n"
      using assms(9) once by (auto simp: next_occurrence_def parse_cron_def and_then_Inr_iff split: option.splits)
    have "now < u" using assms(2) e u(2) unfolding cron_ok_def by blast
    moreover have "u div MILLI \<le> t div MILLI" using ordered u(2,3) assms(10) by simp
    ultimately show "\<exists>u. n = Some u \<and> now < u \<and> u div MILLI \<le> t div MILLI" using u(2) by blast
  qed
qed

section \<open>A sample run\<close>

text \<open>A clock that counts milliseconds in unary, and a cron expression that matches every minute.\<close>

definition sample_chrono :: chrono where
  "sample_chrono =
     \<lparr>ch_format = (\<lambda>t. replicate (nat (t div MILLI)) CHR ''a''), ch_parse = (\<lambda>s. Some (int (length s) * MILLI)),
      ch_parse_error = (\<lambda>_. []), ch_naive = (\<lambda>_ _. None), ch_local = (\<lambda>_. None),
      ch_cron = (\<lambda>e. if e = ''0 * * * * *'' then Some (\<lambda>t. Some ((t div (60 * SECOND) + 1) * (60 * SECOND))) else None)\<rparr>"

lemma replicate_less: "m < n \<Longrightarrow> replicate m c < replicate n c"
proof (induction m arbitrary: n)
  case 0
  then show ?case by (cases n) simp_all
next
  case (Suc m)
  then show ?case by (cases n) simp_all
qed

lemma sample_format_ok: "format_ok sample_chrono"
  unfolding format_ok_def
proof (intro conjI allI impI)
  fix s t assume a: "dated s \<and> dated t \<and> s div MILLI < t div MILLI"
  then have "0 \<le> s div MILLI" by (simp add: dated_def MILLI_def pos_imp_zdiv_nonneg_iff)
  then show "ch_format sample_chrono s < ch_format sample_chrono t"
    using a by (auto simp: sample_chrono_def intro: replicate_less)
next
  fix t assume "dated t"
  then have "0 \<le> t div MILLI" by (simp add: dated_def MILLI_def pos_imp_zdiv_nonneg_iff)
  then show "ch_parse sample_chrono (ch_format sample_chrono t) = Some (t div MILLI * MILLI)" by (simp add: sample_chrono_def)
qed

lemma sample_cron_ok: "cron_ok sample_chrono"
  unfolding cron_ok_def
proof (intro allI impI)
  fix e nx t u assume a: "ch_cron sample_chrono e = Some nx \<and> nx t = Some u"
  then have u: "u = (t div (60 * SECOND) + 1) * (60 * SECOND)" by (auto simp: sample_chrono_def split: if_splits)
  have "t < u" unfolding u by (simp add: SECOND_def MILLI_def)
  moreover have "u mod SECOND = 0" unfolding u by (simp add: SECOND_def MILLI_def mod_mult_right_eq [symmetric])
  ultimately show "t < u \<and> u mod SECOND = 0" by simp
qed

definition sample_task :: routine where
  "sample_task =
     \<lparr>ro_id = ''r'', ro_name = ''n'', ro_project = ''p'', ro_prompt = ''go'', ro_provider = ''claude'', ro_model_label = ''m'',
      ro_model_id = ''m'', ro_worktree = False, ro_target = New_Session, ro_last_session = None, ro_arc = None,
      ro_cron = None, ro_once = Some ''aaa'', ro_enabled = True, ro_last_run = None, ro_next_run = Some ''aaa'',
      ro_last_error = None, ro_author = User_Author, ro_created = ''a'', ro_updated = ''a''\<rparr>"

definition sample_tasks :: routine_db where
  "sample_tasks = \<lparr>rd_routines = [sample_task], rd_projects = [''p''], rd_arcs = [], rd_workspace_state = (\<lambda>_. None)\<rparr>"

definition sample_flight :: flight where
  "sample_flight =
     \<lparr>fl_fields = routine_launch_fields sample_task, fl_now = 5 * MILLI, fl_last_run = ''aaaaa'', fl_next = None,
      fl_provider = Claude, fl_permission = AutoApprove, fl_stage = Launching_Chat\<rparr>"

definition sample_fired :: routine_system where
  "sample_fired = \<lparr>ry_db = sample_tasks, ry_runs = {''r''}, ry_flights = [sample_flight], ry_spent = {}\<rparr>"

lemma sample_token: "good_token sample_chrono (replicate n CHR ''a'')" if "n < 1000"
  unfolding good_token_def
  by (rule exI [of _ "int n * MILLI"]) (use that in \<open>simp add: sample_chrono_def dated_def MILLI_def SECOND_def\<close>)

lemma sample_tasks_ok: "tasks_ok sample_chrono sample_tasks"
  using sample_token [of 1] by (simp add: tasks_ok_def table_ok_def sample_tasks_def sample_task_def routine_ok_def)

lemma milli_pos: "0 < MILLI"
  by (simp add: MILLI_def)

lemma sample_time: "ch_format sample_chrono (5 * MILLI) = ''aaaaa''" "ch_format sample_chrono (6 * MILLI) = ''aaaaaa''"
  "ch_parse sample_chrono ''aaa'' = Some (3 * MILLI)"
proof -
  have m: "MILLI \<noteq> 0" by (simp add: MILLI_def)
  have n: "nat 5 = Suc (Suc (Suc (Suc (Suc 0))))" "nat 6 = Suc (Suc (Suc (Suc (Suc (Suc 0)))))" by simp_all
  show "ch_format sample_chrono (5 * MILLI) = ''aaaaa''" "ch_format sample_chrono (6 * MILLI) = ''aaaaaa''"
    unfolding sample_chrono_def by (simp_all add: m n del: nat_numeral)
  show "ch_parse sample_chrono ''aaa'' = Some (3 * MILLI)" by (simp add: sample_chrono_def)
qed

lemma sample_fired_reachable: "(routine_step sample_chrono (\<lambda>_. AutoApprove))\<^sup>*\<^sup>* (start_routines sample_tasks) sample_fired"
proof -
  let ?w = "\<lparr>sw_delete = True, sw_mark = True, sw_retire = True\<rparr>"
  have t: "tick_entry sample_chrono (5 * MILLI) ''r'' {} sample_tasks = Some (routine_launch_fields sample_task, {''r''})"
    by (simp add: tick_entry_def try_start_def find_routine_by_id_def sample_tasks_def sample_task_def now_iso_def sample_time)
  have f: "fire_routine sample_chrono (\<lambda>_. AutoApprove) ?w (5 * MILLI) (5 * MILLI) 0 0 (routine_launch_fields sample_task) sample_tasks =
      (In_Flight sample_flight, sample_tasks)"
    by (simp add: fire_routine_def next_occurrence_def parse_once_at_def routine_launch_fields_def sample_task_def
        sample_flight_def now_iso_def sample_time parse_provider_def Let_def milli_pos)
  have "routine_move sample_chrono (\<lambda>_. AutoApprove) (start_routines sample_tasks) sample_fired"
    using routine_move.tick [where S = "start_routines sample_tasks" and i = "''r''", simplified start_routines_def routine_system.simps, OF t f]
    by (simp add: after_stage_def sample_fired_def start_routines_def)
  then have "routine_step sample_chrono (\<lambda>_. AutoApprove) (start_routines sample_tasks) sample_fired"
    using sample_tasks_ok by (simp add: routine_step_def sample_fired_def tasks_ok_def table_ok_def)
  then show ?thesis by blast
qed

lemma task_rows_stay_well_formed_witness: "tasks_ok sample_chrono (ry_db sample_fired)"
  by (rule task_rows_stay_well_formed [OF sample_format_ok sample_tasks_ok sample_fired_reachable])


text \<open>The task is paused while its launch is under way.\<close>

definition sample_paused :: routine where
  "sample_paused = sample_task\<lparr>ro_enabled := False, ro_next_run := None, ro_updated := ''aaaaaa''\<rparr>"

lemma sample_paused_reachable:
  "(routine_step sample_chrono (\<lambda>_. AutoApprove))\<^sup>*\<^sup>* (start_routines sample_tasks)
     (sample_fired\<lparr>ry_db := sample_tasks\<lparr>rd_routines := [sample_paused]\<rparr>\<rparr>)"
proof -
  have e: "routines_set_enabled sample_chrono (6 * MILLI) (6 * MILLI) ''r'' False (ry_db sample_fired) =
      Inr (sample_paused, sample_tasks\<lparr>rd_routines := [sample_paused]\<rparr>)"
    by (simp add: routines_set_enabled_def set_routine_enabled_def next_routine_updated_at_def find_routine_by_id_def update_routines_def
        sample_fired_def sample_tasks_def sample_task_def sample_paused_def now_iso_def sample_time Let_def)
  have s: "sample_fired\<lparr>ry_db := db, ry_spent := {z \<in> ry_spent sample_fired. fst z \<noteq> ''r''}\<rparr> = sample_fired\<lparr>ry_db := db\<rparr>" for db
    by (simp add: sample_fired_def)
  have "good_token sample_chrono ''aaaaaa''" using sample_token [of 6] by (simp add: numeral_eq_Suc)
  then have "routine_step sample_chrono (\<lambda>_. AutoApprove) sample_fired (sample_fired\<lparr>ry_db := sample_tasks\<lparr>rd_routines := [sample_paused]\<rparr>\<rparr>)"
    using routine_move.enable [OF e, of "\<lambda>_. AutoApprove"] unfolding s by (simp add: routine_step_def sample_paused_def)
  with sample_fired_reachable show ?thesis by (rule rtranclp.rtrancl_into_rtrancl)
qed

theorem edits_survive_a_firing_witness:
  "sample_paused \<in> set (rd_routines (settle_failure sample_chrono \<lparr>sw_delete = True, sw_mark = True, sw_retire = True\<rparr> (5 * MILLI)
     (routine_launch_fields sample_task) ''aaaaa'' (5 * MILLI) ''no'' (sample_tasks\<lparr>rd_routines := [sample_paused]\<rparr>)))"
  using edits_survive_a_firing [OF sample_format_ok sample_tasks_ok sample_paused_reachable, of sample_flight sample_paused
    "\<lparr>sw_delete = True, sw_mark = True, sw_retire = True\<rparr>" "5 * MILLI" "''aaaaa''" "5 * MILLI" "''no''"]
  by (simp add: sample_fired_def sample_flight_def sample_paused_def sample_task_def routine_launch_fields_def)

definition sample_recurring :: routine where
  "sample_recurring = sample_task\<lparr>ro_cron := Some ''0 * * * * *'', ro_once := None\<rparr>"

lemma fired_task_waits_witness:
  "\<exists>u. Some (60 * SECOND) = Some u \<and> 5 * MILLI < u \<and> u div MILLI \<le> (60 * SECOND) div MILLI"
proof -
  let ?db = "sample_tasks\<lparr>rd_routines := [sample_recurring]\<rparr>"
  let ?w = "\<lparr>sw_delete = True, sw_mark = True, sw_retire = True\<rparr>"
  let ?q = "sample_recurring\<lparr>ro_last_run := Some ''aaaaa'', ro_next_run := Some (ch_format sample_chrono (60 * SECOND)),
    ro_updated := next_routine_updated_at sample_chrono (now_iso sample_chrono (5 * MILLI)) ?db ''r''\<rparr>"
  have ok: "tasks_ok sample_chrono ?db"
    using sample_token [of 1]
    by (simp add: tasks_ok_def table_ok_def sample_recurring_def sample_task_def routine_ok_def) (simp add: sample_chrono_def)
  have n: "next_occurrence sample_chrono (ro_cron sample_recurring) (ro_once sample_recurring) (5 * MILLI) = Inr (Some (60 * SECOND))"
    by (simp add: next_occurrence_def parse_cron_def sample_chrono_def sample_recurring_def SECOND_def MILLI_def)
  have q: "?q \<in> set (rd_routines (settle_success sample_chrono ?w (5 * MILLI) 0 (routine_launch_fields sample_recurring) ''aaaaa''
      (Some (60 * SECOND)) None ?db))"
    by (simp add: settle_success_def mark_run_def mark_routine_run_def update_routines_def routine_launch_fields_def stays_scheduled_def
        next_run_or_none_def sample_recurring_def sample_task_def Let_def)
  have d: "dated (5 * MILLI)" "dated (retry_after (5 * MILLI))" "dated (60 * SECOND)"
    by (simp_all add: dated_def retry_after_def RETRY_BACKOFF_MINUTES_def SECOND_def MILLI_def)
  show ?thesis
    using fired_task_waits [OF sample_format_ok sample_cron_ok ok _ _ d(1-3) n, of ?w ?q "5 * MILLI" 0 "''aaaaa''" None] q d(3)
    by (simp add: sample_recurring_def sample_task_def routine_due_def now_iso_def)
qed

end
