(* ===== verification/Notice_Text.thy ===== *)
theory Notice_Text
  imports Inbox Pending_Messages
begin

text \<open>
  The texts of completion notices (\<^verbatim>\<open>providers/completion_notices.rs\<close>): how a long answer is cut, the sentence
  above it, and the one message that stands for the results of several sessions. Texts are UTF-8 bytes; the time zone
  is the argument \<open>local\<close>.
\<close>

section \<open>Cutting an answer\<close>

definition NOTICE_ANSWER_CHARS :: nat where "NOTICE_ANSWER_CHARS = 4 * 1024"
definition NOTICE_LEARNINGS_CHARS :: nat where "NOTICE_LEARNINGS_CHARS = 2 * 1024"
definition LEARNINGS_HEADING :: string where "LEARNINGS_HEADING = ''Learnings for the arc''"
definition USER_TURN_DIGEST_QUIET_SECS :: nat where "USER_TURN_DIGEST_QUIET_SECS = 900"
definition MAX_BATCH_MEMBERS :: nat where "MAX_BATCH_MEMBERS = 20"
definition POINTER_LABEL_CHARS :: nat where "POINTER_LABEL_CHARS = 80"
definition BATCH_POINTER_RESERVE :: nat where "BATCH_POINTER_RESERVE = 400"
definition COMPLETION_KIND :: string where "COMPLETION_KIND = ''completion''"

definition ellipsis :: string where "ellipsis = [CHR 0xE2, CHR 0x80, CHR 0xA6]"

text \<open>\<^verbatim>\<open>split_inclusive('\n')\<close>: every piece but perhaps the last ends with its line feed.\<close>

fun split_inclusive :: "string \<Rightarrow> string list" where
  "split_inclusive [] = []"
| "split_inclusive (c # cs) =
     (if c = newline then [c] # split_inclusive cs
      else (case split_inclusive cs of [] \<Rightarrow> [[c]] | p # ps \<Rightarrow> (c # p) # ps))"

text \<open>What comes before the last line feed, if there is one.\<close>

fun before_last_newline :: "string \<Rightarrow> string option" where
  "before_last_newline [] = None"
| "before_last_newline (c # cs) =
     (case before_last_newline cs of Some p \<Rightarrow> Some (c # p) | None \<Rightarrow> if c = newline then Some [] else None)"

text \<open>\<^verbatim>\<open>trim_start_matches\<close> and \<^verbatim>\<open>trim_end_matches\<close> of a non-empty pattern, by fuel.\<close>

fun trim_start_matches :: "nat \<Rightarrow> string \<Rightarrow> string \<Rightarrow> string" where
  "trim_start_matches 0 p s = s"
| "trim_start_matches (Suc n) p s = (if starts_with s p then trim_start_matches n p (drop (length p) s) else s)"

definition trim_prefixes :: "string \<Rightarrow> string \<Rightarrow> string" where
  "trim_prefixes p s = trim_start_matches (length s) p s"

definition trim_suffixes :: "string \<Rightarrow> string \<Rightarrow> string" where
  "trim_suffixes p s = rev (trim_start_matches (length s) (rev p) (rev s))"

definition ascii_fold :: "char \<Rightarrow> char" where
  "ascii_fold c = (let b = (of_char c :: nat) in if 65 \<le> b \<and> b \<le> 90 then char_of (b + 32) else c)"

definition eq_ignore_ascii_case :: "string \<Rightarrow> string \<Rightarrow> bool" where
  "eq_ignore_ascii_case s t \<longleftrightarrow> map ascii_fold s = map ascii_fold t"

definition is_learnings_heading :: "string \<Rightarrow> bool" where
  "is_learnings_heading l =
     (let l = trim l;
          l = trim (trim_prefixes ''#'' l);
          l = trim (trim_suffixes ''**'' (trim_prefixes ''**'' l));
          l = trim (rev (dropWhile (\<lambda>c. c \<in> {CHR '':'', CHR ''.''}) (rev l)))
      in eq_ignore_ascii_case l LEARNINGS_HEADING)"

fun heading_at :: "nat \<Rightarrow> nat \<Rightarrow> string list \<Rightarrow> nat option" where
  "heading_at start after [] = None"
| "heading_at start after (l # ls) =
     (if start \<ge> after \<and> is_learnings_heading l then Some start else heading_at (start + length l) after ls)"

definition learnings_offset :: "string \<Rightarrow> nat \<Rightarrow> nat option" where
  "learnings_offset answer after = heading_at 0 after (split_inclusive answer)"

definition char_offset :: "string \<Rightarrow> nat \<Rightarrow> nat" where
  "char_offset s n = length (take_chars n s)"

definition cap_learnings_section :: "string \<Rightarrow> string" where
  "cap_learnings_section section =
     (if char_count section \<le> NOTICE_LEARNINGS_CHARS then section
      else trim_end (take (char_offset section NOTICE_LEARNINGS_CHARS) section) @ [newline, newline] @ ''(truncated)'')"

definition cap_notice_answer :: "string \<Rightarrow> string" where
  "cap_notice_answer answer =
     (if char_count answer \<le> NOTICE_ANSWER_CHARS then answer
      else
        (let cut = char_offset answer NOTICE_ANSWER_CHARS;
             head = trim_end (case before_last_newline (take cut answer) of Some p \<Rightarrow> p | None \<Rightarrow> take cut answer)
         in case learnings_offset answer cut of
              Some start \<Rightarrow> head @ [newline, newline] @ ''('' @ ellipsis @ '' middle truncated '' @ ellipsis @ '')'' @ [newline, newline] @
                cap_learnings_section (drop start answer)
            | None \<Rightarrow> head @ [newline, newline] @ ''(truncated)''))"

section \<open>The sentence above it\<close>

record direct_exchanges =
  de_count :: nat
  de_since :: string

datatype notice_shape = Finished_Turn "direct_exchanges option" | User_Turn_Digest direct_exchanges

definition notice_body :: "(string \<Rightarrow> string) \<Rightarrow> notice_shape \<Rightarrow> string \<Rightarrow> string \<Rightarrow> session_state \<Rightarrow> string \<Rightarrow> string \<Rightarrow> string" where
  "notice_body local shape x name state t answer =
     (case shape of
        Finished_Turn direct \<Rightarrow>
          ''Session '' @ x @ '' ('' @ name @ '') finished with state '' @ session_state_str state @ '' at '' @ local t @ ''.'' @
          (case direct of None \<Rightarrow> []
           | Some e \<Rightarrow> '' (the user also had '' @ nat_text (de_count e) @ '' direct exchange(s) with it since '' @ de_since e @ '')'') @
          '' Final answer:'' @ [newline] @ answer
      | User_Turn_Digest e \<Rightarrow>
          ''Session '' @ x @ '' ('' @ name @ '') answered the user directly '' @ nat_text (de_count e) @ '' time(s) since '' @ de_since e @
          '' and has been quiet for '' @ nat_text (USER_TURN_DIGEST_QUIET_SECS div 60) @ '' minutes; latest answer at '' @ local t @
          '':'' @ [newline] @ answer)"

text \<open>A turn is the user's own unless it is the first or its prompt carries an origin or a starter.\<close>

definition turn_was_user_driven :: "json \<Rightarrow> bool \<Rightarrow> bool" where
  "turn_was_user_driven payload is_first \<longleftrightarrow>
     \<not> is_first \<and> json_get ''origin'' payload = None \<and> json_get ''starter'' payload = None"

section \<open>One message for several\<close>

record completion_notice =
  cn_id :: string
  cn_to :: string
  cn_body :: string
  cn_origin :: message_origin

definition capped_label :: "string \<Rightarrow> string" where
  "capped_label l =
     (let l = map (\<lambda>c. if c \<in> {newline, carriage_return} then CHR '' '' else c) (trim l)
      in if char_count l \<le> POINTER_LABEL_CHARS then l else take_chars (POINTER_LABEL_CHARS - 3) l @ ''...'')"

definition batch_section :: "nat \<Rightarrow> nat \<Rightarrow> completion_notice \<Rightarrow> string" where
  "batch_section k n c = [newline] @ ''--- '' @ nat_text k @ ''/'' @ nat_text n @ '' ---'' @ [newline] @ cn_body c @ [newline]"

definition batch_pointer :: "nat \<Rightarrow> nat \<Rightarrow> completion_notice \<Rightarrow> string" where
  "batch_pointer k n c =
     [newline] @ ''--- '' @ nat_text k @ ''/'' @ nat_text n @ '' ---'' @ [newline] @ ''Session '' @ mo_session (cn_origin c) @ '' ('' @
     capped_label (mo_label (cn_origin c)) @
     '') finished. Its result did not fit in this message. Read it with session_read on session '' @ mo_session (cn_origin c) @
     ''.'' @ [newline]"

text \<open>The sections of the results from the \<open>k\<close>th on, after \<open>used\<close> characters.\<close>

fun batch_sections :: "nat \<Rightarrow> nat \<Rightarrow> nat \<Rightarrow> completion_notice list \<Rightarrow> string" where
  "batch_sections n k used [] = []"
| "batch_sections n k used (c # cs) =
     (let full = batch_section k n c;
          chosen = (if used + char_count full + BATCH_POINTER_RESERVE * length cs \<le> MAX_MESSAGE_BODY_CHARS then full
                    else batch_pointer k n c)
      in chosen @ batch_sections n (k + 1) (used + char_count chosen) cs)"

definition batch_heading :: "nat \<Rightarrow> string" where
  "batch_heading n =
     nat_text n @ '' sessions you launched finished within a few seconds of each other. Each result below keeps its own finish time.'' @ [newline]"

text \<open>An empty batch would panic.\<close>

definition batch_notice :: "completion_notice list \<Rightarrow> completion_notice option" where
  "batch_notice cs =
     (case cs of [] \<Rightarrow> None
      | first # _ \<Rightarrow>
          (let n = length cs;
               heading = batch_heading n;
               i = ''completion-batch:'' @ cn_to first @ '':'' @ cn_id first
           in Some \<lparr>cn_id = i, cn_to = cn_to first, cn_body = heading @ batch_sections n 1 (char_count heading) cs,
                    cn_origin = \<lparr>mo_session = mo_session (cn_origin first), mo_label = nat_text n @ '' launched sessions'',
                                 mo_kind = COMPLETION_KIND, mo_message_id = Some i\<rparr>\<rparr>))"

section \<open>Bounds\<close>

declare char_count_append [simp]

lemma char_count_Nil [simp]: "char_count [] = 0"
  by (simp add: char_count_def)

lemma char_count_le_length: "char_count s \<le> length s"
  by (simp add: char_count_def)

lemma char_count_prefix: "s = a @ b \<Longrightarrow> char_count a \<le> char_count s"
  by simp

lemma char_count_take: "char_count (take n s) \<le> char_count s"
  by (rule char_count_prefix [where b = "drop n s"]) (simp only: append_take_drop_id)

lemma strip_leading_suffix: "\<exists>p. s = p @ strip_leading seqs s"
proof (induction seqs s rule: strip_leading.induct)
  case (1 seqs s)
  show ?case
  proof (cases "leading_space seqs s = 0 \<or> s = []")
    case True
    then show ?thesis by (auto simp: strip_leading.simps [of seqs s] Let_def)
  next
    case False
    then obtain p where p: "drop (leading_space seqs s) s = p @ strip_leading seqs (drop (leading_space seqs s) s)"
      using "1" [OF refl] by blast
    have "s = take (leading_space seqs s) s @ p @ strip_leading seqs (drop (leading_space seqs s) s)"
      by (simp flip: p)
    moreover have "strip_leading seqs s = strip_leading seqs (drop (leading_space seqs s) s)"
      using False by (simp add: strip_leading.simps [of seqs s] Let_def)
    ultimately show ?thesis by (metis append_assoc)
  qed
qed

lemma trim_end_prefix: "\<exists>t. s = trim_end s @ t"
proof -
  obtain seqs where t: "trim_end s = rev (strip_leading seqs (rev s))" unfolding trim_end_def by blast
  obtain p where "rev s = p @ strip_leading seqs (rev s)" using strip_leading_suffix by blast
  then have "s = rev (strip_leading seqs (rev s)) @ rev p" by (metis rev_append rev_rev_ident)
  then show ?thesis using t by auto
qed

lemma char_count_trim_end: "char_count (trim_end s) \<le> char_count s"
  using trim_end_prefix [of s] char_count_prefix by blast

lemma nat_text_short: "k < 100 \<Longrightarrow> char_count (nat_text k) \<le> 2"
proof -
  assume k: "k < 100"
  have "length (nat_text k) \<le> 2"
  proof (cases "k < 10")
    case True
    then show ?thesis by (subst nat_text.simps) simp
  next
    case False
    then have "nat_text k = nat_text (k div 10) @ [digit_char (k mod 10)]" by (simp add: nat_text.simps [of k])
    moreover have "k div 10 < 10" using k by simp
    then have "nat_text (k div 10) = [digit_char (k div 10)]" by (simp add: nat_text.simps [of "k div 10"])
    ultimately show ?thesis by simp
  qed
  then show ?thesis using char_count_le_length [of "nat_text k"] by simp
qed

text \<open>A pointer line fits its reserve when the session id is of an ordinary length.\<close>

lemma capped_label_short: "char_count (capped_label l) \<le> POINTER_LABEL_CHARS"
proof -
  have "char_count (take_chars (POINTER_LABEL_CHARS - 3) m @ ''...'') \<le> POINTER_LABEL_CHARS" for m
    using take_chars_count [of "POINTER_LABEL_CHARS - 3" m] char_count_le_length [of "''...''"]
    by (simp add: POINTER_LABEL_CHARS_def)
  then show ?thesis by (simp add: capped_label_def Let_def)
qed

definition short_ids :: "completion_notice \<Rightarrow> bool" where
  "short_ids c \<longleftrightarrow> char_count (mo_session (cn_origin c)) \<le> 64"

lemma batch_pointer_short:
  assumes "k \<le> MAX_BATCH_MEMBERS" and "n \<le> MAX_BATCH_MEMBERS" and "short_ids c"
  shows "char_count (batch_pointer k n c) \<le> BATCH_POINTER_RESERVE"
proof -
  have "char_count (nat_text k) \<le> 2" "char_count (nat_text n) \<le> 2"
    using assms(1,2) by (auto intro!: nat_text_short simp: MAX_BATCH_MEMBERS_def)
  moreover have "char_count (mo_session (cn_origin c)) \<le> 64" using assms(3) by (simp add: short_ids_def)
  moreover have "char_count (capped_label (mo_label (cn_origin c))) \<le> 80"
    using capped_label_short [of "mo_label (cn_origin c)"] by (simp add: POINTER_LABEL_CHARS_def)
  moreover have "char_count '') finished. Its result did not fit in this message. Read it with session_read on session '' \<le> 100"
    "char_count ''Session '' \<le> 10" "char_count ''--- '' \<le> 4" "char_count '' ---'' \<le> 4" "char_count ''/'' \<le> 1"
    "char_count '' ('' \<le> 2" "char_count ''.'' \<le> 1" "char_count [newline] \<le> 1"
    by (rule order_trans [OF char_count_le_length], simp)+
  ultimately show ?thesis unfolding batch_pointer_def BATCH_POINTER_RESERVE_def char_count_append by linarith
qed

lemma batch_heading_short: "n \<le> MAX_BATCH_MEMBERS \<Longrightarrow> char_count (batch_heading n) \<le> 200"
proof -
  assume n: "n \<le> MAX_BATCH_MEMBERS"
  have "char_count (nat_text n) \<le> 2" using n by (auto intro!: nat_text_short simp: MAX_BATCH_MEMBERS_def)
  moreover have "char_count '' sessions you launched finished within a few seconds of each other. Each result below keeps its own finish time.'' \<le> 150"
    "char_count [newline] \<le> 1"
    by (rule order_trans [OF char_count_le_length], simp)+
  ultimately show ?thesis unfolding batch_heading_def char_count_append by linarith
qed

text \<open>Every result of a batch is there, whole or as a pointer, and a reserve for the rest is kept at each.\<close>

lemma batch_sections_fit:
  assumes "n \<le> MAX_BATCH_MEMBERS" and "k + length cs = n + 1" and "list_all short_ids cs"
    and "used + BATCH_POINTER_RESERVE * length cs \<le> MAX_MESSAGE_BODY_CHARS"
  shows "used + char_count (batch_sections n k used cs) \<le> MAX_MESSAGE_BODY_CHARS"
  using assms
proof (induction cs arbitrary: k used)
  case (Cons c cs)
  define chosen where "chosen = (if used + char_count (batch_section k n c) + BATCH_POINTER_RESERVE * length cs \<le> MAX_MESSAGE_BODY_CHARS
    then batch_section k n c else batch_pointer k n c)"
  have "k \<le> MAX_BATCH_MEMBERS" using Cons.prems by simp
  then have "char_count (batch_pointer k n c) \<le> BATCH_POINTER_RESERVE" using Cons.prems by (intro batch_pointer_short) auto
  then have "used + char_count chosen + BATCH_POINTER_RESERVE * length cs \<le> MAX_MESSAGE_BODY_CHARS"
    using Cons.prems(4) by (auto simp: chosen_def)
  then have "used + char_count chosen + char_count (batch_sections n (k + 1) (used + char_count chosen) cs) \<le> MAX_MESSAGE_BODY_CHARS"
    using Cons.prems by (intro Cons.IH) auto
  moreover have "batch_sections n k used (c # cs) = chosen @ batch_sections n (k + 1) (used + char_count chosen) cs"
    by (simp add: Let_def chosen_def)
  ultimately show ?case by (simp only: char_count_append add.assoc)
qed simp

definition part_of_batch :: "nat \<Rightarrow> nat \<times> bool \<times> completion_notice \<Rightarrow> string" where
  "part_of_batch n = (\<lambda>(k, whole, c). if whole then batch_section k n c else batch_pointer k n c)"

lemma batch_sections_parts:
  "\<exists>whole. length whole = length cs \<and>
     batch_sections n k used cs = concat (map (part_of_batch n) (zip [k..<k + length cs] (zip whole cs)))"
proof (induction cs arbitrary: k used)
  case (Cons c cs)
  define full where "full \<longleftrightarrow> used + char_count (batch_section k n c) + BATCH_POINTER_RESERVE * length cs \<le> MAX_MESSAGE_BODY_CHARS"
  define chosen where "chosen = part_of_batch n (k, full, c)"
  obtain whole where w: "length whole = length cs"
    "batch_sections n (k + 1) (used + char_count chosen) cs = concat (map (part_of_batch n) (zip [k + 1..<k + 1 + length cs] (zip whole cs)))"
    using Cons.IH [of "k + 1" "used + char_count chosen"] by blast
  have "batch_sections n k used (c # cs) = chosen @ batch_sections n (k + 1) (used + char_count chosen) cs"
    by (simp add: Let_def chosen_def full_def part_of_batch_def)
  moreover have "[k..<k + length (c # cs)] = k # [k + 1..<k + 1 + length cs]" by (simp add: upt_conv_Cons del: upt_Suc)
  ultimately show ?case using w by (intro exI [where x = "full # whole"]) (simp add: chosen_def del: upt_Suc)
qed simp

text \<open>C28: A batch of at most twenty results is stored as it is: its row is within the inbox's limit, so nothing is cut
  off, and it holds for every result, in order, either the whole result or the line that names its session.\<close>

theorem batch_keeps_every_result:
  assumes "cs \<noteq> []" and "length cs \<le> MAX_BATCH_MEMBERS" and "list_all short_ids cs" and "batch_notice cs = Some b"
  shows "cap_message_body (cn_body b) = cn_body b \<and>
    (\<exists>whole. length whole = length cs \<and>
       cn_body b = batch_heading (length cs) @
         concat (map (part_of_batch (length cs)) (zip [1..<1 + length cs] (zip whole cs))))"
proof -
  let ?n = "length cs" and ?h = "batch_heading (length cs)"
  have body: "cn_body b = ?h @ batch_sections ?n 1 (char_count ?h) cs"
    using assms(1,4) by (cases cs) (auto simp: batch_notice_def Let_def)
  have "char_count ?h + BATCH_POINTER_RESERVE * ?n \<le> MAX_MESSAGE_BODY_CHARS"
    using batch_heading_short [OF assms(2)] assms(2)
    by (simp add: BATCH_POINTER_RESERVE_def MAX_BATCH_MEMBERS_def MAX_MESSAGE_BODY_CHARS_def)
  then have "char_count ?h + char_count (batch_sections ?n 1 (char_count ?h) cs) \<le> MAX_MESSAGE_BODY_CHARS"
    using assms(2,3) by (intro batch_sections_fit) auto
  then have "cap_message_body (cn_body b) = cn_body b" by (simp add: cap_message_body_def body)
  moreover obtain whole where "length whole = ?n"
    "batch_sections ?n 1 (char_count ?h) cs = concat (map (part_of_batch ?n) (zip [1..<1 + ?n] (zip whole cs)))"
    using batch_sections_parts by blast
  ultimately show ?thesis unfolding body by (intro conjI exI [where x = whole]) simp_all
qed


definition sample_result :: "string \<Rightarrow> completion_notice" where
  "sample_result x = \<lparr>cn_id = x, cn_to = ''l'', cn_body = x @ '' is ready'',
     cn_origin = \<lparr>mo_session = x, mo_label = ''fix'', mo_kind = COMPLETION_KIND, mo_message_id = Some x\<rparr>\<rparr>"

theorem batch_keeps_every_result_witness:
  "cap_message_body (cn_body (the (batch_notice [sample_result ''a'', sample_result ''b'']))) =
   cn_body (the (batch_notice [sample_result ''a'', sample_result ''b'']))"
proof -
  have "batch_notice [sample_result ''a'', sample_result ''b''] = Some (the (batch_notice [sample_result ''a'', sample_result ''b'']))"
    by (simp add: batch_notice_def Let_def)
  moreover have "list_all short_ids [sample_result ''a'', sample_result ''b'']"
    by (simp add: short_ids_def sample_result_def char_count_def)
  ultimately show ?thesis
    using batch_keeps_every_result [of "[sample_result ''a'', sample_result ''b'']"] by (simp add: MAX_BATCH_MEMBERS_def)
qed

section \<open>What a cut answer keeps\<close>

lemma split_inclusive_concat: "concat (split_inclusive s) = s"
  by (induction s rule: split_inclusive.induct) (auto split: list.splits)

lemma heading_at_found:
  "heading_at start after ls = Some k \<Longrightarrow>
     \<exists>a l b. ls = a @ l # b \<and> is_learnings_heading l \<and> k = start + length (concat a) \<and> after \<le> k"
proof (induction ls arbitrary: start)
  case (Cons l ls)
  show ?case
  proof (cases "start \<ge> after \<and> is_learnings_heading l")
    case True
    then show ?thesis using Cons.prems by (intro exI [where x = "[]"] exI [where x = l] exI [where x = ls]) auto
  next
    case False
    then have "heading_at (start + length l) after ls = Some k" using Cons.prems by (simp add: if_not_P split: if_splits)
    then obtain a m b where "ls = a @ m # b" "is_learnings_heading m" "k = start + length l + length (concat a)" "after \<le> k"
      using Cons.IH by blast
    then show ?thesis by (intro exI [where x = "l # a"] exI [where x = m] exI [where x = b]) auto
  qed
qed simp

lemma learnings_found:
  assumes "learnings_offset a after = Some k"
  shows "after \<le> k \<and> (\<exists>l rest. drop k a = l @ rest \<and> is_learnings_heading l)"
proof -
  obtain x l b where s: "split_inclusive a = x @ l # b" "is_learnings_heading l" "k = length (concat x)" "after \<le> k"
    using heading_at_found [of 0 after "split_inclusive a" k] assms by (auto simp: learnings_offset_def)
  have "a = concat x @ l @ concat b" using split_inclusive_concat [of a] s(1) by simp
  then have "drop k a = l @ concat b" using s(3) by simp
  then show ?thesis using s(2,4) by blast
qed

lemma before_last_newline_prefix: "before_last_newline s = Some p \<Longrightarrow> \<exists>t. s = p @ t"
  by (induction s arbitrary: p) (auto split: option.splits if_splits)

lemma char_offset_prefix: "take (char_offset s n) s = take_chars n s"
  unfolding char_offset_def using take_chars_prefix [of s n] by (metis append_eq_conv_conj)

lemma cap_learnings_short: "char_count (cap_learnings_section s) \<le> NOTICE_LEARNINGS_CHARS + 13"
proof -
  have "char_count (trim_end (take (char_offset s NOTICE_LEARNINGS_CHARS) s)) \<le> NOTICE_LEARNINGS_CHARS"
    using char_count_trim_end take_chars_count char_offset_prefix by (metis order_trans)
  moreover have "char_count ([newline, newline] @ ''(truncated)'') \<le> 13"
    by (rule order_trans [OF char_count_le_length]) simp
  ultimately show ?thesis unfolding cap_learnings_section_def by (simp only: char_count_append split: if_splits) simp
qed

definition notice_head :: "string \<Rightarrow> string" where
  "notice_head a =
     (let kept = take (char_offset a NOTICE_ANSWER_CHARS) a
      in trim_end (case before_last_newline kept of Some p \<Rightarrow> p | None \<Rightarrow> kept))"

lemma notice_head_prefix: "\<exists>t. take_chars NOTICE_ANSWER_CHARS a = notice_head a @ t"
proof -
  let ?k = "take_chars NOTICE_ANSWER_CHARS a"
  obtain p where p: "notice_head a = trim_end p" "p = ?k \<or> before_last_newline ?k = Some p"
    by (auto simp: notice_head_def Let_def char_offset_prefix split: option.splits)
  obtain t where "?k = p @ t" using p(2) before_last_newline_prefix by auto
  moreover obtain u where "p = trim_end p @ u" using trim_end_prefix by blast
  ultimately show ?thesis using p(1) by (metis append_assoc)
qed

lemma cap_long_answer:
  "char_count a > NOTICE_ANSWER_CHARS \<Longrightarrow>
   cap_notice_answer a = notice_head a @
     (case learnings_offset a (char_offset a NOTICE_ANSWER_CHARS) of
        Some k \<Rightarrow> [newline, newline] @ ''('' @ ellipsis @ '' middle truncated '' @ ellipsis @ '')'' @ [newline, newline] @ cap_learnings_section (drop k a)
      | None \<Rightarrow> [newline, newline] @ ''(truncated)'')"
  by (simp add: cap_notice_answer_def notice_head_def Let_def split: option.splits)

text \<open>An answer too long for a notice keeps its beginning, at most the first 4096 characters, and, when a learnings
  section starts after the cut, that section too, itself cut at 2048 characters; the notice's answer is never longer
  than both and the two marks.\<close>

lemma capped_answer_keeps_learnings:
  assumes "char_count a > NOTICE_ANSWER_CHARS"
  shows "char_count (cap_notice_answer a) \<le> NOTICE_ANSWER_CHARS + NOTICE_LEARNINGS_CHARS + 48 \<and>
    (\<exists>head rest tail. a = head @ rest \<and> cap_notice_answer a = head @ tail \<and> char_count head \<le> NOTICE_ANSWER_CHARS \<and>
       (case learnings_offset a (char_offset a NOTICE_ANSWER_CHARS) of
          None \<Rightarrow> tail = [newline, newline] @ ''(truncated)''
        | Some k \<Rightarrow> length head \<le> k \<and> (\<exists>l more. drop k a = l @ more \<and> is_learnings_heading l) \<and>
            (\<exists>mark. tail = mark @ cap_learnings_section (drop k a))))"
proof -
  let ?k = "char_offset a NOTICE_ANSWER_CHARS" and ?h = "notice_head a"
  obtain t where t: "take_chars NOTICE_ANSWER_CHARS a = ?h @ t" using notice_head_prefix by blast
  obtain u where u: "a = take_chars NOTICE_ANSWER_CHARS a @ u" using take_chars_prefix by blast
  have head: "char_count ?h \<le> NOTICE_ANSWER_CHARS"
    using char_count_prefix [OF t] take_chars_count [of NOTICE_ANSWER_CHARS a] by simp
  have len: "length ?h \<le> ?k" using t by (simp add: char_offset_def)
  have split: "a = ?h @ t @ u" using t u by simp
  show ?thesis
  proof (cases "learnings_offset a ?k")
    case None
    have "char_count ([newline, newline] @ ''(truncated)'') \<le> 13" by (rule order_trans [OF char_count_le_length]) simp
    then have "char_count (cap_notice_answer a) \<le> NOTICE_ANSWER_CHARS + NOTICE_LEARNINGS_CHARS + 48"
      unfolding cap_long_answer [OF assms] None char_count_append option.case using head by linarith
    then show ?thesis unfolding cap_long_answer [OF assms] None option.case using head split by blast
  next
    case (Some k)
    have "char_count ([newline, newline] @ ''('' @ ellipsis @ '' middle truncated '' @ ellipsis @ '')'' @ [newline, newline]) \<le> 34"
      by (rule order_trans [OF char_count_le_length]) (simp add: ellipsis_def)
    then have "char_count (cap_notice_answer a) \<le> NOTICE_ANSWER_CHARS + NOTICE_LEARNINGS_CHARS + 48"
      unfolding cap_long_answer [OF assms] Some char_count_append option.case
      using head cap_learnings_short [of "drop k a"] by linarith
    moreover have "length ?h \<le> k" "\<exists>l more. drop k a = l @ more \<and> is_learnings_heading l"
      using learnings_found [OF Some] len by simp_all
    moreover have "\<exists>mark. [newline, newline] @ ''('' @ ellipsis @ '' middle truncated '' @ ellipsis @ '')'' @ [newline, newline] @
        cap_learnings_section (drop k a) = mark @ cap_learnings_section (drop k a)"
      by (metis append_assoc)
    ultimately show ?thesis unfolding cap_long_answer [OF assms] Some option.case using head split by blast
  qed
qed


lemma capped_answer_keeps_learnings_witness:
  "char_count (cap_notice_answer (replicate 5000 CHR ''x'')) \<le> NOTICE_ANSWER_CHARS + NOTICE_LEARNINGS_CHARS + 48"
proof -
  have "char_count (replicate 5000 CHR ''x'') > NOTICE_ANSWER_CHARS"
    by (simp add: char_count_def char_start_def NOTICE_ANSWER_CHARS_def)
  then show ?thesis using capped_answer_keeps_learnings [of "replicate 5000 CHR ''x''"] by blast
qed

end
