(* ===== verification/Notices.thy ===== *)
theory Notices
  imports Notice_Text Routine_Edits Questions_Pending
begin

text \<open>
  Completion notices (\<^verbatim>\<open>src-tauri/src/providers/completion_notices.rs\<close>): what a launched session's turn end leaves
  in its launcher's inbox, and when the launcher is woken. The quiet windows, the open batches and the deliveries under
  way are in memory; the rows and their wake marks are the inbox. The tables a notice reads are the argument \<open>w\<close>,
  \<open>now\<close> is the time a statement writes, \<open>local\<close> the machine's zone. A timer is a pending entry that a step may
  fire at any time.
\<close>

section \<open>What a notice reads\<close>

record chat_row =
  ct_id :: string
  ct_workspace :: string
  ct_launched_by :: "string option"

record home_row =
  hm_id :: string
  hm_state :: string
  hm_label :: string

record notice_world =
  nw_chats :: "chat_row list"
  nw_homes :: "home_row list"
  nw_events :: "event_row list"  \<comment> \<open>in \<^verbatim>\<open>rowid\<close> order\<close>

definition find_chat :: "notice_world \<Rightarrow> string \<Rightarrow> argmax_error + chat_row" where
  "find_chat w i =
     (case find (\<lambda>c. ct_id c = i) (nw_chats w) of Some c \<Rightarrow> Inr c | None \<Rightarrow> Inl (record_not_found ''session'' i))"

definition find_home :: "notice_world \<Rightarrow> string \<Rightarrow> argmax_error + home_row" where
  "find_home w i =
     (case find (\<lambda>h. hm_id h = i) (nw_homes w) of Some h \<Rightarrow> Inr h | None \<Rightarrow> Inl (record_not_found ''workspace'' i))"

text \<open>\<^verbatim>\<open>CLEAR_BOUNDARY\<close>: the events of a session after its last \<^verbatim>\<open>session.cleared\<close>.\<close>

definition since_clear :: "string \<Rightarrow> event_row list \<Rightarrow> event_row list" where
  "since_clear x evs =
     filter (\<lambda>e. ev_session e = x)
       (rev (takeWhile (\<lambda>e. \<not> (ev_session e = x \<and> ev_type e = ''session.cleared'')) (rev evs)))"

definition sql_null :: "string list \<Rightarrow> json \<Rightarrow> bool" where
  "sql_null p v \<longleftrightarrow> json_path p v = None \<or> json_path p v = Some JNull"

definition latest_user_message :: "event_row list \<Rightarrow> string \<Rightarrow> event_row option" where
  "latest_user_message evs x =
     find (\<lambda>e. ev_type e = ''user.message'' \<and> sql_null [''parent_tool_use_id''] (ev_payload e)) (rev (since_clear x evs))"

text \<open>\<^verbatim>\<open>NOT (type = 'agent_message' AND <another thread>)\<close> in SQL's three values: with a thread of its own a
  message stays only if both types are there and neither says so.\<close>

definition other_thread :: "json \<Rightarrow> bool" where
  "other_thread v \<longleftrightarrow>
     \<not> (sql_null [''thread_id''] v \<and> sql_null [''sender_thread_id''] v \<and>
        sql_null [''item'', ''thread_id''] v \<and> sql_null [''item'', ''sender_thread_id''] v)"

definition not_agent_message :: "json \<Rightarrow> bool" where
  "not_agent_message v \<longleftrightarrow>
     (\<forall>p \<in> {[''item_type''], [''item'', ''type'']}. \<not> sql_null p v \<and> json_path p v \<noteq> Some (JString ''agent_message''))"

text \<open>SQLite's \<^verbatim>\<open>trim\<close> strips spaces only.\<close>

definition latest_agent_answer :: "event_row list \<Rightarrow> string \<Rightarrow> string option" where
  "latest_agent_answer evs x =
     map_option ev_message
       (find (\<lambda>e. ev_type e = ''message.completed'' \<and> \<not> list_all (\<lambda>c. c = CHR '' '') (ev_message e) \<and>
           sql_null [''parent_tool_use_id''] (ev_payload e) \<and> sql_null [''traceImported''] (ev_payload e) \<and>
           (\<not> other_thread (ev_payload e) \<or> not_agent_message (ev_payload e)))
         (rev (since_clear x evs)))"

definition count_user_messages :: "event_row list \<Rightarrow> string \<Rightarrow> nat" where
  "count_user_messages evs x = length (filter (\<lambda>e. ev_session e = x \<and> ev_type e = ''user.message'') evs)"

definition session_has_launcher :: "notice_world \<Rightarrow> string \<Rightarrow> argmax_error + bool" where
  "session_has_launcher w x =
     and_then (find_chat w x) (\<lambda>c. Inr (case ct_launched_by c of None \<Rightarrow> False | Some parent \<Rightarrow> parent \<noteq> x))"

definition turn_was_driven_by_the_user :: "notice_world \<Rightarrow> string \<Rightarrow> bool" where
  "turn_was_driven_by_the_user w x =
     (case latest_user_message (nw_events w) x of None \<Rightarrow> False
      | Some e \<Rightarrow> turn_was_user_driven (ev_payload e) (count_user_messages (nw_events w) x \<le> 1))"

section \<open>State\<close>

record user_turn_digest =
  ut_token :: string
  ut_exchanges :: direct_exchanges

text \<open>A scheduled timer of a quiet window, with what it will report.\<close>

record digest_timer =
  dt_session :: string
  dt_token :: string
  dt_exchanges :: direct_exchanges
  dt_state :: session_state
  dt_at :: string

text \<open>An open batch has its timer from the first notice on, so the entry stands for both.\<close>

record notice_state =
  ns_inbox :: inbox
  ns_routines :: routine_db
  ns_digests :: "string \<rightharpoonup> user_turn_digest"
  ns_timers :: "digest_timer list"
  ns_batches :: "string \<rightharpoonup> completion_notice list"
  ns_deliveries :: "string set"
  ns_started :: "string list"  \<comment> \<open>the calls of \<open>deliver\<close> so far\<close>

section \<open>Recording a notice\<close>

definition workspace_is_leaving :: "string \<Rightarrow> bool" where
  "workspace_is_leaving st \<longleftrightarrow> st \<in> {''archiving'', ''archive-failed'', ''archived''}"

definition no_answer :: string where "no_answer = ''(the session produced no assistant message)''"

definition notice_answer :: "notice_world \<Rightarrow> string \<Rightarrow> string" where
  "notice_answer w x =
     (case latest_agent_answer (nw_events w) x of
        Some t \<Rightarrow> if is_blank t then no_answer else cap_notice_answer t
      | None \<Rightarrow> no_answer)"

definition completion_id :: "string \<Rightarrow> string \<Rightarrow> string" where
  "completion_id x t = ''completion:'' @ x @ '':'' @ t"

definition notice_label :: "notice_world \<Rightarrow> string \<Rightarrow> string \<Rightarrow> string" where
  "notice_label w home missing = (case find_home w home of Inr h \<Rightarrow> hm_label h | Inl _ \<Rightarrow> missing)"

text \<open>The launcher a notice goes to, if there is one that can be woken.\<close>

definition launcher_of :: "notice_world \<Rightarrow> string \<Rightarrow> argmax_error + (chat_row \<times> string) option" where
  "launcher_of w x =
     and_then (find_chat w x) (\<lambda>c.
       case ct_launched_by c of None \<Rightarrow> Inr None
       | Some parent \<Rightarrow>
           if parent = x then Inr None
           else (case find_chat w parent of Inl _ \<Rightarrow> Inr None
                 | Inr p \<Rightarrow> and_then (find_home w (ct_workspace p)) (\<lambda>h.
                     Inr (if workspace_is_leaving (hm_state h) then None else Some (c, parent)))))"

text \<open>The check-in task goes whether or not the row is new; the row and its wake mark are one transaction.\<close>

definition build_completion_notice ::
  "(string \<Rightarrow> string) \<Rightarrow> notice_world \<Rightarrow> string \<Rightarrow> string \<Rightarrow> session_state \<Rightarrow> string \<Rightarrow> notice_shape \<Rightarrow> inbox \<Rightarrow> routine_db \<Rightarrow>
   (argmax_error + completion_notice option) \<times> inbox \<times> routine_db"
where
  "build_completion_notice local w now x state t shape rows tasks =
     (case launcher_of w x of
        Inl e \<Rightarrow> (Inl e, rows, tasks)
      | Inr None \<Rightarrow> (Inr None, rows, tasks)
      | Inr (Some (c, parent)) \<Rightarrow>
          (let name = notice_label w (ct_workspace c) x;
               body = notice_body local shape x name state t (notice_answer w x);
               tasks' = (case delete_routine (check_in_routine_id x) tasks of Inl _ \<Rightarrow> tasks | Inr db \<Rightarrow> db);
               i = completion_id x t
           in case insert_session_message (ct_id ` set (nw_chats w))
                \<lparr>nm_id = i, nm_from = Some x, nm_to = parent, nm_body = body, nm_kind = COMPLETION_KIND\<rparr> now rows of
                Inl e \<Rightarrow> (Inl e, rows, tasks')
              | Inr (False, _) \<Rightarrow> (Inr None, rows, tasks')
              | Inr (True, rows') \<Rightarrow>
                  (Inr (Some \<lparr>cn_id = i, cn_to = parent, cn_body = body,
                     cn_origin = \<lparr>mo_session = x, mo_label = name, mo_kind = COMPLETION_KIND, mo_message_id = Some i\<rparr>\<rparr>),
                   mark_wake_due i now rows', tasks')))"

section \<open>Holding a wake\<close>

definition held_for :: "(string \<rightharpoonup> completion_notice list) \<Rightarrow> string \<Rightarrow> completion_notice list" where
  "held_for B l = (case B l of None \<Rightarrow> [] | Some ns \<Rightarrow> ns)"

definition hold_for_batch :: "completion_notice \<Rightarrow> notice_state \<Rightarrow> notice_state" where
  "hold_for_batch c S =
     (if list_ex (\<lambda>n. cn_id n = cn_id c) (held_for (ns_batches S) (cn_to c)) then S
      else S\<lparr>ns_batches := (ns_batches S)(cn_to c \<mapsto> held_for (ns_batches S) (cn_to c) @ [c])\<rparr>)"

definition emit_completion_notice ::
  "(string \<Rightarrow> string) \<Rightarrow> notice_world \<Rightarrow> string \<Rightarrow> string \<Rightarrow> session_state \<Rightarrow> string \<Rightarrow> notice_shape \<Rightarrow> notice_state \<Rightarrow> notice_state"
where
  "emit_completion_notice local w now x state t shape S =
     (case build_completion_notice local w now x state t shape (ns_inbox S) (ns_routines S) of
        (r, rows, tasks) \<Rightarrow>
          (let S' = S\<lparr>ns_inbox := rows, ns_routines := tasks\<rparr>
           in case r of Inr (Some c) \<Rightarrow> hold_for_batch c S' | _ \<Rightarrow> S'))"

section \<open>Quiet windows\<close>

text \<open>A timer past its sleep can no longer be aborted, so the model leaves every timer in place: one whose token is
  not its window's does nothing.\<close>

definition schedule_user_turn_digest ::
  "(string \<Rightarrow> string) \<Rightarrow> string \<Rightarrow> string \<Rightarrow> session_state \<Rightarrow> string \<Rightarrow> notice_state \<Rightarrow> notice_state"
where
  "schedule_user_turn_digest local token x state t S =
     (let old = (case ns_digests S x of Some d \<Rightarrow> ut_exchanges d | None \<Rightarrow> \<lparr>de_count = 0, de_since = local t\<rparr>);
          new = old\<lparr>de_count := min (de_count old + 1) (2 ^ 32 - 1)\<rparr>
      in S\<lparr>ns_digests := (ns_digests S)(x \<mapsto> \<lparr>ut_token = token, ut_exchanges = new\<rparr>),
           ns_timers := ns_timers S @
             [\<lparr>dt_session = x, dt_token = token, dt_exchanges = new, dt_state = state, dt_at = t\<rparr>]\<rparr>)"

definition take_user_turn_digest :: "string \<Rightarrow> notice_state \<Rightarrow> direct_exchanges option \<times> notice_state" where
  "take_user_turn_digest x S = (map_option ut_exchanges (ns_digests S x), S\<lparr>ns_digests := (ns_digests S)(x := None)\<rparr>)"

definition owns_window :: "digest_timer \<Rightarrow> notice_state \<Rightarrow> bool" where
  "owns_window d S \<longleftrightarrow> map_option ut_token (ns_digests S (dt_session d)) = Some (dt_token d)"

definition fire_digest :: "(string \<Rightarrow> string) \<Rightarrow> notice_world \<Rightarrow> string \<Rightarrow> digest_timer \<Rightarrow> notice_state \<Rightarrow> notice_state" where
  "fire_digest local w now d S =
     (if owns_window d S
      then emit_completion_notice local w now (dt_session d) (dt_state d) (dt_at d) (User_Turn_Digest (dt_exchanges d))
             (S\<lparr>ns_digests := (ns_digests S)(dt_session d := None)\<rparr>)
      else S)"

definition turn_ended ::
  "(string \<Rightarrow> string) \<Rightarrow> notice_world \<Rightarrow> string \<Rightarrow> string \<Rightarrow> string \<Rightarrow> session_state \<Rightarrow> string \<Rightarrow> notice_state \<Rightarrow>
   (argmax_error + unit) \<times> notice_state"
where
  "turn_ended local w now token x state t S =
     (case session_has_launcher w x of
        Inl e \<Rightarrow> (Inl e, S)
      | Inr False \<Rightarrow> (Inr (), S)
      | Inr True \<Rightarrow>
          if turn_was_driven_by_the_user w x then (Inr (), schedule_user_turn_digest local token x state t S)
          else (case take_user_turn_digest x S of
                  (direct, S') \<Rightarrow> (Inr (), emit_completion_notice local w now x state t (Finished_Turn direct) S')))"

section \<open>Waking the launcher\<close>

definition start_delivery :: "completion_notice \<Rightarrow> notice_state \<Rightarrow> notice_state" where
  "start_delivery c S = S\<lparr>ns_deliveries := insert (cn_id c) (ns_deliveries S), ns_started := ns_started S @ [cn_id c]\<rparr>"

text \<open>The task of a delivery, once \<open>deliver\<close> has returned.\<close>

definition finish_delivery :: "string \<Rightarrow> notice_state \<Rightarrow> notice_state" where
  "finish_delivery i S = S\<lparr>ns_inbox := clear_wake_due i (ns_inbox S), ns_deliveries := ns_deliveries S - {i}\<rparr>"

text \<open>\<^verbatim>\<open>deliver_notice\<close> of the session service: \<open>parses\<close> is whether the notice makes a sendable turn, \<open>reply\<close>
  what sending it answers (queued or not).\<close>

definition deliver_notice :: "bool \<Rightarrow> argmax_error + bool \<Rightarrow> string \<Rightarrow> string \<Rightarrow> inbox \<Rightarrow> inbox" where
  "deliver_notice parses reply now i rows = (if parses \<and> reply = Inr False then mark_message_delivered i now rows else rows)"

text \<open>\<^verbatim>\<open>slice.chunks(n)\<close>.\<close>

function chunks :: "nat \<Rightarrow> 'a list \<Rightarrow> 'a list list" where
  "chunks n xs = (if n = 0 \<or> xs = [] then [] else take n xs # chunks n (drop n xs))"
  by pat_completeness auto
termination by (relation "measure (\<lambda>(n, xs). length xs)") auto

declare chunks.simps [simp del]

text \<open>One chunk of the unread notices: a single one is its own wake, several become a row.\<close>

fun wake_chunk ::
  "string \<Rightarrow> completion_notice list \<Rightarrow> completion_notice list \<times> inbox \<Rightarrow> argmax_error + completion_notice list \<times> inbox"
where
  "wake_chunk now [only] (wakes, rows) = Inr (wakes @ [only], rows)"
| "wake_chunk now members (wakes, rows) =
     (case batch_notice members of None \<Rightarrow> Inr (wakes, rows)
      | Some b \<Rightarrow>
          and_then (insert_session_message {}
              \<lparr>nm_id = cn_id b, nm_from = None, nm_to = cn_to b, nm_body = cn_body b, nm_kind = COMPLETION_KIND\<rparr> now rows) (\<lambda>(fresh, rows').
            if fresh
            then Inr (wakes @ [b], fold (\<lambda>m. mark_message_delivered (cn_id m) now) members (mark_wake_due (cn_id b) now rows'))
            else Inr (wakes, rows)))"

text \<open>\<open>io\<close> is the error of a statement that fails; the transaction is then rolled back.\<close>

definition coalesce ::
  "argmax_error option \<Rightarrow> string \<Rightarrow> completion_notice list \<Rightarrow> inbox \<Rightarrow> argmax_error + completion_notice list \<times> inbox"
where
  "coalesce io now notices rows =
     (case io of Some e \<Rightarrow> Inl e
      | None \<Rightarrow>
          (let unread = filter (\<lambda>n. \<not> is_message_delivered (cn_id n) rows) notices
           in fold_res (wake_chunk now) (chunks MAX_BATCH_MEMBERS unread) ([], rows)))"

definition flush_batch :: "argmax_error option \<Rightarrow> string \<Rightarrow> string \<Rightarrow> notice_state \<Rightarrow> notice_state" where
  "flush_batch io now l S =
     (case ns_batches S l of None \<Rightarrow> S
      | Some notices \<Rightarrow>
          (let S1 = S\<lparr>ns_batches := (ns_batches S)(l := None)\<rparr>
           in case coalesce io now notices (ns_inbox S) of
                Inr (wakes, rows) \<Rightarrow> fold start_delivery wakes (S1\<lparr>ns_inbox := rows\<rparr>)
              | Inl _ \<Rightarrow> fold start_delivery notices S1))"

section \<open>Wakes after a restart\<close>

definition BATCH_PREFIX :: string where "BATCH_PREFIX = ''completion-batch:''"

text \<open>The part after the first part that is \<^verbatim>\<open>completion\<close>.\<close>

definition batch_child :: "string \<Rightarrow> string \<Rightarrow> string" where
  "batch_child rest missing =
     (case dropWhile (\<lambda>p. p \<noteq> ''completion'') (split_on CHR '':'' rest) of _ # child # _ \<Rightarrow> child | _ \<Rightarrow> missing)"

definition notice_from_row :: "notice_world \<Rightarrow> inbox_row \<Rightarrow> argmax_error + completion_notice option" where
  "notice_from_row w r =
     (case find_chat w (im_to r) of Inl _ \<Rightarrow> Inr None
      | Inr launcher \<Rightarrow> and_then (find_home w (ct_workspace launcher)) (\<lambda>h.
          if workspace_is_leaving (hm_state h) then Inr None
          else
            (let (child, name) =
               (if starts_with (im_id r) BATCH_PREFIX
                then (batch_child (drop (length BATCH_PREFIX) (im_id r)) (im_to r), ''launched sessions'')
                else (let child = (case im_from r of Some x \<Rightarrow> x | None \<Rightarrow> im_to r)
                      in (child, case find_chat w child of Inl _ \<Rightarrow> child | Inr c \<Rightarrow> notice_label w (ct_workspace c) child)))
             in Inr (Some \<lparr>cn_id = im_id r, cn_to = im_to r, cn_body = im_body r,
                  cn_origin = \<lparr>mo_session = child, mo_label = name, mo_kind = COMPLETION_KIND, mo_message_id = Some (im_id r)\<rparr>\<rparr>))))"

fun recover_rows :: "notice_world \<Rightarrow> inbox \<Rightarrow> nat \<Rightarrow> notice_state \<Rightarrow> (argmax_error + nat) \<times> notice_state" where
  "recover_rows w [] n S = (Inr n, S)"
| "recover_rows w (r # rs) n S =
     (if im_id r \<in> ns_deliveries S then recover_rows w rs n S
      else (case notice_from_row w r of
              Inl e \<Rightarrow> (Inl e, S)
            | Inr None \<Rightarrow> recover_rows w rs n (S\<lparr>ns_inbox := clear_wake_due (im_id r) (ns_inbox S)\<rparr>)
            | Inr (Some c) \<Rightarrow>
                recover_rows w rs (n + 1) (if starts_with (im_id r) BATCH_PREFIX then start_delivery c S else hold_for_batch c S)))"

text \<open>\<open>journal\<close> holds the inbox ids with a copy in the follow-up journal.\<close>

definition recover_pending_wakes :: "notice_world \<Rightarrow> string set \<Rightarrow> notice_state \<Rightarrow> (argmax_error + nat) \<times> notice_state" where
  "recover_pending_wakes w journal S = recover_rows w (list_due_wakes journal (ns_inbox S)) 0 S"

section \<open>What closing a window does\<close>

lemma chunks_concat: "n > 0 \<Longrightarrow> concat (chunks n xs) = xs"
  by (induction n xs rule: chunks.induct) (subst chunks.simps, auto)

lemma chunks_sizes: "c \<in> set (chunks n xs) \<Longrightarrow> c \<noteq> [] \<and> length c \<le> n"
proof (induction n xs rule: chunks.induct)
  case (1 n xs)
  then show ?case by (subst (asm) (2) chunks.simps) (auto split: if_splits)
qed

text \<open>What one chunk is woken with, and the row a chunk of several leaves.\<close>

definition wake_of :: "completion_notice list \<Rightarrow> completion_notice" where
  "wake_of ms = (case ms of [n] \<Rightarrow> n | _ \<Rightarrow> the (batch_notice ms))"

definition several :: "completion_notice list \<Rightarrow> bool" where
  "several ms \<longleftrightarrow> length ms > 1"

definition batch_row :: "string \<Rightarrow> completion_notice \<Rightarrow> inbox_row" where
  "batch_row now b = \<lparr>im_id = cn_id b, im_from = None, im_to = cn_to b, im_body = cap_message_body (cn_body b),
     im_kind = COMPLETION_KIND, im_created = now, im_delivered = None, im_wake_due = Some now\<rparr>"

definition mark_all :: "string set \<Rightarrow> string \<Rightarrow> inbox \<Rightarrow> inbox" where
  "mark_all ids now = map (\<lambda>r. if im_id r \<in> ids \<and> undelivered r then r\<lparr>im_delivered := Some now\<rparr> else r)"

definition folded :: "completion_notice list list \<Rightarrow> string set" where
  "folded css = {cn_id m |m ms. ms \<in> set css \<and> several ms \<and> m \<in> set ms}"

lemma mark_message_delivered_all: "mark_message_delivered i now = mark_all {i} now"
  by (simp add: mark_message_delivered_def mark_all_def)

lemma mark_all_twice: "mark_all B now (mark_all A now rows) = mark_all (A \<union> B) now rows"
  by (auto simp: mark_all_def undelivered_def)

lemma mark_all_none [simp]: "mark_all {} now rows = rows"
  by (simp add: mark_all_def)

lemma fold_marks: "fold (\<lambda>m. mark_message_delivered (cn_id m) now) ms rows = mark_all (cn_id ` set ms) now rows"
  by (induction ms arbitrary: rows) (simp_all add: mark_message_delivered_all mark_all_twice)

lemma mark_all_id_list [simp]: "map im_id (mark_all A now rows) = map im_id rows"
  by (simp add: mark_all_def)

lemma mark_all_ids [simp]: "im_id ` set (mark_all A now rows) = im_id ` set rows"
  by (metis list.set_map mark_all_id_list)

lemma mark_all_append: "mark_all A now (xs @ ys) = mark_all A now xs @ mark_all A now ys"
  by (simp add: mark_all_def)

lemma mark_all_idle: "im_id ` set rows \<inter> A = {} \<Longrightarrow> mark_all A now rows = rows"
  unfolding mark_all_def by (intro map_idI) auto

lemma batch_notice_id:
  "ms \<noteq> [] \<Longrightarrow> cn_id (the (batch_notice ms)) = ''completion-batch:'' @ cn_to (hd ms) @ '':'' @ cn_id (hd ms) \<and>
     cn_to (the (batch_notice ms)) = cn_to (hd ms) \<and> batch_notice ms = Some (the (batch_notice ms))"
  by (cases ms) (simp_all add: batch_notice_def Let_def)

lemma wake_chunk_several:
  assumes "several ms" and "b = the (batch_notice ms)" and "cn_id b \<notin> im_id ` set rows"
    and "cn_id b \<notin> cn_id ` set ms"
  shows "wake_chunk now ms (wakes, rows) = Inr (wakes @ [b], mark_all (cn_id ` set ms) now rows @ [batch_row now b])"
proof -
  obtain m m' more where ms: "ms = m # m' # more"
    using assms(1) unfolding several_def by (cases ms; cases "tl ms") auto
  have some: "batch_notice ms = Some b" using batch_notice_id [of ms] assms(2) ms by simp
  have "mark_wake_due (cn_id b) now (rows @ [r]) = rows @ [r\<lparr>im_wake_due := Some now\<rparr>]" if r: "im_id r = cn_id b" for r
    using assms(3) r unfolding mark_wake_due_def by (auto intro!: map_idI simp: image_iff)
  then show ?thesis
    using some assms(3,4) unfolding ms
    by (simp add: insert_session_message_def fold_marks [of now "m # m' # more", simplified] mark_all_append mark_all_idle batch_row_def)
qed

lemma wake_chunks:
  assumes "\<forall>ms \<in> set css. ms \<noteq> []"
    and "distinct (map (\<lambda>ms. cn_id (wake_of ms)) (filter several css))"
    and "\<forall>ms \<in> set css. several ms \<longrightarrow> cn_id (wake_of ms) \<notin> im_id ` set rows \<union> cn_id ` set (concat css)"
  shows "fold_res (wake_chunk now) css (wakes, rows) =
    Inr (wakes @ map wake_of css, mark_all (folded css) now rows @ map (\<lambda>ms. batch_row now (wake_of ms)) (filter several css))"
  using assms
proof (induction css arbitrary: wakes rows)
  case Nil
  then show ?case by (simp add: folded_def)
next
  case (Cons ms css)
  show ?case
  proof (cases "several ms")
    case False
    then obtain only where ms: "ms = [only]" using Cons.prems(1) by (cases ms; cases "tl ms") (auto simp: several_def)
    have "folded (ms # css) = folded css" using False by (auto simp: folded_def)
    then show ?thesis using Cons.prems Cons.IH [of rows "wakes @ [only]"] False ms by (simp add: wake_of_def)
  next
    case True
    let ?b = "wake_of ms" and ?rows = "mark_all (cn_id ` set ms) now rows @ [batch_row now (wake_of ms)]"
    have b: "?b = the (batch_notice ms)" using True by (auto simp: wake_of_def several_def split: list.splits)
    have step: "wake_chunk now ms (wakes, rows) = Inr (wakes @ [?b], ?rows)"
      using Cons.prems(3) True by (intro wake_chunk_several [OF True b]) auto
    have ids: "im_id ` set ?rows = insert (cn_id ?b) (im_id ` set rows)" by (simp add: batch_row_def)
    have other: "cn_id (wake_of m) \<noteq> cn_id ?b" if m: "m \<in> set css" "several m" for m
    proof -
      have "cn_id ?b \<notin> set (map (\<lambda>ms. cn_id (wake_of ms)) (filter several css))" using Cons.prems(2) True by simp
      moreover have "cn_id (wake_of m) \<in> set (map (\<lambda>ms. cn_id (wake_of ms)) (filter several css))" using m by simp
      ultimately show ?thesis by metis
    qed
    have rest: "fold_res (wake_chunk now) css (wakes @ [?b], ?rows) =
      Inr ((wakes @ [?b]) @ map wake_of css, mark_all (folded css) now ?rows @ map (\<lambda>ms. batch_row now (wake_of ms)) (filter several css))"
    proof (rule Cons.IH)
      show "\<forall>ms \<in> set css. several ms \<longrightarrow> cn_id (wake_of ms) \<notin> im_id ` set ?rows \<union> cn_id ` set (concat css)"
        unfolding ids using Cons.prems(3) other by (auto simp: image_Un)
    qed (use Cons.prems True in auto)
    have "cn_id ?b \<notin> folded css" using Cons.prems(3) True by (auto simp: folded_def)
    then have "mark_all (folded css) now [batch_row now ?b] = [batch_row now ?b]" by (intro mark_all_idle) (simp add: batch_row_def)
    then have "mark_all (folded css) now ?rows = mark_all (folded (ms # css)) now rows @ [batch_row now ?b]"
      using True by (auto simp: mark_all_append mark_all_twice folded_def intro!: arg_cong [where f = "\<lambda>A. mark_all A now rows"])
    then show ?thesis using step rest True by simp
  qed
qed

end
