(* ===== verification/Notice_Safety.thy ===== *)
theory Notice_Safety
  imports Notices
begin

text \<open>
  The life of completion notices: turn ends, quiet windows and batches that close, deliveries, the other readers and
  writers of the inbox, boot recovery and restarts, interleaved. Recovery is one step: it runs while the application
  starts, before chats run turns.
\<close>

section \<open>The system\<close>

text \<open>Besides the state: the rows due when the application last started, those whose launcher could not be woken when
  it was tried, those whose delivery was attempted, and per chat the user's own turns and those told to a launcher.\<close>

record notice_system =
  nv_state :: notice_state
  nv_left :: "string set"
  nv_dropped :: "string set"
  nv_attempted :: "string set"
  nv_turns :: "string \<Rightarrow> nat"
  nv_told :: "string \<Rightarrow> nat"

definition due_ids :: "inbox \<Rightarrow> string set" where
  "due_ids rows = {im_id r |r. r \<in> set rows \<and> im_wake_due r \<noteq> None \<and> undelivered r}"

definition plain_ids :: "notice_world \<Rightarrow> bool" where
  "plain_ids w \<longleftrightarrow> (\<forall>c \<in> set (nw_chats w). CHR '':'' \<notin> set (ct_id c))"

definition is_completion :: "string \<Rightarrow> bool" where
  "is_completion i \<longleftrightarrow> starts_with i ''completion''"

definition bump :: "string \<Rightarrow> nat \<Rightarrow> (string \<Rightarrow> nat) \<Rightarrow> string \<Rightarrow> nat" where
  "bump x n f = f(x := f x + n)"

definition open_count :: "string \<Rightarrow> notice_state \<Rightarrow> nat" where
  "open_count x S = (case ns_digests S x of None \<Rightarrow> 0 | Some d \<Rightarrow> de_count (ut_exchanges d))"

definition turn_of_the_user :: "notice_world \<Rightarrow> string \<Rightarrow> bool" where
  "turn_of_the_user w x \<longleftrightarrow> session_has_launcher w x = Inr True \<and> turn_was_driven_by_the_user w x"

definition turn_for_the_launcher :: "notice_world \<Rightarrow> string \<Rightarrow> bool" where
  "turn_for_the_launcher w x \<longleftrightarrow> session_has_launcher w x = Inr True \<and> \<not> turn_was_driven_by_the_user w x"

inductive notice_step :: "(string \<Rightarrow> string) \<Rightarrow> notice_system \<Rightarrow> notice_system \<Rightarrow> bool"
  for local :: "string \<Rightarrow> string"
where
  turn: "plain_ids w \<Longrightarrow> token \<notin> dt_token ` set (ns_timers (nv_state S)) \<Longrightarrow>
    turn_ended local w now token x state t (nv_state S) = (r, st) \<Longrightarrow>
    notice_step local S (S\<lparr>nv_state := st, nv_turns := bump x (if turn_of_the_user w x then 1 else 0) (nv_turns S),
      nv_told := bump x (if turn_for_the_launcher w x then open_count x (nv_state S) else 0) (nv_told S)\<rparr>)"
| quiet: "plain_ids w \<Longrightarrow> d \<in> set (ns_timers (nv_state S)) \<Longrightarrow>
    notice_step local S (S\<lparr>nv_state := fire_digest local w now d (nv_state S),
      nv_told := bump (dt_session d) (if owns_window d (nv_state S) then de_count (dt_exchanges d) else 0) (nv_told S)\<rparr>)"
| window: "notice_step local S (S\<lparr>nv_state := flush_batch io now l (nv_state S)\<rparr>)"
| deliver: "i \<in> ns_deliveries (nv_state S) \<Longrightarrow>
    notice_step local S (S\<lparr>nv_state := (nv_state S)\<lparr>ns_inbox := deliver_notice parses reply now i (ns_inbox (nv_state S))\<rparr>\<rparr>)"
| finish: "i \<in> ns_deliveries (nv_state S) \<Longrightarrow>
    notice_step local S (S\<lparr>nv_state := finish_delivery i (nv_state S), nv_attempted := insert i (nv_attempted S)\<rparr>)"
| collect: "take_undelivered_messages to limit b now (ns_inbox (nv_state S)) = (handed, rows) \<Longrightarrow>
    notice_step local S (S\<lparr>nv_state := (nv_state S)\<lparr>ns_inbox := rows\<rparr>\<rparr>)"
| read: "notice_step local S (S\<lparr>nv_state := (nv_state S)\<lparr>ns_inbox := mark_message_delivered i now (ns_inbox (nv_state S))\<rparr>\<rparr>)"
| arrive: "insert_session_message known m now (ns_inbox (nv_state S)) = Inr (b, rows) \<Longrightarrow> \<not> is_completion (nm_id m) \<Longrightarrow>
    notice_step local S (S\<lparr>nv_state := (nv_state S)\<lparr>ns_inbox := rows\<rparr>\<rparr>)"
| withdraw: "\<not> is_completion i \<Longrightarrow>
    notice_step local S (S\<lparr>nv_state := (nv_state S)\<lparr>ns_inbox := delete_undelivered_session_message i (ns_inbox (nv_state S))\<rparr>\<rparr>)"
| prune: "notice_step local S (S\<lparr>nv_state := (nv_state S)\<lparr>ns_inbox :=
      map (\<lambda>r. if im_from r = Some x then r\<lparr>im_from := None\<rparr> else r) (ns_inbox (nv_state S))\<rparr>\<rparr>)"
| tasks: "notice_step local S (S\<lparr>nv_state := (nv_state S)\<lparr>ns_routines := db\<rparr>\<rparr>)"
| recover: "plain_ids w \<Longrightarrow> recover_pending_wakes w journal (nv_state S) = (r, st) \<Longrightarrow>
    notice_step local S (S\<lparr>nv_state := st, nv_left := (if is_ok r then nv_left S \<inter> journal else nv_left S),
      nv_dropped := nv_dropped S \<union>
        {im_id q |q. q \<in> set (list_due_wakes journal (ns_inbox (nv_state S))) \<and> notice_from_row w q = Inr None}\<rparr>)"
| restart: "notice_step local S (S\<lparr>nv_state := (nv_state S)\<lparr>ns_digests := Map.empty, ns_timers := [], ns_batches := Map.empty,
      ns_deliveries := {}, ns_started := []\<rparr>, nv_left := due_ids (ns_inbox (nv_state S)),
      nv_turns := (\<lambda>_. 0), nv_told := (\<lambda>_. 0)\<rparr>)"

definition start_notices :: "routine_db \<Rightarrow> notice_system" where
  "start_notices tasks =
     \<lparr>nv_state = \<lparr>ns_inbox = [], ns_routines = tasks, ns_digests = Map.empty, ns_timers = [], ns_batches = Map.empty,
        ns_deliveries = {}, ns_started = []\<rparr>,
      nv_left = {}, nv_dropped = {}, nv_attempted = {}, nv_turns = (\<lambda>_. 0), nv_told = (\<lambda>_. 0)\<rparr>"

section \<open>What the rows and the pending wakes keep\<close>

definition mail_ok :: "inbox \<Rightarrow> bool" where
  "mail_ok rows \<longleftrightarrow> distinct (map im_id rows) \<and>
     (\<forall>r \<in> set rows. im_wake_due r \<noteq> None \<longrightarrow> is_completion (im_id r)) \<and>
     (\<forall>r \<in> set rows. is_completion (im_id r) \<longrightarrow> CHR '':'' \<notin> set (im_to r)) \<and>
     (\<forall>r \<in> set rows. starts_with (im_id r) BATCH_PREFIX \<longrightarrow>
        (\<exists>q \<in> set rows. \<not> undelivered q \<and> is_completion (im_id q) \<and> im_id r = BATCH_PREFIX @ im_to q @ '':'' @ im_id q))"

definition held_ids :: "(string \<rightharpoonup> completion_notice list) \<Rightarrow> string set" where
  "held_ids B = {cn_id n |n l. n \<in> set (held_for B l)}"

definition held_ok :: "inbox \<Rightarrow> string list \<Rightarrow> string set \<Rightarrow> (string \<rightharpoonup> completion_notice list) \<Rightarrow> bool" where
  "held_ok rows started D B \<longleftrightarrow>
     (\<forall>l. distinct (map cn_id (held_for B l))) \<and>
     (\<forall>l. \<forall>n \<in> set (held_for B l). cn_to n = l \<and> cn_id n \<notin> set started \<and>
        (\<exists>r \<in> set rows. im_id r = cn_id n \<and> im_to r = l \<and> is_completion (im_id r) \<and> (im_wake_due r \<noteq> None \<or> im_id r \<in> D)))"

definition started_ok :: "inbox \<Rightarrow> string list \<Rightarrow> string set \<Rightarrow> string set \<Rightarrow> bool" where
  "started_ok rows started D deliveries \<longleftrightarrow> distinct started \<and> deliveries \<subseteq> set started \<and>
     (\<forall>i \<in> set started. \<exists>r \<in> set rows. im_id r = i \<and> is_completion i \<and>
        (if i \<in> deliveries then im_wake_due r \<noteq> None \<or> i \<in> D else im_wake_due r = None))"

definition tracked :: "inbox \<Rightarrow> string set \<Rightarrow> bool" where
  "tracked rows X \<longleftrightarrow> due_ids rows \<subseteq> X"

definition answered :: "inbox \<Rightarrow> string set \<Rightarrow> bool" where
  "answered rows X \<longleftrightarrow> (\<forall>r \<in> set rows. is_completion (im_id r) \<and> undelivered r \<and> im_wake_due r = None \<longrightarrow> im_id r \<in> X)"

definition wake_inv :: "string set \<Rightarrow> string set \<Rightarrow> string set \<Rightarrow> notice_state \<Rightarrow> bool" where
  "wake_inv L D A S \<longleftrightarrow> mail_ok (ns_inbox S) \<and> held_ok (ns_inbox S) (ns_started S) D (ns_batches S) \<and>
     started_ok (ns_inbox S) (ns_started S) D (ns_deliveries S) \<and>
     tracked (ns_inbox S) (held_ids (ns_batches S) \<union> ns_deliveries S \<union> L) \<and> answered (ns_inbox S) (A \<union> D)"

lemma wake_inv_fields:
  "ns_inbox S = ns_inbox T \<Longrightarrow> ns_batches S = ns_batches T \<Longrightarrow> ns_deliveries S = ns_deliveries T \<Longrightarrow> ns_started S = ns_started T \<Longrightarrow>
   wake_inv L D A S = wake_inv L D A T"
  by (simp add: wake_inv_def)

lemma same_id: "mail_ok rows \<Longrightarrow> r \<in> set rows \<Longrightarrow> q \<in> set rows \<Longrightarrow> im_id r = im_id q \<Longrightarrow> r = q"
  by (auto simp: mail_ok_def distinct_map inj_on_def)

section \<open>Other readers and writers of the inbox\<close>

text \<open>Rows may be read and other rows may come and go; a completion row stays, with its mark, and is never unread again.\<close>

definition same_row :: "inbox_row \<Rightarrow> inbox_row \<Rightarrow> bool" where
  "same_row r r' \<longleftrightarrow> im_id r' = im_id r \<and> im_to r' = im_to r \<and> im_wake_due r' = im_wake_due r \<and> (undelivered r' \<longrightarrow> undelivered r)"

definition calm :: "inbox \<Rightarrow> inbox \<Rightarrow> bool" where
  "calm rows rows' \<longleftrightarrow> (distinct (map im_id rows) \<longrightarrow> distinct (map im_id rows')) \<and>
     (\<forall>r' \<in> set rows'. (\<exists>r \<in> set rows. same_row r r') \<or> (\<not> is_completion (im_id r') \<and> im_wake_due r' = None)) \<and>
     (\<forall>r \<in> set rows. is_completion (im_id r) \<longrightarrow> (\<exists>r' \<in> set rows'. same_row r r'))"

lemma calm_map: "(\<And>r. same_row r (f r)) \<Longrightarrow> calm rows (map f rows)"
  by (auto simp: calm_def same_row_def comp_def)

lemma calm_mark: "calm rows (mark_message_delivered i now rows)"
  unfolding mark_message_delivered_def by (rule calm_map) (simp add: same_row_def undelivered_def)

lemma calm_refl: "calm rows rows"
  using calm_map [of "\<lambda>r. r"] by (simp add: same_row_def)

lemma calm_keeps_mail:
  assumes c: "calm rows rows'" and m: "mail_ok rows"
  shows "mail_ok rows'"
proof -
  have old: "(\<exists>r \<in> set rows. same_row r r') \<or> (\<not> is_completion (im_id r') \<and> im_wake_due r' = None)" if "r' \<in> set rows'" for r'
    using c that unfolding calm_def by blast
  have kept: "\<exists>r' \<in> set rows'. same_row r r'" if "r \<in> set rows" "is_completion (im_id r)" for r
    using c that unfolding calm_def by blast
  have batch: "is_completion i" if "starts_with i BATCH_PREFIX" for i
    using that by (auto simp: is_completion_def starts_with_iff BATCH_PREFIX_def)
  have "\<exists>q \<in> set rows'. \<not> undelivered q \<and> is_completion (im_id q) \<and> im_id r' = BATCH_PREFIX @ im_to q @ '':'' @ im_id q"
    if r': "r' \<in> set rows'" "starts_with (im_id r') BATCH_PREFIX" for r'
  proof -
    obtain r where r: "r \<in> set rows" "same_row r r'" using old [OF r'(1)] batch [OF r'(2)] by blast
    then have "starts_with (im_id r) BATCH_PREFIX" using r'(2) by (simp add: same_row_def)
    then obtain q where q: "q \<in> set rows" "\<not> undelivered q" "is_completion (im_id q)" "im_id r = BATCH_PREFIX @ im_to q @ '':'' @ im_id q"
      using m r(1) unfolding mail_ok_def by blast
    obtain q' where "q' \<in> set rows'" "same_row q q'" using kept [OF q(1,3)] by blast
    then show ?thesis using q r(2) unfolding same_row_def by metis
  qed
  moreover have "distinct (map im_id rows')" using c m unfolding calm_def mail_ok_def by blast
  moreover have "im_wake_due r' \<noteq> None \<longrightarrow> is_completion (im_id r')" if "r' \<in> set rows'" for r'
    using old [OF that] m unfolding mail_ok_def same_row_def by metis
  moreover have "is_completion (im_id r') \<longrightarrow> CHR '':'' \<notin> set (im_to r')" if "r' \<in> set rows'" for r'
    using old [OF that] m unfolding mail_ok_def same_row_def by metis
  ultimately show ?thesis unfolding mail_ok_def by blast
qed

lemma calm_due_ids: "calm rows rows' \<Longrightarrow> due_ids rows' \<subseteq> due_ids rows"
  unfolding calm_def due_ids_def same_row_def by (smt (verit) mem_Collect_eq subsetI)

lemma calm_keeps:
  assumes c: "calm (ns_inbox S) rows'" and s: "wake_inv L D A S"
  shows "wake_inv L D A (S\<lparr>ns_inbox := rows'\<rparr>)"
proof -
  let ?rows = "ns_inbox S"
  have kept: "\<exists>r' \<in> set rows'. same_row r r'" if "r \<in> set ?rows" "is_completion (im_id r)" for r
    using c that unfolding calm_def by blast
  have m: "mail_ok rows'" using c s calm_keeps_mail unfolding wake_inv_def by blast
  have h: "held_ok rows' (ns_started S) D (ns_batches S)"
    unfolding held_ok_def
  proof (intro conjI allI ballI)
    fix l n assume n: "n \<in> set (held_for (ns_batches S) l)"
    then obtain r where r: "r \<in> set ?rows" "im_id r = cn_id n" "im_to r = l" "is_completion (im_id r)" "im_wake_due r \<noteq> None \<or> im_id r \<in> D"
      using s unfolding wake_inv_def held_ok_def by blast
    then obtain r' where "r' \<in> set rows'" "same_row r r'" using kept by blast
    then show "\<exists>r \<in> set rows'. im_id r = cn_id n \<and> im_to r = l \<and> is_completion (im_id r) \<and> (im_wake_due r \<noteq> None \<or> im_id r \<in> D)"
      using r unfolding same_row_def by metis
  qed (use s in \<open>auto simp: wake_inv_def held_ok_def\<close>)
  have d: "started_ok rows' (ns_started S) D (ns_deliveries S)"
    unfolding started_ok_def
  proof (intro conjI ballI)
    fix i assume i: "i \<in> set (ns_started S)"
    then obtain r where r: "r \<in> set ?rows" "im_id r = i" "is_completion i"
        "if i \<in> ns_deliveries S then im_wake_due r \<noteq> None \<or> i \<in> D else im_wake_due r = None"
      using s unfolding wake_inv_def started_ok_def by blast
    then obtain r' where "r' \<in> set rows'" "same_row r r'" using kept by blast
    then show "\<exists>r \<in> set rows'. im_id r = i \<and> is_completion i \<and> (if i \<in> ns_deliveries S then im_wake_due r \<noteq> None \<or> i \<in> D else im_wake_due r = None)"
      using r unfolding same_row_def by metis
  qed (use s in \<open>auto simp: wake_inv_def started_ok_def\<close>)
  have t: "tracked rows' (held_ids (ns_batches S) \<union> ns_deliveries S \<union> L)"
    using calm_due_ids [OF c] s unfolding wake_inv_def tracked_def by blast
  have a: "answered rows' (A \<union> D)"
    using c s unfolding wake_inv_def answered_def calm_def same_row_def by (metis (no_types, lifting))
  show ?thesis unfolding wake_inv_def using m h d t a by simp
qed

section \<open>A new notice is held\<close>

lemma held_for_other [simp]: "l \<noteq> k \<Longrightarrow> held_for (B(k \<mapsto> ns)) l = held_for B l" "held_for (B(k \<mapsto> ns)) k = ns"
  "l \<noteq> k \<Longrightarrow> held_for (B(k := None)) l = held_for B l" "held_for (B(k := None)) k = []" "held_for Map.empty l = []"
  by (simp_all add: held_for_def)

lemma held_ids_add: "held_ids (B(k \<mapsto> held_for B k @ [c])) = insert (cn_id c) (held_ids B)"
proof -
  have "n \<in> set (held_for (B(k \<mapsto> held_for B k @ [c])) l) \<longleftrightarrow> n \<in> set (held_for B l) \<or> (l = k \<and> n = c)" for n l
    by (cases "l = k") auto
  then show ?thesis unfolding held_ids_def by auto
qed

lemma held_ids_remove: "held_ids B \<subseteq> held_ids (B(k := None)) \<union> cn_id ` set (held_for B k)"
proof
  fix i assume "i \<in> held_ids B"
  then obtain n l where n: "i = cn_id n" "n \<in> set (held_for B l)" unfolding held_ids_def by blast
  show "i \<in> held_ids (B(k := None)) \<union> cn_id ` set (held_for B k)"
  proof (cases "l = k")
    case False
    then have "n \<in> set (held_for (B(k := None)) l)" using n by simp
    then show ?thesis using n unfolding held_ids_def by blast
  qed (use n in blast)
qed

text \<open>What the invariant needs of a notice to hold it.\<close>

definition holdable :: "inbox \<Rightarrow> string list \<Rightarrow> string set \<Rightarrow> completion_notice \<Rightarrow> bool" where
  "holdable rows started D c \<longleftrightarrow> cn_id c \<notin> set started \<and>
     (\<exists>r \<in> set rows. im_id r = cn_id c \<and> im_to r = cn_to c \<and> is_completion (im_id r) \<and> (im_wake_due r \<noteq> None \<or> im_id r \<in> D))"

lemma hold_keeps:
  assumes "wake_inv (insert (cn_id c) L) D A S" and "holdable (ns_inbox S) (ns_started S) D c"
  shows "wake_inv L D A (hold_for_batch c S)" and "cn_id c \<in> held_ids (ns_batches (hold_for_batch c S))"
    and "held_ids (ns_batches S) \<subseteq> held_ids (ns_batches (hold_for_batch c S))"
    and "ns_inbox (hold_for_batch c S) = ns_inbox S" "ns_deliveries (hold_for_batch c S) = ns_deliveries S"
      "ns_started (hold_for_batch c S) = ns_started S"
proof -
  let ?B = "ns_batches S" and ?k = "cn_to c"
  let ?B' = "?B(?k \<mapsto> held_for ?B ?k @ [c])"
  show "ns_inbox (hold_for_batch c S) = ns_inbox S" "ns_deliveries (hold_for_batch c S) = ns_deliveries S"
      "ns_started (hold_for_batch c S) = ns_started S"
    by (simp_all add: hold_for_batch_def)
  have ids: "held_ids (ns_batches (hold_for_batch c S)) = insert (cn_id c) (held_ids ?B)"
  proof (cases "list_ex (\<lambda>n. cn_id n = cn_id c) (held_for ?B ?k)")
    case True
    then have "cn_id c \<in> held_ids ?B" unfolding held_ids_def list_ex_iff by (metis (mono_tags, lifting) mem_Collect_eq)
    then show ?thesis using True by (simp add: hold_for_batch_def insert_absorb)
  next
    case False
    then show ?thesis by (simp add: hold_for_batch_def held_ids_add)
  qed
  show "cn_id c \<in> held_ids (ns_batches (hold_for_batch c S))" "held_ids ?B \<subseteq> held_ids (ns_batches (hold_for_batch c S))"
    using ids by auto
  have old: "held_ok (ns_inbox S) (ns_started S) D ?B" using assms(1) unfolding wake_inv_def by blast
  have "held_ok (ns_inbox S) (ns_started S) D (ns_batches (hold_for_batch c S))"
  proof (cases "list_ex (\<lambda>n. cn_id n = cn_id c) (held_for ?B ?k)")
    case True
    then show ?thesis using old by (simp add: hold_for_batch_def)
  next
    case False
    have B: "ns_batches (hold_for_batch c S) = ?B'" using False by (simp add: hold_for_batch_def)
    have "distinct (map cn_id (held_for ?B' l))" for l
      using old False by (cases "l = ?k") (auto simp: held_ok_def list_ex_iff)
    moreover have "cn_to n = l \<and> cn_id n \<notin> set (ns_started S) \<and>
        (\<exists>r \<in> set (ns_inbox S). im_id r = cn_id n \<and> im_to r = l \<and> is_completion (im_id r) \<and> (im_wake_due r \<noteq> None \<or> im_id r \<in> D))"
      if n: "n \<in> set (held_for ?B' l)" for l n
    proof (cases "l = ?k \<and> n = c")
      case True
      then show ?thesis using assms(2) unfolding holdable_def by blast
    next
      case False
      then have "n \<in> set (held_for ?B l)" using n by (cases "l = ?k") auto
      then show ?thesis using old unfolding held_ok_def by blast
    qed
    ultimately show ?thesis unfolding B held_ok_def by blast
  qed
  then show "wake_inv L D A (hold_for_batch c S)"
    using assms(1) ids unfolding wake_inv_def
    by (auto simp: tracked_def hold_for_batch_def)
qed

text \<open>A new row with its wake mark, not yet held.\<close>

lemma new_row_keeps:
  assumes s: "wake_inv L D A S" and r: "im_id r \<notin> im_id ` set (ns_inbox S)" "is_completion (im_id r)"
      "starts_with (im_id r) BATCH_PREFIX \<longrightarrow>
         (\<exists>q \<in> set (ns_inbox S). \<not> undelivered q \<and> is_completion (im_id q) \<and> im_id r = BATCH_PREFIX @ im_to q @ '':'' @ im_id q)"
      "CHR '':'' \<notin> set (im_to r)" "im_wake_due r \<noteq> None"
  shows "wake_inv (insert (im_id r) L) D A (S\<lparr>ns_inbox := ns_inbox S @ [r]\<rparr>)" and "im_id r \<notin> set (ns_started S)"
proof -
  have "mail_ok (ns_inbox S @ [r])" using s r unfolding wake_inv_def mail_ok_def by auto
  moreover have "held_ok (ns_inbox S @ [r]) (ns_started S) D (ns_batches S)"
    using s unfolding wake_inv_def held_ok_def by (simp add: bex_Un)
  moreover have "started_ok (ns_inbox S @ [r]) (ns_started S) D (ns_deliveries S)"
    using s unfolding wake_inv_def started_ok_def by (simp add: bex_Un)
  moreover have "due_ids (ns_inbox S @ [r]) \<subseteq> insert (im_id r) (due_ids (ns_inbox S))" by (auto simp: due_ids_def)
  then have "tracked (ns_inbox S @ [r]) (held_ids (ns_batches S) \<union> ns_deliveries S \<union> insert (im_id r) L)"
    using s unfolding wake_inv_def tracked_def by blast
  moreover have "answered (ns_inbox S @ [r]) (A \<union> D)" using s r unfolding wake_inv_def answered_def by auto
  ultimately show "wake_inv (insert (im_id r) L) D A (S\<lparr>ns_inbox := ns_inbox S @ [r]\<rparr>)" unfolding wake_inv_def by simp
  show "im_id r \<notin> set (ns_started S)" using s r(1) unfolding wake_inv_def started_ok_def by (metis image_eqI)
qed

lemma mark_new: "i \<notin> im_id ` set rows \<Longrightarrow> im_id r = i \<Longrightarrow> mark_wake_due i now (rows @ [r]) = rows @ [r\<lparr>im_wake_due := Some now\<rparr>]"
  unfolding mark_wake_due_def by (auto intro!: map_idI simp: image_iff)

lemma completion_id_facts: "is_completion (completion_id x t)" "\<not> starts_with (completion_id x t) BATCH_PREFIX"
  by (simp_all add: is_completion_def completion_id_def starts_with_def BATCH_PREFIX_def)

lemma launcher_plain:
  "plain_ids w \<Longrightarrow> launcher_of w x = Inr (Some (c, parent)) \<Longrightarrow> CHR '':'' \<notin> set parent"
  by (auto simp: launcher_of_def and_then_Inr_iff find_chat_def plain_ids_def split: option.splits if_splits sum.splits
      dest!: find_Some_mem)

lemma built_notice:
  assumes "build_completion_notice local w now x state t shape rows tasks = (res, rows', tasks')" and "plain_ids w"
  shows "((\<nexists>c. res = Inr (Some c)) \<and> rows' = rows) \<or>
    (\<exists>c r. res = Inr (Some c) \<and> rows' = rows @ [r] \<and> im_id r \<notin> im_id ` set rows \<and> cn_id c = im_id r \<and> cn_to c = im_to r \<and>
       is_completion (im_id r) \<and> \<not> starts_with (im_id r) BATCH_PREFIX \<and> CHR '':'' \<notin> set (im_to r) \<and>
       im_wake_due r = Some now \<and> undelivered r)"
proof (cases "\<exists>c parent. launcher_of w x = Inr (Some (c, parent))")
  case False
  then show ?thesis using assms(1) by (auto simp: build_completion_notice_def split: sum.splits option.splits prod.splits)
next
  case True
  then obtain c parent where l: "launcher_of w x = Inr (Some (c, parent))" by blast
  show ?thesis
    using assms(1) launcher_plain [OF assms(2) l] completion_id_facts
    by (auto simp: build_completion_notice_def l Let_def insert_session_message_def mark_new undelivered_def split: if_splits option.splits)
qed

lemma emit_keeps:
  assumes s: "wake_inv L D A S" and w: "plain_ids w"
  shows "wake_inv L D A (emit_completion_notice local w now x state t shape S)"
proof -
  obtain res rows tasks where b: "build_completion_notice local w now x state t shape (ns_inbox S) (ns_routines S) = (res, rows, tasks)"
    by (metis prod_cases3)
  let ?S = "S\<lparr>ns_inbox := rows, ns_routines := tasks\<rparr>"
  from built_notice [OF b w] show ?thesis
  proof (elim disjE conjE exE)
    assume no: "\<nexists>c. res = Inr (Some c)" and rows: "rows = ns_inbox S"
    have "emit_completion_notice local w now x state t shape S = ?S"
      using no by (auto simp: emit_completion_notice_def b Let_def split: sum.splits option.splits)
    then show ?thesis using s rows wake_inv_fields [of ?S S] by simp
  next
    fix c r assume r: "res = Inr (Some c)" "rows = ns_inbox S @ [r]" "im_id r \<notin> im_id ` set (ns_inbox S)" "cn_id c = im_id r"
      "cn_to c = im_to r" "is_completion (im_id r)" "\<not> starts_with (im_id r) BATCH_PREFIX" "CHR '':'' \<notin> set (im_to r)"
      "im_wake_due r = Some now" "undelivered r"
    have "emit_completion_notice local w now x state t shape S = hold_for_batch c ?S"
      using r(1) by (simp add: emit_completion_notice_def b)
    moreover have "wake_inv (insert (cn_id c) L) D A (S\<lparr>ns_inbox := ns_inbox S @ [r]\<rparr>)" "im_id r \<notin> set (ns_started S)"
      using new_row_keeps [OF s] r by simp_all
    then have "wake_inv (insert (cn_id c) L) D A ?S" "holdable (ns_inbox ?S) (ns_started ?S) D c"
      using r wake_inv_fields [of ?S "S\<lparr>ns_inbox := ns_inbox S @ [r]\<rparr>"] by (auto simp: holdable_def)
    ultimately show ?thesis using hold_keeps(1) by metis
  qed
qed

section \<open>A delivery ends\<close>

lemma clear_ids [simp]: "map im_id (clear_wake_due i rows) = map im_id rows"
  by (simp add: clear_wake_due_def)

lemma clear_mem: "r' \<in> set (clear_wake_due i rows) \<longleftrightarrow> (\<exists>r \<in> set rows. r' = (if im_id r = i then r\<lparr>im_wake_due := None\<rparr> else r))"
  by (simp only: clear_wake_due_def set_map image_iff)

lemma clear_in: "r \<in> set rows \<Longrightarrow> (if im_id r = i then r\<lparr>im_wake_due := None\<rparr> else r) \<in> set (clear_wake_due i rows)"
  by (simp add: clear_wake_due_def)

lemma clear_mail: "mail_ok rows \<Longrightarrow> mail_ok (clear_wake_due i rows)"
proof -
  assume m: "mail_ok rows"
  have "\<exists>q' \<in> set (clear_wake_due i rows). im_id q' = im_id q \<and> im_to q' = im_to q \<and> undelivered q' = undelivered q" if "q \<in> set rows" for q
    by (rule bexI [OF _ clear_in [OF that, of i]]) (simp add: undelivered_def)
  moreover have "\<exists>q \<in> set rows. im_id q' = im_id q \<and> im_to q' = im_to q \<and> undelivered q' = undelivered q \<and> (im_wake_due q' \<noteq> None \<longrightarrow> im_wake_due q \<noteq> None)"
    if "q' \<in> set (clear_wake_due i rows)" for q'
    using that unfolding clear_mem by (auto simp: undelivered_def)
  ultimately show ?thesis using m unfolding mail_ok_def clear_ids by (smt (verit, ccfv_threshold))
qed

lemma due_ids_clear: "due_ids (clear_wake_due i rows) \<subseteq> due_ids rows - {i}"
proof
  fix k assume "k \<in> due_ids (clear_wake_due i rows)"
  then obtain r' where r': "r' \<in> set (clear_wake_due i rows)" "k = im_id r'" "im_wake_due r' \<noteq> None" "undelivered r'"
    unfolding due_ids_def by blast
  then obtain r where r: "r \<in> set rows" "r' = (if im_id r = i then r\<lparr>im_wake_due := None\<rparr> else r)" unfolding clear_mem by blast
  have "im_id r \<noteq> i" using r(2) r'(3) by auto
  then show "k \<in> due_ids rows - {i}" using r r' unfolding due_ids_def by auto
qed

lemma clear_keeps:
  assumes s: "wake_inv L D A S" and i: "i \<notin> ns_deliveries S \<and> D' = insert i D \<and> A' = A \<and> Q = ns_deliveries S \<or>
      i \<in> ns_deliveries S \<and> D' = D \<and> A' = insert i A \<and> Q = ns_deliveries S - {i}"
  shows "wake_inv L D' A' (S\<lparr>ns_inbox := clear_wake_due i (ns_inbox S), ns_deliveries := Q\<rparr>)"
proof -
  let ?rows = "clear_wake_due i (ns_inbox S)"
  have new: "\<exists>r' \<in> set ?rows. im_id r' = im_id r \<and> im_to r' = im_to r \<and> (if im_id r = i then im_wake_due r' = None else r' = r)"
    if "r \<in> set (ns_inbox S)" for r
    by (rule bexI [OF _ clear_in [OF that, of i]]) simp
  have started: "i \<in> set (ns_started S) \<and> (\<forall>l. \<forall>n \<in> set (held_for (ns_batches S) l). cn_id n \<noteq> i)" if "i \<in> ns_deliveries S"
    using s that unfolding wake_inv_def started_ok_def held_ok_def by blast
  have h: "held_ok ?rows (ns_started S) D' (ns_batches S)"
    unfolding held_ok_def
  proof (intro conjI allI ballI)
    fix l n assume n: "n \<in> set (held_for (ns_batches S) l)"
    then obtain r where r: "r \<in> set (ns_inbox S)" "im_id r = cn_id n" "im_to r = l" "is_completion (im_id r)" "im_wake_due r \<noteq> None \<or> im_id r \<in> D"
      using s unfolding wake_inv_def held_ok_def by blast
    obtain r' where r': "r' \<in> set ?rows" "im_id r' = im_id r" "im_to r' = im_to r" "if im_id r = i then im_wake_due r' = None else r' = r"
      using new [OF r(1)] by blast
    have "im_wake_due r' \<noteq> None \<or> im_id r' \<in> D'"
    proof (cases "im_id r = i")
      case True
      then have "i \<notin> ns_deliveries S" using started n r(2) by metis
      then show ?thesis using i r'(2) True by simp
    next
      case False
      then show ?thesis using r'(4) r(5) i by auto
    qed
    then show "\<exists>r \<in> set ?rows. im_id r = cn_id n \<and> im_to r = l \<and> is_completion (im_id r) \<and> (im_wake_due r \<noteq> None \<or> im_id r \<in> D')"
      using r r' by metis
  qed (use s in \<open>auto simp: wake_inv_def held_ok_def\<close>)
  have d: "started_ok ?rows (ns_started S) D' Q"
    unfolding started_ok_def
  proof (intro conjI ballI)
    fix k assume k: "k \<in> set (ns_started S)"
    then obtain r where r: "r \<in> set (ns_inbox S)" "im_id r = k" "is_completion k"
        "if k \<in> ns_deliveries S then im_wake_due r \<noteq> None \<or> k \<in> D else im_wake_due r = None"
      using s unfolding wake_inv_def started_ok_def by blast
    obtain r' where r': "r' \<in> set ?rows" "im_id r' = im_id r" "if im_id r = i then im_wake_due r' = None else r' = r"
      using new [OF r(1)] by blast
    have "if k \<in> Q then im_wake_due r' \<noteq> None \<or> k \<in> D' else im_wake_due r' = None"
    proof (cases "k = i")
      case True
      then show ?thesis using r r' i by auto
    next
      case False
      then show ?thesis using r r' i by auto
    qed
    then show "\<exists>r \<in> set ?rows. im_id r = k \<and> is_completion k \<and> (if k \<in> Q then im_wake_due r \<noteq> None \<or> k \<in> D' else im_wake_due r = None)"
      using r r' by metis
  qed (use s i in \<open>auto simp: wake_inv_def started_ok_def\<close>)
  have t: "tracked ?rows (held_ids (ns_batches S) \<union> Q \<union> L)"
    using s i due_ids_clear [of i "ns_inbox S"] unfolding wake_inv_def tracked_def by blast
  have a: "answered ?rows (A' \<union> D')"
    unfolding answered_def
  proof (intro ballI impI)
    fix r' assume r': "r' \<in> set ?rows" "is_completion (im_id r') \<and> undelivered r' \<and> im_wake_due r' = None"
    then obtain r where r: "r \<in> set (ns_inbox S)" "r' = (if im_id r = i then r\<lparr>im_wake_due := None\<rparr> else r)" unfolding clear_mem by blast
    show "im_id r' \<in> A' \<union> D'"
    proof (cases "im_id r = i")
      case True
      then show ?thesis using r(2) i by auto
    next
      case False
      then show ?thesis using r r'(2) s i unfolding wake_inv_def answered_def by auto
    qed
  qed
  have "mail_ok ?rows" using s clear_mail unfolding wake_inv_def by blast
  then show ?thesis unfolding wake_inv_def using h d t a by simp
qed

section \<open>A window closes\<close>

definition unread_notices :: "notice_state \<Rightarrow> string \<Rightarrow> completion_notice list" where
  "unread_notices S l = filter (\<lambda>n. \<not> is_message_delivered (cn_id n) (ns_inbox S)) (held_for (ns_batches S) l)"

definition window_chunks :: "notice_state \<Rightarrow> string \<Rightarrow> completion_notice list list" where
  "window_chunks S l = chunks MAX_BATCH_MEMBERS (unread_notices S l)"

definition closed_mail :: "string \<Rightarrow> notice_state \<Rightarrow> string \<Rightarrow> inbox" where
  "closed_mail now S l =
     mark_all (folded (window_chunks S l)) now (ns_inbox S) @
     map (\<lambda>ms. batch_row now (wake_of ms)) (filter several (window_chunks S l))"

lemma window_chunks_concat: "concat (window_chunks S l) = unread_notices S l"
  unfolding window_chunks_def by (rule chunks_concat) (simp add: MAX_BATCH_MEMBERS_def)

lemma window_chunk_sizes: "ms \<in> set (window_chunks S l) \<Longrightarrow> ms \<noteq> [] \<and> length ms \<le> MAX_BATCH_MEMBERS"
  unfolding window_chunks_def by (rule chunks_sizes)

lemma distinct_heads:
  assumes "\<forall>ms \<in> set css. ms \<noteq> []" and "distinct (map f (concat css))"
  shows "distinct (map (\<lambda>ms. f (hd ms)) css)"
  using assms
proof (induction css)
  case (Cons ms css)
  have apart: "f ` set ms \<inter> f ` set (concat css) = {}" using Cons.prems(2) by simp
  have "f (hd ms) \<noteq> f (hd x)" if x: "x \<in> set css" for x
  proof -
    have "hd x \<in> set x" "hd ms \<in> set ms" using Cons.prems(1) x by auto
    then have "hd ms \<in> set ms" "hd x \<in> set (concat css)" using x by auto
    then show ?thesis using apart by (metis disjoint_iff imageI)
  qed
  then have "f (hd ms) \<notin> (\<lambda>ms. f (hd ms)) ` set css" by auto
  then show ?case using Cons by simp
qed simp

lemma folded_subset: "folded css \<subseteq> cn_id ` set (concat css)"
  by (auto simp: folded_def)

lemma fold_start_delivery:
  "fold start_delivery ns S = S\<lparr>ns_deliveries := ns_deliveries S \<union> cn_id ` set ns, ns_started := ns_started S @ map cn_id ns\<rparr>"
  by (induction ns arbitrary: S) (simp_all add: start_delivery_def)

lemma split_at: "c \<notin> set a \<Longrightarrow> c \<notin> set b \<Longrightarrow> a @ c # x = b @ c # y \<Longrightarrow> a = b \<and> x = y"
proof (induction a arbitrary: b)
  case Nil
  then show ?case by (cases b) auto
next
  case (Cons d a)
  then show ?case by (cases b) auto
qed

text \<open>What the invariant says of the notices of one window.\<close>

lemma window_facts:
  assumes s: "wake_inv L D A S"
  shows "distinct (map cn_id (unread_notices S l))"
    and "n \<in> set (unread_notices S l) \<Longrightarrow> cn_to n = l \<and> cn_id n \<notin> set (ns_started S) \<and>
      (\<exists>r \<in> set (ns_inbox S). im_id r = cn_id n \<and> im_to r = l \<and> is_completion (im_id r) \<and> undelivered r \<and> (im_wake_due r \<noteq> None \<or> im_id r \<in> D))"
    and "n \<in> set (unread_notices S l) \<Longrightarrow> CHR '':'' \<notin> set l"
    and "n \<in> set (unread_notices S l) \<Longrightarrow> BATCH_PREFIX @ l @ '':'' @ cn_id n \<notin> im_id ` set (ns_inbox S)"
proof -
  have h: "held_ok (ns_inbox S) (ns_started S) D (ns_batches S)" and mail: "mail_ok (ns_inbox S)" using s unfolding wake_inv_def by blast+
  show "distinct (map cn_id (unread_notices S l))"
    using h unfolding held_ok_def unread_notices_def by (blast intro: distinct_map_filter)
  have facts: "cn_to n = l \<and> cn_id n \<notin> set (ns_started S) \<and>
      (\<exists>r \<in> set (ns_inbox S). im_id r = cn_id n \<and> im_to r = l \<and> is_completion (im_id r) \<and> undelivered r \<and> (im_wake_due r \<noteq> None \<or> im_id r \<in> D))"
    if "n \<in> set (unread_notices S l)" for n
  proof -
    have n: "n \<in> set (held_for (ns_batches S) l)" "\<not> is_message_delivered (cn_id n) (ns_inbox S)"
      using that by (simp_all add: unread_notices_def)
    then obtain r where r: "cn_to n = l" "cn_id n \<notin> set (ns_started S)" "r \<in> set (ns_inbox S)" "im_id r = cn_id n" "im_to r = l"
        "is_completion (im_id r)" "im_wake_due r \<noteq> None \<or> im_id r \<in> D"
      using h unfolding held_ok_def by blast
    moreover have "undelivered r" using n(2) r(3,4) by (auto simp: is_message_delivered_def list_ex_iff)
    ultimately show ?thesis by blast
  qed
  then show "n \<in> set (unread_notices S l) \<Longrightarrow> cn_to n = l \<and> cn_id n \<notin> set (ns_started S) \<and>
      (\<exists>r \<in> set (ns_inbox S). im_id r = cn_id n \<and> im_to r = l \<and> is_completion (im_id r) \<and> undelivered r \<and> (im_wake_due r \<noteq> None \<or> im_id r \<in> D))" .
  have colon: "CHR '':'' \<notin> set l" if n: "n \<in> set (unread_notices S l)" for n
  proof -
    obtain r where "r \<in> set (ns_inbox S)" "im_to r = l" "is_completion (im_id r)" using facts [OF n] by blast
    then show ?thesis using mail unfolding mail_ok_def by blast
  qed
  then show "n \<in> set (unread_notices S l) \<Longrightarrow> CHR '':'' \<notin> set l" .
  show "BATCH_PREFIX @ l @ '':'' @ cn_id n \<notin> im_id ` set (ns_inbox S)" if m: "n \<in> set (unread_notices S l)"
  proof
    assume "BATCH_PREFIX @ l @ '':'' @ cn_id n \<in> im_id ` set (ns_inbox S)"
    then obtain r where "r \<in> set (ns_inbox S)" "im_id r = BATCH_PREFIX @ l @ '':'' @ cn_id n" by auto
    then obtain q where q: "q \<in> set (ns_inbox S)" "\<not> undelivered q" "is_completion (im_id q)"
        "BATCH_PREFIX @ l @ '':'' @ cn_id n = BATCH_PREFIX @ im_to q @ '':'' @ im_id q"
      using mail unfolding mail_ok_def by (metis starts_with_append)
    have a: "CHR '':'' \<notin> set (im_to q)" using mail q(1,3) unfolding mail_ok_def by blast
    have b: "l @ CHR '':'' # cn_id n = im_to q @ CHR '':'' # im_id q" using q(4) by simp
    have same: "l = im_to q \<and> cn_id n = im_id q" by (rule split_at [OF colon [OF m] a b])
    obtain r where r: "r \<in> set (ns_inbox S)" "im_id r = cn_id n" "undelivered r" using facts [OF m] by blast
    have "q = r" by (rule same_id [OF mail q(1) r(1)]) (simp only: r(2) same)
    then show False using r(3) q(2) by simp
  qed
qed

lemma several_wake: "several ms \<Longrightarrow> cn_id (wake_of ms) = BATCH_PREFIX @ cn_to (hd ms) @ '':'' @ cn_id (hd ms) \<and> cn_to (wake_of ms) = cn_to (hd ms)"
proof -
  assume s: "several ms"
  then have "wake_of ms = the (batch_notice ms)" "ms \<noteq> []" by (auto simp: wake_of_def several_def split: list.splits)
  then show ?thesis using batch_notice_id [of ms] by (simp add: BATCH_PREFIX_def)
qed

lemma single_wake: "ms \<noteq> [] \<Longrightarrow> \<not> several ms \<Longrightarrow> ms = [wake_of ms]"
  by (cases ms; cases "tl ms") (auto simp: several_def wake_of_def)

lemma window_wakes:
  assumes s: "wake_inv L D A S"
  shows "coalesce None now (held_for (ns_batches S) l) (ns_inbox S) = Inr (map wake_of (window_chunks S l), closed_mail now S l)"
    and "distinct (map (\<lambda>ms. cn_id (wake_of ms)) (window_chunks S l))"
    and "ms \<in> set (window_chunks S l) \<Longrightarrow> several ms \<Longrightarrow> cn_id (wake_of ms) \<notin> im_id ` set (ns_inbox S)"
proof -
  let ?css = "window_chunks S l" and ?ids = "im_id ` set (ns_inbox S)"
  have sizes: "\<forall>ms \<in> set ?css. ms \<noteq> []" using window_chunk_sizes by blast
  have member: "n \<in> set (unread_notices S l)" if "ms \<in> set ?css" "n \<in> set ms" for ms n
    using that window_chunks_concat [of S l] by (metis concat.simps(2) in_set_conv_decomp set_concat UN_I)
  have id_in: "cn_id n \<in> ?ids" if "n \<in> set (unread_notices S l)" for n
    using window_facts(2) [OF s that] by (metis image_eqI)
  have subset: "cn_id ` set (unread_notices S l) \<subseteq> ?ids" using id_in by blast
  have fresh: "cn_id (wake_of ms) \<notin> ?ids" if ms: "ms \<in> set ?css" "several ms" for ms
  proof -
    have hd: "hd ms \<in> set (unread_notices S l)" using member [OF ms(1)] sizes ms(1) by simp
    have "cn_id (wake_of ms) = BATCH_PREFIX @ l @ '':'' @ cn_id (hd ms)" using several_wake [OF ms(2)] window_facts(2) [OF s hd] by simp
    then show ?thesis using window_facts(4) [OF s hd] by simp
  qed
  then show "ms \<in> set ?css \<Longrightarrow> several ms \<Longrightarrow> cn_id (wake_of ms) \<notin> ?ids" .
  have heads: "distinct (map (\<lambda>ms. cn_id (hd ms)) ?css)"
    using distinct_heads [OF sizes, of cn_id] window_facts(1) [OF s] window_chunks_concat by metis
  have inj: "ms = ms'" if m: "ms \<in> set ?css" "ms' \<in> set ?css" "cn_id (wake_of ms) = cn_id (wake_of ms')" for ms ms'
  proof -
    have hd: "hd ms \<in> set (unread_notices S l)" "hd ms' \<in> set (unread_notices S l)" using member m(1,2) sizes by simp_all
    have single: "cn_id (wake_of x) = cn_id (hd x)" if "x \<in> set ?css" "\<not> several x" for x
      using single_wake [of x] sizes that by (metis list.sel(1))
    have "several ms = several ms'"
      using fresh [OF m(1)] fresh [OF m(2)] single [OF m(1)] single [OF m(2)] id_in [OF hd(1)] id_in [OF hd(2)] m(3) by metis
    then have "cn_id (hd ms) = cn_id (hd ms')"
      using several_wake [of ms] several_wake [of ms'] window_facts(2) [OF s hd(1)] window_facts(2) [OF s hd(2)]
        single [OF m(1)] single [OF m(2)] m(3) by (cases "several ms") auto
    then show ?thesis using heads m(1,2) by (auto simp: distinct_map inj_on_def)
  qed
  show dist: "distinct (map (\<lambda>ms. cn_id (wake_of ms)) ?css)"
    using heads inj by (auto simp: distinct_map inj_on_def)
  have "fold_res (wake_chunk now) ?css ([], ns_inbox S) =
      Inr ([] @ map wake_of ?css, mark_all (folded ?css) now (ns_inbox S) @ map (\<lambda>ms. batch_row now (wake_of ms)) (filter several ?css))"
  proof (rule wake_chunks [OF sizes])
    show "distinct (map (\<lambda>ms. cn_id (wake_of ms)) (filter several ?css))"
      using dist by (auto simp: distinct_map inj_on_def)
    show "\<forall>ms \<in> set ?css. several ms \<longrightarrow> cn_id (wake_of ms) \<notin> ?ids \<union> cn_id ` set (concat ?css)"
      using fresh subset unfolding window_chunks_concat by blast
  qed
  then show "coalesce None now (held_for (ns_batches S) l) (ns_inbox S) = Inr (map wake_of ?css, closed_mail now S l)"
    by (simp add: coalesce_def window_chunks_def unread_notices_def closed_mail_def)
qed


lemma wake_inv_left:
  "wake_inv L D A S \<Longrightarrow> due_ids (ns_inbox S) \<subseteq> held_ids (ns_batches S) \<union> ns_deliveries S \<union> L' \<Longrightarrow> wake_inv L' D A S"
  by (simp add: wake_inv_def tracked_def)

lemma wake_inv_due: "wake_inv L D A S \<Longrightarrow> due_ids (ns_inbox S) \<subseteq> held_ids (ns_batches S) \<union> ns_deliveries S \<union> L"
  by (simp add: wake_inv_def tracked_def)

lemma remove_window:
  assumes "wake_inv L D A S"
  shows "wake_inv (L \<union> cn_id ` set (held_for (ns_batches S) l)) D A (S\<lparr>ns_batches := (ns_batches S)(l := None)\<rparr>)"
proof -
  let ?B = "(ns_batches S)(l := None)"
  have h: "held_ok (ns_inbox S) (ns_started S) D (ns_batches S)" using assms unfolding wake_inv_def by blast
  have "distinct (map cn_id (held_for ?B k))" for k using h by (cases "k = l") (auto simp: held_ok_def)
  moreover have "n \<in> set (held_for (ns_batches S) k)" if "n \<in> set (held_for ?B k)" for n k
    using that by (cases "k = l") simp_all
  ultimately have "held_ok (ns_inbox S) (ns_started S) D ?B" using h unfolding held_ok_def by blast
  then show ?thesis
    using assms held_ids_remove [of "ns_batches S" l] unfolding wake_inv_def tracked_def by auto
qed

text \<open>Notices handed to their deliveries.\<close>

lemma start_keeps:
  assumes s: "wake_inv (L \<union> cn_id ` set ws) D A S" and d: "distinct (map cn_id ws)"
    and w: "\<forall>w \<in> set ws. holdable (ns_inbox S) (ns_started S) D w \<and> cn_id w \<notin> held_ids (ns_batches S)"
  shows "wake_inv L D A (fold start_delivery ws S)"
proof -
  let ?X = "cn_id ` set ws"
  have new: "cn_id w \<notin> set (ns_started S) \<and> (\<exists>r \<in> set (ns_inbox S). im_id r = cn_id w \<and> is_completion (cn_id w) \<and> (im_wake_due r \<noteq> None \<or> cn_id w \<in> D))"
    if "w \<in> set ws" for w
    using w that unfolding holdable_def by metis
  have "distinct (ns_started S @ map cn_id ws)" using s d new unfolding wake_inv_def started_ok_def by auto
  moreover have "\<exists>r \<in> set (ns_inbox S). im_id r = i \<and> is_completion i \<and>
      (if i \<in> ns_deliveries S \<union> ?X then im_wake_due r \<noteq> None \<or> i \<in> D else im_wake_due r = None)"
    if i: "i \<in> set (ns_started S @ map cn_id ws)" for i
  proof (cases "i \<in> ?X")
    case True
    then show ?thesis using new by fastforce
  next
    case False
    then have "i \<in> set (ns_started S)" using i by auto
    then have "\<exists>r \<in> set (ns_inbox S). im_id r = i \<and> is_completion i \<and>
        (if i \<in> ns_deliveries S then im_wake_due r \<noteq> None \<or> i \<in> D else im_wake_due r = None)"
      using s unfolding wake_inv_def started_ok_def by blast
    then show ?thesis using False by simp
  qed
  ultimately have st: "started_ok (ns_inbox S) (ns_started S @ map cn_id ws) D (ns_deliveries S \<union> ?X)"
    using s unfolding wake_inv_def started_ok_def by auto
  have "cn_id n \<notin> ?X" if n: "n \<in> set (held_for (ns_batches S) l)" for n l
  proof -
    have "cn_id n \<in> held_ids (ns_batches S)" using n unfolding held_ids_def by blast
    then show ?thesis using w by (metis imageE)
  qed
  then have "held_ok (ns_inbox S) (ns_started S @ map cn_id ws) D (ns_batches S)"
    using s unfolding wake_inv_def held_ok_def by fastforce
  then show ?thesis
    using s st unfolding wake_inv_def tracked_def fold_start_delivery by auto
qed

lemma window_members_apart:
  assumes "wake_inv L D A S" and "n \<in> set (held_for (ns_batches S) l)"
  shows "cn_id n \<notin> held_ids ((ns_batches S)(l := None))"
proof
  assume "cn_id n \<in> held_ids ((ns_batches S)(l := None))"
  then obtain m k where m: "m \<in> set (held_for ((ns_batches S)(l := None)) k)" "cn_id m = cn_id n" unfolding held_ids_def by auto
  then have k: "k \<noteq> l" "m \<in> set (held_for (ns_batches S) k)" by (cases "k = l"; auto)+
  have h: "held_ok (ns_inbox S) (ns_started S) D (ns_batches S)" "mail_ok (ns_inbox S)" using assms(1) unfolding wake_inv_def by blast+
  obtain r where r: "r \<in> set (ns_inbox S)" "im_id r = cn_id n" "im_to r = l" using h(1) assms(2) unfolding held_ok_def by blast
  obtain q where q: "q \<in> set (ns_inbox S)" "im_id q = cn_id m" "im_to q = k" using h(1) k(2) unfolding held_ok_def by blast
  have "q = r" using same_id [OF h(2) q(1) r(1)] q(2) r(2) m(2) by simp
  then show False using r(3) q(3) k(1) by simp
qed

lemma held_facts:
  assumes "wake_inv L D A S" and "n \<in> set (held_for (ns_batches S) l)"
  shows "holdable (ns_inbox S) (ns_started S) D n"
  using assms unfolding wake_inv_def held_ok_def holdable_def by metis


lemma calm_mark_all: "calm rows (mark_all A now rows)"
  unfolding mark_all_def by (rule calm_map) (simp add: same_row_def undelivered_def)

lemma marked_unread: "r \<in> set (mark_all A now rows) \<Longrightarrow> undelivered r \<Longrightarrow> im_id r \<notin> A"
  by (auto simp: mark_all_def undelivered_def)

lemma marked_read: "r \<in> set rows \<Longrightarrow> im_id r \<in> A \<Longrightarrow> \<exists>q \<in> set (mark_all A now rows). same_row r q \<and> \<not> undelivered q"
  unfolding mark_all_def
  by (rule bexI [where x = "if im_id r \<in> A \<and> undelivered r then r\<lparr>im_delivered := Some now\<rparr> else r"])
    (auto simp: same_row_def undelivered_def)

text \<open>Batch rows come in one by one.\<close>

lemma batch_rows_keep:
  assumes "wake_inv L D A S" and "distinct (map (\<lambda>ms. cn_id (wake_of ms)) css)"
    and "\<forall>ms \<in> set css. several ms \<and> cn_id (wake_of ms) \<notin> im_id ` set (ns_inbox S) \<and> CHR '':'' \<notin> set (cn_to (hd ms)) \<and>
      (\<exists>q \<in> set (ns_inbox S). \<not> undelivered q \<and> is_completion (im_id q) \<and> im_to q = cn_to (hd ms) \<and> im_id q = cn_id (hd ms))"
  shows "wake_inv (L \<union> (\<lambda>ms. cn_id (wake_of ms)) ` set css) D A
    (S\<lparr>ns_inbox := ns_inbox S @ map (\<lambda>ms. batch_row now (wake_of ms)) css\<rparr>)"
  using assms
proof (induction css arbitrary: L S)
  case Nil
  then show ?case by simp
next
  case (Cons ms css)
  let ?r = "batch_row now (wake_of ms)"
  let ?S = "S\<lparr>ns_inbox := ns_inbox S @ [?r]\<rparr>"
  have m: "several ms" "cn_id (wake_of ms) \<notin> im_id ` set (ns_inbox S)" "CHR '':'' \<notin> set (cn_to (hd ms))"
    "\<exists>q \<in> set (ns_inbox S). \<not> undelivered q \<and> is_completion (im_id q) \<and> im_to q = cn_to (hd ms) \<and> im_id q = cn_id (hd ms)"
    using Cons.prems(3) by simp_all
  have w: "cn_id (wake_of ms) = BATCH_PREFIX @ cn_to (hd ms) @ '':'' @ cn_id (hd ms)" "cn_to (wake_of ms) = cn_to (hd ms)"
    using several_wake [OF m(1)] by simp_all
  have r: "im_id ?r = cn_id (wake_of ms)" "im_to ?r = cn_to (hd ms)" "im_wake_due ?r = Some now" using w(2) by (simp_all add: batch_row_def)
  have "wake_inv (insert (im_id ?r) L) D A ?S"
  proof (rule new_row_keeps(1) [OF Cons.prems(1)])
    show "im_id ?r \<notin> im_id ` set (ns_inbox S)" unfolding r(1) by (rule m(2))
    show "is_completion (im_id ?r)" unfolding r w by (simp add: is_completion_def starts_with_def BATCH_PREFIX_def)
    obtain q where q: "q \<in> set (ns_inbox S)" "\<not> undelivered q" "is_completion (im_id q)" "im_to q = cn_to (hd ms)" "im_id q = cn_id (hd ms)"
      using m(4) by blast
    have "im_id ?r = BATCH_PREFIX @ im_to q @ '':'' @ im_id q" unfolding r w q(4,5) ..
    then show "starts_with (im_id ?r) BATCH_PREFIX \<longrightarrow>
        (\<exists>q \<in> set (ns_inbox S). \<not> undelivered q \<and> is_completion (im_id q) \<and> im_id ?r = BATCH_PREFIX @ im_to q @ '':'' @ im_id q)"
      using q(1-3) by blast
    show "CHR '':'' \<notin> set (im_to ?r)" unfolding r(2) by (rule m(3))
    show "im_wake_due ?r \<noteq> None" by (simp add: r)
  qed
  then have "wake_inv (insert (im_id ?r) L \<union> (\<lambda>ms. cn_id (wake_of ms)) ` set css) D A
      (?S\<lparr>ns_inbox := ns_inbox ?S @ map (\<lambda>ms. batch_row now (wake_of ms)) css\<rparr>)"
  proof (rule Cons.IH)
    show "distinct (map (\<lambda>ms. cn_id (wake_of ms)) css)" using Cons.prems(2) by simp
    show "\<forall>ms \<in> set css. several ms \<and> cn_id (wake_of ms) \<notin> im_id ` set (ns_inbox ?S) \<and> CHR '':'' \<notin> set (cn_to (hd ms)) \<and>
      (\<exists>q \<in> set (ns_inbox ?S). \<not> undelivered q \<and> is_completion (im_id q) \<and> im_to q = cn_to (hd ms) \<and> im_id q = cn_id (hd ms))"
    proof
      fix x assume x: "x \<in> set css"
      have "cn_id (wake_of x) \<noteq> cn_id (wake_of ms)"
        using Cons.prems(2) x by (auto simp: image_iff)
      then show "several x \<and> cn_id (wake_of x) \<notin> im_id ` set (ns_inbox ?S) \<and> CHR '':'' \<notin> set (cn_to (hd x)) \<and>
          (\<exists>q \<in> set (ns_inbox ?S). \<not> undelivered q \<and> is_completion (im_id q) \<and> im_to q = cn_to (hd x) \<and> im_id q = cn_id (hd x))"
        using Cons.prems(3) x r(1) by (simp add: bex_Un)
    qed
  qed
  then show ?case by (simp add: r insert_commute Un_commute)
qed


lemma unread_split: "n \<in> set (unread_notices S l) \<Longrightarrow> \<exists>ms \<in> set (window_chunks S l). n \<in> set ms"
  unfolding window_chunks_concat [symmetric] by simp

lemma flushed_due:
  assumes m: "mail_ok (ns_inbox S)"
  shows "due_ids (closed_mail now S l) \<subseteq>
     (due_ids (ns_inbox S) - cn_id ` set (held_for (ns_batches S) l)) \<union> (\<lambda>ms. cn_id (wake_of ms)) ` set (window_chunks S l)"
proof
  fix i assume "i \<in> due_ids (closed_mail now S l)"
  then obtain r where r: "r \<in> set (closed_mail now S l)" "i = im_id r" "im_wake_due r \<noteq> None" "undelivered r"
    unfolding due_ids_def by blast
  show "i \<in> (due_ids (ns_inbox S) - cn_id ` set (held_for (ns_batches S) l)) \<union> (\<lambda>ms. cn_id (wake_of ms)) ` set (window_chunks S l)"
  proof (cases "r \<in> set (mark_all (folded (window_chunks S l)) now (ns_inbox S))")
    case False
    then show ?thesis using r(1,2) by (auto simp: closed_mail_def batch_row_def)
  next
    case True
    have unmarked: "i \<notin> folded (window_chunks S l)" using marked_unread [OF True r(4)] r(2) by simp
    have row: "r \<in> set (ns_inbox S)" using True r(4) by (auto simp: mark_all_def undelivered_def)
    then have due: "i \<in> due_ids (ns_inbox S)" using r unfolding due_ids_def by blast
    show ?thesis
    proof (cases "i \<in> cn_id ` set (held_for (ns_batches S) l)")
      case False
      then show ?thesis using due by blast
    next
      case True
      then obtain n where n: "n \<in> set (held_for (ns_batches S) l)" "cn_id n = i" by blast
      show ?thesis
      proof (cases "n \<in> set (unread_notices S l)")
        case True
        then obtain ms where ms: "ms \<in> set (window_chunks S l)" "n \<in> set ms" using unread_split by blast
        then have "\<not> several ms" using unmarked n(2) unfolding folded_def by blast
        then have "ms = [wake_of ms]" using single_wake window_chunk_sizes [OF ms(1)] by blast
        then have "n = wake_of ms" using ms(2) by (metis empty_iff empty_set set_ConsD)
        then have "i = cn_id (wake_of ms)" using n(2) by simp
        then show ?thesis using ms(1) by blast
      next
        case False
        then obtain q where q: "q \<in> set (ns_inbox S)" "im_id q = i" "\<not> undelivered q"
          using n by (auto simp: unread_notices_def is_message_delivered_def list_ex_iff)
        have "q = r" using same_id [OF m q(1) row] q(2) r(2) by simp
        then show ?thesis using q(3) r(4) by simp
      qed
    qed
  qed
qed


lemma marked_same: "r \<in> set rows \<Longrightarrow> \<exists>q \<in> set (mark_all A now rows). same_row r q"
  unfolding mark_all_def
  by (rule bexI [where x = "if im_id r \<in> A \<and> undelivered r then r\<lparr>im_delivered := Some now\<rparr> else r"])
    (auto simp: same_row_def undelivered_def)

lemma wakes_holdable:
  assumes s: "wake_inv L D A S" and ms: "ms \<in> set (window_chunks S l)"
  shows "holdable (closed_mail now S l) (ns_started S) D (wake_of ms) \<and> cn_id (wake_of ms) \<notin> held_ids ((ns_batches S)(l := None))"
proof (cases "several ms")
  case True
  have new: "cn_id (wake_of ms) \<notin> im_id ` set (ns_inbox S)" by (rule window_wakes(3) [OF s ms True])
  have "cn_id (wake_of ms) \<notin> set (ns_started S)" using new s unfolding wake_inv_def started_ok_def by (metis imageI)
  moreover have "batch_row now (wake_of ms) \<in> set (closed_mail now S l)" using ms True by (simp add: closed_mail_def)
  moreover have "is_completion (cn_id (wake_of ms))"
    using several_wake [OF True] by (simp add: is_completion_def starts_with_def BATCH_PREFIX_def)
  ultimately have "holdable (closed_mail now S l) (ns_started S) D (wake_of ms)"
    unfolding holdable_def by (intro conjI bexI [where x = "batch_row now (wake_of ms)"]) (simp_all add: batch_row_def)
  moreover have "cn_id (wake_of ms) \<notin> held_ids ((ns_batches S)(l := None))"
  proof
    assume "cn_id (wake_of ms) \<in> held_ids ((ns_batches S)(l := None))"
    then obtain m k where m: "m \<in> set (held_for ((ns_batches S)(l := None)) k)" "cn_id (wake_of ms) = cn_id m" unfolding held_ids_def by auto
    then have "m \<in> set (held_for (ns_batches S) k)" by (cases "k = l") simp_all
    then obtain r where "r \<in> set (ns_inbox S)" "im_id r = cn_id m" using held_facts [OF s] unfolding holdable_def by blast
    then show False using new m(2) by (metis imageI)
  qed
  ultimately show ?thesis by blast
next
  case False
  then have one: "ms = [wake_of ms]" using single_wake window_chunk_sizes [OF ms] by blast
  then have unread: "wake_of ms \<in> set (unread_notices S l)" using ms window_chunks_concat [of S l] by (metis UN_I list.set_intros(1) set_concat)
  then have held: "wake_of ms \<in> set (held_for (ns_batches S) l)" by (simp add: unread_notices_def)
  obtain r where r: "cn_to (wake_of ms) = l" "cn_id (wake_of ms) \<notin> set (ns_started S)" "r \<in> set (ns_inbox S)" "im_id r = cn_id (wake_of ms)"
      "im_to r = l" "is_completion (im_id r)" "im_wake_due r \<noteq> None \<or> im_id r \<in> D"
    using window_facts(2) [OF s unread] by blast
  obtain q where "q \<in> set (closed_mail now S l)" "same_row r q"
    using marked_same [OF r(3)] unfolding closed_mail_def by (metis Un_iff set_append)
  then have "holdable (closed_mail now S l) (ns_started S) D (wake_of ms)" using r unfolding holdable_def same_row_def by metis
  then show ?thesis using window_members_apart [OF s held] by blast
qed

lemma flush_keeps:
  assumes s: "wake_inv L D A S"
  shows "wake_inv L D A (flush_batch io now l S)"
proof (cases "ns_batches S l")
  case None
  then show ?thesis using s by (simp add: flush_batch_def)
next
  case (Some ns)
  let ?B = "(ns_batches S)(l := None)" and ?css = "window_chunks S l"
  let ?S1 = "S\<lparr>ns_batches := ?B\<rparr>"
  have ns: "held_for (ns_batches S) l = ns" using Some by (simp add: held_for_def)
  have s1: "wake_inv (L \<union> cn_id ` set ns) D A ?S1" using remove_window [OF s, of l] ns by simp
  show ?thesis
  proof (cases io)
    case (Some e)
    have "flush_batch io now l S = fold start_delivery ns ?S1"
      using \<open>ns_batches S l = Some ns\<close> Some by (simp add: flush_batch_def coalesce_def)
    moreover have "wake_inv L D A (fold start_delivery ns ?S1)"
    proof (rule start_keeps [OF s1])
      show "distinct (map cn_id ns)" using s ns unfolding wake_inv_def held_ok_def by metis
      show "\<forall>w \<in> set ns. holdable (ns_inbox ?S1) (ns_started ?S1) D w \<and> cn_id w \<notin> held_ids (ns_batches ?S1)"
        using held_facts [OF s, of _ l] window_members_apart [OF s, of _ l] ns by simp
    qed
    ultimately show ?thesis by simp
  next
    case None
    let ?marked = "mark_all (folded ?css) now (ns_inbox S)"
    let ?W = "(\<lambda>ms. cn_id (wake_of ms)) ` set ?css" and ?many = "filter several ?css"
    let ?S2 = "S\<lparr>ns_batches := ?B, ns_inbox := closed_mail now S l\<rparr>"
    have flush: "flush_batch io now l S = fold start_delivery (map wake_of ?css) ?S2"
      using \<open>ns_batches S l = Some ns\<close> None window_wakes(1) [OF s, of now l] by (simp add: flush_batch_def ns)
    have mail: "mail_ok (ns_inbox S)" using s unfolding wake_inv_def by blast
    have marked: "wake_inv (L \<union> cn_id ` set ns) D A (?S1\<lparr>ns_inbox := ?marked\<rparr>)"
      by (rule calm_keeps [OF _ s1]) (simp add: calm_mark_all)
    have chunk: "several ms \<and> cn_id (wake_of ms) \<notin> im_id ` set ?marked \<and> CHR '':'' \<notin> set (cn_to (hd ms)) \<and>
        (\<exists>q \<in> set ?marked. \<not> undelivered q \<and> is_completion (im_id q) \<and> im_to q = cn_to (hd ms) \<and> im_id q = cn_id (hd ms))"
      if ms: "ms \<in> set ?many" for ms
    proof -
      have m: "ms \<in> set ?css" "several ms" "ms \<noteq> []" using ms window_chunk_sizes [of ms S l] by auto
      have hd: "hd ms \<in> set (unread_notices S l)"
        unfolding window_chunks_concat [symmetric] using m(1) hd_in_set [OF m(3)] by auto
      obtain r where r: "r \<in> set (ns_inbox S)" "im_id r = cn_id (hd ms)" "im_to r = l" "is_completion (im_id r)" "cn_to (hd ms) = l"
        using window_facts(2) [OF s hd] by blast
      have "cn_id (hd ms) \<in> folded ?css" unfolding folded_def using m hd_in_set by blast
      then obtain q where "q \<in> set ?marked" "same_row r q" "\<not> undelivered q" using marked_read [OF r(1)] r(2) by metis
      then have "\<exists>q \<in> set ?marked. \<not> undelivered q \<and> is_completion (im_id q) \<and> im_to q = cn_to (hd ms) \<and> im_id q = cn_id (hd ms)"
        using r unfolding same_row_def by metis
      then show ?thesis using m(2) window_wakes(3) [OF s m(1,2)] window_facts(3) [OF s hd] r(5) by simp
    qed
    have dist: "distinct (map (\<lambda>ms. cn_id (wake_of ms)) ?many)" using window_wakes(2) [OF s] distinct_map_filter by blast
    have mail_of: "ns_inbox (?S1\<lparr>ns_inbox := ?marked\<rparr>) = ?marked" by simp
    have "wake_inv (L \<union> cn_id ` set ns \<union> (\<lambda>ms. cn_id (wake_of ms)) ` set ?many) D A
        (?S1\<lparr>ns_inbox := ?marked\<rparr>\<lparr>ns_inbox := ns_inbox (?S1\<lparr>ns_inbox := ?marked\<rparr>) @ map (\<lambda>ms. batch_row now (wake_of ms)) ?many\<rparr>)"
      by (rule batch_rows_keep [OF marked dist]) (unfold mail_of, intro ballI, rule chunk)
    then have full: "wake_inv (L \<union> cn_id ` set ns \<union> (\<lambda>ms. cn_id (wake_of ms)) ` set ?many) D A ?S2"
      by (simp add: closed_mail_def)
    have s2: "wake_inv (L \<union> ?W) D A ?S2"
    proof (rule wake_inv_left [OF full])
      have "due_ids (ns_inbox S) - cn_id ` set ns \<subseteq> held_ids ?B \<union> ns_deliveries S \<union> L"
        using wake_inv_due [OF s1] by auto
      then show "due_ids (ns_inbox ?S2) \<subseteq> held_ids (ns_batches ?S2) \<union> ns_deliveries ?S2 \<union> (L \<union> ?W)"
        using flushed_due [OF mail, of now l] ns by auto
    qed
    have "wake_inv L D A (fold start_delivery (map wake_of ?css) ?S2)"
    proof (rule start_keeps)
      show "wake_inv (L \<union> cn_id ` set (map wake_of ?css)) D A ?S2" using s2 by (simp add: image_image)
      show "distinct (map cn_id (map wake_of ?css))" using window_wakes(2) [OF s] by (simp add: comp_def)
      show "\<forall>w \<in> set (map wake_of ?css). holdable (ns_inbox ?S2) (ns_started ?S2) D w \<and> cn_id w \<notin> held_ids (ns_batches ?S2)"
        using wakes_holdable [OF s] by (auto simp: closed_mail_def)
    qed
    then show ?thesis by (simp only: flush)
  qed
qed


section \<open>Boot recovery\<close>

text \<open>No batch is held: a batch row goes to its delivery at once.\<close>

definition unbatched :: "(string \<rightharpoonup> completion_notice list) \<Rightarrow> bool" where
  "unbatched B \<longleftrightarrow> (\<forall>i \<in> held_ids B. \<not> starts_with i BATCH_PREFIX)"

lemma hold_ids: "held_ids (ns_batches (hold_for_batch c S)) \<subseteq> insert (cn_id c) (held_ids (ns_batches S))"
  by (auto simp: hold_for_batch_def held_ids_add)

lemma unbatched_hold: "unbatched (ns_batches S) \<Longrightarrow> \<not> starts_with (cn_id c) BATCH_PREFIX \<Longrightarrow> unbatched (ns_batches (hold_for_batch c S))"
  using hold_ids [of c S] unfolding unbatched_def by blast

lemma unbatched_emit:
  assumes u: "unbatched (ns_batches S)" and w: "plain_ids w"
  shows "unbatched (ns_batches (emit_completion_notice local w now x state t shape S))"
proof -
  obtain res rows tasks where b: "build_completion_notice local w now x state t shape (ns_inbox S) (ns_routines S) = (res, rows, tasks)"
    by (metis prod_cases3)
  show ?thesis
  proof (cases "\<exists>c. res = Inr (Some c)")
    case True
    then obtain c where c: "res = Inr (Some c)" by blast
    have "\<not> starts_with (cn_id c) BATCH_PREFIX" using built_notice [OF b w] c by auto
    then show ?thesis using u c by (auto simp: emit_completion_notice_def b intro!: unbatched_hold)
  next
    case False
    then show ?thesis using u by (auto simp: emit_completion_notice_def b Let_def split: sum.splits option.splits)
  qed
qed

lemma held_ids_less: "held_ids (B(l := None)) \<subseteq> held_ids B"
proof
  fix i assume "i \<in> held_ids (B(l := None))"
  then obtain n k where n: "i = cn_id n" "n \<in> set (held_for (B(l := None)) k)" unfolding held_ids_def by blast
  then have "n \<in> set (held_for B k)" by (cases "k = l") simp_all
  then show "i \<in> held_ids B" using n(1) unfolding held_ids_def by blast
qed

lemma unbatched_flush: "unbatched (ns_batches S) \<Longrightarrow> unbatched (ns_batches (flush_batch io now l S))"
  using held_ids_less [of "ns_batches S" l]
  by (auto simp: flush_batch_def fold_start_delivery unbatched_def Let_def split: option.splits sum.splits)

lemma notice_from_row_ids: "notice_from_row w q = Inr (Some c) \<Longrightarrow> cn_id c = im_id q \<and> cn_to c = im_to q"
  by (auto simp: notice_from_row_def and_then_Inr_iff Let_def split: sum.splits if_splits prod.splits)

lemma due_not_started:
  assumes "wake_inv L D A S" and "r \<in> set (ns_inbox S)" and "im_wake_due r \<noteq> None" and "im_id r \<notin> ns_deliveries S"
  shows "im_id r \<notin> set (ns_started S)"
proof
  assume "im_id r \<in> set (ns_started S)"
  then obtain q where "q \<in> set (ns_inbox S)" "im_id q = im_id r" "im_wake_due q = None"
    using assms(1,4) unfolding wake_inv_def started_ok_def by metis
  moreover have "mail_ok (ns_inbox S)" using assms(1) unfolding wake_inv_def by blast
  ultimately show False using same_id assms(2,3) by metis
qed

definition still_due :: "inbox \<Rightarrow> inbox \<Rightarrow> bool" where
  "still_due rows rs \<longleftrightarrow> (\<forall>q \<in> set rs. \<exists>r \<in> set rows. im_id r = im_id q \<and> im_to r = im_to q \<and> im_wake_due r \<noteq> None)"

lemma still_due_clear: "still_due rows rs \<Longrightarrow> i \<notin> im_id ` set rs \<Longrightarrow> still_due (clear_wake_due i rows) rs"
  unfolding still_due_def
proof
  fix q assume a: "\<forall>q \<in> set rs. \<exists>r \<in> set rows. im_id r = im_id q \<and> im_to r = im_to q \<and> im_wake_due r \<noteq> None" "i \<notin> im_id ` set rs" and q: "q \<in> set rs"
  then obtain r where r: "r \<in> set rows" "im_id r = im_id q" "im_to r = im_to q" "im_wake_due r \<noteq> None" by blast
  have "im_id r \<noteq> i" using a(2) q r(2) by auto
  then have "r \<in> set (clear_wake_due i rows)" using clear_in [OF r(1), of i] by simp
  then show "\<exists>r \<in> set (clear_wake_due i rows). im_id r = im_id q \<and> im_to r = im_to q \<and> im_wake_due r \<noteq> None" using r by blast
qed

definition kept_pending :: "notice_state \<Rightarrow> notice_state \<Rightarrow> bool" where
  "kept_pending S T \<longleftrightarrow> held_ids (ns_batches S) \<subseteq> held_ids (ns_batches T) \<and> ns_deliveries S \<subseteq> ns_deliveries T \<and>
     due_ids (ns_inbox T) \<subseteq> due_ids (ns_inbox S)"

lemma kept_pending_trans: "kept_pending S T \<Longrightarrow> kept_pending T U \<Longrightarrow> kept_pending S U"
  unfolding kept_pending_def by blast

definition pending_in :: "notice_state \<Rightarrow> string \<Rightarrow> bool" where
  "pending_in S i \<longleftrightarrow> i \<in> held_ids (ns_batches S) \<union> ns_deliveries S \<or> i \<notin> due_ids (ns_inbox S)"

lemma kept_pending_in: "kept_pending S T \<Longrightarrow> pending_in S i \<Longrightarrow> pending_in T i"
  unfolding kept_pending_def pending_in_def by blast

lemma recovered_row:
  assumes s: "wake_inv L D A S" and u: "unbatched (ns_batches S)" and due: "still_due (ns_inbox S) [q]"
    and out: "im_id q \<notin> ns_deliveries S" and c: "notice_from_row w q = Inr (Some c)"
    and T: "T = (if starts_with (im_id q) BATCH_PREFIX then start_delivery c S else hold_for_batch c S)"
  shows "wake_inv L D A T \<and> unbatched (ns_batches T) \<and> kept_pending S T \<and> pending_in T (im_id q) \<and> ns_inbox T = ns_inbox S"
proof -
  obtain r where r: "r \<in> set (ns_inbox S)" "im_id r = im_id q" "im_to r = im_to q" "im_wake_due r \<noteq> None"
    using due unfolding still_due_def by auto
  have ids: "cn_id c = im_id q" "cn_to c = im_to q" using notice_from_row_ids [OF c] by simp_all
  have mail: "mail_ok (ns_inbox S)" using s unfolding wake_inv_def by blast
  have h: "holdable (ns_inbox S) (ns_started S) D c"
    using due_not_started [OF s r(1,4)] out r ids mail unfolding holdable_def mail_ok_def by metis
  have more: "wake_inv (L \<union> X) D A S" for X by (rule wake_inv_left [OF s]) (use wake_inv_due [OF s] in blast)
  show ?thesis
  proof (cases "starts_with (im_id q) BATCH_PREFIX")
    case True
    have "cn_id c \<notin> held_ids (ns_batches S)" using u True ids(1) unfolding unbatched_def by auto
    then have "wake_inv L D A (fold start_delivery [c] S)" using h more [of "{cn_id c}"] by (intro start_keeps) simp_all
    then have inv: "wake_inv L D A T" using True T by simp
    have eq: "ns_batches T = ns_batches S" "ns_inbox T = ns_inbox S" "ns_deliveries T = insert (im_id q) (ns_deliveries S)"
      using True T ids(1) by (simp_all add: start_delivery_def)
    then have "kept_pending S T" "pending_in T (im_id q)" unfolding kept_pending_def pending_in_def by simp_all blast
    then show ?thesis using inv u eq by simp
  next
    case False
    have "wake_inv (insert (cn_id c) L) D A S" using more [of "{cn_id c}"] by simp
    note k = hold_keeps [OF this h]
    have eq: "T = hold_for_batch c S" using False T by simp
    have "\<not> starts_with (cn_id c) BATCH_PREFIX" unfolding ids(1) by (rule False)
    then have ub: "unbatched (ns_batches T)" unfolding eq by (rule unbatched_hold [OF u])
    have "kept_pending S T" unfolding eq kept_pending_def k(4,5) using k(3) by simp
    moreover have "pending_in T (im_id q)" unfolding eq pending_in_def using k(2) ids(1) by simp
    ultimately show ?thesis using ub k(1,4) unfolding eq by blast
  qed
qed

lemma recover_keeps:
  assumes "wake_inv L D A S" and "unbatched (ns_batches S)" and "still_due (ns_inbox S) rs" and "distinct (map im_id rs)"
    and "\<forall>q \<in> set rs. notice_from_row w q = Inr None \<longrightarrow> im_id q \<in> D" and "recover_rows w rs n S = (res, T)"
  shows "wake_inv L D A T \<and> unbatched (ns_batches T) \<and> kept_pending S T \<and> (is_ok res \<longrightarrow> (\<forall>q \<in> set rs. pending_in T (im_id q)))"
  using assms
proof (induction rs arbitrary: n S)
  case Nil
  then show ?case by (auto simp: kept_pending_def)
next
  case (Cons q rs)
  have due: "still_due (ns_inbox S) [q]" "still_due (ns_inbox S) rs" using Cons.prems(3) by (simp_all add: still_due_def)
  have rest: "distinct (map im_id rs)" "im_id q \<notin> im_id ` set rs" "\<forall>q \<in> set rs. notice_from_row w q = Inr None \<longrightarrow> im_id q \<in> D"
    using Cons.prems(4,5) by simp_all
  have finish: ?case
    if U: "wake_inv L D A U" "unbatched (ns_batches U)" "kept_pending S U" "pending_in U (im_id q)" "still_due (ns_inbox U) rs"
      and run: "recover_rows w rs m U = (res, T)" for U m
  proof -
    have "wake_inv L D A T \<and> unbatched (ns_batches T) \<and> kept_pending U T \<and> (is_ok res \<longrightarrow> (\<forall>q \<in> set rs. pending_in T (im_id q)))"
      by (rule Cons.IH [OF U(1,2,5) rest(1,3) run])
    then show ?thesis using kept_pending_trans [OF U(3)] kept_pending_in [of U T "im_id q"] U(4) by auto
  qed
  show ?case
  proof (cases "im_id q \<in> ns_deliveries S")
    case True
    show ?thesis
      by (rule finish [OF Cons.prems(1,2) _ _ due(2)]) (use True Cons.prems(6) in \<open>auto simp: kept_pending_def pending_in_def\<close>)
  next
    case False
    show ?thesis
    proof (cases "notice_from_row w q")
      case (Inl e)
      then show ?thesis using Cons.prems False by (auto simp: kept_pending_def)
    next
      case (Inr found)
      show ?thesis
      proof (cases found)
        case None
        let ?U = "S\<lparr>ns_inbox := clear_wake_due (im_id q) (ns_inbox S)\<rparr>"
        have "im_id q \<in> D" using Cons.prems(5) Inr None by simp
        then have "wake_inv L D A (S\<lparr>ns_inbox := clear_wake_due (im_id q) (ns_inbox S), ns_deliveries := ns_deliveries S\<rparr>)"
          using False by (intro clear_keeps [OF Cons.prems(1)]) auto
        then have inv: "wake_inv L D A ?U" by simp
        have pend: "kept_pending S ?U" "pending_in ?U (im_id q)"
          using due_ids_clear [of "im_id q" "ns_inbox S"] by (auto simp: kept_pending_def pending_in_def)
        have still: "still_due (ns_inbox ?U) rs" using still_due_clear [OF due(2) rest(2)] by simp
        show ?thesis by (rule finish [OF inv _ pend still]) (use Cons.prems(2,6) False Inr None in simp_all)
      next
        case (Some c)
        let ?U = "if starts_with (im_id q) BATCH_PREFIX then start_delivery c S else hold_for_batch c S"
        have r: "wake_inv L D A ?U \<and> unbatched (ns_batches ?U) \<and> kept_pending S ?U \<and> pending_in ?U (im_id q) \<and> ns_inbox ?U = ns_inbox S"
          by (rule recovered_row [OF Cons.prems(1,2) due(1) False _ refl]) (use Inr Some in simp)
        then have "still_due (ns_inbox ?U) rs" using due(2) by metis
        moreover have "recover_rows w rs (n + 1) ?U = (res, T)" using Cons.prems(6) False Inr Some by simp
        ultimately show ?thesis using finish [of ?U "n + 1"] r by blast
      qed
    qed
  qed
qed


section \<open>The user's own turns\<close>

definition digests_ok :: "notice_state \<Rightarrow> (string \<Rightarrow> nat) \<Rightarrow> (string \<Rightarrow> nat) \<Rightarrow> bool" where
  "digests_ok S turns told \<longleftrightarrow>
     (\<forall>x. turns x < 2 ^ 32 \<longrightarrow> told x + open_count x S = turns x) \<and>
     (\<forall>x d. ns_digests S x = Some d \<longrightarrow> ut_token d \<in> dt_token ` set (ns_timers S) \<and>
        (\<forall>t \<in> set (ns_timers S). dt_session t = x \<and> dt_token t = ut_token d \<longrightarrow> dt_exchanges t = ut_exchanges d))"

lemma digests_ok_fields:
  "ns_digests S = ns_digests T \<Longrightarrow> ns_timers S = ns_timers T \<Longrightarrow> digests_ok S turns told = digests_ok T turns told"
  by (simp add: digests_ok_def open_count_def)

lemma emit_digests: "ns_digests (emit_completion_notice local w now x state t shape S) = ns_digests S"
  "ns_timers (emit_completion_notice local w now x state t shape S) = ns_timers S"
  by (auto simp: emit_completion_notice_def hold_for_batch_def Let_def split: prod.splits sum.splits option.splits)

lemma flush_digests: "ns_digests (flush_batch io now l S) = ns_digests S" "ns_timers (flush_batch io now l S) = ns_timers S"
  by (auto simp: flush_batch_def fold_start_delivery Let_def split: sum.splits option.splits)

lemma recover_digests:
  "recover_rows w rs n S = (res, T) \<Longrightarrow> ns_digests T = ns_digests S \<and> ns_timers T = ns_timers S"
  by (induction w rs n S rule: recover_rows.induct)
    (auto simp: start_delivery_def hold_for_batch_def split: if_splits sum.splits option.splits)

lemma digests_close:
  assumes "digests_ok S turns told"
  shows "digests_ok (S\<lparr>ns_digests := (ns_digests S)(x := None)\<rparr>) turns (bump x (open_count x S) told)"
  using assms by (auto simp: digests_ok_def open_count_def bump_def)

lemma digests_schedule:
  assumes d: "digests_ok S turns told" and fresh: "token \<notin> dt_token ` set (ns_timers S)"
  shows "digests_ok (schedule_user_turn_digest local token x state t S) (bump x 1 turns) told"
proof -
  let ?T = "schedule_user_turn_digest local token x state t S"
  have count: "open_count x ?T = min (open_count x S + 1) (2 ^ 32 - 1)"
    by (simp add: open_count_def schedule_user_turn_digest_def Let_def split: option.splits)
  have others: "open_count y ?T = open_count y S" if "y \<noteq> x" for y
    using that by (simp add: open_count_def schedule_user_turn_digest_def Let_def)
  have "told y + open_count y ?T = bump x 1 turns y" if lt: "bump x 1 turns y < 2 ^ 32" for y
  proof (cases "y = x")
    case True
    then have "told x + open_count x S = turns x" "turns x + 1 < 2 ^ 32" using d lt by (auto simp: digests_ok_def bump_def)
    then show ?thesis using True count by (simp add: bump_def)
  next
    case False
    then show ?thesis using d lt others by (simp add: digests_ok_def bump_def)
  qed
  moreover have "ut_token e \<in> dt_token ` set (ns_timers ?T) \<and>
      (\<forall>t \<in> set (ns_timers ?T). dt_session t = y \<and> dt_token t = ut_token e \<longrightarrow> dt_exchanges t = ut_exchanges e)"
    if e: "ns_digests ?T y = Some e" for y e
  proof (cases "y = x")
    case True
    then show ?thesis using e fresh by (auto simp: schedule_user_turn_digest_def Let_def)
  next
    case False
    then have "ns_digests S y = Some e" using e by (simp add: schedule_user_turn_digest_def Let_def)
    then have "ut_token e \<in> dt_token ` set (ns_timers S)"
      "\<forall>t \<in> set (ns_timers S). dt_session t = y \<and> dt_token t = ut_token e \<longrightarrow> dt_exchanges t = ut_exchanges e"
      using d unfolding digests_ok_def by blast+
    then show ?thesis using False by (auto simp: schedule_user_turn_digest_def Let_def)
  qed
  ultimately show ?thesis unfolding digests_ok_def by blast
qed

section \<open>Every step keeps it\<close>

definition notice_inv :: "notice_system \<Rightarrow> bool" where
  "notice_inv S \<longleftrightarrow> wake_inv (nv_left S) (nv_dropped S) (nv_attempted S) (nv_state S) \<and>
     unbatched (ns_batches (nv_state S)) \<and> digests_ok (nv_state S) (nv_turns S) (nv_told S)"

lemma start_notices_inv: "notice_inv (start_notices tasks)"
  by (simp add: notice_inv_def start_notices_def wake_inv_def mail_ok_def held_ok_def started_ok_def tracked_def due_ids_def
      answered_def unbatched_def held_ids_def digests_ok_def open_count_def)

lemma bump_zero [simp]: "bump x 0 f = f"
  by (simp add: bump_def)

lemma inbox_write_keeps:
  assumes i: "notice_inv S" and c: "calm (ns_inbox (nv_state S)) rows"
  shows "notice_inv (S\<lparr>nv_state := (nv_state S)\<lparr>ns_inbox := rows\<rparr>\<rparr>)"
proof -
  have "wake_inv (nv_left S) (nv_dropped S) (nv_attempted S) ((nv_state S)\<lparr>ns_inbox := rows\<rparr>)"
    using i calm_keeps [OF c] unfolding notice_inv_def by blast
  moreover have "digests_ok ((nv_state S)\<lparr>ns_inbox := rows\<rparr>) (nv_turns S) (nv_told S)"
    using i digests_ok_fields [of "(nv_state S)\<lparr>ns_inbox := rows\<rparr>" "nv_state S"] unfolding notice_inv_def by simp
  ultimately show ?thesis using i unfolding notice_inv_def by simp
qed

lemma turn_keeps:
  assumes i: "notice_inv S" and w: "plain_ids w" and tok: "token \<notin> dt_token ` set (ns_timers (nv_state S))"
    and run: "turn_ended local w now token x state t (nv_state S) = (r, st)"
  shows "notice_inv (S\<lparr>nv_state := st, nv_turns := bump x (if turn_of_the_user w x then 1 else 0) (nv_turns S),
      nv_told := bump x (if turn_for_the_launcher w x then open_count x (nv_state S) else 0) (nv_told S)\<rparr>)"
proof -
  have inv: "wake_inv (nv_left S) (nv_dropped S) (nv_attempted S) (nv_state S)" "unbatched (ns_batches (nv_state S))"
    "digests_ok (nv_state S) (nv_turns S) (nv_told S)" using i unfolding notice_inv_def by blast+
  consider "st = nv_state S" "\<not> turn_of_the_user w x" "\<not> turn_for_the_launcher w x"
    | "st = schedule_user_turn_digest local token x state t (nv_state S)" "turn_of_the_user w x" "\<not> turn_for_the_launcher w x"
    | direct where "st = emit_completion_notice local w now x state t (Finished_Turn direct)
          ((nv_state S)\<lparr>ns_digests := (ns_digests (nv_state S))(x := None)\<rparr>)" "\<not> turn_of_the_user w x" "turn_for_the_launcher w x"
    using run
    by (auto simp: turn_ended_def take_user_turn_digest_def turn_of_the_user_def turn_for_the_launcher_def
        split: sum.splits bool.splits if_splits)
  then show ?thesis
  proof cases
    case 1
    then show ?thesis using i by simp
  next
    case 2
    have "wake_inv (nv_left S) (nv_dropped S) (nv_attempted S) st"
      using inv(1) wake_inv_fields [of st "nv_state S"] 2(1) by (simp add: schedule_user_turn_digest_def Let_def)
    moreover have "unbatched (ns_batches st)" using inv(2) 2(1) by (simp add: schedule_user_turn_digest_def Let_def)
    moreover have "digests_ok st (bump x 1 (nv_turns S)) (nv_told S)" unfolding 2(1) by (rule digests_schedule [OF inv(3) tok])
    ultimately show ?thesis using 2(2,3) by (simp add: notice_inv_def)
  next
    case 3
    let ?S = "(nv_state S)\<lparr>ns_digests := (ns_digests (nv_state S))(x := None)\<rparr>"
    have "wake_inv (nv_left S) (nv_dropped S) (nv_attempted S) ?S" using inv(1) wake_inv_fields [of ?S "nv_state S"] by simp
    then have "wake_inv (nv_left S) (nv_dropped S) (nv_attempted S) st" unfolding 3(1) by (rule emit_keeps [OF _ w])
    moreover have "unbatched (ns_batches st)" unfolding 3(1) by (rule unbatched_emit [OF _ w]) (simp add: inv(2))
    moreover have "digests_ok st (nv_turns S) (bump x (open_count x (nv_state S)) (nv_told S))"
      using digests_close [OF inv(3), of x] digests_ok_fields [of st ?S] emit_digests unfolding 3(1) by metis
    ultimately show ?thesis using 3(2,3) by (simp add: notice_inv_def)
  qed
qed

lemma quiet_keeps:
  assumes i: "notice_inv S" and w: "plain_ids w" and d: "d \<in> set (ns_timers (nv_state S))"
  shows "notice_inv (S\<lparr>nv_state := fire_digest local w now d (nv_state S),
      nv_told := bump (dt_session d) (if owns_window d (nv_state S) then de_count (dt_exchanges d) else 0) (nv_told S)\<rparr>)"
proof (cases "owns_window d (nv_state S)")
  case False
  then show ?thesis using i by (simp add: fire_digest_def)
next
  case True
  let ?x = "dt_session d"
  let ?S = "(nv_state S)\<lparr>ns_digests := (ns_digests (nv_state S))(?x := None)\<rparr>"
  have inv: "wake_inv (nv_left S) (nv_dropped S) (nv_attempted S) (nv_state S)" "unbatched (ns_batches (nv_state S))"
    "digests_ok (nv_state S) (nv_turns S) (nv_told S)" using i unfolding notice_inv_def by blast+
  obtain e where e: "ns_digests (nv_state S) ?x = Some e" "ut_token e = dt_token d" using True by (auto simp: owns_window_def)
  then have "dt_exchanges d = ut_exchanges e" using inv(3) d unfolding digests_ok_def by metis
  then have count: "de_count (dt_exchanges d) = open_count ?x (nv_state S)" using e(1) by (simp add: open_count_def)
  let ?st = "fire_digest local w now d (nv_state S)"
  have st: "?st = emit_completion_notice local w now ?x (dt_state d) (dt_at d) (User_Turn_Digest (dt_exchanges d)) ?S"
    using True by (simp add: fire_digest_def)
  have "wake_inv (nv_left S) (nv_dropped S) (nv_attempted S) ?S" using inv(1) wake_inv_fields [of ?S "nv_state S"] by simp
  then have "wake_inv (nv_left S) (nv_dropped S) (nv_attempted S) ?st" unfolding st by (rule emit_keeps [OF _ w])
  moreover have "unbatched (ns_batches ?st)" unfolding st by (rule unbatched_emit [OF _ w]) (simp add: inv(2))
  moreover have "digests_ok ?st (nv_turns S) (bump ?x (open_count ?x (nv_state S)) (nv_told S))"
    using digests_close [OF inv(3), of ?x] digests_ok_fields [of ?st ?S] emit_digests unfolding st by metis
  ultimately show ?thesis using True count by (simp add: notice_inv_def)
qed


lemma recover_step_keeps:
  assumes i: "notice_inv S" and run: "recover_pending_wakes w journal (nv_state S) = (r, st)"
  shows "notice_inv (S\<lparr>nv_state := st, nv_left := (if is_ok r then nv_left S \<inter> journal else nv_left S),
      nv_dropped := nv_dropped S \<union>
        {im_id q |q. q \<in> set (list_due_wakes journal (ns_inbox (nv_state S))) \<and> notice_from_row w q = Inr None}\<rparr>)"
    and "kept_pending (nv_state S) st"
    and "is_ok r \<Longrightarrow> i \<in> due_ids (ns_inbox (nv_state S)) \<Longrightarrow> i \<notin> journal \<Longrightarrow> pending_in st i"
proof -
  let ?rs = "list_due_wakes journal (ns_inbox (nv_state S))"
  let ?D = "nv_dropped S \<union> {im_id q |q. q \<in> set ?rs \<and> notice_from_row w q = Inr None}"
  let ?st = "nv_state S"
  have inv: "wake_inv (nv_left S) (nv_dropped S) (nv_attempted S) ?st" "unbatched (ns_batches ?st)"
    "digests_ok ?st (nv_turns S) (nv_told S)" using i unfolding notice_inv_def by blast+
  have more: "wake_inv (nv_left S) ?D (nv_attempted S) ?st"
  proof -
    have "held_ok (ns_inbox ?st) (ns_started ?st) ?D (ns_batches ?st)" using inv(1) unfolding wake_inv_def held_ok_def by blast
    moreover have "started_ok (ns_inbox ?st) (ns_started ?st) ?D (ns_deliveries ?st)"
      using inv(1) unfolding wake_inv_def started_ok_def by (metis (no_types, lifting) UnI1)
    ultimately show ?thesis using inv(1) unfolding wake_inv_def answered_def by blast
  qed
  have dist: "distinct (map im_id (ns_inbox ?st))" using inv(1) unfolding wake_inv_def mail_ok_def by blast
  have rows: "q \<in> set ?rs \<longleftrightarrow> q \<in> set (ns_inbox ?st) \<and> im_wake_due q \<noteq> None \<and> undelivered q \<and> im_id q \<notin> journal" for q
    by (auto simp: list_due_wakes_def)
  have "still_due (ns_inbox ?st) ?rs" using rows unfolding still_due_def by blast
  moreover have "distinct (map im_id ?rs)"
    using dist unfolding list_due_wakes_def by (auto simp: distinct_map inj_on_def)
  moreover have "\<forall>q \<in> set ?rs. notice_from_row w q = Inr None \<longrightarrow> im_id q \<in> ?D" by blast
  moreover have "recover_rows w ?rs 0 ?st = (r, st)" using run by (simp add: recover_pending_wakes_def)
  ultimately have all: "wake_inv (nv_left S) ?D (nv_attempted S) st \<and> unbatched (ns_batches st) \<and> kept_pending ?st st \<and>
      (is_ok r \<longrightarrow> (\<forall>q \<in> set ?rs. pending_in st (im_id q)))"
    by (rule recover_keeps [OF more inv(2)])
  then show "kept_pending ?st st" by blast
  have found: "pending_in st i" if ok: "is_ok r" and due: "i \<in> due_ids (ns_inbox ?st)" and out: "i \<notin> journal" for i
  proof -
    obtain q where "q \<in> set ?rs" "im_id q = i" using due out rows unfolding due_ids_def by blast
    then show ?thesis using all ok by blast
  qed
  then show "is_ok r \<Longrightarrow> i \<in> due_ids (ns_inbox ?st) \<Longrightarrow> i \<notin> journal \<Longrightarrow> pending_in st i" .
  have "wake_inv (if is_ok r then nv_left S \<inter> journal else nv_left S) ?D (nv_attempted S) st"
  proof (cases "is_ok r")
    case True
    have "due_ids (ns_inbox st) \<subseteq> held_ids (ns_batches st) \<union> ns_deliveries st \<union> (nv_left S \<inter> journal)"
    proof
      fix i assume due: "i \<in> due_ids (ns_inbox st)"
      then have old: "i \<in> due_ids (ns_inbox ?st)" using all unfolding kept_pending_def by blast
      show "i \<in> held_ids (ns_batches st) \<union> ns_deliveries st \<union> (nv_left S \<inter> journal)"
      proof (cases "i \<in> journal")
        case True
        then show ?thesis using wake_inv_due [OF inv(1)] old all unfolding kept_pending_def by blast
      next
        case False
        then show ?thesis using found [OF \<open>is_ok r\<close> old] due unfolding pending_in_def by blast
      qed
    qed
    then have "wake_inv (nv_left S \<inter> journal) ?D (nv_attempted S) st" by (rule wake_inv_left [OF all [THEN conjunct1]])
    then show ?thesis using True by simp
  qed (use all in simp)
  moreover have "digests_ok st (nv_turns S) (nv_told S)"
    using inv(3) digests_ok_fields [of st ?st] recover_digests [of w ?rs 0 ?st r st] run by (simp add: recover_pending_wakes_def)
  ultimately show "notice_inv (S\<lparr>nv_state := st, nv_left := (if is_ok r then nv_left S \<inter> journal else nv_left S), nv_dropped := ?D\<rparr>)"
    using all by (simp add: notice_inv_def)
qed

lemma restart_keeps:
  assumes i: "notice_inv S"
  shows "notice_inv (S\<lparr>nv_state := (nv_state S)\<lparr>ns_digests := Map.empty, ns_timers := [], ns_batches := Map.empty,
      ns_deliveries := {}, ns_started := []\<rparr>, nv_left := due_ids (ns_inbox (nv_state S)),
      nv_turns := (\<lambda>_. 0), nv_told := (\<lambda>_. 0)\<rparr>)"
proof -
  have "mail_ok (ns_inbox (nv_state S))" "answered (ns_inbox (nv_state S)) (nv_attempted S \<union> nv_dropped S)"
    using i unfolding notice_inv_def wake_inv_def by blast+
  then show ?thesis
    by (simp add: notice_inv_def wake_inv_def held_ok_def started_ok_def tracked_def unbatched_def held_ids_def digests_ok_def open_count_def)
qed

lemma finish_keeps:
  assumes i: "notice_inv S" and d: "k \<in> ns_deliveries (nv_state S)"
  shows "notice_inv (S\<lparr>nv_state := finish_delivery k (nv_state S), nv_attempted := insert k (nv_attempted S)\<rparr>)"
proof -
  have inv: "wake_inv (nv_left S) (nv_dropped S) (nv_attempted S) (nv_state S)" using i unfolding notice_inv_def by blast
  have "wake_inv (nv_left S) (nv_dropped S) (insert k (nv_attempted S)) (finish_delivery k (nv_state S))"
    unfolding finish_delivery_def by (rule clear_keeps [OF inv]) (use d in blast)
  moreover have "digests_ok (finish_delivery k (nv_state S)) (nv_turns S) (nv_told S)"
    using i digests_ok_fields [of "finish_delivery k (nv_state S)" "nv_state S"] unfolding notice_inv_def by (simp add: finish_delivery_def)
  ultimately show ?thesis using i unfolding notice_inv_def by (simp add: finish_delivery_def)
qed

lemma calm_take:
  assumes "take_undelivered_messages to limit b now rows = (handed, rows')"
  shows "calm rows rows'"
proof -
  obtain taken :: inbox where eq: "rows' = map (\<lambda>r. if im_id r \<in> im_id ` set taken then r\<lparr>im_delivered := Some now\<rparr> else r) rows"
  proof (rule take_result [OF assms])
    fix taken :: inbox assume "rows' = map (\<lambda>r. if im_id r \<in> im_id ` set taken then r\<lparr>im_delivered := Some now\<rparr> else r) rows"
    then show thesis by (rule that)
  qed
  show ?thesis unfolding eq by (rule calm_map) (simp add: same_row_def undelivered_def)
qed

lemma same_row_refl [simp]: "same_row r r"
  by (simp add: same_row_def)

lemma calm_append:
  "im_id r \<notin> im_id ` set rows \<Longrightarrow> \<not> is_completion (im_id r) \<Longrightarrow> im_wake_due r = None \<Longrightarrow> calm rows (rows @ [r])"
  unfolding calm_def by (simp add: bex_Un ball_Un) (blast intro: same_row_refl)

lemma calm_insert:
  assumes "insert_session_message known m now rows = Inr (b, rows')" and "\<not> is_completion (nm_id m)"
  shows "calm rows rows'"
proof -
  let ?r = "\<lparr>im_id = nm_id m, im_from = nm_from m, im_to = nm_to m, im_body = cap_message_body (nm_body m),
    im_kind = nm_kind m, im_created = now, im_delivered = None, im_wake_due = None\<rparr>"
  have "rows' = rows \<or> (nm_id m \<notin> im_id ` set rows \<and> rows' = rows @ [?r])"
    using assms(1) by (auto simp: insert_session_message_def split: if_splits)
  then show ?thesis using calm_refl calm_append [of ?r rows] assms(2) by auto
qed

lemma calm_delete: "\<not> is_completion i \<Longrightarrow> calm rows (delete_undelivered_session_message i rows)"
  unfolding calm_def delete_undelivered_session_message_def
  by (simp add: distinct_map_filter) (blast intro: same_row_refl)

lemma calm_prune: "calm rows (map (\<lambda>r. if im_from r = Some x then r\<lparr>im_from := None\<rparr> else r) rows)"
  by (rule calm_map) (simp add: same_row_def undelivered_def)

lemma calm_deliver: "calm rows (deliver_notice parses reply now i rows)"
  by (simp add: deliver_notice_def calm_mark calm_refl)

lemma window_keeps: "notice_inv S \<Longrightarrow> notice_inv (S\<lparr>nv_state := flush_batch io now l (nv_state S)\<rparr>)"
  using digests_ok_fields [of "flush_batch io now l (nv_state S)" "nv_state S"]
  by (simp add: notice_inv_def flush_keeps unbatched_flush flush_digests)

lemma tasks_keep: "notice_inv S \<Longrightarrow> notice_inv (S\<lparr>nv_state := (nv_state S)\<lparr>ns_routines := db\<rparr>\<rparr>)"
  using digests_ok_fields [of "(nv_state S)\<lparr>ns_routines := db\<rparr>" "nv_state S"] wake_inv_fields [of "(nv_state S)\<lparr>ns_routines := db\<rparr>" "nv_state S"]
  by (simp add: notice_inv_def)

lemma notice_step_keeps: "notice_inv S \<Longrightarrow> notice_step local S T \<Longrightarrow> notice_inv T"
  by (erule notice_step.cases)
    (simp_all only:, (blast intro: turn_keeps quiet_keeps window_keeps finish_keeps tasks_keep recover_step_keeps(1) restart_keeps
      inbox_write_keeps calm_deliver calm_take calm_mark calm_insert calm_delete calm_prune)+)

interpretation notices: invariant_system "notice_step local" notice_inv for local
  by unfold_locales (rule notice_step_keeps)

lemmas reachable_notices = notices.runs [OF _ start_notices_inv]


section \<open>What holds of every run\<close>

text \<open>Where an unread result's wake is: with its launcher's open window, with a delivery under way, or due since the
  application started and not yet recovered.\<close>

definition wake_pending :: "notice_system \<Rightarrow> string \<Rightarrow> bool" where
  "wake_pending S i \<longleftrightarrow> i \<in> held_ids (ns_batches (nv_state S)) \<union> ns_deliveries (nv_state S) \<union> nv_left S"

text \<open>C25: No completion wake is lost. Whatever order turns, windows, deliveries, readings, failed transactions and restarts
  come in, the row of an unread result has its wake mark and its wake is pending, or its wake was attempted, or its
  launcher could not be woken.\<close>

theorem no_completion_wake_is_lost:
  assumes "(notice_step local)\<^sup>*\<^sup>* (start_notices tasks) S"
    and "r \<in> set (ns_inbox (nv_state S))" and "is_completion (im_id r)" and "undelivered r"
  shows "(im_wake_due r \<noteq> None \<and> wake_pending S (im_id r)) \<or> im_id r \<in> nv_attempted S \<union> nv_dropped S"
proof -
  have inv: "wake_inv (nv_left S) (nv_dropped S) (nv_attempted S) (nv_state S)"
    using reachable_notices [OF assms(1)] unfolding notice_inv_def by blast
  show ?thesis
  proof (cases "im_wake_due r = None")
    case True
    then show ?thesis using inv assms(2-4) unfolding wake_inv_def answered_def by blast
  next
    case False
    then have "im_id r \<in> due_ids (ns_inbox (nv_state S))" using assms(2,4) unfolding due_ids_def by blast
    then show ?thesis using wake_inv_due [OF inv] False unfolding wake_pending_def by blast
  qed
qed

lemma cleared_by_recovery:
  "recover_rows w rs k S = (res, T) \<Longrightarrow> i \<in> due_ids (ns_inbox S) \<Longrightarrow> i \<notin> due_ids (ns_inbox T) \<Longrightarrow>
   \<exists>q \<in> set rs. im_id q = i \<and> notice_from_row w q = Inr None"
proof (induction w rs k S rule: recover_rows.induct)
  case (2 w r rs n S)
  show ?case
  proof (cases "im_id r \<in> ns_deliveries S")
    case True
    then show ?thesis using 2 by auto
  next
    case False
    show ?thesis
    proof (cases "notice_from_row w r")
      case (Inl e)
      then show ?thesis using 2 False by auto
    next
      case (Inr found)
      show ?thesis
      proof (cases found)
        case None
        show ?thesis
        proof (cases "im_id r = i")
          case True
          then show ?thesis using Inr None by auto
        next
          case other: False
          have "i \<in> due_ids (clear_wake_due (im_id r) (ns_inbox S))"
          proof -
            obtain q where q: "q \<in> set (ns_inbox S)" "im_id q = i" "im_wake_due q \<noteq> None" "undelivered q" using 2(5) unfolding due_ids_def by blast
            then have "q \<in> set (clear_wake_due (im_id r) (ns_inbox S))" using clear_in [OF q(1), of "im_id r"] other by auto
            then show ?thesis using q unfolding due_ids_def by blast
          qed
          then show ?thesis using "2.IH"(2) [OF False Inr None] 2(4,6) False Inr None by auto
        qed
      next
        case (Some c)
        let ?U = "if starts_with (im_id r) BATCH_PREFIX then start_delivery c S else hold_for_batch c S"
        have "ns_inbox ?U = ns_inbox S" by (simp add: start_delivery_def hold_for_batch_def)
        then show ?thesis using "2.IH"(3) [OF False Inr Some] 2(4-6) False Inr Some by auto
      qed
    qed
  qed
qed simp

text \<open>C26: The application may stop at any moment: at the next start, recovery gives every unread result whose wake was
  waiting or under way a place in a window or a delivery again, unless the follow-up journal has it or its launcher
  can no longer be woken.\<close>

theorem restart_wakes_what_was_pending:
  assumes run: "(notice_step local)\<^sup>*\<^sup>* (start_notices tasks) S"
    and r: "r \<in> set (ns_inbox (nv_state S))" "undelivered r" "im_id r \<in> held_ids (ns_batches (nv_state S)) \<union> ns_deliveries (nv_state S)"
    and kept: "im_id r \<notin> nv_dropped S" "im_id r \<notin> journal"
    and boot: "recover_pending_wakes w journal ((nv_state S)\<lparr>ns_digests := Map.empty, ns_timers := [], ns_batches := Map.empty,
      ns_deliveries := {}, ns_started := []\<rparr>) = (Inr n, st)"
  shows "im_id r \<in> held_ids (ns_batches st) \<union> ns_deliveries st \<or> im_id r \<notin> due_ids (ns_inbox st) \<and> notice_from_row w r = Inr None"
proof -
  let ?boot = "(nv_state S)\<lparr>ns_digests := Map.empty, ns_timers := [], ns_batches := Map.empty, ns_deliveries := {}, ns_started := []\<rparr>"
  have inv: "wake_inv (nv_left S) (nv_dropped S) (nv_attempted S) (nv_state S)"
    using reachable_notices [OF run] unfolding notice_inv_def by blast
  have mail: "mail_ok (ns_inbox (nv_state S))" using inv unfolding wake_inv_def by blast
  have "im_wake_due r \<noteq> None"
  proof (cases "im_id r \<in> ns_deliveries (nv_state S)")
    case True
    then obtain q where "q \<in> set (ns_inbox (nv_state S))" "im_id q = im_id r" "im_wake_due q \<noteq> None \<or> im_id r \<in> nv_dropped S"
      using inv unfolding wake_inv_def started_ok_def by (metis subsetD)
    then show ?thesis using same_id [OF mail _ r(1)] kept(1) by metis
  next
    case False
    then obtain m l where m: "m \<in> set (held_for (ns_batches (nv_state S)) l)" "cn_id m = im_id r" using r(3) unfolding held_ids_def by auto
    obtain q where "q \<in> set (ns_inbox (nv_state S))" "im_id q = im_id r" "im_wake_due q \<noteq> None \<or> im_id q \<in> nv_dropped S"
      using held_facts [OF inv m(1)] m(2) unfolding holdable_def by metis
    then show ?thesis using same_id [OF mail _ r(1)] kept(1) by metis
  qed
  then have due: "im_id r \<in> due_ids (ns_inbox (nv_state S))" using r unfolding due_ids_def by blast
  show ?thesis
  proof (cases "im_id r \<in> due_ids (ns_inbox st)")
    case True
    have "pending_in st (im_id r)"
      using recover_step_keeps(3) [OF restart_keeps [OF reachable_notices [OF run]], of w journal "Inr n" st "im_id r"] boot due kept(2)
      by simp
    then show ?thesis using True unfolding pending_in_def by blast
  next
    case False
    obtain q where q: "q \<in> set (list_due_wakes journal (ns_inbox (nv_state S)))" "im_id q = im_id r" "notice_from_row w q = Inr None"
      using cleared_by_recovery [of w "list_due_wakes journal (ns_inbox (nv_state S))" 0 ?boot "Inr n" st "im_id r"] boot due False
      by (auto simp: recover_pending_wakes_def)
    have "q \<in> set (ns_inbox (nv_state S))" using q(1) by (auto simp: list_due_wakes_def)
    then have "q = r" using same_id [OF mail _ r(1)] q(2) by blast
    then show ?thesis using False q(3) by simp
  qed
qed

text \<open>A launcher is woken at most once per run of the application for each row: no id is handed to a delivery twice.\<close>

lemma each_wake_is_started_once:
  assumes "(notice_step local)\<^sup>*\<^sup>* (start_notices tasks) S"
  shows "distinct (ns_started (nv_state S))"
  using reachable_notices [OF assms] unfolding notice_inv_def wake_inv_def started_ok_def by blast


text \<open>When a window closes its launcher is woken for exactly the results it has not read: they are taken in order, at
  most twenty to a wake; a single one is sent as it is, several become one new row that is due and unread while their
  own rows are read, in one transaction.\<close>

lemma closing_a_window_wakes_for_the_unread:
  assumes "(notice_step local)\<^sup>*\<^sup>* (start_notices tasks) S" and "st = nv_state S" and "ns_batches st l \<noteq> None"
  shows "concat (window_chunks st l) = unread_notices st l \<and>
    list_all (\<lambda>ms. ms \<noteq> [] \<and> length ms \<le> MAX_BATCH_MEMBERS) (window_chunks st l) \<and>
    flush_batch None now l st = st\<lparr>ns_inbox := closed_mail now st l, ns_batches := (ns_batches st)(l := None),
      ns_deliveries := ns_deliveries st \<union> (\<lambda>ms. cn_id (wake_of ms)) ` set (window_chunks st l),
      ns_started := ns_started st @ map (\<lambda>ms. cn_id (wake_of ms)) (window_chunks st l)\<rparr>"
proof -
  have inv: "wake_inv (nv_left S) (nv_dropped S) (nv_attempted S) st"
    using reachable_notices [OF assms(1)] unfolding notice_inv_def assms(2) by blast
  obtain ns where ns: "ns_batches st l = Some ns" using assms(3) by blast
  have "held_for (ns_batches st) l = ns" by (simp add: held_for_def ns)
  then have "coalesce None now ns (ns_inbox st) = Inr (map wake_of (window_chunks st l), closed_mail now st l)"
    using window_wakes(1) [OF inv, of now l] by simp
  then have "flush_batch None now l st = st\<lparr>ns_inbox := closed_mail now st l, ns_batches := (ns_batches st)(l := None),
      ns_deliveries := ns_deliveries st \<union> (\<lambda>ms. cn_id (wake_of ms)) ` set (window_chunks st l),
      ns_started := ns_started st @ map (\<lambda>ms. cn_id (wake_of ms)) (window_chunks st l)\<rparr>"
    by (simp add: flush_batch_def ns fold_start_delivery image_image comp_def)
  then show ?thesis using window_chunks_concat window_chunk_sizes by (auto simp: list_all_iff)
qed


section \<open>A run\<close>

definition sample_world :: notice_world where
  "sample_world = \<lparr>nw_chats = [\<lparr>ct_id = ''c'', ct_workspace = ''h'', ct_launched_by = Some ''l''\<rparr>,
      \<lparr>ct_id = ''l'', ct_workspace = ''h'', ct_launched_by = None\<rparr>],
     nw_homes = [\<lparr>hm_id = ''h'', hm_state = ''idle'', hm_label = ''fix''\<rparr>], nw_events = []\<rparr>"

definition sample_user_event :: "string \<Rightarrow> event_row" where
  "sample_user_event i = \<lparr>ev_id = i, ev_session = ''c'', ev_type = ''user.message'', ev_message = ''go'', ev_payload = JObject [], ev_created = i\<rparr>"

definition talking_world :: notice_world where
  "talking_world = sample_world\<lparr>nw_events := [sample_user_event ''1'', sample_user_event ''2'']\<rparr>"

definition no_tasks :: routine_db where
  "no_tasks = \<lparr>rd_routines = [], rd_projects = [], rd_arcs = [], rd_workspace_state = (\<lambda>_. None)\<rparr>"

definition turn_in :: "notice_world \<Rightarrow> notice_system" where
  "turn_in w = (let S = start_notices no_tasks in
     S\<lparr>nv_state := snd (turn_ended (\<lambda>t. t) w ''now'' ''k'' ''c'' Complete ''t'' (nv_state S)),
       nv_turns := bump ''c'' (if turn_of_the_user w ''c'' then 1 else 0) (nv_turns S),
       nv_told := bump ''c'' (if turn_for_the_launcher w ''c'' then open_count ''c'' (nv_state S) else 0) (nv_told S)\<rparr>)"

lemma turn_in_reachable: "plain_ids w \<Longrightarrow> (notice_step (\<lambda>t. t))\<^sup>*\<^sup>* (start_notices no_tasks) (turn_in w)"
  unfolding turn_in_def Let_def
  by (rule r_into_rtranclp, rule notice_step.turn [OF _ _ surjective_pairing]) (simp_all add: start_notices_def)

lemma plain_samples: "plain_ids sample_world" "plain_ids talking_world"
  by (simp_all add: plain_ids_def talking_world_def sample_world_def)

lemmas sample_defs = turn_in_def Let_def start_notices_def sample_world_def no_tasks_def turn_ended_def session_has_launcher_def
  find_chat_def turn_was_driven_by_the_user_def latest_user_message_def since_clear_def take_user_turn_digest_def
  emit_completion_notice_def build_completion_notice_def launcher_of_def find_home_def notice_label_def workspace_is_leaving_def
  insert_session_message_def mark_wake_due_def hold_for_batch_def held_for_def completion_id_def undelivered_def

lemma sample_turn:
  "map im_id (ns_inbox (nv_state (turn_in sample_world))) = [''completion:c:t'']"
  "list_all undelivered (ns_inbox (nv_state (turn_in sample_world)))"
  "map cn_id (held_for (ns_batches (nv_state (turn_in sample_world))) ''l'') = [''completion:c:t'']"
  "ns_batches (nv_state (turn_in sample_world)) ''l'' \<noteq> None"
  "nv_dropped (turn_in sample_world) = {}"
  by (simp_all add: sample_defs)


lemma sample_row:
  obtains r where "r \<in> set (ns_inbox (nv_state (turn_in sample_world)))" "im_id r = ''completion:c:t''" "undelivered r"
  using sample_turn(1,2) by (cases "ns_inbox (nv_state (turn_in sample_world))") auto

theorem no_completion_wake_is_lost_witness:
  "\<exists>r \<in> set (ns_inbox (nv_state (turn_in sample_world))).
     (im_wake_due r \<noteq> None \<and> wake_pending (turn_in sample_world) (im_id r)) \<or>
     im_id r \<in> nv_attempted (turn_in sample_world) \<union> nv_dropped (turn_in sample_world)"
proof -
  obtain r where r: "r \<in> set (ns_inbox (nv_state (turn_in sample_world)))" "im_id r = ''completion:c:t''" "undelivered r" by (rule sample_row)
  have "is_completion (im_id r)" using r(2) by (simp add: is_completion_def starts_with_def)
  then show ?thesis using no_completion_wake_is_lost [OF turn_in_reachable [OF plain_samples(1)] r(1) _ r(3)] r(1) by blast
qed

definition sample_boot :: notice_state where
  "sample_boot = (nv_state (turn_in sample_world))\<lparr>ns_digests := Map.empty, ns_timers := [], ns_batches := Map.empty,
     ns_deliveries := {}, ns_started := []\<rparr>"

lemma sample_recovery: "fst (recover_pending_wakes sample_world {} sample_boot) = Inr 1"
  by (simp add: sample_boot_def sample_defs recover_pending_wakes_def list_due_wakes_def notice_from_row_def BATCH_PREFIX_def starts_with_def)

theorem restart_wakes_what_was_pending_witness:
  "\<exists>r st. im_id r = ''completion:c:t'' \<and> recover_pending_wakes sample_world {} sample_boot = (Inr 1, st) \<and>
     (im_id r \<in> held_ids (ns_batches st) \<union> ns_deliveries st \<or> im_id r \<notin> due_ids (ns_inbox st) \<and> notice_from_row sample_world r = Inr None)"
proof -
  obtain r where r: "r \<in> set (ns_inbox (nv_state (turn_in sample_world)))" "im_id r = ''completion:c:t''" "undelivered r" by (rule sample_row)
  obtain st where st: "recover_pending_wakes sample_world {} sample_boot = (Inr 1, st)" using sample_recovery by (metis prod.collapse)
  have "''completion:c:t'' \<in> set (map cn_id (held_for (ns_batches (nv_state (turn_in sample_world))) ''l''))" unfolding sample_turn(3) by simp
  then have "im_id r \<in> held_ids (ns_batches (nv_state (turn_in sample_world)))" unfolding held_ids_def r(2) by auto
  then have "im_id r \<in> held_ids (ns_batches st) \<union> ns_deliveries st \<or> im_id r \<notin> due_ids (ns_inbox st) \<and> notice_from_row sample_world r = Inr None"
    using r(1,3) st sample_turn(5)
    by (intro restart_wakes_what_was_pending [OF turn_in_reachable [OF plain_samples(1)], of r "{}" sample_world 1 st])
      (simp_all add: sample_boot_def)
  then show ?thesis using r(2) st by blast
qed

lemma each_wake_is_started_once_witness: "distinct (ns_started (nv_state (turn_in sample_world)))"
  by (rule each_wake_is_started_once [OF turn_in_reachable [OF plain_samples(1)]])

lemma sample_talk: "nv_turns (turn_in talking_world) ''c'' = 1"
  by (simp add: sample_defs talking_world_def bump_def turn_of_the_user_def sample_user_event_def sql_null_def turn_was_user_driven_def
      count_user_messages_def)


lemma closing_a_window_wakes_for_the_unread_witness:
  "concat (window_chunks (nv_state (turn_in sample_world)) ''l'') = unread_notices (nv_state (turn_in sample_world)) ''l''"
  using closing_a_window_wakes_for_the_unread [OF turn_in_reachable [OF plain_samples(1)] refl sample_turn(4)] by blast

end
