(* ===== verification/Control_Registry.thy ===== *)
theory Control_Registry
  imports Launch_Agent Questions_Pending
begin

text \<open>
  The registry of session control (\<^verbatim>\<open>src-tauri/src/session_control/registry.rs\<close>) and the table of promised disposals
  (\<^verbatim>\<open>persistence/after_turn.rs\<close>): the token an agent's process calls with, the sessions blocked in a wait, and the move,
  archive or checkout removal a session asked to happen once its turn settles. A \<^verbatim>\<open>oneshot\<close> channel is the number of
  the task that waits on it; dropping its sender is a result of the operation. JSON text is the value it encodes.
\<close>

section \<open>What is promised\<close>

datatype move_destination_record = Project_Destination string bool | Checkout_Destination string

record merged_pr_request =
  mr_number :: int
  mr_head :: string

record archive_request =
  ar_workspace :: string
  ar_merged :: "merged_pr_request option"

record move_request =
  mv_destination :: move_destination_record
  mv_keep_source :: bool
  mv_prompt :: string

datatype after_turn_action = Archive_Action archive_request | Move_Action move_request

definition ACTION_ARCHIVE :: string where "ACTION_ARCHIVE = ''archive''"
definition ACTION_MOVE :: string where "ACTION_MOVE = ''move''"

fun action_column :: "after_turn_action \<Rightarrow> string" where
  "action_column (Archive_Action _) = ACTION_ARCHIVE"
| "action_column (Move_Action _) = ACTION_MOVE"

text \<open>The derived encodings.\<close>

definition json_i64 :: "int \<Rightarrow> json" where
  "json_i64 i = JNumber (if i < 0 then NegInt i else PosInt (nat i))"

fun destination_json :: "move_destination_record \<Rightarrow> json" where
  "destination_json (Project_Destination p worktree) =
     json_object [(''project'', json_object [(''projectId'', JString p), (''worktree'', JBool worktree)])]"
| "destination_json (Checkout_Destination path) = json_object [(''checkout'', json_object [(''path'', JString path)])]"

definition merged_pr_json :: "merged_pr_request \<Rightarrow> json" where
  "merged_pr_json m = json_object [(''prNumber'', json_i64 (mr_number m)), (''mergedHead'', JString (mr_head m))]"

fun payload_json :: "after_turn_action \<Rightarrow> json" where
  "payload_json (Archive_Action a) =
     json_object ((''workspaceId'', JString (ar_workspace a)) #
       (case ar_merged a of None \<Rightarrow> [] | Some m \<Rightarrow> [(''mergedPr'', merged_pr_json m)]))"
| "payload_json (Move_Action m) =
     json_object [(''destination'', destination_json (mv_destination m)), (''keepSource'', JBool (mv_keep_source m)),
       (''prompt'', JString (mv_prompt m))]"

text \<open>The derived decodings of objects. \<^verbatim>\<open>deny_unknown_fields\<close> refuses a key that is not listed; a variant's own fields
  are not checked for more.\<close>

definition only_keys :: "string set \<Rightarrow> json \<Rightarrow> bool" where
  "only_keys ks v \<longleftrightarrow> (case v of JObject kvs \<Rightarrow> set (map fst kvs) \<subseteq> ks | _ \<Rightarrow> False)"

fun as_i64 :: "json \<Rightarrow> int option" where
  "as_i64 (JNumber (PosInt n)) = (if int n < 2 ^ 63 then Some (int n) else None)"
| "as_i64 (JNumber (NegInt i)) = (if - (2 ^ 63) \<le> i then Some i else None)"
| "as_i64 _ = None"

definition field :: "string \<Rightarrow> (json \<Rightarrow> 'a option) \<Rightarrow> json \<Rightarrow> 'a option" where
  "field k f v = Option.bind (json_get k v) f"

definition destination_of_json :: "json \<Rightarrow> move_destination_record option" where
  "destination_of_json v =
     (case v of
        JObject [(k, body)] \<Rightarrow>
          if k = ''project''
          then Option.bind (field ''projectId'' as_str body) (\<lambda>p. map_option (Project_Destination p) (field ''worktree'' as_bool body))
          else if k = ''checkout'' then map_option Checkout_Destination (field ''path'' as_str body)
          else None
      | _ \<Rightarrow> None)"

definition merged_pr_of_json :: "json \<Rightarrow> merged_pr_request option" where
  "merged_pr_of_json v =
     (if only_keys {''prNumber'', ''mergedHead''} v
      then Option.bind (field ''prNumber'' as_i64 v) (\<lambda>n.
             map_option (\<lambda>h. \<lparr>mr_number = n, mr_head = h\<rparr>) (field ''mergedHead'' as_str v))
      else None)"

text \<open>\<^verbatim>\<open>#[serde(default)]\<close>: a key that is missing or null is no value.\<close>

definition archive_of_json :: "json \<Rightarrow> archive_request option" where
  "archive_of_json v =
     (if only_keys {''workspaceId'', ''mergedPr''} v
      then Option.bind (field ''workspaceId'' as_str v) (\<lambda>w.
             case json_get ''mergedPr'' v of
               None \<Rightarrow> Some \<lparr>ar_workspace = w, ar_merged = None\<rparr>
             | Some m \<Rightarrow>
                 if m = JNull then Some \<lparr>ar_workspace = w, ar_merged = None\<rparr>
                 else map_option (\<lambda>p. \<lparr>ar_workspace = w, ar_merged = Some p\<rparr>) (merged_pr_of_json m))
      else None)"

definition move_of_json :: "json \<Rightarrow> move_request option" where
  "move_of_json v =
     (if only_keys {''destination'', ''keepSource'', ''prompt''} v
      then Option.bind (field ''destination'' destination_of_json v) (\<lambda>d.
           Option.bind (field ''keepSource'' as_bool v) (\<lambda>k.
             map_option (\<lambda>p. \<lparr>mv_destination = d, mv_keep_source = k, mv_prompt = p\<rparr>) (field ''prompt'' as_str v)))
      else None)"

text \<open>\<open>explain\<close> is the text of the parser's error.\<close>

definition or_json_error :: "(json \<Rightarrow> string) \<Rightarrow> json \<Rightarrow> 'a option \<Rightarrow> argmax_error + 'a" where
  "or_json_error explain v r = (case r of None \<Rightarrow> Inl (service ''JSON'' (explain v)) | Some x \<Rightarrow> Inr x)"

definition action_from_row :: "(json \<Rightarrow> string) \<Rightarrow> string \<Rightarrow> json \<Rightarrow> argmax_error + after_turn_action" where
  "action_from_row explain column v =
     (if column = ACTION_ARCHIVE then or_json_error explain v (map_option Archive_Action (archive_of_json v))
      else if column = ACTION_MOVE then or_json_error explain v (map_option Move_Action (move_of_json v))
      else Inl (service ''AFTER_TURN_ACTION_UNKNOWN''
        (''Scheduled after-turn action '' @ [CHR 0x27] @ column @ [CHR 0x27] @ '' is not a known action.'')))"

section \<open>The table\<close>

record after_turn_row =
  af_session :: string
  af_action :: string
  af_payload :: json
  af_requested :: string

record after_turn_request =
  aq_session :: string
  aq_action :: after_turn_action
  aq_requested :: string

type_synonym after_turn_table = "after_turn_row list"

definition build_request :: "(json \<Rightarrow> string) \<Rightarrow> after_turn_row \<Rightarrow> argmax_error + after_turn_request" where
  "build_request explain r =
     and_then (action_from_row explain (af_action r) (af_payload r)) (\<lambda>a.
       Inr \<lparr>aq_session = af_session r, aq_action = a, aq_requested = af_requested r\<rparr>)"

text \<open>\<open>known\<close> holds the sessions there are.\<close>

definition insert_after_turn ::
  "string set \<Rightarrow> string \<Rightarrow> string \<Rightarrow> after_turn_action \<Rightarrow> after_turn_table \<Rightarrow> argmax_error + after_turn_table"
where
  "insert_after_turn known now x a rows =
     (if x \<in> af_session ` set rows then Inl (sqlite ''UNIQUE constraint failed: session_after_turn.session_id'')
      else if x \<notin> known then Inl (sqlite ''FOREIGN KEY constraint failed'')
      else Inr (rows @ [\<lparr>af_session = x, af_action = action_column a, af_payload = payload_json a, af_requested = now\<rparr>]))"

definition delete_after_turn :: "string \<Rightarrow> after_turn_table \<Rightarrow> after_turn_table" where
  "delete_after_turn x rows = filter (\<lambda>r. af_session r \<noteq> x) rows"

definition find_after_turn :: "(json \<Rightarrow> string) \<Rightarrow> after_turn_table \<Rightarrow> string \<Rightarrow> argmax_error + after_turn_request option" where
  "find_after_turn explain rows x =
     (case find (\<lambda>r. af_session r = x) rows of None \<Rightarrow> Inr None | Some r \<Rightarrow> and_then (build_request explain r) (\<lambda>q. Inr (Some q)))"

fun build_all :: "(json \<Rightarrow> string) \<Rightarrow> after_turn_row list \<Rightarrow> argmax_error + after_turn_request list" where
  "build_all explain [] = Inr []"
| "build_all explain (r # rs) = and_then (build_request explain r) (\<lambda>q. and_then (build_all explain rs) (\<lambda>qs. Inr (q # qs)))"

definition list_after_turn :: "(json \<Rightarrow> string) \<Rightarrow> after_turn_table \<Rightarrow> argmax_error + after_turn_request list" where
  "list_after_turn explain rows = build_all explain (sort_key af_requested (sort_key af_session rows))"

definition source_move_recorded :: "event_row list \<Rightarrow> string \<Rightarrow> bool" where
  "source_move_recorded evs x \<longleftrightarrow>
     list_ex (\<lambda>e. ev_session e = x \<and> ev_type e = ''session.moved'' \<and> json_path [''direction''] (ev_payload e) = Some (JString ''source'')) evs"

section \<open>The registry\<close>

datatype after_turn = After_Move | After_Archive | After_Removal

definition after_turn_of :: "after_turn_action \<Rightarrow> after_turn" where
  "after_turn_of a =
     (case a of Move_Action _ \<Rightarrow> After_Move | Archive_Action r \<Rightarrow> if ar_merged r \<noteq> None then After_Removal else After_Archive)"

definition already_pending :: "after_turn \<Rightarrow> control_error" where
  "already_pending k =
     (case k of
        After_Move \<Rightarrow> protocol_error ''MOVE_ALREADY_PENDING'' ''A move is already scheduled for this session.''
      | After_Archive \<Rightarrow> protocol_error ''ARCHIVE_ALREADY_PENDING'' ''An archive is already scheduled for this session.''
      | After_Removal \<Rightarrow> protocol_error ''ARCHIVE_ALREADY_PENDING''
          (''This chat'' @ [CHR 0x27] @ ''s checkout is already being removed after this turn.''))"

text \<open>\<open>pa_sender\<close> names the task that waits for the turn to settle, until it is told.\<close>

record pending_after_turn =
  pa_kind :: after_turn
  pa_sender :: "nat option"

record credential_state =
  cs_launches :: "string \<rightharpoonup> launch_parent"
  cs_tokens :: "string \<rightharpoonup> string"

record control_registry =
  cr_credentials :: credential_state
  cr_pending :: "string \<rightharpoonup> pending_after_turn"
  cr_waiters :: "string \<rightharpoonup> nat"

subsection \<open>Tokens\<close>

text \<open>\<open>fresh\<close> is a new random token, used when the session has none.\<close>

definition issue_token :: "string \<Rightarrow> launch_parent \<Rightarrow> credential_state \<Rightarrow> string \<times> credential_state" where
  "issue_token fresh p c =
     (let t = (case cs_tokens c (lp_session p) of None \<Rightarrow> fresh | Some t \<Rightarrow> t)
      in (t, c\<lparr>cs_tokens := (cs_tokens c)(lp_session p \<mapsto> t), cs_launches := (cs_launches c)(t \<mapsto> p)\<rparr>))"

definition revoke_token :: "string \<Rightarrow> credential_state \<Rightarrow> credential_state" where
  "revoke_token x c =
     (case cs_tokens c x of None \<Rightarrow> c
      | Some t \<Rightarrow> c\<lparr>cs_tokens := (cs_tokens c)(x := None), cs_launches := (cs_launches c)(t := None)\<rparr>)"

definition resolve_token :: "credential_state \<Rightarrow> string \<Rightarrow> launch_parent option" where
  "resolve_token c t = cs_launches c t"

subsection \<open>Sessions blocked in a wait\<close>

definition wait_on_inbox :: "string \<Rightarrow> (string \<rightharpoonup> nat) \<Rightarrow> (string \<rightharpoonup> nat)" where
  "wait_on_inbox x w = w(x \<mapsto> (case w x of None \<Rightarrow> 0 | Some n \<Rightarrow> n) + 1)"

definition drop_wait_guard :: "string \<Rightarrow> (string \<rightharpoonup> nat) \<Rightarrow> (string \<rightharpoonup> nat)" where
  "drop_wait_guard x w = (case w x of None \<Rightarrow> w | Some n \<Rightarrow> if n - 1 = 0 then w(x := None) else w(x \<mapsto> n - 1))"

definition is_waiting_on_inbox :: "(string \<rightharpoonup> nat) \<Rightarrow> string \<Rightarrow> bool" where
  "is_waiting_on_inbox w x \<longleftrightarrow> w x \<noteq> None"

subsection \<open>The slot for one disposal\<close>

type_synonym slots = "(string \<rightharpoonup> pending_after_turn) \<times> after_turn_table"

definition occupied_by :: "(json \<Rightarrow> string) \<Rightarrow> slots \<Rightarrow> string \<Rightarrow> control_error + after_turn option" where
  "occupied_by explain s x =
     (case fst s x of
        Some p \<Rightarrow> Inr (Some (pa_kind p))
      | None \<Rightarrow>
          (case find_after_turn explain (snd s) x of
             Inl e \<Rightarrow> Inl (argmax_protocol_error e)
           | Inr q \<Rightarrow> Inr (map_option (after_turn_of \<circ> aq_action) q)))"

definition schedule_after_turn ::
  "(json \<Rightarrow> string) \<Rightarrow> string set \<Rightarrow> string \<Rightarrow> nat \<Rightarrow> string \<Rightarrow> after_turn_action \<Rightarrow> slots \<Rightarrow> control_error + slots"
where
  "schedule_after_turn explain known now task x a s =
     (case occupied_by explain s x of
        Inl e \<Rightarrow> Inl e
      | Inr (Some k) \<Rightarrow> Inl (already_pending k)
      | Inr None \<Rightarrow>
          (case insert_after_turn known now x a (snd s) of
             Inl e \<Rightarrow> Inl (argmax_protocol_error e)
           | Inr rows \<Rightarrow> Inr ((fst s)(x \<mapsto> \<lparr>pa_kind = after_turn_of a, pa_sender = Some task\<rparr>), rows)))"

definition adopt_after_turn :: "nat \<Rightarrow> string \<Rightarrow> after_turn \<Rightarrow> slots \<Rightarrow> control_error + slots" where
  "adopt_after_turn task x k s =
     (case fst s x of
        Some p \<Rightarrow> Inl (already_pending (pa_kind p))
      | None \<Rightarrow> Inr ((fst s)(x \<mapsto> \<lparr>pa_kind = k, pa_sender = Some task\<rparr>), snd s))"

text \<open>\<open>io\<close> is whether the delete is written; the entry goes either way. Its sender is dropped with it.\<close>

definition release_after_turn :: "bool \<Rightarrow> string \<Rightarrow> slots \<Rightarrow> slots" where
  "release_after_turn io x s = ((fst s)(x := None), if io then delete_after_turn x (snd s) else snd s)"

definition slot_of :: "slots \<Rightarrow> string \<Rightarrow> after_turn option" where
  "slot_of s x = map_option pa_kind (fst s x)"

text \<open>The task that is told, if one still waits.\<close>

definition signal_turn_settled :: "string \<Rightarrow> slots \<Rightarrow> nat option \<times> slots" where
  "signal_turn_settled x s =
     (case fst s x of None \<Rightarrow> (None, s)
      | Some p \<Rightarrow> (pa_sender p, (fst s)(x \<mapsto> p\<lparr>pa_sender := None\<rparr>), snd s))"

section \<open>What a stored promise reads back as\<close>

lemma json_object_keys: "set (map fst (fold (\<lambda>(k, v). object_insert k v) kvs acc)) = set (map fst kvs) \<union> set (map fst acc)"
proof (induction kvs arbitrary: acc)
  case (Cons kv kvs)
  then show ?case by (cases kv) (auto simp del: set_map simp: object_insert_keys)
qed simp

lemma only_keys_object: "only_keys ks (json_object kvs) \<longleftrightarrow> set (map fst kvs) \<subseteq> ks"
  by (simp only: only_keys_def json_object_def json.case json_object_keys list.map(1) list.set(1) Un_empty_right)

lemma field_object [simp]: "field k f (json_object kvs) = Option.bind (map_of (rev kvs) k) f"
  by (simp add: field_def)

lemma destination_round_trip: "destination_of_json (destination_json d) = Some d"
proof (cases d)
  case (Project_Destination p w)
  have "destination_json d = JObject [(''project'', json_object [(''projectId'', JString p), (''worktree'', JBool w)])]"
    using Project_Destination by (simp add: json_object_def [of "[(''project'', _)]"])
  then show ?thesis using Project_Destination by (simp add: destination_of_json_def)
next
  case (Checkout_Destination path)
  have "destination_json d = JObject [(''checkout'', json_object [(''path'', JString path)])]"
    using Checkout_Destination by (simp add: json_object_def [of "[(''checkout'', _)]"])
  then show ?thesis using Checkout_Destination by (simp add: destination_of_json_def)
qed

definition i64 :: "int \<Rightarrow> bool" where
  "i64 i \<longleftrightarrow> - (2 ^ 63) \<le> i \<and> i < 2 ^ 63"

lemma i64_round_trip: "i64 i \<Longrightarrow> as_i64 (json_i64 i) = Some i"
  by (auto simp: i64_def json_i64_def)

lemma merged_pr_round_trip: "i64 (mr_number m) \<Longrightarrow> merged_pr_of_json (merged_pr_json m) = Some m"
  by (simp add: merged_pr_of_json_def merged_pr_json_def only_keys_object i64_round_trip)

lemma merged_pr_not_null: "merged_pr_json m \<noteq> JNull"
  by (simp add: merged_pr_json_def json_object_def)

definition storable_action :: "after_turn_action \<Rightarrow> bool" where
  "storable_action a \<longleftrightarrow>
     (case a of Archive_Action r \<Rightarrow> (case ar_merged r of None \<Rightarrow> True | Some m \<Rightarrow> i64 (mr_number m)) | Move_Action _ \<Rightarrow> True)"

lemma archive_round_trip:
  assumes "storable_action (Archive_Action r)"
  shows "archive_of_json (payload_json (Archive_Action r)) = Some r"
  using assms
  by (cases r) (auto simp: archive_of_json_def only_keys_object storable_action_def merged_pr_round_trip merged_pr_not_null split: option.splits)

lemma move_round_trip: "move_of_json (payload_json (Move_Action m)) = Some m"
  by (cases m) (simp add: move_of_json_def only_keys_object destination_round_trip)

text \<open>A promise that is stored reads back as what was promised, whatever a move carries and for every archive whose
  PR number fits its column.\<close>

lemma promise_round_trip:
  assumes "storable_action a"
  shows "action_from_row explain (action_column a) (payload_json a) = Inr a"
proof (cases a)
  case (Archive_Action r)
  then show ?thesis using archive_round_trip assms by (simp add: action_from_row_def or_json_error_def del: payload_json.simps)
next
  case (Move_Action m)
  then show ?thesis using move_round_trip
    by (simp add: action_from_row_def or_json_error_def ACTION_MOVE_def ACTION_ARCHIVE_def del: payload_json.simps)
qed

lemma promise_round_trip_witness:
  "action_from_row (\<lambda>_. []) (action_column (Archive_Action \<lparr>ar_workspace = ''w'', ar_merged = Some \<lparr>mr_number = 7, mr_head = ''abc''\<rparr>\<rparr>))
     (payload_json (Archive_Action \<lparr>ar_workspace = ''w'', ar_merged = Some \<lparr>mr_number = 7, mr_head = ''abc''\<rparr>\<rparr>)) =
   Inr (Archive_Action \<lparr>ar_workspace = ''w'', ar_merged = Some \<lparr>mr_number = 7, mr_head = ''abc''\<rparr>\<rparr>)"
  by (rule promise_round_trip) (simp add: storable_action_def i64_def)

section \<open>Tokens name their session\<close>

text \<open>Every token ever made is new.\<close>

inductive token_step :: "credential_state \<times> string set \<Rightarrow> credential_state \<times> string set \<Rightarrow> bool" where
  issue: "fresh \<notin> U \<Longrightarrow> issue_token fresh p c = (t, c') \<Longrightarrow> token_step (c, U) (c', insert fresh U)"
| revoke: "token_step (c, U) (revoke_token x c, U)"

definition credentials_ok :: "credential_state \<times> string set \<Rightarrow> bool" where
  "credentials_ok S \<longleftrightarrow> (let (c, U) = S in
     (\<forall>t p. cs_launches c t = Some p \<longrightarrow> cs_tokens c (lp_session p) = Some t) \<and>
     (\<forall>x t. cs_tokens c x = Some t \<longrightarrow> t \<in> U \<and> (\<exists>p. cs_launches c t = Some p \<and> lp_session p = x)))"

lemma credential_facts:
  assumes "credentials_ok (c, U)"
  shows "cs_launches c t = Some p \<Longrightarrow> cs_tokens c (lp_session p) = Some t"
    and "cs_tokens c x = Some t \<Longrightarrow> t \<in> U \<and> (\<exists>p. cs_launches c t = Some p \<and> lp_session p = x)"
    and "cs_tokens c x = Some t \<Longrightarrow> cs_tokens c y = Some t \<Longrightarrow> x = y"
proof -
  have all: "cs_tokens c x = Some t \<Longrightarrow> t \<in> U \<and> (\<exists>p. cs_launches c t = Some p \<and> lp_session p = x)" for x t
    using assms unfolding credentials_ok_def Let_def case_prod_conv by blast
  show "cs_launches c t = Some p \<Longrightarrow> cs_tokens c (lp_session p) = Some t"
    using assms unfolding credentials_ok_def Let_def case_prod_conv by blast
  show "cs_tokens c x = Some t \<Longrightarrow> t \<in> U \<and> (\<exists>p. cs_launches c t = Some p \<and> lp_session p = x)" by (rule all)
  show "cs_tokens c x = Some t \<Longrightarrow> cs_tokens c y = Some t \<Longrightarrow> x = y" using all [of x t] all [of y t] by auto
qed

lemma issue_keeps:
  assumes ok: "credentials_ok (c, U)" and fresh: "fresh \<notin> U" and i: "issue_token fresh p c = (t, c')"
  shows "credentials_ok (c', insert fresh U)"
proof -
  have t: "t = (case cs_tokens c (lp_session p) of None \<Rightarrow> fresh | Some t \<Rightarrow> t)" using i by (simp add: issue_token_def Let_def)
  have c': "cs_tokens c' = (cs_tokens c)(lp_session p \<mapsto> t)" "cs_launches c' = (cs_launches c)(t \<mapsto> p)"
    using i by (auto simp: issue_token_def Let_def)
  have own: "lp_session q = lp_session p" if q: "cs_launches c t = Some q" for q
  proof (cases "cs_tokens c (lp_session p)")
    case None
    then have "cs_tokens c (lp_session q) = Some fresh" using credential_facts(1) [OF ok q] t by simp
    then show ?thesis using credential_facts(2) [OF ok] fresh by blast
  next
    case (Some u)
    then have "cs_tokens c (lp_session p) = Some t" using t by simp
    then show ?thesis using credential_facts(3) [OF ok credential_facts(1) [OF ok q]] by simp
  qed
  have holder: "x = lp_session p" if x: "cs_tokens c x = Some t" for x
  proof -
    obtain q where q: "cs_launches c t = Some q" "lp_session q = x" using credential_facts(2) [OF ok x] by blast
    show ?thesis using own [OF q(1)] q(2) by simp
  qed
  have only: "u = t" if u: "cs_launches c u = Some q" "lp_session q = lp_session p" for u q
  proof -
    have "cs_tokens c (lp_session p) = Some u" using credential_facts(1) [OF ok u(1)] u(2) by simp
    then show ?thesis using t by simp
  qed
  have used: "t \<in> insert fresh U" using t ok by (auto simp: credentials_ok_def split: option.splits)
  have "cs_tokens c' (lp_session q) = Some u" if q: "cs_launches c' u = Some q" for u q
  proof (cases "u = t")
    case True
    then show ?thesis using q by (simp add: c')
  next
    case False
    then have old: "cs_launches c u = Some q" using q by (simp add: c')
    then have "lp_session q \<noteq> lp_session p" using only False by blast
    then show ?thesis using credential_facts(1) [OF ok old] by (simp add: c')
  qed
  moreover have "u \<in> insert fresh U \<and> (\<exists>q. cs_launches c' u = Some q \<and> lp_session q = x)" if u: "cs_tokens c' x = Some u" for x u
  proof (cases "x = lp_session p")
    case True
    then show ?thesis using u used by (simp add: c')
  next
    case False
    then have old: "cs_tokens c x = Some u" using u by (simp add: c')
    then have "u \<noteq> t" using holder False by blast
    then show ?thesis using credential_facts(2) [OF ok old] by (simp add: c')
  qed
  ultimately show ?thesis unfolding credentials_ok_def Let_def case_prod_conv by blast
qed

lemma revoke_keeps:
  assumes "credentials_ok (c, U)"
  shows "credentials_ok (revoke_token x c, U)"
proof (cases "cs_tokens c x")
  case None
  then show ?thesis using assms by (simp add: revoke_token_def)
next
  case (Some t)
  then show ?thesis
    using credential_facts [OF assms] by (auto simp: revoke_token_def credentials_ok_def split: if_splits)
qed

interpretation tokens: invariant_system token_step credentials_ok
  by unfold_locales (erule token_step.cases, auto intro: issue_keeps revoke_keeps)

definition no_credentials :: credential_state where
  "no_credentials = \<lparr>cs_launches = Map.empty, cs_tokens = Map.empty\<rparr>"

text \<open>C31: A token answers for one session only, the one it was issued to, for as long as that session is not revoked: what
  it resolves to is that session's, no two tokens resolve to the same session, and after a revocation none does.\<close>

theorem token_answers_for_its_session:
  assumes "token_step\<^sup>*\<^sup>* (no_credentials, {}) (c, U)" and "resolve_token c t = Some p"
  shows "cs_tokens c (lp_session p) = Some t \<and>
    (\<forall>u q. resolve_token c u = Some q \<and> lp_session q = lp_session p \<longrightarrow> u = t) \<and>
    (\<forall>u q. resolve_token (revoke_token (lp_session p) c) u = Some q \<longrightarrow> lp_session q \<noteq> lp_session p)"
proof -
  have "credentials_ok (no_credentials, {})" by (simp add: credentials_ok_def no_credentials_def)
  then have ok: "credentials_ok (c, U)" by (rule tokens.runs [OF assms(1)])
  have one: "u = t" if "resolve_token c u = Some q" "lp_session q = lp_session p" for u q
    using that assms(2) credential_facts(1) [OF ok] unfolding resolve_token_def by (metis option.inject)
  have "lp_session q \<noteq> lp_session p" if q: "resolve_token (revoke_token (lp_session p) c) u = Some q" for u q
  proof
    assume same: "lp_session q = lp_session p"
    have held: "cs_tokens c (lp_session p) = Some t" using credential_facts(1) [OF ok] assms(2) unfolding resolve_token_def by blast
    then have "resolve_token c u = Some q \<and> u \<noteq> t" using q by (auto simp: revoke_token_def resolve_token_def split: if_splits)
    then show False using one same by blast
  qed
  moreover have "cs_tokens c (lp_session p) = Some t" using credential_facts(1) [OF ok] assms(2) unfolding resolve_token_def by blast
  ultimately show ?thesis using one by blast
qed

definition sample_caller :: launch_parent where
  "sample_caller = \<lparr>lp_session = ''s'', lp_provider = Codex, lp_model_label = ''m'', lp_model_id = ''m'', lp_effort = None,
     lp_fast = False, lp_permission = AutoApprove, lp_agent_mode = Auto_Mode\<rparr>"

theorem token_answers_for_its_session_witness:
  "resolve_token (snd (issue_token ''t'' sample_caller no_credentials)) ''t'' = Some sample_caller \<and>
   resolve_token (revoke_token ''s'' (snd (issue_token ''t'' sample_caller no_credentials))) ''t'' \<noteq> Some sample_caller"
proof -
  let ?c = "snd (issue_token ''t'' sample_caller no_credentials)"
  have r: "resolve_token ?c ''t'' = Some sample_caller"
    by (simp add: issue_token_def no_credentials_def resolve_token_def Let_def)
  have "token_step (no_credentials, {}) (?c, {''t''})"
    using token_step.issue [of "''t''" "{}" sample_caller no_credentials] by (metis empty_iff surjective_pairing)
  then have "token_step\<^sup>*\<^sup>* (no_credentials, {}) (?c, {''t''})" by (rule r_into_rtranclp)
  then have none: "\<forall>u q. resolve_token (revoke_token (lp_session sample_caller) ?c) u = Some q \<longrightarrow> lp_session q \<noteq> lp_session sample_caller"
    using token_answers_for_its_session [OF _ r] by blast
  have "lp_session sample_caller = ''s''" by (simp add: sample_caller_def)
  then show ?thesis using r none by metis
qed

section \<open>A session waits while a guard lives\<close>

inductive waiter_step :: "(string \<rightharpoonup> nat) \<times> string list \<Rightarrow> (string \<rightharpoonup> nat) \<times> string list \<Rightarrow> bool" where
  block: "waiter_step (w, gs) (wait_on_inbox x w, x # gs)"
| unblock: "waiter_step (w, a @ x # b) (drop_wait_guard x w, a @ b)"

definition waiters_ok :: "(string \<rightharpoonup> nat) \<times> string list \<Rightarrow> bool" where
  "waiters_ok S \<longleftrightarrow> (\<forall>x. fst S x = (if x \<in> set (snd S) then Some (count_list (snd S) x) else None))"

lemma count_list_zero: "count_list xs x = 0 \<longleftrightarrow> x \<notin> set xs"
  by (simp add: count_list_0_iff)

lemma waiter_step_keeps: "waiters_ok s \<Longrightarrow> waiter_step s t \<Longrightarrow> waiters_ok t"
proof (erule waiter_step.cases)
  fix w gs x assume "waiters_ok s" "s = (w, gs)" "t = (wait_on_inbox x w, x # gs)"
  then show "waiters_ok t" by (auto simp: waiters_ok_def wait_on_inbox_def count_list_zero)
next
  fix w a x b assume ok: "waiters_ok s" and eq: "s = (w, a @ x # b)" "t = (drop_wait_guard x w, a @ b)"
  have own: "w x = Some (Suc (count_list (a @ b) x))" using ok eq(1) by (simp add: waiters_ok_def)
  have "drop_wait_guard x w y = (if y \<in> set (a @ b) then Some (count_list (a @ b) y) else None)" for y
  proof (cases "y = x")
    case True
    then show ?thesis using own count_list_zero [of "a @ b" x] by (auto simp: drop_wait_guard_def)
  next
    case False
    then show ?thesis using ok eq(1) own by (auto simp: waiters_ok_def drop_wait_guard_def)
  qed
  then show "waiters_ok t" using eq(2) by (simp add: waiters_ok_def)
qed

interpretation waiters: invariant_system waiter_step waiters_ok
  by unfold_locales (rule waiter_step_keeps)

lemma waits_while_a_guard_lives:
  "waiter_step\<^sup>*\<^sup>* (Map.empty, []) (w, gs) \<Longrightarrow> is_waiting_on_inbox w x \<longleftrightarrow> x \<in> set gs"
  using waiters.runs [of "(Map.empty, [])" "(w, gs)"] by (auto simp: waiters_ok_def is_waiting_on_inbox_def)

end
