(* ===== verification/After_Turn.thy ===== *)
theory After_Turn
  imports Control_Registry Routine_Fire Validation
begin

text \<open>
  Disposals that happen once a turn settles (\<^verbatim>\<open>session_control/actions/move_archive.rs\<close>, \<^verbatim>\<open>pr_watch.rs\<close>,
  \<^verbatim>\<open>resume.rs\<close>, and their guards in \<^verbatim>\<open>providers/session_service.rs\<close>): what a call must satisfy, the call itself, the run
  and the resumption at boot. What archiving, moving and git answer are arguments.
\<close>

section \<open>What the calls read\<close>

record place_row =
  pl_id :: string
  pl_state :: string
  pl_shared :: bool
  pl_kind :: string
  pl_project :: string

record disposal_world =
  dw_sessions :: "session_row list"
  dw_places :: "place_row list"
  dw_events :: "event_row list"

definition session_in :: "disposal_world \<Rightarrow> string \<Rightarrow> argmax_error + session_row" where
  "session_in w x =
     (case find (\<lambda>s. sess_id s = x) (dw_sessions w) of Some s \<Rightarrow> Inr s | None \<Rightarrow> Inl (record_not_found ''session'' x))"

definition place_in :: "disposal_world \<Rightarrow> string \<Rightarrow> argmax_error + place_row" where
  "place_in w i =
     (case find (\<lambda>p. pl_id p = i) (dw_places w) of Some p \<Rightarrow> Inr p | None \<Rightarrow> Inl (record_not_found ''workspace'' i))"

definition caller_place :: "disposal_world \<Rightarrow> string \<Rightarrow> control_error + place_row" where
  "caller_place w x =
     and_then (to_control (session_in w x)) (\<lambda>s. to_control (place_in w (sess_workspace s)))"

definition invalid_input_error :: "input_issue \<Rightarrow> control_error" where
  "invalid_input_error i = protocol_error (issue_code i) (issue_message i)"

section \<open>Asking\<close>

text \<open>\<^verbatim>\<open>schedule_workspace_archive\<close> up to the slot.\<close>

definition archive_promise :: "disposal_world \<Rightarrow> string \<Rightarrow> control_error + after_turn_action" where
  "archive_promise w x =
     and_then (caller_place w x) (\<lambda>p.
       if pl_state p = ''archived'' then Inl (protocol_error ''WORKSPACE_ALREADY_ARCHIVED'' ''This workspace is already archived.'')
       else (case to_workspace_id (pl_id p) of
               Inl e \<Rightarrow> Inl (invalid_input_error e)
             | Inr _ \<Rightarrow> Inr (Archive_Action \<lparr>ar_workspace = pl_id p, ar_merged = None\<rparr>)))"

record move_action =
  ma_project :: "string option"
  ma_path :: "string option"
  ma_worktree :: bool
  ma_keep_source :: bool
  ma_prompt :: string

definition move_checkout_path :: "move_action \<Rightarrow> control_error + string option" where
  "move_checkout_path m =
     (case (ma_project m, ma_path m) of
        (Some _, Some _) \<Rightarrow> Inl (protocol_error ''MOVE_DESTINATION_AMBIGUOUS'' ''Pass either project or path, not both.'')
      | (None, None) \<Rightarrow> Inl (protocol_error ''MOVE_DESTINATION_MISSING''
          ''Pass the project to move to, or the path of a checkout of this project.'')
      | (None, Some path) \<Rightarrow>
          if ma_worktree m
          then Inl (protocol_error ''MOVE_WORKTREE_WITH_PATH''
                 ''worktree creates a new worktree; path moves into one that exists. Pass only one.'')
          else Inr (Some path)
      | (Some _, None) \<Rightarrow> Inr None)"

text \<open>\<^verbatim>\<open>schedule_session_move\<close> up to the slot; \<open>resolve\<close> is the id of the project the selector names, or the caller's own
  without one.\<close>

definition move_promise ::
  "(string option \<Rightarrow> string \<Rightarrow> control_error + string) \<Rightarrow> disposal_world \<Rightarrow> string \<Rightarrow> move_action \<Rightarrow> control_error + after_turn_action"
where
  "move_promise resolve w x m =
     (case to_prompt (trim (ma_prompt m)) of
        Inl e \<Rightarrow> Inl (invalid_input_error e)
      | Inr prompt \<Rightarrow>
          and_then (move_checkout_path m) (\<lambda>path.
          and_then (caller_place w x) (\<lambda>p.
            if path \<noteq> None \<and> pl_kind p \<noteq> ''git''
            then Inl (protocol_error ''MOVE_PATH_WITHOUT_REPO''
                   ''This chat has no repository, so it has no checkouts to move between.'')
            else and_then (resolve (ma_project m) (pl_project p)) (\<lambda>d.
              if path = None \<and> d = pl_project p
              then Inl (protocol_error ''MOVE_SAME_PROJECT'' ''The destination must be a different project.'')
              else Inr (Move_Action
                     \<lparr>mv_destination = (case path of Some t \<Rightarrow> Checkout_Destination t | None \<Rightarrow> Project_Destination d (ma_worktree m)),
                      mv_keep_source = ma_keep_source m, mv_prompt = prompt\<rparr>)))))"

text \<open>\<^verbatim>\<open>schedule_checkout_removal\<close> up to the slot: the action, or why the checkout is kept. \<open>status\<close> is what
  \<^verbatim>\<open>git status\<close> prints, \<open>later\<close> whether HEAD is known not to be an ancestor of the merged head.\<close>

definition removal_promise ::
  "place_row \<Rightarrow> after_turn option \<Rightarrow> argmax_error + string \<Rightarrow> bool \<Rightarrow> int \<Rightarrow> string \<Rightarrow> string \<Rightarrow> string + after_turn_action"
where
  "removal_promise p slot status later number head checkout =
     (let kept_line = (\<lambda>why. ''checkout '' @ checkout @ '' kept ('' @ why @ '')'')
      in if pl_kind p \<noteq> ''git'' then Inl (kept_line ''it is a folder, not a git worktree'')
         else if pl_shared p then Inl (kept_line (''a shared checkout is not Argmax'' @ [CHR 0x27] @ ''s to remove''))
         else if slot = Some After_Removal then Inl (''checkout '' @ checkout @ '' removed when this turn ends (already scheduled)'')
         else (case status of
                 Inl e \<Rightarrow> Inl (kept_line (''its status could not be read: '' @ error_text e))
               | Inr s \<Rightarrow>
                   if \<not> is_blank s then Inl (kept_line ''it has uncommitted changes'')
                   else if later then Inl (kept_line ''it has commits the merged PR does not contain'')
                   else Inr (Archive_Action \<lparr>ar_workspace = pl_id p, ar_merged = Some \<lparr>mr_number = number, mr_head = head\<rparr>\<rparr>)))"

text \<open>A queued follow-up expects the chat to be there after the turn.\<close>

definition ensure_after_turn_schedulable :: "bool \<Rightarrow> after_turn \<Rightarrow> argmax_error + unit" where
  "ensure_after_turn_schedulable queued k =
     (if queued
      then Inl (case k of
          After_Move \<Rightarrow> service ''MOVE_HAS_QUEUED_MESSAGES'' ''Send or cancel queued follow-ups before moving this chat.''
        | After_Archive \<Rightarrow> service ''ARCHIVE_HAS_QUEUED_MESSAGES'' ''Send or cancel queued follow-ups before archiving this chat.''
        | After_Removal \<Rightarrow> service ''ARCHIVE_HAS_QUEUED_MESSAGES''
            (''Send or cancel queued follow-ups before removing this chat'' @ [CHR 0x27] @ ''s checkout.''))
      else Inr ())"

text \<open>The rest of the call once it has the slot: \<open>event\<close> is the error of writing the timeline row, if it fails; a
  removal writes none. \<open>io\<close> is whether taking the slot back reaches the table.\<close>

definition answer_request ::
  "bool \<Rightarrow> argmax_error option \<Rightarrow> bool \<Rightarrow> string \<Rightarrow> after_turn \<Rightarrow> slots \<Rightarrow> (control_error + unit) \<times> slots"
where
  "answer_request queued event io x k s =
     (case ensure_after_turn_schedulable queued k of
        Inl e \<Rightarrow> (Inl (argmax_protocol_error e), release_after_turn io x s)
      | Inr _ \<Rightarrow>
          (case (if k = After_Removal then None else event) of
             Some e \<Rightarrow> (Inl (argmax_protocol_error e), release_after_turn io x s)
           | None \<Rightarrow> (Inr (), s)))"

text \<open>While a slot is taken the chat takes no follow-up.\<close>

definition ensure_no_pending_after_turn :: "slots \<Rightarrow> string \<Rightarrow> argmax_error + unit" where
  "ensure_no_pending_after_turn s x =
     (case slot_of s x of
        None \<Rightarrow> Inr ()
      | Some After_Move \<Rightarrow> Inl (service ''MOVE_ALREADY_PENDING''
          ''This chat is moving after the current turn. New follow-ups are disabled.'')
      | Some After_Archive \<Rightarrow> Inl (service ''ARCHIVE_ALREADY_PENDING''
          ''This chat is archiving after the current turn. New follow-ups are disabled.'')
      | Some After_Removal \<Rightarrow> Inl (service ''ARCHIVE_ALREADY_PENDING''
          (''This chat'' @ [CHR 0x27] @ ''s checkout is removed after the current turn. The chat stays listed, read-only. New follow-ups are disabled.'')))"

text \<open>A turn that did not stop safely takes the promise back.\<close>

definition abort_session_after_turn :: "bool \<Rightarrow> string \<Rightarrow> slots \<Rightarrow> after_turn option \<times> slots" where
  "abort_session_after_turn io x s =
     (case slot_of s x of None \<Rightarrow> (None, s) | Some k \<Rightarrow> (Some k, release_after_turn io x s))"

section \<open>Running\<close>

fun after_turn_operation :: "after_turn \<Rightarrow> string" where
  "after_turn_operation After_Move = ''session.move''"
| "after_turn_operation After_Archive = ''workspace.archive''"
| "after_turn_operation After_Removal = ''pr.cleanup''"

text \<open>The call a run makes, unless its stored id or prompt does not validate.\<close>

datatype disposal =
    Archive_Workspace string
  | Remove_Checkout string string
  | Move_Session string move_destination_record bool string  \<comment> \<open>with the prompt of the first turn there\<close>

definition disposal_of :: "string \<Rightarrow> after_turn_action \<Rightarrow> disposal option" where
  "disposal_of x a =
     (case a of
        Archive_Action r \<Rightarrow>
          (case ar_merged r of
             Some m \<Rightarrow> Some (Remove_Checkout (ar_workspace r) (mr_head m))
           | None \<Rightarrow> (case to_workspace_id (ar_workspace r) of Inl _ \<Rightarrow> None | Inr i \<Rightarrow> Some (Archive_Workspace i)))
      | Move_Action r \<Rightarrow>
          (case to_prompt (mv_prompt r) of Inl _ \<Rightarrow> None
           | Inr p \<Rightarrow> Some (Move_Session x (mv_destination r) (mv_keep_source r) p)))"

text \<open>What the chat's timeline says of a removal: \<open>outcome\<close> is whether the checkout is gone, \<open>local\<close> the cleanup of
  the local branch, run only then.\<close>

definition removal_note :: "argmax_error + bool \<Rightarrow> argmax_error + string \<Rightarrow> string" where
  "removal_note outcome local =
     (case outcome of
        Inr True \<Rightarrow>
          ''Checkout removed. '' @
          (case local of Inr d \<Rightarrow> ''Local: '' @ d | Inl e \<Rightarrow> ''Local branch not checked: '' @ error_text e) @
          ''. Cleaned up. Start a new chat for follow-ups.''
      | Inr False \<Rightarrow> ''Checkout kept: it has uncommitted changes or commits the merged PR does not contain.''
      | Inl e \<Rightarrow> ''Checkout not removed: '' @ error_text e)"

definition MAX_CONTINUED_MOVES :: nat where "MAX_CONTINUED_MOVES = 3"

definition count_move_arrivals :: "event_row list \<Rightarrow> string \<Rightarrow> nat" where
  "count_move_arrivals evs x =
     length (filter (\<lambda>e. ev_session e = x \<and> ev_type e = ''session.moved'' \<and>
       json_path [''direction''] (ev_payload e) = Some (JString ''destination'')) evs)"

text \<open>The first turn of the chat at its destination: sent, or a note. \<open>reply\<close> is what sending answers.\<close>

datatype continuation = Send_Prompt string string | Continuation_Note string | No_Continuation

definition continue_moved_session :: "event_row list \<Rightarrow> string \<Rightarrow> string \<Rightarrow> continuation" where
  "continue_moved_session evs x prompt =
     (let n = count_move_arrivals evs x
      in if n > MAX_CONTINUED_MOVES
         then Continuation_Note (''This chat has moved '' @ nat_text n @
           '' times, so it is not picking the work up on its own again. Send the next message yourself. It was about to start on: '' @ prompt)
         else (case to_session_id x of Inl _ \<Rightarrow> No_Continuation | Inr i \<Rightarrow> Send_Prompt i prompt))"

definition continuation_failed :: "argmax_error + unit \<Rightarrow> string \<Rightarrow> string option" where
  "continuation_failed reply prompt =
     (case reply of Inr _ \<Rightarrow> None
      | Inl e \<Rightarrow> Some (''Moved here, but the work could not start: '' @ error_text e @ ''. It was about to start on: '' @ prompt))"

section \<open>Resuming\<close>

datatype resumption = Obsolete string | Await_Turn_End | Run_Now

text \<open>\<open>io\<close> is the error of reading the events.\<close>

definition judge_promise :: "argmax_error option \<Rightarrow> disposal_world \<Rightarrow> after_turn_request \<Rightarrow> argmax_error + resumption" where
  "judge_promise io w q =
     (case session_in w (aq_session q) of Inl _ \<Rightarrow> Inr (Obsolete ''the session is gone'')
      | Inr s \<Rightarrow>
          (case place_in w (sess_workspace s) of Inl _ \<Rightarrow> Inr (Obsolete ''the workspace is gone'')
           | Inr p \<Rightarrow>
               if pl_state p = ''archived'' then Inr (Obsolete ''the workspace is already archived'')
               else
                 (let verdict = (if is_active (sess_state s) then Await_Turn_End else Run_Now)
                  in case aq_action q of
                       Archive_Action _ \<Rightarrow> Inr verdict
                     | Move_Action _ \<Rightarrow>
                         (case io of Some e \<Rightarrow> Inl e
                          | None \<Rightarrow> if source_move_recorded (dw_events w) (aq_session q) then Inr (Obsolete ''the move already happened'')
                                    else Inr verdict))))"

definition resume_note :: "after_turn \<Rightarrow> string" where
  "resume_note k =
     (case k of
        After_Removal \<Rightarrow> ''Resuming the checkout removal scheduled before Argmax last quit. The chat stays listed, read-only.''
      | After_Archive \<Rightarrow> ''Resuming the archive scheduled before Argmax last quit.''
      | After_Move \<Rightarrow> ''Resuming the move scheduled before Argmax last quit.'')"

text \<open>What resuming one promise leaves: nothing more to do, a task that waits for the turn's end, or one that runs.\<close>

datatype resumed = Left_Alone | Dropped | Waits_Again | Runs_Now

definition resume_one ::
  "argmax_error option \<Rightarrow> bool \<Rightarrow> disposal_world \<Rightarrow> nat \<Rightarrow> after_turn_request \<Rightarrow> slots \<Rightarrow> resumed \<times> slots"
where
  "resume_one err io w task q s =
     (case judge_promise err w q of
        Inl _ \<Rightarrow> (Left_Alone, s)
      | Inr (Obsolete _) \<Rightarrow> (Dropped, (fst s, if io then delete_after_turn (aq_session q) (snd s) else snd s))
      | Inr Await_Turn_End \<Rightarrow>
          (case adopt_after_turn task (aq_session q) (after_turn_of (aq_action q)) s of
             Inl _ \<Rightarrow> (Left_Alone, s) | Inr s' \<Rightarrow> (Waits_Again, s'))
      | Inr Run_Now \<Rightarrow> (Runs_Now, s))"

section \<open>Which promise is kept\<close>

text \<open>A promise is dropped at boot only when there is nothing left to act on: its chat or workspace is gone, the
  workspace is archived, or the move is in the timeline.\<close>

lemma judge_obsolete:
  assumes "judge_promise io w q = Inr (Obsolete why)" and "session_in w (aq_session q) = Inr s"
    and "place_in w (sess_workspace s) = Inr p" and "pl_state p \<noteq> ''archived''"
  shows "(\<exists>m. aq_action q = Move_Action m) \<and> source_move_recorded (dw_events w) (aq_session q)"
  using assms by (auto simp: judge_promise_def Let_def split: after_turn_action.splits option.splits if_splits)

text \<open>A chat that has arrived too often is not sent on by itself, so moves between two projects end.\<close>

lemma arrivals_end: "count_move_arrivals evs x > MAX_CONTINUED_MOVES \<Longrightarrow> \<exists>t. continue_moved_session evs x prompt = Continuation_Note t"
  by (simp add: continue_moved_session_def Let_def)

text \<open>A call that is refused leaves no promise; one that is answered leaves the slot as it was.\<close>

lemma answer_request_cases:
  assumes "answer_request queued event io x k s = (r, s')"
  shows "(r = Inr () \<and> s' = s \<and> \<not> queued) \<or> (\<not> is_ok r \<and> s' = release_after_turn io x s)"
  using assms by (auto simp: answer_request_def ensure_after_turn_schedulable_def split: if_splits option.splits)

end
