(* ===== verification/After_Turn_Safety.thy ===== *)
theory After_Turn_Safety
  imports After_Turn
begin

text \<open>
  The life of promised disposals: calls that ask for one, turns that settle, runs, aborts, deleted chats, restarts and the
  resumption at boot, which reads the table once and then works through what it read while chats already run.
\<close>

section \<open>The system\<close>

datatype disposal_stage = Asks | Waits | Runs

record disposal_task =
  tk_id :: nat
  tk_session :: string
  tk_action :: after_turn_action
  tk_stage :: disposal_stage
  tk_told :: bool

text \<open>Besides the state: the promise that holds a chat's slot, the chats whose promise of an earlier run was not yet
  taken up, what the resumption read and has still to do, and whether it has read.\<close>

record disposal_system =
  sx_slots :: slots
  sx_tasks :: "disposal_task list"
  sx_next :: nat
  sx_promise :: "string \<rightharpoonup> after_turn_action"
  sx_limbo :: "string set"
  sx_resuming :: "after_turn_request list"
  sx_read :: bool

definition tell :: "nat option \<Rightarrow> disposal_task list \<Rightarrow> disposal_task list" where
  "tell k = map (\<lambda>t. if k = Some (tk_id t) then t\<lparr>tk_told := True\<rparr> else t)"

text \<open>What taking up a promise at boot starts.\<close>

definition taken_up :: "resumed \<Rightarrow> nat \<Rightarrow> after_turn_request \<Rightarrow> disposal_task list" where
  "taken_up r n q =
     (case r of
        Waits_Again \<Rightarrow> [\<lparr>tk_id = n, tk_session = aq_session q, tk_action = aq_action q, tk_stage = Waits, tk_told = False\<rparr>]
      | Runs_Now \<Rightarrow> [\<lparr>tk_id = n, tk_session = aq_session q, tk_action = aq_action q, tk_stage = Runs, tk_told = True\<rparr>]
      | _ \<Rightarrow> [])"

inductive disposal_step :: "(json \<Rightarrow> string) \<Rightarrow> disposal_system \<Rightarrow> disposal_system \<Rightarrow> bool" for explain :: "json \<Rightarrow> string" where
  ask: "schedule_after_turn explain known now (sx_next S) x a (sx_slots S) = Inr s \<Longrightarrow> storable_action a \<Longrightarrow>
    disposal_step explain S (S\<lparr>sx_slots := s,
      sx_tasks := sx_tasks S @ [\<lparr>tk_id = sx_next S, tk_session = x, tk_action = a, tk_stage = Asks, tk_told = False\<rparr>],
      sx_next := Suc (sx_next S), sx_promise := (sx_promise S)(x \<mapsto> a), sx_limbo := sx_limbo S - {x}\<rparr>)"
| answer: "sx_tasks S = A @ t # B \<Longrightarrow> tk_stage t = Asks \<Longrightarrow>
    answer_request queued event io (tk_session t) (after_turn_of (tk_action t)) (sx_slots S) = (Inr (), s) \<Longrightarrow>
    disposal_step explain S (S\<lparr>sx_slots := s, sx_tasks := A @ t\<lparr>tk_stage := Waits\<rparr> # B\<rparr>)"
| refuse: "sx_tasks S = A @ t # B \<Longrightarrow> tk_stage t = Asks \<Longrightarrow>
    answer_request queued event io (tk_session t) (after_turn_of (tk_action t)) (sx_slots S) = (Inl e, s) \<Longrightarrow>
    disposal_step explain S (S\<lparr>sx_slots := s, sx_tasks := A @ B, sx_promise := (sx_promise S)(tk_session t := None)\<rparr>)"
| settle: "signal_turn_settled x (sx_slots S) = (k, s) \<Longrightarrow>
    disposal_step explain S (S\<lparr>sx_slots := s, sx_tasks := tell k (sx_tasks S)\<rparr>)"
| start: "sx_tasks S = A @ t # B \<Longrightarrow> tk_stage t = Waits \<Longrightarrow> tk_told t \<Longrightarrow>
    disposal_step explain S (S\<lparr>sx_tasks := A @ t\<lparr>tk_stage := Runs\<rparr> # B\<rparr>)"
| finish: "sx_tasks S = A @ t # B \<Longrightarrow> tk_stage t = Runs \<Longrightarrow>
    disposal_step explain S (S\<lparr>sx_slots := release_after_turn io (tk_session t) (sx_slots S), sx_tasks := A @ B,
      sx_promise := (sx_promise S)(tk_session t := None)\<rparr>)"
| ended: "sx_tasks S = A @ t # B \<Longrightarrow> tk_stage t = Waits \<Longrightarrow> \<not> tk_told t \<Longrightarrow>
    \<forall>x p. fst (sx_slots S) x = Some p \<longrightarrow> pa_sender p \<noteq> Some (tk_id t) \<Longrightarrow>
    disposal_step explain S (S\<lparr>sx_tasks := A @ B\<rparr>)"
| abort: "abort_session_after_turn io x (sx_slots S) = (Some k, s) \<Longrightarrow>
    disposal_step explain S (S\<lparr>sx_slots := s, sx_promise := (sx_promise S)(x := None)\<rparr>)"
| delete_session: "disposal_step explain S (S\<lparr>sx_slots := (fst (sx_slots S), delete_after_turn x (snd (sx_slots S))),
      sx_promise := (sx_promise S)(x := None)\<rparr>)"
| restart: "disposal_step explain S (S\<lparr>sx_slots := (Map.empty, snd (sx_slots S)), sx_tasks := [], sx_limbo := dom (sx_promise S),
      sx_resuming := [], sx_read := False\<rparr>)"
| read: "\<not> sx_read S \<Longrightarrow> list_after_turn explain (snd (sx_slots S)) = r \<Longrightarrow>
    disposal_step explain S (S\<lparr>sx_resuming := (case r of Inl _ \<Rightarrow> [] | Inr qs \<Rightarrow> qs), sx_read := True\<rparr>)"
| resume: "sx_resuming S = q # qs \<Longrightarrow> resume_one err io w (sx_next S) q (sx_slots S) = (r, s) \<Longrightarrow>
    disposal_step explain S (S\<lparr>sx_slots := s, sx_tasks := sx_tasks S @ taken_up r (sx_next S) q, sx_next := Suc (sx_next S),
      sx_resuming := qs,
      sx_promise := (if r = Dropped then (sx_promise S)(aq_session q := None) else sx_promise S),
      sx_limbo := (if r = Left_Alone then sx_limbo S else sx_limbo S - {aq_session q})\<rparr>)"

definition start_disposals :: disposal_system where
  "start_disposals = \<lparr>sx_slots = (Map.empty, []), sx_tasks = [], sx_next = 0, sx_promise = Map.empty, sx_limbo = {},
     sx_resuming = [], sx_read = False\<rparr>"

section \<open>What every step keeps\<close>

definition stores :: "after_turn_row \<Rightarrow> after_turn_action \<Rightarrow> bool" where
  "stores r a \<longleftrightarrow> storable_action a \<and> af_action r = action_column a \<and> af_payload r = payload_json a"

lemma stores_reads: "stores r a \<Longrightarrow> build_request explain r = Inr \<lparr>aq_session = af_session r, aq_action = a, aq_requested = af_requested r\<rparr>"
proof -
  assume "stores r a"
  moreover have "storable_action a \<Longrightarrow> action_from_row explain (action_column a) (payload_json a) = Inr a"
    using archive_round_trip move_round_trip
    by (cases a) (auto simp: action_from_row_def or_json_error_def ACTION_MOVE_def ACTION_ARCHIVE_def simp del: payload_json.simps)
  ultimately show ?thesis by (simp add: build_request_def stores_def)
qed

definition table_ok :: "after_turn_table \<Rightarrow> bool" where
  "table_ok rows \<longleftrightarrow> distinct (map af_session rows) \<and> (\<forall>r \<in> set rows. \<exists>a. stores r a)"

definition promised_rows :: "after_turn_table \<Rightarrow> (string \<rightharpoonup> after_turn_action) \<Rightarrow> bool" where
  "promised_rows rows P \<longleftrightarrow> (\<forall>x a. P x = Some a \<longrightarrow> (\<exists>r \<in> set rows. af_session r = x \<and> stores r a))"

text \<open>A task that will run for the promise: told already, or the one its entry tells.\<close>

definition carries :: "(string \<rightharpoonup> pending_after_turn) \<Rightarrow> string \<Rightarrow> after_turn_action \<Rightarrow> disposal_task \<Rightarrow> bool" where
  "carries M x a t \<longleftrightarrow> tk_session t = x \<and> tk_action t = a \<and>
     (tk_told t \<or> (\<exists>p. M x = Some p \<and> pa_sender p = Some (tk_id t)))"

definition carried :: "(string \<rightharpoonup> pending_after_turn) \<Rightarrow> disposal_task list \<Rightarrow> string set \<Rightarrow> (string \<rightharpoonup> after_turn_action) \<Rightarrow> bool" where
  "carried M ts L P \<longleftrightarrow> (\<forall>x a. P x = Some a \<longrightarrow> x \<in> L \<or> (\<exists>t \<in> set ts. carries M x a t))"

definition kinds_ok :: "(string \<rightharpoonup> pending_after_turn) \<Rightarrow> (string \<rightharpoonup> after_turn_action) \<Rightarrow> bool" where
  "kinds_ok M P \<longleftrightarrow> (\<forall>x a p. P x = Some a \<and> M x = Some p \<longrightarrow> pa_kind p = after_turn_of a)"

definition boot_ok :: "(string \<rightharpoonup> pending_after_turn) \<Rightarrow> string set \<Rightarrow> after_turn_request list \<Rightarrow> bool \<Rightarrow> (string \<rightharpoonup> after_turn_action) \<Rightarrow> bool" where
  "boot_ok M L qs done_reading P \<longleftrightarrow> distinct (map aq_session qs) \<and>
     (\<forall>q \<in> set qs. \<forall>a. P (aq_session q) = Some a \<and> aq_session q \<in> L \<longrightarrow> aq_action q = a) \<and>
     (\<forall>q \<in> set qs. P (aq_session q) \<noteq> None \<and> M (aq_session q) = None \<longrightarrow> aq_session q \<in> L) \<and>
     (\<not> done_reading \<longrightarrow> qs = [] \<and> (\<forall>x. P x \<noteq> None \<and> M x = None \<longrightarrow> x \<in> L))"

definition disposal_inv :: "disposal_system \<Rightarrow> bool" where
  "disposal_inv S \<longleftrightarrow> table_ok (snd (sx_slots S)) \<and> promised_rows (snd (sx_slots S)) (sx_promise S) \<and>
     carried (fst (sx_slots S)) (sx_tasks S) (sx_limbo S) (sx_promise S) \<and> kinds_ok (fst (sx_slots S)) (sx_promise S) \<and>
     boot_ok (fst (sx_slots S)) (sx_limbo S) (sx_resuming S) (sx_read S) (sx_promise S)"

lemma disposal_invI:
  assumes "table_ok (snd (sx_slots S))" "promised_rows (snd (sx_slots S)) (sx_promise S)"
    "carried (fst (sx_slots S)) (sx_tasks S) (sx_limbo S) (sx_promise S)" "kinds_ok (fst (sx_slots S)) (sx_promise S)"
    "boot_ok (fst (sx_slots S)) (sx_limbo S) (sx_resuming S) (sx_read S) (sx_promise S)"
  shows "disposal_inv S"
  using assms unfolding disposal_inv_def by blast

lemma disposal_invD:
  assumes "disposal_inv S"
  shows "table_ok (snd (sx_slots S))" "promised_rows (snd (sx_slots S)) (sx_promise S)"
    "carried (fst (sx_slots S)) (sx_tasks S) (sx_limbo S) (sx_promise S)" "kinds_ok (fst (sx_slots S)) (sx_promise S)"
    "boot_ok (fst (sx_slots S)) (sx_limbo S) (sx_resuming S) (sx_read S) (sx_promise S)"
  using assms unfolding disposal_inv_def by blast+

text \<open>A chat's slot is given back: its row may go, its entry goes, its promise is over.\<close>

lemma delete_table: "table_ok rows \<Longrightarrow> table_ok (delete_after_turn x rows)"
  unfolding table_ok_def delete_after_turn_def by (auto intro: distinct_map_filter)

lemma release_table: "table_ok (snd s) \<Longrightarrow> table_ok (snd (release_after_turn io x s))"
  by (simp add: release_after_turn_def delete_table)

lemma release_promised: "promised_rows (snd s) P \<Longrightarrow> promised_rows (snd (release_after_turn io x s)) (P(x := None))"
  by (auto simp: promised_rows_def release_after_turn_def delete_after_turn_def)

lemma carried_less:
  assumes "carried M ts L P" and "\<And>y a t. y \<noteq> x \<Longrightarrow> t \<in> set ts \<Longrightarrow> carries M y a t \<Longrightarrow> \<exists>t' \<in> set ts'. carries M' y a t'"
  shows "carried M' ts' L (P(x := None))"
  unfolding carried_def
proof (intro allI impI)
  fix y a assume y: "(P(x := None)) y = Some a"
  then have "y \<noteq> x" "P y = Some a" by (auto split: if_splits)
  then show "y \<in> L \<or> (\<exists>t \<in> set ts'. carries M' y a t)" using assms unfolding carried_def by blast
qed

lemma release_carries: "y \<noteq> x \<Longrightarrow> carries (fst s) y a t \<Longrightarrow> carries (fst (release_after_turn io x s)) y a t"
  by (simp add: carries_def release_after_turn_def)

lemma release_kinds: "kinds_ok (fst s) P \<Longrightarrow> kinds_ok (fst (release_after_turn io x s)) (P(x := None))"
  by (auto simp: kinds_ok_def release_after_turn_def)

lemma release_boot: "boot_ok (fst s) L qs b P \<Longrightarrow> boot_ok (fst (release_after_turn io x s)) L qs b (P(x := None))"
  by (auto simp: boot_ok_def release_after_turn_def split: if_splits)

lemma release_keeps:
  assumes i: "disposal_inv S" and ts: "\<And>t. t \<in> set (sx_tasks S) \<Longrightarrow> tk_session t \<noteq> x \<Longrightarrow> t \<in> set ts"
  shows "disposal_inv (S\<lparr>sx_slots := release_after_turn io x (sx_slots S), sx_tasks := ts, sx_promise := (sx_promise S)(x := None)\<rparr>)"
proof -
  note inv = disposal_invD [OF i]
  have "carried (fst (release_after_turn io x (sx_slots S))) ts (sx_limbo S) ((sx_promise S)(x := None))"
  proof (rule carried_less [OF inv(3)])
    fix y a t assume y: "y \<noteq> x" and t: "t \<in> set (sx_tasks S)" and c: "carries (fst (sx_slots S)) y a t"
    have "tk_session t = y" using c by (simp add: carries_def)
    then have "t \<in> set ts" using ts [OF t] y by blast
    then show "\<exists>t' \<in> set ts. carries (fst (release_after_turn io x (sx_slots S))) y a t'" using release_carries [OF y c] by blast
  qed
  then show ?thesis
    by (intro disposal_invI) (simp_all add: release_table [OF inv(1)] release_promised [OF inv(2)] release_kinds [OF inv(4)] release_boot [OF inv(5)])
qed

lemma find_none_absent: "find_after_turn explain rows x = Inr None \<Longrightarrow> x \<notin> af_session ` set rows"
  by (auto simp: find_after_turn_def find_None_all and_then_Inr_iff split: option.splits)

lemma scheduled:
  assumes "schedule_after_turn explain known now n x a s = Inr s'"
  shows "fst s x = None \<and> x \<notin> af_session ` set (snd s) \<and>
    s' = ((fst s)(x \<mapsto> \<lparr>pa_kind = after_turn_of a, pa_sender = Some n\<rparr>),
      snd s @ [\<lparr>af_session = x, af_action = action_column a, af_payload = payload_json a, af_requested = now\<rparr>])"
proof -
  have free: "occupied_by explain s x = Inr None" using assms by (auto simp: schedule_after_turn_def split: sum.splits option.splits)
  then have "fst s x = None" "find_after_turn explain (snd s) x = Inr None"
    by (auto simp: occupied_by_def split: option.splits sum.splits)
  moreover have "x \<notin> af_session ` set (snd s)" using calculation(2) by (rule find_none_absent)
  ultimately show ?thesis
    using assms free by (auto simp: schedule_after_turn_def insert_after_turn_def split: if_splits)
qed

lemma ask_keeps:
  assumes i: "disposal_inv S" and run: "schedule_after_turn explain known now (sx_next S) x a (sx_slots S) = Inr s" and a: "storable_action a"
  shows "disposal_inv (S\<lparr>sx_slots := s,
      sx_tasks := sx_tasks S @ [\<lparr>tk_id = sx_next S, tk_session = x, tk_action = a, tk_stage = Asks, tk_told = False\<rparr>],
      sx_next := Suc (sx_next S), sx_promise := (sx_promise S)(x \<mapsto> a), sx_limbo := sx_limbo S - {x}\<rparr>)"
proof -
  note inv = disposal_invD [OF i]
  let ?t = "\<lparr>tk_id = sx_next S, tk_session = x, tk_action = a, tk_stage = Asks, tk_told = False\<rparr>"
  let ?r = "\<lparr>af_session = x, af_action = action_column a, af_payload = payload_json a, af_requested = now\<rparr>"
  have s: "fst (sx_slots S) x = None" "x \<notin> af_session ` set (snd (sx_slots S))"
    "fst s = (fst (sx_slots S))(x \<mapsto> \<lparr>pa_kind = after_turn_of a, pa_sender = Some (sx_next S)\<rparr>)" "snd s = snd (sx_slots S) @ [?r]"
    using scheduled [OF run] by simp_all
  have new: "stores ?r a" using a by (simp add: stores_def)
  have "table_ok (snd s)" using inv(1) s(2) new unfolding table_ok_def s(4) by auto
  moreover have "promised_rows (snd s) ((sx_promise S)(x \<mapsto> a))"
    using inv(2) new unfolding promised_rows_def s(4) by auto
  moreover have "carried (fst s) (sx_tasks S @ [?t]) (sx_limbo S - {x}) ((sx_promise S)(x \<mapsto> a))"
    unfolding carried_def
  proof (intro allI impI)
    fix y b assume y: "((sx_promise S)(x \<mapsto> a)) y = Some b"
    show "y \<in> sx_limbo S - {x} \<or> (\<exists>t \<in> set (sx_tasks S @ [?t]). carries (fst s) y b t)"
    proof (cases "y = x")
      case True
      then have "carries (fst s) y b ?t" using y by (simp add: carries_def s(3))
      then show ?thesis by auto
    next
      case False
      then have "y \<in> sx_limbo S \<or> (\<exists>t \<in> set (sx_tasks S). carries (fst (sx_slots S)) y b t)"
        using inv(3) y unfolding carried_def by simp
      moreover have "carries (fst (sx_slots S)) y b t \<Longrightarrow> carries (fst s) y b t" for t using False by (simp add: carries_def s(3))
      ultimately show ?thesis using False by auto
    qed
  qed
  moreover have "kinds_ok (fst s) ((sx_promise S)(x \<mapsto> a))" using inv(4) by (auto simp: kinds_ok_def s(3))
  moreover have "boot_ok (fst s) (sx_limbo S - {x}) (sx_resuming S) (sx_read S) ((sx_promise S)(x \<mapsto> a))"
    using inv(5) by (auto simp: boot_ok_def s(3))
  ultimately show ?thesis by (intro disposal_invI) simp_all
qed

lemma carried_tasks:
  assumes "carried M ts L P" and "\<And>y a t. t \<in> set ts \<Longrightarrow> carries M y a t \<Longrightarrow> \<exists>t' \<in> set ts'. carries M' y a t'"
  shows "carried M' ts' L P"
  using assms unfolding carried_def by blast

lemma tasks_kept:
  assumes i: "disposal_inv S" and ts: "\<And>y a t. t \<in> set (sx_tasks S) \<Longrightarrow> carries (fst (sx_slots S)) y a t \<Longrightarrow> \<exists>t' \<in> set ts. carries (fst (sx_slots S)) y a t'"
  shows "disposal_inv (S\<lparr>sx_tasks := ts\<rparr>)"
  using disposal_invD [OF i] carried_tasks [OF disposal_invD(3) [OF i] ts] by (intro disposal_invI) simp_all

lemma restaged:
  assumes "sx_tasks S = A @ t # B"
  shows "u \<in> set (sx_tasks S) \<Longrightarrow> carries M y a u \<Longrightarrow> \<exists>u' \<in> set (A @ t\<lparr>tk_stage := g\<rparr> # B). carries M y a u'"
  using assms by (auto simp: carries_def)

lemma answer_keeps:
  assumes i: "disposal_inv S" and ts: "sx_tasks S = A @ t # B"
    and run: "answer_request queued event io x k (sx_slots S) = (Inr (), s)"
  shows "disposal_inv (S\<lparr>sx_slots := s, sx_tasks := A @ t\<lparr>tk_stage := Waits\<rparr> # B\<rparr>)"
proof -
  have "s = sx_slots S" using answer_request_cases [OF run] by simp
  then have "S\<lparr>sx_slots := s, sx_tasks := A @ t\<lparr>tk_stage := Waits\<rparr> # B\<rparr> = S\<lparr>sx_tasks := A @ t\<lparr>tk_stage := Waits\<rparr> # B\<rparr>" by simp
  moreover have "disposal_inv (S\<lparr>sx_tasks := A @ t\<lparr>tk_stage := Waits\<rparr> # B\<rparr>)" by (rule tasks_kept [OF i restaged [OF ts]])
  ultimately show ?thesis by simp
qed

lemma refuse_keeps:
  assumes i: "disposal_inv S" and ts: "sx_tasks S = A @ t # B"
    and run: "answer_request queued event io (tk_session t) k (sx_slots S) = (Inl e, s)"
  shows "disposal_inv (S\<lparr>sx_slots := s, sx_tasks := A @ B, sx_promise := (sx_promise S)(tk_session t := None)\<rparr>)"
proof -
  have s: "s = release_after_turn io (tk_session t) (sx_slots S)" using answer_request_cases [OF run] by simp
  show ?thesis unfolding s by (rule release_keeps [OF i]) (use ts in auto)
qed

lemma settle_keeps:
  assumes i: "disposal_inv S" and run: "signal_turn_settled x (sx_slots S) = (k, s)"
  shows "disposal_inv (S\<lparr>sx_slots := s, sx_tasks := tell k (sx_tasks S)\<rparr>)"
proof (cases "fst (sx_slots S) x")
  case None
  then have ks: "k = None" "s = sx_slots S" using run by (simp_all add: signal_turn_settled_def)
  have "tell None (sx_tasks S) = sx_tasks S" unfolding tell_def by (rule map_idI) simp
  then have "S\<lparr>sx_slots := s, sx_tasks := tell k (sx_tasks S)\<rparr> = S" using ks by simp
  then show ?thesis using i by simp
next
  case (Some p)
  then have ks: "k = pa_sender p" "fst s = (fst (sx_slots S))(x \<mapsto> p\<lparr>pa_sender := None\<rparr>)" "snd s = snd (sx_slots S)"
    using run by (auto simp: signal_turn_settled_def)
  note inv = disposal_invD [OF i]
  have "carried (fst s) (tell k (sx_tasks S)) (sx_limbo S) (sx_promise S)"
  proof (rule carried_tasks [OF inv(3)])
    fix y a t assume t: "t \<in> set (sx_tasks S)" and c: "carries (fst (sx_slots S)) y a t"
    let ?t = "if k = Some (tk_id t) then t\<lparr>tk_told := True\<rparr> else t"
    have "?t \<in> set (tell k (sx_tasks S))" using t by (simp add: tell_def)
    moreover have "carries (fst s) y a ?t"
    proof (cases "y = x")
      case True
      then have "tk_told t \<or> k = Some (tk_id t)" using c Some ks(1) by (auto simp: carries_def)
      then show ?thesis using c by (auto simp: carries_def)
    next
      case False
      then show ?thesis using c by (auto simp: carries_def ks(2))
    qed
    ultimately show "\<exists>t' \<in> set (tell k (sx_tasks S)). carries (fst s) y a t'" by blast
  qed
  moreover have "kinds_ok (fst s) (sx_promise S)" using inv(4) Some by (auto simp: kinds_ok_def ks(2) split: if_splits)
  moreover have "boot_ok (fst s) (sx_limbo S) (sx_resuming S) (sx_read S) (sx_promise S)"
    using inv(5) Some by (auto simp: boot_ok_def ks(2) split: if_splits)
  ultimately show ?thesis using inv(1,2) ks(3) by (intro disposal_invI) simp_all
qed

lemma ended_keeps:
  assumes i: "disposal_inv S" and ts: "sx_tasks S = A @ t # B" and dead: "\<not> tk_told t"
    "\<forall>x p. fst (sx_slots S) x = Some p \<longrightarrow> pa_sender p \<noteq> Some (tk_id t)"
  shows "disposal_inv (S\<lparr>sx_tasks := A @ B\<rparr>)"
proof (rule tasks_kept [OF i])
  fix y a u assume u: "u \<in> set (sx_tasks S)" and c: "carries (fst (sx_slots S)) y a u"
  have "u \<noteq> t" using c dead by (auto simp: carries_def)
  then have "u \<in> set (A @ B)" using u ts by auto
  then show "\<exists>t' \<in> set (A @ B). carries (fst (sx_slots S)) y a t'" using c by blast
qed

lemma abort_keeps:
  assumes i: "disposal_inv S" and run: "abort_session_after_turn io x (sx_slots S) = (Some k, s)"
  shows "disposal_inv (S\<lparr>sx_slots := s, sx_promise := (sx_promise S)(x := None)\<rparr>)"
proof -
  have s: "s = release_after_turn io x (sx_slots S)" using run by (auto simp: abort_session_after_turn_def split: option.splits)
  have "disposal_inv (S\<lparr>sx_slots := release_after_turn io x (sx_slots S), sx_tasks := sx_tasks S, sx_promise := (sx_promise S)(x := None)\<rparr>)"
    by (rule release_keeps [OF i])
  then show ?thesis unfolding s by simp
qed

lemma drop_row_keeps:
  assumes i: "disposal_inv S"
  shows "disposal_inv (S\<lparr>sx_slots := (fst (sx_slots S), if io then delete_after_turn x (snd (sx_slots S)) else snd (sx_slots S)),
    sx_promise := (sx_promise S)(x := None)\<rparr>)"
proof -
  note inv = disposal_invD [OF i]
  have "table_ok (if io then delete_after_turn x (snd (sx_slots S)) else snd (sx_slots S))" using inv(1) delete_table by simp
  moreover have "promised_rows (if io then delete_after_turn x (snd (sx_slots S)) else snd (sx_slots S)) ((sx_promise S)(x := None))"
    using release_promised [OF inv(2), of io x] by (simp add: release_after_turn_def split: if_splits)
  moreover have "carried (fst (sx_slots S)) (sx_tasks S) (sx_limbo S) ((sx_promise S)(x := None))"
    by (rule carried_less [OF inv(3)]) blast
  moreover have "kinds_ok (fst (sx_slots S)) ((sx_promise S)(x := None))" using inv(4) by (auto simp: kinds_ok_def)
  moreover have "boot_ok (fst (sx_slots S)) (sx_limbo S) (sx_resuming S) (sx_read S) ((sx_promise S)(x := None))"
    using inv(5) by (auto simp: boot_ok_def)
  ultimately show ?thesis by (intro disposal_invI) simp_all
qed

lemma restart_keeps_promises:
  assumes i: "disposal_inv S"
  shows "disposal_inv (S\<lparr>sx_slots := (Map.empty, snd (sx_slots S)), sx_tasks := [], sx_limbo := dom (sx_promise S),
      sx_resuming := [], sx_read := False\<rparr>)"
  using disposal_invD [OF i] by (intro disposal_invI) (auto simp: carried_def kinds_ok_def boot_ok_def)

section \<open>Reading the table at boot\<close>

lemma build_all_ok:
  "\<forall>r \<in> set rows. \<exists>a. stores r a \<Longrightarrow>
   \<exists>qs. build_all explain rows = Inr qs \<and> map aq_session qs = map af_session rows \<and>
     (\<forall>q \<in> set qs. \<exists>r \<in> set rows. af_session r = aq_session q \<and> stores r (aq_action q)) \<and>
     (\<forall>r \<in> set rows. \<exists>q \<in> set qs. aq_session q = af_session r \<and> stores r (aq_action q))"
proof (induction rows)
  case (Cons r rows)
  then obtain a qs where a: "stores r a" and qs: "build_all explain rows = Inr qs" "map aq_session qs = map af_session rows"
    "\<forall>q \<in> set qs. \<exists>r \<in> set rows. af_session r = aq_session q \<and> stores r (aq_action q)"
    "\<forall>r \<in> set rows. \<exists>q \<in> set qs. aq_session q = af_session r \<and> stores r (aq_action q)" by auto
  let ?q = "\<lparr>aq_session = af_session r, aq_action = a, aq_requested = af_requested r\<rparr>"
  have "build_all explain (r # rows) = Inr (?q # qs)" using stores_reads [OF a] qs(1) by simp
  then show ?case using a qs by (intro exI [where x = "?q # qs"]) auto
qed simp

lemma listed:
  assumes "table_ok rows"
  shows "\<exists>qs. list_after_turn explain rows = Inr qs \<and> distinct (map aq_session qs) \<and>
     (\<forall>q \<in> set qs. \<exists>r \<in> set rows. af_session r = aq_session q \<and> stores r (aq_action q)) \<and>
     (\<forall>r \<in> set rows. \<exists>q \<in> set qs. aq_session q = af_session r \<and> stores r (aq_action q))"
proof -
  let ?s = "sort_key af_requested (sort_key af_session rows)"
  have "\<forall>r \<in> set ?s. \<exists>a. stores r a" using assms by (simp add: table_ok_def)
  then obtain qs where qs: "build_all explain ?s = Inr qs" "map aq_session qs = map af_session ?s"
    "\<forall>q \<in> set qs. \<exists>r \<in> set ?s. af_session r = aq_session q \<and> stores r (aq_action q)"
    "\<forall>r \<in> set ?s. \<exists>q \<in> set qs. aq_session q = af_session r \<and> stores r (aq_action q)"
    using build_all_ok by blast
  have "distinct (map af_session ?s)" using assms by (auto simp: table_ok_def distinct_map inj_on_def)
  then have "distinct (map aq_session qs)" using qs(2) by simp
  then show ?thesis using qs by (auto simp: list_after_turn_def)
qed

lemma stores_unique: "stores r a \<Longrightarrow> stores r b \<Longrightarrow> a = b"
  using stores_reads [of r a "\<lambda>_. []"] stores_reads [of r b "\<lambda>_. []"] by simp

lemma row_unique: "table_ok rows \<Longrightarrow> r \<in> set rows \<Longrightarrow> r' \<in> set rows \<Longrightarrow> af_session r = af_session r' \<Longrightarrow> r = r'"
  by (auto simp: table_ok_def distinct_map inj_on_def)

lemma read_keeps:
  assumes i: "disposal_inv S" and "\<not> sx_read S" and r: "list_after_turn explain (snd (sx_slots S)) = r"
  shows "disposal_inv (S\<lparr>sx_resuming := (case r of Inl _ \<Rightarrow> [] | Inr qs \<Rightarrow> qs), sx_read := True\<rparr>)"
proof -
  note inv = disposal_invD [OF i]
  obtain qs where qs: "r = Inr qs" "distinct (map aq_session qs)"
    "\<forall>q \<in> set qs. \<exists>r \<in> set (snd (sx_slots S)). af_session r = aq_session q \<and> stores r (aq_action q)"
    using listed [OF inv(1)] r by metis
  have same: "aq_action q = a" if q: "q \<in> set qs" "sx_promise S (aq_session q) = Some a" for q a
  proof -
    obtain r where row: "r \<in> set (snd (sx_slots S))" "af_session r = aq_session q" "stores r (aq_action q)" using qs(3) q(1) by blast
    obtain r' where "r' \<in> set (snd (sx_slots S))" "af_session r' = aq_session q" "stores r' a"
      using inv(2) q(2) unfolding promised_rows_def by blast
    then have "stores r a" using row_unique [OF inv(1) row(1)] row(2) by metis
    then show ?thesis using stores_unique row(3) by blast
  qed
  have "boot_ok (fst (sx_slots S)) (sx_limbo S) qs True (sx_promise S)"
    using inv(5) assms(2) qs(2) same unfolding boot_ok_def by blast
  then show ?thesis using inv(1-4) qs(1) by (intro disposal_invI) simp_all
qed

section \<open>Taking up what was read\<close>

lemma resume_outcomes:
  assumes "resume_one err io w n q s = (r, s')"
  shows "r = Left_Alone \<and> s' = s
    \<or> r = Dropped \<and> s' = (fst s, if io then delete_after_turn (aq_session q) (snd s) else snd s)
    \<or> r = Waits_Again \<and> fst s (aq_session q) = None \<and>
        s' = ((fst s)(aq_session q \<mapsto> \<lparr>pa_kind = after_turn_of (aq_action q), pa_sender = Some n\<rparr>), snd s)
    \<or> r = Runs_Now \<and> s' = s"
  using assms by (auto simp: resume_one_def adopt_after_turn_def split: sum.splits resumption.splits option.splits)

lemma boot_rest:
  assumes "boot_ok M L (q # qs) b P"
  shows "boot_ok M L qs b P" and "boot_ok M (L - {aq_session q}) qs b P"
    and "boot_ok M (L - {aq_session q}) qs b (P(aq_session q := None))"
    and "boot_ok (M(aq_session q \<mapsto> p)) (L - {aq_session q}) qs b P"
    and "P (aq_session q) = Some a \<Longrightarrow> aq_session q \<in> L \<Longrightarrow> aq_action q = a"
    and "P (aq_session q) = Some a \<Longrightarrow> M (aq_session q) = None \<Longrightarrow> aq_session q \<in> L"
proof -
  have b: "b" and out: "aq_session q \<notin> aq_session ` set qs" using assms by (simp_all add: boot_ok_def)
  have ne: "\<And>q'. q' \<in> set qs \<Longrightarrow> aq_session q' = aq_session q \<Longrightarrow> False" using out by (metis imageI)
  show "boot_ok M L qs b P" "boot_ok M (L - {aq_session q}) qs b P"
    "boot_ok M (L - {aq_session q}) qs b (P(aq_session q := None))" "boot_ok (M(aq_session q \<mapsto> p)) (L - {aq_session q}) qs b P"
    using assms b by (auto simp: boot_ok_def dest: ne)
  show "P (aq_session q) = Some a \<Longrightarrow> aq_session q \<in> L \<Longrightarrow> aq_action q = a"
    "P (aq_session q) = Some a \<Longrightarrow> M (aq_session q) = None \<Longrightarrow> aq_session q \<in> L"
    using assms by (auto simp: boot_ok_def)
qed

text \<open>A task that takes the promise up carries it, so the chat needs no other.\<close>

lemma carried_more:
  assumes c: "carried M ts L P"
    and same: "\<And>y a t. y \<noteq> x \<Longrightarrow> carries M y a t \<Longrightarrow> carries M' y a t"
    and own: "\<And>a. P x = Some a \<Longrightarrow> carries M' x a u \<or> (\<exists>t \<in> set ts. carries M' x a t)"
  shows "carried M' (ts @ [u]) (L - {x}) P"
  unfolding carried_def
proof (intro allI impI)
  fix y a assume y: "P y = Some a"
  show "y \<in> L - {x} \<or> (\<exists>t \<in> set (ts @ [u]). carries M' y a t)"
  proof (cases "y = x")
    case True
    then show ?thesis using own y by auto
  next
    case False
    then have "y \<in> L \<or> (\<exists>t \<in> set ts. carries M y a t)" using c y unfolding carried_def by blast
    then show ?thesis using same [OF False] False by auto
  qed
qed

lemma adopt_keeps:
  assumes i: "disposal_inv S" and q: "sx_resuming S = q # qs" and free: "fst (sx_slots S) (aq_session q) = None"
  shows "disposal_inv (S\<lparr>sx_slots := ((fst (sx_slots S))(aq_session q \<mapsto> \<lparr>pa_kind = after_turn_of (aq_action q), pa_sender = Some n\<rparr>),
      snd (sx_slots S)), sx_tasks := sx_tasks S @ taken_up Waits_Again n q, sx_next := m, sx_resuming := qs,
      sx_promise := sx_promise S, sx_limbo := sx_limbo S - {aq_session q}\<rparr>)"
proof -
  note inv = disposal_invD [OF i]
  note rest = boot_rest [OF inv(5) [unfolded q]]
  have mine: "aq_action q = a" if "sx_promise S (aq_session q) = Some a" for a
    using rest(5) [OF that rest(6) [OF that free]] .
  have "carried ((fst (sx_slots S))(aq_session q \<mapsto> \<lparr>pa_kind = after_turn_of (aq_action q), pa_sender = Some n\<rparr>))
     (sx_tasks S @ [\<lparr>tk_id = n, tk_session = aq_session q, tk_action = aq_action q, tk_stage = Waits, tk_told = False\<rparr>])
     (sx_limbo S - {aq_session q}) (sx_promise S)"
    by (rule carried_more [OF inv(3)]) (auto simp: carries_def dest: mine)
  moreover have "kinds_ok ((fst (sx_slots S))(aq_session q \<mapsto> \<lparr>pa_kind = after_turn_of (aq_action q), pa_sender = Some n\<rparr>)) (sx_promise S)"
    using inv(4) mine by (auto simp: kinds_ok_def)
  ultimately show ?thesis using inv(1,2) rest(4) by (intro disposal_invI) (simp_all add: taken_up_def)
qed

lemma run_now_keeps:
  assumes i: "disposal_inv S" and q: "sx_resuming S = q # qs"
  shows "disposal_inv (S\<lparr>sx_slots := sx_slots S, sx_tasks := sx_tasks S @ taken_up Runs_Now n q, sx_next := m, sx_resuming := qs,
      sx_promise := sx_promise S, sx_limbo := sx_limbo S - {aq_session q}\<rparr>)"
proof -
  note inv = disposal_invD [OF i]
  note rest = boot_rest [OF inv(5) [unfolded q]]
  have "carried (fst (sx_slots S))
     (sx_tasks S @ [\<lparr>tk_id = n, tk_session = aq_session q, tk_action = aq_action q, tk_stage = Runs, tk_told = True\<rparr>])
     (sx_limbo S - {aq_session q}) (sx_promise S)"
  proof (rule carried_more [OF inv(3)])
    fix a assume a: "sx_promise S (aq_session q) = Some a"
    then have "aq_session q \<in> sx_limbo S \<or> (\<exists>t \<in> set (sx_tasks S). carries (fst (sx_slots S)) (aq_session q) a t)"
      using inv(3) unfolding carried_def by blast
    then show "carries (fst (sx_slots S)) (aq_session q) a
        \<lparr>tk_id = n, tk_session = aq_session q, tk_action = aq_action q, tk_stage = Runs, tk_told = True\<rparr> \<or>
      (\<exists>t \<in> set (sx_tasks S). carries (fst (sx_slots S)) (aq_session q) a t)"
      using rest(5) [OF a] by (auto simp: carries_def)
  qed
  then show ?thesis using inv(1,2,4) rest(2) by (intro disposal_invI) (simp_all add: taken_up_def)
qed

lemma dropped_keeps:
  assumes i: "disposal_inv S" and q: "sx_resuming S = q # qs"
  shows "disposal_inv (S\<lparr>sx_slots := (fst (sx_slots S), if io then delete_after_turn (aq_session q) (snd (sx_slots S)) else snd (sx_slots S)),
      sx_tasks := sx_tasks S @ taken_up Dropped n q, sx_next := m, sx_resuming := qs,
      sx_promise := (sx_promise S)(aq_session q := None), sx_limbo := sx_limbo S - {aq_session q}\<rparr>)"
proof -
  note rest = boot_rest [OF disposal_invD(5) [OF i, unfolded q]]
  note inv = disposal_invD [OF drop_row_keeps [OF i, where io = io and x = "aq_session q"], simplified]
  have "carried (fst (sx_slots S)) (sx_tasks S) (sx_limbo S - {aq_session q}) ((sx_promise S)(aq_session q := None))"
    using inv(3) unfolding carried_def by (metis Diff_iff fun_upd_apply option.distinct(1) singletonD)
  then show ?thesis using inv(1,2,4) rest(3) by (intro disposal_invI) (simp_all add: taken_up_def)
qed

lemma left_alone_keeps:
  assumes i: "disposal_inv S" and q: "sx_resuming S = q # qs"
  shows "disposal_inv (S\<lparr>sx_slots := sx_slots S, sx_tasks := sx_tasks S @ taken_up Left_Alone n q, sx_next := m, sx_resuming := qs,
      sx_promise := sx_promise S, sx_limbo := sx_limbo S\<rparr>)"
  using disposal_invD [OF i] boot_rest(1) [OF disposal_invD(5) [OF i, unfolded q]] by (intro disposal_invI) (simp_all add: taken_up_def)

lemma resume_keeps:
  assumes i: "disposal_inv S" and q: "sx_resuming S = q # qs" and run: "resume_one err io w (sx_next S) q (sx_slots S) = (r, s)"
  shows "disposal_inv (S\<lparr>sx_slots := s, sx_tasks := sx_tasks S @ taken_up r (sx_next S) q, sx_next := Suc (sx_next S),
      sx_resuming := qs,
      sx_promise := (if r = Dropped then (sx_promise S)(aq_session q := None) else sx_promise S),
      sx_limbo := (if r = Left_Alone then sx_limbo S else sx_limbo S - {aq_session q})\<rparr>)"
proof -
  show ?thesis using resume_outcomes [OF run]
  proof (elim disjE conjE)
    assume "r = Left_Alone" "s = sx_slots S"
    then show ?thesis using left_alone_keeps [OF i q] by (simp only: if_True if_False resumed.distinct simp_thms)
  next
    assume "r = Dropped" "s = (fst (sx_slots S), if io then delete_after_turn (aq_session q) (snd (sx_slots S)) else snd (sx_slots S))"
    then show ?thesis using dropped_keeps [OF i q] by (simp only: if_True if_False resumed.distinct simp_thms)
  next
    assume "r = Waits_Again" and free: "fst (sx_slots S) (aq_session q) = None"
      and "s = ((fst (sx_slots S))(aq_session q \<mapsto> \<lparr>pa_kind = after_turn_of (aq_action q), pa_sender = Some (sx_next S)\<rparr>), snd (sx_slots S))"
    then show ?thesis using adopt_keeps [OF i q free] by (simp only: if_True if_False resumed.distinct simp_thms)
  next
    assume "r = Runs_Now" "s = sx_slots S"
    then show ?thesis using run_now_keeps [OF i q] by (simp only: if_True if_False resumed.distinct simp_thms)
  qed
qed

lemma disposal_step_keeps:
  assumes "disposal_inv S" and "disposal_step explain S T"
  shows "disposal_inv T"
  using assms(2)
proof cases
  case (ask known now x a s)
  show ?thesis unfolding ask(1) by (rule ask_keeps [OF assms(1) ask(2,3)])
next
  case (answer A t B queued event io s)
  show ?thesis unfolding answer(1) by (rule answer_keeps [OF assms(1) answer(2,4)])
next
  case (refuse A t B queued event io e s)
  show ?thesis unfolding refuse(1) by (rule refuse_keeps [OF assms(1) refuse(2,4)])
next
  case (settle x k s)
  show ?thesis unfolding settle(1) by (rule settle_keeps [OF assms(1) settle(2)])
next
  case (start A t B)
  show ?thesis unfolding start(1) by (rule tasks_kept [OF assms(1) restaged [OF start(2)]])
next
  case (finish A t B io)
  show ?thesis unfolding finish(1) by (rule release_keeps [OF assms(1)]) (use finish(2) in auto)
next
  case (ended A t B)
  show ?thesis unfolding ended(1) by (rule ended_keeps [OF assms(1) ended(2,4,5)])
next
  case (abort io x k s)
  show ?thesis unfolding abort(1) by (rule abort_keeps [OF assms(1) abort(2)])
next
  case (delete_session x)
  show ?thesis using drop_row_keeps [OF assms(1), where io = True and x = x] unfolding delete_session by simp
next
  case restart
  show ?thesis unfolding restart by (rule restart_keeps_promises [OF assms(1)])
next
  case (read r)
  show ?thesis unfolding read(1) by (rule read_keeps [OF assms(1) read(2,3)])
next
  case (resume q qs err io w r s)
  show ?thesis unfolding resume(1) by (rule resume_keeps [OF assms(1) resume(2,3)])
qed

interpretation disposals: invariant_system "disposal_step explain" disposal_inv for explain
  by unfold_locales (rule disposal_step_keeps)

lemma start_disposals_inv: "disposal_inv start_disposals"
  by (intro disposal_invI) (simp_all add: start_disposals_def table_ok_def promised_rows_def carried_def kinds_ok_def boot_ok_def)

section \<open>Promises are kept\<close>

lemma promised_is_found:
  assumes i: "disposal_inv S" and p: "sx_promise S x = Some a"
  shows "\<exists>q. find_after_turn explain (snd (sx_slots S)) x = Inr (Some q) \<and> aq_action q = a"
proof -
  note inv = disposal_invD [OF i]
  obtain r where r: "r \<in> set (snd (sx_slots S))" "af_session r = x" "stores r a"
    using inv(2) p unfolding promised_rows_def by blast
  have "find (\<lambda>r. af_session r = x) (snd (sx_slots S)) \<noteq> None" unfolding find_None_iff using r(1,2) by blast
  then obtain r' where f: "find (\<lambda>r. af_session r = x) (snd (sx_slots S)) = Some r'" by blast
  then have "r' \<in> set (snd (sx_slots S))" "af_session r' = x" by (auto simp: find_Some_iff)
  then have "r' = r" using row_unique [OF inv(1) _ r(1)] r(2) by simp
  then show ?thesis using f stores_reads [OF r(3)] by (simp add: find_after_turn_def)
qed

lemma promised_occupies:
  assumes i: "disposal_inv S" and p: "sx_promise S x = Some a"
  shows "occupied_by explain (sx_slots S) x = Inr (Some (after_turn_of a))"
proof (cases "fst (sx_slots S) x")
  case None
  obtain q where "find_after_turn explain (snd (sx_slots S)) x = Inr (Some q)" "aq_action q = a" using promised_is_found [OF i p] by blast
  then show ?thesis using None by (simp add: occupied_by_def)
next
  case (Some e)
  then show ?thesis using disposal_invD(4) [OF i] p by (simp add: occupied_by_def kinds_ok_def)
qed


definition sample_move :: after_turn_action where
  "sample_move = Move_Action \<lparr>mv_destination = Checkout_Destination ''/b'', mv_keep_source = False, mv_prompt = ''go''\<rparr>"

definition sample_promised :: disposal_system where
  "sample_promised = \<lparr>sx_slots = ([''s'' \<mapsto> \<lparr>pa_kind = After_Move, pa_sender = Some 0\<rparr>],
       [\<lparr>af_session = ''s'', af_action = ''move'', af_payload = payload_json sample_move, af_requested = ''t''\<rparr>]),
     sx_tasks = [\<lparr>tk_id = 0, tk_session = ''s'', tk_action = sample_move, tk_stage = Asks, tk_told = False\<rparr>],
     sx_next = 1, sx_promise = [''s'' \<mapsto> sample_move], sx_limbo = {}, sx_resuming = [], sx_read = False\<rparr>"

lemma sample_promised_reached: "(disposal_step explain)\<^sup>*\<^sup>* start_disposals sample_promised"
proof -
  have "schedule_after_turn explain {''s''} ''t'' (sx_next start_disposals) ''s'' sample_move (sx_slots start_disposals) =
    Inr (sx_slots sample_promised)"
    by (simp add: schedule_after_turn_def start_disposals_def occupied_by_def find_after_turn_def insert_after_turn_def sample_promised_def
        sample_move_def after_turn_of_def ACTION_MOVE_def)
  moreover have "storable_action sample_move" by (simp add: storable_action_def sample_move_def)
  ultimately have "disposal_step explain start_disposals (start_disposals\<lparr>sx_slots := sx_slots sample_promised,
      sx_tasks := sx_tasks start_disposals @ [\<lparr>tk_id = sx_next start_disposals, tk_session = ''s'', tk_action = sample_move,
        tk_stage = Asks, tk_told = False\<rparr>],
      sx_next := Suc (sx_next start_disposals), sx_promise := (sx_promise start_disposals)(''s'' \<mapsto> sample_move),
      sx_limbo := sx_limbo start_disposals - {''s''}\<rparr>)" by (rule disposal_step.ask)
  then have "disposal_step explain start_disposals sample_promised" by (simp add: start_disposals_def sample_promised_def)
  then show ?thesis by blast
qed


text \<open>C30: A turn that settles tells the task of a promise of this run, whichever turns, aborts and restarts came before:
  once its signal is given, a task with the promised action is told to run.\<close>

theorem turn_end_tells_the_promise:
  assumes "(disposal_step explain)\<^sup>*\<^sup>* start_disposals S" and "sx_promise S x = Some a" and "x \<notin> sx_limbo S"
    and "signal_turn_settled x (sx_slots S) = (k, s)"
  shows "\<exists>t \<in> set (tell k (sx_tasks S)). tk_session t = x \<and> tk_action t = a \<and> tk_told t"
proof -
  have i: "disposal_inv S" by (rule disposals.runs [OF assms(1) start_disposals_inv])
  obtain t where t: "t \<in> set (sx_tasks S)" "carries (fst (sx_slots S)) x a t"
    using disposal_invD(3) [OF i] assms(2,3) unfolding carried_def by blast
  have "tk_told t \<or> k = Some (tk_id t)" using t(2) assms(4) by (auto simp: carries_def signal_turn_settled_def)
  then have "tk_session t = x \<and> tk_action t = a \<and> tk_told (if k = Some (tk_id t) then t\<lparr>tk_told := True\<rparr> else t)"
    using t(2) by (auto simp: carries_def)
  moreover have "(if k = Some (tk_id t) then t\<lparr>tk_told := True\<rparr> else t) \<in> set (tell k (sx_tasks S))" using t(1) by (simp add: tell_def)
  ultimately show ?thesis by (intro bexI) (auto split: if_splits)
qed

theorem turn_end_tells_the_promise_witness:
  "\<exists>t \<in> set (tell (Some 0) (sx_tasks sample_promised)). tk_session t = ''s'' \<and> tk_action t = sample_move \<and> tk_told t"
proof -
  let ?s = "([''s'' \<mapsto> \<lparr>pa_kind = After_Move, pa_sender = None\<rparr>], snd (sx_slots sample_promised))"
  have "signal_turn_settled ''s'' (sx_slots sample_promised) = (Some 0, ?s)" by (simp add: signal_turn_settled_def sample_promised_def)
  moreover have "sx_promise sample_promised ''s'' = Some sample_move" "''s'' \<notin> sx_limbo sample_promised" by (simp_all add: sample_promised_def)
  ultimately show ?thesis using turn_end_tells_the_promise [OF sample_promised_reached] by blast
qed

text \<open>Whenever the app stops, the next start reads every promise that was neither carried out nor called off from the
  table, each once and as it was made.\<close>

lemma restart_reads_every_promise:
  assumes "(disposal_step explain)\<^sup>*\<^sup>* start_disposals S"
  shows "\<exists>qs. list_after_turn explain (snd (sx_slots S)) = Inr qs \<and> distinct (map aq_session qs) \<and>
    (\<forall>x a. sx_promise S x = Some a \<longrightarrow> (\<exists>q \<in> set qs. aq_session q = x \<and> aq_action q = a))"
proof -
  have i: "disposal_inv S" by (rule disposals.runs [OF assms(1) start_disposals_inv])
  note inv = disposal_invD [OF i]
  obtain qs where qs: "list_after_turn explain (snd (sx_slots S)) = Inr qs" "distinct (map aq_session qs)"
    "\<forall>r \<in> set (snd (sx_slots S)). \<exists>q \<in> set qs. aq_session q = af_session r \<and> stores r (aq_action q)"
    using listed [OF inv(1)] by blast
  have "\<exists>q \<in> set qs. aq_session q = x \<and> aq_action q = a" if p: "sx_promise S x = Some a" for x a
  proof -
    obtain r where r: "r \<in> set (snd (sx_slots S))" "af_session r = x" "stores r a"
      using inv(2) p unfolding promised_rows_def by blast
    then show ?thesis using qs(3) stores_unique by blast
  qed
  then show ?thesis using qs(1,2) by blast
qed

lemma restart_reads_every_promise_witness:
  "\<exists>qs. list_after_turn (\<lambda>_. []) (snd (sx_slots sample_promised)) = Inr qs \<and> (\<exists>q \<in> set qs. aq_session q = ''s'' \<and> aq_action q = sample_move)"
proof -
  have "sx_promise sample_promised ''s'' = Some sample_move" by (simp add: sample_promised_def)
  then show ?thesis using restart_reads_every_promise [OF sample_promised_reached] by blast
qed

text \<open>One row that does not read keeps all the others from being taken up.\<close>

lemma one_bad_row_hides_the_rest:
  assumes "r \<in> set rows" and "build_request explain r = Inl e"
  shows "\<not> is_ok (list_after_turn explain rows)"
proof -
  have "r \<in> set rs \<Longrightarrow> \<not> is_ok (build_all explain rs)" for rs
    by (induction rs) (auto simp: assms(2) and_then_def split: sum.splits)
  then show ?thesis using assms(1) by (simp add: list_after_turn_def)
qed

end
