(* ===== verification/PR_Watch_Store.thy ===== *)
theory PR_Watch_Store
  imports Launch_Agent Routing_Decide Notice_Text
begin

text \<open>
  What a pull request watch reads and stores: GitHub's answers (\<^verbatim>\<open>src-tauri/src/gh/service.rs\<close>), the state of a check, and
  the table of watches (\<^verbatim>\<open>persistence/pr_watches.rs\<close>). JSON columns are the values they encode, a \<^verbatim>\<open>BTreeMap\<close> the list of
  its pairs in the order of the keys.
\<close>

section \<open>GitHub's answers\<close>

record rollup_entry =
  re_state :: "string option"
  re_status :: "string option"
  re_conclusion :: "string option"
  re_name :: "string option"
  re_workflow :: "string option"
  re_url :: "string option"

record pr_author =
  au_login :: string
  au_type :: "string option"

record pr_review =
  rv_id :: string
  rv_author :: "pr_author option"
  rv_state :: "string option"
  rv_body :: "string option"
  rv_submitted :: "string option"
  rv_commit :: "string option"

record pr_comment =
  cm_id :: string
  cm_author :: "pr_author option"
  cm_body :: "string option"
  cm_url :: "string option"
  cm_created :: "string option"
  cm_own :: "bool option"

record pr_review_request =
  rq_login :: "string option"
  rq_name :: "string option"
  rq_slug :: "string option"

record pr_review_thread =
  th_resolved :: bool
  th_path :: "string option"
  th_line :: "int option"
  th_comments :: "pr_comment list"

record pr_feedback_graph =
  gr_threads :: "pr_review_thread list"
  gr_bots :: "string set"

record pr_watch_view =
  vw_state :: "string option"
  vw_head :: "string option"
  vw_rollup :: "rollup_entry list option"
  vw_reviews :: "pr_review list option"
  vw_comments :: "pr_comment list option"
  vw_requests :: "pr_review_request list option"
  vw_updated :: "string option"
  vw_merge_commit :: "string option"
  vw_mergeable :: "string option"
  vw_base :: "string option"

record gh_fetch_error =
  fe_rate_limited :: bool
  fe_message :: string

subsection \<open>Checks\<close>

datatype check_state = Check_Unknown | Check_Pending | Check_Success | Check_Failure | Check_Cancelled | Check_Skipped

definition entry_state :: "rollup_entry \<Rightarrow> string" where
  "entry_state e =
     word_lower (case find (\<lambda>v. v \<noteq> []) (map the (filter (\<lambda>v. v \<noteq> None) [re_conclusion e, re_state e, re_status e])) of
                   None \<Rightarrow> [] | Some v \<Rightarrow> v)"

definition entry_check_state :: "rollup_entry \<Rightarrow> check_state" where
  "entry_check_state e =
     (let s = entry_state e
      in if s = ''success'' then Check_Success
         else if s \<in> {''failure'', ''failed'', ''error'', ''timed_out'', ''action_required'', ''startup_failure'', ''stale''} then Check_Failure
         else if s \<in> {''cancelled'', ''cancel''} then Check_Cancelled
         else if s \<in> {''skipped'', ''neutral''} then Check_Skipped
         else Check_Pending)"

fun collapse_loop :: "bool \<Rightarrow> rollup_entry list \<Rightarrow> check_state + bool" where
  "collapse_loop pend [] = Inr pend"
| "collapse_loop pend (e # es) =
     (case entry_check_state e of
        Check_Failure \<Rightarrow> Inl Check_Failure
      | Check_Cancelled \<Rightarrow> Inl Check_Cancelled
      | Check_Pending \<Rightarrow> collapse_loop True es
      | _ \<Rightarrow> collapse_loop pend es)"

definition collapse_rollup :: "rollup_entry list option \<Rightarrow> check_state" where
  "collapse_rollup r =
     (case r of
        None \<Rightarrow> Check_Unknown
      | Some [] \<Rightarrow> Check_Unknown
      | Some es \<Rightarrow>
          (case collapse_loop False es of
             Inl s \<Rightarrow> s
           | Inr True \<Rightarrow> Check_Pending
           | Inr False \<Rightarrow> if list_all (\<lambda>e. entry_check_state e = Check_Skipped) es then Check_Skipped else Check_Success))"

definition checks_are_green :: "pr_watch_view \<Rightarrow> bool" where
  "checks_are_green v =
     (let es = (case vw_rollup v of None \<Rightarrow> [] | Some es \<Rightarrow> es)
      in es \<noteq> [] \<and> list_all (\<lambda>e. entry_check_state e \<in> {Check_Success, Check_Skipped}) es)"

text \<open>The poller and the watch agree on what green is.\<close>

lemma entry_state_known: "entry_check_state e \<noteq> Check_Unknown"
  by (simp add: entry_check_state_def Let_def)

lemma collapse_loop_green: "collapse_loop p es = Inr q \<longleftrightarrow>
    list_all (\<lambda>e. entry_check_state e \<in> {Check_Success, Check_Skipped, Check_Pending}) es \<and>
    q = (p \<or> list_ex (\<lambda>e. entry_check_state e = Check_Pending) es)"
  by (induction p es rule: collapse_loop.induct) (auto split: check_state.splits dest: entry_state_known [THEN notE])

lemma collapse_loop_red: "collapse_loop p es = Inl s \<Longrightarrow> s \<in> {Check_Failure, Check_Cancelled}"
  by (induction p es rule: collapse_loop.induct) (auto split: check_state.splits)

lemma green_is_collapsed_green: "checks_are_green v \<longleftrightarrow> collapse_rollup (vw_rollup v) \<in> {Check_Success, Check_Skipped}"
proof (cases "vw_rollup v")
  case None
  then show ?thesis by (simp add: checks_are_green_def collapse_rollup_def)
next
  case (Some es)
  show ?thesis
  proof (cases "collapse_loop False es")
    case (Inl s)
    then have "\<not> (\<exists>q. collapse_loop False es = Inr q)" by simp
    then have "\<not> list_all (\<lambda>e. entry_check_state e \<in> {Check_Success, Check_Skipped, Check_Pending}) es"
      unfolding collapse_loop_green by blast
    then have "\<not> list_all (\<lambda>e. entry_check_state e \<in> {Check_Success, Check_Skipped}) es" by (auto simp: list_all_iff)
    moreover have "s \<in> {Check_Failure, Check_Cancelled}" using Inl by (rule collapse_loop_red)
    ultimately show ?thesis using Some Inl
      by (auto simp: checks_are_green_def collapse_rollup_def Let_def split: list.splits)
  next
    case (Inr q)
    note q = Inr [unfolded collapse_loop_green]
    then show ?thesis using Some Inr
      by (cases es; cases q) (auto simp: checks_are_green_def collapse_rollup_def Let_def list_all_iff list_ex_iff; fastforce)+
  qed
qed

section \<open>The table\<close>

datatype conflict_state = Conflict_Clean | Conflict_Conflicting

record pending_pr_notice =
  pn_id :: string
  pn_body :: string
  pn_ends :: bool

type_synonym fingerprints = "(string \<times> string) list"

fun btree_insert :: "string \<Rightarrow> 'v \<Rightarrow> (string \<times> 'v) list \<Rightarrow> (string \<times> 'v) list" where
  "btree_insert k v [] = [(k, v)]"
| "btree_insert k v ((k', v') # kvs) =
     (if k < k' then (k, v) # (k', v') # kvs
      else if k = k' then (k, v) # kvs
      else (k', v') # btree_insert k v kvs)"

record pr_watch =
  pw_id :: string
  pw_session :: string
  pw_project :: string
  pw_number :: int
  pw_cleanup :: bool
  pw_head :: string
  pw_failures :: "string list"
  pw_seen :: "string list option"
  pw_prints :: "fingerprints option"
  pw_fetch_failures :: int
  pw_degraded :: bool
  pw_ready :: "string option"
  pw_pr_updated :: "string option"
  pw_conflict :: "conflict_state option"
  pw_seq :: nat
  pw_pending :: "pending_pr_notice option"
  pw_not_found :: int
  pw_created :: string

record pr_watch_cursors =
  cu_head :: string
  cu_failures :: "string list"
  cu_seen :: "string list"
  cu_prints :: fingerprints
  cu_fetch_failures :: int
  cu_degraded :: bool
  cu_ready :: "string option"
  cu_pr_updated :: "string option"
  cu_conflict :: "conflict_state option"

type_synonym pr_watches = "pr_watch list"

definition same_watch :: "string \<Rightarrow> string \<Rightarrow> int \<Rightarrow> pr_watch \<Rightarrow> bool" where
  "same_watch x p n w \<longleftrightarrow> pw_session w = x \<and> pw_project w = p \<and> pw_number w = n"

text \<open>\<open>sessions\<close> and \<open>projects\<close> hold the ids the foreign keys may refer to. An id that is taken is a conflict the statement
  does not handle.\<close>

definition upsert_pr_watch ::
  "string set \<Rightarrow> string set \<Rightarrow> string \<Rightarrow> string \<Rightarrow> string \<Rightarrow> string \<Rightarrow> int \<Rightarrow> bool \<Rightarrow> string \<Rightarrow> pr_watches \<Rightarrow> argmax_error + pr_watches"
where
  "upsert_pr_watch known projects now i x p n cleanup head ws =
     (if \<not> 0 < n then Inl (sqlite ''CHECK constraint failed: pr_number > 0'')
      else if list_ex (same_watch x p n) ws then Inr (map (\<lambda>w. if same_watch x p n w then w\<lparr>pw_cleanup := cleanup\<rparr> else w) ws)
      else if i \<in> pw_id ` set ws then Inl (sqlite ''UNIQUE constraint failed: pr_watches.id'')
      else if x \<notin> known \<or> p \<notin> projects then Inl (sqlite ''FOREIGN KEY constraint failed'')
      else Inr (ws @ [\<lparr>pw_id = i, pw_session = x, pw_project = p, pw_number = n, pw_cleanup = cleanup, pw_head = head,
        pw_failures = [], pw_seen = None, pw_prints = None, pw_fetch_failures = 0, pw_degraded = False, pw_ready = None,
        pw_pr_updated = None, pw_conflict = None, pw_seq = 0, pw_pending = None, pw_not_found = 0, pw_created = now\<rparr>]))"

definition find_pr_watch :: "string \<Rightarrow> string \<Rightarrow> int \<Rightarrow> pr_watches \<Rightarrow> pr_watch option" where
  "find_pr_watch x p n ws = find (same_watch x p n) ws"

definition delete_pr_watch :: "string \<Rightarrow> string \<Rightarrow> int \<Rightarrow> pr_watches \<Rightarrow> bool \<times> pr_watches" where
  "delete_pr_watch x p n ws = (list_ex (same_watch x p n) ws, filter (\<lambda>w. \<not> same_watch x p n w) ws)"

definition delete_pr_watch_by_id :: "string \<Rightarrow> pr_watches \<Rightarrow> pr_watches" where
  "delete_pr_watch_by_id i ws = filter (\<lambda>w. pw_id w \<noteq> i) ws"

definition list_pr_watches :: "pr_watches \<Rightarrow> pr_watch list" where
  "list_pr_watches ws = sort_key pw_created (sort_key pw_id ws)"

definition pr_has_watch :: "string \<Rightarrow> int \<Rightarrow> pr_watches \<Rightarrow> bool" where
  "pr_has_watch p n ws = list_ex (\<lambda>w. pw_project w = p \<and> pw_number w = n) ws"

definition write_watch :: "string \<Rightarrow> (pr_watch \<Rightarrow> pr_watch) \<Rightarrow> pr_watches \<Rightarrow> pr_watches" where
  "write_watch i f ws = map (\<lambda>w. if pw_id w = i then f w else w) ws"

definition with_cursors :: "pr_watch_cursors \<Rightarrow> pr_watch \<Rightarrow> pr_watch" where
  "with_cursors c w = w\<lparr>pw_head := cu_head c, pw_failures := cu_failures c, pw_seen := Some (cu_seen c), pw_ready := cu_ready c,
     pw_pr_updated := cu_pr_updated c, pw_conflict := cu_conflict c, pw_prints := Some (cu_prints c),
     pw_fetch_failures := cu_fetch_failures c, pw_degraded := cu_degraded c\<rparr>"

definition update_pr_watch_cursors :: "string \<Rightarrow> pr_watch_cursors \<Rightarrow> pr_watches \<Rightarrow> pr_watches" where
  "update_pr_watch_cursors i c = write_watch i (with_cursors c)"

definition stage_pr_watch_notice :: "string \<Rightarrow> pr_watch_cursors \<Rightarrow> pending_pr_notice \<Rightarrow> pr_watches \<Rightarrow> pr_watches" where
  "stage_pr_watch_notice i c n = write_watch i (\<lambda>w. (with_cursors c w)\<lparr>pw_seq := Suc (pw_seq w), pw_pending := Some n\<rparr>)"

definition clear_pr_watch_notice :: "string \<Rightarrow> pr_watches \<Rightarrow> pr_watches" where
  "clear_pr_watch_notice i = write_watch i (\<lambda>w. w\<lparr>pw_pending := None\<rparr>)"

definition set_pr_watch_not_found_count :: "string \<Rightarrow> int \<Rightarrow> pr_watches \<Rightarrow> pr_watches" where
  "set_pr_watch_not_found_count i n = write_watch i (\<lambda>w. w\<lparr>pw_not_found := n\<rparr>)"

text \<open>The notice of a failed read never ends the watch.\<close>

definition record_pr_watch_fetch_failure :: "string \<Rightarrow> int \<Rightarrow> bool \<Rightarrow> pending_pr_notice option \<Rightarrow> pr_watches \<Rightarrow> pr_watches" where
  "record_pr_watch_fetch_failure i failed degraded n = write_watch i (\<lambda>w. w\<lparr>pw_fetch_failures := failed, pw_degraded := degraded,
     pw_seq := (if n = None then pw_seq w else Suc (pw_seq w)), pw_pending := map_option (\<lambda>n. n\<lparr>pn_ends := False\<rparr>) n\<rparr>)"

section \<open>The refreshed row\<close>

record watched_pr_state =
  wp_head :: string
  wp_checks :: string
  wp_state :: "string option"
  wp_title :: "string option"
  wp_url :: "string option"
  wp_refreshed :: string
  wp_error :: "string option"

end
