(* ===== verification/PR_Watch_Pass.thy ===== *)
theory PR_Watch_Pass
  imports PR_Watch_Store
begin

text \<open>
  One pass over a watched pull request (\<^verbatim>\<open>src-tauri/src/gh/watch.rs\<close>): what a reading reports, the text of the notice, and
  the writes and the delivery the pass makes, in order. \<open>parse_time\<close> reads an RFC 3339 time (chrono), \<open>digest\<close> is
  SHA-256 (sha2) over bytes.
\<close>

definition MAX_NOTICE_CHARS :: nat where "MAX_NOTICE_CHARS = 4000"
definition MAX_SECTION_ITEMS :: nat where "MAX_SECTION_ITEMS = 10"
definition MAX_SNIPPET_CHARS :: nat where "MAX_SNIPPET_CHARS = 140"
definition MAX_NOT_FOUND_TICKS :: int where "MAX_NOT_FOUND_TICKS = 10"
definition DEGRADED_FETCH_COUNT :: int where "DEGRADED_FETCH_COUNT = 3"
definition PR_UNAVAILABLE_ERROR :: string where "PR_UNAVAILABLE_ERROR = ''pull request is unavailable''"

section \<open>Texts\<close>

definition some_text :: "string option \<Rightarrow> string option" where
  "some_text t = (case t of Some s \<Rightarrow> if s = [] then None else Some s | None \<Rightarrow> None)"

definition text_or :: "string \<Rightarrow> string option \<Rightarrow> string" where
  "text_or d t = (case t of None \<Rightarrow> d | Some s \<Rightarrow> s)"

definition plural :: "nat \<Rightarrow> string \<Rightarrow> string \<Rightarrow> string" where
  "plural n one many = nat_text n @ '' '' @ (if n = 1 then one else many)"

definition section_text :: "string \<Rightarrow> string list \<Rightarrow> string" where
  "section_text heading items =
     (let extra = length items - MAX_SECTION_ITEMS
      in join [newline] (heading # map (\<lambda>i. ''- '' @ i) (take MAX_SECTION_ITEMS items) @
           (if extra > 0 then [''- and '' @ nat_text extra @ '' more''] else [])))"

definition pr_notice_body :: "int \<Rightarrow> watched_pr_state \<Rightarrow> string list \<Rightarrow> string list \<Rightarrow> string" where
  "pr_notice_body n pr summary sections =
     (let txt = ''PR #'' @ int_text n @ '' ('' @ text_or ''untitled'' (wp_title pr) @ ''): '' @ join '', '' summary @ ''.'' @
            concat (map (\<lambda>s. newline # s) sections);
          url = text_or [] (wp_url pr);
          budget = MAX_NOTICE_CHARS - (char_count url + 1);
          body = (if char_count txt > budget then take_chars (budget - 2) txt @ '' '' @ ellipsis else txt)
      in body @ newline # url)"

definition check_line :: "rollup_entry \<Rightarrow> string" where
  "check_line e =
     (let name = text_or ''check'' (re_name e);
          lbl = (case some_text (re_workflow e) of Some flow \<Rightarrow> flow @ '' / '' @ name | None \<Rightarrow> name)
      in case some_text (re_url e) of Some url \<Rightarrow> lbl @ '': '' @ url | None \<Rightarrow> lbl)"

definition check_key :: "rollup_entry \<Rightarrow> string \<Rightarrow> string" where
  "check_key e head =
     (let name = text_or ''check'' (re_name e)
      in case some_text (re_workflow e) of Some flow \<Rightarrow> flow @ ''/'' @ name @ ''@'' @ head | None \<Rightarrow> name @ ''@'' @ head)"

definition with_snippet :: "string \<Rightarrow> string \<Rightarrow> string option \<Rightarrow> string" where
  "with_snippet prefix snippet url =
     prefix @ (if snippet = [] then [] else '': '' @ snippet) @ (case some_text url of Some u \<Rightarrow> '' '' @ u | None \<Rightarrow> [])"

definition thread_location :: "pr_review_thread \<Rightarrow> string" where
  "thread_location t =
     (let path = text_or ''?'' (th_path t) in case th_line t of Some l \<Rightarrow> path @ '':'' @ int_text l | None \<Rightarrow> path)"

definition ends_with :: "string \<Rightarrow> string \<Rightarrow> bool" where
  "ends_with s e \<longleftrightarrow> starts_with (rev s) (rev e)"

definition author_label :: "pr_author option \<Rightarrow> string set \<Rightarrow> string" where
  "author_label a bots =
     (case a of
        None \<Rightarrow> ''unknown''
      | Some u \<Rightarrow>
          if au_login u = [] then ''unknown''
          else if (au_type u = Some ''Bot'' \<or> au_login u \<in> bots) \<and> \<not> ends_with (au_login u) ''[bot]'' then au_login u @ '' [bot]''
          else au_login u)"

definition first_line :: "string option \<Rightarrow> string" where
  "first_line body =
     (let line = (case find (\<lambda>l. l \<noteq> []) (map trim (str_lines (text_or [] body))) of None \<Rightarrow> [] | Some l \<Rightarrow> l)
      in if char_count line > MAX_SNIPPET_CHARS then take_chars MAX_SNIPPET_CHARS line @ ellipsis else line)"

text \<open>\<^verbatim>\<open>(state.len() as u64).to_be_bytes()\<close>.\<close>

fun be_bytes :: "nat \<Rightarrow> nat \<Rightarrow> char list" where
  "be_bytes 0 n = []"
| "be_bytes (Suc k) n = be_bytes k (n div 256) @ [char_of (n mod 256)]"

definition feedback_fingerprint :: "(char list \<Rightarrow> char list) \<Rightarrow> string option \<Rightarrow> string \<Rightarrow> string" where
  "feedback_fingerprint digest body state = hex_text (digest (be_bytes 8 (length state) @ state @ text_or [] body))"

definition notice_id :: "pr_watch \<Rightarrow> string \<Rightarrow> string" where
  "notice_id w head = ''pr-watch:'' @ pw_id w @ '':'' @ nat_text (pw_seq w + 1) @ '':'' @ take_chars 7 head"

section \<open>What a reading says\<close>

datatype pr_terminal = PR_Merged | PR_Closed

definition terminal_state :: "watched_pr_state \<Rightarrow> pr_watch_view \<Rightarrow> pr_terminal option" where
  "terminal_state pr v =
     (case (case some_text (vw_state v) of Some s \<Rightarrow> Some s | None \<Rightarrow> wp_state pr) of
        None \<Rightarrow> None
      | Some s \<Rightarrow>
          if map ascii_upper s = ''MERGED'' then Some PR_Merged
          else if map ascii_upper s = ''CLOSED'' then Some PR_Closed
          else None)"

definition observed_conflict :: "pr_watch_view \<Rightarrow> conflict_state option" where
  "observed_conflict v =
     (case vw_mergeable v of
        None \<Rightarrow> None
      | Some s \<Rightarrow>
          if map ascii_upper s = ''CONFLICTING'' then Some Conflict_Conflicting
          else if map ascii_upper s = ''MERGEABLE'' then Some Conflict_Clean
          else None)"

definition current_cursors :: "pr_watch \<Rightarrow> pr_watch_cursors" where
  "current_cursors w = \<lparr>cu_head = pw_head w, cu_failures = pw_failures w,
     cu_seen = (case pw_seen w of None \<Rightarrow> [] | Some ids \<Rightarrow> ids), cu_prints = (case pw_prints w of None \<Rightarrow> [] | Some m \<Rightarrow> m),
     cu_fetch_failures = pw_fetch_failures w, cu_degraded = pw_degraded w, cu_ready = pw_ready w,
     cu_pr_updated = pw_pr_updated w, cu_conflict = pw_conflict w\<rparr>"

record watch_pass =
  ps_body :: "string option"
  ps_cursors :: pr_watch_cursors
  ps_ends :: bool

definition finish_pass :: "int \<Rightarrow> watched_pr_state \<Rightarrow> string list \<Rightarrow> string list \<Rightarrow> pr_watch_cursors \<Rightarrow> bool \<Rightarrow> watch_pass" where
  "finish_pass n pr summary sections c ends =
     \<lparr>ps_body = (if summary = [] then None else Some (pr_notice_body n pr summary sections)), ps_cursors = c, ps_ends = ends\<rparr>"

subsection \<open>Checks\<close>

fun check_loop :: "string \<Rightarrow> rollup_entry list \<Rightarrow> string list \<Rightarrow> (string \<times> string) list \<Rightarrow> string list \<times> (string \<times> string) list" where
  "check_loop head [] seen failing = (seen, failing)"
| "check_loop head (e # es) seen failing =
     (let key = check_key e head
      in if entry_check_state e \<notin> {Check_Failure, Check_Cancelled} then check_loop head es (filter (\<lambda>s. s \<noteq> key) seen) failing
         else if key \<in> set seen \<or> key \<in> set (map fst failing) then check_loop head es seen failing
         else check_loop head es seen (failing @ [(key, check_line e)]))"

definition plan_checks :: "pr_watch_view \<Rightarrow> string \<Rightarrow> string list \<Rightarrow> string list \<times> string list \<times> string list" where
  "plan_checks v head seen =
     (let (seen', failing) = check_loop head (case vw_rollup v of None \<Rightarrow> [] | Some es \<Rightarrow> es) seen [];
          head7 = take_chars 7 head
      in if failing = [] then ([], [], seen')
         else ([plural (length failing) ''check'' ''checks'' @ '' failing on '' @ head7],
               [section_text (''Checks failing on '' @ head7 @ '':'') (map snd failing)], seen' @ map fst failing))"

subsection \<open>Conflicts\<close>

definition plan_conflict :: "pr_watch_view \<Rightarrow> conflict_state option \<Rightarrow> string list \<times> string list \<times> conflict_state option" where
  "plan_conflict v prior =
     (case observed_conflict v of
        Some Conflict_Conflicting \<Rightarrow>
          if prior \<noteq> Some Conflict_Conflicting
          then (let base = text_or ''its base branch'' (vw_base v)
                in ([''merge conflict''],
                    [''Merge conflict: this PR cannot merge into '' @ base @ '' until the conflict is resolved. Update the branch from '' @ base @ '' and resolve it.''],
                    Some Conflict_Conflicting))
          else ([], [], prior)
      | Some Conflict_Clean \<Rightarrow>
          (case prior of
             Some Conflict_Conflicting \<Rightarrow> ([''merge conflict resolved''], [], Some Conflict_Clean)
           | None \<Rightarrow> ([], [], Some Conflict_Clean)
           | _ \<Rightarrow> ([], [], prior))
      | None \<Rightarrow> ([], [], prior))"

subsection \<open>Feedback\<close>

record observation =
  ob_id :: string
  ob_at :: "string option"
  ob_body :: "string option"
  ob_state :: string
  ob_reportable :: bool
  ob_line :: string

record feedback_item =
  fi_line :: string
  fi_edited :: bool

definition observe_review :: "string set \<Rightarrow> pr_review \<Rightarrow> observation" where
  "observe_review bots r =
     (let state = text_or ''COMMENTED'' (rv_state r); snippet = first_line (rv_body r);
          on_commit = (case rv_commit r of None \<Rightarrow> [] | Some oid \<Rightarrow> '' on '' @ take_chars 7 oid)
      in \<lparr>ob_id = rv_id r, ob_at = rv_submitted r, ob_body = rv_body r, ob_state = state,
          ob_reportable = (\<not> (snippet = [] \<and> state = ''COMMENTED'')),
          ob_line = with_snippet (''review by '' @ author_label (rv_author r) bots @ '': '' @ state @ on_commit) snippet None\<rparr>)"

definition observe_comment :: "string \<Rightarrow> pr_comment \<Rightarrow> observation" where
  "observe_comment prefix c =
     \<lparr>ob_id = cm_id c, ob_at = cm_created c, ob_body = cm_body c, ob_state = [], ob_reportable = (cm_own c \<noteq> Some True),
      ob_line = with_snippet prefix (first_line (cm_body c)) (cm_url c)\<rparr>"

definition observations :: "pr_watch_view \<Rightarrow> pr_feedback_graph option \<Rightarrow> observation list" where
  "observations v g =
     (let bots = (case g of None \<Rightarrow> {} | Some g \<Rightarrow> gr_bots g); threads = (case g of None \<Rightarrow> [] | Some g \<Rightarrow> gr_threads g)
      in map (observe_review bots) (case vw_reviews v of None \<Rightarrow> [] | Some rs \<Rightarrow> rs) @
         map (\<lambda>c. observe_comment (''comment by '' @ author_label (cm_author c) bots) c) (case vw_comments v of None \<Rightarrow> [] | Some cs \<Rightarrow> cs) @
         concat (map (\<lambda>t. map (\<lambda>c. observe_comment (''thread comment by '' @ author_label (cm_author c) bots @ '' on '' @ thread_location t) c)
           (th_comments t)) threads))"

record feedback_scan =
  sc_ids :: "string list"
  sc_prints :: fingerprints
  sc_seen :: "string list"
  sc_items :: "feedback_item list"

text \<open>\<open>seeding\<close> is the time before which an item predates the watch, on the pass that seeds it.\<close>

definition predates_watch :: "(string \<Rightarrow> int option) \<Rightarrow> int option \<Rightarrow> observation \<Rightarrow> bool" where
  "predates_watch parse_time seeding ob =
     (case seeding of None \<Rightarrow> False
      | Some created \<Rightarrow> (case Option.bind (ob_at ob) parse_time of None \<Rightarrow> True | Some t \<Rightarrow> t < created))"

definition observe ::
  "(string \<Rightarrow> int option) \<Rightarrow> (char list \<Rightarrow> char list) \<Rightarrow> string list \<Rightarrow> int option \<Rightarrow> observation \<Rightarrow> feedback_scan \<Rightarrow> feedback_scan"
where
  "observe parse_time digest seen seeding ob s =
     (if ob_id ob \<in> set (sc_ids s) then s
      else
        (let print = feedback_fingerprint digest (ob_body ob) (ob_state ob);
             edited = (case map_of (sc_prints s) (ob_id ob) of None \<Rightarrow> False | Some old \<Rightarrow> old \<noteq> print);
             s = s\<lparr>sc_ids := ob_id ob # sc_ids s, sc_prints := btree_insert (ob_id ob) print (sc_prints s)\<rparr>
         in if ob_id ob \<in> set seen \<and> \<not> edited then s
            else
              (let s = (if ob_id ob \<in> set seen then s else s\<lparr>sc_seen := sc_seen s @ [ob_id ob]\<rparr>)
               in if ob_reportable ob \<and> \<not> predates_watch parse_time seeding ob
                  then s\<lparr>sc_items := sc_items s @ [\<lparr>fi_line = (if edited then ''edited '' else []) @ ob_line ob, fi_edited = edited\<rparr>]\<rparr>
                  else s)))"

definition scan_feedback ::
  "(string \<Rightarrow> int option) \<Rightarrow> (char list \<Rightarrow> char list) \<Rightarrow> pr_watch \<Rightarrow> observation list \<Rightarrow> feedback_scan"
where
  "scan_feedback parse_time digest w obs =
     (let seeding = (if pw_seen w = None then parse_time (pw_created w) else None);
          seen = cu_seen (current_cursors w)
      in fold (observe parse_time digest seen seeding) obs
           \<lparr>sc_ids = [], sc_prints = cu_prints (current_cursors w), sc_seen = seen, sc_items = []\<rparr>)"

definition plan_feedback :: "feedback_item list \<Rightarrow> string list \<times> string list" where
  "plan_feedback items =
     (if items = [] then ([], [])
      else
        (let edits = list_ex fi_edited items
         in ([plural (length items) (if edits then ''new or edited feedback item'' else ''new feedback item'')
                (if edits then ''new or edited feedback items'' else ''new feedback items'')],
             [section_text (if edits then ''New or edited feedback:'' else ''New feedback:'') (map fi_line items)])))"

subsection \<open>Green checks\<close>

definition unresolved_line :: "string set \<Rightarrow> pr_review_thread \<Rightarrow> string" where
  "unresolved_line bots t =
     (let first = (case th_comments t of [] \<Rightarrow> None | c # _ \<Rightarrow> Some c)
      in with_snippet (thread_location t @ '' by '' @ author_label (Option.bind first cm_author) bots)
           (first_line (Option.bind first cm_body)) (Option.bind first cm_url))"

definition requested_from :: "pr_watch_view \<Rightarrow> string list" where
  "requested_from v =
     map the (filter (\<lambda>n. n \<noteq> None) (map (\<lambda>r. case rq_login r of Some l \<Rightarrow> Some l
        | None \<Rightarrow> (case rq_slug r of Some s \<Rightarrow> Some s | None \<Rightarrow> rq_name r)) (case vw_requests v of None \<Rightarrow> [] | Some rs \<Rightarrow> rs)))"

definition plan_green ::
  "pr_watch_view \<Rightarrow> pr_feedback_graph option \<Rightarrow> string \<Rightarrow> string option \<Rightarrow> string list \<times> string list \<times> string option"
where
  "plan_green v g head ready =
     (if \<not> checks_are_green v \<or> ready = Some head then ([], [], ready)
      else
        (let bots = (case g of None \<Rightarrow> {} | Some g \<Rightarrow> gr_bots g); threads = (case g of None \<Rightarrow> [] | Some g \<Rightarrow> gr_threads g);
             unresolved = map (unresolved_line bots) (filter (\<lambda>t. \<not> th_resolved t) threads);
             requested = requested_from v
         in ([''checks green on '' @ take_chars 7 head],
             [if unresolved = [] then ''No unresolved review threads.''
              else section_text (''Unresolved review threads ('' @ nat_text (length unresolved) @ ''):'') unresolved] @
             (if requested = [] then [] else [''Review requested from: '' @ join '', '' requested @ ''.'']) @
             (if observed_conflict v = Some Conflict_Conflicting then [''The PR still has a merge conflict with its base.''] else []) @
             [''Apply the merge gate before merging.''],
             Some head)))"

subsection \<open>The whole reading\<close>

text \<open>The cursors a pass starts from: those of a head it has not seen before are empty.\<close>

definition pass_cursors :: "pr_watch \<Rightarrow> watched_pr_state \<Rightarrow> pr_watch_view \<Rightarrow> pr_feedback_graph option \<Rightarrow> pr_watch_cursors" where
  "pass_cursors w pr v g =
     (let changed = (pw_head w \<noteq> wp_head pr)
      in (current_cursors w)\<lparr>cu_head := wp_head pr, cu_failures := (if changed then [] else pw_failures w),
           cu_fetch_failures := 0, cu_degraded := False, cu_ready := (if changed then None else pw_ready w),
           cu_pr_updated := (if g \<noteq> None then vw_updated v else pw_pr_updated w)\<rparr>)"

definition terminal_text :: "watched_pr_state \<Rightarrow> pr_watch_view \<Rightarrow> pr_terminal \<Rightarrow> string" where
  "terminal_text pr v t =
     (case t of
        PR_Merged \<Rightarrow>
          (let commit = (case vw_merge_commit v of None \<Rightarrow> [] | Some oid \<Rightarrow> take_chars 7 oid)
           in if commit = [] then ''merged'' else ''merged as '' @ commit @ '' (head '' @ take_chars 7 (wp_head pr) @ '')'')
      | PR_Closed \<Rightarrow> ''closed without merging'')"

definition plan_watch_pass ::
  "(string \<Rightarrow> int option) \<Rightarrow> (char list \<Rightarrow> char list) \<Rightarrow> pr_watch \<Rightarrow> watched_pr_state \<Rightarrow> pr_watch_view \<Rightarrow> pr_terminal option \<Rightarrow>
   pr_feedback_graph option \<Rightarrow> string option \<Rightarrow> watch_pass"
where
  "plan_watch_pass parse_time digest w pr v terminal g cleanup =
     (let c = pass_cursors w pr v g
      in case terminal of
           Some t \<Rightarrow> finish_pass (pw_number w) pr [terminal_text pr v t]
             ((case cleanup of None \<Rightarrow> [] | Some report \<Rightarrow> [''Cleanup:'' @ newline # report]) @ [''This watch has ended.'']) c True
         | None \<Rightarrow>
             (let recovered = (if pw_degraded w
                 then ([''watch recovered''], [''PR details and review threads are readable again. Watch notices have resumed.''])
                 else ([], []));
                  (s1, t1, failures) = plan_checks v (wp_head pr) (cu_failures c);
                  (s2, t2, conflict) = plan_conflict v (pw_conflict w);
                  scan = scan_feedback parse_time digest w (observations v g);
                  (s3, t3) = plan_feedback (sc_items scan);
                  (s4, t4, ready) = plan_green v g (wp_head pr) (cu_ready c)
              in finish_pass (pw_number w) pr (fst recovered @ s1 @ s2 @ s3 @ s4) (snd recovered @ t1 @ t2 @ t3 @ t4)
                   (c\<lparr>cu_failures := failures, cu_conflict := conflict, cu_seen := sc_seen scan, cu_prints := sc_prints scan,
                      cu_ready := ready\<rparr>) False))"

section \<open>The pass\<close>

text \<open>The writes and the delivery of one pass, all on the watch it is over, in order. An error ends the pass where it is.\<close>

datatype watch_action =
    Set_Not_Found int
  | Stage_Notice pr_watch_cursors pending_pr_notice
  | Record_Failure int bool "pending_pr_notice option"
  | Update_Cursors pr_watch_cursors
  | Deliver_Notice pending_pr_notice
  | Clear_Notice
  | End_Watch

definition recipient_archived :: "string \<Rightarrow> bool" where
  "recipient_archived state \<longleftrightarrow> state \<in> {''archiving'', ''archive-failed'', ''archived''}"

definition deliver_staged :: "pending_pr_notice \<Rightarrow> bool \<Rightarrow> watch_action list" where
  "deliver_staged n archived = (if archived then [] else [Deliver_Notice n]) @ [if pn_ends n then End_Watch else Clear_Notice]"

definition record_fetch_failure ::
  "pr_watch \<Rightarrow> watched_pr_state \<Rightarrow> bool \<Rightarrow> string \<Rightarrow> gh_fetch_error \<Rightarrow> watch_action list"
where
  "record_fetch_failure w pr archived what e =
     (let failed = min (pw_fetch_failures w + 1) DEGRADED_FETCH_COUNT;
          notice = (if failed = DEGRADED_FETCH_COUNT \<and> \<not> pw_degraded w \<and> \<not> archived
            then Some \<lparr>pn_id = notice_id w (wp_head pr),
              pn_body = pr_notice_body (pw_number w) pr [''watch degraded'']
                [''Could not complete watch reads on 3 consecutive polls. Feedback and check notices may be delayed. Argmax will keep retrying.'' @
                 newline # ''Last failed read: '' @ what @ ''.'' @ newline # ''Last error: '' @ first_line (Some (fe_message e))],
              pn_ends = False\<rparr>
            else None)
      in Record_Failure failed (pw_degraded w \<or> notice \<noteq> None) notice #
         (case notice of None \<Rightarrow> [] | Some n \<Rightarrow> deliver_staged n archived))"

record project_remote =
  rm_owner :: string
  rm_name :: string

definition strip_prefix :: "string \<Rightarrow> string \<Rightarrow> string option" where
  "strip_prefix p s = (if starts_with s p then Some (drop (length p) s) else None)"

definition extract_github_remote_from_url :: "string \<Rightarrow> project_remote option" where
  "extract_github_remote_from_url url =
     (case (case strip_prefix ''https://github.com/'' (trim url) of Some p \<Rightarrow> Some p | None \<Rightarrow> strip_prefix ''http://github.com/'' (trim url)) of
        None \<Rightarrow> None
      | Some path \<Rightarrow>
          (case split_on (CHR ''/'') path of
             owner # name # _ \<Rightarrow>
               if trim owner = [] \<or> trim name = [] then None else Some \<lparr>rm_owner = trim owner, rm_name = trim name\<rparr>
           | _ \<Rightarrow> None))"

text \<open>What the pass reads first, and what it is answered.\<close>

record watch_reading =
  rg_pr :: "watched_pr_state option"
  rg_place_state :: string
  rg_remote :: "project_remote option"

record watch_answers =
  an_view :: "gh_fetch_error + pr_watch_view"
  an_threads :: "gh_fetch_error + pr_feedback_graph"
  an_cleanup :: string

definition wants_threads :: "pr_watch \<Rightarrow> watched_pr_state \<Rightarrow> pr_watch_view \<Rightarrow> bool" where
  "wants_threads w pr v \<longleftrightarrow>
     (let changed = (pw_head w \<noteq> wp_head pr); green = (checks_are_green v \<and> (changed \<or> pw_ready w \<noteq> Some (wp_head pr)))
      in pw_seen w = None \<or> pw_prints w = None \<or> pw_fetch_failures w > 0 \<or> changed \<or> green \<or> vw_updated v \<noteq> pw_pr_updated w)"

text \<open>Once the reading is complete.\<close>

definition conclude_pass :: "pr_watch \<Rightarrow> watched_pr_state \<Rightarrow> bool \<Rightarrow> watch_pass \<Rightarrow> watch_action list" where
  "conclude_pass w pr archived p =
     (case ps_body p of
        None \<Rightarrow> if pw_seen w = None \<or> pw_prints w = None \<or> ps_cursors p \<noteq> current_cursors w then [Update_Cursors (ps_cursors p)] else []
      | Some body \<Rightarrow>
          if archived then (if ps_ends p then [End_Watch] else [])
          else
            (let n = \<lparr>pn_id = notice_id w (wp_head pr), pn_body = body, pn_ends = ps_ends p\<rparr>
             in Stage_Notice (ps_cursors p) n # deliver_staged n False))"

definition read_pr ::
  "(string \<Rightarrow> int option) \<Rightarrow> (char list \<Rightarrow> char list) \<Rightarrow> project_remote option \<Rightarrow> watch_answers \<Rightarrow> pr_watch \<Rightarrow> watched_pr_state \<Rightarrow> bool \<Rightarrow> watch_action list"
where
  "read_pr parse_time digest fallback_remote ans w pr archived =
     (case an_view ans of
        Inl e \<Rightarrow> record_fetch_failure w pr archived ''PR details'' e
      | Inr v \<Rightarrow>
          if vw_head v \<noteq> Some (wp_head pr) then []
          else
            (let terminal = terminal_state pr v;
                 remote = (case Option.bind (wp_url pr) extract_github_remote_from_url of Some r \<Rightarrow> Some r | None \<Rightarrow> fallback_remote);
                 ask = (terminal = None \<and> wants_threads w pr v \<and> remote \<noteq> None)
             in case (if ask then an_threads ans else Inr \<lparr>gr_threads = [], gr_bots = {}\<rparr>) of
                  Inl e \<Rightarrow> record_fetch_failure w pr archived ''review threads'' e
                | Inr g \<Rightarrow>
                    if pw_fetch_failures w > 0 \<and> terminal = None \<and> \<not> ask then []
                    else conclude_pass w pr archived
                      (plan_watch_pass parse_time digest w pr v terminal (if ask then Some g else None)
                        (if terminal = Some PR_Merged \<and> pw_cleanup w then Some (an_cleanup ans) else None))))"

definition run_one_watch ::
  "(string \<Rightarrow> int option) \<Rightarrow> (char list \<Rightarrow> char list) \<Rightarrow> string \<Rightarrow> argmax_error + watch_reading \<Rightarrow> watch_answers \<Rightarrow> pr_watch \<Rightarrow> watch_action list"
where
  "run_one_watch parse_time digest tick reading ans w =
     (case reading of
        Inl _ \<Rightarrow> []
      | Inr r \<Rightarrow>
          (let archived = recipient_archived (rg_place_state r)
           in case (pw_pending w, rg_pr r) of
                (Some n, _) \<Rightarrow> deliver_staged n archived
              | (None, None) \<Rightarrow> []
              | (None, Some pr) \<Rightarrow>
                  if wp_error pr = Some PR_UNAVAILABLE_ERROR \<and> wp_head pr = []
                  then (if wp_refreshed pr < tick then []
                        else if pw_not_found w + 1 < MAX_NOT_FOUND_TICKS then [Set_Not_Found (pw_not_found w + 1)]
                        else
                          (let n = \<lparr>pn_id = notice_id w [],
                             pn_body = ''PR #'' @ int_text (pw_number w) @ '' not found; watch removed. GitHub had no such pull request on '' @
                               int_text (pw_not_found w + 1) @ '' polls in a row.'', pn_ends = True\<rparr>
                           in Stage_Notice (current_cursors w) n # deliver_staged n archived))
                  else (if pw_not_found w > 0 then [Set_Not_Found 0] else []) @
                       (if wp_error pr \<noteq> None \<or> wp_head pr = [] \<or> wp_refreshed pr < tick then []
                        else read_pr parse_time digest (rg_remote r) ans w pr archived)))"

end
