(* ===== verification/PR_Watch_Reports.thy ===== *)
theory PR_Watch_Reports
  imports PR_Watch_Pass
begin

text \<open>
  What a watch reports: each piece of feedback once, nothing twice while nothing changes, within the size of a notice.
\<close>

section \<open>The size of a notice\<close>

lemma char_count_simps: "char_count [] = 0" "char_count (newline # s) = Suc (char_count s)" "char_count ('' '' @ ellipsis) = 2"
  by (simp_all add: char_count_def char_start_def newline_def ellipsis_def)

text \<open>A notice is never longer than 4000 characters, its last line is the address of the pull request, whole, for every
  address that leaves it room; a text that fits is not cut.\<close>

lemma notice_keeps_its_url:
  assumes "char_count (text_or [] (wp_url pr)) \<le> 3997"
  shows "char_count (pr_notice_body n pr summary sections) \<le> MAX_NOTICE_CHARS \<and>
    (\<exists>txt. pr_notice_body n pr summary sections = txt @ newline # text_or [] (wp_url pr))"
proof -
  let ?url = "text_or [] (wp_url pr)"
  let ?txt = "''PR #'' @ int_text n @ '' ('' @ text_or ''untitled'' (wp_title pr) @ ''): '' @ join '', '' summary @ ''.'' @
    concat (map (\<lambda>s. newline # s) sections)"
  let ?budget = "MAX_NOTICE_CHARS - (char_count ?url + 1)"
  let ?body = "if char_count ?txt > ?budget then take_chars (?budget - 2) ?txt @ '' '' @ ellipsis else ?txt"
  have eq: "pr_notice_body n pr summary sections = ?body @ newline # ?url" by (simp add: pr_notice_body_def Let_def)
  have b: "2 \<le> ?budget" using assms by (simp add: MAX_NOTICE_CHARS_def)
  have "char_count (take_chars (?budget - 2) ?txt @ '' '' @ ellipsis) = char_count (take_chars (?budget - 2) ?txt) + 2"
    unfolding char_count_append [of "take_chars (?budget - 2) ?txt"] char_count_simps(3) by (rule refl)
  then have "char_count (take_chars (?budget - 2) ?txt @ '' '' @ ellipsis) \<le> ?budget"
    using take_chars_count [of "?budget - 2" ?txt] b by linarith
  then have "char_count ?body \<le> ?budget" by (simp only: split: if_split) simp
  then have "char_count (?body @ newline # ?url) \<le> MAX_NOTICE_CHARS"
    using assms unfolding char_count_append char_count_simps MAX_NOTICE_CHARS_def by linarith
  then show ?thesis unfolding eq by blast
qed

definition sample_state :: watched_pr_state where
  "sample_state = \<lparr>wp_head = ''abcdef0123'', wp_checks = ''success'', wp_state = Some ''OPEN'', wp_title = Some ''fix'', wp_url = Some ''https://github.com/o/r/pull/7'',
     wp_refreshed = ''t'', wp_error = None\<rparr>"

lemma notice_keeps_its_url_witness:
  "char_count (pr_notice_body 7 sample_state [''merge conflict''] []) \<le> MAX_NOTICE_CHARS"
proof -
  have "char_count (text_or [] (wp_url sample_state)) \<le> 3997"
    by (simp add: sample_state_def text_or_def char_count_def char_start_def)
  then show ?thesis using notice_keeps_its_url by blast
qed

section \<open>Feedback\<close>

lemma map_of_btree_insert [simp]: "map_of (btree_insert k v m) = (map_of m)(k \<mapsto> v)"
  by (induction k v m rule: btree_insert.induct) (auto simp: fun_eq_iff)

text \<open>What is new in a reading: an id that is not known, or a known text that changed.\<close>

definition edited_since :: "(char list \<Rightarrow> char list) \<Rightarrow> fingerprints \<Rightarrow> observation \<Rightarrow> bool" where
  "edited_since digest prints ob \<longleftrightarrow> (\<exists>old. map_of prints (ob_id ob) = Some old \<and> old \<noteq> feedback_fingerprint digest (ob_body ob) (ob_state ob))"

definition news :: "(string \<Rightarrow> int option) \<Rightarrow> (char list \<Rightarrow> char list) \<Rightarrow> string list \<Rightarrow> int option \<Rightarrow> fingerprints \<Rightarrow> observation \<Rightarrow> bool" where
  "news parse_time digest seen seeding prints ob \<longleftrightarrow>
     ob_reportable ob \<and> \<not> predates_watch parse_time seeding ob \<and> (ob_id ob \<notin> set seen \<or> edited_since digest prints ob)"

definition item_of :: "(char list \<Rightarrow> char list) \<Rightarrow> fingerprints \<Rightarrow> observation \<Rightarrow> feedback_item" where
  "item_of digest prints ob = (let e = edited_since digest prints ob in \<lparr>fi_line = (if e then ''edited '' else []) @ ob_line ob, fi_edited = e\<rparr>)"

lemma observe_items:
  assumes "ob_id ob \<notin> set (sc_ids s)" and "map_of (sc_prints s) (ob_id ob) = map_of prints (ob_id ob)"
  shows "sc_items (observe parse_time digest seen seeding ob s) =
      sc_items s @ (if news parse_time digest seen seeding prints ob then [item_of digest prints ob] else [])"
    and "sc_ids (observe parse_time digest seen seeding ob s) = ob_id ob # sc_ids s"
    and "k \<noteq> ob_id ob \<Longrightarrow> map_of (sc_prints (observe parse_time digest seen seeding ob s)) k = map_of (sc_prints s) k"
  using assms by (auto simp: observe_def Let_def news_def item_of_def edited_since_def split: option.splits)

lemma scan_items:
  assumes "distinct (map ob_id obs)" and "\<forall>ob \<in> set obs. ob_id ob \<notin> set (sc_ids s) \<and> map_of (sc_prints s) (ob_id ob) = map_of prints (ob_id ob)"
  shows "sc_items (fold (observe parse_time digest seen seeding) obs s) =
    sc_items s @ map (item_of digest prints) (filter (news parse_time digest seen seeding prints) obs)"
  using assms
proof (induction obs arbitrary: s)
  case (Cons ob obs)
  let ?s = "observe parse_time digest seen seeding ob s"
  have here: "ob_id ob \<notin> set (sc_ids s)" "map_of (sc_prints s) (ob_id ob) = map_of prints (ob_id ob)" using Cons.prems(2) by simp_all
  note step = observe_items [OF here, where parse_time = parse_time and digest = digest and seen = seen and seeding = seeding]
  have "\<forall>o' \<in> set obs. ob_id o' \<notin> set (sc_ids ?s) \<and> map_of (sc_prints ?s) (ob_id o') = map_of prints (ob_id o')"
  proof
    fix u assume u: "u \<in> set obs"
    then have "ob_id u \<noteq> ob_id ob" using Cons.prems(1) by (metis distinct.simps(2) image_eqI list.set_map list.simps(9))
    then show "ob_id u \<notin> set (sc_ids ?s) \<and> map_of (sc_prints ?s) (ob_id u) = map_of prints (ob_id u)"
      using Cons.prems(2) u by (simp add: step(2,3))
  qed
  then have "sc_items (fold (observe parse_time digest seen seeding) obs ?s) =
    sc_items ?s @ map (item_of digest prints) (filter (news parse_time digest seen seeding prints) obs)"
    using Cons.IH Cons.prems(1) by simp
  then show ?case using step(1) by simp
qed simp


definition sample_watch :: pr_watch where
  "sample_watch = \<lparr>pw_id = ''w'', pw_session = ''s'', pw_project = ''p'', pw_number = 7, pw_cleanup = False, pw_head = ''abcdef0123'',
     pw_failures = [], pw_seen = Some [''c1''], pw_prints = Some [], pw_fetch_failures = 0, pw_degraded = False, pw_ready = None,
     pw_pr_updated = None, pw_conflict = None, pw_seq = 0, pw_pending = None, pw_not_found = 0, pw_created = ''t''\<rparr>"

definition sample_observation :: "string \<Rightarrow> observation" where
  "sample_observation i = \<lparr>ob_id = i, ob_at = None, ob_body = Some ''b'', ob_state = [], ob_reportable = True, ob_line = ''line''\<rparr>"


section \<open>Nothing is reported twice\<close>

lemma observe_ids: "set (sc_ids (observe parse_time digest seen seeding ob s)) = insert (ob_id ob) (set (sc_ids s))"
  by (auto simp: observe_def Let_def)

lemma observe_prints:
  "map_of (sc_prints (observe parse_time digest seen seeding ob s)) =
    (if ob_id ob \<in> set (sc_ids s) then map_of (sc_prints s)
     else (map_of (sc_prints s))(ob_id ob \<mapsto> feedback_fingerprint digest (ob_body ob) (ob_state ob)))"
  by (simp add: observe_def Let_def)

lemma observed_prints_stay:
  "k \<in> set (sc_ids s) \<Longrightarrow> map_of (sc_prints (fold (observe parse_time digest seen seeding) obs s)) k = map_of (sc_prints s) k"
  by (induction obs arbitrary: s) (auto simp: observe_ids observe_prints)

lemma observe_seen: "set (sc_seen s) \<subseteq> set (sc_seen (observe parse_time digest seen seeding ob s))"
  by (auto simp: observe_def Let_def)

lemma scan_seen: "set (sc_seen s) \<subseteq> set (sc_seen (fold (observe parse_time digest seen seeding) obs s))"
proof (induction obs arbitrary: s)
  case (Cons ob obs)
  then show ?case using observe_seen by fastforce
qed simp

lemma scan_sees:
  "set seen \<subseteq> set (sc_seen s) \<Longrightarrow> set (sc_ids s) \<subseteq> set (sc_seen s) \<Longrightarrow> ob \<in> set obs \<Longrightarrow>
   ob_id ob \<in> set (sc_seen (fold (observe parse_time digest seen seeding) obs s))"
proof (induction obs arbitrary: s)
  case (Cons u obs)
  let ?s = "observe parse_time digest seen seeding u s"
  have sub: "set seen \<subseteq> set (sc_seen ?s)" using Cons.prems(1) observe_seen by blast
  have own: "ob_id u \<in> set (sc_seen ?s)" using Cons.prems(1,2) by (auto simp: observe_def Let_def)
  then have "set (sc_ids ?s) \<subseteq> set (sc_seen ?s)" using Cons.prems(2) observe_seen [of s] unfolding observe_ids by blast
  then have rest: "ob \<in> set obs \<Longrightarrow> ob_id ob \<in> set (sc_seen (fold (observe parse_time digest seen seeding) obs ?s))"
    using Cons.IH [OF sub] by blast
  have "ob_id u \<in> set (sc_seen (fold (observe parse_time digest seen seeding) obs ?s))" using own scan_seen by blast
  then show ?case using rest Cons.prems(3) by (cases "ob = u") simp_all
qed simp

lemma rescan_is_silent:
  assumes "set (sc_ids s) = set (sc_ids s')"
    and "\<forall>ob \<in> set obs. ob_id ob \<in> set seen' \<and>
      map_of (sc_prints s') (ob_id ob) = map_of (sc_prints (fold (observe parse_time digest seen seeding) obs s)) (ob_id ob)"
  shows "sc_items (fold (observe parse_time digest seen' None) obs s') = sc_items s'"
  using assms
proof (induction obs arbitrary: s s')
  case (Cons ob obs)
  let ?s = "observe parse_time digest seen seeding ob s" and ?s' = "observe parse_time digest seen' None ob s'"
  let ?fin = "fold (observe parse_time digest seen seeding) obs ?s"
  have ids: "set (sc_ids ?s) = set (sc_ids ?s')" using Cons.prems(1) by (simp add: observe_ids)
  have known: "ob_id ob \<in> set seen'" using Cons.prems(2) by simp
  have at: "map_of (sc_prints s') (ob_id ob) = map_of (sc_prints ?fin) (ob_id ob)" using Cons.prems(2) by simp
  have stay: "map_of (sc_prints ?fin) (ob_id ob) = map_of (sc_prints ?s) (ob_id ob)" by (rule observed_prints_stay) (simp add: observe_ids)
  have same: "sc_items ?s' = sc_items s' \<and> map_of (sc_prints ?s') = map_of (sc_prints s')"
  proof (cases "ob_id ob \<in> set (sc_ids s)")
    case True
    then show ?thesis using Cons.prems(1) by (simp add: observe_def)
  next
    case False
    then have "map_of (sc_prints s') (ob_id ob) = Some (feedback_fingerprint digest (ob_body ob) (ob_state ob))"
      using at stay by (simp add: observe_prints)
    then show ?thesis using False known Cons.prems(1) by (auto simp: observe_def Let_def fun_eq_iff)
  qed
  have "\<forall>u \<in> set obs. ob_id u \<in> set seen' \<and> map_of (sc_prints ?s') (ob_id u) = map_of (sc_prints ?fin) (ob_id u)"
    using Cons.prems(2) same by simp
  from Cons.IH [OF ids this] show ?case using same by simp
qed simp

text \<open>A check run that has one entry in the rollup is reported once per failure.\<close>

definition failing_entry :: "rollup_entry \<Rightarrow> bool" where
  "failing_entry e \<longleftrightarrow> entry_check_state e \<in> {Check_Failure, Check_Cancelled}"

lemma check_loop_Cons:
  "check_loop head (e # es) seen failing =
    (if \<not> failing_entry e then check_loop head es (filter (\<lambda>s. s \<noteq> check_key e head) seen) failing
     else if check_key e head \<in> set seen \<or> check_key e head \<in> set (map fst failing) then check_loop head es seen failing
     else check_loop head es seen (failing @ [(check_key e head, check_line e)]))"
  by (simp add: Let_def failing_entry_def)

lemma check_loop_keeps_others:
  "check_key u head \<notin> (\<lambda>e. check_key e head) ` set es \<Longrightarrow> check_loop head es seen failing = (seen', failing') \<Longrightarrow>
   check_key u head \<in> set seen \<union> set (map fst failing) \<Longrightarrow> check_key u head \<in> set seen' \<union> set (map fst failing')"
  by (induction head es seen failing rule: check_loop.induct) (auto simp: Let_def split: if_splits)

lemma check_loop_covers:
  "distinct (map (\<lambda>e. check_key e head) es) \<Longrightarrow> check_loop head es seen failing = (seen', failing') \<Longrightarrow>
   \<forall>e \<in> set es. failing_entry e \<longrightarrow> check_key e head \<in> set seen' \<union> set (map fst failing')"
proof (induction head es seen failing rule: check_loop.induct)
  case (2 head e es seen failing)
  let ?key = "check_key e head"
  have out: "?key \<notin> (\<lambda>e. check_key e head) ` set es" and d: "distinct (map (\<lambda>e. check_key e head) es)" using "2.prems"(1) by auto
  show ?case
  proof (cases "failing_entry e")
    case False
    then have run: "check_loop head es (filter (\<lambda>s. s \<noteq> ?key) seen) failing = (seen', failing')"
      using "2.prems"(2) False by (simp only: check_loop_Cons not_False_eq_True if_True)
    have "\<forall>u \<in> set es. failing_entry u \<longrightarrow> check_key u head \<in> set seen' \<union> set (map fst failing')"
      using "2.IH"(1) [OF refl _ d run] False by (simp add: failing_entry_def)
    then show ?thesis using False by simp
  next
    case True
    show ?thesis
    proof (cases "?key \<in> set seen \<or> ?key \<in> set (map fst failing)")
      case k: True
      then have run: "check_loop head es seen failing = (seen', failing')"
        using "2.prems"(2) by (simp only: check_loop_Cons True k not_True_eq_False if_True if_False)
      have "\<forall>u \<in> set es. failing_entry u \<longrightarrow> check_key u head \<in> set seen' \<union> set (map fst failing')"
        using "2.IH"(2) [OF refl _ k d run] True by (simp add: failing_entry_def)
      moreover have "?key \<in> set seen' \<union> set (map fst failing')" by (rule check_loop_keeps_others [OF out run]) (use k in blast)
      ultimately show ?thesis by simp
    next
      case k: False
      then have run: "check_loop head es seen (failing @ [(?key, check_line e)]) = (seen', failing')"
        using "2.prems"(2) by (simp only: check_loop_Cons True k not_True_eq_False if_True if_False)
      have "\<forall>u \<in> set es. failing_entry u \<longrightarrow> check_key u head \<in> set seen' \<union> set (map fst failing')"
        using "2.IH"(3) [OF refl _ k d run] True by (simp add: failing_entry_def)
      moreover have "?key \<in> set seen' \<union> set (map fst failing')" by (rule check_loop_keeps_others [OF out run]) simp
      ultimately show ?thesis by simp
    qed
  qed
qed simp

lemma check_loop_silent:
  "distinct (map (\<lambda>e. check_key e head) es) \<Longrightarrow> \<forall>e \<in> set es. failing_entry e \<longrightarrow> check_key e head \<in> set seen \<Longrightarrow>
   snd (check_loop head es seen []) = []"
proof (induction es arbitrary: seen)
  case (Cons e es)
  have out: "check_key u head \<noteq> check_key e head" if u: "u \<in> set es" for u
    using Cons.prems(1) u by (metis distinct.simps(2) image_eqI list.set_map list.simps(9))
  show ?case
  proof (cases "failing_entry e")
    case True
    then have "check_key e head \<in> set seen" using Cons.prems(2) by simp
    then show ?thesis using Cons.IH [of seen] Cons.prems True by (simp add: Let_def failing_entry_def)
  next
    case False
    have "snd (check_loop head es (filter (\<lambda>s. s \<noteq> check_key e head) seen) []) = []"
      by (rule Cons.IH) (use Cons.prems out in auto)
    then show ?thesis using False by (simp add: Let_def failing_entry_def)
  qed
qed simp

definition rollup_keys :: "pr_watch_view \<Rightarrow> string \<Rightarrow> string list" where
  "rollup_keys v head = map (\<lambda>e. check_key e head) (case vw_rollup v of None \<Rightarrow> [] | Some es \<Rightarrow> es)"

lemma plan_checks_again:
  assumes "distinct (rollup_keys v head)" and "plan_checks v head seen = (s, t, seen')"
  shows "fst (plan_checks v head seen') = []"
proof -
  let ?es = "case vw_rollup v of None \<Rightarrow> [] | Some es \<Rightarrow> es"
  obtain kept_seen failing where run: "check_loop head ?es seen [] = (kept_seen, failing)" by (cases "check_loop head ?es seen []")
  have seen': "seen' = kept_seen @ map fst failing"
    using assms(2) run by (auto simp: plan_checks_def Let_def split: if_splits)
  have d: "distinct (map (\<lambda>e. check_key e head) ?es)" using assms(1) by (simp add: rollup_keys_def)
  have "\<forall>e \<in> set ?es. failing_entry e \<longrightarrow> check_key e head \<in> set seen'"
    using check_loop_covers [OF d run] unfolding seen' by simp
  then have "snd (check_loop head ?es seen' []) = []" by (rule check_loop_silent [OF d])
  then show ?thesis by (cases "check_loop head ?es seen' []") (simp add: plan_checks_def)
qed

lemma plan_conflict_again: "plan_conflict v prior = (s, t, now) \<Longrightarrow> fst (plan_conflict v now) = []"
proof (cases "observed_conflict v")
  case (Some a)
  assume "plan_conflict v prior = (s, t, now)"
  then have "now = Some a" unfolding plan_conflict_def Some by (cases a; cases prior) (auto simp: Let_def split: conflict_state.splits if_splits)
  then show ?thesis unfolding plan_conflict_def Some by (cases a) simp_all
qed (simp add: plan_conflict_def)

lemma plan_green_again: "plan_green v g head ready = (s, t, now) \<Longrightarrow> fst (plan_green v g head now) = []"
  by (auto simp: plan_green_def Let_def split: if_splits)

lemma scan_again:
  assumes "pw_seen w' \<noteq> None" and "cu_seen (current_cursors w') = sc_seen (scan_feedback parse_time digest w obs)"
    and "cu_prints (current_cursors w') = sc_prints (scan_feedback parse_time digest w obs)"
  shows "sc_items (scan_feedback parse_time digest w' obs) = []"
proof -
  let ?seeding = "if pw_seen w = None then parse_time (pw_created w) else None" and ?seen = "cu_seen (current_cursors w)"
  let ?s = "\<lparr>sc_ids = [], sc_prints = cu_prints (current_cursors w), sc_seen = ?seen, sc_items = []\<rparr>"
  let ?s' = "\<lparr>sc_ids = [], sc_prints = cu_prints (current_cursors w'), sc_seen = cu_seen (current_cursors w'), sc_items = []\<rparr>"
  have first: "scan_feedback parse_time digest w obs = fold (observe parse_time digest ?seen ?seeding) obs ?s"
    by (simp only: scan_feedback_def Let_def)
  have "ob_id ob \<in> set (cu_seen (current_cursors w'))" if ob: "ob \<in> set obs" for ob
    unfolding assms(2) first by (rule scan_sees [OF _ _ ob]) simp_all
  then have "sc_items (fold (observe parse_time digest (cu_seen (current_cursors w')) None) obs ?s') = sc_items ?s'"
    by (intro rescan_is_silent [where s = ?s and seen = ?seen and seeding = ?seeding]) (simp_all add: assms(3) first)
  then show ?thesis using assms(1) by (auto simp: scan_feedback_def Let_def)
qed

lemma plan_parts:
  assumes "plan_checks v (wp_head pr) (cu_failures (pass_cursors w pr v g)) = (s1, t1, failures)"
    and "plan_conflict v (pw_conflict w) = (s2, t2, conflict)"
    and "plan_feedback (sc_items (scan_feedback parse_time digest w (observations v g))) = (s3, t3)"
    and "plan_green v g (wp_head pr) (cu_ready (pass_cursors w pr v g)) = (s4, t4, ready)"
  shows "ps_cursors (plan_watch_pass parse_time digest w pr v None g cleanup) = (pass_cursors w pr v g)\<lparr>cu_failures := failures,
      cu_conflict := conflict, cu_seen := sc_seen (scan_feedback parse_time digest w (observations v g)),
      cu_prints := sc_prints (scan_feedback parse_time digest w (observations v g)), cu_ready := ready\<rparr>"
    and "ps_body (plan_watch_pass parse_time digest w pr v None g cleanup) = None \<longleftrightarrow> \<not> pw_degraded w \<and> s1 = [] \<and> s2 = [] \<and> s3 = [] \<and> s4 = []"
  unfolding plan_watch_pass_def Let_def option.case assms case_prod_conv finish_pass_def by auto

lemma stored_cursors:
  "current_cursors ((with_cursors c w)\<lparr>pw_seq := k, pw_pending := None\<rparr>) = c"
  by (cases c) (simp add: current_cursors_def with_cursors_def)

text \<open>C33: Nothing is reported twice: after a reading is stored, with or without a notice, the same reading again is silent, when
  no two checks of the rollup share a key.\<close>

theorem second_reading_is_silent:
  assumes "distinct (rollup_keys v (wp_head pr))"
    and "w' = (with_cursors (ps_cursors (plan_watch_pass parse_time digest w pr v None g cleanup)) w)\<lparr>pw_seq := k, pw_pending := None\<rparr>"
  shows "ps_body (plan_watch_pass parse_time digest w' pr v None g cleanup') = None"
proof -
  let ?c = "pass_cursors w pr v g" and ?scan = "scan_feedback parse_time digest w (observations v g)"
  obtain s1 t1 failures where p1: "plan_checks v (wp_head pr) (cu_failures ?c) = (s1, t1, failures)" by (metis prod_cases3)
  obtain s2 t2 conflict where p2: "plan_conflict v (pw_conflict w) = (s2, t2, conflict)" by (metis prod_cases3)
  obtain s3 t3 where p3: "plan_feedback (sc_items ?scan) = (s3, t3)" by fastforce
  obtain s4 t4 ready where p4: "plan_green v g (wp_head pr) (cu_ready ?c) = (s4, t4, ready)" by (metis prod_cases3)
  let ?stored = "?c\<lparr>cu_failures := failures, cu_conflict := conflict, cu_seen := sc_seen ?scan, cu_prints := sc_prints ?scan, cu_ready := ready\<rparr>"
  have cur: "current_cursors w' = ?stored" unfolding assms(2) plan_parts(1) [OF p1 p2 p3 p4] by (rule stored_cursors)
  have row: "pw_head w' = wp_head pr" "pw_failures w' = failures" "pw_conflict w' = conflict" "pw_ready w' = ready" "\<not> pw_degraded w'"
    "pw_seen w' \<noteq> None"
    unfolding assms(2) plan_parts(1) [OF p1 p2 p3 p4] by (simp_all add: with_cursors_def pass_cursors_def Let_def)
  have c': "cu_failures (pass_cursors w' pr v g) = failures" "cu_ready (pass_cursors w' pr v g) = ready"
    using row by (simp_all add: pass_cursors_def Let_def)
  have "sc_items (scan_feedback parse_time digest w' (observations v g)) = []"
    by (rule scan_again [OF row(6)]) (simp_all add: cur)
  then have q3: "plan_feedback (sc_items (scan_feedback parse_time digest w' (observations v g))) = ([], [])" by (simp add: plan_feedback_def)
  obtain u1 f1 where q1: "plan_checks v (wp_head pr) failures = ([], u1, f1)" using plan_checks_again [OF assms(1) p1] by (metis fst_conv prod_cases3)
  obtain u2 f2 where q2: "plan_conflict v conflict = ([], u2, f2)" using plan_conflict_again [OF p2] by (metis fst_conv prod_cases3)
  obtain u4 f4 where q4: "plan_green v g (wp_head pr) ready = ([], u4, f4)" using plan_green_again [OF p4] by (metis fst_conv prod_cases3)
  show ?thesis
    using plan_parts(2) [of v pr w' g, unfolded c' row(3), OF q1 q2 q3 q4] row(5) by simp
qed

text \<open>Two entries of one workflow and name, one failing and one not, are reported on every second pass: the second entry
  forgets what the first has recorded.\<close>

definition sample_entry :: "string \<Rightarrow> rollup_entry" where
  "sample_entry s = \<lparr>re_state = None, re_status = None, re_conclusion = Some s, re_name = Some ''test'', re_workflow = Some ''CI'', re_url = None\<rparr>"

definition sample_view :: pr_watch_view where
  "sample_view = \<lparr>vw_state = Some ''OPEN'', vw_head = Some ''abcdef0123'', vw_rollup = Some [sample_entry ''FAILURE''], vw_reviews = None,
     vw_comments = None, vw_requests = None, vw_updated = None, vw_merge_commit = None, vw_mergeable = Some ''MERGEABLE'', vw_base = None\<rparr>"

theorem second_reading_is_silent_witness:
  "ps_body (plan_watch_pass (\<lambda>_. None) (\<lambda>b. b)
     ((with_cursors (ps_cursors (plan_watch_pass (\<lambda>_. None) (\<lambda>b. b) sample_watch sample_state sample_view None None None)) sample_watch)
        \<lparr>pw_seq := 1, pw_pending := None\<rparr>) sample_state sample_view None None None) = None"
  by (rule second_reading_is_silent [OF _ refl]) (simp add: rollup_keys_def sample_view_def)

lemma shared_key_is_reported_again:
  "check_loop ''h'' [sample_entry ''FAILURE'', sample_entry ''SUCCESS''] [] [] = ([], [(''CI/test@h'', ''CI / test'')])"
  "check_loop ''h'' [sample_entry ''FAILURE'', sample_entry ''SUCCESS''] [''CI/test@h''] [] = ([], [])"
  by code_simp+

end
