(* ===== verification/PR_Watch_Safety.thy ===== *)
theory PR_Watch_Safety
  imports PR_Watch_Reports Inbox
begin

text \<open>
  The life of watches: ticks that read the table and work through it, each pass a list of writes and one delivery that an
  error or the end of the application cuts off anywhere, while chats watch, unwatch and are deleted.
\<close>

section \<open>The system\<close>

text \<open>\<open>no\<close> is the number a notice carries: the count of notices of its watch.\<close>

record staged_notice =
  sn_watch :: string
  sn_no :: nat
  sn_notice :: pending_pr_notice

record watch_pass_state =
  tp_watch :: pr_watch
  tp_archived :: bool
  tp_todo :: "watch_action list"

text \<open>Besides the tables: the watches the tick still has to visit, the pass under way, the ids ever used, the notices ever
  staged, those handed to the inbox, those an archived chat had no use for, and the watches a chat took back or lost.\<close>

record watch_system =
  wx_watches :: pr_watches
  wx_inbox :: inbox
  wx_queue :: "pr_watch list"
  wx_pass :: "watch_pass_state option"
  wx_used :: "string set"
  wx_staged :: "staged_notice list"
  wx_sent :: "pending_pr_notice set"
  wx_excused :: "pending_pr_notice set"
  wx_gone :: "string set"

definition MESSAGE_KIND :: string where "MESSAGE_KIND = ''message''"

definition watch_message :: "pr_watch \<Rightarrow> pending_pr_notice \<Rightarrow> new_message" where
  "watch_message w n = \<lparr>nm_id = pn_id n, nm_from = None, nm_to = pw_session w, nm_body = pn_body n, nm_kind = MESSAGE_KIND\<rparr>"

fun write_action :: "string \<Rightarrow> watch_action \<Rightarrow> pr_watches \<Rightarrow> pr_watches" where
  "write_action i (Set_Not_Found k) ws = set_pr_watch_not_found_count i k ws"
| "write_action i (Stage_Notice c n) ws = stage_pr_watch_notice i c n ws"
| "write_action i (Record_Failure k d n) ws = record_pr_watch_fetch_failure i k d n ws"
| "write_action i (Update_Cursors c) ws = update_pr_watch_cursors i c ws"
| "write_action i (Deliver_Notice n) ws = ws"
| "write_action i Clear_Notice ws = clear_pr_watch_notice i ws"
| "write_action i End_Watch ws = delete_pr_watch_by_id i ws"

fun deliver_action :: "string set \<Rightarrow> pr_watch \<Rightarrow> string \<Rightarrow> watch_action \<Rightarrow> inbox \<Rightarrow> argmax_error + bool \<times> inbox" where
  "deliver_action known w now (Deliver_Notice n) box = insert_session_message known (watch_message w n) now box"
| "deliver_action known w now a box = Inr (False, box)"

fun notice_of :: "watch_action \<Rightarrow> pending_pr_notice option" where
  "notice_of (Stage_Notice c n) = Some n"
| "notice_of (Record_Failure k d n) = map_option (\<lambda>n. n\<lparr>pn_ends := False\<rparr>) n"
| "notice_of _ = None"

definition newly_staged :: "string \<Rightarrow> watch_action \<Rightarrow> pr_watches \<Rightarrow> staged_notice list" where
  "newly_staged i a ws =
     (case (find (\<lambda>w. pw_id w = i) ws, notice_of a) of
        (Some w, Some n) \<Rightarrow> [\<lparr>sn_watch = i, sn_no = Suc (pw_seq w), sn_notice = n\<rparr>]
      | _ \<Rightarrow> [])"

definition now_sent :: "watch_action \<Rightarrow> pending_pr_notice set" where
  "now_sent a = (case a of Deliver_Notice n \<Rightarrow> {n} | _ \<Rightarrow> {})"

definition now_excused :: "string \<Rightarrow> bool \<Rightarrow> watch_action \<Rightarrow> pr_watches \<Rightarrow> pending_pr_notice set" where
  "now_excused i archived a ws =
     (if archived \<and> a \<in> {Clear_Notice, End_Watch} then {n. \<exists>w \<in> set ws. pw_id w = i \<and> pw_pending w = Some n} else {})"

definition pass_archived :: "argmax_error + watch_reading \<Rightarrow> bool" where
  "pass_archived reading = (case reading of Inl _ \<Rightarrow> False | Inr r \<Rightarrow> recipient_archived (rg_place_state r))"

inductive watch_step :: "(string \<Rightarrow> int option) \<Rightarrow> (char list \<Rightarrow> char list) \<Rightarrow> watch_system \<Rightarrow> watch_system \<Rightarrow> bool"
  for parse_time :: "string \<Rightarrow> int option" and digest :: "char list \<Rightarrow> char list" where
  tick: "wx_queue S = [] \<Longrightarrow> wx_pass S = None \<Longrightarrow>
    watch_step parse_time digest S (S\<lparr>wx_queue := list_pr_watches (wx_watches S)\<rparr>)"
| begin_pass: "wx_queue S = w # ws \<Longrightarrow> wx_pass S = None \<Longrightarrow>
    watch_step parse_time digest S (S\<lparr>wx_queue := ws, wx_pass := Some \<lparr>tp_watch = w, tp_archived = pass_archived reading,
      tp_todo = run_one_watch parse_time digest tick_start reading ans w\<rparr>\<rparr>)"
| act: "wx_pass S = Some p \<Longrightarrow> tp_todo p = a # as \<Longrightarrow>
    deliver_action known (tp_watch p) now a (wx_inbox S) = Inr (inserted, box) \<Longrightarrow>
    watch_step parse_time digest S (S\<lparr>wx_watches := write_action (pw_id (tp_watch p)) a (wx_watches S), wx_inbox := box,
      wx_pass := Some (p\<lparr>tp_todo := as\<rparr>), wx_staged := wx_staged S @ newly_staged (pw_id (tp_watch p)) a (wx_watches S),
      wx_sent := wx_sent S \<union> now_sent a,
      wx_excused := wx_excused S \<union> now_excused (pw_id (tp_watch p)) (tp_archived p) a (wx_watches S),
      wx_gone := wx_gone S \<union> (if a = End_Watch \<and> tp_archived p then {pw_id (tp_watch p)} else {})\<rparr>)"
| stop: "watch_step parse_time digest S (S\<lparr>wx_pass := None\<rparr>)"
| crash: "watch_step parse_time digest S (S\<lparr>wx_pass := None, wx_queue := []\<rparr>)"
| watch: "upsert_pr_watch known projects now i x p n cleanup head (wx_watches S) = Inr ws \<Longrightarrow> i \<notin> wx_used S \<Longrightarrow> CHR '':'' \<notin> set i \<Longrightarrow>
    watch_step parse_time digest S (S\<lparr>wx_watches := ws, wx_used := wx_used S \<union> pw_id ` set ws\<rparr>)"
| unwatch: "delete_pr_watch x p n (wx_watches S) = (removed, ws) \<Longrightarrow>
    watch_step parse_time digest S (S\<lparr>wx_watches := ws, wx_gone := wx_gone S \<union> pw_id ` (set (wx_watches S) - set ws)\<rparr>)"
| delete_chat: "watch_step parse_time digest S (S\<lparr>wx_watches := filter (\<lambda>w. pw_session w \<noteq> x) (wx_watches S),
      wx_gone := wx_gone S \<union> pw_id ` {w \<in> set (wx_watches S). pw_session w = x}\<rparr>)"
| mail: "watch_step parse_time digest S (S\<lparr>wx_inbox := box\<rparr>)"

definition start_watches :: watch_system where
  "start_watches = \<lparr>wx_watches = [], wx_inbox = [], wx_queue = [], wx_pass = None, wx_used = {}, wx_staged = [], wx_sent = {},
     wx_excused = {}, wx_gone = {}\<rparr>"

section \<open>Every plan is safe\<close>

definition notice_no :: "string \<Rightarrow> nat \<Rightarrow> string \<Rightarrow> string" where
  "notice_no i k h = ''pr-watch:'' @ i @ '':'' @ nat_text k @ '':'' @ h"

text \<open>What is left of a pass, for the notice its row holds and the number of the last one: a notice is staged only over none and
  under the next number, only the staged one is delivered, and the row loses it only when it was handed over or nobody reads it.\<close>

fun todo_ok :: "string \<Rightarrow> bool \<Rightarrow> pending_pr_notice set \<Rightarrow> pending_pr_notice option \<Rightarrow> nat \<Rightarrow> watch_action list \<Rightarrow> bool" where
  "todo_ok i archived sent p k [] = True"
| "todo_ok i archived sent p k (Deliver_Notice n # as) = (p = Some n \<and> todo_ok i archived (insert n sent) p k as)"
| "todo_ok i archived sent p k (Clear_Notice # as) = ((archived \<or> (\<exists>n. p = Some n \<and> n \<in> sent)) \<and> todo_ok i archived sent None k as)"
| "todo_ok i archived sent p k (End_Watch # as) = ((archived \<or> (\<exists>n. p = Some n \<and> n \<in> sent \<and> pn_ends n)) \<and> as = [])"
| "todo_ok i archived sent p k (a # as) =
     (case notice_of a of
        Some n \<Rightarrow> p = None \<and> (\<exists>h. pn_id n = notice_no i (Suc k) h) \<and> todo_ok i archived sent (Some n) (Suc k) as
      | None \<Rightarrow> ((\<forall>k d n. a = Record_Failure k d n \<longrightarrow> p = None) \<and> todo_ok i archived sent p k as))"

lemma deliver_staged_ok: "todo_ok i archived sent (Some n) k (deliver_staged n archived)"
  by (simp add: deliver_staged_def)

lemma notice_id_no: "notice_id w h = notice_no (pw_id w) (Suc (pw_seq w)) (take_chars 7 h)"
  by (simp add: notice_id_def notice_no_def)

lemma conclude_ok:
  assumes "pw_pending w = None"
  shows "todo_ok (pw_id w) archived sent None (pw_seq w) (conclude_pass w pr archived p)"
proof (cases "ps_body p")
  case None
  then show ?thesis by (simp add: conclude_pass_def)
next
  case (Some body)
  let ?n = "\<lparr>pn_id = notice_id w (wp_head pr), pn_body = body, pn_ends = ps_ends p\<rparr>"
  have "todo_ok (pw_id w) False sent (Some ?n) (Suc (pw_seq w)) (deliver_staged ?n False)" by (rule deliver_staged_ok)
  then show ?thesis using Some by (auto simp: conclude_pass_def Let_def notice_id_no)
qed

lemma failure_ok:
  assumes "pw_pending w = None"
  shows "todo_ok (pw_id w) archived sent None (pw_seq w) (record_fetch_failure w pr archived what e)"
  by (auto simp: record_fetch_failure_def Let_def notice_id_no deliver_staged_ok deliver_staged_def)

lemma read_ok:
  assumes "pw_pending w = None"
  shows "todo_ok (pw_id w) archived sent None (pw_seq w) (read_pr parse_time digest fb ans w pr archived)"
  unfolding read_pr_def Let_def using conclude_ok [OF assms] failure_ok [OF assms] by (auto split: sum.splits)

lemma plan_is_safe:
  "todo_ok (pw_id w) (pass_archived reading) sent (pw_pending w) (pw_seq w) (run_one_watch parse_time digest tick reading ans w)"
proof (cases reading)
  case (Inl e)
  then show ?thesis by (simp add: run_one_watch_def)
next
  case (Inr r)
  show ?thesis
  proof (cases "pw_pending w")
    case (Some n)
    then show ?thesis using Inr deliver_staged_ok by (simp add: run_one_watch_def pass_archived_def)
  next
    case None
    note ok = read_ok [OF None, of "recipient_archived (rg_place_state r)" sent parse_time digest]
    show ?thesis
      using None Inr ok deliver_staged_ok
      by (auto simp: run_one_watch_def pass_archived_def Let_def notice_id_no split: option.splits)
  qed
qed

lemma todo_ok_mono: "todo_ok i archived sent p k as \<Longrightarrow> sent \<subseteq> sent' \<Longrightarrow> todo_ok i archived sent' p k as"
proof (induction as arbitrary: sent sent' p k)
  case (Cons a as)
  note rest = Cons.IH [OF _ Cons.prems(2)]
  show ?case
  proof (cases a)
    case (Record_Failure c d n)
    then show ?thesis using Cons.prems(1) rest by (cases n) auto
  next
    case (Deliver_Notice n)
    then show ?thesis using Cons.prems(1) Cons.IH [OF _ insert_mono [OF Cons.prems(2)]] by auto
  next
    case Clear_Notice
    then show ?thesis using Cons.prems rest by auto
  next
    case End_Watch
    then show ?thesis using Cons.prems by auto
  qed (use Cons.prems(1) rest in simp_all)
qed simp

section \<open>One action on one row\<close>

fun action_row :: "watch_action \<Rightarrow> pr_watch \<Rightarrow> pr_watch" where
  "action_row (Set_Not_Found k) w = w\<lparr>pw_not_found := k\<rparr>"
| "action_row (Stage_Notice c n) w = (with_cursors c w)\<lparr>pw_seq := Suc (pw_seq w), pw_pending := Some n\<rparr>"
| "action_row (Record_Failure k d n) w = w\<lparr>pw_fetch_failures := k, pw_degraded := d,
     pw_seq := (if n = None then pw_seq w else Suc (pw_seq w)), pw_pending := map_option (\<lambda>n. n\<lparr>pn_ends := False\<rparr>) n\<rparr>"
| "action_row (Update_Cursors c) w = with_cursors c w"
| "action_row Clear_Notice w = w\<lparr>pw_pending := None\<rparr>"
| "action_row _ w = w"

lemma action_row_id [simp]: "pw_id (action_row a w) = pw_id w"
  by (cases a) (simp_all add: with_cursors_def)

lemma action_row_seq: "pw_seq (action_row a w) = (if notice_of a = None then pw_seq w else Suc (pw_seq w))"
  by (cases a) (simp_all add: with_cursors_def)

lemma action_row_pending: "notice_of a = Some n \<Longrightarrow> pw_pending (action_row a w) = Some n"
  by (cases a) (simp_all add: with_cursors_def)

lemma write_action_row:
  "write_action i a ws = (if a = End_Watch then filter (\<lambda>w. pw_id w \<noteq> i) ws else map (\<lambda>w. if pw_id w = i then action_row a w else w) ws)"
  by (cases a) (auto simp: set_pr_watch_not_found_count_def stage_pr_watch_notice_def record_pr_watch_fetch_failure_def
      update_pr_watch_cursors_def clear_pr_watch_notice_def delete_pr_watch_by_id_def write_watch_def with_cursors_def intro: map_idI [symmetric])

lemma todo_step:
  assumes "todo_ok i archived sent (pw_pending w) (pw_seq w) (a # as)" and "a \<noteq> End_Watch"
  shows "todo_ok i archived (sent \<union> now_sent a) (pw_pending (action_row a w)) (pw_seq (action_row a w)) as"
  using assms by (cases a) (auto simp: with_cursors_def now_sent_def split: option.splits)

text \<open>What the row loses.\<close>

lemma todo_loses:
  assumes "todo_ok i archived sent p k (a # as)" and "p = Some n"
  shows "a \<in> {Clear_Notice, End_Watch} \<Longrightarrow> archived \<or> n \<in> sent"
    and "a = End_Watch \<Longrightarrow> archived \<or> n \<in> sent \<and> pn_ends n"
    and "a \<notin> {Clear_Notice, End_Watch} \<Longrightarrow> pw_pending w = p \<Longrightarrow> pw_pending (action_row a w) = p"
    and "notice_of a = None"
  using assms by (cases a; auto simp: with_cursors_def split: option.splits)+

lemma todo_ends: "todo_ok i archived sent p k (End_Watch # as) \<Longrightarrow> archived \<or> (\<exists>n. p = Some n \<and> n \<in> sent \<and> pn_ends n)"
  by simp

lemma todo_stages:
  "todo_ok i archived sent p k (a # as) \<Longrightarrow> notice_of a = Some n \<Longrightarrow> p = None \<and> (\<exists>h. pn_id n = notice_no i (Suc k) h)"
  by (cases a) (auto split: option.splits)

section \<open>What every step keeps\<close>

definition rows_ok :: "pr_watches \<Rightarrow> string set \<Rightarrow> bool" where
  "rows_ok ws U \<longleftrightarrow> distinct (map pw_id ws) \<and> pw_id ` set ws \<subseteq> U"

definition pass_ok :: "pr_watches \<Rightarrow> string set \<Rightarrow> pending_pr_notice set \<Rightarrow> pr_watch list \<Rightarrow> watch_pass_state option \<Rightarrow> bool" where
  "pass_ok ws U sent q pass \<longleftrightarrow> (\<forall>p. pass = Some p \<longrightarrow> pw_id (tp_watch p) \<in> U \<and> pw_id (tp_watch p) \<notin> pw_id ` set q \<and>
     (\<forall>w \<in> set ws. pw_id w = pw_id (tp_watch p) \<longrightarrow> todo_ok (pw_id w) (tp_archived p) sent (pw_pending w) (pw_seq w) (tp_todo p)))"

definition queue_ok :: "pr_watches \<Rightarrow> string set \<Rightarrow> pr_watch list \<Rightarrow> bool" where
  "queue_ok ws U q \<longleftrightarrow> distinct (map pw_id q) \<and> pw_id ` set q \<subseteq> U \<and>
     (\<forall>v \<in> set q. \<forall>w \<in> set ws. pw_id w = pw_id v \<longrightarrow> pw_pending w = pw_pending v \<and> pw_seq w = pw_seq v)"

definition numbers_ok :: "pr_watches \<Rightarrow> string set \<Rightarrow> staged_notice list \<Rightarrow> bool" where
  "numbers_ok ws U staged \<longleftrightarrow> (\<forall>i \<in> U. CHR '':'' \<notin> set i) \<and> distinct (map (\<lambda>s. (sn_watch s, sn_no s)) staged) \<and>
     (\<forall>s \<in> set staged. sn_watch s \<in> U \<and> (\<exists>h. pn_id (sn_notice s) = notice_no (sn_watch s) (sn_no s) h) \<and>
        (\<forall>w \<in> set ws. pw_id w = sn_watch s \<longrightarrow> sn_no s \<le> pw_seq w))"

definition held :: "pr_watches \<Rightarrow> staged_notice \<Rightarrow> bool" where
  "held ws s \<longleftrightarrow> (\<exists>w \<in> set ws. pw_id w = sn_watch s \<and> pw_pending w = Some (sn_notice s))"

definition kept_ok :: "pr_watches \<Rightarrow> pending_pr_notice set \<Rightarrow> pending_pr_notice set \<Rightarrow> string set \<Rightarrow> staged_notice list \<Rightarrow> bool" where
  "kept_ok ws sent excused gone staged \<longleftrightarrow>
     (\<forall>s \<in> set staged. sn_notice s \<in> sent \<or> sn_notice s \<in> excused \<or> sn_watch s \<in> gone \<or> held ws s)"

definition backed_ok :: "pr_watches \<Rightarrow> staged_notice list \<Rightarrow> bool" where
  "backed_ok ws staged \<longleftrightarrow> (\<forall>w \<in> set ws. \<forall>n. pw_pending w = Some n \<longrightarrow> (\<exists>s \<in> set staged. sn_watch s = pw_id w \<and> sn_notice s = n))"

definition ended_ok :: "pr_watches \<Rightarrow> string set \<Rightarrow> pending_pr_notice set \<Rightarrow> string set \<Rightarrow> staged_notice list \<Rightarrow> bool" where
  "ended_ok ws U sent gone staged \<longleftrightarrow>
     (\<forall>i \<in> U. i \<in> pw_id ` set ws \<or> i \<in> gone \<or> (\<exists>s \<in> set staged. sn_watch s = i \<and> sn_notice s \<in> sent \<and> pn_ends (sn_notice s)))"

definition watch_inv :: "watch_system \<Rightarrow> bool" where
  "watch_inv S \<longleftrightarrow> rows_ok (wx_watches S) (wx_used S) \<and> pass_ok (wx_watches S) (wx_used S) (wx_sent S) (wx_queue S) (wx_pass S) \<and>
     queue_ok (wx_watches S) (wx_used S) (wx_queue S) \<and> numbers_ok (wx_watches S) (wx_used S) (wx_staged S) \<and>
     kept_ok (wx_watches S) (wx_sent S) (wx_excused S) (wx_gone S) (wx_staged S) \<and> backed_ok (wx_watches S) (wx_staged S) \<and>
     ended_ok (wx_watches S) (wx_used S) (wx_sent S) (wx_gone S) (wx_staged S)"

lemma watch_invI:
  assumes "rows_ok (wx_watches S) (wx_used S)" "pass_ok (wx_watches S) (wx_used S) (wx_sent S) (wx_queue S) (wx_pass S)"
    "queue_ok (wx_watches S) (wx_used S) (wx_queue S)" "numbers_ok (wx_watches S) (wx_used S) (wx_staged S)"
    "kept_ok (wx_watches S) (wx_sent S) (wx_excused S) (wx_gone S) (wx_staged S)" "backed_ok (wx_watches S) (wx_staged S)"
    "ended_ok (wx_watches S) (wx_used S) (wx_sent S) (wx_gone S) (wx_staged S)"
  shows "watch_inv S"
  using assms unfolding watch_inv_def by blast

lemma watch_invD:
  assumes "watch_inv S"
  shows "rows_ok (wx_watches S) (wx_used S)" "pass_ok (wx_watches S) (wx_used S) (wx_sent S) (wx_queue S) (wx_pass S)"
    "queue_ok (wx_watches S) (wx_used S) (wx_queue S)" "numbers_ok (wx_watches S) (wx_used S) (wx_staged S)"
    "kept_ok (wx_watches S) (wx_sent S) (wx_excused S) (wx_gone S) (wx_staged S)" "backed_ok (wx_watches S) (wx_staged S)"
    "ended_ok (wx_watches S) (wx_used S) (wx_sent S) (wx_gone S) (wx_staged S)"
  using assms unfolding watch_inv_def by blast+

lemma one_row: "rows_ok ws U \<Longrightarrow> w \<in> set ws \<Longrightarrow> v \<in> set ws \<Longrightarrow> pw_id w = pw_id v \<Longrightarrow> w = v"
  using inj_onD [of pw_id "set ws" w v] by (simp add: rows_ok_def distinct_map)

text \<open>An action on a watch that has no row any more.\<close>

lemma no_row_write: "\<forall>w \<in> set ws. pw_id w \<noteq> i \<Longrightarrow> write_action i a ws = ws"
  by (auto simp: write_action_row intro!: map_idI)

lemma no_row_staged: "\<forall>w \<in> set ws. pw_id w \<noteq> i \<Longrightarrow> newly_staged i a ws = []"
  by (auto simp: newly_staged_def find_None_iff split: option.splits dest: find_Some_mem)

text \<open>An action on a watch that has one.\<close>

lemma row_staged:
  assumes "rows_ok ws U" and "w \<in> set ws"
  shows "newly_staged (pw_id w) a ws = (case notice_of a of None \<Rightarrow> [] | Some n \<Rightarrow> [\<lparr>sn_watch = pw_id w, sn_no = Suc (pw_seq w), sn_notice = n\<rparr>])"
proof -
  have "find (\<lambda>v. pw_id v = pw_id w) ws \<noteq> None" unfolding find_None_iff using assms(2) by blast
  then obtain v where v: "find (\<lambda>v. pw_id v = pw_id w) ws = Some v" by blast
  then have "v \<in> set ws" "pw_id v = pw_id w" using find_Some_mem [OF v] by simp_all
  then have "v = w" by (rule one_row [OF assms(1) _ assms(2)])
  then show ?thesis using v by (simp add: newly_staged_def split: option.splits)
qed

lemma written_rows:
  "v \<in> set (write_action i a ws) \<Longrightarrow>
   (v \<in> set ws \<and> pw_id v \<noteq> i) \<or> (a \<noteq> End_Watch \<and> (\<exists>w \<in> set ws. pw_id w = i \<and> v = action_row a w))"
  by (auto simp: write_action_row split: if_splits)

lemma other_rows: "w \<in> set ws \<Longrightarrow> pw_id w \<noteq> i \<Longrightarrow> w \<in> set (write_action i a ws)"
  by (force simp: write_action_row)

lemma own_row: "w \<in> set ws \<Longrightarrow> pw_id w = i \<Longrightarrow> a \<noteq> End_Watch \<Longrightarrow> action_row a w \<in> set (write_action i a ws)"
  by (force simp: write_action_row)

section \<open>The action of a pass\<close>

lemma todo_of_pass:
  assumes "watch_inv S" and "wx_pass S = Some p" and "w \<in> set (wx_watches S)" and "pw_id w = pw_id (tp_watch p)"
  shows "todo_ok (pw_id w) (tp_archived p) (wx_sent S) (pw_pending w) (pw_seq w) (tp_todo p)"
  using watch_invD(2) [OF assms(1)] assms(2-4) unfolding pass_ok_def by blast

lemma rows_after: "rows_ok ws U \<Longrightarrow> rows_ok (write_action i a ws) U"
proof -
  assume ok: "rows_ok ws U"
  have "map pw_id (map (\<lambda>w. if pw_id w = i then action_row a w else w) ws) = map pw_id ws" by simp
  moreover have "pw_id ` set (write_action i a ws) \<subseteq> pw_id ` set ws" by (auto dest!: written_rows)
  ultimately show ?thesis using ok by (auto simp: rows_ok_def write_action_row distinct_map_filter simp del: map_map)
qed

lemma queue_after:
  assumes "queue_ok ws U q" and "i \<notin> pw_id ` set q"
  shows "queue_ok (write_action i a ws) U q"
proof -
  have "pw_pending w = pw_pending v \<and> pw_seq w = pw_seq v" if v: "v \<in> set q" and w: "w \<in> set (write_action i a ws)" and e: "pw_id w = pw_id v" for v w
  proof -
    have "pw_id w \<noteq> i" using assms(2) v e by (metis imageI)
    then have "w \<in> set ws" using written_rows [OF w] by auto
    then show ?thesis using assms(1) v e unfolding queue_ok_def by blast
  qed
  then show ?thesis using assms(1) unfolding queue_ok_def by blast
qed

lemma pass_after:
  assumes inv: "watch_inv S" and p: "wx_pass S = Some p" and todo: "tp_todo p = a # as"
  shows "pass_ok (write_action (pw_id (tp_watch p)) a (wx_watches S)) (wx_used S) (wx_sent S \<union> now_sent a) (wx_queue S) (Some (p\<lparr>tp_todo := as\<rparr>))"
  unfolding pass_ok_def
proof (intro allI impI)
  fix r assume "Some (p\<lparr>tp_todo := as\<rparr>) = Some r"
  then have r: "tp_watch r = tp_watch p" "tp_archived r = tp_archived p" "tp_todo r = as" by auto
  have old: "pw_id (tp_watch p) \<in> wx_used S \<and> pw_id (tp_watch p) \<notin> pw_id ` set (wx_queue S)"
    using watch_invD(2) [OF inv] p unfolding pass_ok_def by blast
  have "todo_ok (pw_id v) (tp_archived p) (wx_sent S \<union> now_sent a) (pw_pending v) (pw_seq v) as"
    if v: "v \<in> set (write_action (pw_id (tp_watch p)) a (wx_watches S))" "pw_id v = pw_id (tp_watch p)" for v
  proof -
    obtain w where w: "w \<in> set (wx_watches S)" "pw_id w = pw_id (tp_watch p)" "v = action_row a w" "a \<noteq> End_Watch"
      using written_rows [OF v(1)] v(2) by blast
    have "todo_ok (pw_id w) (tp_archived p) (wx_sent S) (pw_pending w) (pw_seq w) (a # as)"
      using todo_of_pass [OF inv p w(1,2)] todo by simp
    then show ?thesis using todo_step w(3,4) by simp
  qed
  then show "pw_id (tp_watch r) \<in> wx_used S \<and> pw_id (tp_watch r) \<notin> pw_id ` set (wx_queue S) \<and>
     (\<forall>w \<in> set (write_action (pw_id (tp_watch p)) a (wx_watches S)). pw_id w = pw_id (tp_watch r) \<longrightarrow>
        todo_ok (pw_id w) (tp_archived r) (wx_sent S \<union> now_sent a) (pw_pending w) (pw_seq w) (tp_todo r))"
    using old unfolding r by blast
qed

text \<open>What the rows and the staged notices become, when the watch has a row.\<close>

lemma staged_after:
  assumes rows: "rows_ok ws U" and w: "w \<in> set ws" and todo: "todo_ok (pw_id w) ar sent (pw_pending w) (pw_seq w) (a # as)"
  shows "s \<in> set (newly_staged (pw_id w) a ws) \<Longrightarrow>
    sn_watch s = pw_id w \<and> sn_no s = Suc (pw_seq w) \<and> notice_of a = Some (sn_notice s) \<and> pw_pending w = None \<and>
    (\<exists>h. pn_id (sn_notice s) = notice_no (pw_id w) (Suc (pw_seq w)) h)"
  using todo_stages [OF todo] unfolding row_staged [OF rows w] by (cases "notice_of a") auto

lemma numbers_after:
  assumes n: "numbers_ok ws U staged" and rows: "rows_ok ws U" and w: "w \<in> set ws"
    and todo: "todo_ok (pw_id w) ar sent (pw_pending w) (pw_seq w) (a # as)"
  shows "numbers_ok (write_action (pw_id w) a ws) U (staged @ newly_staged (pw_id w) a ws)"
proof -
  have small: "sn_no s \<le> pw_seq w" if "s \<in> set staged" "sn_watch s = pw_id w" for s
    using n w that unfolding numbers_ok_def by metis
  have "distinct (map (\<lambda>s. (sn_watch s, sn_no s)) (staged @ newly_staged (pw_id w) a ws))"
  proof (cases "notice_of a")
    case None
    then show ?thesis using n row_staged [OF rows w] unfolding numbers_ok_def by simp
  next
    case (Some m)
    have "(pw_id w, Suc (pw_seq w)) \<notin> (\<lambda>s. (sn_watch s, sn_no s)) ` set staged" using small by force
    then show ?thesis using Some n row_staged [OF rows w] unfolding numbers_ok_def by simp
  qed
  moreover have "sn_watch s \<in> U \<and> (\<exists>h. pn_id (sn_notice s) = notice_no (sn_watch s) (sn_no s) h)"
    if s: "s \<in> set (staged @ newly_staged (pw_id w) a ws)" for s
  proof (cases "s \<in> set staged")
    case True
    then show ?thesis using n unfolding numbers_ok_def by blast
  next
    case False
    then have "s \<in> set (newly_staged (pw_id w) a ws)" using s by simp
    then show ?thesis using staged_after [OF rows w todo] rows w unfolding rows_ok_def by auto
  qed
  moreover have "sn_no s \<le> pw_seq v"
    if s: "s \<in> set (staged @ newly_staged (pw_id w) a ws)" and v: "v \<in> set (write_action (pw_id w) a ws)" and e: "pw_id v = sn_watch s" for s v
  proof (cases "pw_id v = pw_id w")
    case True
    then obtain u where "u \<in> set ws" "pw_id u = pw_id w" "v = action_row a u" using written_rows [OF v] by blast
    then have v': "v = action_row a w" using one_row [OF rows _ w] by blast
    show ?thesis
    proof (cases "s \<in> set staged")
      case True
      then have "sn_no s \<le> pw_seq w" using small e \<open>pw_id v = pw_id w\<close> by simp
      then show ?thesis unfolding v' action_row_seq by simp
    next
      case False
      then have "s \<in> set (newly_staged (pw_id w) a ws)" using s by simp
      then show ?thesis using staged_after [OF rows w todo] unfolding v' action_row_seq by simp
    qed
  next
    case False
    then have old: "v \<in> set ws" using written_rows [OF v] by auto
    have "s \<in> set staged" using s staged_after [OF rows w todo, of s] e False by auto
    then show ?thesis using n old e unfolding numbers_ok_def by blast
  qed
  ultimately show ?thesis using n unfolding numbers_ok_def by blast
qed

lemma kept_after:
  assumes k: "kept_ok ws sent exc gone staged" and rows: "rows_ok ws U" and w: "w \<in> set ws"
    and todo: "todo_ok (pw_id w) ar sent (pw_pending w) (pw_seq w) (a # as)"
  shows "kept_ok (write_action (pw_id w) a ws) (sent \<union> now_sent a) (exc \<union> now_excused (pw_id w) ar a ws) (gone \<union> G)
    (staged @ newly_staged (pw_id w) a ws)"
  unfolding kept_ok_def
proof
  fix s assume s: "s \<in> set (staged @ newly_staged (pw_id w) a ws)"
  let ?goal = "sn_notice s \<in> sent \<union> now_sent a \<or> sn_notice s \<in> exc \<union> now_excused (pw_id w) ar a ws \<or> sn_watch s \<in> gone \<union> G \<or> held (write_action (pw_id w) a ws) s"
  show ?goal
  proof (cases "s \<in> set (newly_staged (pw_id w) a ws)")
    case True
    note new = staged_after [OF rows w todo True]
    have "a \<noteq> End_Watch" using new by auto
    then have "action_row a w \<in> set (write_action (pw_id w) a ws)" using own_row [OF w] by blast
    moreover have "pw_pending (action_row a w) = Some (sn_notice s)" using new action_row_pending by blast
    ultimately show ?thesis using new unfolding held_def by (metis action_row_id)
  next
    case False
    then have old: "s \<in> set staged" using s by simp
    show ?thesis
    proof (cases "held ws s \<and> sn_notice s \<notin> sent")
      case False
      then show ?thesis using k old unfolding kept_ok_def by blast
    next
      case True
      then obtain v where v: "v \<in> set ws" "pw_id v = sn_watch s" "pw_pending v = Some (sn_notice s)" unfolding held_def by blast
      show ?thesis
      proof (cases "pw_id v = pw_id w")
        case same: True
        then have vw: "v = w" using one_row [OF rows v(1) w] by blast
        note loses = todo_loses [OF todo v(3) [unfolded vw]]
        show ?thesis
        proof (cases "a \<in> {Clear_Notice, End_Watch}")
          case gone: True
          then have "ar" using loses(1) True by blast
          then have "sn_notice s \<in> now_excused (pw_id w) ar a ws" using gone v vw w unfolding now_excused_def by auto
          then show ?thesis by blast
        next
          case stays: False
          have "action_row a w \<in> set (write_action (pw_id w) a ws)" by (rule own_row [OF w]) (use stays in auto)
          moreover have "pw_pending (action_row a w) = Some (sn_notice s)" using loses(3) [OF stays] v(3) vw by simp
          ultimately show ?thesis using v(2) vw unfolding held_def by (metis action_row_id)
        qed
      next
        case other: False
        then have "v \<in> set (write_action (pw_id w) a ws)" using other_rows [OF v(1)] by blast
        then show ?thesis using v unfolding held_def by blast
      qed
    qed
  qed
qed

lemma backed_after:
  assumes b: "backed_ok ws staged" and rows: "rows_ok ws U" and w: "w \<in> set ws"
    and todo: "todo_ok (pw_id w) ar sent (pw_pending w) (pw_seq w) (a # as)"
  shows "backed_ok (write_action (pw_id w) a ws) (staged @ newly_staged (pw_id w) a ws)"
  unfolding backed_ok_def
proof (intro ballI allI impI)
  fix v n assume v: "v \<in> set (write_action (pw_id w) a ws)" and n: "pw_pending v = Some n"
  show "\<exists>s \<in> set (staged @ newly_staged (pw_id w) a ws). sn_watch s = pw_id v \<and> sn_notice s = n"
  proof (cases "pw_id v = pw_id w")
    case False
    then have "v \<in> set ws" using written_rows [OF v] by auto
    then show ?thesis using b n unfolding backed_ok_def by auto
  next
    case True
    then obtain u where "u \<in> set ws" "pw_id u = pw_id w" "v = action_row a u" "a \<noteq> End_Watch" using written_rows [OF v] by blast
    then have v': "v = action_row a w" and ne: "a \<noteq> End_Watch" using one_row [OF rows _ w] by blast+
    show ?thesis
    proof (cases "notice_of a")
      case (Some m)
      then have "m = n" using n action_row_pending unfolding v' by simp
      then show ?thesis using Some row_staged [OF rows w] unfolding v' by simp
    next
      case None
      have "pw_pending w = Some n" using n todo None ne unfolding v' by (cases a) (auto simp: with_cursors_def)
      then show ?thesis using b w unfolding v' backed_ok_def by auto
    qed
  qed
qed

lemma ended_after:
  assumes e: "ended_ok ws U sent gone staged" and b: "backed_ok ws staged" and w: "w \<in> set ws"
    and todo: "todo_ok (pw_id w) ar sent (pw_pending w) (pw_seq w) (a # as)"
  shows "ended_ok (write_action (pw_id w) a ws) U (sent \<union> now_sent a)
    (gone \<union> (if a = End_Watch \<and> ar then {pw_id w} else {})) (staged @ newly_staged (pw_id w) a ws)"
  unfolding ended_ok_def
proof
  fix i assume i: "i \<in> U"
  let ?gone = "gone \<union> (if a = End_Watch \<and> ar then {pw_id w} else {})"
  have old: "i \<in> pw_id ` set ws \<or> i \<in> gone \<or> (\<exists>s \<in> set staged. sn_watch s = i \<and> sn_notice s \<in> sent \<and> pn_ends (sn_notice s))"
    using e i unfolding ended_ok_def by blast
  have "i \<in> pw_id ` set (write_action (pw_id w) a ws) \<or> i \<in> ?gone \<or> (\<exists>s \<in> set staged. sn_watch s = i \<and> sn_notice s \<in> sent \<and> pn_ends (sn_notice s))"
  proof (cases "i = pw_id w")
    case False
    have "i \<in> pw_id ` set ws \<Longrightarrow> i \<in> pw_id ` set (write_action (pw_id w) a ws)" using other_rows False by blast
    then show ?thesis using old by blast
  next
    case True
    show ?thesis
    proof (cases "a = End_Watch \<and> \<not> ar")
      case False
      have "a \<noteq> End_Watch \<Longrightarrow> i \<in> pw_id ` set (write_action (pw_id w) a ws)"
        using own_row [OF w refl] True by (metis action_row_id imageI)
      then show ?thesis using False True by auto
    next
      case over: True
      then obtain n where "pw_pending w = Some n" "n \<in> sent" "pn_ends n" using todo_ends [of "pw_id w"] todo by blast
      then show ?thesis using b w True unfolding backed_ok_def by blast
    qed
  qed
  then show "i \<in> pw_id ` set (write_action (pw_id w) a ws) \<or> i \<in> ?gone \<or>
    (\<exists>s \<in> set (staged @ newly_staged (pw_id w) a ws). sn_watch s = i \<and> sn_notice s \<in> sent \<union> now_sent a \<and> pn_ends (sn_notice s))"
    by auto
qed

lemma kept_mono: "kept_ok ws sent exc gone staged \<Longrightarrow> sent \<subseteq> sent' \<Longrightarrow> gone \<subseteq> gone' \<Longrightarrow> kept_ok ws sent' exc gone' staged"
  unfolding kept_ok_def by blast

lemma ended_mono: "ended_ok ws U sent gone staged \<Longrightarrow> sent \<subseteq> sent' \<Longrightarrow> gone \<subseteq> gone' \<Longrightarrow> ended_ok ws U sent' gone' staged"
  unfolding ended_ok_def by blast

lemma act_keeps:
  assumes inv: "watch_inv S" and p: "wx_pass S = Some p" and todo: "tp_todo p = a # as"
  shows "watch_inv (S\<lparr>wx_watches := write_action (pw_id (tp_watch p)) a (wx_watches S), wx_inbox := box,
      wx_pass := Some (p\<lparr>tp_todo := as\<rparr>), wx_staged := wx_staged S @ newly_staged (pw_id (tp_watch p)) a (wx_watches S),
      wx_sent := wx_sent S \<union> now_sent a,
      wx_excused := wx_excused S \<union> now_excused (pw_id (tp_watch p)) (tp_archived p) a (wx_watches S),
      wx_gone := wx_gone S \<union> (if a = End_Watch \<and> tp_archived p then {pw_id (tp_watch p)} else {})\<rparr>)"
proof -
  let ?i = "pw_id (tp_watch p)" and ?ws = "wx_watches S"
  let ?G = "if a = End_Watch \<and> tp_archived p then {?i} else {}"
  note inv' = watch_invD [OF inv]
  have q: "?i \<notin> pw_id ` set (wx_queue S)" using inv'(2) p unfolding pass_ok_def by blast
  have "numbers_ok (write_action ?i a ?ws) (wx_used S) (wx_staged S @ newly_staged ?i a ?ws) \<and>
    kept_ok (write_action ?i a ?ws) (wx_sent S \<union> now_sent a) (wx_excused S \<union> now_excused ?i (tp_archived p) a ?ws) (wx_gone S \<union> ?G)
      (wx_staged S @ newly_staged ?i a ?ws) \<and>
    backed_ok (write_action ?i a ?ws) (wx_staged S @ newly_staged ?i a ?ws) \<and>
    ended_ok (write_action ?i a ?ws) (wx_used S) (wx_sent S \<union> now_sent a) (wx_gone S \<union> ?G) (wx_staged S @ newly_staged ?i a ?ws)"
  proof (cases "\<exists>w \<in> set ?ws. pw_id w = ?i")
    case True
    then obtain w where w: "w \<in> set ?ws" "pw_id w = ?i" by blast
    have t: "todo_ok (pw_id w) (tp_archived p) (wx_sent S) (pw_pending w) (pw_seq w) (a # as)" using todo_of_pass [OF inv p w] todo by simp
    show ?thesis
      unfolding w(2) [symmetric]
      using numbers_after [OF inv'(4,1) w(1) t] kept_after [OF inv'(5,1) w(1) t] backed_after [OF inv'(6,1) w(1) t]
        ended_after [OF inv'(7,6) w(1) t] by blast
  next
    case False
    then have no: "\<forall>w \<in> set ?ws. pw_id w \<noteq> ?i" by blast
    have none: "now_excused ?i (tp_archived p) a ?ws = {}" using no unfolding now_excused_def by auto
    show ?thesis
      unfolding no_row_write [OF no] no_row_staged [OF no] none append_Nil2 Un_empty_right
      by (intro conjI inv'(4,6) kept_mono [OF inv'(5) Un_upper1 Un_upper1] ended_mono [OF inv'(7) Un_upper1 Un_upper1])
  qed
  then show ?thesis
    using rows_after [OF inv'(1)] pass_after [OF inv p todo] queue_after [OF inv'(3) q] by (intro watch_invI) simp_all
qed

section \<open>The other steps\<close>

lemma tick_keeps:
  assumes inv: "watch_inv S" and "wx_pass S = None"
  shows "watch_inv (S\<lparr>wx_queue := list_pr_watches (wx_watches S)\<rparr>)"
proof -
  note inv' = watch_invD [OF inv]
  have d: "distinct (map pw_id (list_pr_watches (wx_watches S)))"
    using inv'(1) by (simp add: list_pr_watches_def rows_ok_def distinct_map)
  have m: "set (list_pr_watches (wx_watches S)) = set (wx_watches S)" by (simp add: list_pr_watches_def)
  have "pw_pending w = pw_pending v \<and> pw_seq w = pw_seq v"
    if v: "v \<in> set (wx_watches S)" and w: "w \<in> set (wx_watches S)" and e: "pw_id w = pw_id v" for v w
    using one_row [OF inv'(1) w v e] by simp
  then have "queue_ok (wx_watches S) (wx_used S) (list_pr_watches (wx_watches S))"
    using d inv'(1) unfolding queue_ok_def m rows_ok_def by blast
  then show ?thesis using inv' assms(2) by (intro watch_invI) (simp_all add: pass_ok_def)
qed

lemma begin_keeps:
  assumes inv: "watch_inv S" and q: "wx_queue S = w # ws"
  shows "watch_inv (S\<lparr>wx_queue := ws, wx_pass := Some \<lparr>tp_watch = w, tp_archived = pass_archived reading,
      tp_todo = run_one_watch parse_time digest tick_start reading ans w\<rparr>\<rparr>)"
proof -
  note inv' = watch_invD [OF inv]
  have "pass_ok (wx_watches S) (wx_used S) (wx_sent S) ws (Some \<lparr>tp_watch = w, tp_archived = pass_archived reading,
      tp_todo = run_one_watch parse_time digest tick_start reading ans w\<rparr>)"
    unfolding pass_ok_def
  proof (intro allI impI)
    fix p assume "Some \<lparr>tp_watch = w, tp_archived = pass_archived reading, tp_todo = run_one_watch parse_time digest tick_start reading ans w\<rparr> = Some p"
    then have p: "tp_watch p = w" "tp_archived p = pass_archived reading" "tp_todo p = run_one_watch parse_time digest tick_start reading ans w" by auto
    have "todo_ok (pw_id v) (pass_archived reading) (wx_sent S) (pw_pending v) (pw_seq v) (run_one_watch parse_time digest tick_start reading ans w)"
      if v: "v \<in> set (wx_watches S)" "pw_id v = pw_id w" for v
    proof -
      have "pw_pending v = pw_pending w \<and> pw_seq v = pw_seq w" using inv'(3) q v unfolding queue_ok_def by simp
      then show ?thesis using plan_is_safe v(2) by simp
    qed
    moreover have "pw_id w \<in> wx_used S \<and> pw_id w \<notin> pw_id ` set ws" using inv'(3) q unfolding queue_ok_def by simp
    ultimately show "pw_id (tp_watch p) \<in> wx_used S \<and> pw_id (tp_watch p) \<notin> pw_id ` set ws \<and> (\<forall>w \<in> set (wx_watches S).
      pw_id w = pw_id (tp_watch p) \<longrightarrow> todo_ok (pw_id w) (tp_archived p) (wx_sent S) (pw_pending w) (pw_seq w) (tp_todo p))"
      unfolding p by blast
  qed
  moreover have "queue_ok (wx_watches S) (wx_used S) ws" using inv'(3) q unfolding queue_ok_def by simp
  ultimately show ?thesis using inv' by (intro watch_invI) simp_all
qed

lemma crash_keeps:
  assumes inv: "watch_inv S"
  shows "watch_inv (S\<lparr>wx_pass := None\<rparr>)" and "watch_inv (S\<lparr>wx_pass := None, wx_queue := []\<rparr>)"
  using watch_invD [OF inv] by (auto intro!: watch_invI simp: pass_ok_def queue_ok_def)

text \<open>Rows that go.\<close>

lemma fewer_rows_keep:
  assumes inv: "watch_inv S" and sub: "ws = filter P (wx_watches S)"
  shows "watch_inv (S\<lparr>wx_watches := ws, wx_gone := wx_gone S \<union> pw_id ` (set (wx_watches S) - set ws)\<rparr>)"
proof -
  note inv' = watch_invD [OF inv]
  have sub': "set ws \<subseteq> set (wx_watches S)" using sub by auto
  have "rows_ok ws (wx_used S)" using inv'(1) sub unfolding rows_ok_def by (auto simp: distinct_map_filter)
  moreover have "pass_ok ws (wx_used S) (wx_sent S) (wx_queue S) (wx_pass S)" using inv'(2) sub' unfolding pass_ok_def by blast
  moreover have "queue_ok ws (wx_used S) (wx_queue S)" using inv'(3) sub' unfolding queue_ok_def by blast
  moreover have "numbers_ok ws (wx_used S) (wx_staged S)" using inv'(4) sub' unfolding numbers_ok_def by blast
  moreover have "kept_ok ws (wx_sent S) (wx_excused S) (wx_gone S \<union> pw_id ` (set (wx_watches S) - set ws)) (wx_staged S)"
    unfolding kept_ok_def
  proof
    fix s assume s: "s \<in> set (wx_staged S)"
    have "held (wx_watches S) s \<Longrightarrow> held ws s \<or> sn_watch s \<in> pw_id ` (set (wx_watches S) - set ws)" unfolding held_def by (metis DiffI imageI)
    then show "sn_notice s \<in> wx_sent S \<or> sn_notice s \<in> wx_excused S \<or> sn_watch s \<in> wx_gone S \<union> pw_id ` (set (wx_watches S) - set ws) \<or> held ws s"
      using inv'(5) s unfolding kept_ok_def by blast
  qed
  moreover have "backed_ok ws (wx_staged S)" using inv'(6) sub' unfolding backed_ok_def by blast
  moreover have "ended_ok ws (wx_used S) (wx_sent S) (wx_gone S \<union> pw_id ` (set (wx_watches S) - set ws)) (wx_staged S)"
    unfolding ended_ok_def
  proof
    fix i assume i: "i \<in> wx_used S"
    have "i \<in> pw_id ` set (wx_watches S) \<Longrightarrow> i \<in> pw_id ` set ws \<or> i \<in> pw_id ` (set (wx_watches S) - set ws)" by blast
    then show "i \<in> pw_id ` set ws \<or> i \<in> wx_gone S \<union> pw_id ` (set (wx_watches S) - set ws) \<or>
      (\<exists>s \<in> set (wx_staged S). sn_watch s = i \<and> sn_notice s \<in> wx_sent S \<and> pn_ends (sn_notice s))"
      using inv'(7) i unfolding ended_ok_def by blast
  qed
  ultimately show ?thesis by (intro watch_invI) simp_all
qed

lemma upserted:
  assumes "upsert_pr_watch known projects now i x p n cleanup head ws = Inr ws'"
  shows "(\<exists>f. ws' = map f ws \<and> (\<forall>w. pw_id (f w) = pw_id w \<and> pw_pending (f w) = pw_pending w \<and> pw_seq (f w) = pw_seq w)) \<or>
    (\<exists>v. ws' = ws @ [v] \<and> pw_id v = i \<and> pw_pending v = None)"
proof (cases "list_ex (same_watch x p n) ws")
  case True
  then have "ws' = map (\<lambda>w. if same_watch x p n w then w\<lparr>pw_cleanup := cleanup\<rparr> else w) ws"
    using assms by (simp add: upsert_pr_watch_def split: if_splits)
  then show ?thesis by (intro disjI1 exI [where x = "\<lambda>w. if same_watch x p n w then w\<lparr>pw_cleanup := cleanup\<rparr> else w"]) simp
next
  case False
  then show ?thesis using assms by (auto simp: upsert_pr_watch_def split: if_splits)
qed

lemma watch_keeps:
  assumes inv: "watch_inv S" and run: "upsert_pr_watch known projects now i x p n cleanup head (wx_watches S) = Inr ws"
    and new: "i \<notin> wx_used S" and colon: "CHR '':'' \<notin> set i"
  shows "watch_inv (S\<lparr>wx_watches := ws, wx_used := wx_used S \<union> pw_id ` set ws\<rparr>)"
  using upserted [OF run]
proof (elim disjE exE conjE)
  fix f assume ws: "ws = map f (wx_watches S)" and f: "\<forall>w. pw_id (f w) = pw_id w \<and> pw_pending (f w) = pw_pending w \<and> pw_seq (f w) = pw_seq w"
  note inv' = watch_invD [OF inv]
  have ids: "pw_id ` set ws = pw_id ` set (wx_watches S)" "map pw_id ws = map pw_id (wx_watches S)" using f by (auto simp: ws image_image)
  have U: "wx_used S \<union> pw_id ` set ws = wx_used S" using inv'(1) unfolding ids rows_ok_def by blast
  have h: "held (map f (wx_watches S)) s \<longleftrightarrow> held (wx_watches S) s" for s using f unfolding held_def by auto
  show ?thesis
    unfolding U using inv' f
    by (intro watch_invI) (simp_all add: rows_ok_def pass_ok_def queue_ok_def numbers_ok_def kept_ok_def backed_ok_def ended_ok_def h ws image_image comp_def)
next
  fix v assume ws: "ws = wx_watches S @ [v]" and v: "pw_id v = i" "pw_pending v = None"
  note inv' = watch_invD [OF inv]
  have U: "wx_used S \<union> pw_id ` set ws = insert i (wx_used S)" using inv'(1) v(1) unfolding ws rows_ok_def by auto
  have "rows_ok ws (insert i (wx_used S))" using inv'(1) new v(1) unfolding ws rows_ok_def by auto
  moreover have "pass_ok ws (insert i (wx_used S)) (wx_sent S) (wx_queue S) (wx_pass S)"
    using inv'(2) new v(1) unfolding ws pass_ok_def by auto
  moreover have "queue_ok ws (insert i (wx_used S)) (wx_queue S)"
    using inv'(3) new v(1) unfolding ws queue_ok_def by auto
  moreover have "numbers_ok ws (insert i (wx_used S)) (wx_staged S)"
    using inv'(4) new v(1) colon unfolding ws numbers_ok_def by auto
  moreover have "kept_ok ws (wx_sent S) (wx_excused S) (wx_gone S) (wx_staged S)"
    using inv'(5) unfolding ws kept_ok_def held_def by auto
  moreover have "backed_ok ws (wx_staged S)" using inv'(6) v(2) unfolding ws backed_ok_def by auto
  moreover have "ended_ok ws (insert i (wx_used S)) (wx_sent S) (wx_gone S) (wx_staged S)"
    using inv'(7) v(1) unfolding ws ended_ok_def by auto
  ultimately show ?thesis unfolding U by (intro watch_invI) simp_all
qed

lemma mail_keeps: "watch_inv S \<Longrightarrow> watch_inv (S\<lparr>wx_inbox := box\<rparr>)"
  by (auto intro!: watch_invI dest: watch_invD)

lemma watch_step_keeps:
  assumes "watch_inv S" and "watch_step parse_time digest S T"
  shows "watch_inv T"
  using assms(2)
proof cases
  case tick
  show ?thesis unfolding tick(1) by (rule tick_keeps [OF assms(1) tick(3)])
next
  case (begin_pass w ws reading tick_start ans)
  show ?thesis unfolding begin_pass(1) by (rule begin_keeps [OF assms(1) begin_pass(2)])
next
  case (act p a as known now inserted box)
  show ?thesis unfolding act(1) by (rule act_keeps [OF assms(1) act(2,3)])
next
  case stop
  show ?thesis unfolding stop by (rule crash_keeps(1) [OF assms(1)])
next
  case crash
  show ?thesis unfolding crash by (rule crash_keeps(2) [OF assms(1)])
next
  case (watch known projects now i x p n cleanup head ws)
  show ?thesis unfolding watch(1) by (rule watch_keeps [OF assms(1) watch(2-4)])
next
  case (unwatch x p n removed ws)
  show ?thesis unfolding unwatch(1)
    by (rule fewer_rows_keep [OF assms(1), where P = "\<lambda>w. \<not> same_watch x p n w"]) (use unwatch(2) in \<open>simp add: delete_pr_watch_def\<close>)
next
  case (delete_chat x)
  have "set (wx_watches S) - set (filter (\<lambda>w. pw_session w \<noteq> x) (wx_watches S)) = {w \<in> set (wx_watches S). pw_session w = x}" by auto
  then show ?thesis using fewer_rows_keep [OF assms(1) refl, where P = "\<lambda>w. pw_session w \<noteq> x"] unfolding delete_chat by simp
next
  case (mail box)
  show ?thesis unfolding mail by (rule mail_keeps [OF assms(1)])
qed

interpretation pr_watches: invariant_system "watch_step parse_time digest" watch_inv for parse_time digest
  by unfold_locales (rule watch_step_keeps)

lemma start_watches_inv: "watch_inv start_watches"
  by (intro watch_invI) (simp_all add: start_watches_def rows_ok_def pass_ok_def queue_ok_def numbers_ok_def kept_ok_def backed_ok_def ended_ok_def)

section \<open>The numbers of notices\<close>

definition digits_value :: "string \<Rightarrow> nat" where
  "digits_value s = foldl (\<lambda>n c. 10 * n + (of_char c - 48)) 0 s"

lemma nat_text_value: "digits_value (nat_text n) = n"
proof (induction n rule: nat_text.induct)
  case (1 n)
  show ?case
  proof (cases "n < 10")
    case True
    then show ?thesis by (simp add: nat_text.simps [of n] digits_value_def digit_char_def)
  next
    case False
    have "digits_value (nat_text n) = 10 * digits_value (nat_text (n div 10)) + n mod 10"
      using False by (subst nat_text.simps) (simp add: digits_value_def digit_char_def)
    then show ?thesis using 1 False by simp
  qed
qed

lemma nat_text_no_colon: "CHR '':'' \<notin> set (nat_text n)"
proof (induction n rule: nat_text.induct)
  case (1 n)
  have digit: "CHR '':'' \<noteq> digit_char d" if d: "d < 10" for d
  proof
    assume "CHR '':'' = digit_char d"
    then have "(of_char (CHR '':'') :: nat) = of_char (digit_char d)" by simp
    moreover have "(of_char (CHR '':'') :: nat) = 58" by simp
    ultimately show False using d by (simp add: digit_char_def)
  qed
  then show ?case using 1 by (subst nat_text.simps) auto
qed

lemma split_unique: "x \<notin> set a \<Longrightarrow> x \<notin> set b \<Longrightarrow> a @ x # c = b @ x # d \<Longrightarrow> a = b \<and> c = d"
  by (induction a arbitrary: b) (auto simp: Cons_eq_append_conv append_eq_Cons_conv)

lemma notice_no_inject:
  assumes "notice_no i k h = notice_no j l g" and "CHR '':'' \<notin> set i" and "CHR '':'' \<notin> set j"
  shows "i = j \<and> k = l"
proof -
  have "i @ CHR '':'' # (nat_text k @ CHR '':'' # h) = j @ CHR '':'' # (nat_text l @ CHR '':'' # g)"
    using assms(1) unfolding notice_no_def by simp
  then have ij: "i = j" and rest: "nat_text k @ CHR '':'' # h = nat_text l @ CHR '':'' # g" using split_unique [OF assms(2,3)] by blast+
  have "nat_text k = nat_text l" using split_unique [OF nat_text_no_colon nat_text_no_colon rest] by blast
  then have "k = l" using nat_text_value by metis
  then show ?thesis using ij by blast
qed

section \<open>What holds of every run\<close>

lemma delivery_is_stored:
  "deliver_action known w now (Deliver_Notice n) box = Inr (inserted, box') \<Longrightarrow> session_message_exists (pn_id n) box'"
  by (auto simp: watch_message_def insert_session_message_def session_message_exists_def list_ex_iff split: if_splits)


text \<open>No two notices share an id, although heads come back and watches are made again: what the inbox ignores as known is
  a redelivery of that very notice.\<close>

lemma watch_notices_have_their_own_ids:
  assumes "(watch_step parse_time digest)\<^sup>*\<^sup>* start_watches S"
  shows "distinct (map (\<lambda>s. pn_id (sn_notice s)) (wx_staged S))"
proof -
  have "watch_inv S" by (rule pr_watches.runs [OF assms start_watches_inv])
  then have n: "numbers_ok (wx_watches S) (wx_used S) (wx_staged S)" by (rule watch_invD(4))
  then have d: "distinct (map (\<lambda>s. (sn_watch s, sn_no s)) (wx_staged S))" unfolding numbers_ok_def by blast
  have "(sn_watch s, sn_no s) = (sn_watch t, sn_no t)"
    if s: "s \<in> set (wx_staged S)" and t: "t \<in> set (wx_staged S)" and e: "pn_id (sn_notice s) = pn_id (sn_notice t)" for s t
  proof -
    obtain h g where "pn_id (sn_notice s) = notice_no (sn_watch s) (sn_no s) h" "pn_id (sn_notice t) = notice_no (sn_watch t) (sn_no t) g"
      using n s t unfolding numbers_ok_def by blast
    then have "notice_no (sn_watch s) (sn_no s) h = notice_no (sn_watch t) (sn_no t) g" using e by simp
    moreover have "CHR '':'' \<notin> set (sn_watch s)" "CHR '':'' \<notin> set (sn_watch t)" using n s t unfolding numbers_ok_def by blast+
    ultimately show ?thesis using notice_no_inject by simp
  qed
  then have "inj_on (\<lambda>s. pn_id (sn_notice s)) (set (wx_staged S))"
    using d unfolding distinct_map inj_on_def by blast
  then show ?thesis using d unfolding distinct_map by blast
qed

text \<open>A watch ends with the pull request, not before: the row of a watch its chat neither took back nor lost goes only
  after a notice that ends it was handed to the inbox.\<close>

lemma watch_ends_with_its_last_notice:
  assumes "(watch_step parse_time digest)\<^sup>*\<^sup>* start_watches S" and "i \<in> wx_used S" and "i \<notin> wx_gone S"
    and "\<forall>w \<in> set (wx_watches S). pw_id w \<noteq> i"
  shows "\<exists>s \<in> set (wx_staged S). sn_watch s = i \<and> sn_notice s \<in> wx_sent S \<and> pn_ends (sn_notice s)"
proof -
  have "watch_inv S" by (rule pr_watches.runs [OF assms(1) start_watches_inv])
  then have "ended_ok (wx_watches S) (wx_used S) (wx_sent S) (wx_gone S) (wx_staged S)" by (rule watch_invD(7))
  moreover have "i \<notin> pw_id ` set (wx_watches S)" using assms(4) by auto
  ultimately show ?thesis using assms(2,3) unfolding ended_ok_def by blast
qed

section \<open>A run to the end\<close>

definition merged_view :: pr_watch_view where
  "merged_view = sample_view\<lparr>vw_state := Some ''MERGED''\<rparr>"

definition new_watch :: pr_watch where
  "new_watch = \<lparr>pw_id = ''w'', pw_session = ''s'', pw_project = ''p'', pw_number = 7, pw_cleanup = False, pw_head = [], pw_failures = [],
     pw_seen = None, pw_prints = None, pw_fetch_failures = 0, pw_degraded = False, pw_ready = None, pw_pr_updated = None,
     pw_conflict = None, pw_seq = 0, pw_pending = None, pw_not_found = 0, pw_created = ''t''\<rparr>"

definition sample_pass :: watch_pass where
  "sample_pass = plan_watch_pass (\<lambda>_. None) (\<lambda>b. b) new_watch sample_state merged_view (Some PR_Merged) None None"

definition last_notice :: pending_pr_notice where
  "last_notice = \<lparr>pn_id = notice_id new_watch (wp_head sample_state), pn_body = the (ps_body sample_pass), pn_ends = True\<rparr>"

definition sample_reading :: watch_reading where
  "sample_reading = \<lparr>rg_pr = Some sample_state, rg_place_state = ''active'', rg_remote = None\<rparr>"

definition sample_answers :: watch_answers where
  "sample_answers = \<lparr>an_view = Inr merged_view, an_threads = Inl \<lparr>fe_rate_limited = True, fe_message = []\<rparr>, an_cleanup = []\<rparr>"

lemma sample_plan:
  "run_one_watch (\<lambda>_. None) (\<lambda>b. b) ''t'' (Inr sample_reading) sample_answers new_watch =
    [Stage_Notice (ps_cursors sample_pass) last_notice, Deliver_Notice last_notice, End_Watch]"
proof -
  have t: "terminal_state sample_state merged_view = Some PR_Merged" by code_simp
  have a: "\<not> recipient_archived (rg_place_state sample_reading)" by (simp add: recipient_archived_def sample_reading_def)
  have ends: "ps_ends sample_pass" "\<exists>b. ps_body sample_pass = Some b" by (simp_all add: sample_pass_def plan_watch_pass_def finish_pass_def Let_def)
  have "read_pr (\<lambda>_. None) (\<lambda>b. b) None sample_answers new_watch sample_state False = conclude_pass new_watch sample_state False sample_pass"
    using t by (simp add: read_pr_def sample_answers_def Let_def sample_pass_def new_watch_def) (simp add: merged_view_def sample_view_def sample_state_def)
  moreover have "conclude_pass new_watch sample_state False sample_pass =
    [Stage_Notice (ps_cursors sample_pass) last_notice, Deliver_Notice last_notice, End_Watch]"
    using ends by (auto simp: conclude_pass_def deliver_staged_def last_notice_def Let_def)
  ultimately show ?thesis
    using a by (simp add: run_one_watch_def Let_def) (simp add: sample_reading_def new_watch_def sample_state_def PR_UNAVAILABLE_ERROR_def)
qed

definition sample_staged :: staged_notice where
  "sample_staged = \<lparr>sn_watch = ''w'', sn_no = 1, sn_notice = last_notice\<rparr>"

definition begun :: watch_system where
  "begun = start_watches\<lparr>wx_watches := [new_watch], wx_used := {''w''}, wx_pass := Some \<lparr>tp_watch = new_watch, tp_archived = False,
     tp_todo = [Stage_Notice (ps_cursors sample_pass) last_notice, Deliver_Notice last_notice, End_Watch]\<rparr>\<rparr>"

lemma begun_reached: "(watch_step (\<lambda>_. None) (\<lambda>b. b))\<^sup>*\<^sup>* start_watches begun"
proof -
  let ?step = "watch_step (\<lambda>_. None) (\<lambda>b. b)"
  let ?S1 = "start_watches\<lparr>wx_watches := [new_watch], wx_used := {''w''}\<rparr>"
  have "upsert_pr_watch {''s''} {''p''} ''t'' ''w'' ''s'' ''p'' 7 False [] (wx_watches start_watches) = Inr [new_watch]"
    by (simp add: upsert_pr_watch_def start_watches_def new_watch_def)
  from watch_step.watch [OF this, of "\<lambda>_. None" "\<lambda>b. b"] have s1: "?step start_watches ?S1" by (simp add: start_watches_def new_watch_def)
  have s2: "?step ?S1 (?S1\<lparr>wx_queue := list_pr_watches (wx_watches ?S1)\<rparr>)" by (rule watch_step.tick) (simp_all add: start_watches_def)
  have q: "list_pr_watches (wx_watches ?S1) = [new_watch]" by (simp add: list_pr_watches_def)
  let ?S2 = "?S1\<lparr>wx_queue := [new_watch]\<rparr>"
  have "?step ?S2 (?S2\<lparr>wx_queue := [], wx_pass := Some \<lparr>tp_watch = new_watch, tp_archived = pass_archived (Inr sample_reading),
      tp_todo = run_one_watch (\<lambda>_. None) (\<lambda>b. b) ''t'' (Inr sample_reading) sample_answers new_watch\<rparr>\<rparr>)"
    by (rule watch_step.begin_pass) (simp_all add: start_watches_def)
  moreover have "pass_archived (Inr sample_reading) = False" by (simp add: pass_archived_def sample_reading_def recipient_archived_def)
  ultimately have s3: "?step ?S2 begun" unfolding sample_plan by (simp add: begun_def start_watches_def)
  show ?thesis using s1 s2 s3 unfolding q by (meson converse_rtranclp_into_rtranclp rtranclp.rtrancl_refl)
qed

definition ended_run :: watch_system where
  "ended_run = begun\<lparr>wx_watches := [], wx_inbox := [\<lparr>im_id = pn_id last_notice, im_from = None, im_to = ''s'',
       im_body = cap_message_body (pn_body last_notice), im_kind = MESSAGE_KIND, im_created = ''t'', im_delivered = None, im_wake_due = None\<rparr>],
     wx_pass := Some \<lparr>tp_watch = new_watch, tp_archived = False, tp_todo = []\<rparr>, wx_staged := [sample_staged], wx_sent := {last_notice}\<rparr>"

lemma ended_run_reached: "(watch_step (\<lambda>_. None) (\<lambda>b. b))\<^sup>*\<^sup>* start_watches ended_run"
proof -
  let ?step = "watch_step (\<lambda>_. None) (\<lambda>b. b)"
  let ?c = "ps_cursors sample_pass"
  let ?w = "(with_cursors ?c new_watch)\<lparr>pw_seq := 1, pw_pending := Some last_notice\<rparr>"
  let ?S4 = "begun\<lparr>wx_watches := [?w], wx_staged := [sample_staged],
    wx_pass := Some \<lparr>tp_watch = new_watch, tp_archived = False, tp_todo = [Deliver_Notice last_notice, End_Watch]\<rparr>\<rparr>"
  let ?S5 = "ended_run\<lparr>wx_watches := [?w], wx_pass := Some \<lparr>tp_watch = new_watch, tp_archived = False, tp_todo = [End_Watch]\<rparr>\<rparr>"
  have id: "pw_id ?w = ''w''" "pw_id new_watch = ''w''" by (simp_all add: with_cursors_def new_watch_def)
  have p: "wx_pass begun = Some \<lparr>tp_watch = new_watch, tp_archived = False,
     tp_todo = [Stage_Notice ?c last_notice, Deliver_Notice last_notice, End_Watch]\<rparr>" by (simp add: begun_def)
  have "write_action ''w'' (Stage_Notice ?c last_notice) [new_watch] = [?w]"
    using id by (simp add: stage_pr_watch_notice_def write_watch_def) (simp add: new_watch_def)
  moreover have "newly_staged ''w'' (Stage_Notice ?c last_notice) [new_watch] = [sample_staged]"
    by (simp add: newly_staged_def id sample_staged_def) (simp add: new_watch_def)
  ultimately have s4: "?step begun ?S4"
    using watch_step.act [OF p, of _ _ "{}" "''t''" False "[]" "\<lambda>_. None" "\<lambda>b. b"] id
    by (simp add: begun_def start_watches_def now_sent_def now_excused_def)
  have "insert_session_message {} (watch_message new_watch last_notice) ''t'' [] = Inr (True, wx_inbox ended_run)"
    by (simp add: insert_session_message_def watch_message_def ended_run_def) (simp add: new_watch_def)
  then have s5: "?step ?S4 ?S5"
    using watch_step.act [of ?S4 "\<lparr>tp_watch = new_watch, tp_archived = False, tp_todo = [Deliver_Notice last_notice, End_Watch]\<rparr>"
        "Deliver_Notice last_notice" "[End_Watch]" "{}" "''t''" True "wx_inbox ended_run" "\<lambda>_. None" "\<lambda>b. b"]
    by (simp add: begun_def start_watches_def now_sent_def now_excused_def newly_staged_def ended_run_def split: option.splits)
  have s6: "?step ?S5 ended_run"
    using watch_step.act [of ?S5 "\<lparr>tp_watch = new_watch, tp_archived = False, tp_todo = [End_Watch]\<rparr>" End_Watch "[]" "{}" "''t''" False
        "wx_inbox ended_run" "\<lambda>_. None" "\<lambda>b. b"] id
    by (simp add: begun_def start_watches_def now_sent_def now_excused_def newly_staged_def ended_run_def delete_pr_watch_by_id_def split: option.splits)
  show ?thesis using begun_reached s4 s5 s6 by (meson rtranclp.rtrancl_into_rtrancl)
qed


lemma watch_notices_have_their_own_ids_witness: "distinct (map (\<lambda>s. pn_id (sn_notice s)) (wx_staged ended_run))"
  by (rule watch_notices_have_their_own_ids [OF ended_run_reached])

lemma watch_ends_with_its_last_notice_witness: "\<exists>s \<in> set (wx_staged ended_run). sn_notice s \<in> wx_sent ended_run \<and> pn_ends (sn_notice s)"
proof -
  have "''w'' \<in> wx_used ended_run" "''w'' \<notin> wx_gone ended_run" "\<forall>w \<in> set (wx_watches ended_run). pw_id w \<noteq> ''w''"
    by (simp_all add: ended_run_def begun_def start_watches_def)
  from watch_ends_with_its_last_notice [OF ended_run_reached this] show ?thesis by blast
qed

end
