(* ===== verification/Unified_Diff.thy ===== *)
theory Unified_Diff
  imports Rust_Text "HOL-Library.Sublist"
begin

text \<open>
  Diffs of file texts (\<^verbatim>\<open>src-tauri/src/providers/unified_diff.rs\<close>): the edit script over lines, its hunks and their text.
  The table of the match is the flat vector of the code.
\<close>

definition DEFAULT_CONTEXT :: nat where "DEFAULT_CONTEXT = 3"
definition MAX_MATCH_CELLS :: nat where "MAX_MATCH_CELLS = 1000000"

datatype diff_op = Op_Equal | Op_Delete | Op_Insert

definition split_lines :: "string \<Rightarrow> string list" where
  "split_lines t = (if t = [] then [] else split_on newline (if last t = newline then butlast t else t))"

section \<open>The edit script\<close>

definition match_cell :: "'a list \<Rightarrow> 'a list \<Rightarrow> nat \<Rightarrow> nat \<Rightarrow> nat list \<Rightarrow> nat list" where
  "match_cell old new l r T =
     (let columns = length new + 1
      in T[l * columns + r :=
           (if old ! l = new ! r then T ! ((l + 1) * columns + r + 1) + 1
            else max (T ! ((l + 1) * columns + r)) (T ! (l * columns + r + 1)))])"

definition match_table :: "'a list \<Rightarrow> 'a list \<Rightarrow> nat list" where
  "match_table old new =
     fold (\<lambda>l T. fold (match_cell old new l) (rev [0..<length new]) T) (rev [0..<length old])
       (replicate ((length old + 1) * (length new + 1)) 0)"

function match_walk :: "nat list \<Rightarrow> 'a list \<Rightarrow> 'a list \<Rightarrow> nat \<Rightarrow> nat \<Rightarrow> diff_op list" where
  "match_walk T old new l r =
     (let columns = length new + 1
      in if l < length old \<and> r < length new
         then (if old ! l = new ! r then Op_Equal # match_walk T old new (l + 1) (r + 1)
               else if T ! ((l + 1) * columns + r) \<ge> T ! (l * columns + r + 1) then Op_Delete # match_walk T old new (l + 1) r
               else Op_Insert # match_walk T old new l (r + 1))
         else replicate (length old - l) Op_Delete @ replicate (length new - r) Op_Insert)"
  by auto
termination by (relation "measure (\<lambda>(T, old, new, l, r). (length old - l) + (length new - r))") auto

declare match_walk.simps [simp del]

definition match_middle :: "'a list \<Rightarrow> 'a list \<Rightarrow> diff_op list" where
  "match_middle old new = match_walk (match_table old new) old new 0 0"

text \<open>How long both start alike.\<close>

fun common_prefix :: "'a list \<Rightarrow> 'a list \<Rightarrow> nat" where
  "common_prefix (x # xs) (y # ys) = (if x = y then Suc (common_prefix xs ys) else 0)"
| "common_prefix _ _ = 0"

definition diff_ops :: "'a list \<Rightarrow> 'a list \<Rightarrow> diff_op list" where
  "diff_ops old new =
     (let prefix = common_prefix old new;
          suffix = common_prefix (rev (drop prefix old)) (rev (drop prefix new));
          old_middle = take (length old - suffix - prefix) (drop prefix old);
          new_middle = take (length new - suffix - prefix) (drop prefix new)
      in replicate prefix Op_Equal @
         (if length old_middle * length new_middle > MAX_MATCH_CELLS
          then replicate (length old_middle) Op_Delete @ replicate (length new_middle) Op_Insert
          else match_middle old_middle new_middle) @
         replicate suffix Op_Equal)"

section \<open>Rows, groups and hunks\<close>

record diff_row =
  dr_op :: diff_op
  dr_text :: string
  dr_old :: nat
  dr_new :: nat

fun rows_from :: "diff_op list \<Rightarrow> string list \<Rightarrow> string list \<Rightarrow> nat \<Rightarrow> nat \<Rightarrow> diff_row list" where
  "rows_from [] old new i j = []"
| "rows_from (x # xs) old new i j =
     \<lparr>dr_op = x, dr_text = (if x = Op_Insert then new ! j else old ! i), dr_old = i, dr_new = j\<rparr> #
     rows_from xs old new (if x \<noteq> Op_Insert then i + 1 else i) (if x \<noteq> Op_Delete then j + 1 else j)"

definition diff_rows :: "string list \<Rightarrow> string list \<Rightarrow> diff_row list" where
  "diff_rows old new = rows_from (diff_ops old new) old new 0 0"

fun groups_from :: "nat \<Rightarrow> nat \<Rightarrow> diff_row list \<Rightarrow> (nat \<times> nat) list \<Rightarrow> (nat \<times> nat) list" where
  "groups_from ctx i [] gs = gs"
| "groups_from ctx i (r # rs) gs =
     groups_from ctx (i + 1) rs
       (if dr_op r = Op_Equal then gs
        else if gs \<noteq> [] \<and> i \<le> snd (last gs) + 2 * ctx + 1 then butlast gs @ [(fst (last gs), i)]
        else gs @ [(i, i)])"

definition change_groups :: "diff_row list \<Rightarrow> nat \<Rightarrow> (nat \<times> nat) list" where
  "change_groups rs ctx = groups_from ctx 0 rs []"

record hunk =
  hk_old_start :: nat
  hk_old_count :: nat
  hk_new_start :: nat
  hk_new_count :: nat
  hk_rows :: "diff_row list"

definition window_hunk :: "diff_row list \<Rightarrow> hunk" where
  "window_hunk w =
     (let old_count = length (filter (\<lambda>r. dr_op r \<noteq> Op_Insert) w); new_count = length (filter (\<lambda>r. dr_op r \<noteq> Op_Delete) w)
      in \<lparr>hk_old_start = dr_old (hd w) + (if old_count > 0 then 1 else 0), hk_old_count = old_count,
          hk_new_start = dr_new (hd w) + (if new_count > 0 then 1 else 0), hk_new_count = new_count, hk_rows = w\<rparr>)"

definition group_hunk :: "diff_row list \<Rightarrow> nat \<Rightarrow> nat \<times> nat \<Rightarrow> hunk" where
  "group_hunk rs ctx g =
     (let start = fst g - ctx; stop = min (snd g + ctx) (length rs - 1) in window_hunk (take (stop + 1 - start) (drop start rs)))"

definition marker :: "diff_op \<Rightarrow> char" where
  "marker x = (case x of Op_Equal \<Rightarrow> CHR '' '' | Op_Delete \<Rightarrow> CHR ''-'' | Op_Insert \<Rightarrow> CHR ''+'')"

definition hunk_text :: "hunk \<Rightarrow> string" where
  "hunk_text h =
     ''@@ -'' @ nat_text (hk_old_start h) @ '','' @ nat_text (hk_old_count h) @ '' +'' @ nat_text (hk_new_start h) @ '','' @
     nat_text (hk_new_count h) @ '' @@'' @ [newline] @ concat (map (\<lambda>r. marker (dr_op r) # dr_text r @ [newline]) (hk_rows h))"

text \<open>The loop that writes the hunks gives up once the text is over the ceiling.\<close>

fun write_hunks :: "nat \<Rightarrow> hunk list \<Rightarrow> string \<Rightarrow> string option" where
  "write_hunks cap [] diff = Some diff"
| "write_hunks cap (h # hs) diff = (let diff = diff @ hunk_text h in if length diff > cap then None else write_hunks cap hs diff)"

definition final_newline_diff :: "string list \<Rightarrow> string \<Rightarrow> string \<Rightarrow> nat \<Rightarrow> nat \<Rightarrow> string option" where
  "final_newline_diff ls before after ctx cap =
     (if before = after \<or> ls = [] then None
      else
        (let changed = length ls - 1; start = changed - ctx; window = drop start ls;
             count_text = nat_text (start + 1) @ '','' @ nat_text (length window);
             diff = ''@@ -'' @ count_text @ '' +'' @ count_text @ '' @@'' @ [newline] @
               concat (map (\<lambda>l. CHR '' '' # l @ [newline]) (take (length window - 1) window)) @
               CHR ''-'' # (ls ! changed) @ newline # CHR ''+'' # (ls ! changed)
         in if length diff \<le> cap then Some diff else None))"

definition diff_hunks :: "string list \<Rightarrow> string list \<Rightarrow> nat \<Rightarrow> hunk list" where
  "diff_hunks old new ctx = (let rs = diff_rows old new in map (group_hunk rs ctx) (change_groups rs ctx))"

definition unified_diff :: "string \<Rightarrow> string \<Rightarrow> nat \<Rightarrow> nat \<Rightarrow> string option" where
  "unified_diff before after ctx cap =
     (let old = split_lines before; new = split_lines after
      in if old = new then final_newline_diff old before after ctx cap
         else
           (case write_hunks cap (diff_hunks old new ctx) [] of
              None \<Rightarrow> None
            | Some diff \<Rightarrow> if diff = [] then None else Some (butlast diff)))"

section \<open>The match is a longest common subsequence\<close>

fun lcs :: "'a list \<Rightarrow> 'a list \<Rightarrow> nat" where
  "lcs (x # xs) (y # ys) = (if x = y then lcs xs ys + 1 else max (lcs xs (y # ys)) (lcs (x # xs) ys))"
| "lcs _ _ = 0"

lemma lcs_Nil2 [simp]: "lcs xs [] = 0"
  by (cases xs) auto

lemma lcs_attained: "\<exists>zs. subseq zs xs \<and> subseq zs ys \<and> length zs = lcs xs ys"
proof (induction xs ys rule: lcs.induct)
  case (1 x xs y ys)
  show ?case
  proof (cases "x = y")
    case True
    then obtain zs where "subseq zs xs" "subseq zs ys" "length zs = lcs xs ys" using 1 by blast
    then show ?thesis using True by (intro exI [where x = "x # zs"]) simp
  next
    case False
    then obtain a b where "subseq a xs" "subseq a (y # ys)" "length a = lcs xs (y # ys)" "subseq b (x # xs)" "subseq b ys" "length b = lcs (x # xs) ys"
      using 1 by blast
    then show ?thesis using False
      by (cases "lcs xs (y # ys) \<ge> lcs (x # xs) ys") (force intro: exI [where x = a], force intro: exI [where x = b])
  qed
qed (auto intro: exI [where x = "[]"])

lemma lcs_longest: "subseq zs xs \<Longrightarrow> subseq zs ys \<Longrightarrow> length zs \<le> lcs xs ys"
proof (induction xs ys arbitrary: zs rule: lcs.induct)
  case (1 x xs y ys)
  show ?case
  proof (cases "x = y")
    case True
    show ?thesis
    proof (cases zs)
      case (Cons z rest)
      have "subseq rest xs" "subseq rest ys" using "1.prems" Cons by (auto simp: subseq_Cons2_iff dest: subseq_Cons' split: if_splits)
      then show ?thesis using "1.IH"(1) [OF True] Cons True by force
    qed simp
  next
    case False
    have "subseq zs xs \<or> subseq zs ys" using "1.prems" False by (cases zs) (auto split: if_splits)
    then show ?thesis using "1.IH"(2,3) [OF False] "1.prems" False by (auto simp: le_max_iff_disj)
  qed
qed auto

section \<open>The table holds it\<close>

definition cell :: "'a list \<Rightarrow> nat list \<Rightarrow> nat \<Rightarrow> nat \<Rightarrow> nat" where
  "cell new T i j = T ! (i * (length new + 1) + j)"

definition row_ok :: "'a list \<Rightarrow> 'a list \<Rightarrow> nat list \<Rightarrow> nat \<Rightarrow> nat \<Rightarrow> bool" where
  "row_ok old new T i k \<longleftrightarrow> (\<forall>j. k \<le> j \<and> j \<le> length new \<longrightarrow> cell new T i j = lcs (drop i old) (drop j new))"

lemma cell_update:
  assumes "j \<le> length new" "r \<le> length new" "length T = m * (length new + 1)" "l < m"
  shows "cell new (T[l * (length new + 1) + r := v]) i j = (if i = l \<and> j = r then v else cell new T i j)"
proof -
  have bound: "l * (length new + 1) + r < length T"
  proof -
    have "l * (length new + 1) + r < (l + 1) * (length new + 1)" using assms(2) by simp
    also have "\<dots> \<le> m * (length new + 1)" using assms(4) by (intro mult_le_mono1) simp
    finally show ?thesis using assms(3) by simp
  qed
  have "i * (length new + 1) + j = l * (length new + 1) + r \<longleftrightarrow> i = l \<and> j = r"
  proof
    assume e: "i * (length new + 1) + j = l * (length new + 1) + r"
    have "(i * (length new + 1) + j) div (length new + 1) = i" "(l * (length new + 1) + r) div (length new + 1) = l"
      using assms(1,2) by (simp_all add: div_mult_self3 del: mult_Suc_right)
    then have "i = l" using e by simp
    then show "i = l \<and> j = r" using e by simp
  qed simp
  then show ?thesis using bound by (auto simp: cell_def nth_list_update)
qed

lemma match_cell_length [simp]: "length (match_cell old new l r T) = length T"
  by (simp add: match_cell_def Let_def)

lemma match_row_length [simp]: "length (fold (match_cell old new l) rs T) = length T"
  by (induction rs arbitrary: T) simp_all

text \<open>One row, from its last column down.\<close>

lemma match_row:
  assumes T: "length T = (length old + 1) * (length new + 1)" and l: "l < length old"
    and below: "row_ok old new T (l + 1) 0" and edge: "cell new T l (length new) = 0" and d: "d \<le> length new"
  shows "row_ok old new (fold (match_cell old new l) (rev [length new - d..<length new]) T) l (length new - d) \<and>
    (\<forall>i j. i \<noteq> l \<longrightarrow> j \<le> length new \<longrightarrow> cell new (fold (match_cell old new l) (rev [length new - d..<length new]) T) i j = cell new T i j)"
  using d
proof (induction d)
  case 0
  then show ?case using edge by (auto simp: row_ok_def)
next
  case (Suc d)
  let ?k = "length new - Suc d" and ?before = "fold (match_cell old new l) (rev [length new - d..<length new]) T"
  let ?v = "if old ! l = new ! ?k then ?before ! ((l + 1) * (length new + 1) + ?k + 1) + 1
    else max (?before ! ((l + 1) * (length new + 1) + ?k)) (?before ! (l * (length new + 1) + ?k + 1))"
  have k: "length new - d = ?k + 1" "?k < length new" using Suc.prems by simp_all
  have IH: "row_ok old new ?before l (?k + 1)"
    "\<And>i j. i \<noteq> l \<Longrightarrow> j \<le> length new \<Longrightarrow> cell new ?before i j = cell new T i j" using Suc k(1) by auto
  have "rev [?k..<length new] = rev [length new - d..<length new] @ [?k]" using k by (simp add: upt_conv_Cons)
  then have step: "fold (match_cell old new l) (rev [?k..<length new]) T = ?before[l * (length new + 1) + ?k := ?v]"
    by (simp add: match_cell_def Let_def)
  have "cell new ?before (l + 1) (?k + 1) = lcs (drop (l + 1) old) (drop (?k + 1) new)"
    "cell new ?before (l + 1) ?k = lcs (drop (l + 1) old) (drop ?k new)"
    using IH(2) [of "l + 1"] below k(2) by (simp_all add: row_ok_def)
  moreover have "cell new ?before l (?k + 1) = lcs (drop l old) (drop (?k + 1) new)" using IH(1) k(2) by (simp add: row_ok_def)
  moreover have "drop l old = old ! l # drop (l + 1) old" "drop ?k new = new ! ?k # drop (?k + 1) new"
    using l k(2) by (simp_all add: Cons_nth_drop_Suc)
  ultimately have v: "?v = lcs (drop l old) (drop ?k new)" by (simp add: cell_def add.assoc)
  have upd: "cell new (?before[l * (length new + 1) + ?k := ?v]) i j = (if i = l \<and> j = ?k then ?v else cell new ?before i j)" if "j \<le> length new" for i j
    by (rule cell_update [OF that, where m = "length old + 1"]) (use k(2) T l in auto)
  have "row_ok old new (?before[l * (length new + 1) + ?k := ?v]) l ?k"
    unfolding row_ok_def
  proof (intro allI impI)
    fix j assume j: "?k \<le> j \<and> j \<le> length new"
    show "cell new (?before[l * (length new + 1) + ?k := ?v]) l j = lcs (drop l old) (drop j new)"
    proof (cases "j = ?k")
      case True
      then show ?thesis using upd [of j l] j v by simp
    next
      case False
      then show ?thesis using upd [of j l] j IH(1) by (simp add: row_ok_def)
    qed
  qed
  then show ?case unfolding step using upd IH(2) by simp
qed

definition filled :: "'a list \<Rightarrow> 'a list \<Rightarrow> nat \<Rightarrow> nat list \<Rightarrow> bool" where
  "filled old new l T \<longleftrightarrow> length T = (length old + 1) * (length new + 1) \<and>
     (\<forall>i. l \<le> i \<and> i \<le> length old \<longrightarrow> row_ok old new T i 0) \<and> (\<forall>i < l. cell new T i (length new) = 0)"

lemma zero_cells: "i \<le> m \<Longrightarrow> j \<le> length new \<Longrightarrow> cell new (replicate ((m + 1) * (length new + 1)) 0) i j = 0"
proof -
  assume i: "i \<le> m" and j: "j \<le> length new"
  have "i * (length new + 1) + j < (i + 1) * (length new + 1)" using j by simp
  also have "\<dots> \<le> (m + 1) * (length new + 1)" using i by (intro mult_le_mono1) simp
  finally show ?thesis unfolding cell_def by (rule nth_replicate)
qed

lemma match_rows:
  assumes "k \<le> length old"
  shows "filled old new (length old - k) (fold (\<lambda>l T. fold (match_cell old new l) (rev [0..<length new]) T) (rev [length old - k..<length old])
    (replicate ((length old + 1) * (length new + 1)) 0))"
  using assms
proof (induction k)
  case 0
  then show ?case using zero_cells [of _ "length old" _ new] by (auto simp: filled_def row_ok_def)
next
  case (Suc k)
  let ?l = "length old - Suc k"
  let ?run = "fold (\<lambda>l T. fold (match_cell old new l) (rev [0..<length new]) T)" and ?zero = "replicate ((length old + 1) * (length new + 1)) (0::nat)"
  let ?T = "?run (rev [length old - k..<length old]) ?zero"
  have l: "length old - k = ?l + 1" "?l < length old" using Suc.prems by simp_all
  have IH: "filled old new (?l + 1) ?T" using Suc l by simp
  have "rev [?l..<length old] = rev [length old - k..<length old] @ [?l]" using l by (simp add: upt_conv_Cons)
  then have step: "?run (rev [?l..<length old]) ?zero = fold (match_cell old new ?l) (rev [0..<length new]) ?T" by simp
  have "row_ok old new ?T (?l + 1) 0" "cell new ?T ?l (length new) = 0" "length ?T = (length old + 1) * (length new + 1)"
    using IH l(2) by (simp_all add: filled_def)
  from match_row [OF this(3) l(2) this(1,2), of "length new"]
  have row: "row_ok old new (fold (match_cell old new ?l) (rev [0..<length new]) ?T) ?l 0"
    "\<And>i j. i \<noteq> ?l \<Longrightarrow> j \<le> length new \<Longrightarrow> cell new (fold (match_cell old new ?l) (rev [0..<length new]) ?T) i j = cell new ?T i j" by simp_all
  show ?case
    unfolding step filled_def
  proof (intro conjI allI impI)
    show "length (fold (match_cell old new ?l) (rev [0..<length new]) ?T) = (length old + 1) * (length new + 1)" using IH by (simp add: filled_def)
  next
    fix i assume i: "?l \<le> i \<and> i \<le> length old"
    show "row_ok old new (fold (match_cell old new ?l) (rev [0..<length new]) ?T) i 0"
    proof (cases "i = ?l")
      case False
      then have "row_ok old new ?T i 0" using IH i by (simp add: filled_def)
      then show ?thesis using row(2) False by (simp add: row_ok_def)
    qed (use row(1) in simp)
  next
    fix i assume "i < ?l"
    then show "cell new (fold (match_cell old new ?l) (rev [0..<length new]) ?T) i (length new) = 0"
      using IH row(2) [of i "length new"] by (simp add: filled_def)
  qed
qed

lemma match_table_lcs:
  assumes "i \<le> length old" and "j \<le> length new"
  shows "match_table old new ! (i * (length new + 1) + j) = lcs (drop i old) (drop j new)"
  using match_rows [of "length old" old new] assms by (simp add: match_table_def filled_def row_ok_def cell_def)

section \<open>Scripts turn the old lines into the new\<close>

fun turns :: "diff_op list \<Rightarrow> 'a list \<Rightarrow> 'a list \<Rightarrow> bool" where
  "turns [] xs ys = (xs = [] \<and> ys = [])"
| "turns (Op_Equal # ops) (x # xs) (y # ys) = (x = y \<and> turns ops xs ys)"
| "turns (Op_Delete # ops) (x # xs) ys = turns ops xs ys"
| "turns (Op_Insert # ops) xs (y # ys) = turns ops xs ys"
| "turns _ _ _ = False"

lemma turns_append: "turns p xs ys \<Longrightarrow> turns q us vs \<Longrightarrow> turns (p @ q) (xs @ us) (ys @ vs)"
  by (induction p xs ys rule: turns.induct) (auto simp: turns.simps)

lemma turns_equal: "turns (replicate (length xs) Op_Equal) xs xs"
  by (induction xs) auto

lemma turns_delete: "turns (replicate (length xs) Op_Delete) xs []"
  by (induction xs) auto

lemma turns_insert: "turns (replicate (length ys) Op_Insert) [] ys"
  by (induction ys) auto

lemma turns_replace: "turns (replicate (length xs) Op_Delete @ replicate (length ys) Op_Insert) xs ys"
  using turns_append [OF turns_delete turns_insert, of xs ys] by simp

text \<open>The four ways of the walk.\<close>

lemma walk_tail:
  assumes "\<not> (l < length old \<and> r < length new)"
  shows "match_walk T old new l r = replicate (length (drop l old)) Op_Delete @ replicate (length (drop r new)) Op_Insert"
  by (subst match_walk.simps) (simp only: Let_def assms if_False length_drop)

lemma walk_equal:
  assumes "l < length old" "r < length new" "old ! l = new ! r"
  shows "match_walk T old new l r = Op_Equal # match_walk T old new (l + 1) (r + 1)"
  by (subst match_walk.simps) (simp only: Let_def assms if_True simp_thms)

lemma walk_delete:
  assumes "l < length old" "r < length new" "old ! l \<noteq> new ! r" "T ! (l * (length new + 1) + r + 1) \<le> T ! ((l + 1) * (length new + 1) + r)"
  shows "match_walk T old new l r = Op_Delete # match_walk T old new (l + 1) r"
  by (subst match_walk.simps) (simp only: Let_def assms if_True if_False simp_thms)

lemma walk_insert:
  assumes "l < length old" "r < length new" "old ! l \<noteq> new ! r" "\<not> T ! (l * (length new + 1) + r + 1) \<le> T ! ((l + 1) * (length new + 1) + r)"
  shows "match_walk T old new l r = Op_Insert # match_walk T old new l (r + 1)"
  by (subst match_walk.simps) (simp only: Let_def assms if_True if_False simp_thms)

lemma walk_turns:
  assumes "l \<le> length old" and "r \<le> length new"
  shows "turns (match_walk T old new l r) (drop l old) (drop r new)"
  using assms
proof (induction T old new l r rule: match_walk.induct)
  case (1 T old new l r)
  show ?case
  proof (cases "l < length old \<and> r < length new")
    case False
    show ?thesis unfolding walk_tail [OF False] by (rule turns_replace)
  next
    case True
    have d: "drop l old = old ! l # drop (l + 1) old" "drop r new = new ! r # drop (r + 1) new" using True by (simp_all add: Cons_nth_drop_Suc)
    consider (same) "old ! l = new ! r"
      | (del) "old ! l \<noteq> new ! r" "T ! (l * (length new + 1) + r + 1) \<le> T ! ((l + 1) * (length new + 1) + r)"
      | (ins) "old ! l \<noteq> new ! r" "\<not> T ! (l * (length new + 1) + r + 1) \<le> T ! ((l + 1) * (length new + 1) + r)" by blast
    then show ?thesis
    proof cases
      case same
      have "turns (match_walk T old new (l + 1) (r + 1)) (drop (l + 1) old) (drop (r + 1) new)"
        by (rule 1(1) [OF refl True same]) (use True in simp_all)
      then show ?thesis using walk_equal [of l old r new T] True same d by simp
    next
      case del
      have "turns (match_walk T old new (l + 1) r) (drop (l + 1) old) (drop r new)"
        by (rule 1(2) [OF refl True del]) (use True in simp_all)
      then show ?thesis using walk_delete [of l old r new T] True del d(1) by simp
    next
      case ins
      have "turns (match_walk T old new l (r + 1)) (drop l old) (drop (r + 1) new)"
        by (rule 1(3) [OF refl True ins]) (use True in simp_all)
      then show ?thesis using walk_insert [of l old r new T] True ins d(2) by simp
    qed
  qed
qed

text \<open>How many lines a script keeps.\<close>

definition kept_lines :: "diff_op list \<Rightarrow> nat" where
  "kept_lines ops = length (filter (\<lambda>x. x = Op_Equal) ops)"

lemma kept_lines_simps [simp]:
  "kept_lines [] = 0" "kept_lines (Op_Equal # ops) = Suc (kept_lines ops)"
  "kept_lines (Op_Delete # ops) = kept_lines ops" "kept_lines (Op_Insert # ops) = kept_lines ops"
  "kept_lines (p @ q) = kept_lines p + kept_lines q" "kept_lines (replicate n Op_Delete) = 0"
  "kept_lines (replicate n Op_Insert) = 0" "kept_lines (replicate n Op_Equal) = n"
  by (simp_all add: kept_lines_def)

lemma walk_keeps:
  assumes "T = match_table old new" and "l \<le> length old" and "r \<le> length new"
  shows "kept_lines (match_walk T old new l r) = lcs (drop l old) (drop r new)"
  using assms
proof (induction T old new l r rule: match_walk.induct)
  case (1 T old new l r)
  show ?case
  proof (cases "l < length old \<and> r < length new")
    case False
    then have "drop l old = [] \<or> drop r new = []" by auto
    then have "lcs (drop l old) (drop r new) = 0" by auto
    then show ?thesis unfolding walk_tail [OF False] by simp
  next
    case True
    have d: "drop l old = old ! l # drop (l + 1) old" "drop r new = new ! r # drop (r + 1) new" using True by (simp_all add: Cons_nth_drop_Suc)
    have "T ! ((l + 1) * (length new + 1) + r) = lcs (drop (l + 1) old) (drop r new)"
      unfolding "1.prems"(1) by (rule match_table_lcs) (use True in simp_all)
    moreover have "T ! (l * (length new + 1) + (r + 1)) = lcs (drop l old) (drop (r + 1) new)"
      unfolding "1.prems"(1) by (rule match_table_lcs) (use True in simp_all)
    ultimately have t: "T ! ((l + 1) * (length new + 1) + r) = lcs (drop (l + 1) old) (drop r new)"
      "T ! (l * (length new + 1) + r + 1) = lcs (drop l old) (drop (r + 1) new)" by (simp_all only: add.assoc)
    have l: "old ! l \<noteq> new ! r \<Longrightarrow> lcs (drop l old) (drop r new) = max (lcs (drop (l + 1) old) (drop r new)) (lcs (drop l old) (drop (r + 1) new))"
      "old ! l = new ! r \<Longrightarrow> lcs (drop l old) (drop r new) = Suc (lcs (drop (l + 1) old) (drop (r + 1) new))"
      by (subst d(1), subst d(2), simp add: d)+
    consider (same) "old ! l = new ! r"
      | (del) "old ! l \<noteq> new ! r" "T ! (l * (length new + 1) + r + 1) \<le> T ! ((l + 1) * (length new + 1) + r)"
      | (ins) "old ! l \<noteq> new ! r" "\<not> T ! (l * (length new + 1) + r + 1) \<le> T ! ((l + 1) * (length new + 1) + r)" by blast
    then show ?thesis
    proof cases
      case same
      have "kept_lines (match_walk T old new (l + 1) (r + 1)) = lcs (drop (l + 1) old) (drop (r + 1) new)"
        by (rule 1(1) [OF refl True same "1.prems"(1)]) (use True in simp_all)
      then show ?thesis using walk_equal [of l old r new T] True same l(2) by simp
    next
      case del
      have "kept_lines (match_walk T old new (l + 1) r) = lcs (drop (l + 1) old) (drop r new)"
        by (rule 1(2) [OF refl True del "1.prems"(1)]) (use True in simp_all)
      moreover have "lcs (drop l old) (drop (r + 1) new) \<le> lcs (drop (l + 1) old) (drop r new)" using del(2) unfolding t .
      moreover have "match_walk T old new l r = Op_Delete # match_walk T old new (l + 1) r" using walk_delete True del by blast
      ultimately show ?thesis using l(1) [OF del(1)] by simp
    next
      case ins
      have "kept_lines (match_walk T old new l (r + 1)) = lcs (drop l old) (drop (r + 1) new)"
        by (rule 1(3) [OF refl True ins "1.prems"(1)]) (use True in simp_all)
      moreover have "\<not> lcs (drop l old) (drop (r + 1) new) \<le> lcs (drop (l + 1) old) (drop r new)" using ins(2) unfolding t .
      moreover have "match_walk T old new l r = Op_Insert # match_walk T old new l (r + 1)" using walk_insert True ins by blast
      ultimately show ?thesis using l(1) [OF ins(1)] by simp
    qed
  qed
qed

lemma match_middle_keeps: "kept_lines (match_middle old new) = lcs old new"
  using walk_keeps [OF refl, of 0 old 0 new] by (simp add: match_middle_def)

lemma match_middle_turns: "turns (match_middle old new) old new"
  using walk_turns [of 0 old 0 new] by (simp add: match_middle_def)

section \<open>What both sides share at the ends\<close>

lemma common_prefix_le: "common_prefix xs ys \<le> length xs \<and> common_prefix xs ys \<le> length ys"
  by (induction xs ys rule: common_prefix.induct) auto

lemma common_prefix_take: "take (common_prefix xs ys) xs = take (common_prefix xs ys) ys"
  by (induction xs ys rule: common_prefix.induct) auto

lemma common_suffix_drop:
  "drop (length xs - common_prefix (rev xs) (rev ys)) xs = drop (length ys - common_prefix (rev xs) (rev ys)) ys"
  using common_prefix_take [of "rev xs" "rev ys"] by (simp add: take_rev)

lemma lcs_append_same: "lcs (p @ xs) (p @ ys) = length p + lcs xs ys"
  by (induction p) auto

lemma subseq_mirror: "subseq xs ys \<Longrightarrow> subseq (rev xs) (rev ys)"
proof (induction rule: list_emb.induct)
  case (list_emb_Cons xs ys y)
  then show ?case using subseq_rev_drop_many by simp
next
  case (list_emb_Cons2 x y xs ys)
  then show ?case using list_emb_append_mono [of "(=)" "rev xs" "rev ys" "[x]" "[y]"] by simp
qed simp

lemma lcs_rev_le: "lcs xs ys \<le> lcs (rev xs) (rev ys)"
proof -
  obtain zs where "subseq zs xs" "subseq zs ys" "length zs = lcs xs ys" using lcs_attained by blast
  then have "subseq (rev zs) (rev xs)" "subseq (rev zs) (rev ys)" "length (rev zs) = lcs xs ys" using subseq_mirror by simp_all
  then show ?thesis using lcs_longest by metis
qed

lemma lcs_append_suffix: "lcs (xs @ s) (ys @ s) = lcs xs ys + length s"
proof -
  have "lcs (rev s @ rev xs) (rev s @ rev ys) = length s + lcs (rev xs) (rev ys)" by (simp add: lcs_append_same)
  then show ?thesis
    using lcs_rev_le [of "xs @ s" "ys @ s"] lcs_rev_le [of "rev (xs @ s)" "rev (ys @ s)"] lcs_rev_le [of xs ys] lcs_rev_le [of "rev xs" "rev ys"] by simp
qed

text \<open>The two files around what the match sees.\<close>

lemma diff_ops_parts:
  obtains p u v s where "old = p @ u @ s" and "new = p @ v @ s"
    and "diff_ops old new = replicate (length p) Op_Equal @
      (if length u * length v > MAX_MATCH_CELLS then replicate (length u) Op_Delete @ replicate (length v) Op_Insert else match_middle u v) @
      replicate (length s) Op_Equal"
proof -
  let ?p = "common_prefix old new"
  let ?xs = "drop ?p old" and ?ys = "drop ?p new"
  let ?s = "common_prefix (rev ?xs) (rev ?ys)"
  let ?u = "take (length old - ?s - ?p) ?xs" and ?v = "take (length new - ?s - ?p) ?ys" and ?t = "drop (length ?xs - ?s) ?xs"
  have "length ?xs - ?s = length old - ?s - ?p" "length ?ys - ?s = length new - ?s - ?p" by simp_all
  then have "?xs = ?u @ ?t" "?ys = ?v @ ?t" using common_suffix_drop [of ?xs ?ys] by (metis append_take_drop_id)+
  then have "old = take ?p old @ ?u @ ?t" "new = take ?p old @ ?v @ ?t"
    using append_take_drop_id [of ?p old] append_take_drop_id [of ?p new] common_prefix_take [of old new] by metis+
  moreover have "length (take ?p old) = ?p" using common_prefix_le [of old new] by simp
  moreover have "length ?t = ?s"
    unfolding length_drop [of "length ?xs - ?s"] by (rule diff_diff_cancel) (use common_prefix_le [of "rev ?xs" "rev ?ys"] in simp)
  moreover have "diff_ops old new = replicate ?p Op_Equal @
      (if length ?u * length ?v > MAX_MATCH_CELLS then replicate (length ?u) Op_Delete @ replicate (length ?v) Op_Insert else match_middle ?u ?v) @
      replicate ?s Op_Equal" by (simp only: diff_ops_def Let_def)
  ultimately show thesis by (intro that [where p = "take ?p old" and u = ?u and v = ?v and s = ?t]) simp_all
qed

lemma diff_ops_turns: "turns (diff_ops old new) old new"
proof -
  obtain p u v s where "old = p @ u @ s" "new = p @ v @ s"
    and ops: "diff_ops old new = replicate (length p) Op_Equal @
      (if length u * length v > MAX_MATCH_CELLS then replicate (length u) Op_Delete @ replicate (length v) Op_Insert else match_middle u v) @
      replicate (length s) Op_Equal" by (rule diff_ops_parts)
  moreover have "turns (if length u * length v > MAX_MATCH_CELLS then replicate (length u) Op_Delete @ replicate (length v) Op_Insert else match_middle u v) u v"
    by (simp add: turns_replace match_middle_turns)
  ultimately show ?thesis by (simp only: ops) (intro turns_append turns_equal)
qed

lemma diff_ops_keeps:
  assumes "length old * length new \<le> MAX_MATCH_CELLS"
  shows "kept_lines (diff_ops old new) = lcs old new"
proof -
  obtain p u v s where parts: "old = p @ u @ s" "new = p @ v @ s"
    and ops: "diff_ops old new = replicate (length p) Op_Equal @
      (if length u * length v > MAX_MATCH_CELLS then replicate (length u) Op_Delete @ replicate (length v) Op_Insert else match_middle u v) @
      replicate (length s) Op_Equal" by (rule diff_ops_parts)
  have "length u * length v \<le> length old * length new" unfolding parts by (intro mult_le_mono) simp_all
  then show ?thesis using assms unfolding ops unfolding parts
    by (simp add: match_middle_keeps lcs_append_same lcs_append_suffix)
qed

lemma turns_size: "turns ops xs ys \<Longrightarrow> length ops + kept_lines ops = length xs + length ys"
  by (induction ops xs ys rule: turns.induct) auto

lemma turns_keeps_common: "turns ops xs ys \<Longrightarrow> \<exists>zs. subseq zs xs \<and> subseq zs ys \<and> length zs = kept_lines ops"
proof (induction ops xs ys rule: turns.induct)
  case (2 ops x xs y ys)
  then obtain zs where "subseq zs xs" "subseq zs ys" "length zs = kept_lines ops" by auto
  then show ?case using 2 by (intro exI [where x = "x # zs"]) simp
qed (auto intro: list_emb_Cons)

text \<open>C36: No script that turns the old lines into the new is shorter than the diff's, whose deletions and insertions are the fewest
  there can be; beyond a million cells of the match the code takes one replaced block instead.\<close>

theorem diff_is_shortest:
  assumes "length old * length new \<le> MAX_MATCH_CELLS" and "turns ops old new"
  shows "length (diff_ops old new) - kept_lines (diff_ops old new) \<le> length ops - kept_lines ops"
proof -
  obtain zs where "subseq zs old" "subseq zs new" "length zs = kept_lines ops" using turns_keeps_common [OF assms(2)] by blast
  then have "kept_lines ops \<le> kept_lines (diff_ops old new)" using lcs_longest [of zs old new] diff_ops_keeps [OF assms(1)] by simp
  then show ?thesis using turns_size [OF assms(2)] turns_size [OF diff_ops_turns [of old new]] by linarith
qed

lemma diff_is_shortest_witness:
  "length (diff_ops [''a'', ''b'', ''c''] [''b'', ''c'', ''d'']) - kept_lines (diff_ops [''a'', ''b'', ''c''] [''b'', ''c'', ''d'']) \<le> 4"
proof -
  have "turns [Op_Delete, Op_Insert, Op_Delete, Op_Equal, Op_Insert] [''a'', ''b'', ''c''] [''b'', ''c'', ''d'']" by simp
  from diff_is_shortest [OF _ this] show ?thesis by (simp add: MAX_MATCH_CELLS_def)
qed

section \<open>Applying the hunks\<close>

text \<open>
  What a reader of a diff does: at each hunk's line it copies what lies before, checks the lines the hunk keeps or deletes against the
  text, checks the counts of the header and puts the new lines in.
\<close>

fun apply_rows :: "diff_row list \<Rightarrow> string list \<Rightarrow> (string list \<times> string list) option" where
  "apply_rows [] rest = Some ([], rest)"
| "apply_rows (r # rs) rest =
     (case dr_op r of
        Op_Insert \<Rightarrow> map_option (\<lambda>(out, left). (dr_text r # out, left)) (apply_rows rs rest)
      | Op_Delete \<Rightarrow> (if rest \<noteq> [] \<and> hd rest = dr_text r then apply_rows rs (tl rest) else None)
      | Op_Equal \<Rightarrow> (if rest \<noteq> [] \<and> hd rest = dr_text r
                     then map_option (\<lambda>(out, left). (dr_text r # out, left)) (apply_rows rs (tl rest)) else None))"

text \<open>The line the header names, from one; from zero where the hunk has no line of that side.\<close>

definition header_line :: "nat \<Rightarrow> nat \<Rightarrow> nat" where
  "header_line start n = (if n > 0 then start - 1 else start)"

fun patch :: "hunk list \<Rightarrow> nat \<Rightarrow> nat \<Rightarrow> string list \<Rightarrow> string list option" where
  "patch [] i j rest = Some rest"
| "patch (h # hs) i j rest =
     (let from_old = header_line (hk_old_start h) (hk_old_count h); from_new = header_line (hk_new_start h) (hk_new_count h);
          n = from_old - i
      in if from_old < i \<or> length rest < n \<or> from_new \<noteq> j + n then None
         else (case apply_rows (hk_rows h) (drop n rest) of
                 None \<Rightarrow> None
               | Some (out, left) \<Rightarrow>
                   if length out \<noteq> hk_new_count h \<or> length (drop n rest) - length left \<noteq> hk_old_count h then None
                   else map_option (\<lambda>tail. take n rest @ out @ tail)
                          (patch hs (from_old + hk_old_count h) (from_new + hk_new_count h) left)))"

section \<open>Rows\<close>

definition old_count :: "diff_op list \<Rightarrow> nat" where "old_count ops = length (filter (\<lambda>x. x \<noteq> Op_Insert) ops)"
definition new_count :: "diff_op list \<Rightarrow> nat" where "new_count ops = length (filter (\<lambda>x. x \<noteq> Op_Delete) ops)"

lemma counts_simps [simp]:
  "old_count [] = 0" "new_count [] = 0" "old_count (x # xs) = (if x = Op_Insert then 0 else 1) + old_count xs"
  "new_count (x # xs) = (if x = Op_Delete then 0 else 1) + new_count xs"
  "old_count (xs @ ys) = old_count xs + old_count ys" "new_count (xs @ ys) = new_count xs + new_count ys"
  by (simp_all add: old_count_def new_count_def)

lemma rows_from_append: "rows_from (p @ q) old new i j = rows_from p old new i j @ rows_from q old new (i + old_count p) (j + new_count p)"
  by (induction p arbitrary: i j) (auto simp: Let_def)

lemma rows_ops: "map dr_op (rows_from ops old new i j) = ops"
  by (induction ops arbitrary: i j) auto

lemma rows_length: "length (rows_from ops old new i j) = length ops"
  using arg_cong [OF rows_ops, of length ops old new i j] by simp

lemma rows_counts:
  "length (filter (\<lambda>r. dr_op r \<noteq> Op_Insert) (rows_from ops old new i j)) = old_count ops"
  "length (filter (\<lambda>r. dr_op r \<noteq> Op_Delete) (rows_from ops old new i j)) = new_count ops"
  by (induction ops arbitrary: i j) auto

text \<open>The rows of a stretch of the diff, in place.\<close>

lemma rows_apply:
  assumes "turns ops us vs" and "drop i old = us @ rest" and "drop j new = vs @ news"
  shows "apply_rows (rows_from ops old new i j) (us @ rest) = Some (vs, rest)"
  using assms
proof (induction ops us vs arbitrary: i j rule: turns.induct)
  case (2 ops x xs y ys)
  have "old ! i = x" "new ! j = y" "drop (i + 1) old = xs @ rest" "drop (j + 1) new = ys @ news"
    using 2(3,4) by (simp_all add: nth_via_drop drop_Suc flip: tl_drop)
  then show ?case using 2(1) [of "i + 1" "j + 1"] 2(2) by simp
next
  case (3 ops x xs ys)
  have "old ! i = x" "drop (i + 1) old = xs @ rest" using 3(3) by (simp_all add: nth_via_drop drop_Suc flip: tl_drop)
  then show ?case using 3(1) [of "i + 1" j] 3(2,4) by simp
next
  case (4 ops xs y ys)
  have "new ! j = y" "drop (j + 1) new = ys @ news" using 4(4) by (simp_all add: nth_via_drop drop_Suc flip: tl_drop)
  then show ?case using 4(1) [of i "j + 1"] 4(2,3) by simp
qed simp_all

lemma turns_counts: "turns ops xs ys \<Longrightarrow> old_count ops = length xs \<and> new_count ops = length ys"
  by (induction ops xs ys rule: turns.induct) auto

lemma turns_split:
  "turns (p @ q) xs ys \<Longrightarrow> turns p (take (old_count p) xs) (take (new_count p) ys) \<and> turns q (drop (old_count p) xs) (drop (new_count p) ys)"
proof (induction p xs ys rule: turns.induct)
  case (2 ops x xs y ys) then show ?case by simp
next
  case (3 ops x xs ys) then show ?case by simp
next
  case (4 ops xs y ys) then show ?case by simp
qed auto

lemma turns_kept: "turns ops xs ys \<Longrightarrow> \<forall>x\<in>set ops. x = Op_Equal \<Longrightarrow> xs = ys \<and> length ops = length xs"
  by (induction ops xs ys rule: turns.induct) auto

section \<open>The groups of changes\<close>

lemma groups_snoc:
  "groups_from ctx i (rs @ [r]) gs =
     (let seen = groups_from ctx i rs gs
      in if dr_op r = Op_Equal then seen
         else if seen \<noteq> [] \<and> i + length rs \<le> snd (last seen) + 2 * ctx + 1 then butlast seen @ [(fst (last seen), i + length rs)]
         else seen @ [(i + length rs, i + length rs)])"
  by (induction rs arbitrary: i gs) (simp_all add: Let_def)

definition groups_ok :: "nat \<Rightarrow> diff_op list \<Rightarrow> (nat \<times> nat) list \<Rightarrow> bool" where
  "groups_ok ctx ops gs \<longleftrightarrow> sorted_wrt (\<lambda>g h. snd g + 2 * ctx + 1 < fst h) gs \<and> (\<forall>g\<in>set gs. fst g \<le> snd g \<and> snd g < length ops) \<and>
     (\<forall>k < length ops. ops ! k \<noteq> Op_Equal \<longrightarrow> (\<exists>g\<in>set gs. fst g \<le> k \<and> k \<le> snd g))"

lemma groups_ok_equal: "groups_ok ctx ops gs \<Longrightarrow> groups_ok ctx (ops @ [Op_Equal]) gs"
  by (auto simp: groups_ok_def nth_append less_Suc_eq)

lemma groups_ok_grow:
  assumes "groups_ok ctx ops (gs @ [(f, l)])"
  shows "groups_ok ctx (ops @ [x]) (gs @ [(f, length ops)])"
  unfolding groups_ok_def
proof (intro conjI ballI allI impI)
  show "sorted_wrt (\<lambda>g h. snd g + 2 * ctx + 1 < fst h) (gs @ [(f, length ops)])" using assms by (simp add: groups_ok_def sorted_wrt_append)
next
  fix g assume "g \<in> set (gs @ [(f, length ops)])"
  then show "fst g \<le> snd g" "snd g < length (ops @ [x])" using assms by (auto simp: groups_ok_def)
next
  fix k assume k: "k < length (ops @ [x])" and op: "(ops @ [x]) ! k \<noteq> Op_Equal"
  show "\<exists>g\<in>set (gs @ [(f, length ops)]). fst g \<le> k \<and> k \<le> snd g"
  proof (cases "k = length ops")
    case True
    then show ?thesis using assms by (auto simp: groups_ok_def)
  next
    case False
    then have "k < length ops" "ops ! k \<noteq> Op_Equal" using k op by (simp_all add: nth_append)
    then obtain g where "g \<in> set (gs @ [(f, l)])" "fst g \<le> k" "k \<le> snd g" using assms [unfolded groups_ok_def] by blast
    then show ?thesis using k by auto
  qed
qed

lemma groups_ok_push:
  assumes "groups_ok ctx ops gs" and "gs = [] \<or> snd (last gs) + 2 * ctx + 1 < length ops"
  shows "groups_ok ctx (ops @ [x]) (gs @ [(length ops, length ops)])"
  unfolding groups_ok_def
proof (intro conjI ballI allI impI)
  have "snd g + 2 * ctx + 1 < length ops" if g: "g \<in> set gs" for g
  proof -
    obtain hs h where gs: "gs = hs @ [h]" using g by (cases gs rule: rev_cases) auto
    have last: "snd h + 2 * ctx + 1 < length ops" "fst h \<le> snd h" using assms gs by (auto simp: groups_ok_def)
    show ?thesis
    proof (cases "g = h")
      case False
      then have "snd g + 2 * ctx + 1 < fst h" using assms(1) g gs by (auto simp: groups_ok_def sorted_wrt_append)
      then show ?thesis using last by simp
    qed (use last in simp)
  qed
  then show "sorted_wrt (\<lambda>g h. snd g + 2 * ctx + 1 < fst h) (gs @ [(length ops, length ops)])"
    using assms(1) by (simp add: groups_ok_def sorted_wrt_append)
next
  fix g assume "g \<in> set (gs @ [(length ops, length ops)])"
  then show "fst g \<le> snd g" "snd g < length (ops @ [x])" using assms(1) by (auto simp: groups_ok_def)
next
  fix k assume k: "k < length (ops @ [x])" and op: "(ops @ [x]) ! k \<noteq> Op_Equal"
  show "\<exists>g\<in>set (gs @ [(length ops, length ops)]). fst g \<le> k \<and> k \<le> snd g"
  proof (cases "k = length ops")
    case False
    then show ?thesis using assms(1) k op by (auto simp: groups_ok_def nth_append)
  qed simp
qed

lemma change_groups_ok: "groups_ok ctx (map dr_op rs) (change_groups rs ctx)"
  unfolding change_groups_def
proof (induction rs rule: rev_induct)
  case Nil
  then show ?case by (simp add: groups_ok_def)
next
  case (snoc r rs)
  let ?gs = "groups_from ctx 0 rs []"
  consider (same) "dr_op r = Op_Equal" | (grow) "dr_op r \<noteq> Op_Equal" "?gs \<noteq> []" "length rs \<le> snd (last ?gs) + 2 * ctx + 1"
    | (push) "dr_op r \<noteq> Op_Equal" "?gs = [] \<or> \<not> length rs \<le> snd (last ?gs) + 2 * ctx + 1" by blast
  then show ?case
  proof cases
    case same
    then show ?thesis using snoc groups_ok_equal by (simp add: groups_snoc)
  next
    case grow
    then have "groups_ok ctx (map dr_op rs) (butlast ?gs @ [(fst (last ?gs), snd (last ?gs))])" using snoc by simp
    from groups_ok_grow [OF this, of "dr_op r"] show ?thesis using grow by (simp add: groups_snoc Let_def)
  next
    case push
    then have "groups_from ctx 0 (rs @ [r]) [] = ?gs @ [(length rs, length rs)]" by (auto simp: groups_snoc)
    moreover have "?gs = [] \<or> snd (last ?gs) + 2 * ctx + 1 < length (map dr_op rs)" using push by auto
    ultimately show ?thesis using groups_ok_push [OF snoc, of "dr_op r"] by simp
  qed
qed

section \<open>The hunks put the new lines in place\<close>

text \<open>One window of the rows, as a hunk.\<close>

lemma window_rows:
  assumes "s \<le> e" and "e < length ops"
  shows "take (e + 1 - s) (drop s (rows_from ops old new 0 0)) =
    rows_from (take (e + 1 - s) (drop s ops)) old new (old_count (take s ops)) (new_count (take s ops))"
proof -
  have "rows_from ops old new 0 0 = rows_from (take s ops) old new 0 0 @ rows_from (drop s ops) old new (old_count (take s ops)) (new_count (take s ops))"
    using rows_from_append [of "take s ops" "drop s ops" old new 0 0] by (simp only: append_take_drop_id add_0)
  moreover have "rows_from (drop s ops) old new i j = rows_from (take (e + 1 - s) (drop s ops)) old new i j @
      rows_from (drop (e + 1 - s) (drop s ops)) old new (i + old_count (take (e + 1 - s) (drop s ops))) (j + new_count (take (e + 1 - s) (drop s ops)))" for i j
    using rows_from_append [of "take (e + 1 - s) (drop s ops)" "drop (e + 1 - s) (drop s ops)" old new i j] by (simp only: append_take_drop_id)
  ultimately show ?thesis using assms by (simp add: rows_length)
qed

lemma window_hunk_header:
  assumes "ops \<noteq> []"
  shows "header_line (hk_old_start (window_hunk (rows_from ops old new i j))) (hk_old_count (window_hunk (rows_from ops old new i j))) = i"
    and "header_line (hk_new_start (window_hunk (rows_from ops old new i j))) (hk_new_count (window_hunk (rows_from ops old new i j))) = j"
    and "hk_old_count (window_hunk (rows_from ops old new i j)) = old_count ops"
    and "hk_new_count (window_hunk (rows_from ops old new i j)) = new_count ops"
    and "hk_rows (window_hunk (rows_from ops old new i j)) = rows_from ops old new i j"
  using assms by (cases ops; simp add: window_hunk_def Let_def header_line_def rows_counts)+

lemma counts_kept: "\<forall>x\<in>set mid. x = Op_Equal \<Longrightarrow> old_count mid = length mid \<and> new_count mid = length mid"
  by (induction mid) auto

text \<open>A stretch both sides share, then one hunk.\<close>

lemma patch_step:
  assumes keep: "\<forall>x\<in>set mid. x = Op_Equal" and w: "w \<noteq> []" and t: "turns (mid @ w @ rest) (drop i old) (drop j new)"
    and later: "patch hs (i + old_count (mid @ w)) (j + new_count (mid @ w)) (drop (i + old_count (mid @ w)) old) = Some (drop (j + new_count (mid @ w)) new)"
  shows "patch (window_hunk (rows_from w old new (i + length mid) (j + length mid)) # hs) i j (drop i old) = Some (drop j new)"
proof -
  let ?m = "length mid" and ?xs = "drop i old" and ?ys = "drop j new"
  have mid_counts: "old_count mid = ?m" "new_count mid = ?m" using counts_kept [OF keep] by simp_all
  have parts: "turns mid (take ?m ?xs) (take ?m ?ys)" "turns (w @ rest) (drop ?m ?xs) (drop ?m ?ys)"
    using turns_split [OF t] mid_counts by simp_all
  have same: "take ?m ?xs = take ?m ?ys" and long: "?m \<le> length ?xs" using turns_kept [OF parts(1) keep] by (simp_all only: length_take min_def split: if_splits)
  have turn: "turns w (take (old_count w) (drop ?m ?xs)) (take (new_count w) (drop ?m ?ys))" using turns_split [OF parts(2)] by simp
  have lens: "length (take (old_count w) (drop ?m ?xs)) = old_count w" "length (take (new_count w) (drop ?m ?ys)) = new_count w"
    using turns_counts [OF turn] by simp_all
  have "apply_rows (rows_from w old new (i + ?m) (j + ?m)) (take (old_count w) (drop ?m ?xs) @ drop (old_count w) (drop ?m ?xs)) =
      Some (take (new_count w) (drop ?m ?ys), drop (old_count w) (drop ?m ?xs))"
    by (rule rows_apply [OF turn, where news = "drop (new_count w) (drop ?m ?ys)"]) (simp_all only: append_take_drop_id drop_drop [of ?m] add.commute [of ?m])
  then have applied: "apply_rows (rows_from w old new (i + ?m) (j + ?m)) (drop ?m ?xs) = Some (take (new_count w) (drop ?m ?ys), drop (old_count w) (drop ?m ?xs))"
    by (simp only: append_take_drop_id)
  have left: "drop (old_count w) (drop ?m ?xs) = drop (i + old_count (mid @ w)) old" by (simp add: mid_counts add.commute add.left_commute)
  have tail: "drop (j + new_count (mid @ w)) new = drop (new_count w) (drop ?m ?ys)" by (simp add: mid_counts add.commute add.left_commute)
  have size: "length (drop ?m ?xs) - length (drop (old_count w) (drop ?m ?xs)) = old_count w" using lens(1) by simp
  have next_at: "i + ?m + old_count w = i + old_count (mid @ w)" "j + ?m + new_count w = j + new_count (mid @ w)" using mid_counts by simp_all
  have short: "\<not> (i + ?m < i \<or> length ?xs < i + ?m - i \<or> j + ?m \<noteq> j + (i + ?m - i))" using long by simp
  have n: "i + ?m - i = ?m" by simp
  have header: "header_line (hk_old_start (window_hunk (rows_from w old new (i + ?m) (j + ?m)))) (old_count w) = i + ?m"
    "header_line (hk_new_start (window_hunk (rows_from w old new (i + ?m) (j + ?m)))) (new_count w) = j + ?m"
    using window_hunk_header [OF w, of old new "i + ?m" "j + ?m"] by simp_all
  have counts: "\<not> (length (take (new_count w) (drop ?m ?ys)) \<noteq> new_count w \<or> length (drop ?m ?xs) - length (drop (old_count w) (drop ?m ?xs)) \<noteq> old_count w)"
    using lens(2) size by simp
  have whole: "take ?m ?xs @ take (new_count w) (drop ?m ?ys) @ drop (new_count w) (drop ?m ?ys) = ?ys" using same by (simp only: append_take_drop_id)
  show ?thesis
    unfolding patch.simps Let_def window_hunk_header(3-5) [OF w] header if_not_P [OF short] n applied option.case prod.case if_not_P [OF counts] next_at
    unfolding left later option.map
    unfolding tail using short by (simp only: whole n if_False)
qed

lemma take_step: "a \<le> b \<Longrightarrow> take b xs = take a xs @ take (b - a) (drop a xs)"
  by (metis le_add_diff_inverse take_add)

lemma patch_windows:
  assumes t: "turns ops old new" and "sorted_wrt (\<lambda>g h. snd g + 2 * ctx + 1 < fst h) gs" and "\<forall>g\<in>set gs. fst g \<le> snd g \<and> snd g < length ops"
    and "\<forall>k < length ops. a \<le> k \<longrightarrow> ops ! k \<noteq> Op_Equal \<longrightarrow> (\<exists>g\<in>set gs. fst g \<le> k \<and> k \<le> snd g)" and "a \<le> length ops"
    and "\<forall>g\<in>set gs. a \<le> fst g - ctx"
  shows "patch (map (group_hunk (rows_from ops old new 0 0) ctx) gs) (old_count (take a ops)) (new_count (take a ops)) (drop (old_count (take a ops)) old) =
    Some (drop (new_count (take a ops)) new)"
  using assms(2-)
proof (induction gs arbitrary: a)
  case Nil
  have "turns (drop a ops) (drop (old_count (take a ops)) old) (drop (new_count (take a ops)) new)"
    using turns_split [of "take a ops" "drop a ops" old new] t by simp
  moreover have "\<forall>x\<in>set (drop a ops). x = Op_Equal" using Nil.prems by (auto simp: in_set_conv_nth)
  ultimately have "drop (old_count (take a ops)) old = drop (new_count (take a ops)) new" by (rule turns_kept [THEN conjunct1])
  then show ?case by simp
next
  case (Cons g gs)
  let ?s = "fst g - ctx" and ?e = "min (snd g + ctx) (length ops - 1)"
  let ?mid = "take (?s - a) (drop a ops)" and ?w = "take (?e + 1 - ?s) (drop ?s ops)"
  have g: "fst g \<le> snd g" "snd g < length ops" "a \<le> ?s" using Cons.prems by simp_all
  have se: "?s \<le> ?e" "?e < length ops" using g by auto
  have mid: "length ?mid = ?s - a" using g se by auto
  have start: "take ?s ops = take a ops @ ?mid" using take_step [OF g(3)] .
  have stop: "take (?e + 1) ops = take a ops @ ?mid @ ?w" using take_step [OF trans_le_add1 [OF se(1), of 1], of ops] unfolding start append.assoc .
  have keep: "\<forall>x\<in>set ?mid. x = Op_Equal"
  proof
    fix x assume "x \<in> set ?mid"
    then obtain k where k: "k < ?s - a" "x = ops ! (a + k)" using mid by (auto simp: in_set_conv_nth)
    have "\<not> (\<exists>h\<in>set (g # gs). fst h \<le> a + k \<and> a + k \<le> snd h)"
    proof
      assume "\<exists>h\<in>set (g # gs). fst h \<le> a + k \<and> a + k \<le> snd h"
      then obtain h where "h \<in> set (g # gs)" "fst h \<le> a + k" by blast
      moreover from this have "fst g \<le> fst h" using Cons.prems(1) g(1) by auto
      ultimately show False using k(1) by simp
    qed
    moreover have "a + k < length ops" using k(1) g(1,2) by linarith
    ultimately show "x = Op_Equal" using Cons.prems(3) k(2) by auto
  qed
  have equal_counts: "old_count ?mid = ?s - a" "new_count ?mid = ?s - a"
    using counts_kept [OF keep] mid by simp_all
  have "patch (map (group_hunk (rows_from ops old new 0 0) ctx) gs) (old_count (take (?e + 1) ops)) (new_count (take (?e + 1) ops))
      (drop (old_count (take (?e + 1) ops)) old) = Some (drop (new_count (take (?e + 1) ops)) new)"
  proof (rule Cons.IH)
    show "\<forall>k < length ops. ?e + 1 \<le> k \<longrightarrow> ops ! k \<noteq> Op_Equal \<longrightarrow> (\<exists>h\<in>set gs. fst h \<le> k \<and> k \<le> snd h)"
      using Cons.prems(3) g by fastforce
    show "\<forall>h\<in>set gs. ?e + 1 \<le> fst h - ctx" using Cons.prems(1) by auto
  qed (use Cons.prems se in auto)
  then have later: "patch (map (group_hunk (rows_from ops old new 0 0) ctx) gs) (old_count (take a ops) + old_count (?mid @ ?w)) (new_count (take a ops) + new_count (?mid @ ?w))
      (drop (old_count (take a ops) + old_count (?mid @ ?w)) old) = Some (drop (new_count (take a ops) + new_count (?mid @ ?w)) new)"
    unfolding stop by simp
  have "turns (drop a ops) (drop (old_count (take a ops)) old) (drop (new_count (take a ops)) new)"
    using turns_split [of "take a ops" "drop a ops" old new] t by simp
  moreover have "drop a ops = ?mid @ ?w @ drop (?e + 1) ops"
    using append_take_drop_id [of "?e + 1" ops] append_take_drop_id [of a ops] unfolding stop by (metis append.assoc same_append_eq)
  ultimately have turn: "turns (?mid @ ?w @ drop (?e + 1) ops) (drop (old_count (take a ops)) old) (drop (new_count (take a ops)) new)" by simp
  have w: "?w \<noteq> []" using se(1) g(1,2) unfolding take_eq_Nil drop_eq_Nil by linarith
  have "group_hunk (rows_from ops old new 0 0) ctx g = window_hunk (rows_from ?w old new (old_count (take a ops) + length ?mid) (new_count (take a ops) + length ?mid))"
    using window_rows [OF se, of old new] equal_counts mid unfolding group_hunk_def Let_def rows_length start by simp
  then show ?case using patch_step [OF keep w turn later] by simp
qed

lemma hunks_patch: "patch (diff_hunks old new ctx) 0 0 old = Some new"
proof -
  let ?ops = "diff_ops old new" and ?gs = "change_groups (diff_rows old new) ctx"
  have ok: "groups_ok ctx ?ops ?gs" using change_groups_ok [of ctx "diff_rows old new"] by (simp add: diff_rows_def rows_ops)
  have "patch (map (group_hunk (rows_from ?ops old new 0 0) ctx) ?gs) (old_count (take 0 ?ops)) (new_count (take 0 ?ops)) (drop (old_count (take 0 ?ops)) old) =
      Some (drop (new_count (take 0 ?ops)) new)"
    by (rule patch_windows [OF diff_ops_turns]) (use ok in \<open>simp_all add: groups_ok_def\<close>)
  then show ?thesis by (simp add: diff_hunks_def diff_rows_def Let_def)
qed

text \<open>C35: The hunks of a diff, applied in order to the old lines, give the new lines: every hunk starts where its header says on both sides,
  holds the number of lines it announces, repeats the old text it keeps or deletes and meets no other hunk.\<close>

theorem diff_patches_the_file:
  "patch (diff_hunks (split_lines before) (split_lines after) ctx) 0 0 (split_lines before) = Some (split_lines after)"
  by (rule hunks_patch)

section \<open>What is reported\<close>

lemma write_hunks_short: "write_hunks cap hs d = Some x \<Longrightarrow> length d \<le> cap \<Longrightarrow> length x \<le> cap"
  by (induction cap hs d rule: write_hunks.induct) (auto simp: Let_def split: if_splits)

lemma write_hunks_text: "write_hunks cap hs d = Some x \<Longrightarrow> x = d @ concat (map hunk_text hs)"
  by (induction cap hs d rule: write_hunks.induct) (auto simp: Let_def split: if_splits)

text \<open>A reported diff keeps to the ceiling.\<close>

lemma diff_keeps_to_the_ceiling:
  assumes "unified_diff before after ctx cap = Some d"
  shows "length d \<le> cap"
proof (cases "split_lines before = split_lines after")
  case True
  then show ?thesis using assms by (auto simp: unified_diff_def final_newline_diff_def Let_def split: if_splits)
next
  case False
  then obtain x where x: "write_hunks cap (diff_hunks (split_lines before) (split_lines after) ctx) [] = Some x" "d = butlast x"
    using assms by (auto simp: unified_diff_def Let_def split: option.splits if_splits)
  have "length x \<le> cap" by (rule write_hunks_short [OF x(1)]) simp
  then show ?thesis using x(2) by simp
qed

text \<open>Different lines have a hunk: without one the old lines would stay as they are.\<close>

lemma different_lines_have_a_hunk: "old \<noteq> new \<Longrightarrow> diff_hunks old new ctx \<noteq> []"
proof
  assume differ: "old \<noteq> new" and none: "diff_hunks old new ctx = []"
  show False using hunks_patch [of old new ctx] differ unfolding none by simp
qed

text \<open>Files whose lines differ have no diff only where the text of the hunks is over the ceiling.\<close>

lemma no_diff_is_too_long:
  assumes "split_lines before \<noteq> split_lines after" and "unified_diff before after ctx cap = None"
  shows "write_hunks cap (diff_hunks (split_lines before) (split_lines after) ctx) [] = None"
proof -
  obtain h hs where h: "diff_hunks (split_lines before) (split_lines after) ctx = h # hs"
    using different_lines_have_a_hunk [OF assms(1)] by (cases "diff_hunks (split_lines before) (split_lines after) ctx") auto
  show ?thesis
  proof (cases "write_hunks cap (diff_hunks (split_lines before) (split_lines after) ctx) []")
    case (Some x)
    then have "x \<noteq> []" using write_hunks_text [OF Some] h by (simp add: hunk_text_def)
    then show ?thesis using assms Some by (simp add: unified_diff_def)
  qed simp
qed

lemma worked_diffs:
  "unified_diff '''' (''alpha'' @ newline # ''beta'' @ [newline]) 3 200 = Some (''@@ -0,0 +1,2 @@'' @ newline # ''+alpha'' @ newline # ''+beta'')"
  "unified_diff (''one'' @ newline # ''two'') (''one'' @ newline # ''two'' @ newline # ''three'') 3 200 =
     Some (''@@ -1,2 +1,3 @@'' @ newline # '' one'' @ newline # '' two'' @ newline # ''+three'')"
  "unified_diff (''one'' @ newline # ''two'') (''one'' @ newline # ''two'' @ [newline]) 3 200 =
     Some (''@@ -1,2 +1,2 @@'' @ newline # '' one'' @ newline # ''-two'' @ newline # ''+two'')"
  "unified_diff (''a'' @ newline # ''b'') (''c'' @ newline # ''d'') 3 10 = None"
  by (simp_all add: unified_diff_def split_lines_def diff_hunks_def diff_rows_def diff_ops_def MAX_MATCH_CELLS_def match_middle_def match_table_def
    match_cell_def match_walk.simps change_groups_def group_hunk_def window_hunk_def hunk_text_def marker_def final_newline_diff_def Let_def upt_rec
    nat_text.simps digit_char_def newline_def) code_simp+

end
