(* ===== verification/Change_Feed.thy ===== *)
theory Change_Feed
  imports Flush_Store
begin

text \<open>
  The transcript as readers get it (\<^verbatim>\<open>src-tauri/src/persistence/events.rs\<close>): the two transcript tables with their rowids, the change
  feed that the triggers of \<^verbatim>\<open>persistence/migrations.rs\<close> keep beside them and prune, and the three kinds of reading: the bounded tail,
  pages by rowid and pages of the feed. What \<^verbatim>\<open>tool_activity.rs\<close> and \<^verbatim>\<open>timeline_semantics.rs\<close> add to a row for display and the
  length of a value's JSON are arguments.
\<close>

section \<open>Tables\<close>

definition SESSION_EVENT_PAGE_LIMIT :: nat where "SESSION_EVENT_PAGE_LIMIT = 500"
definition SESSION_TAIL_DURABLE_LIMIT :: nat where "SESSION_TAIL_DURABLE_LIMIT = 2000"
definition SESSION_TAIL_OPEN_RUN_LIMIT :: nat where "SESSION_TAIL_OPEN_RUN_LIMIT = 5000"
definition SESSION_RAW_OUTPUT_PAGE_LIMIT :: nat where "SESSION_RAW_OUTPUT_PAGE_LIMIT = 100"
definition SESSION_CHANGE_PAGE_LIMIT :: nat where "SESSION_CHANGE_PAGE_LIMIT = 500"

datatype entity_kind = Entity_Event | Entity_Raw_Output
datatype change_operation = Change_Upsert | Change_Delete

record change_row =
  ch_sequence :: int
  ch_session :: string
  ch_kind :: entity_kind
  ch_entity :: string
  ch_operation :: change_operation

text \<open>A table is its rows by rowid. \<open>fd_head\<close> is the sequence SQLite keeps for \<^verbatim>\<open>session_changes\<close>, which outlives its rows.\<close>

record transcript_db =
  fd_events :: "(int \<times> event_row) list"
  fd_raws :: "(int \<times> raw_row) list"
  fd_changes :: "change_row list"
  fd_marks :: "string \<Rightarrow> int option"
  fd_head :: int

section \<open>Triggers\<close>

text \<open>Every 256th change drops what is older than the newest fifty thousand or so, after raising the watermark of each chat that loses a row.\<close>

definition raised_mark :: "change_row list \<Rightarrow> (string \<Rightarrow> int option) \<Rightarrow> string \<Rightarrow> int option" where
  "raised_mark old marks s =
     (case map ch_sequence (filter (\<lambda>c. ch_session c = s) old) of
        [] \<Rightarrow> marks s
      | ns \<Rightarrow> Some (case marks s of None \<Rightarrow> Max (set ns) | Some p \<Rightarrow> max p (Max (set ns))))"

definition prune_changes :: "int \<Rightarrow> transcript_db \<Rightarrow> transcript_db" where
  "prune_changes n d =
     (if n mod 256 = 0
      then d\<lparr>fd_marks := raised_mark (filter (\<lambda>c. ch_sequence c \<le> n - 49745) (fd_changes d)) (fd_marks d),
             fd_changes := filter (\<lambda>c. \<not> ch_sequence c \<le> n - 49745) (fd_changes d)\<rparr>
      else d)"

definition log_change :: "string \<Rightarrow> entity_kind \<Rightarrow> string \<Rightarrow> change_operation \<Rightarrow> transcript_db \<Rightarrow> transcript_db" where
  "log_change s k i x d =
     (let n = fd_head d + 1
      in prune_changes n (d\<lparr>fd_head := n,
           fd_changes := fd_changes d @ [\<lparr>ch_sequence = n, ch_session = s, ch_kind = k, ch_entity = i, ch_operation = x\<rparr>]\<rparr>))"

definition log_update :: "string \<Rightarrow> string \<Rightarrow> string \<Rightarrow> string \<Rightarrow> entity_kind \<Rightarrow> transcript_db \<Rightarrow> transcript_db" where
  "log_update old_session old_id new_session new_id k d =
     log_change new_session k new_id Change_Upsert
       (if old_session \<noteq> new_session \<or> old_id \<noteq> new_id then log_change old_session k old_id Change_Delete d else d)"

section \<open>Writes\<close>

definition next_rowid :: "(int \<times> 'r) list \<Rightarrow> int" where
  "next_rowid rows = (if rows = [] then 1 else Max (set (map fst rows)) + 1)"

text \<open>A statement that would repeat an id fails (\<open>None\<close>) and changes nothing.\<close>

definition insert_event :: "event_row \<Rightarrow> transcript_db \<Rightarrow> transcript_db option" where
  "insert_event r d =
     (if ev_id r \<in> set (map (ev_id \<circ> snd) (fd_events d)) then None
      else Some (log_change (ev_session r) Entity_Event (ev_id r) Change_Upsert (d\<lparr>fd_events := fd_events d @ [(next_rowid (fd_events d), r)]\<rparr>)))"

definition update_event :: "int \<Rightarrow> (event_row \<Rightarrow> event_row) \<Rightarrow> transcript_db \<Rightarrow> transcript_db option" where
  "update_event n f d =
     (case map_of (fd_events d) n of
        None \<Rightarrow> Some d
      | Some r \<Rightarrow>
          if \<exists>p\<in>set (fd_events d). fst p \<noteq> n \<and> ev_id (snd p) = ev_id (f r) then None
          else Some (log_update (ev_session r) (ev_id r) (ev_session (f r)) (ev_id (f r)) Entity_Event
                 (d\<lparr>fd_events := map (\<lambda>p. if fst p = n then (n, f r) else p) (fd_events d)\<rparr>)))"

definition delete_event :: "int \<Rightarrow> transcript_db \<Rightarrow> transcript_db" where
  "delete_event n d =
     (case map_of (fd_events d) n of
        None \<Rightarrow> d
      | Some r \<Rightarrow> log_change (ev_session r) Entity_Event (ev_id r) Change_Delete (d\<lparr>fd_events := filter (\<lambda>p. fst p \<noteq> n) (fd_events d)\<rparr>))"

definition insert_raw :: "raw_row \<Rightarrow> transcript_db \<Rightarrow> transcript_db option" where
  "insert_raw r d =
     (if rr_id r \<in> set (map (rr_id \<circ> snd) (fd_raws d)) then None
      else Some (log_change (rr_session r) Entity_Raw_Output (rr_id r) Change_Upsert (d\<lparr>fd_raws := fd_raws d @ [(next_rowid (fd_raws d), r)]\<rparr>)))"

definition update_raw :: "int \<Rightarrow> (raw_row \<Rightarrow> raw_row) \<Rightarrow> transcript_db \<Rightarrow> transcript_db option" where
  "update_raw n f d =
     (case map_of (fd_raws d) n of
        None \<Rightarrow> Some d
      | Some r \<Rightarrow>
          if \<exists>p\<in>set (fd_raws d). fst p \<noteq> n \<and> rr_id (snd p) = rr_id (f r) then None
          else Some (log_update (rr_session r) (rr_id r) (rr_session (f r)) (rr_id (f r)) Entity_Raw_Output
                 (d\<lparr>fd_raws := map (\<lambda>p. if fst p = n then (n, f r) else p) (fd_raws d)\<rparr>)))"

definition delete_raw :: "int \<Rightarrow> transcript_db \<Rightarrow> transcript_db" where
  "delete_raw n d =
     (case map_of (fd_raws d) n of
        None \<Rightarrow> d
      | Some r \<Rightarrow> log_change (rr_session r) Entity_Raw_Output (rr_id r) Change_Delete (d\<lparr>fd_raws := filter (\<lambda>p. fst p \<noteq> n) (fd_raws d)\<rparr>))"

text \<open>Removing a chat removes its rows first; then its trigger drops what they left in the feed.\<close>

definition remove_chat :: "string \<Rightarrow> transcript_db \<Rightarrow> transcript_db" where
  "remove_chat s d =
     (let events = map fst (filter (\<lambda>p. ev_session (snd p) = s) (fd_events d)); raws = map fst (filter (\<lambda>p. rr_session (snd p) = s) (fd_raws d));
          d = fold delete_raw raws (fold delete_event events d)
      in d\<lparr>fd_changes := filter (\<lambda>c. ch_session c \<noteq> s) (fd_changes d), fd_marks := (fd_marks d)(s := None)\<rparr>)"

section \<open>Rows as they are read\<close>

record 's timeline_event =
  te_id :: string
  te_session :: string
  te_type :: string
  te_message :: string
  te_payload :: json
  te_semantic :: 's
  te_created :: string
  te_cursor :: "int option"

record provider_output =
  po_id :: string
  po_session :: string
  po_stream :: string
  po_content :: string
  po_created :: string
  po_cursor :: "int option"

record 's reading =
  rd_enrich :: "string \<Rightarrow> json \<Rightarrow> json"  \<comment> \<open>\<^verbatim>\<open>enrich_tool_activity\<close>\<close>
  rd_derive :: "string \<Rightarrow> string \<Rightarrow> json \<Rightarrow> 's"  \<comment> \<open>\<^verbatim>\<open>timeline_semantics::derive\<close>\<close>

definition event_row_to_timeline_event :: "'s reading \<Rightarrow> int \<times> event_row \<Rightarrow> 's timeline_event" where
  "event_row_to_timeline_event rd p =
     (let r = snd p; payload = rd_enrich rd (ev_type r) (ev_payload r)
      in \<lparr>te_id = ev_id r, te_session = ev_session r, te_type = ev_type r, te_message = ev_message r, te_payload = payload,
          te_semantic = rd_derive rd (ev_type r) (ev_id r) payload, te_created = ev_created r, te_cursor = Some (fst p)\<rparr>)"

definition raw_output_row_to_provider_output :: "int \<times> raw_row \<Rightarrow> provider_output" where
  "raw_output_row_to_provider_output p =
     (let r = snd p
      in \<lparr>po_id = rr_id r, po_session = rr_session r, po_stream = rr_stream r, po_content = rr_content r, po_created = rr_created r,
          po_cursor = Some (fst p)\<rparr>)"

definition max_cursor :: "int option list \<Rightarrow> int \<Rightarrow> int" where
  "max_cursor cs fallback_cursor = (case List.map_filter id cs of [] \<Rightarrow> fallback_cursor | ns \<Rightarrow> Max (set ns))"

definition max_row_cursor :: "'s timeline_event list \<Rightarrow> int \<Rightarrow> int" where
  "max_row_cursor es n = max_cursor (map te_cursor es) n"

definition max_raw_row_cursor :: "provider_output list \<Rightarrow> int \<Rightarrow> int" where
  "max_raw_row_cursor ws n = max_cursor (map po_cursor ws) n"

record 's session_page =
  pg_events :: "'s timeline_event list"
  pg_raw_outputs :: "provider_output list"
  pg_event_cursor :: int
  pg_raw_output_cursor :: int
  pg_change_cursor :: "int option"
  pg_deleted_event_ids :: "string list"
  pg_deleted_raw_output_ids :: "string list"
  pg_reset_required :: bool
  pg_has_more :: bool

definition default_page :: "'s session_page" where
  "default_page = \<lparr>pg_events = [], pg_raw_outputs = [], pg_event_cursor = 0, pg_raw_output_cursor = 0, pg_change_cursor = None,
     pg_deleted_event_ids = [], pg_deleted_raw_output_ids = [], pg_reset_required = False, pg_has_more = False\<rparr>"

section \<open>Rows of a chat\<close>

definition chat_events :: "string \<Rightarrow> transcript_db \<Rightarrow> (int \<times> event_row) list" where
  "chat_events s d = sort_key fst (filter (\<lambda>p. ev_session (snd p) = s) (fd_events d))"

definition chat_raws :: "string \<Rightarrow> transcript_db \<Rightarrow> (int \<times> raw_row) list" where
  "chat_raws s d = sort_key fst (filter (\<lambda>p. rr_session (snd p) = s) (fd_raws d))"

text \<open>The newest rows, back to the start of an open run of deltas, and every durable row up to a cap.\<close>

definition tail_floor :: "string \<Rightarrow> transcript_db \<Rightarrow> int" where
  "tail_floor s d =
     (let rows = chat_events s d; newest = rev rows; page = map fst (take SESSION_EVENT_PAGE_LIMIT newest);
          before = filter (\<lambda>n. page \<noteq> [] \<and> n < Min (set page)) (map fst (filter (\<lambda>p. ev_type (snd p) \<noteq> ''message.delta'') rows));
          opened = (if before = [] then 0 else Max (set before));
          capped = (if SESSION_TAIL_OPEN_RUN_LIMIT < length newest then fst (newest ! SESSION_TAIL_OPEN_RUN_LIMIT) else 0)
      in max opened capped)"

definition list_event_rows :: "'s reading \<Rightarrow> string \<Rightarrow> int option \<Rightarrow> transcript_db \<Rightarrow> 's timeline_event list" where
  "list_event_rows rd s cursor d =
     map (event_row_to_timeline_event rd)
       (case cursor of
          Some n \<Rightarrow> take SESSION_EVENT_PAGE_LIMIT (filter (\<lambda>p. fst p > n) (chat_events s d))
        | None \<Rightarrow>
            (let durable = map fst (take SESSION_TAIL_DURABLE_LIMIT (rev (filter (\<lambda>p. ev_type (snd p) \<noteq> ''message.delta'') (chat_events s d))))
             in filter (\<lambda>p. fst p > tail_floor s d \<or> fst p \<in> set durable) (chat_events s d)))"

definition list_raw_output_rows :: "string \<Rightarrow> int option \<Rightarrow> transcript_db \<Rightarrow> provider_output list" where
  "list_raw_output_rows s cursor d =
     map raw_output_row_to_provider_output
       (case cursor of
          Some n \<Rightarrow> take SESSION_RAW_OUTPUT_PAGE_LIMIT (filter (\<lambda>p. fst p > n) (chat_raws s d))
        | None \<Rightarrow> rev (take SESSION_RAW_OUTPUT_PAGE_LIMIT (rev (chat_raws s d))))"

definition list_events_by_ids :: "'s reading \<Rightarrow> string \<Rightarrow> string list \<Rightarrow> transcript_db \<Rightarrow> 's timeline_event list" where
  "list_events_by_ids rd s ids d = map (event_row_to_timeline_event rd) (filter (\<lambda>p. ev_id (snd p) \<in> set ids) (chat_events s d))"

definition list_raw_outputs_by_ids :: "string \<Rightarrow> string list \<Rightarrow> transcript_db \<Rightarrow> provider_output list" where
  "list_raw_outputs_by_ids s ids d = map raw_output_row_to_provider_output (filter (\<lambda>p. rr_id (snd p) \<in> set ids) (chat_raws s d))"

section \<open>Readings\<close>

definition list_session_events_since :: "'s reading \<Rightarrow> string \<Rightarrow> int option \<Rightarrow> int option \<Rightarrow> transcript_db \<Rightarrow> 's session_page" where
  "list_session_events_since rd s event_cursor raw_cursor d =
     (let es = list_event_rows rd s event_cursor d; ws = list_raw_output_rows s raw_cursor d;
          has_more = SESSION_EVENT_PAGE_LIMIT \<le> length es \<or> SESSION_RAW_OUTPUT_PAGE_LIMIT \<le> length ws
      in default_page\<lparr>pg_events := es, pg_raw_outputs := ws,
           pg_event_cursor := max_row_cursor es (case event_cursor of None \<Rightarrow> 0 | Some n \<Rightarrow> n),
           pg_raw_output_cursor := max_raw_row_cursor ws (case raw_cursor of None \<Rightarrow> 0 | Some n \<Rightarrow> n),
           pg_change_cursor := (if has_more then None else Some (fd_head d)), pg_has_more := has_more\<rparr>)"

definition list_authoritative_tail :: "'s reading \<Rightarrow> string \<Rightarrow> transcript_db \<Rightarrow> 's session_page" where
  "list_authoritative_tail rd s d =
     (let es = list_event_rows rd s None d; ws = list_raw_output_rows s None d
      in default_page\<lparr>pg_events := es, pg_raw_outputs := ws, pg_event_cursor := max_row_cursor es 0,
           pg_raw_output_cursor := max_raw_row_cursor ws 0, pg_change_cursor := Some (fd_head d), pg_reset_required := True\<rparr>)"

text \<open>The lengths of what a page would send, for its budget of bytes.\<close>

record 's lengths =
  sz_event :: "'s timeline_event \<Rightarrow> nat"
  sz_raw :: "provider_output \<Rightarrow> nat"
  sz_id :: "string \<Rightarrow> nat"
  sz_page :: "'s session_page \<Rightarrow> nat"

text \<open>What the loop over the changes has included and consumed.\<close>

record consumed =
  cs_event_ids :: "string list"
  cs_raw_ids :: "string list"
  cs_spent :: nat
  cs_count :: nat
  cs_last :: int

definition is_new_event :: "consumed \<Rightarrow> change_row \<Rightarrow> bool" where
  "is_new_event st c \<longleftrightarrow> ch_kind c = Entity_Event \<and> ch_entity c \<notin> set (cs_event_ids st)"

definition is_new_raw_output :: "consumed \<Rightarrow> change_row \<Rightarrow> bool" where
  "is_new_raw_output st c \<longleftrightarrow> ch_kind c = Entity_Raw_Output \<and> ch_entity c \<notin> set (cs_raw_ids st)"

definition contribution :: "'s lengths \<Rightarrow> 's timeline_event list \<Rightarrow> provider_output list \<Rightarrow> nat option \<Rightarrow> consumed \<Rightarrow> change_row \<Rightarrow> nat" where
  "contribution sz es ws budget st c =
     (if budget = None then 0
      else if is_new_event st c
        then (case find (\<lambda>e. te_id e = ch_entity c) es of None \<Rightarrow> sz_id sz (ch_entity c) | Some e \<Rightarrow> sz_event sz e) + 1
      else if is_new_raw_output st c
        then (case find (\<lambda>w. po_id w = ch_entity c) ws of None \<Rightarrow> sz_id sz (ch_entity c) | Some w \<Rightarrow> sz_raw sz w) + 1
      else 0)"

definition included_count :: "consumed \<Rightarrow> nat" where
  "included_count st = length (cs_event_ids st) + length (cs_raw_ids st)"

definition over_budget :: "nat option \<Rightarrow> consumed \<Rightarrow> nat \<Rightarrow> bool" where
  "over_budget budget st n = (case budget of None \<Rightarrow> False | Some b \<Rightarrow> n > 0 \<and> included_count st > 0 \<and> cs_spent st + n > b)"

definition consume_change :: "nat \<Rightarrow> consumed \<Rightarrow> change_row \<Rightarrow> consumed" where
  "consume_change n st c =
     st\<lparr>cs_event_ids := (if is_new_event st c then cs_event_ids st @ [ch_entity c] else cs_event_ids st),
        cs_raw_ids := (if is_new_raw_output st c then cs_raw_ids st @ [ch_entity c] else cs_raw_ids st),
        cs_spent := cs_spent st + n, cs_count := cs_count st + 1, cs_last := ch_sequence c\<rparr>"

fun consume_changes :: "'s lengths \<Rightarrow> 's timeline_event list \<Rightarrow> provider_output list \<Rightarrow> nat option \<Rightarrow> change_row list \<Rightarrow> consumed \<Rightarrow> consumed" where
  "consume_changes sz es ws budget [] st = st"
| "consume_changes sz es ws budget (c # cs) st =
     (let n = contribution sz es ws budget st c
      in if over_budget budget st n then st else consume_changes sz es ws budget cs (consume_change n st c))"

definition list_change_page :: "'s reading \<Rightarrow> 's lengths \<Rightarrow> string \<Rightarrow> int \<Rightarrow> nat option \<Rightarrow> transcript_db \<Rightarrow> argmax_error + 's session_page" where
  "list_change_page rd sz s cursor budget d =
     (if cursor < 0
      then Inl (invalid \<lparr>issue_path = [''changeCursor''], issue_code = ''CHANGE_CURSOR_NEGATIVE'', issue_message = ''change cursor must be zero or greater''\<rparr>)
      else
        (let head = fd_head d; pruned_through = (case fd_marks d s of None \<Rightarrow> 0 | Some n \<Rightarrow> n)
         in if cursor > head \<or> cursor < pruned_through then Inr (list_authoritative_tail rd s d)
            else
              (let changes = take (SESSION_CHANGE_PAGE_LIMIT + 1)
                     (sort_key ch_sequence (filter (\<lambda>c. ch_session c = s \<and> ch_sequence c > cursor \<and> ch_sequence c \<le> head) (fd_changes d)));
                   candidates = take SESSION_CHANGE_PAGE_LIMIT changes;
                   es = list_events_by_ids rd s (map ch_entity (filter (\<lambda>c. ch_kind c = Entity_Event) candidates)) d;
                   ws = list_raw_outputs_by_ids s (map ch_entity (filter (\<lambda>c. ch_kind c = Entity_Raw_Output) candidates)) d;
                   envelope = default_page\<lparr>pg_event_cursor := max_row_cursor es 0, pg_raw_output_cursor := max_raw_row_cursor ws 0,
                     pg_change_cursor := Some head\<rparr>;
                   st = consume_changes sz es ws budget candidates
                     \<lparr>cs_event_ids = [], cs_raw_ids = [], cs_spent = (if budget = None then 0 else sz_page sz envelope), cs_count = 0, cs_last = cursor\<rparr>;
                   has_more = cs_count st < length changes;
                   events' = filter (\<lambda>e. te_id e \<in> set (cs_event_ids st)) es;
                   raws' = filter (\<lambda>w. po_id w \<in> set (cs_raw_ids st)) ws
               in Inr \<lparr>pg_events = events', pg_raw_outputs = raws', pg_event_cursor = max_row_cursor events' 0,
                    pg_raw_output_cursor = max_raw_row_cursor raws' 0, pg_change_cursor = Some (if has_more then cs_last st else head),
                    pg_deleted_event_ids = filter (\<lambda>i. i \<notin> te_id ` set events') (cs_event_ids st),
                    pg_deleted_raw_output_ids = filter (\<lambda>i. i \<notin> po_id ` set raws') (cs_raw_ids st),
                    pg_reset_required = False, pg_has_more = has_more\<rparr>)))"

definition list_session_changes_since ::
  "'s reading \<Rightarrow> 's lengths \<Rightarrow> string \<Rightarrow> int option \<Rightarrow> int option \<Rightarrow> int option \<Rightarrow> nat option \<Rightarrow> transcript_db \<Rightarrow> argmax_error + 's session_page" where
  "list_session_changes_since rd sz s event_cursor raw_cursor change_cursor budget d =
     (case change_cursor of
        Some n \<Rightarrow> list_change_page rd sz s n budget d
      | None \<Rightarrow> if event_cursor \<noteq> None \<or> raw_cursor \<noteq> None then Inr (list_session_events_since rd s event_cursor raw_cursor d)
                else Inr (list_authoritative_tail rd s d))"

section \<open>Writes of the code\<close>

definition update_event_payload :: "string \<Rightarrow> json \<Rightarrow> transcript_db \<Rightarrow> transcript_db option \<times> bool" where
  "update_event_payload i payload d =
     (case find (\<lambda>p. ev_id (snd p) = i) (fd_events d) of
        None \<Rightarrow> (Some d, False)
      | Some p \<Rightarrow> (update_event (fst p) (\<lambda>r. r\<lparr>ev_payload := payload\<rparr>) d, True))"

text \<open>An update whose new id is taken is ignored.\<close>

definition rewrite_trace_event :: "int \<Rightarrow> string \<Rightarrow> json \<Rightarrow> transcript_db \<Rightarrow> transcript_db \<times> bool" where
  "rewrite_trace_event n i payload d =
     (case update_event n (\<lambda>r. r\<lparr>ev_id := i, ev_payload := payload\<rparr>) d of
        None \<Rightarrow> (d, False)
      | Some d' \<Rightarrow> (d', map_of (fd_events d) n \<noteq> None))"

text \<open>What \<^verbatim>\<open>json_extract(..) = 1\<close> and \<^verbatim>\<open>= true\<close> select.\<close>

definition json_is_one :: "string \<Rightarrow> json \<Rightarrow> bool" where
  "json_is_one k p \<longleftrightarrow> json_get k p = Some (JBool True) \<or> json_get k p = Some (JNumber (PosInt 1))"

text \<open>A placeholder completion is filled in by the real one under its id; \<open>r\<close> is the input with its time.\<close>

definition upgrade_trace_no_output_completion :: "event_row \<Rightarrow> transcript_db \<Rightarrow> transcript_db option \<times> bool" where
  "upgrade_trace_no_output_completion r d =
     (if ev_type r \<noteq> ''command.completed'' \<or> json_get ''traceNoOutput'' (ev_payload r) \<noteq> None then (Some d, False)
      else
        (case find (\<lambda>p. ev_id (snd p) = ev_id r \<and> json_is_one ''traceNoOutput'' (ev_payload (snd p))) (fd_events d) of
           None \<Rightarrow> (Some d, False)
         | Some p \<Rightarrow> (update_event (fst p) (\<lambda>q. q\<lparr>ev_message := ev_message r, ev_payload := ev_payload r, ev_created := ev_created r\<rparr>) d, True)))"

definition synthetic_launch :: "string \<Rightarrow> string \<Rightarrow> event_row \<Rightarrow> bool" where
  "synthetic_launch s tool r \<longleftrightarrow> ev_session r = s \<and>
     json_is_one ''traceSyntheticLaunch'' (ev_payload r) \<and>
     json_get ''id'' (ev_payload r) = Some (JString tool)"

definition delete_synthetic_launch_events :: "string \<Rightarrow> string \<Rightarrow> transcript_db \<Rightarrow> transcript_db \<times> nat" where
  "delete_synthetic_launch_events s tool d =
     (let ns = map fst (filter (\<lambda>p. synthetic_launch s tool (snd p)) (fd_events d)) in (fold delete_event ns d, length ns))"

text \<open>Placeholder launch rows leave and come back under new rowids, marked. \<open>native\<close> is what \<^verbatim>\<open>enrich_native_agent_event\<close> makes of a payload.\<close>

definition superseded_payload :: "string \<Rightarrow> json \<Rightarrow> json" where
  "superseded_payload real_tool p =
     (case p of
        JObject kvs \<Rightarrow> JObject (object_insert ''traceSupersededBy'' (JString real_tool)
          (object_insert ''traceSyntheticSuperseded'' (JBool True) (object_remove ''traceSyntheticLaunch'' kvs)))
      | _ \<Rightarrow> p)"

fun insert_events :: "(transcript_db \<Rightarrow> event_row \<Rightarrow> json) \<Rightarrow> event_row list \<Rightarrow> transcript_db \<Rightarrow> transcript_db option" where
  "insert_events native [] d = Some d"
| "insert_events native (r # rs) d =
     (case insert_event (r\<lparr>ev_payload := native d r\<rparr>) d of None \<Rightarrow> None | Some d' \<Rightarrow> insert_events native rs d')"

definition supersede_synthetic_launch_events ::
  "'s reading \<Rightarrow> (transcript_db \<Rightarrow> event_row \<Rightarrow> json) \<Rightarrow> string \<Rightarrow> string \<Rightarrow> string \<Rightarrow> transcript_db \<Rightarrow> (transcript_db \<times> nat) option" where
  "supersede_synthetic_launch_events rd native s tool real_tool d =
     (let rows = filter (\<lambda>p. synthetic_launch s tool (snd p)) (chat_events s d);
          again = map (\<lambda>p. (snd p)\<lparr>ev_payload := superseded_payload real_tool (rd_enrich rd (ev_type (snd p)) (ev_payload (snd p)))\<rparr>) rows;
          (d', n) = delete_synthetic_launch_events s tool d
      in case insert_events native again d' of None \<Rightarrow> None | Some d'' \<Rightarrow> Some (d'', n))"

end
