(* ===== verification/Transcript_Replica.thy ===== *)
theory Transcript_Replica
  imports Change_Feed
begin

text \<open>
  A reader that keeps a chat's transcript from the readings of \<open>Change_Feed\<close>: it replaces what it holds by a tail and applies pages of
  the feed. Writers may change the tables between any two readings, and the feed forgets old changes.
\<close>

section \<open>What is stored and what is held\<close>

datatype 's entity = Event_Entity "'s timeline_event" | Raw_Entity provider_output

definition stored :: "'s reading \<Rightarrow> string \<Rightarrow> transcript_db \<Rightarrow> entity_kind \<Rightarrow> string \<Rightarrow> 's entity option" where
  "stored rd s d k i =
     (case k of
        Entity_Event \<Rightarrow> map_option (Event_Entity \<circ> event_row_to_timeline_event rd) (find (\<lambda>p. ev_id (snd p) = i \<and> ev_session (snd p) = s) (fd_events d))
      | Entity_Raw_Output \<Rightarrow> map_option (Raw_Entity \<circ> raw_output_row_to_provider_output) (find (\<lambda>p. rr_id (snd p) = i \<and> rr_session (snd p) = s) (fd_raws d)))"

definition page_entity :: "'s session_page \<Rightarrow> entity_kind \<Rightarrow> string \<Rightarrow> 's entity option" where
  "page_entity pg k i =
     (case k of
        Entity_Event \<Rightarrow> map_option Event_Entity (find (\<lambda>e. te_id e = i) (pg_events pg))
      | Entity_Raw_Output \<Rightarrow> map_option Raw_Entity (find (\<lambda>w. po_id w = i) (pg_raw_outputs pg)))"

definition page_deletes :: "'s session_page \<Rightarrow> entity_kind \<Rightarrow> string \<Rightarrow> bool" where
  "page_deletes pg k i =
     (case k of Entity_Event \<Rightarrow> i \<in> set (pg_deleted_event_ids pg) | Entity_Raw_Output \<Rightarrow> i \<in> set (pg_deleted_raw_output_ids pg))"

text \<open>\<open>rp_unsent\<close> are the stored rows the last tail left out and no page has told of since; it is for the statements only.\<close>

record 's replica =
  rp_entities :: "entity_kind \<Rightarrow> string \<Rightarrow> 's entity option"
  rp_cursor :: "int option"
  rp_unsent :: "entity_kind \<Rightarrow> string \<Rightarrow> bool"

definition new_replica :: "'s replica" where
  "new_replica = \<lparr>rp_entities = (\<lambda>k i. None), rp_cursor = None, rp_unsent = (\<lambda>k i. False)\<rparr>"

definition left_out :: "'s reading \<Rightarrow> string \<Rightarrow> transcript_db \<Rightarrow> 's session_page \<Rightarrow> entity_kind \<Rightarrow> string \<Rightarrow> bool" where
  "left_out rd s d pg k i \<longleftrightarrow> stored rd s d k i \<noteq> None \<and> page_entity pg k i = None"

definition merge_page :: "(entity_kind \<Rightarrow> string \<Rightarrow> bool) \<Rightarrow> 's session_page \<Rightarrow> 's replica \<Rightarrow> 's replica" where
  "merge_page left pg c =
     (if pg_reset_required pg
      then \<lparr>rp_entities = page_entity pg, rp_cursor = pg_change_cursor pg, rp_unsent = left\<rparr>
      else c\<lparr>rp_entities := (\<lambda>k i. if page_entity pg k i \<noteq> None then page_entity pg k i
                                    else if page_deletes pg k i then None else rp_entities c k i),
             rp_cursor := pg_change_cursor pg,
             rp_unsent := (\<lambda>k i. rp_unsent c k i \<and> page_entity pg k i = None \<and> \<not> page_deletes pg k i)\<rparr>)"

section \<open>Steps\<close>

definition sequence_sorted :: "change_row list \<Rightarrow> bool" where
  "sequence_sorted cs \<longleftrightarrow> sorted_wrt (<) (map ch_sequence cs)"

definition feed_ok :: "transcript_db \<Rightarrow> bool" where
  "feed_ok d \<longleftrightarrow> distinct (map fst (fd_events d)) \<and> distinct (map (ev_id \<circ> snd) (fd_events d)) \<and>
     distinct (map fst (fd_raws d)) \<and> distinct (map (rr_id \<circ> snd) (fd_raws d)) \<and>
     sequence_sorted (fd_changes d) \<and> (\<forall>c\<in>set (fd_changes d). ch_sequence c \<le> fd_head d) \<and> 0 \<le> fd_head d \<and>
     (\<forall>s n. fd_marks d s = Some n \<longrightarrow> n \<le> fd_head d)"

inductive write_step :: "transcript_db \<Rightarrow> transcript_db \<Rightarrow> bool" where
  Insert_Event_Row: "insert_event r d = Some d' \<Longrightarrow> write_step d d'"
| Update_Event_Row: "update_event n f d = Some d' \<Longrightarrow> write_step d d'"
| Delete_Event_Row: "write_step d (delete_event n d)"
| Insert_Raw_Row: "insert_raw w d = Some d' \<Longrightarrow> write_step d d'"
| Update_Raw_Row: "update_raw n g d = Some d' \<Longrightarrow> write_step d d'"
| Delete_Raw_Row: "write_step d (delete_raw n d)"

text \<open>A removed chat is one its reader drops.\<close>

inductive replica_step :: "'s reading \<Rightarrow> 's lengths \<Rightarrow> string \<Rightarrow> transcript_db \<times> 's replica \<Rightarrow> transcript_db \<times> 's replica \<Rightarrow> bool"
  for rd sz s where
  Write: "write_step d d' \<Longrightarrow> replica_step rd sz s (d, c) (d', c)"
| Remove_Other: "s' \<noteq> s \<Longrightarrow> replica_step rd sz s (d, c) (remove_chat s' d, c)"
| Remove_Own: "replica_step rd sz s (d, c) (remove_chat s d, new_replica)"
| Read: "list_session_changes_since rd sz s None None (rp_cursor c) budget d = Inr pg \<Longrightarrow> replica_step rd sz s (d, c) (d, merge_page (left_out rd s d pg) pg c)"

section \<open>Changes still to be read\<close>

definition outstanding :: "string \<Rightarrow> transcript_db \<Rightarrow> int \<Rightarrow> entity_kind \<Rightarrow> string \<Rightarrow> bool" where
  "outstanding s d n k i \<longleftrightarrow>
     (\<exists>c\<in>set (fd_changes d). ch_session c = s \<and> ch_kind c = k \<and> ch_entity c = i \<and> ch_sequence c > n) \<or> (\<exists>m. fd_marks d s = Some m \<and> n < m)"

definition replica_inv :: "'s reading \<Rightarrow> string \<Rightarrow> transcript_db \<times> 's replica \<Rightarrow> bool" where
  "replica_inv rd s st \<longleftrightarrow> feed_ok (fst st) \<and> (\<forall>k i. rp_unsent (snd st) k i \<longrightarrow> rp_entities (snd st) k i = None) \<and>
     (\<forall>n. rp_cursor (snd st) = Some n \<longrightarrow> 0 \<le> n \<and> n \<le> fd_head (fst st) \<and>
        (\<forall>k i. \<not> rp_unsent (snd st) k i \<longrightarrow> rp_entities (snd st) k i \<noteq> stored rd s (fst st) k i \<longrightarrow> outstanding s (fst st) n k i))"

section \<open>Logging\<close>

lemma raised_mark_ge:
  assumes "c \<in> set old"
  shows "\<exists>m. raised_mark old marks (ch_session c) = Some m \<and> ch_sequence c \<le> m"
proof -
  have c: "ch_sequence c \<in> set (map ch_sequence (filter (\<lambda>x. ch_session x = ch_session c) old))" using assms by auto
  show ?thesis
  proof (cases "map ch_sequence (filter (\<lambda>x. ch_session x = ch_session c) old)")
    case Nil
    then show ?thesis using c by simp
  next
    case (Cons n ns)
    then have "ch_sequence c \<le> Max (set (n # ns))" using c by (intro Max_ge) simp_all
    then show ?thesis unfolding raised_mark_def Cons by (auto split: option.split)
  qed
qed

lemma raised_mark_keeps: "marks s = Some p \<Longrightarrow> \<exists>m. raised_mark old marks s = Some m \<and> p \<le> m"
  by (auto simp: raised_mark_def split: list.splits)

lemma raised_mark_le:
  assumes "raised_mark old marks s = Some m" and "\<forall>c\<in>set old. ch_sequence c \<le> n" and "\<forall>p. marks s = Some p \<longrightarrow> p \<le> n"
  shows "m \<le> n"
proof (cases "map ch_sequence (filter (\<lambda>c. ch_session c = s) old)")
  case Nil
  then show ?thesis using assms by (simp add: raised_mark_def)
next
  case (Cons x xs)
  have "Max (set (x # xs)) \<in> set (x # xs)" by (rule Max_in) simp_all
  then have "Max (set (x # xs)) \<le> n" using assms(2) unfolding Cons [symmetric] by auto
  then show ?thesis using assms(1,3) unfolding raised_mark_def Cons by (auto split: option.splits)
qed

lemma prune_fields [simp]:
  "fd_events (prune_changes n d) = fd_events d" "fd_raws (prune_changes n d) = fd_raws d" "fd_head (prune_changes n d) = fd_head d"
  by (simp_all add: prune_changes_def)

lemma log_fields [simp]:
  "fd_events (log_change s k i x d) = fd_events d" "fd_raws (log_change s k i x d) = fd_raws d" "fd_head (log_change s k i x d) = fd_head d + 1"
  by (simp_all add: log_change_def Let_def)

lemma stored_cong: "fd_events d' = fd_events d \<Longrightarrow> fd_raws d' = fd_raws d \<Longrightarrow> stored rd s d' = stored rd s d"
  by (intro ext) (simp add: stored_def split: entity_kind.split)

lemma prune_outstanding: "outstanding s d n k i \<Longrightarrow> outstanding s (prune_changes m d) n k i"
proof (cases "m mod 256 = 0")
  case True
  assume "outstanding s d n k i"
  then consider (row) c where "c \<in> set (fd_changes d)" "ch_session c = s" "ch_kind c = k" "ch_entity c = i" "ch_sequence c > n"
    | (mark) p where "fd_marks d s = Some p" "n < p" unfolding outstanding_def by blast
  then show ?thesis
  proof cases
    case row
    show ?thesis
    proof (cases "ch_sequence c \<le> m - 49745")
      case old: True
      then have "c \<in> set (filter (\<lambda>c. ch_sequence c \<le> m - 49745) (fd_changes d))" using row by simp
      from raised_mark_ge [OF this, of "fd_marks d"] show ?thesis using row True by (force simp: outstanding_def prune_changes_def)
    next
      case False
      then show ?thesis using row True by (auto simp: outstanding_def prune_changes_def)
    qed
  next
    case mark
    then show ?thesis using raised_mark_keeps [of "fd_marks d" s p] True by (force simp: outstanding_def prune_changes_def)
  qed
qed (simp add: prune_changes_def)

lemma log_outstanding: "outstanding s d n k i \<Longrightarrow> outstanding s (log_change s' k' i' x d) n k i"
  unfolding log_change_def Let_def by (rule prune_outstanding) (auto simp: outstanding_def)

lemma logged_outstanding: "n \<le> fd_head d \<Longrightarrow> outstanding s (log_change s k i x d) n k i"
  unfolding log_change_def Let_def by (rule prune_outstanding) (auto simp: outstanding_def)

lemma prune_ok: "feed_ok d \<Longrightarrow> feed_ok (prune_changes n d)"
proof (cases "n mod 256 = 0")
  case True
  assume ok: "feed_ok d"
  have "m \<le> fd_head d" if m: "raised_mark (filter (\<lambda>c. ch_sequence c \<le> n - 49745) (fd_changes d)) (fd_marks d) s = Some m" for s m
    by (rule raised_mark_le [OF m]) (use ok in \<open>auto simp: feed_ok_def\<close>)
  moreover have "sorted_wrt (<) (map ch_sequence (filter P (fd_changes d)))" for P
    using ok by (simp add: feed_ok_def sequence_sorted_def sorted_wrt_map sorted_wrt_filter)
  ultimately show ?thesis using ok True by (simp add: feed_ok_def prune_changes_def sequence_sorted_def)
qed (simp add: prune_changes_def)

lemma log_ok: "feed_ok d \<Longrightarrow> feed_ok (log_change s k i x d)"
proof -
  assume ok: "feed_ok d"
  have "feed_ok (d\<lparr>fd_head := fd_head d + 1, fd_changes := fd_changes d @
      [\<lparr>ch_sequence = fd_head d + 1, ch_session = s, ch_kind = k, ch_entity = i, ch_operation = x\<rparr>]\<rparr>)"
    using ok by (fastforce simp: feed_ok_def sequence_sorted_def sorted_wrt_append)
  then show ?thesis unfolding log_change_def Let_def by (rule prune_ok)
qed

lemma log_update_fields [simp]:
  "fd_events (log_update a b a' b' k d) = fd_events d" "fd_raws (log_update a b a' b' k d) = fd_raws d"
  "fd_head d \<le> fd_head (log_update a b a' b' k d)"
  by (simp_all add: log_update_def)

lemma log_update_ok: "feed_ok d \<Longrightarrow> feed_ok (log_update a b a' b' k d)"
  by (simp add: log_update_def log_ok)

lemma log_update_outstanding: "outstanding s d n k i \<Longrightarrow> outstanding s (log_update a b a' b' k' d) n k i"
  by (simp add: log_update_def log_outstanding)

lemma updated_outstanding: "n \<le> fd_head d \<Longrightarrow> (a, b) = (s, i) \<or> (a', b') = (s, i) \<Longrightarrow> outstanding s (log_update a b a' b' k d) n k i"
proof -
  assume n: "n \<le> fd_head d" and at: "(a, b) = (s, i) \<or> (a', b') = (s, i)"
  show ?thesis
  proof (cases "(a', b') = (s, i)")
    case True
    then show ?thesis using n by (auto simp: log_update_def intro: logged_outstanding)
  next
    case False
    then have "a \<noteq> a' \<or> b \<noteq> b'" "(a, b) = (s, i)" using at by auto
    then show ?thesis using logged_outstanding [OF n, of a k b Change_Delete] by (auto simp: log_update_def intro: log_outstanding)
  qed
qed

section \<open>Writes change what they log\<close>

lemma find_distinct:
  assumes "distinct (map f xs)" and "p \<in> set xs" and "Q p"
  shows "find (\<lambda>x. f x = f p \<and> Q x) xs = Some p"
  using assms by (induction xs) (auto simp: image_iff)

lemma find_append: "find P (xs @ ys) = (case find P xs of None \<Rightarrow> find P ys | Some x \<Rightarrow> Some x)"
  by (induction xs) auto

lemma find_filter: "find P (filter Q xs) = find (\<lambda>x. Q x \<and> P x) xs"
  by (induction xs) auto

text \<open>One table, its rows known by \<open>ident\<close> and held by the chat \<open>owner\<close>.\<close>

definition row_of :: "('r \<Rightarrow> string) \<Rightarrow> ('r \<Rightarrow> string) \<Rightarrow> string \<Rightarrow> string \<Rightarrow> (int \<times> 'r) list \<Rightarrow> (int \<times> 'r) option" where
  "row_of ident owner s i rows = find (\<lambda>p. ident (snd p) = i \<and> owner (snd p) = s) rows"

lemma row_of_insert: "i \<noteq> ident r \<or> s \<noteq> owner r \<Longrightarrow> row_of ident owner s i (rows @ [(n, r)]) = row_of ident owner s i rows"
  by (auto simp: row_of_def find_append split: option.split)

lemma row_of_delete:
  assumes "map_of rows n = Some r" and "distinct (map fst rows)" and "i \<noteq> ident r \<or> s \<noteq> owner r"
  shows "row_of ident owner s i (filter (\<lambda>p. fst p \<noteq> n) rows) = row_of ident owner s i rows"
proof -
  have "\<not> (ident (snd p) = i \<and> owner (snd p) = s) \<or> fst p \<noteq> n" if "p \<in> set rows" for p
    using assms that eq_key_imp_eq_value [OF assms(2), of n r "snd p"] map_of_SomeD [OF assms(1)] by (cases p) auto
  then have "find (\<lambda>p. fst p \<noteq> n \<and> ident (snd p) = i \<and> owner (snd p) = s) rows = find (\<lambda>p. ident (snd p) = i \<and> owner (snd p) = s) rows"
    by (intro find_cong) auto
  then show ?thesis by (simp add: row_of_def find_filter)
qed

lemma row_of_update:
  assumes "map_of rows n = Some r" and "distinct (map fst rows)"
    and "\<not> (ident r = i \<and> owner r = s)" and "\<not> (ident r' = i \<and> owner r' = s)"
  shows "row_of ident owner s i (map (\<lambda>p. if fst p = n then (n, r') else p) rows) = row_of ident owner s i rows"
  unfolding row_of_def using assms
proof (induction rows)
  case (Cons p rows)
  show ?case
  proof (cases "fst p = n")
    case True
    then have p: "snd p = r" using Cons.prems by simp
    have "map (\<lambda>p. if fst p = n then (n, r') else p) rows = rows" using Cons.prems(2) True by (intro map_idI) (auto simp: image_iff)
    then show ?thesis using True p Cons.prems(3,4) by auto
  next
    case False
    then have "map_of rows n = Some r" using Cons.prems(1) by (cases p) auto
    then show ?thesis using Cons False by simp
  qed
qed simp

lemma stored_rows:
  "stored rd s d Entity_Event i = map_option (Event_Entity \<circ> event_row_to_timeline_event rd) (row_of ev_id ev_session s i (fd_events d))"
  "stored rd s d Entity_Raw_Output i = map_option (Raw_Entity \<circ> raw_output_row_to_provider_output) (row_of rr_id rr_session s i (fd_raws d))"
  by (simp_all add: stored_def row_of_def)

text \<open>A write keeps the tables in order and the sequence grows; whatever it changes for a chat is outstanding for every older cursor.\<close>

definition tells_changes :: "'s reading \<Rightarrow> string \<Rightarrow> transcript_db \<Rightarrow> transcript_db \<Rightarrow> bool" where
  "tells_changes rd s d d' \<longleftrightarrow> feed_ok d' \<and> fd_head d \<le> fd_head d' \<and>
     (\<forall>n k i. n \<le> fd_head d \<longrightarrow> outstanding s d n k i \<or> stored rd s d' k i \<noteq> stored rd s d k i \<longrightarrow> outstanding s d' n k i)"

lemma next_rowid_fresh: "next_rowid rows \<notin> fst ` set rows"
proof
  assume n: "next_rowid rows \<in> fst ` set rows"
  then have "rows \<noteq> []" "next_rowid rows \<le> Max (set (map fst rows))" by auto
  then show False by (simp add: next_rowid_def)
qed

lemma tells_logged:
  assumes "feed_ok d1" and same: "fd_head d1 = fd_head d" "fd_changes d1 = fd_changes d" "fd_marks d1 = fd_marks d"
    and only: "\<And>k i. \<not> (k = k' \<and> i = i' \<and> s = s') \<Longrightarrow> stored rd s d1 k i = stored rd s d k i"
  shows "tells_changes rd s d (log_change s' k' i' x d1)"
proof -
  have "outstanding s (log_change s' k' i' x d1) n k i"
    if n: "n \<le> fd_head d" and c: "outstanding s d n k i \<or> stored rd s (log_change s' k' i' x d1) k i \<noteq> stored rd s d k i" for n k i
  proof (cases "outstanding s d n k i")
    case True
    then have "outstanding s d1 n k i" using same by (simp add: outstanding_def)
    then show ?thesis by (rule log_outstanding)
  next
    case False
    then have "stored rd s d1 k i \<noteq> stored rd s d k i" using c stored_cong [of "log_change s' k' i' x d1" d1 rd s] by simp
    then have at: "k = k' \<and> i = i' \<and> s = s'" by (rule contrapos_np) (rule only)
    then show ?thesis using logged_outstanding [of n d1 s k i x] n same by simp
  qed
  then show ?thesis using log_ok [OF assms(1)] same by (simp add: tells_changes_def)
qed

lemma tells_updated:
  assumes "feed_ok d1" and same: "fd_head d1 = fd_head d" "fd_changes d1 = fd_changes d" "fd_marks d1 = fd_marks d"
    and only: "\<And>k i. \<not> (k = k' \<and> (i = b \<and> s = a \<or> i = b' \<and> s = a')) \<Longrightarrow> stored rd s d1 k i = stored rd s d k i"
  shows "tells_changes rd s d (log_update a b a' b' k' d1)"
proof -
  have "outstanding s (log_update a b a' b' k' d1) n k i"
    if n: "n \<le> fd_head d" and c: "outstanding s d n k i \<or> stored rd s (log_update a b a' b' k' d1) k i \<noteq> stored rd s d k i" for n k i
  proof (cases "outstanding s d n k i")
    case True
    then have "outstanding s d1 n k i" using same by (simp add: outstanding_def)
    then show ?thesis by (rule log_update_outstanding)
  next
    case False
    then have "stored rd s d1 k i \<noteq> stored rd s d k i" using c stored_cong [of "log_update a b a' b' k' d1" d1 rd s] by simp
    then have at: "k = k' \<and> (i = b \<and> s = a \<or> i = b' \<and> s = a')" by (rule contrapos_np) (rule only)
    then show ?thesis using updated_outstanding [of n d1 a b s i a' b' k] n same by auto
  qed
  then show ?thesis using log_update_ok [OF assms(1)] same log_update_fields(3) [of d1] by (simp add: tells_changes_def)
qed

lemma insert_event_tells:
  assumes ok: "feed_ok d" and ins: "insert_event r d = Some d'"
  shows "tells_changes rd s d d'"
proof -
  let ?d = "d\<lparr>fd_events := fd_events d @ [(next_rowid (fd_events d), r)]\<rparr>"
  have fresh: "ev_id r \<notin> (ev_id \<circ> snd) ` set (fd_events d)" and d': "d' = log_change (ev_session r) Entity_Event (ev_id r) Change_Upsert ?d"
    using ins by (auto simp: insert_event_def split: if_splits)
  have "feed_ok ?d" using ok fresh next_rowid_fresh by (auto simp: feed_ok_def)
  moreover have "stored rd s ?d k i = stored rd s d k i" if "\<not> (k = Entity_Event \<and> i = ev_id r \<and> s = ev_session r)" for k i
    using that row_of_insert [of i ev_id r s ev_session "fd_events d"] by (cases k) (simp_all add: stored_rows)
  ultimately show ?thesis unfolding d' by (intro tells_logged) simp_all
qed

lemma insert_raw_tells:
  assumes ok: "feed_ok d" and ins: "insert_raw r d = Some d'"
  shows "tells_changes rd s d d'"
proof -
  let ?d = "d\<lparr>fd_raws := fd_raws d @ [(next_rowid (fd_raws d), r)]\<rparr>"
  have fresh: "rr_id r \<notin> (rr_id \<circ> snd) ` set (fd_raws d)" and d': "d' = log_change (rr_session r) Entity_Raw_Output (rr_id r) Change_Upsert ?d"
    using ins by (auto simp: insert_raw_def split: if_splits)
  have "feed_ok ?d" using ok fresh next_rowid_fresh by (auto simp: feed_ok_def)
  moreover have "stored rd s ?d k i = stored rd s d k i" if "\<not> (k = Entity_Raw_Output \<and> i = rr_id r \<and> s = rr_session r)" for k i
    using that row_of_insert [of i rr_id r s rr_session "fd_raws d"] by (cases k) (simp_all add: stored_rows)
  ultimately show ?thesis unfolding d' by (intro tells_logged) simp_all
qed

lemma tells_nothing: "feed_ok d \<Longrightarrow> tells_changes rd s d d"
  by (simp add: tells_changes_def)

lemma distinct_filter_map: "distinct (map f xs) \<Longrightarrow> distinct (map f (filter P xs))"
  by (induction xs) auto

lemma delete_event_tells:
  assumes ok: "feed_ok d"
  shows "tells_changes rd s d (delete_event n d)"
proof (cases "map_of (fd_events d) n")
  case (Some r)
  let ?d = "d\<lparr>fd_events := filter (\<lambda>p. fst p \<noteq> n) (fd_events d)\<rparr>"
  have "feed_ok ?d" using ok by (simp add: feed_ok_def distinct_filter_map)
  moreover have "stored rd s ?d k i = stored rd s d k i" if "\<not> (k = Entity_Event \<and> i = ev_id r \<and> s = ev_session r)" for k i
    using that row_of_delete [OF Some, of i ev_id s ev_session] ok by (cases k) (auto simp: stored_rows feed_ok_def)
  ultimately show ?thesis using Some by (simp add: delete_event_def) (intro tells_logged, simp_all)
qed (simp add: delete_event_def tells_nothing ok)

lemma delete_raw_tells:
  assumes ok: "feed_ok d"
  shows "tells_changes rd s d (delete_raw n d)"
proof (cases "map_of (fd_raws d) n")
  case (Some r)
  let ?d = "d\<lparr>fd_raws := filter (\<lambda>p. fst p \<noteq> n) (fd_raws d)\<rparr>"
  have "feed_ok ?d" using ok by (simp add: feed_ok_def distinct_filter_map)
  moreover have "stored rd s ?d k i = stored rd s d k i" if "\<not> (k = Entity_Raw_Output \<and> i = rr_id r \<and> s = rr_session r)" for k i
    using that row_of_delete [OF Some, of i rr_id s rr_session] ok by (cases k) (auto simp: stored_rows feed_ok_def)
  ultimately show ?thesis using Some by (simp add: delete_raw_def) (intro tells_logged, simp_all)
qed (simp add: delete_raw_def tells_nothing ok)

text \<open>Rewriting one row keeps rowids, and ids distinct when the new one is free.\<close>

lemma updated_distinct:
  assumes "distinct (map fst rows)" and "distinct (map (ident \<circ> snd) rows)" and "map_of rows n = Some r"
    and "\<not> (\<exists>p\<in>set rows. fst p \<noteq> n \<and> ident (snd p) = ident r')"
  shows "distinct (map fst (map (\<lambda>p. if fst p = n then (n, r') else p) rows))"
    and "distinct (map (ident \<circ> snd) (map (\<lambda>p. if fst p = n then (n, r') else p) rows))"
proof -
  have "map fst (map (\<lambda>p. if fst p = n then (n, r') else p) rows) = map fst rows" by (induction rows) auto
  then show "distinct (map fst (map (\<lambda>p. if fst p = n then (n, r') else p) rows))" using assms(1) by metis
  show "distinct (map (ident \<circ> snd) (map (\<lambda>p. if fst p = n then (n, r') else p) rows))"
    using assms
  proof (induction rows)
    case (Cons p rows)
    show ?case
    proof (cases "fst p = n")
      case True
      have rest: "map (\<lambda>p. if fst p = n then (n, r') else p) rows = rows" using Cons.prems(1) True by (intro map_idI) (auto simp: image_iff)
      have "ident r' \<notin> (ident \<circ> snd) ` set rows"
      proof
        assume "ident r' \<in> (ident \<circ> snd) ` set rows"
        then obtain q where "q \<in> set rows" "ident (snd q) = ident r'" by auto
        moreover from this have "fst q \<noteq> n" using Cons.prems(1) True by (auto simp: image_iff)
        ultimately show False using Cons.prems(4) by auto
      qed
      then show ?thesis using True Cons.prems(2) rest by simp
    next
      case False
      then have found: "map_of rows n = Some r" using Cons.prems(1,3) by (cases p) auto
      have "ident (snd p) \<noteq> ident r'" using Cons.prems(4) False by auto
      then have "ident (snd p) \<notin> (ident \<circ> snd) ` set (map (\<lambda>p. if fst p = n then (n, r') else p) rows)"
        using Cons.prems(2) by auto
      moreover have "distinct (map (ident \<circ> snd) (map (\<lambda>p. if fst p = n then (n, r') else p) rows))"
        using Cons.prems found by (intro Cons.IH) auto
      ultimately show ?thesis using False by (simp only: list.map o_apply if_False distinct.simps set_map list.set) (simp add: comp_def)
    qed
  qed simp
qed

lemma update_event_tells:
  assumes ok: "feed_ok d" and upd: "update_event n f d = Some d'"
  shows "tells_changes rd s d d'"
proof (cases "map_of (fd_events d) n")
  case (Some r)
  let ?d = "d\<lparr>fd_events := map (\<lambda>p. if fst p = n then (n, f r) else p) (fd_events d)\<rparr>"
  have free: "\<not> (\<exists>p\<in>set (fd_events d). fst p \<noteq> n \<and> ev_id (snd p) = ev_id (f r))"
    and d': "d' = log_update (ev_session r) (ev_id r) (ev_session (f r)) (ev_id (f r)) Entity_Event ?d"
    using upd Some by (auto simp: update_event_def split: if_splits)
  have rows: "distinct (map fst (fd_events d))" "distinct (map (ev_id \<circ> snd) (fd_events d))" using ok by (simp_all add: feed_ok_def)
  have "feed_ok ?d" using ok updated_distinct [OF rows Some free] by (simp add: feed_ok_def)
  moreover have "stored rd s ?d k i = stored rd s d k i"
    if "\<not> (k = Entity_Event \<and> (i = ev_id r \<and> s = ev_session r \<or> i = ev_id (f r) \<and> s = ev_session (f r)))" for k i
    using that row_of_update [OF Some rows(1), of ev_id i ev_session s "f r"] by (cases k) (auto simp: stored_rows)
  ultimately show ?thesis unfolding d' by (intro tells_updated) simp_all
qed (use upd ok in \<open>simp add: update_event_def tells_nothing\<close>)

lemma update_raw_tells:
  assumes ok: "feed_ok d" and upd: "update_raw n f d = Some d'"
  shows "tells_changes rd s d d'"
proof (cases "map_of (fd_raws d) n")
  case (Some r)
  let ?d = "d\<lparr>fd_raws := map (\<lambda>p. if fst p = n then (n, f r) else p) (fd_raws d)\<rparr>"
  have free: "\<not> (\<exists>p\<in>set (fd_raws d). fst p \<noteq> n \<and> rr_id (snd p) = rr_id (f r))"
    and d': "d' = log_update (rr_session r) (rr_id r) (rr_session (f r)) (rr_id (f r)) Entity_Raw_Output ?d"
    using upd Some by (auto simp: update_raw_def split: if_splits)
  have rows: "distinct (map fst (fd_raws d))" "distinct (map (rr_id \<circ> snd) (fd_raws d))" using ok by (simp_all add: feed_ok_def)
  have "feed_ok ?d" using ok updated_distinct [OF rows Some free] by (simp add: feed_ok_def)
  moreover have "stored rd s ?d k i = stored rd s d k i"
    if "\<not> (k = Entity_Raw_Output \<and> (i = rr_id r \<and> s = rr_session r \<or> i = rr_id (f r) \<and> s = rr_session (f r)))" for k i
    using that row_of_update [OF Some rows(1), of rr_id i rr_session s "f r"] by (cases k) (auto simp: stored_rows)
  ultimately show ?thesis unfolding d' by (intro tells_updated) simp_all
qed (use upd ok in \<open>simp add: update_raw_def tells_nothing\<close>)

lemma write_tells: "write_step d d' \<Longrightarrow> feed_ok d \<Longrightarrow> tells_changes rd s d d'"
  by (induction rule: write_step.induct) (auto intro: insert_event_tells update_event_tells delete_event_tells insert_raw_tells update_raw_tells delete_raw_tells)

lemma tells_trans: "tells_changes rd s a b \<Longrightarrow> tells_changes rd s b c \<Longrightarrow> tells_changes rd s a c"
  unfolding tells_changes_def by (metis order_trans)

lemma fold_tells:
  assumes step: "\<And>n d. feed_ok d \<Longrightarrow> tells_changes rd s d (f n d)" and "feed_ok d"
  shows "tells_changes rd s d (fold f ns d)"
  using assms(2)
proof (induction ns arbitrary: d)
  case (Cons n ns)
  have "feed_ok (f n d)" using step [OF Cons.prems, of n] by (simp add: tells_changes_def)
  then show ?case using tells_trans [OF step [OF Cons.prems, of n] Cons.IH] by simp
qed (simp add: tells_nothing)

section \<open>A page of the feed\<close>

lemma consume_changes_spec:
  "\<exists>m \<le> length cs. cs_count (consume_changes sz es ws b cs st) = cs_count st + m \<and>
     set (cs_event_ids (consume_changes sz es ws b cs st)) =
       set (cs_event_ids st) \<union> {ch_entity c |c. c \<in> set (take m cs) \<and> ch_kind c = Entity_Event} \<and>
     set (cs_raw_ids (consume_changes sz es ws b cs st)) =
       set (cs_raw_ids st) \<union> {ch_entity c |c. c \<in> set (take m cs) \<and> ch_kind c = Entity_Raw_Output} \<and>
     cs_last (consume_changes sz es ws b cs st) = (if m = 0 then cs_last st else ch_sequence (cs ! (m - 1))) \<and>
     (included_count st = 0 \<and> cs \<noteq> [] \<longrightarrow> m > 0)"
proof (induction cs arbitrary: st)
  case Nil
  then show ?case by simp
next
  case (Cons c cs)
  let ?n = "contribution sz es ws b st c"
  show ?case
  proof (cases "over_budget b st ?n")
    case True
    then have "included_count st \<noteq> 0" by (simp add: over_budget_def split: option.splits)
    then show ?thesis using True by (intro exI [where x = 0]) (simp add: Let_def)
  next
    case False
    let ?st = "consume_change ?n st c"
    from Cons.IH [of ?st] obtain m where m: "m \<le> length cs"
      "cs_count (consume_changes sz es ws b cs ?st) = cs_count ?st + m"
      "set (cs_event_ids (consume_changes sz es ws b cs ?st)) = set (cs_event_ids ?st) \<union> {ch_entity c |c. c \<in> set (take m cs) \<and> ch_kind c = Entity_Event}"
      "set (cs_raw_ids (consume_changes sz es ws b cs ?st)) = set (cs_raw_ids ?st) \<union> {ch_entity c |c. c \<in> set (take m cs) \<and> ch_kind c = Entity_Raw_Output}"
      "cs_last (consume_changes sz es ws b cs ?st) = (if m = 0 then cs_last ?st else ch_sequence (cs ! (m - 1)))" by auto
    let ?res = "consume_changes sz es ws b cs ?st"
    have own: "set (cs_event_ids ?st) = set (cs_event_ids st) \<union> {ch_entity x |x. x = c \<and> ch_kind x = Entity_Event}"
      "set (cs_raw_ids ?st) = set (cs_raw_ids st) \<union> {ch_entity x |x. x = c \<and> ch_kind x = Entity_Raw_Output}"
      by (auto simp: consume_change_def is_new_event_def is_new_raw_output_def)
    have run: "consume_changes sz es ws b (c # cs) st = ?res" using False by (simp add: Let_def)
    show ?thesis
      unfolding run
    proof (intro exI [where x = "Suc m"] conjI impI)
      show "Suc m \<le> length (c # cs)" using m(1) by simp
      show "cs_count ?res = cs_count st + Suc m" using m(2) by (simp add: consume_change_def)
      show "set (cs_event_ids ?res) = set (cs_event_ids st) \<union> {ch_entity x |x. x \<in> set (take (Suc m) (c # cs)) \<and> ch_kind x = Entity_Event}"
        unfolding m(3) own(1) by auto
      show "set (cs_raw_ids ?res) = set (cs_raw_ids st) \<union> {ch_entity x |x. x \<in> set (take (Suc m) (c # cs)) \<and> ch_kind x = Entity_Raw_Output}"
        unfolding m(4) own(2) by auto
      show "cs_last ?res = (if Suc m = 0 then cs_last st else ch_sequence ((c # cs) ! (Suc m - 1)))"
        using m(5) by (simp add: consume_change_def nth_Cons')
    qed simp
  qed
qed

lemma sorted_sequence_sort: "sequence_sorted cs \<Longrightarrow> sort_key ch_sequence cs = cs"
  unfolding sequence_sorted_def by (rule sort_key_id_if_sorted) (rule strict_sorted_imp_sorted)

text \<open>What is read for the ids of a page is what is stored of them.\<close>

lemma find_map_eq: "find P (map g xs) = map_option g (find (P \<circ> g) xs)"
  by (induction xs) auto

lemma find_sorted:
  assumes "distinct (map (f \<circ> snd) xs)"
  shows "find (\<lambda>p. f (snd p) = i \<and> Q p) (sort_key fst xs) = find (\<lambda>p. f (snd p) = i \<and> Q p) xs"
proof (cases "find (\<lambda>p. f (snd p) = i \<and> Q p) xs")
  case None
  then have "find (\<lambda>p. f (snd p) = i \<and> Q p) (sort_key fst xs) = None" by (simp add: find_None_all)
  then show ?thesis using None by simp
next
  case (Some p)
  then have p: "p \<in> set xs" "f (snd p) = i" "Q p" by (auto simp: find_Some_iff)
  have "distinct (map (f \<circ> snd) (sort_key fst xs))"
    using assms by (metis distinct_map distinct_sort set_sort)
  from find_distinct [OF this, of p Q] show ?thesis using p Some by simp
qed

lemma read_event_by_id:
  assumes "feed_ok d"
  shows "map_option Event_Entity (find (\<lambda>e. te_id e = i) (filter (\<lambda>e. te_id e \<in> A) (list_events_by_ids rd s ids d))) =
    (if i \<in> A \<and> i \<in> set ids then stored rd s d Entity_Event i else None)"
proof -
  have dist: "distinct (map (ev_id \<circ> snd) (filter (\<lambda>p. ev_session (snd p) = s) (fd_events d)))"
    using assms by (simp add: feed_ok_def distinct_filter_map)
  have e: "te_id (event_row_to_timeline_event rd p) = ev_id (snd p)" for p by (simp add: event_row_to_timeline_event_def Let_def)
  have "find (\<lambda>p. ev_id (snd p) = i \<and> (i \<in> A \<and> i \<in> set ids)) (chat_events s d) =
      (if i \<in> A \<and> i \<in> set ids then find (\<lambda>p. ev_id (snd p) = i \<and> ev_session (snd p) = s) (fd_events d) else None)"
    using find_sorted [OF dist, of i "\<lambda>p. i \<in> A \<and> i \<in> set ids"]
    by (auto simp: chat_events_def find_filter find_None_iff conj_commute intro!: find_cong)
  moreover have "find ((\<lambda>e. te_id e \<in> A \<and> te_id e = i) \<circ> event_row_to_timeline_event rd) (filter (\<lambda>p. ev_id (snd p) \<in> set ids) (chat_events s d)) =
      find (\<lambda>p. ev_id (snd p) = i \<and> (i \<in> A \<and> i \<in> set ids)) (chat_events s d)"
    unfolding find_filter by (intro find_cong) (auto simp: e)
  ultimately show ?thesis
    by (simp add: list_events_by_ids_def find_filter find_map_eq stored_def option.map_comp)
qed

lemma read_raw_by_id:
  assumes "feed_ok d"
  shows "map_option Raw_Entity (find (\<lambda>w. po_id w = i) (filter (\<lambda>w. po_id w \<in> A) (list_raw_outputs_by_ids s ids d))) =
    (if i \<in> A \<and> i \<in> set ids then stored rd s d Entity_Raw_Output i else None)"
proof -
  have dist: "distinct (map (rr_id \<circ> snd) (filter (\<lambda>p. rr_session (snd p) = s) (fd_raws d)))"
    using assms by (simp add: feed_ok_def distinct_filter_map)
  have e: "po_id (raw_output_row_to_provider_output p) = rr_id (snd p)" for p by (simp add: raw_output_row_to_provider_output_def Let_def)
  have "find (\<lambda>p. rr_id (snd p) = i \<and> (i \<in> A \<and> i \<in> set ids)) (chat_raws s d) =
      (if i \<in> A \<and> i \<in> set ids then find (\<lambda>p. rr_id (snd p) = i \<and> rr_session (snd p) = s) (fd_raws d) else None)"
    using find_sorted [OF dist, of i "\<lambda>p. i \<in> A \<and> i \<in> set ids"]
    by (auto simp: chat_raws_def find_filter find_None_iff conj_commute intro!: find_cong)
  moreover have "find ((\<lambda>w. po_id w \<in> A \<and> po_id w = i) \<circ> raw_output_row_to_provider_output) (filter (\<lambda>p. rr_id (snd p) \<in> set ids) (chat_raws s d)) =
      find (\<lambda>p. rr_id (snd p) = i \<and> (i \<in> A \<and> i \<in> set ids)) (chat_raws s d)"
    unfolding find_filter by (intro find_cong) (auto simp: e)
  ultimately show ?thesis
    by (simp add: list_raw_outputs_by_ids_def find_filter find_map_eq stored_def option.map_comp)
qed

definition unread :: "string \<Rightarrow> int \<Rightarrow> transcript_db \<Rightarrow> change_row list" where
  "unread s n d = filter (\<lambda>c. ch_session c = s \<and> ch_sequence c > n \<and> ch_sequence c \<le> fd_head d) (fd_changes d)"

lemma change_page_cases:
  assumes ok: "feed_ok d" and pg: "list_change_page rd sz s n b d = Inr pg" and n: "n \<le> fd_head d" "\<forall>p. fd_marks d s = Some p \<longrightarrow> p \<le> n"
  obtains m l where "m \<le> length (unread s n d)" and "\<not> pg_reset_required pg" and "pg_has_more pg \<longleftrightarrow> m < length (unread s n d)"
    and "pg_change_cursor pg = Some (if pg_has_more pg then l else fd_head d)"
    and "l = (if m = 0 then n else ch_sequence (unread s n d ! (m - 1)))"
    and "pg_has_more pg \<Longrightarrow> m > 0"
    and "\<And>k i. page_entity pg k i \<noteq> None \<or> page_deletes pg k i \<Longrightarrow> page_entity pg k i = stored rd s d k i"
    and "\<And>c. c \<in> set (take m (unread s n d)) \<Longrightarrow> page_entity pg (ch_kind c) (ch_entity c) \<noteq> None \<or> page_deletes pg (ch_kind c) (ch_entity c)"
proof -
  obtain L where L: "L = unread s n d" by simp
  obtain C where C: "C = take SESSION_CHANGE_PAGE_LIMIT L" by simp
  obtain ei ri where ids: "ei = map ch_entity (filter (\<lambda>c. ch_kind c = Entity_Event) C)"
    "ri = map ch_entity (filter (\<lambda>c. ch_kind c = Entity_Raw_Output) C)" by simp
  obtain es ws where rows: "es = list_events_by_ids rd s ei d" "ws = list_raw_outputs_by_ids s ri d" by simp
  have sorted: "sort_key ch_sequence L = L"
    by (rule sorted_sequence_sort) (use ok in \<open>simp add: L unread_def feed_ok_def sequence_sorted_def sorted_wrt_map sorted_wrt_filter\<close>)
  have n0: "\<not> n < 0"
  proof
    assume "n < 0"
    then show False using pg by (simp only: list_change_page_def if_True sum.distinct)
  qed
  have not_old: "\<not> (fd_head d < n \<or> n < (case fd_marks d s of None \<Rightarrow> 0 | Some p \<Rightarrow> p))"
    using n n0 by (cases "fd_marks d s") simp_all
  have cand: "take SESSION_CHANGE_PAGE_LIMIT (take (SESSION_CHANGE_PAGE_LIMIT + 1) L) = C" by (simp add: C)
  obtain st0 where st0: "st0 = \<lparr>cs_event_ids = [], cs_raw_ids = [], cs_spent = (if b = None then 0 else sz_page sz (default_page\<lparr>pg_event_cursor := max_row_cursor es 0,
    pg_raw_output_cursor := max_raw_row_cursor ws 0, pg_change_cursor := Some (fd_head d)\<rparr>)), cs_count = 0, cs_last = n\<rparr>" by simp
  obtain st where st: "st = consume_changes sz es ws b C st0" by simp
  obtain E W where kept_rows: "E = filter (\<lambda>e. te_id e \<in> set (cs_event_ids st)) es" "W = filter (\<lambda>w. po_id w \<in> set (cs_raw_ids st)) ws" by simp
  have page: "pg = \<lparr>pg_events = E, pg_raw_outputs = W, pg_event_cursor = max_row_cursor E 0, pg_raw_output_cursor = max_raw_row_cursor W 0,
      pg_change_cursor = Some (if cs_count st < length (take (SESSION_CHANGE_PAGE_LIMIT + 1) L) then cs_last st else fd_head d),
      pg_deleted_event_ids = filter (\<lambda>i. i \<notin> te_id ` set E) (cs_event_ids st), pg_deleted_raw_output_ids = filter (\<lambda>i. i \<notin> po_id ` set W) (cs_raw_ids st),
      pg_reset_required = False, pg_has_more = cs_count st < length (take (SESSION_CHANGE_PAGE_LIMIT + 1) L)\<rparr>"
    using pg unfolding list_change_page_def Let_def if_not_P [OF n0] if_not_P [OF not_old] L [unfolded unread_def, symmetric] sorted cand
      ids [symmetric] rows [symmetric] st0 [symmetric] st [symmetric] kept_rows [symmetric] by (simp only: sum.inject)
  have empty: "cs_count st0 = 0" "set (cs_event_ids st0) = {}" "set (cs_raw_ids st0) = {}" "cs_last st0 = n" "included_count st0 = 0"
    by (simp_all add: st0 included_count_def)
  obtain m where m: "m \<le> length C" "cs_count st = m"
    "set (cs_event_ids st) = {ch_entity c |c. c \<in> set (take m C) \<and> ch_kind c = Entity_Event}"
    "set (cs_raw_ids st) = {ch_entity c |c. c \<in> set (take m C) \<and> ch_kind c = Entity_Raw_Output}"
    "cs_last st = (if m = 0 then n else ch_sequence (C ! (m - 1)))" "C \<noteq> [] \<longrightarrow> m > 0"
    using consume_changes_spec [of C sz es ws b st0] unfolding empty add_0 Un_empty_left st [symmetric] by blast
  have small: "m \<le> length L" "m \<le> SESSION_CHANGE_PAGE_LIMIT" using m(1) by (simp_all add: C)
  then have mL: "m \<le> length L" "take m C = take m L" by (simp_all add: C min_absorb1)
  have entities: "page_entity pg Entity_Event i = (if i \<in> set (cs_event_ids st) \<and> i \<in> set ei then stored rd s d Entity_Event i else None)"
    "page_entity pg Entity_Raw_Output i = (if i \<in> set (cs_raw_ids st) \<and> i \<in> set ri then stored rd s d Entity_Raw_Output i else None)" for i
    using read_event_by_id [OF ok, of i "set (cs_event_ids st)" rd s ei] read_raw_by_id [OF ok, of i "set (cs_raw_ids st)" s ri rd]
    by (simp_all add: page_entity_def page kept_rows rows)
  have known: "set (cs_event_ids st) \<subseteq> set ei" "set (cs_raw_ids st) \<subseteq> set ri" unfolding m(3,4) ids by (auto dest: in_set_takeD)
  show thesis
  proof (rule that [of m "cs_last st", folded L])
    show "m \<le> length L" by (rule mL(1))
    show "\<not> pg_reset_required pg" by (simp add: page)
    show more: "pg_has_more pg \<longleftrightarrow> m < length L" using m(1,2) by (simp add: page C less_Suc_eq_le)
    show "pg_change_cursor pg = Some (if pg_has_more pg then cs_last st else fd_head d)" by (simp add: page)
    show "cs_last st = (if m = 0 then n else ch_sequence (L ! (m - 1)))" using m(5) small(2) by (simp add: C nth_take)
    show "m > 0" if "pg_has_more pg" using that more m(6) by (auto simp: SESSION_CHANGE_PAGE_LIMIT_def C)
  next
    fix k i assume told: "page_entity pg k i \<noteq> None \<or> page_deletes pg k i"
    show "page_entity pg k i = stored rd s d k i"
    proof (cases k)
      case Entity_Event
      then have "i \<in> set (cs_event_ids st)" using told entities(1) by (auto simp: page_deletes_def page split: if_splits)
      then show ?thesis using entities(1) [of i] known(1) Entity_Event by auto
    next
      case Entity_Raw_Output
      then have "i \<in> set (cs_raw_ids st)" using told entities(2) by (auto simp: page_deletes_def page split: if_splits)
      then show ?thesis using entities(2) [of i] known(2) Entity_Raw_Output by auto
    qed
  next
    fix c assume c: "c \<in> set (take m L)"
    show "page_entity pg (ch_kind c) (ch_entity c) \<noteq> None \<or> page_deletes pg (ch_kind c) (ch_entity c)"
    proof (cases "ch_kind c")
      case Entity_Event
      then have "ch_entity c \<in> set (cs_event_ids st)" using c unfolding m(3) mL(2) by blast
      then show ?thesis using Entity_Event by (auto simp: page_entity_def page_deletes_def page find_None_iff image_iff)
    next
      case Entity_Raw_Output
      then have "ch_entity c \<in> set (cs_raw_ids st)" using c unfolding m(4) mL(2) by blast
      then show ?thesis using Entity_Raw_Output by (auto simp: page_entity_def page_deletes_def page find_None_iff image_iff)
    qed
  qed
qed

text \<open>Past the cursor of a page no change is lost: what it did not tell of comes after it.\<close>

lemma change_page_facts:
  assumes ok: "feed_ok d" and pg: "list_change_page rd sz s n b d = Inr pg" and n: "n \<le> fd_head d" "\<forall>p. fd_marks d s = Some p \<longrightarrow> p \<le> n"
  obtains n' where "\<not> pg_reset_required pg" and "pg_change_cursor pg = Some n'" and "n \<le> n'" and "n' \<le> fd_head d"
    and "\<not> pg_has_more pg \<Longrightarrow> n' = fd_head d" and "pg_has_more pg \<Longrightarrow> n < n'"
    and "\<And>k i. page_entity pg k i \<noteq> None \<or> page_deletes pg k i \<Longrightarrow> page_entity pg k i = stored rd s d k i"
    and "\<And>k i. outstanding s d n k i \<Longrightarrow> (page_entity pg k i \<noteq> None \<or> page_deletes pg k i) \<or> outstanding s d n' k i"
proof -
  obtain m l where m: "m \<le> length (unread s n d)" "\<not> pg_reset_required pg" "pg_has_more pg \<longleftrightarrow> m < length (unread s n d)"
    "pg_change_cursor pg = Some (if pg_has_more pg then l else fd_head d)"
    "l = (if m = 0 then n else ch_sequence (unread s n d ! (m - 1)))" "pg_has_more pg \<Longrightarrow> m > 0"
    and told: "\<And>k i. page_entity pg k i \<noteq> None \<or> page_deletes pg k i \<Longrightarrow> page_entity pg k i = stored rd s d k i"
    and tells: "\<And>c. c \<in> set (take m (unread s n d)) \<Longrightarrow> page_entity pg (ch_kind c) (ch_entity c) \<noteq> None \<or> page_deletes pg (ch_kind c) (ch_entity c)"
    using change_page_cases [OF ok pg n] by blast
  have sorted: "sorted_wrt (<) (map ch_sequence (unread s n d))"
    using ok by (simp add: unread_def feed_ok_def sequence_sorted_def sorted_wrt_map sorted_wrt_filter)
  have mem: "n < ch_sequence c \<and> ch_sequence c \<le> fd_head d" if "c \<in> set (unread s n d)" for c using that by (simp add: unread_def)
  let ?n = "if pg_has_more pg then l else fd_head d"
  have last: "n < l \<and> l \<le> fd_head d" if "pg_has_more pg"
    using m(5) m(6) [OF that] mem [of "unread s n d ! (m - 1)"] m(3) that by simp
  show thesis
  proof (rule that [of ?n])
    show "n \<le> ?n" "?n \<le> fd_head d" "pg_has_more pg \<Longrightarrow> n < ?n" using last n(1) by auto
  next
    fix k i assume "outstanding s d n k i"
    then obtain c where c: "c \<in> set (fd_changes d)" "ch_session c = s" "ch_kind c = k" "ch_entity c = i" "n < ch_sequence c"
      unfolding outstanding_def using n(2) by force
    then have cu: "c \<in> set (unread s n d)" using ok by (auto simp: unread_def feed_ok_def)
    show "(page_entity pg k i \<noteq> None \<or> page_deletes pg k i) \<or> outstanding s d ?n k i"
    proof (cases "c \<in> set (take m (unread s n d))")
      case True
      then show ?thesis using tells c(3,4) by auto
    next
      case False
      then have "c \<in> set (drop m (unread s n d))" using cu by (metis Un_iff append_take_drop_id set_append)
      then obtain j where "j < length (drop m (unread s n d))" "c = drop m (unread s n d) ! j" unfolding in_set_conv_nth by blast
      then have j: "m + j < length (unread s n d)" "c = unread s n d ! (m + j)" by simp_all
      then have more: "pg_has_more pg" using m(3) by simp
      have "ch_sequence (unread s n d ! (m - 1)) < ch_sequence (unread s n d ! (m + j))"
        using sorted_wrt_nth_less [OF sorted, of "m - 1" "m + j"] j(1) m(6) [OF more] by simp
      then have "l < ch_sequence c" using m(5) m(6) [OF more] j(2) by simp
      then show ?thesis using c more by (auto simp: outstanding_def)
    qed
  qed (use m told in auto)
qed

section \<open>Every reading leaves the reader right\<close>

lemma caught_up: "feed_ok d \<Longrightarrow> fd_head d \<le> n \<Longrightarrow> \<not> outstanding s d n k i"
  by (force simp: outstanding_def feed_ok_def)

text \<open>What a tail shows of the rows it holds.\<close>

lemma tail_event_entity:
  assumes "feed_ok d" and "find (\<lambda>e. te_id e = i) (list_event_rows rd s None d) = Some e"
  shows "stored rd s d Entity_Event i = Some (Event_Entity e)"
proof -
  obtain p where p: "p \<in> set (chat_events s d)" "event_row_to_timeline_event rd p = e"
    using find_Some_mem [OF assms(2)] by (auto simp: list_event_rows_def Let_def)
  have "te_id e = i" using find_Some_mem [OF assms(2)] by simp
  then have "ev_id (snd p) = i" using p(2) by (auto simp: event_row_to_timeline_event_def Let_def)
  moreover have "p \<in> set (fd_events d)" "ev_session (snd p) = s" using p(1) by (auto simp: chat_events_def)
  moreover have "distinct (map (ev_id \<circ> snd) (fd_events d))" using assms(1) by (simp add: feed_ok_def)
  ultimately have "find (\<lambda>p. ev_id (snd p) = i \<and> ev_session (snd p) = s) (fd_events d) = Some p"
    using find_distinct [of "ev_id \<circ> snd" "fd_events d" p "\<lambda>p. ev_session (snd p) = s"] by simp
  then show ?thesis using p(2) by (simp add: stored_def)
qed

lemma tail_raw_entity:
  assumes "feed_ok d" and "find (\<lambda>w. po_id w = i) (list_raw_output_rows s None d) = Some w"
  shows "stored rd s d Entity_Raw_Output i = Some (Raw_Entity w)"
proof -
  obtain p where p: "p \<in> set (chat_raws s d)" "raw_output_row_to_provider_output p = w"
    using find_Some_mem [OF assms(2)] by (auto simp: list_raw_output_rows_def dest: in_set_takeD)
  have "po_id w = i" using find_Some_mem [OF assms(2)] by simp
  then have "rr_id (snd p) = i" using p(2) by (auto simp: raw_output_row_to_provider_output_def Let_def)
  moreover have "p \<in> set (fd_raws d)" "rr_session (snd p) = s" using p(1) by (auto simp: chat_raws_def)
  moreover have "distinct (map (rr_id \<circ> snd) (fd_raws d))" using assms(1) by (simp add: feed_ok_def)
  ultimately have "find (\<lambda>p. rr_id (snd p) = i \<and> rr_session (snd p) = s) (fd_raws d) = Some p"
    using find_distinct [of "rr_id \<circ> snd" "fd_raws d" p "\<lambda>p. rr_session (snd p) = s"] by simp
  then show ?thesis using p(2) by (simp add: stored_def)
qed

lemma tail_entity:
  assumes "feed_ok d" and "page_entity (list_authoritative_tail rd s d) k i \<noteq> None"
  shows "page_entity (list_authoritative_tail rd s d) k i = stored rd s d k i"
  using assms tail_event_entity [OF assms(1), of i rd s] tail_raw_entity [OF assms(1), of i s _ rd]
  by (cases k) (auto simp: page_entity_def list_authoritative_tail_def Let_def default_page_def)

lemma tail_fields:
  "pg_reset_required (list_authoritative_tail rd s d)" "pg_change_cursor (list_authoritative_tail rd s d) = Some (fd_head d)"
  "\<not> pg_has_more (list_authoritative_tail rd s d)"
  by (simp_all add: list_authoritative_tail_def Let_def default_page_def)

lemma merge_tail_inv:
  assumes ok: "feed_ok d"
  shows "replica_inv rd s (d, merge_page (left_out rd s d (list_authoritative_tail rd s d)) (list_authoritative_tail rd s d) c)"
proof -
  have "page_entity (list_authoritative_tail rd s d) k i = stored rd s d k i" if "page_entity (list_authoritative_tail rd s d) k i \<noteq> None" for k i
    by (rule tail_entity [OF ok that])
  then show ?thesis using ok by (force simp: replica_inv_def merge_page_def left_out_def tail_fields feed_ok_def)
qed

lemma merge_change_inv:
  assumes inv: "replica_inv rd s (d, c)" and cur: "rp_cursor c = Some n" and pg: "list_change_page rd sz s n b d = Inr pg"
    and n: "n \<le> fd_head d" "\<forall>p. fd_marks d s = Some p \<longrightarrow> p \<le> n"
  shows "replica_inv rd s (d, merge_page (left_out rd s d pg) pg c)"
proof -
  have ok: "feed_ok d" and n0: "0 \<le> n"
    and held: "\<And>k i. \<not> rp_unsent c k i \<Longrightarrow> rp_entities c k i \<noteq> stored rd s d k i \<Longrightarrow> outstanding s d n k i"
    using inv cur by (auto simp: replica_inv_def)
  obtain n' where page: "\<not> pg_reset_required pg" "pg_change_cursor pg = Some n'" "n \<le> n'" "n' \<le> fd_head d"
    and told: "\<And>k i. page_entity pg k i \<noteq> None \<or> page_deletes pg k i \<Longrightarrow> page_entity pg k i = stored rd s d k i"
    and rest: "\<And>k i. outstanding s d n k i \<Longrightarrow> (page_entity pg k i \<noteq> None \<or> page_deletes pg k i) \<or> outstanding s d n' k i"
    using change_page_facts [OF ok pg n] by metis
  have "outstanding s d n' k i"
    if "\<not> rp_unsent (merge_page (left_out rd s d pg) pg c) k i" and "rp_entities (merge_page (left_out rd s d pg) pg c) k i \<noteq> stored rd s d k i" for k i
  proof -
    have quiet: "\<not> (page_entity pg k i \<noteq> None \<or> page_deletes pg k i)"
      using that(2) told [of k i] page(1) by (auto simp: merge_page_def split: if_splits)
    then have "\<not> rp_unsent c k i" "rp_entities c k i \<noteq> stored rd s d k i" using that page(1) by (auto simp: merge_page_def)
    then show ?thesis using held rest quiet by blast
  qed
  moreover have "rp_entities (merge_page (left_out rd s d pg) pg c) k i = None" if "rp_unsent (merge_page (left_out rd s d pg) pg c) k i" for k i
    using that inv page(1) by (auto simp: replica_inv_def merge_page_def)
  ultimately show ?thesis using ok n0 page by (auto simp: replica_inv_def merge_page_def)
qed

lemma change_page_reset:
  assumes "list_change_page rd sz s n b d = Inr pg" and "\<not> (n \<le> fd_head d \<and> (\<forall>p. fd_marks d s = Some p \<longrightarrow> p \<le> n))"
  shows "pg = list_authoritative_tail rd s d"
proof -
  have n0: "\<not> n < 0"
  proof
    assume "n < 0"
    then show False using assms(1) by (simp only: list_change_page_def if_True sum.distinct)
  qed
  have "fd_head d < n \<or> n < (case fd_marks d s of None \<Rightarrow> 0 | Some p \<Rightarrow> p)" using assms(2) by (cases "fd_marks d s") auto
  from assms(1) [unfolded list_change_page_def Let_def if_not_P [OF n0] if_P [OF this]] show ?thesis by simp
qed

lemma write_keeps:
  assumes inv: "replica_inv rd s (d, c)" and tells: "tells_changes rd s d d'"
  shows "replica_inv rd s (d', c)"
  using assms unfolding replica_inv_def tells_changes_def fst_conv snd_conv by (metis order_trans)

lemma fold_ok: "(\<And>n d. feed_ok d \<Longrightarrow> feed_ok (f n d)) \<Longrightarrow> feed_ok d \<Longrightarrow> feed_ok (fold f ns d)"
  by (induction ns arbitrary: d) simp_all

lemma tells_ok: "tells_changes rd s d d' \<Longrightarrow> feed_ok d'"
  by (simp add: tells_changes_def)

lemma delete_row_ok: "feed_ok d \<Longrightarrow> feed_ok (delete_event n d)" "feed_ok d \<Longrightarrow> feed_ok (delete_raw n d)"
  by (rule tells_ok [OF delete_event_tells], assumption) (rule tells_ok [OF delete_raw_tells])

lemma remove_chat_ok: "feed_ok d \<Longrightarrow> feed_ok (remove_chat s d)"
proof -
  assume "feed_ok d"
  then have ok: "feed_ok (fold delete_raw ms (fold delete_event ns d))" for ns ms by (intro fold_ok delete_row_ok)
  let ?d = "fold delete_raw (map fst (filter (\<lambda>p. rr_session (snd p) = s) (fd_raws d))) (fold delete_event (map fst (filter (\<lambda>p. ev_session (snd p) = s) (fd_events d))) d)"
  have "sequence_sorted (filter P (fd_changes ?d))" for P
    using ok by (simp add: feed_ok_def sequence_sorted_def sorted_wrt_map sorted_wrt_filter)
  then show ?thesis using ok unfolding remove_chat_def Let_def feed_ok_def by auto
qed

lemma delete_other_tells:
  assumes ok: "feed_ok d" and other: "s' \<noteq> s"
  shows "tells_changes rd s d (remove_chat s' d)"
proof -
  let ?ns = "map fst (filter (\<lambda>p. ev_session (snd p) = s') (fd_events d))" and ?ms = "map fst (filter (\<lambda>p. rr_session (snd p) = s') (fd_raws d))"
  let ?d = "fold delete_raw ?ms (fold delete_event ?ns d)"
  have one: "tells_changes rd s d (fold delete_event ?ns d)" by (rule fold_tells [OF delete_event_tells ok])
  then have mid: "feed_ok (fold delete_event ?ns d)" by (simp add: tells_changes_def)
  have "tells_changes rd s (fold delete_event ?ns d) ?d" by (rule fold_tells [OF delete_raw_tells mid])
  from tells_trans [OF one this] have all: "tells_changes rd s d ?d" .
  have final: "remove_chat s' d = ?d\<lparr>fd_changes := filter (\<lambda>c. ch_session c \<noteq> s') (fd_changes ?d), fd_marks := (fd_marks ?d)(s' := None)\<rparr>"
    by (simp add: remove_chat_def Let_def)
  have head: "fd_head (remove_chat s' d) = fd_head ?d" by (simp add: final)
  have out: "outstanding s (remove_chat s' d) n k i = outstanding s ?d n k i" for n k i
    using other unfolding final outstanding_def by auto
  have same: "stored rd s (remove_chat s' d) = stored rd s ?d" by (rule stored_cong) (simp_all add: final)
  show ?thesis using all remove_chat_ok [OF ok, of s'] unfolding tells_changes_def head same out by blast
qed

lemma replica_step_keeps:
  assumes "replica_step rd sz s st st'" and "replica_inv rd s st"
  shows "replica_inv rd s st'"
  using assms
proof (induction rule: replica_step.induct)
  case (Write d d' c)
  then have "feed_ok d" by (simp add: replica_inv_def)
  from write_tells [OF Write(1) this] show ?case by (rule write_keeps [OF Write(2)])
next
  case (Remove_Other s' d c)
  then have "feed_ok d" by (simp add: replica_inv_def)
  from delete_other_tells [OF this Remove_Other(1)] show ?case by (rule write_keeps [OF Remove_Other(2)])
next
  case (Remove_Own d c)
  then show ?case by (simp add: replica_inv_def new_replica_def remove_chat_ok)
next
  case (Read c budget d pg)
  have ok: "feed_ok d" using Read by (simp add: replica_inv_def)
  show ?case
  proof (cases "rp_cursor c")
    case None
    then have "pg = list_authoritative_tail rd s d" using Read(1) by (simp add: list_session_changes_since_def)
    then show ?thesis using merge_tail_inv [OF ok] by simp
  next
    case (Some n)
    then have pg: "list_change_page rd sz s n budget d = Inr pg" using Read(1) by (simp add: list_session_changes_since_def)
    show ?thesis
    proof (cases "n \<le> fd_head d \<and> (\<forall>p. fd_marks d s = Some p \<longrightarrow> p \<le> n)")
      case True
      then show ?thesis using merge_change_inv [OF Read(2) Some pg] by blast
    next
      case False
      then show ?thesis using merge_tail_inv [OF ok] change_page_reset [OF pg False] by simp
    qed
  qed
qed

interpretation replicas: invariant_system "replica_step rd sz s" "replica_inv rd s"
  by unfold_locales (rule replica_step_keeps)

lemma start_replica: "feed_ok d \<Longrightarrow> replica_inv rd s (d, new_replica)"
  by (simp add: replica_inv_def new_replica_def)

text \<open>What a reading that says it is the last one leaves.\<close>

lemma last_page_facts:
  assumes inv: "replica_inv rd s (d, c)" and pg: "list_session_changes_since rd sz s None None (rp_cursor c) b d = Inr pg" and last: "\<not> pg_has_more pg"
  shows "rp_entities (merge_page (left_out rd s d pg) pg c) k i = (if rp_unsent (merge_page (left_out rd s d pg) pg c) k i then None else stored rd s d k i)"
proof -
  have after: "replica_inv rd s (d, merge_page (left_out rd s d pg) pg c)"
    by (rule replica_step_keeps [OF Read [OF pg] inv])
  have ok: "feed_ok d" using inv by (simp add: replica_inv_def)
  have "pg_change_cursor pg = Some (fd_head d)"
  proof (cases "rp_cursor c")
    case None
    then show ?thesis using pg by (auto simp: list_session_changes_since_def tail_fields)
  next
    case (Some n)
    then have page: "list_change_page rd sz s n b d = Inr pg" using pg by (simp add: list_session_changes_since_def)
    show ?thesis
    proof (cases "n \<le> fd_head d \<and> (\<forall>p. fd_marks d s = Some p \<longrightarrow> p \<le> n)")
      case True
      then obtain n' where "pg_change_cursor pg = Some n'" "\<not> pg_has_more pg \<Longrightarrow> n' = fd_head d" using change_page_facts [OF ok page] by metis
      then show ?thesis using last by simp
    next
      case False
      then show ?thesis using change_page_reset [OF page False] by (simp add: tail_fields)
    qed
  qed
  then have "rp_cursor (merge_page (left_out rd s d pg) pg c) = Some (fd_head d)" by (simp add: merge_page_def)
  then show ?thesis using after caught_up [OF ok, of "fd_head d" s k i] by (auto simp: replica_inv_def)
qed

text \<open>C37: Whatever writers did to the transcript in between, and although the feed forgets, after a reading that has no more to send
  the reader holds every row exactly as it is stored and no row that is gone; it lacks only rows that were stored when the last
  tail was read, that the tail left out and that have not changed since.\<close>

theorem readers_converge:
  assumes "feed_ok d0" and "(replica_step rd sz s)\<^sup>*\<^sup>* (d0, new_replica) (d, c)"
    and "list_session_changes_since rd sz s None None (rp_cursor c) b d = Inr pg" and "\<not> pg_has_more pg"
  shows "rp_entities (merge_page (left_out rd s d pg) pg c) k i = (if rp_unsent (merge_page (left_out rd s d pg) pg c) k i then None else stored rd s d k i)"
  by (rule last_page_facts [OF replicas.runs [OF assms(2) start_replica [OF assms(1)]] assms(3,4)])

section \<open>Reading on comes to an end\<close>

text \<open>The loop of a reader: it asks until a page has no more.\<close>

fun read_on :: "nat \<Rightarrow> 's reading \<Rightarrow> 's lengths \<Rightarrow> string \<Rightarrow> nat option \<Rightarrow> transcript_db \<Rightarrow> 's replica \<Rightarrow> 's replica option" where
  "read_on 0 rd sz s b d c = None"
| "read_on (Suc fuel) rd sz s b d c =
     (case list_session_changes_since rd sz s None None (rp_cursor c) b d of
        Inl e \<Rightarrow> None
      | Inr pg \<Rightarrow> if pg_has_more pg then read_on fuel rd sz s b d (merge_page (left_out rd s d pg) pg c) else Some (merge_page (left_out rd s d pg) pg c))"

lemma reading_answers:
  assumes "replica_inv rd s (d, c)"
  obtains pg where "list_session_changes_since rd sz s None None (rp_cursor c) b d = Inr pg"
    and "pg_has_more pg \<Longrightarrow> \<exists>n n'. rp_cursor c = Some n \<and> rp_cursor (merge_page (left_out rd s d pg) pg c) = Some n' \<and> n < n' \<and> n' \<le> fd_head d"
proof (cases "rp_cursor c")
  case None
  then show thesis by (intro that [of "list_authoritative_tail rd s d"]) (simp_all add: list_session_changes_since_def tail_fields)
next
  case (Some n)
  have ok: "feed_ok d" and n0: "\<not> n < 0" using assms Some by (auto simp: replica_inv_def)
  obtain pg where pg: "list_change_page rd sz s n b d = Inr pg"
    unfolding list_change_page_def Let_def if_not_P [OF n0] by (metis (full_types))
  show thesis
  proof (rule that [of pg])
    show "list_session_changes_since rd sz s None None (rp_cursor c) b d = Inr pg" using pg Some by (simp add: list_session_changes_since_def)
    assume more: "pg_has_more pg"
    have within: "n \<le> fd_head d \<and> (\<forall>p. fd_marks d s = Some p \<longrightarrow> p \<le> n)"
    proof (rule ccontr)
      assume "\<not> (n \<le> fd_head d \<and> (\<forall>p. fd_marks d s = Some p \<longrightarrow> p \<le> n))"
      then show False using change_page_reset [OF pg] more by (simp add: tail_fields)
    qed
    then obtain n' where "pg_change_cursor pg = Some n'" "n' \<le> fd_head d" "pg_has_more pg \<Longrightarrow> n < n'"
      using change_page_facts [OF ok pg] by metis
    then show "\<exists>n n'. rp_cursor c = Some n \<and> rp_cursor (merge_page (left_out rd s d pg) pg c) = Some n' \<and> n < n' \<and> n' \<le> fd_head d"
      using more Some by (auto simp: merge_page_def)
  qed
qed

definition unread_distance :: "transcript_db \<Rightarrow> 's replica \<Rightarrow> nat" where
  "unread_distance d c = (case rp_cursor c of None \<Rightarrow> 0 | Some n \<Rightarrow> nat (fd_head d - n))"

lemma read_on_ends:
  assumes "replica_inv rd s (d, c)" and "unread_distance d c < fuel"
  shows "\<exists>c'. read_on fuel rd sz s b d c = Some c' \<and> (\<forall>k i. rp_entities c' k i = (if rp_unsent c' k i then None else stored rd s d k i))"
  using assms
proof (induction fuel arbitrary: c)
  case (Suc fuel)
  obtain pg where pg: "list_session_changes_since rd sz s None None (rp_cursor c) b d = Inr pg"
    and more: "pg_has_more pg \<Longrightarrow> \<exists>n n'. rp_cursor c = Some n \<and> rp_cursor (merge_page (left_out rd s d pg) pg c) = Some n' \<and> n < n' \<and> n' \<le> fd_head d"
    using reading_answers [OF Suc.prems(1)] by metis
  show ?case
  proof (cases "pg_has_more pg")
    case True
    then have "unread_distance d (merge_page (left_out rd s d pg) pg c) < unread_distance d c" using more by (auto simp: unread_distance_def)
    moreover have "replica_inv rd s (d, merge_page (left_out rd s d pg) pg c)" by (rule replica_step_keeps [OF Read [OF pg] Suc.prems(1)])
    ultimately show ?thesis using Suc.IH Suc.prems(2) pg True by simp
  next
    case False
    then show ?thesis using last_page_facts [OF Suc.prems(1) pg False] pg by simp
  qed
qed simp


section \<open>The writes of the code are such steps\<close>

lemma fold_steps: "(\<And>n d. write_step d (f n d)) \<Longrightarrow> write_step\<^sup>*\<^sup>* d (fold f ns d)"
  by (induction ns arbitrary: d) (auto intro: converse_rtranclp_into_rtranclp)

lemma insert_events_steps: "insert_events native rs d = Some d' \<Longrightarrow> write_step\<^sup>*\<^sup>* d d'"
  by (induction native rs d rule: insert_events.induct)
    (auto split: option.splits intro: converse_rtranclp_into_rtranclp Insert_Event_Row)

lemma update_event_payload_steps: "update_event_payload i p d = (Some d', b) \<Longrightarrow> write_step\<^sup>*\<^sup>* d d'"
  by (auto simp: update_event_payload_def split: option.splits intro: Update_Event_Row)

lemma upgrade_steps: "upgrade_trace_no_output_completion r d = (Some d', b) \<Longrightarrow> write_step\<^sup>*\<^sup>* d d'"
  by (auto simp: upgrade_trace_no_output_completion_def split: if_splits option.splits intro: Update_Event_Row)

lemma rewrite_steps: "write_step\<^sup>*\<^sup>* d (fst (rewrite_trace_event n i p d))"
  by (auto simp: rewrite_trace_event_def split: option.splits intro: Update_Event_Row)

lemma delete_launch_steps: "write_step\<^sup>*\<^sup>* d (fst (delete_synthetic_launch_events s tool d))"
  by (simp add: delete_synthetic_launch_events_def Let_def fold_steps Delete_Event_Row)

lemma supersede_steps: "supersede_synthetic_launch_events rd native s tool real_tool d = Some (d', n) \<Longrightarrow> write_step\<^sup>*\<^sup>* d d'"
  using delete_launch_steps [of d s tool]
  by (auto simp: supersede_synthetic_launch_events_def Let_def split: prod.splits option.splits dest!: insert_events_steps intro: rtranclp_trans)

section \<open>What a tail leaves out\<close>

lemma chat_rowids: "feed_ok d \<Longrightarrow> sorted_wrt (<) (map fst (chat_events s d))"
proof -
  assume "feed_ok d"
  then have "distinct (map fst (filter (\<lambda>p. ev_session (snd p) = s) (fd_events d)))" by (simp add: feed_ok_def distinct_filter_map)
  then have "distinct (map fst (chat_events s d))" unfolding chat_events_def by (metis distinct_map distinct_sort set_sort)
  moreover have "sorted (map fst (chat_events s d))" by (simp add: chat_events_def)
  ultimately show ?thesis by (simp add: strict_sorted_iff)
qed

lemma rev_rowids: "feed_ok d \<Longrightarrow> sorted_wrt (>) (map fst (rev (chat_events s d)))"
  using chat_rowids [of d s] by (simp add: sorted_wrt_rev flip: rev_map)

text \<open>The newest rows and the newest durable rows are always in the tail, so a reader of a short chat misses nothing.\<close>

lemma tail_keeps_the_newest:
  assumes ok: "feed_ok d" and pos: "\<forall>q\<in>set (fd_events d). 0 < fst q" and p: "p \<in> set (take SESSION_EVENT_PAGE_LIMIT (rev (chat_events s d)))"
  shows "event_row_to_timeline_event rd p \<in> set (list_event_rows rd s None d)"
proof -
  let ?new = "rev (chat_events s d)" and ?page = "take SESSION_EVENT_PAGE_LIMIT (rev (chat_events s d))"
  obtain j where j: "j < length ?page" "p = ?page ! j" using p by (auto simp: in_set_conv_nth)
  then have at: "j < SESSION_EVENT_PAGE_LIMIT" "j < length ?new" "p = ?new ! j" by simp_all
  have own: "p \<in> set (chat_events s d)" using p by (auto dest: in_set_takeD)
  then have first: "0 < fst p" using pos by (auto simp: chat_events_def)
  have capped: "fst (?new ! SESSION_TAIL_OPEN_RUN_LIMIT) < fst p" if "SESSION_TAIL_OPEN_RUN_LIMIT < length ?new"
    using sorted_wrt_nth_less [OF rev_rowids [OF ok, of s], of j SESSION_TAIL_OPEN_RUN_LIMIT] that at
    by (simp add: SESSION_EVENT_PAGE_LIMIT_def SESSION_TAIL_OPEN_RUN_LIMIT_def)
  have opened: "Max (set ns) < fst p" if "ns \<noteq> []" "\<forall>n\<in>set ns. map fst ?page \<noteq> [] \<and> n < Min (set (map fst ?page))" for ns :: "int list"
  proof -
    have "Max (set ns) < Min (set (map fst ?page))" using that by simp
    also have "\<dots> \<le> fst p" using p by (intro Min_le) auto
    finally show ?thesis .
  qed
  have "tail_floor s d < fst p"
    unfolding tail_floor_def Let_def max_less_iff_conj
  proof
    let ?ns = "filter (\<lambda>n. map fst ?page \<noteq> [] \<and> n < Min (set (map fst ?page))) (map fst (filter (\<lambda>p. ev_type (snd p) \<noteq> ''message.delta'') (chat_events s d)))"
    have "?ns \<noteq> [] \<Longrightarrow> Max (set ?ns) < fst p" by (rule opened) (assumption, unfold set_filter, blast)
    then show "(if ?ns = [] then 0 else Max (set ?ns)) < fst p" using first by (cases "?ns = []") (simp_all only: if_True if_False simp_thms)
    show "(if SESSION_TAIL_OPEN_RUN_LIMIT < length ?new then fst (?new ! SESSION_TAIL_OPEN_RUN_LIMIT) else 0) < fst p"
      using first capped by (cases "SESSION_TAIL_OPEN_RUN_LIMIT < length ?new") (simp_all only: if_True if_False simp_thms)
  qed
  then show ?thesis using own by (simp add: list_event_rows_def Let_def)
qed

lemma tail_keeps_durable_rows:
  "p \<in> set (take SESSION_TAIL_DURABLE_LIMIT (rev (filter (\<lambda>p. ev_type (snd p) \<noteq> ''message.delta'') (chat_events s d)))) \<Longrightarrow>
   event_row_to_timeline_event rd p \<in> set (list_event_rows rd s None d)"
proof -
  assume p: "p \<in> set (take SESSION_TAIL_DURABLE_LIMIT (rev (filter (\<lambda>p. ev_type (snd p) \<noteq> ''message.delta'') (chat_events s d))))"
  then have "p \<in> set (chat_events s d)" by (auto dest: in_set_takeD)
  then show ?thesis using p by (auto simp: list_event_rows_def Let_def)
qed

section \<open>Concrete runs\<close>

definition sample_feed :: transcript_db where
  "sample_feed = \<lparr>fd_events = [], fd_raws = [], fd_changes = [], fd_marks = (\<lambda>s. None), fd_head = 0\<rparr>"

definition sample_event :: event_row where
  "sample_event = \<lparr>ev_id = ''e'', ev_session = ''s'', ev_type = ''user.message'', ev_message = ''hi'', ev_payload = JNull, ev_created = ''t''\<rparr>"

definition plain_reading :: "unit reading" where "plain_reading = \<lparr>rd_enrich = (\<lambda>t p. p), rd_derive = (\<lambda>t i p. ())\<rparr>"
definition sample_lengths :: "unit lengths" where
  "sample_lengths = \<lparr>sz_event = (\<lambda>e. 10), sz_raw = (\<lambda>w. 10), sz_id = (\<lambda>i. 3), sz_page = (\<lambda>p. 20)\<rparr>"

definition sample_inserted :: transcript_db where "sample_inserted = the (insert_event sample_event sample_feed)"
definition sample_replica :: "unit replica" where
  "sample_replica = merge_page (left_out plain_reading ''s'' sample_inserted (list_authoritative_tail plain_reading ''s'' sample_inserted)) (list_authoritative_tail plain_reading ''s'' sample_inserted) new_replica"
definition sample_deleted :: transcript_db where "sample_deleted = delete_event 1 sample_inserted"
definition sample_page :: "unit session_page" where
  "sample_page = projr (list_session_changes_since plain_reading sample_lengths ''s'' None None (rp_cursor sample_replica) (Some 5) sample_deleted)"

lemmas sample_defs = sample_feed_def sample_event_def plain_reading_def sample_lengths_def sample_inserted_def sample_replica_def sample_deleted_def sample_page_def

lemma sample_feed_ok: "feed_ok sample_feed"
  by (simp add: feed_ok_def sample_feed_def sequence_sorted_def)

lemma sample_read_run: "(replica_step plain_reading sample_lengths ''s'')\<^sup>*\<^sup>* (sample_feed, new_replica) (sample_deleted, sample_replica)"
proof -
  have "replica_step plain_reading sample_lengths ''s'' (sample_feed, new_replica) (sample_inserted, new_replica)"
    by (intro Write Insert_Event_Row [where r = sample_event]) (simp add: sample_inserted_def insert_event_def sample_feed_def)
  moreover have "replica_step plain_reading sample_lengths ''s'' (sample_inserted, new_replica) (sample_inserted, sample_replica)"
    unfolding sample_replica_def by (rule Read [where budget = None]) (simp add: list_session_changes_since_def new_replica_def)
  moreover have "replica_step plain_reading sample_lengths ''s'' (sample_inserted, sample_replica) (sample_deleted, sample_replica)"
    unfolding sample_deleted_def by (intro Write Delete_Event_Row)
  ultimately show ?thesis by (meson rtranclp.intros)
qed

lemma sample_page_read:
  "list_session_changes_since plain_reading sample_lengths ''s'' None None (rp_cursor sample_replica) (Some 5) sample_deleted = Inr sample_page"
  "\<not> pg_has_more sample_page" "pg_deleted_event_ids sample_page = [''e'']"
  by code_simp+

theorem readers_converge_witness:
  "rp_entities (merge_page (left_out plain_reading ''s'' sample_deleted sample_page) sample_page sample_replica) Entity_Event ''e'' =
     (if rp_unsent (merge_page (left_out plain_reading ''s'' sample_deleted sample_page) sample_page sample_replica) Entity_Event ''e'' then None else stored plain_reading ''s'' sample_deleted Entity_Event ''e'')"
  by (rule readers_converge [OF sample_feed_ok sample_read_run sample_page_read(1,2)])


end
