(* ===== verification/Transcript_Pages.thy ===== *)
theory Transcript_Pages
  imports Transcript_Replica "HOL-Library.Option_ord" "HOL-Library.Sublist"
begin

text \<open>
  Transcript pages over the bridge to the phone (\<^verbatim>\<open>src-tauri/src/remote/transcript_trim.rs\<close>, \<^verbatim>\<open>src-tauri/src/ipc/catalogue.rs\<close>): what a page sheds,
  the cut to a budget of bytes, and the backfill that asks for the rest page by page.
\<close>

section \<open>What a page sheds\<close>

definition is_object :: "json \<Rightarrow> bool" where
  "is_object v = (case v of JObject kvs \<Rightarrow> True | _ \<Rightarrow> False)"

definition is_inline_image_block :: "json \<Rightarrow> bool" where
  "is_inline_image_block block =
     (case json_get ''source'' block of
        Some (JObject source) \<Rightarrow> (case map_of source ''data'' of Some (JString t) \<Rightarrow> True | _ \<Rightarrow> False)
      | _ \<Rightarrow> False)"

definition omitted_image :: json where
  "omitted_image = json_object [(''type'', JString ''image''), (''omitted'', JBool True)]"

definition trim_payload :: "'s timeline_event \<Rightarrow> 's timeline_event" where
  "trim_payload e =
     (case te_payload e of
        JObject kvs \<Rightarrow>
          (let kvs = (case map_of kvs ''raw'' of Some v \<Rightarrow> if is_object v then object_remove ''raw'' kvs else kvs | None \<Rightarrow> kvs)
           in if te_type e \<noteq> ''command.completed'' then e\<lparr>te_payload := JObject kvs\<rparr>
              else
                (let kvs = object_remove ''aggregated_output'' kvs;
                     kvs = (case map_of kvs ''content'' of
                              Some (JArray blocks) \<Rightarrow>
                                object_insert ''content'' (JArray (map (\<lambda>b. if is_inline_image_block b then omitted_image else b) blocks)) kvs
                            | _ \<Rightarrow> kvs)
                 in e\<lparr>te_payload := JObject kvs\<rparr>))
      | _ \<Rightarrow> e)"

definition trim_payloads_for_remote :: "'s session_page \<Rightarrow> 's session_page" where
  "trim_payloads_for_remote pg = pg\<lparr>pg_events := map trim_payload (pg_events pg)\<rparr>"

datatype turn_boundary = Boundary_Completed string | Boundary_Tool string | Boundary_User

definition non_blank :: "json option \<Rightarrow> string option" where
  "non_blank v = (case v of Some (JString t) \<Rightarrow> if trim t = [] then None else Some t | _ \<Rightarrow> None)"

definition or_else :: "'a option \<Rightarrow> 'a option \<Rightarrow> 'a option" where
  "or_else a b = (case a of None \<Rightarrow> b | Some x \<Rightarrow> Some x)"

definition provider_thread_id :: "object \<Rightarrow> string option" where
  "provider_thread_id payload =
     (let item = (case map_of payload ''item'' of Some (JObject kvs) \<Rightarrow> Some kvs | _ \<Rightarrow> None);
          of_item = (\<lambda>k. case item of None \<Rightarrow> None | Some kvs \<Rightarrow> map_of kvs k)
      in if map_of payload ''item_type'' \<noteq> Some (JString ''agent_message'') \<and> of_item ''type'' \<noteq> Some (JString ''agent_message'') then None
         else or_else (non_blank (map_of payload ''thread_id'')) (or_else (non_blank (map_of payload ''sender_thread_id''))
           (or_else (non_blank (of_item ''thread_id'')) (non_blank (of_item ''sender_thread_id'')))))"

definition is_sub_agent_prose :: "'s timeline_event \<Rightarrow> object \<Rightarrow> bool" where
  "is_sub_agent_prose e payload \<longleftrightarrow>
     (te_type e = ''message.delta'' \<or> te_type e = ''message.completed'') \<and>
     (non_blank (map_of payload ''parent_tool_use_id'') \<noteq> None \<or> provider_thread_id payload \<noteq> None)"

definition advance_turn_boundary :: "turn_boundary option \<Rightarrow> 's timeline_event \<Rightarrow> object \<Rightarrow> turn_boundary option" where
  "advance_turn_boundary previous e payload =
     (if te_type e = ''message.completed'' then Some (Boundary_Completed (te_message e))
      else if te_type e = ''command.started'' then
        (if non_blank (map_of payload ''parent_tool_use_id'') \<noteq> None then None
         else (case previous of Some (Boundary_Completed t) \<Rightarrow> Some (Boundary_Tool t) | _ \<Rightarrow> None))
      else if te_type e = ''user.message'' then
        (if map_of payload ''delivery'' = Some (JString ''steer'') then None else Some Boundary_User)
      else None)"

definition is_superseded_answer_delta :: "'s timeline_event \<Rightarrow> object \<Rightarrow> turn_boundary option \<Rightarrow> bool" where
  "is_superseded_answer_delta e payload boundary =
     (if map_of payload ''thinking'' = Some (JBool True) then False
      else
        (case boundary of
           Some (Boundary_Completed t) \<Rightarrow> True
         | Some (Boundary_Tool t) \<Rightarrow> (let delta = trim (te_message e) in 3 \<le> length delta \<and> starts_with (trim t) delta)
         | _ \<Rightarrow> False))"

text \<open>One row of the sweep, which goes back from the newest.\<close>

definition sweep_row :: "'s timeline_event list \<Rightarrow> nat \<Rightarrow> (string \<rightharpoonup> turn_boundary) \<times> bool list \<Rightarrow> (string \<rightharpoonup> turn_boundary) \<times> bool list" where
  "sweep_row es i st =
     (let e = es ! i; next_boundary = fst st; superseded = snd st
      in case te_payload e of
           JObject payload \<Rightarrow>
             (if is_sub_agent_prose e payload then st
              else if te_type e = ''message.delta''
                then (if is_superseded_answer_delta e payload (next_boundary (te_session e)) then (next_boundary, superseded[i := True]) else st)
              else (case advance_turn_boundary (next_boundary (te_session e)) e payload of
                      Some b \<Rightarrow> (next_boundary(te_session e \<mapsto> b), superseded)
                    | None \<Rightarrow> st))
         | _ \<Rightarrow> st)"

text \<open>The sweep's order: by cursor, then time, then place; the sorts are stable.\<close>

definition ascending_rows :: "'s timeline_event list \<Rightarrow> nat list" where
  "ascending_rows es = sort_key (\<lambda>i. te_cursor (es ! i)) (sort_key (\<lambda>i. te_created (es ! i)) [0..<length es])"

definition superseded_rows :: "'s timeline_event list \<Rightarrow> bool list" where
  "superseded_rows es = snd (fold (sweep_row es) (rev (ascending_rows es)) (Map.empty, replicate (length es) False))"

definition drop_superseded_deltas :: "'s timeline_event list \<Rightarrow> 's timeline_event list" where
  "drop_superseded_deltas es =
     (let superseded = superseded_rows es
      in if list_ex id superseded then map fst (filter (\<lambda>(e, dropped). \<not> dropped) (zip es superseded)) else es)"

definition trim_for_remote :: "'s session_page \<Rightarrow> 's session_page" where
  "trim_for_remote pg =
     (let pg = trim_payloads_for_remote pg in pg\<lparr>pg_events := drop_superseded_deltas (pg_events pg)\<rparr>)"

section \<open>The cut to a budget\<close>

definition REMOTE_PAGE_BUDGET_BYTES :: nat where "REMOTE_PAGE_BUDGET_BYTES = 768 * 1024"

fun fit_rows :: "('r \<Rightarrow> nat) \<Rightarrow> nat \<Rightarrow> nat \<Rightarrow> 'r list \<Rightarrow> nat \<Rightarrow> nat \<Rightarrow> nat \<times> nat" where
  "fit_rows bytes budget before [] spent n = (spent, n)"
| "fit_rows bytes budget before (r # rs) spent n =
     (if before + n > 0 \<and> spent + bytes r > budget then (spent, n) else fit_rows bytes budget before rs (spent + bytes r) (n + 1))"

definition fit_to_budget :: "'s lengths \<Rightarrow> nat \<Rightarrow> 's session_page \<Rightarrow> 's session_page" where
  "fit_to_budget sz budget pg =
     (let fit = fit_rows (sz_event sz) budget 0 (pg_events pg) 0 0; kept_events = snd fit;
          events_cut = kept_events < length (pg_events pg);
          kept_outputs = (if events_cut then 0 else snd (fit_rows (sz_raw sz) budget kept_events (pg_raw_outputs pg) (fst fit) 0));
          outputs_cut = kept_outputs < length (pg_raw_outputs pg)
      in if \<not> events_cut \<and> \<not> outputs_cut then pg
         else
           (let es = take kept_events (pg_events pg);
                pg = (if events_cut then pg\<lparr>pg_events := es, pg_event_cursor := max_row_cursor es (pg_event_cursor pg)\<rparr> else pg);
                owed = (if outputs_cut then po_cursor (pg_raw_outputs pg ! kept_outputs) else None);
                ws = take kept_outputs (pg_raw_outputs pg);
                pg = (case owed of
                        None \<Rightarrow> pg
                      | Some first_owed \<Rightarrow> pg\<lparr>pg_raw_outputs := ws, pg_raw_output_cursor := max_raw_row_cursor ws (first_owed - 1)\<rparr>)
            in pg\<lparr>pg_change_cursor := None, pg_has_more := True\<rparr>))"

text \<open>The bridge's channel.\<close>

definition session_events_since_channel ::
  "'s reading \<Rightarrow> 's lengths \<Rightarrow> string \<Rightarrow> int option \<Rightarrow> int option \<Rightarrow> int option \<Rightarrow> transcript_db \<Rightarrow> argmax_error + 's session_page" where
  "session_events_since_channel rd sz s event_cursor raw_cursor change_cursor d =
     and_then (list_session_changes_since rd sz s event_cursor raw_cursor change_cursor (Some (REMOTE_PAGE_BUDGET_BYTES - 128)) d)
       (\<lambda>pg. let pg = trim_for_remote pg
             in Inr (if change_cursor = None \<or> pg_reset_required pg then fit_to_budget sz REMOTE_PAGE_BUDGET_BYTES pg else pg))"

section \<open>What the sweep drops\<close>

lemma ascending_rows_id:
  assumes "sorted_wrt (<) (map te_cursor es)"
  shows "ascending_rows es = [0..<length es]"
proof -
  let ?key = "\<lambda>i. te_cursor (es ! i)" and ?xs = "ascending_rows es"
  have keys: "map ?key [0..<length es] = map te_cursor es" by (rule nth_equalityI) simp_all
  have xs: "set ?xs = {0..<length es}" "distinct ?xs" "sorted (map ?key ?xs)" by (simp_all add: ascending_rows_def)
  have inj: "inj_on ?key {0..<length es}"
  proof (rule inj_onI)
    fix i j assume "i \<in> {0..<length es}" "j \<in> {0..<length es}" "te_cursor (es ! i) = te_cursor (es ! j)"
    moreover have "distinct (map te_cursor es)" using assms strict_sorted_iff by blast
    ultimately show "i = j" by (metis atLeastLessThan_iff length_map nth_eq_iff_index_eq nth_map)
  qed
  have "distinct (map ?key ?xs)" using xs(1,2) inj by (simp add: distinct_map)
  moreover have "sorted (map te_cursor es)" "distinct (map te_cursor es)" using assms strict_sorted_iff by blast+
  moreover have "set (map ?key ?xs) = set (map te_cursor es)" unfolding keys [symmetric] set_map xs(1) by simp
  ultimately have "map ?key ?xs = map ?key [0..<length es]" unfolding keys using xs(3) sorted_distinct_set_unique by blast
  then show ?thesis by (rule map_inj_on) (use inj xs(1) in simp)
qed

definition completed_after :: "'s timeline_event list \<Rightarrow> nat \<Rightarrow> bool" where
  "completed_after es k \<longleftrightarrow> (\<exists>j. k \<le> j \<and> j < length es \<and> te_type (es ! j) = ''message.completed'')"

definition sweep_ok :: "'s timeline_event list \<Rightarrow> nat \<Rightarrow> (string \<rightharpoonup> turn_boundary) \<times> bool list \<Rightarrow> bool" where
  "sweep_ok es k st \<longleftrightarrow> length (snd st) = length es \<and>
     (\<forall>i < length es. snd st ! i \<longrightarrow> te_type (es ! i) = ''message.delta'' \<and> completed_after es (Suc i)) \<and>
     (\<forall>s t. fst st s = Some (Boundary_Completed t) \<or> fst st s = Some (Boundary_Tool t) \<longrightarrow> completed_after es k)"

lemma completed_after_mono: "completed_after es k \<Longrightarrow> k' \<le> k \<Longrightarrow> completed_after es k'"
  unfolding completed_after_def by (meson order_trans)

lemma advanced_boundary:
  assumes "advance_turn_boundary b e payload = Some b'" and "b' = Boundary_Completed t \<or> b' = Boundary_Tool t"
  shows "te_type e = ''message.completed'' \<or> (\<exists>u. b = Some (Boundary_Completed u))"
  using assms by (auto simp: advance_turn_boundary_def split: if_splits option.splits turn_boundary.splits)

lemma superseded_boundary:
  "is_superseded_answer_delta e payload b \<Longrightarrow> \<exists>t. b = Some (Boundary_Completed t) \<or> b = Some (Boundary_Tool t)"
  by (auto simp: is_superseded_answer_delta_def split: if_splits option.splits turn_boundary.splits)

lemma sweep_row_ok:
  assumes ok: "sweep_ok es (Suc k) st" and k: "k < length es"
  shows "sweep_ok es k (sweep_row es k st)"
proof -
  have len: "length (snd st) = length es" and sup: "\<And>i. i < length es \<Longrightarrow> snd st ! i \<Longrightarrow> te_type (es ! i) = ''message.delta'' \<and> completed_after es (Suc i)"
    and nb: "\<And>s t. fst st s = Some (Boundary_Completed t) \<or> fst st s = Some (Boundary_Tool t) \<Longrightarrow> completed_after es (Suc k)"
    using ok by (auto simp: sweep_ok_def)
  have same: "sweep_ok es k st" using ok completed_after_mono [of es "Suc k" k] by (auto simp: sweep_ok_def)
  show ?thesis
  proof (cases "\<exists>payload. te_payload (es ! k) = JObject payload \<and> \<not> is_sub_agent_prose (es ! k) payload")
    case False
    then have "sweep_row es k st = st" by (auto simp: sweep_row_def Let_def split: json.splits)
    then show ?thesis using same by simp
  next
    case True
    then obtain payload where p: "te_payload (es ! k) = JObject payload" "\<not> is_sub_agent_prose (es ! k) payload" by blast
    show ?thesis
    proof (cases "te_type (es ! k) = ''message.delta''")
      case delta: True
      show ?thesis
      proof (cases "is_superseded_answer_delta (es ! k) payload (fst st (te_session (es ! k)))")
        case True
        then have "completed_after es (Suc k)" using superseded_boundary nb by blast
        moreover have "sweep_row es k st = (fst st, (snd st)[k := True])" using p delta True by (simp add: sweep_row_def Let_def)
        ultimately show ?thesis using same len delta k by (auto simp: sweep_ok_def nth_list_update)
      next
        case False
        then have "sweep_row es k st = st" using p delta by (simp add: sweep_row_def Let_def)
        then show ?thesis using same by simp
      qed
    next
      case other: False
      show ?thesis
      proof (cases "advance_turn_boundary (fst st (te_session (es ! k))) (es ! k) payload")
        case None
        then have "sweep_row es k st = st" using p other by (simp add: sweep_row_def Let_def)
        then show ?thesis using same by simp
      next
        case (Some b)
        then have row: "sweep_row es k st = ((fst st)(te_session (es ! k) \<mapsto> b), snd st)" using p other by (simp add: sweep_row_def Let_def)
        have "completed_after es k" if "b = Boundary_Completed t \<or> b = Boundary_Tool t" for t
        proof (cases "te_type (es ! k) = ''message.completed''")
          case True
          then show ?thesis using k by (auto simp: completed_after_def)
        next
          case False
          then have "completed_after es (Suc k)" using advanced_boundary [OF Some that] nb by blast
          then show ?thesis by (rule completed_after_mono) simp
        qed
        then show ?thesis unfolding row using same by (auto simp: sweep_ok_def)
      qed
    qed
  qed
qed

lemma sweep_all_ok: "d \<le> length es \<Longrightarrow>
  sweep_ok es (length es - d) (fold (sweep_row es) (rev [length es - d..<length es]) (Map.empty, replicate (length es) False))"
proof (induction d)
  case 0
  then show ?case by (simp add: sweep_ok_def)
next
  case (Suc d)
  let ?k = "length es - Suc d"
  have k: "length es - d = Suc ?k" "?k < length es" using Suc.prems by simp_all
  have "rev [?k..<length es] = rev [length es - d..<length es] @ [?k]" using k by (simp add: upt_conv_Cons)
  then show ?case using sweep_row_ok [of es ?k] Suc.IH Suc.prems k by simp
qed

lemma superseded_rows_spec:
  assumes "sorted_wrt (<) (map te_cursor es)"
  shows "length (superseded_rows es) = length es"
    and "i < length es \<Longrightarrow> superseded_rows es ! i \<Longrightarrow> te_type (es ! i) = ''message.delta'' \<and> completed_after es (Suc i)"
  using sweep_all_ok [of "length es" es] by (simp_all add: superseded_rows_def ascending_rows_id [OF assms] sweep_ok_def)

text \<open>A dropped row is a delta that a completion after it on the page replaces; the rest keep their order.\<close>

lemma filter_zip_subseq: "subseq (map fst (filter (\<lambda>(e, b). \<not> b) (zip es bs))) es"
proof (induction es arbitrary: bs)
  case (Cons e es)
  then show ?case by (cases bs) (auto intro: list_emb_Cons)
qed simp

lemma drop_superseded_spec:
  assumes "sorted_wrt (<) (map te_cursor es)"
  shows "subseq (drop_superseded_deltas es) es"
    and "i < length es \<Longrightarrow> es ! i \<notin> set (drop_superseded_deltas es) \<Longrightarrow> te_type (es ! i) = ''message.delta'' \<and> completed_after es (Suc i)"
proof -
  show "subseq (drop_superseded_deltas es) es" by (simp add: drop_superseded_deltas_def Let_def filter_zip_subseq)
  assume i: "i < length es" and out: "es ! i \<notin> set (drop_superseded_deltas es)"
  have "superseded_rows es ! i"
  proof (rule ccontr)
    assume stays: "\<not> superseded_rows es ! i"
    have "(es ! i, superseded_rows es ! i) \<in> set (zip es (superseded_rows es))"
      using i superseded_rows_spec(1) [OF assms] by (auto simp: in_set_zip)
    then show False using out stays i by (force simp: drop_superseded_deltas_def Let_def split: if_splits)
  qed
  then show "te_type (es ! i) = ''message.delta'' \<and> completed_after es (Suc i)" by (rule superseded_rows_spec(2) [OF assms i])
qed

section \<open>What the cut keeps\<close>

lemma fit_rows_range: "n \<le> snd (fit_rows bytes budget b rows spent n) \<and> snd (fit_rows bytes budget b rows spent n) \<le> n + length rows"
proof (induction rows arbitrary: spent n)
  case (Cons r rs)
  have "Suc n \<le> snd (fit_rows bytes budget b rs (spent + bytes r) (Suc n)) \<and> snd (fit_rows bytes budget b rs (spent + bytes r) (Suc n)) \<le> Suc n + length rs"
    by (rule Cons.IH)
  then show ?case by auto
qed simp

lemma fit_rows_first: "rows \<noteq> [] \<Longrightarrow> snd (fit_rows bytes budget 0 rows spent 0) > 0"
  using fit_rows_range [of 1 bytes budget 0 "tl rows"] by (cases rows) (auto simp: Suc_le_eq)

text \<open>The bytes kept stay in the budget unless a single row is kept.\<close>

lemma fit_rows_within:
  "spent \<le> budget \<or> b + n \<le> 1 \<Longrightarrow>
   fst (fit_rows bytes budget b rows spent n) \<le> budget \<or> b + snd (fit_rows bytes budget b rows spent n) \<le> 1"
  by (induction bytes budget b rows spent n rule: fit_rows.induct) auto

lemma fit_rows_spent:
  "fst (fit_rows bytes budget b rows spent n) = spent + sum_list (map bytes (take (snd (fit_rows bytes budget b rows spent n) - n) rows))"
proof (induction rows arbitrary: spent n)
  case (Cons r rs)
  then show ?case using fit_rows_range [of "Suc n" bytes budget b rs "spent + bytes r"] by (auto simp: take_Cons' Suc_le_eq)
qed simp

text \<open>A page is sent whole, or its events are cut, or its raw outputs are.\<close>

lemma fit_cases:
  fixes pg :: "'s session_page"
  assumes "\<forall>w\<in>set (pg_raw_outputs pg). po_cursor w \<noteq> None"
  obtains (whole) "fit_to_budget sz budget pg = pg"
  | (events) k where "0 < k" "k < length (pg_events pg)" "pg_events (fit_to_budget sz budget pg) = take k (pg_events pg)"
      "pg_event_cursor (fit_to_budget sz budget pg) = max_row_cursor (take k (pg_events pg)) (pg_event_cursor pg)"
      "pg_raw_outputs (fit_to_budget sz budget pg) = []"
      "pg_raw_output_cursor (fit_to_budget sz budget pg) = (if pg_raw_outputs pg = [] then pg_raw_output_cursor pg else the (po_cursor (hd (pg_raw_outputs pg))) - 1)"
      "pg_has_more (fit_to_budget sz budget pg)"
  | (outputs) k where "k < length (pg_raw_outputs pg)" "pg_events pg \<noteq> [] \<or> 0 < k" "pg_events (fit_to_budget sz budget pg) = pg_events pg"
      "pg_event_cursor (fit_to_budget sz budget pg) = pg_event_cursor pg"
      "pg_raw_outputs (fit_to_budget sz budget pg) = take k (pg_raw_outputs pg)"
      "pg_raw_output_cursor (fit_to_budget sz budget pg) = max_raw_row_cursor (take k (pg_raw_outputs pg)) (the (po_cursor (pg_raw_outputs pg ! k)) - 1)"
      "pg_has_more (fit_to_budget sz budget pg)"
proof -
  let ?es = "pg_events pg" and ?ws = "pg_raw_outputs pg"
  obtain spent k where fit: "fit_rows (sz_event sz) budget 0 ?es 0 0 = (spent, k)" by fastforce
  have k: "k \<le> length ?es" "?es \<noteq> [] \<Longrightarrow> 0 < k" using fit_rows_range [of 0 "sz_event sz" budget 0 ?es 0] fit_rows_first [of ?es "sz_event sz" budget 0] fit by simp_all
  show thesis
  proof (cases "k < length ?es")
    case True
    show thesis
    proof (rule events [of k])
      show "0 < k" by (rule k(2)) (use True in auto)
      show "k < length ?es" by (rule True)
      show "pg_raw_outputs (fit_to_budget sz budget pg) = []"
        using assms True fit by (cases ?ws) (auto simp: fit_to_budget_def Let_def)
      show "pg_raw_output_cursor (fit_to_budget sz budget pg) = (if ?ws = [] then pg_raw_output_cursor pg else the (po_cursor (hd ?ws)) - 1)"
        using assms True fit by (cases ?ws) (auto simp: fit_to_budget_def Let_def max_raw_row_cursor_def max_cursor_def map_filter_simps)
    qed (use True fit in \<open>auto simp: fit_to_budget_def Let_def split: option.split\<close>)
  next
    case False
    then have all: "\<not> k < length ?es" "take k ?es = ?es" using k(1) by simp_all
    obtain spent' n where fit': "fit_rows (sz_raw sz) budget k ?ws spent 0 = (spent', n)" by fastforce
    show thesis
    proof (cases "n < length ?ws")
      case True
      then obtain c where c: "po_cursor (?ws ! n) = Some c" using assms nth_mem by blast
      show thesis
      proof (rule outputs [of n])
        show "n < length ?ws" by (rule True)
        show "?es \<noteq> [] \<or> 0 < n"
        proof (cases "?es = []")
          case none: True
          then have "k = 0" using k(1) by simp
          then show ?thesis using fit_rows_first [of ?ws "sz_raw sz" budget spent] fit' True by (cases ?ws) auto
        qed simp
      qed (use all fit fit' True c in \<open>simp_all add: fit_to_budget_def Let_def\<close>)
    next
      case outs: False
      show thesis by (rule whole) (use all fit fit' outs in \<open>simp add: fit_to_budget_def Let_def\<close>)
    qed
  qed
qed

section \<open>One page of the backfill\<close>

definition rows_after :: "int \<Rightarrow> (int \<times> 'r) list \<Rightarrow> (int \<times> 'r) list" where
  "rows_after n rows = filter (\<lambda>p. n < fst p) rows"

definition rows_between :: "int \<Rightarrow> int \<Rightarrow> (int \<times> 'r) list \<Rightarrow> (int \<times> 'r) list" where
  "rows_between n m rows = filter (\<lambda>p. n < fst p \<and> fst p \<le> m) rows"

definition sent_event :: "'s reading \<Rightarrow> int \<times> event_row \<Rightarrow> 's timeline_event" where
  "sent_event rd p = trim_payload (event_row_to_timeline_event rd p)"

lemma trim_payload_fields [simp]:
  "te_type (trim_payload e) = te_type e" "te_cursor (trim_payload e) = te_cursor e" "te_id (trim_payload e) = te_id e" "te_message (trim_payload e) = te_message e"
  by (simp_all add: trim_payload_def Let_def split: json.split)

lemma sent_event_fields [simp]: "te_type (sent_event rd p) = ev_type (snd p)" "te_cursor (sent_event rd p) = Some (fst p)"
  by (simp_all add: sent_event_def event_row_to_timeline_event_def Let_def)

lemma output_cursor [simp]: "po_cursor (raw_output_row_to_provider_output p) = Some (fst p)"
  by (simp add: raw_output_row_to_provider_output_def Let_def)

lemma max_cursor_map: "max_cursor (map (\<lambda>x. Some (g x)) xs) n = (if xs = [] then n else Max (set (map g xs)))"
proof -
  have "List.map_filter id (map (\<lambda>x. Some (g x)) xs) = map g xs" by (induction xs) (simp_all add: map_filter_simps)
  then show ?thesis by (cases xs) (simp_all add: max_cursor_def)
qed

lemma raws_cursor: "max_raw_row_cursor (map raw_output_row_to_provider_output rows) n = (if rows = [] then n else Max (set (map fst rows)))"
  using max_cursor_map [of fst rows n] by (simp add: max_raw_row_cursor_def comp_def)

lemma events_cursor: "\<forall>e\<in>set es. te_cursor e = Some (c e) \<Longrightarrow> max_row_cursor es n = (if es = [] then n else Max (set (map c es)))"
proof -
  assume "\<forall>e\<in>set es. te_cursor e = Some (c e)"
  then have eq: "map te_cursor es = map (\<lambda>e. Some (c e)) es" by simp
  show ?thesis unfolding max_row_cursor_def eq by (rule max_cursor_map)
qed

text \<open>In a table by rowid, the rows up to a bound are a prefix.\<close>

lemma prefix_rows:
  fixes rows :: "(int \<times> 'r) list"
  assumes "sorted_wrt (<) (map fst rows)" and "xs @ ys = rows" and "\<forall>p\<in>set xs. fst p \<le> c" and "\<forall>p\<in>set ys. c < fst p"
  shows "filter (\<lambda>p. fst p \<le> c) rows = xs"
proof -
  have "filter (\<lambda>p. fst p \<le> c) xs = xs" using assms(3) by (simp add: filter_id_conv)
  moreover have "filter (\<lambda>p. fst p \<le> c) ys = []" using assms(4) by (simp add: filter_empty_conv not_le)
  ultimately show ?thesis unfolding assms(2) [symmetric] by simp
qed

lemma rows_between_after: "rows_between n m rows = filter (\<lambda>p. fst p \<le> m) (rows_after n rows)"
  by (simp add: rows_between_def rows_after_def conj_commute)

lemma sorted_after: "sorted_wrt (<) (map fst rows) \<Longrightarrow> sorted_wrt (<) (map fst (rows_after n rows))"
  by (simp add: rows_after_def sorted_wrt_map sorted_wrt_filter)

lemma chat_raw_rowids: "feed_ok d \<Longrightarrow> sorted_wrt (<) (map fst (chat_raws s d))"
proof -
  assume "feed_ok d"
  then have "distinct (map fst (filter (\<lambda>p. rr_session (snd p) = s) (fd_raws d)))" by (simp add: feed_ok_def distinct_filter_map)
  then have "distinct (map fst (chat_raws s d))" unfolding chat_raws_def by (metis distinct_map distinct_sort set_sort)
  moreover have "sorted (map fst (chat_raws s d))" by (simp add: chat_raws_def)
  ultimately show ?thesis by (simp add: strict_sorted_iff)
qed

text \<open>The bounded head of what comes after a cursor: its last rowid bounds it and nothing else.\<close>

lemma take_bound:
  fixes rows :: "(int \<times> 'r) list"
  assumes "sorted_wrt (<) (map fst rows)" and "k \<le> length rows" and "0 < k"
  shows "filter (\<lambda>p. fst p \<le> Max (set (map fst (take k rows)))) rows = take k rows"
proof -
  have last: "Max (set (map fst (take k rows))) = fst (rows ! (k - 1))"
  proof (rule Max_eqI)
    show "fst (rows ! (k - 1)) \<in> set (map fst (take k rows))" using assms(2,3) by (auto simp: in_set_conv_nth intro!: image_eqI exI [of _ "k - 1"])
  next
    fix n assume "n \<in> set (map fst (take k rows))"
    then obtain j where j: "j < k" "n = fst (rows ! j)" using assms(2) by (auto simp: in_set_conv_nth)
    show "n \<le> fst (rows ! (k - 1))"
    proof (cases "j = k - 1")
      case False
      then have before: "j < k - 1" "k - 1 < length (map fst rows)" using j(1) assms(2,3) by simp_all
      from sorted_wrt_nth_less [OF assms(1) before] show ?thesis using j before by simp
    qed (simp add: j)
  qed simp
  show ?thesis
  proof (rule prefix_rows [OF assms(1)])
    show "take k rows @ drop k rows = rows" by simp
    show "\<forall>p\<in>set (take k rows). fst p \<le> Max (set (map fst (take k rows)))" by (auto intro: Max_ge)
    show "\<forall>p\<in>set (drop k rows). Max (set (map fst (take k rows))) < fst p"
    proof
      fix p assume "p \<in> set (drop k rows)"
      then obtain j where "j < length (drop k rows)" "p = drop k rows ! j" unfolding in_set_conv_nth by blast
      then have "k + j < length rows" "p = rows ! (k + j)" by simp_all
      then show "Max (set (map fst (take k rows))) < fst p" unfolding last using sorted_wrt_nth_less [OF assms(1), of "k - 1" "k + j"] assms(3) by simp
    qed
  qed
qed

text \<open>The raw outputs of a page: what is sent is what lies between the old and the new cursor.\<close>

lemma page_raws:
  fixes rows :: "(int \<times> raw_row) list"
  assumes sorted: "sorted_wrt (<) (map fst rows)" and all: "\<forall>p\<in>set rows. b < fst p" and k: "k < length rows"
  shows "\<exists>b'. max_raw_row_cursor (map raw_output_row_to_provider_output (take k rows)) (fst (rows ! k) - 1) = b' \<and> b \<le> b' \<and>
    filter (\<lambda>p. fst p \<le> b') rows = take k rows \<and> b' < fst (rows ! k)"
proof (cases "k = 0")
  case True
  have "fst (rows ! 0) \<le> fst p" if p: "p \<in> set rows" for p
  proof -
    obtain j where "j < length rows" "p = rows ! j" using p by (auto simp: in_set_conv_nth)
    moreover have "0 < length rows" by (rule le_less_trans [OF le0 k])
    ultimately show ?thesis using sorted_wrt_nth_less [OF sorted, of 0 j] by (cases "j = 0") (simp_all del: length_greater_0_conv)
  qed
  then have "filter (\<lambda>p. fst p \<le> fst (rows ! 0) - 1) rows = []" by (force simp: filter_empty_conv)
  moreover have "b < fst (rows ! 0)" using all k True by simp
  ultimately show ?thesis using True by (simp add: max_raw_row_cursor_def max_cursor_def map_filter_simps)
next
  case False
  let ?b = "Max (set (map fst (take k rows)))"
  have c: "max_raw_row_cursor (map raw_output_row_to_provider_output (take k rows)) (fst (rows ! k) - 1) = ?b"
  proof -
    have "take k rows \<noteq> []" using False k by auto
    then show ?thesis unfolding raws_cursor by (simp only: if_False)
  qed
  have bound: "filter (\<lambda>p. fst p \<le> ?b) rows = take k rows" using take_bound [OF sorted] False k by simp
  have "?b \<in> set (map fst (take k rows))" using False k by (intro Max_in) auto
  then have "b \<le> ?b" using all by (auto dest!: in_set_takeD)
  moreover have "?b < fst (rows ! k)"
  proof (rule ccontr)
    assume "\<not> ?b < fst (rows ! k)"
    then have "rows ! k \<in> set (filter (\<lambda>p. fst p \<le> ?b) rows)" using k by simp
    then have "rows ! k \<in> set (take k rows)" unfolding bound .
    then obtain j where "j < k" "rows ! k = rows ! j" using k by (auto simp: in_set_conv_nth)
    then show False using sorted_wrt_nth_less [OF sorted, of j k] k by simp
  qed
  ultimately show ?thesis using c bound by blast
qed

text \<open>The events of a page: in order, each once, up to the new cursor; what is missing is a delta that a later completion of the chat replaces.\<close>

definition events_sent :: "'s reading \<Rightarrow> (int \<times> event_row) list \<Rightarrow> int \<Rightarrow> 's timeline_event list \<Rightarrow> bool" where
  "events_sent rd rows c es \<longleftrightarrow> subseq es (map (sent_event rd) (filter (\<lambda>p. fst p \<le> c) rows)) \<and>
     (\<forall>p\<in>set rows. fst p \<le> c \<and> sent_event rd p \<notin> set es \<longrightarrow>
        ev_type (snd p) = ''message.delta'' \<and> (\<exists>q\<in>set rows. fst p < fst q \<and> ev_type (snd q) = ''message.completed''))"

lemma sent_events_sorted: "sorted_wrt (<) (map fst rows) \<Longrightarrow> sorted_wrt (<) (map te_cursor (map (sent_event rd) rows))"
  by (simp add: sorted_wrt_map)

lemma subseq_bounded:
  assumes "subseq es (map (sent_event rd) rows)" and "\<forall>e\<in>set es. \<forall>n. te_cursor e = Some n \<longrightarrow> n \<le> c"
  shows "subseq es (map (sent_event rd) (filter (\<lambda>p. fst p \<le> c) rows))"
proof -
  have "subseq (filter (\<lambda>e. \<forall>n. te_cursor e = Some n \<longrightarrow> n \<le> c) es) (filter (\<lambda>e. \<forall>n. te_cursor e = Some n \<longrightarrow> n \<le> c) (map (sent_event rd) rows))"
    by (rule subseq_filter [OF assms(1)])
  moreover have "filter (\<lambda>e. \<forall>n. te_cursor e = Some n \<longrightarrow> n \<le> c) es = es" using assms(2) by (simp add: filter_id_conv)
  moreover have "filter (\<lambda>e. \<forall>n. te_cursor e = Some n \<longrightarrow> n \<le> c) (map (sent_event rd) rows) = map (sent_event rd) (filter (\<lambda>p. fst p \<le> c) rows)"
    by (simp add: filter_map comp_def)
  ultimately show ?thesis by simp
qed

lemma trimmed_events:
  assumes sorted: "sorted_wrt (<) (map fst rows)"
  shows "subseq (drop_superseded_deltas (map (sent_event rd) rows)) (map (sent_event rd) rows)"
    and "p \<in> set rows \<Longrightarrow> sent_event rd p \<notin> set (drop_superseded_deltas (map (sent_event rd) rows)) \<Longrightarrow>
      ev_type (snd p) = ''message.delta'' \<and> (\<exists>q\<in>set rows. fst p < fst q \<and> ev_type (snd q) = ''message.completed'')"
proof -
  note spec = drop_superseded_spec [OF sent_events_sorted [OF sorted, of rd]]
  show "subseq (drop_superseded_deltas (map (sent_event rd) rows)) (map (sent_event rd) rows)" by (rule spec(1))
  assume p: "p \<in> set rows" "sent_event rd p \<notin> set (drop_superseded_deltas (map (sent_event rd) rows))"
  then obtain i where i: "i < length rows" "p = rows ! i" by (auto simp: in_set_conv_nth)
  have "te_type (map (sent_event rd) rows ! i) = ''message.delta'' \<and> completed_after (map (sent_event rd) rows) (Suc i)"
    by (rule spec(2)) (use i p(2) in simp_all)
  then have t: "ev_type (snd p) = ''message.delta''" and after: "completed_after (map (sent_event rd) rows) (Suc i)" using i by simp_all
  then obtain j where "Suc i \<le> j" and j': "j < length rows" "ev_type (snd (rows ! j)) = ''message.completed''"
    by (auto simp: completed_after_def)
  then have j: "i < j" "j < length rows" "ev_type (snd (rows ! j)) = ''message.completed''" by simp_all
  have "fst p < fst (rows ! j)" using sorted_wrt_nth_less [OF sorted j(1)] j i by simp
  then show "ev_type (snd p) = ''message.delta'' \<and> (\<exists>q\<in>set rows. fst p < fst q \<and> ev_type (snd q) = ''message.completed'')"
    using j t by auto
qed

text \<open>Cut or not, a page has sent every event up to its cursor.\<close>

lemma whole_page_events:
  assumes "sorted_wrt (<) (map fst rows)" and "\<forall>p\<in>set rows. fst p \<le> c"
  shows "events_sent rd rows c (drop_superseded_deltas (map (sent_event rd) rows))"
proof -
  have "filter (\<lambda>p. fst p \<le> c) rows = rows" using assms(2) by (simp add: filter_id_conv)
  then show ?thesis using trimmed_events [OF assms(1), where rd = rd] unfolding events_sent_def by simp
qed

lemma subseq_sorted: "subseq xs ys \<Longrightarrow> sorted_wrt P ys \<Longrightarrow> sorted_wrt P xs"
proof (induction rule: list_emb.induct)
  case (list_emb_Cons2 x y xs ys)
  then show ?case by (auto dest: list_emb_set)
qed simp_all

lemma cut_page_events:
  assumes sorted: "sorted_wrt (<) (map fst rows)" and k: "0 < k" "k < length (drop_superseded_deltas (map (sent_event rd) rows))"
  shows "\<exists>c. max_row_cursor (take k (drop_superseded_deltas (map (sent_event rd) rows))) n = c \<and>
    events_sent rd rows c (take k (drop_superseded_deltas (map (sent_event rd) rows))) \<and> (\<exists>p\<in>set rows. c = fst p)"
proof -
  let ?T = "drop_superseded_deltas (map (sent_event rd) rows)"
  let ?c = "\<lambda>e. the (te_cursor e)" and ?max = "Max (set (map (\<lambda>e. the (te_cursor e)) (take k (drop_superseded_deltas (map (sent_event rd) rows)))))"
  have sub: "subseq ?T (map (sent_event rd) rows)" by (rule trimmed_events(1) [OF sorted])
  have elems: "\<exists>p\<in>set rows. e = sent_event rd p" if "e \<in> set ?T" for e
  proof -
    from list_emb_set [OF sub that] obtain y where "y \<in> set (map (sent_event rd) rows)" "e = y" .
    then show ?thesis by auto
  qed
  have cursors: "\<forall>e\<in>set (take k ?T). te_cursor e = Some (?c e)" 
  proof
    fix e assume "e \<in> set (take k ?T)"
    then have "e \<in> set ?T" by (rule in_set_takeD)
    then obtain p where "e = sent_event rd p" using elems by blast
    then show "te_cursor e = Some (?c e)" by simp
  qed
  have "take k ?T \<noteq> []" using k by auto
  then have max: "max_row_cursor (take k ?T) n = ?max" unfolding events_cursor [OF cursors] by (simp only: if_False)
  have "?max \<in> set (map ?c (take k ?T))" using k by (intro Max_in) auto
  then obtain e where e: "e \<in> set (take k ?T)" "?max = ?c e" by auto
  then obtain p0 where own: "p0 \<in> set rows" "e = sent_event rd p0" using elems [OF in_set_takeD] by blast
  then have p0: "p0 \<in> set rows" "?max = fst p0" using e(2) by simp_all
  have below: "n \<le> ?max" if "e \<in> set (take k ?T)" "te_cursor e = Some n" for e n
    using that by (intro Max_ge) (auto intro!: image_eqI [of _ _ e])
  have order: "sorted_wrt (<) (map te_cursor ?T)"
    by (rule subseq_sorted [OF subseq_map [OF sub] sent_events_sorted [OF sorted]])
  have inside: "sent_event rd p \<in> set (take k ?T)" if p: "p \<in> set rows" "fst p \<le> ?max" "sent_event rd p \<in> set ?T" for p
  proof (rule ccontr)
    assume out: "sent_event rd p \<notin> set (take k ?T)"
    then have "sent_event rd p \<in> set (drop k ?T)" using p(3) by (metis Un_iff append_take_drop_id set_append)
    moreover have "sorted_wrt (<) (map te_cursor (take k ?T) @ map te_cursor (drop k ?T))" using order by (metis append_take_drop_id map_append)
    ultimately have "te_cursor e < te_cursor (sent_event rd p)" using e(1) unfolding sorted_wrt_append set_map by blast
    moreover have "te_cursor e = Some ?max" using own p0(2) by (simp only: sent_event_fields)
    ultimately have "?max < fst p" by (simp only: sent_event_fields less_option_Some)
    then show False using p(2) by simp
  qed
  have "subseq (take k ?T) ?T" by (metis append_take_drop_id list_emb_append2 list_emb_refl subseq_rev_drop_many)
  then have "subseq (take k ?T) (map (sent_event rd) rows)" using sub subseq_order.trans by blast
  then have "subseq (take k ?T) (map (sent_event rd) (filter (\<lambda>p. fst p \<le> ?max) rows))" by (rule subseq_bounded) (use below in blast)
  then have "events_sent rd rows ?max (take k ?T)"
    unfolding events_sent_def using inside trimmed_events(2) [OF sorted, where rd = rd] by blast
  then show ?thesis using max p0 by blast
qed

section \<open>The backfill\<close>

text \<open>The phone asks for the next rows until a page has no more; all it sends back are the two row cursors.\<close>

fun backfill :: "nat \<Rightarrow> 's reading \<Rightarrow> 's lengths \<Rightarrow> string \<Rightarrow> transcript_db \<Rightarrow> int \<Rightarrow> int \<Rightarrow> ('s timeline_event list \<times> provider_output list \<times> int option) option" where
  "backfill 0 rd sz s d a b = None"
| "backfill (Suc fuel) rd sz s d a b =
     (case session_events_since_channel rd sz s (Some a) (Some b) None d of
        Inl e \<Rightarrow> None
      | Inr pg \<Rightarrow>
          if pg_has_more pg
          then map_option (\<lambda>(es, ws, c). (pg_events pg @ es, pg_raw_outputs pg @ ws, c)) (backfill fuel rd sz s d (pg_event_cursor pg) (pg_raw_output_cursor pg))
          else Some (pg_events pg, pg_raw_outputs pg, pg_change_cursor pg))"

text \<open>The page before the cut.\<close>

definition row_page :: "'s reading \<Rightarrow> string \<Rightarrow> transcript_db \<Rightarrow> int \<Rightarrow> int \<Rightarrow> 's session_page" where
  "row_page rd s d a b = trim_for_remote (list_session_events_since rd s (Some a) (Some b) d)"

lemma channel_row_page: "session_events_since_channel rd sz s (Some a) (Some b) None d = Inr (fit_to_budget sz REMOTE_PAGE_BUDGET_BYTES (row_page rd s d a b))"
  by (simp add: session_events_since_channel_def list_session_changes_since_def row_page_def Let_def)

lemma row_page_fields:
  "pg_events (row_page rd s d a b) = drop_superseded_deltas (map (sent_event rd) (take SESSION_EVENT_PAGE_LIMIT (rows_after a (chat_events s d))))"
  "pg_raw_outputs (row_page rd s d a b) = map raw_output_row_to_provider_output (take SESSION_RAW_OUTPUT_PAGE_LIMIT (rows_after b (chat_raws s d)))"
  "pg_event_cursor (row_page rd s d a b) = (let rows = take SESSION_EVENT_PAGE_LIMIT (rows_after a (chat_events s d)) in if rows = [] then a else Max (set (map fst rows)))"
  "pg_raw_output_cursor (row_page rd s d a b) = (let rows = take SESSION_RAW_OUTPUT_PAGE_LIMIT (rows_after b (chat_raws s d)) in if rows = [] then b else Max (set (map fst rows)))"
  "pg_has_more (row_page rd s d a b) \<longleftrightarrow> SESSION_EVENT_PAGE_LIMIT \<le> length (rows_after a (chat_events s d)) \<or> SESSION_RAW_OUTPUT_PAGE_LIMIT \<le> length (rows_after b (chat_raws s d))"
  "pg_change_cursor (row_page rd s d a b) = (if pg_has_more (row_page rd s d a b) then None else Some (fd_head d))"
proof -
  have c: "te_cursor (event_row_to_timeline_event rd p) = Some (fst p)" for p :: "int \<times> event_row" by (simp add: event_row_to_timeline_event_def Let_def)
  have cursor: "max_row_cursor (map (event_row_to_timeline_event rd) rows) n = (if rows = [] then n else Max (set (map fst rows)))" for rows n
    using max_cursor_map [of fst rows n] by (simp add: max_row_cursor_def comp_def c)
  note fields = row_page_def trim_for_remote_def trim_payloads_for_remote_def list_session_events_since_def Let_def default_page_def
    list_event_rows_def list_raw_output_rows_def rows_after_def
  show "pg_events (row_page rd s d a b) = drop_superseded_deltas (map (sent_event rd) (take SESSION_EVENT_PAGE_LIMIT (rows_after a (chat_events s d))))"
  proof -
    have "sent_event rd = (\<lambda>p. trim_payload (event_row_to_timeline_event rd p))" by (simp add: sent_event_def fun_eq_iff)
    then show ?thesis by (simp add: fields comp_def)
  qed
  show "pg_raw_outputs (row_page rd s d a b) = map raw_output_row_to_provider_output (take SESSION_RAW_OUTPUT_PAGE_LIMIT (rows_after b (chat_raws s d)))"
    by (simp add: fields)
  show "pg_event_cursor (row_page rd s d a b) = (let rows = take SESSION_EVENT_PAGE_LIMIT (rows_after a (chat_events s d)) in if rows = [] then a else Max (set (map fst rows)))"
    by (simp add: fields cursor)
  show "pg_raw_output_cursor (row_page rd s d a b) = (let rows = take SESSION_RAW_OUTPUT_PAGE_LIMIT (rows_after b (chat_raws s d)) in if rows = [] then b else Max (set (map fst rows)))"
    by (simp add: fields raws_cursor)
  show "pg_has_more (row_page rd s d a b) \<longleftrightarrow> SESSION_EVENT_PAGE_LIMIT \<le> length (rows_after a (chat_events s d)) \<or> SESSION_RAW_OUTPUT_PAGE_LIMIT \<le> length (rows_after b (chat_raws s d))"
    by (simp add: fields)
  show "pg_change_cursor (row_page rd s d a b) = (if pg_has_more (row_page rd s d a b) then None else Some (fd_head d))"
    by (simp add: fields)
qed

lemma events_sent_extend: "events_sent rd xs c es \<Longrightarrow> \<forall>p\<in>set ys. c < fst p \<Longrightarrow> events_sent rd (xs @ ys) c es"
proof -
  assume sent: "events_sent rd xs c es" and late: "\<forall>p\<in>set ys. c < fst p"
  have "filter (\<lambda>p. fst p \<le> c) ys = []" using late by (simp add: filter_empty_conv not_le)
  then have "filter (\<lambda>p. fst p \<le> c) (xs @ ys) = filter (\<lambda>p. fst p \<le> c) xs" by simp
  moreover have "p \<in> set xs" if "p \<in> set (xs @ ys)" "fst p \<le> c" for p using that late by auto
  ultimately show ?thesis using sent unfolding events_sent_def by (simp only: set_append) blast
qed

text \<open>The head of the rows after a cursor and its bound.\<close>

lemma head_bound:
  fixes rows :: "(int \<times> 'r) list"
  assumes sorted: "sorted_wrt (<) (map fst rows)" and after: "\<forall>p\<in>set rows. n < fst p" and L: "0 < L"
  obtains m where "(if take L rows = [] then n else Max (set (map fst (take L rows)))) = m" and "n \<le> m"
    and "filter (\<lambda>p. fst p \<le> m) rows = take L rows" and "\<forall>p\<in>set (take L rows). fst p \<le> m" and "\<forall>p\<in>set (drop L rows). m < fst p"
proof (cases "rows = []")
  case False
  let ?k = "min L (length rows)" and ?m = "Max (set (map fst (take L rows)))"
  have k: "0 < ?k" "take ?k rows = take L rows" using False L by (simp_all add: min_def)
  have bound: "filter (\<lambda>p. fst p \<le> ?m) rows = take L rows" using take_bound [OF sorted _ k(1)] unfolding k(2) by simp
  have ne: "take L rows \<noteq> []" using False L by simp
  then have "?m \<in> set (map fst (take L rows))" by (intro Max_in) auto
  then have "n \<le> ?m" using after by (auto dest!: in_set_takeD)
  moreover have "\<forall>p\<in>set (take L rows). fst p \<le> ?m" by (auto intro: Max_ge)
  moreover have "\<forall>p\<in>set (drop L rows). ?m < fst p"
  proof
    fix p assume p: "p \<in> set (drop L rows)"
    show "?m < fst p"
    proof (rule ccontr)
      assume "\<not> ?m < fst p"
      then have "p \<in> set (filter (\<lambda>p. fst p \<le> ?m) rows)" using p by (auto dest: in_set_dropD)
      then have "p \<in> set (take L rows)" unfolding bound .
      moreover have "distinct rows" using sorted strict_sorted_iff distinct_map by blast
      ultimately show False using p by (metis IntI append_take_drop_id distinct_append empty_iff)
    qed
  qed
  ultimately show thesis using bound ne by (intro that [of ?m]) auto
qed (auto intro: that)

lemma channel_page:
  assumes ok: "feed_ok d"
  obtains pg where "session_events_since_channel rd sz s (Some a) (Some b) None d = Inr pg"
    and "a \<le> pg_event_cursor pg" and "b \<le> pg_raw_output_cursor pg"
    and "events_sent rd (rows_after a (chat_events s d)) (pg_event_cursor pg) (pg_events pg)"
    and "pg_raw_outputs pg = map raw_output_row_to_provider_output (filter (\<lambda>p. fst p \<le> pg_raw_output_cursor pg) (rows_after b (chat_raws s d)))"
    and "pg_has_more pg \<Longrightarrow> (\<exists>p\<in>set (rows_after a (chat_events s d)). fst p \<le> pg_event_cursor pg) \<or>
      (\<exists>p\<in>set (rows_after b (chat_raws s d)). fst p \<le> pg_raw_output_cursor pg)"
    and "\<not> pg_has_more pg \<Longrightarrow> pg_change_cursor pg = Some (fd_head d) \<and> (\<forall>p\<in>set (rows_after a (chat_events s d)). fst p \<le> pg_event_cursor pg) \<and>
      (\<forall>p\<in>set (rows_after b (chat_raws s d)). fst p \<le> pg_raw_output_cursor pg)"
proof -
  obtain R W where rows: "R = rows_after a (chat_events s d)" "W = rows_after b (chat_raws s d)" by simp
  have sorted: "sorted_wrt (<) (map fst R)" "sorted_wrt (<) (map fst W)"
    unfolding rows by (rule sorted_after [OF chat_rowids [OF ok]], rule sorted_after [OF chat_raw_rowids [OF ok]])
  have after: "\<forall>p\<in>set R. a < fst p" "\<forall>p\<in>set W. b < fst p" by (simp_all add: rows rows_after_def)
  let ?E = "take SESSION_EVENT_PAGE_LIMIT R" and ?V = "take SESSION_RAW_OUTPUT_PAGE_LIMIT W"
  have sortedE: "sorted_wrt (<) (map fst ?E)" using sorted(1) by (metis append_take_drop_id map_append sorted_wrt_append)
  have sortedV: "sorted_wrt (<) (map fst ?V)" using sorted(2) by (metis append_take_drop_id map_append sorted_wrt_append)
  obtain m where m: "(if ?E = [] then a else Max (set (map fst ?E))) = m" "a \<le> m" "filter (\<lambda>p. fst p \<le> m) R = ?E"
    "\<forall>p\<in>set ?E. fst p \<le> m" "\<forall>p\<in>set (drop SESSION_EVENT_PAGE_LIMIT R). m < fst p"
    using head_bound [OF sorted(1) after(1), of SESSION_EVENT_PAGE_LIMIT] by (auto simp: SESSION_EVENT_PAGE_LIMIT_def)
  obtain l where l: "(if ?V = [] then b else Max (set (map fst ?V))) = l" "b \<le> l" "filter (\<lambda>p. fst p \<le> l) W = ?V"
    "\<forall>p\<in>set ?V. fst p \<le> l" "\<forall>p\<in>set (drop SESSION_RAW_OUTPUT_PAGE_LIMIT W). l < fst p"
    using head_bound [OF sorted(2) after(2), of SESSION_RAW_OUTPUT_PAGE_LIMIT] by (auto simp: SESSION_RAW_OUTPUT_PAGE_LIMIT_def)
  let ?pg = "row_page rd s d a b" and ?T = "drop_superseded_deltas (map (sent_event rd) ?E)"
  let ?fit = "fit_to_budget sz REMOTE_PAGE_BUDGET_BYTES ?pg"
  have page: "pg_events ?pg = ?T" "pg_raw_outputs ?pg = map raw_output_row_to_provider_output ?V" "pg_event_cursor ?pg = m" "pg_raw_output_cursor ?pg = l"
    "pg_has_more ?pg \<longleftrightarrow> SESSION_EVENT_PAGE_LIMIT \<le> length R \<or> SESSION_RAW_OUTPUT_PAGE_LIMIT \<le> length W"
    "pg_change_cursor ?pg = (if pg_has_more ?pg then None else Some (fd_head d))"
    by (simp_all only: row_page_fields Let_def rows [symmetric] m(1) l(1))
  have split: "R = ?E @ drop SESSION_EVENT_PAGE_LIMIT R" by simp
  have whole: "events_sent rd R m ?T"
    using events_sent_extend [OF whole_page_events [OF sortedE m(4)] m(5), of rd] split by simp
  have raw_cursors: "\<forall>w\<in>set (pg_raw_outputs ?pg). po_cursor w \<noteq> None" by (simp add: page)
  have answer: "session_events_since_channel rd sz s (Some a) (Some b) None d = Inr ?fit" by (rule channel_row_page)
  have some_event: "\<exists>p\<in>set R. fst p \<le> m" if "?E \<noteq> []"
  proof -
    have "hd ?E \<in> set ?E" using that by (rule hd_in_set)
    then show ?thesis using m(4) by (meson in_set_takeD)
  qed
  have some_raw: "\<exists>p\<in>set W. fst p \<le> l" if "?V \<noteq> []"
  proof -
    have "hd ?V \<in> set ?V" using that by (rule hd_in_set)
    then show ?thesis using l(4) by (meson in_set_takeD)
  qed
  show thesis
  proof (cases rule: fit_cases [OF raw_cursors, of sz REMOTE_PAGE_BUDGET_BYTES])
    case 1
    note fits = this
    show thesis
    proof (rule that [OF answer, folded rows], unfold fits page)
      show "a \<le> m" "b \<le> l" "events_sent rd R m ?T" using m l \<open>events_sent rd R m ?T\<close> by simp_all
      show "map raw_output_row_to_provider_output ?V = map raw_output_row_to_provider_output (filter (\<lambda>p. fst p \<le> l) W)" by (simp only: l(3))
      assume "SESSION_EVENT_PAGE_LIMIT \<le> length R \<or> SESSION_RAW_OUTPUT_PAGE_LIMIT \<le> length W"
      then have "?E \<noteq> [] \<or> ?V \<noteq> []" by (auto simp: SESSION_EVENT_PAGE_LIMIT_def SESSION_RAW_OUTPUT_PAGE_LIMIT_def)
      then show "(\<exists>p\<in>set R. fst p \<le> m) \<or> (\<exists>p\<in>set W. fst p \<le> l)" using some_event some_raw by blast
    next
      assume last: "\<not> (SESSION_EVENT_PAGE_LIMIT \<le> length R \<or> SESSION_RAW_OUTPUT_PAGE_LIMIT \<le> length W)"
      then have "?E = R" "?V = W" by simp_all
      then show "(if SESSION_EVENT_PAGE_LIMIT \<le> length R \<or> SESSION_RAW_OUTPUT_PAGE_LIMIT \<le> length W then None else Some (fd_head d)) = Some (fd_head d) \<and>
          (\<forall>p\<in>set R. fst p \<le> m) \<and> (\<forall>p\<in>set W. fst p \<le> l)" using last m(4) l(4) by simp
    qed
  next
    case (2 k)
    note events = this
    then have k: "0 < k" "k < length ?T" by (simp_all add: page)
    obtain c p where c: "max_row_cursor (take k ?T) m = c" "events_sent rd ?E c (take k ?T)" "p \<in> set ?E" "c = fst p"
      using cut_page_events [OF sortedE k, of m] by blast
    have p: "p \<in> set R" using c(3) by (rule in_set_takeD)
    have "c \<le> m" using m(4) c(3,4) by simp
    then have "\<forall>q\<in>set (drop SESSION_EVENT_PAGE_LIMIT R). c < fst q" using m(5) by force
    from events_sent_extend [OF c(2) this] have sent: "events_sent rd R c (take k ?T)" by simp
    obtain b' where b': "pg_raw_output_cursor ?fit = b'" "b \<le> b'" "filter (\<lambda>p. fst p \<le> b') W = []"
    proof (cases "?V = []")
      case True
      then show thesis using events(6) l(2,3) by (intro that [of l]) (simp_all add: page)
    next
      case False
      then have W: "0 < length W" "hd ?V = W ! 0" by (cases W; simp)+
      from page_raws [OF sorted(2) after(2) W(1)] show thesis using events(6) False W(2)
        by (intro that [of "fst (W ! 0) - 1"]) (simp_all add: page hd_map max_raw_row_cursor_def max_cursor_def map_filter_simps)
    qed
    show thesis
    proof (rule that [OF answer, folded rows])
      show "a \<le> pg_event_cursor ?fit" using events(4) c(1,4) after(1) p by (simp add: page less_imp_le)
      show "b \<le> pg_raw_output_cursor ?fit" using b' by simp
      show "events_sent rd R (pg_event_cursor ?fit) (pg_events ?fit)" using events(3,4) c(1) sent by (simp add: page)
      show "pg_raw_outputs ?fit = map raw_output_row_to_provider_output (filter (\<lambda>p. fst p \<le> pg_raw_output_cursor ?fit) W)" using events(5) b' by simp
      show "(\<exists>p\<in>set R. fst p \<le> pg_event_cursor ?fit) \<or> (\<exists>p\<in>set W. fst p \<le> pg_raw_output_cursor ?fit)"
        using events(4) c(1,4) p by (auto simp: page)
    qed (use events(7) in simp)
  next
    case (3 k)
    note outputs = this
    then have kW: "k < length W" "?V ! k = W ! k" "take k ?V = take k W" by (simp_all add: page)
    obtain b' where b': "max_raw_row_cursor (map raw_output_row_to_provider_output (take k W)) (fst (W ! k) - 1) = b'" "b \<le> b'"
      "filter (\<lambda>p. fst p \<le> b') W = take k W" using page_raws [OF sorted(2) after(2) kW(1)] by blast
    have cursor: "pg_raw_output_cursor ?fit = b'" using outputs(1,6) kW b'(1) by (simp add: page take_map)
    show thesis
    proof (rule that [OF answer, folded rows])
      show "a \<le> pg_event_cursor ?fit" "b \<le> pg_raw_output_cursor ?fit" using outputs(4) m(2) b'(2) cursor by (simp_all add: page)
      show "events_sent rd R (pg_event_cursor ?fit) (pg_events ?fit)" using outputs(3,4) whole by (simp add: page)
      show "pg_raw_outputs ?fit = map raw_output_row_to_provider_output (filter (\<lambda>p. fst p \<le> pg_raw_output_cursor ?fit) W)"
        using outputs(5) kW(3) b'(3) cursor by (simp add: page take_map)
      show "(\<exists>p\<in>set R. fst p \<le> pg_event_cursor ?fit) \<or> (\<exists>p\<in>set W. fst p \<le> pg_raw_output_cursor ?fit)"
      proof (cases "0 < k")
        case True
        then have "W ! 0 \<in> set (take k W)" using kW(1) by (auto simp: in_set_conv_nth)
        then have "W ! 0 \<in> set (filter (\<lambda>p. fst p \<le> b') W)" unfolding b'(3) .
        then show ?thesis unfolding cursor by auto
      next
        case False
        then have "?T \<noteq> []" using outputs(2) by (simp add: page)
        then have "?E \<noteq> []" using trimmed_events(1) [OF sortedE, of rd] by (cases ?E) auto
        then show ?thesis using some_event outputs(4) by (simp add: page)
      qed
    qed (use outputs(7) in simp)
  qed
qed

definition all_sent :: "'s reading \<Rightarrow> (int \<times> event_row) list \<Rightarrow> 's timeline_event list \<Rightarrow> bool" where
  "all_sent rd rows es \<longleftrightarrow> subseq es (map (sent_event rd) rows) \<and>
     (\<forall>p\<in>set rows. sent_event rd p \<notin> set es \<longrightarrow>
        ev_type (snd p) = ''message.delta'' \<and> (\<exists>q\<in>set rows. fst p < fst q \<and> ev_type (snd q) = ''message.completed''))"

lemma sorted_parts:
  fixes rows :: "(int \<times> 'r) list"
  assumes "sorted_wrt (<) (map fst rows)"
  shows "filter (\<lambda>p. fst p \<le> c) rows @ filter (\<lambda>p. c < fst p) rows = rows"
  using assms
proof (induction rows)
  case (Cons p rows)
  show ?case
  proof (cases "fst p \<le> c")
    case False
    then have "filter (\<lambda>p. fst p \<le> c) rows = []" using Cons.prems by (force simp: filter_empty_conv)
    then show ?thesis using Cons False by simp
  qed (use Cons in simp)
qed simp

lemma rows_after_after: "a \<le> c \<Longrightarrow> rows_after c rows = filter (\<lambda>p. c < fst p) (rows_after a rows)"
  unfolding rows_after_def filter_filter by (rule filter_cong) auto

lemma all_sent_append:
  fixes rows :: "(int \<times> event_row) list"
  assumes sorted: "sorted_wrt (<) (map fst rows)" and page: "events_sent rd rows c es" and rest: "all_sent rd (filter (\<lambda>p. c < fst p) rows) es'"
  shows "all_sent rd rows (es @ es')"
proof -
  have "subseq (es @ es') (map (sent_event rd) (filter (\<lambda>p. fst p \<le> c) rows) @ map (sent_event rd) (filter (\<lambda>p. c < fst p) rows))"
    using page rest by (auto simp: events_sent_def all_sent_def intro: list_emb_append_mono)
  then have "subseq (es @ es') (map (sent_event rd) rows)" unfolding map_append [symmetric] sorted_parts [OF sorted] .
  moreover have "ev_type (snd p) = ''message.delta'' \<and> (\<exists>q\<in>set rows. fst p < fst q \<and> ev_type (snd q) = ''message.completed'')"
    if "p \<in> set rows" "sent_event rd p \<notin> set (es @ es')" for p
  proof (cases "fst p \<le> c")
    case True
    have "sent_event rd p \<notin> set es" using that(2) by simp
    then show ?thesis using page that(1) True unfolding events_sent_def by blast
  next
    case False
    have "sent_event rd p \<notin> set es'" "p \<in> set (filter (\<lambda>p. c < fst p) rows)" using that False by simp_all
    then show ?thesis using rest unfolding all_sent_def by fastforce
  qed
  ultimately show ?thesis unfolding all_sent_def by blast
qed

lemma all_sent_last: "events_sent rd rows c es \<Longrightarrow> \<forall>p\<in>set rows. fst p \<le> c \<Longrightarrow> all_sent rd rows es"
proof -
  assume sent: "events_sent rd rows c es" and all: "\<forall>p\<in>set rows. fst p \<le> c"
  have "filter (\<lambda>p. fst p \<le> c) rows = rows" using all by (simp add: filter_id_conv)
  then show ?thesis using sent all unfolding events_sent_def all_sent_def by simp
qed

lemma rows_shrink: "\<exists>p\<in>set (rows_after a rows). fst p \<le> c \<Longrightarrow> a \<le> c \<Longrightarrow> length (rows_after c rows) < length (rows_after a rows)"
proof -
  assume "\<exists>p\<in>set (rows_after a rows). fst p \<le> c" and ac: "a \<le> c"
  then obtain p where "p \<in> set (rows_after a rows)" "\<not> c < fst p" by auto
  then show ?thesis unfolding rows_after_after [OF ac] by (rule length_filter_less)
qed

lemma rows_shrink_le: "a \<le> c \<Longrightarrow> length (rows_after c rows) \<le> length (rows_after a rows)"
  by (simp add: rows_after_after [of a c])

lemma backfill_ends:
  assumes ok: "feed_ok d"
  shows "length (rows_after a (chat_events s d)) + length (rows_after b (chat_raws s d)) < fuel \<Longrightarrow>
    \<exists>es. backfill fuel rd sz s d a b = Some (es, map raw_output_row_to_provider_output (rows_after b (chat_raws s d)), Some (fd_head d)) \<and>
      all_sent rd (rows_after a (chat_events s d)) es"
proof (induction fuel arbitrary: a b)
  case (Suc fuel)
  let ?R = "rows_after a (chat_events s d)" and ?W = "rows_after b (chat_raws s d)"
  have sorted: "sorted_wrt (<) (map fst ?R)" "sorted_wrt (<) (map fst ?W)"
    by (rule sorted_after [OF chat_rowids [OF ok]], rule sorted_after [OF chat_raw_rowids [OF ok]])
  obtain pg where pg: "session_events_since_channel rd sz s (Some a) (Some b) None d = Inr pg" "a \<le> pg_event_cursor pg" "b \<le> pg_raw_output_cursor pg"
    "events_sent rd ?R (pg_event_cursor pg) (pg_events pg)"
    "pg_raw_outputs pg = map raw_output_row_to_provider_output (filter (\<lambda>p. fst p \<le> pg_raw_output_cursor pg) ?W)"
    and more: "pg_has_more pg \<Longrightarrow> (\<exists>p\<in>set ?R. fst p \<le> pg_event_cursor pg) \<or> (\<exists>p\<in>set ?W. fst p \<le> pg_raw_output_cursor pg)"
    and last: "\<not> pg_has_more pg \<Longrightarrow> pg_change_cursor pg = Some (fd_head d) \<and> (\<forall>p\<in>set ?R. fst p \<le> pg_event_cursor pg) \<and> (\<forall>p\<in>set ?W. fst p \<le> pg_raw_output_cursor pg)"
    using channel_page [OF ok, of rd sz s a b] by blast
  show ?case
  proof (cases "pg_has_more pg")
    case True
    let ?a = "pg_event_cursor pg" and ?b = "pg_raw_output_cursor pg"
    have "length (rows_after ?a (chat_events s d)) + length (rows_after ?b (chat_raws s d)) < length ?R + length ?W"
      using more [OF True] rows_shrink [of a "chat_events s d" ?a, OF _ pg(2)] rows_shrink [of b "chat_raws s d" ?b, OF _ pg(3)]
        rows_shrink_le [OF pg(2), of "chat_events s d"] rows_shrink_le [OF pg(3), of "chat_raws s d"] by linarith
    then obtain es where es: "backfill fuel rd sz s d ?a ?b = Some (es, map raw_output_row_to_provider_output (rows_after ?b (chat_raws s d)), Some (fd_head d))"
      "all_sent rd (rows_after ?a (chat_events s d)) es" using Suc.IH [of ?a ?b] Suc.prems by auto
    have "all_sent rd ?R (pg_events pg @ es)"
      by (rule all_sent_append [OF sorted(1) pg(4)]) (use es(2) rows_after_after [OF pg(2)] in metis)
    moreover have "pg_raw_outputs pg @ map raw_output_row_to_provider_output (rows_after ?b (chat_raws s d)) = map raw_output_row_to_provider_output ?W"
      unfolding pg(5) rows_after_after [OF pg(3)] map_append [symmetric] sorted_parts [OF sorted(2)] ..
    ultimately show ?thesis using pg(1) es(1) True by simp
  next
    case False
    then have "filter (\<lambda>p. fst p \<le> pg_raw_output_cursor pg) ?W = ?W" using last by (simp add: filter_id_conv)
    then show ?thesis using pg(1,5) last [OF False] all_sent_last [OF pg(4)] False by simp
  qed
qed simp


lemma sample_inserted_ok: "feed_ok sample_inserted"
proof -
  have "insert_event sample_event sample_feed = Some sample_inserted" by (simp add: sample_inserted_def insert_event_def sample_feed_def)
  from tells_ok [OF insert_event_tells [OF sample_feed_ok this]] show ?thesis .
qed


text \<open>A cut page keeps to the budget unless it is a single row.\<close>

lemma page_within_budget:
  assumes "\<forall>w\<in>set (pg_raw_outputs pg). po_cursor w \<noteq> None"
  shows "sum_list (map (sz_event sz) (pg_events (fit_to_budget sz budget pg))) + sum_list (map (sz_raw sz) (pg_raw_outputs (fit_to_budget sz budget pg))) \<le> budget \<or>
    length (pg_events (fit_to_budget sz budget pg)) + length (pg_raw_outputs (fit_to_budget sz budget pg)) \<le> 1"
proof -
  let ?es = "pg_events pg" and ?ws = "pg_raw_outputs pg"
  obtain spent k where fit: "fit_rows (sz_event sz) budget 0 ?es 0 0 = (spent, k)" by fastforce
  have k: "k \<le> length ?es" "spent = sum_list (map (sz_event sz) (take k ?es))" "spent \<le> budget \<or> k \<le> 1"
    using fit_rows_range [of 0 "sz_event sz" budget 0 ?es 0] fit_rows_spent [of "sz_event sz" budget 0 ?es 0 0] fit_rows_within [of 0 budget 0 0 "sz_event sz" ?es] fit
    by simp_all
  show ?thesis
  proof (cases "k < length ?es")
    case True
    have "pg_events (fit_to_budget sz budget pg) = take k ?es" "pg_raw_outputs (fit_to_budget sz budget pg) = []"
      using assms True fit by (cases ?ws; auto simp: fit_to_budget_def Let_def)+
    then show ?thesis using k by auto
  next
    case False
    then have all: "k = length ?es" using k(1) by simp
    obtain spent' n where fit': "fit_rows (sz_raw sz) budget k ?ws spent 0 = (spent', n)" by fastforce
    have n: "n \<le> length ?ws" "spent' = spent + sum_list (map (sz_raw sz) (take n ?ws))" "spent' \<le> budget \<or> k + n \<le> 1"
      using fit_rows_range [of 0 "sz_raw sz" budget k ?ws spent] fit_rows_spent [of "sz_raw sz" budget k ?ws spent 0]
        fit_rows_within [of spent budget k 0 "sz_raw sz" ?ws] k(3) fit' by simp_all
    have "pg_events (fit_to_budget sz budget pg) = ?es" using all fit fit' by (auto simp: fit_to_budget_def Let_def split: option.split)
    moreover have "pg_raw_outputs (fit_to_budget sz budget pg) = take n ?ws"
    proof (cases "n < length ?ws")
      case True
      then obtain c where "po_cursor (?ws ! n) = Some c" using assms nth_mem by blast
      then show ?thesis using all fit fit' True by (simp add: fit_to_budget_def Let_def)
    qed (use all fit fit' n(1) in \<open>simp add: fit_to_budget_def Let_def\<close>)
    ultimately show ?thesis using k(2) all n by auto
  qed
qed

end
