(* ===== verification/Dashboard_Changes.thy ===== *)
theory Dashboard_Changes
  imports Json "HOL-Library.Monad_Syntax"
begin

text \<open>
  The dashboard as the phone reads it (\<^verbatim>\<open>remote/dashboard_changes.rs\<close>): the host answers with what
  differs from a snapshot the client names by its digest, and the client
  (\<^verbatim>\<open>ios/Argmax/Sources/Bridge/DashboardChanges.swift\<close>) merges the answer into the one it holds.
  Answers are the JSON values on the wire. The serializer \<open>to_vec\<close> and the hash \<open>sha\<close> are the
  libraries'.
\<close>

section \<open>The host\<close>

text \<open>\<open>BASELINE_CAPACITY\<close>, and the snapshots kept with their digests, oldest first.\<close>

definition BASELINE_CAPACITY :: nat where
  "BASELINE_CAPACITY = 4"

type_synonym baselines = "(string \<times> object) list"

definition snapshot_digest :: "(object \<Rightarrow> string option) \<Rightarrow> (string \<Rightarrow> string) \<Rightarrow> object \<Rightarrow> string" where
  "snapshot_digest to_vec sha snapshot =
     hex_text (take 16 (sha (case to_vec snapshot of Some bytes \<Rightarrow> bytes | None \<Rightarrow> [])))"

text \<open>An array whose every element is an object with a string id that no earlier one has.\<close>

definition row_id :: "json \<Rightarrow> string option" where
  "row_id row = do { i \<leftarrow> json_get ''id'' row; as_str i }"

fun keyed_from :: "string list \<Rightarrow> json list \<Rightarrow> (string \<times> json) list option" where
  "keyed_from seen [] = Some []"
| "keyed_from seen (row # rows) =
     do { i \<leftarrow> row_id row;
          if i \<in> set seen then None
          else do { keyed \<leftarrow> keyed_from (i # seen) rows; Some ((i, row) # keyed) } }"

definition keyed_rows :: "json \<Rightarrow> (string \<times> json) list option" where
  "keyed_rows v = do { rows \<leftarrow> as_array v; keyed_from [] rows }"

definition upserted :: "(string \<times> json) list \<Rightarrow> (string \<times> json) list \<Rightarrow> (string \<times> json) list" where
  "upserted rows before = filter (\<lambda>(i, row). map_of before i \<noteq> Some row) rows"

definition diff_rows :: "(string \<times> json) list \<Rightarrow> (string \<times> json) list \<Rightarrow> json" where
  "diff_rows rows before =
     (let current = map fst rows;
          upsert = map snd (upserted rows before);
          remove = filter (\<lambda>i. i \<notin> set current) (map fst before);
          stayed = filter (\<lambda>i. i \<in> set current) (map fst before)
      in json_object
           ([(''upsert'', JArray upsert), (''remove'', JArray (map JString remove))] @
            (if current \<noteq> stayed then [(''order'', JArray (map JString current))] else [])))"

text \<open>One key of the snapshot: nothing, rows for \<open>collections\<close>, or a value for \<open>replace\<close>.\<close>

fun diff_entry :: "object \<Rightarrow> string \<times> json \<Rightarrow> object \<times> object \<Rightarrow> object \<times> object" where
  "diff_entry previous (key, v) (collections, replace) =
     (let before = map_of previous key
      in if before = Some v then (collections, replace)
         else case (keyed_rows v, Option.bind before keyed_rows) of
                (Some rows, Some before_rows) \<Rightarrow>
                  (object_insert key (diff_rows rows before_rows) collections, replace)
              | _ \<Rightarrow> (collections, object_insert key v replace))"

definition diff :: "string \<Rightarrow> object \<Rightarrow> string \<Rightarrow> object \<Rightarrow> json" where
  "diff base_digest previous digest snapshot =
     (let (collections, replace) = fold (diff_entry previous) snapshot ([], []);
          removed = filter (\<lambda>k. k \<notin> fst ` set snapshot) (map fst previous)
      in json_object
           [(''digest'', JString digest), (''base'', JString base_digest),
            (''collections'', JObject collections), (''replace'', JObject replace),
            (''remove'', JArray (map JString removed))])"

text \<open>
  \<open>changes\<close>: the answer, and the snapshots kept after it. The capacity loop pops from the front,
  so what remains is the end of the list.
\<close>

definition kept_baselines :: "baselines \<Rightarrow> string \<Rightarrow> object \<Rightarrow> baselines" where
  "kept_baselines recent digest snapshot =
     (let recent = filter (\<lambda>(held, _). held \<noteq> digest) recent @ [(digest, snapshot)]
      in drop (length recent - BASELINE_CAPACITY) recent)"

fun changes :: "(object \<Rightarrow> string option) \<Rightarrow> (string \<Rightarrow> string) \<Rightarrow> json \<Rightarrow> string option \<Rightarrow> baselines
    \<Rightarrow> json \<times> baselines" where
  "changes to_vec sha (JObject snapshot) base_digest recent =
     (let digest = snapshot_digest to_vec sha snapshot;
          answer = (case Option.bind base_digest (\<lambda>base. find (\<lambda>(held, _). held = base) recent) of
                      Some (base, previous) \<Rightarrow> diff base previous digest snapshot
                    | None \<Rightarrow> json_object [(''digest'', JString digest), (''snapshot'', JObject snapshot)])
      in (answer, kept_baselines recent digest snapshot))"
| "changes to_vec sha snapshot base_digest recent =
     (json_object [(''digest'', JNull), (''snapshot'', snapshot)], recent)"

section \<open>The phone\<close>

text \<open>\<open>DashboardChanges.Snapshot\<close>. Every error of \<open>merge\<close> is \<open>malformedResponse\<close>: \<^const>\<open>None\<close>.\<close>

record held_snapshot =
  hs_digest :: string
  hs_value :: object
  hs_arrived_whole :: bool

text \<open>The casts \<^verbatim>\<open>as? [String: Any]\<close>, \<^verbatim>\<open>as? [String]\<close> and \<^verbatim>\<open>as? [[String: Any]]\<close>.\<close>

fun as_object :: "json \<Rightarrow> object option" where
  "as_object (JObject kvs) = Some kvs"
| "as_object _ = None"

definition as_strings :: "json \<Rightarrow> string list option" where
  "as_strings v = do { vs \<leftarrow> as_array v; those (map as_str vs) }"

definition as_objects :: "json \<Rightarrow> object list option" where
  "as_objects v = do { vs \<leftarrow> as_array v; those (map as_object vs) }"

definition field :: "string \<Rightarrow> (json \<Rightarrow> 'a option) \<Rightarrow> object \<Rightarrow> 'a option" where
  "field k cast kvs = do { v \<leftarrow> map_of kvs k; cast v }"

fun index_rows :: "object list \<Rightarrow> (string \<rightharpoonup> object) \<Rightarrow> (string \<rightharpoonup> object) option" where
  "index_rows [] by_id = Some by_id"
| "index_rows (row # rows) by_id = do { i \<leftarrow> field ''id'' as_str row; index_rows rows (by_id(i \<mapsto> row)) }"

definition merge_rows :: "object list \<Rightarrow> object list \<Rightarrow> string list \<Rightarrow> string list option \<Rightarrow> object list option" where
  "merge_rows rows upsert remove explicit =
     do { by_id \<leftarrow> index_rows rows Map.empty;
          ids \<leftarrow> those (map (field ''id'' as_str) rows);
          by_id \<leftarrow> index_rows upsert by_id;
          let order = (case explicit of Some ids' \<Rightarrow> ids' | None \<Rightarrow> filter (\<lambda>i. i \<notin> set remove) ids);
          if distinct order \<and>
             list_all (\<lambda>row. (case field ''id'' as_str row of Some i \<Rightarrow> i | None \<Rightarrow> []) \<in> set order) upsert
          then those (map by_id order) else None }"

definition merge_collection :: "json \<Rightarrow> json option \<Rightarrow> json option" where
  "merge_collection delta rows =
     do { changed \<leftarrow> as_object delta;
          rows \<leftarrow> Option.bind rows as_objects;
          upsert \<leftarrow> field ''upsert'' as_objects changed;
          gone \<leftarrow> field ''remove'' as_strings changed;
          merged \<leftarrow> merge_rows rows upsert gone (field ''order'' as_strings changed);
          Some (JArray (map JObject merged)) }"

fun merge_collections :: "(string \<times> json) list \<Rightarrow> object \<Rightarrow> object option" where
  "merge_collections [] kvs = Some kvs"
| "merge_collections ((key, delta) # deltas) kvs =
     do { rows \<leftarrow> merge_collection delta (map_of kvs key);
          merge_collections deltas (object_insert key rows kvs) }"

definition apply_diff :: "object \<Rightarrow> object \<Rightarrow> object option" where
  "apply_diff answer held =
     do { collections \<leftarrow> field ''collections'' as_object answer;
          replace \<leftarrow> field ''replace'' as_object answer;
          removed \<leftarrow> field ''remove'' as_strings answer;
          let stripped = fold object_remove removed held;
          let replaced = fold (\<lambda>(k, v). object_insert k v) replace stripped;
          merge_collections collections replaced }"

definition merge :: "json \<Rightarrow> held_snapshot option \<Rightarrow> held_snapshot option" where
  "merge reply base =
     do { answer \<leftarrow> as_object reply;
          digest \<leftarrow> field ''digest'' as_str answer;
          case field ''snapshot'' as_object answer of
            Some snapshot \<Rightarrow> Some \<lparr>hs_digest = digest, hs_value = snapshot, hs_arrived_whole = True\<rparr>
          | None \<Rightarrow>
              do { base \<leftarrow> base;
                   if field ''base'' as_str answer \<noteq> Some (hs_digest base) then None
                   else do { kvs \<leftarrow> apply_diff answer (hs_value base);
                             Some \<lparr>hs_digest = digest, hs_value = kvs, hs_arrived_whole = False\<rparr> } } }"

section \<open>Merging an answer gives the snapshot it was made for\<close>

text \<open>The object of a \<^verbatim>\<open>json!\<close>, kept folded so that its fields are looked up in what it was made of.\<close>

definition built :: "(string \<times> json) list \<Rightarrow> object" where
  "built kvs = fold (\<lambda>(k, v). object_insert k v) kvs []"

lemma as_object_built [simp]: "as_object (json_object kvs) = Some (built kvs)"
  by (simp add: json_object_def built_def)

lemma field_built [simp]: "field k cast (built kvs) = Option.bind (map_of (rev kvs) k) cast"
  by (simp add: field_def built_def fold_insert_lookup split: option.splits)

lemma those_map_Some: "(\<And>x. x \<in> set xs \<Longrightarrow> f x = Some (g x)) \<Longrightarrow> those (map f xs) = Some (map g xs)"
  by (induction xs) auto

lemma as_strings_strings [simp]: "as_strings (JArray (map JString xs)) = Some xs"
  by (simp add: as_strings_def o_def those_map_Some [where g = id])

lemma as_objects_objects [simp]: "as_objects (JArray (map JObject xs)) = Some xs"
  by (simp add: as_objects_def o_def those_map_Some [where g = id])

text \<open>Keyed rows: objects under distinct ids.\<close>

lemma row_id_object: "row_id row = Some i \<Longrightarrow> \<exists>kvs. row = JObject kvs \<and> field ''id'' as_str kvs = Some i"
  by (cases row) (auto simp: row_id_def field_def bind_eq_Some_conv)

lemma keyed_from_rows:
  "keyed_from seen rows = Some keyed \<Longrightarrow>
     map snd keyed = rows \<and> distinct (map fst keyed) \<and> set (map fst keyed) \<inter> set seen = {} \<and>
     (\<forall>(i, row) \<in> set keyed. row_id row = Some i)"
  by (induction seen rows arbitrary: keyed rule: keyed_from.induct)
    (fastforce simp: bind_eq_Some_conv split: if_splits)+

definition row_object :: "json \<Rightarrow> object" where
  "row_object row = (case as_object row of Some kvs \<Rightarrow> kvs | None \<Rightarrow> [])"

definition keyed_list :: "(string \<times> json) list \<Rightarrow> bool" where
  "keyed_list keyed \<longleftrightarrow> distinct (map fst keyed) \<and> (\<forall>(i, row) \<in> set keyed. row_id row = Some i)"

lemma keyed_rowsD:
  assumes "keyed_rows v = Some keyed"
  shows "v = JArray (map snd keyed)" and "keyed_list keyed"
proof -
  obtain rows where v: "v = JArray rows" and k: "keyed_from [] rows = Some keyed"
    using assms by (cases v) (auto simp: keyed_rows_def)
  show "v = JArray (map snd keyed)" using keyed_from_rows [OF k] v by simp
  show "keyed_list keyed" using keyed_from_rows [OF k] by (simp add: keyed_list_def)
qed

lemma keyed_list_row:
  assumes "keyed_list keyed" and "(i, row) \<in> set keyed"
  shows "row = JObject (row_object row)" and "field ''id'' as_str (row_object row) = Some i"
proof -
  have "row_id row = Some i" using assms by (auto simp: keyed_list_def)
  then obtain kvs where "row = JObject kvs" "field ''id'' as_str kvs = Some i"
    using row_id_object by blast
  then show "row = JObject (row_object row)" and "field ''id'' as_str (row_object row) = Some i"
    by (auto simp: row_object_def)
qed

lemma keyed_list_filter: "keyed_list keyed \<Longrightarrow> keyed_list (filter P keyed)"
  by (auto simp: keyed_list_def distinct_map_filter)

lemma keyed_list_Cons: "keyed_list (x # keyed) \<Longrightarrow> keyed_list keyed"
  by (auto simp: keyed_list_def)

text \<open>The objects of keyed rows, as the phone reads them.\<close>

lemma index_keyed:
  "keyed_list keyed \<Longrightarrow>
     index_rows (map (row_object \<circ> snd) keyed) m = Some (\<lambda>i. case map_of keyed i of Some row \<Rightarrow> Some (row_object row) | None \<Rightarrow> m i)"
proof (induction keyed arbitrary: m)
  case (Cons x keyed)
  obtain i row where x: "x = (i, row)" by (cases x)
  have id: "field ''id'' as_str (row_object row) = Some i"
    using keyed_list_row(2) [OF Cons.prems, of i row] x by simp
  have new: "i \<notin> fst ` set keyed" using Cons.prems x by (simp add: keyed_list_def)
  then have "map_of keyed i = None" by (simp add: map_of_eq_None_iff)
  then show ?case using Cons.IH [OF keyed_list_Cons [OF Cons.prems]] id
    by (auto simp: x fun_eq_iff split: option.splits)
qed simp

lemma keyed_ids: "keyed_list keyed \<Longrightarrow> those (map (field ''id'' as_str) (map (row_object \<circ> snd) keyed)) = Some (map fst keyed)"
  using keyed_list_row(2) [of keyed] by (induction keyed) (force dest: keyed_list_Cons)+

lemma keyed_as_objects: "keyed_list keyed \<Longrightarrow> JArray (map snd keyed) = JArray (map JObject (map (row_object \<circ> snd) keyed))"
  by (auto dest: keyed_list_row(1))

lemma merge_of_diff_rows:
  assumes rows: "keyed_list rows" and before: "keyed_list before"
    and explicit: "explicit = (if map fst rows \<noteq> filter (\<lambda>i. i \<in> set (map fst rows)) (map fst before)
      then Some (map fst rows) else None)"
  shows "merge_rows (map (row_object \<circ> snd) before) (map (row_object \<circ> snd) (upserted rows before))
      (filter (\<lambda>i. i \<notin> set (map fst rows)) (map fst before)) explicit = Some (map (row_object \<circ> snd) rows)"
proof -
  let ?up = "upserted rows before"
  have up: "keyed_list ?up" by (simp add: upserted_def keyed_list_filter rows)
  let ?by = "\<lambda>i. case map_of ?up i of Some row \<Rightarrow> Some (row_object row)
      | None \<Rightarrow> (case map_of before i of Some row \<Rightarrow> Some (row_object row) | None \<Rightarrow> None)"
  have order: "(case explicit of Some ids' \<Rightarrow> ids' | None \<Rightarrow>
      filter (\<lambda>i. i \<notin> set (filter (\<lambda>i. i \<notin> set (map fst rows)) (map fst before))) (map fst before)) = map fst rows"
  proof (cases "map fst rows = filter (\<lambda>i. i \<in> set (map fst rows)) (map fst before)")
    case True
    have "filter (\<lambda>i. i \<notin> set (filter (\<lambda>i. i \<notin> set (map fst rows)) (map fst before))) (map fst before)
        = filter (\<lambda>i. i \<in> set (map fst rows)) (map fst before)"
      by (rule filter_cong) auto
    then show ?thesis using True by (simp add: explicit)
  qed (simp add: explicit)
  have dist: "distinct (map fst rows)" using rows by (simp add: keyed_list_def)
  have placed: "list_all (\<lambda>row. (case field ''id'' as_str row of Some i \<Rightarrow> i | None \<Rightarrow> []) \<in> set (map fst rows))
      (map (row_object \<circ> snd) ?up)"
    unfolding list_all_iff
  proof
    fix row assume "row \<in> set (map (row_object \<circ> snd) ?up)"
    then obtain i r where r: "(i, r) \<in> set ?up" "row = row_object r" by auto
    then have "field ''id'' as_str row = Some i" using keyed_list_row(2) [OF up] by simp
    moreover have "i \<in> set (map fst rows)" using r(1) by (force simp: upserted_def)
    ultimately show "(case field ''id'' as_str row of Some i \<Rightarrow> i | None \<Rightarrow> []) \<in> set (map fst rows)" by simp
  qed
  have each: "?by (fst x) = Some ((row_object \<circ> snd) x)" if x: "x \<in> set rows" for x
  proof -
    obtain i row where xi: "x = (i, row)" by (cases x)
    show ?thesis
    proof (cases "map_of before i = Some row")
      case True
      have "i \<notin> fst ` set ?up"
      proof
        assume "i \<in> fst ` set ?up"
        then obtain row' where r': "(i, row') \<in> set rows" "map_of before i \<noteq> Some row'"
          by (auto simp: upserted_def)
        then have "row' = row" using x xi dist by (metis map_of_eq_Some_iff option.inject)
        then show False using r' True by simp
      qed
      then have "map_of ?up i = None" by (simp add: map_of_eq_None_iff)
      then show ?thesis using True xi by simp
    next
      case False
      then have "(i, row) \<in> set ?up" using x xi by (simp add: upserted_def)
      then have "map_of ?up i = Some row" using up by (simp add: keyed_list_def)
      then show ?thesis using xi by simp
    qed
  qed
  have all: "those (map ?by (map fst rows)) = Some (map (row_object \<circ> snd) rows)"
    using those_map_Some [of rows "?by \<circ> fst" "row_object \<circ> snd"] each by (simp add: o_def)
  show ?thesis
    unfolding merge_rows_def index_keyed [OF before] keyed_ids [OF before] bind.bind_lunit index_keyed [OF up] Let_def order
    using dist placed all by simp
qed

lemma merge_collection_diff:
  assumes rows: "keyed_rows v = Some rows" and before: "keyed_rows v' = Some before"
  shows "merge_collection (diff_rows rows before) (Some v') = Some v"
proof -
  note r = keyed_rowsD [OF rows] and b = keyed_rowsD [OF before]
  have up: "keyed_list (upserted rows before)" by (simp add: upserted_def keyed_list_filter r(2))
  have v': "as_objects v' = Some (map (row_object \<circ> snd) before)"
    unfolding b(1) keyed_as_objects [OF b(2)] by (rule as_objects_objects)
  have ups: "as_objects (JArray (map snd (upserted rows before))) = Some (map (row_object \<circ> snd) (upserted rows before))"
    unfolding keyed_as_objects [OF up] by (rule as_objects_objects)
  have v: "JArray (map JObject (map (row_object \<circ> snd) rows)) = v"
    unfolding r(1) keyed_as_objects [OF r(2)] by (rule refl)
  show ?thesis
    using merge_of_diff_rows [OF r(2) b(2) refl] v
    by (simp add: merge_collection_def diff_rows_def Let_def v' ups del: map_map split: if_splits)
qed

text \<open>What a key of the snapshot becomes in a diff.\<close>

definition entry_delta :: "object \<Rightarrow> string \<Rightarrow> json \<Rightarrow> json option" where
  "entry_delta previous key v =
     (if map_of previous key = Some v then None
      else case (keyed_rows v, Option.bind (map_of previous key) keyed_rows) of
             (Some rows, Some before) \<Rightarrow> Some (diff_rows rows before)
           | _ \<Rightarrow> None)"

definition entry_replaced :: "object \<Rightarrow> string \<Rightarrow> json \<Rightarrow> bool" where
  "entry_replaced previous key v \<longleftrightarrow> map_of previous key \<noteq> Some v \<and> entry_delta previous key v = None"

lemma diff_entry_cases:
  "diff_entry previous (key, v) (cs, rs) =
     (case entry_delta previous key v of Some d \<Rightarrow> (object_insert key d cs, rs)
      | None \<Rightarrow> (cs, if entry_replaced previous key v then object_insert key v rs else rs))"
  by (auto simp: entry_delta_def entry_replaced_def Let_def split: option.splits)

lemma diff_entries:
  assumes "fold (diff_entry previous) kvs (cs, rs) = (cs', rs')" and "distinct (map fst kvs)"
    and "sorted_object cs" and "sorted_object rs"
  shows "sorted_object cs' \<and> sorted_object rs' \<and>
    (\<forall>k. map_of cs' k = (case Option.bind (map_of kvs k) (entry_delta previous k) of Some d \<Rightarrow> Some d | None \<Rightarrow> map_of cs k)) \<and>
    (\<forall>k. map_of rs' k = (case map_of kvs k of Some v \<Rightarrow> if entry_replaced previous k v then Some v else map_of rs k
                          | None \<Rightarrow> map_of rs k))"
  using assms
proof (induction kvs arbitrary: cs rs)
  case (Cons x kvs)
  obtain key v where x: "x = (key, v)" by (cases x)
  obtain cs1 rs1 where one: "diff_entry previous x (cs, rs) = (cs1, rs1)" by (cases "diff_entry previous x (cs, rs)")
  have sorted: "sorted_object cs1" "sorted_object rs1"
    using one Cons.prems(3,4)
    by (auto simp: x diff_entry_cases object_insert_sorted simp del: diff_entry.simps split: option.splits if_splits)
  have cs1: "map_of cs1 k = (if k = key then (case entry_delta previous key v of Some d \<Rightarrow> Some d | None \<Rightarrow> map_of cs k) else map_of cs k)" for k
    using one Cons.prems(3)
    by (auto simp: x diff_entry_cases object_insert_lookup simp del: diff_entry.simps split: option.splits if_splits)
  have rs1: "map_of rs1 k = (if k = key \<and> entry_replaced previous key v then Some v else map_of rs k)" for k
    using one Cons.prems(4)
    by (auto simp: x diff_entry_cases entry_replaced_def object_insert_lookup simp del: diff_entry.simps split: option.splits if_splits)
  have rest: "fold (diff_entry previous) kvs (cs1, rs1) = (cs', rs')" using Cons.prems(1) one by simp
  have new: "map_of kvs key = None" using Cons.prems(2) by (simp add: x map_of_eq_None_iff)
  have dist: "distinct (map fst kvs)" using Cons.prems(2) by simp
  show ?case using Cons.IH [OF rest dist sorted] new by (auto simp: x cs1 rs1 cong: option.case_cong if_cong)
qed simp

text \<open>The three steps of the phone.\<close>

lemma strip_lookup:
  "sorted_object kvs \<Longrightarrow> sorted_object (fold object_remove ks kvs) \<and>
     (\<forall>k. map_of (fold object_remove ks kvs) k = (if k \<in> set ks then None else map_of kvs k))"
  by (induction ks arbitrary: kvs) (auto simp: object_remove_sorted object_remove_lookup)

lemma insert_all_sorted:
  "sorted_object acc \<Longrightarrow> sorted_object (fold (\<lambda>(k, v). object_insert k v) kvs acc)"
  by (induction kvs arbitrary: acc) (auto simp: object_insert_sorted)

lemma insert_all_lookup:
  assumes "sorted_object acc" and "distinct (map fst kvs)"
  shows "map_of (fold (\<lambda>(k, v). object_insert k v) kvs acc) k =
    (case map_of kvs k of None \<Rightarrow> map_of acc k | Some v \<Rightarrow> Some v)"
proof -
  have "map_of (rev kvs) = map_of kvs" using assms(2) by (intro map_of_eqI) (auto simp: rev_map [symmetric])
  then show ?thesis by (simp add: fold_insert_lookup [OF assms(1)])
qed

lemma merge_all_collections:
  assumes "sorted_object kvs" and "distinct (map fst cs)"
    and "\<And>k d. (k, d) \<in> set cs \<Longrightarrow> merge_collection d (map_of kvs k) = Some (g k)"
  shows "\<exists>kvs'. merge_collections cs kvs = Some kvs' \<and> sorted_object kvs' \<and>
    (\<forall>k. map_of kvs' k = (if k \<in> fst ` set cs then Some (g k) else map_of kvs k))"
  using assms
proof (induction cs arbitrary: kvs)
  case (Cons x cs)
  obtain key d where x: "x = (key, d)" by (cases x)
  let ?kvs = "object_insert key (g key) kvs"
  have first: "merge_collection d (map_of kvs key) = Some (g key)" using Cons.prems(3) by (simp add: x)
  have later: "merge_collection d' (map_of ?kvs k) = Some (g k)" if "(k, d') \<in> set cs" for k d'
  proof -
    have "k \<noteq> key" using Cons.prems(2) that by (force simp: x)
    then show ?thesis using Cons.prems(3) [of k d'] that by (simp add: object_insert_lookup Cons.prems(1))
  qed
  have dist: "distinct (map fst cs)" using Cons.prems(2) by simp
  obtain kvs' where "merge_collections cs ?kvs = Some kvs'" "sorted_object kvs'"
    "\<forall>k. map_of kvs' k = (if k \<in> fst ` set cs then Some (g k) else map_of ?kvs k)"
    using Cons.IH [OF object_insert_sorted [OF Cons.prems(1)] dist later] by blast
  then show ?case by (auto simp: x first object_insert_lookup Cons.prems(1))
qed simp

lemma apply_diff_diff:
  assumes prev: "sorted_object previous" and snap: "sorted_object snapshot"
    and answer: "as_object (diff base previous digest snapshot) = Some answer"
  shows "apply_diff answer previous = Some snapshot"
proof -
  obtain cs rs where fold: "fold (diff_entry previous) snapshot ([], []) = (cs, rs)"
    by (cases "fold (diff_entry previous) snapshot ([], [])")
  have entries: "sorted_object cs" "sorted_object rs"
    "map_of cs k = Option.bind (map_of snapshot k) (entry_delta previous k)"
    "map_of rs k = (case map_of snapshot k of Some v \<Rightarrow> if entry_replaced previous k v then Some v else None | None \<Rightarrow> None)" for k
    using diff_entries [OF fold sorted_object_distinct [OF snap]] by (auto split: option.splits)
  obtain removed where removed: "removed = filter (\<lambda>k. k \<notin> fst ` set snapshot) (map fst previous)" by simp
  obtain stripped where stripped: "stripped = fold object_remove removed previous" by simp
  obtain replaced where replaced: "replaced = fold (\<lambda>(k, v). object_insert k v) rs stripped" by simp
  have fields: "field ''collections'' as_object answer = Some cs" "field ''replace'' as_object answer = Some rs"
    "field ''remove'' as_strings answer = Some removed"
    using answer by (auto simp: diff_def fold removed Let_def)
  have s: "sorted_object stripped" "map_of stripped k = (if k \<in> set removed then None else map_of previous k)" for k
    using strip_lookup [OF prev, of removed] by (auto simp: stripped)
  have r: "sorted_object replaced" "map_of replaced k = (case map_of rs k of None \<Rightarrow> map_of stripped k | Some v \<Rightarrow> Some v)" for k
    using insert_all_sorted [OF s(1)] insert_all_lookup [OF s(1) sorted_object_distinct [OF entries(2)]]
    by (auto simp: replaced)
  have merged: "merge_collection d (map_of replaced k) = Some (the (map_of snapshot k))" if "(k, d) \<in> set cs" for k d
  proof -
    have "map_of cs k = Some d" using that entries(1) by (simp add: sorted_object_distinct)
    then obtain v where v: "map_of snapshot k = Some v" "entry_delta previous k v = Some d"
      using entries(3) [of k] by (auto simp: bind_eq_Some_conv)
    then obtain rows v' before where d: "keyed_rows v = Some rows" "map_of previous k = Some v'"
      "keyed_rows v' = Some before" "d = diff_rows rows before"
      by (auto simp: entry_delta_def bind_eq_Some_conv split: if_splits option.splits)
    have "k \<in> fst ` set snapshot" using v(1) by (metis domI dom_map_of_conv_image_fst)
    then have "map_of replaced k = Some v'"
      using v d by (simp add: r(2) s(2) entries(4) entry_replaced_def removed)
    then show ?thesis using merge_collection_diff [OF d(1,3)] d(4) v(1) by simp
  qed
  obtain kvs where kvs: "merge_collections cs replaced = Some kvs" "sorted_object kvs"
    "map_of kvs k = (if k \<in> fst ` set cs then Some (the (map_of snapshot k)) else map_of replaced k)" for k
    using merge_all_collections [OF r(1) sorted_object_distinct [OF entries(1)] merged] by blast
  have "map_of kvs k = map_of snapshot k" for k
  proof (cases "map_of snapshot k")
    case None
    then have out: "k \<notin> fst ` set snapshot" by (simp add: map_of_eq_None_iff)
    have "map_of cs k = None" "map_of rs k = None" using None by (simp_all add: entries(3,4))
    then have "k \<notin> fst ` set cs" by (simp add: map_of_eq_None_iff)
    moreover have "map_of stripped k = None"
      using out by (auto simp: s(2) removed map_of_eq_None_iff)
    ultimately show ?thesis using None \<open>map_of rs k = None\<close> by (simp add: kvs(3) r(2))
  next
    case (Some v)
    then have mem: "k \<in> fst ` set snapshot" by (metis domI dom_map_of_conv_image_fst)
    have cs: "k \<in> fst ` set cs \<longleftrightarrow> entry_delta previous k v \<noteq> None"
      using entries(3) [of k] Some by (metis bind.bind_lunit map_of_eq_None_iff)
    show ?thesis
    proof (cases "entry_delta previous k v")
      case None
      then show ?thesis using Some cs mem
        by (auto simp: kvs(3) r(2) s(2) entries(4) entry_replaced_def removed)
    qed (use Some cs in \<open>simp add: kvs(3)\<close>)
  qed
  then have "kvs = snapshot" by (intro sorted_object_eq [OF kvs(2) snap]) (simp add: fun_eq_iff)
  then show ?thesis
    using kvs(1) by (simp add: apply_diff_def fields Let_def stripped [symmetric] replaced [symmetric])
qed

end
