(* ===== verification/Dashboard_Phones.thy ===== *)
theory Dashboard_Phones
  imports Dashboard_Changes
begin

text \<open>
  The host and any number of phones, with reads in flight. \<open>read_phase\<close> follows one call of
  \<^verbatim>\<open>readDashboard\<close> (\<^verbatim>\<open>BridgeClient.swift\<close>) and of \<^verbatim>\<open>dispatch\<close>: the base it captured, then the snapshot the
  host has encoded for it, then the answer. Only a call of \<open>changes\<close> holds the lock, so that reads
  overtake each other between any two phases.
\<close>

datatype read_phase =
    Asked "held_snapshot option"
  | Encoded "held_snapshot option" object
  | Answered "held_snapshot option" object json

record dashboards =
  db_current :: object
  db_seen :: "object set"
  db_recent :: baselines
  db_base :: "nat \<Rightarrow> held_snapshot option"
  db_reads :: "nat \<times> nat \<Rightarrow> read_phase option"

definition start_dashboards :: "object \<Rightarrow> dashboards" where
  "start_dashboards s =
     \<lparr>db_current = s, db_seen = {s}, db_recent = [], db_base = (\<lambda>_. None), db_reads = (\<lambda>_. None)\<rparr>"

text \<open>
  The dashboard changes to anything; a phone asks, naming the base it holds; the host encodes its
  dashboard, then answers; the phone merges the answer into the base it asked with. An answer
  that does not apply drops the base and asks again without one, or fails the read when there was
  none. Reads are lost, hosts and phones restart.
\<close>

inductive dashboard_step :: "(object \<Rightarrow> string option) \<Rightarrow> (string \<Rightarrow> string) \<Rightarrow> dashboards \<Rightarrow> dashboards \<Rightarrow> bool"
  for to_vec sha where
  change: "sorted_object s \<Longrightarrow>
     dashboard_step to_vec sha d (d\<lparr>db_current := s, db_seen := insert s (db_seen d)\<rparr>)"
| ask: "db_reads d (p, r) = None \<Longrightarrow>
     dashboard_step to_vec sha d (d\<lparr>db_reads := (db_reads d)((p, r) \<mapsto> Asked (db_base d p))\<rparr>)"
| encode: "db_reads d pr = Some (Asked b) \<Longrightarrow>
     dashboard_step to_vec sha d (d\<lparr>db_reads := (db_reads d)(pr \<mapsto> Encoded b (db_current d))\<rparr>)"
| answer: "db_reads d pr = Some (Encoded b s) \<Longrightarrow>
     changes to_vec sha (JObject s) (map_option hs_digest b) (db_recent d) = (reply, recent) \<Longrightarrow>
     dashboard_step to_vec sha d (d\<lparr>db_recent := recent, db_reads := (db_reads d)(pr \<mapsto> Answered b s reply)\<rparr>)"
| merged: "db_reads d (p, r) = Some (Answered b s reply) \<Longrightarrow> merge reply b = Some h \<Longrightarrow>
     dashboard_step to_vec sha d (d\<lparr>db_base := (db_base d)(p := Some h), db_reads := (db_reads d)((p, r) := None)\<rparr>)"
| ask_again: "db_reads d (p, r) = Some (Answered b s reply) \<Longrightarrow> merge reply b = None \<Longrightarrow> b \<noteq> None \<Longrightarrow>
     dashboard_step to_vec sha d (d\<lparr>db_base := (db_base d)(p := None), db_reads := (db_reads d)((p, r) \<mapsto> Asked None)\<rparr>)"
| failed: "db_reads d pr = Some (Answered None s reply) \<Longrightarrow> merge reply None = None \<Longrightarrow>
     dashboard_step to_vec sha d (d\<lparr>db_reads := (db_reads d)(pr := None)\<rparr>)"
| lost: "dashboard_step to_vec sha d (d\<lparr>db_reads := (db_reads d)(pr := None)\<rparr>)"
| host_restarts: "dashboard_step to_vec sha d (d\<lparr>db_recent := []\<rparr>)"
| phone_restarts: "dashboard_step to_vec sha d (d\<lparr>db_base := (db_base d)(p := None)\<rparr>)"

section \<open>What is held is what was read\<close>

text \<open>Two dashboards there have been have digests of their own.\<close>

abbreviation digests_tell :: "(object \<Rightarrow> string option) \<Rightarrow> (string \<Rightarrow> string) \<Rightarrow> dashboards \<Rightarrow> bool" where
  "digests_tell to_vec sha d \<equiv>
     inj_on (\<lambda>s. take 16 (sha (case to_vec s of Some bytes \<Rightarrow> bytes | None \<Rightarrow> []))) (db_seen d)"

lemma digest_inject:
  "digests_tell to_vec sha d \<Longrightarrow> s \<in> db_seen d \<Longrightarrow> t \<in> db_seen d \<Longrightarrow>
     snapshot_digest to_vec sha s = snapshot_digest to_vec sha t \<Longrightarrow> s = t"
  by (auto simp: snapshot_digest_def hex_text_inject dest: inj_onD)

definition known :: "(object \<Rightarrow> string option) \<Rightarrow> (string \<Rightarrow> string) \<Rightarrow> dashboards \<Rightarrow> held_snapshot option \<Rightarrow> bool" where
  "known to_vec sha d b \<longleftrightarrow>
     (\<forall>h. b = Some h \<longrightarrow> hs_value h \<in> db_seen d \<and> hs_digest h = snapshot_digest to_vec sha (hs_value h))"

fun read_ok :: "(object \<Rightarrow> string option) \<Rightarrow> (string \<Rightarrow> string) \<Rightarrow> dashboards \<Rightarrow> read_phase \<Rightarrow> bool" where
  "read_ok to_vec sha d (Asked b) \<longleftrightarrow> known to_vec sha d b"
| "read_ok to_vec sha d (Encoded b s) \<longleftrightarrow> known to_vec sha d b \<and> s \<in> db_seen d"
| "read_ok to_vec sha d (Answered b s reply) \<longleftrightarrow>
     s \<in> db_seen d \<and>
     (\<exists>whole. merge reply b =
        Some \<lparr>hs_digest = snapshot_digest to_vec sha s, hs_value = s, hs_arrived_whole = whole\<rparr>)"

definition dashboards_ok :: "(object \<Rightarrow> string option) \<Rightarrow> (string \<Rightarrow> string) \<Rightarrow> dashboards \<Rightarrow> bool" where
  "dashboards_ok to_vec sha d \<longleftrightarrow>
     db_current d \<in> db_seen d \<and> (\<forall>s \<in> db_seen d. sorted_object s) \<and>
     (\<forall>(i, s) \<in> set (db_recent d). s \<in> db_seen d \<and> i = snapshot_digest to_vec sha s) \<and>
     length (db_recent d) \<le> BASELINE_CAPACITY \<and>
     (\<forall>p. known to_vec sha d (db_base d p)) \<and>
     (\<forall>pr phase. db_reads d pr = Some phase \<longrightarrow> read_ok to_vec sha d phase)"

lemma merge_whole:
  "merge (json_object [(''digest'', JString i), (''snapshot'', JObject s)]) b =
     Some \<lparr>hs_digest = i, hs_value = s, hs_arrived_whole = True\<rparr>"
  by (simp add: merge_def)

lemma merge_diff:
  assumes "sorted_object (hs_value h)" and "sorted_object s" and "hs_digest h = i"
  shows "merge (diff i (hs_value h) j s) (Some h) = Some \<lparr>hs_digest = j, hs_value = s, hs_arrived_whole = False\<rparr>"
proof -
  obtain cs rs where f: "fold (diff_entry (hs_value h)) s ([], []) = (cs, rs)"
    by (cases "fold (diff_entry (hs_value h)) s ([], [])")
  obtain answer where a: "as_object (diff i (hs_value h) j s) = Some answer"
    by (simp add: diff_def Let_def f)
  have "field ''digest'' as_str answer = Some j" "field ''snapshot'' as_object answer = None"
    "field ''base'' as_str answer = Some i"
    using a by (auto simp: diff_def Let_def f)
  then show ?thesis using apply_diff_diff [OF assms(1,2) a] assms(3) by (simp add: merge_def a)
qed

text \<open>The answer of \<open>changes\<close> to a base whose snapshot the digest names.\<close>

lemma changes_merge:
  assumes tell: "digests_tell to_vec sha d" and ok: "dashboards_ok to_vec sha d"
    and b: "known to_vec sha d b" and s: "s \<in> db_seen d"
    and c: "changes to_vec sha (JObject s) (map_option hs_digest b) (db_recent d) = (reply, recent)"
  shows "\<exists>whole. merge reply b =
    Some \<lparr>hs_digest = snapshot_digest to_vec sha s, hs_value = s, hs_arrived_whole = whole\<rparr>"
proof (cases "Option.bind (map_option hs_digest b) (\<lambda>base. find (\<lambda>(held, _). held = base) (db_recent d))")
  case None
  then show ?thesis using c merge_whole by (auto simp: Let_def)
next
  case (Some found)
  obtain i previous where found: "found = (i, previous)" by (cases found)
  obtain h where h: "b = Some h" "find (\<lambda>(held, _). held = hs_digest h) (db_recent d) = Some (i, previous)"
    using Some found by (cases b) auto
  have mem: "(i, previous) \<in> set (db_recent d)" "i = hs_digest h"
    using find_Some_mem [OF h(2)] by auto
  have "previous = hs_value h"
  proof (rule digest_inject [OF tell])
    show "previous \<in> db_seen d" using ok mem(1) by (auto simp: dashboards_ok_def)
    show "hs_value h \<in> db_seen d" using b h(1) by (simp add: known_def)
    show "snapshot_digest to_vec sha previous = snapshot_digest to_vec sha (hs_value h)"
      using ok mem b h(1) by (auto simp: dashboards_ok_def known_def)
  qed
  moreover have "reply = diff i previous (snapshot_digest to_vec sha s) s"
    using c Some found by (simp add: Let_def)
  moreover have "sorted_object (hs_value h)" "sorted_object s"
    using ok b h(1) s by (auto simp: dashboards_ok_def known_def)
  ultimately show ?thesis using merge_diff [of h s i] mem(2) h(1) by auto
qed

lemma kept_baselines_mem: "x \<in> set (kept_baselines recent i s) \<Longrightarrow> x \<in> set recent \<or> x = (i, s)"
  by (auto simp: kept_baselines_def Let_def dest: in_set_dropD)

lemma kept_baselines_length: "length (kept_baselines recent i s) \<le> BASELINE_CAPACITY"
  by (auto simp: kept_baselines_def Let_def)

lemma changes_kept:
  "changes to_vec sha (JObject s) base recent = (reply, recent') \<Longrightarrow>
     recent' = kept_baselines recent (snapshot_digest to_vec sha s) s"
  by (auto simp: Let_def)

lemma seen_grows: "dashboard_step to_vec sha d d' \<Longrightarrow> db_seen d \<subseteq> db_seen d'"
  by (cases rule: dashboard_step.cases) auto

lemma known_grows: "db_seen d \<subseteq> db_seen d' \<Longrightarrow> known to_vec sha d b \<Longrightarrow> known to_vec sha d' b"
  by (auto simp: known_def)

lemma read_ok_grows: "db_seen d \<subseteq> db_seen d' \<Longrightarrow> read_ok to_vec sha d phase \<Longrightarrow> read_ok to_vec sha d' phase"
  by (cases phase) (auto intro: known_grows)

lemma dashboards_ok_readD:
  "dashboards_ok to_vec sha d \<Longrightarrow> db_reads d pr = Some phase \<Longrightarrow> read_ok to_vec sha d phase"
  unfolding dashboards_ok_def by blast

text \<open>Steps that change nothing but what a phone or a read holds.\<close>

lemma dashboards_ok_holds:
  assumes "dashboards_ok to_vec sha d" and "\<forall>q. known to_vec sha d (bases q)"
    and "\<forall>pr phase. reads pr = Some phase \<longrightarrow> db_reads d pr = Some phase \<or> read_ok to_vec sha d phase"
  shows "dashboards_ok to_vec sha (d\<lparr>db_base := bases, db_reads := reads\<rparr>)"
proof -
  let ?d = "d\<lparr>db_base := bases, db_reads := reads\<rparr>"
  have k: "known to_vec sha ?d b \<longleftrightarrow> known to_vec sha d b" for b by (simp add: known_def)
  have r: "read_ok to_vec sha ?d phase \<longleftrightarrow> read_ok to_vec sha d phase" for phase by (cases phase) (simp_all add: k)
  show ?thesis using assms by (simp add: dashboards_ok_def k r) blast
qed

lemma known_base: "dashboards_ok to_vec sha d \<Longrightarrow> known to_vec sha d (db_base d p)"
  by (simp add: dashboards_ok_def)

lemma known_None [simp]: "known to_vec sha d None"
  by (simp add: known_def)

lemma dashboards_ok_reads:
  assumes "dashboards_ok to_vec sha d" and "read_ok to_vec sha d phase"
  shows "dashboards_ok to_vec sha (d\<lparr>db_reads := (db_reads d)(pr \<mapsto> phase)\<rparr>)"
  using dashboards_ok_holds [OF assms(1), of "db_base d" "(db_reads d)(pr \<mapsto> phase)"] assms known_base by simp

lemma dashboard_step_keeps:
  assumes "dashboard_step to_vec sha d d'" and ok: "dashboards_ok to_vec sha d" and "digests_tell to_vec sha d'"
  shows "dashboards_ok to_vec sha d'"
  using assms(1)
proof cases
  case (change s)
  have seen: "db_seen d \<subseteq> db_seen d'" by (auto simp: change(1))
  show ?thesis
    using ok change(2) known_grows [OF seen] read_ok_grows [OF seen]
    by (auto simp: dashboards_ok_def change(1))
next
  case (ask p r)
  show ?thesis unfolding ask(1) by (rule dashboards_ok_reads [OF ok]) (simp add: known_base [OF ok])
next
  case (encode pr b)
  have "read_ok to_vec sha d (Encoded b (db_current d))"
    using dashboards_ok_readD [OF ok encode(2)] ok by (simp add: dashboards_ok_def)
  then show ?thesis unfolding encode(1) by (rule dashboards_ok_reads [OF ok])
next
  case (answer pr b s reply recent)
  have tell: "digests_tell to_vec sha d" using assms(3) by (simp add: answer(1))
  have b: "known to_vec sha d b" and s: "s \<in> db_seen d"
    using dashboards_ok_readD [OF ok answer(2)] by simp_all
  have "read_ok to_vec sha d (Answered b s reply)"
    using changes_merge [OF tell ok b s answer(3)] s by simp
  then have "dashboards_ok to_vec sha (d\<lparr>db_reads := (db_reads d)(pr \<mapsto> Answered b s reply)\<rparr>)"
    by (rule dashboards_ok_reads [OF ok])
  moreover have "(i, t) \<in> set recent \<Longrightarrow> t \<in> db_seen d \<and> i = snapshot_digest to_vec sha t" for i t
    using ok s kept_baselines_mem [of "(i, t)"] by (fastforce simp: changes_kept [OF answer(3)] dashboards_ok_def)
  moreover have "length recent \<le> BASELINE_CAPACITY"
    by (simp add: changes_kept [OF answer(3)] kept_baselines_length)
  ultimately show ?thesis
    using read_ok_grows [of "d\<lparr>db_reads := (db_reads d)(pr \<mapsto> Answered b s reply)\<rparr>" d']
      known_grows [of "d\<lparr>db_reads := (db_reads d)(pr \<mapsto> Answered b s reply)\<rparr>" d']
    by (auto simp: dashboards_ok_def answer(1) simp del: read_ok.simps)
next
  case (merged p r b s reply h)
  have "known to_vec sha d (Some h)"
    using dashboards_ok_readD [OF ok merged(2)] merged(3) by (auto simp: known_def)
  then show ?thesis unfolding merged(1) using known_base [OF ok] by (intro dashboards_ok_holds [OF ok]) auto
next
  case (ask_again p r b s reply)
  show ?thesis unfolding ask_again(1) using known_base [OF ok] by (intro dashboards_ok_holds [OF ok]) auto
next
  case (failed pr s reply)
  show ?thesis unfolding failed(1)
    using dashboards_ok_holds [OF ok, of "db_base d" "(db_reads d)(pr := None)"] known_base [OF ok] by simp
next
  case (lost pr)
  show ?thesis unfolding lost
    using dashboards_ok_holds [OF ok, of "db_base d" "(db_reads d)(pr := None)"] known_base [OF ok] by simp
next
  case host_restarts
  have "known to_vec sha d' b \<longleftrightarrow> known to_vec sha d b" for b by (simp add: known_def host_restarts)
  moreover have "read_ok to_vec sha d' phase \<longleftrightarrow> read_ok to_vec sha d phase" for phase
    using calculation by (cases phase) (simp_all add: host_restarts)
  ultimately show ?thesis using ok by (simp add: dashboards_ok_def host_restarts)
next
  case (phone_restarts p)
  show ?thesis unfolding phone_restarts
    using dashboards_ok_holds [OF ok, of "(db_base d)(p := None)" "db_reads d"] known_base [OF ok] by simp
qed

lemma start_dashboards_ok: "sorted_object s \<Longrightarrow> dashboards_ok to_vec sha (start_dashboards s)"
  by (simp add: dashboards_ok_def start_dashboards_def)

interpretation phones: invariant_system "dashboard_step to_vec sha"
    "\<lambda>d. digests_tell to_vec sha d \<longrightarrow> dashboards_ok to_vec sha d" for to_vec sha
proof
  fix d d'
  assume inv: "digests_tell to_vec sha d \<longrightarrow> dashboards_ok to_vec sha d" and step: "dashboard_step to_vec sha d d'"
  show "digests_tell to_vec sha d' \<longrightarrow> dashboards_ok to_vec sha d'"
  proof
    assume tell: "digests_tell to_vec sha d'"
    then have "digests_tell to_vec sha d" using inj_on_subset seen_grows [OF step] by blast
    then show "dashboards_ok to_vec sha d'" using dashboard_step_keeps [OF step _ tell] inv by blast
  qed
qed

text \<open>C40: However reads of many phones overtake each other, changes of the dashboard, lost answers and
  restarts, if no two dashboards there have been share their sixteen bytes of hash: every answer
  merges, into the base it was asked with, to exactly the snapshot the host encoded for it; what a
  phone holds is always a dashboard there has been, under that dashboard's digest; and the host
  keeps four snapshots at most.
\<close>

theorem phones_hold_what_the_host_read:
  assumes "(dashboard_step to_vec sha)\<^sup>*\<^sup>* (start_dashboards s0) d" and "sorted_object s0"
    and "inj_on (\<lambda>s. take 16 (sha (case to_vec s of Some bytes \<Rightarrow> bytes | None \<Rightarrow> []))) (db_seen d)"
  shows "(\<forall>pr b s reply. db_reads d pr = Some (Answered b s reply) \<longrightarrow>
        s \<in> db_seen d \<and> (\<exists>whole. merge reply b =
          Some \<lparr>hs_digest = snapshot_digest to_vec sha s, hs_value = s, hs_arrived_whole = whole\<rparr>)) \<and>
    (\<forall>p h. db_base d p = Some h \<longrightarrow>
        hs_value h \<in> db_seen d \<and> hs_digest h = snapshot_digest to_vec sha (hs_value h)) \<and>
    length (db_recent d) \<le> BASELINE_CAPACITY"
proof -
  have ok: "dashboards_ok to_vec sha d"
    using phones.runs [OF assms(1)] start_dashboards_ok [OF assms(2)] assms(3) by blast
  then show ?thesis
    using known_base [OF ok] dashboards_ok_readD [OF ok] by (fastforce simp: dashboards_ok_def known_def)
qed

text \<open>A phone reads a dashboard whole, a chat starts to run, and the phone asks again.\<close>

definition sample_row :: "string \<Rightarrow> string \<Rightarrow> json" where
  "sample_row i state = JObject [(''id'', JString i), (''state'', JString state)]"

definition sample_dashboard :: "string \<Rightarrow> object" where
  "sample_dashboard state =
     [(''arcs'', JArray []), (''sessions'', JArray [sample_row ''a'' state, sample_row ''b'' ''idle''])]"

definition sample_bytes :: "object \<Rightarrow> string option" where
  "sample_bytes s = Some (if s = sample_dashboard ''idle'' then ''0'' else ''1'')"

abbreviation sample_step :: "dashboards \<Rightarrow> dashboards \<Rightarrow> bool" where
  "sample_step \<equiv> dashboard_step sample_bytes id"

definition sample_whole :: json where
  "sample_whole = json_object [(''digest'', JString (snapshot_digest sample_bytes id (sample_dashboard ''idle''))),
     (''snapshot'', JObject (sample_dashboard ''idle''))]"

definition sample_held :: held_snapshot where
  "sample_held = \<lparr>hs_digest = snapshot_digest sample_bytes id (sample_dashboard ''idle''),
     hs_value = sample_dashboard ''idle'', hs_arrived_whole = True\<rparr>"

definition sample_recent :: baselines where
  "sample_recent = [(hs_digest sample_held, sample_dashboard ''idle'')]"

definition sample_delta :: json where
  "sample_delta = diff (hs_digest sample_held) (sample_dashboard ''idle'')
     (snapshot_digest sample_bytes id (sample_dashboard ''running'')) (sample_dashboard ''running'')"

definition sample_after :: "baselines \<Rightarrow> object \<Rightarrow> held_snapshot option \<Rightarrow> read_phase option \<Rightarrow> dashboards" where
  "sample_after recent current base phase =
     \<lparr>db_current = current, db_seen = {current, sample_dashboard ''idle''}, db_recent = recent,
      db_base = (\<lambda>_. None)(0 := base), db_reads = (\<lambda>_. None)((0, 0) := phase)\<rparr>"

lemma sample_first_read:
  "changes sample_bytes id (JObject (sample_dashboard ''idle'')) None [] = (sample_whole, sample_recent)"
  by (simp add: sample_whole_def sample_recent_def sample_held_def kept_baselines_def BASELINE_CAPACITY_def Let_def)

lemma sample_second_read:
  "changes sample_bytes id (JObject (sample_dashboard ''running'')) (Some (hs_digest sample_held)) sample_recent =
     (sample_delta, kept_baselines sample_recent (snapshot_digest sample_bytes id (sample_dashboard ''running''))
       (sample_dashboard ''running''))"
  by (simp add: sample_delta_def sample_recent_def Let_def)

lemma sample_merges: "merge sample_whole None = Some sample_held"
  by (simp add: sample_whole_def sample_held_def merge_whole)

lemma sample_dashboards_sorted: "sorted_object (sample_dashboard state)"
  by (simp add: sample_dashboard_def) 

lemma sample_ask: "sample_step (sample_after recent s b None) (sample_after recent s b (Some (Asked b)))"
  using dashboard_step.ask [of "sample_after recent s b None" 0 0 sample_bytes id] by (simp add: sample_after_def)

lemma sample_encode:
  "sample_step (sample_after recent s b0 (Some (Asked b))) (sample_after recent s b0 (Some (Encoded b s)))"
  using dashboard_step.encode [of "sample_after recent s b0 (Some (Asked b))" "(0, 0)" b sample_bytes id]
  by (simp add: sample_after_def)

lemma sample_answer:
  "changes sample_bytes id (JObject t) (map_option hs_digest b) recent = (reply, recent') \<Longrightarrow>
     sample_step (sample_after recent s b0 (Some (Encoded b t))) (sample_after recent' s b0 (Some (Answered b t reply)))"
  using dashboard_step.answer [of "sample_after recent s b0 (Some (Encoded b t))" "(0, 0)" b t sample_bytes id reply recent']
  by (simp add: sample_after_def)

lemma sample_merge:
  "merge reply b = Some h \<Longrightarrow>
     sample_step (sample_after recent s b0 (Some (Answered b t reply))) (sample_after recent s (Some h) None)"
  using dashboard_step.merged [of "sample_after recent s b0 (Some (Answered b t reply))" 0 0 b t reply h sample_bytes id]
  by (simp add: sample_after_def)

lemma sample_change:
  "sample_step (sample_after recent (sample_dashboard ''idle'') b None) (sample_after recent (sample_dashboard state) b None)"
  using dashboard_step.change [OF sample_dashboards_sorted, of sample_bytes id "sample_after recent (sample_dashboard ''idle'') b None" state]
  by (simp add: sample_after_def insert_commute)

lemmas sample_steps = sample_ask sample_encode sample_answer sample_merge sample_change

definition sample_reached :: dashboards where
  "sample_reached =
     sample_after (kept_baselines sample_recent (snapshot_digest sample_bytes id (sample_dashboard ''running'')) (sample_dashboard ''running''))
       (sample_dashboard ''running'') (Some sample_held)
       (Some (Answered (Some sample_held) (sample_dashboard ''running'') sample_delta))"

lemma sample_phone_reached: "sample_step\<^sup>*\<^sup>* (start_dashboards (sample_dashboard ''idle'')) sample_reached"
proof -
  have start: "start_dashboards (sample_dashboard ''idle'') = sample_after [] (sample_dashboard ''idle'') None None"
    by (simp add: start_dashboards_def sample_after_def fun_eq_iff)
  let ?idle = "sample_dashboard ''idle''"
  let ?from = "sample_after [] ?idle None None"
  note then_step = rtranclp.rtrancl_into_rtrancl [of sample_step]
  have "sample_step\<^sup>*\<^sup>* ?from (sample_after [] ?idle None (Some (Asked None)))"
    by (rule r_into_rtranclp) (rule sample_ask)
  then have "sample_step\<^sup>*\<^sup>* ?from (sample_after [] ?idle None (Some (Encoded None ?idle)))"
    by (rule then_step) (rule sample_encode)
  then have "sample_step\<^sup>*\<^sup>* ?from (sample_after sample_recent ?idle None (Some (Answered None ?idle sample_whole)))"
    by (rule then_step) (rule sample_answer, simp add: sample_first_read del: changes.simps)
  then have first: "sample_step\<^sup>*\<^sup>* ?from (sample_after sample_recent ?idle (Some sample_held) None)"
    by (rule then_step) (rule sample_merge [OF sample_merges])
  have second: "changes sample_bytes id (JObject (sample_dashboard ''running'')) (map_option hs_digest (Some sample_held)) sample_recent =
      (sample_delta, kept_baselines sample_recent (snapshot_digest sample_bytes id (sample_dashboard ''running'')) (sample_dashboard ''running''))"
    using sample_second_read by simp
  show ?thesis
    unfolding start sample_reached_def
    by (rule then_step, rule then_step, rule then_step, rule then_step, rule first, rule sample_change,
        rule sample_ask, rule sample_encode, rule sample_answer, rule second)
qed

lemma sample_digests_tell:
  "inj_on (\<lambda>s. take 16 (id (case sample_bytes s of Some bytes \<Rightarrow> bytes | None \<Rightarrow> []))) (db_seen sample_reached)"
  by (auto simp: inj_on_def sample_bytes_def sample_reached_def sample_after_def)

theorem phones_hold_what_the_host_read_witness:
  "(\<exists>whole. merge sample_delta (Some sample_held) =
      Some \<lparr>hs_digest = snapshot_digest sample_bytes id (sample_dashboard ''running''),
            hs_value = sample_dashboard ''running'', hs_arrived_whole = whole\<rparr>) \<and>
   json_get ''snapshot'' sample_delta = None"
proof
  have asked: "db_reads sample_reached (0, 0) = Some (Answered (Some sample_held) (sample_dashboard ''running'') sample_delta)"
    by (simp add: sample_reached_def sample_after_def)
  show "\<exists>whole. merge sample_delta (Some sample_held) =
      Some \<lparr>hs_digest = snapshot_digest sample_bytes id (sample_dashboard ''running''),
            hs_value = sample_dashboard ''running'', hs_arrived_whole = whole\<rparr>"
    using phones_hold_what_the_host_read [OF sample_phone_reached sample_dashboards_sorted sample_digests_tell] asked by blast
  show "json_get ''snapshot'' sample_delta = None"
    by (simp add: sample_delta_def diff_def Let_def split: prod.split)
qed

end
