(* ===== verification/Spec2Isabelle.thy ===== *)
theory Spec2Isabelle
  imports Lifecycle Routing_Follow_Up Goals Approvals Questions Flush_Delivery Follow_Up_Safety Launch_Safety Routine_Safety Notice_Safety
    After_Turn_Safety PR_Watch_Safety Unified_Diff
    Transcript_Pages Dashboard_Phones
begin

text \<open>
  A verification development for Argmax, the desktop host of coding agents. The subject is its Rust
  host, \<^verbatim>\<open>src-tauri/src\<close>: it keeps chats (sessions) with provider CLIs in a SQLite database, chooses the
  model that runs a turn, records what the provider prints, and mediates everything a turn waits
  for: approvals, questions, follow-ups, goals.

  \<^bold>\<open>Parts and theories.\<close>

  \<^item> \<open>Prelude\<close>: results as sums with \<open>and_then\<close>, the errors of \<^verbatim>\<open>error.rs\<close>, keyed rows, and the locale of
    systems with an invariant that the step relations below interpret. \<open>Rust_Text\<close> and \<open>Json\<close>: the
    text operations of the standard library over UTF-8 bytes, and JSON values.
  \<^item> \<open>Lifecycle\<close> (\<^verbatim>\<open>workspaces/lifecycle.rs\<close>): admissions and archive leases of a workspace. Guards
    and leases are explicit tokens, dropping one is an operation.
  \<^item> \<open>Routing_Table\<close>, \<open>Routing_Decide\<close>, \<open>Routing_Reroute\<close>, \<open>Routing_Follow_Up\<close>, \<open>Jev\<close>, \<open>Pricing\<close>
    (\<^verbatim>\<open>routing/table.rs, mod.rs, directive.rs, reroute.rs, jev.rs\<close>, \<^verbatim>\<open>providers/pricing.rs\<close>): which
    model and effort a launch and a follow-up get, from a prompt's directive, a classification and what
    the providers support, and what it costs.
  \<^item> \<open>Session_State\<close>, \<open>Store\<close>, \<open>Questions_Pending\<close>, \<open>Approvals\<close>, \<open>Questions\<close>, \<open>Goals\<close>
    (\<^verbatim>\<open>sessions/\<close>, \<^verbatim>\<open>persistence/sessions.rs, approvals.rs, events.rs, goals.rs\<close>, \<^verbatim>\<open>approvals/service.rs\<close>,
    \<^verbatim>\<open>questions/service.rs\<close>, \<^verbatim>\<open>goals/service.rs\<close>): the rows, the attention a chat asks for, and the three
    services that hold a turn until someone answers or that drive it on.
  \<^item> \<open>Usage\<close>, \<open>Flush_Store\<close>, \<open>Flush_Queue\<close>, \<open>Flush_Delivery\<close> (\<^verbatim>\<open>persistence/usage.rs\<close>,
    \<^verbatim>\<open>providers/flush_queue.rs\<close>): the path of provider output from the pipe through line cutting and a
    normalizer into one transaction per batch.
  \<^item> \<open>Validation\<close> (\<^verbatim>\<open>application/validation.rs\<close>): the parsers of everything the user interface sends.
  \<^item> \<open>Inbox\<close>, \<open>Pending_Messages\<close>, \<open>Follow_Up_Queue\<close>, \<open>Follow_Up_Tasks\<close>, \<open>Follow_Up_Safety\<close>
    (\<^verbatim>\<open>persistence/session_messages.rs, pending_messages.rs\<close>, \<^verbatim>\<open>providers/session_service.rs\<close>): messages between
    chats and the follow-ups that wait for a turn to end, in memory and in the journal.
  \<^item> \<open>Launch_Receipts\<close>, \<open>Launch_Agent\<close>, \<open>Launch_Safety\<close> (\<^verbatim>\<open>persistence/launch_receipts.rs\<close>,
    \<^verbatim>\<open>session_control/actions/launch.rs\<close>): launches that agents ask for under a key, and their retries.
  \<^item> \<open>Routine_Store\<close>, \<open>Routine_Edits\<close>, \<open>Routine_Fire\<close>, \<open>Routine_Safety\<close> (\<^verbatim>\<open>routines/\<close>,
    \<^verbatim>\<open>persistence/routines.rs\<close>, \<^verbatim>\<open>ipc/routines.rs\<close>): scheduled tasks, their edits and their firings.
  \<^item> \<open>Control_Registry\<close>, \<open>After_Turn\<close>, \<open>After_Turn_Safety\<close> (\<^verbatim>\<open>session_control/registry.rs\<close>,
    \<^verbatim>\<open>session_control/actions/move_archive.rs, resume.rs\<close>, \<^verbatim>\<open>persistence/after_turn.rs\<close>): the tokens agents call
    with, and the move, archive or checkout removal a chat is promised for the end of its turn.
  \<^item> \<open>PR_Watch_Store\<close>, \<open>PR_Watch_Pass\<close>, \<open>PR_Watch_Reports\<close>, \<open>PR_Watch_Safety\<close> (\<^verbatim>\<open>gh/watch.rs\<close>,
    \<^verbatim>\<open>persistence/pr_watches.rs\<close>): pull requests a chat watches, what a reading of GitHub reports, and its delivery.
  \<^item> \<open>Unified_Diff\<close> (\<^verbatim>\<open>providers/unified_diff.rs\<close>): the diff of a written file, from its line match to its text.
  \<^item> \<open>Change_Feed\<close>, \<open>Transcript_Replica\<close>, \<open>Transcript_Pages\<close> (\<^verbatim>\<open>persistence/events.rs, migrations.rs\<close>,
    \<^verbatim>\<open>remote/transcript_trim.rs\<close>, \<^verbatim>\<open>ipc/catalogue.rs\<close>): the transcript tables with the feed their triggers keep, what
    readers get of them, a reader that follows the feed, and the pages cut for the phone.
  \<^item> \<open>Dashboard_Changes\<close>, \<open>Dashboard_Phones\<close> (\<^verbatim>\<open>remote/dashboard_changes.rs\<close> and, of the phone, \<^verbatim>\<open>DashboardChanges.swift\<close>):
    the dashboard as deltas against what a phone holds, with reads of several phones in flight.
  \<^item> \<open>Notice_Text\<close>, \<open>Notices\<close>, \<open>Notice_Safety\<close> (\<^verbatim>\<open>providers/completion_notices.rs\<close>): what a launched chat's
    turn end leaves for its launcher, and when the launcher is woken.

  \<^bold>\<open>How state and operations correspond.\<close> A struct is a record, an enum a datatype with the source's
  constructors, a table the list of its rows in insertion order, a hash map a map. A function of the source
  is a definition of the same name; where it is long, its parts are definitions and the
  whole composes them in the code's order. A string is the list of its UTF-8 bytes. The clock, new
  ids and whether SQLite refuses a statement are arguments; so is every answer that comes from
  outside the process (provider, classifier, normalizer, evaluator). A mutex-protected
  section is one function on the state, asynchronous code is a relation whose steps are those sections,
  so that every interleaving of tasks is a path. Errors are values of \<open>argmax_error\<close>.

  \<^bold>\<open>What the lemmas show.\<close> For each table and service, an invariant kept by every operation, and what every
  branch returns. On these rest the properties: gates stay closed while an archive runs;
  routing decides for every input, stays on an installed provider and never weakens a chat
  without evidence; approvals and questions settle once and tell the provider what is recorded; a goal's
  driver ends; output is written exactly once and in order although transactions fail; usage is billed
  once; follow-ups survive restarts, mirror the journal and are not sent twice; a retried launch starts one chat;
  a delivered one-shot task fires once and a firing leaves edits alone; no completion wake is lost, and every
  result a launcher is woken for is in its inbox uncut; a promised disposal survives restarts until it is
  carried out or called off; a watch's notice is delivered under an id of its own and nothing is reported twice; a diff is shortest and
  applies to the file it was made from; a reader of a transcript converges to what is stored
  and the phone's backfill sends every row; merged deltas give the phone the dashboard the host read; parsed values keep the bounds of their types.

  \<^bold>\<open>Bounds and fuel.\<close> The goal driver runs on the list of what the outside answers it, one entry per
  round; three times its turns are proved to be enough entries, whatever they say. Escalation chains end because strength grows in a finite table. All
  other recursion is structural or has a termination proof. Counters are unbounded naturals and
  costs are reals: 64-bit overflow and rounding are outside the model.

  \<^bold>\<open>Not modelled.\<close> The user interfaces (TypeScript, Swift), but for the phone's merge of deltas; Tauri commands and windows; git, gh, browsers,
  terminals and provider processes (I/O around external programs); SQLite and its migrations; the
  normalizers of provider streams, which are an argument of the flush queue; logging and counters.

  \<^bold>\<open>Plan.\<close> Next: Arcs and the policy of dangerous actions.
\<close>

end
